(* ===== verification/Prelude.thy ===== *)
theory Prelude
  imports Main "HOL-Library.Word"
begin

text \<open>
  What every theory of the development shares: the exceptions the C++ code throws, as values; the
  result type of a function that may throw, with its sequencing operator; checked and unchecked
  access to a \<open>std::vector\<close>; the byte type; and a few list lemmas.

  A C++ call that returns is \<open>Inr\<close> of its value, a call that throws is \<open>Inl\<close> of the exception.
  Behaviour the C++ standard leaves undefined (an index past the end with \<open>operator[]\<close>, a write past
  an array, a division by zero) is the exception value \<open>UndefinedBehaviour\<close>, so that no theorem can
  say a computation returned when the code did something undefined on the way.
\<close>

section \<open>Exceptions and results\<close>

datatype exn =
    OutOfRange
  | UndefinedBehaviour string
  | InvalidArgument string
  | TlvError string
  | BlockError string
  | ComponentError string
  | NameError string
  | ConversionError string
  | StringHelperError string
  | ProcessExit int
  | ExcludeError string
  | SelectorsError string
  | InterestError string
  | DataError string
  | MetaInfoError string
  | SignatureError string
  | KeyLocatorError string
  | StorageError string
  | FaceError string
  | LpError string
  | LengthError string
  | RegexError string
  | BoostError string
  | BadFunctionCall
  | AssertionFailed

type_synonym 'a result = "exn + 'a"

fun bindE :: "'a result \<Rightarrow> ('a \<Rightarrow> 'b result) \<Rightarrow> 'b result" where
  "bindE (Inl e) f = Inl e"
| "bindE (Inr x) f = f x"

lemma bindE_Inr_conv:
  "bindE m f = Inr y \<longleftrightarrow> (\<exists>x. m = Inr x \<and> f x = Inr y)"
  by (cases m) auto

lemma bindE_Inl_conv:
  "bindE m f = Inl e \<longleftrightarrow> m = Inl e \<or> (\<exists>x. m = Inr x \<and> f x = Inl e)"
  by (cases m) auto

lemma bindE_assoc: "bindE (bindE m f) g = bindE m (\<lambda>x. bindE (f x) g)"
  by (cases m) auto

lemma bindE_return [simp]: "bindE m Inr = m"
  by (cases m) auto

lemma bindE_cong [fundef_cong]:
  assumes "m = m'" and "\<And>x. m' = Inr x \<Longrightarrow> f x = g x"
  shows "bindE m f = bindE m' g"
  using assms by (cases m') auto

text \<open>A loop over a container whose body may throw: the first exception ends it.\<close>

fun mapE :: "('a \<Rightarrow> 'b result) \<Rightarrow> 'a list \<Rightarrow> 'b list result" where
  "mapE f [] = Inr []"
| "mapE f (x # xs) = bindE (f x) (\<lambda>y. bindE (mapE f xs) (\<lambda>ys. Inr (y # ys)))"

fun foldE :: "('s \<Rightarrow> 'a \<Rightarrow> 's result) \<Rightarrow> 's \<Rightarrow> 'a list \<Rightarrow> 's result" where
  "foldE f s [] = Inr s"
| "foldE f s (x # xs) = bindE (f s x) (\<lambda>s'. foldE f s' xs)"

lemma mapE_cong [fundef_cong]:
  assumes "xs = ys" and "\<And>x. x \<in> set ys \<Longrightarrow> f x = g x"
  shows "mapE f xs = mapE g ys"
  using assms by (induction ys arbitrary: xs) (auto intro!: bindE_cong)

lemma mapE_total: "(\<And>x. x \<in> set xs \<Longrightarrow> f x = Inr (g x)) \<Longrightarrow> mapE f xs = Inr (map g xs)"
  by (induction xs) auto

lemma mapE_length: "mapE f xs = Inr ys \<Longrightarrow> length ys = length xs"
  by (induction xs arbitrary: ys) (auto simp: bindE_Inr_conv)

lemma mapE_nth: "mapE f xs = Inr ys \<Longrightarrow> i < length xs \<Longrightarrow> f (xs ! i) = Inr (ys ! i)"
proof (induction xs arbitrary: ys i)
  case (Cons x xs)
  then show ?case by (cases i) (auto simp: bindE_Inr_conv)
qed simp

lemma mapE_append:
  "mapE f (xs @ ys) = bindE (mapE f xs) (\<lambda>us. bindE (mapE f ys) (\<lambda>vs. Inr (us @ vs)))"
  by (induction xs) (simp_all add: bindE_assoc)

lemma foldE_append: "foldE f s (xs @ ys) = bindE (foldE f s xs) (\<lambda>s'. foldE f s' ys)"
  by (induction xs arbitrary: s) (simp_all add: bindE_assoc)

lemma foldE_total: "(\<And>s x. x \<in> set xs \<Longrightarrow> f s x = Inr (g s x)) \<Longrightarrow> foldE f s xs = Inr (foldl g s xs)"
  by (induction xs arbitrary: s) auto

lemma foldE_id: "(\<And>x. x \<in> set xs \<Longrightarrow> f s x = Inr s) \<Longrightarrow> foldE f s xs = Inr s"
  by (induction xs) auto

lemma foldE_invariant:
  assumes "foldE f s xs = Inr s'" and "I s"
    and "\<And>s x t. x \<in> set xs \<Longrightarrow> I s \<Longrightarrow> f s x = Inr t \<Longrightarrow> I t"
  shows "I s'"
  using assms
proof (induction xs arbitrary: s)
  case (Cons x xs)
  then obtain t where "f s x = Inr t" and "foldE f t xs = Inr s'" by (auto simp: bindE_Inr_conv)
  with Cons show ?case by (meson list.set_intros)
qed simp


text \<open>
  A computation that may also fail to return: \<open>None\<close> when a loop of it runs forever.
\<close>

type_synonym 'a run = "'a result option"

fun bindO :: "'a run \<Rightarrow> ('a \<Rightarrow> 'b run) \<Rightarrow> 'b run" where
  "bindO None f = None"
| "bindO (Some (Inl e)) f = Some (Inl e)"
| "bindO (Some (Inr x)) f = f x"

lemma bindO_Inr_conv:
  "bindO m f = Some (Inr y) \<longleftrightarrow> (\<exists>x. m = Some (Inr x) \<and> f x = Some (Inr y))"
  by (cases "(m, f)" rule: bindO.cases) auto

lemma bindO_cong [fundef_cong]:
  assumes "m = m'" and "\<And>x. m' = Some (Inr x) \<Longrightarrow> f x = g x"
  shows "bindO m f = bindO m' g"
  using assms by (cases "(m', f)" rule: bindO.cases) auto

fun foldO :: "('s \<Rightarrow> 'a \<Rightarrow> 's run) \<Rightarrow> 's \<Rightarrow> 'a list \<Rightarrow> 's run" where
  "foldO f s [] = Some (Inr s)"
| "foldO f s (x # xs) = bindO (f s x) (\<lambda>s'. foldO f s' xs)"

lemma foldO_append: "foldO f s (xs @ ys) = bindO (foldO f s xs) (\<lambda>s'. foldO f s' ys)"
proof (induction xs arbitrary: s)
  case (Cons x xs)
  then show ?case by (cases "f s x" rule: option.exhaust, simp, rename_tac r, case_tac r, simp_all)
qed simp

fun mapO :: "('a \<Rightarrow> 'b run) \<Rightarrow> 'a list \<Rightarrow> 'b list run" where
  "mapO f [] = Some (Inr [])"
| "mapO f (x # xs) = bindO (f x) (\<lambda>y. bindO (mapO f xs) (\<lambda>ys. Some (Inr (y # ys))))"

lemma mapO_cong [fundef_cong]:
  assumes "xs = ys" and "\<And>x. x \<in> set ys \<Longrightarrow> f x = g x"
  shows "mapO f xs = mapO g ys"
  using assms by (induction ys arbitrary: xs) (auto intro!: bindO_cong)

lemma mapO_total:
  "(\<And>x. x \<in> set xs \<Longrightarrow> f x = Some (Inr (g x))) \<Longrightarrow> mapO f xs = Some (Inr (map g xs))"
  by (induction xs) auto


section \<open>Access to a vector\<close>

text \<open>\<open>v.at(i)\<close> checks the index and throws \<open>std::out_of_range\<close>; \<open>v[i]\<close> and a read through a
  pointer do not check.\<close>

definition vec_at :: "'a list \<Rightarrow> nat \<Rightarrow> 'a result" where
  "vec_at xs i = (if i < length xs then Inr (xs ! i) else Inl OutOfRange)"

definition idx :: "'a list \<Rightarrow> nat \<Rightarrow> 'a result" where
  "idx xs i = (if i < length xs then Inr (xs ! i) else Inl (UndefinedBehaviour ''index''))"

lemma vec_at_simps [simp]:
  "i < length xs \<Longrightarrow> vec_at xs i = Inr (xs ! i)"
  "length xs \<le> i \<Longrightarrow> vec_at xs i = Inl OutOfRange"
  by (auto simp: vec_at_def)

lemma idx_simps [simp]:
  "i < length xs \<Longrightarrow> idx xs i = Inr (xs ! i)"
  "length xs \<le> i \<Longrightarrow> idx xs i = Inl (UndefinedBehaviour ''index'')"
  by (auto simp: idx_def)

lemma vec_at_Inr_conv: "vec_at xs i = Inr x \<longleftrightarrow> i < length xs \<and> xs ! i = x"
  by (auto simp: vec_at_def)

lemma idx_Inr_conv: "idx xs i = Inr x \<longleftrightarrow> i < length xs \<and> xs ! i = x"
  by (auto simp: idx_def)

lemma mapE_vec_at_upt:
  assumes "a \<le> b" and "b \<le> length xs"
  shows "mapE (vec_at xs) [a..<b] = Inr (take (b - a) (drop a xs))"
proof -
  have "mapE (vec_at xs) [a..<b] = Inr (map (\<lambda>i. xs ! i) [a..<b])"
    using assms by (intro mapE_total) auto
  also have "map (\<lambda>i. xs ! i) [a..<b] = take (b - a) (drop a xs)"
    using assms by (intro nth_equalityI) auto
  finally show ?thesis .
qed

lemma mapE_idx_upt:
  assumes "a \<le> b" and "b \<le> length xs"
  shows "mapE (idx xs) [a..<b] = Inr (take (b - a) (drop a xs))"
proof -
  have "mapE (idx xs) [a..<b] = mapE (vec_at xs) [a..<b]"
    using assms by (intro mapE_cong) auto
  then show ?thesis using mapE_vec_at_upt [OF assms] by simp
qed


text \<open>An index of type \<open>int\<close> is converted to \<open>size_t\<close>: a negative one becomes a number no vector
  is as long as.\<close>

definition vec_at_int :: "'a list \<Rightarrow> int \<Rightarrow> 'a result" where
  "vec_at_int xs i = (if 0 \<le> i then vec_at xs (nat i) else Inl OutOfRange)"

lemma vec_at_int_simps [simp]:
  "vec_at_int xs (int n) = vec_at xs n"
  "i < 0 \<Longrightarrow> vec_at_int xs i = Inl OutOfRange"
  by (auto simp: vec_at_int_def)


section \<open>Machine integers\<close>

text \<open>The result of an operation on \<open>int\<close>: overflow is undefined behaviour.\<close>

definition int32 :: "int \<Rightarrow> int result" where
  "int32 x = (if - (2 ^ 31) \<le> x \<and> x < 2 ^ 31 then Inr x
     else Inl (UndefinedBehaviour ''signed overflow''))"

lemma int32_ok [simp]: "- 2147483648 \<le> x \<Longrightarrow> x < 2147483648 \<Longrightarrow> int32 x = Inr x"
  by (simp add: int32_def)


text \<open>A loop over an \<open>int\<close> range with non-negative bounds.\<close>

lemma upto_nat: "0 \<le> a \<Longrightarrow> [a..b - 1] = map int [nat a..<nat b]"
  by (intro nth_equalityI) (auto simp: nth_append)

lemma filter_singleton:
  "distinct xs \<Longrightarrow> filter (\<lambda>x. x = a) xs = (if a \<in> set xs then [a] else [])"
  by (induction xs) auto


section \<open>Decimal numerals\<close>

text \<open>The digits \<open>std::to_string\<close>, \<open>lexical_cast\<close> and the conversion \<open>%d\<close> print.\<close>

fun dec :: "nat \<Rightarrow> string" where
  "dec n = (if n < 10 then [char_of (48 + n)] else dec (n div 10) @ [char_of (48 + n mod 10)])"

declare dec.simps [simp del]

lemma dec_digit: "n < 10 \<Longrightarrow> dec n = [char_of (48 + n)]"
  by (simp add: dec.simps)

lemma dec_length: "10 \<le> n \<Longrightarrow> 2 \<le> length (dec n)"
  by (subst dec.simps, subst dec.simps) simp

lemma dec_digit_inj: "i < 10 \<Longrightarrow> j < 10 \<Longrightarrow> dec i = dec j \<longleftrightarrow> i = j"
proof -
  assume "i < 10" and "j < 10"
  then have "dec i = dec j \<Longrightarrow> of_char (char_of (48 + i)) = (of_char (char_of (48 + j)) :: nat)"
    by (simp add: dec_digit)
  with \<open>i < 10\<close> \<open>j < 10\<close> show ?thesis by auto
qed


section \<open>Bytes\<close>

type_synonym byte = "8 word"
type_synonym bytes = "byte list"

lemma unat_byte_bound [simp]: "unat (b :: byte) < 256"
  using unsigned_less [of b] by simp

end
