(* ===== verification/Letter.thy ===== *)
theory Letter
  imports Prelude
begin

text \<open>
  The class \<open>Letter\<close> of \<open>lib/Letter.cpp\<close> and its private copy \<open>Letter2\<close> of \<open>ocr.cpp\<close>: a glyph with
  the matrix of its pixels and the place it was found at, and its export to and import from a flat
  \<open>int\<close> array. A matrix is the list of its columns. The \<open>char\<close> is 8 bits wide and signed, as on
  x86; the conversions of the code are \<open>sint\<close> and \<open>word_of_int\<close>.
\<close>

section \<open>Letter\<close>

type_synonym matrix = "int list list"

record letter =
  glyph :: byte
  pixels :: matrix
  posx :: int
  posy :: int

definition new_letter :: "matrix \<Rightarrow> letter" where
  "new_letter m = \<lparr>glyph = 42, pixels = m, posx = 0, posy = 0\<rparr>"

text \<open>
  The loops of \<open>exportLetter\<close> write \<open>data[cols * i + j]\<close>. Rows and columns are read from the first
  column, and a ragged matrix is indexed without a check.
\<close>

fun put :: "'a list \<Rightarrow> nat \<Rightarrow> 'a \<Rightarrow> 'a list result" where
  "put d i v = (if i < length d then Inr (d[i := v]) else Inl (UndefinedBehaviour ''index''))"

definition export_matrix :: "matrix \<Rightarrow> nat \<Rightarrow> nat \<Rightarrow> int list \<Rightarrow> int list result" where
  "export_matrix m rows cols data =
     foldE (\<lambda>d i. foldE (\<lambda>d j. bindE (idx m i) (\<lambda>col. bindE (idx col j) (\<lambda>v. put d (cols * i + j) v)))
       d [0..<cols]) data [0..<rows]"

definition exportLetter :: "letter \<Rightarrow> int list \<Rightarrow> int list result" where
  "exportLetter l data =
     bindE (idx (pixels l) 0) (\<lambda>c0.
     let rows = length (pixels l); cols = length c0 in
     bindE (export_matrix (pixels l) rows cols data) (\<lambda>d.
     bindE (put d (rows * cols + 0) (posx l)) (\<lambda>d.
     bindE (put d (rows * cols + 1) (posy l)) (\<lambda>d.
     put d (rows * cols + 2) (sint (glyph l))))))"

definition import_matrix :: "int list \<Rightarrow> nat \<Rightarrow> nat \<Rightarrow> matrix result" where
  "import_matrix data rows cols =
     mapE (\<lambda>i. mapE (\<lambda>j. idx data (cols * i + j)) [0..<cols]) [0..<rows]"

definition importLetter :: "int list \<Rightarrow> nat \<Rightarrow> nat \<Rightarrow> letter result" where
  "importLetter data rows cols =
     bindE (import_matrix data rows cols) (\<lambda>m.
     let l = new_letter m in
     bindE (idx data (rows * cols + 0)) (\<lambda>px. let l = l\<lparr>posx := px\<rparr> in
     bindE (idx data (rows * cols + 1)) (\<lambda>py. let l = l\<lparr>posy := py\<rparr> in
     bindE (idx data (rows * cols + 2)) (\<lambda>c. Inr (l\<lparr>glyph := word_of_int c\<rparr>)))))"


section \<open>Rectangular matrices\<close>

definition rect :: "matrix \<Rightarrow> nat \<Rightarrow> nat \<Rightarrow> bool" where
  "rect m rows cols \<longleftrightarrow> length m = rows \<and> (\<forall>c \<in> set m. length c = cols)"

lemma rect_length: "rect m r c \<Longrightarrow> length m = r"
  by (simp add: rect_def)

lemma rect_nth: "rect m r c \<Longrightarrow> i < r \<Longrightarrow> length (m ! i) = c"
  by (auto simp: rect_def)

lemma rect_map: "rect (map f [0..<r]) r c \<longleftrightarrow> (\<forall>i<r. length (f i) = c)"
  by (auto simp: rect_def)

text \<open>The flat layout of a rectangular matrix is the concatenation of its columns.\<close>

lemma concat_rect_length: "rect m r c \<Longrightarrow> length (concat m) = r * c"
proof (induction m arbitrary: r)
  case (Cons x m)
  then have "rect m (r - 1) c" and "length x = c" and "r = Suc (length m)" by (auto simp: rect_def)
  with Cons.IH [of "r - 1"] show ?case by (simp add: algebra_simps)
qed (simp add: rect_def)

lemma concat_rect_nth:
  assumes "rect m r c" and "i < r" and "j < c"
  shows "concat m ! (c * i + j) = m ! i ! j"
  using assms
proof (induction m arbitrary: i r)
  case (Cons x m)
  then have r: "rect m (r - 1) c" and x: "length x = c" by (auto simp: rect_def)
  show ?case
  proof (cases i)
    case 0
    with Cons.prems x show ?thesis by (simp add: nth_append)
  next
    case (Suc k)
    then have "k < r - 1" using Cons.prems by simp
    then have "concat m ! (c * k + j) = m ! k ! j" using Cons.IH r Cons.prems by blast
    moreover have "c * i + j = length x + (c * k + j)" using Suc x by (simp add: algebra_simps)
    ultimately show ?thesis using Suc by (simp add: nth_append)
  qed
qed (simp add: rect_def)


section \<open>Export and import\<close>

text \<open>After \<open>k\<close> writes of a column the array agrees with the column on them.\<close>

lemma foldE_put:
  assumes "length xs + off \<le> length d"
  shows "foldE (\<lambda>d j. bindE (idx xs j) (\<lambda>v. put d (off + j) v)) d [0..<length xs]
    = Inr (take off d @ xs @ drop (off + length xs) d)"
proof -
  have "foldE (\<lambda>d j. bindE (idx xs j) (\<lambda>v. put d (off + j) v)) d [0..<k]
      = Inr (take off d @ take k xs @ drop (off + k) d)" if "k \<le> length xs" for k
    using that
  proof (induction k)
    case (Suc k)
    then have "(take off d @ take k xs @ drop (off + k) d)[off + k := xs ! k]
        = take off d @ take (Suc k) xs @ drop (off + Suc k) d"
      using assms by (intro nth_equalityI) (auto simp: nth_append nth_list_update take_Suc_conv_app_nth)
    with Suc assms show ?case by (simp add: foldE_append)
  qed simp
  then show ?thesis by simp
qed

lemma export_matrix_concat:
  assumes "rect m r c" and "r * c \<le> length d"
  shows "export_matrix m r c d = Inr (concat m @ drop (r * c) d)"
proof -
  let ?f = "\<lambda>d i. foldE (\<lambda>d j. bindE (idx m i) (\<lambda>col. bindE (idx col j) (\<lambda>v. put d (c * i + j) v))) d [0..<c]"
  have "foldE ?f d [0..<k] = Inr (concat (take k m) @ drop (k * c) d)" if "k \<le> r" for k
    using that
  proof (induction k)
    case (Suc k)
    let ?d = "concat (take k m) @ drop (k * c) d"
    have rk: "rect (take k m) k c" using assms(1) Suc.prems by (auto simp: rect_def dest: in_set_takeD)
    have lk: "length (concat (take k m)) = k * c" by (rule concat_rect_length [OF rk])
    have kr: "k < r" using Suc.prems by simp
    then have mk: "idx m k = Inr (m ! k)" and lc: "length (m ! k) = c"
      using assms(1) by (auto simp: rect_length rect_nth)
    have "Suc k * c \<le> r * c" using Suc.prems by (rule mult_le_mono1)
    then have fit: "Suc k * c \<le> length d" using assms(2) by linarith
    have "?f ?d k = foldE (\<lambda>d j. bindE (idx (m ! k) j) (\<lambda>v. put d (c * k + j) v)) ?d [0..<length (m ! k)]"
      by (simp add: mk lc)
    also have "\<dots> = Inr (take (c * k) ?d @ m ! k @ drop (c * k + length (m ! k)) ?d)"
      using fit lk lc by (intro foldE_put) (simp add: algebra_simps)
    also have "\<dots> = Inr (concat (take (Suc k) m) @ drop (Suc k * c) d)"
      using lk lc kr assms(1) by (simp add: take_Suc_conv_app_nth rect_length algebra_simps)
    finally show ?case using Suc by (simp add: foldE_append)
  qed simp
  from this [of r] show ?thesis using assms(1) by (simp add: export_matrix_def rect_length)
qed

lemma exportLetter_data:
  assumes "rect (pixels l) r c" and "0 < r" and "length d = r * c + 3"
  shows "exportLetter l d = Inr (concat (pixels l) @ [posx l, posy l, sint (glyph l)])"
proof -
  let ?m = "concat (pixels l)"
  have lm: "length ?m = r * c" using assms(1) by (rule concat_rect_length)
  have "length (drop (r * c) d) = Suc (Suc (Suc 0))" using assms(3) by simp
  then obtain a b e where d: "drop (r * c) d = [a, b, e]"
    by (auto simp only: length_Suc_conv length_0_conv)
  have "export_matrix (pixels l) r c d = Inr (?m @ [a, b, e])"
    using export_matrix_concat [OF assms(1), of d] assms(3) d by simp
  then show ?thesis
    using assms lm by (simp add: exportLetter_def rect_length rect_nth list_update_append)
qed

lemma import_matrix_concat:
  assumes "rect m r c"
  shows "import_matrix (concat m @ rest) r c = Inr m"
proof -
  have "idx (concat m @ rest) (c * i + j) = Inr (m ! i ! j)" if "i < r" "j < c" for i j
  proof -
    have "Suc i * c \<le> r * c" using that(1) by (intro mult_le_mono1) simp
    then have "c * i + j < r * c" using that(2) by (simp add: algebra_simps)
    then show ?thesis
      using concat_rect_length [OF assms] concat_rect_nth [OF assms that] by (simp add: nth_append)
  qed
  then have "import_matrix (concat m @ rest) r c = Inr (map (\<lambda>i. map (\<lambda>j. m ! i ! j) [0..<c]) [0..<r])"
    unfolding import_matrix_def by (intro mapE_total) auto
  also have "map (\<lambda>i. map (\<lambda>j. m ! i ! j) [0..<c]) [0..<r] = m"
    using assms by (intro nth_equalityI) (auto simp: rect_length rect_nth)
  finally show ?thesis .
qed

lemma importLetter_data:
  assumes "rect m r c"
  shows "importLetter (concat m @ x # y # g # rest) r c
    = Inr \<lparr>glyph = word_of_int g, pixels = m, posx = x, posy = y\<rparr>"
  using import_matrix_concat [OF assms] concat_rect_length [OF assms]
  by (simp add: importLetter_def new_letter_def nth_append)

text \<open>
  Storing a letter in the flat format of the template files and reading it back gives the same
  letter, whatever the array held before, for every rectangular glyph with at least one column.
\<close>

theorem import_export_letter:
  assumes "rect (pixels l) rows cols" and "0 < rows" and "length data = rows * cols + 3"
  shows "bindE (exportLetter l data) (\<lambda>d. importLetter d rows cols) = Inr l"
  using exportLetter_data [OF assms] importLetter_data [OF assms(1), of _ _ _ "[]"]
  by simp

theorem import_export_letter_witness:
  "bindE (exportLetter \<lparr>glyph = 65, pixels = [[0, 255], [255, 0], [0, 0]], posx = 4, posy = 2\<rparr> [0, 0, 0, 0, 0, 0, 0, 0, 0])
     (\<lambda>d. importLetter d 3 2)
   = Inr \<lparr>glyph = 65, pixels = [[0, 255], [255, 0], [0, 0]], posx = 4, posy = 2\<rparr>"
  by (rule import_export_letter) (simp_all add: rect_def)


section \<open>Letter2\<close>

text \<open>
  \<open>ocr.cpp\<close> repeats the class under the name \<open>Letter2\<close>, with the same members and the same code.
\<close>

record letter2 =
  glyph2 :: byte
  pixels2 :: matrix
  posx2 :: int
  posy2 :: int

definition new_letter2 :: "matrix \<Rightarrow> letter2" where
  "new_letter2 m = \<lparr>glyph2 = 42, pixels2 = m, posx2 = 0, posy2 = 0\<rparr>"

definition exportLetter2 :: "letter2 \<Rightarrow> int list \<Rightarrow> int list result" where
  "exportLetter2 l data =
     bindE (idx (pixels2 l) 0) (\<lambda>c0.
     let rows = length (pixels2 l); cols = length c0 in
     bindE (export_matrix (pixels2 l) rows cols data) (\<lambda>d.
     bindE (put d (rows * cols + 0) (posx2 l)) (\<lambda>d.
     bindE (put d (rows * cols + 1) (posy2 l)) (\<lambda>d.
     put d (rows * cols + 2) (sint (glyph2 l))))))"

definition importLetter2 :: "int list \<Rightarrow> nat \<Rightarrow> nat \<Rightarrow> letter2 result" where
  "importLetter2 data rows cols =
     bindE (import_matrix data rows cols) (\<lambda>m.
     let l = new_letter2 m in
     bindE (idx data (rows * cols + 0)) (\<lambda>px. let l = l\<lparr>posx2 := px\<rparr> in
     bindE (idx data (rows * cols + 1)) (\<lambda>py. let l = l\<lparr>posy2 := py\<rparr> in
     bindE (idx data (rows * cols + 2)) (\<lambda>c. Inr (l\<lparr>glyph2 := word_of_int c\<rparr>)))))"

text \<open>The two classes have the same contents.\<close>

definition as_letter :: "letter2 \<Rightarrow> letter" where
  "as_letter l = \<lparr>glyph = glyph2 l, pixels = pixels2 l, posx = posx2 l, posy = posy2 l\<rparr>"

lemma as_letter_simps [simp]:
  "glyph (as_letter l) = glyph2 l" "pixels (as_letter l) = pixels2 l"
  "posx (as_letter l) = posx2 l" "posy (as_letter l) = posy2 l"
  by (simp_all add: as_letter_def)

lemma importLetter_as_letter:
  "importLetter data rows cols = map_sum id as_letter (importLetter2 data rows cols)"
proof (cases "import_matrix data rows cols")
  case (Inr m)
  then show ?thesis
    by (simp add: importLetter_def importLetter2_def new_letter_def new_letter2_def as_letter_def idx_def)
qed (simp add: importLetter_def importLetter2_def)

lemma exportLetter_as_letter: "exportLetter (as_letter l) = exportLetter2 l"
  by (simp add: exportLetter_def exportLetter2_def fun_eq_iff)

end
