(* ===== verification/FindLetters.thy ===== *)
theory FindLetters
  imports Letter
begin

text \<open>
  The segmentation of an image into letters: \<open>find_letters\<close> of \<open>lib/processing.cpp\<close>, whose loop
  \<open>ocr.cpp\<close> repeats for its own letter class. The three edges are the \<open>int\<close> variables of the code with
  -1 for "not found yet"; a column is scanned top to bottom, columns left to right. The loop is
  parametrised by how a shape becomes a letter, so that both copies are instances of it.
\<close>

section \<open>The scan\<close>

record 'l scan_state =
  leftEdge :: int
  topEdge :: int
  bottomEdge :: int
  shapes :: "'l list"

definition scan_pixel ::
  "int \<Rightarrow> matrix \<Rightarrow> nat \<Rightarrow> 'l scan_state \<times> bool \<Rightarrow> nat \<Rightarrow> ('l scan_state \<times> bool) result" where
  "scan_pixel threshold m x st y =
     (case st of (s, found) \<Rightarrow>
        bindE (vec_at m x) (\<lambda>col. bindE (vec_at col y) (\<lambda>p.
          if p < threshold then
            Inr (if topEdge s < 0 \<or> int y < topEdge s then s\<lparr>topEdge := int y\<rparr> else s, True)
          else if y > 0 then
            bindE (vec_at col (y - 1)) (\<lambda>q.
              if q < threshold \<and> (bottomEdge s < 0 \<or> int y > bottomEdge s)
              then Inr (s\<lparr>bottomEdge := int y\<rparr>, found) else Inr (s, found))
          else Inr (s, found))))"

definition sub_matrix :: "matrix \<Rightarrow> int \<Rightarrow> int \<Rightarrow> int \<Rightarrow> int \<Rightarrow> matrix result" where
  "sub_matrix m left x tp bottom =
     mapE (\<lambda>subx. mapE (\<lambda>suby. bindE (vec_at_int m subx) (\<lambda>col. vec_at_int col suby)) [tp..bottom - 1])
       [left..x - 1]"

definition scan_column ::
  "(matrix \<Rightarrow> int \<Rightarrow> int \<Rightarrow> 'l) \<Rightarrow> int \<Rightarrow> matrix \<Rightarrow> 'l scan_state \<Rightarrow> nat \<Rightarrow> 'l scan_state result" where
  "scan_column mk threshold m s x =
     bindE (vec_at m 0) (\<lambda>c0.
     bindE (foldE (scan_pixel threshold m x) (s, False) [0..<length c0]) (\<lambda>(s, found).
       if found then Inr (if leftEdge s < 0 then s\<lparr>leftEdge := int x\<rparr> else s)
       else if leftEdge s > 0 then
         bindE (sub_matrix m (leftEdge s) (int x) (topEdge s) (bottomEdge s)) (\<lambda>sub.
         Inr \<lparr>leftEdge = -1, topEdge = -1, bottomEdge = -1,
              shapes = shapes s @ [mk sub (leftEdge s) (topEdge s)]\<rparr>)
       else Inr s))"

definition scan_init :: "'l scan_state" where
  "scan_init = \<lparr>leftEdge = -1, topEdge = -1, bottomEdge = -1, shapes = []\<rparr>"

definition scan_image :: "(matrix \<Rightarrow> int \<Rightarrow> int \<Rightarrow> 'l) \<Rightarrow> int \<Rightarrow> matrix \<Rightarrow> 'l list result" where
  "scan_image mk threshold m =
     bindE (foldE (scan_column mk threshold m) scan_init [0..<length m]) (\<lambda>s. Inr (shapes s))"

text \<open>A shape becomes a letter of its pixels, placed where it was found.\<close>

definition letter_at :: "matrix \<Rightarrow> int \<Rightarrow> int \<Rightarrow> letter" where
  "letter_at sub left tp = (new_letter sub)\<lparr>posx := left, posy := tp\<rparr>"

definition find_letters :: "int \<Rightarrow> matrix \<Rightarrow> letter list result" where
  "find_letters threshold m = scan_image letter_at threshold m"


section \<open>What a shape is\<close>

definition dark_col :: "int \<Rightarrow> matrix \<Rightarrow> nat \<Rightarrow> bool" where
  "dark_col th m x \<longleftrightarrow> list_ex (\<lambda>p. p < th) (m ! x)"

text \<open>A maximal run of dark columns with a blank column before and after it.\<close>

definition is_blob :: "int \<Rightarrow> matrix \<Rightarrow> nat \<Rightarrow> nat \<Rightarrow> bool" where
  "is_blob th m l r \<longleftrightarrow>
     0 < l \<and> l < r \<and> \<not> dark_col th m (l - 1) \<and> list_all (dark_col th m) [l..<r] \<and> \<not> dark_col th m r"

definition blobs_upto :: "int \<Rightarrow> matrix \<Rightarrow> nat \<Rightarrow> (nat \<times> nat) list" where
  "blobs_upto th m n = concat (map (\<lambda>r. map (\<lambda>l. (l, r)) (filter (\<lambda>l. is_blob th m l r) [1..<r])) [0..<n])"

definition blobs :: "int \<Rightarrow> matrix \<Rightarrow> (nat \<times> nat) list" where
  "blobs th m = blobs_upto th m (length m)"

text \<open>Its rows: from the first dark one to the last row that is light just below a dark pixel.\<close>

definition dark_rows :: "int \<Rightarrow> matrix \<Rightarrow> nat \<Rightarrow> nat \<Rightarrow> nat \<Rightarrow> nat list" where
  "dark_rows th m h l r = filter (\<lambda>y. list_ex (\<lambda>x. m ! x ! y < th) [l..<r]) [0..<h]"

definition edge_rows :: "int \<Rightarrow> matrix \<Rightarrow> nat \<Rightarrow> nat \<Rightarrow> nat \<Rightarrow> nat list" where
  "edge_rows th m h l r = filter (\<lambda>y. list_ex (\<lambda>x. m ! x ! (y - 1) < th \<and> \<not> m ! x ! y < th) [l..<r]) [1..<h]"

definition min_or :: "nat set \<Rightarrow> int" where
  "min_or S = (if S = {} then -1 else int (Min S))"

definition max_or :: "nat set \<Rightarrow> int" where
  "max_or S = (if S = {} then -1 else int (Max S))"

definition blob_letter :: "(matrix \<Rightarrow> int \<Rightarrow> int \<Rightarrow> 'l) \<Rightarrow> int \<Rightarrow> matrix \<Rightarrow> nat \<Rightarrow> nat \<times> nat \<Rightarrow> 'l" where
  "blob_letter mk th m h b =
     (case b of (l, r) \<Rightarrow>
        let tp = min_or (set (dark_rows th m h l r)); bottom = max_or (set (edge_rows th m h l r))
        in mk (map (\<lambda>x. map (\<lambda>y. m ! x ! y) [nat tp..<nat bottom]) [l..<r]) (int l) tp)"

lemma min_or_insert:
  "finite S \<Longrightarrow> min_or (insert y S) = (if min_or S < 0 \<or> int y < min_or S then int y else min_or S)"
  by (cases "S = {}") (simp_all add: min_or_def min_def del: Min_ge_iff Min_gr_iff Min_le_iff Min_less_iff)

lemma max_or_insert:
  "finite S \<Longrightarrow> max_or (insert y S) = (if max_or S < 0 \<or> int y > max_or S then int y else max_or S)"
  by (cases "S = {}") (simp_all add: max_or_def max_def del: Max_ge_iff Max_gr_iff Max_le_iff Max_less_iff)


section \<open>One column\<close>

definition dark_in :: "int \<Rightarrow> matrix \<Rightarrow> nat \<Rightarrow> nat \<Rightarrow> nat set" where
  "dark_in th m x k = {y. y < k \<and> m ! x ! y < th}"

definition edge_in :: "int \<Rightarrow> matrix \<Rightarrow> nat \<Rightarrow> nat \<Rightarrow> nat set" where
  "edge_in th m x k = {y. 0 < y \<and> y < k \<and> m ! x ! (y - 1) < th \<and> \<not> m ! x ! y < th}"

lemma dark_in_simps [simp]:
  "dark_in th m x 0 = {}"
  "dark_in th m x (Suc k) = (if m ! x ! k < th then insert k (dark_in th m x k) else dark_in th m x k)"
  "finite (dark_in th m x k)"
  by (auto simp: dark_in_def less_Suc_eq)

lemma edge_in_simps [simp]:
  "edge_in th m x 0 = {}"
  "edge_in th m x (Suc k) =
     (if 0 < k \<and> m ! x ! (k - 1) < th \<and> \<not> m ! x ! k < th then insert k (edge_in th m x k) else edge_in th m x k)"
  "finite (edge_in th m x k)"
  by (auto simp: edge_in_def less_Suc_eq)

lemma scan_pixels:
  assumes "rect m n h" and "x < n" and "finite T" and "finite B"
    and "topEdge s = min_or T" and "bottomEdge s = max_or B" and "k \<le> h"
  shows "foldE (scan_pixel th m x) (s, False) [0..<k]
    = Inr (s\<lparr>topEdge := min_or (T \<union> dark_in th m x k), bottomEdge := max_or (B \<union> edge_in th m x k)\<rparr>,
           dark_in th m x k \<noteq> {})"
  using assms(7)
proof (induction k)
  case 0
  show ?case using assms(5,6) by simp
next
  case (Suc k)
  have "vec_at m x = Inr (m ! x)" and "k < length (m ! x)" and "k - 1 < length (m ! x)"
    using assms(1,2) Suc.prems by (simp_all add: rect_length rect_nth)
  moreover have "finite (T \<union> dark_in th m x k)" and "finite (B \<union> edge_in th m x k)"
    using assms(3,4) by simp_all
  ultimately show ?case
    using Suc by (simp add: foldE_append scan_pixel_def min_or_insert max_or_insert)
qed

lemma dark_col_iff:
  assumes "rect m n h" and "x < n"
  shows "dark_col th m x \<longleftrightarrow> dark_in th m x h \<noteq> {}"
  using rect_nth [OF assms] by (auto simp: dark_col_def dark_in_def list_ex_length)

lemma edge_in_dark: "edge_in th m x k \<noteq> {} \<Longrightarrow> dark_in th m x k \<noteq> {}"
  by (auto simp: edge_in_def dark_in_def) (metis less_imp_diff_less)


section \<open>All columns\<close>

text \<open>The first column of the run of dark columns that ends just before \<open>k\<close>.\<close>

fun run_start :: "int \<Rightarrow> matrix \<Rightarrow> nat \<Rightarrow> nat" where
  "run_start th m 0 = 0"
| "run_start th m (Suc k) = (if dark_col th m k then run_start th m k else Suc k)"

lemma run_start_le: "run_start th m k \<le> k"
  by (induction k) auto

lemma run_start_dark: "run_start th m k \<le> x \<Longrightarrow> x < k \<Longrightarrow> dark_col th m x"
  by (induction k) (auto simp: less_Suc_eq split: if_splits)

lemma run_start_blank: "0 < run_start th m k \<Longrightarrow> \<not> dark_col th m (run_start th m k - 1)"
  by (induction k) auto

lemma run_start_pos: "\<not> dark_col th m 0 \<Longrightarrow> 0 < k \<Longrightarrow> 0 < run_start th m k"
proof (induction k)
  case (Suc k)
  then show ?case by (cases "k = 0") auto
qed simp

lemma is_blob_run_start:
  assumes "is_blob th m l r"
  shows "l = run_start th m r"
proof (rule antisym)
  have l: "0 < l" "l < r" "\<not> dark_col th m (l - 1)" "\<And>x. l \<le> x \<Longrightarrow> x < r \<Longrightarrow> dark_col th m x"
    using assms by (auto simp: is_blob_def list_all_iff)
  show "l \<le> run_start th m r"
    using l(1-3) run_start_dark [of th m r "l - 1"] by linarith
  show "run_start th m r \<le> l"
  proof (rule ccontr)
    assume "\<not> run_start th m r \<le> l"
    then have "l \<le> run_start th m r - 1" "run_start th m r - 1 < r" "0 < run_start th m r"
      using run_start_le [of th m r] by linarith+
    with l(4) run_start_blank show False by blast
  qed
qed

lemma filter_blob:
  assumes "\<not> dark_col th m 0"
  shows "filter (\<lambda>l. is_blob th m l r) [1..<r]
    = (if run_start th m r < r \<and> \<not> dark_col th m r then [run_start th m r] else [])"
proof (cases "run_start th m r < r \<and> \<not> dark_col th m r")
  case True
  then have "0 < run_start th m r" using run_start_pos [OF assms] by simp
  then have "is_blob th m (run_start th m r) r"
    using True run_start_blank run_start_dark by (auto simp: is_blob_def list_all_iff)
  then have "filter (\<lambda>l. is_blob th m l r) [1..<r] = filter (\<lambda>l. l = run_start th m r) [1..<r]"
    using is_blob_run_start by (intro filter_cong) blast+
  also have "\<dots> = [run_start th m r]"
    using True \<open>0 < run_start th m r\<close> by (subst filter_singleton) auto
  finally show ?thesis using True by simp
next
  case False
  then have "\<not> is_blob th m l r" for l
    using is_blob_run_start [of th m l r] by (auto simp: is_blob_def)
  with False show ?thesis by simp
qed

lemma blobs_upto_Suc:
  assumes "\<not> dark_col th m 0"
  shows "blobs_upto th m (Suc k) = blobs_upto th m k @
    (if run_start th m k < k \<and> \<not> dark_col th m k then [(run_start th m k, k)] else [])"
  using filter_blob [OF assms, of k] by (auto simp: blobs_upto_def)

text \<open>The dark rows and the bottom rows of a run of columns.\<close>

definition run_dark :: "int \<Rightarrow> matrix \<Rightarrow> nat \<Rightarrow> nat \<Rightarrow> nat \<Rightarrow> nat set" where
  "run_dark th m h l r = (\<Union>x\<in>{l..<r}. dark_in th m x h)"

definition run_edge :: "int \<Rightarrow> matrix \<Rightarrow> nat \<Rightarrow> nat \<Rightarrow> nat \<Rightarrow> nat set" where
  "run_edge th m h l r = (\<Union>x\<in>{l..<r}. edge_in th m x h)"

lemma run_sets_finite [simp]: "finite (run_dark th m h l r)" "finite (run_edge th m h l r)"
  by (simp_all add: run_dark_def run_edge_def)

lemma run_sets_Suc:
  assumes "l \<le> r"
  shows "run_dark th m h l (Suc r) = run_dark th m h l r \<union> dark_in th m r h"
    and "run_edge th m h l (Suc r) = run_edge th m h l r \<union> edge_in th m r h"
  using assms by (auto simp: run_dark_def run_edge_def atLeastLessThanSuc)

lemma run_sets_empty [simp]: "run_dark th m h l l = {}" "run_edge th m h l l = {}"
  by (simp_all add: run_dark_def run_edge_def)

lemma dark_rows_run: "set (dark_rows th m h l r) = run_dark th m h l r"
  by (auto simp: dark_rows_def run_dark_def dark_in_def list_ex_iff)

lemma edge_rows_run: "set (edge_rows th m h l r) = run_edge th m h l r"
  by (auto simp: edge_rows_def run_edge_def edge_in_def list_ex_iff)

definition scan_after :: "(matrix \<Rightarrow> int \<Rightarrow> int \<Rightarrow> 'l) \<Rightarrow> int \<Rightarrow> matrix \<Rightarrow> nat \<Rightarrow> nat \<Rightarrow> 'l scan_state" where
  "scan_after mk th m h k =
     (let l = run_start th m k in
      \<lparr>leftEdge = (if l < k then int l else -1),
       topEdge = min_or (run_dark th m h l k), bottomEdge = max_or (run_edge th m h l k),
       shapes = map (blob_letter mk th m h) (blobs_upto th m k)\<rparr>)"

lemma sub_matrix_run:
  assumes "rect m n h" and "r \<le> n" and "0 \<le> tp" and "bottom < int h"
  shows "sub_matrix m (int l) (int r) tp bottom
    = Inr (map (\<lambda>x. map (\<lambda>y. m ! x ! y) [nat tp..<nat bottom]) [l..<r])"
proof -
  have cols: "[int l..int r - 1] = map int [l..<r]" using upto_nat [of "int l" "int r"] by simp
  have rows: "[tp..bottom - 1] = map int [nat tp..<nat bottom]" using assms(3) by (rule upto_nat)
  have "bindE (vec_at_int m (int x)) (\<lambda>col. vec_at_int col (int y)) = Inr (m ! x ! y)"
    if "x \<in> set [l..<r]" "y \<in> set [nat tp..<nat bottom]" for x y
  proof -
    have "x < n" "y < h" using that assms(2,4) by auto
    then show ?thesis using assms(1) by (simp add: rect_length rect_nth)
  qed
  then have "mapE (\<lambda>subx. mapE (\<lambda>suby. bindE (vec_at_int m subx) (\<lambda>col. vec_at_int col suby))
      (map int [nat tp..<nat bottom])) (map int [l..<r])
    = Inr (map (\<lambda>subx. map (\<lambda>suby. m ! nat subx ! nat suby) (map int [nat tp..<nat bottom])) (map int [l..<r]))"
    by (intro mapE_total) auto
  then show ?thesis by (simp add: sub_matrix_def cols rows comp_def)
qed

lemma scan_column_after:
  assumes "rect m n h" and "k < n" and "\<not> dark_col th m 0"
  shows "scan_column mk th m (scan_after mk th m h k) k = Inr (scan_after mk th m h (Suc k))"
proof -
  let ?s = "scan_after mk th m h k" and ?l = "run_start th m k"
  let ?T = "run_dark th m h ?l k" and ?B = "run_edge th m h ?l k"
  have c0: "vec_at m 0 = Inr (m ! 0)" "length (m ! 0) = h"
    using assms(1,2) by (simp_all add: rect_length rect_nth)
  have pixels: "foldE (scan_pixel th m k) (?s, False) [0..<h]
      = Inr (?s\<lparr>topEdge := min_or (?T \<union> dark_in th m k h), bottomEdge := max_or (?B \<union> edge_in th m k h)\<rparr>,
             dark_col th m k)"
    using scan_pixels [OF assms(1,2), of ?T ?B ?s h th] dark_col_iff [OF assms(1,2), of th]
    by (simp add: scan_after_def Let_def)
  show ?thesis
  proof (cases "dark_col th m k")
    case True
    then show ?thesis
      using c0 pixels run_start_le [of th m k] assms(3)
      by (auto simp: scan_column_def scan_after_def Let_def run_sets_Suc blobs_upto_Suc)
  next
    case False
    then have blank: "dark_in th m k h = {}" "edge_in th m k h = {}"
      using dark_col_iff [OF assms(1,2), of th] edge_in_dark by blast+
    show ?thesis
    proof (cases "?l < k")
      case run: True
      have l0: "0 < ?l" using run run_start_pos [OF assms(3)] by simp
      have "dark_in th m ?l h \<noteq> {}"
        using run assms(2) run_start_dark [of th m k ?l] dark_col_iff [OF assms(1), of ?l th] by simp
      then have "?T \<noteq> {}" using run by (auto simp: run_dark_def)
      then have top: "0 \<le> min_or ?T" by (simp add: min_or_def)
      have bottom: "max_or ?B < int h"
        by (cases "?B = {}") (auto simp: max_or_def run_edge_def edge_in_def)
      have "sub_matrix m (int ?l) (int k) (min_or ?T) (max_or ?B)
          = Inr (map (\<lambda>x. map (\<lambda>y. m ! x ! y) [nat (min_or ?T)..<nat (max_or ?B)]) [?l..<k])"
        using assms(1,2) top bottom by (intro sub_matrix_run) auto
      then show ?thesis
        using c0 pixels run l0 False blank assms(3)
        by (simp add: scan_column_def scan_after_def Let_def blobs_upto_Suc blob_letter_def
            dark_rows_run edge_rows_run min_or_def [of "{}"] max_or_def [of "{}"])
    next
      case norun: False
      then have "?l = k" using run_start_le [of th m k] by simp
      then show ?thesis
        using c0 pixels False blank assms(3)
        by (simp add: scan_column_def scan_after_def Let_def blobs_upto_Suc)
    qed
  qed
qed

lemma scan_image_blank:
  assumes "rect m n h" and "n = 0 \<or> \<not> dark_col th m 0"
  shows "scan_image mk th m = Inr (map (blob_letter mk th m h) (blobs th m))"
proof -
  have "foldE (scan_column mk th m) scan_init [0..<k] = Inr (scan_after mk th m h k)" if "k \<le> n" for k
    using that
  proof (induction k)
    case 0
    show ?case by (simp add: scan_init_def scan_after_def blobs_upto_def min_or_def max_or_def)
  next
    case (Suc k)
    then show ?case using scan_column_after [OF assms(1), of k th] assms(2) by (simp add: foldE_append)
  qed
  from this [of n] show ?thesis
    using assms(1) by (simp add: scan_image_def rect_length blobs_def scan_after_def Let_def)
qed

text \<open>
  A dark pixel in the first column: the left edge becomes 0 and stays 0, since only a left edge
  greater than 0 ends a shape, so no letter of the whole image is ever found.
\<close>

lemma scan_image_dark_first:
  fixes mk :: "matrix \<Rightarrow> int \<Rightarrow> int \<Rightarrow> 'l"
  assumes "rect m n h" and "0 < n" and "dark_col th m 0"
  shows "scan_image mk th m = Inr []"
proof -
  have c0: "vec_at m 0 = Inr (m ! 0)" "length (m ! 0) = h"
    using assms(1,2) by (simp_all add: rect_length rect_nth)
  have "\<exists>T B. finite T \<and> finite B \<and> foldE (scan_column mk th m) scan_init [0..<Suc k]
      = Inr \<lparr>leftEdge = 0, topEdge = min_or T, bottomEdge = max_or B, shapes = []\<rparr>" if "k < n" for k
    using that
  proof (induction k)
    case 0
    have "foldE (scan_pixel th m 0) (scan_init :: 'l scan_state, False) [0..<h]
        = Inr (scan_init\<lparr>topEdge := min_or (dark_in th m 0 h), bottomEdge := max_or (edge_in th m 0 h)\<rparr>, True)"
      using scan_pixels [OF assms(1,2), of "{}" "{}" "scan_init :: 'l scan_state" h th] dark_col_iff [OF assms(1,2)] assms(3)
      by (simp add: scan_init_def min_or_def max_or_def)
    with c0 show ?case
      by (rule_tac exI [of _ "dark_in th m 0 h"], rule_tac exI [of _ "edge_in th m 0 h"])
        (simp add: scan_column_def scan_init_def)
  next
    case (Suc k)
    then obtain T B where TB: "finite T" "finite B" and
      st: "foldE (scan_column mk th m) scan_init [0..<Suc k]
        = Inr \<lparr>leftEdge = 0, topEdge = min_or T, bottomEdge = max_or B, shapes = []\<rparr>" by auto
    let ?s = "\<lparr>leftEdge = 0, topEdge = min_or T, bottomEdge = max_or B, shapes = []\<rparr> :: 'l scan_state"
    let ?T = "T \<union> dark_in th m (Suc k) h" and ?B = "B \<union> edge_in th m (Suc k) h"
    have "scan_column mk th m ?s (Suc k)
        = Inr \<lparr>leftEdge = 0, topEdge = min_or ?T, bottomEdge = max_or ?B, shapes = []\<rparr>"
      using scan_pixels [OF assms(1) Suc.prems TB, of ?s h th] c0 by (simp add: scan_column_def)
    then have "foldE (scan_column mk th m) scan_init ([0..<Suc k] @ [Suc k])
        = Inr \<lparr>leftEdge = 0, topEdge = min_or ?T, bottomEdge = max_or ?B, shapes = []\<rparr>"
      by (simp only: foldE_append st bindE.simps foldE.simps)
    moreover have "finite ?T" "finite ?B" using TB by simp_all
    ultimately show ?case by (metis upt_Suc_append zero_le)
  qed
  from this [of "n - 1"] show ?thesis
    using assms(1,2) by (auto simp: scan_image_def rect_length)
qed


section \<open>find\_letters\<close>

text \<open>
  C31. Segmentation: for a rectangular image whose first column has no dark pixel, the letters found
  are exactly the maximal runs of dark columns that a blank column ends, in order from left to
  right, each cut out between its first dark row and the last row that is light just below a dark
  pixel, and placed at its left column and top row.
\<close>

theorem find_letters_blobs:
  assumes "rect m n h" and "n = 0 \<or> \<not> dark_col th m 0"
  shows "find_letters th m = Inr (map (blob_letter letter_at th m h) (blobs th m))"
  using scan_image_blank [OF assms] by (simp add: find_letters_def)

theorem find_letters_blobs_witness:
  "find_letters 127 [[255, 255, 255], [255, 0, 255], [255, 255, 255]]
   = Inr (map (blob_letter letter_at 127 [[255, 255, 255], [255, 0, 255], [255, 255, 255]] 3)
       (blobs 127 [[255, 255, 255], [255, 0, 255], [255, 255, 255]]))"
  by (rule find_letters_blobs [of _ 3]) (simp_all add: rect_def dark_col_def)

text \<open>
  A letter that touches the left border hides the whole text: when the first column of a
  rectangular image has a dark pixel, no letter is found at all, however many the image has.
\<close>

theorem find_letters_dark_first:
  assumes "rect m n h" and "0 < n" and "dark_col th m 0"
  shows "find_letters th m = Inr []"
  using scan_image_dark_first [OF assms] by (simp add: find_letters_def)

theorem find_letters_dark_first_witness:
  "find_letters 127 [[0, 255], [255, 255], [0, 255], [255, 255]] = Inr []"
  by (rule find_letters_dark_first [of _ 4 2]) (simp_all add: rect_def dark_col_def)

text \<open>The pixels and the size of a shape.\<close>

lemma blobs_upto_set: "(l, r) \<in> set (blobs_upto th m n) \<longleftrightarrow> r < n \<and> is_blob th m l r"
  by (force simp: blobs_upto_def is_blob_def)

lemma blobs_set: "(l, r) \<in> set (blobs th m) \<longleftrightarrow> r < length m \<and> is_blob th m l r"
  by (simp add: blobs_def blobs_upto_set)

lemma blob_letter_rect:
  "rect (pixels (blob_letter letter_at th m h (l, r))) (r - l)
     (nat (max_or (set (edge_rows th m h l r))) - nat (min_or (set (dark_rows th m h l r))))"
  by (auto simp: blob_letter_def letter_at_def new_letter_def rect_def Let_def)

text \<open>A shape none of whose dark pixels has a light pixel below it is cut out with height zero.\<close>

lemma blob_letter_no_edge:
  "edge_rows th m h l r = [] \<Longrightarrow> rect (pixels (blob_letter letter_at th m h (l, r))) (r - l) 0"
  using blob_letter_rect [of th m h l r] by (simp add: max_or_def)

text \<open>The scan commutes with a change of the letter class.\<close>

definition map_scan :: "('l \<Rightarrow> 'k) \<Rightarrow> 'l scan_state \<Rightarrow> 'k scan_state" where
  "map_scan f s = \<lparr>leftEdge = leftEdge s, topEdge = topEdge s, bottomEdge = bottomEdge s,
     shapes = map f (shapes s)\<rparr>"

lemma map_scan_simps [simp]:
  "leftEdge (map_scan f s) = leftEdge s" "topEdge (map_scan f s) = topEdge s"
  "bottomEdge (map_scan f s) = bottomEdge s" "shapes (map_scan f s) = map f (shapes s)"
  "map_scan f \<lparr>leftEdge = l, topEdge = t, bottomEdge = b, shapes = ls\<rparr>
    = \<lparr>leftEdge = l, topEdge = t, bottomEdge = b, shapes = map f ls\<rparr>"
  "map_scan f (s\<lparr>leftEdge := l\<rparr>) = (map_scan f s)\<lparr>leftEdge := l\<rparr>"
  "map_scan f (s\<lparr>topEdge := l\<rparr>) = (map_scan f s)\<lparr>topEdge := l\<rparr>"
  "map_scan f (s\<lparr>bottomEdge := l\<rparr>) = (map_scan f s)\<lparr>bottomEdge := l\<rparr>"
  by (simp_all add: map_scan_def)

lemma scan_pixel_map:
  "scan_pixel th m x (map_scan f s, b) y = map_sum id (map_prod (map_scan f) id) (scan_pixel th m x (s, b) y)"
  by (auto simp: scan_pixel_def vec_at_def)

lemma scan_pixels_map:
  "foldE (scan_pixel th m x) (map_scan f s, b) ys
     = map_sum id (map_prod (map_scan f) id) (foldE (scan_pixel th m x) (s, b) ys)"
proof (induction ys arbitrary: s b)
  case (Cons y ys)
  show ?case
    by (cases "scan_pixel th m x (s, b) y") (auto simp: scan_pixel_map Cons.IH)
qed simp

lemma scan_column_map:
  assumes "\<And>sub x y. mk' sub x y = f (mk sub x y)"
  shows "scan_column mk' th m (map_scan f s) x = map_sum id (map_scan f) (scan_column mk th m s x)"
proof (cases "vec_at m 0")
  case (Inr c0)
  show ?thesis
  proof (cases "foldE (scan_pixel th m x) (s, False) [0..<length c0]")
    case (Inr r)
    obtain s' found where r: "r = (s', found)" by fastforce
    show ?thesis
      by (cases "sub_matrix m (leftEdge s') (int x) (topEdge s') (bottomEdge s')")
        (simp_all add: scan_column_def \<open>vec_at m 0 = Inr c0\<close> Inr r scan_pixels_map assms)
  qed (simp add: scan_column_def Inr scan_pixels_map)
qed (simp add: scan_column_def)

lemma scan_image_map:
  assumes "\<And>sub x y. mk' sub x y = f (mk sub x y)"
  shows "scan_image mk' th m = map_sum id (map f) (scan_image mk th m)"
proof -
  have "foldE (scan_column mk' th m) (map_scan f s) xs = map_sum id (map_scan f) (foldE (scan_column mk th m) s xs)" for s xs
  proof (induction xs arbitrary: s)
    case (Cons x xs)
    then show ?case
      using scan_column_map [of mk' f mk th m s x, OF assms] by (cases "scan_column mk th m s x") simp_all
  qed simp
  moreover have "scan_init = map_scan f scan_init" by (simp add: scan_init_def map_scan_def)
  ultimately have "foldE (scan_column mk' th m) scan_init [0..<length m]
      = map_sum id (map_scan f) (foldE (scan_column mk th m) scan_init [0..<length m])" by metis
  then show ?thesis
    by (cases "foldE (scan_column mk th m) scan_init [0..<length m]") (simp_all add: scan_image_def)
qed

end
