(* ===== verification/Dbl.thy ===== *)
theory Dbl
  imports Prelude Complex_Main "HOL-Library.Log_Nat"
begin

text \<open>
  The C++ \<open>double\<close> as the recognition code uses it: IEEE 754 binary64, round to nearest with ties
  to even, on non-negative values. A finite value is the rational it denotes; every operation
  rounds the exact result to 53 significant bits. The exponent range is not bounded: the values
  the code computes lie between \<open>2 powi -31\<close> and \<open>2 powi 63\<close>, far inside the range of a normal
  double. Division by zero gives infinity or NaN, as in the code, and comparisons with NaN are
  false.
\<close>

section \<open>Rounding to 53 bits\<close>

definition round_even :: "rat \<Rightarrow> int" where
  "round_even x =
     (let f = \<lfloor>x\<rfloor>; d = x - of_int f
      in if d < 1 / 2 then f else if 1 / 2 < d then f + 1 else if even f then f else f + 1)"

definition dexp :: "rat \<Rightarrow> int" where
  "dexp x =
     (let (p, q) = quotient_of x; e = bitlen p - bitlen q - 53
      in if x / 2 powi e < 2 ^ 53 then e else e + 1)"

definition rnd_pos :: "rat \<Rightarrow> rat" where
  "rnd_pos x = (let e = dexp x in of_int (round_even (x / 2 powi e)) * 2 powi e)"

definition rnd :: "rat \<Rightarrow> rat" where
  "rnd x = (if x = 0 then 0 else if x < 0 then - rnd_pos (- x) else rnd_pos x)"

lemma rnd_zero [simp]: "rnd 0 = 0"
  by (simp add: rnd_def)

lemma round_even_error: "\<bar>of_int (round_even x) - x\<bar> \<le> 1 / 2"
proof -
  have "of_int \<lfloor>x\<rfloor> \<le> x" and "x < of_int \<lfloor>x\<rfloor> + 1" by linarith+
  then show ?thesis unfolding round_even_def Let_def by auto
qed

lemma round_even_of_int [simp]: "round_even (of_int n) = n"
  by (simp add: round_even_def)

lemma bitlen_rat_bounds:
  assumes "0 < p"
  shows "2 powi (bitlen p - 1) \<le> (of_int p :: rat)" and "(of_int p :: rat) < 2 powi bitlen p"
proof -
  have b: "2 ^ nat (bitlen p - 1) \<le> p \<and> p < 2 ^ nat (bitlen p)" and pos: "0 < bitlen p"
    using assms bitlen_bounds [of p] bitlen_eq_zero_iff [of p] bitlen_nonneg [of p] by (auto simp: order_less_le)
  have "(2::rat) powi (bitlen p - 1) = of_int (2 ^ nat (bitlen p - 1))"
    and "(2::rat) powi bitlen p = of_int (2 ^ nat (bitlen p))"
    using pos by (simp_all add: power_int_def)
  with b show "2 powi (bitlen p - 1) \<le> (of_int p :: rat)" and "(of_int p :: rat) < 2 powi bitlen p"
    by (simp_all only: of_int_le_iff of_int_less_iff)
qed

lemma dexp_bounds:
  assumes "0 < x"
  shows "2 ^ 52 \<le> x / 2 powi dexp x" and "x / 2 powi dexp x < 2 ^ 53"
proof -
  obtain p q where pq: "quotient_of x = (p, q)" by fastforce
  then have q: "0 < q" and x: "x = of_int p / of_int q"
    by (auto dest: quotient_of_denom_pos quotient_of_div)
  with assms have p: "0 < p" by (simp add: zero_less_divide_iff)
  define e where "e = bitlen p - bitlen q - 53"
  have dexp: "dexp x = (if x / 2 powi e < 2 ^ 53 then e else e + 1)"
    by (simp add: dexp_def pq e_def)
  have lo: "2 powi (bitlen p - 1) / 2 powi bitlen q \<le> x"
    unfolding x using bitlen_rat_bounds [OF p] bitlen_rat_bounds [OF q] p q
    by (intro frac_le) (auto intro: less_imp_le)
  have hi: "x < 2 powi bitlen p / 2 powi (bitlen q - 1)"
    unfolding x using bitlen_rat_bounds [OF p] bitlen_rat_bounds [OF q] p
    by (intro frac_less) (auto intro: less_imp_le)
  have "2 powi (bitlen p - 1) / 2 powi bitlen q = (2::rat) powi (52 + e)"
    and "2 powi bitlen p / 2 powi (bitlen q - 1) = (2::rat) powi (54 + e)"
    by (simp_all add: e_def power_int_diff [symmetric] algebra_simps)
  then have "2 ^ 52 * 2 powi e \<le> x" and "x < 2 ^ 54 * 2 powi e"
    using lo hi by (simp_all add: power_int_add)
  moreover have "(0::rat) < 2 powi e" by simp
  ultimately have "2 ^ 52 \<le> x / 2 powi e" and "x / 2 powi e < 2 ^ 54"
    by (simp_all add: field_simps)
  moreover have "x / 2 powi (e + 1) = x / 2 powi e / 2"
    by (simp add: power_int_add)
  ultimately show "2 ^ 52 \<le> x / 2 powi dexp x" and "x / 2 powi dexp x < 2 ^ 53"
    by (auto simp: dexp)
qed

text \<open>The relative error of one rounding.\<close>

definition u53 :: rat where "u53 = 1 / 2 ^ 53"

lemma u53_bounds [simp]: "0 < u53" "0 \<le> u53" "u53 < 1" "u53 \<le> 1"
  by (simp_all add: u53_def)

lemma rnd_error:
  assumes "0 \<le> x"
  shows "\<bar>rnd x - x\<bar> \<le> u53 * x"
proof (cases "x = 0")
  case False
  with assms have x: "0 < x" by simp
  define e where "e = dexp x"
  define y where "y = x / 2 powi e"
  have E: "(0::rat) < 2 powi e" by simp
  have y: "2 ^ 52 \<le> y" using dexp_bounds(1) [OF x] by (simp add: y_def e_def)
  have xy: "x = y * 2 powi e" by (simp add: y_def)
  have "rnd x - x = (of_int (round_even y) - y) * 2 powi e"
    using x by (simp add: rnd_def rnd_pos_def e_def [symmetric] y_def [symmetric] left_diff_distrib xy [symmetric])
  then have "\<bar>rnd x - x\<bar> = \<bar>of_int (round_even y) - y\<bar> * 2 powi e"
    by (simp add: abs_mult)
  also have "\<dots> \<le> 1 / 2 * 2 powi e"
    using round_even_error E by (intro mult_right_mono) auto
  also have "1 / 2 \<le> u53 * y" using y by (simp add: u53_def)
  then have "1 / 2 * 2 powi e \<le> u53 * y * 2 powi e" using E by (intro mult_right_mono) auto
  also have "u53 * y * 2 powi e = u53 * x" by (simp add: xy)
  finally show ?thesis .
qed simp

lemma rnd_bounds:
  assumes "0 \<le> x"
  shows "x * (1 - u53) \<le> rnd x" and "rnd x \<le> x * (1 + u53)"
  using rnd_error [OF assms] by (auto simp add: distrib_left right_diff_distrib abs_le_iff mult.commute [of x u53])

lemma rnd_nonneg: "0 \<le> x \<Longrightarrow> 0 \<le> rnd x"
  using rnd_bounds(1) [of x] by (auto intro: order_trans [rotated])

lemma rnd_pos: "0 < x \<Longrightarrow> 0 < rnd x"
  using rnd_bounds(1) [of x] by (auto intro: less_le_trans [rotated])

text \<open>Integers below \<open>2 ^ 53\<close> are represented exactly.\<close>

lemma dexp_nonpos:
  assumes "0 < x" and "x < 2 ^ 53"
  shows "dexp x \<le> 0"
proof (rule ccontr)
  assume "\<not> dexp x \<le> 0"
  then have "2 powi 1 \<le> (2::rat) powi dexp x" by (intro power_int_increasing) auto
  then have "x / 2 powi dexp x \<le> x / 2"
    using assms by (intro divide_left_mono) auto
  with dexp_bounds(1) [OF assms(1)] assms(2) show False by simp
qed

lemma rnd_of_nat [simp]:
  assumes "n < 2 ^ 53"
  shows "rnd (of_nat n) = of_nat n"
proof (cases "n = 0")
  case False
  let ?x = "of_nat n :: rat"
  have "(of_nat n :: rat) < of_nat (2 ^ 53)" using assms by (simp only: of_nat_less_iff)
  then have x: "0 < ?x" "?x < 2 ^ 53" using False by simp_all
  define k where "k = nat (- dexp ?x)"
  have "dexp ?x = - int k" using dexp_nonpos [OF x] by (simp add: k_def)
  then have k: "(2::rat) powi dexp ?x = 1 / 2 ^ k"
    by (simp only: power_int_minus power_int_of_nat inverse_eq_divide)
  have "?x / 2 powi dexp ?x = of_int (int n * 2 ^ k)"
    by (simp add: k)
  then have "round_even (?x / 2 powi dexp ?x) = int n * 2 ^ k"
    by (simp only: round_even_of_int)
  then have "rnd_pos ?x = of_int (int n * 2 ^ k) * (1 / 2 ^ k)"
    by (simp only: rnd_pos_def Let_def k)
  also have "\<dots> = ?x" by simp
  finally show ?thesis using x by (simp add: rnd_def)
qed simp


section \<open>Doubles\<close>

datatype dbl = Fin rat | PInf | NaN

fun dadd :: "dbl \<Rightarrow> dbl \<Rightarrow> dbl" where
  "dadd (Fin a) (Fin b) = Fin (rnd (a + b))"
| "dadd NaN _ = NaN"
| "dadd _ NaN = NaN"
| "dadd _ _ = PInf"

text \<open>Division and product of two non-negative values that are exact doubles.\<close>

definition ddiv :: "rat \<Rightarrow> rat \<Rightarrow> dbl" where
  "ddiv a b = (if b = 0 then if a = 0 then NaN else PInf else Fin (rnd (a / b)))"

fun dless :: "dbl \<Rightarrow> dbl \<Rightarrow> bool" where
  "dless (Fin a) (Fin b) \<longleftrightarrow> a < b"
| "dless (Fin a) PInf \<longleftrightarrow> True"
| "dless _ _ \<longleftrightarrow> False"

text \<open>The implicit conversion of a finite non-negative double to an unsigned integer truncates.\<close>

fun dtrunc :: "dbl \<Rightarrow> nat result" where
  "dtrunc (Fin a) = Inr (nat \<lfloor>a\<rfloor>)"
| "dtrunc _ = Inl (UndefinedBehaviour ''float to integer'')"


section \<open>Sums of a step\<close>

text \<open>The loop counter of \<open>for (double x = 0; x < lim; x += w)\<close> after \<open>k\<close> iterations.\<close>

fun dsteps :: "dbl \<Rightarrow> nat \<Rightarrow> dbl" where
  "dsteps w 0 = Fin 0"
| "dsteps w (Suc k) = dadd (dsteps w k) w"

fun psteps :: "rat \<Rightarrow> nat \<Rightarrow> rat" where
  "psteps w 0 = 0"
| "psteps w (Suc k) = rnd (psteps w k + w)"

lemma dsteps_Fin [simp]: "dsteps (Fin w) k = Fin (psteps w k)"
  by (induction k) auto

lemma psteps_nonneg: "0 \<le> w \<Longrightarrow> 0 \<le> psteps w k"
  by (induction k) (auto intro: rnd_nonneg)

lemma psteps_upper:
  assumes "0 \<le> w"
  shows "psteps w k \<le> of_nat k * w * (1 + u53) ^ k"
proof (induction k)
  case (Suc k)
  have "psteps w (Suc k) \<le> (psteps w k + w) * (1 + u53)"
    using assms psteps_nonneg rnd_bounds(2) by simp
  also have "\<dots> \<le> (of_nat k * w * (1 + u53) ^ k + w * (1 + u53) ^ k) * (1 + u53)"
    using Suc.IH assms by (intro mult_right_mono add_mono) (auto simp: mult_le_cancel_left1)
  also have "\<dots> = of_nat (Suc k) * w * (1 + u53) ^ Suc k"
    by (simp add: algebra_simps)
  finally show ?case .
qed simp

lemma psteps_lower:
  assumes "0 \<le> w"
  shows "of_nat k * w * (1 - u53) ^ k \<le> psteps w k"
proof (induction k)
  case (Suc k)
  have p1: "(1 - u53) ^ k \<le> 1" by (intro power_le_one) auto
  have "of_nat (Suc k) * w * (1 - u53) ^ Suc k = (of_nat k * w * (1 - u53) ^ k + w * (1 - u53) ^ k) * (1 - u53)"
    by (simp add: algebra_simps)
  also have "\<dots> \<le> (psteps w k + w) * (1 - u53)"
    using Suc.IH assms p1 by (intro mult_right_mono add_mono) (auto simp: mult_left_le)
  also have "\<dots> \<le> psteps w (Suc k)"
    using assms psteps_nonneg rnd_bounds(1) by simp
  finally show ?case .
qed simp

end
