(* ===== verification/Scaling.thy ===== *)
theory Scaling
  imports Dbl Letter
begin

text \<open>
  \<open>scale_Matrix_to\<close> and \<open>compare_matrices\<close> of \<open>lib/processing.cpp\<close>: a template is stretched to the
  size of a candidate with two loops whose counters are doubles, then the two matrices are compared
  pixel by pixel. The loops are written as the code has them and may fail to stop (\<open>None\<close>); that
  they stop, with at least the size asked for, is proved from the error bounds of \<open>Dbl\<close>.
\<close>

section \<open>scale\_Matrix\_to\<close>

definition read_scaled :: "matrix \<Rightarrow> dbl \<Rightarrow> dbl \<Rightarrow> int result" where
  "read_scaled m x y =
     bindE (dtrunc x) (\<lambda>i. bindE (vec_at m i) (\<lambda>col. bindE (dtrunc y) (\<lambda>j. vec_at col j)))"

partial_function (option) scale_col ::
  "matrix \<Rightarrow> dbl \<Rightarrow> nat \<Rightarrow> dbl \<Rightarrow> dbl \<Rightarrow> int list \<Rightarrow> int list run" where
  "scale_col m x bnd hScaler y column =
     (if dless y (Fin (of_nat bnd)) then
        case read_scaled m x y of
          Inl e \<Rightarrow> Some (Inl e)
        | Inr v \<Rightarrow> scale_col m x bnd hScaler (dadd y hScaler) (column @ [v])
      else Some (Inr column))"

partial_function (option) scale_rows ::
  "matrix \<Rightarrow> dbl \<Rightarrow> dbl \<Rightarrow> nat \<Rightarrow> dbl \<Rightarrow> matrix \<Rightarrow> matrix run" where
  "scale_rows m wScaler hScaler bnd x acc =
     (if dless x (Fin (of_nat (length m))) then
        Option.bind (scale_col m x bnd hScaler (Fin 0) []) (\<lambda>r. case r of
          Inl e \<Rightarrow> Some (Inl e)
        | Inr column \<Rightarrow> scale_rows m wScaler hScaler bnd (dadd x wScaler) (acc @ [column]))
      else Some (Inr acc))"

definition scale_Matrix_to :: "nat \<Rightarrow> nat \<Rightarrow> matrix \<Rightarrow> matrix run" where
  "scale_Matrix_to width height oldMatrix =
     (case vec_at oldMatrix 0 of
        Inl e \<Rightarrow> Some (Inl e)
      | Inr c0 \<Rightarrow>
          let wScaler = ddiv (of_nat (length oldMatrix)) (of_nat width);
              hScaler = ddiv (of_nat (length c0)) (of_nat height)
          in scale_rows oldMatrix wScaler hScaler (length c0) (Fin 0) [])"


section \<open>How often a double-counted loop runs\<close>

definition counts :: "rat \<Rightarrow> nat \<Rightarrow> nat \<Rightarrow> bool" where
  "counts w bnd n \<longleftrightarrow> (\<forall>k<n. psteps w k < of_nat bnd) \<and> of_nat bnd \<le> psteps w n"

lemma one_minus_u_power: "1 - of_nat k * u53 \<le> (1 - u53) ^ k"
proof (induction k)
  case (Suc k)
  have "1 - of_nat (Suc k) * u53 \<le> (1 - of_nat k * u53) * (1 - u53)"
    by (simp add: algebra_simps)
  also have "\<dots> \<le> (1 - u53) ^ k * (1 - u53)"
    using Suc by (intro mult_right_mono) auto
  finally show ?case by (simp add: mult.commute)
qed simp

lemma one_plus_u_power: "(1 + u53) ^ k * (1 - of_nat k * u53) \<le> 1"
proof -
  have "(1 + u53) ^ k * (1 - of_nat k * u53) \<le> (1 + u53) ^ k * (1 - u53) ^ k"
    using one_minus_u_power u53_bounds(2) by (intro mult_left_mono) auto
  also have "\<dots> = (1 - u53 * u53) ^ k" by (simp add: power_mult_distrib [symmetric] algebra_simps)
  also have "\<dots> \<le> 1" by (intro power_le_one) (auto simp: mult_le_one)
  finally show ?thesis .
qed

lemma u_times_square:
  assumes "m \<le> 2 ^ 26 + 2" and "k \<le> 2 ^ 26 + 2"
  shows "of_nat m * of_nat k * u53 < 1"
proof -
  have "m * k \<le> (2 ^ 26 + 2) * (2 ^ 26 + 2)" using assms by (rule mult_le_mono)
  also have "\<dots> < 2 ^ 53" by simp
  finally have "(of_nat (m * k) :: rat) < of_nat (2 ^ 53)" by (simp only: of_nat_less_iff)
  then show ?thesis by (simp add: u53_def)
qed

lemma psteps_below:
  assumes "k < W" and "W \<le> 2 ^ 26" and "0 < N"
  shows "psteps (rnd (of_nat N / of_nat W)) k < of_nat N"
proof -
  let ?n = "of_nat N :: rat" and ?W = "of_nat W :: rat" and ?k = "of_nat k :: rat"
  let ?w = "rnd (?n / ?W)"
  have W: "0 < ?W" and n: "0 < ?n" using assms by auto
  have w0: "0 \<le> ?w" using W n by (intro rnd_nonneg) simp
  have w: "?w \<le> ?n / ?W * (1 + u53)" using W n by (intro rnd_bounds(2)) simp
  have sq: "?W * of_nat (Suc k) * u53 < 1" using assms by (intro u_times_square) simp_all
  have kW: "?k + 1 \<le> ?W" using assms(1) by (metis Suc_leI of_nat_Suc of_nat_le_iff add.commute)
  have gap: "?k < ?W * (1 - of_nat (Suc k) * u53)" using sq kW by (simp add: algebra_simps)
  have pos: "0 < (1 + u53) ^ Suc k" using u53_bounds(1) by (intro zero_less_power) (simp add: add_pos_pos)
  have "psteps ?w k \<le> ?k * ?w * (1 + u53) ^ k" using w0 by (rule psteps_upper)
  also have "\<dots> \<le> ?k * (?n / ?W * (1 + u53)) * (1 + u53) ^ k"
    using w u53_bounds(2) by (intro mult_right_mono mult_left_mono) auto
  also have "\<dots> = ?n / ?W * (?k * (1 + u53) ^ Suc k)" by (simp only: power_Suc mult_ac)
  also have "\<dots> < ?n / ?W * ((?W * (1 - of_nat (Suc k) * u53)) * (1 + u53) ^ Suc k)"
    using gap pos W n by (intro mult_strict_left_mono mult_strict_right_mono) simp_all
  also have "\<dots> = ?n * ((1 + u53) ^ Suc k * (1 - of_nat (Suc k) * u53))" using W by simp
  also have "\<dots> \<le> ?n * 1" using one_plus_u_power [of "Suc k"] n by (intro mult_left_mono) simp_all
  finally show ?thesis by simp
qed

lemma psteps_reaches:
  assumes "0 < W" and "W \<le> 2 ^ 26"
  shows "of_nat N \<le> psteps (rnd (of_nat N / of_nat W)) (Suc W)"
proof -
  let ?n = "of_nat N :: rat" and ?W = "of_nat W :: rat" and ?S = "of_nat (Suc W) :: rat"
  let ?w = "rnd (?n / ?W)"
  have W: "0 < ?W" using assms by auto
  have w0: "0 \<le> ?w" using W by (intro rnd_nonneg) simp
  have w: "?n / ?W * (1 - u53) \<le> ?w" using W by (intro rnd_bounds(1)) simp
  have "?S * of_nat (Suc (Suc W)) * u53 < 1" using assms by (intro u_times_square) simp_all
  then have gap: "?W \<le> ?S * (1 - of_nat (Suc (Suc W)) * u53)" by (simp add: algebra_simps)
  have "?n = ?n / ?W * ?W" using W by simp
  also have "\<dots> \<le> ?n / ?W * (?S * (1 - of_nat (Suc (Suc W)) * u53))"
    using gap W by (intro mult_left_mono) auto
  also have "\<dots> \<le> ?n / ?W * (?S * (1 - u53) ^ Suc (Suc W))"
    using one_minus_u_power [of "Suc (Suc W)"] W by (intro mult_left_mono) auto
  also have "\<dots> = ?S * (?n / ?W * (1 - u53)) * (1 - u53) ^ Suc W" by (simp only: power_Suc mult_ac)
  also have "\<dots> \<le> ?S * ?w * (1 - u53) ^ Suc W"
    using w by (intro mult_right_mono mult_left_mono) auto
  also have "\<dots> \<le> psteps ?w (Suc W)" using w0 by (rule psteps_lower)
  finally show ?thesis .
qed

text \<open>A loop that should run \<open>W\<close> times runs \<open>W\<close> or \<open>W + 1\<close> times.\<close>

lemma counts_exists:
  assumes "0 < N" and "0 < W" and "W \<le> 2 ^ 26"
  shows "\<exists>n. counts (rnd (of_nat N / of_nat W)) N n \<and> (n = W \<or> n = Suc W)"
proof -
  let ?p = "psteps (rnd (of_nat N / of_nat W))"
  have below: "?p k < of_nat N" if "k < W" for k using psteps_below [OF that assms(3,1)] .
  show ?thesis
  proof (cases "of_nat N \<le> ?p W")
    case True
    with below show ?thesis by (auto simp: counts_def)
  next
    case False
    with below psteps_reaches [OF assms(2,3)] show ?thesis
      by (auto simp: counts_def less_Suc_eq intro!: exI [of _ "Suc W"])
  qed
qed

lemma psteps_1: "k < 2 ^ 53 \<Longrightarrow> psteps 1 k = of_nat k"
proof (induction k)
  case (Suc k)
  then have "rnd (of_nat (Suc k)) = of_nat (Suc k)" by (intro rnd_of_nat) simp
  with Suc show ?case by (simp add: add.commute)
qed simp

lemma counts_1: "N < 2 ^ 53 \<Longrightarrow> counts 1 N N"
  by (auto simp: counts_def psteps_1)


section \<open>What scaling returns\<close>

definition source_index :: "rat \<Rightarrow> nat \<Rightarrow> nat" where
  "source_index w k = nat \<lfloor>psteps w k\<rfloor>"

lemma source_index_less:
  assumes "0 \<le> w" and "counts w bnd n" and "k < n"
  shows "source_index w k < bnd"
proof -
  have "0 \<le> psteps w k" and "psteps w k < of_nat bnd"
    using assms psteps_nonneg by (auto simp: counts_def)
  then show ?thesis by (simp add: source_index_def nat_less_iff floor_less_iff)
qed

lemma scale_col_counts:
  assumes "0 \<le> h" and "counts h bnd n" and "vec_at m (nat \<lfloor>x\<rfloor>) = Inr col" and "length col = bnd" and "k \<le> n"
  shows "scale_col m (Fin x) bnd (Fin h) (Fin (psteps h k)) acc
    = Some (Inr (acc @ map (\<lambda>j. col ! source_index h j) [k..<n]))"
  using assms(5)
proof (induction k arbitrary: acc rule: inc_induct)
  case base
  with assms(2) show ?case by (simp add: scale_col.simps counts_def)
next
  case (step k)
  have less: "psteps h k < of_nat bnd" using assms(2) step.hyps by (simp add: counts_def)
  have "read_scaled m (Fin x) (Fin (psteps h k)) = Inr (col ! source_index h k)"
    using assms source_index_less [OF assms(1,2) step.hyps(2)] by (simp add: read_scaled_def source_index_def)
  with less step.IH [of "acc @ [col ! source_index h k]"] step.hyps show ?case
    by (subst scale_col.simps) (simp add: upt_conv_Cons)
qed

lemma scale_rows_columns:
  assumes "length m = N" and "counts w N n"
    and "\<And>i. i < n \<Longrightarrow> scale_col m (Fin (psteps w i)) M h (Fin 0) [] = Some (Inr (g i))"
    and "k \<le> n"
  shows "scale_rows m (Fin w) h M (Fin (psteps w k)) acc = Some (Inr (acc @ map g [k..<n]))"
  using assms(4)
proof (induction k arbitrary: acc rule: inc_induct)
  case base
  with assms(1,2) show ?case by (simp add: scale_rows.simps counts_def)
next
  case (step k)
  have "psteps w k < of_nat (length m)"
    using assms(1,2) step.hyps by (simp add: counts_def)
  with step.IH step.hyps assms(3) [OF step.hyps(2)] show ?case
    by (subst scale_rows.simps) (simp add: upt_conv_Cons)
qed

lemma scale_rows_counts:
  assumes "rect m N M" and "0 \<le> w" and "0 \<le> h" and "counts w N n" and "counts h M n'"
  shows "scale_rows m (Fin w) (Fin h) M (Fin 0) []
    = Some (Inr (map (\<lambda>i. map (\<lambda>j. m ! source_index w i ! source_index h j) [0..<n']) [0..<n]))"
proof -
  have "scale_col m (Fin (psteps w i)) M (Fin h) (Fin 0) []
      = Some (Inr (map (\<lambda>j. m ! source_index w i ! source_index h j) [0..<n']))" if "i < n" for i
  proof -
    have "source_index w i < N" using source_index_less [OF assms(2,4) that] .
    then have "vec_at m (nat \<lfloor>psteps w i\<rfloor>) = Inr (m ! source_index w i)" "length (m ! source_index w i) = M"
      using assms(1) by (simp_all add: source_index_def rect_length rect_nth)
    then show ?thesis using scale_col_counts [OF assms(3,5), of m "psteps w i" _ 0 "[]"] by simp
  qed
  then show ?thesis
    using scale_rows_columns [OF rect_length [OF assms(1)] assms(4), where k = 0 and acc = "[]"] by simp
qed

lemma scale_Matrix_to_counts:
  assumes "rect m N M" and "0 < N" and "0 < width" and "0 < height"
    and "counts (rnd (of_nat N / of_nat width)) N n" and "counts (rnd (of_nat M / of_nat height)) M n'"
  shows "scale_Matrix_to width height m = Some (Inr (map (\<lambda>i. map (\<lambda>j.
      m ! source_index (rnd (of_nat N / of_nat width)) i ! source_index (rnd (of_nat M / of_nat height)) j)
      [0..<n']) [0..<n]))"
proof -
  have "vec_at m 0 = Inr (m ! 0)" and "length (m ! 0) = M"
    using assms(1,2) by (simp_all add: rect_length rect_nth)
  then show ?thesis
    using scale_rows_counts [OF assms(1) _ _ assms(5,6)] assms(1-4)
    by (simp add: scale_Matrix_to_def ddiv_def rect_length rnd_nonneg)
qed

definition pixels_in :: "int \<Rightarrow> int \<Rightarrow> matrix \<Rightarrow> bool" where
  "pixels_in lo hi m \<longleftrightarrow> (\<forall>c \<in> set m. \<forall>p \<in> set c. lo \<le> p \<and> p \<le> hi)"

lemma pixels_in_nth: "pixels_in lo hi m \<Longrightarrow> i < length m \<Longrightarrow> j < length (m ! i) \<Longrightarrow> lo \<le> m ! i ! j \<and> m ! i ! j \<le> hi"
  unfolding pixels_in_def by (meson nth_mem)

lemma scale_rect_size:
  assumes "rect m N M" and "0 < N" and "0 < M"
    and "0 < width" and "width \<le> 2 ^ 26" and "0 < height" and "height \<le> 2 ^ 26"
  shows "\<exists>s w h. scale_Matrix_to width height m = Some (Inr s) \<and> rect s w h
    \<and> width \<le> w \<and> w \<le> width + 1 \<and> height \<le> h \<and> h \<le> height + 1
    \<and> set (concat s) \<subseteq> set (concat m)"
proof -
  let ?w = "rnd (of_nat N / of_nat width)" and ?h = "rnd (of_nat M / of_nat height)"
  obtain n where n: "counts ?w N n" "n = width \<or> n = Suc width"
    using counts_exists [OF assms(2,4,5)] by blast
  obtain n' where n': "counts ?h M n'" "n' = height \<or> n' = Suc height"
    using counts_exists [OF assms(3,6,7)] by blast
  let ?s = "map (\<lambda>i. map (\<lambda>j. m ! source_index ?w i ! source_index ?h j) [0..<n']) [0..<n]"
  have "0 \<le> ?w" and "0 \<le> ?h" by (simp_all add: rnd_nonneg)
  then have idx: "source_index ?w i < N" "source_index ?h j < M" if "i < n" "j < n'" for i j
    using that n(1) n'(1) source_index_less by blast+
  have mem: "m ! i ! j \<in> set (concat m)" if "i < N" "j < M" for i j
    using that assms(1) by (force simp: rect_def in_set_conv_nth)
  have "scale_Matrix_to width height m = Some (Inr ?s)"
    using assms(1,2,4,6) n(1) n'(1) by (rule scale_Matrix_to_counts)
  moreover have "rect ?s n n'" by (auto simp: rect_def)
  moreover have "set (concat ?s) \<subseteq> set (concat m)"
  proof
    fix x assume "x \<in> set (concat ?s)"
    then obtain i j where "i < n" "j < n'" "x = m ! source_index ?w i ! source_index ?h j" by auto
    with idx mem show "x \<in> set (concat m)" by blast
  qed
  ultimately show ?thesis using n(2) n'(2) by (intro exI [of _ ?s] exI [of _ n] exI [of _ n']) auto
qed

text \<open>
  Stretching a template: for every non-empty rectangular template and every target size up to
  \<open>2 ^ 26\<close> in each direction, the two double-counted loops stop without an exception, and the result
  is rectangular with the width and height asked for or one more of each, despite the rounding of
  the counters; every pixel of it is a pixel of the template.
\<close>

theorem scale_Matrix_to_size:
  assumes "rect m N M" and "0 < N" and "0 < M"
    and "0 < width" and "width \<le> 2 ^ 26" and "0 < height" and "height \<le> 2 ^ 26"
  shows "\<exists>s w h. scale_Matrix_to width height m = Some (Inr s) \<and> rect s w h
    \<and> width \<le> w \<and> w \<le> width + 1 \<and> height \<le> h \<and> h \<le> height + 1
    \<and> set (concat s) \<subseteq> set (concat m)"
  using assms by (rule scale_rect_size)

theorem scale_Matrix_to_size_witness:
  "\<exists>s w h. scale_Matrix_to 3 1 [[10, 20], [30, 40]] = Some (Inr s) \<and> rect s w h
    \<and> 3 \<le> w \<and> w \<le> 3 + 1 \<and> 1 \<le> h \<and> h \<le> 1 + 1
    \<and> set (concat s) \<subseteq> set (concat [[10, 20], [30, 40]])"
  by (rule scale_Matrix_to_size [of _ 2 2]) (simp_all add: rect_def)

text \<open>
  Scaling to height zero: \<open>hScaler\<close> is infinite, so the inner loop runs once and every column has the
  one pixel at its top.
\<close>

lemma scale_col_PInf:
  assumes "vec_at m (nat \<lfloor>x\<rfloor>) = Inr col" and "length col = M" and "0 < M"
  shows "scale_col m (Fin x) M PInf (Fin 0) [] = Some (Inr [col ! 0])"
proof -
  have "read_scaled m (Fin x) (Fin 0) = Inr (col ! 0)"
    using assms by (simp add: read_scaled_def)
  moreover have "scale_col m (Fin x) M PInf PInf c = Some (Inr c)" for c
    by (simp add: scale_col.simps)
  ultimately show ?thesis using assms(3) by (subst scale_col.simps) simp
qed

lemma scale_height_zero:
  assumes "rect m N M" and "0 < N" and "0 < M" and "0 < width" and "width \<le> 2 ^ 26"
  shows "\<exists>s. scale_Matrix_to width 0 m = Some (Inr s) \<and> width \<le> length s"
proof -
  let ?w = "rnd (of_nat N / of_nat width)"
  obtain n where n: "counts ?w N n" "n = width \<or> n = Suc width"
    using counts_exists [OF assms(2,4,5)] by blast
  have "scale_col m (Fin (psteps ?w i)) M PInf (Fin 0) [] = Some (Inr [m ! source_index ?w i ! 0])" if "i < n" for i
  proof -
    have "source_index ?w i < N" using source_index_less [OF _ n(1) that] by (simp add: rnd_nonneg)
    then have "vec_at m (nat \<lfloor>psteps ?w i\<rfloor>) = Inr (m ! source_index ?w i)" "length (m ! source_index ?w i) = M"
      using assms(1) by (simp_all add: source_index_def rect_length rect_nth)
    then show ?thesis using assms(3) by (rule scale_col_PInf)
  qed
  then have "scale_rows m (Fin ?w) PInf M (Fin 0) [] = Some (Inr (map (\<lambda>i. [m ! source_index ?w i ! 0]) [0..<n]))"
    using scale_rows_columns [OF rect_length [OF assms(1)] n(1), where k = 0 and acc = "[]"] by simp
  moreover have "vec_at m 0 = Inr (m ! 0)" "length (m ! 0) = M"
    using assms(1,2) by (simp_all add: rect_length rect_nth)
  ultimately show ?thesis
    using n(2) assms(1,3,4) by (auto simp: scale_Matrix_to_def ddiv_def rect_length)
qed

text \<open>Scaling to the size a matrix already has changes nothing.\<close>

lemma source_index_1: "k < 2 ^ 53 \<Longrightarrow> source_index 1 k = k"
  by (simp add: source_index_def psteps_1)

lemma scale_Matrix_to_same:
  assumes "rect m N M" and "0 < N" and "0 < M" and "N < 2 ^ 53" and "M < 2 ^ 53"
  shows "scale_Matrix_to N M m = Some (Inr m)"
proof -
  have one: "rnd (of_nat N / of_nat N) = 1" "rnd (of_nat M / of_nat M) = 1"
    using assms rnd_of_nat [of 1] by simp_all
  have "scale_Matrix_to N M m = Some (Inr (map (\<lambda>i. map (\<lambda>j. m ! source_index 1 i ! source_index 1 j) [0..<M]) [0..<N]))"
    using scale_Matrix_to_counts [OF assms(1,2) assms(2,3), of N M] assms one counts_1 by simp
  also have "map (\<lambda>i. map (\<lambda>j. m ! source_index 1 i ! source_index 1 j) [0..<M]) [0..<N] = m"
    using assms by (intro nth_equalityI) (auto simp: rect_length rect_nth source_index_1)
  finally show ?thesis .
qed

end
