(* ===== verification/Matching.thy ===== *)
theory Matching
  imports Scaling
begin

text \<open>
  \<open>compare_matrices\<close> and \<open>match_letter\<close> of \<open>lib/processing.cpp\<close>: the mean absolute difference of two
  matrices, as a double, and the search for the template with the smallest difference to a
  candidate. The accumulator is a 32-bit \<open>int\<close>, and an empty candidate divides zero by zero.
\<close>

section \<open>compare\_matrices\<close>

definition diff_step :: "int \<Rightarrow> int \<Rightarrow> int \<Rightarrow> int result" where
  "diff_step differenceSum a b =
     bindE (int32 (a - b)) (\<lambda>d.
       if d > 0 then int32 (differenceSum + d)
       else bindE (int32 (b - a)) (\<lambda>d'. int32 (differenceSum + d')))"

definition diff_pixel :: "matrix \<Rightarrow> matrix \<Rightarrow> nat \<Rightarrow> int \<Rightarrow> nat \<Rightarrow> int result" where
  "diff_pixel A B x s y =
     bindE (vec_at A x) (\<lambda>ca. bindE (vec_at ca y) (\<lambda>a.
     bindE (vec_at B x) (\<lambda>cb. bindE (vec_at cb y) (\<lambda>b. diff_step s a b))))"

definition diff_sum :: "matrix \<Rightarrow> matrix \<Rightarrow> int result" where
  "diff_sum A B =
     foldE (\<lambda>s x. bindE (vec_at A 0) (\<lambda>c0. foldE (diff_pixel A B x) s [0..<length c0])) 0 [0..<length A]"

definition compare_matrices :: "matrix \<Rightarrow> matrix \<Rightarrow> dbl result" where
  "compare_matrices A B =
     bindE (diff_sum A B) (\<lambda>differenceSum.
     bindE (vec_at A 0) (\<lambda>c0.
     Inr (ddiv (of_int differenceSum) (rnd (of_nat (length A * length c0 mod 2 ^ 64))))))"

text \<open>The sum of absolute differences over the area of \<open>A\<close>.\<close>

definition sad :: "matrix \<Rightarrow> matrix \<Rightarrow> nat \<Rightarrow> nat \<Rightarrow> int" where
  "sad A B w h = (\<Sum>x<w. \<Sum>y<h. \<bar>A ! x ! y - B ! x ! y\<bar>)"

lemma diff_step_abs:
  assumes "0 \<le> a" "a \<le> 255" "0 \<le> b" "b \<le> 255" and "0 \<le> s" and "s + 255 < 2 ^ 31"
  shows "diff_step s a b = Inr (s + \<bar>a - b\<bar>)"
  using assms by (auto simp: diff_step_def)

lemma diff_column:
  assumes A: "rect A w h" "pixels_in 0 255 A" and B: "rect B w' h'" "pixels_in 0 255 B"
    and size: "w \<le> w'" "h \<le> h'" and "x < w" and "0 \<le> s" and "s + 255 * int h < 2 ^ 31" and "k \<le> h"
  shows "foldE (diff_pixel A B x) s [0..<k] = Inr (s + (\<Sum>y<k. \<bar>A ! x ! y - B ! x ! y\<bar>))
    \<and> (\<Sum>y<k. \<bar>A ! x ! y - B ! x ! y\<bar>) \<le> 255 * int k"
  using assms(10)
proof (induction k)
  case (Suc k)
  let ?a = "A ! x ! k" and ?b = "B ! x ! k"
  let ?s = "\<Sum>y<k. \<bar>A ! x ! y - B ! x ! y\<bar>"
  have k: "k < h" using Suc.prems by simp
  have a: "0 \<le> ?a" "?a \<le> 255" and b: "0 \<le> ?b" "?b \<le> 255"
    using pixels_in_nth [OF A(2), of x k] pixels_in_nth [OF B(2), of x k] A(1) B(1) size assms(7) k
    by (simp_all add: rect_length rect_nth)
  have IH: "foldE (diff_pixel A B x) s [0..<k] = Inr (s + ?s)" "?s \<le> 255 * int k"
    using Suc by simp_all
  have nn: "0 \<le> ?s" by (intro sum_nonneg) simp
  have "diff_pixel A B x (s + ?s) k = diff_step (s + ?s) ?a ?b"
    using A(1) B(1) size assms(7) k by (simp add: diff_pixel_def rect_length rect_nth)
  also have "\<dots> = Inr (s + ?s + \<bar>?a - ?b\<bar>)"
    using a b nn IH(2) assms(8,9) k by (intro diff_step_abs) auto
  finally show ?case using IH a b by (simp add: foldE_append abs_le_iff)
qed simp

lemma diff_sum_sad:
  assumes A: "rect A w h" "pixels_in 0 255 A" and B: "rect B w' h'" "pixels_in 0 255 B"
    and size: "w \<le> w'" "h \<le> h'" and "255 * int (w * h) < 2 ^ 31"
  shows "diff_sum A B = Inr (sad A B w h) \<and> sad A B w h \<le> 255 * int (w * h)"
proof -
  let ?f = "\<lambda>s x. bindE (vec_at A 0) (\<lambda>c0. foldE (diff_pixel A B x) s [0..<length c0])"
  have "foldE ?f 0 [0..<k] = Inr (sad A B k h) \<and> sad A B k h \<le> 255 * int (k * h)" if "k \<le> w" for k
    using that
  proof (induction k)
    case (Suc k)
    let ?c = "\<Sum>y<h. \<bar>A ! k ! y - B ! k ! y\<bar>"
    have k: "k < w" using Suc.prems by simp
    have IH: "foldE ?f 0 [0..<k] = Inr (sad A B k h)" "sad A B k h \<le> 255 * int (k * h)"
      using Suc by simp_all
    have nn: "0 \<le> sad A B k h" by (auto simp: sad_def intro!: sum_nonneg)
    have "Suc k * h \<le> w * h" using k by (intro mult_le_mono1) simp
    then have "255 * int (Suc k * h) \<le> 255 * int (w * h)" by (simp only: mult_left_mono of_nat_le_iff)
    moreover have "sad A B k h + 255 * int h \<le> 255 * int (Suc k * h)"
      using IH(2) by (simp add: algebra_simps)
    ultimately have bound: "sad A B k h + 255 * int h < 2 ^ 31" using assms(7) by linarith
    have col: "foldE (diff_pixel A B k) (sad A B k h) [0..<h] = Inr (sad A B k h + ?c)" "?c \<le> 255 * int h"
      using diff_column [OF A B size k nn bound order_refl] by simp_all
    have "vec_at A 0 = Inr (A ! 0)" "length (A ! 0) = h"
      using A(1) k by (simp_all add: rect_length rect_nth)
    then have "?f (sad A B k h) k = Inr (sad A B (Suc k) h)"
      using col by (simp add: sad_def)
    moreover have "sad A B (Suc k) h \<le> 255 * int (Suc k * h)"
      using IH(2) col(2) by (simp add: sad_def algebra_simps)
    ultimately show ?case using IH by (simp add: foldE_append)
  qed (simp add: sad_def)
  from this [of w] show ?thesis using A(1) by (simp add: diff_sum_def rect_length)
qed

lemma compare_rect_mean:
  assumes "rect A w h" "pixels_in 0 255 A" and "rect B w' h'" "pixels_in 0 255 B"
    and "w \<le> w'" "h \<le> h'" and "0 < w * h" and "255 * int (w * h) < 2 ^ 31"
  shows "compare_matrices A B = Inr (Fin (rnd (of_int (sad A B w h) / of_nat (w * h))))
    \<and> rnd (of_int (sad A B w h) / of_nat (w * h)) < 256"
proof -
  let ?s = "of_int (sad A B w h) :: rat" and ?a = "of_nat (w * h) :: rat"
  have s: "diff_sum A B = Inr (sad A B w h)" "sad A B w h \<le> 255 * int (w * h)"
    using diff_sum_sad [OF assms(1-6,8)] by simp_all
  have "of_int (sad A B w h) \<le> (of_int (255 * int (w * h)) :: rat)"
    using s(2) by (simp only: of_int_le_iff)
  then have q: "?s / ?a \<le> 255" using assms(7) by (simp add: divide_le_eq)
  have nn: "0 \<le> sad A B w h" by (auto simp: sad_def intro!: sum_nonneg)
  have "rnd (?s / ?a) \<le> ?s / ?a * (1 + u53)" using nn by (intro rnd_bounds(2)) simp
  also have "\<dots> \<le> 255 * (1 + u53)" using q by (intro mult_right_mono) (auto simp: add_nonneg_nonneg)
  also have "\<dots> < 256" by (simp add: u53_def)
  finally have less: "rnd (?s / ?a) < 256" .
  have "int (w * h) < 2 ^ 31" using assms(8) of_nat_0_le_iff [of "w * h"] by linarith
  then have small: "w * h < 2 ^ 31" by (simp del: of_nat_mult)
  then have "rnd (of_nat (w * h)) = ?a" by (intro rnd_of_nat) simp
  moreover have "w * h mod 2 ^ 64 = w * h" using small by (intro mod_less) simp
  moreover have "vec_at A 0 = Inr (A ! 0)" "length (A ! 0) = h"
    using assms(1,7) by (auto simp: rect_length rect_nth)
  ultimately show ?thesis
    using s(1) less assms(1,7) by (simp add: compare_matrices_def ddiv_def rect_length del: of_nat_mult)
qed

text \<open>
  C40. Comparing pixel matrices: when the second matrix is at least as large as the first, all pixels
  are in 0..255 and the area is below 8421505 (so that the 32-bit sum cannot overflow), the result
  is the rounded quotient of the sum of absolute differences and the area, and it is below 256.
\<close>

theorem compare_matrices_mean:
  assumes "rect A w h" "pixels_in 0 255 A" and "rect B w' h'" "pixels_in 0 255 B"
    and "w \<le> w'" "h \<le> h'" and "0 < w * h" and "255 * int (w * h) < 2 ^ 31"
  shows "compare_matrices A B = Inr (Fin (rnd (of_int (sad A B w h) / of_nat (w * h))))
    \<and> rnd (of_int (sad A B w h) / of_nat (w * h)) < 256"
  using assms by (rule compare_rect_mean)

theorem compare_matrices_mean_witness:
  "compare_matrices [[0, 255], [255, 0]] [[0, 0], [255, 255]]
     = Inr (Fin (rnd (of_int (sad [[0, 255], [255, 0]] [[0, 0], [255, 255]] 2 2) / of_nat (2 * 2))))
   \<and> rnd (of_int (sad [[0, 255], [255, 0]] [[0, 0], [255, 255]] 2 2) / of_nat (2 * 2)) < 256"
  by (rule compare_matrices_mean [of _ 2 2 _ 2 2]) (simp_all add: rect_def pixels_in_def)


section \<open>match\_letter\<close>

definition scaled_difference :: "matrix \<Rightarrow> matrix \<Rightarrow> dbl run" where
  "scaled_difference A T =
     (case vec_at A 0 of
        Inl e \<Rightarrow> Some (Inl e)
      | Inr c0 \<Rightarrow> bindO (scale_Matrix_to (length A) (length c0) T) (\<lambda>s. Some (compare_matrices A s)))"

definition difference :: "letter \<Rightarrow> letter \<Rightarrow> dbl run" where
  "difference to_match l = scaled_difference (pixels to_match) (pixels l)"

definition match_step :: "letter \<Rightarrow> letter list \<Rightarrow> dbl \<times> int \<Rightarrow> nat \<Rightarrow> (dbl \<times> int) run" where
  "match_step to_match letters st j =
     (case st of (lowest_difference, lowest_difference_index) \<Rightarrow>
        bindO (Some (vec_at letters j)) (\<lambda>l.
        bindO (difference to_match l) (\<lambda>d.
        Some (Inr (if dless d lowest_difference then (d, int j)
                   else (lowest_difference, lowest_difference_index))))))"

definition match_letter :: "letter \<Rightarrow> letter list \<Rightarrow> letter run" where
  "match_letter to_match letters =
     bindO (foldO (match_step to_match letters) (Fin 256, -1) [0..<length letters])
       (\<lambda>(_, lowest_difference_index). Some (vec_at_int letters lowest_difference_index))"

text \<open>A letter the recognition can handle: rectangular, non-empty, with pixel values 0..255.\<close>

definition image :: "nat \<Rightarrow> nat \<Rightarrow> matrix \<Rightarrow> bool" where
  "image w h m \<longleftrightarrow> rect m w h \<and> 0 < w \<and> 0 < h \<and> pixels_in 0 255 m"

definition candidate :: "letter \<Rightarrow> bool" where
  "candidate l \<longleftrightarrow> (\<exists>w h. image w h (pixels l) \<and> w \<le> 2 ^ 26 \<and> h \<le> 2 ^ 26 \<and> 255 * int (w * h) < 2 ^ 31)"

definition template_letter :: "letter \<Rightarrow> bool" where
  "template_letter l \<longleftrightarrow> (\<exists>w h. image w h (pixels l))"

lemma pixels_in_concat: "pixels_in lo hi m \<longleftrightarrow> (\<forall>p \<in> set (concat m). lo \<le> p \<and> p \<le> hi)"
  by (auto simp: pixels_in_def)

lemma difference_total:
  assumes "candidate l" and "template_letter t"
  shows "\<exists>d. difference l t = Some (Inr (Fin d)) \<and> d < 256"
proof -
  obtain w h where l: "rect (pixels l) w h" "0 < w" "0 < h" "pixels_in 0 255 (pixels l)"
    "w \<le> 2 ^ 26" "h \<le> 2 ^ 26" "255 * int (w * h) < 2 ^ 31"
    using assms(1) by (auto simp: candidate_def image_def)
  obtain N M where t: "rect (pixels t) N M" "0 < N" "0 < M" "pixels_in 0 255 (pixels t)"
    using assms(2) by (auto simp: template_letter_def image_def)
  obtain s w' h' where s: "scale_Matrix_to w h (pixels t) = Some (Inr s)" "rect s w' h'"
      "w \<le> w'" "h \<le> h'" "set (concat s) \<subseteq> set (concat (pixels t))"
    using scale_rect_size [OF t(1-3) l(2,5,3,6)] by blast
  have "pixels_in 0 255 s" using s(5) t(4) unfolding pixels_in_concat by blast
  then have "compare_matrices (pixels l) s = Inr (Fin (rnd (of_int (sad (pixels l) s w h) / of_nat (w * h))))
      \<and> rnd (of_int (sad (pixels l) s w h) / of_nat (w * h)) < 256"
    using compare_rect_mean [OF l(1,4) s(2) _ s(3,4) _ l(7)] l(2,3) by simp
  moreover have "vec_at (pixels l) 0 = Inr (pixels l ! 0)" "length (pixels l ! 0) = h"
    using l by (simp_all add: rect_length rect_nth)
  ultimately show ?thesis using s(1) l(1) by (auto simp: difference_def scaled_difference_def rect_length)
qed

text \<open>The value of a difference that is finite, for stating which template wins.\<close>

definition distance :: "letter \<Rightarrow> letter \<Rightarrow> rat" where
  "distance l t = (case difference l t of Some (Inr (Fin d)) \<Rightarrow> d | _ \<Rightarrow> 256)"

lemma difference_distance:
  "candidate l \<Longrightarrow> template_letter t \<Longrightarrow> difference l t = Some (Inr (Fin (distance l t))) \<and> distance l t < 256"
  using difference_total by (fastforce simp: distance_def)

definition best_so_far :: "letter \<Rightarrow> letter list \<Rightarrow> nat \<Rightarrow> dbl \<times> int \<Rightarrow> bool" where
  "best_so_far l ts k st \<longleftrightarrow>
     (if k = 0 then st = (Fin 256, -1)
      else \<exists>j<k. st = (Fin (distance l (ts ! j)), int j)
        \<and> (\<forall>i<k. distance l (ts ! j) \<le> distance l (ts ! i))
        \<and> (\<forall>i<j. distance l (ts ! j) < distance l (ts ! i)))"

lemma match_step_best:
  assumes "candidate l" and "\<forall>t \<in> set ts. template_letter t" and "k < length ts" and "best_so_far l ts k st"
  shows "\<exists>st'. match_step l ts st k = Some (Inr st') \<and> best_so_far l ts (Suc k) st'"
proof -
  have d: "difference l (ts ! k) = Some (Inr (Fin (distance l (ts ! k))))" "distance l (ts ! k) < 256"
    using difference_distance assms(1-3) by auto
  let ?dk = "distance l (ts ! k)"
  show ?thesis
  proof (cases "k = 0")
    case True
    with assms(3,4) d show ?thesis by (auto simp: best_so_far_def match_step_def)
  next
    case False
    then obtain j where j: "j < k" "st = (Fin (distance l (ts ! j)), int j)"
        "\<forall>i<k. distance l (ts ! j) \<le> distance l (ts ! i)" "\<forall>i<j. distance l (ts ! j) < distance l (ts ! i)"
      using assms(4) by (auto simp: best_so_far_def)
    show ?thesis
    proof (cases "?dk < distance l (ts ! j)")
      case True
      then have "match_step l ts st k = Some (Inr (Fin ?dk, int k))"
        using d j assms(3) by (simp add: match_step_def)
      moreover have "best_so_far l ts (Suc k) (Fin ?dk, int k)"
        using True j by (force simp: best_so_far_def less_Suc_eq)
      ultimately show ?thesis by blast
    next
      case nless: False
      then have "match_step l ts st k = Some (Inr st)"
        using d j assms(3) by (simp add: match_step_def)
      moreover have "best_so_far l ts (Suc k) st"
        using nless j by (auto simp: best_so_far_def less_Suc_eq)
      ultimately show ?thesis by blast
    qed
  qed
qed

lemma match_fold_best:
  assumes "candidate l" and "\<forall>t \<in> set ts. template_letter t" and "k \<le> length ts"
  shows "\<exists>st. foldO (match_step l ts) (Fin 256, -1) [0..<k] = Some (Inr st) \<and> best_so_far l ts k st"
  using assms(3)
proof (induction k)
  case (Suc k)
  then obtain st where "foldO (match_step l ts) (Fin 256, -1) [0..<k] = Some (Inr st)" "best_so_far l ts k st"
    by auto
  with match_step_best [OF assms(1,2), of k st] Suc.prems show ?case
    by (auto simp: foldO_append)
qed (simp add: best_so_far_def)

lemma match_letter_nearest:
  assumes "candidate l" and "\<forall>t \<in> set ts. template_letter t" and "ts \<noteq> []"
  shows "\<exists>j<length ts. match_letter l ts = Some (Inr (ts ! j))
    \<and> (\<forall>i<length ts. distance l (ts ! j) \<le> distance l (ts ! i))
    \<and> (\<forall>i<j. distance l (ts ! j) < distance l (ts ! i))"
proof -
  obtain st where st: "foldO (match_step l ts) (Fin 256, -1) [0..<length ts] = Some (Inr st)"
      "best_so_far l ts (length ts) st"
    using match_fold_best [OF assms(1,2) order_refl] by blast
  with assms(3) show ?thesis by (auto simp: best_so_far_def match_letter_def)
qed

text \<open>
  C33. The nearest template wins: for a candidate of at most 8421504 pixels and any non-empty list of
  rectangular templates, all with pixels 0..255, the search returns without an exception the first
  of the templates whose difference to the candidate is smallest.
\<close>

theorem match_letter_argmin:
  assumes "candidate l" and "\<forall>t \<in> set ts. template_letter t" and "ts \<noteq> []"
  shows "\<exists>j<length ts. match_letter l ts = Some (Inr (ts ! j))
    \<and> (\<forall>i<length ts. distance l (ts ! j) \<le> distance l (ts ! i))
    \<and> (\<forall>i<j. distance l (ts ! j) < distance l (ts ! i))"
  using assms by (rule match_letter_nearest)

theorem match_letter_argmin_witness:
  "\<exists>j<length [new_letter [[255]], new_letter [[0, 255], [0, 0]]].
     match_letter (new_letter [[0, 255], [10, 0]]) [new_letter [[255]], new_letter [[0, 255], [0, 0]]]
       = Some (Inr ([new_letter [[255]], new_letter [[0, 255], [0, 0]]] ! j))
    \<and> (\<forall>i<length [new_letter [[255]], new_letter [[0, 255], [0, 0]]].
         distance (new_letter [[0, 255], [10, 0]]) ([new_letter [[255]], new_letter [[0, 255], [0, 0]]] ! j)
         \<le> distance (new_letter [[0, 255], [10, 0]]) ([new_letter [[255]], new_letter [[0, 255], [0, 0]]] ! i))
    \<and> (\<forall>i<j. distance (new_letter [[0, 255], [10, 0]]) ([new_letter [[255]], new_letter [[0, 255], [0, 0]]] ! j)
         < distance (new_letter [[0, 255], [10, 0]]) ([new_letter [[255]], new_letter [[0, 255], [0, 0]]] ! i))"
proof (rule match_letter_argmin)
  show "candidate (new_letter [[0, 255], [10, 0]])"
    unfolding candidate_def image_def
    by (intro exI [of _ 2]) (simp add: new_letter_def rect_def pixels_in_def)
  show "\<forall>t \<in> set [new_letter [[255]], new_letter [[0, 255], [0, 0]]]. template_letter t"
    by (auto simp: template_letter_def image_def new_letter_def rect_def pixels_in_def)
qed simp

text \<open>A template that has exactly the candidate's pixels is at distance zero.\<close>

lemma sad_same: "sad A A w h = 0"
  by (simp add: sad_def)

lemma distance_same:
  assumes "candidate l" and "pixels t = pixels l"
  shows "distance l t = 0"
proof -
  obtain w h where l: "rect (pixels l) w h" "0 < w" "0 < h" "pixels_in 0 255 (pixels l)"
    "w \<le> 2 ^ 26" "h \<le> 2 ^ 26" "255 * int (w * h) < 2 ^ 31"
    using assms(1) by (auto simp: candidate_def image_def)
  have "scale_Matrix_to w h (pixels t) = Some (Inr (pixels l))"
    unfolding assms(2) using l by (intro scale_Matrix_to_same) simp_all
  moreover have "compare_matrices (pixels l) (pixels l) = Inr (Fin 0)"
    using compare_rect_mean [OF l(1,4,1,4) order_refl order_refl _ l(7)] l(2,3) by (simp add: sad_same)
  moreover have "vec_at (pixels l) 0 = Inr (pixels l ! 0)" "length (pixels l ! 0) = h"
    using l by (simp_all add: rect_length rect_nth)
  ultimately show ?thesis using l(1) by (simp add: distance_def difference_def scaled_difference_def rect_length)
qed

lemma distance_nonneg:
  assumes "candidate l" and "template_letter t"
  shows "0 \<le> distance l t"
proof -
  obtain w h where l: "rect (pixels l) w h" "0 < w" "0 < h" "pixels_in 0 255 (pixels l)"
    "w \<le> 2 ^ 26" "h \<le> 2 ^ 26" "255 * int (w * h) < 2 ^ 31"
    using assms(1) by (auto simp: candidate_def image_def)
  obtain N M where t: "rect (pixels t) N M" "0 < N" "0 < M" "pixels_in 0 255 (pixels t)"
    using assms(2) by (auto simp: template_letter_def image_def)
  obtain s w' h' where s: "scale_Matrix_to w h (pixels t) = Some (Inr s)" "rect s w' h'"
      "w \<le> w'" "h \<le> h'" "set (concat s) \<subseteq> set (concat (pixels t))"
    using scale_rect_size [OF t(1-3) l(2,5,3,6)] by blast
  have "pixels_in 0 255 s" using s(5) t(4) unfolding pixels_in_concat by blast
  then have c: "compare_matrices (pixels l) s = Inr (Fin (rnd (of_int (sad (pixels l) s w h) / of_nat (w * h))))"
    using compare_rect_mean [OF l(1,4) s(2) _ s(3,4) _ l(7)] l(2,3) by simp
  have "0 \<le> sad (pixels l) s w h" by (auto simp: sad_def intro!: sum_nonneg)
  then have "0 \<le> rnd (of_int (sad (pixels l) s w h) / of_nat (w * h))" by (intro rnd_nonneg) simp
  moreover have "vec_at (pixels l) 0 = Inr (pixels l ! 0)" "length (pixels l ! 0) = h"
    using l by (simp_all add: rect_length rect_nth)
  ultimately show ?thesis using c s(1) l(1) by (simp add: distance_def difference_def scaled_difference_def rect_length)
qed

text \<open>
  A perfect template wins: when some template has exactly the pixels of the candidate, the letter
  returned is at distance zero and it is the first such template of the list.
\<close>

theorem match_letter_exact:
  assumes "candidate l" and "\<forall>t \<in> set ts. template_letter t" and "i < length ts" and "pixels (ts ! i) = pixels l"
  shows "\<exists>j\<le>i. match_letter l ts = Some (Inr (ts ! j)) \<and> distance l (ts ! j) = 0
    \<and> (\<forall>k<j. 0 < distance l (ts ! k))"
proof -
  obtain j where j: "j < length ts" "match_letter l ts = Some (Inr (ts ! j))"
      "\<forall>k<length ts. distance l (ts ! j) \<le> distance l (ts ! k)" "\<forall>k<j. distance l (ts ! j) < distance l (ts ! k)"
    using match_letter_nearest [OF assms(1,2)] assms(3) by (cases ts) auto
  have zero: "distance l (ts ! i) = 0" using assms(1,4) by (rule distance_same)
  have "0 \<le> distance l (ts ! j)" using assms(1,2) j(1) by (intro distance_nonneg) auto
  with zero j(3) assms(3) have dj: "distance l (ts ! j) = 0" by (metis order_antisym)
  with zero j(4) have "j \<le> i" by (metis not_le order_less_irrefl)
  with j(2,4) dj show ?thesis by auto
qed

theorem match_letter_exact_witness:
  "\<exists>j\<le>1. match_letter (new_letter [[0, 255], [10, 0]]) [new_letter [[255]], new_letter [[0, 255], [10, 0]]]
       = Some (Inr ([new_letter [[255]], new_letter [[0, 255], [10, 0]]] ! j))
    \<and> distance (new_letter [[0, 255], [10, 0]]) ([new_letter [[255]], new_letter [[0, 255], [10, 0]]] ! j) = 0
    \<and> (\<forall>k<j. 0 < distance (new_letter [[0, 255], [10, 0]]) ([new_letter [[255]], new_letter [[0, 255], [10, 0]]] ! k))"
proof (rule match_letter_exact)
  show "candidate (new_letter [[0, 255], [10, 0]])"
    unfolding candidate_def image_def
    by (intro exI [of _ 2]) (simp add: new_letter_def rect_def pixels_in_def)
  show "\<forall>t \<in> set [new_letter [[255]], new_letter [[0, 255], [10, 0]]]. template_letter t"
    by (auto simp: template_letter_def image_def new_letter_def rect_def pixels_in_def)
qed simp_all


section \<open>An empty candidate\<close>

lemma difference_empty:
  assumes "rect (pixels l) w 0" and "0 < w" and "w \<le> 2 ^ 26" and "template_letter t"
  shows "difference l t = Some (Inr NaN)"
proof -
  obtain N M where t: "rect (pixels t) N M" "0 < N" "0 < M"
    using assms(4) by (auto simp: template_letter_def image_def)
  obtain s where s: "scale_Matrix_to w 0 (pixels t) = Some (Inr s)"
    using scale_height_zero [OF t assms(2,3)] by blast
  have l: "vec_at (pixels l) 0 = Inr []" "length (pixels l) = w"
    using assms(1,2) rect_nth [OF assms(1), of 0] by (auto simp: vec_at_Inr_conv rect_length)
  then have "diff_sum (pixels l) s = Inr 0"
    by (simp add: diff_sum_def foldE_id)
  with l have "compare_matrices (pixels l) s = Inr NaN"
    by (simp add: compare_matrices_def ddiv_def)
  with l s show ?thesis by (simp add: difference_def scaled_difference_def)
qed

lemma match_empty:
  assumes "rect (pixels l) w 0" and "0 < w" and "w \<le> 2 ^ 26" and "\<forall>t \<in> set ts. template_letter t"
  shows "match_letter l ts = Some (Inl OutOfRange)"
proof -
  have "foldO (match_step l ts) (Fin 256, -1) [0..<k] = Some (Inr (Fin 256, -1))" if "k \<le> length ts" for k
    using that
  proof (induction k)
    case (Suc k)
    then have "difference l (ts ! k) = Some (Inr NaN)"
      using assms by (intro difference_empty) auto
    with Suc show ?case by (simp add: foldO_append match_step_def)
  qed simp
  then show ?thesis by (simp add: match_letter_def)
qed

text \<open>
  A candidate whose columns are empty is not recognised: its difference to every template is
  0.0/0.0, no comparison with a NaN succeeds, the best index keeps its initial -1 and the final
  \<open>letters.at(-1)\<close> throws \<open>std::out_of_range\<close>.
\<close>

theorem match_letter_empty:
  assumes "rect (pixels l) w 0" and "0 < w" and "w \<le> 2 ^ 26" and "\<forall>t \<in> set ts. template_letter t"
  shows "match_letter l ts = Some (Inl OutOfRange)"
  using assms by (rule match_empty)

theorem match_letter_empty_witness:
  "match_letter (new_letter [[], []]) [new_letter [[0, 255]]] = Some (Inl OutOfRange)"
  by (rule match_letter_empty [of _ 2])
    (auto simp: new_letter_def rect_def template_letter_def image_def pixels_in_def)

end
