(* ===== verification/Recognition.thy ===== *)
theory Recognition
  imports FindLetters Matching
begin

text \<open>
  The two entry points of the recognition: \<open>character_recognition\<close> of \<open>lib/processing.cpp\<close> and
  \<open>character_recognition_wrap\<close> of \<open>ocr.cpp\<close>, the one the producer runs, which repeats the whole
  algorithm on its own letter class. The C arrays they take are lists, read without a bounds check;
  the caller's output array is a list that is updated in place.
\<close>

section \<open>The template sizes\<close>

definition sizes :: "(nat \<times> nat) list" where
  "sizes =
    [(62, 79), (48, 79), (51, 81), (49, 79), (41, 79), (42, 79), (52, 81), (45, 79), (36, 79),
     (39, 80), (55, 79), (43, 79), (50, 79), (47, 79), (54, 81), (45, 79), (56, 94), (53, 79),
     (44, 81), (57, 79), (45, 80), (62, 79), (63, 79), (60, 79), (58, 79), (48, 79)]"

lemma length_sizes [simp]: "length sizes = 26"
  by (simp add: sizes_def)


section \<open>character\_recognition\<close>

definition read_rows :: "int list list \<Rightarrow> nat \<Rightarrow> nat \<Rightarrow> matrix result" where
  "read_rows p rows cols = mapE (\<lambda>i. bindE (idx p i) (\<lambda>q. mapE (idx q) [0..<cols])) [0..<rows]"

definition import_letters :: "int list list \<Rightarrow> nat \<Rightarrow> letter list result" where
  "import_letters letters_vec letters_rows =
     mapE (\<lambda>i. bindE (idx letters_vec i) (\<lambda>data. bindE (idx sizes i) (\<lambda>(r, c). importLetter data r c)))
       [0..<letters_rows]"

definition recognise_step ::
  "letter list \<Rightarrow> letter list \<Rightarrow> byte list \<Rightarrow> nat \<Rightarrow> byte list run" where
  "recognise_step letters possible out i =
     bindO (Some (vec_at letters 0)) (\<lambda>_.
     bindO (Some (vec_at possible i)) (\<lambda>p.
     bindO (match_letter p letters) (\<lambda>best. Some (put out i (glyph best)))))"

definition character_recognition ::
  "int list list \<Rightarrow> nat \<Rightarrow> nat \<Rightarrow> int list list \<Rightarrow> nat \<Rightarrow> nat \<Rightarrow> byte list \<Rightarrow> (nat \<times> byte list) run" where
  "character_recognition input rows cols letters_c letters_rows letters_cols out =
     bindO (Some (read_rows input rows cols)) (\<lambda>input_image.
     bindO (Some (read_rows letters_c letters_rows letters_cols)) (\<lambda>letters_vec.
     bindO (Some (import_letters letters_vec letters_rows)) (\<lambda>letters.
     bindO (Some (find_letters 127 input_image)) (\<lambda>possible_letters.
     bindO (foldO (recognise_step letters possible_letters) out [0..<length possible_letters]) (\<lambda>out.
     Some (Inr (length possible_letters, out)))))))"


section \<open>character\_recognition\_wrap\<close>

definition wrap_letter :: "int list list \<Rightarrow> nat \<Rightarrow> letter2 result" where
  "wrap_letter letters_c i =
     bindE (idx sizes i) (\<lambda>(r, c).
     bindE (bindE (idx letters_c i) (\<lambda>p. mapE (idx p) [0..<r * c + 3])) (\<lambda>data.
     importLetter2 data r c))"

definition letter2_at :: "matrix \<Rightarrow> int \<Rightarrow> int \<Rightarrow> letter2" where
  "letter2_at sub left tp = (new_letter2 sub)\<lparr>posx2 := left, posy2 := tp\<rparr>"

definition wrap_match_step ::
  "letter2 \<Rightarrow> letter2 list \<Rightarrow> dbl \<times> int \<Rightarrow> nat \<Rightarrow> (dbl \<times> int) run" where
  "wrap_match_step to_match letters st j =
     (case st of (lowest_difference, lowest_difference_index) \<Rightarrow>
        bindO (Some (vec_at letters j)) (\<lambda>l.
        bindO (scaled_difference (pixels2 to_match) (pixels2 l)) (\<lambda>d.
        Some (Inr (if dless d lowest_difference then (d, int j)
                   else (lowest_difference, lowest_difference_index))))))"

definition wrap_step :: "letter2 list \<Rightarrow> letter2 list \<Rightarrow> byte list \<Rightarrow> nat \<Rightarrow> byte list run" where
  "wrap_step letters possible out i =
     bindO (Some (vec_at possible i)) (\<lambda>to_match.
     bindO (foldO (wrap_match_step to_match letters) (Fin 256, -1) [0..<length letters])
       (\<lambda>(_, lowest_difference_index).
     bindO (Some (vec_at_int letters lowest_difference_index)) (\<lambda>best_match.
     Some (put out i (glyph2 best_match)))))"

definition character_recognition_wrap ::
  "int list list \<Rightarrow> nat \<Rightarrow> nat \<Rightarrow> int list list \<Rightarrow> nat \<Rightarrow> byte list \<Rightarrow> (nat \<times> byte list) run" where
  "character_recognition_wrap input rows cols letters_c letters_rows out =
     bindO (Some (read_rows input rows cols)) (\<lambda>input_image.
     bindO (Some (mapE (wrap_letter letters_c) [0..<letters_rows])) (\<lambda>letters.
     bindO (Some (scan_image letter2_at 127 input_image)) (\<lambda>possible_letters.
     bindO (foldO (wrap_step letters possible_letters) out [0..<length possible_letters]) (\<lambda>out.
     Some (Inr (length possible_letters, out))))))"


section \<open>The two agree\<close>

lemma vec_at_map: "vec_at (map f xs) i = map_sum id f (vec_at xs i)"
  by (simp add: vec_at_def)

lemma vec_at_int_map: "vec_at_int (map f xs) i = map_sum id f (vec_at_int xs i)"
  by (simp add: vec_at_int_def vec_at_map)

lemma foldO_cong: "(\<And>s x. x \<in> set xs \<Longrightarrow> f s x = g s x) \<Longrightarrow> foldO f s xs = foldO g s xs"
  by (induction xs arbitrary: s) (auto intro!: bindO_cong)

lemma wrap_match_step_eq:
  "wrap_match_step l ls st j = match_step (as_letter l) (map as_letter ls) st j"
  by (cases "vec_at ls j") (simp_all add: wrap_match_step_def match_step_def difference_def vec_at_map split: prod.split)

lemma wrap_step_eq:
  assumes "ls \<noteq> []"
  shows "wrap_step ls ps out i = recognise_step (map as_letter ls) (map as_letter ps) out i"
proof (cases "vec_at ps i")
  case (Inr p)
  have "vec_at (map as_letter ls) 0 = Inr (as_letter (ls ! 0))" using assms by simp
  moreover have "vec_at (map as_letter ps) i = Inr (as_letter p)" by (simp add: vec_at_map Inr)
  moreover have "bindO (foldO (wrap_match_step p ls) (Fin 256, -1) [0..<length ls])
       (\<lambda>(_, k). bindO (Some (vec_at_int ls k)) (\<lambda>b. Some (put out i (glyph2 b))))
     = bindO (match_letter (as_letter p) (map as_letter ls)) (\<lambda>b. Some (put out i (glyph b)))"
  proof -
    have f: "foldO (wrap_match_step p ls) (Fin 256, -1) [0..<length ls]
        = foldO (match_step (as_letter p) (map as_letter ls)) (Fin 256, -1) [0..<length ls]"
      by (rule foldO_cong) (simp add: wrap_match_step_eq)
    let ?r = "foldO (match_step (as_letter p) (map as_letter ls)) (Fin 256, -1) [0..<length ls]"
    show ?thesis
    proof (cases "\<exists>d k. ?r = Some (Inr (d, k))")
      case True
      then obtain d k where r: "?r = Some (Inr (d, k))" by blast
      show ?thesis
        by (cases "vec_at_int ls k") (simp_all add: f match_letter_def r vec_at_int_map)
    next
      case False
      then consider "?r = None" | e where "?r = Some (Inl e)"
        by (metis obj_sumE option.exhaust surj_pair)
      then show ?thesis by cases (simp_all add: f match_letter_def)
    qed
  qed
  ultimately show ?thesis by (simp add: wrap_step_def recognise_step_def Inr)
next
  case (Inl e)
  have "vec_at (map as_letter ls) 0 = Inr (as_letter (ls ! 0))" using assms by simp
  with Inl show ?thesis by (simp add: wrap_step_def recognise_step_def vec_at_map)
qed

lemma scan_image_as_letter:
  "find_letters th m = map_sum id (map as_letter) (scan_image letter2_at th m)"
  unfolding find_letters_def
  by (rule scan_image_map) (simp add: letter_at_def letter2_at_def as_letter_def new_letter_def new_letter2_def)

text \<open>The arrays a caller passes: every row holds its letter's data and is as long as claimed.\<close>

definition letters_ok :: "int list list \<Rightarrow> nat \<Rightarrow> nat \<Rightarrow> bool" where
  "letters_ok letters_c letters_rows letters_cols \<longleftrightarrow>
     letters_rows \<le> 26 \<and> letters_rows \<le> length letters_c \<and>
     (\<forall>i<letters_rows. fst (sizes ! i) * snd (sizes ! i) + 3 \<le> letters_cols
        \<and> letters_cols \<le> length (letters_c ! i))"

lemma importLetter_take:
  assumes "r * c + 3 \<le> length d"
  shows "importLetter d r c = importLetter (take (r * c + 3) d) r c" and "\<exists>l. importLetter d r c = Inr l"
proof -
  have fit: "c * i + j < r * c + 3" if "i < r" "j < c" for i j
  proof -
    have "Suc i * c \<le> r * c" using that(1) by (intro mult_le_mono1) simp
    then show ?thesis using that(2) by (simp add: algebra_simps)
  qed
  have fit': "c * i + j < length d" if "i < r" "j < c" for i j
    using fit [OF that] assms by (rule less_le_trans)
  have m: "import_matrix d' r c = Inr (map (\<lambda>i. map (\<lambda>j. d ! (c * i + j)) [0..<c]) [0..<r])"
    if "d' = d \<or> d' = take (r * c + 3) d" for d'
    unfolding import_matrix_def using that by (intro mapE_total) (auto simp: idx_def fit fit')
  have i: "idx (take (r * c + 3) d) k = idx d k" if "k < r * c + 3" for k
    using that assms by (simp add: idx_def)
  show "importLetter d r c = importLetter (take (r * c + 3) d) r c"
    by (simp add: importLetter_def m i)
  show "\<exists>l. importLetter d r c = Inr l"
    using assms by (simp add: importLetter_def m Let_def)
qed

lemma wrap_letters_eq:
  assumes "letters_ok lc n k"
  shows "\<exists>ls. mapE (wrap_letter lc) [0..<n] = Inr ls \<and> length ls = n
    \<and> bindE (read_rows lc n k) (\<lambda>lv. import_letters lv n) = Inr (map as_letter ls)"
proof -
  let ?lv = "map (\<lambda>i. take k (lc ! i)) [0..<n]"
  have rows: "read_rows lc n k = Inr ?lv"
    unfolding read_rows_def
    using assms mapE_idx_upt [of 0 k] by (intro mapE_total) (auto simp: letters_ok_def)
  have "\<exists>l. wrap_letter lc i = Inr l \<and> bindE (idx ?lv i) (\<lambda>d. bindE (idx sizes i) (\<lambda>(r, c). importLetter d r c))
      = Inr (as_letter l)" if "i < n" for i
  proof -
    obtain r c where rc: "sizes ! i = (r, c)" by fastforce
    have i: "i < length sizes" "i < length lc" "r * c + 3 \<le> k" "k \<le> length (lc ! i)"
      using assms that rc by (auto simp: letters_ok_def)
    have cut: "mapE (idx (lc ! i)) [0..<r * c + 3] = Inr (take (r * c + 3) (lc ! i))"
      using mapE_idx_upt [of 0 "r * c + 3" "lc ! i"] i by simp
    have "importLetter (take k (lc ! i)) r c = importLetter (take (r * c + 3) (lc ! i)) r c"
      using importLetter_take(1) [of r c "take k (lc ! i)"] i by (simp add: min_def)
    moreover obtain l where "importLetter (take (r * c + 3) (lc ! i)) r c = Inr l"
      using importLetter_take(2) [of r c "take (r * c + 3) (lc ! i)"] i by auto
    moreover from this obtain l2 where "importLetter2 (take (r * c + 3) (lc ! i)) r c = Inr l2" "l = as_letter l2"
      by (cases "importLetter2 (take (r * c + 3) (lc ! i)) r c") (auto simp: importLetter_as_letter)
    ultimately show ?thesis
      using that i rc cut by (simp add: wrap_letter_def)
  qed
  then obtain g where g: "\<And>i. i < n \<Longrightarrow> wrap_letter lc i = Inr (g i)"
    "\<And>i. i < n \<Longrightarrow> bindE (idx ?lv i) (\<lambda>d. bindE (idx sizes i) (\<lambda>(r, c). importLetter d r c)) = Inr (as_letter (g i))"
    by metis
  have "mapE (wrap_letter lc) [0..<n] = Inr (map g [0..<n])"
    using g(1) by (intro mapE_total) simp
  moreover have "import_letters ?lv n = Inr (map (as_letter \<circ> g) [0..<n])"
    unfolding import_letters_def using g(2) by (intro mapE_total) simp
  ultimately show ?thesis using rows by (intro exI [of _ "map g [0..<n]"]) simp
qed

lemma no_letters_step:
  "i < length ps \<Longrightarrow> wrap_step [] ps out i = Some (Inl OutOfRange)"
  "recognise_step [] qs out j = Some (Inl OutOfRange)"
  by (simp_all add: wrap_step_def recognise_step_def)

lemma wrap_fold_eq:
  "foldO (wrap_step ls ps) out [0..<length ps]
     = foldO (recognise_step (map as_letter ls) (map as_letter ps)) out [0..<length ps]"
proof (cases "ls = []")
  case True
  then show ?thesis
    by (cases "length ps") (simp_all add: no_letters_step upt_conv_Cons del: upt_Suc)
next
  case False
  then show ?thesis by (intro foldO_cong wrap_step_eq)
qed

text \<open>
  The copy the producer runs computes what the library function computes: on the same image and
  the same template arrays, and whatever the output array, \<open>character_recognition_wrap\<close> and
  \<open>character_recognition\<close> return the same number of letters and the same output, or fail the same
  way.
\<close>

theorem character_recognition_wrap_eq:
  assumes "letters_ok letters_c letters_rows letters_cols"
  shows "character_recognition_wrap input rows cols letters_c letters_rows out
    = character_recognition input rows cols letters_c letters_rows letters_cols out"
proof -
  obtain ls where ls: "mapE (wrap_letter letters_c) [0..<letters_rows] = Inr ls"
      "bindE (read_rows letters_c letters_rows letters_cols) (\<lambda>lv. import_letters lv letters_rows)
        = Inr (map as_letter ls)"
    using wrap_letters_eq [OF assms] by blast
  then obtain lv where lv: "read_rows letters_c letters_rows letters_cols = Inr lv"
      "import_letters lv letters_rows = Inr (map as_letter ls)"
    by (auto simp: bindE_Inr_conv)
  show ?thesis
  proof (cases "read_rows input rows cols")
    case (Inr m)
    show ?thesis
      by (cases "scan_image letter2_at 127 m")
        (simp_all add: character_recognition_wrap_def character_recognition_def Inr ls lv
          scan_image_as_letter wrap_fold_eq)
  qed (simp add: character_recognition_wrap_def character_recognition_def)
qed

theorem character_recognition_wrap_eq_witness:
  "letters_ok [replicate 5000 0] 1 4901
   \<and> character_recognition_wrap [[255, 0], [255, 255]] 2 2 [replicate 5000 0] 1 [0]
     = character_recognition [[255, 0], [255, 255]] 2 2 [replicate 5000 0] 1 4901 [0]"
proof -
  have "letters_ok [replicate 5000 0] 1 4901" by (simp add: letters_ok_def sizes_def)
  then show ?thesis using character_recognition_wrap_eq by blast
qed


section \<open>The text of an image\<close>

text \<open>The result of the recognition, as a function of the image and the templates.\<close>

lemma recognise_fold:
  assumes "\<forall>p \<in> set ps. candidate p" and "\<forall>t \<in> set ts. template_letter t" and "ts \<noteq> []"
    and "k \<le> length ps" and "length ps \<le> length out"
  shows "\<exists>best. (\<forall>i<k. best i < length ts \<and> match_letter (ps ! i) ts = Some (Inr (ts ! best i)))
    \<and> foldO (recognise_step ts ps) out [0..<k] = Some (Inr (map (\<lambda>i. glyph (ts ! best i)) [0..<k] @ drop k out))"
  using assms(4)
proof (induction k)
  case (Suc k)
  then obtain best where best: "\<forall>i<k. best i < length ts \<and> match_letter (ps ! i) ts = Some (Inr (ts ! best i))"
      "foldO (recognise_step ts ps) out [0..<k] = Some (Inr (map (\<lambda>i. glyph (ts ! best i)) [0..<k] @ drop k out))"
    by auto
  have "candidate (ps ! k)" using assms(1) Suc.prems by simp
  then obtain j where j: "j < length ts" "match_letter (ps ! k) ts = Some (Inr (ts ! j))"
    using match_letter_nearest [OF _ assms(2,3)] by blast
  let ?b = "best(k := j)"
  have "drop k out = out ! k # drop (Suc k) out"
    using Suc.prems assms(5) by (intro Cons_nth_drop_Suc [symmetric]) simp
  then have "recognise_step ts ps (map (\<lambda>i. glyph (ts ! best i)) [0..<k] @ drop k out) k
      = Some (Inr (map (\<lambda>i. glyph (ts ! ?b i)) [0..<Suc k] @ drop (Suc k) out))"
    using Suc.prems assms(3) j by (simp add: recognise_step_def list_update_append)
  with best j show ?case
    by (intro exI [of _ ?b]) (simp add: foldO_append less_Suc_eq)
qed simp

lemma read_rows_rect:
  assumes "rect m rows cols"
  shows "read_rows m rows cols = Inr m"
proof -
  have "bindE (idx m i) (\<lambda>q. mapE (idx q) [0..<cols]) = Inr (m ! i)" if "i < rows" for i
    using that rect_length [OF assms] rect_nth [OF assms that] mapE_idx_upt [of 0 cols "m ! i"] by simp
  then have "read_rows m rows cols = Inr (map (\<lambda>i. m ! i) [0..<rows])"
    unfolding read_rows_def by (intro mapE_total) simp
  also have "map (\<lambda>i. m ! i) [0..<rows] = m" using assms by (metis map_nth rect_length)
  finally show ?thesis .
qed

text \<open>A small image, one template of the size of the table's first entry, and its flat data.\<close>

definition demo_image :: matrix where
  "demo_image = [[255, 255, 255], [255, 0, 255], [255, 255, 255]]"

definition demo_border :: matrix where
  "demo_border = [[255, 255], [255, 0], [255, 255]]"

definition demo_template :: letter where
  "demo_template = \<lparr>glyph = 65, pixels = replicate 62 (replicate 79 0), posx = 1, posy = 2\<rparr>"

definition demo_data :: "int list" where
  "demo_data = concat (pixels demo_template) @ [1, 2, 65]"

lemma demo_template_rect: "rect (pixels demo_template) 62 79"
  by (simp add: demo_template_def rect_def)

lemma demo_template_ok: "\<forall>t \<in> set [demo_template]. template_letter t"
proof -
  have "image 62 79 (pixels demo_template)"
    using demo_template_rect by (auto simp: image_def pixels_in_def demo_template_def)
  then show ?thesis by (auto simp: template_letter_def)
qed

lemma demo_import:
  "bindE (read_rows [demo_data] 1 4901) (\<lambda>lv. import_letters lv 1) = Inr [demo_template]"
proof -
  have "length demo_data = 4901"
    using concat_rect_length [OF demo_template_rect] by (simp add: demo_data_def)
  then have "rect [demo_data] 1 4901" by (simp add: rect_def)
  then have "read_rows [demo_data] 1 4901 = Inr [demo_data]" by (rule read_rows_rect)
  moreover have "importLetter demo_data 62 79 = Inr demo_template"
    unfolding demo_data_def using importLetter_data [OF demo_template_rect, of 1 2 65 "[]"]
    by (simp add: demo_template_def)
  ultimately show ?thesis by (simp add: import_letters_def sizes_def)
qed

lemma demo_image_blobs: "blobs 127 demo_image = [(1, 2)]"
  by (simp add: blobs_def blobs_upto_def demo_image_def is_blob_def dark_col_def upt_conv_Cons)

lemma demo_border_blobs: "blobs 127 demo_border = [(1, 2)]"
  by (simp add: blobs_def blobs_upto_def demo_border_def is_blob_def dark_col_def upt_conv_Cons)

lemma demo_image_letter: "pixels (blob_letter letter_at 127 demo_image 3 (1, 2)) = [[0]]"
  by (simp add: blob_letter_def letter_at_def new_letter_def dark_rows_def edge_rows_def min_or_def
      max_or_def demo_image_def upt_conv_Cons)

text \<open>
  C32. The text recognised: when the image passed in is rectangular with no dark pixel in its first
  column, every shape in it is one the matching can handle, the templates are non-empty rectangular
  letters and the output array is long enough, the recognition returns, without an exception, the
  number of shapes, and writes for each shape, from left to right, the character of a template that
  matching selects for it; the rest of the output array is unchanged.
\<close>

theorem character_recognition_text:
  assumes "rect m rows cols" and "rows = 0 \<or> \<not> dark_col 127 m 0"
    and "bindE (read_rows letters_c letters_rows letters_cols) (\<lambda>lv. import_letters lv letters_rows) = Inr ts"
    and "ts \<noteq> []" and "\<forall>t \<in> set ts. template_letter t"
    and "\<forall>b \<in> set (blobs 127 m). candidate (blob_letter letter_at 127 m cols b)"
    and "length (blobs 127 m) \<le> length out"
  shows "\<exists>text. character_recognition m rows cols letters_c letters_rows letters_cols out
        = Some (Inr (length (blobs 127 m), text @ drop (length (blobs 127 m)) out))
    \<and> length text = length (blobs 127 m)
    \<and> (\<forall>i<length (blobs 127 m). \<exists>t \<in> set ts. text ! i = glyph t
         \<and> match_letter (blob_letter letter_at 127 m cols (blobs 127 m ! i)) ts = Some (Inr t))"
proof -
  let ?bs = "blobs 127 m"
  let ?ps = "map (blob_letter letter_at 127 m cols) ?bs"
  have m: "read_rows m rows cols = Inr m" using assms(1) by (rule read_rows_rect)
  obtain lv where lv: "read_rows letters_c letters_rows letters_cols = Inr lv" "import_letters lv letters_rows = Inr ts"
    using assms(3) by (auto simp: bindE_Inr_conv)
  have find: "find_letters 127 m = Inr ?ps"
    using scan_image_blank [OF assms(1,2)] by (simp add: find_letters_def)
  obtain best where best: "\<forall>i<length ?ps. best i < length ts \<and> match_letter (?ps ! i) ts = Some (Inr (ts ! best i))"
      "foldO (recognise_step ts ?ps) out [0..<length ?ps]
        = Some (Inr (map (\<lambda>i. glyph (ts ! best i)) [0..<length ?ps] @ drop (length ?ps) out))"
    using recognise_fold [of ?ps ts "length ?ps" out] assms(4-7) by auto
  show ?thesis
    using best by (intro exI [of _ "map (\<lambda>i. glyph (ts ! best i)) [0..<length ?bs]"])
      (auto simp: character_recognition_def m lv find)
qed

theorem character_recognition_text_witness:
  "\<exists>text. character_recognition demo_image 3 3 [demo_data] 1 4901 [0]
        = Some (Inr (length (blobs 127 demo_image), text @ drop (length (blobs 127 demo_image)) [0]))
    \<and> length text = length (blobs 127 demo_image)
    \<and> (\<forall>i<length (blobs 127 demo_image). \<exists>t \<in> set [demo_template]. text ! i = glyph t
         \<and> match_letter (blob_letter letter_at 127 demo_image 3 (blobs 127 demo_image ! i)) [demo_template] = Some (Inr t))"
proof (rule character_recognition_text)
  show "rect demo_image 3 3" and "3 = 0 \<or> \<not> dark_col 127 demo_image 0"
    by (simp_all add: demo_image_def rect_def dark_col_def)
  have "candidate (blob_letter letter_at 127 demo_image 3 (1, 2))"
    unfolding candidate_def image_def demo_image_letter
    by (intro exI [of _ 1]) (simp add: rect_def pixels_in_def)
  then show "\<forall>b \<in> set (blobs 127 demo_image). candidate (blob_letter letter_at 127 demo_image 3 b)"
    by (simp add: demo_image_blobs)
qed (use demo_import demo_template_ok in \<open>simp_all add: demo_image_blobs del: set_simps\<close>)

text \<open>
  A letter that touches the bottom border ends the recognition with an exception: when the first
  shape of the image has no dark pixel with a light one below it, its matrix has height zero and
  \<open>std::out_of_range\<close> leaves \<open>character_recognition\<close>.
\<close>

theorem character_recognition_bottom_border:
  assumes "rect m rows cols" and "rows = 0 \<or> \<not> dark_col 127 m 0" and "rows \<le> 2 ^ 26"
    and "bindE (read_rows letters_c letters_rows letters_cols) (\<lambda>lv. import_letters lv letters_rows) = Inr ts"
    and "\<forall>t \<in> set ts. template_letter t"
    and "blobs 127 m = (l, r) # bs" and "edge_rows 127 m cols l r = []"
  shows "character_recognition m rows cols letters_c letters_rows letters_cols out = Some (Inl OutOfRange)"
proof -
  let ?p = "blob_letter letter_at 127 m cols (l, r)"
  let ?ps = "map (blob_letter letter_at 127 m cols) (blobs 127 m)"
  have m: "read_rows m rows cols = Inr m" using assms(1) by (rule read_rows_rect)
  obtain lv where lv: "read_rows letters_c letters_rows letters_cols = Inr lv" "import_letters lv letters_rows = Inr ts"
    using assms(4) by (auto simp: bindE_Inr_conv)
  have find: "find_letters 127 m = Inr ?ps"
    using scan_image_blank [OF assms(1,2)] by (simp add: find_letters_def)
  have "(l, r) \<in> set (blobs 127 m)" using assms(6) by simp
  then have lr: "l < r" "r < rows"
    using assms(1) by (simp_all add: blobs_set is_blob_def rect_length)
  have "match_letter ?p ts = Some (Inl OutOfRange)"
    using blob_letter_no_edge [OF assms(7)] lr assms(3,5) by (intro match_empty [of _ "r - l"]) auto
  then have "recognise_step ts ?ps out 0 = Some (Inl OutOfRange)"
    by (cases "ts = []") (simp_all add: recognise_step_def assms(6))
  then show ?thesis
    by (simp add: character_recognition_def m lv find assms(6) upt_conv_Cons del: upt_Suc)
qed

theorem character_recognition_bottom_border_witness:
  "character_recognition demo_border 3 2 [demo_data] 1 4901 [0] = Some (Inl OutOfRange)"
proof (rule character_recognition_bottom_border [where ts = "[demo_template]"])
  show "rect demo_border 3 2" and "3 = 0 \<or> \<not> dark_col 127 demo_border 0"
    by (simp_all add: demo_border_def rect_def dark_col_def)
  show "edge_rows 127 demo_border 2 1 2 = []"
    by (simp add: edge_rows_def demo_border_def upt_conv_Cons)
qed (use demo_import demo_template_ok in \<open>simp_all add: demo_border_blobs del: set_simps\<close>)

end
