(* ===== verification/ImageUtil.thy ===== *)
theory ImageUtil
  imports Recognition
begin

text \<open>
  \<open>lib/image_util.cpp\<close>: from an image file to the black and white matrix the recognition reads, and
  the template files of the alphabet. Decoding an image file is SFML's, not part of the repository:
  it is the parameter \<open>loadFromFile\<close>. A text file of integers is the list of the integers it holds,
  and the file system is a map from names to such lists.
\<close>

section \<open>Grayscale and threshold\<close>

record color =
  red :: byte
  green :: byte
  blue :: byte

record image_file =
  width :: nat
  height :: nat
  getPixel :: "nat \<Rightarrow> nat \<Rightarrow> color"

definition THRESHOLD :: int where "THRESHOLD = 90"

definition RED_WEIGHT :: rat where "RED_WEIGHT = rnd (299 / 1000)"
definition GREEN_WEIGHT :: rat where "GREEN_WEIGHT = rnd (587 / 1000)"
definition BLUE_WEIGHT :: rat where "BLUE_WEIGHT = rnd (114 / 1000)"

text \<open>The weighted sum is computed in doubles from left to right and truncated.\<close>

definition shade :: "color \<Rightarrow> nat" where
  "shade c =
     nat \<lfloor>rnd (rnd (rnd (RED_WEIGHT * of_nat (unat (red c))) + rnd (GREEN_WEIGHT * of_nat (unat (green c))))
       + rnd (BLUE_WEIGHT * of_nat (unat (blue c))))\<rfloor>"

definition get_grayscale_pixels :: "image_file \<Rightarrow> matrix" where
  "get_grayscale_pixels img =
     map (\<lambda>x. map (\<lambda>y. int (shade (getPixel img x y))) [0..<height img]) [0..<width img]"

definition apply_threshold :: "int \<Rightarrow> matrix \<Rightarrow> int \<Rightarrow> int \<Rightarrow> matrix result" where
  "apply_threshold threshold oldMatrix high low =
     mapE (\<lambda>x. bindE (vec_at oldMatrix 0) (\<lambda>c0.
        mapE (\<lambda>y. bindE (vec_at oldMatrix x) (\<lambda>col. bindE (vec_at col y) (\<lambda>p.
          Inr (if p > threshold then high else low)))) [0..<length c0])) [0..<length oldMatrix]"

text \<open>\<open>None\<close> is the return value 1 of the code, for a file that cannot be loaded.\<close>

definition load_image :: "(string \<Rightarrow> image_file option) \<Rightarrow> string \<Rightarrow> matrix option result" where
  "load_image loadFromFile name =
     (case loadFromFile name of
        None \<Rightarrow> Inr None
      | Some img \<Rightarrow> bindE (apply_threshold THRESHOLD (get_grayscale_pixels img) 255 0) (\<lambda>m. Inr (Some m)))"

lemma get_grayscale_rect: "rect (get_grayscale_pixels img) (width img) (height img)"
  by (simp add: get_grayscale_pixels_def rect_map)

lemma apply_threshold_rect:
  assumes "rect m w h"
  shows "apply_threshold t m high low = Inr (map (map (\<lambda>p. if p > t then high else low)) m)"
proof (cases "w = 0")
  case True
  with assms show ?thesis by (simp add: apply_threshold_def rect_def)
next
  case False
  let ?f = "\<lambda>p. if p > t then high else low"
  have c0: "vec_at m 0 = Inr (m ! 0)" "length (m ! 0) = h"
    using assms False by (simp_all add: rect_length rect_nth)
  have "mapE (\<lambda>y. bindE (vec_at m x) (\<lambda>col. bindE (vec_at col y) (\<lambda>p. Inr (?f p)))) [0..<h]
      = Inr (map ?f (m ! x))" if "x < w" for x
  proof -
    have "vec_at m x = Inr (m ! x)" and len: "length (m ! x) = h"
      using assms that by (simp_all add: rect_length rect_nth)
    then have "mapE (\<lambda>y. bindE (vec_at m x) (\<lambda>col. bindE (vec_at col y) (\<lambda>p. Inr (?f p)))) [0..<h]
        = Inr (map (\<lambda>y. ?f (m ! x ! y)) [0..<h])"
      by (intro mapE_total) simp
    also have "map (\<lambda>y. ?f (m ! x ! y)) [0..<h] = map ?f (m ! x)"
      using len by (intro nth_equalityI) auto
    finally show ?thesis .
  qed
  then have "apply_threshold t m high low = Inr (map (\<lambda>x. map ?f (m ! x)) [0..<w])"
    unfolding apply_threshold_def rect_length [OF assms] using c0 by (intro mapE_total) simp
  also have "map (\<lambda>x. map ?f (m ! x)) [0..<w] = map (map ?f) m"
    using rect_length [OF assms] by (intro nth_equalityI) auto
  finally show ?thesis .
qed

lemma apply_threshold_image:
  assumes "rect m w h" and "lo \<le> low" "low \<le> hi" "lo \<le> high" "high \<le> hi"
  shows "\<exists>b. apply_threshold t m high low = Inr b \<and> rect b w h \<and> pixels_in lo hi b"
  using apply_threshold_rect [OF assms(1)] assms by (fastforce simp: rect_def pixels_in_def)

text \<open>
  Loading an image: whatever the file holds, the matrix returned is a black and white image of
  its size. Every column has the image's height, and the pixel at \<open>(x, y)\<close> is 255 when its shade is
  above the threshold and 0 otherwise.
\<close>

theorem load_image_pixels:
  "load_image lf name = Inr (map_option (\<lambda>img.
     map (\<lambda>x. map (\<lambda>y. if int (shade (getPixel img x y)) > THRESHOLD then 255 else 0)
       [0..<height img]) [0..<width img]) (lf name))"
proof (cases "lf name")
  case (Some img)
  show ?thesis
    using apply_threshold_rect [OF get_grayscale_rect [of img], of THRESHOLD 255 0]
    by (simp add: load_image_def Some get_grayscale_pixels_def comp_def)
qed (simp add: load_image_def)

text \<open>The shade of a colour fits a byte, despite the rounding of the weights.\<close>

lemma rnd_le: "0 \<le> x \<Longrightarrow> x \<le> b \<Longrightarrow> rnd x \<le> b * (1 + u53)"
proof -
  assume "0 \<le> x" and "x \<le> b"
  then have "rnd x \<le> x * (1 + u53)" by (intro rnd_bounds(2))
  also have "\<dots> \<le> b * (1 + u53)" using \<open>x \<le> b\<close> by (intro mult_right_mono) (simp_all add: add_nonneg_nonneg)
  finally show ?thesis .
qed

lemma weighted_le:
  assumes "0 \<le> w" and "k \<le> 255"
  shows "rnd (rnd w * of_nat k) \<le> w * 255 * (1 + u53) * (1 + u53)"
proof -
  have k: "of_nat k \<le> (255::rat)" using assms(2) by simp
  have "rnd w * of_nat k \<le> w * (1 + u53) * 255"
    using rnd_le [OF assms(1) order_refl] rnd_nonneg [OF assms(1)] k
    by (intro mult_mono) (simp_all add: assms(1) add_nonneg_nonneg)
  then have "rnd (rnd w * of_nat k) \<le> w * (1 + u53) * 255 * (1 + u53)"
    using rnd_nonneg [OF assms(1)] by (intro rnd_le) simp_all
  then show ?thesis by (simp add: mult_ac)
qed

lemma shade_byte: "shade c \<le> 255"
proof -
  let ?r = "rnd (RED_WEIGHT * of_nat (unat (red c)))"
  let ?g = "rnd (GREEN_WEIGHT * of_nat (unat (green c)))"
  let ?b = "rnd (BLUE_WEIGHT * of_nat (unat (blue c)))"
  let ?q = "(1 + u53) * (1 + u53)"
  have byte: "unat (x :: byte) \<le> 255" for x :: byte
    using unat_byte_bound [of x] by linarith
  have r: "?r \<le> 299 / 1000 * 255 * ?q" and g: "?g \<le> 587 / 1000 * 255 * ?q" and b: "?b \<le> 114 / 1000 * 255 * ?q"
    using weighted_le [OF _ byte, of "299 / 1000" "red c"] weighted_le [OF _ byte, of "587 / 1000" "green c"]
      weighted_le [OF _ byte, of "114 / 1000" "blue c"]
    by (simp_all add: RED_WEIGHT_def GREEN_WEIGHT_def BLUE_WEIGHT_def mult_ac)
  have nn: "0 \<le> ?r" "0 \<le> ?g" "0 \<le> ?b"
    by (simp_all add: RED_WEIGHT_def GREEN_WEIGHT_def BLUE_WEIGHT_def rnd_nonneg mult_nonneg_nonneg del: of_nat_unat)
  have "?r + ?g \<le> 886 / 1000 * 255 * ?q" using r g by (simp add: field_simps)
  then have rg: "rnd (?r + ?g) \<le> 886 / 1000 * 255 * ?q * (1 + u53)"
    using nn by (intro rnd_le) simp_all
  define Q where "Q = ?q * (1 + u53)"
  have "?q * 1 \<le> Q" unfolding Q_def by (intro mult_left_mono) (auto simp: add_nonneg_nonneg)
  then have q: "114 / 1000 * 255 * ?q \<le> 114 / 1000 * 255 * Q" by (intro mult_left_mono) simp_all
  have "rnd (?r + ?g) \<le> 886 / 1000 * 255 * Q" using rg by (simp only: Q_def mult.assoc)
  then have "rnd (?r + ?g) + ?b \<le> 255 * Q" using b q by linarith
  then have "rnd (?r + ?g) + ?b \<le> 255 * (?q * (1 + u53))" by (simp only: Q_def)
  then have "rnd (rnd (?r + ?g) + ?b) \<le> 255 * (?q * (1 + u53)) * (1 + u53)"
    using nn(3) rnd_nonneg [OF add_nonneg_nonneg [OF nn(1,2)]] by (intro rnd_le) simp_all
  also have "\<dots> < 256" by (simp add: u53_def)
  finally have "\<lfloor>rnd (rnd (?r + ?g) + ?b)\<rfloor> < 256" by (simp add: floor_less_iff)
  then have "nat \<lfloor>rnd (rnd (?r + ?g) + ?b)\<rfloor> \<le> 255" by linarith
  then show ?thesis by (simp only: shade_def)
qed


section \<open>Template files\<close>

type_synonym files = "string \<Rightarrow> int list option"

text \<open>The name is printed into a \<open>char[6]\<close>, terminator included.\<close>

definition template_filename :: "nat \<Rightarrow> string result" where
  "template_filename i =
     (let s = dec i @ ''.sav'' in
      if length s + 1 \<le> 6 then Inr s else Inl (UndefinedBehaviour ''filename overflow''))"

text \<open>
  The array \<open>data\<close> has \<open>rows * cols + 3\<close> cells, filled by the loop over the stream: more integers than
  that are written past its end, and with fewer \<open>importLetter\<close> reads cells that were never written.
\<close>

definition read_template :: "files \<Rightarrow> string \<Rightarrow> nat \<Rightarrow> nat \<Rightarrow> letter result" where
  "read_template fs name rows cols =
     (let xs = (case fs name of None \<Rightarrow> [] | Some xs \<Rightarrow> xs) in
      if rows * cols + 3 < length xs then Inl (UndefinedBehaviour ''data overflow'')
      else if length xs < rows * cols + 3 then Inl (UndefinedBehaviour ''uninitialised data'')
      else importLetter xs rows cols)"

definition load_template :: "files \<Rightarrow> nat \<Rightarrow> letter list result" where
  "load_template fs alphabet_length =
     mapE (\<lambda>i. bindE (template_filename i) (\<lambda>name. bindE (idx sizes i) (\<lambda>(rows, cols).
       read_template fs name rows cols))) [0..<alphabet_length]"

definition set_glyphs :: "byte list \<Rightarrow> nat \<Rightarrow> letter list \<Rightarrow> letter list result" where
  "set_glyphs txt alphabet_length letters =
     foldE (\<lambda>ls i. bindE (idx (txt @ [0]) i) (\<lambda>c. bindE (vec_at ls i) (\<lambda>l.
       Inr (ls[i := l\<lparr>glyph := c\<rparr>])))) letters [0..<alphabet_length]"

definition load_alphabet ::
  "(string \<Rightarrow> image_file option) \<Rightarrow> string \<Rightarrow> byte list \<Rightarrow> nat \<Rightarrow> letter list option result" where
  "load_alphabet loadFromFile image_alphabet text_alphabet alphabet_length =
     bindE (load_image loadFromFile image_alphabet) (\<lambda>r. case r of
       None \<Rightarrow> Inr None
     | Some px \<Rightarrow>
         bindE (find_letters 127 px) (\<lambda>letters.
         bindE (set_glyphs text_alphabet alphabet_length letters) (\<lambda>ls. Inr (Some ls))))"

definition save_letter :: "files \<Rightarrow> nat \<times> letter \<Rightarrow> files result" where
  "save_letter fs il =
     (case il of (i, l) \<Rightarrow>
        bindE (template_filename i) (\<lambda>name.
        bindE (idx (pixels l) 0) (\<lambda>c0.
        bindE (exportLetter l (replicate (length (pixels l) * length c0 + 3) 0)) (\<lambda>data.
        Inr (fs(name := Some data))))))"

definition save_letters :: "files \<Rightarrow> letter list \<Rightarrow> files result" where
  "save_letters fs letters = foldE save_letter fs (enumerate 0 letters)"

text \<open>The pair of the return value and the files.\<close>

definition create_template ::
  "(string \<Rightarrow> image_file option) \<Rightarrow> files \<Rightarrow> string \<Rightarrow> byte list \<Rightarrow> nat \<Rightarrow> (nat \<times> files) result" where
  "create_template loadFromFile fs image_alphabet text_alphabet alphabet_length =
     bindE (load_alphabet loadFromFile image_alphabet text_alphabet alphabet_length) (\<lambda>r. case r of
       None \<Rightarrow> Inr (1, fs)
     | Some letters \<Rightarrow> bindE (save_letters fs letters) (\<lambda>fs'. Inr (0, fs')))"

lemma template_filename_small: "i < 10 \<Longrightarrow> template_filename i = Inr (dec i @ ''.sav'')"
  by (simp add: template_filename_def dec_digit)

lemma template_filename_big: "10 \<le> i \<Longrightarrow> template_filename i = Inl (UndefinedBehaviour ''filename overflow'')"
  using dec_length [of i] by (simp add: template_filename_def)

lemma save_letter_small:
  assumes "rect (pixels l) r c" and "0 < r" and "i < 10"
  shows "save_letter fs (i, l)
    = Inr (fs(dec i @ ''.sav'' \<mapsto> concat (pixels l) @ [posx l, posy l, sint (glyph l)]))"
  using assms exportLetter_data [OF assms(1,2)]
  by (simp add: save_letter_def template_filename_small rect_length rect_nth)

lemma enumerate_snoc: "enumerate n (xs @ [x]) = enumerate n xs @ [(n + length xs, x)]"
  by (simp add: enumerate_append_eq)

lemma save_letters_files:
  assumes "length ls \<le> 10" and "length ls \<le> length sz" and "\<forall>i<length ls. rect (pixels (ls ! i)) (fst (sz ! i)) (snd (sz ! i)) \<and> 0 < fst (sz ! i)"
  shows "\<exists>fs'. foldE save_letter fs (enumerate 0 ls) = Inr fs'
    \<and> (\<forall>i<length ls. fs' (dec i @ ''.sav'') = Some (concat (pixels (ls ! i)) @ [posx (ls ! i), posy (ls ! i), sint (glyph (ls ! i))]))"
  using assms
proof (induction ls rule: rev_induct)
  case (snoc l ls)
  let ?n = "length ls"
  have "\<forall>i<?n. rect (pixels (ls ! i)) (fst (sz ! i)) (snd (sz ! i)) \<and> 0 < fst (sz ! i)"
    using snoc.prems(3) by (auto simp: nth_append split: if_splits)
  then obtain fs' where fs': "foldE save_letter fs (enumerate 0 ls) = Inr fs'"
    "\<forall>i<?n. fs' (dec i @ ''.sav'') = Some (concat (pixels (ls ! i)) @ [posx (ls ! i), posy (ls ! i), sint (glyph (ls ! i))])"
    using snoc by auto
  have "rect (pixels l) (fst (sz ! ?n)) (snd (sz ! ?n))" "0 < fst (sz ! ?n)"
    using snoc.prems(3) by (auto simp: nth_append dest: spec [of _ ?n])
  then have "save_letter fs' (?n, l)
      = Inr (fs'(dec ?n @ ''.sav'' \<mapsto> concat (pixels l) @ [posx l, posy l, sint (glyph l)]))"
    using snoc.prems(1) by (intro save_letter_small) auto
  with fs' snoc.prems(1) show ?case
    by (auto simp: enumerate_snoc foldE_append nth_append less_Suc_eq dec_digit_inj)
qed simp

text \<open>
  The template files keep the alphabet: saving at most ten letters whose matrices have the sizes
  of the table succeeds, over any files there were before, and \<open>load_template\<close> then reads exactly
  these letters back.
\<close>

theorem template_roundtrip:
  assumes "length letters \<le> 10"
    and "\<forall>i<length letters. rect (pixels (letters ! i)) (fst (sizes ! i)) (snd (sizes ! i))"
  shows "\<exists>fs'. save_letters fs letters = Inr fs' \<and> load_template fs' (length letters) = Inr letters"
proof -
  have sz: "0 < fst (sizes ! i)" if "i < 26" for i
  proof -
    have "\<forall>p \<in> set sizes. 0 < fst p" by (simp add: sizes_def)
    then show ?thesis using that by simp
  qed
  obtain fs' where fs': "foldE save_letter fs (enumerate 0 letters) = Inr fs'"
    "\<forall>i<length letters. fs' (dec i @ ''.sav'') = Some (concat (pixels (letters ! i)) @ [posx (letters ! i), posy (letters ! i), sint (glyph (letters ! i))])"
    using save_letters_files [of letters sizes fs] assms sz by auto
  have "bindE (template_filename i) (\<lambda>name. bindE (idx sizes i) (\<lambda>(rows, cols). read_template fs' name rows cols))
      = Inr (letters ! i)" if "i < length letters" for i
  proof -
    obtain r c where rc: "sizes ! i = (r, c)" by fastforce
    have rect: "rect (pixels (letters ! i)) r c" using assms(2) that rc by auto
    show ?thesis
      using that assms(1) fs'(2) rc concat_rect_length [OF rect] importLetter_data [OF rect, of _ _ _ "[]"]
      by (simp add: template_filename_small read_template_def)
  qed
  then have "load_template fs' (length letters) = Inr (map (\<lambda>i. letters ! i) [0..<length letters])"
    unfolding load_template_def by (intro mapE_total) simp
  then show ?thesis using fs'(1) by (simp add: save_letters_def map_nth)
qed

theorem template_roundtrip_witness:
  "\<exists>fs'. save_letters (\<lambda>_. None) [demo_template] = Inr fs'
    \<and> load_template fs' (length [demo_template]) = Inr [demo_template]"
  by (rule template_roundtrip) (use demo_template_rect in \<open>simp_all add: sizes_def\<close>)

lemma template_overflow:
  assumes "10 < n"
  shows "\<exists>what. load_template fs n = Inl (UndefinedBehaviour what)"
proof -
  let ?f = "\<lambda>i. bindE (template_filename i) (\<lambda>name. bindE (idx sizes i) (\<lambda>(rows, cols). read_template fs name rows cols))"
  have ub: "(\<exists>what. importLetter xs r c = Inl (UndefinedBehaviour what)) \<or> (\<exists>l. importLetter xs r c = Inr l)"
    if "length xs = r * c + 3" for xs r c
    using importLetter_take(2) [of r c xs] that by auto
  have one: "(\<exists>what. ?f i = Inl (UndefinedBehaviour what)) \<or> (\<exists>l. ?f i = Inr l)" if "i < 10" for i
  proof -
    obtain r c where rc: "sizes ! i = (r, c)" by fastforce
    show ?thesis using that ub rc by (auto simp: template_filename_small read_template_def Let_def)
  qed
  have upto: "(\<exists>what. mapE ?f [0..<k] = Inl (UndefinedBehaviour what)) \<or> (\<exists>ls. mapE ?f [0..<k] = Inr ls)" if "k \<le> 10" for k
    using that
  proof (induction k)
    case (Suc k)
    then show ?case using one [of k] by (auto simp: mapE_append)
  qed simp
  have "[0..<n] = [0..<10] @ [10..<n]" using upt_add_eq_append [of 0 10 "n - 10"] assms by simp
  moreover have "[10..<n] = 10 # [11..<n]" using assms by (simp add: upt_conv_Cons)
  ultimately have "load_template fs n = bindE (mapE ?f [0..<10]) (\<lambda>us. bindE (mapE ?f (10 # [11..<n])) (\<lambda>vs. Inr (us @ vs)))"
    unfolding load_template_def by (simp only: mapE_append)
  then show ?thesis using upto [of 10] by (auto simp: template_filename_big)
qed

text \<open>
  The name buffer is too small: \<open>load_template\<close> with an alphabet of more than ten letters has
  undefined behaviour whatever the files hold, because the name of the eleventh file needs seven
  bytes with its terminator and the buffer has six.
\<close>

theorem load_template_overflow:
  assumes "10 < n"
  shows "\<exists>what. load_template fs n = Inl (UndefinedBehaviour what)"
  using assms by (rule template_overflow)

theorem load_template_overflow_witness:
  "\<exists>what. load_template (\<lambda>_. None) 26 = Inl (UndefinedBehaviour what)"
  by (rule load_template_overflow) simp

end
