(* ===== verification/Ocr.thy ===== *)
theory Ocr
  imports ImageUtil
begin

text \<open>
  \<open>run_ocr\<close> of \<open>ocr.cpp\<close>: it loads the templates and the image, turns both into C arrays, runs
  \<open>character_recognition_wrap\<close> into an array of 100 characters and prints the text. The part after
  the two files are loaded is \<open>ocr_of_image\<close>. The array of 100 characters is not initialised in the
  code; its initial contents, zero here, are never read, since the first \<open>length\<close> cells are written.
\<close>

definition export_template :: "letter \<Rightarrow> int list result" where
  "export_template l =
     bindE (idx (pixels l) 0) (\<lambda>c0.
     exportLetter l (replicate (length (pixels l) * length c0 + 3) 0))"

definition chr :: "byte \<Rightarrow> char" where
  "chr b = char_of (unat b)"

definition response_of :: "nat \<Rightarrow> byte list \<Rightarrow> string result" where
  "response_of len recognised_letters =
     bindE (mapE (idx recognised_letters) [0..<len]) (\<lambda>cs. Inr (''OCR output: '' @ map chr cs))"

definition ocr_of_image :: "letter list \<Rightarrow> matrix \<Rightarrow> string run" where
  "ocr_of_image letters px =
     bindO (Some (idx px 0)) (\<lambda>c0.
     bindO (Some (mapE export_template letters)) (\<lambda>letters_vec.
     bindO (character_recognition_wrap px (length px) (length c0) letters_vec (length letters_vec)
        (replicate 100 0)) (\<lambda>(len, recognised_letters).
     Some (response_of len recognised_letters))))"

definition run_ocr ::
  "(string \<Rightarrow> image_file option) \<Rightarrow> files \<Rightarrow> string \<Rightarrow> string run" where
  "run_ocr loadFromFile fs image_input =
     bindO (Some (load_template fs 26)) (\<lambda>letters.
     bindO (Some (load_image loadFromFile image_input)) (\<lambda>r. case r of
       None \<Rightarrow> Some (Inr [])
     | Some px \<Rightarrow> ocr_of_image letters px))"

text \<open>The template letters as the table of sizes describes them.\<close>

definition alphabet :: "letter list \<Rightarrow> bool" where
  "alphabet ts \<longleftrightarrow> ts \<noteq> [] \<and> length ts \<le> 26 \<and>
     (\<forall>i<length ts. image (fst (sizes ! i)) (snd (sizes ! i)) (pixels (ts ! i)))"

lemma alphabet_templates: "alphabet ts \<Longrightarrow> \<forall>t \<in> set ts. template_letter t"
  unfolding alphabet_def template_letter_def by (metis in_set_conv_nth)

lemma export_template_image:
  assumes "image r c (pixels l)"
  shows "export_template l = Inr (concat (pixels l) @ [posx l, posy l, sint (glyph l)])"
proof -
  have rect: "rect (pixels l) r c" and r: "0 < r" using assms by (simp_all add: image_def)
  then have "idx (pixels l) 0 = Inr (pixels l ! 0)" "length (pixels l ! 0) = c" "length (pixels l) = r"
    by (simp_all add: rect_length rect_nth)
  then show ?thesis by (simp add: export_template_def exportLetter_data [OF rect r])
qed

text \<open>Importing what was exported for the enclave gives the same letters.\<close>

lemma wrap_letters_exported:
  assumes "alphabet ts" and "mapE export_template ts = Inr lv"
  shows "\<exists>ls. mapE (wrap_letter lv) [0..<length ts] = Inr ls \<and> map as_letter ls = ts"
proof -
  have len: "length lv = length ts" using assms(2) by (rule mapE_length)
  have "\<exists>l. wrap_letter lv i = Inr l \<and> as_letter l = ts ! i" if i: "i < length ts" for i
  proof -
    obtain r c where rc: "sizes ! i = (r, c)" by fastforce
    have im: "image r c (pixels (ts ! i))" and i26: "i < 26" using assms(1) i rc by (auto simp: alphabet_def)
    then have rect: "rect (pixels (ts ! i)) r c" by (simp add: image_def)
    let ?d = "concat (pixels (ts ! i)) @ [posx (ts ! i), posy (ts ! i), sint (glyph (ts ! i))]"
    have lvi: "lv ! i = ?d"
      using mapE_nth [OF assms(2) i] export_template_image [OF im] by simp
    have ld: "length ?d = r * c + 3" using concat_rect_length [OF rect] by simp
    have cut: "mapE (idx ?d) [0..<r * c + 3] = Inr ?d"
      using mapE_idx_upt [of 0 "r * c + 3" ?d] ld by simp
    have "importLetter ?d r c = Inr (ts ! i)"
      using importLetter_data [OF rect, of _ _ _ "[]"] by simp
    then obtain l where "importLetter2 ?d r c = Inr l" "as_letter l = ts ! i"
      by (cases "importLetter2 ?d r c") (auto simp: importLetter_as_letter)
    then show ?thesis using i i26 rc len lvi cut by (simp add: wrap_letter_def)
  qed
  then obtain g where g: "\<And>i. i < length ts \<Longrightarrow> wrap_letter lv i = Inr (g i) \<and> as_letter (g i) = ts ! i"
    by metis
  then have "mapE (wrap_letter lv) [0..<length ts] = Inr (map g [0..<length ts])"
    by (intro mapE_total) simp
  moreover have "map as_letter (map g [0..<length ts]) = ts"
    using g by (intro nth_equalityI) auto
  ultimately show ?thesis by blast
qed

lemma export_alphabet:
  assumes "alphabet ts"
  shows "\<exists>lv. mapE export_template ts = Inr lv \<and> length lv = length ts"
proof -
  have "\<exists>d. export_template t = Inr d" if "t \<in> set ts" for t
    using alphabet_templates [OF assms] that export_template_image unfolding template_letter_def by blast
  then obtain g where "\<And>t. t \<in> set ts \<Longrightarrow> export_template t = Inr (g t)" by metis
  then have "mapE export_template ts = Inr (map g ts)" by (rule mapE_total)
  then show ?thesis by simp
qed

lemma ocr_of_image_fold:
  assumes "rect px w h" and "0 < w" and "\<not> dark_col 127 px 0" and "alphabet ts"
  shows "ocr_of_image ts px =
    bindO (foldO (recognise_step ts (map (blob_letter letter_at 127 px h) (blobs 127 px)))
        (replicate 100 0) [0..<length (blobs 127 px)])
      (\<lambda>out. Some (response_of (length (blobs 127 px)) out))"
proof -
  obtain lv where lv: "mapE export_template ts = Inr lv" "length lv = length ts"
    using export_alphabet [OF assms(4)] by blast
  obtain ls where ls: "mapE (wrap_letter lv) [0..<length ts] = Inr ls" "map as_letter ls = ts"
    using wrap_letters_exported [OF assms(4) lv(1)] by blast
  obtain ps where ps: "scan_image letter2_at 127 px = Inr ps"
      "map as_letter ps = map (blob_letter letter_at 127 px h) (blobs 127 px)"
    using scan_image_as_letter [of 127 px] scan_image_blank [OF assms(1), of 127 letter_at] assms(2,3)
    by (cases "scan_image letter2_at 127 px") (auto simp: find_letters_def)
  then have lps: "length ps = length (blobs 127 px)" by (metis length_map)
  have c0: "idx px 0 = Inr (px ! 0)" "length (px ! 0) = h" "length px = w"
    using assms(1,2) by (simp_all add: rect_length rect_nth)
  let ?F = "foldO (wrap_step ls ps) (replicate 100 0) [0..<length ps]"
  have F: "?F = foldO (recognise_step ts (map (blob_letter letter_at 127 px h) (blobs 127 px)))
      (replicate 100 0) [0..<length (blobs 127 px)]"
    using wrap_fold_eq [of ls ps "replicate 100 0"] by (simp add: ls(2) ps(2) lps)
  have "ocr_of_image ts px = bindO (bindO ?F (\<lambda>out. Some (Inr (length ps, out))))
      (\<lambda>(len, out). Some (response_of len out))"
    using c0 by (simp add: ocr_of_image_def lv character_recognition_wrap_def
        read_rows_rect [OF assms(1)] ls(1) ps(1))
  also have "\<dots> = bindO ?F (\<lambda>out. Some (response_of (length ps) out))"
    by (cases ?F; simp; cases "the ?F"; simp)
  finally show ?thesis unfolding F by (simp only: lps)
qed

text \<open>
  C34. What the tail of \<open>run_ocr\<close> returns, when the templates and the image are loaded: for an alphabet of
  the table's sizes and an image with at most 100 shapes, none of them touching the left border and all of them
  matchable, the response is the fixed prefix followed by one character per shape, from left to right, each
  the character of a template that matching selects for it.
\<close>

theorem ocr_of_image_text:
  assumes "rect px w h" and "0 < w" and "\<not> dark_col 127 px 0" and "alphabet ts"
    and "\<forall>b \<in> set (blobs 127 px). candidate (blob_letter letter_at 127 px h b)"
    and "length (blobs 127 px) \<le> 100"
  shows "\<exists>sel. ocr_of_image ts px
        = Some (Inr (''OCR output: '' @ map (\<lambda>i. chr (glyph (ts ! sel i))) [0..<length (blobs 127 px)]))
    \<and> (\<forall>i<length (blobs 127 px). sel i < length ts
        \<and> match_letter (blob_letter letter_at 127 px h (blobs 127 px ! i)) ts = Some (Inr (ts ! sel i)))"
proof -
  let ?ps = "map (blob_letter letter_at 127 px h) (blobs 127 px)" and ?n = "length (blobs 127 px)"
  obtain sel where sel: "\<forall>i<?n. sel i < length ts \<and> match_letter (?ps ! i) ts = Some (Inr (ts ! sel i))"
      "foldO (recognise_step ts ?ps) (replicate 100 0) [0..<?n]
        = Some (Inr (map (\<lambda>i. glyph (ts ! sel i)) [0..<?n] @ drop ?n (replicate 100 0)))"
    using recognise_fold [of ?ps ts ?n "replicate 100 0"] assms(4-6) alphabet_templates
    by (auto simp: alphabet_def)
  have "response_of ?n (map (\<lambda>i. glyph (ts ! sel i)) [0..<?n] @ drop ?n (replicate 100 0))
      = Inr (''OCR output: '' @ map (\<lambda>i. chr (glyph (ts ! sel i))) [0..<?n])"
    using mapE_idx_upt [of 0 ?n "map (\<lambda>i. glyph (ts ! sel i)) [0..<?n] @ drop ?n (replicate 100 0)"]
    by (simp add: response_of_def)
  then show ?thesis
    using sel ocr_of_image_fold [OF assms(1-4)] by (intro exI [of _ sel]) simp
qed

theorem ocr_of_image_text_witness:
  "\<exists>sel. ocr_of_image [demo_template] demo_image
        = Some (Inr (''OCR output: '' @ map (\<lambda>i. chr (glyph ([demo_template] ! sel i))) [0..<length (blobs 127 demo_image)]))
    \<and> (\<forall>i<length (blobs 127 demo_image). sel i < length [demo_template]
        \<and> match_letter (blob_letter letter_at 127 demo_image 3 (blobs 127 demo_image ! i)) [demo_template]
          = Some (Inr ([demo_template] ! sel i)))"
proof (rule ocr_of_image_text [where w = 3])
  show "rect demo_image 3 3" and "\<not> dark_col 127 demo_image 0"
    by (simp_all add: demo_image_def rect_def dark_col_def)
  have "image 62 79 (pixels demo_template)"
    using demo_template_rect by (auto simp: image_def pixels_in_def demo_template_def)
  then show "alphabet [demo_template]" by (simp add: alphabet_def sizes_def)
  have "candidate (blob_letter letter_at 127 demo_image 3 (1, 2))"
    unfolding candidate_def image_def demo_image_letter
    by (intro exI [of _ 1]) (simp add: rect_def pixels_in_def)
  then show "\<forall>b \<in> set (blobs 127 demo_image). candidate (blob_letter letter_at 127 demo_image 3 b)"
    by (simp add: demo_image_blobs)
qed (simp_all add: demo_image_blobs)

text \<open>
  The array of 100 characters is written past its end: with more than 100 matchable shapes in the
  image, the recognition has undefined behaviour.
\<close>

theorem ocr_of_image_overflow:
  assumes "rect px w h" and "0 < w" and "\<not> dark_col 127 px 0" and "alphabet ts"
    and "\<forall>b \<in> set (blobs 127 px). candidate (blob_letter letter_at 127 px h b)"
    and "100 < length (blobs 127 px)"
  shows "ocr_of_image ts px = Some (Inl (UndefinedBehaviour ''index''))"
proof -
  let ?ps = "map (blob_letter letter_at 127 px h) (blobs 127 px)" and ?n = "length (blobs 127 px)"
  have ts: "\<forall>t \<in> set ts. template_letter t" "ts \<noteq> []"
    using assms(4) alphabet_templates by (auto simp: alphabet_def)
  have fold: "foldO (recognise_step ts ?ps) (replicate 100 0) [0..<100]
      = foldO (recognise_step ts (take 100 ?ps)) (replicate 100 0) [0..<100]"
    using assms(6) by (intro foldO_cong) (simp add: recognise_step_def)
  have "\<forall>p \<in> set ?ps. candidate p" using assms(5) by simp
  then have "\<forall>p \<in> set (take 100 ?ps). candidate p" by (meson in_set_takeD)
  then obtain best where "foldO (recognise_step ts (take 100 ?ps)) (replicate 100 0) [0..<100]
      = Some (Inr (map (\<lambda>i. glyph (ts ! best i)) [0..<100]))"
    using recognise_fold [of "take 100 ?ps" ts 100 "replicate 100 0"] assms(6) ts
    by (auto simp del: take_map)
  moreover obtain t where "match_letter (?ps ! 100) ts = Some (Inr t)"
    using match_letter_nearest [of "?ps ! 100" ts] assms(5,6) ts by auto
  ultimately have "foldO (recognise_step ts ?ps) (replicate 100 0) ([0..<100] @ 100 # [101..<?n])
      = Some (Inl (UndefinedBehaviour ''index''))"
    using fold assms(6) ts(2) by (simp add: foldO_append recognise_step_def)
  moreover have "[0..<?n] = [0..<100] @ 100 # [101..<?n]"
    using assms(6) upt_add_eq_append [of 0 100 "?n - 100"] by (simp add: upt_conv_Cons)
  ultimately show ?thesis using ocr_of_image_fold [OF assms(1-4)] by simp
qed

text \<open>An image of \<open>k\<close> one-pixel shapes with blank columns between them.\<close>

definition comb_image :: "nat \<Rightarrow> matrix" where
  "comb_image k = map (\<lambda>x. if odd x then [0, 255] else [255, 255]) [0..<2 * k + 1]"

lemma comb_dark: "x < 2 * k + 1 \<Longrightarrow> dark_col 127 (comb_image k) x \<longleftrightarrow> odd x"
  by (auto simp: dark_col_def comb_image_def nth_append simp del: upt_Suc)

lemma comb_run: "j \<le> 2 * k + 1 \<Longrightarrow> run_start 127 (comb_image k) j = (if odd j \<or> j = 0 then j else j - 1)"
proof (induction j)
  case (Suc j)
  then show ?case using comb_dark [of j k] by (auto simp del: One_nat_def)
qed simp

lemma comb_blobs_upto: "i \<le> k \<Longrightarrow> blobs_upto 127 (comb_image k) (2 * i + 1) = map (\<lambda>j. (2 * j + 1, 2 * j + 2)) [0..<i]"
proof (induction i)
  case 0
  show ?case by (simp add: blobs_upto_def)
next
  case (Suc i)
  have d0: "\<not> dark_col 127 (comb_image k) 0" using comb_dark [of 0 k] by simp
  have "dark_col 127 (comb_image k) (2 * i + 1)" "\<not> dark_col 127 (comb_image k) (2 * i + 2)"
    "run_start 127 (comb_image k) (2 * i + 2) = 2 * i + 1"
    using comb_dark [of "2 * i + 1" k] comb_dark [of "2 * i + 2" k] comb_run [of "2 * i + 2" k] Suc.prems by auto
  then have "blobs_upto 127 (comb_image k) (2 * i + 3) = blobs_upto 127 (comb_image k) (2 * i + 1) @ [(2 * i + 1, 2 * i + 2)]"
    using blobs_upto_Suc [OF d0, of "2 * i + 2"] blobs_upto_Suc [OF d0, of "2 * i + 1"]
    by (simp add: numeral_3_eq_3)
  with Suc show ?case by (simp add: numeral_3_eq_3)
qed

lemma comb_blobs: "blobs 127 (comb_image k) = map (\<lambda>j. (2 * j + 1, 2 * j + 2)) [0..<k]"
  using comb_blobs_upto [of k k] by (simp add: blobs_def comb_image_def)

lemma comb_rect: "rect (comb_image k) (2 * k + 1) 2"
  by (auto simp: comb_image_def rect_def)

lemma comb_candidate:
  assumes "b \<in> set (blobs 127 (comb_image k))"
  shows "candidate (blob_letter letter_at 127 (comb_image k) 2 b)"
proof -
  obtain j where j: "j < k" "b = (2 * j + 1, 2 * j + 2)" using assms by (auto simp: comb_blobs)
  then have col: "comb_image k ! (2 * j + 1) = [0, 255]"
    by (simp add: comb_image_def nth_append del: upt_Suc)
  have "pixels (blob_letter letter_at 127 (comb_image k) 2 b) = [[0]]"
    using col by (simp add: blob_letter_def letter_at_def new_letter_def dark_rows_def edge_rows_def
        min_or_def max_or_def j(2) upt_conv_Cons)
  then show ?thesis
    unfolding candidate_def image_def by (intro exI [of _ 1]) (simp add: rect_def pixels_in_def)
qed

theorem ocr_of_image_overflow_witness:
  "ocr_of_image [demo_template] (comb_image 101) = Some (Inl (UndefinedBehaviour ''index''))"
proof (rule ocr_of_image_overflow [OF comb_rect])
  show "\<not> dark_col 127 (comb_image 101) 0" using comb_dark [of 0 101] by simp
  have "image 62 79 (pixels demo_template)"
    using demo_template_rect by (auto simp: image_def pixels_in_def demo_template_def)
  then show "alphabet [demo_template]" by (simp add: alphabet_def sizes_def)
qed (use comb_candidate in \<open>simp_all add: comb_blobs\<close>)

text \<open>
  The whole program: \<open>run_ocr\<close> asks \<open>load_template\<close> for 26 letters, so that every run of it has
  the undefined behaviour of the file name buffer, whatever the files and the image are.
\<close>

theorem run_ocr_overflow: "\<exists>what. run_ocr lf fs name = Some (Inl (UndefinedBehaviour what))"
  using template_overflow [of 26 fs] by (auto simp: run_ocr_def)

end
