(* ===== verification/RoundRobin.thy ===== *)
theory RoundRobin
  imports Prelude "HOL-Library.Multiset"
begin

text \<open>
  The forwarding strategy \<open>round-robin-strategy.cpp\<close>, a plug-in of the NFD forwarder. The forwarder
  is not part of the repository: what the strategy asks of it is the record \<open>forwarder\<close>, one
  function for each call. The strategy's own state is the counter \<open>iter\<close>. What the strategy tells the
  forwarder to do is the value of type \<open>action\<close>.
\<close>

section \<open>The strategy\<close>

record ('face, 'interest, 'pit) forwarder =
  hasPendingOutRecords :: "'pit \<Rightarrow> bool"
  nextHops :: "'pit \<Rightarrow> 'face list"
  wouldViolateScope :: "'face \<Rightarrow> 'interest \<Rightarrow> 'face \<Rightarrow> bool"
  canForwardToLegacy :: "'pit \<Rightarrow> 'face \<Rightarrow> bool"

datatype 'face action = Ignore | SendInterest 'face | RejectPendingInterest

text \<open>The operator \<open>%\<close> on \<open>int\<close>: truncating, and undefined for a zero divisor.\<close>

definition c_mod :: "int \<Rightarrow> int \<Rightarrow> int result" where
  "c_mod a b = (if b = 0 then Inl (UndefinedBehaviour ''division by zero'') else Inr (sgn a * (\<bar>a\<bar> mod \<bar>b\<bar>)))"

text \<open>
  The loop \<open>for (int i = 0; i < iter % hop_no; ++i) ++it\<close> computes the remainder in its condition
  before every round.
\<close>

fun advance :: "nat \<Rightarrow> int \<Rightarrow> int \<Rightarrow> int \<Rightarrow> nat \<Rightarrow> nat run" where
  "advance 0 iter hop_no i it = None"
| "advance (Suc fuel) iter hop_no i it =
     bindO (Some (c_mod iter hop_no)) (\<lambda>r.
       if i < r then advance fuel iter hop_no (i + 1) (Suc it) else Some (Inr it))"

definition afterReceiveInterest ::
  "('face, 'interest, 'pit) forwarder \<Rightarrow> nat \<Rightarrow> int \<Rightarrow> 'face \<Rightarrow> 'interest \<Rightarrow> 'pit
     \<Rightarrow> (int \<times> 'face action) run" where
  "afterReceiveInterest fw fuel iter inFace interest pitEntry =
     (if hasPendingOutRecords fw pitEntry then Some (Inr (iter, Ignore))
      else
        let nexthops = nextHops fw pitEntry; hop_no = int (length nexthops) in
        bindO (advance fuel iter hop_no 0 0) (\<lambda>it.
        bindO (Some (int32 (iter + 1))) (\<lambda>iter'.
        bindO (Some (idx nexthops it)) (\<lambda>outFace.
        Some (Inr (iter',
          if \<not> wouldViolateScope fw inFace interest outFace \<and> canForwardToLegacy fw pitEntry outFace
          then SendInterest outFace else RejectPendingInterest))))))"

text \<open>The handler run over a sequence of received Interests.\<close>

fun run_strategy ::
  "('face, 'interest, 'pit) forwarder \<Rightarrow> nat \<Rightarrow> int \<Rightarrow> ('face \<times> 'interest \<times> 'pit) list
     \<Rightarrow> (int \<times> 'face action list) run" where
  "run_strategy fw fuel iter [] = Some (Inr (iter, []))"
| "run_strategy fw fuel iter ((f, i, p) # es) =
     bindO (afterReceiveInterest fw fuel iter f i p) (\<lambda>(iter', a).
     bindO (run_strategy fw fuel iter' es) (\<lambda>(iter'', as). Some (Inr (iter'', a # as))))"

text \<open>
  The constructor checks the instance name: the parameters after the strategy's name and the version
  in it, as the forwarder's \<open>parseInstanceName\<close> found them.
\<close>

definition strategy_version :: nat where "strategy_version = 0"

definition RoundRobinStrategy :: "'c list \<Rightarrow> nat option \<Rightarrow> int result" where
  "RoundRobinStrategy parameters version =
     (if parameters \<noteq> [] then Inl (InvalidArgument ''RoundRobinStrategy does not accept parameters'')
      else case version of
        Some v \<Rightarrow> if v \<noteq> strategy_version
                  then Inl (InvalidArgument (''RoundRobinStrategy does not support version '' @ dec v))
                  else Inr 0
      | None \<Rightarrow> Inr 0)"


section \<open>The loop\<close>

lemma c_mod_pos: "0 \<le> a \<Longrightarrow> 0 < b \<Longrightarrow> c_mod a b = Inr (a mod b)"
  by (cases "a = 0") (simp_all add: c_mod_def)

lemma advance_run:
  assumes "0 \<le> iter" and "0 < hop_no" and "i \<le> iter mod hop_no" and "nat (iter mod hop_no - i) < fuel"
  shows "advance fuel iter hop_no i it = Some (Inr (it + nat (iter mod hop_no - i)))"
  using assms(3,4)
proof (induction fuel arbitrary: i it)
  case (Suc fuel)
  show ?case
  proof (cases "i < iter mod hop_no")
    case True
    then have "advance fuel iter hop_no (i + 1) (Suc it) = Some (Inr (Suc it + nat (iter mod hop_no - (i + 1))))"
      using Suc.prems by (intro Suc.IH) auto
    moreover have "Suc it + nat (iter mod hop_no - (i + 1)) = it + nat (iter mod hop_no - i)"
      using True by simp
    ultimately show ?thesis using True by (simp add: c_mod_pos assms(1,2))
  next
    case False
    then show ?thesis using Suc.prems by (simp add: c_mod_pos assms(1,2))
  qed
qed simp

text \<open>As much fuel as there are next hops is enough for the loop.\<close>

lemma advance_hops:
  assumes "0 \<le> iter" and "0 < n" and "n \<le> fuel"
  shows "advance fuel iter (int n) 0 0 = Some (Inr (nat (iter mod int n)))"
proof -
  have "iter mod int n < int n" using assms(2) by simp
  then have "nat (iter mod int n - 0) < fuel" using assms(2,3) by linarith
  then show ?thesis using advance_run [OF assms(1), of "int n" 0 fuel 0] assms(2) by simp
qed

definition selected :: "int \<Rightarrow> 'face list \<Rightarrow> 'face" where
  "selected iter hops = hops ! nat (iter mod int (length hops))"

definition eligible :: "('face, 'interest, 'pit) forwarder \<Rightarrow> 'face \<Rightarrow> 'interest \<Rightarrow> 'pit \<Rightarrow> 'face \<Rightarrow> bool" where
  "eligible fw f i p out \<longleftrightarrow> \<not> wouldViolateScope fw f i out \<and> canForwardToLegacy fw p out"

lemma selected_index: "hops \<noteq> [] \<Longrightarrow> nat (iter mod int (length hops)) < length hops"
  by (simp add: nat_less_iff)

lemma handler_cases:
  assumes "0 \<le> iter" and "iter < 2 ^ 31 - 1" and "nextHops fw p \<noteq> []" and "length (nextHops fw p) \<le> fuel"
  shows "afterReceiveInterest fw fuel iter f i p = Some (Inr (
     if hasPendingOutRecords fw p then (iter, Ignore)
     else (iter + 1, if eligible fw f i p (selected iter (nextHops fw p))
                     then SendInterest (selected iter (nextHops fw p)) else RejectPendingInterest)))"
  using assms selected_index [OF assms(3)] advance_hops [of iter "length (nextHops fw p)" fuel]
  by (simp add: afterReceiveInterest_def Let_def selected_def eligible_def)

text \<open>
  One Interest: with a counter that has not reached the largest \<open>int\<close> and at least one next hop, the
  handler returns. An Interest that is still pending is ignored and does not advance the counter;
  any other advances it by one and is sent to the next hop at position \<open>iter\<close> modulo the number of
  hops when that one is eligible. When it is not, the Interest is rejected, whichever other hops are
  eligible.
\<close>

theorem afterReceiveInterest_cases:
  assumes "0 \<le> iter" and "iter < 2 ^ 31 - 1" and "nextHops fw p \<noteq> []" and "length (nextHops fw p) \<le> fuel"
  shows "afterReceiveInterest fw fuel iter f i p = Some (Inr (
     if hasPendingOutRecords fw p then (iter, Ignore)
     else (iter + 1, if eligible fw f i p (selected iter (nextHops fw p))
                     then SendInterest (selected iter (nextHops fw p)) else RejectPendingInterest)))"
  using assms by (rule handler_cases)

text \<open>A forwarder with three faces, none of which may be used by an Interest from itself.\<close>

definition demo_forwarder :: "(nat, nat, bool) forwarder" where
  "demo_forwarder = \<lparr>hasPendingOutRecords = (\<lambda>p. p), nextHops = (\<lambda>_. [7, 8, 9]),
     wouldViolateScope = (\<lambda>_ _ _. False), canForwardToLegacy = (\<lambda>_ f. f \<noteq> 9)\<rparr>"

theorem afterReceiveInterest_cases_witness:
  "afterReceiveInterest demo_forwarder 3 5 1 0 False = Some (Inr (
     if hasPendingOutRecords demo_forwarder False then (5, Ignore)
     else (5 + 1, if eligible demo_forwarder 1 0 False (selected 5 (nextHops demo_forwarder False))
                  then SendInterest (selected 5 (nextHops demo_forwarder False)) else RejectPendingInterest)))"
  by (rule afterReceiveInterest_cases) (simp_all add: demo_forwarder_def)

text \<open>
  No route: an Interest that is not pending and whose FIB entry has no next hop makes the strategy
  divide by zero.
\<close>

theorem afterReceiveInterest_no_route:
  assumes "\<not> hasPendingOutRecords fw p" and "nextHops fw p = []" and "0 < fuel"
  shows "afterReceiveInterest fw fuel iter f i p = Some (Inl (UndefinedBehaviour ''division by zero''))"
  using assms by (cases fuel) (simp_all add: afterReceiveInterest_def c_mod_def)

theorem afterReceiveInterest_no_route_witness:
  "afterReceiveInterest (demo_forwarder\<lparr>nextHops := \<lambda>_. []\<rparr>) 3 0 1 0 False
     = Some (Inl (UndefinedBehaviour ''division by zero''))"
  by (rule afterReceiveInterest_no_route) (simp_all add: demo_forwarder_def)


section \<open>A sequence of Interests\<close>

lemma run_strategy_hops:
  assumes "0 \<le> iter" and "iter + int (length es) < 2 ^ 31" and "hops \<noteq> []" and "length hops \<le> fuel"
    and "\<forall>(f, i, p) \<in> set es. \<not> hasPendingOutRecords fw p \<and> nextHops fw p = hops \<and> (\<forall>h \<in> set hops. eligible fw f i p h)"
  shows "run_strategy fw fuel iter es
    = Some (Inr (iter + int (length es), map (\<lambda>k. SendInterest (selected (iter + int k) hops)) [0..<length es]))"
  using assms(1,2,5)
proof (induction es arbitrary: iter)
  case (Cons e es)
  obtain f i p where e: "e = (f, i, p)" by (cases e)
  have fip: "\<not> hasPendingOutRecords fw p" "nextHops fw p = hops" "\<forall>h \<in> set hops. eligible fw f i p h"
    using Cons.prems(3) e by auto
  have "selected iter hops \<in> set hops"
    unfolding selected_def by (rule nth_mem [OF selected_index [OF assms(3)]])
  then have "afterReceiveInterest fw fuel iter f i p = Some (Inr (iter + 1, SendInterest (selected iter hops)))"
    using handler_cases [of iter fw p fuel f i] Cons.prems(1,2) fip assms(3,4) by simp
  moreover have "run_strategy fw fuel (iter + 1) es = Some (Inr (iter + 1 + int (length es),
      map (\<lambda>k. SendInterest (selected (iter + 1 + int k) hops)) [0..<length es]))"
    using Cons.prems by (intro Cons.IH) auto
  moreover have "map (\<lambda>k. SendInterest (selected (iter + int k) hops)) [0..<Suc (length es)]
      = SendInterest (selected iter hops) # map (\<lambda>k. SendInterest (selected (iter + 1 + int k) hops)) [0..<length es]"
    by (simp add: upt_conv_Cons map_Suc_upt [symmetric] comp_def add.assoc del: upt_Suc)
  ultimately show ?case by (simp add: e add.assoc)
qed simp

lemma selected_inj:
  assumes "0 \<le> iter" and "i < length hops" and "j < length hops"
    and "(iter + int i) mod int (length hops) = (iter + int j) mod int (length hops)"
  shows "i = j"
proof -
  have "int i mod int (length hops) = int j mod int (length hops)"
    using mod_add_cong [OF assms(4) refl, of "- iter"] by simp
  then show ?thesis using assms(2,3) by simp
qed

lemma selected_round:
  assumes "0 \<le> iter"
  shows "mset (map (\<lambda>k. selected (iter + int k) hops) [0..<length hops]) = mset hops"
proof (cases "hops = []")
  case False
  let ?n = "length hops" and ?g = "\<lambda>k. nat ((iter + int k) mod int (length hops))"
  have "inj_on ?g {0..<?n}"
  proof (rule inj_onI)
    fix i j assume ij: "i \<in> {0..<?n}" "j \<in> {0..<?n}" and "?g i = ?g j"
    then have "(iter + int i) mod int ?n = (iter + int j) mod int ?n"
      using False by (simp add: nat_eq_iff2)
    then show "i = j" using selected_inj [OF assms] ij by auto
  qed
  moreover have "?g ` {0..<?n} \<subseteq> {0..<?n}" using False by (auto simp: nat_less_iff)
  ultimately have "?g ` {0..<?n} = {0..<?n}" by (intro card_subset_eq) (simp_all add: card_image)
  then have "mset (map ?g [0..<?n]) = mset [0..<?n]"
    using \<open>inj_on ?g {0..<?n}\<close> by (metis distinct_map distinct_upt list.set_map mset_eq_setD set_eq_iff_mset_eq_distinct set_upt)
  then have "mset (map ((!) hops) (map ?g [0..<?n])) = mset (map ((!) hops) [0..<?n])"
    by (simp only: mset_map)
  moreover have "map ((!) hops) [0..<?n] = hops" by (rule map_nth)
  ultimately show ?thesis by (simp add: comp_def selected_def)
qed simp

text \<open>
  C35. Fairness: whatever the counter is, over as many new Interests as there are next hops, all with
  the same next hops and every hop eligible, every next hop is sent to exactly as often as it occurs
  in the list of next hops.
\<close>

theorem run_strategy_fair:
  assumes "0 \<le> iter" and "iter + int (length es) < 2 ^ 31" and "hops \<noteq> []" and "length hops \<le> fuel"
    and "\<forall>(f, i, p) \<in> set es. \<not> hasPendingOutRecords fw p \<and> nextHops fw p = hops \<and> (\<forall>h \<in> set hops. eligible fw f i p h)"
    and "length es = length hops"
  shows "\<exists>acts. run_strategy fw fuel iter es = Some (Inr (iter + int (length es), acts))
    \<and> mset acts = mset (map SendInterest hops)"
proof -
  let ?s = "map (\<lambda>k. selected (iter + int k) hops) [0..<length hops]"
  have "run_strategy fw fuel iter es = Some (Inr (iter + int (length es), map SendInterest ?s))"
    using run_strategy_hops [OF assms(1-5)] assms(6) by (simp add: comp_def)
  moreover have "mset (map SendInterest ?s) = mset (map SendInterest hops)"
    using selected_round [OF assms(1), of hops] by (simp only: mset_map)
  ultimately show ?thesis by blast
qed

theorem run_strategy_fair_witness:
  "\<exists>acts. run_strategy (demo_forwarder\<lparr>canForwardToLegacy := \<lambda>_ _. True\<rparr>) 3 4 [(1, 0, False), (2, 0, False), (1, 1, False)]
        = Some (Inr (4 + int (length [(1, 0, False), (2, 0, False), (1 :: nat, 1 :: nat, False)]), acts))
    \<and> mset acts = mset (map SendInterest [7, 8, 9])"
  by (rule run_strategy_fair) (simp_all add: demo_forwarder_def eligible_def)

end
