(* ===== verification/Tlv.thy ===== *)
theory Tlv
  imports Prelude
begin

unbundle bit_operations_syntax

text \<open>
  \<open>encoding/tlv.hpp\<close> of the ndn-cxx library: the variable-size numbers of the NDN packet format, read
  from a buffer (a range of pointers) and from a stream, and written to a stream. A position in a
  buffer or a stream is the list of the bytes that follow it; a stream that is written to is the list
  of the bytes written so far.

  A \<open>uint64_t\<close> is a \<open>64 word\<close>. The conversions \<open>be16toh\<close>, \<open>be32toh\<close>, \<open>be64toh\<close> of a number loaded from
  memory, and back, are the big-endian value \<open>be_val\<close> of the bytes and the big-endian bytes
  \<open>be_bytes\<close> of the value, on every host.
\<close>

section \<open>Big-endian numbers\<close>

fun be_bytes :: "nat \<Rightarrow> nat \<Rightarrow> bytes" where
  "be_bytes 0 n = []"
| "be_bytes (Suc k) n = be_bytes k (n div 256) @ [word_of_nat n]"

definition be_val :: "bytes \<Rightarrow> nat" where
  "be_val bs = foldl (\<lambda>v b. v * 256 + unat b) 0 bs"

lemma be_val_Nil [simp]: "be_val [] = 0"
  by (simp add: be_val_def)

lemma be_val_snoc [simp]: "be_val (bs @ [b]) = be_val bs * 256 + unat b"
  by (simp add: be_val_def)

lemma be_val_single [simp]: "be_val [b] = unat b"
  by (simp add: be_val_def)

lemma length_be_bytes [simp]: "length (be_bytes k n) = k"
  by (induction k n rule: be_bytes.induct) auto

lemma be_bytes_not_Nil [simp]: "be_bytes k n = [] \<longleftrightarrow> k = 0"
  by (cases k) auto

lemma be_val_bytes: "be_val (be_bytes k n) = n mod 256 ^ k"
proof (induction k n rule: be_bytes.induct)
  case (2 k n)
  have "n mod (256 * 256 ^ k) = 256 * (n div 256 mod 256 ^ k) + n mod 256"
    by (rule mod_mult2_eq)
  then show ?case using 2 by (simp add: unat_of_nat mult.commute)
qed simp

lemma be_val_bytes_small: "n < 256 ^ k \<Longrightarrow> be_val (be_bytes k n) = n"
  by (simp add: be_val_bytes)

lemma be_val_bound: "be_val bs < 256 ^ length bs"
proof (induction bs rule: rev_induct)
  case (snoc b bs)
  then have "be_val bs * 256 + unat b < (be_val bs + 1) * 256" by simp
  also have "\<dots> \<le> 256 ^ length bs * 256" using snoc by (intro mult_le_mono) auto
  finally show ?case by (simp add: mult.commute)
qed simp

lemma word_of_nat_low: "word_of_nat (n * 256 + unat b) = (b :: byte)"
proof (rule word_unat_eq_iff [THEN iffD2])
  show "unat (word_of_nat (n * 256 + unat b) :: byte) = unat b"
    by (simp only: unat_of_nat) simp
qed

lemma be_bytes_val: "be_bytes (length bs) (be_val bs) = bs"
proof (induction bs rule: rev_induct)
  case (snoc b bs)
  have "(be_val bs * 256 + unat b) div 256 = be_val bs" by (simp add: div_mult_self3)
  then show ?case using snoc by (simp add: word_of_nat_low del: of_nat_add of_nat_mult)
qed simp

lemma be_val_inj: "length bs = length cs \<Longrightarrow> be_val bs = be_val cs \<Longrightarrow> bs = cs"
  by (metis be_bytes_val)


section \<open>Reading from a buffer\<close>

text \<open>
  \<open>readVarNumber\<close> with a result parameter returns \<open>false\<close> when the number is not complete, the first
  octet being consumed. The value is \<open>None\<close> then, and the position the one the code leaves in \<open>begin\<close>.
\<close>

definition take_be :: "nat \<Rightarrow> bytes \<Rightarrow> 64 word option \<times> bytes" where
  "take_be k bs =
     (if length bs < k then (None, bs) else (Some (word_of_nat (be_val (take k bs))), drop k bs))"

fun tryReadVarNumber :: "bytes \<Rightarrow> 64 word option \<times> bytes" where
  "tryReadVarNumber [] = (None, [])"
| "tryReadVarNumber (firstOctet # begin) =
     (if firstOctet < 253 then (Some (ucast firstOctet), begin)
      else if firstOctet = 253 then take_be 2 begin
      else if firstOctet = 254 then take_be 4 begin
      else take_be 8 begin)"

definition tryReadType :: "bytes \<Rightarrow> 32 word option \<times> bytes" where
  "tryReadType bs =
     (case tryReadVarNumber bs of
        (Some number, rest) \<Rightarrow> (if number > 2 ^ 32 - 1 then None else Some (ucast number), rest)
      | (None, rest) \<Rightarrow> (None, rest))"

definition readVarNumber :: "bytes \<Rightarrow> (64 word \<times> bytes) result" where
  "readVarNumber bs =
     (if bs = [] then Inl (TlvError ''Empty buffer during TLV processing'')
      else case tryReadVarNumber bs of
        (Some v, rest) \<Rightarrow> Inr (v, rest)
      | (None, _) \<Rightarrow> Inl (TlvError ''Insufficient data during TLV processing''))"

definition readType :: "bytes \<Rightarrow> (32 word \<times> bytes) result" where
  "readType bs =
     bindE (readVarNumber bs) (\<lambda>(type, rest).
       if type > 2 ^ 32 - 1 then Inl (TlvError ''TLV type code exceeds allowed maximum'')
       else Inr (ucast type, rest))"

definition readNonNegativeInteger :: "nat \<Rightarrow> bytes \<Rightarrow> (64 word \<times> bytes) result" where
  "readNonNegativeInteger sz bs =
     (if sz \<in> {1, 2, 4, 8} then
        if length bs < sz then Inl (TlvError ''Insufficient data during TLV processing'')
        else Inr (word_of_nat (be_val (take sz bs)), drop sz bs)
      else Inl (TlvError ''Invalid length for nonNegativeInteger (only 1, 2, 4, and 8 are allowed)''))"


section \<open>Reading from a stream\<close>

text \<open>
  The specialisations for \<open>std::istream_iterator\<close> shift in one byte after the other. \<open>shift_in\<close> is their
  loop: it returns the value, the number of bytes read, and the position.
\<close>

fun shift_in :: "nat \<Rightarrow> 64 word \<Rightarrow> bytes \<Rightarrow> 64 word \<times> nat \<times> bytes" where
  "shift_in 0 v bs = (v, 0, bs)"
| "shift_in (Suc n) v [] = (v, 0, [])"
| "shift_in (Suc n) v (b # bs) =
     (case shift_in n (push_bit 8 v OR ucast b) bs of (v', c, rest) \<Rightarrow> (v', Suc c, rest))"

definition take_stream :: "nat \<Rightarrow> bytes \<Rightarrow> 64 word option \<times> bytes" where
  "take_stream k bs = (case shift_in k 0 bs of (v, c, rest) \<Rightarrow> (if c \<noteq> k then None else Some v, rest))"

fun tryReadVarNumber_stream :: "bytes \<Rightarrow> 64 word option \<times> bytes" where
  "tryReadVarNumber_stream [] = (None, [])"
| "tryReadVarNumber_stream (firstOctet # begin) =
     (if firstOctet < 253 then (Some (ucast firstOctet), begin)
      else if firstOctet = 253 then take_stream 2 begin
      else if firstOctet = 254 then take_stream 4 begin
      else take_stream 8 begin)"

definition readVarNumber_stream :: "bytes \<Rightarrow> (64 word \<times> bytes) result" where
  "readVarNumber_stream bs =
     (if bs = [] then Inl (TlvError ''Empty buffer during TLV processing'')
      else case tryReadVarNumber_stream bs of
        (Some v, rest) \<Rightarrow> Inr (v, rest)
      | (None, _) \<Rightarrow> Inl (TlvError ''Insufficient data during TLV processing''))"

definition readType_stream :: "bytes \<Rightarrow> (32 word \<times> bytes) result" where
  "readType_stream bs =
     bindE (readVarNumber_stream bs) (\<lambda>(type, rest).
       if type > 2 ^ 32 - 1 then Inl (TlvError ''TLV type code exceeds allowed maximum'')
       else Inr (ucast type, rest))"

definition readNonNegativeInteger_stream :: "nat \<Rightarrow> bytes \<Rightarrow> (64 word \<times> bytes) result" where
  "readNonNegativeInteger_stream sz bs =
     (if sz = 1 then
        (case bs of [] \<Rightarrow> Inl (TlvError ''Insufficient data during TLV processing'')
         | b # rest \<Rightarrow> Inr (ucast b, rest))
      else if sz \<in> {2, 4, 8} then
        (case take_stream sz bs of
           (None, _) \<Rightarrow> Inl (TlvError ''Insufficient data during TLV processing'')
         | (Some v, rest) \<Rightarrow> Inr (v, rest))
      else Inl (TlvError ''Invalid length for nonNegativeInteger (only 1, 2, 4, and 8 are allowed)''))"


section \<open>Writing\<close>

definition sizeOfVarNumber :: "64 word \<Rightarrow> nat" where
  "sizeOfVarNumber varNumber =
     (if varNumber < 253 then 1 else if varNumber \<le> 2 ^ 16 - 1 then 3
      else if varNumber \<le> 2 ^ 32 - 1 then 5 else 9)"

text \<open>The stream after the call and the returned size.\<close>

definition writeVarNumber :: "bytes \<Rightarrow> 64 word \<Rightarrow> bytes \<times> nat" where
  "writeVarNumber os varNumber =
     (if varNumber < 253 then (os @ [ucast varNumber], 1)
      else if varNumber \<le> 2 ^ 16 - 1 then ((os @ [253]) @ be_bytes 2 (unat varNumber), 3)
      else if varNumber \<le> 2 ^ 32 - 1 then ((os @ [254]) @ be_bytes 4 (unat varNumber), 5)
      else ((os @ [255]) @ be_bytes 8 (unat varNumber), 9))"

definition sizeOfNonNegativeInteger :: "64 word \<Rightarrow> nat" where
  "sizeOfNonNegativeInteger varNumber =
     (if varNumber < 253 then 1 else if varNumber \<le> 2 ^ 16 - 1 then 2
      else if varNumber \<le> 2 ^ 32 - 1 then 4 else 8)"

definition writeNonNegativeInteger :: "bytes \<Rightarrow> 64 word \<Rightarrow> bytes \<times> nat" where
  "writeNonNegativeInteger os varNumber =
     (if varNumber < 253 then (os @ [ucast varNumber], 1)
      else if varNumber \<le> 2 ^ 16 - 1 then (os @ be_bytes 2 (unat varNumber), 2)
      else if varNumber \<le> 2 ^ 32 - 1 then (os @ be_bytes 4 (unat varNumber), 4)
      else (os @ be_bytes 8 (unat varNumber), 8))"


section \<open>The bytes of a number\<close>

text \<open>What is written does not depend on what the stream holds already.\<close>

definition varnum :: "64 word \<Rightarrow> bytes" where
  "varnum n = fst (writeVarNumber [] n)"

definition nonneg :: "64 word \<Rightarrow> bytes" where
  "nonneg n = fst (writeNonNegativeInteger [] n)"

lemma writeVarNumber_varnum: "writeVarNumber os n = (os @ varnum n, sizeOfVarNumber n)"
  by (simp add: writeVarNumber_def varnum_def sizeOfVarNumber_def)

lemma writeNonNegativeInteger_nonneg: "writeNonNegativeInteger os n = (os @ nonneg n, sizeOfNonNegativeInteger n)"
  by (simp add: writeNonNegativeInteger_def nonneg_def sizeOfNonNegativeInteger_def)

lemma length_varnum [simp]: "length (varnum n) = sizeOfVarNumber n"
  by (simp add: varnum_def writeVarNumber_def sizeOfVarNumber_def)

lemma length_nonneg [simp]: "length (nonneg n) = sizeOfNonNegativeInteger n"
  by (simp add: nonneg_def writeNonNegativeInteger_def sizeOfNonNegativeInteger_def)

lemma unat64_bounds:
  "(n :: 64 word) < 253 \<longleftrightarrow> unat n < 253" "n \<le> 255 \<longleftrightarrow> unat n \<le> 255"
  "n \<le> 65535 \<longleftrightarrow> unat n < 256 ^ 2"
  "n \<le> 4294967295 \<longleftrightarrow> unat n < 256 ^ 4" "unat n < 256 ^ 8"
  using unsigned_less [of n] by (auto simp: word_less_nat_alt word_le_nat_alt)

lemma take_be_bytes: "unat n < 256 ^ k \<Longrightarrow> take_be k (be_bytes k (unat n) @ rest) = (Some n, rest)"
  by (simp add: take_be_def be_val_bytes_small)

lemma ucast_byte: "unat (n :: 64 word) < 256 \<Longrightarrow> ucast (ucast n :: byte) = n"
  by (rule word_unat_eq_iff [THEN iffD2]) (simp add: unsigned_ucast_eq take_bit_eq_mod unat_mod_distrib)

lemma ucast_byte_less: "unat (n :: 64 word) < 253 \<Longrightarrow> (ucast n :: byte) < 253"
  by (simp add: word_less_nat_alt unsigned_ucast_eq take_bit_eq_mod)

lemma tryReadVarNumber_varnum: "tryReadVarNumber (varnum n @ rest) = (Some n, rest)"
  using unat64_bounds [of n]
  by (auto simp: varnum_def writeVarNumber_def take_be_bytes ucast_byte ucast_byte_less)

lemma varnum_not_Nil [simp]: "varnum n \<noteq> []"
  by (simp add: varnum_def writeVarNumber_def)

lemma readVarNumber_varnum [simp]: "readVarNumber (varnum n @ rest) = Inr (n, rest)"
  by (simp add: readVarNumber_def tryReadVarNumber_varnum)


section \<open>Streams and buffers agree\<close>

lemma shift_or: "push_bit 8 (v :: 64 word) OR ucast (b :: byte) = v * 256 + ucast b"
proof -
  have "push_bit 8 v AND ucast b = 0"
    by (rule bit_word_eqI) (auto simp: bit_simps dest: bit_imp_le_length)
  then have "push_bit 8 v + ucast b = push_bit 8 v OR ucast b" by (rule disjunctive_add_eq_or)
  then show ?thesis by (simp add: push_bit_eq_mult)
qed

lemma foldl_be: "foldl (\<lambda>v b. v * 256 + unat b) a bs = a * 256 ^ length bs + be_val bs"
proof (induction bs rule: rev_induct)
  case (snoc b bs)
  then show ?case by (simp add: algebra_simps)
qed simp

lemma ucast_word_of_nat: "(ucast (b :: byte) :: 64 word) = word_of_nat (unat b)"
  by simp

lemma be_val_Cons: "be_val (b # bs) = unat b * 256 ^ length bs + be_val bs"
  using foldl_be [of "unat b" bs] by (simp add: be_val_def)

lemma shift_in_take:
  "shift_in n v bs = (v * 256 ^ min n (length bs) + word_of_nat (be_val (take n bs)), min n (length bs), drop n bs)"
proof (induction n v bs rule: shift_in.induct)
  case (3 n v b bs)
  have "(v * 256 + ucast b) * 256 ^ min n (length bs) + word_of_nat (be_val (take n bs))
      = v * 256 ^ Suc (min n (length bs)) + word_of_nat (be_val (take (Suc n) (b # bs)))"
    by (simp add: be_val_Cons ucast_word_of_nat algebra_simps min.commute del: of_nat_unat)
  then show ?case using 3 by (simp add: shift_or)
qed auto

lemma take_stream_buffer:
  "fst (take_stream k bs) = fst (take_be k bs)"
  "k \<le> length bs \<Longrightarrow> take_stream k bs = take_be k bs"
  by (auto simp: take_stream_def take_be_def shift_in_take min_def)

text \<open>Only the position after a failure differs: the stream has been read to its end.\<close>

lemma take_stream_cases: "take_stream k bs = (if length bs < k then (None, []) else take_be k bs)"
  by (auto simp: take_stream_def take_be_def shift_in_take min_def)

lemma tryRead_stream:
  "fst (tryReadVarNumber_stream bs) = fst (tryReadVarNumber bs)"
  "fst (tryReadVarNumber bs) \<noteq> None \<Longrightarrow> tryReadVarNumber_stream bs = tryReadVarNumber bs"
  by (cases bs; auto simp: take_stream_cases take_be_def split: if_splits)+

lemma readVarNumber_stream_eq: "readVarNumber_stream bs = readVarNumber bs"
proof (cases "fst (tryReadVarNumber bs)")
  case None
  then show ?thesis using tryRead_stream(1) [of bs]
    by (cases "tryReadVarNumber bs"; cases "tryReadVarNumber_stream bs")
      (simp add: readVarNumber_stream_def readVarNumber_def)
next
  case (Some v)
  then show ?thesis using tryRead_stream(2) [of bs] by (simp add: readVarNumber_stream_def readVarNumber_def)
qed

lemma readType_stream_eq: "readType_stream bs = readType bs"
  by (simp add: readType_stream_def readType_def readVarNumber_stream_eq)

lemma readNonNegativeInteger_stream_eq: "readNonNegativeInteger_stream k bs = readNonNegativeInteger k bs"
  by (cases bs)
    (auto simp: readNonNegativeInteger_stream_def readNonNegativeInteger_def take_stream_cases take_be_def
       ucast_word_of_nat simp del: of_nat_unat)

text \<open>
  The reader of a stream and the reader of a buffer are two implementations of the same function:
  on the same bytes they return the same number and leave the same rest, or throw the same exception.
\<close>

theorem stream_reads_buffer:
  "readVarNumber_stream bs = readVarNumber bs \<and> readType_stream bs = readType bs
   \<and> readNonNegativeInteger_stream k bs = readNonNegativeInteger k bs"
  by (simp add: readVarNumber_stream_eq readNonNegativeInteger_stream_eq readType_stream_eq)


section \<open>Prefix codes\<close>

text \<open>
  The interface the packet format is built on: an encoder whose output a decoder reads back from the
  front of a buffer, leaving the bytes behind it.
\<close>

locale codec =
  fixes enc :: "'a \<Rightarrow> bytes" and dec :: "bytes \<Rightarrow> ('a \<times> bytes) result" and ok :: "'a \<Rightarrow> bool"
  assumes dec_enc: "ok x \<Longrightarrow> dec (enc x @ rest) = Inr (x, rest)"
    and enc_not_Nil: "ok x \<Longrightarrow> enc x \<noteq> []"
begin

lemma prefix_free: "ok x \<Longrightarrow> ok y \<Longrightarrow> enc x @ r = enc y @ s \<Longrightarrow> x = y \<and> r = s"
  using dec_enc by (metis Inr_inject Pair_inject)

lemma enc_inject: "ok x \<Longrightarrow> ok y \<Longrightarrow> enc x = enc y \<longleftrightarrow> x = y"
  using prefix_free [of x y "[]" "[]"] by auto

text \<open>Concatenated encodings are read back one after the other.\<close>

fun dec_list :: "nat \<Rightarrow> bytes \<Rightarrow> 'a list result" where
  "dec_list 0 bs = Inl (TlvError ''fuel'')"
| "dec_list (Suc n) bs =
     (if bs = [] then Inr []
      else bindE (dec bs) (\<lambda>(x, rest). bindE (dec_list n rest) (\<lambda>xs. Inr (x # xs))))"

lemma dec_list_concat: "list_all ok xs \<Longrightarrow> length xs < n \<Longrightarrow> dec_list n (concat (map enc xs)) = Inr xs"
proof (induction xs arbitrary: n)
  case Nil
  then show ?case by (cases n) auto
next
  case (Cons x xs)
  then obtain m where "n = Suc m" "length xs < m" by (cases n) auto
  then show ?case using Cons by (auto simp: dec_enc enc_not_Nil)
qed

lemma concat_inject:
  assumes "list_all ok xs" and "list_all ok ys" and "concat (map enc xs) = concat (map enc ys)"
  shows "xs = ys"
proof -
  let ?n = "Suc (max (length xs) (length ys))"
  have "dec_list ?n (concat (map enc xs)) = Inr xs" using assms(1) by (intro dec_list_concat) auto
  moreover have "dec_list ?n (concat (map enc ys)) = Inr ys" using assms(2) by (intro dec_list_concat) auto
  ultimately show ?thesis using assms(3) by simp
qed

end

text \<open>A code whose encoder announces the number of bytes it writes.\<close>

locale sized_codec = codec +
  fixes size_of :: "'a \<Rightarrow> nat"
  assumes size_enc: "ok x \<Longrightarrow> length (enc x) = size_of x"
begin

lemma total_size: "list_all ok xs \<Longrightarrow> length (concat (map enc xs)) = sum_list (map size_of xs)"
  by (induction xs) (auto simp: size_enc)

lemma dec_rest_length: "ok x \<Longrightarrow> bs = enc x @ rest \<Longrightarrow> length bs = size_of x + length rest"
  by (simp add: size_enc)

end

text \<open>The numbers of variable size are such a code, for both readers.\<close>

interpretation var: sized_codec varnum readVarNumber "\<lambda>_. True" sizeOfVarNumber
  by unfold_locales simp_all

interpretation var_stream: sized_codec varnum readVarNumber_stream "\<lambda>_. True" sizeOfVarNumber
  by unfold_locales (simp_all add: readVarNumber_stream_eq)

text \<open>So is the type of an element, whose numbers are limited to 32 bits.\<close>

definition vartype :: "32 word \<Rightarrow> bytes" where
  "vartype t = varnum (ucast t)"

definition sizeOfType :: "32 word \<Rightarrow> nat" where
  "sizeOfType t = sizeOfVarNumber (ucast t)"

lemma type_bound: "(ucast (t :: 32 word) :: 64 word) \<le> 2 ^ 32 - 1"
proof -
  have "unat t < 2 ^ 32" using unsigned_less [of t] by simp
  then show ?thesis by (simp add: word_le_nat_alt unsigned_ucast_eq take_bit_eq_mod)
qed

lemma ucast_type [simp]: "ucast (ucast (t :: 32 word) :: 64 word) = t"
  by (rule bit_word_eqI) (auto simp: bit_simps dest: bit_imp_le_length)

lemma readType_vartype [simp]: "readType (vartype t @ rest) = Inr (t, rest)"
  using type_bound [of t] by (simp add: readType_def vartype_def not_less)

interpretation tlv_type: sized_codec vartype readType "\<lambda>_. True" sizeOfType
  by unfold_locales (simp_all, simp_all add: vartype_def sizeOfType_def)


section \<open>Numbers of variable size\<close>

lemma stream_writer:
  "writeVarNumber os n = (os @ varnum n, sizeOfVarNumber n) \<and> length (varnum n) = sizeOfVarNumber n"
  by (simp add: writeVarNumber_varnum)

text \<open>
  Round trip: \<open>writeVarNumber\<close> appends as many bytes to the stream as it returns and as
  \<open>sizeOfVarNumber\<close> announces, and \<open>readVarNumber\<close> reads the number back from the front of any
  buffer or stream that starts with these bytes, and stops right behind them.
\<close>

theorem writeVarNumber_roundtrip:
  "\<exists>code. writeVarNumber os n = (os @ code, sizeOfVarNumber n) \<and> length code = sizeOfVarNumber n
     \<and> readVarNumber (code @ rest) = Inr (n, rest) \<and> readVarNumber_stream (code @ rest) = Inr (n, rest)"
  using stream_writer var.dec_enc var_stream.dec_enc by blast

lemma unat_first: "(b :: byte) < 253 \<Longrightarrow> unat b < 253"
  by (simp add: word_less_nat_alt)

lemma unat_be: "length bs \<le> 8 \<Longrightarrow> unat (word_of_nat (be_val bs) :: 64 word) = be_val bs"
proof -
  assume "length bs \<le> 8"
  then have "be_val bs < 256 ^ 8" using be_val_bound [of bs] power_increasing [of "length bs" 8 "256 :: nat"] by linarith
  then show ?thesis by (simp add: unat_of_nat)
qed

lemma size_le:
  "sizeOfVarNumber n \<le> 1 \<longleftrightarrow> unat n < 253" "unat n < 256 ^ 2 \<Longrightarrow> sizeOfVarNumber n \<le> 3"
  "unat n < 256 ^ 4 \<Longrightarrow> sizeOfVarNumber n \<le> 5" "sizeOfVarNumber n \<le> 9"
  using unat64_bounds [of n] by (auto simp: sizeOfVarNumber_def)

lemma take_be_shape:
  assumes "take_be k bs = (Some n, rest)" and "k \<le> 8"
  shows "\<exists>c. bs = c @ rest \<and> length c = k \<and> unat n = be_val c"
proof -
  have "bs = take k bs @ rest" "length (take k bs) = k" "n = word_of_nat (be_val (take k bs))"
    using assms(1) by (auto simp: take_be_def split: if_splits)
  then show ?thesis using unat_be [of "take k bs"] assms(2) by metis
qed

lemma tryRead_shape:
  assumes "tryReadVarNumber bs = (Some n, rest)"
  shows "\<exists>code. bs = code @ rest \<and> length code \<in> {1, 3, 5, 9} \<and> sizeOfVarNumber n \<le> length code"
proof (cases bs)
  case (Cons b bs')
  have step: ?thesis if st: "take_be k bs' = (Some n, rest)" and k: "k \<in> {2, 4, 8}" for k
  proof -
    obtain c where c: "bs' = c @ rest" "length c = k" "unat n = be_val c"
      using take_be_shape [OF st] k by fastforce
    have "sizeOfVarNumber n \<le> Suc k"
      using be_val_bound [of c] c k size_le [of n] by auto
    then show ?thesis using c k Cons by (intro exI [of _ "b # c"]) auto
  qed
  show ?thesis
  proof (cases "b < 253")
    case True
    then have "n = ucast b" "rest = bs'" using assms Cons by auto
    moreover have "unat (ucast b :: 64 word) < 253"
      using unat_first [OF True]
      by (simp add: unsigned_ucast_eq take_bit_eq_mod le_less_trans [OF mod_less_eq_dividend])
    ultimately show ?thesis using Cons size_le(1) [of n] by (intro exI [of _ "[b]"]) auto
  next
    case False
    then show ?thesis using assms Cons step by (auto split: if_splits)
  qed
qed (use assms in simp)

lemma read_number_shape:
  assumes "readVarNumber bs = Inr (n, rest)"
  shows "\<exists>code. bs = code @ rest \<and> length code \<in> {1, 3, 5, 9} \<and> sizeOfVarNumber n \<le> length code"
  using assms tryRead_shape by (auto simp: readVarNumber_def split: if_splits prod.splits option.splits)

lemma read_type_shape:
  assumes "readType bs = Inr (t, rest)"
  shows "\<exists>code. bs = code @ rest \<and> length code \<in> {1, 3, 5, 9}"
  using assms read_number_shape by (fastforce simp: readType_def bindE_Inr_conv split: if_splits)

text \<open>Only the bytes of the number are looked at.\<close>

lemma take_be_local:
  assumes "take_be k (c @ r) = (Some n, r)"
  shows "take_be k (c @ x) = (Some n, x)"
proof -
  have l: "\<not> length (c @ r) < k" "drop k (c @ r) = r" "n = word_of_nat (be_val (take k (c @ r)))"
    using assms by (auto simp: take_be_def split: if_splits)
  have "length (drop k (c @ r)) = length r" using l(2) by simp
  then have "length c = k" using l(1) by simp
  then show ?thesis using l(3) by (simp add: take_be_def)
qed

lemma read_number_local:
  assumes "readVarNumber (c @ r) = Inr (n, r)"
  shows "readVarNumber (c @ x) = Inr (n, x)"
proof (cases c)
  case Nil
  then obtain code where "r = code @ r" "length code \<in> {1, 3, 5, 9}" using read_number_shape [OF assms] by auto
  then show ?thesis by auto
next
  case (Cons b bs)
  then have t: "tryReadVarNumber (b # bs @ r) = (Some n, r)"
    using assms by (auto simp: readVarNumber_def split: prod.splits option.splits)
  have "b < 253 \<Longrightarrow> bs = []" using t by simp
  then have "tryReadVarNumber (b # bs @ x) = (Some n, x)"
    using t take_be_local [of _ bs r n x] by (auto split: if_splits)
  then show ?thesis using Cons by (simp add: readVarNumber_def)
qed

lemma read_type_local: "readType (c @ r) = Inr (t, r) \<Longrightarrow> readType (c @ x) = Inr (t, x)"
  using read_number_local [of c r _ x] by (auto simp: readType_def bindE_Inr_conv split: if_splits)

text \<open>
  What the decoder accepts: a number that was read took 1, 3, 5 or 9 bytes off the front of the
  buffer, never fewer than the encoder would write for it. It may be more: the shortest form is not
  required.
\<close>

theorem readVarNumber_consumes:
  assumes "readVarNumber bs = Inr (n, rest)"
  shows "\<exists>code. bs = code @ rest \<and> length code \<in> {1, 3, 5, 9} \<and> sizeOfVarNumber n \<le> length code"
  using assms by (rule read_number_shape)

theorem readVarNumber_consumes_witness:
  "\<exists>code. [253, 0, 5, 7 :: byte] = code @ [7] \<and> length code \<in> {1, 3, 5, 9} \<and> sizeOfVarNumber 5 \<le> length code"
  by (rule readVarNumber_consumes) (simp add: readVarNumber_def take_be_def be_val_def)


section \<open>Non-negative integers\<close>

lemma nonneg_read: "readNonNegativeInteger (sizeOfNonNegativeInteger n) (nonneg n @ rest) = Inr (n, rest)"
  using unat64_bounds [of n]
  by (auto simp: readNonNegativeInteger_def nonneg_def writeNonNegativeInteger_def sizeOfNonNegativeInteger_def
      be_val_bytes_small unsigned_ucast_eq take_bit_eq_mod ucast_word_of_nat)

lemma nonneg_size: "sizeOfNonNegativeInteger n \<in> {1, 2, 4, 8}"
  by (simp add: sizeOfNonNegativeInteger_def)

lemma nonneg_not_Nil [simp]: "nonneg n \<noteq> []"
proof -
  have "length (nonneg n) \<noteq> 0" using nonneg_size [of n] by auto
  then show ?thesis by blast
qed

text \<open>The value field of an element holds one integer: its length is the size that is read.\<close>

definition read_value :: "bytes \<Rightarrow> 64 word result" where
  "read_value v = bindE (readNonNegativeInteger (length v) v) (\<lambda>(n, _). Inr n)"

lemma read_value_nonneg [simp]: "read_value (nonneg n) = Inr n"
  using nonneg_read [of n "[]"] by (simp add: read_value_def)

text \<open>
  Round trip of the non-negative integers: the bytes written have a size that the reader accepts,
  and reading as many bytes gives the integer back; any other size is refused with \<open>tlv::Error\<close>.
\<close>

theorem writeNonNegativeInteger_roundtrip:
  "\<exists>code. writeNonNegativeInteger os n = (os @ code, sizeOfNonNegativeInteger n)
     \<and> readNonNegativeInteger (length code) (code @ rest) = Inr (n, rest)
     \<and> (k \<notin> {1, 2, 4, 8} \<longrightarrow> (\<exists>what. readNonNegativeInteger k (code @ rest) = Inl (TlvError what)))"
  using nonneg_read [of n rest] writeNonNegativeInteger_nonneg [of os n]
  by (intro exI [of _ "nonneg n"]) (auto simp: readNonNegativeInteger_def)

theorem writeNonNegativeInteger_roundtrip_witness:
  "\<exists>code. writeNonNegativeInteger [] 1000 = ([] @ code, sizeOfNonNegativeInteger 1000)
     \<and> readNonNegativeInteger (length code) (code @ [9]) = Inr (1000, [9])
     \<and> (3 \<notin> {1, 2, 4, 8 :: nat} \<longrightarrow> (\<exists>what. readNonNegativeInteger 3 (code @ [9]) = Inl (TlvError what)))"
  by (rule writeNonNegativeInteger_roundtrip)

end
