(* ===== verification/Block.thy ===== *)
theory Block
  imports Tlv
begin

text \<open>
  \<open>encoding/block.cpp\<close> of ndn-cxx: the class \<open>Block\<close>, a TLV element of a packet. Buffers are shared and
  constant, so that an iterator into one is an offset into the bytes it holds; \<open>m_buffer\<close> is \<open>None\<close>
  for the null pointer. The functions that change a block return the changed block; a function that
  may throw after it changed the block returns both the block and the exception.

  \<open>tlv t v\<close> is the format: type, length and value.
\<close>

definition tlv :: "32 word \<Rightarrow> bytes \<Rightarrow> bytes" where
  "tlv t v = vartype t @ varnum (word_of_nat (length v)) @ v"

section \<open>The class and its accessors\<close>

datatype block = Block
  (m_buffer: "bytes option") (m_type: "32 word") (m_begin: nat) (m_end: nat) (m_size: "32 word")
  (m_value_begin: nat) (m_value_end: nat) (m_subBlocks: "block list")

text \<open>The bytes between two iterators.\<close>

definition range_of :: "bytes \<Rightarrow> nat \<Rightarrow> nat \<Rightarrow> bytes" where
  "range_of buf b e = take (e - b) (drop b buf)"

definition NO_TYPE :: "32 word" where "NO_TYPE = 2 ^ 32 - 1"

definition Block_empty :: block where
  "Block_empty = Block None NO_TYPE 0 0 0 0 0 []"

definition Block_type :: "32 word \<Rightarrow> block" where
  "Block_type type = Block None type 0 0 0 0 0 []"

definition hasWire :: "block \<Rightarrow> bool" where
  "hasWire b \<longleftrightarrow> m_buffer b \<noteq> None \<and> m_begin b \<noteq> m_end b"

definition hasValue :: "block \<Rightarrow> bool" where
  "hasValue b \<longleftrightarrow> m_buffer b \<noteq> None"

definition wire :: "block \<Rightarrow> bytes result" where
  "wire b =
     (if \<not> hasWire b then Inl (BlockError ''(Block::wire) Underlying wire buffer is empty'')
      else Inr (range_of (the (m_buffer b)) (m_begin b) (m_end b)))"

definition block_size :: "block \<Rightarrow> nat result" where
  "block_size b =
     (if hasWire b \<or> hasValue b then Inr (unat (m_size b))
      else Inl (BlockError ''Block size cannot be determined (undefined block size)''))"

definition value_size :: "block \<Rightarrow> nat" where
  "value_size b = (if \<not> hasValue b then 0 else m_value_end b - m_value_begin b)"

text \<open>The bytes \<open>value()\<close> points to, as many as \<open>value_size()\<close>.\<close>

definition block_value :: "block \<Rightarrow> bytes" where
  "block_value b = (case m_buffer b of None \<Rightarrow> [] | Some buf \<Rightarrow> range_of buf (m_value_begin b) (m_value_end b))"

definition block_empty :: "block \<Rightarrow> bool" where
  "block_empty b \<longleftrightarrow> m_type b = NO_TYPE"

text \<open>\<open>operator==\<close>: the second wire is read through an iterator, as far as the first goes.\<close>

definition block_eq :: "block \<Rightarrow> block \<Rightarrow> bool result" where
  "block_eq a b =
     bindE (block_size a) (\<lambda>n. bindE (block_size b) (\<lambda>m.
       if n \<noteq> m then Inr False
       else bindE (wire a) (\<lambda>x. bindE (wire b) (\<lambda>y.
         if length y < length x then Inl (UndefinedBehaviour ''iterator'')
         else Inr (x = take (length x) y)))))"


section \<open>Constructors\<close>

text \<open>Type and length at the front of a buffer, and the bytes behind them.\<close>

definition readHeader :: "bytes \<Rightarrow> (32 word \<times> 64 word \<times> bytes) result" where
  "readHeader bs =
     bindE (readType bs) (\<lambda>(type, r). bindE (readVarNumber r) (\<lambda>(len, rest). Inr (type, len, rest)))"

definition Block_range :: "bytes \<Rightarrow> nat \<Rightarrow> nat \<Rightarrow> bool \<Rightarrow> block result" where
  "Block_range buf b e verifyLength =
     bindE (readHeader (range_of buf b e)) (\<lambda>(type, len, rest).
       if verifyLength \<and> len \<noteq> word_of_nat (length rest)
       then Inl (TlvError ''TLV length doesn't match buffer length'')
       else Inr (Block (Some buf) type b e (word_of_nat (e - b)) (e - length rest) e []))"

definition Block_buffer :: "bytes \<Rightarrow> block result" where
  "Block_buffer buf = Block_range buf 0 (length buf) True"

text \<open>The range of another block's buffer, checked against the buffer's bounds first.\<close>

definition Block_sub :: "block \<Rightarrow> nat \<Rightarrow> nat \<Rightarrow> bool \<Rightarrow> block result" where
  "Block_sub block b e verifyLength =
     (case m_buffer block of
        None \<Rightarrow> Inl (UndefinedBehaviour ''null pointer'')
      | Some buf \<Rightarrow>
          if \<not> b \<le> length buf \<or> \<not> e \<le> length buf
          then Inl (BlockError ''begin/end iterators do not point to the underlying buffer of the block'')
          else Block_range buf b e verifyLength)"

text \<open>From memory: the element at the front is copied, whatever follows it is left.\<close>

definition Block_raw :: "bytes \<Rightarrow> block result" where
  "Block_raw buffer =
     bindE (readHeader buffer) (\<lambda>(type, len, rest).
       if len > word_of_nat (length rest)
       then Inl (TlvError ''Not enough data in the buffer to fully parse TLV'')
       else
         let h = length buffer - length rest; n = h + unat len in
         Inr (Block (Some (take n buffer)) type 0 n (word_of_nat n) h n []))"

definition Block_value :: "32 word \<Rightarrow> bytes \<Rightarrow> block" where
  "Block_value type v =
     (let n = length v in
      Block (Some v) type n n
        (word_of_nat (sizeOfVarNumber (ucast type) + sizeOfVarNumber (word_of_nat n) + n)) 0 n [])"

text \<open>From a block as the value: \<open>begin()\<close> and \<open>end()\<close> throw when it has no wire.\<close>

definition Block_nested :: "32 word \<Rightarrow> block \<Rightarrow> block result" where
  "Block_nested type v =
     (case m_buffer v of
        None \<Rightarrow> Inl (UndefinedBehaviour ''null pointer'')
      | Some buf \<Rightarrow>
          if \<not> hasWire v then Inl (BlockError ''Underlying wire buffer is empty'')
          else
            let n = m_end v - m_begin v in
            Inr (Block (Some buf) type (length buf) (length buf)
              (word_of_nat (sizeOfVarNumber (ucast type) + sizeOfVarNumber (word_of_nat n) + n))
              (m_begin v) (m_end v) []))"

text \<open>\<open>fromBuffer\<close> reports a malformed element by its first result, with an empty block as the second.\<close>

definition tryReadHeader :: "bytes \<Rightarrow> (32 word \<times> 64 word \<times> bytes) option" where
  "tryReadHeader bs =
     (case tryReadType bs of
        (None, _) \<Rightarrow> None
      | (Some type, r) \<Rightarrow>
          (case tryReadVarNumber r of (None, _) \<Rightarrow> None | (Some len, rest) \<Rightarrow> Some (type, len, rest)))"

definition fromBuffer_offset :: "bytes \<Rightarrow> nat \<Rightarrow> (bool \<times> block) result" where
  "fromBuffer_offset buf offset =
     (if length buf < offset then Inl (UndefinedBehaviour ''iterator'')
      else case tryReadHeader (drop offset buf) of
        None \<Rightarrow> Inr (False, Block_empty)
      | Some (type, len, rest) \<Rightarrow>
          if len > word_of_nat (length rest) then Inr (False, Block_empty)
          else
            let v = length buf - length rest; e = v + unat len in
            Inr (True, Block (Some buf) type offset e (word_of_nat (e - offset)) v e []))"

definition fromBuffer :: "bytes \<Rightarrow> bool \<times> block" where
  "fromBuffer buffer =
     (case tryReadHeader buffer of
        None \<Rightarrow> (False, Block_empty)
      | Some (type, len, rest) \<Rightarrow>
          if len > word_of_nat (length rest) then (False, Block_empty)
          else
            let h = length buffer - length rest; n = h + unat len in
            (True, Block (Some (take n buffer)) type 0 n (word_of_nat n) h n []))"


section \<open>Sub-elements\<close>

definition block_reset :: "block \<Rightarrow> block" where
  "block_reset b = Block None NO_TYPE 0 0 (m_size b) 0 0 []"

definition resetWire :: "block \<Rightarrow> block" where
  "resetWire b = Block None (m_type b) 0 0 (m_size b) 0 0 (m_subBlocks b)"

definition set_subBlocks :: "block \<Rightarrow> block list \<Rightarrow> block" where
  "set_subBlocks b bs =
     Block (m_buffer b) (m_type b) (m_begin b) (m_end b) (m_size b) (m_value_begin b) (m_value_end b) bs"

lemma readHeader_shorter: "readHeader bs = Inr (t, len, rest) \<Longrightarrow> length rest < length bs"
  using read_type_shape read_number_shape by (fastforce simp: readHeader_def bindE_Inr_conv)

text \<open>
  The loop of \<open>parse\<close>: the sub-blocks found so far, and the exception that ended it. A length that
  does not fit clears the sub-blocks before it throws; a type or length that cannot be read does not.
\<close>

function parse_loop :: "bytes \<Rightarrow> nat \<Rightarrow> nat \<Rightarrow> block list \<Rightarrow> block list \<times> exn option" where
  "parse_loop buf b e subs =
     (if range_of buf b e = [] then (subs, None)
      else case readHeader (range_of buf b e) of
        Inl ex \<Rightarrow> (subs, Some ex)
      | Inr (type, len, rest) \<Rightarrow>
          if len > word_of_nat (length rest) then ([], Some (TlvError ''TLV length exceeds buffer length''))
          else
            let v = e - length rest; n = v + unat len in
            parse_loop buf n e (subs @ [Block (Some buf) type b n (word_of_nat (n - b)) v n []]))"
  by pat_completeness auto
termination
proof (relation "measure (\<lambda>(buf, b, e, subs). length (range_of buf b e))", goal_cases)
  case (2 buf b e subs r t p len rest v n)
  then have "length rest < length (range_of buf b e)" by (auto dest: readHeader_shorter)
  moreover have "length (range_of buf (v + unat len) e) \<le> length rest"
    using 2 by (auto simp: range_of_def)
  ultimately show ?case using 2 by simp
qed simp

declare parse_loop.simps [simp del]

definition parse :: "block \<Rightarrow> block \<times> exn option" where
  "parse b =
     (if m_subBlocks b \<noteq> [] \<or> value_size b = 0 then (b, None)
      else case m_buffer b of
        None \<Rightarrow> (b, None)
      | Some buf \<Rightarrow>
          (case parse_loop buf (m_value_begin b) (m_value_end b) [] of (subs, ex) \<Rightarrow> (set_subBlocks b subs, ex)))"

text \<open>\<open>encode\<close> writes a block that has no wire into a stream and makes what was written its wire.\<close>

definition write_element :: "bytes \<Rightarrow> block \<Rightarrow> bytes result" where
  "write_element os i =
     (if hasWire i then bindE (wire i) (\<lambda>w. bindE (block_size i) (\<lambda>n. Inr (os @ take n w)))
      else if hasValue i then
        Inr (fst (writeVarNumber (fst (writeVarNumber os (ucast (m_type i)))) (word_of_nat (value_size i)))
          @ block_value i)
      else Inl (BlockError ''Underlying value buffer is empty''))"

definition encode_stream :: "block \<Rightarrow> bytes result" where
  "encode_stream b =
     (let os = fst (writeVarNumber [] (ucast (m_type b))) in
      if hasValue b then Inr (fst (writeVarNumber os (word_of_nat (value_size b))) @ block_value b)
      else if m_subBlocks b = [] then Inr (fst (writeVarNumber os 0))
      else
        bindE (foldE (\<lambda>n i. bindE (block_size i) (\<lambda>s. Inr (n + s))) 0 (m_subBlocks b)) (\<lambda>valueSize.
        foldE write_element (fst (writeVarNumber os (word_of_nat valueSize))) (m_subBlocks b)))"

definition encode :: "block \<Rightarrow> block result" where
  "encode b =
     (if hasWire b then Inr b
      else
        bindE (encode_stream b) (\<lambda>buf.
        bindE (readHeader buf) (\<lambda>(_, _, rest).
        Inr (Block (Some buf) (m_type b) 0 (length buf) (word_of_nat (length buf))
          (length buf - length rest) (length buf) (m_subBlocks b)))))"

text \<open>\<open>find\<close> returns the position of the element, the number of elements when there is none.\<close>

definition block_find :: "block \<Rightarrow> 32 word \<Rightarrow> nat" where
  "block_find b type = length (takeWhile (\<lambda>s. m_type s \<noteq> type) (m_subBlocks b))"

definition block_get :: "block \<Rightarrow> 32 word \<Rightarrow> block result" where
  "block_get b type =
     (if block_find b type \<noteq> length (m_subBlocks b) then Inr (m_subBlocks b ! block_find b type)
      else Inl (BlockError (''(Block::get) Requested a non-existed type ['' @ dec (unat type) @ ''] from Block'')))"

definition block_remove :: "block \<Rightarrow> 32 word \<Rightarrow> block" where
  "block_remove b type = set_subBlocks (resetWire b) (filter (\<lambda>s. m_type s \<noteq> type) (m_subBlocks b))"

definition push_back :: "block \<Rightarrow> block \<Rightarrow> block" where
  "push_back b element = set_subBlocks (resetWire b) (m_subBlocks b @ [element])"

definition block_erase :: "block \<Rightarrow> nat \<Rightarrow> nat \<Rightarrow> block result" where
  "block_erase b i j =
     (if i \<le> j \<and> j \<le> length (m_subBlocks b)
      then Inr (set_subBlocks (resetWire b) (take i (m_subBlocks b) @ drop j (m_subBlocks b)))
      else Inl (UndefinedBehaviour ''erase''))"

definition block_insert :: "block \<Rightarrow> nat \<Rightarrow> block \<Rightarrow> block result" where
  "block_insert b pos element =
     (if pos \<le> length (m_subBlocks b)
      then Inr (set_subBlocks (resetWire b) (take pos (m_subBlocks b) @ element # drop pos (m_subBlocks b)))
      else Inl (UndefinedBehaviour ''insert''))"

definition blockFromValue :: "block \<Rightarrow> block result" where
  "blockFromValue b =
     (if value_size b = 0 then Inl (BlockError ''Underlying value buffer is empty'')
      else case m_buffer b of
        None \<Rightarrow> Inl (UndefinedBehaviour ''null pointer'')
      | Some buf \<Rightarrow>
          bindE (readHeader (block_value b)) (\<lambda>(type, len, rest).
            if len \<noteq> word_of_nat (length rest) then Inl (TlvError ''TLV length mismatches buffer length'')
            else Inr (Block (Some buf) type (m_value_begin b) (m_value_end b)
              (word_of_nat (m_value_end b - m_value_begin b)) (m_value_end b - length rest) (m_value_end b) [])))"


section \<open>Ranges and headers\<close>

lemma range_of_length [simp]: "e \<le> length buf \<Longrightarrow> length (range_of buf b e) = e - b"
  by (simp add: range_of_def)

lemma range_of_full [simp]: "range_of buf 0 (length buf) = buf"
  by (simp add: range_of_def)

lemma range_of_split:
  assumes "range_of buf b e = x @ y" and "b \<le> e" and "e \<le> length buf"
  shows "e - length y = b + length x" and "b + length x \<le> e"
    and "range_of buf b (b + length x) = x" and "range_of buf (b + length x) e = y"
proof -
  have "e - b = length x + length y" using assms(1,3) range_of_length [of e buf b] by simp
  then show len: "e - length y = b + length x" "b + length x \<le> e" using assms(2) by auto
  have "take (length x) (range_of buf b e) = range_of buf b (b + length x)"
    using len(2) by (simp add: range_of_def)
  then show "range_of buf b (b + length x) = x" using assms(1) by simp
  have "drop (length x) (range_of buf b e) = range_of buf (b + length x) e"
    using len by (simp add: range_of_def drop_take add.commute)
  then show "range_of buf (b + length x) e = y" using assms(1) by simp
qed

lemma readHeader_tlv [simp]:
  "readHeader (tlv t v @ rest) = Inr (t, word_of_nat (length v), v @ rest)"
  by (simp add: readHeader_def tlv_def)

lemma readHeader_tlv' [simp]: "readHeader (tlv t v) = Inr (t, word_of_nat (length v), v)"
  using readHeader_tlv [of t v "[]"] by simp

lemma tlv_not_Nil [simp]: "tlv t v \<noteq> []"
  using tlv_type.enc_not_Nil [of t] by (simp add: tlv_def)

lemma length_tlv: "length (tlv t v) = sizeOfType t + sizeOfVarNumber (word_of_nat (length v)) + length v"
  by (simp add: tlv_def vartype_def sizeOfType_def)

lemma readHeader_shape:
  assumes "readHeader bs = Inr (t, len, rest)"
  shows "\<exists>h. bs = h @ rest \<and> 2 \<le> length h"
proof -
  obtain r where r: "readType bs = Inr (t, r)" "readVarNumber r = Inr (len, rest)"
    using assms by (auto simp: readHeader_def bindE_Inr_conv)
  obtain c where "bs = c @ r" "length c \<in> {1, 3, 5, 9}" using read_type_shape [OF r(1)] by blast
  moreover obtain d where "r = d @ rest" "length d \<in> {1, 3, 5, 9}" using read_number_shape [OF r(2)] by blast
  ultimately show ?thesis by (intro exI [of _ "c @ d"]) auto
qed

lemma readHeader_local:
  assumes "readHeader (h @ r) = Inr (t, len, r)"
  shows "readHeader (h @ x) = Inr (t, len, x)"
proof -
  obtain q where q: "readType (h @ r) = Inr (t, q)" "readVarNumber q = Inr (len, r)"
    using assms by (auto simp: readHeader_def bindE_Inr_conv)
  obtain d where d: "q = d @ r" using read_number_shape [OF q(2)] by blast
  obtain c where c: "h @ r = c @ q" using read_type_shape [OF q(1)] by blast
  have h: "h = c @ d" using c d by simp
  have "readType (c @ d @ x) = Inr (t, d @ x)" using read_type_local [of c q t "d @ x"] q(1) c by simp
  moreover have "readVarNumber (d @ x) = Inr (len, x)" using read_number_local [of d r len x] q(2) d by simp
  ultimately show ?thesis unfolding h by (simp add: readHeader_def)
qed

text \<open>A number of bytes fits into a \<open>uint64_t\<close> length.\<close>

definition fits :: "bytes \<Rightarrow> bool" where
  "fits v \<longleftrightarrow> length v < 2 ^ 64"

lemma fits_unat [simp]: "fits v \<Longrightarrow> unat (word_of_nat (length v) :: 64 word) = length v"
  by (simp add: fits_def unat_of_nat)

lemma fits_shorter: "fits v \<Longrightarrow> length u \<le> length v \<Longrightarrow> fits u"
  by (simp add: fits_def)

lemma fits_le: "fits v \<Longrightarrow> len \<le> word_of_nat (length v) \<longleftrightarrow> unat (len :: 64 word) \<le> length v"
  by (simp add: word_le_nat_alt)

text \<open>The elements of the format, as a code whose items are types with their values.\<close>

definition read_element :: "bytes \<Rightarrow> ((32 word \<times> bytes) \<times> bytes) result" where
  "read_element bs =
     bindE (readHeader bs) (\<lambda>(t, len, rest).
       if len > word_of_nat (length rest) then Inl (TlvError ''TLV length exceeds buffer length'')
       else Inr ((t, take (unat len) rest), drop (unat len) rest))"

lemma read_element_tlv:
  assumes "fits (v @ rest)"
  shows "read_element (tlv t v @ rest) = Inr ((t, v), rest)"
proof -
  have "fits v" using assms by (auto intro: fits_shorter)
  moreover have "\<not> word_of_nat (length v) > (word_of_nat (length (v @ rest)) :: 64 word)"
    using fits_le [OF assms, of "word_of_nat (length v)"] \<open>fits v\<close> by (simp add: not_less)
  ultimately show ?thesis by (simp add: read_element_def)
qed


section \<open>Well-formed blocks\<close>

text \<open>
  The iterators of a block lie in its buffer; and when it has a wire, the wire starts with the type
  and the length of the value, and the value is the rest of it.
\<close>

definition block_ok :: "block \<Rightarrow> bool" where
  "block_ok b \<longleftrightarrow> (case m_buffer b of None \<Rightarrow> True | Some buf \<Rightarrow>
     fits buf \<and> m_begin b \<le> m_end b \<and> m_end b \<le> length buf
     \<and> m_value_begin b \<le> m_value_end b \<and> m_value_end b \<le> length buf
     \<and> (m_begin b \<noteq> m_end b \<longrightarrow>
         m_size b = word_of_nat (m_end b - m_begin b)
       \<and> readHeader (range_of buf (m_begin b) (m_end b))
           = Inr (m_type b, word_of_nat (value_size b), block_value b))
     \<and> (m_begin b = m_end b \<longrightarrow> m_size b = word_of_nat (length (tlv (m_type b) (block_value b)))))"

text \<open>What a block is about: its type and its value.\<close>

definition elem_of :: "block \<Rightarrow> 32 word \<times> bytes" where
  "elem_of b = (m_type b, block_value b)"

lemma block_value_length: "block_ok b \<Longrightarrow> length (block_value b) = value_size b"
  by (auto simp: block_ok_def block_value_def value_size_def hasValue_def split: option.splits)

text \<open>A block over the range of a buffer that holds an element and nothing else.\<close>

definition block_at :: "bytes \<Rightarrow> 32 word \<Rightarrow> nat \<Rightarrow> nat \<Rightarrow> nat \<Rightarrow> block" where
  "block_at buf t b v e = Block (Some buf) t b e (word_of_nat (e - b)) v e []"

lemma block_at_value:
  assumes "b \<le> e" and "e \<le> length buf" and "readHeader (range_of buf b e) = Inr (t, len, rest)"
  shows "range_of buf (e - length rest) e = rest" and "b < e" and "length rest \<le> e"
proof -
  obtain h where h: "range_of buf b e = h @ rest" "2 \<le> length h" using readHeader_shape [OF assms(3)] by blast
  note sp = range_of_split [OF h(1) assms(1,2)]
  show "range_of buf (e - length rest) e = rest" "b < e" using sp h by auto
  show "length rest \<le> e" using sp(1) h(2) by linarith
qed

lemma block_at_elem:
  assumes "b \<le> e" and "e \<le> length buf" and "readHeader (range_of buf b e) = Inr (t, len, rest)"
  shows "elem_of (block_at buf t b (e - length rest) e) = (t, rest)"
    and "wire (block_at buf t b (e - length rest) e) = Inr (range_of buf b e)"
    and "value_size (block_at buf t b (e - length rest) e) = length rest"
  using block_at_value [OF assms]
  by (simp_all add: elem_of_def block_at_def block_value_def wire_def hasWire_def value_size_def hasValue_def)

lemma block_at_ok:
  assumes "fits buf" and "b \<le> e" and "e \<le> length buf"
    and "readHeader (range_of buf b e) = Inr (t, len, rest)" and "len = word_of_nat (length rest)"
  shows "block_ok (block_at buf t b (e - length rest) e)"
    and "elem_of (block_at buf t b (e - length rest) e) = (t, rest)"
    and "wire (block_at buf t b (e - length rest) e) = Inr (range_of buf b e)"
  using assms block_at_value [OF assms(2-4)] block_at_elem [OF assms(2-4)]
  by (simp_all add: block_ok_def block_at_def value_size_def hasValue_def block_value_def)

lemma Block_range_ok:
  assumes "Block_range buf b e True = Inr bl" and "fits buf" and "b \<le> e" and "e \<le> length buf"
  shows "block_ok bl" and "wire bl = Inr (range_of buf b e)"
    and "readHeader (range_of buf b e) = Inr (m_type bl, word_of_nat (value_size bl), block_value bl)"
proof -
  obtain t len rest where r: "readHeader (range_of buf b e) = Inr (t, len, rest)" "len = word_of_nat (length rest)"
      "bl = block_at buf t b (e - length rest) e"
    using assms(1) by (auto simp: Block_range_def bindE_Inr_conv block_at_def split: if_splits)
  note at = block_at_ok [OF assms(2-4) r(1,2)]
  show "block_ok bl" "wire bl = Inr (range_of buf b e)" using at r(3) by auto
  show "readHeader (range_of buf b e) = Inr (m_type bl, word_of_nat (value_size bl), block_value bl)"
    using r at(2) block_value_length [OF at(1)] by (simp add: elem_of_def)
qed

lemma Block_buffer_tlv:
  assumes "fits (tlv t v)"
  shows "\<exists>bl. Block_buffer (tlv t v) = Inr bl \<and> block_ok bl \<and> elem_of bl = (t, v) \<and> wire bl = Inr (tlv t v)"
proof -
  have r: "readHeader (range_of (tlv t v) 0 (length (tlv t v))) = Inr (t, word_of_nat (length v), v)" by simp
  have "Block_buffer (tlv t v) = Inr (block_at (tlv t v) t 0 (length (tlv t v) - length v) (length (tlv t v)))"
    by (simp add: Block_buffer_def Block_range_def block_at_def)
  then show ?thesis using block_at_ok [OF assms _ _ r] by auto
qed

lemma fits_append: "fits (u @ v) \<Longrightarrow> fits u" "fits (u @ v) \<Longrightarrow> fits v"
  by (simp_all add: fits_def)


section \<open>Parsing\<close>

text \<open>One round of the loop reads one element off the front of the range.\<close>

lemma parse_loop_step:
  assumes "range_of buf b e = w @ rest" and "b \<le> e" and "e \<le> length buf" and "fits buf"
    and "readHeader (w @ rest) = Inr (t, len, v @ rest)" and "unat len = length v" and "w \<noteq> []"
  shows "parse_loop buf b e subs
    = parse_loop buf (b + length w) e (subs @ [block_at buf t b (b + length w - length v) (b + length w)])"
    and "block_ok (block_at buf t b (b + length w - length v) (b + length w))"
    and "elem_of (block_at buf t b (b + length w - length v) (b + length w)) = (t, v)"
    and "wire (block_at buf t b (b + length w - length v) (b + length w)) = Inr w"
proof -
  note sp = range_of_split [OF assms(1-3)]
  obtain h where h: "w @ rest = h @ v @ rest" "2 \<le> length h" using readHeader_shape [OF assms(5)] by blast
  then have w: "w = h @ v" by simp
  have n: "e - length (v @ rest) + length v = b + length w" "e - length (v @ rest) = b + length w - length v"
    using sp(1,2) w h(2) by auto
  have lw: "length w = length h + length v" using w by simp
  have "length (v @ rest) \<le> length buf" using n(2) lw assms(3) h(2) by linarith
  then have fit: "fits (v @ rest)" using assms(4) by (simp only: fits_def)
  have len: "len = word_of_nat (length v)" by (simp add: assms(6) [symmetric])
  have inside: "\<not> len > word_of_nat (length (v @ rest))"
    using fits_le [OF fit, of len] assms(6) by (simp add: not_less)
  show "parse_loop buf b e subs
      = parse_loop buf (b + length w) e (subs @ [block_at buf t b (b + length w - length v) (b + length w)])"
    using assms inside n
    by (subst parse_loop.simps) (simp add: Let_def block_at_def del: length_append)
  have "readHeader w = Inr (t, len, v)"
    using readHeader_local [of h "v @ rest" t len v] assms(5) w by simp
  then have r: "readHeader (range_of buf b (b + length w)) = Inr (t, len, v)" using sp by simp
  note at = block_at_ok [OF assms(4) _ _ r len]
  show "block_ok (block_at buf t b (b + length w - length v) (b + length w))"
    and "elem_of (block_at buf t b (b + length w - length v) (b + length w)) = (t, v)"
    and "wire (block_at buf t b (b + length w - length v) (b + length w)) = Inr w"
    using at sp assms(3) by auto
qed


text \<open>The bytes of one element, not necessarily in the shortest form.\<close>

definition element :: "bytes \<Rightarrow> 32 word \<times> bytes \<Rightarrow> bool" where
  "element w tv \<longleftrightarrow> readHeader w = Inr (fst tv, word_of_nat (length (snd tv)), snd tv)"

lemma element_tlv [simp]: "element (tlv t v) (t, v)"
  by (simp add: element_def)

lemma element_shape: "element w (t, v) \<Longrightarrow> \<exists>h. w = h @ v \<and> 2 \<le> length h"
  using readHeader_shape by (force simp: element_def)

lemma element_extend:
  assumes "element w (t, v)"
  shows "readHeader (w @ rest) = Inr (t, word_of_nat (length v), v @ rest)"
proof -
  obtain h where "w = h @ v" using element_shape [OF assms] by blast
  then show ?thesis using assms readHeader_local [of h v t _ "v @ rest"] by (simp add: element_def)
qed

lemma parse_loop_elements:
  assumes "range_of buf b e = concat ws @ junk" and "b \<le> e" and "e \<le> length buf" and "fits buf"
    and "list_all2 element ws es"
  shows "\<exists>bs m. parse_loop buf b e subs = parse_loop buf m e (subs @ bs) \<and> map elem_of bs = es
    \<and> list_all block_ok bs \<and> map wire bs = map Inr ws \<and> range_of buf m e = junk \<and> m \<le> e"
  using assms(5,1,2)
proof (induction ws es arbitrary: b subs rule: list_all2_induct)
  case Nil
  then show ?case by (intro exI [of _ "[]"] exI [of _ b]) auto
next
  case (Cons w ws x es)
  obtain t v where x: "x = (t, v)" by fastforce
  have el: "element w (t, v)" using Cons.hyps x by simp
  obtain h where h: "w = h @ v" "2 \<le> length h" using element_shape [OF el] by blast
  have r: "range_of buf b e = w @ concat ws @ junk" using Cons.prems by simp
  note sp = range_of_split [OF r Cons.prems(2) assms(3)]
  have "length v \<le> length w" using h by simp
  also have "\<dots> \<le> length buf" using sp(2) assms(3) by linarith
  finally have v: "unat (word_of_nat (length v) :: 64 word) = length v"
    using assms(4) fits_shorter fits_unat by blast
  have "w \<noteq> []" using h by auto
  note st = parse_loop_step [OF r Cons.prems(2) assms(3,4) element_extend [OF el, of "concat ws @ junk"] v \<open>w \<noteq> []\<close>]
  let ?bl = "block_at buf t b (b + length w - length v) (b + length w)"
  obtain bs m where IH: "parse_loop buf (b + length w) e (subs @ [?bl]) = parse_loop buf m e ((subs @ [?bl]) @ bs)"
      "map elem_of bs = es" "list_all block_ok bs" "map wire bs = map Inr ws"
      "range_of buf m e = junk" "m \<le> e"
    using Cons.IH [OF sp(4) sp(2), of "subs @ [?bl]"] by blast
  then show ?case using st x
    by (intro exI [of _ "?bl # bs"] exI [of _ m]) (simp add: st(1))
qed

lemma parse_loop_sound:
  assumes "parse_loop buf b e subs = (res, None)" and "b \<le> e" and "e \<le> length buf" and "fits buf"
  shows "\<exists>bs ws. res = subs @ bs \<and> list_all block_ok bs \<and> map wire bs = map Inr ws
    \<and> list_all2 element ws (map elem_of bs) \<and> range_of buf b e = concat ws"
  using assms
proof (induction buf b e subs rule: parse_loop.induct)
  case (1 buf b e subs)
  show ?case
  proof (cases "range_of buf b e = []")
    case True
    then show ?thesis using "1.prems"(1) by (intro exI [of _ "[]"]) (simp add: parse_loop.simps)
  next
    case False
    then obtain t len rest where hd: "readHeader (range_of buf b e) = Inr (t, len, rest)"
        "\<not> len > word_of_nat (length rest)"
      using "1.prems"(1) by (subst (asm) parse_loop.simps) (auto split: sum.splits if_splits)
    obtain h where h: "range_of buf b e = h @ rest" "2 \<le> length h" using readHeader_shape [OF hd(1)] by blast
    have "length rest \<le> length buf" using h "1.prems"(2,3) range_of_length [of e buf b] by simp
    then have fit: "fits rest" using "1.prems"(4) fits_shorter by blast
    define v where "v = take (unat len) rest"
    define q where "q = drop (unat len) rest"
    have rest: "rest = v @ q" by (simp add: v_def q_def)
    have len: "unat len = length v" using fits_le [OF fit, of len] hd(2) by (simp add: v_def not_less)
    have r: "range_of buf b e = (h @ v) @ q" using h rest by simp
    note sp = range_of_split [OF r "1.prems"(2,3)]
    have hd': "readHeader ((h @ v) @ q) = Inr (t, len, v @ q)" using hd(1) h(1) rest by simp
    have "h @ v \<noteq> []" using h(2) by auto
    note st = parse_loop_step [OF r "1.prems"(2-4) hd' len this]
    let ?bl = "block_at buf t b (b + length (h @ v) - length v) (b + length (h @ v))"
    have n: "e - length rest + unat len = b + length (h @ v)" using sp(1,2) rest len h(2) by simp
    have "parse_loop buf (b + length (h @ v)) e (subs @ [?bl]) = (res, None)"
      using "1.prems"(1) st(1) by simp
    moreover have "?bl = Block (Some buf) t b (e - length rest + unat len) (word_of_nat (e - length rest + unat len - b))
        (e - length rest) (e - length rest + unat len) []"
      using n sp(1,2) rest h(2) by (simp add: block_at_def)
    ultimately obtain bs ws where IH: "res = (subs @ [?bl]) @ bs" "list_all block_ok bs" "map wire bs = map Inr ws"
        "list_all2 element ws (map elem_of bs)" "range_of buf (b + length (h @ v)) e = concat ws"
      using "1.IH" [OF False hd(1) refl refl hd(2) refl refl] n sp(2) "1.prems"(3,4) by auto
    have "len = word_of_nat (length v)" by (simp add: len [symmetric])
    then have el: "element (h @ v) (t, v)"
      using readHeader_local [of h "v @ q" t len v] hd' by (simp add: element_def)
    show ?thesis using IH st sp r el
      by (intro exI [of _ "?bl # bs"] exI [of _ "(h @ v) # ws"]) simp
  qed
qed


lemma set_subBlocks_sel [simp]:
  "m_buffer (set_subBlocks b bs) = m_buffer b" "m_type (set_subBlocks b bs) = m_type b"
  "m_begin (set_subBlocks b bs) = m_begin b" "m_end (set_subBlocks b bs) = m_end b"
  "m_size (set_subBlocks b bs) = m_size b" "m_value_begin (set_subBlocks b bs) = m_value_begin b"
  "m_value_end (set_subBlocks b bs) = m_value_end b" "m_subBlocks (set_subBlocks b bs) = bs"
  by (simp_all add: set_subBlocks_def)

lemma set_subBlocks_same: "m_subBlocks b = [] \<Longrightarrow> set_subBlocks b [] = b"
  by (cases b) (simp add: set_subBlocks_def)

lemma set_subBlocks_elem [simp]:
  "block_value (set_subBlocks b bs) = block_value b" "value_size (set_subBlocks b bs) = value_size b"
  "wire (set_subBlocks b bs) = wire b" "hasWire (set_subBlocks b bs) = hasWire b"
  "hasValue (set_subBlocks b bs) = hasValue b" "block_ok (set_subBlocks b bs) = block_ok b"
  "elem_of (set_subBlocks b bs) = elem_of b" "block_size (set_subBlocks b bs) = block_size b"
  by (simp_all cong: option.case_cong add: block_value_def value_size_def hasValue_def wire_def hasWire_def block_ok_def elem_of_def
      block_size_def)

lemma elements_Nil: "list_all2 element ws es \<Longrightarrow> concat ws = [] \<Longrightarrow> ws = [] \<and> es = []"
proof (induction ws es rule: list_all2_induct)
  case (Cons w ws x es)
  then show ?case using element_shape [of w "fst x" "snd x"] by auto
qed simp

lemma parse_value:
  assumes "block_ok b" and "m_subBlocks b = []" and "block_value b \<noteq> []"
  obtains buf where "m_buffer b = Some buf" and "fits buf" and "m_value_begin b \<le> m_value_end b"
    and "m_value_end b \<le> length buf" and "range_of buf (m_value_begin b) (m_value_end b) = block_value b"
    and "parse b = (case parse_loop buf (m_value_begin b) (m_value_end b) [] of (subs, ex) \<Rightarrow> (set_subBlocks b subs, ex))"
proof -
  obtain buf where buf: "m_buffer b = Some buf" using assms(3) by (auto simp: block_value_def split: option.splits)
  have "value_size b \<noteq> 0" using assms(3) by (simp add: block_value_length [OF assms(1), symmetric])
  then show ?thesis using assms(1,2) buf that [of buf]
    by (simp add: block_ok_def block_value_def parse_def)
qed

lemma parse_elements:
  assumes "block_ok b" and "m_subBlocks b = []" and "block_value b = concat ws" and "list_all2 element ws es"
  shows "\<exists>bs. parse b = (set_subBlocks b bs, None) \<and> map elem_of bs = es \<and> list_all block_ok bs
    \<and> map wire bs = map Inr ws"
proof (cases "block_value b = []")
  case True
  then have "ws = [] \<and> es = []" using elements_Nil assms(3,4) by simp
  moreover have "parse b = (b, None)" using True block_value_length [OF assms(1)] by (simp add: parse_def)
  ultimately show ?thesis using set_subBlocks_same [OF assms(2)] by (intro exI [of _ "[]"]) simp
next
  case False
  obtain buf where v: "fits buf" "m_value_begin b \<le> m_value_end b" "m_value_end b \<le> length buf"
      "range_of buf (m_value_begin b) (m_value_end b) = block_value b"
      "parse b = (case parse_loop buf (m_value_begin b) (m_value_end b) [] of (subs, ex) \<Rightarrow> (set_subBlocks b subs, ex))"
    using parse_value [OF assms(1,2) False] by metis
  have "range_of buf (m_value_begin b) (m_value_end b) = concat ws @ []" using v(4) assms(3) by simp
  from parse_loop_elements [OF this v(2,3,1) assms(4), of "[]"] obtain bs m where
    "parse_loop buf (m_value_begin b) (m_value_end b) [] = parse_loop buf m (m_value_end b) ([] @ bs)"
    "map elem_of bs = es" "list_all block_ok bs" "map wire bs = map Inr ws" "range_of buf m (m_value_end b) = []"
    by blast
  then show ?thesis using v(5) by (intro exI [of _ bs]) (simp add: parse_loop.simps [of buf m])
qed

lemma parse_sound:
  assumes "block_ok b" and "m_subBlocks b = []" and "parse b = (b', None)"
  shows "\<exists>ws es. block_value b = concat ws \<and> list_all2 element ws es"
proof (cases "block_value b = []")
  case True
  then show ?thesis by (intro exI [of _ "[]"]) simp
next
  case False
  obtain buf where v: "fits buf" "m_value_begin b \<le> m_value_end b" "m_value_end b \<le> length buf"
      "range_of buf (m_value_begin b) (m_value_end b) = block_value b"
      "parse b = (case parse_loop buf (m_value_begin b) (m_value_end b) [] of (subs, ex) \<Rightarrow> (set_subBlocks b subs, ex))"
    using parse_value [OF assms(1,2) False] by metis
  obtain subs where "parse_loop buf (m_value_begin b) (m_value_end b) [] = (subs, None)"
    using v(5) assms(3) by (auto split: prod.splits)
  from parse_loop_sound [OF this v(2,3,1)] show ?thesis using v(4) by metis
qed

text \<open>
  C37. \<open>parse\<close> accepts a value exactly when it is a sequence of complete elements; the sub-blocks are
  then these elements in order, each with its type, its value and its wire, and well-formed.
\<close>

theorem parse_exact:
  assumes "block_ok b" and "m_subBlocks b = []"
  shows "(snd (parse b) = None \<longleftrightarrow> (\<exists>ws es. block_value b = concat ws \<and> list_all2 element ws es))
    \<and> (\<forall>ws es. block_value b = concat ws \<and> list_all2 element ws es \<longrightarrow>
         (let bs = m_subBlocks (fst (parse b))
          in map elem_of bs = es \<and> map wire bs = map Inr ws \<and> list_all block_ok bs))"
proof (intro conjI iffI allI impI; (elim exE conjE)?)
  fix ws es
  assume w: "block_value b = concat ws" "list_all2 element ws es"
  obtain bs where bs: "parse b = (set_subBlocks b bs, None)" "map elem_of bs = es" "list_all block_ok bs"
      "map wire bs = map Inr ws"
    using parse_elements [OF assms w] by blast
  show "snd (parse b) = None" using bs by simp
  show "let bs = m_subBlocks (fst (parse b))
      in map elem_of bs = es \<and> map wire bs = map Inr ws \<and> list_all block_ok bs"
    using bs by simp
next
  assume "snd (parse b) = None"
  then show "\<exists>ws es. block_value b = concat ws \<and> list_all2 element ws es"
    using parse_sound [OF assms] by (cases "parse b") auto
qed

text \<open>A block of two elements, for the witnesses.\<close>

definition demo_block :: block where
  "demo_block = Block (Some [7, 5, 8, 1, 97, 9, 0]) 7 0 7 7 2 7 []"

lemma demo_header: "readHeader [7, 5, 8, 1, 97, 9, 0] = Inr (7, 5, [8, 1, 97, 9, 0])"
  by (simp add: readHeader_def readType_def readVarNumber_def)

lemma demo_block_ok: "block_ok demo_block"
  by (simp add: block_ok_def demo_block_def fits_def range_of_def demo_header value_size_def hasValue_def block_value_def)

theorem parse_exact_witness:
  "snd (parse demo_block) = None \<longleftrightarrow> (\<exists>ws es. block_value demo_block = concat ws \<and> list_all2 element ws es)"
  by (rule parse_exact [OF demo_block_ok, THEN conjunct1]) (simp add: demo_block_def)

text \<open>
  A value that ends in an incomplete header: \<open>parse\<close> throws, but keeps the elements it has found
  so far, and every later call of \<open>parse\<close> on the same block succeeds with this part of the value.
\<close>

theorem parse_keeps_part:
  assumes "block_ok b" and "m_subBlocks b = []" and "block_value b = concat ws @ junk"
    and "list_all2 element ws es" and "es \<noteq> []" and "junk \<noteq> []" and "readHeader junk = Inl ex"
  shows "\<exists>b'. parse b = (b', Some ex) \<and> map elem_of (m_subBlocks b') = es \<and> parse b' = (b', None)"
proof -
  have ne: "block_value b \<noteq> []" using assms(3,6) by simp
  obtain buf where v: "fits buf" "m_value_begin b \<le> m_value_end b" "m_value_end b \<le> length buf"
      "range_of buf (m_value_begin b) (m_value_end b) = block_value b"
      "parse b = (case parse_loop buf (m_value_begin b) (m_value_end b) [] of (subs, ex) \<Rightarrow> (set_subBlocks b subs, ex))"
    using parse_value [OF assms(1,2) ne] by metis
  have "range_of buf (m_value_begin b) (m_value_end b) = concat ws @ junk" using v(4) assms(3) by simp
  from parse_loop_elements [OF this v(2,3,1) assms(4), of "[]"] obtain bs m where p:
    "parse_loop buf (m_value_begin b) (m_value_end b) [] = parse_loop buf m (m_value_end b) ([] @ bs)"
    "map elem_of bs = es" "range_of buf m (m_value_end b) = junk"
    by blast
  then have "parse b = (set_subBlocks b bs, Some ex)"
    using v(5) assms(6,7) by (simp add: parse_loop.simps [of buf m])
  moreover have "bs \<noteq> []" using p(2) assms(5) by auto
  ultimately show ?thesis using p(2) by (intro exI [of _ "set_subBlocks b bs"]) (simp add: parse_def)
qed

definition demo_truncated :: block where
  "demo_truncated = Block (Some [7, 4, 8, 1, 97, 9]) 7 0 6 6 2 6 []"

theorem parse_keeps_part_witness:
  "\<exists>b'. parse demo_truncated = (b', Some (TlvError ''Empty buffer during TLV processing''))
     \<and> map elem_of (m_subBlocks b') = [(8, [97])] \<and> parse b' = (b', None)"
proof (rule parse_keeps_part [where ws = "[[8, 1, 97]]" and junk = "[9]"])
  show "block_ok demo_truncated"
    by (simp add: block_ok_def demo_truncated_def fits_def range_of_def value_size_def hasValue_def block_value_def
        readHeader_def readType_def readVarNumber_def)
qed (simp_all add: demo_truncated_def block_value_def range_of_def element_def readHeader_def readType_def readVarNumber_def)


section \<open>Constructors keep the blocks well-formed\<close>

lemma raw_at:
  assumes "readHeader bs = Inr (t, len, rest)" and "\<not> len > word_of_nat (length rest)" and "fits bs"
    and "h = length bs - length rest" and "n = h + unat len"
  shows "block_ok (Block (Some (take n bs)) t 0 n (word_of_nat n) h n [])"
    and "elem_of (Block (Some (take n bs)) t 0 n (word_of_nat n) h n []) = (t, take (unat len) rest)"
    and "unat len \<le> length rest"
proof -
  obtain g where g: "bs = g @ rest" "2 \<le> length g" using readHeader_shape [OF assms(1)] by blast
  then have h: "h = length g" using assms(4) by simp
  have "fits rest" using assms(3) g fits_append by blast
  then show len: "unat len \<le> length rest" using fits_le [of rest len] assms(2) by (simp add: not_less)
  let ?buf = "take n bs" and ?v = "take (unat len) rest"
  have buf: "?buf = g @ ?v" "length ?buf = n" using g h len assms(5) by auto
  have "readHeader ?buf = Inr (t, len, ?v)" using readHeader_local [of g rest t len ?v] assms(1) g buf by simp
  then have r: "readHeader (range_of ?buf 0 n) = Inr (t, len, ?v)" using buf(2) range_of_full [of ?buf] by simp
  have "len = word_of_nat (length ?v)" using len by simp
  note at = block_at_ok [OF _ _ _ r this]
  have eq: "Block (Some ?buf) t 0 n (word_of_nat n) h n [] = block_at ?buf t 0 (n - length ?v) n"
    using h len assms(5) by (simp add: block_at_def)
  have "fits ?buf" using assms(3) by (simp add: fits_def)
  then show "block_ok (Block (Some ?buf) t 0 n (word_of_nat n) h n [])"
    and "elem_of (Block (Some ?buf) t 0 n (word_of_nat n) h n []) = (t, ?v)"
    unfolding eq using at buf(2) by auto
qed

lemma Block_raw_ok:
  assumes "Block_raw bs = Inr b" and "fits bs"
  shows "block_ok b" and "\<exists>h rest. bs = h @ block_value b @ rest \<and> 2 \<le> length h"
proof -
  obtain t len rest where r: "readHeader bs = Inr (t, len, rest)" "\<not> len > word_of_nat (length rest)"
      "b = Block (Some (take (length bs - length rest + unat len) bs)) t 0 (length bs - length rest + unat len)
         (word_of_nat (length bs - length rest + unat len)) (length bs - length rest) (length bs - length rest + unat len) []"
    using assms(1) by (auto simp: Block_raw_def bindE_Inr_conv Let_def split: if_splits)
  note at = raw_at [OF r(1,2) assms(2) refl refl]
  show "block_ok b" using at(1) r(3) by simp
  obtain h where h: "bs = h @ rest" "2 \<le> length h" using readHeader_shape [OF r(1)] by blast
  have "block_value b = take (unat len) rest" using at(2) r(3) by (simp add: elem_of_def)
  then have "bs = h @ block_value b @ drop (unat len) rest" using h by simp
  then show "\<exists>h rest. bs = h @ block_value b @ rest \<and> 2 \<le> length h" using h(2) by blast
qed

lemma Block_value_ok: "fits v \<Longrightarrow> block_ok (Block_value t v)"
  and Block_value_elem [simp]: "elem_of (Block_value t v) = (t, v)"
  by (simp_all add: Block_value_def block_ok_def Let_def elem_of_def block_value_def length_tlv sizeOfType_def)

lemma tryReadHeader_eq:
  "tryReadHeader bs = (case readHeader bs of Inr r \<Rightarrow> Some r | Inl _ \<Rightarrow> None)"
proof (cases "tryReadVarNumber bs")
  case (Pair v rest)
  show ?thesis
  proof (cases v)
    case None
    then show ?thesis using Pair by (simp add: tryReadHeader_def tryReadType_def readHeader_def readType_def readVarNumber_def)
  next
    case (Some n)
    have ne: "bs \<noteq> []" using Pair Some by auto
    show ?thesis
    proof (cases "n > 2 ^ 32 - 1")
      case True
      then show ?thesis using Pair Some ne
        by (simp add: tryReadHeader_def tryReadType_def readHeader_def readType_def readVarNumber_def)
    next
      case False
      then show ?thesis using Pair Some ne
        by (cases "rest = []")
          (auto simp: tryReadHeader_def tryReadType_def readHeader_def readType_def readVarNumber_def
            split: prod.splits option.splits)
    qed
  qed
qed

text \<open>
  \<open>fromBuffer\<close> and the throwing constructor decode the same: the flag is set exactly when the
  constructor returns, and the two blocks are equal.
\<close>

theorem fromBuffer_constructor:
  "fromBuffer bs = (case Block_raw bs of Inr b \<Rightarrow> (True, b) | Inl _ \<Rightarrow> (False, Block_empty))"
  by (cases "readHeader bs") (auto simp: fromBuffer_def Block_raw_def tryReadHeader_eq Let_def)

lemma blockFromValue_ok:
  assumes "blockFromValue b = Inr c" and "block_ok b"
  shows "block_ok c \<and> wire c = Inr (block_value b)"
proof -
  obtain buf t len rest where c: "m_buffer b = Some buf" "readHeader (block_value b) = Inr (t, len, rest)"
      "len = word_of_nat (length rest)" "c = block_at buf t (m_value_begin b) (m_value_end b - length rest) (m_value_end b)"
    using assms(1)
    by (auto simp: blockFromValue_def bindE_Inr_conv block_at_def split: if_splits option.splits)
  have v: "fits buf" "m_value_begin b \<le> m_value_end b" "m_value_end b \<le> length buf"
      "range_of buf (m_value_begin b) (m_value_end b) = block_value b"
    using assms(2) c(1) by (simp_all add: block_ok_def block_value_def)
  then show ?thesis using block_at_ok [OF v(1-3), of t len rest] c by simp
qed

lemma no_buffer_ok [simp]:
  "block_ok (resetWire b)" "block_ok (Block_type t)" "block_ok (push_back b c)"
  "block_ok (block_remove b t)" "block_ok (block_reset b)" "block_ok Block_empty"
  by (simp_all add: block_ok_def resetWire_def Block_type_def push_back_def block_remove_def block_reset_def
      Block_empty_def)


section \<open>Encoding a block of sub-blocks\<close>

text \<open>The bytes of a sub-block: its wire, or the encoding of its value when it has none.\<close>

definition element_bytes :: "block \<Rightarrow> bytes" where
  "element_bytes b = (case wire b of Inr w \<Rightarrow> w | Inl _ \<Rightarrow> tlv (m_type b) (block_value b))"

lemma element_bytes_element:
  assumes "block_ok b" and "hasValue b"
  shows "element (element_bytes b) (elem_of b)"
proof (cases "hasWire b")
  case True
  then show ?thesis using assms block_value_length [OF assms(1)]
    by (auto simp: element_bytes_def element_def wire_def elem_of_def block_ok_def hasWire_def)
qed (simp add: element_bytes_def wire_def elem_of_def)

lemma element_size:
  assumes "block_ok b" and "hasValue b" and "length (element_bytes b) < 2 ^ 32"
  shows "block_size b = Inr (length (element_bytes b))"
proof -
  obtain buf where buf: "m_buffer b = Some buf" using assms(2) by (auto simp: hasValue_def)
  have "m_size b = word_of_nat (length (element_bytes b))"
    using assms(1) buf by (auto simp: block_ok_def element_bytes_def wire_def hasWire_def range_of_def)
  moreover have "unat (word_of_nat (length (element_bytes b)) :: 32 word) = length (element_bytes b)"
    using assms(3) by (simp add: unat_of_nat)
  ultimately show ?thesis using assms(2) by (simp add: block_size_def)
qed

lemma write_element_bytes:
  assumes "block_ok b" and "hasValue b" and "length (element_bytes b) < 2 ^ 32"
  shows "write_element os b = Inr (os @ element_bytes b)"
proof (cases "hasWire b")
  case True
  then obtain w where "wire b = Inr w" by (auto simp: wire_def)
  then show ?thesis using True element_size [OF assms] by (simp add: write_element_def element_bytes_def)
next
  case False
  then have "element_bytes b = tlv (m_type b) (block_value b)" by (simp add: element_bytes_def wire_def)
  then show ?thesis using False assms(2) block_value_length [OF assms(1)]
    by (simp add: write_element_def writeVarNumber_varnum tlv_def vartype_def)
qed

definition content :: "block list \<Rightarrow> bytes" where
  "content bs = concat (map element_bytes bs)"

lemma content_simps [simp]:
  "content [] = []" "content (b # bs) = element_bytes b @ content bs" "content (bs @ cs) = content bs @ content cs"
  by (simp_all add: content_def)

definition complete :: "block list \<Rightarrow> bool" where
  "complete bs \<longleftrightarrow> (\<forall>b \<in> set bs. block_ok b \<and> hasValue b) \<and> length (content bs) < 2 ^ 32"

lemma complete_Cons: "complete (b # bs) \<Longrightarrow>
    block_ok b \<and> hasValue b \<and> length (element_bytes b) < 2 ^ 32 \<and> complete bs"
  by (auto simp: complete_def)

lemma complete_sizes:
  "complete bs \<Longrightarrow> foldE (\<lambda>n i. bindE (block_size i) (\<lambda>s. Inr (n + s))) k bs = Inr (k + length (content bs))"
  by (induction bs arbitrary: k) (auto dest!: complete_Cons simp: element_size)

lemma complete_write: "complete bs \<Longrightarrow> foldE write_element os bs = Inr (os @ content bs)"
  by (induction bs arbitrary: os) (auto dest!: complete_Cons simp: write_element_bytes)

lemma encode_complete:
  assumes "m_buffer b = None" and "complete (m_subBlocks b)"
  shows "\<exists>b'. encode b = Inr b' \<and> wire b' = Inr (tlv (m_type b) (content (m_subBlocks b))) \<and> block_ok b'
    \<and> elem_of b' = (m_type b, content (m_subBlocks b)) \<and> m_subBlocks b' = m_subBlocks b"
proof -
  let ?c = "content (m_subBlocks b)" and ?w = "tlv (m_type b) (content (m_subBlocks b))"
  have stream: "encode_stream b = Inr ?w"
  proof (cases "m_subBlocks b = []")
    case True
    then show ?thesis using assms(1)
      by (simp add: encode_stream_def hasValue_def writeVarNumber_varnum tlv_def vartype_def)
  next
    case False
    then show ?thesis using assms complete_sizes [OF assms(2), of 0]
      by (simp add: encode_stream_def hasValue_def writeVarNumber_varnum complete_write tlv_def vartype_def)
  qed
  have "length ?c < 2 ^ 32" using assms(2) by (simp add: complete_def)
  then have "fits ?w" by (simp add: fits_def length_tlv sizeOfType_def sizeOfVarNumber_def)
  have r: "readHeader (range_of ?w 0 (length ?w)) = Inr (m_type b, word_of_nat (length ?c), ?c)" by simp
  note at = block_at_ok [OF \<open>fits ?w\<close> _ _ r]
  have "encode b = Inr (set_subBlocks (block_at ?w (m_type b) 0 (length ?w - length ?c) (length ?w)) (m_subBlocks b))"
    using stream assms(1) by (simp add: encode_def hasWire_def block_at_def set_subBlocks_def)
  from this at show ?thesis by auto
qed

text \<open>
  Encoding and decoding a block built of sub-blocks: \<open>encode\<close> makes a wire that another block can be
  constructed from, and parsing that block gives sub-blocks with the same types, values and bytes.
\<close>

theorem encode_parse:
  assumes "m_buffer b = None" and "complete (m_subBlocks b)"
  shows "\<exists>b' w d d'. encode b = Inr b' \<and> wire b' = Inr w \<and> Block_buffer w = Inr d \<and> m_type d = m_type b
    \<and> parse d = (d', None) \<and> map elem_of (m_subBlocks d') = map elem_of (m_subBlocks b)
    \<and> map wire (m_subBlocks d') = map (Inr \<circ> element_bytes) (m_subBlocks b)"
proof -
  let ?c = "content (m_subBlocks b)"
  obtain b' where b': "encode b = Inr b'" "wire b' = Inr (tlv (m_type b) ?c)"
    using encode_complete [OF assms] by blast
  have "length ?c < 2 ^ 32" using assms(2) by (simp add: complete_def)
  then have "fits (tlv (m_type b) ?c)" by (simp add: fits_def length_tlv sizeOfType_def sizeOfVarNumber_def)
  from Block_buffer_tlv [OF this] obtain d where d: "Block_buffer (tlv (m_type b) ?c) = Inr d" "block_ok d"
      "elem_of d = (m_type b, ?c)" by blast
  have "m_subBlocks d = []"
    using d(1) by (auto simp: Block_buffer_def Block_range_def bindE_Inr_conv split: if_splits)
  moreover have "block_value d = concat (map element_bytes (m_subBlocks b))"
    using d(3) by (simp add: elem_of_def content_def)
  moreover have "list_all2 element (map element_bytes (m_subBlocks b)) (map elem_of (m_subBlocks b))"
    using assms(2) element_bytes_element
    by (simp add: complete_def list_all2_map1 list_all2_map2 list.rel_refl_strong)
  ultimately obtain bs where "parse d = (set_subBlocks d bs, None)" "map elem_of bs = map elem_of (m_subBlocks b)"
      "map wire bs = map Inr (map element_bytes (m_subBlocks b))"
    using parse_elements [OF d(2)] by blast
  then show ?thesis using b' d
    by (intro exI [of _ b'] exI [of _ "tlv (m_type b) ?c"] exI [of _ d] exI [of _ "set_subBlocks d bs"])
      (auto simp: elem_of_def)
qed

theorem encode_parse_witness:
  "\<exists>b' w d d'. encode (push_back (Block_type 7) (Block_value 8 [97])) = Inr b' \<and> wire b' = Inr w
    \<and> Block_buffer w = Inr d \<and> m_type d = m_type (push_back (Block_type 7) (Block_value 8 [97]))
    \<and> parse d = (d', None)
    \<and> map elem_of (m_subBlocks d') = map elem_of (m_subBlocks (push_back (Block_type 7) (Block_value 8 [97])))
    \<and> map wire (m_subBlocks d')
        = map (Inr \<circ> element_bytes) (m_subBlocks (push_back (Block_type 7) (Block_value 8 [97])))"
proof (rule encode_parse)
  have "block_ok (Block_value 8 [97])" by (simp add: Block_value_ok fits_def)
  moreover have "length (element_bytes (Block_value 8 [97])) < 2 ^ 32"
    using Block_value_elem [of 8 "[97]"]
    by (simp add: element_bytes_def wire_def hasWire_def Block_value_def length_tlv sizeOfType_def sizeOfVarNumber_def
        Let_def block_value_def range_of_def)
  ultimately show "complete (m_subBlocks (push_back (Block_type 7) (Block_value 8 [97])))"
    by (simp add: complete_def push_back_def Block_type_def resetWire_def hasValue_def Block_value_def Let_def)
qed (simp add: push_back_def resetWire_def)

lemma encode_throws:
  assumes "m_buffer b = None" and "c \<in> set (m_subBlocks b)" and "m_buffer c = None"
  shows "encode b = Inl (BlockError ''Block size cannot be determined (undefined block size)'')"
proof -
  have step: "block_size i = Inl (BlockError ''Block size cannot be determined (undefined block size)'') \<or>
      (\<exists>n. block_size i = Inr n)" for i
    by (simp add: block_size_def)
  have "foldE (\<lambda>n i. bindE (block_size i) (\<lambda>s. Inr (n + s))) k bs
      = Inl (BlockError ''Block size cannot be determined (undefined block size)'')" if "c \<in> set bs" for k bs
    using that
  proof (induction bs arbitrary: k)
    case (Cons i bs)
    have "block_size c = Inl (BlockError ''Block size cannot be determined (undefined block size)'')"
      using assms(3) by (simp add: block_size_def hasWire_def hasValue_def)
    then show ?case using Cons step [of i] by auto
  qed simp
  note sizes = this [OF assms(2), of 0]
  have "m_subBlocks b \<noteq> []" using assms(2) by auto
  then show ?thesis using assms(1) sizes
    by (simp add: encode_def encode_stream_def hasWire_def hasValue_def Let_def)
qed

text \<open>
  A sub-block that was built but not encoded itself makes \<open>encode\<close> throw: there is no recursive
  encoding.
\<close>

theorem encode_incomplete:
  assumes "m_buffer b = None" and "c \<in> set (m_subBlocks b)" and "m_buffer c = None"
  shows "encode b = Inl (BlockError ''Block size cannot be determined (undefined block size)'')"
  using assms by (rule encode_throws)

theorem encode_incomplete_witness:
  "encode (push_back (Block_type 7) (push_back (Block_type 9) (Block_value 8 [97])))
    = Inl (BlockError ''Block size cannot be determined (undefined block size)'')"
  by (rule encode_incomplete [where c = "push_back (Block_type 9) (Block_value 8 [97])"])
    (simp_all add: push_back_def resetWire_def)


section \<open>The invariant of the class\<close>

text \<open>A block that is well-formed together with all blocks below it.\<close>

inductive well_formed :: "block \<Rightarrow> bool" where
  well_formedI: "block_ok b \<Longrightarrow> \<forall>c \<in> set (m_subBlocks b). well_formed c \<Longrightarrow> well_formed b"

inductive_simps well_formed_simps: "well_formed b"

lemma well_formed_leaf: "m_subBlocks b = [] \<Longrightarrow> block_ok b \<Longrightarrow> well_formed b"
  by (simp add: well_formedI)

lemma well_formed_subs: "block_ok b \<Longrightarrow> list_all well_formed (m_subBlocks b) \<Longrightarrow> well_formed b"
  by (simp add: well_formedI list_all_iff)

lemma well_formedD: "well_formed b \<Longrightarrow> block_ok b \<and> (\<forall>c \<in> set (m_subBlocks b). well_formed c)"
  by (simp add: well_formed_simps [of b])

text \<open>An element at the front of a range of a buffer.\<close>

lemma front_block:
  assumes "readHeader (range_of buf b e) = Inr (t, len, rest)" and "\<not> len > word_of_nat (length rest)"
    and "b \<le> e" and "e \<le> length buf" and "fits buf" and "n = e - length rest + unat len"
  shows "block_ok (Block (Some buf) t b n (word_of_nat (n - b)) (e - length rest) n [])" and "n \<le> e"
proof -
  obtain h where h: "range_of buf b e = h @ rest" "2 \<le> length h" using readHeader_shape [OF assms(1)] by blast
  have l: "length rest + length h = e - b" using h(1) range_of_length [OF assms(4), of b] by simp
  have "length rest \<le> length buf" using l assms(4) by linarith
  then have "fits rest" using assms(5) fits_shorter by blast
  then have len: "unat len \<le> length rest" using fits_le [of rest len] assms(2) by (simp add: not_less)
  let ?v = "take (unat len) rest"
  have v: "len = word_of_nat (length ?v)" using len by simp
  have n: "n = b + length (h @ ?v)" "n - length ?v = e - length rest" using l len assms(3,6) h(2) by auto
  then show "n \<le> e" using l len assms(3) by simp
  have r: "range_of buf b e = (h @ ?v) @ drop (unat len) rest" using h(1) by simp
  have "range_of buf b n = h @ ?v" using range_of_split [OF r assms(3,4)] n(1) by simp
  moreover have "readHeader (h @ ?v) = Inr (t, len, ?v)" using readHeader_local [of h rest t len ?v] assms(1) h(1) by simp
  ultimately have "readHeader (range_of buf b n) = Inr (t, len, ?v)" by simp
  from block_at_ok(1) [OF assms(5) _ _ this v] show "block_ok (Block (Some buf) t b n (word_of_nat (n - b)) (e - length rest) n [])"
    using n \<open>n \<le> e\<close> assms(4) by (simp add: block_at_def)
qed

lemma fromBuffer_offset_ok:
  assumes "fromBuffer_offset buf offset = Inr (ok, b)" and "fits buf"
  shows "block_ok b \<and> m_subBlocks b = []"
proof -
  have o: "offset \<le> length buf" using assms(1) by (auto simp: fromBuffer_offset_def split: if_splits)
  have d: "drop offset buf = range_of buf offset (length buf)" by (simp add: range_of_def)
  consider "b = Block_empty"
    | t len rest n where "readHeader (range_of buf offset (length buf)) = Inr (t, len, rest)" "\<not> len > word_of_nat (length rest)"
        "n = length buf - length rest + unat len" "b = Block (Some buf) t offset n (word_of_nat (n - offset)) (length buf - length rest) n []"
    using assms(1) o unfolding fromBuffer_offset_def tryReadHeader_eq d
    by (cases "readHeader (range_of buf offset (length buf))") (auto simp: Let_def split: if_splits)
  then show ?thesis
  proof cases
    case 2
    then show ?thesis using front_block(1) [OF 2(1,2) o _ assms(2) 2(3)] by simp
  qed (simp add: Block_empty_def block_ok_def)
qed

text \<open>What \<open>parse\<close> has found is well-formed, also when it ends with an exception.\<close>

lemma parse_loop_ok:
  assumes "list_all well_formed subs" and "b \<le> e" and "e \<le> length buf" and "fits buf"
  shows "list_all well_formed (fst (parse_loop buf b e subs))"
  using assms
proof (induction buf b e subs rule: parse_loop.induct)
  case (1 buf b e subs)
  show ?case
  proof (cases "readHeader (range_of buf b e)")
    case (Inl ex)
    then show ?thesis using "1.prems"(1) by (subst parse_loop.simps) simp
  next
    case (Inr r)
    obtain t len rest where r: "r = (t, len, rest)" by (metis surj_pair)
    note hd = Inr [unfolded r]
    have ne: "range_of buf b e \<noteq> []" using readHeader_shape [OF hd] by auto
    show ?thesis
    proof (cases "len > word_of_nat (length rest)")
      case True
      then show ?thesis using ne hd by (subst parse_loop.simps) simp
    next
      case False
      let ?n = "e - length rest + unat len"
      let ?bl = "Block (Some buf) t b ?n (word_of_nat (?n - b)) (e - length rest) ?n []"
      note f = front_block [OF hd False "1.prems"(2-4) refl]
      have "list_all well_formed (subs @ [?bl])" using "1.prems"(1) well_formed_leaf [OF _ f(1)] by simp
      from "1.IH" [OF ne hd refl refl False refl refl this f(2) "1.prems"(3,4)] show ?thesis
        using ne hd False by (subst parse_loop.simps) (simp add: Let_def)
    qed
  qed
qed

lemma parse_well_formed:
  assumes "well_formed b"
  shows "well_formed (fst (parse b))"
proof (cases "m_subBlocks b \<noteq> [] \<or> value_size b = 0 \<or> m_buffer b = None")
  case True
  then show ?thesis using assms by (auto simp: parse_def)
next
  case False
  then obtain buf where buf: "m_buffer b = Some buf" by auto
  have ok: "block_ok b" using well_formedD [OF assms] by simp
  then have v: "m_value_begin b \<le> m_value_end b" "m_value_end b \<le> length buf" "fits buf" using buf by (simp_all add: block_ok_def)
  obtain subs ex where p: "parse_loop buf (m_value_begin b) (m_value_end b) [] = (subs, ex)" by fastforce
  then have "list_all well_formed subs" using parse_loop_ok [OF _ v, of "[]"] by simp
  moreover have "parse b = (set_subBlocks b subs, ex)" using False buf p by (simp add: parse_def)
  ultimately show ?thesis using ok by (intro well_formed_subs) simp_all
qed

lemma Block_nested_ok:
  assumes "Block_nested t v = Inr b" and "block_ok v"
  shows "block_ok b \<and> m_subBlocks b = []"
proof -
  obtain buf where b: "m_buffer v = Some buf" "b = Block (Some buf) t (length buf) (length buf)
      (word_of_nat (sizeOfVarNumber (ucast t) + sizeOfVarNumber (word_of_nat (m_end v - m_begin v)) + (m_end v - m_begin v)))
      (m_begin v) (m_end v) []"
    using assms(1) by (auto simp: Block_nested_def Let_def split: option.splits if_splits)
  then show ?thesis using assms(2) by (simp add: block_ok_def block_value_def length_tlv sizeOfType_def)
qed

lemma encode_ok:
  assumes "encode b = Inr c" and "block_ok b" and "\<forall>s \<in> set (m_subBlocks b). block_ok s"
    and "value_size b < 2 ^ 32" and "length (content (m_subBlocks b)) < 2 ^ 32"
  shows "block_ok c \<and> m_subBlocks c = m_subBlocks b"
proof -
  consider "hasWire b" | buf where "\<not> hasWire b" "m_buffer b = Some buf" | "m_buffer b = None" by blast
  then show ?thesis
  proof cases
    case 1
    then show ?thesis using assms(1,2) by (simp add: encode_def)
  next
    case 2
    let ?v = "block_value b" and ?w = "tlv (m_type b) (block_value b)"
    have l: "length ?v = value_size b" using assms(2) by (rule block_value_length)
    have s: "encode_stream b = Inr ?w"
      using 2(2) l by (simp add: encode_stream_def hasValue_def writeVarNumber_varnum tlv_def vartype_def)
    have "fits ?w" using assms(4) l by (simp add: fits_def length_tlv sizeOfType_def sizeOfVarNumber_def)
    moreover have r: "readHeader (range_of ?w 0 (length ?w)) = Inr (m_type b, word_of_nat (length ?v), ?v)" by simp
    ultimately have "block_ok (block_at ?w (m_type b) 0 (length ?w - length ?v) (length ?w))" by (intro block_at_ok(1) [OF _ _ _ r]) simp_all
    moreover have "c = set_subBlocks (block_at ?w (m_type b) 0 (length ?w - length ?v) (length ?w)) (m_subBlocks b)"
      using assms(1) 2(1) s by (simp add: encode_def block_at_def set_subBlocks_def)
    ultimately show ?thesis by simp
  next
    case 3
    have "hasValue s" if "s \<in> set (m_subBlocks b)" for s
    proof (rule ccontr)
      assume "\<not> hasValue s"
      then have "m_buffer s = None" by (simp add: hasValue_def)
      then show False using encode_throws [OF 3 that] assms(1) by simp
    qed
    then have "complete (m_subBlocks b)" using assms(3,5) by (simp add: complete_def)
    then show ?thesis using encode_complete [OF 3] assms(1) by auto
  qed
qed

text \<open>
  The blocks a program can have: those of the constructors, of bytes in memory of which the length fits into 64
  bits, and all that its operations make of them. Left out are the constructors that are told the offsets, or
  not to check the length, and what is written in more than \<open>2 ^ 32 - 1\<close> bytes, which the size of a block
  cannot hold. \<open>fromStream\<close> returns what these constructors make.
\<close>

inductive made :: "block \<Rightarrow> bool" where
  made_empty: "made Block_empty"
| made_type: "made (Block_type t)"
| made_raw: "Block_raw bs = Inr b \<Longrightarrow> fits bs \<Longrightarrow> made b"
| made_buffer: "Block_buffer bs = Inr b \<Longrightarrow> fits bs \<Longrightarrow> made b"
| made_range: "Block_range bs i j True = Inr b \<Longrightarrow> fits bs \<Longrightarrow> i \<le> j \<Longrightarrow> j \<le> length bs \<Longrightarrow> made b"
| made_fromBuffer: "fits bs \<Longrightarrow> made (snd (fromBuffer bs))"
| made_fromBuffer_offset: "fromBuffer_offset bs offset = Inr (ok, b) \<Longrightarrow> fits bs \<Longrightarrow> made b"
| made_value: "fits bs \<Longrightarrow> made (Block_value t bs)"
| made_nested: "made v \<Longrightarrow> Block_nested t v = Inr b \<Longrightarrow> made b"
| made_sub: "made p \<Longrightarrow> Block_sub p i j True = Inr b \<Longrightarrow> i \<le> j \<Longrightarrow> made b"
| made_from_value: "made p \<Longrightarrow> blockFromValue p = Inr b \<Longrightarrow> made b"
| made_element: "made p \<Longrightarrow> b \<in> set (m_subBlocks p) \<Longrightarrow> made b"
| made_get: "made p \<Longrightarrow> block_get p t = Inr b \<Longrightarrow> made b"
| made_parse: "made p \<Longrightarrow> made (fst (parse p))"
| made_encode: "made p \<Longrightarrow> encode p = Inr b \<Longrightarrow> value_size p < 2 ^ 32 \<Longrightarrow> length (content (m_subBlocks p)) < 2 ^ 32 \<Longrightarrow> made b"
| made_push_back: "made p \<Longrightarrow> made c \<Longrightarrow> made (push_back p c)"
| made_insert: "made p \<Longrightarrow> made c \<Longrightarrow> block_insert p i c = Inr b \<Longrightarrow> made b"
| made_erase: "made p \<Longrightarrow> block_erase p i j = Inr b \<Longrightarrow> made b"
| made_remove: "made p \<Longrightarrow> made (block_remove p t)"
| made_reset: "made p \<Longrightarrow> made (block_reset p)"
| made_resetWire: "made p \<Longrightarrow> made (resetWire p)"

lemma change_subs_well_formed:
  assumes "\<forall>c \<in> set cs. well_formed c"
  shows "well_formed (set_subBlocks (resetWire b) cs)"
  using assms by (intro well_formedI) (simp_all add: block_ok_def resetWire_def)

lemma no_subs [simp]:
  "m_subBlocks Block_empty = []" "m_subBlocks (Block_type t) = []" "m_subBlocks (Block_value t v) = []"
  "Block_range bs i j l = Inr b \<Longrightarrow> m_subBlocks b = []" "Block_raw bs = Inr b \<Longrightarrow> m_subBlocks b = []"
  "blockFromValue p = Inr b \<Longrightarrow> m_subBlocks b = []" "m_subBlocks (block_reset p) = []" "m_subBlocks (resetWire p) = m_subBlocks p"
  by (auto simp: Block_empty_def Block_type_def Block_value_def Block_range_def Block_raw_def blockFromValue_def block_reset_def
      resetWire_def bindE_Inr_conv Let_def split: if_splits option.splits)

lemma made_well_formed: "made b \<Longrightarrow> well_formed b"
proof (induction rule: made.induct)
  case (made_raw bs b)
  then show ?case using Block_raw_ok(1) [OF made_raw] by (intro well_formed_leaf) auto
next
  case (made_buffer bs b)
  then have r: "Block_range bs 0 (length bs) True = Inr b" by (simp add: Block_buffer_def)
  then show ?case using Block_range_ok(1) [OF r made_buffer(2)] by (intro well_formed_leaf) auto
next
  case (made_range bs i j b)
  then show ?case using Block_range_ok(1) [OF made_range] by (intro well_formed_leaf) auto
next
  case (made_fromBuffer bs)
  show ?case
    unfolding fromBuffer_constructor using Block_raw_ok(1) [OF _ made_fromBuffer] well_formed_leaf
    by (cases "Block_raw bs") auto
next
  case (made_fromBuffer_offset bs offset ok b)
  then show ?case using fromBuffer_offset_ok well_formed_leaf by blast
next
  case (made_nested v t b)
  then show ?case using Block_nested_ok well_formedD well_formed_leaf by blast
next
  case (made_sub p i j b)
  then obtain buf where buf: "m_buffer p = Some buf" "Block_range buf i j True = Inr b" "j \<le> length buf"
    by (auto simp: Block_sub_def split: option.splits if_splits)
  moreover have "fits buf" using well_formedD [OF made_sub.IH] buf(1) by (simp add: block_ok_def)
  ultimately show ?case using Block_range_ok(1) made_sub.hyps(3) by (intro well_formed_leaf) auto
next
  case (made_from_value p b)
  then show ?case using blockFromValue_ok well_formedD by (intro well_formed_leaf) auto
next
  case (made_element p b)
  then show ?case using well_formedD by blast
next
  case (made_get p t b)
  have "b \<in> set (m_subBlocks p)"
    using made_get.hyps(2) length_takeWhile_le [of "\<lambda>s. m_type s \<noteq> t" "m_subBlocks p"] by (auto simp: block_get_def block_find_def split: if_splits)
  then show ?case using well_formedD [OF made_get.IH] by blast
next
  case (made_encode p b)
  have "block_ok p" "\<forall>s \<in> set (m_subBlocks p). block_ok s" "\<forall>s \<in> set (m_subBlocks p). well_formed s"
    using well_formedD [OF made_encode.IH] well_formedD by blast+
  then show ?case using encode_ok [OF made_encode.hyps(2) _ _ made_encode.hyps(3,4)] by (intro well_formedI) auto
next
  case (made_push_back p c)
  then show ?case using well_formedD unfolding push_back_def by (intro change_subs_well_formed) auto
next
  case (made_insert p c i b)
  then have "b = set_subBlocks (resetWire p) (take i (m_subBlocks p) @ c # drop i (m_subBlocks p))"
    by (auto simp: block_insert_def split: if_splits)
  moreover have "\<forall>x \<in> set (m_subBlocks p). well_formed x" using well_formedD made_insert.IH(1) by blast
  ultimately show ?case using made_insert.IH(2) by (auto intro!: change_subs_well_formed dest!: in_set_takeD in_set_dropD)
next
  case (made_erase p i j b)
  then have "b = set_subBlocks (resetWire p) (take i (m_subBlocks p) @ drop j (m_subBlocks p))"
    by (auto simp: block_erase_def split: if_splits)
  moreover have "\<forall>x \<in> set (m_subBlocks p). well_formed x" using well_formedD made_erase.IH by blast
  ultimately show ?case by (auto intro!: change_subs_well_formed dest!: in_set_takeD in_set_dropD)
next
  case (made_remove p t)
  then show ?case using well_formedD unfolding block_remove_def by (intro change_subs_well_formed) auto
next
  case (made_resetWire p)
  then show ?case using well_formedD by (intro well_formedI) auto
qed (auto intro: well_formed_leaf parse_well_formed Block_value_ok)

declare no_subs [simp del]

text \<open>
  C36. The invariant of \<open>Block\<close>: every block that the constructors and the operations make, in any order and on
  whatever bytes, is well-formed, and so are all its sub-blocks, also those that \<open>parse\<close> has found before it
  throws, those that were inserted and those that are left after others were removed: the offsets are in order
  and inside the buffer. When it has a wire, the wire is an element, read to its end, with the type and the value
  of the block, and the size of the block is the length of the wire. The constructors that do not check the
  length are excepted, and encodings of \<open>2 ^ 32\<close> bytes or more, whose length wraps.
\<close>

theorem block_invariant:
  assumes "made b"
  shows "well_formed b
    \<and> (\<forall>buf. m_buffer b = Some buf \<longrightarrow> m_begin b \<le> m_end b \<and> m_end b \<le> length buf
        \<and> m_value_begin b \<le> m_value_end b \<and> m_value_end b \<le> length buf)
    \<and> (\<forall>w. wire b = Inr w \<longrightarrow> element w (elem_of b) \<and> (length w < 2 ^ 32 \<longrightarrow> block_size b = Inr (length w)))"
proof (intro conjI allI impI)
  show w: "well_formed b" by (rule made_well_formed [OF assms])
  then have ok: "block_ok b" by (simp add: well_formedD)
  fix buf assume buf: "m_buffer b = Some buf"
  show "m_begin b \<le> m_end b" "m_end b \<le> length buf" "m_value_begin b \<le> m_value_end b" "m_value_end b \<le> length buf"
    using ok buf by (simp_all add: block_ok_def)
next
  fix w assume w: "wire b = Inr w"
  have ok: "block_ok b" using made_well_formed [OF assms] by (simp add: well_formedD)
  have v: "hasValue b" and e: "element_bytes b = w" using w by (auto simp: wire_def hasWire_def hasValue_def element_bytes_def split: if_splits)
  show "element w (elem_of b)" using element_bytes_element [OF ok v] e by simp
  show "block_size b = Inr (length w)" if "length w < 2 ^ 32" using element_size [OF ok v] e that by simp
qed

text \<open>A block that is parsed; the sub-block that is found, in a block that is encoded.\<close>

theorem block_invariant_witness:
  "\<exists>b c p e w. Block_buffer [7, 3, 8, 1, 97] = Inr b \<and> block_get (fst (parse b)) 8 = Inr c \<and> encode (push_back (Block_type 9) c) = Inr e
    \<and> p = push_back (Block_type 9) c \<and> wire e = Inr w \<and> element w (elem_of e) \<and> well_formed e"
proof -
  have b: "Block_buffer [7, 3, 8, 1, 97] = Inr (Block (Some [7, 3, 8, 1, 97]) 7 0 5 5 2 5 [])"
    by (simp add: Block_buffer_def Block_range_def range_of_def readHeader_def readType_def readVarNumber_def)
  let ?b = "Block (Some [7, 3, 8, 1, 97]) 7 0 5 5 2 5 []" and ?c = "Block (Some [7, 3, 8, 1, 97]) 8 2 5 3 4 5 []"
  have p: "parse ?b = (set_subBlocks ?b [?c], None)"
    by (simp add: parse_def value_size_def hasValue_def parse_loop.simps range_of_def readHeader_def readType_def readVarNumber_def Let_def)
  then have g: "block_get (fst (parse ?b)) 8 = Inr ?c" by (simp add: block_get_def block_find_def)
  let ?p = "push_back (Block_type 9) ?c"
  have "fits [7, 3, 8, 1, 97]" by (simp add: fits_def)
  then have c: "made ?c" using made_get [OF made_parse [OF made_buffer [OF b]] g] by simp
  have "content [?c] = [8, 1, 97]" by (simp add: element_bytes_def wire_def hasWire_def range_of_def)
  then have small: "length (content (m_subBlocks ?p)) < 2 ^ 32" "m_buffer ?p = None" by (simp_all add: push_back_def Block_type_def resetWire_def)
  have "block_ok ?c" using made_well_formed [OF c] well_formedD by blast
  then have "complete (m_subBlocks ?p)" using small(1) by (simp add: complete_def push_back_def Block_type_def resetWire_def hasValue_def)
  then obtain e w where e: "encode ?p = Inr e" "wire e = Inr w" using encode_complete [OF small(2)] by blast
  have "made ?p" by (rule made_push_back [OF made_type c])
  then have "made e" using made_encode [OF _ e(1) _ small(1)] small(2) by (simp add: value_size_def hasValue_def)
  from block_invariant [OF this] have "element w (elem_of e) \<and> well_formed e" using e(2) by blast
  then show ?thesis using b g e by blast
qed


section \<open>Looking up sub-blocks\<close>

lemma find_spec:
  "block_get b t = (case List.find (\<lambda>s. m_type s = t) (m_subBlocks b) of
     Some s \<Rightarrow> Inr s
   | None \<Rightarrow> Inl (BlockError (''(Block::get) Requested a non-existed type ['' @ dec (unat t) @ ''] from Block'')))"
proof -
  have "(case List.find (\<lambda>s. m_type s = t) bs of Some s \<Rightarrow>
      length (takeWhile (\<lambda>s. m_type s \<noteq> t) bs) \<noteq> length bs \<and> bs ! length (takeWhile (\<lambda>s. m_type s \<noteq> t) bs) = s
    | None \<Rightarrow> length (takeWhile (\<lambda>s. m_type s \<noteq> t) bs) = length bs)" for bs
    by (induction bs) (auto split: option.splits)
  from this [of "m_subBlocks b"] show ?thesis
    by (auto simp: block_get_def block_find_def split: option.splits)
qed

lemma find_filter_other:
  "t \<noteq> u \<Longrightarrow> List.find (\<lambda>s. m_type s = t) (filter (\<lambda>s. m_type s \<noteq> u) bs) = List.find (\<lambda>s. m_type s = t) bs"
  by (induction bs) auto

lemma find_filter_same: "List.find (\<lambda>s. m_type s = t) (filter (\<lambda>s. m_type s \<noteq> t) bs) = None"
  by (induction bs) auto

lemma find_append:
  "List.find P (xs @ ys) = (case List.find P xs of Some x \<Rightarrow> Some x | None \<Rightarrow> List.find P ys)"
  by (induction xs) auto

text \<open>
  The sub-blocks as a table by type: \<open>get\<close> returns the first element of the type; after
  \<open>remove\<close> it throws for the removed type and returns the same as before for any other; after
  \<open>push_back\<close> it returns the new element exactly when the type was not there.
\<close>

theorem sub_block_lookup:
  "block_get (block_remove b t) u
     = (if u = t then Inl (BlockError (''(Block::get) Requested a non-existed type ['' @ dec (unat t) @ ''] from Block''))
        else block_get b u)
   \<and> block_get (push_back b c) u
     = (case block_get b u of Inr s \<Rightarrow> Inr s
        | Inl ex \<Rightarrow> if m_type c = u then Inr c else Inl ex)"
  by (auto simp: find_spec block_remove_def push_back_def find_filter_other find_filter_same find_append
      split: option.splits)

end
