(* ===== verification/Encoding.thy ===== *)
theory Encoding
  imports Block
begin

text \<open>
  The two implementations of the encoding interface of ndn-cxx: \<open>encoding/encoder.cpp\<close> writes into a
  buffer that grows at both ends, \<open>encoding/estimator.cpp\<close> only computes sizes. In the code a function
  that encodes an object is a template over the tag that selects one of them; here the tag is the
  record \<open>encoding_impl\<close> of the operations, and such a function takes the record as an argument. An
  operation returns the number of bytes and the new state of the encoder.
\<close>

section \<open>The common interface\<close>

record 'e encoding_impl =
  prependByte :: "byte \<Rightarrow> 'e \<Rightarrow> (nat \<times> 'e) result"
  appendByte :: "byte \<Rightarrow> 'e \<Rightarrow> (nat \<times> 'e) result"
  prependByteArray :: "bytes \<Rightarrow> 'e \<Rightarrow> (nat \<times> 'e) result"
  appendByteArray :: "bytes \<Rightarrow> 'e \<Rightarrow> (nat \<times> 'e) result"
  prependVarNumber :: "64 word \<Rightarrow> 'e \<Rightarrow> (nat \<times> 'e) result"
  appendVarNumber :: "64 word \<Rightarrow> 'e \<Rightarrow> (nat \<times> 'e) result"
  prependNonNegativeInteger :: "64 word \<Rightarrow> 'e \<Rightarrow> (nat \<times> 'e) result"
  appendNonNegativeInteger :: "64 word \<Rightarrow> 'e \<Rightarrow> (nat \<times> 'e) result"
  prependByteArrayBlock :: "32 word \<Rightarrow> bytes \<Rightarrow> 'e \<Rightarrow> (nat \<times> 'e) result"
  appendByteArrayBlock :: "32 word \<Rightarrow> bytes \<Rightarrow> 'e \<Rightarrow> (nat \<times> 'e) result"
  prependBlock :: "block \<Rightarrow> 'e \<Rightarrow> (nat \<times> 'e) result"
  appendBlock :: "block \<Rightarrow> 'e \<Rightarrow> (nat \<times> 'e) result"

text \<open>\<open>totalLength = first(); totalLength += second()\<close>\<close>

definition addE :: "('e \<Rightarrow> (nat \<times> 'e) result) \<Rightarrow> ('e \<Rightarrow> (nat \<times> 'e) result) \<Rightarrow> 'e \<Rightarrow> (nat \<times> 'e) result" where
  "addE f g e = bindE (f e) (\<lambda>(n, e). bindE (g e) (\<lambda>(m, e). Inr (n + m, e)))"

text \<open>Two calls whose results are ignored, and a constant that is returned.\<close>

definition doE :: "nat \<Rightarrow> ('e \<Rightarrow> (nat \<times> 'e) result) \<Rightarrow> ('e \<Rightarrow> (nat \<times> 'e) result) \<Rightarrow> 'e \<Rightarrow> (nat \<times> 'e) result" where
  "doE n f g e = bindE (f e) (\<lambda>(_, e). bindE (g e) (\<lambda>(_, e). Inr (n, e)))"


section \<open>The encoder\<close>

record encoder =
  enc_buffer :: bytes
  enc_begin :: nat
  enc_end :: nat

definition Encoder_init :: "nat \<Rightarrow> nat \<Rightarrow> encoder" where
  "Encoder_init totalReserve reserveFromBack =
     (let p = totalReserve - (if reserveFromBack < totalReserve then reserveFromBack else 0)
      in \<lparr>enc_buffer = replicate totalReserve 0, enc_begin = p, enc_end = p\<rparr>)"

text \<open>The encoder on the buffer of a block; \<open>begin()\<close> and \<open>end()\<close> throw when the block has no wire.\<close>

definition Encoder_of_block :: "block \<Rightarrow> encoder result" where
  "Encoder_of_block b =
     (case m_buffer b of
        None \<Rightarrow> Inl (UndefinedBehaviour ''null pointer'')
      | Some buf \<Rightarrow>
          if \<not> hasWire b then Inl (BlockError ''Underlying wire buffer is empty'')
          else Inr \<lparr>enc_buffer = buf, enc_begin = m_begin b, enc_end = m_end b\<rparr>)"

definition Encoder_reserve :: "nat \<Rightarrow> bool \<Rightarrow> encoder \<Rightarrow> encoder" where
  "Encoder_reserve n addInFront e =
     (let len = length (enc_buffer e); sz = (if n < len then len else n) in
      if addInFront then
        let diffEnd = len - enc_end e; diffBegin = len - enc_begin e in
        \<lparr>enc_buffer = replicate (sz - len) 0 @ enc_buffer e, enc_begin = sz - diffBegin, enc_end = sz - diffEnd\<rparr>
      else e\<lparr>enc_buffer := enc_buffer e @ replicate (sz - len) 0\<rparr>)"

definition Encoder_reserveBack :: "nat \<Rightarrow> encoder \<Rightarrow> encoder" where
  "Encoder_reserveBack n e =
     (if enc_end e + n > length (enc_buffer e) then Encoder_reserve (length (enc_buffer e) * 2 + n) False e else e)"

definition Encoder_reserveFront :: "nat \<Rightarrow> encoder \<Rightarrow> encoder" where
  "Encoder_reserveFront n e =
     (if n > enc_begin e then Encoder_reserve (length (enc_buffer e) * 2 + n) True e else e)"

text \<open>Writing outside of the buffer is undefined.\<close>

definition blit :: "bytes \<Rightarrow> nat \<Rightarrow> bytes \<Rightarrow> bytes result" where
  "blit buf pos bs =
     (if pos + length bs \<le> length buf then Inr (take pos buf @ bs @ drop (pos + length bs) buf)
      else Inl (UndefinedBehaviour ''buffer''))"

definition Encoder_prependByteArray :: "bytes \<Rightarrow> encoder \<Rightarrow> (nat \<times> encoder) result" where
  "Encoder_prependByteArray array e0 =
     (let e = Encoder_reserveFront (length array) e0 in
      if enc_begin e < length array then Inl (UndefinedBehaviour ''buffer'')
      else
        let p = enc_begin e - length array in
        bindE (blit (enc_buffer e) p array) (\<lambda>buf.
        Inr (length array, e\<lparr>enc_buffer := buf, enc_begin := p\<rparr>)))"

definition Encoder_appendByteArray :: "bytes \<Rightarrow> encoder \<Rightarrow> (nat \<times> encoder) result" where
  "Encoder_appendByteArray array e0 =
     (let e = Encoder_reserveBack (length array) e0 in
      bindE (blit (enc_buffer e) (enc_end e) array) (\<lambda>buf.
      Inr (length array, e\<lparr>enc_buffer := buf, enc_end := enc_end e + length array\<rparr>)))"

definition Encoder_prependByte :: "byte \<Rightarrow> encoder \<Rightarrow> (nat \<times> encoder) result" where
  "Encoder_prependByte v e0 =
     (let e = Encoder_reserveFront 1 e0 in
      if enc_begin e < 1 then Inl (UndefinedBehaviour ''buffer'')
      else
        let p = enc_begin e - 1 in
        bindE (blit (enc_buffer e) p [v]) (\<lambda>buf. Inr (1, e\<lparr>enc_buffer := buf, enc_begin := p\<rparr>)))"

definition Encoder_appendByte :: "byte \<Rightarrow> encoder \<Rightarrow> (nat \<times> encoder) result" where
  "Encoder_appendByte v e0 =
     (let e = Encoder_reserveBack 1 e0 in
      bindE (blit (enc_buffer e) (enc_end e) [v]) (\<lambda>buf.
      Inr (1, e\<lparr>enc_buffer := buf, enc_end := enc_end e + 1\<rparr>)))"

definition Encoder_prependVarNumber :: "64 word \<Rightarrow> encoder \<Rightarrow> (nat \<times> encoder) result" where
  "Encoder_prependVarNumber varNumber e =
     (if varNumber < 253 then bindE (Encoder_prependByte (ucast varNumber) e) (\<lambda>(_, e). Inr (1, e))
      else if varNumber \<le> 2 ^ 16 - 1 then
        doE 3 (Encoder_prependByteArray (be_bytes 2 (unat varNumber))) (Encoder_prependByte 253) e
      else if varNumber \<le> 2 ^ 32 - 1 then
        doE 5 (Encoder_prependByteArray (be_bytes 4 (unat varNumber))) (Encoder_prependByte 254) e
      else doE 9 (Encoder_prependByteArray (be_bytes 8 (unat varNumber))) (Encoder_prependByte 255) e)"

definition Encoder_appendVarNumber :: "64 word \<Rightarrow> encoder \<Rightarrow> (nat \<times> encoder) result" where
  "Encoder_appendVarNumber varNumber e =
     (if varNumber < 253 then bindE (Encoder_appendByte (ucast varNumber) e) (\<lambda>(_, e). Inr (1, e))
      else if varNumber \<le> 2 ^ 16 - 1 then
        doE 3 (Encoder_appendByte 253) (Encoder_appendByteArray (be_bytes 2 (unat varNumber))) e
      else if varNumber \<le> 2 ^ 32 - 1 then
        doE 5 (Encoder_appendByte 254) (Encoder_appendByteArray (be_bytes 4 (unat varNumber))) e
      else doE 9 (Encoder_appendByte 255) (Encoder_appendByteArray (be_bytes 8 (unat varNumber))) e)"

definition Encoder_prependNonNegativeInteger :: "64 word \<Rightarrow> encoder \<Rightarrow> (nat \<times> encoder) result" where
  "Encoder_prependNonNegativeInteger varNumber =
     (if varNumber \<le> 2 ^ 8 - 1 then Encoder_prependByte (ucast varNumber)
      else if varNumber \<le> 2 ^ 16 - 1 then Encoder_prependByteArray (be_bytes 2 (unat varNumber))
      else if varNumber \<le> 2 ^ 32 - 1 then Encoder_prependByteArray (be_bytes 4 (unat varNumber))
      else Encoder_prependByteArray (be_bytes 8 (unat varNumber)))"

definition Encoder_appendNonNegativeInteger :: "64 word \<Rightarrow> encoder \<Rightarrow> (nat \<times> encoder) result" where
  "Encoder_appendNonNegativeInteger varNumber =
     (if varNumber \<le> 2 ^ 8 - 1 then Encoder_appendByte (ucast varNumber)
      else if varNumber \<le> 2 ^ 16 - 1 then Encoder_appendByteArray (be_bytes 2 (unat varNumber))
      else if varNumber \<le> 2 ^ 32 - 1 then Encoder_appendByteArray (be_bytes 4 (unat varNumber))
      else Encoder_appendByteArray (be_bytes 8 (unat varNumber)))"

definition Encoder_prependByteArrayBlock :: "32 word \<Rightarrow> bytes \<Rightarrow> encoder \<Rightarrow> (nat \<times> encoder) result" where
  "Encoder_prependByteArrayBlock type array =
     addE (addE (Encoder_prependByteArray array) (Encoder_prependVarNumber (word_of_nat (length array))))
       (Encoder_prependVarNumber (ucast type))"

definition Encoder_appendByteArrayBlock :: "32 word \<Rightarrow> bytes \<Rightarrow> encoder \<Rightarrow> (nat \<times> encoder) result" where
  "Encoder_appendByteArrayBlock type array =
     addE (addE (Encoder_appendVarNumber (ucast type)) (Encoder_appendVarNumber (word_of_nat (length array))))
       (Encoder_appendByteArray array)"

definition Encoder_prependBlock :: "block \<Rightarrow> encoder \<Rightarrow> (nat \<times> encoder) result" where
  "Encoder_prependBlock b e =
     (if hasWire b
      then bindE (wire b) (\<lambda>w. bindE (block_size b) (\<lambda>n. Encoder_prependByteArray (take n w) e))
      else Encoder_prependByteArrayBlock (m_type b) (block_value b) e)"

definition Encoder_appendBlock :: "block \<Rightarrow> encoder \<Rightarrow> (nat \<times> encoder) result" where
  "Encoder_appendBlock b e =
     (if hasWire b
      then bindE (wire b) (\<lambda>w. bindE (block_size b) (\<lambda>n. Encoder_appendByteArray (take n w) e))
      else Encoder_appendByteArrayBlock (m_type b) (block_value b) e)"

definition EncoderTag :: "encoder encoding_impl" where
  "EncoderTag =
     \<lparr>prependByte = Encoder_prependByte, appendByte = Encoder_appendByte,
      prependByteArray = Encoder_prependByteArray, appendByteArray = Encoder_appendByteArray,
      prependVarNumber = Encoder_prependVarNumber, appendVarNumber = Encoder_appendVarNumber,
      prependNonNegativeInteger = Encoder_prependNonNegativeInteger,
      appendNonNegativeInteger = Encoder_appendNonNegativeInteger,
      prependByteArrayBlock = Encoder_prependByteArrayBlock,
      appendByteArrayBlock = Encoder_appendByteArrayBlock,
      prependBlock = Encoder_prependBlock, appendBlock = Encoder_appendBlock\<rparr>"

definition Encoder_size :: "encoder \<Rightarrow> nat" where
  "Encoder_size e = enc_end e - enc_begin e"

definition Encoder_block :: "encoder \<Rightarrow> bool \<Rightarrow> block result" where
  "Encoder_block e verifyLength = Block_range (enc_buffer e) (enc_begin e) (enc_end e) verifyLength"


section \<open>The estimator\<close>

definition Estimator_prependByte :: "byte \<Rightarrow> nat" where "Estimator_prependByte v = 1"
definition Estimator_appendByte :: "byte \<Rightarrow> nat" where "Estimator_appendByte v = 1"

definition Estimator_prependByteArray :: "bytes \<Rightarrow> nat" where
  "Estimator_prependByteArray array = length array"

definition Estimator_appendByteArray :: "bytes \<Rightarrow> nat" where
  "Estimator_appendByteArray array = Estimator_prependByteArray array"

definition Estimator_prependVarNumber :: "64 word \<Rightarrow> nat" where
  "Estimator_prependVarNumber varNumber =
     (if varNumber < 253 then 1 else if varNumber \<le> 2 ^ 16 - 1 then 3
      else if varNumber \<le> 2 ^ 32 - 1 then 5 else 9)"

definition Estimator_appendVarNumber :: "64 word \<Rightarrow> nat" where
  "Estimator_appendVarNumber varNumber = Estimator_prependVarNumber varNumber"

definition Estimator_prependNonNegativeInteger :: "64 word \<Rightarrow> nat" where
  "Estimator_prependNonNegativeInteger varNumber =
     (if varNumber \<le> 2 ^ 8 - 1 then 1 else if varNumber \<le> 2 ^ 16 - 1 then 2
      else if varNumber \<le> 2 ^ 32 - 1 then 4 else 8)"

definition Estimator_appendNonNegativeInteger :: "64 word \<Rightarrow> nat" where
  "Estimator_appendNonNegativeInteger varNumber = Estimator_prependNonNegativeInteger varNumber"

definition Estimator_prependByteArrayBlock :: "32 word \<Rightarrow> bytes \<Rightarrow> nat" where
  "Estimator_prependByteArrayBlock type array =
     length array + Estimator_prependVarNumber (word_of_nat (length array)) + Estimator_prependVarNumber (ucast type)"

definition Estimator_appendByteArrayBlock :: "32 word \<Rightarrow> bytes \<Rightarrow> nat" where
  "Estimator_appendByteArrayBlock type array = Estimator_prependByteArrayBlock type array"

definition Estimator_prependBlock :: "block \<Rightarrow> nat result" where
  "Estimator_prependBlock b =
     (if hasWire b then block_size b else Inr (Estimator_prependByteArrayBlock (m_type b) (block_value b)))"

definition Estimator_appendBlock :: "block \<Rightarrow> nat result" where
  "Estimator_appendBlock b = Estimator_prependBlock b"

text \<open>The estimator has no state.\<close>

definition EstimatorTag :: "unit encoding_impl" where
  "EstimatorTag =
     \<lparr>prependByte = (\<lambda>v e. Inr (Estimator_prependByte v, e)),
      appendByte = (\<lambda>v e. Inr (Estimator_appendByte v, e)),
      prependByteArray = (\<lambda>a e. Inr (Estimator_prependByteArray a, e)),
      appendByteArray = (\<lambda>a e. Inr (Estimator_appendByteArray a, e)),
      prependVarNumber = (\<lambda>n e. Inr (Estimator_prependVarNumber n, e)),
      appendVarNumber = (\<lambda>n e. Inr (Estimator_appendVarNumber n, e)),
      prependNonNegativeInteger = (\<lambda>n e. Inr (Estimator_prependNonNegativeInteger n, e)),
      appendNonNegativeInteger = (\<lambda>n e. Inr (Estimator_appendNonNegativeInteger n, e)),
      prependByteArrayBlock = (\<lambda>t a e. Inr (Estimator_prependByteArrayBlock t a, e)),
      appendByteArrayBlock = (\<lambda>t a e. Inr (Estimator_appendByteArrayBlock t a, e)),
      prependBlock = (\<lambda>b e. bindE (Estimator_prependBlock b) (\<lambda>n. Inr (n, e))),
      appendBlock = (\<lambda>b e. bindE (Estimator_appendBlock b) (\<lambda>n. Inr (n, e)))\<rparr>"


section \<open>What an operation writes\<close>

text \<open>
  \<open>R e c\<close> relates the state of an encoder to the bytes \<open>c\<close> it has written. An operation emits \<open>bs\<close> when,
  in every state, it returns their number and puts them in front of (or behind) what was written.
\<close>

definition emits :: "('e \<Rightarrow> bytes \<Rightarrow> bool) \<Rightarrow> ('e \<Rightarrow> (nat \<times> 'e) result) \<Rightarrow> bytes \<Rightarrow> bool" where
  "emits R f bs \<longleftrightarrow> (\<forall>e c. R e c \<longrightarrow> (\<exists>e'. f e = Inr (length bs, e') \<and> R e' (bs @ c)))"

definition emits_back :: "('e \<Rightarrow> bytes \<Rightarrow> bool) \<Rightarrow> ('e \<Rightarrow> (nat \<times> 'e) result) \<Rightarrow> bytes \<Rightarrow> bool" where
  "emits_back R f bs \<longleftrightarrow> (\<forall>e c. R e c \<longrightarrow> (\<exists>e'. f e = Inr (length bs, e') \<and> R e' (c @ bs)))"

lemma emitsD: "emits R f bs \<Longrightarrow> R e c \<Longrightarrow> \<exists>e'. f e = Inr (length bs, e') \<and> R e' (bs @ c)"
  by (simp add: emits_def)

lemma emits_backD: "emits_back R f bs \<Longrightarrow> R e c \<Longrightarrow> \<exists>e'. f e = Inr (length bs, e') \<and> R e' (c @ bs)"
  by (simp add: emits_back_def)

named_theorems emit_intros "rules that find out what an encoding function writes"

lemma emits_addE [emit_intros]:
  assumes "emits R f bs" and "emits R g cs"
  shows "emits R (addE f g) (cs @ bs)"
  unfolding emits_def
proof (intro allI impI)
  fix e c assume "R e c"
  then obtain e1 where e1: "f e = Inr (length bs, e1)" "R e1 (bs @ c)" using assms(1) by (auto simp: emits_def)
  then obtain e2 where "g e1 = Inr (length cs, e2)" "R e2 (cs @ bs @ c)" using assms(2) by (force simp: emits_def)
  then show "\<exists>e'. addE f g e = Inr (length (cs @ bs), e') \<and> R e' ((cs @ bs) @ c)"
    using e1 by (simp add: addE_def add.commute)
qed

lemma emits_doE [emit_intros]:
  "emits R f bs \<Longrightarrow> emits R g cs \<Longrightarrow> n = length (cs @ bs) \<Longrightarrow> emits R (doE n f g) (cs @ bs)"
proof -
  assume a: "emits R f bs" "emits R g cs" "n = length (cs @ bs)"
  have "doE n f g e = addE f g e" if st: "R e c" for e c
  proof -
    obtain e1 where e1: "f e = Inr (length bs, e1)" "R e1 (bs @ c)" using emitsD [OF a(1) st] by blast
    then obtain e2 where "g e1 = Inr (length cs, e2)" using emitsD [OF a(2) e1(2)] by blast
    then show ?thesis using e1 a(3) by (simp add: addE_def doE_def)
  qed
  then show ?thesis using emits_addE [OF a(1,2)] by (simp add: emits_def)
qed

lemma emits_back_addE [emit_intros]:
  assumes "emits_back R f bs" and "emits_back R g cs"
  shows "emits_back R (addE f g) (bs @ cs)"
  unfolding emits_back_def
proof (intro allI impI)
  fix e c assume "R e c"
  then obtain e1 where e1: "f e = Inr (length bs, e1)" "R e1 (c @ bs)" using assms(1) by (auto simp: emits_back_def)
  then obtain e2 where "g e1 = Inr (length cs, e2)" "R e2 ((c @ bs) @ cs)"
    using assms(2) unfolding emits_back_def by blast
  then show "\<exists>e'. addE f g e = Inr (length (bs @ cs), e') \<and> R e' (c @ bs @ cs)"
    using e1 by (simp add: addE_def)
qed

lemma emits_back_doE [emit_intros]:
  "emits_back R f bs \<Longrightarrow> emits_back R g cs \<Longrightarrow> n = length (bs @ cs) \<Longrightarrow> emits_back R (doE n f g) (bs @ cs)"
proof -
  assume a: "emits_back R f bs" "emits_back R g cs" "n = length (bs @ cs)"
  have "doE n f g e = addE f g e" if st: "R e c" for e c
  proof -
    obtain e1 where e1: "f e = Inr (length bs, e1)" "R e1 (c @ bs)" using emits_backD [OF a(1) st] by blast
    then obtain e2 where "g e1 = Inr (length cs, e2)" using a(2) unfolding emits_back_def by blast
    then show ?thesis using e1 a(3) by (simp add: addE_def doE_def)
  qed
  then show ?thesis using emits_back_addE [OF a(1,2)] by (simp add: emits_back_def)
qed

text \<open>The bytes of a non-negative integer here: up to 255 in one byte, unlike \<open>tlv::writeNonNegativeInteger\<close>.\<close>

definition nni :: "64 word \<Rightarrow> bytes" where
  "nni n = be_bytes (if n \<le> 255 then 1 else if n \<le> 65535 then 2 else if n \<le> 4294967295 then 4 else 8) (unat n)"

lemma nni_not_Nil [simp]: "nni n \<noteq> []"
  by (simp add: nni_def)

lemma nni_length: "length (nni n) \<in> {1, 2, 4, 8}"
  by (simp add: nni_def)

lemma nni_read: "Tlv.readNonNegativeInteger (length (nni n)) (nni n @ rest) = Inr (n, rest)"
proof -
  have "be_val (nni n) = unat n"
    using unat64_bounds [of n] by (auto simp: nni_def be_val_bytes_small simp del: be_bytes.simps)
  then show ?thesis using nni_length [of n] by (simp add: Tlv.readNonNegativeInteger_def)
qed

lemma read_value_nni [simp]: "read_value (nni n) = Inr n"
  using nni_read [of n "[]"] by (simp add: read_value_def)

text \<open>
  The pattern of the encoding functions: what is inside an element first, then its length and its type.
\<close>

definition with_header :: "'e encoding_impl \<Rightarrow> 32 word \<Rightarrow> ('e \<Rightarrow> (nat \<times> 'e) result) \<Rightarrow> 'e \<Rightarrow> (nat \<times> 'e) result" where
  "with_header T t f e =
     bindE (f e) (\<lambda>(n, e).
     bindE (addE (prependVarNumber T (word_of_nat n)) (prependVarNumber T (ucast t)) e) (\<lambda>(m, e). Inr (n + m, e)))"

text \<open>The contract of the operations that put bytes in front.\<close>

locale prepender =
  fixes T :: "'e encoding_impl" and R :: "'e \<Rightarrow> bytes \<Rightarrow> bool"
  assumes prepend_byte: "emits R (prependByte T b) [b]"
    and prepend_array: "emits R (prependByteArray T bs) bs"
    and prepend_var: "emits R (prependVarNumber T n) (varnum n)"
    and prepend_nni: "emits R (prependNonNegativeInteger T n) (nni n)"
    and prepend_array_block: "emits R (prependByteArrayBlock T t bs) (tlv t bs)"
    and prepend_block: "block_ok bl \<Longrightarrow> length (element_bytes bl) < 2 ^ 32
      \<Longrightarrow> emits R (prependBlock T bl) (element_bytes bl)"
begin

lemma prepend_type: "emits R (prependVarNumber T (ucast t)) (vartype t)"
  using prepend_var by (simp add: vartype_def)

lemmas prepends = prepend_byte prepend_array prepend_var prepend_type prepend_nni prepend_array_block prepend_block

lemma prepend_header:
  assumes "emits R f v"
  shows "emits R (with_header T t f) (tlv t v)"
  unfolding emits_def
proof (intro allI impI)
  fix e c assume "R e c"
  then obtain e1 where e1: "f e = Inr (length v, e1)" "R e1 (v @ c)" using emitsD [OF assms] by blast
  obtain e2 where e2: "addE (prependVarNumber T (word_of_nat (length v))) (prependVarNumber T (ucast t)) e1
      = Inr (length (vartype t @ varnum (word_of_nat (length v))), e2)"
      "R e2 ((vartype t @ varnum (word_of_nat (length v))) @ v @ c)"
    using emitsD [OF emits_addE [OF prepend_var prepend_type] e1(2)] by blast
  then show "\<exists>e'. with_header T t f e = Inr (length (tlv t v), e') \<and> R e' (tlv t v @ c)"
    using e1(1) by (simp add: with_header_def tlv_def)
qed

end

text \<open>The contract with the operations that put bytes behind.\<close>

locale encoding = prepender +
  assumes append_byte: "emits_back R (appendByte T b) [b]"
    and append_array: "emits_back R (appendByteArray T bs) bs"
    and append_var: "emits_back R (appendVarNumber T n) (varnum n)"
    and append_nni: "emits_back R (appendNonNegativeInteger T n) (nni n)"
    and append_array_block: "emits_back R (appendByteArrayBlock T t bs) (tlv t bs)"
    and append_block: "block_ok bl \<Longrightarrow> length (element_bytes bl) < 2 ^ 32
      \<Longrightarrow> emits_back R (appendBlock T bl) (element_bytes bl)"
begin

text \<open>Both ends can be written to in any order.\<close>

lemma both_ends:
  assumes "R e c"
  shows "\<exists>e1 e2. prependByteArray T bs e = Inr (length bs, e1) \<and> appendByteArray T ds e1 = Inr (length ds, e2)
    \<and> R e2 (bs @ c @ ds)"
proof -
  obtain e1 where e1: "prependByteArray T bs e = Inr (length bs, e1)" "R e1 (bs @ c)"
    using prepend_array assms unfolding emits_def by blast
  then obtain e2 where "appendByteArray T ds e1 = Inr (length ds, e2)" "R e2 ((bs @ c) @ ds)"
    using append_array unfolding emits_back_def by blast
  then show ?thesis using e1 by auto
qed

end


section \<open>The encoder fulfils the contract\<close>

text \<open>The bytes written are those between the two iterators.\<close>

definition enc_rep :: "encoder \<Rightarrow> bytes \<Rightarrow> bool" where
  "enc_rep e c \<longleftrightarrow> enc_begin e \<le> enc_end e \<and> enc_end e \<le> length (enc_buffer e)
     \<and> range_of (enc_buffer e) (enc_begin e) (enc_end e) = c"

text \<open>
  An encoder that was created with room for exactly \<open>cap\<close> bytes, none of them in the back, does not
  reallocate its buffer as long as no more than that is written in front.
\<close>

definition enc_exact :: "nat \<Rightarrow> encoder \<Rightarrow> bytes \<Rightarrow> bool" where
  "enc_exact cap e c \<longleftrightarrow> enc_rep e c
     \<and> (length c \<le> cap \<longrightarrow> length (enc_buffer e) = cap \<and> enc_end e = cap)"

lemma range_of_shift: "range_of (xs @ buf) (length xs + b) (length xs + e) = range_of buf b e"
  by (simp add: range_of_def)

lemma range_of_more: "e \<le> length buf \<Longrightarrow> range_of (buf @ ys) b e = range_of buf b e"
  by (simp add: range_of_def)

lemma reserveFront_rep:
  assumes "enc_rep e c"
  shows "enc_rep (Encoder_reserveFront n e) c" and "n \<le> enc_begin (Encoder_reserveFront n e)"
proof -
  have "enc_rep (Encoder_reserveFront n e) c \<and> n \<le> enc_begin (Encoder_reserveFront n e)"
  proof (cases "n > enc_begin e")
    case True
    let ?len = "length (enc_buffer e)"
    have eq: "Encoder_reserveFront n e = \<lparr>enc_buffer = replicate (?len + n) 0 @ enc_buffer e,
        enc_begin = (?len + n) + enc_begin e, enc_end = (?len + n) + enc_end e\<rparr>"
      using True assms by (auto simp: Encoder_reserveFront_def Encoder_reserve_def enc_rep_def Let_def)
    show ?thesis unfolding eq using assms range_of_shift [of "replicate (?len + n) 0" "enc_buffer e"]
      by (simp add: enc_rep_def add.assoc)
  qed (use assms in \<open>simp add: Encoder_reserveFront_def\<close>)
  then show "enc_rep (Encoder_reserveFront n e) c" and "n \<le> enc_begin (Encoder_reserveFront n e)" by auto
qed

lemma reserveBack_rep:
  assumes "enc_rep e c"
  shows "enc_rep (Encoder_reserveBack n e) c"
    and "enc_end (Encoder_reserveBack n e) + n \<le> length (enc_buffer (Encoder_reserveBack n e))"
  using assms
  by (auto simp: Encoder_reserveBack_def Encoder_reserve_def enc_rep_def range_of_more Let_def)

lemma reserveFront_room: "n \<le> enc_begin e \<Longrightarrow> Encoder_reserveFront n e = e"
  by (simp add: Encoder_reserveFront_def)

lemma blit_front:
  assumes "b \<le> e" and "e \<le> length buf" and "range_of buf b e = c" and "length a \<le> b"
  shows "\<exists>buf'. blit buf (b - length a) a = Inr buf' \<and> length buf' = length buf
    \<and> range_of buf' (b - length a) e = a @ c"
proof -
  let ?buf' = "take (b - length a) buf @ a @ drop b buf"
  have "blit buf (b - length a) a = Inr ?buf'" using assms by (simp add: blit_def)
  moreover have "length ?buf' = length buf" using assms by simp
  moreover have "range_of ?buf' (b - length a) e = a @ c"
  proof -
    have "drop (b - length a) ?buf' = a @ drop b buf" using assms by simp
    then show ?thesis using assms by (simp add: range_of_def)
  qed
  ultimately show ?thesis by blast
qed

lemma blit_back:
  assumes "b \<le> e" and "e + length a \<le> length buf" and "range_of buf b e = c"
  shows "\<exists>buf'. blit buf e a = Inr buf' \<and> length buf' = length buf \<and> range_of buf' b (e + length a) = c @ a"
proof -
  let ?buf' = "take e buf @ a @ drop (e + length a) buf"
  have "drop b (take e buf) = c" using assms(3) by (simp add: range_of_def drop_take)
  moreover have "length (drop b (take e buf)) = e - b" using assms by simp
  ultimately have "range_of ?buf' b (e + length a) = c @ a" using assms by (auto simp: range_of_def)
  moreover have "blit buf e a = Inr ?buf'" "length ?buf' = length buf" using assms by (simp_all add: blit_def)
  ultimately show ?thesis by blast
qed

lemma prependByteArray_rep:
  assumes "enc_rep e c"
  shows "\<exists>e'. Encoder_prependByteArray a e = Inr (length a, e') \<and> enc_rep e' (a @ c)
    \<and> (length a \<le> enc_begin e \<longrightarrow> length (enc_buffer e') = length (enc_buffer e) \<and> enc_end e' = enc_end e)"
proof -
  let ?e = "Encoder_reserveFront (length a) e"
  have rep: "enc_rep ?e c" "length a \<le> enc_begin ?e" using reserveFront_rep [OF assms] by auto
  then obtain buf' where "blit (enc_buffer ?e) (enc_begin ?e - length a) a = Inr buf'"
      "length buf' = length (enc_buffer ?e)" "range_of buf' (enc_begin ?e - length a) (enc_end ?e) = a @ c"
    using blit_front [of "enc_begin ?e" "enc_end ?e" "enc_buffer ?e" c a] by (auto simp: enc_rep_def)
  then show ?thesis using rep reserveFront_room [of "length a" e]
    by (auto simp: Encoder_prependByteArray_def Let_def enc_rep_def)
qed

lemma prependByte_array: "Encoder_prependByte b = Encoder_prependByteArray [b]"
  by (rule ext) (simp add: Encoder_prependByte_def Encoder_prependByteArray_def Let_def)

lemma appendByte_array: "Encoder_appendByte b = Encoder_appendByteArray [b]"
  by (rule ext) (simp add: Encoder_appendByte_def Encoder_appendByteArray_def)

lemma enc_array: "emits enc_rep (Encoder_prependByteArray bs) bs"
  unfolding emits_def using prependByteArray_rep by blast

lemma enc_exact_array: "emits (enc_exact cap) (Encoder_prependByteArray bs) bs"
  unfolding emits_def
proof (intro allI impI)
  fix e c assume ex: "enc_exact cap e c"
  then obtain e' where e': "Encoder_prependByteArray bs e = Inr (length bs, e')" "enc_rep e' (bs @ c)"
      "length bs \<le> enc_begin e \<longrightarrow> length (enc_buffer e') = length (enc_buffer e) \<and> enc_end e' = enc_end e"
    using prependByteArray_rep [of e c bs] by (auto simp: enc_exact_def)
  have "length (bs @ c) \<le> cap \<Longrightarrow> length bs \<le> enc_begin e"
  proof -
    assume "length (bs @ c) \<le> cap"
    moreover from this have "enc_end e = cap" using ex by (simp add: enc_exact_def)
    moreover have "length c = enc_end e - enc_begin e" "enc_begin e \<le> enc_end e"
      using ex by (auto simp: enc_exact_def enc_rep_def)
    ultimately show ?thesis by simp
  qed
  then show "\<exists>e'. Encoder_prependByteArray bs e = Inr (length bs, e') \<and> enc_exact cap e' (bs @ c)"
    using e' ex by (auto simp: enc_exact_def)
qed

text \<open>All other operations are made of these.\<close>

lemma bindE_const: "(\<And>x. f x = g x) \<Longrightarrow> bindE m f = bindE m g" by (cases m) auto

lemma emits_const: "emits R f bs \<Longrightarrow> n = length bs \<Longrightarrow> emits R (\<lambda>e. bindE (f e) (\<lambda>(_, e). Inr (n, e))) bs"
  by (force simp: emits_def)

lemma emits_back_const:
  "emits_back R f bs \<Longrightarrow> n = length bs \<Longrightarrow> emits_back R (\<lambda>e. bindE (f e) (\<lambda>(_, e). Inr (n, e))) bs"
  by (force simp: emits_back_def)

lemma varnum_cases:
  "varnum n = (if n < 253 then [ucast n] else if n \<le> 65535 then [253] @ be_bytes 2 (unat n)
     else if n \<le> 4294967295 then [254] @ be_bytes 4 (unat n) else [255] @ be_bytes 8 (unat n))"
  by (simp add: varnum_def writeVarNumber_def)

lemma nni_cases:
  "nni n = (if n \<le> 255 then [ucast n] else if n \<le> 65535 then be_bytes 2 (unat n)
     else if n \<le> 4294967295 then be_bytes 4 (unat n) else be_bytes 8 (unat n))"
  by (simp add: nni_def)

lemma encoder_prepender:
  assumes arr: "\<And>bs. emits R (Encoder_prependByteArray bs) bs"
  shows "prepender EncoderTag R"
proof
  fix b bs n t bl
  have var: "emits R (Encoder_prependVarNumber m) (varnum m)" for m
    unfolding Encoder_prependVarNumber_def prependByte_array varnum_cases
    by (auto intro!: emits_const emits_doE arr simp del: append_Cons)
  show "emits R (prependByte EncoderTag b) [b]" "emits R (prependByteArray EncoderTag bs) bs"
    "emits R (prependVarNumber EncoderTag n) (varnum n)"
    using arr var by (simp_all add: EncoderTag_def prependByte_array)
  show "emits R (prependNonNegativeInteger EncoderTag n) (nni n)"
    using arr by (auto simp: EncoderTag_def Encoder_prependNonNegativeInteger_def prependByte_array nni_cases)
  have blk: "emits R (Encoder_prependByteArrayBlock u v) (tlv u v)" for u v
    unfolding Encoder_prependByteArrayBlock_def tlv_def vartype_def
    by (intro emits_addE arr var)
  then show "emits R (prependByteArrayBlock EncoderTag t bs) (tlv t bs)" by (simp add: EncoderTag_def)
  assume bl: "block_ok bl" "length (element_bytes bl) < 2 ^ 32"
  show "emits R (prependBlock EncoderTag bl) (element_bytes bl)"
  proof (cases "hasWire bl")
    case True
    then obtain w where w: "wire bl = Inr w" "element_bytes bl = w" by (auto simp: wire_def element_bytes_def)
    moreover have "block_size bl = Inr (length w)"
      using element_size [OF bl(1) _ bl(2)] True w by (auto simp: hasWire_def hasValue_def)
    ultimately show ?thesis using True arr by (simp add: EncoderTag_def Encoder_prependBlock_def [abs_def])
  next
    case False
    then show ?thesis using blk
      by (simp add: EncoderTag_def Encoder_prependBlock_def [abs_def] element_bytes_def wire_def)
  qed
qed



lemma appendByteArray_rep:
  assumes "enc_rep e c"
  shows "\<exists>e'. Encoder_appendByteArray a e = Inr (length a, e') \<and> enc_rep e' (c @ a)"
proof -
  let ?e = "Encoder_reserveBack (length a) e"
  have rep: "enc_rep ?e c" "enc_end ?e + length a \<le> length (enc_buffer ?e)" using reserveBack_rep [OF assms] by auto
  then obtain buf' where "blit (enc_buffer ?e) (enc_end ?e) a = Inr buf'"
      "length buf' = length (enc_buffer ?e)" "range_of buf' (enc_begin ?e) (enc_end ?e + length a) = c @ a"
    using blit_back [of "enc_begin ?e" "enc_end ?e" a "enc_buffer ?e" c] by (auto simp: enc_rep_def)
  then show ?thesis using rep by (auto simp: Encoder_appendByteArray_def Let_def enc_rep_def)
qed

lemma enc_back_array: "emits_back enc_rep (Encoder_appendByteArray bs) bs"
  unfolding emits_back_def using appendByteArray_rep by blast

lemma element_size_wire:
  assumes "block_ok bl" and "hasWire bl" and "length (element_bytes bl) < 2 ^ 32"
  shows "wire bl = Inr (element_bytes bl)" and "block_size bl = Inr (length (element_bytes bl))"
  using element_size [OF assms(1) _ assms(3)] assms(2)
  by (auto simp: wire_def element_bytes_def hasWire_def hasValue_def)

interpretation enc: encoding EncoderTag enc_rep
proof (rule encoding.intro [OF encoder_prepender [OF enc_array]], unfold_locales)
  fix b bs n t bl
  have var: "emits_back enc_rep (Encoder_appendVarNumber m) (varnum m)" for m
    unfolding Encoder_appendVarNumber_def appendByte_array varnum_cases
    by (auto intro!: emits_back_const emits_back_doE enc_back_array simp del: append_Cons)
  have blk: "emits_back enc_rep (Encoder_appendByteArrayBlock u v) (tlv u v)" for u v
    unfolding Encoder_appendByteArrayBlock_def tlv_def vartype_def append_assoc [symmetric]
    by (intro emits_back_addE enc_back_array var)
  show "emits_back enc_rep (appendByte EncoderTag b) [b]" "emits_back enc_rep (appendByteArray EncoderTag bs) bs"
    "emits_back enc_rep (appendVarNumber EncoderTag n) (varnum n)"
    "emits_back enc_rep (appendByteArrayBlock EncoderTag t bs) (tlv t bs)"
    using enc_back_array var blk by (simp_all add: EncoderTag_def appendByte_array)
  show "emits_back enc_rep (appendNonNegativeInteger EncoderTag n) (nni n)"
    using enc_back_array
    by (auto simp: EncoderTag_def Encoder_appendNonNegativeInteger_def appendByte_array nni_cases)
  assume bl: "block_ok bl" "length (element_bytes bl) < 2 ^ 32"
  show "emits_back enc_rep (appendBlock EncoderTag bl) (element_bytes bl)"
  proof (cases "hasWire bl")
    case True
    then show ?thesis using element_size_wire [OF bl(1) True bl(2)] enc_back_array
      by (simp add: EncoderTag_def Encoder_appendBlock_def [abs_def])
  next
    case False
    then show ?thesis using blk
      by (simp add: EncoderTag_def Encoder_appendBlock_def [abs_def] element_bytes_def wire_def)
  qed
qed

interpretation enc_exact: prepender EncoderTag "enc_exact cap" for cap
  by (rule encoder_prepender [OF enc_exact_array])

text \<open>The estimator fulfils it too: it announces the number of bytes the encoder writes.\<close>

definition est_rep :: "unit \<Rightarrow> bytes \<Rightarrow> bool" where
  "est_rep e c \<longleftrightarrow> True"

lemma estimator_var: "Estimator_prependVarNumber n = length (varnum n)"
  by (simp add: Estimator_prependVarNumber_def sizeOfVarNumber_def)

lemma estimator_nni: "Estimator_prependNonNegativeInteger n = length (nni n)"
  by (simp add: Estimator_prependNonNegativeInteger_def nni_def del: be_bytes.simps)

lemma estimator_block: "Estimator_prependByteArrayBlock t v = length (tlv t v)"
  by (simp add: Estimator_prependByteArrayBlock_def estimator_var length_tlv sizeOfType_def)

lemma estimator_prependBlock:
  assumes "block_ok bl" and "length (element_bytes bl) < 2 ^ 32"
  shows "Estimator_prependBlock bl = Inr (length (element_bytes bl))"
  using element_size_wire [OF assms(1) _ assms(2)]
  by (cases "hasWire bl") (simp_all add: Estimator_prependBlock_def estimator_block element_bytes_def wire_def)

interpretation est: encoding EstimatorTag est_rep
  by unfold_locales
    (simp_all add: emits_def emits_back_def est_rep_def EstimatorTag_def Estimator_prependByte_def
      Estimator_appendByte_def Estimator_prependByteArray_def Estimator_appendByteArray_def estimator_var
      Estimator_appendVarNumber_def estimator_nni Estimator_appendNonNegativeInteger_def estimator_block
      Estimator_appendByteArrayBlock_def estimator_prependBlock Estimator_appendBlock_def)


section \<open>Reserving room\<close>

text \<open>
  The buffer of an encoder: after \<open>reserveFront(n)\<close> (\<open>reserveBack(n)\<close>) there are at least \<open>n\<close> bytes
  before (behind) what was written, and the bytes written are unchanged.
\<close>

theorem reserve_room:
  assumes "enc_rep e c"
  shows "enc_rep (Encoder_reserveFront n e) c \<and> n \<le> enc_begin (Encoder_reserveFront n e)
    \<and> enc_rep (Encoder_reserveBack n e) c
    \<and> enc_end (Encoder_reserveBack n e) + n \<le> length (enc_buffer (Encoder_reserveBack n e))"
  using reserveFront_rep [OF assms] reserveBack_rep [OF assms] by blast

theorem reserve_room_witness:
  "enc_rep (Encoder_reserveFront 5 (Encoder_init 2 1)) [] \<and> 5 \<le> enc_begin (Encoder_reserveFront 5 (Encoder_init 2 1))
    \<and> enc_rep (Encoder_reserveBack 5 (Encoder_init 2 1)) []
    \<and> enc_end (Encoder_reserveBack 5 (Encoder_init 2 1)) + 5
      \<le> length (enc_buffer (Encoder_reserveBack 5 (Encoder_init 2 1)))"
  by (rule reserve_room) (simp add: enc_rep_def Encoder_init_def range_of_def)

lemma Encoder_init_rep [simp]: "enc_rep (Encoder_init n m) []"
  by (simp add: enc_rep_def Encoder_init_def range_of_def Let_def)

lemma Encoder_init_exact [simp]: "enc_exact n (Encoder_init n 0) []"
  by (simp add: enc_exact_def enc_rep_def Encoder_init_def range_of_def)

text \<open>The block of what was written.\<close>

lemma Encoder_block_tlv:
  assumes "enc_rep e (tlv t v)" and "fits (enc_buffer e)"
  shows "\<exists>b. Encoder_block e True = Inr b \<and> block_ok b \<and> wire b = Inr (tlv t v) \<and> elem_of b = (t, v)
    \<and> m_subBlocks b = [] \<and> m_buffer b = Some (enc_buffer e) \<and> m_type b = t \<and> block_value b = v"
proof -
  have e: "enc_begin e \<le> enc_end e" "enc_end e \<le> length (enc_buffer e)"
      "range_of (enc_buffer e) (enc_begin e) (enc_end e) = tlv t v"
    using assms(1) by (simp_all add: enc_rep_def)
  have r: "readHeader (range_of (enc_buffer e) (enc_begin e) (enc_end e)) = Inr (t, word_of_nat (length v), v)"
    using e(3) by simp
  note at = block_at_ok [OF assms(2) e(1,2) r refl]
  have "Encoder_block e True = Inr (block_at (enc_buffer e) t (enc_begin e) (enc_end e - length v) (enc_end e))"
    using r by (simp add: Encoder_block_def Block_range_def block_at_def)
  then show ?thesis using at e(3) by (auto simp: block_at_def elem_of_def)
qed

lemma Encoder_block_elem:
  assumes "enc_rep e (tlv t v)"
  shows "\<exists>b. Encoder_block e True = Inr b \<and> wire b = Inr (tlv t v) \<and> elem_of b = (t, v) \<and> value_size b = length v"
proof -
  have e: "enc_begin e \<le> enc_end e" "enc_end e \<le> length (enc_buffer e)"
      "range_of (enc_buffer e) (enc_begin e) (enc_end e) = tlv t v"
    using assms by (simp_all add: enc_rep_def)
  have r: "readHeader (range_of (enc_buffer e) (enc_begin e) (enc_end e)) = Inr (t, word_of_nat (length v), v)"
    using e(3) by simp
  have "Encoder_block e True = Inr (block_at (enc_buffer e) t (enc_begin e) (enc_end e - length v) (enc_end e))"
    using r by (simp add: Encoder_block_def Block_range_def block_at_def)
  then show ?thesis using block_at_elem [OF e(1,2) r] e(3) by auto
qed

text \<open>
  What the functions \<open>makeSomethingBlock\<close> have in common: the size is estimated, an encoder with exactly
  that room encodes, and the block is made of its buffer.
\<close>

definition make_block ::
  "(unit \<Rightarrow> (nat \<times> unit) result) \<Rightarrow> (encoder \<Rightarrow> (nat \<times> encoder) result) \<Rightarrow> block result" where
  "make_block est enc =
     bindE (est ()) (\<lambda>(totalLength, _).
     bindE (enc (Encoder_init totalLength 0)) (\<lambda>(_, e). Encoder_block e True))"

lemma make_block_buffer:
  assumes "emits est_rep est (tlv t v)" and "\<And>cap. emits (enc_exact cap) enc (tlv t v)"
  shows "make_block est enc = Block_buffer (tlv t v)"
proof -
  let ?n = "length (tlv t v)"
  have est: "est () = Inr (?n, ())" using emitsD [OF assms(1), of "()" "[]"] by (simp add: est_rep_def)
  obtain e where e: "enc (Encoder_init ?n 0) = Inr (?n, e)" "enc_exact ?n e (tlv t v)"
    using emitsD [OF assms(2) Encoder_init_exact, of ?n] by auto
  then have r: "range_of (enc_buffer e) (enc_begin e) ?n = tlv t v" "enc_begin e \<le> ?n"
      "length (enc_buffer e) = ?n" "enc_end e = ?n"
    by (auto simp: enc_exact_def enc_rep_def)
  then have "?n = ?n - enc_begin e" using range_of_length [of ?n "enc_buffer e" "enc_begin e"] by simp
  moreover have "0 < ?n" by simp
  ultimately have b: "enc_begin e = 0" using r(2) by linarith
  then have "enc_buffer e = tlv t v" using r(1,3) range_of_full [of "enc_buffer e"] by metis
  then show ?thesis using est e(1) r(4) b by (simp add: make_block_def Encoder_block_def Block_buffer_def)
qed

lemma make_block_tlv:
  assumes "emits est_rep est (tlv t v)" and "\<And>cap. emits (enc_exact cap) enc (tlv t v)" and "fits (tlv t v)"
  shows "\<exists>b. make_block est enc = Inr b \<and> block_ok b \<and> wire b = Inr (tlv t v) \<and> elem_of b = (t, v)
    \<and> m_subBlocks b = [] \<and> m_buffer b = Some (tlv t v) \<and> m_type b = t \<and> block_value b = v"
proof -
  let ?e = "\<lparr>enc_buffer = tlv t v, enc_begin = 0, enc_end = length (tlv t v)\<rparr>"
  have "Block_buffer (tlv t v) = Encoder_block ?e True" by (simp add: Encoder_block_def Block_buffer_def)
  moreover have "enc_rep ?e (tlv t v)" by (simp add: enc_rep_def)
  ultimately show ?thesis using Encoder_block_tlv [of ?e t v] assms(3) make_block_buffer [OF assms(1,2)] by simp
qed

end
