(* ===== verification/BlockHelpers.thy ===== *)
theory BlockHelpers
  imports Encoding
begin

text \<open>
  \<open>encoding/block-helpers.cpp\<close> and \<open>block-helpers.hpp\<close> of ndn-cxx: elements that hold one integer,
  nothing, a string, binary data or an object; and \<open>Block::fromStream\<close>, which is built on them.
\<close>

section \<open>Encoding functions\<close>

definition prependNonNegativeIntegerBlock ::
  "'e encoding_impl \<Rightarrow> 32 word \<Rightarrow> 64 word \<Rightarrow> 'e \<Rightarrow> (nat \<times> 'e) result" where
  "prependNonNegativeIntegerBlock T type n = with_header T type (prependNonNegativeInteger T n)"

definition makeNonNegativeIntegerBlock :: "32 word \<Rightarrow> 64 word \<Rightarrow> block result" where
  "makeNonNegativeIntegerBlock type n =
     make_block (prependNonNegativeIntegerBlock EstimatorTag type n) (prependNonNegativeIntegerBlock EncoderTag type n)"

definition readNonNegativeInteger_block :: "block \<Rightarrow> 64 word result" where
  "readNonNegativeInteger_block b =
     bindE (Tlv.readNonNegativeInteger (value_size b) (block_value b)) (\<lambda>(n, _). Inr n)"

definition prependEmptyBlock :: "'e encoding_impl \<Rightarrow> 32 word \<Rightarrow> 'e \<Rightarrow> (nat \<times> 'e) result" where
  "prependEmptyBlock T type = addE (prependVarNumber T 0) (prependVarNumber T (ucast type))"

definition makeEmptyBlock :: "32 word \<Rightarrow> block result" where
  "makeEmptyBlock type = make_block (prependEmptyBlock EstimatorTag type) (prependEmptyBlock EncoderTag type)"

definition prependStringBlock :: "'e encoding_impl \<Rightarrow> 32 word \<Rightarrow> bytes \<Rightarrow> 'e \<Rightarrow> (nat \<times> 'e) result" where
  "prependStringBlock T type s = with_header T type (prependByteArray T s)"

definition makeStringBlock :: "32 word \<Rightarrow> bytes \<Rightarrow> block result" where
  "makeStringBlock type s = make_block (prependStringBlock EstimatorTag type s) (prependStringBlock EncoderTag type s)"

definition readString :: "block \<Rightarrow> bytes" where
  "readString b = take (value_size b) (block_value b)"

definition makeBinaryBlock :: "32 word \<Rightarrow> bytes \<Rightarrow> block result" where
  "makeBinaryBlock type v =
     make_block (prependByteArrayBlock EstimatorTag type v) (prependByteArrayBlock EncoderTag type v)"

text \<open>
  From a pair of iterators: with random access the size is known in advance, without it the value is
  appended to a small buffer first.
\<close>

definition DataBlockFast :: "32 word \<Rightarrow> bytes \<Rightarrow> block result" where
  "DataBlockFast type v =
     (let totalLength = length v + Estimator_prependVarNumber (word_of_nat (length v))
        + Estimator_prependVarNumber (ucast type) in
      bindE (Encoder_prependByteArray v (Encoder_init totalLength 0)) (\<lambda>(_, e).
      bindE (Encoder_prependVarNumber (word_of_nat (length v)) e) (\<lambda>(_, e).
      bindE (Encoder_prependVarNumber (ucast type) e) (\<lambda>(_, e). Encoder_block e True))))"

definition DataBlockSlow :: "32 word \<Rightarrow> bytes \<Rightarrow> block result" where
  "DataBlockSlow type v =
     bindE (Encoder_appendByteArray v (Encoder_init 4 4)) (\<lambda>(valueLength, e).
     bindE (Encoder_prependVarNumber (word_of_nat valueLength) e) (\<lambda>(_, e).
     bindE (Encoder_prependVarNumber (ucast type) e) (\<lambda>(_, e). Encoder_block e True)))"

text \<open>An object that encodes itself, inside an element.\<close>

definition prependNestedBlock ::
  "'e encoding_impl \<Rightarrow> 32 word \<Rightarrow> ('e \<Rightarrow> (nat \<times> 'e) result) \<Rightarrow> 'e \<Rightarrow> (nat \<times> 'e) result" where
  "prependNestedBlock T type wireEncode = with_header T type wireEncode"

definition makeNestedBlock ::
  "32 word \<Rightarrow> (unit \<Rightarrow> (nat \<times> unit) result) \<Rightarrow> (encoder \<Rightarrow> (nat \<times> encoder) result) \<Rightarrow> block result" where
  "makeNestedBlock type estimate wireEncode =
     make_block (prependNestedBlock EstimatorTag type estimate) (prependNestedBlock EncoderTag type wireEncode)"


section \<open>Reading a block from a stream\<close>

definition MAX_SIZE_OF_BLOCK_FROM_STREAM :: nat where "MAX_SIZE_OF_BLOCK_FROM_STREAM = 8800"

text \<open>
  The result is the block and what is left in the stream. An \<open>istream_iterator\<close> has taken the byte it
  points to from the stream already: behind the header the stream holds the rest without its first byte.
\<close>

definition fromStream :: "bytes \<Rightarrow> (block \<times> bytes) result" where
  "fromStream is =
     bindE (readType_stream is) (\<lambda>(type, r).
     bindE (readVarNumber_stream r) (\<lambda>(len, begin).
       if len = 0 then bindE (makeEmptyBlock type) (\<lambda>b. Inr (b, drop 1 begin))
       else if unat len > MAX_SIZE_OF_BLOCK_FROM_STREAM
       then Inl (TlvError ''Length of block from stream is too large'')
       else case begin of
         [] \<Rightarrow> Inl (UndefinedBehaviour ''end-of-stream iterator'')
       | b0 # stream \<Rightarrow>
           let got = take (unat len - 1) stream in
           if unat len \<noteq> length got + 1
           then Inl (TlvError ''Not enough data in the buffer to fully parse TLV'')
           else bindE (makeBinaryBlock type (b0 # got)) (\<lambda>b. Inr (b, drop (unat len - 1) stream))))"


section \<open>What they write\<close>

text \<open>The functions written against the interface, in every implementation of it.\<close>

context prepender
begin

lemma prepend_nni_block: "emits R (prependNonNegativeIntegerBlock T t n) (tlv t (nni n))"
  unfolding prependNonNegativeIntegerBlock_def by (intro prepend_header prepends)

lemma prepend_empty_block: "emits R (prependEmptyBlock T t) (tlv t [])"
  unfolding prependEmptyBlock_def using emits_addE [OF prepend_var prepend_type, of 0 t] by (simp add: tlv_def)

lemma prepend_string_block: "emits R (prependStringBlock T t v) (tlv t v)"
  unfolding prependStringBlock_def by (intro prepend_header prepends)

lemma prepend_nested_block: "emits R f v \<Longrightarrow> emits R (prependNestedBlock T t f) (tlv t v)"
  unfolding prependNestedBlock_def by (rule prepend_header)

end

lemma fits_small: "length v < 2 ^ 63 \<Longrightarrow> fits (tlv t v)"
  by (simp add: fits_def length_tlv sizeOfType_def sizeOfVarNumber_def)

lemma nni_small [simp]: "fits (tlv t (nni n))"
  using nni_length [of n] by (intro fits_small) auto

lemma makeNNI_block:
  "\<exists>b. makeNonNegativeIntegerBlock t n = Inr b \<and> block_ok b \<and> wire b = Inr (tlv t (nni n)) \<and> elem_of b = (t, nni n)
     \<and> m_subBlocks b = [] \<and> m_buffer b = Some (tlv t (nni n)) \<and> m_type b = t \<and> block_value b = nni n"
  unfolding makeNonNegativeIntegerBlock_def
  by (intro make_block_tlv est.prepend_nni_block enc_exact.prepend_nni_block nni_small)

lemma makeBinary_block:
  assumes "fits (tlv t v)"
  shows "\<exists>b. makeBinaryBlock t v = Inr b \<and> block_ok b \<and> wire b = Inr (tlv t v) \<and> elem_of b = (t, v)
     \<and> m_subBlocks b = [] \<and> m_buffer b = Some (tlv t v) \<and> m_type b = t \<and> block_value b = v"
  unfolding makeBinaryBlock_def
  by (intro make_block_tlv est.prepend_array_block enc_exact.prepend_array_block assms)

lemma makeString_block:
  assumes "fits (tlv t v)"
  shows "\<exists>b. makeStringBlock t v = Inr b \<and> block_ok b \<and> wire b = Inr (tlv t v) \<and> elem_of b = (t, v)
     \<and> m_subBlocks b = [] \<and> m_buffer b = Some (tlv t v) \<and> m_type b = t \<and> block_value b = v"
  unfolding makeStringBlock_def
  by (intro make_block_tlv est.prepend_string_block enc_exact.prepend_string_block assms)

lemma makeEmpty_block:
  "\<exists>b. makeEmptyBlock t = Inr b \<and> block_ok b \<and> wire b = Inr (tlv t []) \<and> elem_of b = (t, [])
     \<and> m_subBlocks b = [] \<and> m_buffer b = Some (tlv t []) \<and> m_type b = t \<and> block_value b = []"
  unfolding makeEmptyBlock_def
  by (intro make_block_tlv est.prepend_empty_block enc_exact.prepend_empty_block fits_small) simp

lemma read_block_nni:
  "block_ok b \<Longrightarrow> block_value b = nni n \<Longrightarrow> readNonNegativeInteger_block b = Inr n"
  using read_value_nni [of n] block_value_length [of b]
  by (simp add: readNonNegativeInteger_block_def read_value_def)

text \<open>
  An element that holds an integer: \<open>makeNonNegativeIntegerBlock\<close> always returns a well-formed
  block, in a buffer of exactly its size, and the integer is read back from it.
\<close>

theorem nonNegativeIntegerBlock_roundtrip:
  "\<exists>b. makeNonNegativeIntegerBlock t n = Inr b \<and> block_ok b \<and> wire b = Inr (tlv t (nni n))
     \<and> m_buffer b = Some (tlv t (nni n)) \<and> readNonNegativeInteger_block b = Inr n"
proof -
  obtain b where "makeNonNegativeIntegerBlock t n = Inr b" "block_ok b" "wire b = Inr (tlv t (nni n))"
      "m_buffer b = Some (tlv t (nni n))" "block_value b = nni n"
    using makeNNI_block by blast
  then show ?thesis using read_block_nni by blast
qed

text \<open>The slow way: the value is appended, the header is put in front.\<close>

lemma slow_block: "\<exists>b. DataBlockSlow t v = Inr b \<and> wire b = Inr (tlv t v) \<and> elem_of b = (t, v)"
proof -
  obtain e1 where e1: "Encoder_appendByteArray v (Encoder_init 4 4) = Inr (length v, e1)" "enc_rep e1 v"
    using appendByteArray_rep [OF Encoder_init_rep, of v 4 4] by auto
  have var: "emits enc_rep (Encoder_prependVarNumber m) (varnum m)" for m
    using enc.prepend_var [of m] by (simp add: EncoderTag_def)
  obtain e2 where e2: "Encoder_prependVarNumber (word_of_nat (length v)) e1 = Inr (length (varnum (word_of_nat (length v))), e2)"
      "enc_rep e2 (varnum (word_of_nat (length v)) @ v)"
    using emitsD [OF var e1(2)] by blast
  obtain e3 where e3: "Encoder_prependVarNumber (ucast t) e2 = Inr (length (varnum (ucast t)), e3)"
      "enc_rep e3 (varnum (ucast t) @ varnum (word_of_nat (length v)) @ v)"
    using emitsD [OF var e2(2)] by blast
  then have "enc_rep e3 (tlv t v)" by (simp add: tlv_def vartype_def)
  from Encoder_block_elem [OF this] show ?thesis using e1 e2 e3 by (auto simp: DataBlockSlow_def)
qed

lemma fast_block: "DataBlockFast t v = makeBinaryBlock t v"
proof -
  have "emits est_rep (prependByteArrayBlock EstimatorTag t v) (tlv t v)" by (rule est.prepend_array_block)
  have est: "prependByteArrayBlock EstimatorTag t v () = Inr (length v + Estimator_prependVarNumber (word_of_nat (length v))
      + Estimator_prependVarNumber (ucast t), ())"
    by (simp add: EstimatorTag_def Estimator_prependByteArrayBlock_def)
  have enc: "bindE (prependByteArrayBlock EncoderTag t v e) (\<lambda>(_, e). Encoder_block e True)
      = bindE (Encoder_prependByteArray v e) (\<lambda>(_, e).
        bindE (Encoder_prependVarNumber (word_of_nat (length v)) e) (\<lambda>(_, e).
        bindE (Encoder_prependVarNumber (ucast t) e) (\<lambda>(_, e). Encoder_block e True)))" for e
    by (auto simp: EncoderTag_def Encoder_prependByteArrayBlock_def addE_def bindE_assoc split: prod.splits
        intro!: bindE_const)
  show ?thesis by (simp add: DataBlockFast_def makeBinaryBlock_def make_block_def est enc Let_def)
qed

text \<open>
  Binary data: the three ways to make an element of it, and \<open>makeStringBlock\<close>, give elements with
  the same bytes; the string is read back.
\<close>

theorem binaryBlock_ways:
  assumes "fits (tlv t v)"
  shows "\<exists>b s. makeBinaryBlock t v = Inr b \<and> DataBlockFast t v = Inr b \<and> makeStringBlock t v = Inr b
    \<and> DataBlockSlow t v = Inr s \<and> wire b = Inr (tlv t v) \<and> wire s = Inr (tlv t v)
    \<and> readString b = v"
proof -
  obtain b where b: "makeBinaryBlock t v = Inr b" "wire b = Inr (tlv t v)" "block_ok b" "block_value b = v"
    using makeBinary_block [OF assms] by blast
  have "makeStringBlock t v = Block_buffer (tlv t v)"
    unfolding makeStringBlock_def
    by (intro make_block_buffer est.prepend_string_block enc_exact.prepend_string_block)
  moreover have "makeBinaryBlock t v = Block_buffer (tlv t v)"
    unfolding makeBinaryBlock_def
    by (intro make_block_buffer est.prepend_array_block enc_exact.prepend_array_block)
  moreover have "readString b = v" using b block_value_length [OF b(3)] by (simp add: readString_def)
  ultimately show ?thesis using b fast_block slow_block [of t v] by metis
qed

theorem binaryBlock_ways_witness:
  "\<exists>b s. makeBinaryBlock 8 [1, 2] = Inr b \<and> DataBlockFast 8 [1, 2] = Inr b \<and> makeStringBlock 8 [1, 2] = Inr b
    \<and> DataBlockSlow 8 [1, 2] = Inr s \<and> wire b = Inr (tlv 8 [1, 2]) \<and> wire s = Inr (tlv 8 [1, 2])
    \<and> readString b = [1, 2]"
  by (rule binaryBlock_ways) (simp add: fits_small)


text \<open>
  The estimator and the encoder agree on every operation that takes a block, at both ends: the
  number announced is the number of bytes written, and they are the bytes of the block. (The other
  operations of the interface are covered by the two interpretations of its contract.)
\<close>

theorem estimator_announces:
  assumes "enc_rep e c" and "block_ok bl" and "length (element_bytes bl) < 2 ^ 32"
  shows "\<exists>e1 e2 n. prependBlock EncoderTag bl e = Inr (n, e1) \<and> prependBlock EstimatorTag bl () = Inr (n, ())
    \<and> enc_rep e1 (element_bytes bl @ c)
    \<and> appendBlock EncoderTag bl e = Inr (n, e2) \<and> appendBlock EstimatorTag bl () = Inr (n, ())
    \<and> enc_rep e2 (c @ element_bytes bl)"
  using emitsD [OF enc.prepend_block [OF assms(2,3)] assms(1)]
    emitsD [OF est.prepend_block [OF assms(2,3)], of "()" "[]"]
    emits_backD [OF enc.append_block [OF assms(2,3)] assms(1)]
    emits_backD [OF est.append_block [OF assms(2,3)], of "()" "[]"]
  by (auto simp: est_rep_def)

theorem estimator_announces_witness:
  "\<exists>e1 e2 n. prependBlock EncoderTag demo_block (Encoder_init 3 1) = Inr (n, e1)
    \<and> prependBlock EstimatorTag demo_block () = Inr (n, ()) \<and> enc_rep e1 (element_bytes demo_block @ [])
    \<and> appendBlock EncoderTag demo_block (Encoder_init 3 1) = Inr (n, e2)
    \<and> appendBlock EstimatorTag demo_block () = Inr (n, ()) \<and> enc_rep e2 ([] @ element_bytes demo_block)"
  by (rule estimator_announces [OF Encoder_init_rep demo_block_ok])
    (simp add: element_bytes_def wire_def hasWire_def demo_block_def range_of_def)

text \<open>
  Two parts of the library disagree on the size of an integer: for the values 253 to 255, and no
  others, \<open>tlv::sizeOfNonNegativeInteger\<close> and \<open>tlv::writeNonNegativeInteger\<close> use two bytes where the
  encoder writes one.
\<close>

theorem nonNegativeInteger_sizes:
  "(sizeOfNonNegativeInteger n = Estimator_prependNonNegativeInteger n \<longleftrightarrow> unat n < 253 \<or> 255 < unat n)
   \<and> sizeOfNonNegativeInteger n - Estimator_prependNonNegativeInteger n \<le> 1
   \<and> length (nonneg n) = sizeOfNonNegativeInteger n \<and> length (nni n) = Estimator_prependNonNegativeInteger n"
  using unat64_bounds [of n]
  by (auto simp: sizeOfNonNegativeInteger_def Estimator_prependNonNegativeInteger_def estimator_nni [symmetric])


section \<open>Streams\<close>

lemma stream_header:
  "bindE (readType_stream (tlv t v @ rest)) (\<lambda>(u, r). bindE (readVarNumber_stream r) (\<lambda>(n, q). f u n q))
   = f t (word_of_nat (length v)) (v @ rest)"
  by (simp add: tlv_def readType_stream_eq readVarNumber_stream_eq)

lemma fromStream_header:
  "fromStream (tlv t v @ rest) =
     (if (word_of_nat (length v) :: 64 word) = 0 then bindE (makeEmptyBlock t) (\<lambda>b. Inr (b, drop 1 (v @ rest)))
      else if unat (word_of_nat (length v) :: 64 word) > MAX_SIZE_OF_BLOCK_FROM_STREAM
      then Inl (TlvError ''Length of block from stream is too large'')
      else case v @ rest of
         [] \<Rightarrow> Inl (UndefinedBehaviour ''end-of-stream iterator'')
       | b0 # stream \<Rightarrow>
           let len = unat (word_of_nat (length v) :: 64 word); got = take (len - 1) stream in
           if len \<noteq> length got + 1
           then Inl (TlvError ''Not enough data in the buffer to fully parse TLV'')
           else bindE (makeBinaryBlock t (b0 # got)) (\<lambda>b. Inr (b, drop (len - 1) stream)))"
  unfolding fromStream_def by (subst stream_header) (simp only: Let_def)

text \<open>
  A block with a value is read from a stream as it was written, and the stream is left at the byte
  behind it.
\<close>

theorem fromStream_block:
  assumes "v \<noteq> []" and "length v \<le> 8800"
  shows "\<exists>b. fromStream (tlv t v @ rest) = Inr (b, rest) \<and> block_ok b \<and> elem_of b = (t, v) \<and> wire b = Inr (tlv t v)"
proof -
  obtain b0 v' where v: "v = b0 # v'" using assms(1) by (cases v) auto
  have n: "unat (word_of_nat (length v) :: 64 word) = length v" using assms(2) by (intro fits_unat) (simp add: fits_def)
  then have "(word_of_nat (length v) :: 64 word) \<noteq> 0" using v by (metis length_0_conv list.distinct(1) unat_0)
  obtain b where b: "makeBinaryBlock t v = Inr b" "block_ok b" "wire b = Inr (tlv t v)" "elem_of b = (t, v)"
    using makeBinary_block [of t v] fits_small [of v t] assms(2) by auto
  have "fromStream (tlv t v @ rest) = Inr (b, rest)"
    unfolding fromStream_header n using \<open>_ \<noteq> 0\<close> assms(2) v b(1)
    by (simp add: MAX_SIZE_OF_BLOCK_FROM_STREAM_def Let_def)
  then show ?thesis using b by blast
qed

theorem fromStream_block_witness:
  "\<exists>b. fromStream (tlv 8 [97] @ [1, 2]) = Inr (b, [1, 2]) \<and> block_ok b \<and> elem_of b = (8, [97])
     \<and> wire b = Inr (tlv 8 [97])"
  by (rule fromStream_block) simp_all

text \<open>
  An empty element is read as an empty block, but the byte behind it is lost from the stream: it has
  been taken by the iterator. Whatever is read next starts one byte too late.
\<close>

theorem fromStream_empty:
  "\<exists>b. fromStream (tlv t [] @ x # rest) = Inr (b, rest) \<and> elem_of b = (t, []) \<and> wire b = Inr (tlv t [])"
proof -
  obtain b where "makeEmptyBlock t = Inr b" "elem_of b = (t, [])" "wire b = Inr (tlv t [])"
    using makeEmpty_block by blast
  then show ?thesis unfolding fromStream_header by simp
qed

text \<open>
  A stream that ends right behind the header of an element with a value makes \<open>fromStream\<close>
  dereference the end-of-stream iterator.
\<close>

theorem fromStream_truncated:
  assumes "readHeader h = Inr (t, len, [])" and "len \<noteq> 0" and "unat len \<le> 8800"
  shows "fromStream h = Inl (UndefinedBehaviour ''end-of-stream iterator'')"
proof -
  obtain r where "readType h = Inr (t, r)" "readVarNumber r = Inr (len, [])"
    using assms(1) by (auto simp: readHeader_def bindE_Inr_conv)
  then show ?thesis using assms(2,3)
    by (simp add: fromStream_def readVarNumber_stream_eq readType_stream_eq
        MAX_SIZE_OF_BLOCK_FROM_STREAM_def)
qed

theorem fromStream_truncated_witness:
  "fromStream [8, 1] = Inl (UndefinedBehaviour ''end-of-stream iterator'')"
  by (rule fromStream_truncated [where t = 8 and len = 1])
    (simp_all add: readHeader_def readType_def readVarNumber_def)

end
