(* ===== verification/StringHelper.thy ===== *)
theory StringHelper
  imports Prelude
begin

unbundle bit_operations_syntax

text \<open>
  \<open>util/string-helper.cpp\<close> of ndn-cxx: hexadecimal and percent encoding. A \<open>std::string\<close> that may hold
  any byte is a list of bytes; a string literal is such a list by \<open>str\<close>. The hex decoder of the
  CryptoPP library is the parameter \<open>hexDecoder\<close>.
\<close>

definition str :: "string \<Rightarrow> bytes" where
  "str s = map (\<lambda>c. word_of_nat (of_char c)) s"

section \<open>The functions\<close>

definition hex_digit :: "bool \<Rightarrow> nat \<Rightarrow> byte" where
  "hex_digit isUpperCase n = word_of_nat (if n < 10 then 48 + n else if isUpperCase then 55 + n else 87 + n)"

definition printHex :: "bytes \<Rightarrow> bytes \<Rightarrow> bool \<Rightarrow> bytes" where
  "printHex os buffer isUpperCase =
     os @ concat (map (\<lambda>b. [hex_digit isUpperCase (unat b div 16), hex_digit isUpperCase (unat b mod 16)]) buffer)"

definition toHex :: "bytes \<Rightarrow> bool \<Rightarrow> bytes" where
  "toHex buffer isUpperCase = (if buffer = [] then [] else printHex [] buffer isUpperCase)"

definition fromHexChar :: "byte \<Rightarrow> int" where
  "fromHexChar c =
     (if 48 \<le> c \<and> c \<le> 57 then uint c - 48
      else if 65 \<le> c \<and> c \<le> 70 then uint c - 65 + 10
      else if 97 \<le> c \<and> c \<le> 102 then uint c - 97 + 10
      else - 1)"

definition fromHex :: "(bytes \<Rightarrow> bytes) \<Rightarrow> bytes \<Rightarrow> bytes result" where
  "fromHex hexDecoder hexString =
     (if length hexString mod 2 \<noteq> 0
      then Inl (StringHelperError ''Invalid number of characters in the supplied hex string'')
      else
        let buffer = hexDecoder hexString in
        if length buffer * 2 \<noteq> length hexString
        then Inl (StringHelperError ''The supplied hex string contains non-hex characters'')
        else Inr buffer)"

definition isspace :: "byte \<Rightarrow> bool" where
  "isspace c \<longleftrightarrow> c = 32 \<or> (9 \<le> c \<and> c \<le> 13)"

definition trimLeft :: "bytes \<Rightarrow> bytes" where "trimLeft s = dropWhile isspace s"
definition trimRight :: "bytes \<Rightarrow> bytes" where "trimRight s = rev (dropWhile isspace (rev s))"
definition trim :: "bytes \<Rightarrow> bytes" where "trim s = trimLeft (trimRight s)"

text \<open>An invalid escape is copied with the two characters behind it.\<close>

fun unescape :: "bytes \<Rightarrow> bytes" where
  "unescape (c # x # y # rest) =
     (if c = 37 then
        let hi = fromHexChar x; lo = fromHexChar y in
        (if hi < 0 \<or> lo < 0 then [c, x, y] else [word_of_int (push_bit 4 hi OR lo)]) @ unescape rest
      else c # unescape (x # y # rest))"
| "unescape (c # rest) = c # unescape rest"
| "unescape [] = []"


section \<open>Digits\<close>

lemma bytes_all: "(\<forall>n<256. P (word_of_nat n :: byte)) \<Longrightarrow> P b"
proof -
  assume "\<forall>n<256. P (word_of_nat n :: byte)"
  then have "P (word_of_nat (unat b))" using unat_byte_bound by blast
  then show ?thesis by simp
qed

lemma byte_split: "(unat b div 16) * 16 + unat b mod 16 = unat b" "unat (b :: byte) div 16 < 16"
  using unat_byte_bound [of b] by (simp_all add: less_mult_imp_div_less)

lemma fromHexChar_digit: "n < 16 \<Longrightarrow> fromHexChar (hex_digit u n) = int n"
proof -
  assume "n < 16"
  then have "unat (hex_digit u n) = (if n < 10 then 48 + n else if u then 55 + n else 87 + n)"
    by (simp add: hex_digit_def unat_of_nat)
  then show ?thesis using \<open>n < 16\<close>
    by (cases u; cases "n < 10") (simp_all add: fromHexChar_def word_le_nat_alt uint_nat del: of_nat_unat)
qed

lemma nibbles: "n < 16 \<Longrightarrow> m < 16 \<Longrightarrow> push_bit 4 (int n) OR int m = int (n * 16 + m)"
proof -
  assume "n < 16" "m < 16"
  have "int m AND push_bit 4 (int n) = take_bit 4 (int m) AND push_bit 4 (int n)"
    using \<open>m < 16\<close> by (simp add: take_bit_eq_mod)
  also have "\<dots> = 0" by (rule bit_eqI) (auto simp: bit_simps)
  finally have "push_bit 4 (int n) + int m = push_bit 4 (int n) OR int m"
    by (subst disjunctive_add_eq_or) (simp_all add: and.commute)
  then show ?thesis by (simp add: push_bit_eq_mult)
qed

lemma unescape_byte:
  "unescape ([37, hex_digit u (unat b div 16), hex_digit u (unat b mod 16)] @ rest) = b # unescape rest"
proof -
  have "word_of_int (push_bit 4 (int (unat b div 16)) OR int (unat b mod 16)) = b"
    using nibbles [OF byte_split(2) [of b], of "unat b mod 16"] byte_split(1) [of b]
    by (simp del: of_nat_add of_nat_mult)
  then show ?thesis by (simp add: fromHexChar_digit byte_split Let_def)
qed

lemma unescape_plain: "c \<noteq> 37 \<Longrightarrow> unescape (c # rest) = c # unescape rest"
  by (cases rest rule: unescape.cases) auto


section \<open>Invalid escapes\<close>

text \<open>
  A percent sign that is not followed by two hex characters: it is kept, but so are the two
  characters behind it, even when a valid escape starts there. The string \<open>%%41\<close> is not changed at all,
  where the documentation promises that only the first percent sign is left as it is.
\<close>

theorem unescape_skips:
  "unescape (37 # 37 # x # rest) = 37 # 37 # x # unescape rest \<and> unescape (str ''%%41'') = str ''%%41''
   \<and> unescape (str ''%41'') = str ''A''"
  by (simp add: fromHexChar_def str_def)

end
