(* ===== verification/Component.thy ===== *)
theory Component
  imports BlockHelpers StringHelper
begin

text \<open>
  \<open>name-component.cpp\<close> of ndn-cxx: the components of names. \<open>Component\<close> has no fields of its own, so a
  component is a \<open>block\<close>. A function that makes a component from a block may throw, because the
  constructor checks the type.
\<close>

section \<open>Construction\<close>

definition tlv_NameComponent :: "32 word" where "tlv_NameComponent = 8"
definition tlv_ImplicitSha256DigestComponent :: "32 word" where "tlv_ImplicitSha256DigestComponent = 1"
definition SHA256_DIGEST_SIZE :: nat where "SHA256_DIGEST_SIZE = 32"

definition isGeneric :: "block \<Rightarrow> bool" where
  "isGeneric c \<longleftrightarrow> m_type c = tlv_NameComponent"

definition isImplicitSha256Digest :: "block \<Rightarrow> bool" where
  "isImplicitSha256Digest c \<longleftrightarrow>
     m_type c = tlv_ImplicitSha256DigestComponent \<and> value_size c = SHA256_DIGEST_SIZE"

definition Component_new :: block where
  "Component_new = Block_type tlv_NameComponent"

definition Component_of_block :: "block \<Rightarrow> block result" where
  "Component_of_block b =
     (if \<not> isGeneric b \<and> \<not> isImplicitSha256Digest b
      then Inl (ComponentError ''Cannot construct name::Component from not a NameComponent or ImplicitSha256DigestComponent TLV wire block'')
      else Inr b)"

definition Component_of_buffer :: "bytes \<Rightarrow> block" where
  "Component_of_buffer buffer = Block_value tlv_NameComponent buffer"

definition Component_of_value :: "bytes \<Rightarrow> block result" where
  "Component_of_value v = makeBinaryBlock tlv_NameComponent v"

definition Component_of_string :: "bytes \<Rightarrow> block result" where
  "Component_of_string s = makeStringBlock tlv_NameComponent s"

definition fromImplicitSha256Digest_buffer :: "bytes \<Rightarrow> block result" where
  "fromImplicitSha256Digest_buffer digest =
     (if length digest \<noteq> SHA256_DIGEST_SIZE
      then Inl (ComponentError ''Cannot create ImplicitSha256DigestComponent (input digest must be 32 octets)'')
      else Component_of_block (Block_value tlv_ImplicitSha256DigestComponent digest))"

definition fromImplicitSha256Digest :: "bytes \<Rightarrow> block result" where
  "fromImplicitSha256Digest digest =
     (if length digest \<noteq> SHA256_DIGEST_SIZE
      then Inl (ComponentError ''Cannot create ImplicitSha256DigestComponent (input digest must be 32 octets)'')
      else bindE (makeBinaryBlock tlv_ImplicitSha256DigestComponent digest) Component_of_block)"


section \<open>URI format\<close>

definition sha256Prefix :: bytes where "sha256Prefix = str ''sha256digest=''"

definition plain :: "byte \<Rightarrow> bool" where
  "plain x \<longleftrightarrow> (48 \<le> x \<and> x \<le> 57) \<or> (65 \<le> x \<and> x \<le> 90) \<or> (97 \<le> x \<and> x \<le> 122)
     \<or> x = 43 \<or> x = 45 \<or> x = 46 \<or> x = 95"

text \<open>A byte in upper case hexadecimal, as \<open>operator<<\<close> prints it: without leading zeros.\<close>

definition hex_number :: "byte \<Rightarrow> bytes" where
  "hex_number x = (if unat x < 16 then [hex_digit True (unat x)]
     else [hex_digit True (unat x div 16), hex_digit True (unat x mod 16)])"

definition escape_byte :: "byte \<Rightarrow> bytes" where
  "escape_byte x =
     (if plain x then [x] else [37] @ (if x < 16 then [48] else []) @ hex_number x)"

definition Component_toUri :: "block \<Rightarrow> bytes" where
  "Component_toUri c =
     (if m_type c = tlv_ImplicitSha256DigestComponent
      then sha256Prefix @ printHex [] (block_value c) False
      else if \<not> list_ex (\<lambda>x. x \<noteq> 46) (block_value c) then [46, 46, 46] @ replicate (value_size c) 46
      else concat (map escape_byte (block_value c)))"

text \<open>The string between the two offsets is the argument.\<close>

definition fromEscapedString :: "(bytes \<Rightarrow> bytes) \<Rightarrow> bytes \<Rightarrow> block result" where
  "fromEscapedString hexDecoder escaped =
     (let t = trim escaped in
      if take (length sha256Prefix) t = sha256Prefix then
        if length t \<noteq> length sha256Prefix + SHA256_DIGEST_SIZE * 2
        then Inl (ComponentError ''Cannot convert to ImplicitSha256DigestComponent(expected sha256 in hex encoding)'')
        else
          (case fromHex hexDecoder (drop (length sha256Prefix) t) of
             Inl (StringHelperError _) \<Rightarrow>
               Inl (ComponentError ''Cannot convert to a ImplicitSha256DigestComponent (invalid hex encoding)'')
           | Inl e \<Rightarrow> Inl e
           | Inr digest \<Rightarrow> fromImplicitSha256Digest_buffer digest)
      else
        let v = unescape t in
        if \<not> list_ex (\<lambda>x. x \<noteq> 46) v then
          if length v \<le> 2 then Inl (ComponentError ''Illegal URI (name component cannot be . or ..)'')
          else Component_of_value (drop 3 v)
        else Component_of_value v)"


section \<open>Numbers\<close>

definition SEGMENT_MARKER :: byte where "SEGMENT_MARKER = 0x00"
definition SEGMENT_OFFSET_MARKER :: byte where "SEGMENT_OFFSET_MARKER = 0xFB"
definition VERSION_MARKER :: byte where "VERSION_MARKER = 0xFD"
definition TIMESTAMP_MARKER :: byte where "TIMESTAMP_MARKER = 0xFC"
definition SEQUENCE_NUMBER_MARKER :: byte where "SEQUENCE_NUMBER_MARKER = 0xFE"

definition Component_empty :: "block \<Rightarrow> bool" where
  "Component_empty c \<longleftrightarrow> value_size c = 0"

definition isNumber :: "block \<Rightarrow> bool" where
  "isNumber c \<longleftrightarrow> value_size c = 1 \<or> value_size c = 2 \<or> value_size c = 4 \<or> value_size c = 8"

definition isNumberWithMarker :: "byte \<Rightarrow> block \<Rightarrow> bool" where
  "isNumberWithMarker marker c \<longleftrightarrow> \<not> Component_empty c \<and> block_value c ! 0 = marker
     \<and> (value_size c = 2 \<or> value_size c = 3 \<or> value_size c = 5 \<or> value_size c = 9)"

definition isVersion :: "block \<Rightarrow> bool" where "isVersion = isNumberWithMarker VERSION_MARKER"
definition isSegment :: "block \<Rightarrow> bool" where "isSegment = isNumberWithMarker SEGMENT_MARKER"
definition isSegmentOffset :: "block \<Rightarrow> bool" where "isSegmentOffset = isNumberWithMarker SEGMENT_OFFSET_MARKER"
definition isTimestamp :: "block \<Rightarrow> bool" where "isTimestamp = isNumberWithMarker TIMESTAMP_MARKER"
definition isSequenceNumber :: "block \<Rightarrow> bool" where "isSequenceNumber = isNumberWithMarker SEQUENCE_NUMBER_MARKER"

definition toNumber :: "block \<Rightarrow> 64 word result" where
  "toNumber c =
     (if \<not> isNumber c then Inl (ComponentError ''Name component does not have nonNegativeInteger value'')
      else readNonNegativeInteger_block c)"

definition toNumberWithMarker :: "byte \<Rightarrow> block \<Rightarrow> 64 word result" where
  "toNumberWithMarker marker c =
     (if \<not> isNumberWithMarker marker c
      then Inl (ComponentError ''Name component does not have the requested marker or the value is not a nonNegativeInteger'')
      else bindE (Tlv.readNonNegativeInteger (value_size c - 1) (drop 1 (block_value c))) (\<lambda>(n, _). Inr n))"

definition toVersion :: "block \<Rightarrow> 64 word result" where "toVersion = toNumberWithMarker VERSION_MARKER"
definition toSegment :: "block \<Rightarrow> 64 word result" where "toSegment = toNumberWithMarker SEGMENT_MARKER"
definition toSegmentOffset :: "block \<Rightarrow> 64 word result" where "toSegmentOffset = toNumberWithMarker SEGMENT_OFFSET_MARKER"
definition toSequenceNumber :: "block \<Rightarrow> 64 word result" where "toSequenceNumber = toNumberWithMarker SEQUENCE_NUMBER_MARKER"

definition fromNumber :: "64 word \<Rightarrow> block result" where
  "fromNumber number = bindE (makeNonNegativeIntegerBlock tlv_NameComponent number) Component_of_block"

definition fromNumberWithMarker :: "byte \<Rightarrow> 64 word \<Rightarrow> block result" where
  "fromNumberWithMarker marker number =
     (let valueLength = Estimator_prependNonNegativeInteger number + Estimator_prependByteArray [marker];
          totalLength = valueLength + Estimator_prependVarNumber (word_of_nat valueLength)
            + Estimator_prependVarNumber (ucast tlv_NameComponent) in
      bindE (Encoder_prependNonNegativeInteger number (Encoder_init totalLength 0)) (\<lambda>(_, e).
      bindE (Encoder_prependByteArray [marker] e) (\<lambda>(_, e).
      bindE (Encoder_prependVarNumber (word_of_nat valueLength) e) (\<lambda>(_, e).
      bindE (Encoder_prependVarNumber (ucast tlv_NameComponent) e) (\<lambda>(_, e).
      bindE (Encoder_block e True) Component_of_block)))))"

definition fromVersion :: "64 word \<Rightarrow> block result" where "fromVersion = fromNumberWithMarker VERSION_MARKER"
definition fromSegment :: "64 word \<Rightarrow> block result" where "fromSegment = fromNumberWithMarker SEGMENT_MARKER"
definition fromSegmentOffset :: "64 word \<Rightarrow> block result" where "fromSegmentOffset = fromNumberWithMarker SEGMENT_OFFSET_MARKER"
definition fromSequenceNumber :: "64 word \<Rightarrow> block result" where "fromSequenceNumber = fromNumberWithMarker SEQUENCE_NUMBER_MARKER"

text \<open>A time point is its number of microseconds since the epoch.\<close>

definition fromTimestamp :: "64 word \<Rightarrow> block result" where "fromTimestamp = fromNumberWithMarker TIMESTAMP_MARKER"
definition toTimestamp :: "block \<Rightarrow> 64 word result" where "toTimestamp = toNumberWithMarker TIMESTAMP_MARKER"


section \<open>Comparison\<close>

definition Component_equals :: "block \<Rightarrow> block \<Rightarrow> bool" where
  "Component_equals c d \<longleftrightarrow> m_type c = m_type d \<and> value_size c = value_size d
     \<and> (Component_empty c \<or> block_value c = block_value d)"

text \<open>The sign of \<open>memcmp\<close> is all the code looks at.\<close>

fun memcmp :: "bytes \<Rightarrow> bytes \<Rightarrow> nat \<Rightarrow> int" where
  "memcmp (x # xs) (y # ys) (Suc n) = (if x < y then -1 else if x > y then 1 else memcmp xs ys n)"
| "memcmp _ _ _ = 0"

text \<open>The wires are compared when both components have one; differences are converted to \<open>int\<close>.\<close>

definition Component_compare :: "block \<Rightarrow> block \<Rightarrow> int" where
  "Component_compare c d =
     (case (wire c, wire d) of
        (Inr x, Inr y) \<Rightarrow> memcmp x y (min (unat (m_size c)) (unat (m_size d)))
      | _ \<Rightarrow>
          let cmpType = sint (m_type c - m_type d);
              cmpSize = sint (word_of_int (int (value_size c) - int (value_size d)) :: 32 word)
          in if cmpType \<noteq> 0 then cmpType else if cmpSize \<noteq> 0 then cmpSize
             else if Component_empty c then 0
             else memcmp (block_value c) (block_value d) (value_size c))"

text \<open>
  The loop of \<open>getSuccessor\<close> adds one to the value, from the last byte on while there is a carry. The
  result is the carry, the number of bytes that were not looked at, the bytes written and the encoder.
\<close>

fun successor_loop :: "bytes \<Rightarrow> nat \<Rightarrow> bool \<Rightarrow> nat \<Rightarrow> encoder \<Rightarrow> (bool \<times> nat \<times> nat \<times> encoder) result" where
  "successor_loop v 0 isOverflow totalLength e = Inr (isOverflow, 0, totalLength, e)"
| "successor_loop v (Suc i) isOverflow totalLength e =
     (if isOverflow then
        let newValue = v ! i + 1 in
        bindE (Encoder_prependByte newValue e) (\<lambda>(n, e). successor_loop v i (newValue = 0) (totalLength + n) e)
      else Inr (isOverflow, Suc i, totalLength, e))"

definition Component_getSuccessor :: "block \<Rightarrow> block result" where
  "Component_getSuccessor c =
     bindE (block_size c) (\<lambda>sz.
     bindE (successor_loop (block_value c) (value_size c) True 0 (Encoder_init (sz + 1) 1)) (\<lambda>(isOverflow, i, total, e).
     bindE (Encoder_prependByteArray (take i (block_value c)) e) (\<lambda>(n, e).
     bindE (if isOverflow then Encoder_appendByte 0 e else Inr (0, e)) (\<lambda>(m, e).
     bindE (Encoder_prependVarNumber (word_of_nat (total + n + m)) e) (\<lambda>(_, e).
     bindE (Encoder_prependVarNumber (ucast (m_type c)) e) (\<lambda>(_, e).
     bindE (Encoder_block e True) Component_of_block))))))"


section \<open>Wire format\<close>

definition Component_wireEncode :: "'e encoding_impl \<Rightarrow> block \<Rightarrow> 'e \<Rightarrow> (nat \<times> 'e) result" where
  "Component_wireEncode T c =
     addE (addE (if value_size c > 0 then prependByteArray T (block_value c) else (\<lambda>e. Inr (0, e)))
        (prependVarNumber T (word_of_nat (value_size c)))) (prependVarNumber T (ucast (m_type c)))"

text \<open>The component, with the wire it has afterwards.\<close>

definition Component_wire :: "block \<Rightarrow> block result" where
  "Component_wire c =
     (if hasWire c then Inr c
      else bindE (make_block (Component_wireEncode EstimatorTag c) (Component_wireEncode EncoderTag c)) Component_of_block)"

definition Component_wireDecode :: "block \<Rightarrow> block result" where
  "Component_wireDecode b = Component_of_block b"


section \<open>Round trip of the URI format\<close>

text \<open>What a component must be: of one of the two types, and small enough for a buffer.\<close>

definition comp_ok :: "block \<Rightarrow> bool" where
  "comp_ok c \<longleftrightarrow> block_ok c \<and> (isGeneric c \<or> isImplicitSha256Digest c) \<and> value_size c < 2 ^ 31"

lemma comp_ok_value: "comp_ok c \<Longrightarrow> length (block_value c) = value_size c"
  by (simp add: comp_ok_def block_value_length)

definition uri_char :: "byte \<Rightarrow> bool" where
  "uri_char x \<longleftrightarrow> plain x \<or> x = 37"

lemma hex_upper_plain: "n < 16 \<Longrightarrow> plain (hex_digit True n)"
proof -
  assume "n < 16"
  then have "unat (hex_digit True n) = (if n < 10 then 48 + n else 55 + n)"
    by (simp add: hex_digit_def unat_of_nat)
  then show ?thesis using \<open>n < 16\<close>
    by (cases "n < 10") (simp_all add: plain_def word_le_nat_alt)
qed

lemma hex_number_plain: "y \<in> set (hex_number x) \<Longrightarrow> plain y"
proof -
  have "plain (hex_digit True (unat x div 16))" "plain (hex_digit True (unat x mod 16))"
    using byte_split(2) [of x] by (simp_all add: hex_upper_plain)
  then show "y \<in> set (hex_number x) \<Longrightarrow> plain y"
    using hex_upper_plain [of "unat x"] by (cases "unat x < 16") (auto simp: hex_number_def)
qed

lemma escape_uri_char:
  assumes "y \<in> set (escape_byte x)"
  shows "uri_char y"
proof (cases "plain x")
  case False
  have "list_all uri_char (hex_number x)" using hex_number_plain by (simp add: list_all_iff uri_char_def)
  moreover have "uri_char 37" "uri_char 48" by (simp_all add: uri_char_def plain_def)
  ultimately have "list_all uri_char (escape_byte x)" using False by (simp add: escape_byte_def)
  then show ?thesis using assms by (simp add: list_all_iff)
qed (use assms in \<open>simp add: escape_byte_def uri_char_def\<close>)

lemma escape_not_Nil: "escape_byte x \<noteq> []"
  by (simp add: escape_byte_def)

lemma plain_unat: "plain x \<longleftrightarrow> unat x \<in> {43, 45, 46, 95} \<or> (48 \<le> unat x \<and> unat x \<le> 57)
    \<or> (65 \<le> unat x \<and> unat x \<le> 90) \<or> (97 \<le> unat x \<and> unat x \<le> 122)"
  by (auto simp: plain_def word_le_nat_alt word_unat_eq_iff)

lemma uri_char_not: "uri_char x \<Longrightarrow> \<not> isspace x \<and> x \<noteq> 47 \<and> x \<noteq> 58 \<and> x \<noteq> 61"
  by (auto simp: uri_char_def plain_unat isspace_def word_le_nat_alt word_unat_eq_iff)

lemma dropWhile_none: "(\<And>x. x \<in> set s \<Longrightarrow> \<not> P x) \<Longrightarrow> dropWhile P s = s"
  by (cases s) auto

lemma trim_id: "(\<And>x. x \<in> set s \<Longrightarrow> \<not> isspace x) \<Longrightarrow> trim s = s"
proof -
  assume a: "\<And>x. x \<in> set s \<Longrightarrow> \<not> isspace x"
  then have "dropWhile isspace (rev s) = rev s" by (intro dropWhile_none) simp
  then show "trim s = s" using dropWhile_none [of s isspace] a by (simp add: trim_def trimLeft_def trimRight_def)
qed

lemma trimLeft_suffix: "\<exists>p. s = p @ trimLeft s"
  unfolding trimLeft_def by (metis takeWhile_dropWhile_id)

lemma unescape_escape: "unescape (concat (map escape_byte v)) = v"
proof (induction v)
  case (Cons x v)
  show ?case
  proof (cases "plain x")
    case True
    then have "x \<noteq> 37" by (auto simp: plain_unat)
    then show ?thesis using True Cons by (simp add: escape_byte_def unescape_plain)
  next
    case False
    have small: "hex_digit True 0 = 48" by (simp add: hex_digit_def)
    have "escape_byte x = [37, hex_digit True (unat x div 16), hex_digit True (unat x mod 16)]"
    proof (cases "unat x < 16")
      case True
      then show ?thesis using False small by (simp add: escape_byte_def hex_number_def word_less_nat_alt)
    next
      case big: False
      then show ?thesis using False by (simp add: escape_byte_def hex_number_def word_less_nat_alt)
    qed
    then show ?thesis using Cons unescape_byte [of True x "concat (map escape_byte v)"] by simp
  qed
qed simp

lemma unescape_dots: "unescape (replicate n 46) = replicate n 46"
  by (induction n) (simp_all add: unescape_plain)

lemma all_dots: "\<not> list_ex (\<lambda>x. x \<noteq> 46) v \<longleftrightarrow> v = replicate (length v) 46"
  by (induction v) auto

lemma no_prefix: "(\<And>x. x \<in> set s \<Longrightarrow> uri_char x) \<Longrightarrow> take n s \<noteq> sha256Prefix"
proof
  assume u: "\<And>x. x \<in> set s \<Longrightarrow> uri_char x" and "take n s = sha256Prefix"
  then have "61 \<in> set (take n s)" by (simp add: sha256Prefix_def str_def)
  then have "uri_char 61" using u in_set_takeD by metis
  then show False using uri_char_not by blast
qed

lemma generic_uri:
  assumes "m_type c = tlv_NameComponent" and "length (block_value c) = value_size c"
  shows "Component_toUri c = (if \<not> list_ex (\<lambda>x. x \<noteq> 46) (block_value c) then replicate (3 + value_size c) 46
      else concat (map escape_byte (block_value c)))"
    and "\<forall>x \<in> set (Component_toUri c). uri_char x" and "Component_toUri c \<noteq> []"
proof -
  show eq: "Component_toUri c = (if \<not> list_ex (\<lambda>x. x \<noteq> 46) (block_value c) then replicate (3 + value_size c) 46
      else concat (map escape_byte (block_value c)))"
    using assms(1)
    by (simp add: Component_toUri_def tlv_NameComponent_def tlv_ImplicitSha256DigestComponent_def numeral_3_eq_3)
  show "\<forall>x \<in> set (Component_toUri c). uri_char x"
    unfolding eq using escape_uri_char by (auto simp: uri_char_def plain_def split: if_splits)
  show "Component_toUri c \<noteq> []"
    unfolding eq using escape_not_Nil by (auto simp: list_ex_iff)
qed

lemma generic_from_uri:
  assumes "comp_ok c" and "isGeneric c"
  shows "fromEscapedString hexDec (Component_toUri c) = Component_of_value (block_value c)"
proof -
  have len: "length (block_value c) = value_size c" using comp_ok_value [OF assms(1)] .
  have t: "m_type c = tlv_NameComponent" using assms(2) by (simp add: isGeneric_def)
  note uri = generic_uri [OF t len]
  define u where "u = Component_toUri c"
  have tr: "trim u = u" unfolding u_def using uri(2) uri_char_not by (intro trim_id) blast
  have np: "take (length sha256Prefix) u \<noteq> sha256Prefix" unfolding u_def using uri(2) no_prefix by blast
  have "fromEscapedString hexDec u = Component_of_value (block_value c)"
  proof (cases "list_ex (\<lambda>x. x \<noteq> 46) (block_value c)")
    case True
    then have "unescape u = block_value c" using uri(1) by (simp add: u_def unescape_escape)
    then show ?thesis using np True by (simp add: fromEscapedString_def tr)
  next
    case False
    have u: "u = replicate (3 + value_size c) 46" "block_value c = replicate (value_size c) 46"
      using uri(1) False all_dots [of "block_value c"] len by (auto simp: u_def)
    have "unescape u = u" unfolding u(1) by (rule unescape_dots)
    moreover have "\<not> list_ex (\<lambda>x. x \<noteq> 46) u" unfolding u(1) by (simp only: all_dots length_replicate)
    moreover have "3 \<le> length u" "drop 3 u = block_value c" using u by (simp_all del: replicate.simps)
    ultimately show ?thesis using np by (simp add: fromEscapedString_def tr)
  qed
  then show ?thesis by (simp add: u_def)
qed

lemma Component_value_ok:
  assumes "length v < 2 ^ 31"
  shows "\<exists>c. Component_of_value v = Inr c \<and> comp_ok c \<and> elem_of c = (tlv_NameComponent, v)
    \<and> wire c = Inr (tlv tlv_NameComponent v) \<and> isGeneric c"
proof -
  have "fits (tlv tlv_NameComponent v)" using assms by (intro fits_small) simp
  from makeBinary_block [OF this] obtain c where c: "makeBinaryBlock tlv_NameComponent v = Inr c" "block_ok c"
      "wire c = Inr (tlv tlv_NameComponent v)" "elem_of c = (tlv_NameComponent, v)" "m_type c = tlv_NameComponent"
      "block_value c = v" by blast
  then have "value_size c < 2 ^ 31" using assms block_value_length by metis
  then show ?thesis using c by (auto simp: Component_of_value_def comp_ok_def isGeneric_def)
qed

lemma printHex_length: "length (printHex [] v u) = 2 * length v"
  by (induction v) (simp_all add: printHex_def)

lemma hex_not_space: "x \<in> set (printHex [] v u) \<Longrightarrow> \<not> isspace x"
proof -
  have "\<not> isspace (hex_digit u n)" if "n < 16" for n
  proof -
    have "unat (hex_digit u n) = (if n < 10 then 48 + n else if u then 55 + n else 87 + n)"
      using that by (simp add: hex_digit_def unat_of_nat)
    then show ?thesis using that
      by (cases u; cases "n < 10") (auto simp: isspace_def word_le_nat_alt word_unat_eq_iff)
  qed
  then show "x \<in> set (printHex [] v u) \<Longrightarrow> \<not> isspace x" using byte_split(2) by (auto simp: printHex_def)
qed

lemma sha256Prefix_not_space: "x \<in> set sha256Prefix \<Longrightarrow> \<not> isspace x"
  by (auto simp: sha256Prefix_def str_def isspace_def)

lemma digest_from_uri:
  assumes "comp_ok c" and "isImplicitSha256Digest c" and "\<forall>v. hexDec (printHex [] v False) = v"
  shows "fromEscapedString hexDec (Component_toUri c) = fromImplicitSha256Digest_buffer (block_value c)"
proof -
  let ?h = "printHex [] (block_value c) False"
  have t: "m_type c = tlv_ImplicitSha256DigestComponent" "length (block_value c) = 32"
    using assms(2) comp_ok_value [OF assms(1)] by (simp_all add: isImplicitSha256Digest_def SHA256_DIGEST_SIZE_def)
  have uri: "Component_toUri c = sha256Prefix @ ?h" using t(1) by (simp add: Component_toUri_def)
  define u where "u = Component_toUri c"
  have tr: "trim u = u"
    using hex_not_space sha256Prefix_not_space by (intro trim_id) (auto simp: u_def uri)
  have h: "length ?h = 64" using t(2) by (simp add: printHex_length)
  have "take (length sha256Prefix) u = sha256Prefix" "length u = length sha256Prefix + 64"
      "drop (length sha256Prefix) u = ?h"
    using h by (simp_all add: u_def uri)
  moreover have "fromHex hexDec ?h = Inr (block_value c)"
    using assms(3) t(2) by (simp add: fromHex_def printHex_length)
  ultimately have "fromEscapedString hexDec u = fromImplicitSha256Digest_buffer (block_value c)"
    by (simp add: fromEscapedString_def tr SHA256_DIGEST_SIZE_def)
  then show ?thesis by (simp add: u_def)
qed

lemma Component_digest_ok:
  assumes "length v = 32"
  shows "\<exists>c. fromImplicitSha256Digest_buffer v = Inr c \<and> comp_ok c
    \<and> elem_of c = (tlv_ImplicitSha256DigestComponent, v)"
proof -
  let ?c = "Block_value tlv_ImplicitSha256DigestComponent v"
  have "block_ok ?c" using assms by (intro Block_value_ok) (simp add: fits_def)
  moreover have e: "elem_of ?c = (tlv_ImplicitSha256DigestComponent, v)" by simp
  moreover have "value_size ?c = 32"
    using block_value_length [OF \<open>block_ok ?c\<close>] assms e by (simp add: elem_of_def del: Block_value_elem)
  ultimately show ?thesis using assms
    by (simp add: fromImplicitSha256Digest_buffer_def SHA256_DIGEST_SIZE_def Component_of_block_def
        isImplicitSha256Digest_def comp_ok_def elem_of_def)
qed

lemma component_uri_back:
  assumes "comp_ok c" and "\<forall>v. hexDec (printHex [] v False) = v"
  shows "\<exists>d. fromEscapedString hexDec (Component_toUri c) = Inr d \<and> comp_ok d \<and> elem_of d = elem_of c"
proof (cases "isGeneric c")
  case True
  have "length (block_value c) < 2 ^ 31" using assms(1) comp_ok_value by (simp add: comp_ok_def)
  then show ?thesis using generic_from_uri [OF assms(1) True] Component_value_ok True
    by (fastforce simp: elem_of_def isGeneric_def)
next
  case False
  then have d: "isImplicitSha256Digest c" using assms(1) by (simp add: comp_ok_def)
  then have "length (block_value c) = 32"
    using comp_ok_value [OF assms(1)] by (simp add: isImplicitSha256Digest_def SHA256_DIGEST_SIZE_def)
  then show ?thesis using digest_from_uri [OF assms(1) d assms(2)] Component_digest_ok d
    by (fastforce simp: elem_of_def isImplicitSha256Digest_def)
qed

text \<open>
  Printing a component as a URI and reading it gives an equal component, whatever bytes its value
  has (none at all, only periods, spaces, slashes, percent signs). For a digest component this relies
  on the hex decoder decoding what the hex printer prints.
\<close>

theorem Component_uri_roundtrip:
  assumes "comp_ok c" and "\<forall>v. hexDec (printHex [] v False) = v"
  shows "\<exists>d. fromEscapedString hexDec (Component_toUri c) = Inr d \<and> comp_ok d \<and> elem_of d = elem_of c"
  by (rule component_uri_back [OF assms])


text \<open>A decoder of lower case hexadecimal digits, for the witnesses.\<close>

fun demo_hexDecoder :: "bytes \<Rightarrow> bytes" where
  "demo_hexDecoder (x # y # rest) = word_of_int (fromHexChar x * 16 + fromHexChar y) # demo_hexDecoder rest"
| "demo_hexDecoder _ = []"

lemma demo_hexDecoder_print: "demo_hexDecoder (printHex [] v False) = v"
proof (induction v)
  case (Cons b v)
  have "int (unat b div 16) * 16 + int (unat b mod 16) = uint b"
    using byte_split(1) [of b] by (metis of_nat_add of_nat_mult of_nat_numeral of_nat_unat)
  then have "word_of_int (int (unat b div 16) * 16 + int (unat b mod 16)) = b" by (simp only: word_of_int_uint)
  then show ?case using Cons by (simp add: printHex_def fromHexChar_digit byte_split(2))
qed (simp add: printHex_def)

lemma demo_component_ok: "comp_ok (Block_value tlv_NameComponent [47, 32, 46])"
proof -
  have "block_ok (Block_value tlv_NameComponent [47, 32, 46])" by (intro Block_value_ok) (simp add: fits_def)
  then show ?thesis
    by (simp add: comp_ok_def isGeneric_def Block_value_def value_size_def hasValue_def Let_def)
qed

theorem Component_uri_roundtrip_witness:
  "\<exists>d. fromEscapedString demo_hexDecoder (Component_toUri (Block_value tlv_NameComponent [47, 32, 46])) = Inr d
    \<and> comp_ok d \<and> elem_of d = elem_of (Block_value tlv_NameComponent [47, 32, 46])"
  by (rule Component_uri_roundtrip [OF demo_component_ok]) (simp add: demo_hexDecoder_print)


section \<open>Numbers in components\<close>

lemma nni_value_size: "block_ok b \<Longrightarrow> block_value b = nni n \<Longrightarrow> isNumber b"
  using nni_length [of n] block_value_length [of b] by (auto simp: isNumber_def)

lemma fromNumber_value:
  "\<exists>c. fromNumber n = Inr c \<and> comp_ok c \<and> elem_of c = (tlv_NameComponent, nni n)"
proof -
  obtain b where b: "makeNonNegativeIntegerBlock tlv_NameComponent n = Inr b" "block_ok b"
      "elem_of b = (tlv_NameComponent, nni n)" "m_type b = tlv_NameComponent" "block_value b = nni n"
    using makeNNI_block by blast
  have "value_size b < 2 ^ 31" using block_value_length [OF b(2)] b(5) nni_length [of n] by auto
  then show ?thesis using b by (simp add: fromNumber_def Component_of_block_def isGeneric_def comp_ok_def)
qed

lemma marker_block:
  "fromNumberWithMarker m n = bindE (Block_buffer (tlv tlv_NameComponent (m # nni n))) Component_of_block"
proof -
  let ?v = "m # nni n"
  let ?est = "with_header EstimatorTag tlv_NameComponent
      (addE (prependNonNegativeInteger EstimatorTag n) (prependByteArray EstimatorTag [m]))"
  let ?enc = "with_header EncoderTag tlv_NameComponent
      (addE (prependNonNegativeInteger EncoderTag n) (prependByteArray EncoderTag [m]))"
  have e: "emits est_rep ?est (tlv tlv_NameComponent ([m] @ nni n))"
    by (intro est.prepend_header emits_addE est.prepends)
  have x: "emits (enc_exact cap) ?enc (tlv tlv_NameComponent ([m] @ nni n))" for cap
    by (intro enc_exact.prepend_header emits_addE enc_exact.prepends)
  have mk: "make_block ?est ?enc = Block_buffer (tlv tlv_NameComponent ?v)"
    using make_block_buffer [OF e x] by simp
  have len: "Estimator_prependNonNegativeInteger n + Estimator_prependByteArray [m] = length ?v"
    by (simp add: estimator_nni Estimator_prependByteArray_def)
  have est: "?est () = Inr (length ?v + (Estimator_prependVarNumber (word_of_nat (length ?v))
      + Estimator_prependVarNumber (ucast tlv_NameComponent)), ())"
    using len by (simp add: with_header_def addE_def EstimatorTag_def)
  have enc: "bindE (?enc i) (\<lambda>(_, e). Encoder_block e True) =
      bindE (Encoder_prependNonNegativeInteger n i) (\<lambda>(_, e).
      bindE (Encoder_prependByteArray [m] e) (\<lambda>(_, e).
      bindE (Encoder_prependVarNumber (word_of_nat (length ?v)) e) (\<lambda>(_, e).
      bindE (Encoder_prependVarNumber (ucast tlv_NameComponent) e) (\<lambda>(_, e). Encoder_block e True))))"
    if i: "enc_exact cap i []" for i cap
  proof -
    obtain e1 where e1: "Encoder_prependNonNegativeInteger n i = Inr (length (nni n), e1)" "enc_exact cap e1 (nni n @ [])"
      using emitsD [OF enc_exact.prepend_nni i, of n] by (auto simp: EncoderTag_def)
    obtain e2 where e2: "Encoder_prependByteArray [m] e1 = Inr (1, e2)"
      using emitsD [OF enc_exact.prepend_array e1(2), of "[m]"] by (auto simp: EncoderTag_def)
    show ?thesis using e1 e2
      by (auto simp: with_header_def addE_def EncoderTag_def bindE_assoc split: prod.splits intro!: bindE_const)
  qed
  have "fromNumberWithMarker m n = bindE (make_block ?est ?enc) Component_of_block"
    unfolding fromNumberWithMarker_def Let_def len make_block_def est
    using enc [OF Encoder_init_exact]
    by (simp add: bindE_assoc add.assoc case_prod_beta')
  then show ?thesis using mk by simp
qed

lemma fromNumberWithMarker_value:
  "\<exists>c. fromNumberWithMarker m n = Inr c \<and> comp_ok c \<and> elem_of c = (tlv_NameComponent, m # nni n)"
proof -
  have len: "length (m # nni n) \<le> 9" using nni_length [of n] by auto
  then have "fits (tlv tlv_NameComponent (m # nni n))" by (intro fits_small) simp
  from Block_buffer_tlv [OF this] obtain b where b: "Block_buffer (tlv tlv_NameComponent (m # nni n)) = Inr b"
      "block_ok b" "elem_of b = (tlv_NameComponent, m # nni n)" by blast
  have "value_size b < 2 ^ 31" using block_value_length [OF b(2)] b(3) len by (simp add: elem_of_def)
  then show ?thesis using b
    by (simp add: marker_block Component_of_block_def isGeneric_def comp_ok_def elem_of_def)
qed

text \<open>
  Numbers and markers: a number put into a component is read back, with the marker it was made
  with and with no other; so versions, segments, offsets, timestamps and sequence numbers are not
  taken for each other.
\<close>

theorem component_numbers:
  "\<exists>c d. fromNumber n = Inr c \<and> toNumber c = Inr n
     \<and> fromNumberWithMarker m n = Inr d \<and> toNumberWithMarker m d = Inr n
     \<and> (\<forall>k. k \<noteq> m \<longrightarrow> \<not> isNumberWithMarker k d \<and> (\<exists>what. toNumberWithMarker k d = Inl (ComponentError what)))"
proof -
  obtain c where c: "fromNumber n = Inr c" "comp_ok c" "elem_of c = (tlv_NameComponent, nni n)"
    using fromNumber_value by blast
  have cv: "block_ok c" "block_value c = nni n" using c by (simp_all add: comp_ok_def elem_of_def)
  obtain d where d: "fromNumberWithMarker m n = Inr d" "comp_ok d" "elem_of d = (tlv_NameComponent, m # nni n)"
    using fromNumberWithMarker_value by blast
  have dv: "block_value d = m # nni n" "value_size d = Suc (length (nni n))"
    using d(3) comp_ok_value [OF d(2)] by (simp_all add: elem_of_def)
  have "isNumberWithMarker m d" using dv nni_length [of n] by (auto simp: isNumberWithMarker_def Component_empty_def)
  moreover have "Tlv.readNonNegativeInteger (length (nni n)) (nni n) = Inr (n, [])" using nni_read [of n "[]"] by simp
  ultimately have "toNumberWithMarker m d = Inr n" using dv by (simp add: toNumberWithMarker_def)
  moreover have "\<not> isNumberWithMarker k d" if "k \<noteq> m" for k using that dv by (simp add: isNumberWithMarker_def)
  moreover have "toNumber c = Inr n"
    using nni_value_size [OF cv] read_block_nni [OF cv] by (simp add: toNumber_def)
  ultimately show ?thesis using c d by (auto simp: toNumberWithMarker_def)
qed

theorem component_numbers_witness:
  "\<exists>c d. fromNumber 258 = Inr c \<and> toNumber c = Inr 258
     \<and> fromNumberWithMarker 253 258 = Inr d \<and> toNumberWithMarker 253 d = Inr 258
     \<and> (\<forall>k. k \<noteq> 253 \<longrightarrow> \<not> isNumberWithMarker k d \<and> (\<exists>what. toNumberWithMarker k d = Inl (ComponentError what)))"
  by (rule component_numbers)

end
