(* ===== verification/Canonical.thy ===== *)
theory Canonical
  imports Component "HOL-Library.Product_Lexorder" "HOL-Library.List_Lexorder"
begin

text \<open>
  The canonical order of name components: by type, then by length, then byte by byte. It is a linear
  order on the pairs of type and value (\<open>comp_key\<close>), and \<open>Component::compare\<close> and
  \<open>Component::getSuccessor\<close> of \<open>name-component.cpp\<close> are proved against it.
\<close>

section \<open>The order\<close>

datatype comp_key = Key (key_type: "32 word") (key_value: bytes)

text \<open>Among values of one length, the order of the bytes is the order of the big-endian numbers.\<close>

definition key_rank :: "comp_key \<Rightarrow> nat \<times> nat \<times> nat" where
  "key_rank k = (unat (key_type k), length (key_value k), be_val (key_value k))"

lemma key_rank_inj: "key_rank k = key_rank l \<longleftrightarrow> k = l"
  by (cases k; cases l) (auto simp: key_rank_def word_unat_eq_iff dest: be_val_inj)

instantiation comp_key :: linorder
begin

definition less_eq_comp_key :: "comp_key \<Rightarrow> comp_key \<Rightarrow> bool" where
  "less_eq_comp_key k l \<longleftrightarrow> key_rank k \<le> key_rank l"

definition less_comp_key :: "comp_key \<Rightarrow> comp_key \<Rightarrow> bool" where
  "less_comp_key k l \<longleftrightarrow> key_rank k < key_rank l"

instance
proof
  fix k l m :: comp_key
  show "k < l \<longleftrightarrow> k \<le> l \<and> \<not> l \<le> k" by (simp add: less_eq_comp_key_def less_comp_key_def less_le_not_le)
  show "k \<le> l \<Longrightarrow> l \<le> k \<Longrightarrow> k = l"
    by (simp add: less_eq_comp_key_def key_rank_inj [symmetric] del: key_rank_inj)
qed (auto simp: less_eq_comp_key_def)

end

text \<open>The result of a three-way comparison.\<close>

definition cmp3 :: "'k :: linorder \<Rightarrow> 'k \<Rightarrow> int" where
  "cmp3 k l = (if k < l then -1 else if k = l then 0 else 1)"

lemma cmp3_simps [simp]: "cmp3 k k = 0" "cmp3 k l = 0 \<longleftrightarrow> k = l" "cmp3 k l < 0 \<longleftrightarrow> k < l" "0 < cmp3 k l \<longleftrightarrow> l < k"
  by (auto simp: cmp3_def)

lemma cmp3_swap: "cmp3 l k = - cmp3 k l"
  by (auto simp: cmp3_def)

lemma cmp3_nat: "cmp3 (m :: nat) n = sgn (int m - int n)"
  by (auto simp: cmp3_def)

lemma cmp3_key:
  "cmp3 (Key t v) (Key u w) =
     (if t \<noteq> u then cmp3 (unat t) (unat u)
      else if length v \<noteq> length w then cmp3 (length v) (length w)
      else cmp3 (be_val v) (be_val w))"
  by (auto simp: cmp3_def less_comp_key_def key_rank_def word_unat_eq_iff dest: be_val_inj)

text \<open>A comparison function for an order, on the values it is made for.\<close>

locale three_way =
  fixes cmp :: "'a \<Rightarrow> 'a \<Rightarrow> int" and key :: "'a \<Rightarrow> 'k :: linorder" and ok :: "'a \<Rightarrow> bool"
  assumes sgn_cmp: "ok x \<Longrightarrow> ok y \<Longrightarrow> sgn (cmp x y) = cmp3 (key x) (key y)"
begin

lemma cmp_less: "ok x \<Longrightarrow> ok y \<Longrightarrow> cmp x y < 0 \<longleftrightarrow> key x < key y"
  by (metis sgn_cmp cmp3_simps(3) sgn_less)

lemma cmp_equal: "ok x \<Longrightarrow> ok y \<Longrightarrow> cmp x y = 0 \<longleftrightarrow> key x = key y"
  by (metis sgn_cmp cmp3_simps(2) sgn_0_0)

lemma cmp_le: "ok x \<Longrightarrow> ok y \<Longrightarrow> cmp x y \<le> 0 \<longleftrightarrow> key x \<le> key y"
  using cmp_less cmp_equal by (metis less_eq_int_code(1) order.order_iff_strict verit_comp_simplify1(3) le_less)

lemma cmp_refl: "ok x \<Longrightarrow> cmp x x = 0"
  by (simp add: cmp_equal)

lemma cmp_antisym: "ok x \<Longrightarrow> ok y \<Longrightarrow> sgn (cmp y x) = - sgn (cmp x y)"
  by (simp add: sgn_cmp cmp3_swap [of "key y"])

lemma cmp_trans: "ok x \<Longrightarrow> ok y \<Longrightarrow> ok z \<Longrightarrow> cmp x y \<le> 0 \<Longrightarrow> cmp y z \<le> 0 \<Longrightarrow> cmp x z \<le> 0"
  by (simp add: cmp_le)

text \<open>Lists compared element by element, the shorter one first when it is a prefix.\<close>

fun cmp_list :: "'a list \<Rightarrow> 'a list \<Rightarrow> int" where
  "cmp_list (x # xs) (y # ys) = (if cmp x y \<noteq> 0 then cmp x y else cmp_list xs ys)"
| "cmp_list xs ys = int (length xs) - int (length ys)"

lemma sgn_cmp_list:
  "list_all ok xs \<Longrightarrow> list_all ok ys \<Longrightarrow> sgn (cmp_list xs ys) = cmp3 (map key xs) (map key ys)"
proof (induction xs ys rule: cmp_list.induct)
  case (1 x xs y ys)
  then show ?case using sgn_cmp [of x y] cmp_equal [of x y]
    by (auto simp: cmp3_def)
qed (auto simp: cmp3_def neq_Nil_conv)

end


section \<open>memcmp\<close>

lemma memcmp_equal_length:
  "length xs = length ys \<Longrightarrow> length xs \<le> n \<Longrightarrow> memcmp xs ys n = cmp3 (be_val xs) (be_val ys)"
proof (induction xs ys n rule: memcmp.induct)
  case (1 x xs y ys n)
  have scale: "be_val (p # ps) < be_val (q # qs)" if "p < q" "length ps = length xs" "length qs = length xs" for p q ps qs
  proof -
    have "be_val ps < 256 ^ length xs" using be_val_bound [of ps] that(2) by simp
    then have "be_val (p # ps) < (unat p + 1) * 256 ^ length xs" using that(2) by (simp add: be_val_Cons)
    also have "\<dots> \<le> unat q * 256 ^ length xs" using that(1) by (intro mult_right_mono) (auto simp: word_less_nat_alt)
    also have "\<dots> \<le> be_val (q # qs)" using that(3) by (simp add: be_val_Cons)
    finally show ?thesis .
  qed
  show ?case
  proof (cases x y rule: linorder_cases)
    case less
    then show ?thesis using scale [OF less, of xs ys] "1.prems"(1) by (simp add: cmp3_def)
  next
    case equal
    then show ?thesis using 1 by (simp add: be_val_Cons cmp3_def)
  next
    case greater
    then show ?thesis using scale [OF greater, of ys xs] "1.prems"(1) by (simp add: cmp3_def)
  qed
qed auto

lemma memcmp_append:
  "length a = length b \<Longrightarrow> length a \<le> n \<Longrightarrow>
     memcmp (a @ x) (b @ y) n = (if a = b then memcmp x y (n - length a) else memcmp a b (length a))"
proof (induction a b arbitrary: n rule: list_induct2)
  case (Cons p a q b)
  then show ?case by (cases n) auto
qed simp

lemma varnum_code:
  "\<exists>p k. varnum n = p @ be_bytes k (unat n) \<and> unat n < 256 ^ k
     \<and> (p, k) = (if n < 253 then ([], 1) else if n \<le> 65535 then ([253], 2)
        else if n \<le> 4294967295 then ([254], 4) else ([255], 8))"
  using unat64_bounds [of n] by (auto simp: varnum_cases)

lemma be_val_varnum_diff:
  assumes "sizeOfVarNumber m = sizeOfVarNumber n"
  shows "cmp3 (be_val (varnum m)) (be_val (varnum n)) = cmp3 (unat m) (unat n)"
proof -
  obtain p k where m: "varnum m = p @ be_bytes k (unat m)" "unat m < 256 ^ k"
      "(p, k) = (if m < 253 then ([], 1) else if m \<le> 65535 then ([253], 2)
        else if m \<le> 4294967295 then ([254], 4) else ([255], 8))"
    using varnum_code by blast
  obtain q l where n: "varnum n = q @ be_bytes l (unat n)" "unat n < 256 ^ l"
      "(q, l) = (if n < 253 then ([], 1) else if n \<le> 65535 then ([253], 2)
        else if n \<le> 4294967295 then ([254], 4) else ([255], 8))"
    using varnum_code by blast
  have "(p, k) = (q, l)" using assms m(3) n(3) by (auto simp: sizeOfVarNumber_def split: if_splits)
  then have pk: "q = p" "l = k" by simp_all
  have "be_val (p @ be_bytes k i) = be_val p * 256 ^ k + i" if "i < 256 ^ k" for i
    using foldl_be [of "be_val p" "be_bytes k i"] be_val_bytes_small [OF that] by (simp add: be_val_def)
  then have "be_val (varnum m) = be_val p * 256 ^ k + unat m" "be_val (varnum n) = be_val p * 256 ^ k + unat n"
    using m(1,2) n(1,2) unfolding pk by simp_all
  then show ?thesis by (simp add: cmp3_def)
qed

text \<open>The first byte decides between numbers of different sizes.\<close>

lemma varnum_head:
  assumes "sizeOfVarNumber m < sizeOfVarNumber n"
  shows "unat m < unat n" and "\<exists>x xs y ys. varnum m = x # xs \<and> varnum n = y # ys \<and> x < y"
proof -
  show "unat m < unat n" using assms unat64_bounds [of m] unat64_bounds [of n]
    by (auto simp: sizeOfVarNumber_def split: if_splits)
  have c: "(ucast m :: byte) < 253" if "m < 253" using ucast_byte_less [of m] unat64_bounds(1) [of m] that by simp
  have less: "(a :: byte) < 253 \<Longrightarrow> a < 254" "(a :: byte) < 253 \<Longrightarrow> a < 255" for a
    by (simp_all add: word_less_nat_alt)
  show "\<exists>x xs y ys. varnum m = x # xs \<and> varnum n = y # ys \<and> x < y"
    using assms c less [of "ucast m"] by (auto simp: sizeOfVarNumber_def varnum_cases split: if_splits)
qed

lemma size_pos: "0 < sizeOfVarNumber n"
  by (simp add: sizeOfVarNumber_def)

lemma memcmp_varnum:
  assumes "min (sizeOfVarNumber m) (sizeOfVarNumber n) \<le> k"
  shows "memcmp (varnum m @ x) (varnum n @ y) k
    = (if m = n then memcmp x y (k - sizeOfVarNumber m) else cmp3 (unat m) (unat n))"
proof (cases "sizeOfVarNumber m" "sizeOfVarNumber n" rule: linorder_cases)
  case less
  obtain a as b bs where "varnum m = a # as" "varnum n = b # bs" "a < b" using varnum_head(2) [OF less] by blast
  moreover have "0 < k" using assms less size_pos [of m] by linarith
  ultimately show ?thesis using varnum_head(1) [OF less] by (cases k) (auto simp: cmp3_def)
next
  case greater
  obtain a as b bs where "varnum n = a # as" "varnum m = b # bs" "a < b" using varnum_head(2) [OF greater] by blast
  moreover have "0 < k" using assms greater size_pos [of n] by linarith
  ultimately show ?thesis using varnum_head(1) [OF greater] by (cases k) (auto simp: cmp3_def)
next
  case equal
  then have l: "length (varnum m) = length (varnum n)" by simp
  have "varnum m = varnum n \<longleftrightarrow> m = n" using var.enc_inject by simp
  then show ?thesis
    using memcmp_append [OF l, of k x y] memcmp_equal_length [OF l order_refl] be_val_varnum_diff [OF equal] assms equal
    by simp
qed



section \<open>Comparing components\<close>

definition comp_key :: "block \<Rightarrow> comp_key" where
  "comp_key c = Key (m_type c) (block_value c)"

text \<open>A component whose wire, if it has one, is in the shortest form.\<close>

definition canonical :: "block \<Rightarrow> bool" where
  "canonical c \<longleftrightarrow> comp_ok c \<and> (hasWire c \<longrightarrow> wire c = Inr (tlv (m_type c) (block_value c)))"

lemma canonical_wire:
  assumes "canonical c" and "wire c = Inr w"
  shows "w = tlv (m_type c) (block_value c)" and "unat (m_size c) = length w"
proof -
  have hw: "hasWire c" using assms(2) by (auto simp: wire_def split: if_splits)
  then show w: "w = tlv (m_type c) (block_value c)" using assms by (simp add: canonical_def)
  have c: "comp_ok c" "block_ok c" using assms(1) by (simp_all add: canonical_def comp_ok_def)
  have "length (block_value c) < 2 ^ 31" using comp_ok_value [OF c(1)] c(1) by (simp add: comp_ok_def)
  then have "length w < 2 ^ 32" by (simp add: w length_tlv sizeOfType_def sizeOfVarNumber_def)
  moreover have "element_bytes c = w" using assms(2) by (simp add: element_bytes_def)
  moreover have "hasValue c" using hw by (simp add: hasWire_def hasValue_def)
  ultimately have "block_size c = Inr (length w)" using element_size [OF c(2)] by simp
  then show "unat (m_size c) = length w" using hw by (simp add: block_size_def)
qed

lemma unat_ucast_type [simp]: "unat (ucast (t :: 32 word) :: 64 word) = unat t"
proof -
  have "unat t < 2 ^ 32" using unsigned_less [of t] by simp
  then show ?thesis by (simp add: unsigned_ucast_eq take_bit_eq_mod)
qed

lemma memcmp_tlv:
  assumes "fits v" and "fits w" and "k = min (length (tlv t v)) (length (tlv u w))"
  shows "memcmp (tlv t v) (tlv u w) k = cmp3 (Key t v) (Key u w)"
proof -
  let ?n = "word_of_nat (length v) :: 64 word" and ?m = "word_of_nat (length w) :: 64 word"
  have len: "length (tlv t v) = sizeOfVarNumber (ucast t) + sizeOfVarNumber ?n + length v"
      "length (tlv u w) = sizeOfVarNumber (ucast u) + sizeOfVarNumber ?m + length w"
    by (simp_all add: length_tlv sizeOfType_def)
  show ?thesis
  proof (cases "t = u")
    case False
    then have "(ucast t :: 64 word) \<noteq> ucast u" by (metis ucast_type)
    then have "memcmp (tlv t v) (tlv u w) k = cmp3 (unat t) (unat u)"
      unfolding tlv_def vartype_def
      using memcmp_varnum [where m = "ucast t" and n = "ucast u" and k = k] assms(3) len by (simp add: min_def)
    then show ?thesis using False by (simp add: cmp3_key)
  next
    case True
    define j where "j = k - sizeOfVarNumber (ucast t)"
    have tail: "memcmp (tlv t v) (tlv u w) k = memcmp (varnum ?n @ v) (varnum ?m @ w) j"
      unfolding tlv_def vartype_def j_def
      using memcmp_varnum [where m = "ucast t" and n = "ucast u" and k = k] assms(3) len True by (simp add: min_def)
    have j: "j = min (sizeOfVarNumber ?n + length v) (sizeOfVarNumber ?m + length w)"
      using assms(3) len True by (simp add: j_def)
    have m: "memcmp (varnum ?n @ v) (varnum ?m @ w) j
        = (if ?n = ?m then memcmp v w (j - sizeOfVarNumber ?n) else cmp3 (unat ?n) (unat ?m))"
      by (rule memcmp_varnum) (auto simp: j min_def split: if_splits)
    show ?thesis
    proof (cases "length v = length w")
      case eq: True
      then show ?thesis using tail m True j memcmp_equal_length [OF eq order_refl] by (simp add: cmp3_key)
    next
      case neq: False
      then have "?n \<noteq> ?m" using assms(1,2) fits_unat by metis
      then show ?thesis using tail m True neq assms(1,2) by (simp add: cmp3_key)
    qed
  qed
qed

lemma sint_diff:
  assumes "m < 2 ^ 31" and "n < 2 ^ 31"
  shows "sint (word_of_int (int m - int n) :: 32 word) = int m - int n"
  using assms by (subst sint_sbintrunc') (simp add: signed_take_bit_int_eq_self)

lemma comp_type: "comp_ok c \<Longrightarrow> m_type c = 1 \<or> m_type c = 8"
  by (auto simp: comp_ok_def isGeneric_def isImplicitSha256Digest_def tlv_NameComponent_def
      tlv_ImplicitSha256DigestComponent_def)

lemma type_diff:
  assumes "comp_ok c" and "comp_ok d"
  shows "sint (m_type c - m_type d) = int (unat (m_type c)) - int (unat (m_type d))"
  using comp_type [OF assms(1)] comp_type [OF assms(2)] by auto

lemma comp_fits: "comp_ok c \<Longrightarrow> fits (block_value c)"
  using comp_ok_value [of c] by (simp add: comp_ok_def fits_def)

lemma compare_canonical:
  assumes "canonical c" and "canonical d"
  shows "sgn (Component_compare c d) = cmp3 (comp_key c) (comp_key d)"
proof (cases "hasWire c \<and> hasWire d")
  case True
  then obtain x y where w: "wire c = Inr x" "wire d = Inr y" by (auto simp: wire_def)
  note cw = canonical_wire [OF assms(1) w(1)] and dw = canonical_wire [OF assms(2) w(2)]
  have "fits (block_value c)" "fits (block_value d)" using assms comp_fits by (simp_all add: canonical_def)
  from memcmp_tlv [OF this refl, of "m_type c" "m_type d"]
  have "Component_compare c d = cmp3 (comp_key c) (comp_key d)"
    using w cw dw by (simp add: Component_compare_def comp_key_def)
  then show ?thesis by (auto simp: cmp3_def)
next
  case False
  have ok: "comp_ok c" "comp_ok d" using assms by (simp_all add: canonical_def)
  have sz: "value_size c < 2 ^ 31" "value_size d < 2 ^ 31" using ok by (simp_all add: comp_ok_def)
  define p q m n where pq: "p = unat (m_type c)" "q = unat (m_type d)" "m = value_size c" "n = value_size d"
  have td: "sint (m_type c - m_type d) = int p - int q" unfolding pq by (rule type_diff [OF ok])
  have sd: "sint (word_of_int (int m - int n) :: 32 word) = int m - int n" unfolding pq by (rule sint_diff [OF sz])
  have eq: "Component_compare c d = (if int p - int q \<noteq> 0 then int p - int q
      else if int m - int n \<noteq> 0 then int m - int n
      else if Component_empty c then 0 else memcmp (block_value c) (block_value d) m)"
    using False td sd pq by (auto simp: Component_compare_def wire_def Let_def)
  have teq: "m_type c = m_type d \<longleftrightarrow> p = q" by (simp add: pq word_unat_eq_iff)
  have len: "length (block_value c) = m" "length (block_value d) = n" using ok comp_ok_value pq by simp_all
  have key: "cmp3 (comp_key c) (comp_key d) = (if p \<noteq> q then cmp3 p q else if m \<noteq> n then cmp3 m n
      else cmp3 (be_val (block_value c)) (be_val (block_value d)))"
    by (simp add: comp_key_def cmp3_key teq len pq(1,2) [symmetric])
  have mem: "m = n \<Longrightarrow> memcmp (block_value c) (block_value d) m = cmp3 (be_val (block_value c)) (be_val (block_value d))"
    using memcmp_equal_length [of "block_value c" "block_value d" m] len by simp
  have empty: "m = n \<Longrightarrow> Component_empty c \<Longrightarrow> block_value c = block_value d"
    using len by (simp add: Component_empty_def pq(3) [symmetric])
  have idem: "sgn (cmp3 a b) = cmp3 a b" for a b :: nat by (auto simp: cmp3_def)
  show ?thesis unfolding eq key
    using mem empty by (auto simp: cmp3_nat idem)
qed

text \<open>So \<open>Component::compare\<close> is a comparison for the canonical order on canonical components.\<close>

interpretation component: three_way Component_compare comp_key canonical
  by unfold_locales (rule compare_canonical)

lemma equals_key: "comp_ok c \<Longrightarrow> comp_ok d \<Longrightarrow> Component_equals c d \<longleftrightarrow> comp_key c = comp_key d"
  using comp_ok_value [of c] comp_ok_value [of d]
  by (auto simp: Component_equals_def comp_key_def Component_empty_def)

text \<open>
  C38. Comparing components: on components whose wire, where they have one, is in the shortest form,
  \<open>compare\<close> gives the canonical order, both by the wire encodings and by type, size and value; it is
  zero exactly when the components are equal.
\<close>

theorem Component_compare_canonical:
  assumes "canonical c" and "canonical d"
  shows "(Component_compare c d < 0 \<longleftrightarrow> comp_key c < comp_key d)
    \<and> (Component_compare c d = 0 \<longleftrightarrow> Component_equals c d)
    \<and> sgn (Component_compare d c) = - sgn (Component_compare c d)"
  using component.cmp_less [OF assms] component.cmp_equal [OF assms] component.cmp_antisym [OF assms]
    equals_key [of c d] assms by (simp add: canonical_def)

lemma canonical_value:
  assumes "length v < 2 ^ 31"
  shows "canonical (Block_value tlv_NameComponent v)"
proof -
  have ok: "block_ok (Block_value tlv_NameComponent v)" using assms by (intro Block_value_ok) (simp add: fits_def)
  have "value_size (Block_value tlv_NameComponent v) = length v"
    by (simp add: Block_value_def value_size_def hasValue_def Let_def)
  then show ?thesis using ok assms
    by (simp add: canonical_def comp_ok_def isGeneric_def Block_value_def hasWire_def Let_def)
qed

theorem Component_compare_canonical_witness:
  "(Component_compare (Block_value tlv_NameComponent [1]) (Block_value tlv_NameComponent [0, 0]) < 0
      \<longleftrightarrow> comp_key (Block_value tlv_NameComponent [1]) < comp_key (Block_value tlv_NameComponent [0, 0]))
    \<and> (Component_compare (Block_value tlv_NameComponent [1]) (Block_value tlv_NameComponent [0, 0]) = 0
      \<longleftrightarrow> Component_equals (Block_value tlv_NameComponent [1]) (Block_value tlv_NameComponent [0, 0]))
    \<and> sgn (Component_compare (Block_value tlv_NameComponent [0, 0]) (Block_value tlv_NameComponent [1]))
      = - sgn (Component_compare (Block_value tlv_NameComponent [1]) (Block_value tlv_NameComponent [0, 0]))"
  by (rule Component_compare_canonical) (simp_all add: canonical_value)



lemma memcmp_zero:
  "memcmp xs ys n = 0 \<Longrightarrow> n \<le> length xs \<Longrightarrow> n \<le> length ys \<Longrightarrow> take n xs = take n ys"
proof (induction xs ys n rule: memcmp.induct)
  case (1 x xs y ys n)
  have "\<not> x < y" "\<not> y < x" using "1.prems"(1) by (auto split: if_splits)
  then have "x = y" by simp
  then show ?case using 1 by auto
qed auto

lemma element_prefix:
  assumes "element x (t, v)" and "element y (t, v)" and "take (length x) y = x"
  shows "x = y"
proof -
  obtain z where z: "y = x @ z" using assms(3) by (metis append_take_drop_id)
  then have "v @ z = v" using element_extend [OF assms(1), of z] assms(2) by (simp add: element_def)
  then show ?thesis using z by simp
qed

text \<open>
  Two components with the same type and value, but with different wires (one of them does not use
  the shortest form of its length or type): they are equal, and yet \<open>compare\<close> is not zero for them.
\<close>

theorem Component_compare_equal_differs:
  assumes "comp_ok c" and "comp_ok d" and "elem_of c = elem_of d"
    and "wire c = Inr x" and "wire d = Inr y" and "x \<noteq> y" and "length x < 2 ^ 32" and "length y < 2 ^ 32"
  shows "Component_equals c d \<and> Component_compare c d \<noteq> 0"
proof -
  have ok: "block_ok c" "block_ok d" using assms(1,2) by (simp_all add: comp_ok_def)
  have hw: "hasWire c" "hasWire d" "hasValue c" "hasValue d"
    using assms(4,5) by (auto simp: wire_def hasWire_def hasValue_def split: if_splits)
  have el: "element x (elem_of c)" "element y (elem_of c)"
    using element_bytes_element [OF ok(1) hw(3)] element_bytes_element [OF ok(2) hw(4)] assms(3-5)
    by (simp_all add: element_bytes_def)
  have sz: "unat (m_size c) = length x" "unat (m_size d) = length y"
    using element_size [OF ok(1) hw(3)] element_size [OF ok(2) hw(4)] hw assms(4,5,7,8)
    by (simp_all add: element_bytes_def block_size_def)
  have "memcmp x y (min (length x) (length y)) \<noteq> 0"
  proof
    assume "memcmp x y (min (length x) (length y)) = 0"
    from memcmp_zero [OF this] have t: "take (min (length x) (length y)) x = take (min (length x) (length y)) y" by simp
    show False
    proof (cases "length x \<le> length y")
      case True
      then show False using t element_prefix el assms(6) by (cases "elem_of c") (auto simp: min_def)
    next
      case False
      then show False using t element_prefix [of y _ _ x] el assms(6) by (cases "elem_of c") (auto simp: min_def)
    qed
  qed
  then have "Component_compare c d \<noteq> 0" using assms(4,5) sz by (simp add: Component_compare_def)
  moreover have "comp_key c = comp_key d" using assms(3) by (simp add: comp_key_def elem_of_def)
  ultimately show ?thesis using equals_key [OF assms(1,2)] by simp
qed

definition demo_short :: block where "demo_short = Block (Some [8, 1, 97]) 8 0 3 3 2 3 []"
definition demo_long :: block where "demo_long = Block (Some [8, 253, 0, 1, 97]) 8 0 5 5 4 5 []"

theorem Component_compare_equal_differs_witness:
  "Component_equals demo_short demo_long \<and> Component_compare demo_short demo_long \<noteq> 0"
proof (rule Component_compare_equal_differs)
  have "readHeader [8, 1, 97] = Inr (8, 1, [97])" "readHeader [8, 253, 0, 1, 97] = Inr (8, 1, [97])"
    by (simp_all add: readHeader_def readType_def readVarNumber_def take_be_def be_val_def)
  then show "comp_ok demo_short" "comp_ok demo_long"
    by (simp_all add: comp_ok_def block_ok_def demo_short_def demo_long_def fits_def range_of_def value_size_def
        hasValue_def block_value_def isGeneric_def tlv_NameComponent_def)
  show "[8, 1, 97 :: byte] \<noteq> [8, 253, 0, 1, 97]" "length [8, 1, 97 :: byte] < 2 ^ 32"
      "length [8, 253, 0, 1, 97 :: byte] < 2 ^ 32"
    by simp_all
qed (simp_all add: demo_short_def demo_long_def wire_def hasWire_def range_of_def elem_of_def block_value_def)


section \<open>The successor\<close>

text \<open>
  The next value: one more as a big-endian number of the same length, or as many zero bytes and one
  more when there is none.
\<close>

definition next_value :: "bytes \<Rightarrow> bytes" where
  "next_value v =
     (if list_all (\<lambda>b. b = 255) v then replicate (length v + 1) 0 else be_bytes (length v) (be_val v + 1))"

lemma be_val_ones: "be_val (replicate n 255) + 1 = 256 ^ n"
proof (induction n)
  case (Suc n)
  then show ?case by (simp add: be_val_Cons)
qed simp

lemma all_ones: "list_all (\<lambda>b. b = 255) v \<longleftrightarrow> be_val v + 1 = 256 ^ length v"
proof -
  have "list_all (\<lambda>b. b = 255) v \<longleftrightarrow> v = replicate (length v) 255"
    by (induction v) simp_all
  also have "\<dots> \<longleftrightarrow> be_val v = be_val (replicate (length v) 255)"
    using be_val_inj [of v "replicate (length v) 255"] by auto
  also have "\<dots> \<longleftrightarrow> be_val v + 1 = 256 ^ length v" using be_val_ones [of "length v"] by linarith
  finally show ?thesis .
qed

lemma be_val_zeros [simp]: "be_val (replicate n 0) = 0"
  by (induction n) (simp_all add: be_val_Cons)

lemma key_less: "Key t v < k \<longleftrightarrow> t < key_type k \<or> t = key_type k \<and> (length v < length (key_value k)
    \<or> length v = length (key_value k) \<and> be_val v < be_val (key_value k))"
  by (auto simp: less_comp_key_def key_rank_def word_less_nat_alt word_unat_eq_iff)

lemma next_value_least:
  "Key t v < Key t (next_value v) \<and> (\<forall>k. Key t v < k \<longrightarrow> Key t (next_value v) \<le> k)"
proof (cases "list_all (\<lambda>b. b = 255) v")
  case True
  then have "be_val v + 1 = 256 ^ length v" using all_ones by blast
  then have "\<not> be_val v < be_val w" if "length w = length v" for w using be_val_bound [of w] that by simp
  then have grow: "Key t v < k \<Longrightarrow> t < key_type k \<or> t = key_type k \<and> length v < length (key_value k)" for k
    unfolding key_less by metis
  have nv: "next_value v = replicate (Suc (length v)) 0" using True by (simp add: next_value_def)
  have "\<not> k < Key t (next_value v)" if "Key t v < k" for k
    using grow [OF that] by (cases k) (auto simp: key_less nv simp del: replicate.simps)
  moreover have "Key t v < Key t (next_value v)" by (simp add: key_less nv del: replicate.simps)
  ultimately show ?thesis by (simp add: not_less)
next
  case False
  then have "be_val v + 1 < 256 ^ length v" using all_ones [of v] be_val_bound [of v] by linarith
  then have nv: "be_val (next_value v) = be_val v + 1" "length (next_value v) = length v"
    using False by (simp_all add: next_value_def be_val_bytes_small del: be_val_bytes)
  have "\<not> k < Key t (next_value v)" if "Key t v < k" for k
    using that by (cases k) (auto simp: key_less nv)
  moreover have "Key t v < Key t (next_value v)" by (simp add: key_less nv)
  ultimately show ?thesis by (simp add: not_less)
qed

lemma loop_no_carry: "successor_loop v i False tot e = Inr (False, i, tot, e)"
  by (cases i) auto

lemma successor_loop_run:
  assumes "i \<le> length v" and "enc_rep e c"
  shows "\<exists>ov j w e'. successor_loop v i True tot e = Inr (ov, j, tot + length w, e') \<and> j + length w = i
    \<and> enc_rep e' (w @ c)
    \<and> (if ov then j = 0 \<and> w = replicate i 0 \<and> take i v = replicate i 255
       else be_val (take j v @ w) = be_val (take i v) + 1)"
  using assms
proof (induction i arbitrary: c tot e)
  case 0
  then show ?case by (intro exI [of _ True] exI [of _ 0] exI [of _ "[]"] exI [of _ e]) simp
next
  case (Suc i)
  have i: "take (Suc i) v = take i v @ [v ! i]" using Suc.prems(1) by (simp add: take_Suc_conv_app_nth)
  obtain e1 where e1: "Encoder_prependByte (v ! i + 1) e = Inr (1, e1)" "enc_rep e1 ((v ! i + 1) # c)"
    using emitsD [OF enc.prepend_byte Suc.prems(2), of "v ! i + 1"] by (auto simp: EncoderTag_def)
  show ?case
  proof (cases "v ! i + 1 = 0")
    case True
    then have "v ! i = - 1" using eq_neg_iff_add_eq_0 by blast
    then have ff: "v ! i = 255" by simp
    obtain ov j w e' where IH: "successor_loop v i True (tot + 1) e1 = Inr (ov, j, (tot + 1) + length w, e')"
        "j + length w = i" "enc_rep e' (w @ 0 # c)"
        "if ov then j = 0 \<and> w = replicate i 0 \<and> take i v = replicate i 255
         else be_val (take j v @ w) = be_val (take i v) + 1"
      using Suc.IH [of e1 "0 # c" "tot + 1"] Suc.prems(1) e1(2) True by auto
    have val: "\<not> ov \<Longrightarrow> be_val (take j v @ w @ [0]) = be_val (take (Suc i) v) + 1"
      using IH(4) be_val_snoc [of "take j v @ w" 0] by (simp add: i ff)
    have zeros: "replicate i (0 :: byte) @ [0] = replicate (Suc i) 0" "replicate i (255 :: byte) @ [255] = replicate (Suc i) 255"
      by (simp_all add: replicate_append_same)
    show ?thesis using IH e1(1) True val zeros
      by (intro exI [of _ ov] exI [of _ j] exI [of _ "w @ [0]"] exI [of _ e']) (auto simp: Let_def i ff)
  next
    case False
    then have "unat (v ! i + 1) = unat (v ! i) + 1"
      by (simp add: unat_plus_simple [symmetric] unatSuc add.commute)
    then have "be_val (take i v @ [v ! i + 1]) = be_val (take (Suc i) v) + 1" by (simp add: i)
    then show ?thesis using e1 False
      by (intro exI [of _ False] exI [of _ i] exI [of _ "[v ! i + 1]"] exI [of _ e1])
        (simp add: Let_def loop_no_carry)
  qed
qed

lemma getSuccessor_run:
  assumes "hasWire c \<or> hasValue c" and "length (block_value c) = value_size c" and "value_size c < 2 ^ 31"
  shows "\<exists>b. wire b = Inr (tlv (m_type c) (next_value (block_value c)))
    \<and> elem_of b = (m_type c, next_value (block_value c)) \<and> value_size b = length (next_value (block_value c))
    \<and> Component_getSuccessor c = Component_of_block b"
proof -
  let ?v = "block_value c"
  have var: "emits enc_rep (Encoder_prependVarNumber m) (varnum m)" for m
    using enc.prepend_var [of m] by (simp add: EncoderTag_def)
  obtain sz where sz: "block_size c = Inr sz" using assms(1) by (auto simp: block_size_def)
  have tk: "take (value_size c) ?v = ?v" using assms(2) by simp
  have "value_size c \<le> length ?v" using assms(2) by simp
  note run = successor_loop_run [OF this Encoder_init_rep [of "sz + 1" 1], of 0, unfolded tk add_0 append_Nil2]
  obtain ov j w e1 where loop: "successor_loop ?v (value_size c) True 0 (Encoder_init (sz + 1) 1) = Inr (ov, j, length w, e1)"
      "j + length w = value_size c" "enc_rep e1 w"
      "if ov then j = 0 \<and> w = replicate (value_size c) 0 \<and> ?v = replicate (value_size c) 255
       else be_val (take j ?v @ w) = be_val ?v + 1"
    using run by blast
  obtain e2 where e2: "Encoder_prependByteArray (take j ?v) e1 = Inr (j, e2)" "enc_rep e2 (take j ?v @ w)"
    using emitsD [OF enc_array loop(3), of "take j ?v"] loop(2) assms(2) by auto
  define u where "u = take j ?v @ w @ (if ov then [0] else [])"
  have nv: "u = next_value ?v"
  proof (cases ov)
    case True
    then have rep: "?v = replicate (value_size c) 255" "j = 0" "w = replicate (value_size c) 0" using loop(4) by simp_all
    have "list_all (\<lambda>b. b = 255) ?v" unfolding rep(1) by (simp add: list_all_length)
    then have "next_value ?v = replicate (value_size c + 1) 0" by (simp add: next_value_def assms(2))
    moreover have "u = replicate (value_size c + 1) 0" using True by (simp add: u_def rep(2,3) replicate_append_same)
    ultimately show ?thesis by simp
  next
    case False
    then have v: "be_val u = be_val ?v + 1" "length u = length ?v" using loop(2,4) assms(2) by (simp_all add: u_def)
    then have "\<not> list_all (\<lambda>b. b = 255) ?v" using all_ones [of ?v] be_val_bound [of u] by auto
    moreover have "u = be_bytes (length ?v) (be_val ?v + 1)" using v be_bytes_val [of u] by simp
    ultimately show ?thesis by (simp add: next_value_def)
  qed
  obtain m e3 where e3: "(if ov then Encoder_appendByte 0 e2 else Inr (0, e2)) = Inr (m, e3)" "enc_rep e3 u"
      "length w + j + m = length u"
  proof (cases ov)
    case True
    obtain e3 where "Encoder_appendByte 0 e2 = Inr (1, e3)" "enc_rep e3 ((take j ?v @ w) @ [0])"
      using emits_backD [OF enc_back_array e2(2), of "[0]"] by (auto simp: appendByte_array)
    then show ?thesis using that [of 1 e3] loop(2) assms(2) True by (simp add: u_def)
  next
    case False
    then show ?thesis using that e2(2) loop(2) assms(2) by (auto simp: u_def)
  qed
  obtain e4 where e4: "Encoder_prependVarNumber (word_of_nat (length u)) e3 = Inr (length (varnum (word_of_nat (length u))), e4)"
      "enc_rep e4 (varnum (word_of_nat (length u)) @ u)"
    using emitsD [OF var e3(2)] by blast
  obtain e5 where e5: "Encoder_prependVarNumber (ucast (m_type c)) e4 = Inr (length (varnum (ucast (m_type c))), e5)"
      "enc_rep e5 (varnum (ucast (m_type c)) @ varnum (word_of_nat (length u)) @ u)"
    using emitsD [OF var e4(2)] by blast
  have "enc_rep e5 (tlv (m_type c) u)" using e5(2) by (simp add: tlv_def vartype_def)
  from Encoder_block_elem [OF this] obtain b where "Encoder_block e5 True = Inr b" "wire b = Inr (tlv (m_type c) u)"
      "elem_of b = (m_type c, u)" "value_size b = length u" by blast
  moreover have "Component_getSuccessor c = bindE (Encoder_block e5 True) Component_of_block"
    unfolding Component_getSuccessor_def sz bindE.simps loop(1) prod.case e2(1) e3(1) e3(3) e4(1) e5(1) by (rule refl)
  ultimately show ?thesis by (auto simp: nv)
qed

text \<open>
  The successor: for a generic component it is the least component after it in the canonical order,
  in its shortest wire format. For a digest it is too, until the digest is all ones: then there is no next
  digest, and \<open>getSuccessor\<close> throws. For a component without a buffer, as the default constructor makes
  it, \<open>size()\<close> throws.
\<close>

theorem getSuccessor_least:
  assumes "comp_ok c"
  shows "if \<not> hasWire c \<and> \<not> hasValue c then \<exists>msg. Component_getSuccessor c = Inl (BlockError msg)
    else if \<not> isGeneric c \<and> list_all (\<lambda>x. x = 255) (block_value c)
    then \<exists>msg. Component_getSuccessor c = Inl (ComponentError msg)
    else \<exists>d. Component_getSuccessor c = Inr d \<and> wire d = Inr (tlv (m_type d) (block_value d))
      \<and> comp_key c < comp_key d \<and> (\<forall>k. comp_key c < k \<longrightarrow> comp_key d \<le> k)"
proof -
  have len: "length (block_value c) = value_size c" "value_size c < 2 ^ 31"
    using assms comp_ok_value by (auto simp: comp_ok_def)
  have kind: "isGeneric c \<or> m_type c = 1 \<and> value_size c = 32"
    using assms by (auto simp: comp_ok_def isImplicitSha256Digest_def tlv_ImplicitSha256DigestComponent_def SHA256_DIGEST_SIZE_def)
  have nlen: "length (next_value v) = (if list_all (\<lambda>x. x = 255) v then length v + 1 else length v)" for v
    by (simp add: next_value_def)
  show ?thesis
  proof (cases "hasWire c \<or> hasValue c")
    case True
    from getSuccessor_run [OF True len] obtain b where b: "wire b = Inr (tlv (m_type c) (next_value (block_value c)))"
        "elem_of b = (m_type c, next_value (block_value c))" "value_size b = length (next_value (block_value c))"
        "Component_getSuccessor c = Component_of_block b"
      by blast
    have k: "comp_key b = Key (m_type c) (next_value (block_value c))" "comp_key c = Key (m_type c) (block_value c)"
        "m_type b = m_type c" "block_value b = next_value (block_value c)"
      using b(2) by (simp_all add: comp_key_def elem_of_def)
    show ?thesis using True b k kind next_value_least [of "m_type c" "block_value c"] len
      by (auto simp: Component_of_block_def isGeneric_def isImplicitSha256Digest_def SHA256_DIGEST_SIZE_def
          tlv_NameComponent_def tlv_ImplicitSha256DigestComponent_def nlen)
  next
    case False
    then show ?thesis by (simp add: Component_getSuccessor_def block_size_def)
  qed
qed

theorem getSuccessor_least_witness:
  "\<exists>d. Component_getSuccessor (Block_value tlv_NameComponent [1, 255]) = Inr d \<and> wire d = Inr (tlv (m_type d) (block_value d))
      \<and> comp_key (Block_value tlv_NameComponent [1, 255]) < comp_key d
      \<and> (\<forall>k. comp_key (Block_value tlv_NameComponent [1, 255]) < k \<longrightarrow> comp_key d \<le> k)"
proof -
  have c: "comp_ok (Block_value tlv_NameComponent [1, 255])"
    using canonical_value [of "[1, 255]"] by (simp add: canonical_def)
  have "hasValue (Block_value tlv_NameComponent [1, 255])" "isGeneric (Block_value tlv_NameComponent [1, 255])"
    by (simp_all add: hasValue_def isGeneric_def Block_value_def Let_def)
  then show ?thesis using getSuccessor_least [OF c] by simp
qed

end
