(* ===== verification/Name.thy ===== *)
theory Name
  imports Canonical
begin

text \<open>
  \<open>name.cpp\<close> and \<open>name.hpp\<close> of ndn-cxx. The only field of a \<open>Name\<close> is \<open>m_nameBlock\<close>, so a name is a
  \<open>block\<close>; its components are the sub-blocks, read as components without a check of their type.
\<close>

section \<open>Construction\<close>

definition tlv_Name :: "32 word" where "tlv_Name = 7"

definition Name_new :: block where "Name_new = Block_type tlv_Name"

definition Name_of_block :: "block \<Rightarrow> block result" where
  "Name_of_block w = (case parse w of (b, None) \<Rightarrow> Inr b | (b, Some e) \<Rightarrow> Inl e)"

definition Name_append :: "block \<Rightarrow> block \<Rightarrow> block" where
  "Name_append n c = push_back n c"

text \<open>\<open>std::string::find\<close> of a character from a position on.\<close>

definition find_from :: "byte \<Rightarrow> bytes \<Rightarrow> nat \<Rightarrow> nat option" where
  "find_from c s i =
     (let p = i + length (takeWhile (\<lambda>x. x \<noteq> c) (drop i s)) in if p < length s then Some p else None)"

function append_components :: "(bytes \<Rightarrow> bytes) \<Rightarrow> bytes \<Rightarrow> nat \<Rightarrow> block \<Rightarrow> block result" where
  "append_components hexDecoder uri iComponentStart n =
     (if iComponentStart < length uri then
        let iComponentEnd = (case find_from 47 uri iComponentStart of None \<Rightarrow> length uri | Some i \<Rightarrow> i) in
        bindE (fromEscapedString hexDecoder (range_of uri iComponentStart iComponentEnd)) (\<lambda>c.
        append_components hexDecoder uri (iComponentEnd + 1) (Name_append n c))
      else Inr n)"
  by auto
termination
  by (relation "measure (\<lambda>(h, uri, i, n). length uri - i)") (auto simp: find_from_def Let_def split: option.splits if_splits)

declare append_components.simps [simp del]

text \<open>The constructor first removes the scheme and the authority. Nothing is appended without a path.\<close>

definition omit_scheme :: "bytes \<Rightarrow> bytes" where
  "omit_scheme uri =
     (case find_from 58 uri 0 of
        None \<Rightarrow> uri
      | Some iColon \<Rightarrow>
          (case find_from 47 uri 0 of
             None \<Rightarrow> trim (drop (iColon + 1) uri)
           | Some iFirstSlash \<Rightarrow> if iColon < iFirstSlash then trim (drop (iColon + 1) uri) else uri))"

definition omit_authority :: "bytes \<Rightarrow> bytes option" where
  "omit_authority uri =
     (if uri \<noteq> [] \<and> uri ! 0 = 47 then
        if length uri \<ge> 2 \<and> uri ! 1 = 47 then
          (case find_from 47 uri 2 of
             None \<Rightarrow> None
           | Some iAfterAuthority \<Rightarrow> Some (trim (drop (iAfterAuthority + 1) uri)))
        else Some (trim (drop 1 uri))
      else Some uri)"

definition Name_of_uri :: "(bytes \<Rightarrow> bytes) \<Rightarrow> bytes \<Rightarrow> block result" where
  "Name_of_uri hexDecoder s =
     (let uri = trim s in
      if uri = [] then Inr Block_empty
      else case omit_authority (omit_scheme uri) of
        None \<Rightarrow> Inr Block_empty
      | Some path \<Rightarrow> append_components hexDecoder path 0 Block_empty)"


section \<open>Access\<close>

text \<open>Positions and counts are of type \<open>size_t\<close> or \<open>ssize_t\<close>, 64 bits.\<close>

definition npos :: "64 word" where "npos = - 1"

definition Name_size :: "block \<Rightarrow> 64 word" where
  "Name_size n = word_of_nat (length (m_subBlocks n))"

definition Name_empty :: "block \<Rightarrow> bool" where
  "Name_empty n \<longleftrightarrow> m_subBlocks n = []"

definition Name_get :: "block \<Rightarrow> 64 word \<Rightarrow> block result" where
  "Name_get n i =
     (let k = unat (if 0 \<le> sint i then i else Name_size n + i) in
      if k < length (m_subBlocks n) then Inr (m_subBlocks n ! k) else Inl (UndefinedBehaviour ''vector index''))"

definition Name_at :: "block \<Rightarrow> 64 word \<Rightarrow> block result" where
  "Name_at n i =
     (if 0 \<le> sint i \<and> i \<ge> Name_size n \<or> sint i < 0 \<and> - i > Name_size n
      then Inl (NameError ''Requested component does not exist (out of bounds)'')
      else Name_get n i)"

fun append_range :: "block \<Rightarrow> nat \<Rightarrow> nat \<Rightarrow> block \<Rightarrow> block result" where
  "append_range n i 0 r = Inr r"
| "append_range n i (Suc k) r =
     bindE (Name_at n (word_of_nat i)) (\<lambda>c. append_range n (i + 1) k (Name_append r c))"

text \<open>The loop runs from \<open>iStart\<close> to \<open>iEnd\<close>.\<close>

definition getSubName :: "block \<Rightarrow> 64 word \<Rightarrow> 64 word \<Rightarrow> block result" where
  "getSubName n iStartComponent nComponents =
     (let iStart = (if sint iStartComponent < 0 then Name_size n + iStartComponent else iStartComponent);
          iStart = (if sint iStart < 0 then 0 else iStart);
          iEnd = (if nComponents \<noteq> npos then min (Name_size n) (iStart + nComponents) else Name_size n)
      in append_range n (unat iStart) (unat iEnd - unat iStart) Name_new)"

definition getPrefix :: "block \<Rightarrow> 64 word \<Rightarrow> block result" where
  "getPrefix n nComponents =
     (if sint nComponents < 0 then getSubName n 0 (Name_size n + nComponents) else getSubName n 0 nComponents)"

text \<open>Appending a name to itself copies it first, so the components are those before the call.\<close>

definition Name_append_name :: "block \<Rightarrow> block \<Rightarrow> block result" where
  "Name_append_name n m = append_range m 0 (length (m_subBlocks m)) n"

definition append_value :: "block \<Rightarrow> bytes \<Rightarrow> block result" where
  "append_value n v = bindE (Component_of_value v) (\<lambda>c. Inr (Name_append n c))"

definition append_block :: "block \<Rightarrow> block \<Rightarrow> block result" where
  "append_block n b =
     (if m_type b = tlv_NameComponent then Inr (push_back n b)
      else bindE (Block_nested tlv_NameComponent b) (\<lambda>c. Inr (push_back n c)))"

definition appendNumber :: "block \<Rightarrow> 64 word \<Rightarrow> block result" where
  "appendNumber n number = bindE (fromNumber number) (\<lambda>c. Inr (push_back n c))"

definition appendNumberWithMarker :: "block \<Rightarrow> byte \<Rightarrow> 64 word \<Rightarrow> block result" where
  "appendNumberWithMarker n marker number = bindE (fromNumberWithMarker marker number) (\<lambda>c. Inr (push_back n c))"

definition appendVersion :: "block \<Rightarrow> 64 word \<Rightarrow> block result" where
  "appendVersion n version = bindE (fromVersion version) (\<lambda>c. Inr (push_back n c))"

definition appendSegment :: "block \<Rightarrow> 64 word \<Rightarrow> block result" where
  "appendSegment n segmentNo = bindE (fromSegment segmentNo) (\<lambda>c. Inr (push_back n c))"

definition appendSegmentOffset :: "block \<Rightarrow> 64 word \<Rightarrow> block result" where
  "appendSegmentOffset n offset = bindE (fromSegmentOffset offset) (\<lambda>c. Inr (push_back n c))"

definition appendSequenceNumber :: "block \<Rightarrow> 64 word \<Rightarrow> block result" where
  "appendSequenceNumber n seqNo = bindE (fromSequenceNumber seqNo) (\<lambda>c. Inr (push_back n c))"

definition appendImplicitSha256Digest :: "block \<Rightarrow> bytes \<Rightarrow> block result" where
  "appendImplicitSha256Digest n digest = bindE (fromImplicitSha256Digest digest) (\<lambda>c. Inr (push_back n c))"

definition Name_clear :: "block \<Rightarrow> block" where
  "Name_clear n = Block_type tlv_Name"

definition Name_getSuccessor :: "block \<Rightarrow> block result" where
  "Name_getSuccessor n =
     (if Name_empty n then append_value Name_new [0]
      else bindE (getPrefix n (- 1)) (\<lambda>p. bindE (Name_get n (- 1)) (\<lambda>c.
        bindE (Component_getSuccessor c) (\<lambda>s. Inr (Name_append p s)))))"


section \<open>Comparison\<close>

text \<open>The loop of \<open>equals\<close> and \<open>isPrefixOf\<close>: \<open>at(i) != name.at(i)\<close> for \<open>i\<close> from 0 to the size of the first name.\<close>

fun same_components :: "block \<Rightarrow> block \<Rightarrow> nat \<Rightarrow> nat \<Rightarrow> bool result" where
  "same_components n m i 0 = Inr True"
| "same_components n m i (Suc k) =
     bindE (Name_at n (word_of_nat i)) (\<lambda>c. bindE (Name_at m (word_of_nat i)) (\<lambda>d.
     if \<not> Component_equals c d then Inr False else same_components n m (i + 1) k))"

definition Name_equals :: "block \<Rightarrow> block \<Rightarrow> bool result" where
  "Name_equals n m =
     (if Name_size n \<noteq> Name_size m then Inr False else same_components n m 0 (length (m_subBlocks n)))"

definition isPrefixOf :: "block \<Rightarrow> block \<Rightarrow> bool result" where
  "isPrefixOf n m =
     (if Name_size n > Name_size m then Inr False else same_components n m 0 (length (m_subBlocks n)))"

function compare_loop :: "block \<Rightarrow> 64 word \<Rightarrow> block \<Rightarrow> 64 word \<Rightarrow> nat \<Rightarrow> nat \<Rightarrow> int result" where
  "compare_loop n pos1 m pos2 i count =
     (if i < count then
        bindE (Name_at n (pos1 + word_of_nat i)) (\<lambda>c. bindE (Name_at m (pos2 + word_of_nat i)) (\<lambda>d.
        let comp = Component_compare c d in
        if comp \<noteq> 0 then Inr comp else compare_loop n pos1 m pos2 (i + 1) count))
      else Inr 0)"
  by auto
termination
  by (relation "measure (\<lambda>(n, p, m, q, i, count). count - i)") auto

declare compare_loop.simps [simp del]

text \<open>The difference of the counts is returned as an \<open>int\<close>.\<close>

definition Name_compare_at :: "block \<Rightarrow> 64 word \<Rightarrow> 64 word \<Rightarrow> block \<Rightarrow> 64 word \<Rightarrow> 64 word \<Rightarrow> int result" where
  "Name_compare_at n pos1 count1 m pos2 count2 =
     (let count1 = min count1 (Name_size n - pos1);
          count2 = min count2 (Name_size m - pos2);
          count = min count1 count2
      in bindE (compare_loop n pos1 m pos2 0 (unat count)) (\<lambda>comp.
         if comp \<noteq> 0 then Inr comp else Inr (sint (ucast (count1 - count2) :: 32 word))))"

definition Name_compare :: "block \<Rightarrow> block \<Rightarrow> int result" where
  "Name_compare n m = Name_compare_at n 0 npos m 0 npos"


section \<open>Formats\<close>

definition Name_toUri :: "block \<Rightarrow> bytes" where
  "Name_toUri n =
     (if Name_empty n then [47] else concat (map (\<lambda>c. 47 # Component_toUri c) (m_subBlocks n)))"

text \<open>The components, the last one first.\<close>

fun prepend_components :: "'e encoding_impl \<Rightarrow> block list \<Rightarrow> 'e \<Rightarrow> (nat \<times> 'e) result" where
  "prepend_components T [] = (\<lambda>e. Inr (0, e))"
| "prepend_components T (c # cs) = addE (prepend_components T cs) (Component_wireEncode T c)"

definition Name_wireEncode :: "'e encoding_impl \<Rightarrow> block \<Rightarrow> 'e \<Rightarrow> (nat \<times> 'e) result" where
  "Name_wireEncode T n = with_header T tlv_Name (prepend_components T (m_subBlocks n))"

definition Name_wire :: "block \<Rightarrow> block result" where
  "Name_wire n =
     (if hasWire n then Inr n
      else bindE (make_block (Name_wireEncode EstimatorTag n) (Name_wireEncode EncoderTag n)) (\<lambda>b.
        case parse b of (b, None) \<Rightarrow> Inr b | (b, Some e) \<Rightarrow> Inl e))"

text \<open>The name after the call, and the exception it threw.\<close>

definition Name_wireDecode :: "block \<Rightarrow> block \<Rightarrow> block \<times> exn option" where
  "Name_wireDecode n w =
     (if m_type w \<noteq> tlv_Name then (n, Some (TlvError ''Unexpected TLV type when decoding Name'')) else parse w)"

definition deepCopy :: "block \<Rightarrow> block result" where
  "deepCopy n = Name_wire (resetWire n)"

end
