(* ===== verification/NameProps.thy ===== *)
theory NameProps
  imports Name
begin

text \<open>
  What holds of names: access by signed positions, sub-names and prefixes, the order of names, and the
  round trips of the URI and of the wire format.
\<close>

section \<open>Positions\<close>

definition few :: "block \<Rightarrow> bool" where
  "few n \<longleftrightarrow> length (m_subBlocks n) < 2 ^ 31"

lemma few_size [simp]: "few n \<Longrightarrow> unat (Name_size n) = length (m_subBlocks n)"
  by (simp add: few_def Name_size_def unat_of_nat)

lemma sint_nonneg:
  assumes "0 \<le> sint (w :: 64 word)"
  shows "sint w = int (unat w)"
proof -
  have "sint w < 2 ^ 63" using sint_lt [of w] by simp
  then have "uint w = sint w" using uint_sint [of w] assms by (simp add: take_bit_int_eq_self)
  then show ?thesis by simp
qed

lemma sint_small [simp]: "k < 2 ^ 63 \<Longrightarrow> sint (word_of_nat k :: 64 word) = int k"
  by (subst sint_sbintrunc' [of "int k", simplified]) (simp add: signed_take_bit_int_eq_self)

lemma unat_small: "k < 2 ^ 63 \<Longrightarrow> unat (word_of_nat k :: 64 word) = k"
  by (simp add: unat_of_nat)

lemma sint_from_end:
  assumes "sint i < 0" and "l < 2 ^ 63"
  shows "sint (word_of_nat l + (i :: 64 word)) = int l + sint i"
proof -
  have "- (2 ^ 63) \<le> sint i" using sint_ge [of i] by simp
  moreover have "word_of_nat l + i = word_of_int (int l + sint i)" by simp
  ultimately show ?thesis using assms by (simp only: sint_sbintrunc') (simp add: signed_take_bit_int_eq_self)
qed

lemma Name_at_nat:
  assumes "few n" and "k < 2 ^ 63"
  shows "Name_at n (word_of_nat k) = (if k < length (m_subBlocks n) then Inr (m_subBlocks n ! k)
    else Inl (NameError ''Requested component does not exist (out of bounds)''))"
  using assms few_size [OF assms(1)]
  by (simp add: Name_at_def Name_get_def word_le_nat_alt unat_small not_le)

text \<open>A run of components is appended in order.\<close>

lemma append_range_run:
  assumes "few n" and "i + k \<le> length (m_subBlocks n)"
  shows "append_range n i k r = Inr (if k = 0 then r
    else set_subBlocks (resetWire r) (m_subBlocks r @ take k (drop i (m_subBlocks n))))"
  using assms(2)
proof (induction k arbitrary: i r)
  case (Suc k)
  then have i: "i < length (m_subBlocks n)" "i < 2 ^ 63" using assms(1) by (simp_all add: few_def)
  have "take (Suc k) (drop i (m_subBlocks n)) = m_subBlocks n ! i # take k (drop (Suc i) (m_subBlocks n))"
    using i(1) by (simp add: take_Suc_conv_app_nth Cons_nth_drop_Suc [symmetric])
  then show ?case using Suc Name_at_nat [OF assms(1) i(2)] i(1)
    by (auto simp: Name_append_def push_back_def set_subBlocks_def resetWire_def)
qed simp

lemma append_range_subs:
  assumes "few n" and "i + k \<le> length (m_subBlocks n)"
  shows "\<exists>r'. append_range n i k r = Inr r' \<and> m_subBlocks r' = m_subBlocks r @ take k (drop i (m_subBlocks n))
    \<and> m_type r' = m_type r"
  using append_range_run [OF assms] by (auto simp: resetWire_def)

lemma Name_new_subs [simp]: "m_subBlocks Name_new = []"
  by (simp add: Name_new_def Block_type_def)

lemma Name_new_type [simp]: "m_type Name_new = tlv_Name"
  by (simp add: Name_new_def Block_type_def)

text \<open>Where a sub-name starts and how many components it has.\<close>

definition sub_start :: "block \<Rightarrow> 64 word \<Rightarrow> nat" where
  "sub_start n i = nat (if sint i < 0 then int (length (m_subBlocks n)) + sint i else sint i)"

lemma getSubName_run:
  assumes "few n"
  shows "\<exists>r. getSubName n i k = Inr r \<and> m_type r = tlv_Name \<and> m_subBlocks r =
    (if k = npos \<or> sub_start n i + unat k < 2 ^ 64
     then take (unat k) (drop (sub_start n i) (m_subBlocks n)) else [])"
proof -
  let ?xs = "m_subBlocks n"
  define s where "s = sub_start n i"
  have len: "length ?xs < 2 ^ 63" using assms by (simp add: few_def)
  define a where "a = (if sint i < 0 then Name_size n + i else i)"
  define b where "b = (if sint a < 0 then 0 else a)"
  have sa: "sint a = (if sint i < 0 then int (length ?xs) + sint i else sint i)"
    using sint_from_end [OF _ len, of i] by (simp add: a_def Name_size_def)
  have b: "unat b = s" unfolding b_def s_def sub_start_def sa [symmetric] using sint_nonneg [of a] by auto
  have s64: "s < 2 ^ 63" using sint_lt [of a] by (simp add: s_def sub_start_def sa [symmetric])
  define e where "e = (if k \<noteq> npos then min (Name_size n) (b + k) else Name_size n)"
  have get: "getSubName n i k = append_range n s (unat e - s) Name_new"
    unfolding getSubName_def Let_def a_def [symmetric] b_def [symmetric] e_def [symmetric] b by (rule refl)
  have kb: "unat k < 2 ^ 64" using unsigned_less [of k] by simp
  have np: "unat npos = 2 ^ 64 - 1" by (simp add: npos_def unsigned_minus_1_eq_mask mask_eq_exp_minus_1)
  have plus: "unat (b + k) = (s + unat k) mod 2 ^ 64" using b by (simp add: unat_word_ariths)
  have le: "unat e \<le> length ?xs" using few_size [OF assms] by (auto simp: e_def min_def word_le_nat_alt)
  show ?thesis
  proof (cases "unat e \<le> s")
    case True
    have nil: "(if k = npos \<or> s + unat k < 2 ^ 64 then take (unat k) (drop s ?xs) else []) = []"
    proof (cases "k = npos")
      case True
      then have "length ?xs \<le> s" using \<open>unat e \<le> s\<close> few_size [OF assms] by (simp add: e_def)
      then show ?thesis by simp
    next
      case False
      then have "s + unat k < 2 ^ 64 \<Longrightarrow> length ?xs \<le> s \<or> unat k = 0"
        using \<open>unat e \<le> s\<close> few_size [OF assms] plus by (auto simp: e_def min_def word_le_nat_alt split: if_splits)
      then show ?thesis using False by auto
    qed
    show ?thesis unfolding get s_def [symmetric] nil using True by simp
  next
    case False
    then have run: "\<exists>r. append_range n s (unat e - s) Name_new = Inr r
        \<and> m_subBlocks r = take (unat e - s) (drop s ?xs) \<and> m_type r = tlv_Name"
      using append_range_subs [OF assms, of s "unat e - s" Name_new] le by auto
    have "take (unat e - s) (drop s ?xs) = (if k = npos \<or> s + unat k < 2 ^ 64 then take (unat k) (drop s ?xs) else [])"
    proof (cases "k = npos")
      case True
      then have "unat e - s = length (drop s ?xs)" using few_size [OF assms] by (simp add: e_def)
      then show ?thesis using True len np by simp
    next
      case kn: False
      have lt: "s + unat k < 2 ^ 64"
      proof (rule ccontr)
        assume "\<not> s + unat k < 2 ^ 64"
        moreover from this have "(s + unat k) mod 2 ^ 64 = s + unat k - 2 ^ 64"
          using s64 kb by (simp add: mod_if)
        ultimately have "unat (b + k) < s" using plus kb s64 by linarith
        then have "unat e < s" using kn by (auto simp: e_def min_def word_le_nat_alt)
        then show False using False by simp
      qed
      then have "unat (b + k) = s + unat k" using plus by simp
      then have "unat e = min (length ?xs) (s + unat k)"
        using kn few_size [OF assms] by (auto simp: e_def min_def word_le_nat_alt)
      then show ?thesis using lt by (auto simp: min_def)
    qed
    then show ?thesis using run by (auto simp: get s_def [symmetric])
  qed
qed

text \<open>
  Sub-names: a negative start counts from the end of the name and is cut at its beginning, and the
  components are copied in order. When the start and the number of components add up to \<open>2 ^ 64\<close> or
  more, the sum wraps and the sub-name is empty, where all the components up to the end are documented.
\<close>

theorem getSubName_components:
  assumes "length (m_subBlocks n) < 2 ^ 31"
  shows "\<exists>r. getSubName n i k = Inr r \<and> m_type r = tlv_Name \<and> m_subBlocks r =
    (let s = nat (if sint i < 0 then int (length (m_subBlocks n)) + sint i else sint i)
     in if k = npos \<or> s + unat k < 2 ^ 64 then take (unat k) (drop s (m_subBlocks n)) else [])"
  unfolding Let_def sub_start_def [symmetric] by (rule getSubName_run) (unfold few_def, rule assms)

definition demo_name :: block where
  "demo_name = set_subBlocks Name_new [Block_value tlv_NameComponent [97], Block_value tlv_NameComponent [98]]"

theorem getSubName_components_witness:
  "\<exists>r. getSubName demo_name (- 1) npos = Inr r \<and> m_type r = tlv_Name \<and> m_subBlocks r =
    (let s = nat (if sint (- 1 :: 64 word) < 0 then int (length (m_subBlocks demo_name)) + sint (- 1 :: 64 word)
       else sint (- 1 :: 64 word))
     in if npos = npos \<or> s + unat npos < 2 ^ 64 then take (unat npos) (drop s (m_subBlocks demo_name)) else [])"
  by (rule getSubName_components) (simp add: demo_name_def)

text \<open>
  Prefixes: \<open>getPrefix\<close> of a number of components, and of a negative number that is not larger than
  the name, takes as many components from the front. With a larger negative number, it is the whole name.
\<close>

theorem getPrefix_components:
  assumes "length (m_subBlocks n) < 2 ^ 31"
  shows "\<exists>r. getPrefix n i = Inr r \<and> m_type r = tlv_Name \<and> m_subBlocks r =
    (if sint i < - int (length (m_subBlocks n)) then m_subBlocks n
     else take (nat (if sint i < 0 then int (length (m_subBlocks n)) + sint i else sint i)) (m_subBlocks n))"
proof -
  let ?l = "length (m_subBlocks n)"
  have f: "few n" and l: "?l < 2 ^ 63" using assms by (simp_all add: few_def)
  define k where "k = (if sint i < 0 then Name_size n + i else i)"
  have sk: "sint k = (if sint i < 0 then int ?l + sint i else sint i)"
    using sint_from_end [OF _ l, of i] by (simp add: k_def Name_size_def)
  have "getPrefix n i = getSubName n 0 k" by (simp add: getPrefix_def k_def)
  moreover obtain r where r: "getSubName n 0 k = Inr r" "m_type r = tlv_Name"
      "m_subBlocks r = (if k = npos \<or> unat k < 2 ^ 64 then take (unat k) (m_subBlocks n) else [])"
    using getSubName_run [OF f, of 0 k] by (auto simp: sub_start_def)
  moreover have "unat k < 2 ^ 64" using unsigned_less [of k] by simp
  moreover have "take (unat k) (m_subBlocks n) = m_subBlocks n" if "sint k < 0"
  proof -
    have "2 ^ 63 \<le> unat k"
    proof (rule ccontr)
      assume "\<not> 2 ^ 63 \<le> unat k"
      then show False using sint_small [of "unat k"] that by simp
    qed
    then show ?thesis using l by simp
  qed
  moreover have "0 \<le> sint k \<Longrightarrow> unat k = nat (sint k)" using sint_nonneg [of k] by simp
  ultimately show ?thesis using sk by (auto split: if_splits)
qed

theorem getPrefix_components_witness:
  "\<exists>r. getPrefix demo_name (- 3) = Inr r \<and> m_type r = tlv_Name \<and> m_subBlocks r =
    (if sint (- 3 :: 64 word) < - int (length (m_subBlocks demo_name)) then m_subBlocks demo_name
     else take (nat (if sint (- 3 :: 64 word) < 0 then int (length (m_subBlocks demo_name)) + sint (- 3 :: 64 word)
       else sint (- 3 :: 64 word))) (m_subBlocks demo_name))"
  by (rule getPrefix_components) (simp add: demo_name_def)



section \<open>Comparison\<close>

lemma same_components_run:
  assumes "few n" and "few m" and "i + k \<le> length (m_subBlocks n)" and "i + k \<le> length (m_subBlocks m)"
  shows "same_components n m i k
    = Inr (list_all2 Component_equals (take k (drop i (m_subBlocks n))) (take k (drop i (m_subBlocks m))))"
  using assms(3,4)
proof (induction k arbitrary: i)
  case (Suc k)
  then have i: "i < length (m_subBlocks n)" "i < length (m_subBlocks m)" "i < 2 ^ 63"
    using assms(1) by (simp_all add: few_def)
  have "take (Suc k) (drop i xs) = xs ! i # take k (drop (Suc i) xs)" if "i < length xs" for xs :: "block list"
    using that by (simp add: Cons_nth_drop_Suc [symmetric])
  then show ?case using Suc i Name_at_nat [OF assms(1) i(3)] Name_at_nat [OF assms(2) i(3)] by simp
qed simp

lemma Name_size_eq: "few n \<Longrightarrow> few m \<Longrightarrow> Name_size n = Name_size m \<longleftrightarrow> length (m_subBlocks n) = length (m_subBlocks m)"
  by (simp add: word_unat_eq_iff)

lemma Name_size_less: "few n \<Longrightarrow> few m \<Longrightarrow> Name_size n < Name_size m \<longleftrightarrow> length (m_subBlocks n) < length (m_subBlocks m)"
  by (simp add: word_less_nat_alt)

lemma Name_equals_run:
  assumes "few n" and "few m"
  shows "Name_equals n m = Inr (list_all2 Component_equals (m_subBlocks n) (m_subBlocks m))"
proof (cases "length (m_subBlocks n) = length (m_subBlocks m)")
  case True
  then show ?thesis
    using same_components_run [OF assms, of 0 "length (m_subBlocks n)"] Name_size_eq [OF assms] by (simp add: Name_equals_def)
next
  case False
  then show ?thesis using Name_size_eq [OF assms] list_all2_lengthD
    by (fastforce simp: Name_equals_def)
qed

lemma isPrefixOf_run:
  assumes "few n" and "few m"
  shows "isPrefixOf n m = Inr (list_all2 Component_equals (m_subBlocks n)
    (take (length (m_subBlocks n)) (m_subBlocks m)))"
proof (cases "length (m_subBlocks m) < length (m_subBlocks n)")
  case True
  moreover have "\<not> list_all2 Component_equals (m_subBlocks n) (take (length (m_subBlocks n)) (m_subBlocks m))"
    using True list_all2_lengthD by fastforce
  ultimately show ?thesis using Name_size_less [OF assms(2,1)] by (simp add: isPrefixOf_def)
next
  case False
  then show ?thesis
    using same_components_run [OF assms, of 0 "length (m_subBlocks n)"] Name_size_less [OF assms(2,1)]
    by (simp add: isPrefixOf_def)
qed

text \<open>What names are about: the types and values of their components.\<close>

definition name_ok :: "block \<Rightarrow> bool" where
  "name_ok n \<longleftrightarrow> few n \<and> list_all comp_ok (m_subBlocks n)"

definition name_keys :: "block \<Rightarrow> comp_key list" where
  "name_keys n = map comp_key (m_subBlocks n)"

lemma equal_keys:
  "list_all comp_ok xs \<Longrightarrow> list_all comp_ok ys \<Longrightarrow> list_all2 Component_equals xs ys \<longleftrightarrow> map comp_key xs = map comp_key ys"
proof (induction xs arbitrary: ys)
  case (Cons x xs)
  then show ?case by (cases ys) (auto simp: equals_key)
qed auto

text \<open>
  Equality and prefixes of names: \<open>equals\<close> holds when the types and values of all components agree,
  and \<open>isPrefixOf\<close> when those of the first name are a prefix of those of the second; a name is a prefix
  of another exactly when it equals the \<open>getPrefix\<close> of its own size.
\<close>

theorem isPrefixOf_keys:
  assumes "name_ok n" and "name_ok m"
  shows "Name_equals n m = Inr (name_keys n = name_keys m)
    \<and> isPrefixOf n m = Inr (take (length (name_keys n)) (name_keys m) = name_keys n)"
proof -
  have f: "few n" "few m" "list_all comp_ok (m_subBlocks n)" "list_all comp_ok (m_subBlocks m)"
    using assms by (simp_all add: name_ok_def)
  have "list_all comp_ok (take k (m_subBlocks m))" for k using f(4) by (auto simp: list_all_iff dest: in_set_takeD)
  then show ?thesis using f Name_equals_run [OF f(1,2)] isPrefixOf_run [OF f(1,2)] equal_keys
    by (auto simp: name_keys_def take_map)
qed

lemma demo_name_ok: "name_ok demo_name"
  using canonical_value [of "[97]"] canonical_value [of "[98]"]
  by (simp add: name_ok_def few_def demo_name_def canonical_def)

theorem isPrefixOf_keys_witness:
  "Name_equals demo_name demo_name = Inr (name_keys demo_name = name_keys demo_name)
    \<and> isPrefixOf demo_name demo_name = Inr (take (length (name_keys demo_name)) (name_keys demo_name) = name_keys demo_name)"
  by (rule isPrefixOf_keys [OF demo_name_ok demo_name_ok])

lemma compare_loop_run:
  assumes "few n" and "few m" and "p + length xs \<le> length (m_subBlocks n)" and "q + length ys \<le> length (m_subBlocks m)"
    and "xs = take (length xs) (drop p (m_subBlocks n))" and "ys = take (length ys) (drop q (m_subBlocks m))"
    and "i \<le> min (length xs) (length ys)"
  shows "\<exists>c. compare_loop n (word_of_nat p) m (word_of_nat q) i (min (length xs) (length ys)) = Inr c
    \<and> component.cmp_list (drop i xs) (drop i ys) = (if c \<noteq> 0 then c else int (length xs) - int (length ys))"
  using assms(7)
proof (induction "min (length xs) (length ys) - i" arbitrary: i)
  case 0
  then have "drop i xs = [] \<or> drop i ys = []" "i = length xs \<or> i = length ys" by auto
  then have "component.cmp_list (drop i xs) (drop i ys) = int (length (drop i xs)) - int (length (drop i ys))"
    by (cases "drop i xs"; cases "drop i ys") auto
  then show ?case using 0 by (subst compare_loop.simps) auto
next
  case (Suc k)
  then have i: "i < length xs" "i < length ys" by simp_all
  have b: "p + i < length (m_subBlocks n)" "q + i < length (m_subBlocks m)" "p + i < 2 ^ 63" "q + i < 2 ^ 63"
    using i assms(1-4) by (auto simp: few_def)
  have "xs ! i = take (length xs) (drop p (m_subBlocks n)) ! i" "ys ! i = take (length ys) (drop q (m_subBlocks m)) ! i"
    using assms(5,6) by simp_all
  then have x: "xs ! i = m_subBlocks n ! (p + i)" "ys ! i = m_subBlocks m ! (q + i)" using i b by simp_all
  have at: "Name_at n (word_of_nat p + word_of_nat i) = Inr (xs ! i)" "Name_at m (word_of_nat q + word_of_nat i) = Inr (ys ! i)"
    using Name_at_nat [OF assms(1) b(3)] Name_at_nat [OF assms(2) b(4)] b x by simp_all
  have l: "component.cmp_list (drop i xs) (drop i ys) = (if Component_compare (xs ! i) (ys ! i) \<noteq> 0
      then Component_compare (xs ! i) (ys ! i) else component.cmp_list (drop (Suc i) xs) (drop (Suc i) ys))"
    using i by (simp add: Cons_nth_drop_Suc [symmetric])
  have "k = min (length xs) (length ys) - (i + 1)" "i + 1 \<le> min (length xs) (length ys)" using Suc by auto
  from Suc.hyps(1) [OF this] obtain c where
    "compare_loop n (word_of_nat p) m (word_of_nat q) (i + 1) (min (length xs) (length ys)) = Inr c"
    "component.cmp_list (drop (Suc i) xs) (drop (Suc i) ys) = (if c \<noteq> 0 then c else int (length xs) - int (length ys))"
    by auto
  then show ?case using i at l by (subst compare_loop.simps) (auto simp: Let_def)
qed

lemma count_diff:
  assumes "a < 2 ^ 31" and "b < 2 ^ 31"
  shows "sint (ucast (word_of_nat a - word_of_nat b :: 64 word) :: 32 word) = int a - int b"
proof -
  have "(word_of_nat a - word_of_nat b :: 64 word) = word_of_int (int a - int b)" by simp
  moreover have "(ucast (word_of_int k :: 64 word) :: 32 word) = word_of_int k" for k
    by (rule bit_word_eqI) (simp add: bit_simps)
  ultimately show ?thesis using sint_diff [OF assms] by (simp only:)
qed

text \<open>The components a comparison looks at.\<close>

definition selected :: "block \<Rightarrow> 64 word \<Rightarrow> 64 word \<Rightarrow> block list" where
  "selected n pos count = take (unat count) (drop (unat pos) (m_subBlocks n))"

lemma Name_compare_at_run:
  assumes "few n" and "few m" and "pos1 \<le> Name_size n" and "pos2 \<le> Name_size m"
  shows "Name_compare_at n pos1 count1 m pos2 count2
    = Inr (component.cmp_list (selected n pos1 count1) (selected m pos2 count2))"
proof -
  have sel: "unat (min k (Name_size x - p)) = length (selected x p k) \<and> unat p + length (selected x p k) \<le> length (m_subBlocks x)
      \<and> length (selected x p k) < 2 ^ 31 \<and> selected x p k = take (length (selected x p k)) (drop (unat p) (m_subBlocks x))"
    if "few x" "p \<le> Name_size x" for x p k
  proof -
    have d: "unat (Name_size x - p) = length (m_subBlocks x) - unat p" using that by (simp add: unat_sub_if' word_le_nat_alt)
    have "unat (min k (Name_size x - p)) = min (unat k) (unat (Name_size x - p))" by (simp add: min_def word_le_nat_alt)
    moreover have "unat p \<le> length (m_subBlocks x)" using that by (simp add: word_le_nat_alt)
    ultimately show ?thesis using d that(1) by (auto simp: selected_def few_def min_def)
  qed
  define xs ys where xy: "xs = selected n pos1 count1" "ys = selected m pos2 count2"
  note x = sel [OF assms(1,3), of count1, folded xy] and y = sel [OF assms(2,4), of count2, folded xy]
  have inv: "word_of_nat (unat k) = k" for k :: "64 word" by simp
  have w: "min count1 (Name_size n - pos1) = word_of_nat (length xs)" "min count2 (Name_size m - pos2) = word_of_nat (length ys)"
    using x y inv [of "min count1 (Name_size n - pos1)"] inv [of "min count2 (Name_size m - pos2)"] by simp_all
  have "unat (min (word_of_nat (length xs)) (word_of_nat (length ys)) :: 64 word) = min (length xs) (length ys)"
    using x y by (simp add: min_def word_le_nat_alt unat_small)
  moreover obtain c where c: "compare_loop n pos1 m pos2 0 (min (length xs) (length ys)) = Inr c"
      "component.cmp_list xs ys = (if c \<noteq> 0 then c else int (length xs) - int (length ys))"
    using compare_loop_run [OF assms(1,2), of "unat pos1" xs "unat pos2" ys 0] x y by auto
  moreover have "sint (ucast (word_of_nat (length xs) - word_of_nat (length ys) :: 64 word) :: 32 word)
      = int (length xs) - int (length ys)"
    using x y by (intro count_diff) simp_all
  ultimately show ?thesis unfolding Name_compare_at_def w Let_def xy [symmetric] by simp
qed

text \<open>
  The canonical order of names: \<open>compare\<close> of ranges inside two names has the sign of the
  lexicographic comparison of the canonical orders of their components, a proper prefix coming first;
  so it is a total order on what names are about.
\<close>

theorem Name_compare_lexicographic:
  assumes "few n" and "few m" and "list_all canonical (m_subBlocks n)" and "list_all canonical (m_subBlocks m)"
    and "pos1 \<le> Name_size n" and "pos2 \<le> Name_size m"
  shows "\<exists>c. Name_compare_at n pos1 count1 m pos2 count2 = Inr c
    \<and> sgn c = cmp3 (map comp_key (selected n pos1 count1)) (map comp_key (selected m pos2 count2))"
proof -
  have "list_all canonical (selected n pos1 count1)" "list_all canonical (selected m pos2 count2)"
    using assms(3,4) by (auto simp: selected_def list_all_iff dest!: in_set_takeD in_set_dropD)
  from component.sgn_cmp_list [OF this] show ?thesis using Name_compare_at_run [OF assms(1,2,5,6)] by simp
qed

theorem Name_compare_lexicographic_witness:
  "\<exists>c. Name_compare_at demo_name 0 npos demo_name 1 npos = Inr c
    \<and> sgn c = cmp3 (map comp_key (selected demo_name 0 npos)) (map comp_key (selected demo_name 1 npos))"
  by (rule Name_compare_lexicographic)
    (use canonical_value [of "[97]"] canonical_value [of "[98]"] in \<open>simp_all add: few_def demo_name_def Name_size_def\<close>)

text \<open>
  Comparing from a position behind the end of a name: the number of components wraps, so that \<open>at\<close>
  throws, although the comparison of the sub-names, to which it is documented to be equivalent, compares
  an empty name.
\<close>

theorem Name_compare_beyond:
  assumes "few n" and "few m" and "Name_size n < pos1" and "unat pos1 < 2 ^ 63" and "pos2 < Name_size m"
    and "count1 \<noteq> 0" and "count2 \<noteq> 0"
  shows "Name_compare_at n pos1 count1 m pos2 count2
      = Inl (NameError ''Requested component does not exist (out of bounds)'')
    \<and> (\<exists>a b. getSubName n pos1 count1 = Inr a \<and> getSubName m pos2 count2 = Inr b \<and> m_subBlocks a = []
        \<and> Name_compare a b = Inr (- int (length (m_subBlocks b))))"
proof -
  define c where "c = min (min count1 (Name_size n - pos1)) (min count2 (Name_size m - pos2))"
  have "Name_size n - pos1 \<noteq> 0" "Name_size m - pos2 \<noteq> 0" using assms(3,5) by auto
  then have "0 < unat c" using assms(6,7) by (auto simp: c_def min_def unat_gt_0)
  moreover have l: "length (m_subBlocks n) < unat pos1" using assms(1,3) by (simp add: word_less_nat_alt)
  then have "Name_at n pos1 = Inl (NameError ''Requested component does not exist (out of bounds)'')"
    using Name_at_nat [OF assms(1,4)] by simp
  ultimately have "compare_loop n pos1 m pos2 0 (unat c) = Inl (NameError ''Requested component does not exist (out of bounds)'')"
    by (subst compare_loop.simps) simp
  then have err: "Name_compare_at n pos1 count1 m pos2 count2
      = Inl (NameError ''Requested component does not exist (out of bounds)'')"
    by (simp add: Name_compare_at_def Let_def c_def)
  have "sub_start n pos1 = unat pos1" using assms(4) sint_small [of "unat pos1"] by (simp add: sub_start_def)
  then obtain a where a: "getSubName n pos1 count1 = Inr a" "m_subBlocks a = []"
    using getSubName_run [OF assms(1), of pos1 count1] l by auto
  obtain b where b: "getSubName m pos2 count2 = Inr b" "length (m_subBlocks b) \<le> length (m_subBlocks m)"
    using getSubName_run [OF assms(2), of pos2 count2] by (auto split: if_splits)
  have f: "few a" "few b" using a(2) b(2) assms(2) by (simp_all add: few_def)
  have "Name_compare a b = Inr (component.cmp_list (selected a 0 npos) (selected b 0 npos))"
    unfolding Name_compare_def by (rule Name_compare_at_run [OF f]) simp_all
  also have "\<dots> = Inr (- int (length (m_subBlocks b)))"
  proof -
    have "unat npos = 2 ^ 64 - 1" by (simp add: npos_def unsigned_minus_1_eq_mask mask_eq_exp_minus_1)
    then have "selected b 0 npos = m_subBlocks b" "selected a 0 npos = []" using f a(2) by (simp_all add: selected_def few_def)
    then show ?thesis by (cases "m_subBlocks b") simp_all
  qed
  finally show ?thesis using err a b(1) by blast
qed

theorem Name_compare_beyond_witness:
  "Name_compare_at demo_name 3 npos demo_name 0 npos
      = Inl (NameError ''Requested component does not exist (out of bounds)'')
    \<and> (\<exists>a b. getSubName demo_name 3 npos = Inr a \<and> getSubName demo_name 0 npos = Inr b \<and> m_subBlocks a = []
        \<and> Name_compare a b = Inr (- int (length (m_subBlocks b))))"
  by (rule Name_compare_beyond) (simp_all add: few_def demo_name_def Name_size_def npos_def)


section \<open>The successor\<close>

lemma list_less_snoc:
  "(p @ [x] :: 'a :: linorder list) < p @ [y] \<longleftrightarrow> x < y" "p < (p @ [x] :: 'a :: linorder list)"
  by (induction p) simp_all

lemma list_next_snoc:
  assumes "\<forall>z. x < z \<longrightarrow> y \<le> z" and "length ks = length p + 1" and "p @ [x] < ks"
  shows "p @ [y] \<le> (ks :: 'a :: linorder list)"
  using assms(2,3)
proof (induction p arbitrary: ks)
  case Nil
  then obtain z where "ks = [z]" by (cases ks) auto
  then show ?case using Nil(2) assms(1) by auto
next
  case (Cons a p)
  then obtain b bs where "ks = b # bs" by (cases ks) auto
  then show ?case using Cons by auto
qed

text \<open>
  The successor of a name, when its last component is generic and has a value: the same name with
  the last component advanced. Among the names of as many components it is the least one after the name.
  But it is not the successor that is documented, with no name in between: every longer name that
  extends the name lies between the two.
\<close>

theorem Name_getSuccessor_between:
  assumes "name_ok n" and "m_subBlocks n \<noteq> []" and "isGeneric (List.last (m_subBlocks n))" and "hasValue (List.last (m_subBlocks n))"
  shows "\<exists>m. Name_getSuccessor n = Inr m \<and> name_keys n < name_keys m
    \<and> (\<forall>ks. length ks = length (name_keys n) \<and> name_keys n < ks \<longrightarrow> name_keys m \<le> ks)
    \<and> (\<forall>ks. ks \<noteq> [] \<longrightarrow> name_keys n < name_keys n @ ks \<and> name_keys n @ ks < name_keys m)"
proof -
  let ?xs = "m_subBlocks n"
  let ?c = "List.last ?xs"
  have f: "few n" "list_all comp_ok ?xs" using assms(1) by (simp_all add: name_ok_def)
  have c: "comp_ok ?c" using f(2) assms(2) by (simp add: list_all_iff)
  have xs: "?xs = butlast ?xs @ [?c]" using assms(2) by simp
  have len: "length (block_value ?c) = value_size ?c" "value_size ?c < 2 ^ 31"
    using c comp_ok_value by (auto simp: comp_ok_def)
  obtain s where s: "elem_of s = (m_type ?c, next_value (block_value ?c))" "Component_getSuccessor ?c = Component_of_block s"
    using getSuccessor_run [OF _ len] assms(4) by auto
  have sk: "comp_key s = Key (m_type ?c) (next_value (block_value ?c))" "comp_key ?c = Key (m_type ?c) (block_value ?c)"
      "m_type s = m_type ?c"
    using s(1) by (simp_all add: comp_key_def elem_of_def)
  have gen: "Component_getSuccessor ?c = Inr s" using s(2) sk(3) assms(3) by (simp add: Component_of_block_def isGeneric_def)
  have pos: "0 < length ?xs" "length ?xs < 2 ^ 31" using assms(2) f(1) by (simp_all add: few_def)
  then have "Name_size n - 1 = word_of_nat (length ?xs - 1)"
    by (cases "length ?xs") (simp_all add: Name_size_def)
  then have u: "unat (Name_size n - 1) = length ?xs - 1" using pos by (simp only:) (simp add: unat_small)
  obtain p where p: "getPrefix n (- 1) = Inr p" "m_subBlocks p = butlast ?xs"
  proof -
    have "sub_start n 0 + unat (Name_size n - 1) < 2 ^ 64" using u pos by (simp add: sub_start_def)
    then obtain p where "getSubName n 0 (Name_size n - 1) = Inr p" "m_subBlocks p = take (length ?xs - 1) ?xs"
      using getSubName_run [OF f(1), of 0 "Name_size n - 1"] u by (auto simp: sub_start_def)
    then show ?thesis using that by (simp add: getPrefix_def butlast_conv_take)
  qed
  have "Name_get n (- 1) = Inr ?c" using u pos assms(2) by (simp add: Name_get_def last_conv_nth)
  then have m: "Name_getSuccessor n = Inr (Name_append p s)"
    using p(1) gen assms(2) by (simp add: Name_getSuccessor_def Name_empty_def)
  let ?p = "map comp_key (butlast ?xs)"
  have k: "name_keys n = ?p @ [comp_key ?c]" "name_keys (Name_append p s) = ?p @ [comp_key s]"
  proof -
    show "name_keys n = ?p @ [comp_key ?c]" unfolding name_keys_def by (subst xs) simp
    show "name_keys (Name_append p s) = ?p @ [comp_key s]"
      by (simp add: name_keys_def Name_append_def push_back_def p(2))
  qed
  have nx: "comp_key ?c < comp_key s" "\<forall>z. comp_key ?c < z \<longrightarrow> comp_key s \<le> z"
    using next_value_least [of "m_type ?c" "block_value ?c"] by (simp_all add: sk)
  have ext: "q @ [x] < q @ x # ks \<and> q @ x # ks < q @ [y]" if "ks \<noteq> []" "x < y" for q ks and x y :: comp_key
    using that by (induction q) (auto simp: neq_Nil_conv)
  show ?thesis
  proof (intro exI [of _ "Name_append p s"] conjI allI impI; (elim conjE)?)
    show "name_keys n < name_keys (Name_append p s)" using nx(1) by (simp add: k list_less_snoc)
    show "name_keys (Name_append p s) \<le> ks" if "length ks = length (name_keys n)" "name_keys n < ks" for ks
      unfolding k by (rule list_next_snoc [OF nx(2)]) (use that k in simp_all)
    show "name_keys n < name_keys n @ ks" "name_keys n @ ks < name_keys (Name_append p s)" if "ks \<noteq> []" for ks
      using ext [OF that nx(1), of ?p] by (simp_all add: k)
  qed (rule m)
qed

theorem Name_getSuccessor_between_witness:
  "\<exists>m. Name_getSuccessor demo_name = Inr m \<and> name_keys demo_name < name_keys m
    \<and> (\<forall>ks. length ks = length (name_keys demo_name) \<and> name_keys demo_name < ks \<longrightarrow> name_keys m \<le> ks)
    \<and> (\<forall>ks. ks \<noteq> [] \<longrightarrow> name_keys demo_name < name_keys demo_name @ ks \<and> name_keys demo_name @ ks < name_keys m)"
  by (rule Name_getSuccessor_between [OF demo_name_ok])
    (simp_all add: demo_name_def isGeneric_def hasValue_def Block_value_def Let_def)


section \<open>The URI of a name\<close>

lemma component_uri_chars:
  assumes "comp_ok c" and "x \<in> set (Component_toUri c)"
  shows "\<not> isspace x \<and> x \<noteq> 47 \<and> x \<noteq> 58"
proof (cases "isGeneric c")
  case True
  then have "m_type c = tlv_NameComponent" by (simp add: isGeneric_def)
  from generic_uri(2) [OF this comp_ok_value [OF assms(1)]] show ?thesis using assms(2) uri_char_not by blast
next
  case False
  then have "m_type c = tlv_ImplicitSha256DigestComponent" using assms(1) by (simp add: comp_ok_def isImplicitSha256Digest_def)
  then have x: "x \<in> set sha256Prefix \<or> x \<in> set (printHex [] (block_value c) False)"
    using assms(2) by (simp add: Component_toUri_def)
  have "hex_digit False k \<noteq> 47 \<and> hex_digit False k \<noteq> 58" if "k < 16" for k
  proof -
    have "unat (hex_digit False k) = (if k < 10 then 48 + k else 87 + k)" using that by (simp add: hex_digit_def unat_of_nat)
    then show ?thesis using that by (auto simp: word_unat_eq_iff)
  qed
  then have "x \<in> set (printHex [] (block_value c) False) \<Longrightarrow> x \<noteq> 47 \<and> x \<noteq> 58"
    using byte_split(2) by (auto simp: printHex_def)
  moreover have "x \<in> set sha256Prefix \<Longrightarrow> x \<noteq> 47 \<and> x \<noteq> 58" by (auto simp: sha256Prefix_def str_def)
  ultimately show ?thesis using x sha256Prefix_not_space hex_not_space by blast
qed

lemma component_uri_not_Nil: "comp_ok c \<Longrightarrow> Component_toUri c \<noteq> []"
  using generic_uri(3) [of c] comp_ok_value [of c]
  by (auto simp: comp_ok_def isGeneric_def Component_toUri_def isImplicitSha256Digest_def sha256Prefix_def str_def)

lemma find_from_at:
  assumes "c \<notin> set u"
  shows "find_from c (p @ u @ c # r) (length p) = Some (length p + length u)" and "find_from c (p @ u) (length p) = None"
proof -
  have u: "takeWhile (\<lambda>x. x \<noteq> c) u = u" unfolding takeWhile_eq_all_conv using assms by auto
  have v: "takeWhile (\<lambda>x. x \<noteq> c) (u @ c # r) = u" using assms by (auto simp: takeWhile_append)
  show "find_from c (p @ u @ c # r) (length p) = Some (length p + length u)" "find_from c (p @ u) (length p) = None"
    by (simp_all add: find_from_def u v)
qed

text \<open>Strings without a slash, joined by slashes, are read back one by one.\<close>

fun join :: "bytes list \<Rightarrow> bytes" where
  "join [] = []"
| "join [u] = u"
| "join (u # v # us) = u @ 47 # join (v # us)"

lemma append_components_join:
  assumes "\<forall>u \<in> set us. u \<noteq> [] \<and> 47 \<notin> set u" and "list_all2 (\<lambda>u c. fromEscapedString hexDec u = Inr c) us cs"
  shows "\<exists>r. append_components hexDec (p @ join us) (length p) n = Inr r \<and> m_subBlocks r = m_subBlocks n @ cs
    \<and> (us \<noteq> [] \<longrightarrow> \<not> hasWire r)"
  using assms
proof (induction us arbitrary: cs p n rule: join.induct)
  case 1
  then show ?case by (subst append_components.simps) simp
next
  case (2 u)
  then obtain c where c: "cs = [c]" "fromEscapedString hexDec u = Inr c" by (auto simp: list_all2_Cons1)
  have u: "u \<noteq> []" "47 \<notin> set u" using 2 by auto
  have r: "range_of (p @ u) (length p) (length (p @ u)) = u" by (simp add: range_of_def)
  have "append_components hexDec (p @ u) (length p) n
      = append_components hexDec (p @ u) (length (p @ u) + 1) (Name_append n c)"
    using u find_from_at(2) [OF u(2), of p] c(2) r by (subst append_components.simps) (simp add: Let_def)
  also have "\<dots> = Inr (Name_append n c)" by (subst append_components.simps) simp
  finally show ?case using c(1) by (simp add: Name_append_def push_back_def hasWire_def resetWire_def)
next
  case (3 u v us)
  then obtain c ds where c: "cs = c # ds" "fromEscapedString hexDec u = Inr c"
      "list_all2 (\<lambda>u c. fromEscapedString hexDec u = Inr c) (v # us) ds"
    by (auto simp: list_all2_Cons1)
  have u: "u \<noteq> []" "47 \<notin> set u" using 3(2) by auto
  let ?s = "p @ u @ 47 # join (v # us)" and ?p = "p @ u @ [47]"
  have r: "range_of ?s (length p) (length p + length u) = u" by (simp add: range_of_def)
  have step: "append_components hexDec ?s (length p) n = append_components hexDec ?s (length p + length u + 1) (Name_append n c)"
    unfolding append_components.simps [of hexDec ?s "length p"] find_from_at(1) [OF u(2)] option.case Let_def r c(2) bindE.simps
    using u(1) by simp
  have l: "length p + length u + 1 = length ?p" by simp
  have st: "?s = ?p @ join (v # us)" by simp
  obtain r where r: "append_components hexDec (?p @ join (v # us)) (length ?p) (Name_append n c) = Inr r"
      "m_subBlocks r = m_subBlocks (Name_append n c) @ ds" "\<not> hasWire r"
    using "3.IH" [OF _ c(3), of ?p "Name_append n c"] 3(2) by auto
  have "append_components hexDec ?s (length p) n = Inr r" unfolding step l by (subst st) (rule r(1))
  moreover have "m_subBlocks r = m_subBlocks n @ cs" using r(2) c(1) by (simp add: Name_append_def push_back_def)
  ultimately show ?case using r(3) by simp
qed

lemma join_chars: "x \<in> set (join us) \<Longrightarrow> x = 47 \<or> (\<exists>u \<in> set us. x \<in> set u)"
  by (induction us rule: join.induct) auto

lemma slashes_join: "us \<noteq> [] \<Longrightarrow> concat (map (\<lambda>u. 47 # u) us) = 47 # join us"
  by (induction us rule: join.induct) simp_all

lemma join_head:
  assumes "us \<noteq> []" and "\<forall>u \<in> set us. u \<noteq> [] \<and> 47 \<notin> set u"
  shows "join us \<noteq> [] \<and> join us ! 0 \<noteq> 47"
proof -
  obtain u vs where us: "us = u # vs" using assms(1) by (cases us) auto
  obtain x xs where "u = x # xs" "x \<noteq> 47" using assms(2) us by (cases u) auto
  then show ?thesis using us by (cases vs) simp_all
qed

text \<open>Nothing of such a string is taken for a scheme or an authority, or trimmed away.\<close>

lemma omit_nothing:
  assumes "us \<noteq> []" and "\<forall>u \<in> set us. u \<noteq> [] \<and> (\<forall>x \<in> set u. \<not> isspace x \<and> x \<noteq> 47 \<and> x \<noteq> 58)"
  shows "trim (47 # join us) = 47 # join us" and "omit_authority (omit_scheme (47 # join us)) = Some (join us)"
proof -
  have ch: "x \<in> set (join us) \<Longrightarrow> \<not> isspace x \<and> x \<noteq> 58" for x
    using join_chars [of x us] assms(2) by (auto simp: isspace_def)
  have sp: "\<not> isspace 47" by (simp add: isspace_def)
  show "trim (47 # join us) = 47 # join us" using ch sp by (intro trim_id) auto
  have tr: "trim (join us) = join us" using ch by (intro trim_id) auto
  have "58 \<notin> set (47 # join us)" using ch by auto
  from find_from_at(2) [OF this, of "[]"] have "omit_scheme (47 # join us) = 47 # join us" by (simp add: omit_scheme_def)
  moreover have "join us \<noteq> [] \<and> join us ! 0 \<noteq> 47" using assms by (intro join_head) auto
  ultimately show "omit_authority (omit_scheme (47 # join us)) = Some (join us)"
    using tr by (simp add: omit_authority_def)
qed

lemma Name_of_uri_join:
  assumes "us \<noteq> []" and "\<forall>u \<in> set us. u \<noteq> [] \<and> (\<forall>x \<in> set u. \<not> isspace x \<and> x \<noteq> 47 \<and> x \<noteq> 58)"
    and "list_all2 (\<lambda>u c. fromEscapedString hexDec u = Inr c) us cs"
  shows "\<exists>m. Name_of_uri hexDec (47 # join us) = Inr m \<and> m_subBlocks m = cs"
proof -
  have nice: "\<forall>u \<in> set us. u \<noteq> [] \<and> 47 \<notin> set u" using assms(2) by auto
  obtain r where "append_components hexDec ([] @ join us) (length []) Block_empty = Inr r"
      "m_subBlocks r = m_subBlocks Block_empty @ cs"
    using append_components_join [OF nice assms(3), of "[]" Block_empty] by auto
  moreover have "Name_of_uri hexDec (47 # join us) = append_components hexDec (join us) 0 Block_empty"
    unfolding Name_of_uri_def Let_def omit_nothing [OF assms(1,2)] option.case by simp
  ultimately show ?thesis by (simp add: Block_empty_def)
qed

text \<open>
  C39. The URI round trip: a name made from the URI of a name has components of the same types and values,
  so it is equal to it, whatever bytes are in the components, and also when the name is empty.
\<close>

theorem Name_uri_roundtrip:
  assumes "name_ok n" and "\<forall>v. hexDec (printHex [] v False) = v"
  shows "\<exists>m. Name_of_uri hexDec (Name_toUri n) = Inr m \<and> name_ok m \<and> name_keys m = name_keys n
    \<and> Name_equals n m = Inr True"
proof -
  let ?xs = "m_subBlocks n"
  have f: "few n" "\<forall>c \<in> set ?xs. comp_ok c" using assms(1) by (simp_all add: name_ok_def list_all_iff)
  define us where "us = map Component_toUri ?xs"
  have us: "\<forall>u \<in> set us. u \<noteq> [] \<and> (\<forall>x \<in> set u. \<not> isspace x \<and> x \<noteq> 47 \<and> x \<noteq> 58)"
    using f(2) component_uri_not_Nil component_uri_chars by (auto simp: us_def)
  have "\<forall>c \<in> set ?xs. \<exists>d. fromEscapedString hexDec (Component_toUri c) = Inr d \<and> comp_ok d \<and> elem_of d = elem_of c"
    using component_uri_back [OF _ assms(2)] f(2) by blast
  then obtain g where g: "\<forall>c \<in> set ?xs. fromEscapedString hexDec (Component_toUri c) = Inr (g c) \<and> comp_ok (g c)
      \<and> elem_of (g c) = elem_of c"
    by metis
  have l: "list_all2 (\<lambda>u c. fromEscapedString hexDec u = Inr c) us (map g ?xs)"
    using g by (simp add: us_def list_all2_conv_all_nth)
  obtain m where m: "Name_of_uri hexDec (Name_toUri n) = Inr m" "m_subBlocks m = map g ?xs"
  proof (cases "?xs = []")
    case True
    have "find_from 58 [47] 0 = None" "trim [47] = [47]" "trim [] = []"
      by (simp_all add: find_from_def trim_def trimLeft_def trimRight_def isspace_def)
    then have "Name_of_uri hexDec [47] = Inr Block_empty"
      by (simp add: Name_of_uri_def omit_scheme_def omit_authority_def append_components.simps)
    then show ?thesis using that True by (simp add: Name_toUri_def Name_empty_def Block_empty_def)
  next
    case False
    then have ne: "us \<noteq> []" by (simp add: us_def)
    have "Name_toUri n = concat (map (\<lambda>u. 47 # u) us)" using False by (simp add: Name_toUri_def Name_empty_def us_def comp_def)
    then have "Name_toUri n = 47 # join us" using slashes_join [OF ne] by simp
    then show ?thesis using that Name_of_uri_join [OF ne us l] by auto
  qed
  have ok: "name_ok m" using m(2) g f(1) by (auto simp: name_ok_def few_def list_all_iff)
  moreover have "name_keys m = name_keys n" using m(2) g by (auto simp: name_keys_def comp_key_def elem_of_def)
  moreover have fm: "few m" "list_all comp_ok (m_subBlocks m)" using ok by (simp_all add: name_ok_def)
  moreover have "list_all comp_ok ?xs" using f(2) by (simp add: list_all_iff)
  ultimately have "list_all2 Component_equals ?xs (m_subBlocks m)" using equal_keys by (simp add: name_keys_def)
  then have "Name_equals n m = Inr True" using Name_equals_run [OF f(1) fm(1)] by simp
  then show ?thesis using m(1) ok \<open>name_keys m = name_keys n\<close> by blast
qed

theorem Name_uri_roundtrip_witness:
  "\<exists>m. Name_of_uri demo_hexDecoder (Name_toUri demo_name) = Inr m \<and> name_ok m
    \<and> name_keys m = name_keys demo_name \<and> Name_equals demo_name m = Inr True"
  by (rule Name_uri_roundtrip [OF demo_name_ok]) (simp add: demo_hexDecoder_print)


section \<open>The wire format of a name\<close>

text \<open>The elements of a list of components, in their shortest form.\<close>

definition comps_bytes :: "block list \<Rightarrow> bytes" where
  "comps_bytes cs = concat (map (\<lambda>c. tlv (m_type c) (block_value c)) cs)"

context prepender
begin

lemma emits_nothing: "emits R (\<lambda>e. Inr (0, e)) []"
  by (simp add: emits_def)

lemma component_emits:
  assumes "length (block_value c) = value_size c"
  shows "emits R (Component_wireEncode T c) (tlv (m_type c) (block_value c))"
proof -
  have v: "emits R (if value_size c > 0 then prependByteArray T (block_value c) else (\<lambda>e. Inr (0, e))) (block_value c)"
    using assms prepend_array emits_nothing by (cases "value_size c = 0") simp_all
  have "emits R (Component_wireEncode T c)
      (vartype (m_type c) @ varnum (word_of_nat (value_size c)) @ block_value c)"
    unfolding Component_wireEncode_def by (intro emits_addE prepend_type prepend_var v)
  then show ?thesis by (simp add: tlv_def assms)
qed

lemma components_emit:
  "\<forall>c \<in> set cs. length (block_value c) = value_size c \<Longrightarrow> emits R (prepend_components T cs) (comps_bytes cs)"
proof (induction cs)
  case (Cons c cs)
  then have "emits R (addE (prepend_components T cs) (Component_wireEncode T c)) (tlv (m_type c) (block_value c) @ comps_bytes cs)"
    by (intro emits_addE component_emits) simp_all
  then show ?case by (simp add: comps_bytes_def)
qed (simp add: comps_bytes_def emits_nothing)

lemma name_emits:
  "\<forall>c \<in> set (m_subBlocks n). length (block_value c) = value_size c
    \<Longrightarrow> emits R (Name_wireEncode T n) (tlv tlv_Name (comps_bytes (m_subBlocks n)))"
  unfolding Name_wireEncode_def by (intro prepend_header components_emit)

end

lemma comps_elements: "list_all2 element (map (\<lambda>c. tlv (m_type c) (block_value c)) cs) (map elem_of cs)"
  by (induction cs) (simp_all add: elem_of_def)

lemma parse_comps:
  assumes "block_ok b" and "m_subBlocks b = []" and "block_value b = comps_bytes cs"
  shows "\<exists>bs. parse b = (set_subBlocks b bs, None) \<and> map elem_of bs = map elem_of cs \<and> list_all block_ok bs
    \<and> map wire bs = map (\<lambda>c. Inr (tlv (m_type c) (block_value c))) cs"
  using parse_elements [OF assms(1,2) assms(3) [unfolded comps_bytes_def] comps_elements] by (simp add: comp_def)

text \<open>Elements of components that are well-formed blocks are components.\<close>

lemma elems_comps:
  assumes "map elem_of bs = map elem_of cs" and "list_all block_ok bs" and "list_all comp_ok cs"
  shows "list_all comp_ok bs" and "map comp_key bs = map comp_key cs"
proof -
  have "comp_ok b" if "elem_of b = elem_of c" "block_ok b" "comp_ok c" for b c
    using that block_value_length [of b] comp_ok_value [of c]
    by (auto simp: elem_of_def comp_ok_def isGeneric_def isImplicitSha256Digest_def)
  then have step: "elem_of b = elem_of c \<Longrightarrow> block_ok b \<Longrightarrow> comp_ok c \<Longrightarrow> comp_ok b" for b c by blast
  show "list_all comp_ok bs" using assms
  proof (induction bs arbitrary: cs)
    case (Cons b bs)
    then obtain c ds where "cs = c # ds" by (cases cs) auto
    then show ?case using Cons step [of b c] by simp
  qed simp
  have "map comp_key xs = map (\<lambda>e. Key (fst e) (snd e)) (map elem_of xs)" for xs
    by (simp add: comp_key_def elem_of_def)
  then show "map comp_key bs = map comp_key cs" using assms(1) by metis
qed

lemma set_subBlocks_wire: "wire (set_subBlocks b bs) = wire b"
  by (simp add: wire_def hasWire_def)

lemma tlv_length_le: "length (tlv t v) \<le> length v + 18"
  by (simp add: length_tlv sizeOfType_def sizeOfVarNumber_def)

text \<open>
  The wire format round trip: a name without a wire encodes, with the size estimated first, to one
  element of type \<open>Name\<close> over its components; decoding that element gives a name with components of
  the same types and values, each with its own wire in the shortest form, and comparing equal.
\<close>

theorem Name_wire_roundtrip:
  assumes "name_ok n" and "\<not> hasWire n" and "length (comps_bytes (m_subBlocks n)) < 2 ^ 63"
  shows "\<exists>b m w. Name_wire n = Inr b \<and> wire b = Inr w \<and> w = tlv tlv_Name (comps_bytes (m_subBlocks n))
    \<and> bindE (Block_buffer w) Name_of_block = Inr m \<and> name_keys m = name_keys n \<and> Name_equals n m = Inr True
    \<and> list_all canonical (m_subBlocks m) \<and> m_subBlocks b = m_subBlocks m"
proof -
  let ?xs = "m_subBlocks n" and ?v = "comps_bytes (m_subBlocks n)"
  let ?w = "tlv tlv_Name ?v"
  have ok: "few n" "list_all comp_ok ?xs" using assms(1) by (simp_all add: name_ok_def)
  have lens: "\<forall>c \<in> set ?xs. length (block_value c) = value_size c" using ok(2) comp_ok_value by (simp add: list_all_iff)
  have fit: "fits ?w" by (rule fits_small [OF assms(3)])
  have mb: "make_block (Name_wireEncode EstimatorTag n) (Name_wireEncode EncoderTag n) = Block_buffer ?w"
    by (rule make_block_buffer [OF est.name_emits [OF lens] enc_exact.name_emits [OF lens]])
  obtain b where b: "Block_buffer ?w = Inr b" "block_ok b" "wire b = Inr ?w" "m_subBlocks b = []" "block_value b = ?v"
    using make_block_tlv [OF est.name_emits [OF lens] enc_exact.name_emits [OF lens] fit] mb by auto
  obtain bs where bs: "parse b = (set_subBlocks b bs, None)" "map elem_of bs = map elem_of ?xs" "list_all block_ok bs"
      "map wire bs = map (\<lambda>c. Inr (tlv (m_type c) (block_value c))) ?xs"
    using parse_comps [OF b(2,4,5)] by blast
  let ?m = "set_subBlocks b bs"
  have nw: "Name_wire n = Inr ?m" using assms(2) mb b(1) bs(1) by (simp add: Name_wire_def)
  have w: "wire ?m = Inr ?w" using b(3) by (simp add: set_subBlocks_wire)
  have m: "bindE (Block_buffer ?w) Name_of_block = Inr ?m" using b(1) bs(1) by (simp add: Name_of_block_def)
  note cs = elems_comps [OF bs(2,3) ok(2)]
  have keys: "name_keys ?m = name_keys n" using cs(2) by (simp add: name_keys_def)
  have "length bs = length ?xs" using bs(2) map_eq_imp_length_eq by blast
  then have f: "few ?m" using ok(1) by (simp add: few_def)
  have "list_all2 Component_equals ?xs bs" using equal_keys [OF ok(2) cs(1)] cs(2) by simp
  then have eq: "Name_equals n ?m = Inr True" using Name_equals_run [OF ok(1) f] by simp
  have "wire x = Inr (tlv (m_type x) (block_value x))" if x: "x \<in> set bs" for x
  proof -
    obtain i where i: "i < length bs" "x = bs ! i" using x by (auto simp: in_set_conv_nth)
    then have "wire x = map wire bs ! i" "elem_of x = map elem_of bs ! i" by simp_all
    then show ?thesis using i(1) \<open>length bs = length ?xs\<close> unfolding bs(2,4) by (simp add: elem_of_def)
  qed
  then have "list_all canonical bs" using cs(1) by (auto simp: list_all_iff canonical_def)
  then show ?thesis using nw w m keys eq by (intro exI [of _ ?m] exI [of _ ?w]) simp
qed

theorem Name_wire_roundtrip_witness:
  "\<exists>b m w. Name_wire demo_name = Inr b \<and> wire b = Inr w \<and> w = tlv tlv_Name (comps_bytes (m_subBlocks demo_name))
    \<and> bindE (Block_buffer w) Name_of_block = Inr m \<and> name_keys m = name_keys demo_name
    \<and> Name_equals demo_name m = Inr True \<and> list_all canonical (m_subBlocks m) \<and> m_subBlocks b = m_subBlocks m"
proof (rule Name_wire_roundtrip [OF demo_name_ok])
  have "block_value (Block_value tlv_NameComponent v) = v" for v by (simp add: Block_value_def block_value_def range_of_def Let_def)
  then show "length (comps_bytes (m_subBlocks demo_name)) < 2 ^ 63"
    using tlv_length_le [of "m_type (Block_value tlv_NameComponent [97])" "[97]"]
      tlv_length_le [of "m_type (Block_value tlv_NameComponent [98])" "[98]"]
    by (simp add: demo_name_def comps_bytes_def)
qed (simp add: demo_name_def hasWire_def Name_new_def Block_type_def)

end
