(* ===== verification/Producer.thy ===== *)
theory Producer
  imports NameProps
begin

text \<open>
  The producers of the demo. \<open>producer_sergi.cpp\<close> fetches the image an Interest names from the device
  that took it, runs the OCR on it and answers the Interest: a state machine over Interests and Data.
  \<open>producer.cpp\<close> answers with the text of a local file. \<open>run_tess\<close> of \<open>tess.cpp\<close> is modelled around the
  Tesseract library, which is the parameter \<open>tess\<close>: the text it finds in what a file holds, \<open>None\<close> for
  a null pointer. \<open>hexDec\<close> is the hex decoder behind the URIs of digests.
\<close>

section \<open>Handlers\<close>

type_synonym tesseract = "bool \<times> (bytes option \<Rightarrow> bytes option)"

definition run_tess :: "tesseract \<Rightarrow> (bytes \<rightharpoonup> bytes) \<Rightarrow> bytes \<Rightarrow> bytes result" where
  "run_tess tess files image_input =
     (if \<not> fst tess then Inl (ProcessExit 1)
      else case snd tess (files image_input) of
        None \<Rightarrow> Inl (UndefinedBehaviour ''string of a null pointer'')
      | Some outText \<Rightarrow> Inr (str ''OCR output: '' @ outText))"

datatype effect =
    ExpressInterest (interest_name: block) (lifetime: nat) (mustBeFresh: bool)
  | PutData (data_name: block) (data_content: bytes) (freshness: nat)

text \<open>The map of the pending Interests, and the files the producer has written.\<close>

record producer =
  pendingInterest :: "bytes \<rightharpoonup> block"
  files :: "bytes \<rightharpoonup> bytes"

definition producer_init :: "(bytes \<rightharpoonup> bytes) \<Rightarrow> producer" where
  "producer_init fs = \<lparr>pendingInterest = Map.empty, files = fs\<rparr>"

text \<open>\<open>std::map::insert\<close> keeps the value that is there.\<close>

definition map_insert :: "'k \<Rightarrow> 'v \<Rightarrow> ('k \<rightharpoonup> 'v) \<Rightarrow> ('k \<rightharpoonup> 'v)" where
  "map_insert k v m = (if m k = None then m(k \<mapsto> v) else m)"

definition onInterest :: "(bytes \<Rightarrow> bytes) \<Rightarrow> block \<Rightarrow> producer \<Rightarrow> (effect list \<times> producer) result" where
  "onInterest hexDec n s =
     bindE (Name_get n 2) (\<lambda>device.
     bindE (Name_get n 3) (\<lambda>file.
     bindE (Name_of_uri hexDec (str ''/pic/'' @ Component_toUri device @ str ''/'' @ Component_toUri file)) (\<lambda>imgName.
     Inr ([ExpressInterest imgName 20000 True],
       s\<lparr>pendingInterest := map_insert (Component_toUri file) n (pendingInterest s)\<rparr>))))"

definition data_dir :: bytes where "data_dir = str ''/home/pi/icn_demo/data/''"

definition onData :: "tesseract \<Rightarrow> block \<Rightarrow> bytes \<Rightarrow> producer \<Rightarrow> (effect list \<times> producer) result" where
  "onData tess n payload s =
     bindE (Name_get n 2) (\<lambda>file.
     let filename = data_dir @ Component_toUri file;
         s = s\<lparr>files := (files s)(filename \<mapsto> payload)\<rparr> in
     bindE (run_tess tess (files s) filename) (\<lambda>res.
     case pendingInterest s (Component_toUri file) of
       Some dataName \<Rightarrow> Inr ([PutData dataName res 20000], s)
     | None \<Rightarrow> Inr ([], s)))"

text \<open>\<open>onNack\<close> and \<open>onTimeout\<close> only print. An exception leaves \<open>processEvents\<close> and ends the program.\<close>

datatype event = Interest_in block | Data_in block bytes | Nack_in | Timeout_in

fun handle :: "(bytes \<Rightarrow> bytes) \<Rightarrow> tesseract \<Rightarrow> event \<Rightarrow> producer \<Rightarrow> (effect list \<times> producer) result" where
  "handle hexDec tess (Interest_in n) s = onInterest hexDec n s"
| "handle hexDec tess (Data_in n payload) s = onData tess n payload s"
| "handle hexDec tess Nack_in s = Inr ([], s)"
| "handle hexDec tess Timeout_in s = Inr ([], s)"

fun_cases handle_cases: "handle hexDec tess ev s = Inr (os, s')"

text \<open>The runs of the producer, with what came in and what went out, the latest first.\<close>

inductive run :: "(bytes \<Rightarrow> bytes) \<Rightarrow> tesseract \<Rightarrow> producer \<Rightarrow> event list \<Rightarrow> effect list \<Rightarrow> producer \<Rightarrow> bool"
  for hexDec tess s where
  run_Nil: "run hexDec tess s [] [] s"
| run_step: "run hexDec tess s evs os t \<Longrightarrow> handle hexDec tess ev t = Inr (os', u) \<Longrightarrow>
    run hexDec tess s (ev # evs) (rev os' @ os) u"

inductive_cases run_NilE [elim!]: "run hexDec tess s [] os t"
inductive_cases run_ConsE [elim]: "run hexDec tess s (ev # evs) os t"


text \<open>The producer of \<open>producer.cpp\<close> answers at once, under the name of the Interest and a version.\<close>

definition testApp_onInterest :: "tesseract \<Rightarrow> (bytes \<rightharpoonup> bytes) \<Rightarrow> 64 word \<Rightarrow> block \<Rightarrow> effect list result" where
  "testApp_onInterest tess fs now n =
     bindE (append_value n (str ''testApp'')) (\<lambda>dataName.
     bindE (appendVersion dataName now) (\<lambda>dataName.
     bindE (run_tess tess fs (str ''../data/'' @ drop 13 (Name_toUri n))) (\<lambda>co.
     Inr [PutData dataName co 10000])))"


section \<open>Names\<close>

lemma Name_get_nat:
  assumes "k < 2 ^ 63"
  shows "Name_get n (word_of_nat k) = (if k < length (m_subBlocks n) then Inr (m_subBlocks n ! k)
    else Inl (UndefinedBehaviour ''vector index''))"
  using assms by (simp add: Name_get_def Let_def unat_small)

lemma Name_get_2: "Name_get n 2 = (if 2 < length (m_subBlocks n) then Inr (m_subBlocks n ! 2)
    else Inl (UndefinedBehaviour ''vector index''))"
  using Name_get_nat [of 2 n] by simp

lemma Name_get_3: "Name_get n 3 = (if 3 < length (m_subBlocks n) then Inr (m_subBlocks n ! 3)
    else Inl (UndefinedBehaviour ''vector index''))"
  using Name_get_nat [of 3 n] by simp

text \<open>The name of the image: \<open>/pic\<close>, the device and the file.\<close>

lemma pic_from_uri: "\<exists>c. fromEscapedString hexDec (str ''pic'') = Inr c \<and> elem_of c = (tlv_NameComponent, str ''pic'') \<and> comp_ok c"
proof -
  obtain c where c: "Component_of_value (str ''pic'') = Inr c" "comp_ok c" "elem_of c = (tlv_NameComponent, str ''pic'')" "isGeneric c"
    using Component_value_ok [of "str ''pic''"] by (auto simp: str_def)
  have "block_value c = str ''pic''" "m_type c = tlv_NameComponent" using c(3) by (simp_all add: elem_of_def)
  then have "Component_toUri c = str ''pic''"
    by (simp add: Component_toUri_def tlv_NameComponent_def tlv_ImplicitSha256DigestComponent_def str_def escape_byte_def plain_def)
  then show ?thesis using generic_from_uri [OF c(2,4), of hexDec] c \<open>block_value c = _\<close> by auto
qed

lemma image_name:
  assumes "comp_ok d" and "comp_ok f" and "\<forall>v. hexDec (printHex [] v False) = v"
  shows "\<exists>m. Name_of_uri hexDec (str ''/pic/'' @ Component_toUri d @ str ''/'' @ Component_toUri f) = Inr m
    \<and> name_keys m = [Key tlv_NameComponent (str ''pic''), comp_key d, comp_key f] \<and> name_ok m"
proof -
  let ?us = "[str ''pic'', Component_toUri d, Component_toUri f]"
  obtain p where p: "fromEscapedString hexDec (str ''pic'') = Inr p" "elem_of p = (tlv_NameComponent, str ''pic'')" "comp_ok p"
    using pic_from_uri by blast
  obtain d' where d: "fromEscapedString hexDec (Component_toUri d) = Inr d'" "comp_ok d'" "elem_of d' = elem_of d"
    using component_uri_back [OF assms(1,3)] by blast
  obtain f' where f: "fromEscapedString hexDec (Component_toUri f) = Inr f'" "comp_ok f'" "elem_of f' = elem_of f"
    using component_uri_back [OF assms(2,3)] by blast
  have pic: "\<forall>x \<in> set (str ''pic''). \<not> isspace x \<and> x \<noteq> 47 \<and> x \<noteq> 58" by (simp add: str_def isspace_def)
  have us: "\<forall>u \<in> set ?us. u \<noteq> [] \<and> (\<forall>x \<in> set u. \<not> isspace x \<and> x \<noteq> 47 \<and> x \<noteq> 58)"
    using pic component_uri_not_Nil [OF assms(1)] component_uri_not_Nil [OF assms(2)]
      component_uri_chars [OF assms(1)] component_uri_chars [OF assms(2)] by (simp add: str_def)
  have "list_all2 (\<lambda>u c. fromEscapedString hexDec u = Inr c) ?us [p, d', f']" using p d f by simp
  from Name_of_uri_join [OF _ us this] obtain m where m: "Name_of_uri hexDec (47 # join ?us) = Inr m" "m_subBlocks m = [p, d', f']"
    by blast
  have "47 # join ?us = str ''/pic/'' @ Component_toUri d @ str ''/'' @ Component_toUri f" by (simp add: str_def)
  moreover have "name_keys m = [Key tlv_NameComponent (str ''pic''), comp_key d, comp_key f]"
    using m(2) p(2) d(3) f(3) by (simp add: name_keys_def comp_key_def elem_of_def)
  moreover have "name_ok m" using m(2) p d f by (simp add: name_ok_def few_def)
  ultimately show ?thesis using m(1) by metis
qed

text \<open>Components with the same type and value have the same URI.\<close>

lemma uri_of_key: "comp_ok c \<Longrightarrow> comp_ok d \<Longrightarrow> comp_key c = comp_key d \<Longrightarrow> Component_toUri c = Component_toUri d"
  using comp_ok_value [of c] comp_ok_value [of d] by (simp add: Component_toUri_def comp_key_def)


section \<open>One request\<close>

text \<open>What the two handlers do for a request and its image.\<close>

lemma request_step:
  assumes "name_ok n" and "3 < length (m_subBlocks n)" and "\<forall>v. hexDec (printHex [] v False) = v"
  shows "\<exists>m. onInterest hexDec n s = Inr ([ExpressInterest m 20000 True],
      s\<lparr>pendingInterest := map_insert (Component_toUri (m_subBlocks n ! 3)) n (pendingInterest s)\<rparr>)
    \<and> name_keys m = [Key tlv_NameComponent (str ''pic''), name_keys n ! 2, name_keys n ! 3] \<and> name_ok m"
proof -
  let ?d = "m_subBlocks n ! 2" and ?f = "m_subBlocks n ! 3"
  have ok: "comp_ok ?d" "comp_ok ?f" using assms(1,2) by (simp_all add: name_ok_def list_all_length)
  obtain m where m: "Name_of_uri hexDec (str ''/pic/'' @ Component_toUri ?d @ str ''/'' @ Component_toUri ?f) = Inr m"
      "name_keys m = [Key tlv_NameComponent (str ''pic''), comp_key ?d, comp_key ?f]" "name_ok m"
    using image_name [OF ok assms(3)] by blast
  then show ?thesis using assms(2) by (auto simp: onInterest_def Name_get_2 Name_get_3 name_keys_def)
qed

lemma image_step:
  assumes "name_ok m" and "name_keys m = [p, d, comp_key f]" and "comp_ok f" and "fst tess" and "snd tess (Some img) = Some text"
  shows "onData tess m img t = Inr (case pendingInterest t (Component_toUri f) of
      Some n \<Rightarrow> [PutData n (str ''OCR output: '' @ text) 20000] | None \<Rightarrow> [],
    t\<lparr>files := (files t)(data_dir @ Component_toUri f \<mapsto> img)\<rparr>)"
proof -
  obtain a b c where abc: "m_subBlocks m = [a, b, c]" "comp_key c = comp_key f"
    using assms(2) by (auto simp: name_keys_def)
  then have "comp_ok c" using assms(1) by (simp add: name_ok_def)
  then have "Component_toUri c = Component_toUri f" using abc(2) assms(3) uri_of_key by blast
  then show ?thesis using assms(4,5) abc(1)
    by (simp add: onData_def Name_get_2 Let_def run_tess_def split: option.split)
qed

text \<open>
  C1. A request and its answer: an Interest with a device and a file makes the producer ask for exactly
  \<open>/pic/<device>/<file>\<close>; when the image comes under that name and no earlier Interest asked for a file of
  this name, the producer answers under the name of the Interest with the text the OCR finds in the
  image.
\<close>

theorem producer_answers_request:
  assumes "name_ok n" and "3 < length (m_subBlocks n)" and "pendingInterest s (Component_toUri (m_subBlocks n ! 3)) = None"
    and "\<forall>v. hexDec (printHex [] v False) = v" and "fst tess" and "snd tess (Some img) = Some text"
  shows "\<exists>m t. onInterest hexDec n s = Inr ([ExpressInterest m 20000 True], t)
    \<and> name_keys m = [Key tlv_NameComponent (str ''pic''), name_keys n ! 2, name_keys n ! 3]
    \<and> (\<exists>u. onData tess m img t = Inr ([PutData n (str ''OCR output: '' @ text) 20000], u))"
proof -
  let ?f = "m_subBlocks n ! 3"
  obtain m where m: "onInterest hexDec n s = Inr ([ExpressInterest m 20000 True],
      s\<lparr>pendingInterest := map_insert (Component_toUri ?f) n (pendingInterest s)\<rparr>)"
      "name_keys m = [Key tlv_NameComponent (str ''pic''), name_keys n ! 2, name_keys n ! 3]" "name_ok m"
    using request_step [OF assms(1,2,4)] by blast
  have "comp_ok ?f" "name_keys n ! 3 = comp_key ?f" using assms(1,2) by (simp_all add: name_ok_def list_all_length name_keys_def)
  then show ?thesis
    using m image_step [OF m(3) _ \<open>comp_ok ?f\<close> assms(5,6)] assms(3) by (auto simp: map_insert_def)
qed

definition demo_request :: "byte \<Rightarrow> block" where
  "demo_request device = set_subBlocks Name_new
     (map (\<lambda>v. Block_value tlv_NameComponent v) [[101], [79], [device], [102]])"

lemma demo_request_ok: "name_ok (demo_request d)"
  using canonical_value [of "[101]"] canonical_value [of "[79]"] canonical_value [of "[d]"] canonical_value [of "[102]"]
  by (simp add: name_ok_def few_def demo_request_def canonical_def)

definition demo_tess :: tesseract where "demo_tess = (True, \<lambda>f. f)"

theorem producer_answers_request_witness:
  "\<exists>m t. onInterest demo_hexDecoder (demo_request 97) (producer_init Map.empty) = Inr ([ExpressInterest m 20000 True], t)
    \<and> name_keys m = [Key tlv_NameComponent (str ''pic''), name_keys (demo_request 97) ! 2, name_keys (demo_request 97) ! 3]
    \<and> (\<exists>u. onData demo_tess m [72, 73] t = Inr ([PutData (demo_request 97) (str ''OCR output: '' @ [72, 73]) 20000], u))"
  by (rule producer_answers_request [OF demo_request_ok])
    (simp_all add: demo_request_def producer_init_def demo_tess_def demo_hexDecoder_print)

text \<open>
  An Interest under \<open>/exec/OCR\<close> without the two more components the handler reads makes it access
  a vector behind its end, which the producer does not check.
\<close>

theorem producer_short_interest:
  assumes "length (m_subBlocks n) \<le> 3"
  shows "onInterest hexDec n s = Inl (UndefinedBehaviour ''vector index'')"
  using assms by (simp add: onInterest_def Name_get_2 Name_get_3)

theorem producer_short_interest_witness:
  "onInterest demo_hexDecoder demo_name (producer_init Map.empty) = Inl (UndefinedBehaviour ''vector index'')"
  by (rule producer_short_interest) (simp add: demo_name_def)


section \<open>Invariants of the runs\<close>

text \<open>What a handler does to the map, and what it answers.\<close>

lemma onInterest_effects:
  assumes "onInterest hexDec n s = Inr (os, t)"
  shows "3 < length (m_subBlocks n)" and "\<exists>m. os = [ExpressInterest m 20000 True]"
    and "pendingInterest t = map_insert (Component_toUri (m_subBlocks n ! 3)) n (pendingInterest s)" and "files t = files s"
  using assms by (auto simp: onInterest_def Name_get_2 Name_get_3 bindE_Inr_conv split: if_splits)

lemma onData_effects:
  assumes "onData tess n img s = Inr (os, t)"
  shows "2 < length (m_subBlocks n)" and "pendingInterest t = pendingInterest s"
    and "files t = (files s)(data_dir @ Component_toUri (m_subBlocks n ! 2) \<mapsto> img)"
    and "set os \<subseteq> {PutData d res 20000 | d res. pendingInterest s (Component_toUri (m_subBlocks n ! 2)) = Some d}"
  using assms by (auto simp: onData_def Name_get_2 bindE_Inr_conv Let_def split: if_splits option.splits)

lemma handle_map:
  assumes "handle hexDec tess ev s = Inr (os, t)"
  obtains (insert) n where "ev = Interest_in n" and "3 < length (m_subBlocks n)"
      and "pendingInterest t = map_insert (Component_toUri (m_subBlocks n ! 3)) n (pendingInterest s)"
    | (same) "pendingInterest t = pendingInterest s"
proof (cases ev)
  case (Interest_in n)
  then have "onInterest hexDec n s = Inr (os, t)" using assms by simp
  from onInterest_effects [OF this] show ?thesis using insert Interest_in by blast
next
  case (Data_in n img)
  then have "onData tess n img s = Inr (os, t)" using assms by simp
  from onData_effects(2) [OF this] show ?thesis by (rule same)
qed (use assms same in auto)

lemma handle_pending:
  assumes "handle hexDec tess ev s = Inr (os, t)" and "pendingInterest t k = Some n"
  shows "pendingInterest s k = Some n \<or> ev = Interest_in n \<and> 3 < length (m_subBlocks n) \<and> k = Component_toUri (m_subBlocks n ! 3)"
  using assms(1)
proof (cases rule: handle_map)
  case (insert m)
  then show ?thesis using assms(2) by (auto simp: map_insert_def split: if_splits)
qed (use assms(2) in simp)

lemma handle_keeps:
  assumes "handle hexDec tess ev s = Inr (os, t)" and "pendingInterest s k = Some n"
  shows "pendingInterest t k = Some n"
  using assms(1)
proof (cases rule: handle_map)
  case (insert m)
  then show ?thesis using assms(2) by (auto simp: map_insert_def)
qed (use assms(2) in simp)

lemma handle_puts:
  assumes "handle hexDec tess ev s = Inr (os, t)" and "PutData n c f \<in> set os"
  shows "\<exists>k. pendingInterest s k = Some n"
proof (cases ev)
  case (Interest_in m)
  then show ?thesis using assms onInterest_effects(2) [of hexDec m s os t] by auto
next
  case (Data_in m img)
  then have "onData tess m img s = Inr (os, t)" using assms by simp
  from onData_effects(4) [OF this] show ?thesis using assms(2) by auto
qed (use assms in auto)

text \<open>Every pending Interest came in, and is filed under the URI of its fourth component.\<close>

definition pending_ok :: "event list \<Rightarrow> producer \<Rightarrow> bool" where
  "pending_ok evs t \<longleftrightarrow> (\<forall>k n. pendingInterest t k = Some n \<longrightarrow>
     Interest_in n \<in> set evs \<and> 3 < length (m_subBlocks n) \<and> k = Component_toUri (m_subBlocks n ! 3))"

lemma run_pending: "run hexDec tess s evs os t \<Longrightarrow> pendingInterest s = Map.empty \<Longrightarrow> pending_ok evs t"
proof (induction rule: run.induct)
  case (run_step evs os t ev os' u)
  then show ?case using handle_pending [OF run_step.hyps(2)] by (fastforce simp: pending_ok_def)
qed (simp add: pending_ok_def)

lemma onData_put:
  assumes "onData tess m img s = Inr (os, t)" and "PutData n c f \<in> set os"
  shows "2 < length (m_subBlocks m) \<and> pendingInterest s (Component_toUri (m_subBlocks m ! 2)) = Some n \<and> fst tess \<and> f = 20000
    \<and> (\<exists>text. snd tess (Some img) = Some text \<and> c = str ''OCR output: '' @ text)"
  using assms by (auto simp: onData_def Name_get_2 run_tess_def bindE_Inr_conv Let_def split: if_splits option.splits)

lemma handle_put:
  assumes "handle hexDec tess ev s = Inr (os, t)" and "PutData n c f \<in> set os"
  shows "\<exists>m img. ev = Data_in m img \<and> onData tess m img s = Inr (os, t)"
proof (cases ev)
  case (Interest_in m)
  then show ?thesis using assms onInterest_effects(2) [of hexDec m s os t] by auto
qed (use assms in auto)

text \<open>
  C2. The producer answers only Interests it has received, with the text of the image it has fetched: in every
  run, a Data packet it sends was caused by Data that had come in with an image; its name is the name of an
  Interest that had come in before that Data and asked, with its fourth component, for the file the Data is
  named for by its third; and its content is the text the OCR finds in that image, behind a fixed label.
\<close>

theorem producer_answers_received:
  assumes "run hexDec tess (producer_init fs) evs os t" and "PutData n c f \<in> set os"
  shows "\<exists>later m img earlier text. evs = later @ Data_in m img # earlier \<and> Interest_in n \<in> set earlier
    \<and> 3 < length (m_subBlocks n) \<and> 2 < length (m_subBlocks m)
    \<and> Component_toUri (m_subBlocks m ! 2) = Component_toUri (m_subBlocks n ! 3)
    \<and> fst tess \<and> snd tess (Some img) = Some text \<and> c = str ''OCR output: '' @ text \<and> f = 20000"
proof -
  have "pendingInterest s = Map.empty \<Longrightarrow> ?thesis" if "run hexDec tess s evs os t" "PutData n c f \<in> set os" for s
    using that
  proof (induction rule: run.induct)
    case (run_step evs os t ev os' u)
    show ?case
    proof (cases "PutData n c f \<in> set os")
      case True
      obtain later m img earlier x where i: "evs = later @ Data_in m img # earlier" "Interest_in n \<in> set earlier"
          "3 < length (m_subBlocks n)" "2 < length (m_subBlocks m)"
          "Component_toUri (m_subBlocks m ! 2) = Component_toUri (m_subBlocks n ! 3)"
          "fst tess" "snd tess (Some img) = Some x" "c = str ''OCR output: '' @ x" "f = 20000"
        using run_step.IH [OF run_step.prems(1) True] by blast
      show ?thesis
        by (rule exI [of _ "ev # later"], rule exI [of _ m], rule exI [of _ img], rule exI [of _ earlier], rule exI [of _ x])
          (use i in simp)
    next
      case False
      then have put: "PutData n c f \<in> set os'" using run_step.prems(2) by simp
      obtain m img where d: "ev = Data_in m img" "onData tess m img t = Inr (os', u)" using handle_put [OF run_step.hyps(2) put] by blast
      note p = onData_put [OF d(2) put]
      have ok: "pending_ok evs t" by (rule run_pending [OF run_step.hyps(1) run_step.prems(1)])
      then have "Interest_in n \<in> set evs \<and> 3 < length (m_subBlocks n)
          \<and> Component_toUri (m_subBlocks m ! 2) = Component_toUri (m_subBlocks n ! 3)" using p by (auto simp: pending_ok_def)
      moreover obtain x where "snd tess (Some img) = Some x" "c = str ''OCR output: '' @ x" using p by blast
      ultimately show ?thesis using p d(1)
        by (intro exI [of _ "[]"] exI [of _ m] exI [of _ img] exI [of _ evs] exI [of _ x]) simp
    qed
  qed simp
  then show ?thesis using assms by (simp add: producer_init_def)
qed

text \<open>
  C28. The map is keyed by the file alone and never cleaned up: once an Interest for a file is pending,
  no later Interest for a file of the same name, of whatever device, is ever answered.
\<close>

theorem producer_first_requester:
  assumes "run hexDec tess (producer_init fs) evs os s" and "pendingInterest s k = Some n"
    and "run hexDec tess s evs' os' t"
  shows "pendingInterest t k = Some n
    \<and> (\<forall>d c f. PutData d c f \<in> set os' \<and> Component_toUri (m_subBlocks d ! 3) = k \<longrightarrow> d = n)"
  using assms(3)
proof (induction rule: run.induct)
  case run_Nil
  then show ?case using assms(2) by simp
next
  case (run_step evs' os' t ev os'' u)
  have reach: "run hexDec tess (producer_init fs) (evs' @ evs) (os' @ os) t"
    using run_step.hyps(1)
  proof (induction rule: run.induct)
    case (run_step evs' os' t ev os'' u)
    from run.run_step [OF run_step.IH run_step.hyps(2)] show ?case by simp
  qed (simp add: assms(1))
  then have ok: "pending_ok (evs' @ evs) t" by (rule run_pending) (simp add: producer_init_def)
  have "d = n" if put: "PutData d c f \<in> set os''" "Component_toUri (m_subBlocks d ! 3) = k" for d c f
  proof -
    obtain j where j: "pendingInterest t j = Some d" using handle_puts [OF run_step.hyps(2) put(1)] by blast
    then have "j = k" using ok put(2) by (auto simp: pending_ok_def)
    then show ?thesis using j run_step.IH by simp
  qed
  then have "\<forall>d c f. PutData d c f \<in> set (rev os'' @ os') \<and> Component_toUri (m_subBlocks d ! 3) = k \<longrightarrow> d = n"
    using run_step.IH unfolding set_append set_rev Un_iff by blast
  then show ?case using run_step.IH handle_keeps [OF run_step.hyps(2)] by blast
qed

text \<open>Two devices that ask for a file of the same name, and the image of the second one.\<close>

lemma demo_request_nth [simp]:
  "length (m_subBlocks (demo_request d)) = 4" "Component_toUri (m_subBlocks (demo_request d) ! 3) = [102]"
  by (simp_all add: demo_request_def Component_toUri_def tlv_NameComponent_def tlv_ImplicitSha256DigestComponent_def
      Block_value_def block_value_def range_of_def Let_def escape_byte_def plain_def)

lemma demo_request_step:
  "\<exists>m. handle demo_hexDecoder demo_tess (Interest_in (demo_request d)) s = Inr ([ExpressInterest m 20000 True],
      s\<lparr>pendingInterest := map_insert [102] (demo_request d) (pendingInterest s)\<rparr>)
    \<and> name_keys m = [Key tlv_NameComponent (str ''pic''), Key tlv_NameComponent [d], Key tlv_NameComponent [102]] \<and> name_ok m"
proof -
  have "name_keys (demo_request d) ! 2 = Key tlv_NameComponent [d]" "name_keys (demo_request d) ! 3 = Key tlv_NameComponent [102]"
    by (simp_all add: name_keys_def demo_request_def comp_key_def Block_value_def block_value_def range_of_def Let_def)
  then show ?thesis
    using request_step [OF demo_request_ok, of d demo_hexDecoder s] by (simp add: demo_hexDecoder_print)
qed

lemma run_one: "handle hexDec tess ev s = Inr (os, t) \<Longrightarrow> run hexDec tess s [ev] (rev os) t"
  using run.run_step [OF run.run_Nil] by fastforce

lemma demo_run:
  "\<exists>s1 s2 m o1 o2 o3 s3. run demo_hexDecoder demo_tess (producer_init Map.empty) [Interest_in (demo_request 97)] o1 s1
    \<and> run demo_hexDecoder demo_tess s1 [Interest_in (demo_request 98)] o2 s2
    \<and> run demo_hexDecoder demo_tess (producer_init Map.empty)
        [Data_in m [72, 73], Interest_in (demo_request 98), Interest_in (demo_request 97)] o3 s3
    \<and> PutData (demo_request 97) (str ''OCR output: HI'') 20000 \<in> set o3
    \<and> pendingInterest s1 [102] = Some (demo_request 97)"
proof -
  let ?s0 = "producer_init Map.empty"
  let ?s1 = "?s0\<lparr>pendingInterest := map_insert [102] (demo_request 97) (pendingInterest ?s0)\<rparr>"
  let ?s2 = "?s1\<lparr>pendingInterest := map_insert [102] (demo_request 98) (pendingInterest ?s1)\<rparr>"
  obtain m1 where m1: "handle demo_hexDecoder demo_tess (Interest_in (demo_request 97)) ?s0 = Inr ([ExpressInterest m1 20000 True], ?s1)"
    using demo_request_step by blast
  obtain m2 where m2: "handle demo_hexDecoder demo_tess (Interest_in (demo_request 98)) ?s1 = Inr ([ExpressInterest m2 20000 True], ?s2)"
      "name_keys m2 = [Key tlv_NameComponent (str ''pic''), Key tlv_NameComponent [98], Key tlv_NameComponent [102]]" "name_ok m2"
    using demo_request_step by blast
  have f: "comp_ok (Block_value tlv_NameComponent [102])" "comp_key (Block_value tlv_NameComponent [102]) = Key tlv_NameComponent [102]"
      "Component_toUri (Block_value tlv_NameComponent [102]) = [102]"
    using demo_request_ok [of 97] demo_request_nth(2) [of 97]
    by (simp_all add: name_ok_def demo_request_def comp_key_def Block_value_def block_value_def range_of_def Let_def)
  have p: "pendingInterest ?s1 [102] = Some (demo_request 97)" "pendingInterest ?s2 [102] = Some (demo_request 97)"
    by (simp_all add: map_insert_def producer_init_def)
  have "fst demo_tess" "snd demo_tess (Some [72, 73]) = Some [72, 73]" by (simp_all add: demo_tess_def)
  from image_step [OF m2(3) m2(2) [folded f(2)] f(1) this] obtain s3 where
    "onData demo_tess m2 [72, 73] ?s2 = Inr ([PutData (demo_request 97) (str ''OCR output: '' @ [72, 73]) 20000], s3)"
    using p(2) f(3) by auto
  then have d: "handle demo_hexDecoder demo_tess (Data_in m2 [72, 73]) ?s2
      = Inr ([PutData (demo_request 97) (str ''OCR output: HI'') 20000], s3)" by (simp add: str_def)
  note r1 = run_one [OF m1] and r2 = run_one [OF m2(1)]
  note r3 = run.run_step [OF run.run_step [OF r1 m2(1)] d]
  show ?thesis by (intro exI conjI, rule r1, rule r2, rule r3, simp, rule p(1))
qed

theorem producer_first_requester_witness:
  "\<exists>s1 t o1 o2. run demo_hexDecoder demo_tess (producer_init Map.empty) [Interest_in (demo_request 97)] o1 s1
    \<and> run demo_hexDecoder demo_tess s1 [Interest_in (demo_request 98)] o2 t \<and> pendingInterest t [102] = Some (demo_request 97)"
  using demo_run producer_first_requester by blast

theorem producer_answers_received_witness:
  "\<exists>m os t. run demo_hexDecoder demo_tess (producer_init Map.empty)
      [Data_in m [72, 73], Interest_in (demo_request 98), Interest_in (demo_request 97)] os t
    \<and> PutData (demo_request 97) (str ''OCR output: HI'') 20000 \<in> set os
    \<and> (\<exists>later k img earlier text. [Data_in m [72, 73], Interest_in (demo_request 98), Interest_in (demo_request 97)]
          = later @ Data_in k img # earlier \<and> Interest_in (demo_request 97) \<in> set earlier
        \<and> snd demo_tess (Some img) = Some text \<and> str ''OCR output: HI'' = str ''OCR output: '' @ text)"
proof -
  obtain m os t where r: "run demo_hexDecoder demo_tess (producer_init Map.empty)
      [Data_in m [72, 73], Interest_in (demo_request 98), Interest_in (demo_request 97)] os t"
      "PutData (demo_request 97) (str ''OCR output: HI'') 20000 \<in> set os" using demo_run by blast
  show ?thesis
    by (rule exI [of _ m], rule exI [of _ os], rule exI [of _ t]) (use r producer_answers_received [OF r] in blast)
qed


section \<open>Files\<close>

lemma component_uri_not_dots:
  assumes "comp_ok c"
  shows "Component_toUri c \<noteq> [46] \<and> Component_toUri c \<noteq> [46, 46]"
proof (cases "isGeneric c")
  case True
  then have t: "m_type c = tlv_NameComponent" by (simp add: isGeneric_def)
  note uri = generic_uri(1) [OF t comp_ok_value [OF assms]]
  show ?thesis
  proof (cases "list_ex (\<lambda>x. x \<noteq> 46) (block_value c)")
    case True
    then obtain x where x: "x \<in> set (block_value c)" "x \<noteq> 46" by (auto simp: list_ex_iff)
    have "\<exists>y \<in> set (escape_byte x). y \<noteq> 46" using x(2) by (auto simp: escape_byte_def)
    then have "\<exists>y \<in> set (Component_toUri c). y \<noteq> 46" using x(1) True uri by auto
    then show ?thesis by auto
  next
    case False
    then have "length (Component_toUri c) = 3 + value_size c" by (simp add: uri)
    then show ?thesis by auto
  qed
next
  case False
  then have "m_type c = tlv_ImplicitSha256DigestComponent" using assms by (simp add: comp_ok_def isImplicitSha256Digest_def)
  then show ?thesis by (simp add: Component_toUri_def sha256Prefix_def str_def)
qed

definition inside_data_dir :: "bytes \<Rightarrow> bool" where
  "inside_data_dir p \<longleftrightarrow> (\<exists>u. p = data_dir @ u \<and> u \<noteq> [] \<and> 47 \<notin> set u \<and> u \<noteq> [46] \<and> u \<noteq> [46, 46])"

lemma uri_inside: "comp_ok c \<Longrightarrow> inside_data_dir (data_dir @ Component_toUri c)"
  using component_uri_not_dots component_uri_not_Nil component_uri_chars by (fastforce simp: inside_data_dir_def)

text \<open>
  Whatever Data comes in, the producer writes only files directly inside its data directory: the URI
  of a component has no slash and is not \<open>.\<close> or \<open>..\<close>, so that a name cannot lead out of it.
\<close>

theorem producer_writes_inside:
  assumes "run hexDec tess s evs os t" and "\<forall>n img. Data_in n img \<in> set evs \<longrightarrow> name_ok n" and "files t p \<noteq> files s p"
  shows "inside_data_dir p"
  using assms
proof (induction rule: run.induct)
  case (run_step evs os t ev os' u)
  show ?case
  proof (cases "files u p = files t p")
    case True
    moreover have "\<forall>n img. Data_in n img \<in> set evs \<longrightarrow> name_ok n" using run_step.prems(1) by simp
    ultimately show ?thesis using run_step.IH run_step.prems(2) by simp
  next
    case False
    then obtain n img where ev: "ev = Data_in n img"
      using run_step.hyps(2) onInterest_effects(4) by (cases ev) fastforce+
    then have d: "onData tess n img t = Inr (os', u)" using run_step.hyps(2) by simp
    then have "p = data_dir @ Component_toUri (m_subBlocks n ! 2)" using False onData_effects(3) by (auto split: if_splits)
    moreover have "comp_ok (m_subBlocks n ! 2)"
      using run_step.prems(1) ev onData_effects(1) [OF d] by (simp add: name_ok_def list_all_length)
    ultimately show ?thesis using uri_inside by simp
  qed
qed simp

theorem producer_writes_inside_witness: "inside_data_dir (data_dir @ [102])"
proof -
  obtain m s3 where d: "onData demo_tess m [72] (producer_init Map.empty) = Inr ([], s3)" "name_ok m"
      "files s3 (data_dir @ [102]) = Some [72]"
  proof -
    obtain m where m: "name_keys m = [Key tlv_NameComponent (str ''pic''), Key tlv_NameComponent [97], Key tlv_NameComponent [102]]"
        "name_ok m" using demo_request_step by blast
    have f: "comp_ok (Block_value tlv_NameComponent [102])" "comp_key (Block_value tlv_NameComponent [102]) = Key tlv_NameComponent [102]"
        "Component_toUri (Block_value tlv_NameComponent [102]) = [102]"
      using demo_request_ok [of 97] demo_request_nth(2) [of 97]
      by (simp_all add: name_ok_def demo_request_def comp_key_def Block_value_def block_value_def range_of_def Let_def)
    have "fst demo_tess" "snd demo_tess (Some [72]) = Some [72]" by (simp_all add: demo_tess_def)
    from image_step [OF m(2) m(1) [folded f(2)] f(1) this, of "producer_init Map.empty"]
    show ?thesis using that m(2) f(3) by (simp add: producer_init_def)
  qed
  have "handle demo_hexDecoder demo_tess (Data_in m [72]) (producer_init Map.empty) = Inr ([], s3)" using d(1) by simp
  from run_one [OF this] show ?thesis
    by (rule producer_writes_inside) (use d in \<open>simp_all add: producer_init_def\<close>)
qed


section \<open>The producer of \<open>producer.cpp\<close>\<close>

text \<open>
  The answer of the other producer: its name is the name of the Interest followed by \<open>testApp\<close> and
  the time as a version, and it holds the text of the file at the URI of the Interest without its first
  13 characters.
\<close>

theorem testApp_answer:
  assumes "name_ok n" and "length (m_subBlocks n) < 2 ^ 31 - 2" and "fst tess"
    and "snd tess (fs (str ''../data/'' @ drop 13 (Name_toUri n))) = Some text"
  shows "\<exists>d. testApp_onInterest tess fs now n = Inr [PutData d (str ''OCR output: '' @ text) 10000]
    \<and> name_keys d = name_keys n @ [Key tlv_NameComponent (str ''testApp''), Key tlv_NameComponent (VERSION_MARKER # nni now)]
    \<and> isPrefixOf n d = Inr True"
proof -
  obtain c where c: "Component_of_value (str ''testApp'') = Inr c" "comp_ok c" "elem_of c = (tlv_NameComponent, str ''testApp'')"
    using Component_value_ok [of "str ''testApp''"] by (auto simp: str_def)
  obtain v where v: "fromNumberWithMarker VERSION_MARKER now = Inr v" "comp_ok v" "elem_of v = (tlv_NameComponent, VERSION_MARKER # nni now)"
    using fromNumberWithMarker_value by blast
  let ?d = "push_back (Name_append n c) v"
  have subs: "m_subBlocks ?d = m_subBlocks n @ [c, v]" by (simp add: push_back_def Name_append_def)
  have keys: "name_keys ?d = name_keys n @ [Key tlv_NameComponent (str ''testApp''), Key tlv_NameComponent (VERSION_MARKER # nni now)]"
    using c(3) v(3) by (simp add: name_keys_def subs comp_key_def elem_of_def)
  have "testApp_onInterest tess fs now n = Inr [PutData ?d (str ''OCR output: '' @ text) 10000]"
    using c(1) v(1) assms(3,4)
    by (simp add: testApp_onInterest_def append_value_def appendVersion_def fromVersion_def run_tess_def)
  moreover have "isPrefixOf n ?d = Inr True"
  proof -
    have "few n" "few ?d" using assms(1,2) by (simp_all add: name_ok_def few_def subs)
    moreover have "list_all2 Component_equals (m_subBlocks n) (m_subBlocks n)"
      using assms(1) equal_keys by (auto simp: name_ok_def)
    ultimately show ?thesis using isPrefixOf_run by (simp add: subs)
  qed
  ultimately show ?thesis using keys by blast
qed

theorem testApp_answer_witness:
  "\<exists>d. testApp_onInterest (True, \<lambda>_. Some [72]) Map.empty 7 demo_name = Inr [PutData d (str ''OCR output: '' @ [72]) 10000]
    \<and> name_keys d = name_keys demo_name @ [Key tlv_NameComponent (str ''testApp''), Key tlv_NameComponent (VERSION_MARKER # nni 7)]
    \<and> isPrefixOf demo_name d = Inr True"
  by (rule testApp_answer [OF demo_name_ok]) (simp_all add: demo_name_def)

end
