(* ===== verification/Elements.thy ===== *)
theory Elements
  imports NameProps
begin

text \<open>
  What the packet classes share: the value of an element as a sequence of elements, how the encoding
  functions write it and how the decoding functions find the elements again. The collection
  \<open>field_intros\<close> finds out what a \<open>wireEncode\<close> function writes.
\<close>

section \<open>Sequences of elements\<close>

type_synonym elem = "32 word \<times> bytes"

definition elems_bytes :: "elem list \<Rightarrow> bytes" where
  "elems_bytes es = concat (map (\<lambda>(t, v). tlv t v) es)"

lemma elems_bytes_simps [simp]:
  "elems_bytes [] = []" "elems_bytes ((t, v) # es) = tlv t v @ elems_bytes es"
  "elems_bytes (es @ fs) = elems_bytes es @ elems_bytes fs"
  by (simp_all add: elems_bytes_def)

lemma comps_elems: "comps_bytes cs = elems_bytes (map elem_of cs)"
  by (induction cs) (simp_all add: comps_bytes_def elem_of_def)

lemma elems_length_le: "length (elems_bytes es) \<le> sum_list (map (\<lambda>e. length (snd e) + 18) es)"
proof (induction es)
  case (Cons e es)
  then show ?case using tlv_length_le [of "fst e" "snd e"] by (cases e) simp
qed simp

lemma nni_length_le: "length (nni n) \<le> 8"
  using nni_length [of n] by auto

lemma no_wire [simp]: "\<not> hasWire Block_empty" "\<not> hasWire (Block_type t)" "Component_empty Component_new"
  by (simp_all add: Block_empty_def Block_type_def hasWire_def Component_new_def Component_empty_def value_size_def hasValue_def)

text \<open>A block that holds an element in its shortest form and has not been parsed.\<close>

definition holds :: "block \<Rightarrow> elem \<Rightarrow> bool" where
  "holds b e \<longleftrightarrow> elem_of b = e \<and> block_ok b \<and> wire b = Inr (tlv (fst e) (snd e)) \<and> m_subBlocks b = []"

lemma holds_sel: "holds b (t, v) \<Longrightarrow> m_type b = t \<and> block_value b = v \<and> value_size b = length v \<and> hasWire b"
  using block_value_length [of b] by (auto simp: holds_def elem_of_def wire_def split: if_splits)

lemma parse_loop_flat: "(\<forall>s \<in> set subs. m_subBlocks s = []) \<Longrightarrow> parse_loop buf b e subs = (res, ex) \<Longrightarrow> \<forall>s \<in> set res. m_subBlocks s = []"
proof (induction buf b e subs rule: parse_loop.induct)
  case (1 buf b e subs)
  have "\<forall>s \<in> set res. m_subBlocks s = []" if "parse_loop buf b e subs = (res, ex)"
  proof (cases "range_of buf b e = [] \<or> (\<exists>x. readHeader (range_of buf b e) = Inl x)")
    case True
    then show ?thesis using "1.prems"(1) that by (subst (asm) parse_loop.simps) (auto split: if_splits)
  next
    case False
    then obtain t len rest where r: "range_of buf b e \<noteq> []" "readHeader (range_of buf b e) = Inr (t, len, rest)"
      by (cases "readHeader (range_of buf b e)") auto
    show ?thesis
    proof (cases "len > word_of_nat (length rest)")
      case True
      then show ?thesis using r that by (subst (asm) parse_loop.simps) auto
    next
      case False
      have "parse_loop buf (e - length rest + unat len) e (subs @ [Block (Some buf) t b (e - length rest + unat len)
          (word_of_nat (e - length rest + unat len - b)) (e - length rest) (e - length rest + unat len) []]) = (res, ex)"
        using r False that by (subst (asm) parse_loop.simps) (simp add: Let_def)
      then show ?thesis using "1.IH" [OF r(1,2) refl refl False refl refl] "1.prems"(1) by simp
    qed
  qed
  then show ?case using "1.prems"(2) .
qed

lemma parse_flat: "m_subBlocks b = [] \<Longrightarrow> parse b = (b', ex) \<Longrightarrow> \<forall>s \<in> set (m_subBlocks b'). m_subBlocks s = []"
  using parse_loop_flat [of "[]"] by (auto simp: parse_def split: if_splits option.splits prod.splits)

lemma elems_elements: "list_all2 element (map (\<lambda>(t, v). tlv t v) es) es"
  by (induction es) auto

lemma holds_parse:
  assumes "block_ok b" and "m_subBlocks b = []" and "block_value b = elems_bytes es"
  shows "\<exists>bs. parse b = (set_subBlocks b bs, None) \<and> list_all2 holds bs es"
proof -
  obtain bs where bs: "parse b = (set_subBlocks b bs, None)" "map elem_of bs = es" "list_all block_ok bs"
      "map wire bs = map Inr (map (\<lambda>(t, v). tlv t v) es)"
    using parse_elements [OF assms(1,2) assms(3) [unfolded elems_bytes_def] elems_elements] by blast
  have len: "length bs = length es" using bs(2) by auto
  have "holds (bs ! i) (es ! i)" if i: "i < length bs" for i
  proof -
    have "map wire bs ! i = map Inr (map (\<lambda>(t, v). tlv t v) es) ! i" using bs(4) by simp
    moreover have "elem_of (bs ! i) = es ! i" using bs(2) i by auto
    moreover have "m_subBlocks (bs ! i) = []" using parse_flat [OF assms(2) bs(1)] i by simp
    ultimately show ?thesis using i len bs(3) by (simp add: holds_def list_all_length split: prod.splits)
  qed
  then show ?thesis using bs(1) len by (auto simp: list_all2_conv_all_nth)
qed

lemma holds_parse': "holds b (t, elems_bytes es) \<Longrightarrow> \<exists>bs. parse b = (set_subBlocks b bs, None) \<and> list_all2 holds bs es"
  using holds_sel [of b t] by (intro holds_parse) (auto simp: holds_def)

text \<open>Parsing a block that is kept, as the decoding functions begin.\<close>

definition parsed :: "block \<Rightarrow> block result" where
  "parsed w = (case parse w of (b, None) \<Rightarrow> Inr b | (b, Some e) \<Rightarrow> Inl e)"

lemma holds_parsed:
  assumes "holds b (t, elems_bytes es)"
  shows "\<exists>bs. parsed b = Inr (set_subBlocks b bs) \<and> list_all2 holds bs es"
  using holds_parse' [OF assms] by (auto simp: parsed_def)

lemma made_holds:
  assumes "emits est_rep est (tlv t v)" and "\<And>cap. emits (enc_exact cap) enc (tlv t v)" and "length v < 2 ^ 63"
  shows "\<exists>b. make_block est enc = Inr b \<and> Block_buffer (tlv t v) = Inr b \<and> holds b (t, v)"
proof -
  obtain b where "make_block est enc = Inr b" "block_ok b" "wire b = Inr (tlv t v)" "elem_of b = (t, v)" "m_subBlocks b = []"
    using make_block_tlv [OF assms(1,2) fits_small [OF assms(3)]] by auto
  then show ?thesis using make_block_buffer [OF assms(1,2)] by (simp add: holds_def)
qed

lemma Block_buffer_holds:
  assumes "length v < 2 ^ 63"
  shows "\<exists>b. Block_buffer (tlv t v) = Inr b \<and> holds b (t, v)"
proof -
  obtain b where b: "Block_buffer (tlv t v) = Inr b" "block_ok b" "elem_of b = (t, v)" "wire b = Inr (tlv t v)"
    using Block_buffer_tlv [OF fits_small [OF assms]] by blast
  moreover have "m_subBlocks b = []"
    using b(1) by (auto simp: Block_buffer_def Block_range_def bindE_Inr_conv split: if_splits)
  ultimately show ?thesis by (simp add: holds_def)
qed

lemma holds_nni: "holds b (t, nni n) \<Longrightarrow> readNonNegativeInteger_block b = Inr n"
  using holds_sel [of b t "nni n"] by (simp add: read_block_nni holds_def)


lemma blockFromValue_holds:
  assumes "holds b (t, tlv t' v')"
  shows "\<exists>c. blockFromValue b = Inr c \<and> holds c (t', v')"
proof -
  have ok: "block_ok b" and v: "block_value b = tlv t' v'" and sz: "value_size b \<noteq> 0"
    using assms holds_sel [OF assms] by (auto simp: holds_def)
  obtain buf where buf: "m_buffer b = Some buf" using holds_sel [OF assms] by (auto simp: hasWire_def)
  let ?vb = "m_value_begin b" and ?ve = "m_value_end b"
  have b: "fits buf" "?vb \<le> ?ve" "?ve \<le> length buf" "range_of buf ?vb ?ve = tlv t' v'"
    using ok buf v by (simp_all add: block_ok_def block_value_def)
  then have r: "readHeader (range_of buf ?vb ?ve) = Inr (t', word_of_nat (length v'), v')" by simp
  have "blockFromValue b = Inr (block_at buf t' ?vb (?ve - length v') ?ve)"
    using sz buf v by (simp add: blockFromValue_def block_at_def)
  then show ?thesis using block_at_ok [OF b(1-3) r refl] b(4) by (simp add: holds_def block_at_def)
qed


text \<open>A number that fits into an \<open>int\<close> comes back through 64 bits.\<close>

lemma int32_small:
  assumes "0 \<le> n" and "n < 2 ^ 31"
  shows "sint (ucast (word_of_int n :: 64 word) :: 32 word) = n"
proof -
  obtain k where k: "n = int k" "k < 2 ^ 31" using assms by (cases n) auto
  have "sint (word_of_int (int k) :: 32 word) = int k"
    using k(2) by (simp only: sint_sbintrunc') (simp add: signed_take_bit_int_eq_self)
  moreover have "ucast (word_of_int (int k) :: 64 word) = (word_of_int (int k) :: 32 word)"
    using k(2) by (simp add: word_unat_eq_iff unsigned_ucast_eq unat_of_nat take_bit_nat_eq_self)
  ultimately show ?thesis using k(1) by simp
qed


section \<open>Finding an element\<close>

text \<open>\<open>find\<close> as the callers use it: compared with the end first.\<close>

definition find_sub :: "block \<Rightarrow> 32 word \<Rightarrow> block option" where
  "find_sub b t = (if block_find b t \<noteq> length (m_subBlocks b) then Some (m_subBlocks b ! block_find b t) else None)"

lemma takeWhile_nth_holds:
  assumes "list_all2 holds bs es"
  shows "case map_of es t of None \<Rightarrow> length (takeWhile (\<lambda>s. m_type s \<noteq> t) bs) = length bs
    | Some v \<Rightarrow> length (takeWhile (\<lambda>s. m_type s \<noteq> t) bs) < length bs
        \<and> holds (bs ! length (takeWhile (\<lambda>s. m_type s \<noteq> t) bs)) (t, v)"
  using assms
proof (induction rule: list_all2_induct)
  case (Cons b bs e es)
  then show ?case using holds_sel [of b "fst e" "snd e"] by (cases e) (auto split: option.splits)
qed simp

lemma find_sub_holds:
  assumes "list_all2 holds (m_subBlocks b) es"
  shows "find_sub b t = None \<and> map_of es t = None \<or> (\<exists>x v. find_sub b t = Some x \<and> map_of es t = Some v \<and> holds x (t, v))"
  using takeWhile_nth_holds [OF assms, of t] by (cases "map_of es t") (auto simp: find_sub_def block_find_def)

lemma find_sub_None: "list_all2 holds (m_subBlocks b) es \<Longrightarrow> map_of es t = None \<Longrightarrow> find_sub b t = None"
  using find_sub_holds [of b es t] by auto

lemma find_sub_Some: "list_all2 holds (m_subBlocks b) es \<Longrightarrow> map_of es t = Some v \<Longrightarrow> \<exists>x. find_sub b t = Some x \<and> holds x (t, v)"
  using find_sub_holds [of b es t] by auto

lemma block_get_holds: "list_all2 holds (m_subBlocks b) es \<Longrightarrow> map_of es t = Some v \<Longrightarrow> \<exists>x. block_get b t = Inr x \<and> holds x (t, v)"
  using find_sub_Some [of b es t v] by (auto simp: find_sub_def block_get_def split: if_splits)


section \<open>Names inside other elements\<close>

definition name_elem :: "block \<Rightarrow> elem" where
  "name_elem n = (tlv_Name, elems_bytes (map elem_of (m_subBlocks n)))"

lemma holds_component:
  assumes "holds b (elem_of c)" and "comp_ok c"
  shows "canonical b" and "comp_key b = comp_key c"
proof -
  have "list_all comp_ok [b]" using assms by (intro elems_comps [of "[b]" "[c]"]) (simp_all add: holds_def)
  then show "canonical b" "comp_key b = comp_key c"
    using assms(1) by (simp_all add: canonical_def holds_def comp_key_def elem_of_def)
qed

lemma holds_components:
  "list_all2 holds bs (map elem_of cs) \<Longrightarrow> list_all comp_ok cs \<Longrightarrow> list_all canonical bs \<and> map comp_key bs = map comp_key cs"
proof (induction bs arbitrary: cs)
  case (Cons b bs)
  then show ?case using holds_component by (cases cs) auto
qed simp

lemma holds_name:
  assumes "holds b (name_elem n)" and "name_ok n"
  shows "\<exists>m. Name_wireDecode x b = (m, None) \<and> Name_of_block b = Inr m \<and> name_keys m = name_keys n \<and> name_ok m
    \<and> list_all canonical (m_subBlocks m) \<and> wire m = wire b"
proof -
  obtain bs where bs: "parse b = (set_subBlocks b bs, None)" "list_all2 holds bs (map elem_of (m_subBlocks n))"
    using assms(1) holds_parse' by (fastforce simp: name_elem_def)
  have t: "m_type b = tlv_Name" using assms(1) holds_sel by (auto simp: name_elem_def)
  have c: "list_all canonical bs" "map comp_key bs = map comp_key (m_subBlocks n)"
    using holds_components [OF bs(2)] assms(2) by (auto simp: name_ok_def)
  have "length bs = length (m_subBlocks n)" using bs(2) by (auto dest: list_all2_lengthD)
  then have "name_ok (set_subBlocks b bs)" using assms(2) c(1) by (auto simp: name_ok_def few_def canonical_def list_all_iff)
  then show ?thesis using bs(1) c t by (simp add: Name_wireDecode_def Name_of_block_def name_keys_def)
qed


section \<open>What the encoding functions write\<close>

text \<open>A field that is left out.\<close>

abbreviation skipE :: "'e \<Rightarrow> (nat \<times> 'e) result" where
  "skipE \<equiv> \<lambda>e. Inr (0, e)"

text \<open>A block whose wire, if it has one, is in the shortest form.\<close>

definition shortest :: "block \<Rightarrow> bool" where
  "shortest b \<longleftrightarrow> block_ok b \<and> element_bytes b = tlv (m_type b) (block_value b) \<and> length (element_bytes b) < 2 ^ 32"

lemma holds_shortest: "holds b (t, v) \<Longrightarrow> length (tlv t v) < 2 ^ 32 \<Longrightarrow> shortest b"
  using holds_sel [of b t v] by (simp add: holds_def shortest_def element_bytes_def)

lemma tlv_inj: "tlv t v = tlv u w \<Longrightarrow> t = u \<and> v = w"
  by (drule arg_cong [of _ _ readHeader]) (simp only: readHeader_tlv' sum.inject prod.inject)

lemma shortest_size:
  assumes "shortest b" and "hasWire b"
  shows "block_size b = Inr (length (tlv (m_type b) (block_value b)))" and "wire b = Inr (tlv (m_type b) (block_value b))"
proof -
  have "hasValue b" using assms(2) by (simp add: hasWire_def hasValue_def)
  then show "block_size b = Inr (length (tlv (m_type b) (block_value b)))"
    using element_size [of b] assms(1) by (auto simp only: shortest_def)
  obtain w where "wire b = Inr w" using assms(2) by (auto simp: wire_def)
  then show "wire b = Inr (tlv (m_type b) (block_value b))" using assms(1) by (simp add: shortest_def element_bytes_def)
qed

lemma block_eq_shortest:
  assumes "shortest a" and "hasWire a" and "shortest b" and "hasWire b"
  shows "block_eq a b = Inr (elem_of a = elem_of b)"
  using shortest_size [OF assms(1,2)] shortest_size [OF assms(3,4)] tlv_inj
  by (auto simp: block_eq_def elem_of_def)

named_theorems field_intros "what the encoding functions of the packet classes write"

definition writes :: "('e \<Rightarrow> bytes \<Rightarrow> bool) \<Rightarrow> ('e \<Rightarrow> (nat \<times> 'e) result) \<Rightarrow> elem list \<Rightarrow> bool" where
  "writes R f es \<longleftrightarrow> emits R f (elems_bytes es)"

lemma writes_addE [field_intros]: "writes R f es \<Longrightarrow> writes R g fs \<Longrightarrow> writes R (addE f g) (fs @ es)"
  unfolding writes_def elems_bytes_simps by (rule emits_addE)

lemma writes_skip [field_intros]: "writes R skipE []"
  by (simp add: writes_def emits_def)

lemma writes_if [field_intros]:
  "(c \<Longrightarrow> writes R f es) \<Longrightarrow> (\<not> c \<Longrightarrow> writes R g fs) \<Longrightarrow> writes R (if c then f else g) (if c then es else fs)"
  by simp

text \<open>A part that computes what it writes first.\<close>

definition fromE :: "'a result \<Rightarrow> ('a \<Rightarrow> 'e \<Rightarrow> (nat \<times> 'e) result) \<Rightarrow> 'e \<Rightarrow> (nat \<times> 'e) result" where
  "fromE m f e = bindE m (\<lambda>x. f x e)"

lemma writes_fromE [field_intros]: "m = Inr x \<Longrightarrow> writes R (f x) es \<Longrightarrow> writes R (fromE m f) es"
  by (simp add: writes_def emits_def fromE_def)

context prepender
begin

lemma writes_header: "writes R f es \<Longrightarrow> writes R (with_header T t f) [(t, elems_bytes es)]"
  by (simp add: writes_def prepend_header)

lemma writes_nested: "writes R f es \<Longrightarrow> writes R (prependNestedBlock T t f) [(t, elems_bytes es)]"
  by (simp add: writes_def prepend_nested_block)

lemma writes_nni: "writes R (prependNonNegativeIntegerBlock T t n) [(t, nni n)]"
  by (simp add: writes_def prepend_nni_block)

lemma writes_empty: "writes R (prependEmptyBlock T t) [(t, [])]"
  by (simp add: writes_def prepend_empty_block)

lemma writes_block: "shortest b \<Longrightarrow> writes R (prependBlock T b) [elem_of b]"
proof -
  assume b: "shortest b"
  then have "emits R (prependBlock T b) (element_bytes b)" by (intro prepend_block) (auto simp only: shortest_def)
  then show ?thesis using b by (simp add: writes_def shortest_def elem_of_def)
qed

lemma writes_from_block: "m = Inr b \<Longrightarrow> shortest b \<Longrightarrow> writes R (fromE m (prependBlock T)) [elem_of b]"
  by (simp add: writes_fromE writes_block)

lemma writes_component: "comp_ok c \<Longrightarrow> writes R (Component_wireEncode T c) [elem_of c]"
  using component_emits [OF comp_ok_value] by (simp add: writes_def elem_of_def)

lemma writes_name: "name_ok n \<Longrightarrow> writes R (Name_wireEncode T n) [name_elem n]"
proof -
  assume "name_ok n"
  then have "\<forall>c \<in> set (m_subBlocks n). length (block_value c) = value_size c"
    using comp_ok_value by (simp add: name_ok_def list_all_iff)
  from name_emits [OF this] show ?thesis by (simp add: writes_def name_elem_def comps_elems)
qed

lemmas writes_fields = writes_addE writes_skip writes_if writes_header writes_nested writes_nni writes_empty writes_block
  writes_component writes_name

end

text \<open>The block \<open>make_block\<close> gives for a function that writes one element.\<close>

lemma made_writes:
  assumes "writes est_rep est [(t, v)]" and "\<And>cap. writes (enc_exact cap) enc [(t, v)]" and "length v < 2 ^ 63"
  shows "\<exists>b. make_block est enc = Inr b \<and> Block_buffer (tlv t v) = Inr b \<and> holds b (t, v)"
  using made_holds [of est t v enc] assms by (simp add: writes_def)

end
