(* ===== verification/KeyLocator.thy ===== *)
theory KeyLocator
  imports Elements
begin

text \<open>
  \<open>key-locator.cpp\<close> of ndn-cxx: the name or the digest of the key that signed a packet. A decoding function
  that throws leaves an object nobody reads any more, so that only the exception is returned.
\<close>

section \<open>The class\<close>

definition tlv_KeyLocator :: "32 word" where "tlv_KeyLocator = 28"
definition tlv_KeyDigest :: "32 word" where "tlv_KeyDigest = 29"

datatype key_locator_type = KeyLocator_None | KeyLocator_Name | KeyLocator_KeyDigest | KeyLocator_Unknown

record key_locator =
  kl_type :: key_locator_type
  kl_name :: block
  kl_keyDigest :: block
  kl_wire :: block

definition KeyLocator_new :: key_locator where
  "KeyLocator_new = \<lparr>kl_type = KeyLocator_None, kl_name = Name_new, kl_keyDigest = Block_empty, kl_wire = Block_empty\<rparr>"

definition KeyLocator_empty :: "key_locator \<Rightarrow> bool" where
  "KeyLocator_empty k \<longleftrightarrow> kl_type k = KeyLocator_None"

definition KeyLocator_clear :: "key_locator \<Rightarrow> key_locator" where
  "KeyLocator_clear k =
     k\<lparr>kl_wire := block_reset (kl_wire k), kl_type := KeyLocator_None, kl_name := Name_new,
       kl_keyDigest := block_reset (kl_keyDigest k)\<rparr>"

definition KeyLocator_getName :: "key_locator \<Rightarrow> block result" where
  "KeyLocator_getName k =
     (if kl_type k \<noteq> KeyLocator_Name then Inl (KeyLocatorError ''KeyLocator type is not Name'') else Inr (kl_name k))"

definition KeyLocator_setName :: "key_locator \<Rightarrow> block \<Rightarrow> key_locator" where
  "KeyLocator_setName k n = (KeyLocator_clear k)\<lparr>kl_type := KeyLocator_Name, kl_name := n\<rparr>"

definition getKeyDigest :: "key_locator \<Rightarrow> block result" where
  "getKeyDigest k =
     (if kl_type k \<noteq> KeyLocator_KeyDigest then Inl (KeyLocatorError ''KeyLocator type is not KeyDigest'')
      else Inr (kl_keyDigest k))"

definition setKeyDigest :: "key_locator \<Rightarrow> block \<Rightarrow> key_locator result" where
  "setKeyDigest k d =
     (if m_type d \<noteq> tlv_KeyDigest then Inl (KeyLocatorError ''expecting KeyDigest block'')
      else Inr ((KeyLocator_clear k)\<lparr>kl_type := KeyLocator_KeyDigest, kl_keyDigest := d\<rparr>))"

definition setKeyDigest_buffer :: "key_locator \<Rightarrow> bytes \<Rightarrow> key_locator result" where
  "setKeyDigest_buffer k v = bindE (makeBinaryBlock tlv_KeyDigest v) (setKeyDigest k)"


section \<open>Wire format\<close>

definition KeyLocator_wireEncode :: "'e encoding_impl \<Rightarrow> key_locator \<Rightarrow> 'e \<Rightarrow> (nat \<times> 'e) result" where
  "KeyLocator_wireEncode T k = with_header T tlv_KeyLocator
     (case kl_type k of
        KeyLocator_None \<Rightarrow> skipE
      | KeyLocator_Name \<Rightarrow> Name_wireEncode T (kl_name k)
      | KeyLocator_KeyDigest \<Rightarrow> prependBlock T (kl_keyDigest k)
      | KeyLocator_Unknown \<Rightarrow> (\<lambda>_. Inl (KeyLocatorError ''Unsupported KeyLocator type'')))"

text \<open>The object with its wire.\<close>

definition KeyLocator_wire :: "key_locator \<Rightarrow> key_locator result" where
  "KeyLocator_wire k =
     (if hasWire (kl_wire k) then Inr k
      else bindE (make_block (KeyLocator_wireEncode EstimatorTag k) (KeyLocator_wireEncode EncoderTag k)) (\<lambda>b.
        Inr (k\<lparr>kl_wire := b\<rparr>)))"

definition KeyLocator_wireDecode :: "key_locator \<Rightarrow> block \<Rightarrow> key_locator result" where
  "KeyLocator_wireDecode k w =
     (if m_type w \<noteq> tlv_KeyLocator then Inl (KeyLocatorError ''Unexpected TLV type during KeyLocator decoding'')
      else case parse w of
        (b, Some e) \<Rightarrow> Inl e
      | (b, None) \<Rightarrow>
          (case m_subBlocks b of
             [] \<Rightarrow> Inr (k\<lparr>kl_wire := b, kl_type := KeyLocator_None\<rparr>)
           | s # _ \<Rightarrow>
               if m_type s = tlv_Name then
                 (case Name_wireDecode (kl_name k) s of
                    (n, None) \<Rightarrow> Inr (k\<lparr>kl_wire := b, kl_type := KeyLocator_Name, kl_name := n\<rparr>)
                  | (n, Some e) \<Rightarrow> Inl e)
               else if m_type s = tlv_KeyDigest then
                 Inr (k\<lparr>kl_wire := b, kl_type := KeyLocator_KeyDigest, kl_keyDigest := s\<rparr>)
               else Inr (k\<lparr>kl_wire := b, kl_type := KeyLocator_Unknown\<rparr>)))"

definition KeyLocator_equals :: "key_locator \<Rightarrow> key_locator \<Rightarrow> bool result" where
  "KeyLocator_equals k l =
     bindE (KeyLocator_wire k) (\<lambda>k. bindE (KeyLocator_wire l) (\<lambda>l. block_eq (kl_wire k) (kl_wire l)))"

definition KeyLocator_print :: "key_locator \<Rightarrow> bytes" where
  "KeyLocator_print k =
     (case kl_type k of
        KeyLocator_Name \<Rightarrow> str ''Name='' @ Name_toUri (kl_name k)
      | KeyLocator_KeyDigest \<Rightarrow>
          str ''KeyDigest='' @ take 10 (toHex (block_value (kl_keyDigest k)) True)
            @ (if value_size (kl_keyDigest k) > 5 then str ''...'' else [])
      | KeyLocator_None \<Rightarrow> str ''None''
      | KeyLocator_Unknown \<Rightarrow> str ''Unknown'')"


section \<open>Round trip\<close>

definition kl_ok :: "key_locator \<Rightarrow> bool" where
  "kl_ok k \<longleftrightarrow> (case kl_type k of KeyLocator_None \<Rightarrow> True | KeyLocator_Name \<Rightarrow> name_ok (kl_name k)
     | KeyLocator_KeyDigest \<Rightarrow> shortest (kl_keyDigest k) \<and> m_type (kl_keyDigest k) = tlv_KeyDigest | KeyLocator_Unknown \<Rightarrow> False)"

definition kl_elems :: "key_locator \<Rightarrow> elem list" where
  "kl_elems k = (case kl_type k of KeyLocator_None \<Rightarrow> [] | KeyLocator_Name \<Rightarrow> [name_elem (kl_name k)]
     | KeyLocator_KeyDigest \<Rightarrow> [elem_of (kl_keyDigest k)] | KeyLocator_Unknown \<Rightarrow> [])"

definition kl_elem :: "key_locator \<Rightarrow> elem" where
  "kl_elem k = (tlv_KeyLocator, elems_bytes (kl_elems k))"

text \<open>The same locator: the type, and the name or the digest.\<close>

definition kl_same :: "key_locator \<Rightarrow> key_locator \<Rightarrow> bool" where
  "kl_same k l \<longleftrightarrow> kl_type k = kl_type l
     \<and> (kl_type k = KeyLocator_Name \<longrightarrow> name_keys (kl_name k) = name_keys (kl_name l))
     \<and> (kl_type k = KeyLocator_KeyDigest \<longrightarrow> elem_of (kl_keyDigest k) = elem_of (kl_keyDigest l))"

lemma kl_new_ok [simp]: "kl_ok KeyLocator_new" "kl_type KeyLocator_new = KeyLocator_None"
  by (simp_all add: kl_ok_def KeyLocator_new_def)

context prepender
begin

lemma writes_key_locator:
  assumes "kl_ok k"
  shows "writes R (KeyLocator_wireEncode T k) [kl_elem k]"
  unfolding KeyLocator_wireEncode_def kl_elem_def using assms
  by (intro writes_header, cases "kl_type k") (auto simp: kl_ok_def kl_elems_def intro!: writes_fields)

end

lemma holds_key_locator:
  assumes "holds b (kl_elem k)" and "kl_ok k"
  shows "\<exists>l. KeyLocator_wireDecode x b = Inr l \<and> kl_same k l \<and> hasWire (kl_wire l) \<and> wire (kl_wire l) = wire b"
proof -
  obtain bs where bs: "parse b = (set_subBlocks b bs, None)" "list_all2 holds bs (kl_elems k)"
    using assms(1) holds_parse' unfolding kl_elem_def by blast
  have b: "m_type b = tlv_KeyLocator" "hasWire b" using assms(1) holds_sel [of b "tlv_KeyLocator"] by (simp_all add: kl_elem_def)
  show ?thesis
  proof (cases "kl_type k")
    case KeyLocator_None
    then show ?thesis using bs b by (simp add: KeyLocator_wireDecode_def kl_same_def kl_elems_def)
  next
    case KeyLocator_Name
    then obtain s where s: "bs = [s]" "holds s (name_elem (kl_name k))" using bs(2) by (auto simp: list_all2_Cons2 kl_elems_def)
    have "name_ok (kl_name k)" using assms(2) KeyLocator_Name by (simp add: kl_ok_def)
    from holds_name [OF s(2) this, of "kl_name x"] obtain m where
      "Name_wireDecode (kl_name x) s = (m, None)" "name_keys m = name_keys (kl_name k)" by blast
    moreover have "m_type s = tlv_Name" using s(2) holds_sel [of s tlv_Name] by (simp add: name_elem_def)
    ultimately show ?thesis using bs(1) b s(1) KeyLocator_Name by (simp add: KeyLocator_wireDecode_def kl_same_def)
  next
    case KeyLocator_KeyDigest
    then obtain s where s: "bs = [s]" "holds s (elem_of (kl_keyDigest k))" using bs(2) by (auto simp: list_all2_Cons2 kl_elems_def)
    have "m_type s = tlv_KeyDigest" "elem_of s = elem_of (kl_keyDigest k)"
      using holds_sel [of s "m_type (kl_keyDigest k)"] s(2) assms(2) KeyLocator_KeyDigest
      by (auto simp only: kl_ok_def holds_def elem_of_def prod.inject key_locator_type.case)
    then show ?thesis using bs(1) b s(1) KeyLocator_KeyDigest
      by (simp add: KeyLocator_wireDecode_def kl_same_def tlv_Name_def tlv_KeyDigest_def)
  qed (use assms(2) in \<open>simp add: kl_ok_def\<close>)
qed

end
