(* ===== verification/Exclude.thy ===== *)
theory Exclude
  imports NameProps "HOL-Library.Option_ord"
begin

text \<open>
  \<open>exclude.cpp\<close> and \<open>exclude.hpp\<close> of ndn-cxx: the set of excluded components of an Interest. It is kept
  as a \<open>std::map\<close> from components to a flag, in descending order: each component of the map is
  excluded, and where the flag is set so is everything up to the next greater one.
\<close>

section \<open>The map\<close>

datatype exclude_component = NegInf | Comp block

fun greater_component :: "exclude_component \<Rightarrow> exclude_component \<Rightarrow> bool" where
  "greater_component (Comp a) (Comp b) \<longleftrightarrow> Component_compare a b > 0"
| "greater_component (Comp a) NegInf \<longleftrightarrow> True"
| "greater_component NegInf b \<longleftrightarrow> False"

fun equal_component :: "exclude_component \<Rightarrow> exclude_component \<Rightarrow> bool" where
  "equal_component (Comp a) (Comp b) \<longleftrightarrow> Component_equals a b"
| "equal_component NegInf NegInf \<longleftrightarrow> True"
| "equal_component _ _ \<longleftrightarrow> False"

type_synonym entries = "(exclude_component \<times> bool) list"

record exclude =
  m_entries :: entries
  exclude_wire :: block

definition Exclude_new :: exclude where
  "Exclude_new = \<lparr>m_entries = [], exclude_wire = Block_empty\<rparr>"

text \<open>An iterator is the number of entries in front of it.\<close>

definition lower_bound :: "entries \<Rightarrow> exclude_component \<Rightarrow> nat" where
  "lower_bound es k = length (takeWhile (\<lambda>e. greater_component (fst e) k) es)"

text \<open>\<open>emplace\<close> returns the map, the position of the key and whether the entry is new.\<close>

definition emplace :: "entries \<Rightarrow> exclude_component \<Rightarrow> bool \<Rightarrow> entries \<times> nat \<times> bool" where
  "emplace es k b =
     (let i = lower_bound es k in
      if i < length es \<and> \<not> greater_component k (fst (es ! i)) then (es, i, False)
      else (take i es @ (k, b) # drop i es, i, True))"

definition appendEntry :: "exclude_component \<Rightarrow> bool \<Rightarrow> entries \<Rightarrow> entries" where
  "appendEntry k hasAny es = fst (emplace es k hasAny)"

definition set_any :: "nat \<Rightarrow> entries \<Rightarrow> entries" where
  "set_any i es = es[i := (fst (es ! i), True)]"

definition erase_range :: "nat \<Rightarrow> nat \<Rightarrow> entries \<Rightarrow> entries" where
  "erase_range i j es = take i es @ drop j es"


section \<open>Operations\<close>

definition Exclude_clear :: "exclude \<Rightarrow> exclude" where
  "Exclude_clear x = \<lparr>m_entries = [], exclude_wire = block_reset (exclude_wire x)\<rparr>"

definition Exclude_empty :: "exclude \<Rightarrow> bool" where
  "Exclude_empty x \<longleftrightarrow> m_entries x = []"

definition isExcluded :: "exclude \<Rightarrow> block \<Rightarrow> bool" where
  "isExcluded x c =
     (let lb = lower_bound (m_entries x) (Comp c) in
      lb < length (m_entries x)
      \<and> (snd (m_entries x ! lb) \<or> equal_component (fst (m_entries x ! lb)) (Comp c)))"

definition excludeOne :: "exclude \<Rightarrow> block \<Rightarrow> exclude" where
  "excludeOne x c =
     (if \<not> isExcluded x c
      then \<lparr>m_entries = appendEntry (Comp c) False (m_entries x), exclude_wire = block_reset (exclude_wire x)\<rparr>
      else x)"

text \<open>The entry a range starts from: the lower bound when it has the flag, a new entry with it otherwise.\<close>

definition range_start :: "entries \<Rightarrow> exclude_component \<Rightarrow> entries \<times> nat" where
  "range_start es from =
     (let newFrom = lower_bound es from in
      if newFrom = length es \<or> \<not> snd (es ! newFrom) then
        (case emplace es from True of (es, newFrom, isNewEntry) \<Rightarrow>
           (if \<not> isNewEntry then set_any newFrom es else es, newFrom))
      else (es, newFrom))"

definition excludeRange_entries :: "exclude_component \<Rightarrow> block \<Rightarrow> entries \<Rightarrow> entries" where
  "excludeRange_entries from to es =
     (case range_start es from of (es, newFrom) \<Rightarrow>
      let newTo = lower_bound es (Comp to) in
      if newTo = newFrom \<or> \<not> snd (es ! newTo) then
        (case emplace es (Comp to) False of (es, i, isNewEntry) \<Rightarrow>
           erase_range (i + 1) (if isNewEntry then newFrom + 1 else newFrom) es)
      else erase_range newTo newFrom es)"

definition excludeRange_component :: "exclude \<Rightarrow> exclude_component \<Rightarrow> block \<Rightarrow> exclude result" where
  "excludeRange_component x from to =
     (case from of
        Comp c \<Rightarrow> if Component_compare c to \<ge> 0 then Inl (ExcludeError ''Invalid exclude range'')
          else Inr \<lparr>m_entries = excludeRange_entries from to (m_entries x), exclude_wire = block_reset (exclude_wire x)\<rparr>
      | NegInf \<Rightarrow> Inr \<lparr>m_entries = excludeRange_entries from to (m_entries x), exclude_wire = block_reset (exclude_wire x)\<rparr>)"

definition excludeBefore :: "exclude \<Rightarrow> block \<Rightarrow> exclude result" where
  "excludeBefore x to = excludeRange_component x NegInf to"

definition excludeRange :: "exclude \<Rightarrow> block \<Rightarrow> block \<Rightarrow> exclude result" where
  "excludeRange x from to = excludeRange_component x (Comp from) to"

definition excludeAfter :: "exclude \<Rightarrow> block \<Rightarrow> exclude" where
  "excludeAfter x from =
     (case range_start (m_entries x) (Comp from) of (es, newFrom) \<Rightarrow>
      \<lparr>m_entries = erase_range 0 newFrom es, exclude_wire = block_reset (exclude_wire x)\<rparr>)"

definition Exclude_equals :: "exclude \<Rightarrow> exclude \<Rightarrow> bool" where
  "Exclude_equals x y \<longleftrightarrow>
     list_all2 (\<lambda>e f. equal_component (fst e) (fst f) \<and> snd e = snd f) (m_entries x) (m_entries y)"


section \<open>Enumeration\<close>

text \<open>The ends are \<open>None\<close> at infinity.\<close>

datatype exclude_range = Range (range_from: "block option") (range_to: "block option")

definition isSingular :: "exclude_range \<Rightarrow> bool" where
  "isSingular r = (case r of Range (Some a) (Some b) \<Rightarrow> Component_equals a b | _ \<Rightarrow> False)"

fun component_of :: "exclude_component \<Rightarrow> block option" where
  "component_of NegInf = None"
| "component_of (Comp c) = Some c"

text \<open>The iterator walks the entries in ascending order; \<open>update\<close> makes the range it stands for.\<close>

fun current_range :: "entries \<Rightarrow> exclude_range result" where
  "current_range [] = Inl (UndefinedBehaviour ''end iterator'')"
| "current_range ((k, any) # rest) =
     (if any then Inr (Range (component_of k) (case rest of [] \<Rightarrow> None | (l, _) # _ \<Rightarrow> component_of l))
      else case k of NegInf \<Rightarrow> Inl AssertionFailed | Comp c \<Rightarrow> Inr (Range (Some c) (Some c)))"

fun enumerate_ranges :: "entries \<Rightarrow> exclude_range list result" where
  "enumerate_ranges [] = Inr []"
| "enumerate_ranges [e] = bindE (current_range [e]) (\<lambda>r. Inr [r])"
| "enumerate_ranges (e # f # rest) =
     bindE (current_range (e # f # rest)) (\<lambda>r.
     if snd e then
       if snd f then Inl AssertionFailed
       else bindE (enumerate_ranges rest) (\<lambda>rs. Inr (r # rs))
     else bindE (enumerate_ranges (f # rest)) (\<lambda>rs. Inr (r # rs)))"

definition Exclude_ranges :: "exclude \<Rightarrow> exclude_range list result" where
  "Exclude_ranges x = enumerate_ranges (rev (m_entries x))"

definition Exclude_size :: "exclude \<Rightarrow> nat result" where
  "Exclude_size x = bindE (Exclude_ranges x) (\<lambda>rs. Inr (length rs))"


section \<open>Formats\<close>

definition tlv_Exclude :: "32 word" where "tlv_Exclude = 16"
definition tlv_Any :: "32 word" where "tlv_Any = 19"

definition entry_uri :: "bool \<times> bytes \<Rightarrow> exclude_component \<times> bool \<Rightarrow> bool \<times> bytes" where
  "entry_uri p entry =
     (case p of (isFirst, os) \<Rightarrow>
      let (isFirst, os) = (case fst entry of
            NegInf \<Rightarrow> (isFirst, os)
          | Comp c \<Rightarrow> (False, os @ (if isFirst then [] else str '','') @ Component_toUri c)) in
      if snd entry then (False, os @ (if isFirst then [] else str '','') @ str ''*'') else (isFirst, os))"

definition Exclude_toUri :: "exclude \<Rightarrow> bytes" where
  "Exclude_toUri x = snd (foldl entry_uri (True, []) (rev (m_entries x)))"

text \<open>The greatest entry is written first, at the end of the element.\<close>

definition prepend_entry :: "'e encoding_impl \<Rightarrow> exclude_component \<times> bool \<Rightarrow> 'e \<Rightarrow> (nat \<times> 'e) result" where
  "prepend_entry T entry =
     addE (if snd entry then prependEmptyBlock T tlv_Any else (\<lambda>e. Inr (0, e)))
       (case fst entry of NegInf \<Rightarrow> (\<lambda>e. Inr (0, e)) | Comp c \<Rightarrow> Component_wireEncode T c)"

fun prepend_entries :: "'e encoding_impl \<Rightarrow> entries \<Rightarrow> 'e \<Rightarrow> (nat \<times> 'e) result" where
  "prepend_entries T [] = (\<lambda>e. Inr (0, e))"
| "prepend_entries T (entry # es) = addE (prepend_entry T entry) (prepend_entries T es)"

definition Exclude_wireEncode :: "'e encoding_impl \<Rightarrow> exclude \<Rightarrow> 'e \<Rightarrow> (nat \<times> 'e) result" where
  "Exclude_wireEncode T x e =
     (if m_entries x = [] then Inl (ExcludeError ''cannot encode empty Exclude selector'')
      else with_header T tlv_Exclude (prepend_entries T (m_entries x)) e)"

text \<open>The object with its wire.\<close>

definition Exclude_wire :: "exclude \<Rightarrow> exclude result" where
  "Exclude_wire x =
     (if hasWire (exclude_wire x) then Inr x
      else bindE (make_block (Exclude_wireEncode EstimatorTag x) (Exclude_wireEncode EncoderTag x)) (\<lambda>b.
        Inr (x\<lparr>exclude_wire := b\<rparr>)))"

fun decode_entries :: "block list \<Rightarrow> entries \<Rightarrow> entries result" where
  "decode_entries [] es = Inr es"
| "decode_entries [i] es =
     (case Component_of_block i of
        Inl (ComponentError _) \<Rightarrow> Inl (ExcludeError ''Incorrect format of Exclude filter'')
      | Inl e \<Rightarrow> Inl e
      | Inr c \<Rightarrow> Inr (appendEntry (Comp c) False es))"
| "decode_entries (i # j # rest) es =
     (case Component_of_block i of
        Inl (ComponentError _) \<Rightarrow> Inl (ExcludeError ''Incorrect format of Exclude filter'')
      | Inl e \<Rightarrow> Inl e
      | Inr c \<Rightarrow>
          if m_type j = tlv_Any then decode_entries rest (appendEntry (Comp c) True es)
          else decode_entries (j # rest) (appendEntry (Comp c) False es))"

definition Exclude_of_block :: "block \<Rightarrow> exclude result" where
  "Exclude_of_block w =
     (if m_type w \<noteq> tlv_Exclude then Inl (TlvError ''Unexpected TLV type when decoding Exclude'')
      else case parse w of
        (b, Some e) \<Rightarrow> Inl e
      | (b, None) \<Rightarrow>
          (case m_subBlocks b of
             [] \<Rightarrow> Inl (ExcludeError ''Exclude element cannot be empty'')
           | i # rest \<Rightarrow>
               bindE (if m_type i = tlv_Any then decode_entries rest (appendEntry NegInf True [])
                 else decode_entries (i # rest) []) (\<lambda>es. Inr \<lparr>m_entries = es, exclude_wire = b\<rparr>)))"

end
