(* ===== verification/ExcludeProps.thy ===== *)
theory ExcludeProps
  imports Exclude
begin

text \<open>
  What the operations of \<open>Exclude\<close> do to the set of excluded components, which is the specification of
  the map. Components are taken by their type and value; negative infinity is \<open>None\<close>, below them all.
\<close>

section \<open>The set of excluded components\<close>

fun excl_key :: "exclude_component \<Rightarrow> comp_key option" where
  "excl_key NegInf = None"
| "excl_key (Comp c) = Some (comp_key c)"

fun ok_component :: "exclude_component \<Rightarrow> bool" where
  "ok_component NegInf \<longleftrightarrow> True"
| "ok_component (Comp c) \<longleftrightarrow> canonical c"

abbreviation ekey :: "exclude_component \<times> bool \<Rightarrow> comp_key option" where
  "ekey e \<equiv> excl_key (fst e)"

lemma greater_key:
  assumes "ok_component a" and "ok_component b"
  shows "greater_component a b \<longleftrightarrow> excl_key b < excl_key a"
proof (cases a; cases b)
  fix c d assume ab: "a = Comp c" "b = Comp d"
  then have "sgn (Component_compare c d) = cmp3 (comp_key c) (comp_key d)" using assms component.sgn_cmp by simp
  then have "0 < Component_compare c d \<longleftrightarrow> comp_key d < comp_key c" by (metis cmp3_simps(4) sgn_greater)
  then show ?thesis using ab by simp
qed simp_all

lemma equal_key: "ok_component a \<Longrightarrow> ok_component b \<Longrightarrow> equal_component a b \<longleftrightarrow> excl_key a = excl_key b"
  by (cases a; cases b) (auto simp: canonical_def equals_key)

text \<open>The map is in strictly descending order, and its components are in the shortest form.\<close>

definition map_ok :: "entries \<Rightarrow> bool" where
  "map_ok es \<longleftrightarrow> sorted_wrt (\<lambda>e f. ekey f < ekey e) es \<and> (\<forall>e \<in> set es. ok_component (fst e))"

lemma map_ok_Nil [simp]: "map_ok []"
  by (simp add: map_ok_def)

lemma map_ok_Cons [simp]:
  "map_ok (e # es) \<longleftrightarrow> ok_component (fst e) \<and> (\<forall>f \<in> set es. ekey f < ekey e) \<and> map_ok es"
  by (auto simp: map_ok_def)

lemma map_ok_append [simp]:
  "map_ok (es @ fs) \<longleftrightarrow> map_ok es \<and> map_ok fs \<and> (\<forall>e \<in> set es. \<forall>f \<in> set fs. ekey f < ekey e)"
  by (auto simp: map_ok_def sorted_wrt_append)

text \<open>A key is covered when it is the key of an entry, or the greatest entry below it has the flag.\<close>

fun covered :: "entries \<Rightarrow> comp_key option \<Rightarrow> bool" where
  "covered [] x \<longleftrightarrow> False"
| "covered (e # es) x \<longleftrightarrow> (if x < ekey e then covered es x else snd e \<or> ekey e = x)"

lemma covered_append:
  "covered (es @ fs) x \<longleftrightarrow> covered es x \<or> (\<forall>e \<in> set es. x < ekey e) \<and> covered fs x"
  by (induction es) auto

lemma covered_ge: "covered es x \<Longrightarrow> \<exists>e \<in> set es. ekey e \<le> x"
  by (induction es) (auto split: if_splits)

text \<open>A map is split at a key into what is above and what is not.\<close>

definition above :: "comp_key option \<Rightarrow> entries \<Rightarrow> entries" where
  "above x es = takeWhile (\<lambda>e. x < ekey e) es"

definition upto :: "comp_key option \<Rightarrow> entries \<Rightarrow> entries" where
  "upto x es = dropWhile (\<lambda>e. x < ekey e) es"

lemma above_upto: "above x es @ upto x es = es"
  by (simp add: above_def upto_def)

lemma above_less: "e \<in> set (above x es) \<Longrightarrow> x < ekey e"
  by (auto simp: above_def dest: set_takeWhileD)

lemma upto_le: "map_ok es \<Longrightarrow> e \<in> set (upto x es) \<Longrightarrow> ekey e \<le> x"
proof (induction es)
  case (Cons f es)
  then show ?case by (cases "x < ekey f") (auto simp: upto_def)
qed (simp add: upto_def)

lemma lower_bound_at:
  assumes "map_ok es" and "ok_component k" and "es = as @ cs" and "\<forall>e \<in> set as. excl_key k < ekey e"
    and "\<forall>e \<in> set cs. ekey e \<le> excl_key k"
  shows "lower_bound es k = length as"
proof -
  have "takeWhile (\<lambda>e. greater_component (fst e) k) es = as"
    using assms greater_key by (cases cs) (auto simp: takeWhile_append map_ok_def)
  then show ?thesis by (simp add: lower_bound_def)
qed

lemma split_at:
  assumes "map_ok es"
  obtains as cs where "es = as @ cs" and "map_ok as" and "map_ok cs" and "\<forall>e \<in> set as. x < ekey e"
    and "\<forall>e \<in> set cs. ekey e \<le> x" and "\<forall>e \<in> set as. \<forall>f \<in> set cs. ekey f < ekey e"
proof -
  have "map_ok (above x es @ upto x es)" using assms by (simp only: above_upto)
  then have ok: "map_ok (above x es)" "map_ok (upto x es)"
      "\<forall>e \<in> set (above x es). \<forall>f \<in> set (upto x es). ekey f < ekey e"
    by simp_all
  show ?thesis by (rule that [OF above_upto [symmetric] ok(1,2) _ _ ok(3)]) (blast intro: above_less upto_le [OF assms])+
qed

lemma isExcluded_covered:
  assumes "map_ok (m_entries x)" and "canonical c"
  shows "isExcluded x c \<longleftrightarrow> covered (m_entries x) (Some (comp_key c))"
proof -
  let ?k = "Some (comp_key c)"
  obtain as cs where es: "m_entries x = as @ cs" "map_ok cs" "\<forall>e \<in> set as. ?k < ekey e" "\<forall>e \<in> set cs. ekey e \<le> ?k"
    using split_at [OF assms(1)] by metis
  have lb: "lower_bound (as @ cs) (Comp c) = length as"
    using assms es by (intro lower_bound_at [of _ _ as cs]) auto
  have "covered (as @ cs) ?k \<longleftrightarrow> covered cs ?k" using covered_append covered_ge es(3) by fastforce
  also have "\<dots> \<longleftrightarrow> cs \<noteq> [] \<and> (snd (hd cs) \<or> equal_component (fst (hd cs)) (Comp c))"
    using es(2,4) assms(2) equal_key [of "fst (hd cs)" "Comp c"] by (cases cs) (auto simp: not_less [symmetric])
  finally show ?thesis using es(1) lb by (cases cs) (simp_all add: isExcluded_def Let_def nth_append)
qed


section \<open>The operations\<close>

lemma emplace_at:
  assumes "map_ok (as @ cs)" and "ok_component k" and "\<forall>e \<in> set as. excl_key k < ekey e" and "\<forall>e \<in> set cs. ekey e \<le> excl_key k"
  shows "emplace (as @ cs) k b = (if cs \<noteq> [] \<and> ekey (hd cs) = excl_key k then (as @ cs, length as, False)
    else (as @ (k, b) # cs, length as, True))"
proof -
  have lb: "lower_bound (as @ cs) k = length as" using assms by (intro lower_bound_at [of _ _ as cs]) auto
  show ?thesis
  proof (cases cs)
    case (Cons c cs')
    then have "\<not> greater_component k (fst c) \<longleftrightarrow> ekey c = excl_key k"
      using assms(1,2,4) greater_key [of k "fst c"] by auto
    then show ?thesis unfolding emplace_def Let_def lb using Cons by simp
  next
    case Nil
    then show ?thesis unfolding emplace_def Let_def lb by simp
  qed
qed

text \<open>The part of the map from the start of a range on.\<close>

definition started :: "exclude_component \<Rightarrow> entries \<Rightarrow> entries" where
  "started k cs =
     (if cs \<noteq> [] \<and> snd (hd cs) then cs
      else if cs \<noteq> [] \<and> ekey (hd cs) = excl_key k then (fst (hd cs), True) # tl cs else (k, True) # cs)"

lemma range_start_at:
  assumes "map_ok (as @ cs)" and "ok_component k" and "\<forall>e \<in> set as. excl_key k < ekey e" and "\<forall>e \<in> set cs. ekey e \<le> excl_key k"
  shows "range_start (as @ cs) k = (as @ started k cs, length as)"
proof -
  have lb: "lower_bound (as @ cs) k = length as" using assms by (intro lower_bound_at [of _ _ as cs]) auto
  show ?thesis unfolding range_start_def Let_def lb emplace_at [OF assms]
    by (cases cs) (simp_all add: started_def set_any_def)
qed

lemma started_ok:
  assumes "map_ok cs" and "ok_component k" and "\<forall>e \<in> set cs. ekey e \<le> excl_key k"
  shows "map_ok (started k cs)" and "\<forall>e \<in> set (started k cs). ekey e \<le> excl_key k"
    and "\<exists>e ds. started k cs = e # ds \<and> snd e"
  using assms by (cases cs; auto simp: started_def le_less)+

lemma covered_started:
  assumes "map_ok cs" and "\<forall>e \<in> set cs. ekey e \<le> excl_key k"
  shows "covered (started k cs) x \<longleftrightarrow> covered cs x \<or> excl_key k \<le> x"
  using assms by (cases cs) (auto simp: started_def)

lemma covered_above: "\<forall>e \<in> set es. x < ekey e \<Longrightarrow> \<not> covered es x"
  by (induction es) auto

text \<open>What \<open>excludeRange\<close> makes of the parts of the map above the range, in it and below it.\<close>

lemma excludeRange_at:
  assumes "map_ok (as @ bs @ cs)" and "ok_component from" and "canonical to" and "excl_key from < Some (comp_key to)"
    and "\<forall>e \<in> set as. Some (comp_key to) < ekey e" and "\<forall>e \<in> set bs. excl_key from < ekey e \<and> ekey e \<le> Some (comp_key to)"
    and "\<forall>e \<in> set cs. ekey e \<le> excl_key from"
  shows "\<exists>t. ekey t = Some (comp_key to) \<and> \<not> snd t \<and> ok_component (fst t) \<and> excludeRange_entries from to (as @ bs @ cs)
    = (if bs = [] \<or> \<not> snd (hd bs) then as @ t # started from cs else as @ started from cs)"
proof -
  let ?S = "started from cs"
  have ok: "map_ok as" "map_ok bs" "map_ok cs" using assms(1) by simp_all
  note st = started_ok [OF ok(3) assms(2,7)]
  have rs: "range_start (as @ bs @ cs) from = (as @ bs @ ?S, length as + length bs)"
    using range_start_at [of "as @ bs" cs "from"] assms by (auto dest: less_trans)
  have S: "\<forall>e \<in> set ?S. ekey e < Some (comp_key to)" using st(2) assms(4) by (auto intro: le_less_trans)
  have okS: "map_ok (as @ bs @ ?S)" using assms(1) st(1,2) assms(4-6) by (fastforce intro: le_less_trans)
  have low: "\<forall>e \<in> set (bs @ ?S). ekey e \<le> excl_key (Comp to)" using S assms(6) by auto
  have lb: "lower_bound (as @ bs @ ?S) (Comp to) = length as"
    using okS assms(3,5) low by (intro lower_bound_at [of _ _ as "bs @ ?S"]) auto
  have em: "emplace (as @ bs @ ?S) (Comp to) False = (if bs @ ?S \<noteq> [] \<and> ekey (hd (bs @ ?S)) = excl_key (Comp to)
      then (as @ bs @ ?S, length as, False) else (as @ (Comp to, False) # bs @ ?S, length as, True))"
    using okS assms(3,5) low by (intro emplace_at) auto
  obtain s ss where s: "?S = s # ss" "snd s" using st(3) by auto
  have sl: "ekey s \<noteq> Some (comp_key to)" using S s(1) by auto
  show ?thesis
  proof (cases bs)
    case Nil
    then show ?thesis using rs lb em s sl assms(3)
      by (intro exI [of _ "(Comp to, False)"]) (simp add: excludeRange_entries_def Let_def erase_range_def)
  next
    case (Cons b bs')
    have el: "(as @ b # bs' @ ?S) ! length as = b" by simp
    show ?thesis
    proof (cases "snd b")
      case True
      then show ?thesis using rs lb Cons el assms(3)
        by (intro exI [of _ "(Comp to, False)"]) (simp add: excludeRange_entries_def Let_def erase_range_def)
    next
      case False
      have kb: "ok_component (fst b)" using assms(1) Cons by simp
      show ?thesis
      proof (cases "ekey b = Some (comp_key to)")
        case True
        then show ?thesis using rs lb em Cons el False kb
          by (intro exI [of _ b]) (simp add: excludeRange_entries_def Let_def erase_range_def)
      next
        case neq: False
        then show ?thesis using rs lb em Cons el False assms(3)
          by (intro exI [of _ "(Comp to, False)"]) (simp add: excludeRange_entries_def Let_def erase_range_def)
      qed
    qed
  qed
qed


text \<open>The abstract state: the set of the types and values that are excluded.\<close>

definition excluded_set :: "exclude \<Rightarrow> comp_key set" where
  "excluded_set x = {k. covered (m_entries x) (Some k)}"

definition exclude_ok :: "exclude \<Rightarrow> bool" where
  "exclude_ok x \<longleftrightarrow> map_ok (m_entries x)"

lemma excludeOne_run:
  assumes "exclude_ok x" and "canonical c"
  shows "exclude_ok (excludeOne x c)" and "excluded_set (excludeOne x c) = insert (comp_key c) (excluded_set x)"
proof -
  let ?k = "Some (comp_key c)"
  have ok: "map_ok (m_entries x)" using assms(1) by (simp add: exclude_ok_def)
  obtain as cs where es: "m_entries x = as @ cs" "map_ok as" "map_ok cs" "\<forall>e \<in> set as. ?k < ekey e" "\<forall>e \<in> set cs. ekey e \<le> ?k"
      "\<forall>e \<in> set as. \<forall>f \<in> set cs. ekey f < ekey e"
    using split_at [OF ok] by metis
  have "exclude_ok (excludeOne x c) \<and> excluded_set (excludeOne x c) = insert (comp_key c) (excluded_set x)"
  proof (cases "isExcluded x c")
    case True
    then show ?thesis using assms isExcluded_covered [OF ok assms(2)] by (auto simp: excludeOne_def excluded_set_def)
  next
    case False
    then have nc: "\<not> covered cs ?k" using isExcluded_covered [OF ok assms(2)] es(1,4) by (auto simp: covered_append)
    then have hd: "cs \<noteq> [] \<Longrightarrow> ekey (hd cs) \<noteq> ?k \<and> \<not> snd (hd cs)" using es(5) by (cases cs) (auto simp: not_less [symmetric])
    have "emplace (as @ cs) (Comp c) False = (as @ (Comp c, False) # cs, length as, True)"
      using emplace_at [of as cs "Comp c" False] ok es hd assms(2) by auto
    then have m: "m_entries (excludeOne x c) = as @ (Comp c, False) # cs"
      using False by (simp add: excludeOne_def appendEntry_def es(1))
    have lt: "\<forall>e \<in> set cs. ekey e < ?k"
      using es(3,5) hd by (cases cs) (auto simp: le_less intro: less_trans)
    have "\<not> covered cs y" if "?k < y" for y using that lt hd by (cases cs) auto
    then have "excluded_set (excludeOne x c) = insert (comp_key c) (excluded_set x)"
      using m es(1,4) by (auto simp: excluded_set_def covered_append not_less le_less)
    moreover have "exclude_ok (excludeOne x c)" using m es lt assms(2) by (simp add: exclude_ok_def)
    ultimately show ?thesis by simp
  qed
  then show "exclude_ok (excludeOne x c)" "excluded_set (excludeOne x c) = insert (comp_key c) (excluded_set x)"
    by simp_all
qed

lemma excludeAfter_run:
  assumes "exclude_ok x" and "canonical c"
  shows "exclude_ok (excludeAfter x c)" and "excluded_set (excludeAfter x c) = excluded_set x \<union> {comp_key c..}"
proof -
  let ?k = "Some (comp_key c)"
  have ok: "map_ok (m_entries x)" using assms(1) by (simp add: exclude_ok_def)
  obtain as cs where es: "m_entries x = as @ cs" "map_ok as" "map_ok cs" "\<forall>e \<in> set as. ?k < ekey e" "\<forall>e \<in> set cs. ekey e \<le> ?k"
      "\<forall>e \<in> set as. \<forall>f \<in> set cs. ekey f < ekey e"
    using split_at [OF ok] by metis
  have "range_start (as @ cs) (Comp c) = (as @ started (Comp c) cs, length as)"
    using range_start_at [of as cs "Comp c"] ok es assms(2) by simp
  then have m: "m_entries (excludeAfter x c) = started (Comp c) cs"
    by (simp add: excludeAfter_def es(1) erase_range_def)
  show "exclude_ok (excludeAfter x c)"
    using started_ok(1) [of cs "Comp c"] es assms(2) by (simp add: exclude_ok_def m)
  have "covered as y \<Longrightarrow> ?k \<le> y" for y using es(4) covered_ge [of as y] by (meson dual_order.trans less_imp_le)
  moreover have "\<not> ?k \<le> y \<Longrightarrow> \<forall>e \<in> set as. y < ekey e" for y using es(4) by (meson less_trans not_le)
  ultimately have eq: "covered (as @ cs) y \<or> ?k \<le> y \<longleftrightarrow> covered cs y \<or> ?k \<le> y" for y
    unfolding covered_append by blast
  have "covered (started (Comp c) cs) (Some y) \<longleftrightarrow> covered (as @ cs) (Some y) \<or> comp_key c \<le> y" for y
    using covered_started [of cs "Comp c" "Some y"] eq [of "Some y"] es(3,5) by simp
  then show "excluded_set (excludeAfter x c) = excluded_set x \<union> {comp_key c..}"
    by (auto simp: excluded_set_def m es(1))
qed

text \<open>
  C29. The map implements a set as far as \<open>isExcluded\<close>, \<open>excludeOne\<close> and \<open>excludeAfter\<close> go: for a filter in order,
  \<open>isExcluded\<close> is membership, \<open>excludeOne\<close> adds a component, \<open>excludeAfter\<close> adds everything from a component on,
  and both keep the filter in order; a new filter is the empty set. Ranges, and with them \<open>excludeBefore\<close>, are not
  among these operations: what they do is not always the union.
\<close>

theorem Exclude_implements_set:
  assumes "exclude_ok x" and "canonical c" and "canonical d"
  shows "(isExcluded x d \<longleftrightarrow> comp_key d \<in> excluded_set x)
    \<and> exclude_ok (excludeOne x c) \<and> excluded_set (excludeOne x c) = insert (comp_key c) (excluded_set x)
    \<and> exclude_ok (excludeAfter x c) \<and> excluded_set (excludeAfter x c) = excluded_set x \<union> {comp_key c..}
    \<and> excluded_set Exclude_new = {}"
  using isExcluded_covered [of x d] excludeOne_run excludeAfter_run assms
  by (auto simp: exclude_ok_def excluded_set_def Exclude_new_def)

abbreviation letter_comp :: "byte \<Rightarrow> block" where
  "letter_comp b \<equiv> Block_value tlv_NameComponent [b]"

lemma letter_canonical [simp]: "canonical (letter_comp b)"
  by (rule canonical_value) simp

lemma exclude_new_ok [simp]: "exclude_ok Exclude_new"
  by (simp add: exclude_ok_def Exclude_new_def)

theorem Exclude_implements_set_witness:
  "(isExcluded Exclude_new (letter_comp 98) \<longleftrightarrow> comp_key (letter_comp 98) \<in> excluded_set Exclude_new)
    \<and> exclude_ok (excludeOne Exclude_new (letter_comp 97))
    \<and> excluded_set (excludeOne Exclude_new (letter_comp 97)) = insert (comp_key (letter_comp 97)) (excluded_set Exclude_new)
    \<and> exclude_ok (excludeAfter Exclude_new (letter_comp 97))
    \<and> excluded_set (excludeAfter Exclude_new (letter_comp 97)) = excluded_set Exclude_new \<union> {comp_key (letter_comp 97)..}
    \<and> excluded_set Exclude_new = {}"
  by (rule Exclude_implements_set) simp_all


text \<open>
  The range lies inside a range of the map: no entry is in it, and the greatest entry below its start
  has the flag.
\<close>

definition inside_range :: "entries \<Rightarrow> comp_key option \<Rightarrow> comp_key option \<Rightarrow> bool" where
  "inside_range es k l \<longleftrightarrow> (\<forall>e \<in> set es. ekey e \<le> k \<or> l < ekey e) \<and> (case upto k es of [] \<Rightarrow> False | e # _ \<Rightarrow> snd e)"

lemma split_range:
  assumes "map_ok es" and "k < l"
  obtains as bs cs where "es = as @ bs @ cs" and "\<forall>e \<in> set as. l < ekey e"
    and "\<forall>e \<in> set bs. k < ekey e \<and> ekey e \<le> l" and "\<forall>e \<in> set cs. ekey e \<le> k" and "cs = upto k es"
proof -
  obtain as rest where r: "es = as @ rest" "\<forall>e \<in> set as. l < ekey e" "\<forall>e \<in> set rest. ekey e \<le> l" "map_ok rest"
    using split_at [OF assms(1), of l] by metis
  have u: "upto k es = upto k rest"
    using r(1,2) assms(2) by (simp add: upto_def) (rule dropWhile_append2, blast intro: less_trans)
  show ?thesis
    by (rule that [of as "above k rest" "upto k rest"])
      (use r u above_upto [of k rest] in \<open>auto dest: above_less upto_le [OF r(4)] simp: above_def dest: set_takeWhileD\<close>)
qed

lemma excludeRange_run:
  assumes "map_ok es" and "ok_component from" and "canonical to" and "excl_key from < Some (comp_key to)"
  shows "map_ok (excludeRange_entries from to es)"
    and "covered (excludeRange_entries from to es) y \<longleftrightarrow>
      (if inside_range es (excl_key from) (Some (comp_key to))
       then covered es y \<and> (y \<le> Some (comp_key to) \<or> (\<exists>e \<in> set es. Some (comp_key to) < ekey e \<and> ekey e \<le> y))
       else covered es y \<or> excl_key from \<le> y \<and> y \<le> Some (comp_key to))"
proof -
  let ?k = "excl_key from" and ?l = "Some (comp_key to)"
  obtain as bs cs where es: "es = as @ bs @ cs" and A: "\<forall>e \<in> set as. ?l < ekey e"
      and B: "\<forall>e \<in> set bs. ?k < ekey e \<and> ekey e \<le> ?l" and C: "\<forall>e \<in> set cs. ekey e \<le> ?k" and cs: "cs = upto ?k es"
    using split_range [OF assms(1,4)] by metis
  have ok: "map_ok (as @ bs @ cs)" "map_ok cs" "map_ok bs" using assms(1) es by simp_all
  obtain t where t: "ekey t = ?l" "\<not> snd t" "ok_component (fst t)" and run: "excludeRange_entries from to es
      = (if bs = [] \<or> \<not> snd (hd bs) then as @ t # started from cs else as @ started from cs)"
    using excludeRange_at [OF ok(1) assms(2,3,4) A B C] es by metis
  note st = started_ok [OF ok(2) assms(2) C]
  have S: "\<forall>e \<in> set (started from cs). ekey e < ?l" using st(2) assms(4) by (auto intro: le_less_trans)
  then show "map_ok (excludeRange_entries from to es)"
    using run ok(1) st(1) t A by (fastforce intro: less_trans)
  have cS: "covered (started from cs) y \<longleftrightarrow> covered cs y \<or> ?k \<le> y" by (rule covered_started [OF ok(2) C])
  have "(\<forall>e \<in> set es. ekey e \<le> ?k \<or> ?l < ekey e) \<longleftrightarrow> bs = []"
    using A B C es by (cases bs) (auto simp: not_le not_less)
  then have ins: "inside_range es ?k ?l \<longleftrightarrow> bs = [] \<and> cs \<noteq> [] \<and> snd (hd cs)"
    unfolding inside_range_def cs [symmetric] by (cases cs) auto
  have hd: "cs \<noteq> [] \<Longrightarrow> snd (hd cs) \<Longrightarrow> ?k \<le> y \<Longrightarrow> covered cs y"
    using C by (cases cs) (auto simp: not_less dest: order.trans)
  have A': "y \<le> ?l \<Longrightarrow> (\<forall>e \<in> set as. y < ekey e) \<and> \<not> covered as y" using A covered_above by (meson le_less_trans)
  let ?E = "excludeRange_entries from to es"
  consider "y < ?k" | "?k \<le> y" "y \<le> ?l" | "?l < y" by (meson not_le)
  then show "covered ?E y \<longleftrightarrow> (if inside_range es ?k ?l
       then covered es y \<and> (y \<le> ?l \<or> (\<exists>e \<in> set es. ?l < ekey e \<and> ekey e \<le> y))
       else covered es y \<or> ?k \<le> y \<and> y \<le> ?l)"
  proof cases
    case 1
    then have yl: "y < ?l" using assms(4) by (rule less_trans)
    then have a: "\<forall>e \<in> set as. y < ekey e" "\<not> covered as y" using A' by auto
    have b: "\<forall>e \<in> set bs. y < ekey e" using B 1 by (meson less_trans)
    then have "covered es y \<longleftrightarrow> covered cs y" using a covered_above [OF b] by (auto simp: es covered_append)
    moreover have "covered ?E y \<longleftrightarrow> covered cs y" using a cS t yl 1 by (auto simp: run covered_append)
    ultimately show ?thesis using 1 yl by auto
  next
    case 2
    then have a: "\<forall>e \<in> set as. y < ekey e" "\<not> covered as y" using A' by auto
    have "covered ?E y" using a cS t 2 by (auto simp: run covered_append)
    moreover have "covered es y" if "inside_range es ?k ?l" using that ins hd 2 a by (auto simp: es covered_append)
    ultimately show ?thesis using 2 by auto
  next
    case 3
    have tl: "\<not> y \<le> ?l" "\<not> y < ekey t" "ekey t \<noteq> y" using 3 t(1) by auto
    have ky: "?k \<le> y" using assms(4) 3 by order
    show ?thesis
    proof (cases "\<forall>e \<in> set as. y < ekey e")
      case True
      note na = covered_above [OF True]
      have "\<not> (\<exists>e \<in> set es. ?l < ekey e \<and> ekey e \<le> y)" using True B C assms(4) by (auto simp: es not_le not_less)
      moreover have "covered ?E y \<longleftrightarrow> bs \<noteq> [] \<and> snd (hd bs)" using True na cS ky t(2) tl by (auto simp: run covered_append)
      moreover have "covered es y \<longleftrightarrow> bs @ cs \<noteq> [] \<and> snd (hd (bs @ cs))"
      proof -
        have "\<forall>e \<in> set (bs @ cs). ekey e < y" using B C assms(4) 3 by auto
        then show ?thesis using True na by (cases "bs @ cs") (auto simp: es covered_append)
      qed
      ultimately show ?thesis using ins tl by (cases bs) auto
    next
      case False
      then have as: "covered (as @ zs) y \<longleftrightarrow> covered as y" for zs by (auto simp: covered_append)
      have "covered ?E y \<longleftrightarrow> covered as y" unfolding run by (simp add: as)
      moreover have "covered es y \<longleftrightarrow> covered as y" unfolding es by (rule as)
      moreover have "\<exists>e \<in> set es. ?l < ekey e \<and> ekey e \<le> y" using False A by (auto simp: es not_less)
      ultimately show ?thesis using tl by simp
    qed
  qed
qed


lemma range_accepted:
  assumes "ok_component from" and "canonical to"
  shows "excludeRange_component x from to =
    (if excl_key from < Some (comp_key to)
     then Inr \<lparr>m_entries = excludeRange_entries from to (m_entries x), exclude_wire = block_reset (exclude_wire x)\<rparr>
     else Inl (ExcludeError ''Invalid exclude range''))"
  using assms component.cmp_less [of _ to]
  by (cases "from") (auto simp: excludeRange_component_def not_less [symmetric])

text \<open>
  C30. Excluding a range, from a component or from negative infinity: the map stays in order, and the
  components of the range are added to the set, except when the range lies inside a range that is
  excluded already. Then the map is changed all the same, and what follows the new range up to the end
  of the old one is no longer excluded.
\<close>

theorem excludeRange_exact:
  assumes "exclude_ok x" and "ok_component from" and "canonical to"
  shows "if excl_key from < Some (comp_key to)
    then \<exists>y. excludeRange_component x from to = Inr y \<and> exclude_ok y \<and> excluded_set y =
      (if inside_range (m_entries x) (excl_key from) (Some (comp_key to))
       then {k \<in> excluded_set x. k \<le> comp_key to
         \<or> (\<exists>e \<in> set (m_entries x). Some (comp_key to) < ekey e \<and> ekey e \<le> Some k)}
       else excluded_set x \<union> {k. excl_key from \<le> Some k \<and> k \<le> comp_key to})
    else excludeRange_component x from to = Inl (ExcludeError ''Invalid exclude range'')"
  using range_accepted [OF assms(2,3)] excludeRange_run [OF _ assms(2,3)] assms(1)
  by (auto simp: exclude_ok_def excluded_set_def)

lemma letter_key: "comp_key (letter_comp b) = Key tlv_NameComponent [b]"
  by (simp add: comp_key_def Block_value_def block_value_def range_of_def Let_def)

lemma letter_less [simp]: "comp_key (letter_comp a) < comp_key (letter_comp b) \<longleftrightarrow> a < b"
  "comp_key (letter_comp a) \<le> comp_key (letter_comp b) \<longleftrightarrow> a \<le> b"
  "comp_key (letter_comp a) = comp_key (letter_comp b) \<longleftrightarrow> a = b"
  by (simp_all add: letter_key key_less less_eq_comp_key_def key_rank_def be_val_def word_less_nat_alt word_le_nat_alt)

text \<open>After [a, z] is excluded, excluding [c, d] as well makes m no longer excluded.\<close>

definition demo_range :: exclude where
  "demo_range = \<lparr>m_entries = [(Comp (letter_comp 122), False), (Comp (letter_comp 97), True)], exclude_wire = Block_empty\<rparr>"

lemma demo_range_made: "\<exists>w. excludeRange Exclude_new (letter_comp 97) (letter_comp 122) = Inr (demo_range\<lparr>exclude_wire := w\<rparr>)"
proof -
  have "excludeRange_entries (Comp (letter_comp 97)) (letter_comp 122) [] = m_entries demo_range"
    using greater_key [of "Comp (letter_comp 97)" "Comp (letter_comp 122)"]
      greater_key [of "Comp (letter_comp 122)" "Comp (letter_comp 97)"]
    by (simp add: excludeRange_entries_def range_start_def lower_bound_def emplace_def erase_range_def demo_range_def)
  moreover have "(0 :: int) > Component_compare (letter_comp 97) (letter_comp 122)"
    using component.cmp_less [of "letter_comp 97" "letter_comp 122"] by simp
  ultimately show ?thesis by (simp add: excludeRange_def excludeRange_component_def Exclude_new_def demo_range_def)
qed

theorem excludeRange_exact_witness:
  "\<exists>y. excludeRange demo_range (letter_comp 99) (letter_comp 100) = Inr y
    \<and> isExcluded demo_range (letter_comp 109) \<and> \<not> isExcluded y (letter_comp 109)"
proof -
  have ok: "exclude_ok demo_range" by (simp add: exclude_ok_def demo_range_def)
  have ins: "inside_range (m_entries demo_range) (excl_key (Comp (letter_comp 99))) (Some (comp_key (letter_comp 100)))"
    by (simp add: inside_range_def demo_range_def upto_def not_less)
  obtain y where y: "excludeRange_component demo_range (Comp (letter_comp 99)) (letter_comp 100) = Inr y" "exclude_ok y"
      "comp_key (letter_comp 109) \<notin> excluded_set y"
    using excludeRange_exact [OF ok, of "Comp (letter_comp 99)" "letter_comp 100"] ins
    by (auto simp: demo_range_def)
  have "isExcluded demo_range (letter_comp 109)"
    using isExcluded_covered [of demo_range "letter_comp 109"] ok by (simp add: exclude_ok_def demo_range_def)
  then show ?thesis using y isExcluded_covered [of y "letter_comp 109"]
    by (simp add: excludeRange_def exclude_ok_def excluded_set_def)
qed


section \<open>Enumeration\<close>

fun in_range :: "exclude_range \<Rightarrow> comp_key \<Rightarrow> bool" where
  "in_range (Range f t) k \<longleftrightarrow>
     (case f of None \<Rightarrow> True | Some c \<Rightarrow> comp_key c \<le> k) \<and> (case t of None \<Rightarrow> True | Some c \<Rightarrow> k \<le> comp_key c)"

text \<open>No two neighbours have the flag, and negative infinity has it (ascending order).\<close>

fun separated :: "entries \<Rightarrow> bool" where
  "separated (e # f # es) \<longleftrightarrow> \<not> (snd e \<and> snd f) \<and> separated (f # es)"
| "separated es \<longleftrightarrow> True"

definition neg_inf_any :: "entries \<Rightarrow> bool" where
  "neg_inf_any es \<longleftrightarrow> (\<forall>e \<in> set es. fst e = NegInf \<longrightarrow> snd e)"

lemma neg_inf_any_Nil [simp]: "neg_inf_any []"
  by (simp add: neg_inf_any_def)

lemma neg_inf_any_Cons [simp]: "neg_inf_any (e # es) \<longleftrightarrow> (fst e = NegInf \<longrightarrow> snd e) \<and> neg_inf_any es"
  by (auto simp: neg_inf_any_def)

lemma component_of_key: "(case component_of k of None \<Rightarrow> True | Some c \<Rightarrow> comp_key c \<le> x) \<longleftrightarrow> excl_key k \<le> Some x"
  by (cases k) simp_all

lemma component_of_key': "k \<noteq> NegInf \<Longrightarrow>
    (case component_of k of None \<Rightarrow> True | Some c \<Rightarrow> x \<le> comp_key c) \<longleftrightarrow> Some x \<le> excl_key k"
  by (cases k) simp_all

lemma current_range_in:
  assumes "fst e = NegInf \<longrightarrow> snd e" and "\<forall>f \<in> set es. ekey e < ekey f"
  shows "\<exists>r. current_range (e # es) = Inr r \<and> (\<forall>x. in_range r x \<longleftrightarrow>
    (if snd e then ekey e \<le> Some x \<and> (case es of [] \<Rightarrow> True | f # _ \<Rightarrow> Some x \<le> ekey f) else ekey e = Some x))"
proof (cases "snd e")
  case True
  show ?thesis
  proof (cases es)
    case Nil
    then show ?thesis using True by (cases e) (auto simp: component_of_key)
  next
    case (Cons f fs)
    obtain c b where "f = (Comp c, b)" using assms(2) Cons by (cases f; cases "fst f") auto
    then show ?thesis using Cons True by (cases e) (auto simp: component_of_key)
  qed
next
  case False
  then obtain c where "e = (Comp c, False)" using assms(1) by (cases e; cases "fst e") auto
  then show ?thesis by auto
qed

lemma enumerate_covered:
  assumes "sorted_wrt (\<lambda>e f. ekey e < ekey f) es" and "neg_inf_any es"
  shows "if separated es
    then \<exists>rs. enumerate_ranges es = Inr rs \<and> (\<forall>x. (\<exists>r \<in> set rs. in_range r x) \<longleftrightarrow> covered (rev es) (Some x))
    else enumerate_ranges es = Inl AssertionFailed"
  using assms
proof (induction es rule: enumerate_ranges.induct)
  case (2 e)
  obtain r where "current_range [e] = Inr r" "\<forall>x. in_range r x \<longleftrightarrow> (if snd e then ekey e \<le> Some x else ekey e = Some x)"
    using current_range_in [of e "[]"] 2 by auto
  then show ?case by (auto simp: not_less)
next
  case (3 e f es)
  obtain r where r: "current_range (e # f # es) = Inr r"
      "\<forall>x. in_range r x \<longleftrightarrow> (if snd e then ekey e \<le> Some x \<and> Some x \<le> ekey f else ekey e = Some x)"
    using current_range_in [of e "f # es"] 3(3,4) by auto
  have less: "\<forall>g \<in> set es. ekey f < ekey g" "ekey e < ekey f" using 3(3) by auto
  show ?case
  proof (cases "snd e")
    case True
    show ?thesis
    proof (cases "snd f")
      case False
      have s: "separated (e # f # es) = separated es" using False by (cases es) auto
      have "covered (rev (e # f # es)) (Some x) \<longleftrightarrow> covered (rev es) (Some x) \<or> ekey e \<le> Some x \<and> Some x \<le> ekey f" for x
        using less True False by (auto simp: covered_append not_less dest: le_less_trans)
      then show ?thesis using "3.IH"(1) True False r s 3(3,4) by (auto split: if_splits)
    qed (use True r in simp)
  next
    case False
    have "covered (rev (e # f # es)) (Some x) \<longleftrightarrow> covered (rev (f # es)) (Some x) \<or> ekey e = Some x" for x
      using less False by (auto simp: covered_append not_less)
    then show ?thesis using "3.IH"(2) False r 3(3,4) by (auto split: if_splits)
  qed
qed simp

text \<open>
  Enumerating the ranges: when no two neighbouring entries have the flag, the ranges are those of the
  set, and otherwise an assertion fails. The operations do not keep this invariant of the enumeration:
  excluding a range that starts where another one ends makes two neighbours with the flag.
\<close>

theorem Exclude_ranges_set:
  assumes "exclude_ok x" and "neg_inf_any (m_entries x)"
  shows "if separated (rev (m_entries x))
    then \<exists>rs. Exclude_ranges x = Inr rs \<and> excluded_set x = {k. \<exists>r \<in> set rs. in_range r k}
    else Exclude_ranges x = Inl AssertionFailed"
proof -
  have "sorted_wrt (\<lambda>e f. ekey e < ekey f) (rev (m_entries x))"
    using assms(1) by (simp add: exclude_ok_def map_ok_def sorted_wrt_rev)
  moreover have "neg_inf_any (rev (m_entries x))" using assms(2) by (simp add: neg_inf_any_def)
  ultimately show ?thesis using enumerate_covered [of "rev (m_entries x)"]
    by (auto simp: Exclude_ranges_def excluded_set_def split: if_splits)
qed

theorem Exclude_ranges_set_witness:
  "\<exists>y. excludeRange demo_range (letter_comp 122) (letter_comp 123) = Inr y
    \<and> isExcluded y (letter_comp 122) \<and> Exclude_ranges y = Inl AssertionFailed"
proof -
  have e: "excludeRange_entries (Comp (letter_comp 122)) (letter_comp 123) (m_entries demo_range)
      = [(Comp (letter_comp 123), False), (Comp (letter_comp 122), True), (Comp (letter_comp 97), True)]"
    using greater_key [of "Comp (letter_comp 122)" "Comp (letter_comp 122)"]
      greater_key [of "Comp (letter_comp 97)" "Comp (letter_comp 122)"]
      greater_key [of "Comp (letter_comp 122)" "Comp (letter_comp 123)"]
      greater_key [of "Comp (letter_comp 123)" "Comp (letter_comp 122)"]
    by (simp add: excludeRange_entries_def range_start_def lower_bound_def emplace_def erase_range_def demo_range_def set_any_def)
  let ?y = "\<lparr>m_entries = [(Comp (letter_comp 123), False), (Comp (letter_comp 122), True), (Comp (letter_comp 97), True)],
      exclude_wire = block_reset (exclude_wire demo_range)\<rparr>"
  have ok: "exclude_ok ?y" by (simp add: exclude_ok_def)
  have "excludeRange demo_range (letter_comp 122) (letter_comp 123) = Inr ?y"
    using range_accepted [of "Comp (letter_comp 122)" "letter_comp 123" demo_range] e by (simp add: excludeRange_def)
  moreover have "isExcluded ?y (letter_comp 122)"
    using isExcluded_covered [of ?y "letter_comp 122"] ok by (simp add: exclude_ok_def)
  moreover have "Exclude_ranges ?y = Inl AssertionFailed"
    using Exclude_ranges_set [OF ok] by simp
  ultimately show ?thesis by blast
qed

end
