(* ===== verification/ExcludeWire.thy ===== *)
theory ExcludeWire
  imports ExcludeProps Elements
begin

text \<open>
  The wire format of \<open>Exclude\<close>: decoding what was encoded gives the same entries.
\<close>

section \<open>Elements as written\<close>

abbreviation as_written :: "block \<Rightarrow> block \<Rightarrow> bool" where
  "as_written b c \<equiv> holds b (elem_of c)"

lemma as_written_type: "as_written b c \<Longrightarrow> m_type b = m_type c"
  using holds_sel [of b "m_type c"] by (simp add: elem_of_def)

lemma as_written_component:
  assumes "as_written b c" and "comp_ok c"
  shows "canonical b" and "comp_key b = comp_key c" and "Component_of_block b = Inr b"
  using holds_component [OF assms] by (auto simp: canonical_def comp_ok_def Component_of_block_def)


section \<open>The elements of the entries\<close>

definition entry_blocks :: "exclude_component \<times> bool \<Rightarrow> block list" where
  "entry_blocks e = (case fst e of NegInf \<Rightarrow> [] | Comp c \<Rightarrow> [c]) @ (if snd e then [Block_type tlv_Any] else [])"

definition exclude_blocks :: "exclude \<Rightarrow> block list" where
  "exclude_blocks x = concat (map entry_blocks (rev (m_entries x)))"

lemma any_block [simp]: "m_type (Block_type t) = t" "block_value (Block_type t) = []"
  by (simp_all add: Block_type_def block_value_def hasValue_def)

lemma comps_bytes_simps [simp]:
  "comps_bytes [] = []" "comps_bytes (c # cs) = tlv (m_type c) (block_value c) @ comps_bytes cs"
  "comps_bytes (cs @ ds) = comps_bytes cs @ comps_bytes ds"
  by (simp_all add: comps_bytes_def)

context prepender
begin

lemma entry_emits:
  assumes "ok_component (fst e)"
  shows "emits R (prepend_entry T e) (comps_bytes (entry_blocks e))"
proof -
  have k: "emits R (case fst e of NegInf \<Rightarrow> (\<lambda>e. Inr (0, e)) | Comp c \<Rightarrow> Component_wireEncode T c)
      (comps_bytes (case fst e of NegInf \<Rightarrow> [] | Comp c \<Rightarrow> [c]))"
    using assms component_emits emits_nothing comp_ok_value by (cases "fst e") (auto simp: canonical_def)
  have any: "emits R (if snd e then prependEmptyBlock T tlv_Any else (\<lambda>e. Inr (0, e)))
      (comps_bytes (if snd e then [Block_type tlv_Any] else []))"
    using prepend_empty_block emits_nothing by simp
  show ?thesis unfolding prepend_entry_def using emits_addE [OF any k] by (simp add: entry_blocks_def)
qed

lemma entries_emit:
  "\<forall>e \<in> set es. ok_component (fst e) \<Longrightarrow> emits R (prepend_entries T es) (comps_bytes (concat (map entry_blocks (rev es))))"
proof (induction es)
  case (Cons e es)
  then have "emits R (addE (prepend_entry T e) (prepend_entries T es))
      (comps_bytes (concat (map entry_blocks (rev es))) @ comps_bytes (entry_blocks e))"
    by (intro emits_addE entry_emits) simp_all
  then show ?case by simp
qed (simp add: emits_nothing)

lemma exclude_emits:
  assumes "m_entries x \<noteq> []" and "\<forall>e \<in> set (m_entries x). ok_component (fst e)"
  shows "emits R (Exclude_wireEncode T x) (tlv tlv_Exclude (comps_bytes (exclude_blocks x)))"
proof -
  have "Exclude_wireEncode T x = with_header T tlv_Exclude (prepend_entries T (m_entries x))"
    using assms(1) by (intro ext) (simp add: Exclude_wireEncode_def)
  then show ?thesis using prepend_header [OF entries_emit [OF assms(2)]] by (simp add: exclude_blocks_def)
qed

end


section \<open>Decoding\<close>

definition same_entry :: "exclude_component \<times> bool \<Rightarrow> exclude_component \<times> bool \<Rightarrow> bool" where
  "same_entry e f \<longleftrightarrow> ekey e = ekey f \<and> snd e = snd f \<and> ok_component (fst e) \<and> ok_component (fst f)"

lemma appendEntry_front:
  assumes "map_ok es" and "ok_component k" and "\<forall>e \<in> set es. ekey e < excl_key k"
  shows "appendEntry k b es = (k, b) # es"
proof -
  have "emplace es k b = (if es \<noteq> [] \<and> ekey (hd es) = excl_key k then (es, 0, False) else ((k, b) # es, 0, True))"
    using emplace_at [of "[]" es k b] assms by (auto simp: order.strict_implies_order)
  moreover have "\<not> (es \<noteq> [] \<and> ekey (hd es) = excl_key k)" using assms(3) by (cases es) auto
  ultimately show ?thesis by (simp add: appendEntry_def)
qed

lemma component_not_any: "comp_ok c \<Longrightarrow> m_type c \<noteq> tlv_Any"
  by (auto simp: comp_ok_def isGeneric_def isImplicitSha256Digest_def tlv_Any_def tlv_NameComponent_def tlv_ImplicitSha256DigestComponent_def)

lemma decode_entries_run:
  assumes "list_all2 as_written bs (concat (map entry_blocks as))"
    and "sorted_wrt (\<lambda>e f. ekey e < ekey f) as" and "\<forall>e \<in> set as. ok_component (fst e) \<and> fst e \<noteq> NegInf"
    and "map_ok es" and "\<forall>e \<in> set es. \<forall>a \<in> set as. ekey e < ekey a"
  shows "\<exists>ds. decode_entries bs es = Inr (rev ds @ es) \<and> list_all2 same_entry ds as"
  using assms
proof (induction as arbitrary: bs es)
  case (Cons a as)
  obtain c any where a: "a = (Comp c, any)" "canonical c" using Cons.prems(3) by (cases a; cases "fst a") auto
  then have "concat (map entry_blocks (a # as)) = c # (if any then [Block_type tlv_Any] else []) @ concat (map entry_blocks as)"
    by (simp add: entry_blocks_def)
  then obtain b bs' where bs: "bs = b # bs'" "as_written b c"
      "list_all2 as_written bs' ((if any then [Block_type tlv_Any] else []) @ concat (map entry_blocks as))"
    using Cons.prems(1) by (auto simp: list_all2_Cons2)
  have "comp_ok c" using a(2) by (simp add: canonical_def)
  note b = as_written_component [OF bs(2) this]
  have front: "appendEntry (Comp b) any es = (Comp b, any) # es"
    using Cons.prems(4,5) a(1) b by (intro appendEntry_front) auto
  have step: "\<exists>ds. decode_entries cs ((Comp b, any) # es) = Inr (rev ds @ (Comp b, any) # es) \<and> list_all2 same_entry ds as"
    if "list_all2 as_written cs (concat (map entry_blocks as))" for cs
    using Cons.prems a(1) b that by (intro Cons.IH) auto
  have same: "same_entry (Comp b, any) a" using a b by (simp add: same_entry_def)
  have "\<exists>cs. list_all2 as_written cs (concat (map entry_blocks as))
      \<and> decode_entries bs es = decode_entries cs ((Comp b, any) # es)"
  proof (cases any)
    case True
    then obtain j cs where j: "bs' = j # cs" "m_type j = tlv_Any" "list_all2 as_written cs (concat (map entry_blocks as))"
      using bs(3) as_written_type by (auto simp: list_all2_Cons2)
    then show ?thesis using bs(1) b(3) front True by auto
  next
    case False
    have "decode_entries (b # bs') es = decode_entries bs' ((Comp b, any) # es)"
    proof (cases bs')
      case (Cons j cs)
      then obtain d ds where d: "concat (map entry_blocks as) = d # ds" "as_written j d"
        using bs(3) False by (auto simp: list_all2_Cons1)
      then obtain a' as' where as: "as = a' # as'" by (cases as) auto
      obtain c' any' where "a' = (Comp c', any')" "canonical c'" using Cons.prems(3) as by (cases a'; cases "fst a'") auto
      then have "d = c'" "comp_ok d" using d(1) as by (auto simp: entry_blocks_def canonical_def)
      then have "m_type j \<noteq> tlv_Any" using as_written_type [OF d(2)] component_not_any by simp
      then show ?thesis using Cons b(3) front False by simp
    qed (use b(3) front False in simp)
    then show ?thesis using bs(1,3) False by auto
  qed
  then obtain cs where "list_all2 as_written cs (concat (map entry_blocks as))"
      "decode_entries bs es = decode_entries cs ((Comp b, any) # es)" by blast
  moreover then obtain ds where "decode_entries cs ((Comp b, any) # es) = Inr (rev ds @ (Comp b, any) # es)" "list_all2 same_entry ds as"
    using step by blast
  ultimately show ?case using same by (intro exI [of _ "(Comp b, any) # ds"]) simp
qed simp

lemma same_covered: "list_all2 same_entry es fs \<Longrightarrow> covered es x \<longleftrightarrow> covered fs x"
  by (induction rule: list_all2_induct) (auto simp: same_entry_def)

lemma same_entry_sym: "list_all2 same_entry es fs \<longleftrightarrow> list_all2 same_entry fs es"
  by (auto simp: same_entry_def list_all2_conv_all_nth)

lemma same_map_ok: "list_all2 same_entry es fs \<Longrightarrow> map_ok es \<Longrightarrow> map_ok fs"
proof (induction rule: list_all2_induct)
  case (Cons e es f fs)
  have "\<exists>e \<in> set es. ekey e = ekey f" if f: "f \<in> set fs" for f
    using Cons(2) f
    by (induction rule: list_all2_induct) (auto simp: same_entry_def)
  then show ?case using Cons by (force simp: same_entry_def)
qed simp

text \<open>Negative infinity can only come first.\<close>

lemma decode_run:
  assumes "exclude_ok x" and "neg_inf_any (m_entries x)" and "m_entries x \<noteq> []" and "list_all2 as_written bs (exclude_blocks x)"
  shows "\<exists>es. bs \<noteq> [] \<and> (if m_type (hd bs) = tlv_Any then decode_entries (tl bs) (appendEntry NegInf True [])
      else decode_entries bs []) = Inr es \<and> list_all2 same_entry (rev es) (rev (m_entries x))"
proof -
  obtain a as where as: "rev (m_entries x) = a # as" using assms(3) by (cases "rev (m_entries x)") auto
  have sorted: "sorted_wrt (\<lambda>e f. ekey e < ekey f) (a # as)" "\<forall>e \<in> set (a # as). ok_component (fst e)"
    using assms(1) unfolding as [symmetric] by (auto simp: exclude_ok_def map_ok_def sorted_wrt_rev)
  then have comps: "\<forall>e \<in> set as. ok_component (fst e) \<and> fst e \<noteq> NegInf" by (auto simp: less_option_def)
  have blocks: "exclude_blocks x = entry_blocks a @ concat (map entry_blocks as)" by (simp add: exclude_blocks_def as)
  show ?thesis
  proof (cases "fst a")
    case NegInf
    have "a \<in> set (m_entries x)" using as by (metis list.set_intros(1) set_rev)
    then have "a = (NegInf, True)" using assms(2) NegInf by (simp add: neg_inf_any_def prod_eq_iff)
    then obtain j cs where bs: "bs = j # cs" "as_written j (Block_type tlv_Any)" "list_all2 as_written cs (concat (map entry_blocks as))"
      using assms(4) blocks by (auto simp: entry_blocks_def list_all2_Cons2)
    have "m_type j = tlv_Any" using as_written_type [OF bs(2)] by simp
    moreover have "appendEntry NegInf True [] = [(NegInf, True)]" by (rule appendEntry_front) simp_all
    moreover obtain ds where "decode_entries cs [(NegInf, True)] = Inr (rev ds @ [(NegInf, True)])" "list_all2 same_entry ds as"
      using decode_entries_run [OF bs(3) _ comps, of "[(NegInf, True)]"] sorted(1) NegInf by auto
    ultimately show ?thesis using bs(1) as \<open>a = (NegInf, True)\<close>
      by (intro exI [of _ "rev ds @ [(NegInf, True)]"]) (simp add: same_entry_def)
  next
    case (Comp c)
    then have "\<forall>e \<in> set (a # as). ok_component (fst e) \<and> fst e \<noteq> NegInf" using comps sorted(2) by auto
    from decode_entries_run [OF _ sorted(1) this, of bs "[]"]
    obtain ds where ds: "decode_entries bs [] = Inr (rev ds)" "list_all2 same_entry ds (a # as)"
      using assms(4) blocks by auto
    obtain b cs where "bs = b # cs" "as_written b c"
      using assms(4) blocks Comp by (auto simp: entry_blocks_def list_all2_Cons2)
    moreover have "comp_ok c" using sorted(2) Comp by (simp add: canonical_def)
    ultimately show ?thesis using ds as as_written_type component_not_any by (intro exI [of _ "rev ds"]) auto
  qed
qed

text \<open>The element of a filter, and what decoding it gives.\<close>

definition exclude_elem :: "exclude \<Rightarrow> elem" where
  "exclude_elem x = (tlv_Exclude, comps_bytes (exclude_blocks x))"

definition exclude_same :: "exclude \<Rightarrow> exclude \<Rightarrow> bool" where
  "exclude_same x z \<longleftrightarrow> Exclude_equals x z \<and> excluded_set z = excluded_set x \<and> exclude_ok z"

lemma holds_exclude:
  assumes "holds b (exclude_elem x)" and "exclude_ok x" and "neg_inf_any (m_entries x)" and "m_entries x \<noteq> []"
  shows "\<exists>z. Exclude_of_block b = Inr z \<and> exclude_same x z \<and> m_entries z \<noteq> [] \<and> hasWire (exclude_wire z)
    \<and> wire (exclude_wire z) = wire b"
proof -
  obtain bs where bs: "parse b = (set_subBlocks b bs, None)" "list_all2 holds bs (map elem_of (exclude_blocks x))"
    using assms(1) holds_parse' unfolding comps_elems exclude_elem_def by blast
  have b: "m_type b = tlv_Exclude" "hasWire b" using assms(1) holds_sel [of b tlv_Exclude] by (simp_all add: exclude_elem_def)
  have bs2: "list_all2 as_written bs (exclude_blocks x)" using bs(2) by (simp add: list_all2_map2)
  obtain es where es: "bs \<noteq> []" "(if m_type (hd bs) = tlv_Any then decode_entries (tl bs) (appendEntry NegInf True [])
      else decode_entries bs []) = Inr es" "list_all2 same_entry (rev es) (rev (m_entries x))"
    using decode_run [OF assms(2,3,4) bs2] by blast
  let ?z = "\<lparr>m_entries = es, exclude_wire = set_subBlocks b bs\<rparr>"
  have "Exclude_of_block b = Inr ?z"
    using bs(1) b(1) es(1,2) by (cases bs) (auto simp: Exclude_of_block_def split: if_splits)
  moreover have same: "list_all2 same_entry (m_entries x) es" using es(3) by (simp add: list_all2_rev same_entry_sym)
  then have "Exclude_equals x ?z"
    by (auto simp: Exclude_equals_def same_entry_def equal_key elim!: list_all2_mono)
  moreover have "excluded_set ?z = excluded_set x" using same_covered [OF same] by (simp add: excluded_set_def)
  moreover have "exclude_ok ?z" using same_map_ok [OF same] assms(2) by (simp add: exclude_ok_def)
  moreover have "es \<noteq> []" using same assms(4) by auto
  ultimately show ?thesis using b(2) by (simp add: exclude_same_def)
qed

text \<open>
  The wire format of an exclude filter: the encoding is one element over the entries in ascending
  order, each one a component and possibly \<open>Any\<close>, and decoding it gives an equal filter that excludes
  the same components. Only the empty filter is refused.
\<close>

theorem Exclude_wire_roundtrip:
  assumes "exclude_ok x" and "neg_inf_any (m_entries x)" and "\<not> hasWire (exclude_wire x)"
    and "length (comps_bytes (exclude_blocks x)) < 2 ^ 63"
  shows "if m_entries x = [] then Exclude_wire x = Inl (ExcludeError ''cannot encode empty Exclude selector'')
    else \<exists>y b z. Exclude_wire x = Inr y \<and> y = x\<lparr>exclude_wire := b\<rparr>
      \<and> wire b = Inr (tlv tlv_Exclude (comps_bytes (exclude_blocks x)))
      \<and> bindE (Block_buffer (tlv tlv_Exclude (comps_bytes (exclude_blocks x)))) Exclude_of_block = Inr z
      \<and> Exclude_equals x z \<and> excluded_set z = excluded_set x \<and> exclude_ok z"
proof (cases "m_entries x = []")
  case True
  then show ?thesis using assms(3) by (simp add: Exclude_wire_def make_block_def Exclude_wireEncode_def)
next
  case False
  let ?v = "comps_bytes (exclude_blocks x)"
  have ok: "\<forall>e \<in> set (m_entries x). ok_component (fst e)" using assms(1) by (simp add: exclude_ok_def map_ok_def)
  obtain b where b: "make_block (Exclude_wireEncode EstimatorTag x) (Exclude_wireEncode EncoderTag x) = Inr b"
      "Block_buffer (tlv tlv_Exclude ?v) = Inr b" "holds b (exclude_elem x)"
    using made_holds [OF est.exclude_emits [OF False ok] enc_exact.exclude_emits [OF False ok] assms(4)]
    by (auto simp: exclude_elem_def)
  obtain z where "Exclude_of_block b = Inr z" "exclude_same x z"
    using holds_exclude [OF b(3) assms(1,2) False] by blast
  then show ?thesis using False b assms(3) by (auto simp: Exclude_wire_def holds_def exclude_same_def exclude_elem_def)
qed

theorem Exclude_wire_roundtrip_witness:
  "\<exists>y b z. Exclude_wire demo_range = Inr y \<and> y = demo_range\<lparr>exclude_wire := b\<rparr>
    \<and> wire b = Inr (tlv tlv_Exclude (comps_bytes (exclude_blocks demo_range)))
    \<and> bindE (Block_buffer (tlv tlv_Exclude (comps_bytes (exclude_blocks demo_range)))) Exclude_of_block = Inr z
    \<and> Exclude_equals demo_range z \<and> excluded_set z = excluded_set demo_range \<and> exclude_ok z"
proof -
  have v: "block_value (letter_comp b) = [b]" for b by (simp add: Block_value_def block_value_def range_of_def Let_def)
  have "length (comps_bytes (exclude_blocks demo_range)) < 2 ^ 63"
    using tlv_length_le [of "m_type (letter_comp 97)" "[97]"] tlv_length_le [of "m_type (letter_comp 122)" "[122]"]
      tlv_length_le [of tlv_Any "[]"] by (simp add: demo_range_def exclude_blocks_def entry_blocks_def v)
  then show ?thesis using Exclude_wire_roundtrip [of demo_range]
    by (simp add: exclude_ok_def demo_range_def neg_inf_any_def hasWire_def Block_empty_def)
qed

end
