(* ===== verification/Selectors.thy ===== *)
theory Selectors
  imports KeyLocator ExcludeWire
begin

text \<open>
  \<open>selectors.cpp\<close> of ndn-cxx: which Data an Interest asks for. The numbers are \<open>int\<close>s of 32 bits, a negative
  one standing for an absent field.
\<close>

section \<open>The class\<close>

definition tlv_Selectors :: "32 word" where "tlv_Selectors = 9"
definition tlv_MinSuffixComponents :: "32 word" where "tlv_MinSuffixComponents = 13"
definition tlv_MaxSuffixComponents :: "32 word" where "tlv_MaxSuffixComponents = 14"
definition tlv_ChildSelector :: "32 word" where "tlv_ChildSelector = 17"
definition tlv_MustBeFresh :: "32 word" where "tlv_MustBeFresh = 18"

record selectors =
  minSuffixComponents :: int
  maxSuffixComponents :: int
  publisherPublicKeyLocator :: key_locator
  sel_exclude :: exclude
  childSelector :: int
  mustBeFresh :: bool
  sel_wire :: block

definition Selectors_new :: selectors where
  "Selectors_new =
     \<lparr>minSuffixComponents = -1, maxSuffixComponents = -1, publisherPublicKeyLocator = KeyLocator_new,
      sel_exclude = Exclude_new, childSelector = -1, mustBeFresh = False, sel_wire = Block_empty\<rparr>"

definition Selectors_empty :: "selectors \<Rightarrow> bool" where
  "Selectors_empty s \<longleftrightarrow>
     minSuffixComponents s < 0 \<and> maxSuffixComponents s < 0 \<and> KeyLocator_empty (publisherPublicKeyLocator s)
     \<and> Exclude_empty (sel_exclude s) \<and> childSelector s < 0 \<and> \<not> mustBeFresh s"

definition setMinSuffixComponents :: "selectors \<Rightarrow> int \<Rightarrow> selectors" where
  "setMinSuffixComponents s n = s\<lparr>minSuffixComponents := n, sel_wire := block_reset (sel_wire s)\<rparr>"

definition setMaxSuffixComponents :: "selectors \<Rightarrow> int \<Rightarrow> selectors" where
  "setMaxSuffixComponents s n = s\<lparr>maxSuffixComponents := n, sel_wire := block_reset (sel_wire s)\<rparr>"

definition setPublisherPublicKeyLocator :: "selectors \<Rightarrow> key_locator \<Rightarrow> selectors" where
  "setPublisherPublicKeyLocator s k = s\<lparr>publisherPublicKeyLocator := k, sel_wire := block_reset (sel_wire s)\<rparr>"

definition setExclude :: "selectors \<Rightarrow> exclude \<Rightarrow> selectors" where
  "setExclude s x = s\<lparr>sel_exclude := x, sel_wire := block_reset (sel_wire s)\<rparr>"

definition setChildSelector :: "selectors \<Rightarrow> int \<Rightarrow> selectors" where
  "setChildSelector s n = s\<lparr>childSelector := n, sel_wire := block_reset (sel_wire s)\<rparr>"

definition setMustBeFresh :: "selectors \<Rightarrow> bool \<Rightarrow> selectors" where
  "setMustBeFresh s b = s\<lparr>mustBeFresh := b, sel_wire := block_reset (sel_wire s)\<rparr>"


section \<open>Wire format\<close>

definition Selectors_wireEncode :: "'e encoding_impl \<Rightarrow> selectors \<Rightarrow> 'e \<Rightarrow> (nat \<times> 'e) result" where
  "Selectors_wireEncode T s = with_header T tlv_Selectors
     (addE (if mustBeFresh s then prependEmptyBlock T tlv_MustBeFresh else skipE)
     (addE (if childSelector s \<ge> 0
        then prependNonNegativeIntegerBlock T tlv_ChildSelector (word_of_int (childSelector s)) else skipE)
     (addE (if \<not> Exclude_empty (sel_exclude s) then Exclude_wireEncode T (sel_exclude s) else skipE)
     (addE (if \<not> KeyLocator_empty (publisherPublicKeyLocator s)
        then KeyLocator_wireEncode T (publisherPublicKeyLocator s) else skipE)
     (addE (if maxSuffixComponents s \<ge> 0
        then prependNonNegativeIntegerBlock T tlv_MaxSuffixComponents (word_of_int (maxSuffixComponents s)) else skipE)
       (if minSuffixComponents s \<ge> 0
        then prependNonNegativeIntegerBlock T tlv_MinSuffixComponents (word_of_int (minSuffixComponents s)) else skipE))))))"

definition Selectors_wire :: "selectors \<Rightarrow> selectors result" where
  "Selectors_wire s =
     (if hasWire (sel_wire s) then Inr s
      else bindE (make_block (Selectors_wireEncode EstimatorTag s) (Selectors_wireEncode EncoderTag s)) (\<lambda>b.
        Inr (s\<lparr>sel_wire := b\<rparr>)))"

text \<open>The conversion of a number of the wire to an \<open>int\<close> drops its upper half.\<close>

definition to_int :: "64 word \<Rightarrow> int" where
  "to_int n = sint (ucast n :: 32 word)"

definition read_int :: "block \<Rightarrow> 32 word \<Rightarrow> int result" where
  "read_int w t = (case find_sub w t of None \<Rightarrow> Inr (-1)
     | Some val \<Rightarrow> bindE (readNonNegativeInteger_block val) (\<lambda>n. Inr (to_int n)))"

definition Selectors_of_block :: "block \<Rightarrow> selectors result" where
  "Selectors_of_block w =
     (if m_type w \<noteq> tlv_Selectors then Inl (TlvError ''Unexpected TLV type when decoding Selectors'')
      else bindE (parsed w) (\<lambda>w.
        bindE (read_int w tlv_MinSuffixComponents) (\<lambda>mn.
        bindE (read_int w tlv_MaxSuffixComponents) (\<lambda>mx.
        bindE (case find_sub w tlv_KeyLocator of None \<Rightarrow> Inr KeyLocator_new
          | Some val \<Rightarrow> KeyLocator_wireDecode KeyLocator_new val) (\<lambda>k.
        bindE (case find_sub w tlv_Exclude of None \<Rightarrow> Inr Exclude_new | Some val \<Rightarrow> Exclude_of_block val) (\<lambda>x.
        bindE (read_int w tlv_ChildSelector) (\<lambda>c.
        Inr \<lparr>minSuffixComponents = mn, maxSuffixComponents = mx, publisherPublicKeyLocator = k, sel_exclude = x,
             childSelector = c, mustBeFresh = find_sub w tlv_MustBeFresh \<noteq> None, sel_wire = w\<rparr>)))))))"

definition Selectors_equals :: "selectors \<Rightarrow> selectors \<Rightarrow> bool result" where
  "Selectors_equals s r = bindE (Selectors_wire s) (\<lambda>s. bindE (Selectors_wire r) (\<lambda>r. block_eq (sel_wire s) (sel_wire r)))"


section \<open>Round trip\<close>

definition int_ok :: "int \<Rightarrow> bool" where
  "int_ok n \<longleftrightarrow> - (2 ^ 31) \<le> n \<and> n < 2 ^ 31"

definition sel_ok :: "selectors \<Rightarrow> bool" where
  "sel_ok s \<longleftrightarrow> int_ok (minSuffixComponents s) \<and> int_ok (maxSuffixComponents s) \<and> int_ok (childSelector s)
     \<and> kl_ok (publisherPublicKeyLocator s) \<and> exclude_ok (sel_exclude s) \<and> neg_inf_any (m_entries (sel_exclude s))"

definition int_elems :: "32 word \<Rightarrow> int \<Rightarrow> elem list" where
  "int_elems t n = (if n \<ge> 0 then [(t, nni (word_of_int n))] else [])"

definition sel_elems :: "selectors \<Rightarrow> elem list" where
  "sel_elems s =
     int_elems tlv_MinSuffixComponents (minSuffixComponents s) @ int_elems tlv_MaxSuffixComponents (maxSuffixComponents s)
     @ (if \<not> KeyLocator_empty (publisherPublicKeyLocator s) then [kl_elem (publisherPublicKeyLocator s)] else [])
     @ (if \<not> Exclude_empty (sel_exclude s) then [exclude_elem (sel_exclude s)] else [])
     @ int_elems tlv_ChildSelector (childSelector s)
     @ (if mustBeFresh s then [(tlv_MustBeFresh, [])] else [])"

definition sel_elem :: "selectors \<Rightarrow> elem" where
  "sel_elem s = (tlv_Selectors, elems_bytes (sel_elems s))"

definition norm_int :: "int \<Rightarrow> int" where
  "norm_int n = (if n < 0 then -1 else n)"

text \<open>The same selectors: the same fields, absent ones being negative.\<close>

definition sel_same :: "selectors \<Rightarrow> selectors \<Rightarrow> bool" where
  "sel_same s r \<longleftrightarrow> minSuffixComponents r = norm_int (minSuffixComponents s)
     \<and> maxSuffixComponents r = norm_int (maxSuffixComponents s)
     \<and> childSelector r = norm_int (childSelector s) \<and> mustBeFresh r = mustBeFresh s
     \<and> kl_same (publisherPublicKeyLocator s) (publisherPublicKeyLocator r)
     \<and> excluded_set (sel_exclude r) = excluded_set (sel_exclude s) \<and> Exclude_equals (sel_exclude s) (sel_exclude r)"

context prepender
begin

lemma writes_exclude:
  assumes "exclude_ok x" and "m_entries x \<noteq> []"
  shows "writes R (Exclude_wireEncode T x) [exclude_elem x]"
  using exclude_emits [OF assms(2)] assms(1) by (simp add: writes_def exclude_elem_def exclude_ok_def map_ok_def)

lemma writes_int: "writes R (if n \<ge> 0 then prependNonNegativeIntegerBlock T t (word_of_int n) else skipE) (int_elems t n)"
  using writes_nni by (simp add: int_elems_def writes_skip)

lemma writes_selectors:
  assumes "sel_ok s"
  shows "writes R (Selectors_wireEncode T s) [sel_elem s]"
proof -
  have "writes R (if \<not> Exclude_empty (sel_exclude s) then Exclude_wireEncode T (sel_exclude s) else skipE)
      (if \<not> Exclude_empty (sel_exclude s) then [exclude_elem (sel_exclude s)] else [])"
    using assms writes_exclude by (simp add: sel_ok_def Exclude_empty_def writes_skip)
  moreover have "writes R (if \<not> KeyLocator_empty (publisherPublicKeyLocator s)
        then KeyLocator_wireEncode T (publisherPublicKeyLocator s) else skipE)
      (if \<not> KeyLocator_empty (publisherPublicKeyLocator s) then [kl_elem (publisherPublicKeyLocator s)] else [])"
    using assms writes_key_locator by (simp add: sel_ok_def writes_skip)
  moreover have "writes R (if mustBeFresh s then prependEmptyBlock T tlv_MustBeFresh else skipE)
      (if mustBeFresh s then [(tlv_MustBeFresh, [])] else [])"
    using writes_empty by (simp add: writes_skip)
  ultimately show ?thesis unfolding Selectors_wireEncode_def sel_elem_def sel_elems_def
    using writes_int by (intro writes_header) (simp only: append_assoc [symmetric], intro writes_addE; assumption)
qed

end

lemma to_int_small: "int_ok n \<Longrightarrow> 0 \<le> n \<Longrightarrow> to_int (word_of_int n) = n"
  using int32_small [of n] by (simp add: to_int_def int_ok_def)

text \<open>Looking an element up in a list with optional parts.\<close>

lemma map_of_if: "map_of (if c then es else fs) = (if c then map_of es else map_of fs)"
  by simp

lemma map_of_int_elems: "map_of (int_elems t n) = (if n \<ge> 0 then [t \<mapsto> nni (word_of_int n)] else Map.empty)"
  by (simp add: int_elems_def)

lemmas lookups = map_of_append map_of_int_elems map_of_if map_add_def

lemma read_int_elems:
  assumes "list_all2 holds (m_subBlocks w) es" and "map_of es t = (if n \<ge> 0 then Some (nni (word_of_int n)) else None)" and "int_ok n"
  shows "read_int w t = Inr (norm_int n)"
proof (cases "n \<ge> 0")
  case True
  then obtain x where "find_sub w t = Some x" "holds x (t, nni (word_of_int n))"
    using find_sub_Some [OF assms(1)] assms(2) by auto
  then show ?thesis using True assms(3) holds_nni by (simp add: read_int_def norm_int_def to_int_small)
next
  case False
  then have "find_sub w t = None" using find_sub_None [OF assms(1)] assms(2) by simp
  then show ?thesis using False by (simp add: read_int_def norm_int_def)
qed

lemmas sel_types = tlv_Selectors_def tlv_MinSuffixComponents_def tlv_MaxSuffixComponents_def tlv_ChildSelector_def
  tlv_MustBeFresh_def tlv_KeyLocator_def tlv_Exclude_def

lemma sel_lookup:
  "map_of (sel_elems s) tlv_MinSuffixComponents
     = (if minSuffixComponents s \<ge> 0 then Some (nni (word_of_int (minSuffixComponents s))) else None)"
  "map_of (sel_elems s) tlv_MaxSuffixComponents
     = (if maxSuffixComponents s \<ge> 0 then Some (nni (word_of_int (maxSuffixComponents s))) else None)"
  "map_of (sel_elems s) tlv_ChildSelector
     = (if childSelector s \<ge> 0 then Some (nni (word_of_int (childSelector s))) else None)"
  "map_of (sel_elems s) tlv_KeyLocator
     = (if KeyLocator_empty (publisherPublicKeyLocator s) then None else Some (snd (kl_elem (publisherPublicKeyLocator s))))"
  "map_of (sel_elems s) tlv_Exclude
     = (if Exclude_empty (sel_exclude s) then None else Some (snd (exclude_elem (sel_exclude s))))"
  "map_of (sel_elems s) tlv_MustBeFresh = (if mustBeFresh s then Some [] else None)"
  by (simp_all add: sel_elems_def sel_types kl_elem_def exclude_elem_def lookups)

lemma holds_selectors:
  assumes "holds b (sel_elem s)" and "sel_ok s"
  shows "\<exists>r. Selectors_of_block b = Inr r \<and> sel_same s r \<and> hasWire (sel_wire r) \<and> wire (sel_wire r) = wire b"
proof -
  obtain bs where bs: "parsed b = Inr (set_subBlocks b bs)" "list_all2 holds bs (sel_elems s)"
    using assms(1) holds_parsed unfolding sel_elem_def by blast
  let ?w = "set_subBlocks b bs" and ?k = "publisherPublicKeyLocator s" and ?x = "sel_exclude s"
  have b: "m_type b = tlv_Selectors" "hasWire b" using assms(1) holds_sel [of b tlv_Selectors] by (simp_all add: sel_elem_def)
  have es: "list_all2 holds (m_subBlocks ?w) (sel_elems s)" using bs(2) by simp
  have ints: "read_int ?w tlv_MinSuffixComponents = Inr (norm_int (minSuffixComponents s))"
      "read_int ?w tlv_MaxSuffixComponents = Inr (norm_int (maxSuffixComponents s))"
      "read_int ?w tlv_ChildSelector = Inr (norm_int (childSelector s))"
    using assms(2) by (auto intro!: read_int_elems [OF es] simp: sel_lookup sel_ok_def)
  have "find_sub ?w tlv_MustBeFresh \<noteq> None \<longleftrightarrow> map_of (sel_elems s) tlv_MustBeFresh \<noteq> None"
    using find_sub_holds [OF es, of tlv_MustBeFresh] by auto
  then have fresh: "find_sub ?w tlv_MustBeFresh \<noteq> None \<longleftrightarrow> mustBeFresh s"
    by (simp add: sel_lookup)
  have "\<exists>l. (case find_sub ?w tlv_KeyLocator of None \<Rightarrow> Inr KeyLocator_new
      | Some val \<Rightarrow> KeyLocator_wireDecode KeyLocator_new val) = Inr l \<and> kl_same ?k l"
  proof (cases "KeyLocator_empty ?k")
    case True
    have "find_sub ?w tlv_KeyLocator = None"
      by (intro find_sub_None [OF es]) (use True in \<open>simp add: sel_lookup\<close>)
    then show ?thesis using True by (simp add: KeyLocator_empty_def kl_same_def)
  next
    case False
    then obtain x where "find_sub ?w tlv_KeyLocator = Some x" "holds x (kl_elem ?k)"
      using find_sub_Some [OF es, of tlv_KeyLocator "snd (kl_elem ?k)"] False by (auto simp: kl_elem_def sel_lookup)
    then show ?thesis using holds_key_locator [of x ?k KeyLocator_new] assms(2) by (auto simp: sel_ok_def)
  qed
  then obtain l where l: "(case find_sub ?w tlv_KeyLocator of None \<Rightarrow> Inr KeyLocator_new
      | Some val \<Rightarrow> KeyLocator_wireDecode KeyLocator_new val) = Inr l" "kl_same ?k l" by blast
  have "\<exists>z. (case find_sub ?w tlv_Exclude of None \<Rightarrow> Inr Exclude_new | Some val \<Rightarrow> Exclude_of_block val) = Inr z
      \<and> excluded_set z = excluded_set ?x \<and> Exclude_equals ?x z"
  proof (cases "Exclude_empty ?x")
    case True
    have "find_sub ?w tlv_Exclude = None"
      by (intro find_sub_None [OF es]) (use True in \<open>simp add: sel_lookup\<close>)
    then show ?thesis using True by (simp add: Exclude_empty_def excluded_set_def Exclude_new_def Exclude_equals_def)
  next
    case False
    then obtain x where "find_sub ?w tlv_Exclude = Some x" "holds x (exclude_elem ?x)"
      using find_sub_Some [OF es, of tlv_Exclude "snd (exclude_elem ?x)"] False by (auto simp: exclude_elem_def sel_lookup)
    then show ?thesis using holds_exclude [of x ?x] assms(2) False
      by (auto simp: sel_ok_def Exclude_empty_def exclude_same_def)
  qed
  then obtain z where z: "(case find_sub ?w tlv_Exclude of None \<Rightarrow> Inr Exclude_new | Some val \<Rightarrow> Exclude_of_block val) = Inr z"
      "excluded_set z = excluded_set ?x" "Exclude_equals ?x z" by blast
  let ?r = "\<lparr>minSuffixComponents = norm_int (minSuffixComponents s), maxSuffixComponents = norm_int (maxSuffixComponents s),
      publisherPublicKeyLocator = l, sel_exclude = z, childSelector = norm_int (childSelector s),
      mustBeFresh = find_sub ?w tlv_MustBeFresh \<noteq> None, sel_wire = ?w\<rparr>"
  have "Selectors_of_block b = Inr ?r"
    using b(1) bs(1) ints l(1) z(1) by (simp add: Selectors_of_block_def)
  moreover have "sel_same s ?r" using l(2) z(2,3) fresh by (simp add: sel_same_def)
  ultimately show ?thesis using b(2) by (intro exI [of _ ?r]) simp
qed

text \<open>
  The wire format of selectors: one element over the fields that are present, from which the same
  selectors are decoded.
\<close>

theorem Selectors_wire_roundtrip:
  assumes "sel_ok s" and "\<not> hasWire (sel_wire s)" and "length (elems_bytes (sel_elems s)) < 2 ^ 63"
  shows "\<exists>b r. Selectors_wire s = Inr (s\<lparr>sel_wire := b\<rparr>) \<and> wire b = Inr (tlv tlv_Selectors (elems_bytes (sel_elems s)))
    \<and> bindE (Block_buffer (tlv tlv_Selectors (elems_bytes (sel_elems s)))) Selectors_of_block = Inr r
    \<and> sel_same s r \<and> Selectors_empty r = Selectors_empty s"
proof -
  obtain b where b: "make_block (Selectors_wireEncode EstimatorTag s) (Selectors_wireEncode EncoderTag s) = Inr b"
      "Block_buffer (tlv tlv_Selectors (elems_bytes (sel_elems s))) = Inr b" "holds b (sel_elem s)"
    using made_writes [OF est.writes_selectors [OF assms(1), unfolded sel_elem_def]
        enc_exact.writes_selectors [OF assms(1), unfolded sel_elem_def] assms(3)]
    by (auto simp: sel_elem_def)
  obtain r where r: "Selectors_of_block b = Inr r" "sel_same s r" using holds_selectors [OF b(3) assms(1)] by blast
  have "m_entries (sel_exclude s) = [] \<longleftrightarrow> m_entries (sel_exclude r) = []"
    using r(2) by (auto simp: sel_same_def Exclude_equals_def)
  then have "Selectors_empty r = Selectors_empty s"
    using r(2) by (auto simp: sel_same_def Selectors_empty_def kl_same_def KeyLocator_empty_def Exclude_empty_def norm_int_def)
  then show ?thesis using b r assms(2) by (intro exI [of _ b] exI [of _ r]) (simp add: Selectors_wire_def holds_def sel_elem_def)
qed

definition demo_selectors :: selectors where
  "demo_selectors = Selectors_new\<lparr>minSuffixComponents := 1, mustBeFresh := True,
     publisherPublicKeyLocator := KeyLocator_setName KeyLocator_new demo_name, sel_exclude := demo_range\<rparr>"

lemma demo_selectors_ok: "sel_ok demo_selectors"
  using demo_name_ok
  by (simp add: sel_ok_def demo_selectors_def Selectors_new_def int_ok_def kl_ok_def KeyLocator_setName_def exclude_ok_def
      demo_range_def neg_inf_any_def)

lemma demo_selectors_small: "length (elems_bytes (sel_elems demo_selectors)) < 1000"
proof -
  have v: "block_value (Block_value t v) = v" for t v by (simp add: Block_value_def block_value_def range_of_def Let_def)
  have x: "length (elems_bytes (map elem_of (exclude_blocks demo_range))) \<le> 57"
    using elems_length_le [of "map elem_of (exclude_blocks demo_range)"]
    by (simp add: demo_range_def exclude_blocks_def entry_blocks_def elem_of_def v)
  have n: "length (elems_bytes (map elem_of (m_subBlocks demo_name))) \<le> 38"
    using elems_length_le [of "map elem_of (m_subBlocks demo_name)"] by (simp add: demo_name_def elem_of_def v)
  have "length (elems_bytes [name_elem demo_name]) \<le> 56"
    using elems_length_le [of "[name_elem demo_name]"] n by (simp add: name_elem_def)
  then show ?thesis using elems_length_le [of "sel_elems demo_selectors"] x nni_length_le [of 1]
    by (simp add: sel_elems_def demo_selectors_def Selectors_new_def int_elems_def KeyLocator_setName_def KeyLocator_empty_def
        kl_elem_def kl_elems_def exclude_elem_def comps_elems Exclude_empty_def demo_range_def)
qed

theorem Selectors_wire_roundtrip_witness:
  "\<exists>b r. Selectors_wire demo_selectors = Inr (demo_selectors\<lparr>sel_wire := b\<rparr>)
    \<and> wire b = Inr (tlv tlv_Selectors (elems_bytes (sel_elems demo_selectors)))
    \<and> bindE (Block_buffer (tlv tlv_Selectors (elems_bytes (sel_elems demo_selectors)))) Selectors_of_block = Inr r
    \<and> sel_same demo_selectors r \<and> Selectors_empty r = Selectors_empty demo_selectors"
  using Selectors_wire_roundtrip [OF demo_selectors_ok] demo_selectors_small
  by (simp add: demo_selectors_def Selectors_new_def hasWire_def Block_empty_def)

text \<open>
  Numbers from 2 ^ 31 on: they become negative \<open>int\<close>s, the mark of an absent field, so that selectors that
  ask for that many components are decoded as selectors that ask for nothing.
\<close>

theorem Selectors_large_number:
  assumes "holds b (tlv_Selectors, elems_bytes [(tlv_MinSuffixComponents, nni n)])" and "2 ^ 31 \<le> n" and "n < 2 ^ 32"
  shows "\<exists>r. Selectors_of_block b = Inr r \<and> Selectors_empty r"
proof -
  obtain bs where bs: "parsed b = Inr (set_subBlocks b bs)" "list_all2 holds bs [(tlv_MinSuffixComponents, nni n)]"
    using holds_parsed [OF assms(1)] by blast
  let ?w = "set_subBlocks b bs"
  have es: "list_all2 holds (m_subBlocks ?w) [(tlv_MinSuffixComponents, nni n)]" using bs(2) by simp
  have none: "find_sub ?w t = None" if "t \<noteq> tlv_MinSuffixComponents" for t
    using find_sub_None [OF es, of t] that by simp
  obtain x where x: "find_sub ?w tlv_MinSuffixComponents = Some x" "holds x (tlv_MinSuffixComponents, nni n)"
    using find_sub_Some [OF es, of tlv_MinSuffixComponents] by auto
  have "to_int n < 0"
  proof -
    have "uint (ucast n :: 32 word) = uint n" "2 ^ 31 \<le> uint n"
      using assms(2,3) by (simp_all add: unsigned_ucast_eq take_bit_int_eq_self word_le_def word_less_def)
    moreover have "uint w = sint w" if "0 \<le> sint w" for w :: "32 word"
      using that uint_sint [of w] sint_lt [of w] by (simp add: take_bit_int_eq_self)
    then have "0 \<le> to_int n \<Longrightarrow> uint (ucast n :: 32 word) = to_int n" by (simp add: to_int_def)
    moreover have "to_int n < 2 ^ 31" using sint_lt [of "ucast n :: 32 word"] by (simp add: to_int_def)
    ultimately show ?thesis by linarith
  qed
  then have "Selectors_of_block b = Inr (Selectors_new\<lparr>minSuffixComponents := to_int n, sel_wire := ?w\<rparr>)"
    using bs(1) x holds_nni [OF x(2)] none holds_sel [OF assms(1)]
    by (simp add: Selectors_of_block_def read_int_def Selectors_new_def sel_types)
  then show ?thesis using \<open>to_int n < 0\<close>
    by (simp add: Selectors_empty_def Selectors_new_def KeyLocator_empty_def KeyLocator_new_def Exclude_empty_def Exclude_new_def)
qed

theorem Selectors_large_number_witness:
  "\<exists>b r. Block_buffer (tlv tlv_Selectors (elems_bytes [(tlv_MinSuffixComponents, nni 2147483648)])) = Inr b
    \<and> Selectors_of_block b = Inr r \<and> Selectors_empty r"
proof -
  let ?v = "elems_bytes [(tlv_MinSuffixComponents, nni 2147483648)]"
  have "length ?v < 2 ^ 63"
    using tlv_length_le [of tlv_MinSuffixComponents "nni 2147483648"] nni_length_le [of 2147483648] by simp
  then obtain b where b: "Block_buffer (tlv tlv_Selectors ?v) = Inr b" "holds b (tlv_Selectors, ?v)"
    using Block_buffer_holds by blast
  then show ?thesis using Selectors_large_number [OF b(2)] by auto
qed

end
