(* ===== verification/MetaInfo.thy ===== *)
theory MetaInfo
  imports Elements
begin

text \<open>
  \<open>meta-info.cpp\<close> of ndn-cxx: what a Data packet says about its content. Periods are numbers of milliseconds,
  signed and of 64 bits. \<open>wireDecode\<close> changes an object in place.
\<close>

section \<open>The class\<close>

definition tlv_MetaInfo :: "32 word" where "tlv_MetaInfo = 20"
definition tlv_ContentType :: "32 word" where "tlv_ContentType = 24"
definition tlv_FreshnessPeriod :: "32 word" where "tlv_FreshnessPeriod = 25"
definition tlv_FinalBlockId :: "32 word" where "tlv_FinalBlockId = 26"
definition ContentType_Blob :: "32 word" where "ContentType_Blob = 0"

text \<open>\<open>time::milliseconds::min()\<close>\<close>

definition milliseconds_min :: int where "milliseconds_min = - (2 ^ 63)"

record meta_info =
  mi_type :: "32 word"
  mi_freshnessPeriod :: int
  mi_finalBlockId :: block
  mi_appMetaInfo :: "block list"
  mi_wire :: block

definition MetaInfo_new :: meta_info where
  "MetaInfo_new = \<lparr>mi_type = ContentType_Blob, mi_freshnessPeriod = -1, mi_finalBlockId = Component_new,
     mi_appMetaInfo = [], mi_wire = Block_empty\<rparr>"

definition MetaInfo_setType :: "meta_info \<Rightarrow> 32 word \<Rightarrow> meta_info" where
  "MetaInfo_setType m t = m\<lparr>mi_wire := block_reset (mi_wire m), mi_type := t\<rparr>"

definition MetaInfo_setFreshnessPeriod :: "meta_info \<Rightarrow> int \<Rightarrow> meta_info" where
  "MetaInfo_setFreshnessPeriod m f = m\<lparr>mi_wire := block_reset (mi_wire m), mi_freshnessPeriod := f\<rparr>"

definition MetaInfo_setFinalBlockId :: "meta_info \<Rightarrow> block \<Rightarrow> meta_info" where
  "MetaInfo_setFinalBlockId m c = m\<lparr>mi_wire := block_reset (mi_wire m), mi_finalBlockId := c\<rparr>"

definition app_type :: "block \<Rightarrow> bool" where
  "app_type b \<longleftrightarrow> 128 \<le> m_type b \<and> m_type b \<le> 252"

definition setAppMetaInfo :: "meta_info \<Rightarrow> block list \<Rightarrow> meta_info result" where
  "setAppMetaInfo m info =
     (if \<not> list_all app_type info
      then Inl (MetaInfoError ''AppMetaInfo block has type outside the application range [128, 252]'')
      else Inr (m\<lparr>mi_wire := block_reset (mi_wire m), mi_appMetaInfo := info\<rparr>))"

definition addAppMetaInfo :: "meta_info \<Rightarrow> block \<Rightarrow> meta_info result" where
  "addAppMetaInfo m b =
     (if \<not> app_type b then Inl (MetaInfoError ''AppMetaInfo block has type outside the application range [128, 252]'')
      else Inr (m\<lparr>mi_wire := block_reset (mi_wire m), mi_appMetaInfo := mi_appMetaInfo m @ [b]\<rparr>))"

fun remove_first :: "32 word \<Rightarrow> block list \<Rightarrow> block list option" where
  "remove_first t [] = None"
| "remove_first t (b # bs) = (if m_type b = t then Some bs else map_option ((#) b) (remove_first t bs))"

definition removeAppMetaInfo :: "meta_info \<Rightarrow> 32 word \<Rightarrow> meta_info \<times> bool" where
  "removeAppMetaInfo m t =
     (case remove_first t (mi_appMetaInfo m) of
        None \<Rightarrow> (m, False)
      | Some bs \<Rightarrow> (m\<lparr>mi_wire := block_reset (mi_wire m), mi_appMetaInfo := bs\<rparr>, True))"

definition findAppMetaInfo :: "meta_info \<Rightarrow> 32 word \<Rightarrow> block option" where
  "findAppMetaInfo m t = List.find (\<lambda>b. m_type b = t) (mi_appMetaInfo m)"


section \<open>Wire format\<close>

text \<open>A loop over a list from its end.\<close>

fun prepend_blocks :: "'e encoding_impl \<Rightarrow> block list \<Rightarrow> 'e \<Rightarrow> (nat \<times> 'e) result" where
  "prepend_blocks T [] = skipE"
| "prepend_blocks T (b # bs) = addE (prepend_blocks T bs) (prependBlock T b)"

definition MetaInfo_wireEncode :: "'e encoding_impl \<Rightarrow> meta_info \<Rightarrow> 'e \<Rightarrow> (nat \<times> 'e) result" where
  "MetaInfo_wireEncode T m = with_header T tlv_MetaInfo
     (addE (prepend_blocks T (mi_appMetaInfo m))
     (addE (if \<not> Component_empty (mi_finalBlockId m)
        then prependNestedBlock T tlv_FinalBlockId (Component_wireEncode T (mi_finalBlockId m)) else skipE)
     (addE (if mi_freshnessPeriod m \<ge> 0
        then prependNonNegativeIntegerBlock T tlv_FreshnessPeriod (word_of_int (mi_freshnessPeriod m)) else skipE)
       (if mi_type m \<noteq> ContentType_Blob
        then prependNonNegativeIntegerBlock T tlv_ContentType (ucast (mi_type m)) else skipE))))"

definition MetaInfo_wire :: "meta_info \<Rightarrow> meta_info result" where
  "MetaInfo_wire m =
     (if hasWire (mi_wire m) then Inr m
      else bindE (make_block (MetaInfo_wireEncode EstimatorTag m) (MetaInfo_wireEncode EncoderTag m)) (\<lambda>b.
        Inr (m\<lparr>mi_wire := b\<rparr>)))"

text \<open>
  One optional field at the front of the elements that are left: the element when it has the type, and
  the rest.
\<close>

fun next_field :: "32 word \<Rightarrow> block list \<Rightarrow> block option \<times> block list" where
  "next_field t [] = (None, [])"
| "next_field t (b # bs) = (if m_type b = t then (Some b, bs) else (None, b # bs))"

definition decode_contentType :: "block option \<Rightarrow> 32 word result" where
  "decode_contentType v = (case v of None \<Rightarrow> Inr ContentType_Blob
     | Some val \<Rightarrow> bindE (readNonNegativeInteger_block val) (\<lambda>n. Inr (ucast n)))"

definition decode_freshness :: "block option \<Rightarrow> int result" where
  "decode_freshness v = (case v of None \<Rightarrow> Inr milliseconds_min
     | Some val \<Rightarrow> bindE (readNonNegativeInteger_block val) (\<lambda>n. Inr (sint n)))"

definition decode_finalBlockId :: "block option \<Rightarrow> block result" where
  "decode_finalBlockId v = (case v of None \<Rightarrow> Inr Component_new
     | Some val \<Rightarrow> bindE (blockFromValue val) (\<lambda>b. bindE (Component_of_block b) (\<lambda>c.
         Inr (if m_type c \<noteq> tlv_NameComponent then Component_new else c))))"

definition MetaInfo_wireDecode :: "meta_info \<Rightarrow> block \<Rightarrow> meta_info result" where
  "MetaInfo_wireDecode m w =
     bindE (parsed w) (\<lambda>w.
       case next_field tlv_ContentType (m_subBlocks w) of (v1, es) \<Rightarrow>
       bindE (decode_contentType v1) (\<lambda>type.
       case next_field tlv_FreshnessPeriod es of (v2, es) \<Rightarrow>
       bindE (decode_freshness v2) (\<lambda>freshness.
       case next_field tlv_FinalBlockId es of (v3, es) \<Rightarrow>
       bindE (decode_finalBlockId v3) (\<lambda>finalBlockId.
       Inr \<lparr>mi_type = type, mi_freshnessPeriod = freshness, mi_finalBlockId = finalBlockId,
            mi_appMetaInfo = mi_appMetaInfo m @ es, mi_wire = w\<rparr>))))"

definition MetaInfo_equals :: "meta_info \<Rightarrow> meta_info \<Rightarrow> bool result" where
  "MetaInfo_equals m r = bindE (MetaInfo_wire m) (\<lambda>m. bindE (MetaInfo_wire r) (\<lambda>r. block_eq (mi_wire m) (mi_wire r)))"


section \<open>What is written and what is read\<close>

definition mi_ok :: "meta_info \<Rightarrow> bool" where
  "mi_ok m \<longleftrightarrow> mi_freshnessPeriod m < 2 ^ 63
     \<and> (Component_empty (mi_finalBlockId m) \<or> comp_ok (mi_finalBlockId m) \<and> m_type (mi_finalBlockId m) = tlv_NameComponent)
     \<and> list_all shortest (mi_appMetaInfo m) \<and> list_all app_type (mi_appMetaInfo m)"

definition mi_elems :: "meta_info \<Rightarrow> elem list" where
  "mi_elems m =
     (if mi_type m \<noteq> ContentType_Blob then [(tlv_ContentType, nni (ucast (mi_type m)))] else [])
     @ (if mi_freshnessPeriod m \<ge> 0 then [(tlv_FreshnessPeriod, nni (word_of_int (mi_freshnessPeriod m)))] else [])
     @ (if \<not> Component_empty (mi_finalBlockId m) then [(tlv_FinalBlockId, elems_bytes [elem_of (mi_finalBlockId m)])] else [])
     @ map elem_of (mi_appMetaInfo m)"

definition mi_elem :: "meta_info \<Rightarrow> elem" where
  "mi_elem m = (tlv_MetaInfo, elems_bytes (mi_elems m))"

text \<open>The fields that are not lists.\<close>

definition mi_same :: "meta_info \<Rightarrow> meta_info \<Rightarrow> bool" where
  "mi_same m r \<longleftrightarrow> mi_type r = mi_type m
     \<and> mi_freshnessPeriod r = (if mi_freshnessPeriod m < 0 then milliseconds_min else mi_freshnessPeriod m)
     \<and> (if Component_empty (mi_finalBlockId m) then mi_finalBlockId r = Component_new
        else canonical (mi_finalBlockId r) \<and> comp_key (mi_finalBlockId r) = comp_key (mi_finalBlockId m))"

context prepender
begin

lemma writes_blocks: "list_all shortest bs \<Longrightarrow> writes R (prepend_blocks T bs) (map elem_of bs)"
proof (induction bs)
  case (Cons b bs)
  then have "writes R (addE (prepend_blocks T bs) (prependBlock T b)) ([elem_of b] @ map elem_of bs)"
    by (intro writes_addE writes_block) simp_all
  then show ?case by simp
qed (simp add: writes_skip)

lemma writes_meta_info:
  assumes "mi_ok m"
  shows "writes R (MetaInfo_wireEncode T m) [mi_elem m]"
proof -
  have "writes R (if \<not> Component_empty (mi_finalBlockId m)
        then prependNestedBlock T tlv_FinalBlockId (Component_wireEncode T (mi_finalBlockId m)) else skipE)
      (if \<not> Component_empty (mi_finalBlockId m) then [(tlv_FinalBlockId, elems_bytes [elem_of (mi_finalBlockId m)])] else [])"
    using assms by (intro writes_if writes_skip writes_nested writes_component) (auto simp: mi_ok_def)
  moreover have "writes R (if mi_freshnessPeriod m \<ge> 0
        then prependNonNegativeIntegerBlock T tlv_FreshnessPeriod (word_of_int (mi_freshnessPeriod m)) else skipE)
      (if mi_freshnessPeriod m \<ge> 0 then [(tlv_FreshnessPeriod, nni (word_of_int (mi_freshnessPeriod m)))] else [])"
    by (intro writes_if writes_skip writes_nni)
  moreover have "writes R (if mi_type m \<noteq> ContentType_Blob
        then prependNonNegativeIntegerBlock T tlv_ContentType (ucast (mi_type m)) else skipE)
      (if mi_type m \<noteq> ContentType_Blob then [(tlv_ContentType, nni (ucast (mi_type m)))] else [])"
    by (intro writes_if writes_skip writes_nni)
  moreover have "writes R (prepend_blocks T (mi_appMetaInfo m)) (map elem_of (mi_appMetaInfo m))"
    using assms by (intro writes_blocks) (simp add: mi_ok_def)
  ultimately show ?thesis unfolding MetaInfo_wireEncode_def mi_elem_def mi_elems_def
    by (intro writes_header) (simp only: append_assoc [symmetric], intro writes_addE; assumption)
qed

end

text \<open>Reading one optional field.\<close>

lemma next_field_holds:
  assumes "list_all2 holds bs ((if c then [(t, v)] else []) @ es)" and "\<And>e. e \<in> set es \<Longrightarrow> fst e \<noteq> t"
  shows "\<exists>x cs. next_field t bs = (x, cs) \<and> list_all2 holds cs es \<and> (if c then \<exists>b. x = Some b \<and> holds b (t, v) else x = None)"
proof (cases c)
  case True
  then obtain b cs where "bs = b # cs" "holds b (t, v)" "list_all2 holds cs es" using assms(1) by (auto simp: list_all2_Cons2)
  then show ?thesis using True holds_sel by auto
next
  case False
  show ?thesis
  proof (cases bs)
    case (Cons b cs)
    then obtain e es' where "es = e # es'" "holds b e" using assms(1) False by (auto simp: list_all2_Cons1)
    moreover have "fst e \<noteq> t" using assms(2) \<open>es = e # es'\<close> by simp
    ultimately show ?thesis using Cons False assms(1) holds_sel [of b "fst e" "snd e"] by auto
  qed (use False assms(1) in auto)
qed

lemmas mi_types = tlv_MetaInfo_def tlv_ContentType_def tlv_FreshnessPeriod_def tlv_FinalBlockId_def

lemma freshness_back: "0 \<le> f \<Longrightarrow> f < 2 ^ 63 \<Longrightarrow> sint (word_of_int f :: 64 word) = f"
  using sint_small [of "nat f"] by simp

lemma final_back:
  assumes "comp_ok c" and "m_type c = tlv_NameComponent" and "holds v (t, elems_bytes [elem_of c])"
  shows "\<exists>d. decode_finalBlockId (Some v) = Inr d \<and> canonical d \<and> comp_key d = comp_key c"
proof -
  have "holds v (t, tlv (m_type c) (block_value c))" using assms(3) by (simp add: elem_of_def)
  then obtain d where d: "blockFromValue v = Inr d" "holds d (elem_of c)" using blockFromValue_holds by (metis elem_of_def)
  then have "canonical d" "comp_key d = comp_key c" "m_type d = tlv_NameComponent"
    using holds_component [OF d(2) assms(1)] holds_sel [of d "m_type c"] assms(2) by (simp_all add: elem_of_def)
  moreover then have "Component_of_block d = Inr d" by (simp add: Component_of_block_def canonical_def comp_ok_def)
  ultimately show ?thesis using d(1) by (simp add: decode_finalBlockId_def)
qed

text \<open>Decoding into an object keeps the application's blocks it had and adds those of the element.\<close>

lemma holds_meta_info:
  assumes "holds b (mi_elem m)" and "mi_ok m"
  shows "\<exists>r bs. MetaInfo_wireDecode x b = Inr r \<and> mi_same m r \<and> mi_appMetaInfo r = mi_appMetaInfo x @ bs
    \<and> list_all2 holds bs (map elem_of (mi_appMetaInfo m)) \<and> hasWire (mi_wire r) \<and> wire (mi_wire r) = wire b"
proof -
  let ?app = "map elem_of (mi_appMetaInfo m)" and ?c = "mi_finalBlockId m"
  let ?e1 = "if mi_type m \<noteq> ContentType_Blob then [(tlv_ContentType, nni (ucast (mi_type m)))] else []"
  let ?e2 = "if mi_freshnessPeriod m \<ge> 0 then [(tlv_FreshnessPeriod, nni (word_of_int (mi_freshnessPeriod m)))] else []"
  let ?e3 = "if \<not> Component_empty ?c then [(tlv_FinalBlockId, elems_bytes [elem_of ?c])] else []"
  have b: "hasWire b" using assms(1) holds_sel [of b tlv_MetaInfo] by (simp add: mi_elem_def)
  obtain bs where bs: "parsed b = Inr (set_subBlocks b bs)" "list_all2 holds bs (?e1 @ ?e2 @ ?e3 @ ?app)"
    using assms(1) holds_parsed unfolding mi_elem_def mi_elems_def by blast
  have app: "fst e \<noteq> tlv_ContentType" "fst e \<noteq> tlv_FreshnessPeriod" "fst e \<noteq> tlv_FinalBlockId" if "e \<in> set ?app" for e
  proof -
    have "128 \<le> fst e" using assms(2) that by (auto simp: mi_ok_def list_all_iff app_type_def elem_of_def)
    then show "fst e \<noteq> tlv_ContentType" "fst e \<noteq> tlv_FreshnessPeriod" "fst e \<noteq> tlv_FinalBlockId"
      by (auto simp: mi_types)
  qed
  obtain x1 c1 where f1: "next_field tlv_ContentType bs = (x1, c1)" "list_all2 holds c1 (?e2 @ ?e3 @ ?app)"
      "if mi_type m \<noteq> ContentType_Blob then \<exists>v. x1 = Some v \<and> holds v (tlv_ContentType, nni (ucast (mi_type m))) else x1 = None"
    using next_field_holds [OF bs(2)] app(1) by (force simp: mi_types split: if_splits)
  obtain x2 c2 where f2: "next_field tlv_FreshnessPeriod c1 = (x2, c2)" "list_all2 holds c2 (?e3 @ ?app)"
      "if mi_freshnessPeriod m \<ge> 0 then \<exists>v. x2 = Some v \<and> holds v (tlv_FreshnessPeriod, nni (word_of_int (mi_freshnessPeriod m)))
       else x2 = None"
    using next_field_holds [OF f1(2)] app(2) by (force simp: mi_types split: if_splits)
  obtain x3 c3 where f3: "next_field tlv_FinalBlockId c2 = (x3, c3)" "list_all2 holds c3 ?app"
      "if \<not> Component_empty ?c then \<exists>v. x3 = Some v \<and> holds v (tlv_FinalBlockId, elems_bytes [elem_of ?c]) else x3 = None"
    using next_field_holds [OF f2(2)] app(3) by blast
  have d1: "decode_contentType x1 = Inr (mi_type m)"
    using f1(3) holds_nni by (auto simp: decode_contentType_def split: if_splits)
  have d2: "decode_freshness x2 = Inr (if mi_freshnessPeriod m < 0 then milliseconds_min else mi_freshnessPeriod m)"
    using f2(3) holds_nni assms(2) freshness_back by (auto simp: decode_freshness_def mi_ok_def split: if_splits)
  have "\<exists>c. decode_finalBlockId x3 = Inr c
      \<and> (if Component_empty ?c then c = Component_new else canonical c \<and> comp_key c = comp_key ?c)"
  proof (cases "Component_empty ?c")
    case True
    then show ?thesis using f3(3) by (simp add: decode_finalBlockId_def)
  next
    case False
    then obtain v where "x3 = Some v" "holds v (tlv_FinalBlockId, elems_bytes [elem_of ?c])" using f3(3) by auto
    then show ?thesis using False final_back [of ?c v] assms(2) by (auto simp only: mi_ok_def if_False)
  qed
  then obtain c where d3: "decode_finalBlockId x3 = Inr c"
      "if Component_empty ?c then c = Component_new else canonical c \<and> comp_key c = comp_key ?c" by blast
  let ?r = "\<lparr>mi_type = mi_type m, mi_freshnessPeriod = (if mi_freshnessPeriod m < 0 then milliseconds_min else mi_freshnessPeriod m),
      mi_finalBlockId = c, mi_appMetaInfo = mi_appMetaInfo x @ c3, mi_wire = set_subBlocks b bs\<rparr>"
  have "MetaInfo_wireDecode x b = Inr ?r"
    using bs(1) f1(1) f2(1) f3(1) d1 d2 d3(1) by (simp add: MetaInfo_wireDecode_def)
  moreover have "mi_same m ?r" using d3(2) by (simp add: mi_same_def)
  ultimately show ?thesis using f3(2) b by (intro exI [of _ ?r] exI [of _ c3]) simp
qed

end
