(* ===== verification/Signature.thy ===== *)
theory Signature
  imports KeyLocator MetaInfo
begin

text \<open>
  \<open>signature-info.cpp\<close>, \<open>signature.cpp\<close> and \<open>signature.hpp\<close> of ndn-cxx: how a packet was signed, and the value of
  the signature. A \<open>ValidityPeriod\<close> is the block it encodes to.
\<close>

section \<open>SignatureInfo\<close>

definition tlv_SignatureInfo :: "32 word" where "tlv_SignatureInfo = 22"
definition tlv_SignatureValue :: "32 word" where "tlv_SignatureValue = 23"
definition tlv_SignatureType :: "32 word" where "tlv_SignatureType = 27"
definition tlv_ValidityPeriod :: "32 word" where "tlv_ValidityPeriod = 253"

record signature_info =
  si_type :: int
  si_hasKeyLocator :: bool
  si_keyLocator :: key_locator
  si_otherTlvs :: "block list"
  si_wire :: block

definition SignatureInfo_new :: signature_info where
  "SignatureInfo_new = \<lparr>si_type = -1, si_hasKeyLocator = False, si_keyLocator = KeyLocator_new, si_otherTlvs = [],
     si_wire = Block_empty\<rparr>"

definition SignatureInfo_of_type :: "int \<Rightarrow> signature_info" where
  "SignatureInfo_of_type t = SignatureInfo_new\<lparr>si_type := t\<rparr>"

definition SignatureInfo_of_locator :: "int \<Rightarrow> key_locator \<Rightarrow> signature_info" where
  "SignatureInfo_of_locator t k = SignatureInfo_new\<lparr>si_type := t, si_hasKeyLocator := True, si_keyLocator := k\<rparr>"

definition setSignatureType :: "signature_info \<Rightarrow> int \<Rightarrow> signature_info" where
  "setSignatureType s t = s\<lparr>si_wire := block_reset (si_wire s), si_type := t\<rparr>"

definition setKeyLocator :: "signature_info \<Rightarrow> key_locator \<Rightarrow> signature_info" where
  "setKeyLocator s k = s\<lparr>si_wire := block_reset (si_wire s), si_keyLocator := k, si_hasKeyLocator := True\<rparr>"

definition unsetKeyLocator :: "signature_info \<Rightarrow> signature_info" where
  "unsetKeyLocator s = s\<lparr>si_wire := block_reset (si_wire s), si_keyLocator := KeyLocator_new, si_hasKeyLocator := False\<rparr>"

definition getKeyLocator :: "signature_info \<Rightarrow> key_locator result" where
  "getKeyLocator s =
     (if si_hasKeyLocator s then Inr (si_keyLocator s) else Inl (SignatureError ''KeyLocator does not exist''))"

fun starts_with :: "32 word \<Rightarrow> block list \<Rightarrow> bool" where
  "starts_with t [] \<longleftrightarrow> False"
| "starts_with t (b # bs) \<longleftrightarrow> m_type b = t"

definition unsetValidityPeriod :: "signature_info \<Rightarrow> signature_info" where
  "unsetValidityPeriod s = s\<lparr>si_wire := block_reset (si_wire s),
     si_otherTlvs := (if starts_with tlv_ValidityPeriod (si_otherTlvs s) then tl (si_otherTlvs s) else si_otherTlvs s)\<rparr>"

definition setValidityPeriod :: "signature_info \<Rightarrow> block \<Rightarrow> signature_info" where
  "setValidityPeriod s v =
     (let s = unsetValidityPeriod s in s\<lparr>si_otherTlvs := v # si_otherTlvs s\<rparr>)"

definition getValidityPeriod :: "signature_info \<Rightarrow> block result" where
  "getValidityPeriod s =
     (if \<not> starts_with tlv_ValidityPeriod (si_otherTlvs s)
      then Inl (SignatureError ''SignatureInfo does not contain the requested ValidityPeriod field'')
      else Inr (hd (si_otherTlvs s)))"

definition appendTypeSpecificTlv :: "signature_info \<Rightarrow> block \<Rightarrow> signature_info" where
  "appendTypeSpecificTlv s b = s\<lparr>si_wire := block_reset (si_wire s), si_otherTlvs := si_otherTlvs s @ [b]\<rparr>"

definition getTypeSpecificTlv :: "signature_info \<Rightarrow> 32 word \<Rightarrow> block result" where
  "getTypeSpecificTlv s t = (case List.find (\<lambda>b. m_type b = t) (si_otherTlvs s) of Some b \<Rightarrow> Inr b
     | None \<Rightarrow> Inl (SignatureError ''(SignatureInfo::getTypeSpecificTlv) Requested a non-existed type''))"

definition SignatureInfo_wireEncode :: "'e encoding_impl \<Rightarrow> signature_info \<Rightarrow> 'e \<Rightarrow> (nat \<times> 'e) result" where
  "SignatureInfo_wireEncode T s = with_header T tlv_SignatureInfo
     (addE (prepend_blocks T (si_otherTlvs s))
     (addE (if si_hasKeyLocator s then KeyLocator_wireEncode T (si_keyLocator s) else skipE)
       (prependNonNegativeIntegerBlock T tlv_SignatureType (word_of_int (si_type s)))))"

definition SignatureInfo_wire :: "signature_info \<Rightarrow> signature_info result" where
  "SignatureInfo_wire s =
     (if hasWire (si_wire s) then Inr s
      else bindE (make_block (SignatureInfo_wireEncode EstimatorTag s) (SignatureInfo_wireEncode EncoderTag s)) (\<lambda>b.
        Inr (s\<lparr>si_wire := b\<rparr>)))"

definition SignatureInfo_wireDecode :: "signature_info \<Rightarrow> block \<Rightarrow> signature_info result" where
  "SignatureInfo_wireDecode s w =
     (if \<not> hasWire w then Inl (SignatureError ''The supplied block does not contain wire format'')
      else bindE (parsed w) (\<lambda>w.
        if m_type w \<noteq> tlv_SignatureInfo then Inl (TlvError ''Unexpected TLV type when decoding Name'')
        else case next_field tlv_SignatureType (m_subBlocks w) of
          (None, _) \<Rightarrow> Inl (SignatureError ''SignatureInfo does not have sub-TLV or the first sub-TLV is not SignatureType'')
        | (Some it, es) \<Rightarrow>
            bindE (readNonNegativeInteger_block it) (\<lambda>n.
            case next_field tlv_KeyLocator es of
              (None, es) \<Rightarrow> Inr (s\<lparr>si_type := sint (ucast n :: 32 word), si_hasKeyLocator := False,
                si_otherTlvs := si_otherTlvs s @ es, si_wire := w\<rparr>)
            | (Some k, es) \<Rightarrow>
                bindE (KeyLocator_wireDecode (si_keyLocator s) k) (\<lambda>k.
                Inr (s\<lparr>si_type := sint (ucast n :: 32 word), si_hasKeyLocator := True, si_keyLocator := k,
                  si_otherTlvs := si_otherTlvs s @ es, si_wire := w\<rparr>)))))"

definition SignatureInfo_of_block :: "block \<Rightarrow> signature_info result" where
  "SignatureInfo_of_block w = SignatureInfo_wireDecode SignatureInfo_new w"

fun blocks_eq :: "block list \<Rightarrow> block list \<Rightarrow> bool result" where
  "blocks_eq [] [] = Inr True"
| "blocks_eq (a # as) (b # bs) = bindE (block_eq a b) (\<lambda>c. if c then blocks_eq as bs else Inr False)"
| "blocks_eq as bs = Inr False"

definition SignatureInfo_equals :: "signature_info \<Rightarrow> signature_info \<Rightarrow> bool result" where
  "SignatureInfo_equals s r =
     (if si_type s = si_type r \<and> si_hasKeyLocator s = si_hasKeyLocator r
      then bindE (KeyLocator_equals (si_keyLocator s) (si_keyLocator r)) (\<lambda>c.
        if c then if length (si_otherTlvs s) = length (si_otherTlvs r) then blocks_eq (si_otherTlvs s) (si_otherTlvs r)
          else Inr False
        else Inr False)
      else Inr False)"


section \<open>Signature\<close>

record signature =
  sig_info :: signature_info
  sig_value :: block

definition Signature_new :: signature where
  "Signature_new = \<lparr>sig_info = SignatureInfo_new, sig_value = Block_empty\<rparr>"

definition Signature_is_set :: "signature \<Rightarrow> bool" where
  "Signature_is_set s \<longleftrightarrow> si_type (sig_info s) \<noteq> -1"

text \<open>The block, which is the wire of the information from then on.\<close>

definition Signature_getInfo :: "signature \<Rightarrow> block result" where
  "Signature_getInfo s = bindE (SignatureInfo_wire (sig_info s)) (\<lambda>i. Inr (si_wire i))"

definition Signature_setInfo :: "signature \<Rightarrow> block \<Rightarrow> signature result" where
  "Signature_setInfo s w = bindE (SignatureInfo_of_block w) (\<lambda>i. Inr (s\<lparr>sig_info := i\<rparr>))"

definition Signature_getValue :: "signature \<Rightarrow> block result" where
  "Signature_getValue s = encode (sig_value s)"

definition Signature_setValue :: "signature \<Rightarrow> block \<Rightarrow> signature result" where
  "Signature_setValue s v =
     (if m_type v \<noteq> tlv_SignatureValue then Inl (SignatureError ''The supplied block is not SignatureValue'')
      else Inr (s\<lparr>sig_value := v\<rparr>))"

definition Signature_equals :: "signature \<Rightarrow> signature \<Rightarrow> bool result" where
  "Signature_equals s r =
     bindE (Signature_getInfo s) (\<lambda>i. bindE (Signature_getInfo r) (\<lambda>j. bindE (block_eq i j) (\<lambda>c.
       if \<not> c then Inr False
       else bindE (Signature_getValue s) (\<lambda>v. bindE (Signature_getValue r) (\<lambda>u. block_eq v u)))))"


section \<open>What is written and what is read\<close>

text \<open>The first other block must not look like a key locator when there is none.\<close>

definition si_ok :: "signature_info \<Rightarrow> bool" where
  "si_ok s \<longleftrightarrow> 0 \<le> si_type s \<and> si_type s < 2 ^ 31 \<and> (si_hasKeyLocator s \<longrightarrow> kl_ok (si_keyLocator s))
     \<and> list_all shortest (si_otherTlvs s) \<and> list_all (\<lambda>b. m_type b \<noteq> tlv_KeyLocator) (si_otherTlvs s)"

definition si_elems :: "signature_info \<Rightarrow> elem list" where
  "si_elems s = [(tlv_SignatureType, nni (word_of_int (si_type s)))]
     @ (if si_hasKeyLocator s then [kl_elem (si_keyLocator s)] else []) @ map elem_of (si_otherTlvs s)"

definition si_elem :: "signature_info \<Rightarrow> elem" where
  "si_elem s = (tlv_SignatureInfo, elems_bytes (si_elems s))"

definition si_same :: "signature_info \<Rightarrow> signature_info \<Rightarrow> bool" where
  "si_same s r \<longleftrightarrow> si_type r = si_type s \<and> si_hasKeyLocator r = si_hasKeyLocator s
     \<and> (si_hasKeyLocator s \<longrightarrow> kl_same (si_keyLocator s) (si_keyLocator r))
     \<and> map elem_of (si_otherTlvs r) = map elem_of (si_otherTlvs s)"

context prepender
begin

lemma writes_signature_info:
  assumes "si_ok s"
  shows "writes R (SignatureInfo_wireEncode T s) [si_elem s]"
proof -
  have "writes R (if si_hasKeyLocator s then KeyLocator_wireEncode T (si_keyLocator s) else skipE)
      (if si_hasKeyLocator s then [kl_elem (si_keyLocator s)] else [])"
    using assms by (intro writes_if writes_skip writes_key_locator) (simp add: si_ok_def)
  moreover have "writes R (prepend_blocks T (si_otherTlvs s)) (map elem_of (si_otherTlvs s))"
    using assms by (intro writes_blocks) (simp add: si_ok_def)
  ultimately show ?thesis unfolding SignatureInfo_wireEncode_def si_elem_def si_elems_def
    using writes_nni by (intro writes_header) (simp only: append_assoc [symmetric], intro writes_addE; assumption)
qed

end

lemma holds_elems: "list_all2 holds bs es \<Longrightarrow> map elem_of bs = es"
  by (induction rule: list_all2_induct) (simp_all add: holds_def)

lemma holds_signature_info:
  assumes "holds b (si_elem s)" and "si_ok s"
  shows "\<exists>r. SignatureInfo_of_block b = Inr r \<and> si_same s r \<and> hasWire (si_wire r) \<and> wire (si_wire r) = wire b
    \<and> elem_of (si_wire r) = si_elem s \<and> list_all2 holds (m_subBlocks (si_wire r)) (si_elems s)"
proof -
  let ?other = "map elem_of (si_otherTlvs s)"
  have b: "hasWire b" "m_type b = tlv_SignatureInfo" "elem_of b = si_elem s"
    using assms(1) holds_sel [of b tlv_SignatureInfo] by (simp_all add: si_elem_def holds_def)
  obtain bs where bs: "parsed b = Inr (set_subBlocks b bs)" "list_all2 holds bs (si_elems s)"
    using assms(1) holds_parsed unfolding si_elem_def by blast
  have "si_elems s = (tlv_SignatureType, nni (word_of_int (si_type s)))
      # (if si_hasKeyLocator s then [(tlv_KeyLocator, snd (kl_elem (si_keyLocator s)))] else []) @ ?other"
    by (simp add: si_elems_def kl_elem_def)
  then obtain v vs where v: "bs = v # vs" "holds v (tlv_SignatureType, nni (word_of_int (si_type s)))"
      "list_all2 holds vs ((if si_hasKeyLocator s then [(tlv_KeyLocator, snd (kl_elem (si_keyLocator s)))] else []) @ ?other)"
    using bs(2) by (auto simp: list_all2_Cons2)
  have other: "fst e \<noteq> tlv_KeyLocator" if "e \<in> set ?other" for e
    using assms(2) that by (auto simp: si_ok_def list_all_iff elem_of_def)
  obtain x cs where x: "next_field tlv_KeyLocator vs = (x, cs)" "list_all2 holds cs ?other"
      "if si_hasKeyLocator s then \<exists>b. x = Some b \<and> holds b (tlv_KeyLocator, snd (kl_elem (si_keyLocator s))) else x = None"
    using next_field_holds [OF v(3) other] by blast
  have t: "m_type v = tlv_SignatureType" "readNonNegativeInteger_block v = Inr (word_of_int (si_type s))"
      "sint (ucast (word_of_int (si_type s) :: 64 word) :: 32 word) = si_type s"
    using holds_sel [OF v(2)] holds_nni [OF v(2)] int32_small assms(2) by (simp_all add: si_ok_def)
  have d: "SignatureInfo_of_block b = (case x of
      None \<Rightarrow> Inr (SignatureInfo_new\<lparr>si_type := si_type s, si_hasKeyLocator := False, si_otherTlvs := cs, si_wire := set_subBlocks b bs\<rparr>)
    | Some k \<Rightarrow> bindE (KeyLocator_wireDecode KeyLocator_new k) (\<lambda>k. Inr (SignatureInfo_new\<lparr>si_type := si_type s,
        si_hasKeyLocator := True, si_keyLocator := k, si_otherTlvs := cs, si_wire := set_subBlocks b bs\<rparr>)))"
    using b bs(1) v(1) t x(1)
    by (cases x) (simp_all add: SignatureInfo_of_block_def SignatureInfo_wireDecode_def SignatureInfo_new_def)
  note cs = holds_elems [OF x(2)]
  show ?thesis
  proof (cases "si_hasKeyLocator s")
    case True
    then obtain k where "x = Some k" "holds k (kl_elem (si_keyLocator s))" using x(3) by (auto simp: kl_elem_def)
    then show ?thesis using True d b bs(2) cs holds_key_locator [of k "si_keyLocator s" KeyLocator_new] assms(2)
      by (auto simp: si_same_def si_ok_def)
  next
    case False
    then show ?thesis using d b bs(2) cs x(3) by (simp add: si_same_def)
  qed
qed

text \<open>The block of a signature's information, made now or earlier.\<close>

definition info_block_ok :: "signature_info \<Rightarrow> bool" where
  "info_block_ok s \<longleftrightarrow> si_ok s \<and> length (elems_bytes (si_elems s)) < 2 ^ 31
     \<and> (hasWire (si_wire s) \<longrightarrow> shortest (si_wire s) \<and> elem_of (si_wire s) = si_elem s)"

lemma info_block:
  assumes "info_block_ok s"
  shows "\<exists>i. SignatureInfo_wire s = Inr (s\<lparr>si_wire := i\<rparr>) \<and> shortest i \<and> elem_of i = si_elem s"
proof (cases "hasWire (si_wire s)")
  case True
  then show ?thesis using assms by (intro exI [of _ "si_wire s"]) (simp add: SignatureInfo_wire_def info_block_ok_def)
next
  case False
  have ok: "si_ok s" "length (elems_bytes (si_elems s)) < 2 ^ 63" using assms by (simp_all add: info_block_ok_def)
  obtain i where i: "make_block (SignatureInfo_wireEncode EstimatorTag s) (SignatureInfo_wireEncode EncoderTag s) = Inr i"
      "holds i (si_elem s)"
    using made_writes [OF est.writes_signature_info [OF ok(1), unfolded si_elem_def]
        enc_exact.writes_signature_info [OF ok(1), unfolded si_elem_def] ok(2)] by (auto simp: si_elem_def)
  have "length (tlv tlv_SignatureInfo (elems_bytes (si_elems s))) < 2 ^ 32"
    using assms tlv_length_le [of tlv_SignatureInfo "elems_bytes (si_elems s)"] by (simp add: info_block_ok_def)
  then have "shortest i" using i(2) holds_shortest by (simp add: si_elem_def)
  then show ?thesis using False i by (intro exI [of _ i]) (simp add: SignatureInfo_wire_def holds_def)
qed

end
