(* ===== verification/Data.thy ===== *)
theory Data
  imports Signature
begin

text \<open>
  \<open>data.cpp\<close> and \<open>data.hpp\<close> of ndn-cxx: the Data packet. The digest function is the parameter \<open>sha256\<close>. The
  getters that compute a block and keep it (\<open>getContent\<close>, \<open>getFullName\<close>) return what they keep.
\<close>

section \<open>The class\<close>

definition tlv_Data :: "32 word" where "tlv_Data = 6"
definition tlv_Content :: "32 word" where "tlv_Content = 21"

record data =
  d_name :: block
  d_metaInfo :: meta_info
  d_content :: block
  d_signature :: signature
  d_wire :: block
  d_fullName :: block

definition Data_new :: data where
  "Data_new = \<lparr>d_name = Name_new, d_metaInfo = MetaInfo_new, d_content = Block_type tlv_Content, d_signature = Signature_new,
     d_wire = Block_empty, d_fullName = Name_new\<rparr>"

definition Data_of_name :: "block \<Rightarrow> data" where
  "Data_of_name n = Data_new\<lparr>d_name := n, d_content := Block_empty\<rparr>"

definition onChanged :: "data \<Rightarrow> data" where
  "onChanged d = d\<lparr>d_wire := block_reset (d_wire d), d_fullName := Name_clear (d_fullName d)\<rparr>"

definition Data_setName :: "data \<Rightarrow> block \<Rightarrow> data" where
  "Data_setName d n = (onChanged d)\<lparr>d_name := n\<rparr>"

definition setMetaInfo :: "data \<Rightarrow> meta_info \<Rightarrow> data" where
  "setMetaInfo d m = (onChanged d)\<lparr>d_metaInfo := m\<rparr>"

definition setContentType :: "data \<Rightarrow> 32 word \<Rightarrow> data" where
  "setContentType d t = (onChanged d)\<lparr>d_metaInfo := MetaInfo_setType (d_metaInfo d) t\<rparr>"

definition setFreshnessPeriod :: "data \<Rightarrow> int \<Rightarrow> data" where
  "setFreshnessPeriod d f = (onChanged d)\<lparr>d_metaInfo := MetaInfo_setFreshnessPeriod (d_metaInfo d) f\<rparr>"

definition setFinalBlockId :: "data \<Rightarrow> block \<Rightarrow> data" where
  "setFinalBlockId d c = (onChanged d)\<lparr>d_metaInfo := MetaInfo_setFinalBlockId (d_metaInfo d) c\<rparr>"

definition getContent :: "data \<Rightarrow> block result" where
  "getContent d =
     bindE (if block_empty (d_content d) then makeEmptyBlock tlv_Content else Inr (d_content d)) (\<lambda>c.
       if \<not> hasWire c then encode c else Inr c)"

definition setContent_bytes :: "data \<Rightarrow> bytes \<Rightarrow> data result" where
  "setContent_bytes d v = bindE (makeBinaryBlock tlv_Content v) (\<lambda>c. Inr ((onChanged d)\<lparr>d_content := c\<rparr>))"

definition setContent_buffer :: "data \<Rightarrow> bytes \<Rightarrow> data" where
  "setContent_buffer d v = (onChanged d)\<lparr>d_content := Block_value tlv_Content v\<rparr>"

definition setContent_block :: "data \<Rightarrow> block \<Rightarrow> data result" where
  "setContent_block d c =
     bindE (if m_type c = tlv_Content then Inr c else Block_nested tlv_Content c) (\<lambda>c.
     Inr ((onChanged d)\<lparr>d_content := c\<rparr>))"

definition setSignature :: "data \<Rightarrow> signature \<Rightarrow> data" where
  "setSignature d s = (onChanged d)\<lparr>d_signature := s\<rparr>"

definition setSignatureValue :: "data \<Rightarrow> block \<Rightarrow> data result" where
  "setSignatureValue d v =
     bindE (Signature_setValue (d_signature d) v) (\<lambda>s. Inr ((onChanged d)\<lparr>d_signature := s\<rparr>))"


section \<open>Wire format\<close>

text \<open>The signed elements are all but the value of the signature.\<close>

definition Data_signed_portion :: "'e encoding_impl \<Rightarrow> data \<Rightarrow> 'e \<Rightarrow> (nat \<times> 'e) result" where
  "Data_signed_portion T d =
     addE (fromE (Signature_getInfo (d_signature d)) (prependBlock T))
     (addE (fromE (getContent d) (prependBlock T))
     (addE (MetaInfo_wireEncode T (d_metaInfo d)) (Name_wireEncode T (d_name d))))"

definition Data_wireEncode :: "'e encoding_impl \<Rightarrow> data \<Rightarrow> bool \<Rightarrow> 'e \<Rightarrow> (nat \<times> 'e) result" where
  "Data_wireEncode T d unsignedPortion =
     (if unsignedPortion then Data_signed_portion T d
      else if \<not> Signature_is_set (d_signature d)
      then (\<lambda>_. Inl (DataError ''Requested wire format, but data packet has not been signed yet''))
      else with_header T tlv_Data
        (addE (fromE (Signature_getValue (d_signature d)) (prependBlock T)) (Data_signed_portion T d)))"

definition decode_name :: "block \<Rightarrow> block \<Rightarrow> block result" where
  "decode_name n w = (case Name_wireDecode n w of (n, None) \<Rightarrow> Inr n | (n, Some e) \<Rightarrow> Inl e)"

definition Data_wireDecode :: "data \<Rightarrow> block \<Rightarrow> data result" where
  "Data_wireDecode d w =
     bindE (parsed w) (\<lambda>w.
     bindE (block_get w tlv_Name) (\<lambda>b. bindE (decode_name (d_name d) b) (\<lambda>n.
     bindE (block_get w tlv_MetaInfo) (\<lambda>b. bindE (MetaInfo_wireDecode (d_metaInfo d) b) (\<lambda>m.
     bindE (block_get w tlv_Content) (\<lambda>c.
     bindE (block_get w tlv_SignatureInfo) (\<lambda>b. bindE (Signature_setInfo (d_signature d) b) (\<lambda>s.
     bindE (case find_sub w tlv_SignatureValue of None \<Rightarrow> Inr s | Some val \<Rightarrow> Signature_setValue s val) (\<lambda>s.
     Inr \<lparr>d_name = n, d_metaInfo = m, d_content = c, d_signature = s, d_wire = w, d_fullName = Name_new\<rparr>)))))))))"

definition Data_of_block :: "block \<Rightarrow> data result" where
  "Data_of_block w = Data_wireDecode Data_new w"

definition Data_wire :: "data \<Rightarrow> data result" where
  "Data_wire d =
     (if hasWire (d_wire d) then Inr d
      else bindE (make_block (Data_wireEncode EstimatorTag d False) (Data_wireEncode EncoderTag d False)) (Data_wireDecode d))"

text \<open>What a key chain does once it has signed what is in the encoder.\<close>

definition Data_wire_signed :: "data \<Rightarrow> encoder \<Rightarrow> block \<Rightarrow> data result" where
  "Data_wire_signed d e signatureValue =
     (let totalLength = Encoder_size e in
      bindE (Encoder_appendBlock signatureValue e) (\<lambda>(n, e).
      bindE (Encoder_prependVarNumber (word_of_nat (totalLength + n)) e) (\<lambda>(_, e).
      bindE (Encoder_prependVarNumber (ucast tlv_Data) e) (\<lambda>(_, e).
      bindE (Encoder_block e True) (Data_wireDecode d)))))"

definition appendImplicitSha256Digest_buffer :: "block \<Rightarrow> bytes \<Rightarrow> block result" where
  "appendImplicitSha256Digest_buffer n digest = bindE (fromImplicitSha256Digest_buffer digest) (\<lambda>c. Inr (push_back n c))"

definition getFullName :: "(bytes \<Rightarrow> bytes) \<Rightarrow> data \<Rightarrow> block result" where
  "getFullName sha256 d =
     (if Name_empty (d_fullName d) then
        if \<not> hasWire (d_wire d)
        then Inl (DataError ''Full name requested, but Data packet does not have wire format (e.g., not signed)'')
        else bindE (wire (d_wire d)) (\<lambda>w. appendImplicitSha256Digest_buffer (d_name d) (sha256 w))
      else Inr (d_fullName d))"

definition Data_equals :: "data \<Rightarrow> data \<Rightarrow> bool result" where
  "Data_equals d r =
     bindE (Name_equals (d_name d) (d_name r)) (\<lambda>c. if \<not> c then Inr False
     else bindE (MetaInfo_equals (d_metaInfo d) (d_metaInfo r)) (\<lambda>c. if \<not> c then Inr False
     else bindE (getContent d) (\<lambda>x. bindE (getContent r) (\<lambda>y. bindE (block_eq x y) (\<lambda>c. if \<not> c then Inr False
     else Signature_equals (d_signature d) (d_signature r))))))"


section \<open>What is written and what is read\<close>

text \<open>A packet that is signed and whose parts are well-formed; its content as the encoding function gets it.\<close>

definition data_ok :: "data \<Rightarrow> block \<Rightarrow> block \<Rightarrow> bool" where
  "data_ok d c v \<longleftrightarrow> name_ok (d_name d) \<and> mi_ok (d_metaInfo d) \<and> info_block_ok (sig_info (d_signature d))
     \<and> getContent d = Inr c \<and> shortest c \<and> m_type c = tlv_Content
     \<and> Signature_getValue (d_signature d) = Inr v \<and> shortest v \<and> m_type v = tlv_SignatureValue"

definition data_elems :: "data \<Rightarrow> block \<Rightarrow> block \<Rightarrow> elem list" where
  "data_elems d c v = [name_elem (d_name d), mi_elem (d_metaInfo d), elem_of c, si_elem (sig_info (d_signature d)), elem_of v]"

definition data_elem :: "data \<Rightarrow> block \<Rightarrow> block \<Rightarrow> elem" where
  "data_elem d c v = (tlv_Data, elems_bytes (data_elems d c v))"

definition data_same :: "data \<Rightarrow> data \<Rightarrow> bool" where
  "data_same d r \<longleftrightarrow> name_keys (d_name r) = name_keys (d_name d) \<and> name_ok (d_name r) \<and> mi_same (d_metaInfo d) (d_metaInfo r)
     \<and> map_option block_value (case getContent d of Inr c \<Rightarrow> Some c | _ \<Rightarrow> None) = Some (block_value (d_content r))
     \<and> si_same (sig_info (d_signature d)) (sig_info (d_signature r))
     \<and> map_option block_value (case Signature_getValue (d_signature d) of Inr c \<Rightarrow> Some c | _ \<Rightarrow> None)
         = Some (block_value (sig_value (d_signature r)))"

context prepender
begin

lemma writes_data:
  assumes "data_ok d c v"
  shows "writes R (Data_wireEncode T d False) [data_elem d c v]"
proof -
  let ?s = "d_signature d"
  obtain i where i: "SignatureInfo_wire (sig_info ?s) = Inr ((sig_info ?s)\<lparr>si_wire := i\<rparr>)" "shortest i" "elem_of i = si_elem (sig_info ?s)"
    using info_block assms by (auto simp: data_ok_def)
  have "Signature_getInfo ?s = Inr i" using i(1) by (simp add: Signature_getInfo_def)
  then have info: "writes R (fromE (Signature_getInfo ?s) (prependBlock T)) [si_elem (sig_info ?s)]"
    using writes_from_block i(2,3) by metis
  have cont: "writes R (fromE (getContent d) (prependBlock T)) [elem_of c]"
    by (rule writes_from_block) (use assms in \<open>simp_all add: data_ok_def\<close>)
  have val: "writes R (fromE (Signature_getValue ?s) (prependBlock T)) [elem_of v]"
    by (rule writes_from_block) (use assms in \<open>simp_all add: data_ok_def\<close>)
  have meta: "writes R (MetaInfo_wireEncode T (d_metaInfo d)) [mi_elem (d_metaInfo d)]"
    and nm: "writes R (Name_wireEncode T (d_name d)) [name_elem (d_name d)]"
    using assms writes_meta_info writes_name by (simp_all add: data_ok_def)
  have set: "Signature_is_set ?s" using assms by (simp add: data_ok_def info_block_ok_def si_ok_def Signature_is_set_def)
  have "writes R (addE (fromE (Signature_getValue ?s) (prependBlock T)) (Data_signed_portion T d))
      (((([name_elem (d_name d)] @ [mi_elem (d_metaInfo d)]) @ [elem_of c]) @ [si_elem (sig_info ?s)]) @ [elem_of v])"
    unfolding Data_signed_portion_def by (intro writes_addE info cont val meta nm)
  then have "writes R (addE (fromE (Signature_getValue ?s) (prependBlock T)) (Data_signed_portion T d)) (data_elems d c v)"
    by (simp add: data_elems_def)
  then show ?thesis using set by (simp add: Data_wireEncode_def data_elem_def writes_header)
qed

end

lemmas data_types = tlv_Data_def tlv_Content_def tlv_Name_def tlv_MetaInfo_def tlv_SignatureInfo_def tlv_SignatureValue_def

lemma data_lookup:
  assumes "data_ok d c v"
  shows "map_of (data_elems d c v) tlv_Name = Some (snd (name_elem (d_name d)))"
    and "map_of (data_elems d c v) tlv_MetaInfo = Some (snd (mi_elem (d_metaInfo d)))"
    and "map_of (data_elems d c v) tlv_Content = Some (block_value c)"
    and "map_of (data_elems d c v) tlv_SignatureInfo = Some (snd (si_elem (sig_info (d_signature d))))"
    and "map_of (data_elems d c v) tlv_SignatureValue = Some (block_value v)"
  using assms by (simp_all add: data_elems_def data_ok_def data_types name_elem_def mi_elem_def elem_of_def si_elem_def)

lemma holds_data:
  assumes "holds b (data_elem d c v)" and "data_ok d c v"
  shows "\<exists>r bs. Data_wireDecode x b = Inr r \<and> data_same d r
    \<and> mi_appMetaInfo (d_metaInfo r) = mi_appMetaInfo (d_metaInfo x) @ bs
    \<and> list_all2 holds bs (map elem_of (mi_appMetaInfo (d_metaInfo d)))
    \<and> hasWire (d_wire r) \<and> wire (d_wire r) = wire b \<and> d_fullName r = Name_new
    \<and> hasWire (si_wire (sig_info (d_signature r)))
    \<and> list_all2 holds (m_subBlocks (si_wire (sig_info (d_signature r)))) (si_elems (sig_info (d_signature d)))"
proof -
  obtain bs where bs: "parsed b = Inr (set_subBlocks b bs)" "list_all2 holds bs (data_elems d c v)"
    using assms(1) holds_parsed unfolding data_elem_def by blast
  let ?w = "set_subBlocks b bs" and ?s = "sig_info (d_signature d)"
  have es: "list_all2 holds (m_subBlocks ?w) (data_elems d c v)" using bs(2) by simp
  note lk = data_lookup [OF assms(2)]
  have b: "hasWire b" using assms(1) holds_sel [of b tlv_Data] by (simp add: data_elem_def)
  obtain n1 n2 where n: "block_get ?w tlv_Name = Inr n1" "decode_name (d_name x) n1 = Inr n2" "name_keys n2 = name_keys (d_name d)"
      "name_ok n2"
    using block_get_holds [OF es lk(1)] holds_name [of _ "d_name d" "d_name x"] assms(2)
    by (fastforce simp: name_elem_def data_ok_def decode_name_def)
  obtain m1 m2 as where m: "block_get ?w tlv_MetaInfo = Inr m1" "MetaInfo_wireDecode (d_metaInfo x) m1 = Inr m2"
      "mi_same (d_metaInfo d) m2" "mi_appMetaInfo m2 = mi_appMetaInfo (d_metaInfo x) @ as"
      "list_all2 holds as (map elem_of (mi_appMetaInfo (d_metaInfo d)))"
    using block_get_holds [OF es lk(2)] holds_meta_info [of _ "d_metaInfo d" "d_metaInfo x"] assms(2)
    by (fastforce simp: mi_elem_def data_ok_def)
  obtain c1 where c: "block_get ?w tlv_Content = Inr c1" "holds c1 (tlv_Content, block_value c)"
    using block_get_holds [OF es lk(3)] by blast
  obtain i1 i2 where i: "block_get ?w tlv_SignatureInfo = Inr i1" "SignatureInfo_of_block i1 = Inr i2" "si_same ?s i2"
      "hasWire (si_wire i2)" "list_all2 holds (m_subBlocks (si_wire i2)) (si_elems ?s)"
    using block_get_holds [OF es lk(4)] holds_signature_info [of _ ?s] assms(2)
    by (fastforce simp: si_elem_def data_ok_def info_block_ok_def)
  obtain v1 where v: "find_sub ?w tlv_SignatureValue = Some v1" "holds v1 (tlv_SignatureValue, block_value v)"
    using find_sub_Some [OF es lk(5)] by blast
  let ?r = "\<lparr>d_name = n2, d_metaInfo = m2, d_content = c1,
      d_signature = (d_signature x)\<lparr>sig_info := i2, sig_value := v1\<rparr>, d_wire = ?w, d_fullName = Name_new\<rparr>"
  have "Data_wireDecode x b = Inr ?r"
    using bs(1) n(1,2) m(1,2) c(1) i(1,2) v holds_sel [OF v(2)]
    by (simp add: Data_wireDecode_def Signature_setInfo_def Signature_setValue_def)
  moreover have "data_same d ?r"
    using n m(3) i(3) holds_sel [OF c(2)] holds_sel [OF v(2)] assms(2) by (simp add: data_same_def data_ok_def)
  ultimately show ?thesis using m b i(4,5) by (intro exI [of _ ?r] exI [of _ as]) simp
qed

lemma Data_wire_made:
  assumes "data_ok d c v" and "\<not> hasWire (d_wire d)" and "length (elems_bytes (data_elems d c v)) < 2 ^ 63"
  shows "\<exists>b. Data_wire d = Data_wireDecode d b \<and> holds b (data_elem d c v)
    \<and> Block_buffer (tlv tlv_Data (elems_bytes (data_elems d c v))) = Inr b"
proof -
  obtain b where "make_block (Data_wireEncode EstimatorTag d False) (Data_wireEncode EncoderTag d False) = Inr b"
      "Block_buffer (tlv tlv_Data (elems_bytes (data_elems d c v))) = Inr b" "holds b (data_elem d c v)"
    using made_writes [OF est.writes_data [OF assms(1), unfolded data_elem_def]
        enc_exact.writes_data [OF assms(1), unfolded data_elem_def] assms(3)] by (auto simp: data_elem_def)
  then show ?thesis using assms(2) by (intro exI [of _ b]) (simp add: Data_wire_def)
qed

text \<open>
  C25. The wire format of a Data packet: a signed packet is encoded to one element over its name, meta
  information, content and signature, and a packet decoded from that element has the same fields.
\<close>

theorem Data_wire_roundtrip:
  assumes "data_ok d c v" and "\<not> hasWire (d_wire d)" and "length (elems_bytes (data_elems d c v)) < 2 ^ 63"
  shows "\<exists>r z. Data_wire d = Inr r \<and> wire (d_wire r) = Inr (tlv tlv_Data (elems_bytes (data_elems d c v))) \<and> data_same d r
    \<and> bindE (Block_buffer (tlv tlv_Data (elems_bytes (data_elems d c v)))) Data_of_block = Inr z \<and> data_same d z
    \<and> map elem_of (mi_appMetaInfo (d_metaInfo z)) = map elem_of (mi_appMetaInfo (d_metaInfo d))"
proof -
  obtain b where b: "Data_wire d = Data_wireDecode d b" "holds b (data_elem d c v)"
      "Block_buffer (tlv tlv_Data (elems_bytes (data_elems d c v))) = Inr b"
    using Data_wire_made [OF assms] by blast
  obtain r where r: "Data_wireDecode d b = Inr r" "data_same d r" "wire (d_wire r) = wire b"
    using holds_data [OF b(2) assms(1), of d] by blast
  obtain z bs where z: "Data_wireDecode Data_new b = Inr z" "data_same d z"
      "mi_appMetaInfo (d_metaInfo z) = mi_appMetaInfo (d_metaInfo Data_new) @ bs"
      "list_all2 holds bs (map elem_of (mi_appMetaInfo (d_metaInfo d)))"
    using holds_data [OF b(2) assms(1), of Data_new] by blast
  show ?thesis
    using b r z holds_elems [OF z(4)] by (simp add: Data_of_block_def Data_new_def MetaInfo_new_def holds_def data_elem_def)
qed

text \<open>Meta information with the same fields is written with the same elements.\<close>

lemma mi_same_elems:
  assumes "mi_same m r" and "mi_ok m"
  shows "\<exists>es. mi_elems m = es @ map elem_of (mi_appMetaInfo m) \<and> mi_elems r = es @ map elem_of (mi_appMetaInfo r)"
proof -
  have "Component_empty (mi_finalBlockId r) = Component_empty (mi_finalBlockId m)
      \<and> (\<not> Component_empty (mi_finalBlockId m) \<longrightarrow> elem_of (mi_finalBlockId r) = elem_of (mi_finalBlockId m))"
  proof (cases "Component_empty (mi_finalBlockId m)")
    case True
    then have "mi_finalBlockId r = Component_new" using assms(1) by (simp add: mi_same_def)
    then show ?thesis using True by simp
  next
    case False
    then have "canonical (mi_finalBlockId r)" "comp_key (mi_finalBlockId r) = comp_key (mi_finalBlockId m)" "comp_ok (mi_finalBlockId m)"
      using assms by (auto simp: mi_same_def mi_ok_def)
    then show ?thesis
      using False comp_ok_value [of "mi_finalBlockId r"] comp_ok_value [of "mi_finalBlockId m"]
      by (auto simp: canonical_def comp_key_def elem_of_def Component_empty_def)
  qed
  then show ?thesis using assms(1) by (auto simp: mi_elems_def mi_same_def milliseconds_min_def)
qed

text \<open>
  Encoding a packet decodes its own wire again, and decoding meta information adds to the list of the
  application's blocks without clearing it: afterwards the packet has each of them twice, and is
  different on the wire as soon as a setter makes it encode again.
\<close>

theorem Data_wire_doubles:
  assumes "data_ok d c v" and "\<not> hasWire (d_wire d)" and "length (elems_bytes (data_elems d c v)) < 2 ^ 63"
  shows "\<exists>r. Data_wire d = Inr r
    \<and> mi_elems (d_metaInfo r) = mi_elems (d_metaInfo d) @ map elem_of (mi_appMetaInfo (d_metaInfo d))"
proof -
  obtain b where b: "Data_wire d = Data_wireDecode d b" "holds b (data_elem d c v)"
    using Data_wire_made [OF assms] by blast
  obtain r bs where r: "Data_wireDecode d b = Inr r" "data_same d r"
      "mi_appMetaInfo (d_metaInfo r) = mi_appMetaInfo (d_metaInfo d) @ bs"
      "list_all2 holds bs (map elem_of (mi_appMetaInfo (d_metaInfo d)))"
    using holds_data [OF b(2) assms(1), of d] by blast
  have "mi_same (d_metaInfo d) (d_metaInfo r)" "mi_ok (d_metaInfo d)" using r(2) assms(1) by (simp_all add: data_same_def data_ok_def)
  from mi_same_elems [OF this] show ?thesis using b(1) r holds_elems [OF r(4)] by auto
qed


section \<open>A packet\<close>

definition demo_data :: "signature_info \<Rightarrow> block \<Rightarrow> block \<Rightarrow> block \<Rightarrow> data" where
  "demo_data s a c v = Data_new\<lparr>d_name := demo_name, d_metaInfo := MetaInfo_new\<lparr>mi_appMetaInfo := [a]\<rparr>, d_content := c,
     d_signature := \<lparr>sig_info = s, sig_value = v\<rparr>\<rparr>"

lemma demo_data_ok:
  assumes "info_block_ok s" and "length (elems_bytes (si_elems s)) < 2 ^ 31" and "holds a (128, [1])" and "holds c (tlv_Content, [72])" and "holds v (tlv_SignatureValue, [7])"
  shows "data_ok (demo_data s a c v) c v" and "length (elems_bytes (data_elems (demo_data s a c v) c v)) < 2 ^ 63"
    and "\<not> hasWire (d_wire (demo_data s a c v))"
    and "length (elems_bytes (data_elems (demo_data s a c v) c v)) \<le> length (elems_bytes (si_elems s)) + 1000"
proof -
  have s: "shortest a" "shortest c" "shortest v"
    using assms(3-5) by (auto intro!: holds_shortest le_less_trans [OF tlv_length_le])
  note h = holds_sel [OF assms(3)] holds_sel [OF assms(4)] holds_sel [OF assms(5)]
  have n: "length (elems_bytes (map elem_of (m_subBlocks demo_name))) \<le> 38"
    using elems_length_le [of "map elem_of (m_subBlocks demo_name)"]
    by (simp add: demo_name_def elem_of_def Block_value_def block_value_def range_of_def Let_def)
  have e: "\<not> block_empty c" "encode v = Inr v" using h by (simp_all add: block_empty_def encode_def tlv_Content_def NO_TYPE_def)
  show "data_ok (demo_data s a c v) c v"
    using s h e demo_name_ok assms(1)
    by (simp add: data_ok_def demo_data_def Data_new_def mi_ok_def MetaInfo_new_def app_type_def getContent_def
        Signature_getValue_def)
  have m: "length (elems_bytes (mi_elems (MetaInfo_new\<lparr>mi_appMetaInfo := [a]\<rparr>))) \<le> 19"
    using elems_length_le [of "mi_elems (MetaInfo_new\<lparr>mi_appMetaInfo := [a]\<rparr>)"] h
    by (simp add: mi_elems_def MetaInfo_new_def elem_of_def)
  show l: "length (elems_bytes (data_elems (demo_data s a c v) c v)) \<le> length (elems_bytes (si_elems s)) + 1000"
    using elems_length_le [of "data_elems (demo_data s a c v) c v"] n m h
    by (simp add: data_elems_def demo_data_def Data_new_def name_elem_def mi_elem_def si_elem_def elem_of_def)
  show "length (elems_bytes (data_elems (demo_data s a c v) c v)) < 2 ^ 63" using l assms(2) by simp
  show "\<not> hasWire (d_wire (demo_data s a c v))" by (simp add: demo_data_def Data_new_def)
qed

lemma demo_info_ok: "info_block_ok (SignatureInfo_of_type 0)" "length (elems_bytes (si_elems (SignatureInfo_of_type 0))) < 2 ^ 31"
  using elems_length_le [of "si_elems (SignatureInfo_of_type 0)"] nni_length_le [of 0]
  by (simp_all add: info_block_ok_def si_ok_def si_elems_def SignatureInfo_of_type_def SignatureInfo_new_def)

lemma demo_blocks: "\<exists>a c v. holds a (128, [1]) \<and> holds c (tlv_Content, [72]) \<and> holds v (tlv_SignatureValue, [7])"
  using Block_buffer_holds [of "[1]" 128] Block_buffer_holds [of "[72]" tlv_Content] Block_buffer_holds [of "[7]" tlv_SignatureValue]
  by auto

theorem Data_wire_doubles_witness:
  "\<exists>a c v r. Data_wire (demo_data (SignatureInfo_of_type 0) a c v) = Inr r
    \<and> mi_elems (d_metaInfo r) = mi_elems (d_metaInfo (demo_data (SignatureInfo_of_type 0) a c v)) @ [(128, [1])]"
proof -
  obtain a c v where acv: "holds a (128, [1])" "holds c (tlv_Content, [72])" "holds v (tlv_SignatureValue, [7])"
    using demo_blocks by blast
  note ok = demo_data_ok [OF demo_info_ok acv]
  have "map elem_of (mi_appMetaInfo (d_metaInfo (demo_data (SignatureInfo_of_type 0) a c v))) = [(128, [1])]"
    using acv(1) by (simp add: demo_data_def holds_def)
  then show ?thesis using Data_wire_doubles [OF ok(1,3,2)] by metis
qed

theorem Data_wire_roundtrip_witness:
  "\<exists>a c v r z w. Data_wire (demo_data (SignatureInfo_of_type 0) a c v) = Inr r \<and> wire (d_wire r) = Inr w \<and> data_same (demo_data (SignatureInfo_of_type 0) a c v) r
    \<and> bindE (Block_buffer w) Data_of_block = Inr z \<and> data_same (demo_data (SignatureInfo_of_type 0) a c v) z"
proof -
  obtain a c v where acv: "holds a (128, [1])" "holds c (tlv_Content, [72])" "holds v (tlv_SignatureValue, [7])"
    using demo_blocks by blast
  note ok = demo_data_ok [OF demo_info_ok acv]
  show ?thesis using Data_wire_roundtrip [OF ok(1,3,2)] by blast
qed

end
