(* ===== verification/NameOrder.thy ===== *)
theory NameOrder
  imports Elements
begin

text \<open>
  Names as keys of ordered containers: \<open>Name::compare\<close> fulfils the contract of a three-way comparison, on
  names whose components are in the shortest form.
\<close>

definition name_canon :: "block \<Rightarrow> bool" where
  "name_canon n \<longleftrightarrow> few n \<and> list_all canonical (m_subBlocks n)"

lemma name_canon_ok: "name_canon n \<Longrightarrow> name_ok n"
  by (auto simp: name_canon_def name_ok_def canonical_def list_all_iff)

lemma selected_all: "few n \<Longrightarrow> selected n 0 npos = m_subBlocks n"
proof -
  assume "few n"
  moreover have "unat npos = 2 ^ 64 - 1" by (simp add: npos_def unsigned_minus_1_eq_mask mask_eq_exp_minus_1)
  ultimately show ?thesis by (simp add: selected_def few_def)
qed

lemma Name_compare_run:
  "few n \<Longrightarrow> few m \<Longrightarrow> Name_compare n m = Inr (component.cmp_list (m_subBlocks n) (m_subBlocks m))"
  using Name_compare_at_run [of n m 0 0 npos npos] by (simp add: Name_compare_def selected_all)

definition name_cmp :: "block \<Rightarrow> block \<Rightarrow> int" where
  "name_cmp n m = component.cmp_list (m_subBlocks n) (m_subBlocks m)"

interpretation name: three_way name_cmp name_keys name_canon
  by unfold_locales (simp add: name_cmp_def name_keys_def name_canon_def component.sgn_cmp_list)

lemma Name_compare_cmp: "name_canon n \<Longrightarrow> name_canon m \<Longrightarrow> Name_compare n m = Inr (name_cmp n m)"
  by (simp add: Name_compare_run name_cmp_def name_canon_def)

lemma Name_equals_keys: "name_ok n \<Longrightarrow> name_ok m \<Longrightarrow> Name_equals n m = Inr (name_keys n = name_keys m)"
  by (simp add: Name_equals_run equal_keys name_ok_def name_keys_def)

end
