(* ===== verification/Link.thy ===== *)
theory Link
  imports Data NameOrder "HOL-Library.Product_Lexorder"
begin

text \<open>
  \<open>link.cpp\<close> of ndn-cxx: a Data packet whose content is a set of delegations, in the order of their preference
  and name. The set is the list of its elements in that order.
\<close>

section \<open>The class\<close>

definition tlv_LinkPreference :: "32 word" where "tlv_LinkPreference = 30"
definition tlv_LinkDelegation :: "32 word" where "tlv_LinkDelegation = 31"
definition ContentType_Link :: "32 word" where "ContentType_Link = 1"

type_synonym delegation = "32 word \<times> block"

record link =
  l_data :: data
  l_delegations :: "delegation list"

definition Link_new :: link where
  "Link_new = \<lparr>l_data = Data_new, l_delegations = []\<rparr>"

definition Link_of_name :: "block \<Rightarrow> link" where
  "Link_of_name n = \<lparr>l_data = Data_of_name n, l_delegations = []\<rparr>"

text \<open>\<open>operator<\<close> of pairs.\<close>

definition delegation_less :: "delegation \<Rightarrow> delegation \<Rightarrow> bool result" where
  "delegation_less a b =
     (if fst a < fst b then Inr True
      else if fst b < fst a then Inr False
      else bindE (Name_compare (snd a) (snd b)) (\<lambda>c. Inr (c < 0)))"

text \<open>\<open>std::set::insert\<close> keeps an equivalent element that is there.\<close>

fun set_insert :: "delegation \<Rightarrow> delegation list \<Rightarrow> delegation list result" where
  "set_insert d [] = Inr [d]"
| "set_insert d (x # xs) =
     bindE (delegation_less x d) (\<lambda>lt.
       if lt then bindE (set_insert d xs) (\<lambda>ys. Inr (x # ys))
       else bindE (delegation_less d x) (\<lambda>gt. Inr (if gt then d # x # xs else x # xs)))"

text \<open>The elements without those of a name, and whether there were any.\<close>

fun removeDelegationNoEncode :: "block \<Rightarrow> delegation list \<Rightarrow> (delegation list \<times> bool) result" where
  "removeDelegationNoEncode n [] = Inr ([], False)"
| "removeDelegationNoEncode n (x # xs) =
     bindE (Name_equals (snd x) n) (\<lambda>eq. bindE (removeDelegationNoEncode n xs) (\<lambda>(ys, hasRemoved).
       Inr (if eq then (ys, True) else (x # ys, hasRemoved))))"


section \<open>Content\<close>

definition prepend_delegation :: "'e encoding_impl \<Rightarrow> delegation \<Rightarrow> 'e \<Rightarrow> (nat \<times> 'e) result" where
  "prepend_delegation T d = with_header T tlv_LinkDelegation
     (addE (Name_wireEncode T (snd d)) (prependNonNegativeIntegerBlock T tlv_LinkPreference (ucast (fst d))))"

fun prepend_delegations :: "'e encoding_impl \<Rightarrow> delegation list \<Rightarrow> 'e \<Rightarrow> (nat \<times> 'e) result" where
  "prepend_delegations T [] = skipE"
| "prepend_delegations T (d # ds) = addE (prepend_delegations T ds) (prepend_delegation T d)"

definition encodeContent_to :: "'e encoding_impl \<Rightarrow> delegation list \<Rightarrow> 'e \<Rightarrow> (nat \<times> 'e) result" where
  "encodeContent_to T ds = with_header T tlv_Content (prepend_delegations T ds)"

definition encodeContent :: "link \<Rightarrow> link result" where
  "encodeContent l =
     bindE (make_block (encodeContent_to EstimatorTag (l_delegations l)) (encodeContent_to EncoderTag (l_delegations l))) (\<lambda>b.
     bindE (setContent_block (setContentType (onChanged (l_data l)) ContentType_Link) b) (\<lambda>d. Inr (l\<lparr>l_data := d\<rparr>)))"

definition Link_of_delegations :: "block \<Rightarrow> delegation list \<Rightarrow> link result" where
  "Link_of_delegations n links =
     bindE (foldE (\<lambda>ds d. set_insert d ds) [] links) (\<lambda>ds. encodeContent ((Link_of_name n)\<lparr>l_delegations := ds\<rparr>))"

definition addDelegation :: "link \<Rightarrow> 32 word \<Rightarrow> block \<Rightarrow> link result" where
  "addDelegation l preference n =
     bindE (removeDelegationNoEncode n (l_delegations l)) (\<lambda>(ds, _).
     bindE (set_insert (preference, n) ds) (\<lambda>ds. encodeContent (l\<lparr>l_delegations := ds\<rparr>)))"

definition removeDelegation :: "link \<Rightarrow> block \<Rightarrow> (link \<times> bool) result" where
  "removeDelegation l n =
     bindE (removeDelegationNoEncode n (l_delegations l)) (\<lambda>(ds, hasRemoved).
       if hasRemoved then bindE (encodeContent (l\<lparr>l_delegations := ds\<rparr>)) (\<lambda>l. Inr (l, True)) else Inr (l, False))"

definition decode_delegation :: "delegation list \<Rightarrow> block \<Rightarrow> delegation list result" where
  "decode_delegation ds d =
     bindE (parsed d) (\<lambda>d. case m_subBlocks d of
       [] \<Rightarrow> Inl (DataError ''Unexpected Link Encoding'')
     | p # rest \<Rightarrow>
         (case readNonNegativeInteger_block p of
            Inl (TlvError _) \<Rightarrow> Inl (DataError ''Missing Preference field in Link Encoding'')
          | Inl e \<Rightarrow> Inl e
          | Inr preference \<Rightarrow>
              (case rest of
                 [] \<Rightarrow> Inl (DataError ''Missing Name field in Link Encoding'')
               | n # _ \<Rightarrow> bindE (Name_of_block n) (\<lambda>n. set_insert (ucast preference, n) ds))))"

definition decodeContent :: "link \<Rightarrow> link result" where
  "decodeContent l =
     (if mi_type (d_metaInfo (l_data l)) \<noteq> ContentType_Link then Inl (DataError ''Expected Content Type Link'')
      else bindE (getContent (l_data l)) (\<lambda>c. bindE (parsed c) (\<lambda>c.
        bindE (foldE decode_delegation (l_delegations l) (m_subBlocks c)) (\<lambda>ds. Inr (l\<lparr>l_delegations := ds\<rparr>)))))"

definition Link_wireDecode :: "link \<Rightarrow> block \<Rightarrow> link result" where
  "Link_wireDecode l w = bindE (Data_wireDecode (l_data l) w) (\<lambda>d. decodeContent (l\<lparr>l_data := d\<rparr>))"

definition Link_of_block :: "block \<Rightarrow> link result" where
  "Link_of_block w = Link_wireDecode Link_new w"


section \<open>Looking into an encoded link\<close>

text \<open>The delegations of a packet, as blocks.\<close>

definition delegations_of_wire :: "block \<Rightarrow> block list result" where
  "delegations_of_wire b =
     bindE (parsed b) (\<lambda>b. bindE (block_get b tlv_Content) (\<lambda>c. bindE (parsed c) (\<lambda>c. Inr (m_subBlocks c))))"

definition getDelegationFromWire :: "block \<Rightarrow> nat \<Rightarrow> delegation result" where
  "getDelegationFromWire b index =
     bindE (delegations_of_wire b) (\<lambda>ds.
       if length ds \<le> index then Inl OutOfRange
       else bindE (parsed (ds ! index)) (\<lambda>d.
         if m_type d \<noteq> tlv_LinkDelegation then Inl (DataError ''Unexpected TLV-TYPE, expecting LinkDelegation'')
         else bindE (block_get d tlv_LinkPreference) (\<lambda>p. bindE (readNonNegativeInteger_block p) (\<lambda>preference.
           bindE (block_get d tlv_Name) (\<lambda>n. bindE (Name_of_block n) (\<lambda>n. Inr (ucast preference, n)))))))"

text \<open>\<open>None\<close> stands for \<open>INVALID_SELECTED_DELEGATION_INDEX\<close>.\<close>

fun find_delegation :: "block list \<Rightarrow> block \<Rightarrow> nat \<Rightarrow> nat option result" where
  "find_delegation [] n counter = Inr None"
| "find_delegation (d # ds) n counter =
     bindE (parsed d) (\<lambda>d.
       if m_type d \<noteq> tlv_LinkDelegation then Inl (DataError ''Unexpected TLV-TYPE, expecting LinkDelegation'')
       else bindE (block_get d tlv_Name) (\<lambda>b. bindE (Name_of_block b) (\<lambda>m. bindE (Name_equals m n) (\<lambda>eq.
         if eq then Inr (Some counter) else find_delegation ds n (counter + 1)))))"

definition findDelegationFromWire :: "block \<Rightarrow> block \<Rightarrow> nat option result" where
  "findDelegationFromWire b n = bindE (delegations_of_wire b) (\<lambda>ds. find_delegation ds n 0)"

definition countDelegationsFromWire :: "block \<Rightarrow> nat result" where
  "countDelegationsFromWire b = bindE (delegations_of_wire b) (\<lambda>ds. Inr (length ds))"


section \<open>The set of delegations\<close>

text \<open>A delegation is about its preference and the keys of its name.\<close>

definition dkey :: "delegation \<Rightarrow> nat \<times> comp_key list" where
  "dkey d = (unat (fst d), name_keys (snd d))"

definition dset_ok :: "delegation list \<Rightarrow> bool" where
  "dset_ok ds \<longleftrightarrow> sorted_wrt (\<lambda>a b. dkey a < dkey b) ds \<and> list_all (\<lambda>d. name_canon (snd d)) ds"

lemma dset_ok_simps [simp]: "dset_ok []"
  "dset_ok (d # ds) \<longleftrightarrow> name_canon (snd d) \<and> (\<forall>e \<in> set ds. dkey d < dkey e) \<and> dset_ok ds"
  by (auto simp: dset_ok_def)

lemma delegation_less_key:
  assumes "name_canon (snd a)" and "name_canon (snd b)"
  shows "delegation_less a b = Inr (dkey a < dkey b)"
  using Name_compare_cmp [OF assms] name.cmp_less [OF assms]
  by (auto simp: delegation_less_def dkey_def less_prod_def word_less_nat_alt word_le_nat_alt)

lemma set_insert_ok:
  assumes "dset_ok ds" and "name_canon (snd d)"
  shows "\<exists>es. set_insert d ds = Inr es \<and> dset_ok es \<and> dkey ` set es = insert (dkey d) (dkey ` set ds)"
  using assms
proof (induction ds)
  case (Cons x xs)
  then obtain ys where ys: "set_insert d xs = Inr ys" "dset_ok ys" "dkey ` set ys = insert (dkey d) (dkey ` set xs)" by auto
  have lt: "delegation_less x d = Inr (dkey x < dkey d)" "delegation_less d x = Inr (dkey d < dkey x)"
    using Cons.prems delegation_less_key by simp_all
  show ?case
  proof (cases "dkey x < dkey d")
    case True
    have "dkey x < dkey e" if e: "e \<in> set ys" for e
    proof -
      have "dkey e \<in> insert (dkey d) (dkey ` set xs)" using e unfolding ys(3) [symmetric] by simp
      then show ?thesis using True Cons.prems(1) by auto
    qed
    then have "dset_ok (x # ys)" using ys(2) Cons.prems(1) by simp
    moreover have "dkey ` set (x # ys) = insert (dkey d) (dkey ` set (x # xs))" using ys(3) by auto
    ultimately show ?thesis using lt True ys(1) by (intro exI [of _ "x # ys"]) simp
  next
    case False
    show ?thesis
    proof (cases "dkey d < dkey x")
      case True
      then have "dset_ok (d # x # xs)" using Cons.prems by (auto intro: less_trans)
      then show ?thesis using lt False True by (intro exI [of _ "d # x # xs"]) simp
    next
      case False': False
      then have "dkey d = dkey x" using False by simp
      then show ?thesis using lt False False' Cons.prems(1) by (intro exI [of _ "x # xs"]) simp
    qed
  qed
qed simp

lemma removeDelegation_ok:
  assumes "dset_ok ds" and "name_ok n"
  shows "\<exists>es r. removeDelegationNoEncode n ds = Inr (es, r) \<and> dset_ok es \<and> set es \<subseteq> set ds
    \<and> dkey ` set es = {k \<in> dkey ` set ds. snd k \<noteq> name_keys n} \<and> (r \<longleftrightarrow> (\<exists>d \<in> set ds. name_keys (snd d) = name_keys n))"
  using assms
proof (induction ds)
  case (Cons x xs)
  then obtain es r where IH: "removeDelegationNoEncode n xs = Inr (es, r)" "dset_ok es" "set es \<subseteq> set xs"
      "dkey ` set es = {k \<in> dkey ` set xs. snd k \<noteq> name_keys n}" "r \<longleftrightarrow> (\<exists>d \<in> set xs. name_keys (snd d) = name_keys n)"
    by auto
  have eq: "Name_equals (snd x) n = Inr (name_keys (snd x) = name_keys n)"
    using Cons.prems name_canon_ok Name_equals_keys by simp
  have k: "snd (dkey x) = name_keys (snd x)" by (simp add: dkey_def)
  show ?case
  proof (cases "name_keys (snd x) = name_keys n")
    case True
    then show ?thesis using eq IH k by (intro exI [of _ es] exI [of _ True]) auto
  next
    case False
    have "dset_ok (x # es)" using Cons.prems(1) IH(2,3) by auto
    then show ?thesis using False eq IH k by (intro exI [of _ "x # es"] exI [of _ r]) auto
  qed
qed (intro exI [of _ "[]"] exI [of _ False], simp)


section \<open>Encoding and decoding\<close>

definition delegation_elem :: "delegation \<Rightarrow> elem" where
  "delegation_elem d = (tlv_LinkDelegation, elems_bytes [(tlv_LinkPreference, nni (ucast (fst d))), name_elem (snd d)])"

context prepender
begin

lemma writes_delegation: "name_ok (snd d) \<Longrightarrow> writes R (prepend_delegation T d) [delegation_elem d]"
proof -
  assume n: "name_ok (snd d)"
  have "writes R (addE (Name_wireEncode T (snd d)) (prependNonNegativeIntegerBlock T tlv_LinkPreference (ucast (fst d))))
      ([(tlv_LinkPreference, nni (ucast (fst d)))] @ [name_elem (snd d)])"
    by (intro writes_addE writes_name writes_nni n)
  from writes_header [OF this] show ?thesis by (simp add: prepend_delegation_def delegation_elem_def)
qed

lemma writes_delegations:
  "list_all (\<lambda>d. name_ok (snd d)) ds \<Longrightarrow> writes R (prepend_delegations T ds) (map delegation_elem ds)"
proof (induction ds)
  case (Cons d ds)
  then have "writes R (addE (prepend_delegations T ds) (prepend_delegation T d)) ([delegation_elem d] @ map delegation_elem ds)"
    by (intro writes_addE writes_delegation) simp_all
  then show ?case by simp
qed (simp add: writes_skip)

lemma writes_content:
  "list_all (\<lambda>d. name_ok (snd d)) ds \<Longrightarrow>
    writes R (encodeContent_to T ds) [(tlv_Content, elems_bytes (map delegation_elem ds))]"
  unfolding encodeContent_to_def by (intro writes_header writes_delegations)

end

text \<open>The bytes of the content.\<close>

abbreviation dbytes :: "delegation list \<Rightarrow> bytes" where
  "dbytes ds \<equiv> elems_bytes (map delegation_elem ds)"

lemma dbytes_Cons: "length (dbytes (d # ds)) = length (dbytes [d]) + length (dbytes ds)"
  by (cases "delegation_elem d") simp

lemma set_insert_length: "set_insert d ds = Inr es \<Longrightarrow> length (dbytes es) \<le> length (dbytes [d]) + length (dbytes ds)"
proof (induction ds arbitrary: es)
  case (Cons x xs)
  from Cons.prems consider ys where "set_insert d xs = Inr ys" "es = x # ys" | "es = d # x # xs" | "es = x # xs"
    by (auto simp: bindE_Inr_conv split: if_splits)
  then show ?case
  proof cases
    case 1
    then show ?thesis using Cons.IH [OF 1(1)] dbytes_Cons [of x ys] dbytes_Cons [of x xs] by (simp only: 1(2))
  next
    case 2
    then show ?thesis using dbytes_Cons [of d "x # xs"] by (simp only: 2)
  qed simp
qed simp

lemma removeDelegation_length: "removeDelegationNoEncode n ds = Inr (es, r) \<Longrightarrow> length (dbytes es) \<le> length (dbytes ds)"
proof (induction ds arbitrary: es r)
  case (Cons x xs)
  from Cons.prems obtain ys q where ys: "removeDelegationNoEncode n xs = Inr (ys, q)" "es = ys \<or> es = x # ys"
    by (auto simp: bindE_Inr_conv split: if_splits)
  then show ?case using Cons.IH [OF ys(1)] dbytes_Cons [of x ys] dbytes_Cons [of x xs] by auto
qed simp

lemma encodeContent_run:
  assumes "dset_ok (l_delegations l)" and "length (dbytes (l_delegations l)) < 2 ^ 63"
  shows "\<exists>r. encodeContent l = Inr r \<and> l_delegations r = l_delegations l \<and> d_name (l_data r) = d_name (l_data l)
    \<and> mi_type (d_metaInfo (l_data r)) = ContentType_Link
    \<and> holds (d_content (l_data r)) (tlv_Content, dbytes (l_delegations l))"
proof -
  have ok: "list_all (\<lambda>d. name_ok (snd d)) (l_delegations l)"
    using assms(1) name_canon_ok by (auto simp: dset_ok_def list_all_iff)
  obtain c where c: "make_block (encodeContent_to EstimatorTag (l_delegations l)) (encodeContent_to EncoderTag (l_delegations l)) = Inr c"
      "holds c (tlv_Content, dbytes (l_delegations l))"
    using made_writes [OF est.writes_content [OF ok] enc_exact.writes_content [OF ok] assms(2)] by blast
  then show ?thesis using holds_sel [OF c(2)]
    by (simp add: encodeContent_def setContent_block_def onChanged_def setContentType_def MetaInfo_setType_def)
qed

text \<open>
  The delegations of a link: \<open>addDelegation\<close> replaces every delegation of the name by one with the new
  preference and keeps the others, and \<open>removeDelegation\<close> removes those of the name, telling whether
  there were any; the set stays in order, and the content of the packet is its encoding.
\<close>

theorem Link_delegations:
  assumes "dset_ok (l_delegations l)" and "name_canon n"
    and "length (dbytes [(p, n)]) + length (dbytes (l_delegations l)) < 2 ^ 63"
  shows "(\<exists>r. addDelegation l p n = Inr r \<and> dset_ok (l_delegations r)
      \<and> dkey ` set (l_delegations r)
        = insert (unat p, name_keys n) {k \<in> dkey ` set (l_delegations l). snd k \<noteq> name_keys n}
      \<and> block_value (d_content (l_data r)) = dbytes (l_delegations r))
    \<and> (\<exists>r. removeDelegation l n = Inr (r, \<exists>k \<in> dkey ` set (l_delegations l). snd k = name_keys n)
      \<and> dset_ok (l_delegations r)
      \<and> dkey ` set (l_delegations r) = {k \<in> dkey ` set (l_delegations l). snd k \<noteq> name_keys n})"
proof -
  have ok: "name_ok n" using assms(2) name_canon_ok by blast
  obtain ds c where ds: "removeDelegationNoEncode n (l_delegations l) = Inr (ds, c)" "dset_ok ds"
      "dkey ` set ds = {k \<in> dkey ` set (l_delegations l). snd k \<noteq> name_keys n}"
      "c \<longleftrightarrow> (\<exists>d \<in> set (l_delegations l). name_keys (snd d) = name_keys n)"
    using removeDelegation_ok [OF assms(1) ok] by blast
  obtain es where es: "set_insert (p, n) ds = Inr es" "dset_ok es" "dkey ` set es = insert (dkey (p, n)) (dkey ` set ds)"
    using set_insert_ok [OF ds(2), of "(p, n)"] assms(2) by auto
  have k: "dkey (p, n) = (unat p, name_keys n)" by (simp add: dkey_def)
  have small: "length (dbytes ds) < 2 ^ 63" "length (dbytes es) < 2 ^ 63"
    using removeDelegation_length [OF ds(1)] set_insert_length [OF es(1)] assms(3) by linarith+
  obtain r where r: "encodeContent (l\<lparr>l_delegations := es\<rparr>) = Inr r" "l_delegations r = es"
      "holds (d_content (l_data r)) (tlv_Content, dbytes es)"
    using encodeContent_run [of "l\<lparr>l_delegations := es\<rparr>"] es(2) small by auto
  have add: "addDelegation l p n = Inr r" using ds(1) es(1) r(1) by (simp add: addDelegation_def)
  obtain q where q: "encodeContent (l\<lparr>l_delegations := ds\<rparr>) = Inr q" "l_delegations q = ds"
    using encodeContent_run [of "l\<lparr>l_delegations := ds\<rparr>"] ds(2) small by auto
  have c: "c \<longleftrightarrow> (\<exists>k \<in> dkey ` set (l_delegations l). snd k = name_keys n)" using ds(4) by (auto simp: dkey_def)
  have "\<exists>r. removeDelegation l n = Inr (r, c) \<and> dset_ok (l_delegations r) \<and> dkey ` set (l_delegations r) = dkey ` set ds"
  proof (cases c)
    case True
    then show ?thesis using ds q by (intro exI [of _ q]) (simp add: removeDelegation_def)
  next
    case False
    then have "{k \<in> dkey ` set (l_delegations l). snd k \<noteq> name_keys n} = dkey ` set (l_delegations l)" using c by auto
    then show ?thesis using False ds assms(1) by (intro exI [of _ l]) (simp add: removeDelegation_def)
  qed
  then show ?thesis using add r es(2,3) k ds(3) c holds_sel [OF r(3)] by auto
qed

section \<open>Reading delegations\<close>

lemma holds_delegation:
  assumes "holds b (delegation_elem d)" and "name_ok (snd d)"
  shows "\<exists>p q m. parsed b = Inr (set_subBlocks b [p, q]) \<and> m_type b = tlv_LinkDelegation
    \<and> block_get (set_subBlocks b [p, q]) tlv_LinkPreference = Inr p \<and> block_get (set_subBlocks b [p, q]) tlv_Name = Inr q
    \<and> readNonNegativeInteger_block p = Inr (ucast (fst d)) \<and> Name_of_block q = Inr m
    \<and> name_keys m = name_keys (snd d) \<and> name_canon m"
proof -
  obtain bs where bs: "parsed b = Inr (set_subBlocks b bs)"
      "list_all2 holds bs [(tlv_LinkPreference, nni (ucast (fst d))), name_elem (snd d)]"
    using assms(1) holds_parsed unfolding delegation_elem_def by blast
  then obtain p q where pq: "bs = [p, q]" "holds p (tlv_LinkPreference, nni (ucast (fst d)))" "holds q (name_elem (snd d))"
    by (auto simp: list_all2_Cons2)
  have t: "m_type p = tlv_LinkPreference" "m_type q = tlv_Name" "m_type b = tlv_LinkDelegation"
    using holds_sel [OF pq(2)] holds_sel [of q tlv_Name] holds_sel [of b tlv_LinkDelegation] pq(3) assms(1)
    by (simp_all add: name_elem_def delegation_elem_def)
  obtain m where m: "Name_of_block q = Inr m" "name_keys m = name_keys (snd d)" "name_ok m" "list_all canonical (m_subBlocks m)"
    using holds_name [OF pq(3) assms(2)] by blast
  have "block_get (set_subBlocks b [p, q]) tlv_LinkPreference = Inr p" "block_get (set_subBlocks b [p, q]) tlv_Name = Inr q"
    using t by (simp_all add: block_get_def block_find_def tlv_LinkPreference_def tlv_Name_def)
  then show ?thesis using bs(1) pq(1) t(3) holds_nni [OF pq(2)] m by (auto simp: name_canon_def name_ok_def)
qed

lemma ucast_ucast_32: "ucast (ucast (w :: 32 word) :: 64 word) = w"
  by (simp add: word_uint_eq_iff unsigned_ucast_eq take_bit_int_eq_self)

lemma decode_delegation_run:
  assumes "holds b (delegation_elem d)" and "name_ok (snd d)"
  shows "\<exists>m. decode_delegation ds b = set_insert (fst d, m) ds \<and> name_keys m = name_keys (snd d) \<and> name_canon m"
  using holds_delegation [OF assms] by (auto simp: decode_delegation_def ucast_ucast_32)

lemma set_insert_end:
  "dset_ok ds \<Longrightarrow> name_canon (snd d) \<Longrightarrow> \<forall>x \<in> set ds. dkey x < dkey d \<Longrightarrow> set_insert d ds = Inr (ds @ [d])"
  by (induction ds) (simp_all add: delegation_less_key)

lemma dset_ok_append: "dset_ok (as @ bs) \<longleftrightarrow> dset_ok as \<and> dset_ok bs \<and> (\<forall>a \<in> set as. \<forall>b \<in> set bs. dkey a < dkey b)"
  by (auto simp: dset_ok_def sorted_wrt_append)

lemma decode_delegations_run:
  assumes "list_all2 holds bs (map delegation_elem ds)" and "dset_ok (acc @ ds)"
  shows "\<exists>es. foldE decode_delegation acc bs = Inr (acc @ es) \<and> map dkey es = map dkey ds"
  using assms
proof (induction ds arbitrary: bs acc)
  case (Cons d ds)
  then obtain b bs' where b: "bs = b # bs'" "holds b (delegation_elem d)" "list_all2 holds bs' (map delegation_elem ds)"
    by (auto simp: list_all2_Cons2)
  have ok: "dset_ok acc" "name_canon (snd d)" "\<forall>x \<in> set acc. dkey x < dkey d"
    using Cons.prems(2) by (simp_all add: dset_ok_append)
  obtain m where m: "decode_delegation acc b = set_insert (fst d, m) acc" "name_keys m = name_keys (snd d)" "name_canon m"
    using decode_delegation_run [OF b(2) name_canon_ok [OF ok(2)]] by blast
  have k: "dkey (fst d, m) = dkey d" using m(2) by (simp add: dkey_def)
  have step: "decode_delegation acc b = Inr (acc @ [(fst d, m)])"
    using m(1) set_insert_end [OF ok(1), of "(fst d, m)"] m(3) k ok(3) by simp
  have "dset_ok ((acc @ [(fst d, m)]) @ ds)"
    using Cons.prems(2) k m(3) by (simp add: dset_ok_append)
  from Cons.IH [OF b(3) this] obtain es where
    "foldE decode_delegation (acc @ [(fst d, m)]) bs' = Inr ((acc @ [(fst d, m)]) @ es)" "map dkey es = map dkey ds" by blast
  then show ?case using b(1) step k by (intro exI [of _ "(fst d, m) # es"]) simp
qed simp

text \<open>
  The content of a link is read back: from what \<open>encodeContent\<close> writes, \<open>decodeContent\<close> gives the same
  delegations in the same order, adding them to those the object has.
\<close>

theorem Link_content_roundtrip:
  assumes "dset_ok (l_delegations l)" and "length (dbytes (l_delegations l)) < 2 ^ 63"
  shows "\<exists>r q. encodeContent l = Inr r \<and> decodeContent (r\<lparr>l_delegations := []\<rparr>) = Inr q
    \<and> map dkey (l_delegations q) = map dkey (l_delegations l)"
proof -
  obtain r where r: "encodeContent l = Inr r" "mi_type (d_metaInfo (l_data r)) = ContentType_Link"
      "holds (d_content (l_data r)) (tlv_Content, dbytes (l_delegations l))"
    using encodeContent_run [OF assms] by blast
  have c: "getContent (l_data r) = Inr (d_content (l_data r))"
    using holds_sel [OF r(3)] by (simp add: getContent_def block_empty_def tlv_Content_def NO_TYPE_def)
  obtain bs where bs: "parsed (d_content (l_data r)) = Inr (set_subBlocks (d_content (l_data r)) bs)"
      "list_all2 holds bs (map delegation_elem (l_delegations l))"
    using holds_parsed [OF r(3)] by blast
  obtain es where "foldE decode_delegation [] bs = Inr ([] @ es)" "map dkey es = map dkey (l_delegations l)"
    using decode_delegations_run [OF bs(2), of "[]"] assms(1) by auto
  then show ?thesis using r(1,2) c bs(1)
    by (intro exI [of _ r] exI [of _ "r\<lparr>l_delegations := es\<rparr>"]) (simp add: decodeContent_def)
qed

lemma delegations_of_holds:
  assumes "holds b (t, elems_bytes es)" and "map_of es tlv_Content = Some (dbytes ds)"
  shows "\<exists>bs. delegations_of_wire b = Inr bs \<and> list_all2 holds bs (map delegation_elem ds)"
proof -
  obtain cs where cs: "parsed b = Inr (set_subBlocks b cs)" "list_all2 holds cs es" using holds_parsed [OF assms(1)] by blast
  obtain c where c: "block_get (set_subBlocks b cs) tlv_Content = Inr c" "holds c (tlv_Content, dbytes ds)"
    using block_get_holds [of "set_subBlocks b cs" es] cs(2) assms(2) by auto
  then show ?thesis using cs(1) holds_parsed [OF c(2)] by (auto simp: delegations_of_wire_def)
qed

lemma find_delegation_run:
  assumes "list_all2 holds bs (map delegation_elem ds)" and "list_all (\<lambda>d. name_ok (snd d)) ds" and "name_ok n"
  shows "find_delegation bs n k = Inr (if \<exists>d \<in> set ds. name_keys (snd d) = name_keys n
    then Some (k + length (takeWhile (\<lambda>d. name_keys (snd d) \<noteq> name_keys n) ds)) else None)"
  using assms(1,2)
proof (induction ds arbitrary: bs k)
  case (Cons d ds)
  then obtain b bs' where b: "bs = b # bs'" "holds b (delegation_elem d)" "list_all2 holds bs' (map delegation_elem ds)"
    by (auto simp: list_all2_Cons2)
  obtain p q m where "parsed b = Inr (set_subBlocks b [p, q])" "m_type b = tlv_LinkDelegation"
      "block_get (set_subBlocks b [p, q]) tlv_Name = Inr q" "Name_of_block q = Inr m"
      "name_keys m = name_keys (snd d)" "name_canon m"
    using holds_delegation [OF b(2)] Cons.prems(2) by auto
  moreover have "Name_equals m n = Inr (name_keys m = name_keys n)"
    using calculation name_canon_ok assms(3) Name_equals_keys by blast
  ultimately show ?case using b(1) Cons.IH [OF b(3)] Cons.prems(2) by simp
qed simp

text \<open>
  Looking a delegation up in an encoded link: \<open>findDelegationFromWire\<close> gives the first position of the
  name, or nothing exactly when the link does not have it, and \<open>getDelegationFromWire\<close> at a position gives
  that delegation and throws behind the last one.
\<close>

theorem Link_lookup:
  assumes "holds b (t, elems_bytes es)" and "map_of es tlv_Content = Some (dbytes ds)"
    and "list_all (\<lambda>d. name_ok (snd d)) ds" and "name_ok n"
  shows "countDelegationsFromWire b = Inr (length ds)
    \<and> findDelegationFromWire b n = Inr (if \<exists>d \<in> set ds. name_keys (snd d) = name_keys n
        then Some (length (takeWhile (\<lambda>d. name_keys (snd d) \<noteq> name_keys n) ds)) else None)
    \<and> (if i < length ds then \<exists>m. getDelegationFromWire b i = Inr (fst (ds ! i), m) \<and> name_keys m = name_keys (snd (ds ! i))
       else getDelegationFromWire b i = Inl OutOfRange)"
proof -
  obtain bs where bs: "delegations_of_wire b = Inr bs" "list_all2 holds bs (map delegation_elem ds)"
    using delegations_of_holds [OF assms(1,2)] by blast
  have len: "length bs = length ds" using list_all2_lengthD [OF bs(2)] by simp
  have "\<exists>m. getDelegationFromWire b i = Inr (fst (ds ! i), m) \<and> name_keys m = name_keys (snd (ds ! i))" if i: "i < length ds"
  proof -
    have "holds (bs ! i) (delegation_elem (ds ! i))" "name_ok (snd (ds ! i))"
      using bs(2) i len assms(3) by (auto simp: list_all2_conv_all_nth list_all_length)
    then obtain p q m where "parsed (bs ! i) = Inr (set_subBlocks (bs ! i) [p, q])" "m_type (bs ! i) = tlv_LinkDelegation"
        "block_get (set_subBlocks (bs ! i) [p, q]) tlv_LinkPreference = Inr p"
        "block_get (set_subBlocks (bs ! i) [p, q]) tlv_Name = Inr q"
        "readNonNegativeInteger_block p = Inr (ucast (fst (ds ! i)))" "Name_of_block q = Inr m"
        "name_keys m = name_keys (snd (ds ! i))"
      using holds_delegation by meson
    then show ?thesis using bs(1) i len by (simp add: getDelegationFromWire_def ucast_ucast_32)
  qed
  moreover have "getDelegationFromWire b i = Inl OutOfRange" if "\<not> i < length ds"
    using that bs(1) len by (simp add: getDelegationFromWire_def)
  ultimately show ?thesis using bs(1) len find_delegation_run [OF bs(2) assms(3,4), of 0]
    by (simp add: countDelegationsFromWire_def findDelegationFromWire_def)
qed

section \<open>A link\<close>

definition demo_link :: link where
  "demo_link = (Link_of_name demo_name)\<lparr>l_delegations := [(1, demo_name)]\<rparr>"

lemma demo_name_canon: "name_canon demo_name"
  using canonical_value [of "[97]"] canonical_value [of "[98]"] by (simp add: name_canon_def few_def demo_name_def)

lemma demo_link_ok: "dset_ok (l_delegations demo_link)"
  by (simp add: demo_link_def demo_name_canon)

lemma demo_dbytes: "length (dbytes [(p, demo_name)]) < 1000"
proof -
  have "length (elems_bytes (map elem_of (m_subBlocks demo_name))) \<le> 38"
    using elems_length_le [of "map elem_of (m_subBlocks demo_name)"]
    by (simp add: demo_name_def elem_of_def Block_value_def block_value_def range_of_def Let_def)
  then have "length (elems_bytes [(tlv_LinkPreference, nni (ucast p)), name_elem demo_name]) \<le> 82"
    using elems_length_le [of "[(tlv_LinkPreference, nni (ucast p)), name_elem demo_name]"] nni_length_le [of "ucast p"]
    by (simp add: name_elem_def)
  then show ?thesis using elems_length_le [of "[delegation_elem (p, demo_name)]"] by (simp add: delegation_elem_def)
qed

theorem Link_delegations_witness:
  "\<exists>r. addDelegation demo_link 2 demo_name = Inr r \<and> dkey ` set (l_delegations r) = {(2, name_keys demo_name)}"
proof -
  have "length (dbytes [(2, demo_name)]) + length (dbytes (l_delegations demo_link)) < 2 ^ 63"
    using demo_dbytes [of 2] demo_dbytes [of 1] by (simp add: demo_link_def)
  moreover have "{k \<in> dkey ` set (l_delegations demo_link). snd k \<noteq> name_keys demo_name} = {}"
    by (auto simp: demo_link_def dkey_def)
  moreover obtain r where "addDelegation demo_link 2 demo_name = Inr r" "dkey ` set (l_delegations r)
      = insert (unat (2 :: 32 word), name_keys demo_name) {k \<in> dkey ` set (l_delegations demo_link). snd k \<noteq> name_keys demo_name}"
    using Link_delegations [OF demo_link_ok demo_name_canon calculation(1)] by blast
  ultimately show ?thesis by (simp only:) simp
qed

theorem Link_content_roundtrip_witness:
  "\<exists>r q. encodeContent demo_link = Inr r \<and> decodeContent (r\<lparr>l_delegations := []\<rparr>) = Inr q
    \<and> map dkey (l_delegations q) = map dkey (l_delegations demo_link)"
  using Link_content_roundtrip [OF demo_link_ok] demo_dbytes [of 1] by (simp add: demo_link_def)

theorem Link_lookup_witness:
  "\<exists>b m. countDelegationsFromWire b = Inr 1 \<and> findDelegationFromWire b demo_name = Inr (Some 0)
    \<and> getDelegationFromWire b 0 = Inr (1, m) \<and> name_keys m = name_keys demo_name"
proof -
  let ?ds = "[(1, demo_name)]"
  let ?es = "[(tlv_Content, dbytes ?ds)]"
  have "length (elems_bytes ?es) < 2 ^ 63"
    using elems_length_le [of ?es] demo_dbytes [of 1] by simp
  then obtain b where b: "holds b (tlv_Data, elems_bytes ?es)" using Block_buffer_holds by blast
  have "map_of ?es tlv_Content = Some (dbytes ?ds)" "list_all (\<lambda>d. name_ok (snd d)) ?ds" using demo_name_ok by simp_all
  from Link_lookup [OF b this demo_name_ok, of 0] show ?thesis by auto
qed

end
