(* ===== verification/Interest.thy ===== *)
theory Interest
  imports Selectors Link
begin

text \<open>
  \<open>interest.cpp\<close> and \<open>interest.hpp\<close> of ndn-cxx: the Interest packet and what it matches. Random numbers are
  the stream \<open>rnd\<close>, and \<open>k\<close> is how many were drawn. The object that \<open>getLink\<close> keeps beside the block of the link
  is the one it makes from that block, so that it is not a field.
\<close>

section \<open>The class\<close>

definition tlv_Interest :: "32 word" where "tlv_Interest = 5"
definition tlv_Nonce :: "32 word" where "tlv_Nonce = 10"
definition tlv_InterestLifetime :: "32 word" where "tlv_InterestLifetime = 12"
definition tlv_SelectedDelegation :: "32 word" where "tlv_SelectedDelegation = 32"
definition DEFAULT_INTEREST_LIFETIME :: int where "DEFAULT_INTEREST_LIFETIME = 4000"

text \<open>The selected delegation is \<open>None\<close> for \<open>INVALID_SELECTED_DELEGATION_INDEX\<close>.\<close>

record interest =
  i_name :: block
  i_selectors :: selectors
  i_nonce :: block
  i_interestLifetime :: int
  i_link :: block
  i_selectedDelegation :: "nat option"
  i_wire :: block

definition Interest_new :: interest where
  "Interest_new = \<lparr>i_name = Name_new, i_selectors = Selectors_new, i_nonce = Block_empty, i_interestLifetime = milliseconds_min,
     i_link = Block_empty, i_selectedDelegation = None, i_wire = Block_empty\<rparr>"

definition Interest_of_name :: "block \<Rightarrow> interest" where
  "Interest_of_name n = Interest_new\<lparr>i_name := n\<rparr>"

definition Interest_of_lifetime :: "block \<Rightarrow> int \<Rightarrow> interest" where
  "Interest_of_lifetime n l = Interest_new\<lparr>i_name := n, i_interestLifetime := l\<rparr>"

definition reset_wire :: "interest \<Rightarrow> interest" where
  "reset_wire i = i\<lparr>i_wire := block_reset (i_wire i)\<rparr>"

definition Interest_setName :: "interest \<Rightarrow> block \<Rightarrow> interest" where
  "Interest_setName i n = reset_wire (i\<lparr>i_name := n\<rparr>)"

definition setInterestLifetime :: "interest \<Rightarrow> int \<Rightarrow> interest" where
  "setInterestLifetime i l = reset_wire (i\<lparr>i_interestLifetime := l\<rparr>)"

definition setSelectors :: "interest \<Rightarrow> selectors \<Rightarrow> interest" where
  "setSelectors i s = reset_wire (i\<lparr>i_selectors := s\<rparr>)"

definition Interest_setMinSuffixComponents :: "interest \<Rightarrow> int \<Rightarrow> interest" where
  "Interest_setMinSuffixComponents i n = reset_wire (i\<lparr>i_selectors := setMinSuffixComponents (i_selectors i) n\<rparr>)"

definition Interest_setMaxSuffixComponents :: "interest \<Rightarrow> int \<Rightarrow> interest" where
  "Interest_setMaxSuffixComponents i n = reset_wire (i\<lparr>i_selectors := setMaxSuffixComponents (i_selectors i) n\<rparr>)"

definition Interest_setPublisherPublicKeyLocator :: "interest \<Rightarrow> key_locator \<Rightarrow> interest" where
  "Interest_setPublisherPublicKeyLocator i k = reset_wire (i\<lparr>i_selectors := setPublisherPublicKeyLocator (i_selectors i) k\<rparr>)"

definition Interest_setExclude :: "interest \<Rightarrow> exclude \<Rightarrow> interest" where
  "Interest_setExclude i x = reset_wire (i\<lparr>i_selectors := setExclude (i_selectors i) x\<rparr>)"

definition Interest_setChildSelector :: "interest \<Rightarrow> int \<Rightarrow> interest" where
  "Interest_setChildSelector i n = reset_wire (i\<lparr>i_selectors := setChildSelector (i_selectors i) n\<rparr>)"

definition Interest_setMustBeFresh :: "interest \<Rightarrow> bool \<Rightarrow> interest" where
  "Interest_setMustBeFresh i b = reset_wire (i\<lparr>i_selectors := setMustBeFresh (i_selectors i) b\<rparr>)"


section \<open>The nonce\<close>

text \<open>The 32 bits in memory, the lowest byte first.\<close>

definition nonce_bytes :: "32 word \<Rightarrow> bytes" where
  "nonce_bytes n = rev (be_bytes 4 (unat n))"

definition nonce_of :: "bytes \<Rightarrow> 32 word" where
  "nonce_of bs = word_of_nat (be_val (rev bs))"

text \<open>Writing into the buffer that a block and the blocks inside it share.\<close>

fun patch :: "nat \<Rightarrow> bytes \<Rightarrow> block \<Rightarrow> block" where
  "patch pos v (Block buf t b e s vb ve subs) =
     Block (map_option (\<lambda>buf. take pos buf @ v @ drop (pos + length v) buf) buf) t b e s vb ve (map (patch pos v) subs)"

text \<open>An interest with a wire keeps its nonce inside of it: both are in one buffer.\<close>

definition setNonce :: "32 word \<Rightarrow> interest \<Rightarrow> interest result" where
  "setNonce nonce i =
     (if hasWire (i_wire i) \<and> value_size (i_nonce i) = 4 then
        let pos = m_value_begin (i_nonce i) in
        Inr (i\<lparr>i_nonce := patch pos (nonce_bytes nonce) (i_nonce i), i_wire := patch pos (nonce_bytes nonce) (i_wire i)\<rparr>)
      else bindE (makeBinaryBlock tlv_Nonce (nonce_bytes nonce)) (\<lambda>b. Inr (reset_wire (i\<lparr>i_nonce := b\<rparr>))))"

definition ensure_nonce :: "32 word \<Rightarrow> interest \<Rightarrow> interest result" where
  "ensure_nonce r i = (if \<not> hasWire (i_nonce i) then setNonce r i else Inr i)"

definition read_nonce :: "interest \<Rightarrow> 32 word result" where
  "read_nonce i =
     (if value_size (i_nonce i) = 4 then Inr (nonce_of (block_value (i_nonce i)))
      else bindE (readNonNegativeInteger_block (i_nonce i)) (\<lambda>n. Inr (ucast n)))"

text \<open>The nonce, and the interest that has it from then on.\<close>

definition getNonce :: "32 word \<Rightarrow> interest \<Rightarrow> (32 word \<times> interest) result" where
  "getNonce r i = bindE (ensure_nonce r i) (\<lambda>i. bindE (read_nonce i) (\<lambda>n. Inr (n, i)))"

text \<open>Drawing until the number differs may go on forever.\<close>

partial_function (option) draw_other :: "(nat \<Rightarrow> 32 word) \<Rightarrow> 32 word \<Rightarrow> nat \<Rightarrow> (32 word \<times> nat) option" where
  "draw_other rnd oldNonce k =
     (if rnd k = oldNonce then draw_other rnd oldNonce (k + 1) else Some (rnd k, k + 1))"

definition refreshNonce :: "(nat \<Rightarrow> 32 word) \<Rightarrow> nat \<Rightarrow> interest \<Rightarrow> (interest \<times> nat) run" where
  "refreshNonce rnd k i =
     (if \<not> hasWire (i_nonce i) then Some (Inr (i, k))
      else bindO (Some (read_nonce i)) (\<lambda>oldNonce.
        case draw_other rnd oldNonce k of
          None \<Rightarrow> None
        | Some (newNonce, k) \<Rightarrow> bindO (Some (setNonce newNonce i)) (\<lambda>i. Some (Inr (i, k)))))"


section \<open>Matching\<close>

definition matchesName :: "interest \<Rightarrow> block \<Rightarrow> bool result" where
  "matchesName i n =
     (if Name_size n < Name_size (i_name i) then Inr False
      else bindE (isPrefixOf (i_name i) n) (\<lambda>pre. if \<not> pre then Inr False
      else let s = i_selectors i in
      if minSuffixComponents s \<ge> 0 \<and> \<not> Name_size n - Name_size (i_name i) \<ge> word_of_int (minSuffixComponents s) then Inr False
      else if maxSuffixComponents s \<ge> 0 \<and> \<not> Name_size n - Name_size (i_name i) \<le> word_of_int (maxSuffixComponents s) then Inr False
      else if \<not> Exclude_empty (sel_exclude s) \<and> Name_size n > Name_size (i_name i) then
        bindE (Name_get n (Name_size (i_name i))) (\<lambda>c. Inr (\<not> isExcluded (sel_exclude s) c))
      else Inr True))"

definition matches_prefix :: "(bytes \<Rightarrow> bytes) \<Rightarrow> interest \<Rightarrow> data \<Rightarrow> bool result" where
  "matches_prefix sha256 i d =
     (if Name_size (i_name i) = Name_size (d_name d) + 1 then
        bindE (Name_get (i_name i) (- 1)) (\<lambda>c.
          if isImplicitSha256Digest c then bindE (getFullName sha256 d) (\<lambda>f. Name_equals (i_name i) f)
          else Inr False)
      else isPrefixOf (i_name i) (d_name d))"

definition not_excluded :: "(bytes \<Rightarrow> bytes) \<Rightarrow> interest \<Rightarrow> data \<Rightarrow> bool result" where
  "not_excluded sha256 i d =
     (let interestNameLength = Name_size (i_name i); fullNameLength = Name_size (d_name d) + 1;
        x = sel_exclude (i_selectors i) in
      if \<not> Exclude_empty x \<and> fullNameLength > interestNameLength then
        if interestNameLength = fullNameLength - 1 then
          bindE (getFullName sha256 d) (\<lambda>f. bindE (Name_get f interestNameLength) (\<lambda>c. Inr (\<not> isExcluded x c)))
        else bindE (Name_get (d_name d) interestNameLength) (\<lambda>c. Inr (\<not> isExcluded x c))
      else Inr True)"

definition matches_locator :: "interest \<Rightarrow> data \<Rightarrow> bool result" where
  "matches_locator i d =
     (let k = publisherPublicKeyLocator (i_selectors i) in
      if KeyLocator_empty k then Inr True
      else bindE (Signature_getInfo (d_signature d)) (\<lambda>signatureInfo.
        case find_sub signatureInfo tlv_KeyLocator of
          None \<Rightarrow> Inr False
        | Some it \<Rightarrow> bindE (KeyLocator_wire k) (\<lambda>k. block_eq (kl_wire k) it)))"

definition matchesData :: "(bytes \<Rightarrow> bytes) \<Rightarrow> interest \<Rightarrow> data \<Rightarrow> bool result" where
  "matchesData sha256 i d =
     (let interestNameLength = Name_size (i_name i); fullNameLength = Name_size (d_name d) + 1; s = i_selectors i;
        minSuffix = (if minSuffixComponents s \<ge> 0 then word_of_int (minSuffixComponents s) else 0) in
      if \<not> interestNameLength + minSuffix \<le> fullNameLength then Inr False
      else if maxSuffixComponents s \<ge> 0 \<and> \<not> interestNameLength + word_of_int (maxSuffixComponents s) \<ge> fullNameLength
      then Inr False
      else bindE (matches_prefix sha256 i d) (\<lambda>p. if \<not> p then Inr False
      else bindE (not_excluded sha256 i d) (\<lambda>x. if \<not> x then Inr False
      else matches_locator i d)))"

definition matchesInterest :: "interest \<Rightarrow> interest \<Rightarrow> bool result" where
  "matchesInterest i j =
     bindE (Name_equals (i_name i) (i_name j)) (\<lambda>c.
       if \<not> c then Inr False else Selectors_equals (i_selectors i) (i_selectors j))"


section \<open>Links\<close>

definition hasLink :: "interest \<Rightarrow> bool" where
  "hasLink i \<longleftrightarrow> hasWire (i_link i)"

definition getLink :: "interest \<Rightarrow> link result" where
  "getLink i = (if hasLink i then Link_of_block (i_link i) else Inl (InterestError ''There is no encapsulated link object''))"

definition unsetSelectedDelegation :: "interest \<Rightarrow> interest" where
  "unsetSelectedDelegation i = reset_wire (i\<lparr>i_selectedDelegation := None\<rparr>)"

text \<open>The interest after the call, and the exception it threw.\<close>

definition setLink :: "interest \<Rightarrow> block \<Rightarrow> interest \<times> exn option" where
  "setLink i l =
     (let i = i\<lparr>i_link := l\<rparr> in
      if \<not> hasWire l then (i, Some (InterestError ''The given link does not have a wire format''))
      else (unsetSelectedDelegation (reset_wire i), None))"

definition unsetLink :: "interest \<Rightarrow> interest" where
  "unsetLink i = unsetSelectedDelegation (reset_wire (i\<lparr>i_link := block_reset (i_link i)\<rparr>))"

definition hasSelectedDelegation :: "interest \<Rightarrow> bool" where
  "hasSelectedDelegation i \<longleftrightarrow> i_selectedDelegation i \<noteq> None"

definition getSelectedDelegation :: "interest \<Rightarrow> block result" where
  "getSelectedDelegation i = (case i_selectedDelegation i of
     None \<Rightarrow> Inl (InterestError ''There is no encapsulated selected delegation'')
   | Some k \<Rightarrow> bindE (getDelegationFromWire (i_link i) k) (\<lambda>d. Inr (snd d)))"

definition setSelectedDelegation :: "interest \<Rightarrow> block \<Rightarrow> interest result" where
  "setSelectedDelegation i n = bindE (findDelegationFromWire (i_link i) n) (\<lambda>k. case k of
     None \<Rightarrow> Inl (InvalidArgument ''Invalid selected delegation name'')
   | Some k \<Rightarrow> Inr (reset_wire (i\<lparr>i_selectedDelegation := Some k\<rparr>)))"

definition setSelectedDelegation_index :: "interest \<Rightarrow> nat \<Rightarrow> interest result" where
  "setSelectedDelegation_index i k = bindE (Link_of_block (i_link i)) (\<lambda>l.
     if length (l_delegations l) \<le> k then Inl (InterestError ''Invalid selected delegation index'')
     else Inr (reset_wire (i\<lparr>i_selectedDelegation := Some k\<rparr>)))"


section \<open>Wire format\<close>

definition Interest_wireEncode :: "'e encoding_impl \<Rightarrow> interest \<Rightarrow> 'e \<Rightarrow> (nat \<times> 'e) result" where
  "Interest_wireEncode T i = with_header T tlv_Interest
     (addE (if hasLink i then
          addE (case i_selectedDelegation i of None \<Rightarrow> skipE
            | Some k \<Rightarrow> prependNonNegativeIntegerBlock T tlv_SelectedDelegation (word_of_nat k))
            (prependBlock T (i_link i))
        else if hasSelectedDelegation i then (\<lambda>_. Inl AssertionFailed) else skipE)
     (addE (if i_interestLifetime i \<ge> 0 \<and> i_interestLifetime i \<noteq> DEFAULT_INTEREST_LIFETIME
        then prependNonNegativeIntegerBlock T tlv_InterestLifetime (word_of_int (i_interestLifetime i)) else skipE)
     (addE (prependBlock T (i_nonce i))
     (addE (if \<not> Selectors_empty (i_selectors i) then Selectors_wireEncode T (i_selectors i) else skipE)
       (Name_wireEncode T (i_name i))))))"

definition Interest_wireDecode :: "interest \<Rightarrow> block \<Rightarrow> interest result" where
  "Interest_wireDecode i w =
     bindE (parsed w) (\<lambda>w.
     if m_type w \<noteq> tlv_Interest then Inl (InterestError ''Unexpected TLV number when decoding Interest'')
     else bindE (block_get w tlv_Name) (\<lambda>b. bindE (decode_name (i_name i) b) (\<lambda>n.
     bindE (case find_sub w tlv_Selectors of None \<Rightarrow> Inr Selectors_new | Some val \<Rightarrow> Selectors_of_block val) (\<lambda>s.
     bindE (block_get w tlv_Nonce) (\<lambda>nonce.
     bindE (case find_sub w tlv_InterestLifetime of None \<Rightarrow> Inr DEFAULT_INTEREST_LIFETIME
       | Some val \<Rightarrow> bindE (readNonNegativeInteger_block val) (\<lambda>n. Inr (sint n))) (\<lambda>lifetime.
     let l = (case find_sub w tlv_Data of None \<Rightarrow> Block_empty | Some val \<Rightarrow> val) in
     bindE (case find_sub w tlv_SelectedDelegation of None \<Rightarrow> Inr None
       | Some val \<Rightarrow>
           if \<not> hasWire l then Inl (InterestError ''Interest contains SelectedDelegation, but no LINK object'')
           else bindE (readNonNegativeInteger_block val) (\<lambda>k. bindE (countDelegationsFromWire l) (\<lambda>c.
             if unat k < c then Inr (Some (unat k))
             else Inl (InterestError ''Invalid selected delegation index when decoding Interest'')))) (\<lambda>k.
     Inr \<lparr>i_name = n, i_selectors = s, i_nonce = nonce, i_interestLifetime = lifetime, i_link = l,
          i_selectedDelegation = k, i_wire = w\<rparr>)))))))"

definition Interest_of_block :: "block \<Rightarrow> interest result" where
  "Interest_of_block w = Interest_wireDecode Interest_new w"

definition Interest_wire :: "32 word \<Rightarrow> interest \<Rightarrow> interest result" where
  "Interest_wire r i =
     (if hasWire (i_wire i) then Inr i
      else bindE (getNonce r i) (\<lambda>(_, i).
        bindE (make_block (Interest_wireEncode EstimatorTag i) (Interest_wireEncode EncoderTag i)) (Interest_wireDecode i)))"

definition Interest_equals :: "interest \<Rightarrow> interest \<Rightarrow> 32 word \<Rightarrow> 32 word \<Rightarrow> bool result" where
  "Interest_equals i j r r' =
     bindE (Interest_wire r i) (\<lambda>i. bindE (Interest_wire r' j) (\<lambda>j. block_eq (i_wire i) (i_wire j)))"

text \<open>The URI: the parameters that are present, the first one behind a question mark.\<close>

definition Interest_params :: "interest \<Rightarrow> bytes list result" where
  "Interest_params i =
     (let s = i_selectors i in
      bindE (if hasWire (i_nonce i) then bindE (read_nonce i) (\<lambda>n. Inr [str ''ndn.Nonce='' @ str (dec (unat n))]) else Inr []) (\<lambda>nonce.
      Inr ((if minSuffixComponents s \<ge> 0 then [str ''ndn.MinSuffixComponents='' @ str (dec (nat (minSuffixComponents s)))] else [])
        @ (if maxSuffixComponents s \<ge> 0 then [str ''ndn.MaxSuffixComponents='' @ str (dec (nat (maxSuffixComponents s)))] else [])
        @ (if childSelector s \<ge> 0 then [str ''ndn.ChildSelector='' @ str (dec (nat (childSelector s)))] else [])
        @ (if mustBeFresh s then [str ''ndn.MustBeFresh=1''] else [])
        @ (if i_interestLifetime i \<ge> 0 \<and> i_interestLifetime i \<noteq> DEFAULT_INTEREST_LIFETIME
           then [str ''ndn.InterestLifetime='' @ str (dec (nat (i_interestLifetime i)))] else [])
        @ nonce
        @ (if \<not> Exclude_empty (sel_exclude s) then [str ''ndn.Exclude='' @ Exclude_toUri (sel_exclude s)] else []))))"

fun delimited :: "byte \<Rightarrow> bytes list \<Rightarrow> bytes" where
  "delimited c [] = []"
| "delimited c (p # ps) = c # p @ delimited 38 ps"

definition Interest_toUri :: "interest \<Rightarrow> bytes result" where
  "Interest_toUri i = bindE (Interest_params i) (\<lambda>ps. Inr (Name_toUri (i_name i) @ delimited 63 ps))"

end
