(* ===== verification/InterestMatch.thy ===== *)
theory InterestMatch
  imports Interest "HOL-Library.Sublist"
begin

text \<open>
  What an Interest matches. The specification is about the keys of names: a name matches when the name of
  the Interest is a prefix, the number of components behind it is in the limits, and the component behind
  it is not excluded. Data is matched by its full name, the name with the digest of the packet at the end.
\<close>

section \<open>Specification\<close>

definition name_matches :: "interest \<Rightarrow> comp_key list \<Rightarrow> bool" where
  "name_matches i ks \<longleftrightarrow> (let s = i_selectors i; ps = name_keys (i_name i); n = length ks - length ps in
     prefix ps ks
     \<and> (minSuffixComponents s \<ge> 0 \<longrightarrow> nat (minSuffixComponents s) \<le> n)
     \<and> (maxSuffixComponents s \<ge> 0 \<longrightarrow> n \<le> nat (maxSuffixComponents s))
     \<and> (n > 0 \<longrightarrow> ks ! length ps \<notin> excluded_set (sel_exclude s)))"

text \<open>An Interest whose name and selectors are well-formed.\<close>

definition interest_ok :: "interest \<Rightarrow> bool" where
  "interest_ok i \<longleftrightarrow> name_ok (i_name i) \<and> sel_ok (i_selectors i)"

lemma name_keys_length [simp]: "length (name_keys n) = length (m_subBlocks n)"
  by (simp add: name_keys_def)

lemma prefix_take: "prefix xs ys \<longleftrightarrow> xs = take (length xs) ys"
  by (metis append_eq_conv_conj prefix_def)

lemma isPrefixOf_prefix: "name_ok n \<Longrightarrow> name_ok m \<Longrightarrow> isPrefixOf n m = Inr (prefix (name_keys n) (name_keys m))"
proof -
  assume ok: "name_ok n" "name_ok m"
  have "list_all comp_ok (take k (m_subBlocks m))" for k using ok(2) by (auto simp: name_ok_def list_all_iff dest: in_set_takeD)
  then have "list_all2 Component_equals (m_subBlocks n) (take (length (m_subBlocks n)) (m_subBlocks m))
      \<longleftrightarrow> name_keys n = take (length (name_keys n)) (name_keys m)"
    using equal_keys ok(1) by (simp add: name_ok_def name_keys_def take_map)
  then show ?thesis using isPrefixOf_run ok by (simp add: name_ok_def prefix_take)
qed

lemma Name_get_at:
  "k < 2 ^ 63 \<Longrightarrow> k < length (m_subBlocks n) \<Longrightarrow> Name_get n (word_of_nat k) = Inr (m_subBlocks n ! k)"
  by (simp add: Name_get_def Let_def unat_small)

lemma Name_size_nat: "Name_size n = word_of_nat (length (m_subBlocks n))"
  by (simp add: Name_size_def)

lemma unat_suffix: "int_ok k \<Longrightarrow> 0 \<le> k \<Longrightarrow> unat (word_of_int k :: 64 word) = nat k"
  by (cases k) (auto simp: int_ok_def unat_of_nat)

text \<open>The component of a name at a position, excluded or not.\<close>

lemma excluded_at:
  assumes "name_canon n" and "exclude_ok x" and "k < length (m_subBlocks n)"
  shows "isExcluded x (m_subBlocks n ! k) \<longleftrightarrow> name_keys n ! k \<in> excluded_set x"
  using isExcluded_covered [of x "m_subBlocks n ! k"] assms
  by (auto simp: name_canon_def exclude_ok_def excluded_set_def name_keys_def list_all_length)

lemma Exclude_empty_set: "Exclude_empty x \<Longrightarrow> excluded_set x = {}"
  by (simp add: Exclude_empty_def excluded_set_def)

lemma matchesName_run:
  assumes "interest_ok i" and "name_canon n"
  shows "matchesName i n = Inr (name_matches i (name_keys n))"
proof -
  let ?s = "i_selectors i" and ?a = "length (m_subBlocks (i_name i))" and ?b = "length (m_subBlocks n)"
  have few: "few (i_name i)" "few n" and ok: "name_ok (i_name i)" "name_ok n"
    using assms name_canon_ok by (auto simp: interest_ok_def name_ok_def name_canon_def)
  have len: "?a < 2 ^ 31" "?b < 2 ^ 31" using few by (simp_all add: few_def)
  have ints: "int_ok (minSuffixComponents ?s)" "int_ok (maxSuffixComponents ?s)" "exclude_ok (sel_exclude ?s)"
    using assms(1) by (simp_all add: interest_ok_def sel_ok_def)
  have lt: "(Name_size n < Name_size (i_name i)) = (?b < ?a)" "(Name_size (i_name i) < Name_size n) = (?a < ?b)"
    using Name_size_less few by auto
  have pre: "isPrefixOf (i_name i) n = Inr (prefix (name_keys (i_name i)) (name_keys n))" using isPrefixOf_prefix ok by blast
  show ?thesis
  proof (cases "?a \<le> ?b \<and> prefix (name_keys (i_name i)) (name_keys n)")
    case True
    have sub: "unat (Name_size n - Name_size (i_name i)) = ?b - ?a"
      using True few by (simp add: unat_sub word_le_nat_alt)
    have get: "?a < ?b \<Longrightarrow> Name_get n (Name_size (i_name i)) = Inr (m_subBlocks n ! ?a)"
      using Name_get_at [of ?a n] len by (simp add: Name_size_nat)
    have exc: "?a < ?b \<Longrightarrow> isExcluded (sel_exclude ?s) (m_subBlocks n ! ?a) \<longleftrightarrow> name_keys n ! ?a \<in> excluded_set (sel_exclude ?s)"
      using excluded_at assms(2) ints(3) by blast
    have mn: "0 \<le> minSuffixComponents ?s \<Longrightarrow>
        (word_of_int (minSuffixComponents ?s) \<le> Name_size n - Name_size (i_name i)) = (nat (minSuffixComponents ?s) \<le> ?b - ?a)"
      using unat_suffix [OF ints(1)] sub by (simp add: word_le_nat_alt)
    have mx: "0 \<le> maxSuffixComponents ?s \<Longrightarrow>
        (Name_size n - Name_size (i_name i) \<le> word_of_int (maxSuffixComponents ?s)) = (?b - ?a \<le> nat (maxSuffixComponents ?s))"
      using unat_suffix [OF ints(2)] sub by (simp add: word_le_nat_alt)
    have le: "\<not> ?b < ?a" using True by simp
    have "matchesName i n = Inr (\<not> (minSuffixComponents ?s \<ge> 0 \<and> \<not> nat (minSuffixComponents ?s) \<le> ?b - ?a)
        \<and> \<not> (maxSuffixComponents ?s \<ge> 0 \<and> \<not> ?b - ?a \<le> nat (maxSuffixComponents ?s))
        \<and> (?a < ?b \<longrightarrow> name_keys n ! ?a \<notin> excluded_set (sel_exclude ?s)))"
      using True pre get exc Exclude_empty_set [of "sel_exclude ?s"]
      by (simp add: matchesName_def Let_def lt le mn mx cong: conj_cong)
    then show ?thesis using True by (auto simp: name_matches_def Let_def)
  next
    case False
    then have "matchesName i n = Inr False" using lt pre by (auto simp: matchesName_def)
    moreover have "\<not> prefix (name_keys (i_name i)) (name_keys n)" using False prefix_length_le by fastforce
    ultimately show ?thesis by (simp add: name_matches_def Let_def)
  qed
qed

text \<open>
  C27. \<open>matchesName\<close> decides the specification: it returns for every well-formed Interest and name, and says
  yes exactly when the name of the Interest is a prefix, the suffix has an allowed length, and its first
  component is not excluded.
\<close>

theorem matchesName_spec:
  assumes "interest_ok i" and "name_canon n"
  shows "matchesName i n = Inr (name_matches i (name_keys n))"
  using matchesName_run [OF assms] .

definition demo_interest :: interest where
  "demo_interest = (Interest_of_name demo_name)\<lparr>i_selectors := demo_selectors\<lparr>publisherPublicKeyLocator := KeyLocator_new\<rparr>\<rparr>"

lemma demo_interest_ok: "interest_ok demo_interest"
  using demo_name_ok demo_selectors_ok by (simp add: interest_ok_def demo_interest_def Interest_of_name_def sel_ok_def)

text \<open>The demo asks for one more component at least, so that its own name does not match.\<close>

theorem matchesName_spec_witness: "matchesName demo_interest demo_name = Inr False"
  using matchesName_spec [OF demo_interest_ok demo_name_canon]
  by (simp add: name_matches_def demo_interest_def Interest_of_name_def demo_selectors_def Selectors_new_def)


section \<open>Data\<close>

definition digest_key :: "bytes \<Rightarrow> comp_key" where
  "digest_key v = Key tlv_ImplicitSha256DigestComponent v"

text \<open>A packet with a wire; a full name that was computed before is the right one.\<close>

definition packet_ok :: "(bytes \<Rightarrow> bytes) \<Rightarrow> data \<Rightarrow> bytes \<Rightarrow> bool" where
  "packet_ok sha256 d w \<longleftrightarrow> name_canon (d_name d) \<and> length (m_subBlocks (d_name d)) + 1 < 2 ^ 31
     \<and> hasWire (d_wire d) \<and> wire (d_wire d) = Inr w \<and> length (sha256 w) = 32
     \<and> (Name_empty (d_fullName d) \<or> name_canon (d_fullName d)
          \<and> name_keys (d_fullName d) = name_keys (d_name d) @ [digest_key (sha256 w)])"

lemma digest_component:
  assumes "length v = 32"
  shows "\<exists>c. fromImplicitSha256Digest_buffer v = Inr c \<and> canonical c \<and> comp_key c = digest_key v"
proof -
  let ?c = "Block_value tlv_ImplicitSha256DigestComponent v"
  have f: "m_type ?c = tlv_ImplicitSha256DigestComponent" "block_value ?c = v" "value_size ?c = 32" "\<not> hasWire ?c"
    using assms by (simp_all add: Block_value_def block_value_def range_of_def value_size_def hasValue_def hasWire_def Let_def)
  have "block_ok ?c" using assms by (intro Block_value_ok) (simp add: fits_def)
  then have "canonical ?c" "comp_key ?c = digest_key v"
    using f by (simp_all add: canonical_def comp_ok_def isImplicitSha256Digest_def SHA256_DIGEST_SIZE_def comp_key_def digest_key_def)
  moreover have "Component_of_block ?c = Inr ?c"
    using f by (simp add: Component_of_block_def isImplicitSha256Digest_def SHA256_DIGEST_SIZE_def)
  ultimately show ?thesis using assms by (simp add: fromImplicitSha256Digest_buffer_def SHA256_DIGEST_SIZE_def)
qed

lemma getFullName_run:
  assumes "packet_ok sha256 d w"
  shows "\<exists>f. getFullName sha256 d = Inr f \<and> name_canon f \<and> name_keys f = name_keys (d_name d) @ [digest_key (sha256 w)]"
proof (cases "Name_empty (d_fullName d)")
  case True
  obtain c where c: "fromImplicitSha256Digest_buffer (sha256 w) = Inr c" "canonical c" "comp_key c = digest_key (sha256 w)"
    using digest_component assms by (auto simp: packet_ok_def)
  let ?f = "push_back (d_name d) c"
  have "m_subBlocks ?f = m_subBlocks (d_name d) @ [c]" by (simp add: push_back_def)
  then have "name_canon ?f" "name_keys ?f = name_keys (d_name d) @ [digest_key (sha256 w)]"
    using assms c(2,3) by (simp_all add: packet_ok_def name_canon_def few_def name_keys_def)
  then show ?thesis using True assms c(1) by (simp add: getFullName_def packet_ok_def appendImplicitSha256Digest_buffer_def)
next
  case False
  then show ?thesis using assms by (simp add: getFullName_def packet_ok_def)
qed

lemma matches_prefix_run:
  assumes "interest_ok i" and "packet_ok sha256 d w" and "length (m_subBlocks (i_name i)) \<le> length (m_subBlocks (d_name d)) + 1"
  shows "matches_prefix sha256 i d = Inr (prefix (name_keys (i_name i)) (name_keys (d_name d) @ [digest_key (sha256 w)]))"
proof -
  let ?n = "i_name i" and ?m = "d_name d"
  let ?a = "length (m_subBlocks ?n)" and ?b = "length (m_subBlocks ?m)"
  have ok: "name_ok ?n" "name_canon ?m" "?b + 1 < 2 ^ 31" using assms(1,2) by (simp_all add: interest_ok_def packet_ok_def)
  have a: "?a < 2 ^ 31" using ok(1) by (simp add: name_ok_def few_def)
  have eq: "Name_size ?n = Name_size ?m + 1 \<longleftrightarrow> ?a = ?b + 1"
  proof -
    have "unat (Name_size ?m + 1) = ?b + 1" using ok(3) by (simp add: Name_size_nat unat_word_ariths unat_of_nat)
    moreover have "unat (Name_size ?n) = ?a" using a by (simp add: Name_size_nat unat_of_nat)
    ultimately show ?thesis by (metis word_unat_eq_iff)
  qed
  show ?thesis
  proof (cases "?a = ?b + 1")
    case True
    let ?c = "last (m_subBlocks ?n)"
    have ne: "m_subBlocks ?n \<noteq> []" using True by auto
    have "unat (Name_size ?n + - 1) = ?a - 1"
      using True a by (simp add: Name_size_nat unat_sub_if' unat_of_nat word_le_nat_alt)
    then have get: "Name_get ?n (- 1) = Inr ?c"
      using True by (simp add: Name_get_def Let_def last_conv_nth ne)
    have c: "comp_ok ?c" using ok(1) ne by (simp add: name_ok_def list_all_iff)
    obtain f where f: "getFullName sha256 d = Inr f" "name_canon f" "name_keys f = name_keys ?m @ [digest_key (sha256 w)]"
      using getFullName_run [OF assms(2)] by blast
    have pre: "prefix (name_keys ?n) (name_keys ?m @ [digest_key (sha256 w)]) \<longleftrightarrow> name_keys ?n = name_keys f"
      using True f(3) by (simp add: prefix_take)
    have last: "name_keys ?n = name_keys f \<Longrightarrow> comp_key ?c = digest_key (sha256 w)"
      using f(3) ne by (metis last_map last_snoc name_keys_def)
    show ?thesis
    proof (cases "isImplicitSha256Digest ?c")
      case True': True
      then show ?thesis using True eq get f(1) pre Name_equals_keys [OF ok(1) name_canon_ok [OF f(2)]]
        by (simp add: matches_prefix_def)
    next
      case False
      have "comp_key ?c \<noteq> digest_key (sha256 w)"
      proof
        assume "comp_key ?c = digest_key (sha256 w)"
        then have "m_type ?c = tlv_ImplicitSha256DigestComponent" by (simp add: comp_key_def digest_key_def)
        then show False using False c
          by (auto simp: comp_ok_def isGeneric_def tlv_NameComponent_def tlv_ImplicitSha256DigestComponent_def)
      qed
      then show ?thesis using True eq get pre last False by (auto simp: matches_prefix_def)
    qed
  next
    case False
    then have le: "?a \<le> ?b" using assms(3) by simp
    have "prefix (name_keys ?n) (name_keys ?m @ [digest_key (sha256 w)]) \<longleftrightarrow> prefix (name_keys ?n) (name_keys ?m)"
      using le by (simp add: prefix_take)
    then show ?thesis using False eq isPrefixOf_prefix [OF ok(1) name_canon_ok [OF ok(2)]] by (simp add: matches_prefix_def)
  qed
qed

lemma name_size_full: "length (m_subBlocks n) + 1 < 2 ^ 31 \<Longrightarrow> unat (Name_size n + 1) = length (m_subBlocks n) + 1"
  by (simp add: Name_size_nat unat_word_ariths unat_of_nat)

lemma not_excluded_run:
  assumes "interest_ok i" and "packet_ok sha256 d w"
  shows "not_excluded sha256 i d = Inr (length (m_subBlocks (i_name i)) \<le> length (m_subBlocks (d_name d))
    \<longrightarrow> (name_keys (d_name d) @ [digest_key (sha256 w)]) ! length (m_subBlocks (i_name i))
      \<notin> excluded_set (sel_exclude (i_selectors i)))"
proof -
  let ?x = "sel_exclude (i_selectors i)" and ?ks = "name_keys (d_name d) @ [digest_key (sha256 w)]"
  let ?a = "length (m_subBlocks (i_name i))" and ?b = "length (m_subBlocks (d_name d))"
  have x: "exclude_ok ?x" and a: "few (i_name i)" "?a < 2 ^ 31"
    using assms(1) by (simp_all add: interest_ok_def sel_ok_def name_ok_def few_def)
  have d: "name_canon (d_name d)" "?b + 1 < 2 ^ 31" using assms(2) by (simp_all add: packet_ok_def)
  have ua: "unat (Name_size (i_name i)) = ?a" using a by simp
  have ub: "unat (Name_size (d_name d) + 1) = ?b + 1" using name_size_full d(2) by blast
  have gt: "(Name_size (i_name i) < Name_size (d_name d) + 1) = (?a \<le> ?b)"
    by (simp only: word_less_nat_alt ua ub) auto
  have eq: "(Name_size (i_name i) = Name_size (d_name d) + 1 - 1) = (?a = ?b)"
    using ua d(2) by (auto simp: word_unat_eq_iff Name_size_nat unat_of_nat)
  show ?thesis
  proof (cases "\<not> Exclude_empty ?x \<and> ?a \<le> ?b")
    case False
    then show ?thesis using Exclude_empty_set [of ?x] gt by (auto simp: not_excluded_def Let_def)
  next
    case True
    show ?thesis
    proof (cases "?a = ?b")
      case True': True
      obtain f where f: "getFullName sha256 d = Inr f" "name_canon f" "name_keys f = ?ks"
        using getFullName_run [OF assms(2)] by blast
      have len: "length (m_subBlocks f) = ?b + 1" using arg_cong [OF f(3), of length] by simp
      then have "Name_get f (Name_size (i_name i)) = Inr (m_subBlocks f ! ?a)"
        using Name_get_at [of ?a f] True' a by (simp add: Name_size_nat)
      moreover have "isExcluded ?x (m_subBlocks f ! ?a) \<longleftrightarrow> ?ks ! ?a \<in> excluded_set ?x"
        using excluded_at [OF f(2) x, of ?a] len True' f(3) by simp
      ultimately show ?thesis using True True' gt eq f(1) by (simp add: not_excluded_def Let_def)
    next
      case False
      then have lt: "?a < ?b" using True by simp
      then have "Name_get (d_name d) (Name_size (i_name i)) = Inr (m_subBlocks (d_name d) ! ?a)"
        using Name_get_at [of ?a "d_name d"] a by (simp add: Name_size_nat)
      moreover have "isExcluded ?x (m_subBlocks (d_name d) ! ?a) \<longleftrightarrow> ?ks ! ?a \<in> excluded_set ?x"
        using excluded_at [OF d(1) x lt] lt by (simp add: nth_append)
      ultimately show ?thesis using True False gt eq by (simp add: not_excluded_def Let_def)
    qed
  qed
qed

lemma matchesData_run:
  assumes "interest_ok i" and "packet_ok sha256 d w"
  shows "matchesData sha256 i d = (if name_matches i (name_keys (d_name d) @ [digest_key (sha256 w)])
    then matches_locator i d else Inr False)"
proof -
  let ?s = "i_selectors i" and ?ks = "name_keys (d_name d) @ [digest_key (sha256 w)]"
  let ?a = "length (m_subBlocks (i_name i))" and ?b = "length (m_subBlocks (d_name d))"
  let ?min = "if minSuffixComponents ?s \<ge> 0 then nat (minSuffixComponents ?s) else 0"
  have ints: "int_ok (minSuffixComponents ?s)" "int_ok (maxSuffixComponents ?s)" and a: "few (i_name i)" "?a < 2 ^ 31"
    using assms(1) by (simp_all add: interest_ok_def sel_ok_def name_ok_def few_def)
  have d: "?b + 1 < 2 ^ 31" using assms(2) by (simp add: packet_ok_def)
  have ub: "unat (Name_size (d_name d) + 1) = ?b + 1" using name_size_full [OF d] .
  have add: "unat (Name_size (i_name i) + word_of_int k) = ?a + nat k" if "int_ok k" "0 \<le> k" for k
    using that a(2) unat_suffix [OF that] by (subst unat_word_ariths) (simp add: int_ok_def a(1) nat_less_iff)
  have ms: "(Name_size (i_name i) + (if minSuffixComponents ?s \<ge> 0 then word_of_int (minSuffixComponents ?s) else 0)
      \<le> Name_size (d_name d) + 1) = (?a + ?min \<le> ?b + 1)"
    using add [OF ints(1)] ub a(1) by (simp add: word_le_nat_alt)
  have mx: "(Name_size (d_name d) + 1 \<le> Name_size (i_name i) + word_of_int (maxSuffixComponents ?s))
      = (?b + 1 \<le> ?a + nat (maxSuffixComponents ?s))" if "maxSuffixComponents ?s \<ge> 0"
    using add [OF ints(2) that] ub by (simp add: word_le_nat_alt)
  have nm: "name_matches i ?ks \<longleftrightarrow> prefix (name_keys (i_name i)) ?ks \<and> ?a + ?min \<le> ?b + 1
      \<and> (maxSuffixComponents ?s \<ge> 0 \<longrightarrow> ?b + 1 \<le> ?a + nat (maxSuffixComponents ?s))
      \<and> (?a \<le> ?b \<longrightarrow> ?ks ! ?a \<notin> excluded_set (sel_exclude ?s))"
  proof (cases "?a \<le> ?b + 1")
    case True
    then show ?thesis by (auto simp: name_matches_def Let_def)
  next
    case False
    then have "\<not> prefix (name_keys (i_name i)) ?ks" using prefix_length_le by fastforce
    then show ?thesis by (simp add: name_matches_def Let_def)
  qed
  show ?thesis
  proof (cases "?a + ?min \<le> ?b + 1 \<and> (maxSuffixComponents ?s \<ge> 0 \<longrightarrow> ?b + 1 \<le> ?a + nat (maxSuffixComponents ?s))")
    case False
    then show ?thesis using nm ms mx by (auto simp: matchesData_def Let_def)
  next
    case True
    then have le: "?a \<le> ?b + 1" by linarith
    have "matchesData sha256 i d = bindE (matches_prefix sha256 i d) (\<lambda>p. if \<not> p then Inr False
        else bindE (not_excluded sha256 i d) (\<lambda>x. if \<not> x then Inr False else matches_locator i d))"
      using True ms mx by (cases "maxSuffixComponents ?s \<ge> 0") (simp_all add: matchesData_def Let_def)
    then show ?thesis using True nm matches_prefix_run [OF assms le] not_excluded_run [OF assms] by simp
  qed
qed

text \<open>
  C26. \<open>matchesData\<close>, which avoids computing the digest of the packet where it can, is \<open>matchesName\<close> on the
  full name of the packet followed by the check of the key locator.
\<close>

theorem matchesData_full_name:
  assumes "interest_ok i" and "packet_ok sha256 d w"
  shows "matchesData sha256 i d
    = bindE (getFullName sha256 d) (\<lambda>f. bindE (matchesName i f) (\<lambda>m. if m then matches_locator i d else Inr False))"
proof -
  obtain f where f: "getFullName sha256 d = Inr f" "name_canon f" "name_keys f = name_keys (d_name d) @ [digest_key (sha256 w)]"
    using getFullName_run [OF assms(2)] by blast
  then show ?thesis using matchesData_run [OF assms] matchesName_run [OF assms(1) f(2)] by simp
qed

lemma demo_packet: "\<exists>b. packet_ok (\<lambda>_. replicate 32 7) (Data_new\<lparr>d_name := demo_name, d_wire := b\<rparr>) (tlv tlv_Data [])"
proof -
  obtain b where b: "holds b (tlv_Data, [])" using Block_buffer_holds [of "[]" tlv_Data] by auto
  have "length (m_subBlocks demo_name) + 1 < 2 ^ 31" by (simp add: demo_name_def)
  moreover have "Name_empty Name_new" by (simp add: Name_empty_def Name_new_def Block_type_def)
  ultimately show ?thesis using b holds_sel [OF b] demo_name_canon by (auto simp: packet_ok_def Data_new_def holds_def)
qed

theorem matchesData_full_name_witness:
  "\<exists>b f. getFullName (\<lambda>_. replicate 32 7) (Data_new\<lparr>d_name := demo_name, d_wire := b\<rparr>) = Inr f
    \<and> matchesData (\<lambda>_. replicate 32 7) demo_interest (Data_new\<lparr>d_name := demo_name, d_wire := b\<rparr>)
      = bindE (matchesName demo_interest f)
          (\<lambda>m. if m then matches_locator demo_interest (Data_new\<lparr>d_name := demo_name, d_wire := b\<rparr>) else Inr False)"
proof -
  obtain b where b: "packet_ok (\<lambda>_. replicate 32 7) (Data_new\<lparr>d_name := demo_name, d_wire := b\<rparr>) (tlv tlv_Data [])"
    using demo_packet by blast
  obtain f where "getFullName (\<lambda>_. replicate 32 7) (Data_new\<lparr>d_name := demo_name, d_wire := b\<rparr>) = Inr f"
    using getFullName_run [OF b] by blast
  then show ?thesis using matchesData_full_name [OF demo_interest_ok b] by auto
qed


section \<open>The key locator\<close>

lemma locator_wire:
  assumes "kl_ok k" and "\<not> hasWire (kl_wire k)" and "length (elems_bytes (kl_elems k)) < 2 ^ 31"
  shows "\<exists>b. KeyLocator_wire k = Inr (k\<lparr>kl_wire := b\<rparr>) \<and> shortest b \<and> hasWire b \<and> elem_of b = kl_elem k"
proof -
  have len: "length (elems_bytes (kl_elems k)) < 2 ^ 63" using assms(3) by simp
  obtain b where b: "make_block (KeyLocator_wireEncode EstimatorTag k) (KeyLocator_wireEncode EncoderTag k) = Inr b" "holds b (kl_elem k)"
    using made_writes [OF est.writes_key_locator [OF assms(1), unfolded kl_elem_def]
        enc_exact.writes_key_locator [OF assms(1), unfolded kl_elem_def] len] by (auto simp: kl_elem_def)
  have "length (tlv tlv_KeyLocator (elems_bytes (kl_elems k))) < 2 ^ 32"
    using tlv_length_le [of tlv_KeyLocator "elems_bytes (kl_elems k)"] assms(3) by simp
  then have "shortest b" using b(2) holds_shortest by (simp add: kl_elem_def)
  then show ?thesis using b assms(2) holds_sel [of b tlv_KeyLocator]
    by (intro exI [of _ b]) (simp add: KeyLocator_wire_def holds_def kl_elem_def)
qed

lemma locator_lookup:
  assumes "si_ok s"
  shows "map_of (si_elems s) tlv_KeyLocator = (if si_hasKeyLocator s then Some (snd (kl_elem (si_keyLocator s))) else None)"
proof -
  have "map_of (map elem_of (si_otherTlvs s)) tlv_KeyLocator = None"
    using assms by (auto simp: map_of_eq_None_iff si_ok_def list_all_iff elem_of_def)
  then show ?thesis by (simp add: si_elems_def tlv_SignatureType_def tlv_KeyLocator_def kl_elem_def)
qed

lemma matches_locator_parsed:
  assumes "kl_ok k" and "k = publisherPublicKeyLocator (i_selectors i)" and "\<not> KeyLocator_empty k" and "\<not> hasWire (kl_wire k)"
    and "length (elems_bytes (kl_elems k)) < 2 ^ 31" and "si_ok s"
    and "hasWire (si_wire (sig_info (d_signature d)))" and "list_all2 holds (m_subBlocks (si_wire (sig_info (d_signature d)))) (si_elems s)"
    and "length (elems_bytes (kl_elems (si_keyLocator s))) < 2 ^ 31"
  shows "matches_locator i d = Inr (si_hasKeyLocator s \<and> kl_elem (si_keyLocator s) = kl_elem k)"
proof -
  let ?w = "si_wire (sig_info (d_signature d))"
  have info: "Signature_getInfo (d_signature d) = Inr ?w" using assms(7) by (simp add: Signature_getInfo_def SignatureInfo_wire_def)
  obtain b where b: "KeyLocator_wire k = Inr (k\<lparr>kl_wire := b\<rparr>)" "shortest b" "hasWire b" "elem_of b = kl_elem k"
    using locator_wire [OF assms(1,4,5)] by blast
  show ?thesis
  proof (cases "si_hasKeyLocator s")
    case True
    then obtain it where it: "find_sub ?w tlv_KeyLocator = Some it" "holds it (kl_elem (si_keyLocator s))"
      using find_sub_Some [OF assms(8), of tlv_KeyLocator] locator_lookup [OF assms(6)] by (auto simp: kl_elem_def)
    have "length (tlv tlv_KeyLocator (elems_bytes (kl_elems (si_keyLocator s)))) < 2 ^ 32"
      using tlv_length_le [of tlv_KeyLocator "elems_bytes (kl_elems (si_keyLocator s))"] assms(9) by simp
    then have "shortest it" using it(2) holds_shortest by (simp add: kl_elem_def)
    moreover have "hasWire it" "elem_of it = kl_elem (si_keyLocator s)"
      using it(2) holds_sel [of it tlv_KeyLocator] by (simp_all add: kl_elem_def holds_def)
    ultimately have "block_eq b it = Inr (kl_elem k = kl_elem (si_keyLocator s))"
      using block_eq_shortest b(2-4) by simp
    then show ?thesis using True info it(1) b(1) assms(2,3) by (auto simp: matches_locator_def Let_def)
  next
    case False
    then have "find_sub ?w tlv_KeyLocator = None" using find_sub_None [OF assms(8)] locator_lookup [OF assms(6)] by simp
    then show ?thesis using False info assms(2,3) by (simp add: matches_locator_def Let_def)
  qed
qed

text \<open>A block that was made and not decoded has no sub-blocks.\<close>

lemma unparsed_info:
  assumes "info_block_ok s" and "\<not> hasWire (si_wire s)"
  shows "\<exists>b. SignatureInfo_wire s = Inr (s\<lparr>si_wire := b\<rparr>) \<and> m_subBlocks b = []"
proof -
  have ok: "si_ok s" "length (elems_bytes (si_elems s)) < 2 ^ 63" using assms(1) by (simp_all add: info_block_ok_def)
  obtain b where "make_block (SignatureInfo_wireEncode EstimatorTag s) (SignatureInfo_wireEncode EncoderTag s) = Inr b"
      "holds b (si_elem s)"
    using made_writes [OF est.writes_signature_info [OF ok(1), unfolded si_elem_def]
        enc_exact.writes_signature_info [OF ok(1), unfolded si_elem_def] ok(2)] by (auto simp: si_elem_def)
  then show ?thesis using assms(2) by (intro exI [of _ b]) (simp add: SignatureInfo_wire_def holds_def)
qed

text \<open>
  The key locator of a packet is looked for among the sub-blocks of the signature's information. In a
  packet that has been encoded this compares the two locators; in one that has been signed and not yet
  encoded the information is made on the fly and never parsed, so that no locator matches.
\<close>

theorem matches_locator_needs_wire:
  assumes "data_ok d c v" and "\<not> hasWire (d_wire d)" and "length (elems_bytes (data_elems d c v)) < 2 ^ 63"
    and "\<not> hasWire (si_wire (sig_info (d_signature d)))"
    and "k = publisherPublicKeyLocator (i_selectors i)" and "kl_ok k" and "\<not> KeyLocator_empty k" and "\<not> hasWire (kl_wire k)"
    and "length (elems_bytes (kl_elems k)) < 2 ^ 31"
    and "length (elems_bytes (kl_elems (si_keyLocator (sig_info (d_signature d))))) < 2 ^ 31"
  shows "matches_locator i d = Inr False
    \<and> (\<exists>r. Data_wire d = Inr r \<and> matches_locator i r
        = Inr (si_hasKeyLocator (sig_info (d_signature d)) \<and> kl_elem (si_keyLocator (sig_info (d_signature d))) = kl_elem k))"
proof
  let ?s = "sig_info (d_signature d)"
  have ok: "info_block_ok ?s" "si_ok ?s" using assms(1) by (simp_all add: data_ok_def info_block_ok_def)
  obtain b where "SignatureInfo_wire ?s = Inr (?s\<lparr>si_wire := b\<rparr>)" "m_subBlocks b = []"
    using unparsed_info [OF ok(1) assms(4)] by blast
  then show "matches_locator i d = Inr False"
    using assms(5,7) by (simp add: matches_locator_def Signature_getInfo_def find_sub_def block_find_def Let_def)
  obtain b where b: "Data_wire d = Data_wireDecode d b" "holds b (data_elem d c v)"
    using Data_wire_made [OF assms(1-3)] by blast
  obtain r where r: "Data_wireDecode d b = Inr r" "hasWire (si_wire (sig_info (d_signature r)))"
      "list_all2 holds (m_subBlocks (si_wire (sig_info (d_signature r)))) (si_elems ?s)"
    using holds_data [OF b(2) assms(1), of d] by blast
  show "\<exists>r. Data_wire d = Inr r \<and> matches_locator i r = Inr (si_hasKeyLocator ?s \<and> kl_elem (si_keyLocator ?s) = kl_elem k)"
    using b(1) r matches_locator_parsed [OF assms(6,5,7,8,9) ok(2) r(2,3) assms(10)] by auto
qed

definition demo_locator :: key_locator where
  "demo_locator = KeyLocator_setName KeyLocator_new demo_name"

lemma demo_locator_facts: "kl_ok demo_locator" "\<not> KeyLocator_empty demo_locator" "\<not> hasWire (kl_wire demo_locator)"
  "length (elems_bytes (kl_elems demo_locator)) < 1000"
proof -
  show "kl_ok demo_locator" "\<not> KeyLocator_empty demo_locator"
    using demo_name_ok by (simp_all add: demo_locator_def KeyLocator_setName_def kl_ok_def KeyLocator_empty_def)
  show "\<not> hasWire (kl_wire demo_locator)"
    by (simp add: demo_locator_def KeyLocator_setName_def KeyLocator_clear_def KeyLocator_new_def block_reset_def hasWire_def)
  have n: "length (elems_bytes (map elem_of (m_subBlocks demo_name))) \<le> 38"
    using elems_length_le [of "map elem_of (m_subBlocks demo_name)"]
    by (simp add: demo_name_def elem_of_def Block_value_def block_value_def range_of_def Let_def)
  then show "length (elems_bytes (kl_elems demo_locator)) < 1000"
    using elems_length_le [of "[name_elem demo_name]"]
    by (simp add: demo_locator_def KeyLocator_setName_def kl_elems_def name_elem_def)
qed

lemma demo_locator_info:
  "info_block_ok (SignatureInfo_of_locator 1 demo_locator)"
  "length (elems_bytes (si_elems (SignatureInfo_of_locator 1 demo_locator))) < 2 ^ 31"
  using elems_length_le [of "si_elems (SignatureInfo_of_locator 1 demo_locator)"] nni_length_le [of 1] demo_locator_facts
  by (simp_all add: info_block_ok_def si_ok_def si_elems_def SignatureInfo_of_locator_def SignatureInfo_new_def kl_elem_def)

theorem matches_locator_needs_wire_witness:
  "\<exists>d r. matches_locator (Interest_new\<lparr>i_selectors := Selectors_new\<lparr>publisherPublicKeyLocator := demo_locator\<rparr>\<rparr>) d = Inr False
    \<and> Data_wire d = Inr r
    \<and> matches_locator (Interest_new\<lparr>i_selectors := Selectors_new\<lparr>publisherPublicKeyLocator := demo_locator\<rparr>\<rparr>) r = Inr True"
proof -
  obtain a c v where acv: "holds a (128, [1])" "holds c (tlv_Content, [72])" "holds v (tlv_SignatureValue, [7])"
    using demo_blocks by blast
  let ?s = "SignatureInfo_of_locator 1 demo_locator"
  note ok = demo_data_ok [OF demo_locator_info acv]
  have s: "sig_info (d_signature (demo_data ?s a c v)) = ?s" by (simp add: demo_data_def)
  have f: "\<not> hasWire (si_wire ?s)" "si_hasKeyLocator ?s" "si_keyLocator ?s = demo_locator"
    by (simp_all add: SignatureInfo_of_locator_def SignatureInfo_new_def)
  have l: "length (elems_bytes (kl_elems demo_locator)) < 2 ^ 31" using demo_locator_facts(4) by simp
  show ?thesis
    using matches_locator_needs_wire [OF ok(1,3,2), unfolded s f, OF f(1) _ demo_locator_facts(1,2,3) l l,
        of "Interest_new\<lparr>i_selectors := Selectors_new\<lparr>publisherPublicKeyLocator := demo_locator\<rparr>\<rparr>"] f
    by auto
qed

end
