(* ===== verification/InterestWire.thy ===== *)
theory InterestWire
  imports InterestMatch
begin

text \<open>
  The nonce of an Interest and its wire format.
\<close>

section \<open>The nonce in memory\<close>

lemma nonce_bytes_length [simp]: "length (nonce_bytes n) = 4"
  by (simp add: nonce_bytes_def)

lemma nonce_roundtrip [simp]: "nonce_of (nonce_bytes n) = n"
proof -
  have "unat n < 256 ^ 4" using unsigned_less [of n] by simp
  then show ?thesis by (simp add: nonce_of_def nonce_bytes_def be_val_bytes_small del: be_bytes.simps)
qed

text \<open>Sub-blocks found by parsing are in the buffer of the block, inside its value.\<close>

definition inside :: "bytes \<Rightarrow> nat \<Rightarrow> nat \<Rightarrow> block \<Rightarrow> bool" where
  "inside buf b e s \<longleftrightarrow> m_buffer s = Some buf \<and> b \<le> m_value_begin s \<and> m_value_begin s \<le> m_value_end s \<and> m_value_end s \<le> e"

lemma parse_loop_inside:
  assumes "b0 \<le> b" and "b \<le> e" and "e \<le> length buf" and "fits buf" and "list_all (inside buf b0 e) subs"
    and "parse_loop buf b e subs = (res, ex)"
  shows "list_all (inside buf b0 e) res"
  using assms
proof (induction buf b e subs rule: parse_loop.induct)
  case (1 buf b e subs)
  show ?case
  proof (cases "range_of buf b e = [] \<or> (\<exists>x. readHeader (range_of buf b e) = Inl x)")
    case True
    then show ?thesis using "1.prems"(5,6) by (subst (asm) parse_loop.simps) (auto split: if_splits)
  next
    case False
    then obtain t len rest where r: "range_of buf b e \<noteq> []" "readHeader (range_of buf b e) = Inr (t, len, rest)"
      by (cases "readHeader (range_of buf b e)") auto
    show ?thesis
    proof (cases "len > word_of_nat (length rest)")
      case True
      then show ?thesis using r "1.prems"(6) by (subst (asm) parse_loop.simps) auto
    next
      case False
      let ?v = "e - length rest"
      let ?n = "?v + unat len"
      let ?s = "Block (Some buf) t b ?n (word_of_nat (?n - b)) ?v ?n []"
      obtain h where h: "range_of buf b e = h @ rest" "2 \<le> length h" using readHeader_shape [OF r(2)] by blast
      have le: "length rest + 2 \<le> e - b" using h range_of_length [OF "1.prems"(3), of b] by simp
      then have "fits rest" using "1.prems"(3,4) fits_shorter by fastforce
      then have "unat len \<le> length rest" using False fits_le by (auto simp: not_less)
      then have "b0 \<le> ?v" "?n \<le> e" "b0 \<le> ?n" using le "1.prems"(1,2) by linarith+
      moreover have "parse_loop buf ?n e (subs @ [?s]) = (res, ex)"
        using r False "1.prems"(6) by (subst (asm) parse_loop.simps) (simp add: Let_def)
      ultimately show ?thesis
        using "1.IH" [OF r(1,2) refl refl False refl refl] "1.prems"(3-5) by (simp add: inside_def)
    qed
  qed
qed

lemma parse_inside:
  assumes "block_ok b" and "m_subBlocks b = []" and "m_buffer b = Some buf" and "parse b = (b', ex)" and "s \<in> set (m_subBlocks b')"
  shows "inside buf (m_value_begin b) (m_value_end b) s"
proof -
  have b: "fits buf" "m_value_begin b \<le> m_value_end b" "m_value_end b \<le> length buf"
    using assms(1,3) by (simp_all add: block_ok_def)
  show ?thesis
  proof (cases "value_size b = 0")
    case True
    then show ?thesis using assms(2,4,5) by (simp add: parse_def)
  next
    case False
    then obtain res where "parse_loop buf (m_value_begin b) (m_value_end b) [] = (res, ex)" "m_subBlocks b' = res"
      using assms(2-4) by (auto simp: parse_def split: prod.splits)
    then show ?thesis
      using parse_loop_inside [OF le_refl b(2,3,1), of "[]"] assms(5) by (auto simp: list_all_iff)
  qed
qed

lemma patch_sel [simp]:
  "m_buffer (patch p v b) = map_option (\<lambda>buf. take p buf @ v @ drop (p + length v) buf) (m_buffer b)"
  "m_type (patch p v b) = m_type b" "m_begin (patch p v b) = m_begin b" "m_end (patch p v b) = m_end b"
  "m_value_begin (patch p v b) = m_value_begin b" "m_value_end (patch p v b) = m_value_end b"
  "hasWire (patch p v b) = hasWire b" "value_size (patch p v b) = value_size b"
  by (cases b; simp add: hasWire_def value_size_def hasValue_def)+

lemma range_of_patch:
  assumes "b \<le> p" and "p + length v \<le> e" and "e \<le> length buf"
  shows "range_of (take p buf @ v @ drop (p + length v) buf) b e
    = take (p - b) (range_of buf b e) @ v @ drop (p - b + length v) (range_of buf b e)"
proof -
  have p: "min (p - b) (e - b) = p - b" "min (e - b) (p - b) = p - b" "b - p = 0" "min (length buf) p = p" "min (length buf - b) (p - b) = p - b"
    "e - b - (p - b) = e - p" "length v \<le> e - p" "p - b + length v + b = p + length v" "e - b - (p - b + length v) = e - p - length v"
    using assms by auto
  show ?thesis using p by (simp add: range_of_def drop_take)
qed

lemma setNonce_inside:
  assumes "hasWire (i_wire i)" and "value_size (i_nonce i) = 4" and "m_buffer (i_wire i) = Some buf" and "m_end (i_wire i) \<le> length buf"
    and "inside buf (m_begin (i_wire i)) (m_end (i_wire i)) (i_nonce i)" and "wire (i_wire i) = Inr w"
  shows "\<exists>j p. setNonce n i = Inr j \<and> read_nonce j = Inr n \<and> wire (i_wire j) = Inr (take p w @ nonce_bytes n @ drop (p + 4) w)
    \<and> take 4 (drop p w) = block_value (i_nonce i) \<and> length w \<ge> p + 4
    \<and> j\<lparr>i_nonce := i_nonce i, i_wire := i_wire i\<rparr> = i"
proof -
  let ?pos = "m_value_begin (i_nonce i)" and ?b = "m_begin (i_wire i)" and ?e = "m_end (i_wire i)" and ?v = "nonce_bytes n"
  have pos: "?b \<le> ?pos" "m_value_end (i_nonce i) = ?pos + 4" "?pos + 4 \<le> ?e" "m_buffer (i_nonce i) = Some buf"
    using assms(2,5) by (auto simp: inside_def value_size_def hasValue_def)
  have w: "w = range_of buf ?b ?e" using assms(1,3,6) by (simp add: wire_def)
  let ?j = "i\<lparr>i_nonce := patch ?pos ?v (i_nonce i), i_wire := patch ?pos ?v (i_wire i)\<rparr>"
  have "block_value (patch ?pos ?v (i_nonce i)) = ?v"
    using pos assms(4) by (simp add: block_value_def range_of_def)
  then have "read_nonce ?j = Inr n" using assms(2) by (simp add: read_nonce_def)
  moreover have "wire (patch ?pos ?v (i_wire i)) = Inr (take (?pos - ?b) w @ ?v @ drop (?pos - ?b + 4) w)"
    using range_of_patch [of ?b ?pos ?v ?e buf] pos assms(1,3,4) w by (simp add: wire_def)
  moreover have "take 4 (drop (?pos - ?b) w) = block_value (i_nonce i)" "length w \<ge> ?pos - ?b + 4"
    using pos assms(4) w by (auto simp: block_value_def range_of_def min_def take_drop add.commute)
  ultimately show ?thesis using assms(1,2) by (intro exI [of _ ?j] exI [of _ "?pos - ?b"]) (simp add: setNonce_def Let_def)
qed


section \<open>What is written and what is read\<close>

text \<open>A link that is carried as the packet it is on the wire, with the position of a delegation in it.\<close>

definition link_ok :: "interest \<Rightarrow> bool" where
  "link_ok i \<longleftrightarrow> (if hasLink i
     then shortest (i_link i) \<and> m_type (i_link i) = tlv_Data \<and>
       (case i_selectedDelegation i of None \<Rightarrow> True
        | Some k \<Rightarrow> k < 2 ^ 63 \<and> (\<exists>es ds. block_value (i_link i) = elems_bytes es \<and> map_of es tlv_Content = Some (dbytes ds)
            \<and> k < length ds))
     else i_selectedDelegation i = None)"

text \<open>An interest whose nonce is unset or has been set.\<close>

definition nonce_ok :: "interest \<Rightarrow> bool" where
  "nonce_ok i \<longleftrightarrow> (hasWire (i_nonce i) \<longrightarrow> shortest (i_nonce i) \<and> m_type (i_nonce i) = tlv_Nonce \<and> value_size (i_nonce i) = 4)"

definition lifetime_elems :: "interest \<Rightarrow> elem list" where
  "lifetime_elems i = (if i_interestLifetime i \<ge> 0 \<and> i_interestLifetime i \<noteq> DEFAULT_INTEREST_LIFETIME
     then [(tlv_InterestLifetime, nni (word_of_int (i_interestLifetime i)))] else [])"

definition link_elems :: "interest \<Rightarrow> elem list" where
  "link_elems i = (if hasLink i then [elem_of (i_link i)] @
     (case i_selectedDelegation i of None \<Rightarrow> [] | Some k \<Rightarrow> [(tlv_SelectedDelegation, nni (word_of_nat k))]) else [])"

definition interest_elems :: "32 word \<Rightarrow> interest \<Rightarrow> elem list" where
  "interest_elems n i = [name_elem (i_name i)] @ (if Selectors_empty (i_selectors i) then [] else [sel_elem (i_selectors i)])
     @ [(tlv_Nonce, nonce_bytes n)] @ lifetime_elems i @ link_elems i"

text \<open>The nonce on the wire: the one that was set, or the one drawn.\<close>

definition nonce_value :: "32 word \<Rightarrow> interest \<Rightarrow> 32 word" where
  "nonce_value r i = (if hasWire (i_nonce i) then nonce_of (block_value (i_nonce i)) else r)"

definition interest_same :: "32 word \<Rightarrow> interest \<Rightarrow> interest \<Rightarrow> bool" where
  "interest_same n i j \<longleftrightarrow> name_keys (i_name j) = name_keys (i_name i) \<and> name_ok (i_name j)
     \<and> sel_same (i_selectors i) (i_selectors j) \<and> read_nonce j = Inr n
     \<and> i_interestLifetime j = (if i_interestLifetime i < 0 then DEFAULT_INTEREST_LIFETIME else i_interestLifetime i)
     \<and> hasLink j = hasLink i \<and> (hasLink i \<longrightarrow> elem_of (i_link j) = elem_of (i_link i))
     \<and> i_selectedDelegation j = i_selectedDelegation i"

lemma nonce_of_inj: "length bs = 4 \<Longrightarrow> nonce_bytes (nonce_of bs) = bs"
proof -
  assume l: "length bs = 4"
  have "be_val (rev bs) < 256 ^ 4" using be_val_bound [of "rev bs"] l by simp
  then have "unat (word_of_nat (be_val (rev bs)) :: 32 word) = be_val (rev bs)" by (simp add: unat_of_nat)
  then show ?thesis using be_bytes_val [of "rev bs"] l by (simp add: nonce_bytes_def nonce_of_def del: be_bytes.simps)
qed

text \<open>After the nonce is made sure of, the interest has the nonce as a block.\<close>

lemma ensure_nonce_run:
  assumes "nonce_ok i" and "\<not> hasWire (i_wire i)"
  shows "\<exists>b w. getNonce r i = Inr (nonce_value r i, i\<lparr>i_nonce := b, i_wire := w\<rparr>) \<and> shortest b \<and> elem_of b = (tlv_Nonce, nonce_bytes (nonce_value r i))"
proof (cases "hasWire (i_nonce i)")
  case True
  then have n: "shortest (i_nonce i)" "m_type (i_nonce i) = tlv_Nonce" "value_size (i_nonce i) = 4"
    using assms(1) by (auto simp: nonce_ok_def)
  then have "length (block_value (i_nonce i)) = 4" using block_value_length [of "i_nonce i"] by (simp add: shortest_def)
  then show ?thesis using True n nonce_of_inj
    by (intro exI [of _ "i_nonce i"] exI [of _ "i_wire i"]) (simp add: getNonce_def ensure_nonce_def read_nonce_def nonce_value_def elem_of_def)
next
  case False
  obtain b where b: "makeBinaryBlock tlv_Nonce (nonce_bytes r) = Inr b" "block_ok b" "wire b = Inr (tlv tlv_Nonce (nonce_bytes r))"
      "elem_of b = (tlv_Nonce, nonce_bytes r)" "m_subBlocks b = []"
    using makeBinary_block [of tlv_Nonce "nonce_bytes r"] by (auto simp: fits_small)
  have h: "holds b (tlv_Nonce, nonce_bytes r)" using b by (simp add: holds_def)
  have "length (tlv tlv_Nonce (nonce_bytes r)) < 2 ^ 32" using tlv_length_le [of tlv_Nonce "nonce_bytes r"] by simp
  then have s: "shortest b" using holds_shortest [OF h] by simp
  show ?thesis using False assms(2) b(1) s h holds_sel [OF h]
    by (intro exI [of _ b] exI [of _ "block_reset (i_wire i)"])
      (simp add: getNonce_def ensure_nonce_def setNonce_def reset_wire_def read_nonce_def nonce_value_def elem_of_def)
qed

context prepender
begin

lemma writes_interest:
  assumes "interest_ok i" and "link_ok i" and "shortest (i_nonce i)" and "elem_of (i_nonce i) = (tlv_Nonce, nonce_bytes n)"
  shows "writes R (Interest_wireEncode T i) [(tlv_Interest, elems_bytes (interest_elems n i))]"
proof -
  have "writes R (case i_selectedDelegation i of None \<Rightarrow> skipE
            | Some k \<Rightarrow> prependNonNegativeIntegerBlock T tlv_SelectedDelegation (word_of_nat k))
      (case i_selectedDelegation i of None \<Rightarrow> [] | Some k \<Rightarrow> [(tlv_SelectedDelegation, nni (word_of_nat k))])"
    using writes_nni by (simp add: writes_skip split: option.split)
  from writes_addE [OF this writes_block [of "i_link i"]]
  have "writes R (if hasLink i then
          addE (case i_selectedDelegation i of None \<Rightarrow> skipE
            | Some k \<Rightarrow> prependNonNegativeIntegerBlock T tlv_SelectedDelegation (word_of_nat k))
            (prependBlock T (i_link i))
        else if hasSelectedDelegation i then (\<lambda>_. Inl AssertionFailed) else skipE) (link_elems i)"
    using assms(2) by (simp add: link_ok_def link_elems_def writes_skip hasSelectedDelegation_def split: if_splits)
  moreover have "writes R (if i_interestLifetime i \<ge> 0 \<and> i_interestLifetime i \<noteq> DEFAULT_INTEREST_LIFETIME
        then prependNonNegativeIntegerBlock T tlv_InterestLifetime (word_of_int (i_interestLifetime i)) else skipE) (lifetime_elems i)"
    using writes_nni by (simp add: lifetime_elems_def writes_skip)
  moreover have "writes R (prependBlock T (i_nonce i)) [(tlv_Nonce, nonce_bytes n)]"
    using writes_block [OF assms(3)] assms(4) by simp
  moreover have "writes R (if \<not> Selectors_empty (i_selectors i) then Selectors_wireEncode T (i_selectors i) else skipE)
      (if Selectors_empty (i_selectors i) then [] else [sel_elem (i_selectors i)])"
    using writes_selectors [of "i_selectors i"] assms(1) by (simp add: interest_ok_def writes_skip)
  moreover have "writes R (Name_wireEncode T (i_name i)) [name_elem (i_name i)]"
    using writes_name assms(1) by (simp add: interest_ok_def)
  ultimately show ?thesis unfolding Interest_wireEncode_def interest_elems_def
    by (intro writes_header) (simp only: append_assoc [symmetric], intro writes_addE; assumption)
qed

end

lemmas interest_types = tlv_Interest_def tlv_Nonce_def tlv_InterestLifetime_def tlv_SelectedDelegation_def tlv_Name_def
  tlv_Selectors_def tlv_Data_def

lemma interest_lookup:
  assumes "link_ok i"
  shows "map_of (interest_elems n i) tlv_Name = Some (snd (name_elem (i_name i)))"
    and "map_of (interest_elems n i) tlv_Selectors = (if Selectors_empty (i_selectors i) then None else Some (snd (sel_elem (i_selectors i))))"
    and "map_of (interest_elems n i) tlv_Nonce = Some (nonce_bytes n)"
    and "map_of (interest_elems n i) tlv_InterestLifetime =
      (if i_interestLifetime i \<ge> 0 \<and> i_interestLifetime i \<noteq> DEFAULT_INTEREST_LIFETIME
       then Some (nni (word_of_int (i_interestLifetime i))) else None)"
    and "map_of (interest_elems n i) tlv_Data = (if hasLink i then Some (block_value (i_link i)) else None)"
    and "map_of (interest_elems n i) tlv_SelectedDelegation =
      (if hasLink i then map_option (\<lambda>k. nni (word_of_nat k)) (i_selectedDelegation i) else None)"
  using assms by (auto simp: interest_elems_def interest_types name_elem_def sel_elem_def lifetime_elems_def link_elems_def
      link_ok_def elem_of_def lookups split: option.split if_splits)

text \<open>The optional parts, as they are read back.\<close>

lemma lifetime_back:
  assumes "list_all2 holds (m_subBlocks w) (interest_elems n i)" and "link_ok i" and "i_interestLifetime i < 2 ^ 63"
  shows "(case find_sub w tlv_InterestLifetime of None \<Rightarrow> Inr DEFAULT_INTEREST_LIFETIME
       | Some val \<Rightarrow> bindE (readNonNegativeInteger_block val) (\<lambda>n. Inr (sint n)))
    = Inr (if i_interestLifetime i < 0 then DEFAULT_INTEREST_LIFETIME else i_interestLifetime i)"
proof (cases "i_interestLifetime i \<ge> 0 \<and> i_interestLifetime i \<noteq> DEFAULT_INTEREST_LIFETIME")
  case True
  then obtain x where "find_sub w tlv_InterestLifetime = Some x" "holds x (tlv_InterestLifetime, nni (word_of_int (i_interestLifetime i)))"
    using find_sub_Some [OF assms(1)] interest_lookup(4) [OF assms(2)] by metis
  then show ?thesis using True assms(3) holds_nni by (simp add: sint_sbintrunc' signed_take_bit_int_eq_self)
next
  case False
  then have "find_sub w tlv_InterestLifetime = None"
    using find_sub_None [OF assms(1)] interest_lookup(4) [OF assms(2)] by metis
  then show ?thesis using False by auto
qed

lemma link_back:
  assumes "list_all2 holds (m_subBlocks w) (interest_elems n i)" and "link_ok i"
  shows "\<exists>l. (case find_sub w tlv_Data of None \<Rightarrow> Block_empty | Some val \<Rightarrow> val) = l \<and> hasWire l = hasLink i
    \<and> (hasLink i \<longrightarrow> holds l (elem_of (i_link i)))
    \<and> (case find_sub w tlv_SelectedDelegation of None \<Rightarrow> Inr None
       | Some val \<Rightarrow>
           if \<not> hasWire l then Inl (InterestError ''Interest contains SelectedDelegation, but no LINK object'')
           else bindE (readNonNegativeInteger_block val) (\<lambda>k. bindE (countDelegationsFromWire l) (\<lambda>c.
             if unat k < c then Inr (Some (unat k))
             else Inl (InterestError ''Invalid selected delegation index when decoding Interest''))))
      = Inr (i_selectedDelegation i)"
proof (cases "hasLink i")
  case False
  then have "find_sub w tlv_Data = None" "find_sub w tlv_SelectedDelegation = None"
    using find_sub_None [OF assms(1)] interest_lookup(5,6) [OF assms(2)] by metis+
  then show ?thesis using False assms(2) by (simp add: link_ok_def)
next
  case True
  then have l: "shortest (i_link i)" "m_type (i_link i) = tlv_Data" using assms(2) by (simp_all add: link_ok_def)
  obtain x where x: "find_sub w tlv_Data = Some x" "holds x (tlv_Data, block_value (i_link i))"
    using True find_sub_Some [OF assms(1)] interest_lookup(5) [OF assms(2)] by metis
  have hx: "hasWire x" "holds x (elem_of (i_link i))" using x(2) holds_sel [OF x(2)] l(2) by (simp_all add: elem_of_def)
  show ?thesis
  proof (cases "i_selectedDelegation i")
    case None
    then have "find_sub w tlv_SelectedDelegation = None"
      using True find_sub_None [OF assms(1)] interest_lookup(6) [OF assms(2)] by simp
    then show ?thesis using True None x(1) hx by simp
  next
    case (Some k)
    then obtain es ds where k: "k < 2 ^ 63" "block_value (i_link i) = elems_bytes es" "map_of es tlv_Content = Some (dbytes ds)" "k < length ds"
      using True assms(2) by (auto simp: link_ok_def)
    obtain v where v: "find_sub w tlv_SelectedDelegation = Some v" "holds v (tlv_SelectedDelegation, nni (word_of_nat k))"
      using True Some find_sub_Some [OF assms(1)] interest_lookup(6) [OF assms(2)] by fastforce
    obtain bs where "delegations_of_wire x = Inr bs" "list_all2 holds bs (map delegation_elem ds)"
      using delegations_of_holds [OF x(2) [unfolded k(2)] k(3)] by blast
    then have "countDelegationsFromWire x = Inr (length ds)"
      by (auto simp: countDelegationsFromWire_def dest: list_all2_lengthD)
    then show ?thesis using True Some x(1) hx v(1) holds_nni [OF v(2)] k(1,4) by (simp add: unat_of_nat)
  qed
qed

lemma selectors_back:
  assumes "list_all2 holds (m_subBlocks w) (interest_elems n i)" and "link_ok i" and "interest_ok i"
  shows "\<exists>s. (case find_sub w tlv_Selectors of None \<Rightarrow> Inr Selectors_new | Some val \<Rightarrow> Selectors_of_block val) = Inr s
    \<and> sel_same (i_selectors i) s"
proof (cases "Selectors_empty (i_selectors i)")
  case True
  then have "find_sub w tlv_Selectors = None"
    using find_sub_None [OF assms(1)] interest_lookup(2) [OF assms(2)] by simp
  then show ?thesis using True
    by (auto simp: Selectors_empty_def Selectors_new_def sel_same_def norm_int_def kl_same_def KeyLocator_empty_def KeyLocator_new_def
        Exclude_empty_def Exclude_new_def excluded_set_def Exclude_equals_def)
next
  case False
  then obtain x where "find_sub w tlv_Selectors = Some x" "holds x (tlv_Selectors, snd (sel_elem (i_selectors i)))"
    using find_sub_Some [OF assms(1)] interest_lookup(2) [OF assms(2)] by fastforce
  then show ?thesis using holds_selectors [of x "i_selectors i"] assms(3) by (auto simp: sel_elem_def interest_ok_def)
qed


text \<open>A decoded Interest has its nonce inside its wire.\<close>

definition nonce_inside :: "interest \<Rightarrow> bool" where
  "nonce_inside j \<longleftrightarrow> hasWire (i_wire j) \<and> value_size (i_nonce j) = 4 \<and> hasWire (i_nonce j)
     \<and> (case m_buffer (i_wire j) of None \<Rightarrow> False
        | Some buf \<Rightarrow> m_end (i_wire j) \<le> length buf \<and> inside buf (m_begin (i_wire j)) (m_end (i_wire j)) (i_nonce j))"

lemma find_sub_member: "find_sub b t = Some x \<Longrightarrow> x \<in> set (m_subBlocks b)"
proof -
  have "length (takeWhile (\<lambda>s. m_type s \<noteq> t) (m_subBlocks b)) \<le> length (m_subBlocks b)" by (rule length_takeWhile_le)
  then show "find_sub b t = Some x \<Longrightarrow> x \<in> set (m_subBlocks b)"
    by (auto simp: find_sub_def block_find_def split: if_splits)
qed

lemma block_get_member: "block_get b t = Inr x \<Longrightarrow> x \<in> set (m_subBlocks b)"
  using find_sub_member [of b t x] by (auto simp: find_sub_def block_get_def split: if_splits)

lemma parsed_inside:
  assumes "holds b e" and "Block_buffer bs = Inr b" and "parsed b = Inr w" and "x \<in> set (m_subBlocks w)"
  shows "inside bs 0 (length bs) x"
proof -
  have b: "m_buffer b = Some bs" "m_value_end b = length bs" using assms(2)
    by (auto simp: Block_buffer_def Block_range_def bindE_Inr_conv split: if_splits)
  have "parse b = (w, None)" using assms(3) by (auto simp: parsed_def split: prod.splits option.splits)
  moreover have "block_ok b" "m_subBlocks b = []" using assms(1) by (simp_all add: holds_def)
  ultimately have "inside bs (m_value_begin b) (m_value_end b) x" using parse_inside b(1) assms(4) by blast
  then show ?thesis using b(2) by (auto simp: inside_def)
qed

lemma holds_interest:
  assumes "holds b (tlv_Interest, elems_bytes (interest_elems n i))" and "interest_ok i" and "link_ok i"
    and "i_interestLifetime i < 2 ^ 63" and "Block_buffer bs = Inr b"
  shows "\<exists>j. Interest_wireDecode x b = Inr j \<and> interest_same n i j \<and> wire (i_wire j) = wire b \<and> nonce_inside j
    \<and> block_size (i_wire j) = block_size b"
proof -
  obtain cs where cs: "parsed b = Inr (set_subBlocks b cs)" "list_all2 holds cs (interest_elems n i)"
    using holds_parsed [OF assms(1)] by blast
  let ?w = "set_subBlocks b cs"
  have es: "list_all2 holds (m_subBlocks ?w) (interest_elems n i)" using cs(2) by simp
  note lk = interest_lookup [OF assms(3)]
  have b: "hasWire b" "m_type b = tlv_Interest" using holds_sel [OF assms(1)] by simp_all
  obtain n1 n2 where nm: "block_get ?w tlv_Name = Inr n1" "decode_name (i_name x) n1 = Inr n2" "name_keys n2 = name_keys (i_name i)"
      "name_ok n2"
    using block_get_holds [OF es lk(1)] holds_name [of _ "i_name i" "i_name x"] assms(2)
    by (fastforce simp: name_elem_def interest_ok_def decode_name_def)
  obtain s where s: "(case find_sub ?w tlv_Selectors of None \<Rightarrow> Inr Selectors_new | Some val \<Rightarrow> Selectors_of_block val) = Inr s"
      "sel_same (i_selectors i) s"
    using selectors_back [OF es assms(3,2)] by blast
  obtain nc where nc: "block_get ?w tlv_Nonce = Inr nc" "holds nc (tlv_Nonce, nonce_bytes n)"
    using block_get_holds [OF es lk(3)] by blast
  note lt = lifetime_back [OF es assms(3,4)]
  obtain l where l: "(case find_sub ?w tlv_Data of None \<Rightarrow> Block_empty | Some val \<Rightarrow> val) = l" "hasWire l = hasLink i"
    "hasLink i \<longrightarrow> holds l (elem_of (i_link i))"
    "(case find_sub ?w tlv_SelectedDelegation of None \<Rightarrow> Inr None
       | Some val \<Rightarrow>
           if \<not> hasWire l then Inl (InterestError ''Interest contains SelectedDelegation, but no LINK object'')
           else bindE (readNonNegativeInteger_block val) (\<lambda>k. bindE (countDelegationsFromWire l) (\<lambda>c.
             if unat k < c then Inr (Some (unat k))
             else Inl (InterestError ''Invalid selected delegation index when decoding Interest''))))
      = Inr (i_selectedDelegation i)"
    using link_back [OF es assms(3)] by blast
  let ?j = "\<lparr>i_name = n2, i_selectors = s, i_nonce = nc,
      i_interestLifetime = (if i_interestLifetime i < 0 then DEFAULT_INTEREST_LIFETIME else i_interestLifetime i), i_link = l,
      i_selectedDelegation = i_selectedDelegation i, i_wire = ?w\<rparr>"
  have "Interest_wireDecode x b = Inr ?j"
    using cs(1) b nm(1,2) s(1) nc(1) lt l(1,4) by (simp add: Interest_wireDecode_def Let_def)
  moreover have "interest_same n i ?j"
    using nm(3,4) s(2) holds_sel [OF nc(2)] l(2,3) by (simp add: interest_same_def read_nonce_def hasLink_def holds_def)
  moreover have "nonce_inside ?j"
    using parsed_inside [OF assms(1,5) cs(1) block_get_member [OF nc(1)]] assms(5) b holds_sel [OF nc(2)]
    by (auto simp: nonce_inside_def Block_buffer_def Block_range_def bindE_Inr_conv split: if_splits)
  ultimately show ?thesis by (intro exI [of _ ?j]) simp
qed

lemma Interest_wire_run:
  assumes "interest_ok i" and "link_ok i" and "nonce_ok i" and "i_interestLifetime i < 2 ^ 63" and "\<not> hasWire (i_wire i)"
    and "length (elems_bytes (interest_elems (nonce_value r i) i)) < 2 ^ 63"
  shows "\<exists>j z. Interest_wire r i = Inr j
    \<and> wire (i_wire j) = Inr (tlv tlv_Interest (elems_bytes (interest_elems (nonce_value r i) i)))
    \<and> interest_same (nonce_value r i) i j \<and> nonce_inside j
    \<and> (length (tlv tlv_Interest (elems_bytes (interest_elems (nonce_value r i) i))) < 2 ^ 32
      \<longrightarrow> block_size (i_wire j) = Inr (length (tlv tlv_Interest (elems_bytes (interest_elems (nonce_value r i) i)))))
    \<and> bindE (Block_buffer (tlv tlv_Interest (elems_bytes (interest_elems (nonce_value r i) i)))) Interest_of_block = Inr z
    \<and> interest_same (nonce_value r i) i z"
proof -
  let ?n = "nonce_value r i"
  obtain nb w where nb: "getNonce r i = Inr (?n, i\<lparr>i_nonce := nb, i_wire := w\<rparr>)" "shortest nb" "elem_of nb = (tlv_Nonce, nonce_bytes ?n)"
    using ensure_nonce_run [OF assms(3,5)] by blast
  let ?i = "i\<lparr>i_nonce := nb, i_wire := w\<rparr>"
  have same: "link_ok ?i = link_ok i" by (cases "i_selectedDelegation i") (simp_all add: link_ok_def hasLink_def)
  have i: "interest_ok ?i" "link_ok ?i" "interest_elems ?n ?i = interest_elems ?n i"
    using assms(1,2) same by (simp_all add: interest_ok_def hasLink_def interest_elems_def lifetime_elems_def link_elems_def)
  obtain b where b: "make_block (Interest_wireEncode EstimatorTag ?i) (Interest_wireEncode EncoderTag ?i) = Inr b"
      "Block_buffer (tlv tlv_Interest (elems_bytes (interest_elems ?n i))) = Inr b"
      "holds b (tlv_Interest, elems_bytes (interest_elems ?n i))"
    using made_writes [OF est.writes_interest [OF i(1,2), of ?n] enc_exact.writes_interest [OF i(1,2), of ?n]] nb(2,3) i(3) assms(6)
    by auto
  obtain j where j: "Interest_wireDecode ?i b = Inr j" "interest_same ?n i j" "wire (i_wire j) = wire b" "nonce_inside j"
      "block_size (i_wire j) = block_size b"
    using holds_interest [OF b(3) assms(1,2,4) b(2)] by blast
  obtain z where z: "Interest_wireDecode Interest_new b = Inr z" "interest_same ?n i z"
    using holds_interest [OF b(3) assms(1,2,4) b(2)] by blast
  have "block_size b = Inr (length (tlv tlv_Interest (elems_bytes (interest_elems ?n i))))"
    if "length (tlv tlv_Interest (elems_bytes (interest_elems ?n i))) < 2 ^ 32"
    using shortest_size(1) [OF holds_shortest [OF b(3) that]] holds_sel [OF b(3)] by simp
  then show ?thesis using assms(5) nb(1) b j z
    by (intro exI [of _ j] exI [of _ z]) (simp add: Interest_wire_def Interest_of_block_def holds_def)
qed


text \<open>
  C24. The wire format of an Interest. Encoding chooses a nonce when there is none, writes the name, the
  selectors and the lifetime when they are not the defaults, the nonce, and the link with the position of the
  selected delegation, and decodes its own wire again: the Interest then has the same fields, an unset
  lifetime being the default. An Interest decoded from these bytes has the same fields.
\<close>

theorem Interest_wire_roundtrip:
  assumes "interest_ok i" and "link_ok i" and "nonce_ok i" and "i_interestLifetime i < 2 ^ 63" and "\<not> hasWire (i_wire i)"
    and "length (elems_bytes (interest_elems (nonce_value r i) i)) < 2 ^ 63"
  shows "\<exists>j z. Interest_wire r i = Inr j
    \<and> wire (i_wire j) = Inr (tlv tlv_Interest (elems_bytes (interest_elems (nonce_value r i) i)))
    \<and> interest_same (nonce_value r i) i j
    \<and> bindE (Block_buffer (tlv tlv_Interest (elems_bytes (interest_elems (nonce_value r i) i)))) Interest_of_block = Inr z
    \<and> interest_same (nonce_value r i) i z"
  using Interest_wire_run [OF assms] by blast

lemma demo_interest_parts:
  "link_ok demo_interest" "nonce_ok demo_interest" "i_interestLifetime demo_interest < 2 ^ 63" "\<not> hasWire (i_wire demo_interest)"
  "nonce_value r demo_interest = r"
  by (simp_all add: demo_interest_def Interest_of_name_def Interest_new_def link_ok_def hasLink_def nonce_ok_def milliseconds_min_def
      nonce_value_def hasWire_def Block_empty_def)

lemma demo_interest_small: "length (elems_bytes (interest_elems r demo_interest)) < 2000"
proof -
  have v: "block_value (Block_value t v) = v" for t v by (simp add: Block_value_def block_value_def range_of_def Let_def)
  have n: "length (elems_bytes (map elem_of (m_subBlocks demo_name))) \<le> 38"
    using elems_length_le [of "map elem_of (m_subBlocks demo_name)"] by (simp add: demo_name_def elem_of_def v)
  let ?s = "i_selectors demo_interest"
  have x: "length (elems_bytes (map elem_of (exclude_blocks demo_range))) \<le> 57"
    using elems_length_le [of "map elem_of (exclude_blocks demo_range)"]
    by (simp add: demo_range_def exclude_blocks_def entry_blocks_def elem_of_def v)
  have s: "length (elems_bytes (sel_elems ?s)) \<le> 200"
    using elems_length_le [of "sel_elems ?s"] x nni_length_le [of 1]
    by (simp add: sel_elems_def demo_interest_def Interest_of_name_def demo_selectors_def Selectors_new_def int_elems_def
        KeyLocator_empty_def KeyLocator_new_def exclude_elem_def comps_elems Exclude_empty_def demo_range_def)
  have "interest_elems r demo_interest = [name_elem demo_name] @ (if Selectors_empty ?s then [] else [sel_elem ?s]) @ [(tlv_Nonce, nonce_bytes r)]"
    by (simp add: interest_elems_def demo_interest_def Interest_of_name_def Interest_new_def link_elems_def lifetime_elems_def
        milliseconds_min_def hasLink_def)
  then show ?thesis using elems_length_le [of "interest_elems r demo_interest"] n s
    by (auto simp: name_elem_def comps_elems sel_elem_def split: if_splits)
qed

theorem Interest_wire_roundtrip_witness:
  "\<exists>j z. Interest_wire 7 demo_interest = Inr j
    \<and> wire (i_wire j) = Inr (tlv tlv_Interest (elems_bytes (interest_elems 7 demo_interest)))
    \<and> interest_same 7 demo_interest j
    \<and> bindE (Block_buffer (tlv tlv_Interest (elems_bytes (interest_elems 7 demo_interest)))) Interest_of_block = Inr z
    \<and> interest_same 7 demo_interest z"
  using Interest_wire_roundtrip [OF demo_interest_ok demo_interest_parts(1-4), of 7] demo_interest_small [of 7]
  by (simp add: demo_interest_parts(5))


section \<open>Refreshing the nonce\<close>

lemma draw_other_None: "draw_other rnd n k = Some y \<Longrightarrow> \<exists>d \<ge> k. rnd d \<noteq> n"
proof (erule draw_other.raw_induct [of "\<lambda>rnd n k y. \<exists>d \<ge> k. rnd d \<noteq> n", rotated])
  fix f :: "(nat \<Rightarrow> 32 word) \<Rightarrow> 32 word \<Rightarrow> nat \<Rightarrow> (32 word \<times> nat) option" and rnd n k y
  assume IH: "\<And>rnd n k y. f rnd n k = Some y \<Longrightarrow> \<exists>d \<ge> k. rnd d \<noteq> n"
    and run: "(if rnd k = n then f rnd n (k + 1) else Some (rnd k, k + 1)) = Some y"
  show "\<exists>d \<ge> k. rnd d \<noteq> n"
  proof (cases "rnd k = n")
    case True
    then obtain d where "k + 1 \<le> d" "rnd d \<noteq> n" using IH [of rnd n "k + 1" y] run by auto
    then show ?thesis by (intro exI [of _ d]) simp
  qed blast
qed

lemma draw_other_Some: "k \<le> d \<Longrightarrow> (\<forall>j \<in> {k..<d}. rnd j = n) \<Longrightarrow> rnd d \<noteq> n \<Longrightarrow> draw_other rnd n k = Some (rnd d, d + 1)"
proof (induction "d - k" arbitrary: k)
  case 0
  then show ?case by (subst draw_other.simps) simp
next
  case (Suc l)
  then have "draw_other rnd n (k + 1) = Some (rnd d, d + 1)" by (intro Suc.hyps(1)) auto
  then show ?case using Suc by (subst draw_other.simps) auto
qed

lemma nonce_inside_setNonce:
  assumes "nonce_inside i" and "wire (i_wire i) = Inr w"
  shows "\<exists>j p. setNonce n i = Inr j \<and> read_nonce j = Inr n \<and> wire (i_wire j) = Inr (take p w @ nonce_bytes n @ drop (p + 4) w)
    \<and> take 4 (drop p w) = block_value (i_nonce i) \<and> length w \<ge> p + 4
    \<and> j\<lparr>i_nonce := i_nonce i, i_wire := i_wire i\<rparr> = i"
  using setNonce_inside [of i _ w n] assms by (auto simp: nonce_inside_def split: option.splits)

text \<open>
  Refreshing the nonce of a decoded Interest. It returns exactly when some number drawn from then on
  differs from the nonce; the nonce is then the first such number, and of the wire only the four bytes of the
  nonce have changed: the Interest is not encoded again.
\<close>

theorem refreshNonce_in_place:
  assumes "nonce_inside i" and "wire (i_wire i) = Inr w" and "read_nonce i = Inr old"
  shows "(refreshNonce rnd k i = None \<longleftrightarrow> (\<forall>d \<ge> k. rnd d = old))
    \<and> (\<forall>d \<ge> k. (\<forall>j \<in> {k..<d}. rnd j = old) \<longrightarrow> rnd d \<noteq> old \<longrightarrow>
      (\<exists>j p. refreshNonce rnd k i = Some (Inr (j, d + 1)) \<and> read_nonce j = Inr (rnd d)
        \<and> wire (i_wire j) = Inr (take p w @ nonce_bytes (rnd d) @ drop (p + 4) w)
        \<and> take 4 (drop p w) = block_value (i_nonce i) \<and> j\<lparr>i_nonce := i_nonce i, i_wire := i_wire i\<rparr> = i))"
proof -
  have h: "hasWire (i_nonce i)" using assms(1) by (simp add: nonce_inside_def)
  have found: "\<exists>j p. refreshNonce rnd k i = Some (Inr (j, d + 1)) \<and> read_nonce j = Inr (rnd d)
        \<and> wire (i_wire j) = Inr (take p w @ nonce_bytes (rnd d) @ drop (p + 4) w)
        \<and> take 4 (drop p w) = block_value (i_nonce i) \<and> j\<lparr>i_nonce := i_nonce i, i_wire := i_wire i\<rparr> = i"
    if "k \<le> d" "\<forall>j \<in> {k..<d}. rnd j = old" "rnd d \<noteq> old" for d
  proof -
    obtain j p where j: "setNonce (rnd d) i = Inr j" "read_nonce j = Inr (rnd d)"
        "wire (i_wire j) = Inr (take p w @ nonce_bytes (rnd d) @ drop (p + 4) w)"
        "take 4 (drop p w) = block_value (i_nonce i)" "j\<lparr>i_nonce := i_nonce i, i_wire := i_wire i\<rparr> = i"
      using nonce_inside_setNonce [OF assms(1,2), of "rnd d"] by blast
    then have "refreshNonce rnd k i = Some (Inr (j, d + 1))"
      using draw_other_Some [OF that] h assms(3) by (simp add: refreshNonce_def)
    then show ?thesis using j by blast
  qed
  have "refreshNonce rnd k i \<noteq> None" if d: "d \<ge> k" "rnd d \<noteq> old" for d
  proof -
    obtain e where e: "k \<le> e \<and> rnd e \<noteq> old" "\<And>j. k \<le> j \<and> rnd j \<noteq> old \<Longrightarrow> e \<le> j"
      using ex_has_least_nat [of "\<lambda>e. k \<le> e \<and> rnd e \<noteq> old" d "\<lambda>e. e"] d by blast
    then have "\<forall>j \<in> {k..<e}. rnd j = old" by (meson atLeastLessThan_iff not_le)
    from found [OF _ this] e(1) obtain j where "refreshNonce rnd k i = Some (Inr (j, e + 1))" by blast
    then show ?thesis by simp
  qed
  moreover have "refreshNonce rnd k i = None" if "\<forall>d \<ge> k. rnd d = old"
  proof (cases "draw_other rnd old k")
    case None
    then show ?thesis using h assms(3) by (simp add: refreshNonce_def)
  next
    case (Some x)
    then show ?thesis using draw_other_None [OF Some] that by auto
  qed
  ultimately have "refreshNonce rnd k i = None \<longleftrightarrow> (\<forall>d \<ge> k. rnd d = old)" by blast
  then show ?thesis using found by (intro conjI allI impI) blast+
qed


theorem refreshNonce_in_place_witness:
  "\<exists>i w j p. Interest_wire 7 demo_interest = Inr i \<and> wire (i_wire i) = Inr w
    \<and> refreshNonce (\<lambda>k. if k < 2 then 7 else 9) 0 i = Some (Inr (j, 3)) \<and> read_nonce j = Inr 9
    \<and> wire (i_wire j) = Inr (take p w @ nonce_bytes 9 @ drop (p + 4) w) \<and> refreshNonce (\<lambda>k. 7) 0 i = None"
proof -
  obtain i where i: "Interest_wire 7 demo_interest = Inr i" "wire (i_wire i) = Inr (tlv tlv_Interest (elems_bytes (interest_elems 7 demo_interest)))"
      "interest_same 7 demo_interest i" "nonce_inside i"
    using Interest_wire_run [OF demo_interest_ok demo_interest_parts(1-4), of 7] demo_interest_small [of 7]
    by (auto simp: demo_interest_parts(5))
  then have old: "read_nonce i = Inr 7" by (simp add: interest_same_def)
  let ?rnd = "\<lambda>k::nat. if k < 2 then 7 else 9 :: 32 word"
  have d: "\<forall>j \<in> {0..<2}. ?rnd j = 7" "?rnd 2 \<noteq> 7" by simp_all
  from refreshNonce_in_place [OF i(4,2) old, of ?rnd 0, THEN conjunct2, rule_format, of 2] d
  obtain j p where "refreshNonce ?rnd 0 i = Some (Inr (j, 2 + 1))" "read_nonce j = Inr (?rnd 2)"
      "wire (i_wire j) = Inr (take p (tlv tlv_Interest (elems_bytes (interest_elems 7 demo_interest))) @ nonce_bytes (?rnd 2)
         @ drop (p + 4) (tlv tlv_Interest (elems_bytes (interest_elems 7 demo_interest))))" by blast
  moreover have "refreshNonce (\<lambda>k. 7) 0 i = None" using refreshNonce_in_place [OF i(4,2) old, of "\<lambda>k. 7" 0] by simp
  ultimately show ?thesis using i(1,2) by (intro exI [of _ i] exI) (simp add: eval_nat_numeral)
qed

end
