(* ===== verification/Scheduler.thy ===== *)
theory Scheduler
  imports Prelude
begin

text \<open>
  The scheduler of the library (util/scheduler.cpp, util/scheduler-scoped-event-id.cpp): a queue of events
  ordered by the time they expire, of which the first has the deadline timer set.

  An event is known by a number, the address of its \<open>EventInfo\<close>; an \<open>EventId\<close> is a weak pointer to it. The
  queue owns its events, so that a pointer is expired, or its event marked as expired while it is executed,
  exactly when the event is not in the queue. Times are nanoseconds in 64 bits, and the time an event expires
  wraps around; what the clock says is an argument. Only the delay the timer is set to is the exact difference.
  The deadline timer belongs to Boost: the model has the calls made to it. What a callback does to the
  program around the scheduler and to the scheduler itself is a parameter of the execution.
\<close>

section \<open>Times\<close>

text \<open>A signed integer of 64 bits, the representation of every duration and time of the library.\<close>

definition int64 :: "int \<Rightarrow> int" where
  "int64 x = sint (word_of_int x :: 64 word)"

lemma int64_small [simp]: "- (2 ^ 63) \<le> x \<Longrightarrow> x < 2 ^ 63 \<Longrightarrow> int64 x = x"
  unfolding int64_def by (simp only: sint_sbintrunc') (simp add: signed_take_bit_int_eq_self)

lemma int64_range: "- (2 ^ 63) \<le> int64 x" "int64 x < 2 ^ 63"
  using sint_greater_eq [of "word_of_int x :: 64 word"] sint_less [of "word_of_int x :: 64 word"] by (simp_all add: int64_def)


section \<open>The queue\<close>

datatype timer_call =
    Timer_cancel
  | Timer_expires_from_now int int
  | Timer_async_wait

type_synonym event_id = "nat option"

record 'c event_info =
  ev_id :: nat
  expireTime :: int
  callback :: 'c

record 'c scheduler =
  m_queue :: "'c event_info list"
  next_event :: nat
  m_isEventExecuting :: bool
  m_deadlineTimer :: "timer_call list"

definition Scheduler_new :: "'c scheduler" where
  "Scheduler_new = \<lparr>m_queue = [], next_event = 0, m_isEventExecuting = False, m_deadlineTimer = []\<rparr>"

definition expiresFromNow :: "int \<Rightarrow> 'c event_info \<Rightarrow> int" where
  "expiresFromNow now e = max (expireTime e - now) 0"

definition EventId_valid :: "'c scheduler \<Rightarrow> event_id \<Rightarrow> bool" where
  "EventId_valid s i = (case i of None \<Rightarrow> False | Some k \<Rightarrow> \<exists>e \<in> set (m_queue s). ev_id e = k)"

definition EventId_equals :: "'c scheduler \<Rightarrow> event_id \<Rightarrow> event_id \<Rightarrow> bool" where
  "EventId_equals s i j \<longleftrightarrow> (\<not> EventId_valid s i \<and> \<not> EventId_valid s j) \<or> i = j"

text \<open>\<open>std::multiset::insert\<close>: behind the events that expire no later.\<close>

fun queue_insert :: "'c event_info \<Rightarrow> 'c event_info list \<Rightarrow> 'c event_info list" where
  "queue_insert e [] = [e]"
| "queue_insert e (x # xs) = (if expireTime e < expireTime x then e # x # xs else x # queue_insert e xs)"

definition scheduleNext :: "int \<Rightarrow> 'c scheduler \<Rightarrow> 'c scheduler" where
  "scheduleNext now s = (case m_queue s of
     [] \<Rightarrow> s
   | e # _ \<Rightarrow> s\<lparr>m_deadlineTimer := m_deadlineTimer s @ [Timer_expires_from_now now (expiresFromNow now e), Timer_async_wait]\<rparr>)"

definition scheduleEvent :: "int \<Rightarrow> int \<Rightarrow> 'c \<Rightarrow> 'c scheduler \<Rightarrow> event_id \<times> 'c scheduler" where
  "scheduleEvent now after c s =
     (let e = \<lparr>ev_id = next_event s, expireTime = int64 (now + after), callback = c\<rparr>;
          s = s\<lparr>m_queue := queue_insert e (m_queue s), next_event := next_event s + 1\<rparr>;
          s = (if \<not> m_isEventExecuting s \<and> ev_id (hd (m_queue s)) = ev_id e then scheduleNext now s else s)
      in (Some (ev_id e), s))"

definition cancelEvent :: "int \<Rightarrow> event_id \<Rightarrow> 'c scheduler \<Rightarrow> 'c scheduler" where
  "cancelEvent now i s =
     (if \<not> EventId_valid s i then s
      else
        let s = (if Some (ev_id (hd (m_queue s))) = i then s\<lparr>m_deadlineTimer := m_deadlineTimer s @ [Timer_cancel]\<rparr> else s);
            s = s\<lparr>m_queue := filter (\<lambda>e. Some (ev_id e) \<noteq> i) (m_queue s)\<rparr>
        in if \<not> m_isEventExecuting s then scheduleNext now s else s)"

definition cancelAllEvents :: "'c scheduler \<Rightarrow> 'c scheduler" where
  "cancelAllEvents s = s\<lparr>m_queue := [], m_deadlineTimer := m_deadlineTimer s @ [Timer_cancel]\<rparr>"

text \<open>
  The events that have expired, in turn: what a callback does to the program \<open>'w\<close> and to the scheduler, and
  the exception that it may throw. A callback that schedules an event that has already expired is followed by
  that event, so that the loop may run forever.
\<close>

partial_function (option) execute_loop ::
  "('c \<Rightarrow> 'w \<times> 'c scheduler \<Rightarrow> ('w \<times> 'c scheduler) \<times> exn option) \<Rightarrow> int \<Rightarrow> 'w \<times> 'c scheduler
    \<Rightarrow> (('w \<times> 'c scheduler) \<times> exn option) option" where
  "execute_loop run now ws =
     (case m_queue (snd ws) of
        [] \<Rightarrow> Some (ws, None)
      | info # rest \<Rightarrow>
          if expireTime info > now then Some (ws, None)
          else (case run (callback info) (fst ws, (snd ws)\<lparr>m_queue := rest\<rparr>) of
              (ws, None) \<Rightarrow> execute_loop run now ws
            | (ws, Some ex) \<Rightarrow> Some (ws, Some ex)))"

text \<open>The handler of the timer; the clock is read again when the next event is scheduled on the way out.\<close>

definition executeEvent ::
  "('c \<Rightarrow> 'w \<times> 'c scheduler \<Rightarrow> ('w \<times> 'c scheduler) \<times> exn option) \<Rightarrow> bool \<Rightarrow> int \<Rightarrow> int \<Rightarrow> 'w \<times> 'c scheduler
    \<Rightarrow> (('w \<times> 'c scheduler) \<times> exn option) option" where
  "executeEvent run error now now' ws =
     (if error then Some (ws, None)
      else (case execute_loop run now (fst ws, (snd ws)\<lparr>m_isEventExecuting := True\<rparr>) of
          None \<Rightarrow> None
        | Some (ws, ex) \<Rightarrow> Some ((fst ws, scheduleNext now' ((snd ws)\<lparr>m_isEventExecuting := False\<rparr>)), ex)))"


section \<open>Scoped events\<close>

text \<open>A \<open>ScopedEventId\<close> is the event it holds; its destructor is \<open>ScopedEventId_cancel\<close>.\<close>

definition ScopedEventId_assign :: "int \<Rightarrow> event_id \<Rightarrow> event_id \<times> 'c scheduler \<Rightarrow> event_id \<times> 'c scheduler" where
  "ScopedEventId_assign now event = (\<lambda>(m_event, s).
     if \<not> EventId_equals s m_event event then (event, cancelEvent now m_event s) else (m_event, s))"

definition ScopedEventId_cancel :: "int \<Rightarrow> event_id \<times> 'c scheduler \<Rightarrow> event_id \<times> 'c scheduler" where
  "ScopedEventId_cancel now = (\<lambda>(m_event, s). (m_event, cancelEvent now m_event s))"

definition ScopedEventId_release :: "event_id \<times> 'c scheduler \<Rightarrow> event_id \<times> 'c scheduler" where
  "ScopedEventId_release = (\<lambda>(m_event, s). (None, s))"


section \<open>The queue as a sorted list\<close>

definition queue_ok :: "'c event_info list \<Rightarrow> bool" where
  "queue_ok q \<longleftrightarrow> sorted (map expireTime q) \<and> distinct (map ev_id q)"

definition scheduler_ok :: "'c scheduler \<Rightarrow> bool" where
  "scheduler_ok s \<longleftrightarrow> queue_ok (m_queue s) \<and> (\<forall>e \<in> set (m_queue s). ev_id e < next_event s)"

text \<open>The time the timer is set to, when somebody waits for it, as the documentation of the timer says.\<close>

fun pending :: "timer_call list \<Rightarrow> int option \<Rightarrow> int option \<Rightarrow> int option" where
  "pending [] expiry waits = waits"
| "pending (Timer_cancel # cs) expiry waits = pending cs expiry None"
| "pending (Timer_expires_from_now now d # cs) expiry waits = pending cs (Some (now + d)) None"
| "pending (Timer_async_wait # cs) expiry waits = pending cs expiry expiry"

definition armed :: "'c scheduler \<Rightarrow> int option" where
  "armed s = pending (m_deadlineTimer s) None None"

text \<open>Outside of the handler the timer is set for the first event: for its time, or for a time later than
  that at which the clock was read.\<close>

definition timer_ok :: "'c scheduler \<Rightarrow> bool" where
  "timer_ok s \<longleftrightarrow> (case m_queue s of [] \<Rightarrow> True | e # _ \<Rightarrow> m_isEventExecuting s \<or> (\<exists>t \<ge> expireTime e. armed s = Some t))"

lemma queue_insert_sorted:
  "sorted (map expireTime q) \<Longrightarrow>
    queue_insert e q = filter (\<lambda>x. expireTime x \<le> expireTime e) q @ e # filter (\<lambda>x. expireTime x > expireTime e) q"
proof (induction q)
  case (Cons x q)
  then show ?case
  proof (cases "expireTime e < expireTime x")
    case True
    then have "\<forall>y \<in> set q. expireTime e < expireTime y" using Cons.prems by fastforce
    then have "filter (\<lambda>x. expireTime x \<le> expireTime e) q = []" "filter (\<lambda>x. expireTime x > expireTime e) q = q"
      by (auto simp: filter_empty_conv not_le)
    then show ?thesis using True by simp
  qed simp
qed simp

lemma queue_insert_set [simp]: "set (queue_insert e q) = insert e (set q)"
  by (induction q) auto

lemma queue_insert_ids: "distinct (map ev_id q) \<Longrightarrow> ev_id e \<notin> ev_id ` set q \<Longrightarrow> distinct (map ev_id (queue_insert e q))"
  by (induction q) auto

lemma queue_insert_times: "sorted (map expireTime q) \<Longrightarrow> sorted (map expireTime (queue_insert e q))"
  by (induction q) auto

lemma queue_insert_hd: "hd (queue_insert e q) = (if q \<noteq> [] \<and> expireTime (hd q) \<le> expireTime e then hd q else e)"
  by (cases q) auto

lemma pending_append: "pending (cs @ [Timer_expires_from_now now d, Timer_async_wait]) e w = Some (now + d)"
  by (induction cs e w rule: pending.induct) simp_all

lemma scheduleNext_sel [simp]:
  "m_queue (scheduleNext now s) = m_queue s" "next_event (scheduleNext now s) = next_event s"
  "m_isEventExecuting (scheduleNext now s) = m_isEventExecuting s"
  by (simp_all add: scheduleNext_def split: list.split)

lemma scheduleNext_armed: "timer_ok (scheduleNext now s)"
  by (cases "m_queue s") (auto simp: timer_ok_def scheduleNext_def armed_def pending_append expiresFromNow_def)

lemma scheduleEvent_run:
  "fst (scheduleEvent now after c s) = Some (next_event s)"
  "m_queue (snd (scheduleEvent now after c s)) = queue_insert \<lparr>ev_id = next_event s, expireTime = int64 (now + after), callback = c\<rparr> (m_queue s)"
  "next_event (snd (scheduleEvent now after c s)) = next_event s + 1"
  "m_isEventExecuting (snd (scheduleEvent now after c s)) = m_isEventExecuting s"
  by (simp_all add: scheduleEvent_def Let_def)

lemma cancelEvent_run:
  "m_queue (cancelEvent now i s) = filter (\<lambda>e. Some (ev_id e) \<noteq> i) (m_queue s)"
  "next_event (cancelEvent now i s) = next_event s" "m_isEventExecuting (cancelEvent now i s) = m_isEventExecuting s"
proof -
  have "filter (\<lambda>e. Some (ev_id e) \<noteq> i) (m_queue s) = m_queue s" if "\<not> EventId_valid s i"
    using that by (auto simp: EventId_valid_def filter_id_conv split: option.splits)
  then show "m_queue (cancelEvent now i s) = filter (\<lambda>e. Some (ev_id e) \<noteq> i) (m_queue s)"
    by (auto simp: cancelEvent_def Let_def)
  show "next_event (cancelEvent now i s) = next_event s" "m_isEventExecuting (cancelEvent now i s) = m_isEventExecuting s"
    by (simp_all add: cancelEvent_def Let_def)
qed


lemmas scheduler_simps = scheduleEvent_run cancelEvent_run scheduleNext_sel

lemma scheduleEvent_ok: "scheduler_ok s \<Longrightarrow> scheduler_ok (snd (scheduleEvent now after c s))"
  unfolding scheduler_ok_def queue_ok_def scheduler_simps
  by (intro conjI queue_insert_times queue_insert_ids) auto

lemma scheduleEvent_timer:
  assumes "scheduler_ok s" and "timer_ok s"
  shows "timer_ok (snd (scheduleEvent now after c s))"
proof (cases "m_isEventExecuting s")
  case True
  then show ?thesis using scheduleEvent_run(4) [of now after c s] by (simp add: timer_ok_def split: list.split)
next
  case False
  let ?e = "\<lparr>ev_id = next_event s, expireTime = int64 (now + after), callback = c\<rparr>"
  let ?s = "s\<lparr>m_queue := queue_insert ?e (m_queue s), next_event := next_event s + 1\<rparr>"
  show ?thesis
  proof (cases "ev_id (hd (m_queue ?s)) = next_event s")
    case True
    then have "snd (scheduleEvent now after c s) = scheduleNext now ?s" using False by (simp add: scheduleEvent_def Let_def)
    then show ?thesis using scheduleNext_armed by metis
  next
    case F: False
    then have run: "snd (scheduleEvent now after c s) = ?s" by (simp add: scheduleEvent_def Let_def)
    then obtain x xs where "m_queue s = x # xs" "m_queue ?s = x # queue_insert ?e xs" using F by (cases "m_queue s") (auto split: if_splits)
    then show ?thesis unfolding run using False assms(2) by (simp add: timer_ok_def armed_def)
  qed
qed

lemma cancelEvent_ok: "scheduler_ok s \<Longrightarrow> scheduler_ok (cancelEvent now i s)"
  by (auto simp: scheduler_ok_def queue_ok_def scheduler_simps sorted_filter distinct_map_filter)

lemma cancelEvent_timer: "timer_ok s \<Longrightarrow> timer_ok (cancelEvent now i s)"
proof -
  assume t: "timer_ok s"
  show ?thesis
  proof (cases "\<not> EventId_valid s i")
    case True
    then show ?thesis using t by (simp add: cancelEvent_def)
  next
    case False
    show ?thesis
    proof (cases "m_isEventExecuting s")
      case True
      then show ?thesis using cancelEvent_run(3) [of now i s] by (simp add: timer_ok_def split: list.split)
    next
      case F: False
      then show ?thesis using False by (simp add: cancelEvent_def Let_def scheduleNext_armed)
    qed
  qed
qed



section \<open>Executing events\<close>

text \<open>What holds of every execution that returns: a property that every callback keeps, and no event left
  that has expired, unless a callback has thrown.\<close>

lemma execute_loop_rule':
  fixes run :: "'c \<Rightarrow> 'w \<times> 'c scheduler \<Rightarrow> ('w \<times> 'c scheduler) \<times> exn option"
  assumes "execute_loop run now ws = Some y" and "I ws"
    and step: "\<And>w s info rest t e. I (w, s) \<Longrightarrow> m_queue s = info # rest \<Longrightarrow> expireTime info \<le> now \<Longrightarrow>
      run (callback info) (w, s\<lparr>m_queue := rest\<rparr>) = (t, e) \<Longrightarrow> if e = None then I t else J t"
  shows "if snd y = None then I (fst y) \<and> (case m_queue (snd (fst y)) of [] \<Rightarrow> True | e # _ \<Rightarrow> now < expireTime e) else J (fst y)"
    (is "?Q y")
proof -
  have "run = run \<longrightarrow> now = now \<longrightarrow> I ws \<longrightarrow> ?Q y"
  proof (rule execute_loop.raw_induct [of "\<lambda>run' now' ws y. run' = run \<longrightarrow> now' = now \<longrightarrow> I ws \<longrightarrow> ?Q y", OF _ assms(1)])
    fix loop :: "('c \<Rightarrow> 'w \<times> 'c scheduler \<Rightarrow> ('w \<times> 'c scheduler) \<times> exn option) \<Rightarrow> int \<Rightarrow> 'w \<times> 'c scheduler
        \<Rightarrow> (('w \<times> 'c scheduler) \<times> exn option) option" and run' now' ws y
    assume IH: "\<And>run' now' ws y. loop run' now' ws = Some y \<Longrightarrow> run' = run \<longrightarrow> now' = now \<longrightarrow> I ws \<longrightarrow> ?Q y"
      and body: "(case m_queue (snd ws) of [] \<Rightarrow> Some (ws, None)
        | info # rest \<Rightarrow>
          if expireTime info > now' then Some (ws, None)
          else (case run' (callback info) (fst ws, (snd ws)\<lparr>m_queue := rest\<rparr>) of
              (ws, None) \<Rightarrow> loop run' now' ws
            | (ws, Some ex) \<Rightarrow> Some (ws, Some ex))) = Some y"
    show "run' = run \<longrightarrow> now' = now \<longrightarrow> I ws \<longrightarrow> ?Q y"
    proof (intro impI)
      assume e: "run' = run" "now' = now" and I: "I ws"
      show "?Q y"
      proof (cases "m_queue (snd ws)")
        case Nil
        then show ?thesis using body I by auto
      next
        case (Cons info rest)
        show ?thesis
        proof (cases "expireTime info > now")
          case True
          then show ?thesis using body I e Cons by auto
        next
          case False
          obtain t ex where r: "run (callback info) (fst ws, (snd ws)\<lparr>m_queue := rest\<rparr>) = (t, ex)" by fastforce
          have "if ex = None then I t else J t" using step [of "fst ws" "snd ws" info rest t ex] I Cons False r by simp
          then show ?thesis using body e Cons False r IH [of run now t y] by (cases ex) auto
        qed
      qed
    qed
  qed
  then show ?thesis using assms(2) by blast
qed

lemma execute_loop_rule:
  fixes run :: "'c \<Rightarrow> 'w \<times> 'c scheduler \<Rightarrow> ('w \<times> 'c scheduler) \<times> exn option"
  assumes "execute_loop run now ws = Some y" and "I ws"
    and "\<And>w s info rest t e. I (w, s) \<Longrightarrow> m_queue s = info # rest \<Longrightarrow> expireTime info \<le> now \<Longrightarrow>
      run (callback info) (w, s\<lparr>m_queue := rest\<rparr>) = (t, e) \<Longrightarrow> I t"
  shows "I (fst y) \<and> (snd y = None \<longrightarrow> (case m_queue (snd (fst y)) of [] \<Rightarrow> True | e # _ \<Rightarrow> now < expireTime e))"
  using execute_loop_rule' [OF assms(1), of I I] assms(2,3) by (auto split: if_splits)


text \<open>Callbacks that may schedule and cancel events, but none that has expired when it is scheduled.\<close>

definition polite :: "('c \<Rightarrow> 'w \<times> 'c scheduler \<Rightarrow> ('w \<times> 'c scheduler) \<times> exn option) \<Rightarrow> int \<Rightarrow> bool" where
  "polite run now \<longleftrightarrow> (\<forall>c w t. scheduler_ok t \<longrightarrow> m_isEventExecuting t \<longrightarrow>
     (case run c (w, t) of ((w', t'), ex) \<Rightarrow> scheduler_ok t' \<and> m_isEventExecuting t'
        \<and> (\<forall>e \<in> set (m_queue t'). expireTime e \<le> now \<longrightarrow> e \<in> set (m_queue t))))"

definition expired :: "int \<Rightarrow> 'c scheduler \<Rightarrow> 'c event_info set" where
  "expired now s = {e \<in> set (m_queue s). expireTime e \<le> now}"

lemma politeD:
  assumes "polite run now" and "scheduler_ok t" and "m_isEventExecuting t" and "run c (w, t) = ((w', t'), ex)"
  shows "scheduler_ok t'" and "m_isEventExecuting t'" and "expired now t' \<subseteq> set (m_queue t)"
proof -
  have "scheduler_ok t' \<and> m_isEventExecuting t' \<and> (\<forall>e \<in> set (m_queue t'). expireTime e \<le> now \<longrightarrow> e \<in> set (m_queue t))"
    using assms(1) [unfolded polite_def, rule_format, OF assms(2,3), of c w] assms(4) by simp
  then show "scheduler_ok t'" and "m_isEventExecuting t'" and "expired now t' \<subseteq> set (m_queue t)"
    by (auto simp: expired_def)
qed

lemma scheduler_ok_tl: "scheduler_ok s \<Longrightarrow> m_queue s = e # q \<Longrightarrow> scheduler_ok (s\<lparr>m_queue := q\<rparr>)"
  by (auto simp: scheduler_ok_def queue_ok_def)

lemma execute_loop_returns:
  assumes "polite run now" and "scheduler_ok s" and "m_isEventExecuting s"
  shows "\<exists>y. execute_loop run now (w, s) = Some y"
  using assms(2,3)
proof (induction "card (expired now s)" arbitrary: w s rule: less_induct)
  case less
  show ?case
  proof (cases "m_queue s = [] \<or> expireTime (hd (m_queue s)) > now")
    case True
    then show ?thesis by (cases "m_queue s") (simp_all add: execute_loop.simps)
  next
    case False
    then obtain info rest where q: "m_queue s = info # rest" "expireTime info \<le> now" by (cases "m_queue s") auto
    obtain w' t ex where r: "run (callback info) (w, s\<lparr>m_queue := rest\<rparr>) = ((w', t), ex)" by (metis surj_pair)
    have s: "scheduler_ok (s\<lparr>m_queue := rest\<rparr>)" "m_isEventExecuting (s\<lparr>m_queue := rest\<rparr>)"
      using scheduler_ok_tl [OF less.prems(1) q(1)] less.prems(2) by simp_all
    note t = politeD [OF assms(1) s r]
    have "info \<notin> set rest" using less.prems(1) q(1) by (auto simp: scheduler_ok_def queue_ok_def)
    then have "expired now t \<subset> expired now s" using t(3) q by (auto simp: expired_def)
    then have "card (expired now t) < card (expired now s)" by (intro psubset_card_mono) (auto simp: expired_def)
    from less.hyps [OF this t(1,2)] obtain y where "execute_loop run now (w', t) = Some y" by blast
    then show ?thesis using q r by (cases ex) (simp_all add: execute_loop.simps [of run now "(w, s)"])
  qed
qed


lemma execute_quiet:
  assumes "scheduler_ok s" and "\<forall>c w t. run c (w, t) = ((f c w, t), None)"
  shows "executeEvent run False now now' (w, s)
    = Some ((foldl (\<lambda>w e. f (callback e) w) w (filter (\<lambda>e. expireTime e \<le> now) (m_queue s)),
        scheduleNext now' (s\<lparr>m_queue := filter (\<lambda>e. now < expireTime e) (m_queue s), m_isEventExecuting := False\<rparr>)), None)"
proof -
  have "execute_loop run now (w, s) = Some ((foldl (\<lambda>w e. f (callback e) w) w (filter (\<lambda>e. expireTime e \<le> now) (m_queue s)),
      s\<lparr>m_queue := filter (\<lambda>e. now < expireTime e) (m_queue s)\<rparr>), None)" if "scheduler_ok s" for s w
    using that
  proof (induction "m_queue s" arbitrary: w s)
    case Nil
    then show ?case by (simp add: execute_loop.simps [of run now "(w, s)"])
  next
    case (Cons e q)
    have q: "m_queue s = e # q" using Cons.hyps(2) by simp
    show ?case
    proof (cases "now < expireTime e")
      case True
      then have "\<forall>x \<in> set (m_queue s). now < expireTime x" using Cons.prems q by (fastforce simp: scheduler_ok_def queue_ok_def)
      then have "filter (\<lambda>e. expireTime e \<le> now) (m_queue s) = []" "filter (\<lambda>e. now < expireTime e) (m_queue s) = m_queue s"
        by (auto simp: filter_empty_conv filter_id_conv)
      then show ?thesis using True q by (simp add: execute_loop.simps [of run now "(w, s)"])
    next
      case False
      have "execute_loop run now (f (callback e) w, s\<lparr>m_queue := q\<rparr>) = Some ((foldl (\<lambda>w e. f (callback e) w) (f (callback e) w)
          (filter (\<lambda>e. expireTime e \<le> now) q), s\<lparr>m_queue := filter (\<lambda>e. now < expireTime e) q\<rparr>), None)"
        using Cons.hyps(1) [of "s\<lparr>m_queue := q\<rparr>" "f (callback e) w"] scheduler_ok_tl [OF Cons.prems q] by simp
      then show ?thesis using False q assms(2) by (simp add: execute_loop.simps [of run now "(w, s)"])
    qed
  qed
  from this [of "s\<lparr>m_isEventExecuting := True\<rparr>" w] assms(1) show ?thesis
    by (simp add: executeEvent_def scheduler_ok_def)
qed

text \<open>
  What a scheduler is for, without a queue and a timer: the events that are scheduled and neither cancelled nor
  executed, in the order in which they were scheduled, and the events executed so far. When the timer fires,
  the events that have expired are executed in the order of their times; \<open>sort_key\<close> is stable, so that those of
  one time are executed in the order in which they were scheduled.
\<close>

datatype 'c timer_op =
    ScheduleOp int int 'c
  | CancelOp int event_id
  | CancelAllOp
  | TimerOp bool int int

fun spec_step :: "'c event_info list \<times> 'c event_info list \<times> nat \<Rightarrow> 'c timer_op \<Rightarrow> 'c event_info list \<times> 'c event_info list \<times> nat" where
  "spec_step (fired, live, n) (ScheduleOp now after c) = (fired, live @ [\<lparr>ev_id = n, expireTime = int64 (now + after), callback = c\<rparr>], n + 1)"
| "spec_step (fired, live, n) (CancelOp now i) = (fired, filter (\<lambda>e. Some (ev_id e) \<noteq> i) live, n)"
| "spec_step (fired, live, n) CancelAllOp = (fired, [], n)"
| "spec_step (fired, live, n) (TimerOp error now now') =
    (if error then (fired, live, n)
     else (fired @ sort_key expireTime (filter (\<lambda>e. expireTime e \<le> now) live), filter (\<lambda>e. now < expireTime e) live, n))"

text \<open>The operations of the code; an exception of a callback ends the run.\<close>

fun run_op ::
  "('c \<Rightarrow> 'w \<times> 'c scheduler \<Rightarrow> ('w \<times> 'c scheduler) \<times> exn option) \<Rightarrow> 'w \<times> 'c scheduler \<Rightarrow> 'c timer_op
    \<Rightarrow> (('w \<times> 'c scheduler) \<times> exn option) option" where
  "run_op run (w, s) (ScheduleOp now after c) = Some ((w, snd (scheduleEvent now after c s)), None)"
| "run_op run (w, s) (CancelOp now i) = Some ((w, cancelEvent now i s), None)"
| "run_op run (w, s) CancelAllOp = Some ((w, cancelAllEvents s), None)"
| "run_op run (w, s) (TimerOp error now now') = executeEvent run error now now' (w, s)"

fun run_ops ::
  "('c \<Rightarrow> 'w \<times> 'c scheduler \<Rightarrow> ('w \<times> 'c scheduler) \<times> exn option) \<Rightarrow> 'w \<times> 'c scheduler \<Rightarrow> 'c timer_op list
    \<Rightarrow> (('w \<times> 'c scheduler) \<times> exn option) option" where
  "run_ops run ws [] = Some (ws, None)"
| "run_ops run ws (x # xs) = (case run_op run ws x of
     Some (ws, None) \<Rightarrow> run_ops run ws xs
   | r \<Rightarrow> r)"

lemma queue_insert_insort: "queue_insert e (insort_key expireTime x q) = insort_key expireTime x (queue_insert e q)"
  by (induction q) auto

lemma queue_insert_sort: "queue_insert e (sort_key expireTime q) = sort_key expireTime (q @ [e])"
  by (induction q) (simp_all add: queue_insert_insort)

lemma timer_op_spec:
  assumes "\<forall>c w t. run c (w, t) = ((f c w, t), None)" and "scheduler_ok s" and "m_queue s = sort_key expireTime live"
    and "spec_step (d, live, next_event s) x = (d', live', n')"
  shows "\<exists>t us. run_op run (w, s) x = Some ((foldl (\<lambda>w e. f (callback e) w) w us, t), None) \<and> d' = d @ us
    \<and> scheduler_ok t \<and> m_queue t = sort_key expireTime live' \<and> next_event t = n'"
proof (cases x)
  case (ScheduleOp now after c)
  then show ?thesis using assms scheduleEvent_ok [OF assms(2), of now after c] queue_insert_sort
    by (intro exI [of _ "snd (scheduleEvent now after c s)"] exI [of _ "[]"]) (auto simp: scheduleEvent_run)
next
  case (CancelOp now i)
  then show ?thesis using assms cancelEvent_ok [OF assms(2), of now i]
    by (intro exI [of _ "cancelEvent now i s"] exI [of _ "[]"]) (auto simp: cancelEvent_run filter_sort)
next
  case CancelAllOp
  then show ?thesis using assms
    by (intro exI [of _ "cancelAllEvents s"] exI [of _ "[]"]) (auto simp: cancelAllEvents_def scheduler_ok_def queue_ok_def)
next
  case (TimerOp error now now')
  show ?thesis
  proof (cases error)
    case True
    then show ?thesis using assms TimerOp by (intro exI [of _ s] exI [of _ "[]"]) (auto simp: executeEvent_def)
  next
    case False
    let ?t = "s\<lparr>m_queue := filter (\<lambda>e. now < expireTime e) (m_queue s), m_isEventExecuting := False\<rparr>"
    have "scheduler_ok ?t" using assms(2) by (auto simp: scheduler_ok_def queue_ok_def sorted_filter distinct_map_filter)
    then have t: "scheduler_ok (scheduleNext now' ?t)" by (simp add: scheduler_ok_def)
    show ?thesis
      using assms(3,4) TimerOp False t execute_quiet [OF assms(2,1), of now now' w]
      by (intro exI [of _ "scheduleNext now' ?t"] exI [of _ "filter (\<lambda>e. expireTime e \<le> now) (m_queue s)"]) (auto simp: filter_sort)
  qed
qed

lemma timer_ops_spec:
  assumes "\<forall>c w t. run c (w, t) = ((f c w, t), None)" and "scheduler_ok s" and "m_queue s = sort_key expireTime live"
    and "foldl spec_step (d, live, next_event s) xs = (d', live', n')"
  shows "\<exists>t us. run_ops run (w, s) xs = Some ((foldl (\<lambda>w e. f (callback e) w) w us, t), None) \<and> d' = d @ us
    \<and> m_queue t = sort_key expireTime live' \<and> next_event t = n'"
  using assms(2-4)
proof (induction xs arbitrary: w s d live)
  case Nil
  then show ?case by (intro exI [of _ s] exI [of _ "[]"]) simp
next
  case (Cons x xs)
  obtain d2 live2 n2 where x: "spec_step (d, live, next_event s) x = (d2, live2, n2)" by (metis surj_pair)
  from timer_op_spec [OF assms(1) Cons.prems(1,2) x, of w] obtain t us
    where t: "run_op run (w, s) x = Some ((foldl (\<lambda>w e. f (callback e) w) w us, t), None)" "d2 = d @ us" "scheduler_ok t"
      "m_queue t = sort_key expireTime live2" "next_event t = n2" by blast
  have "foldl spec_step (d2, live2, next_event t) xs = (d', live', n')" using Cons.prems(3) x t(5) by simp
  from Cons.IH [OF t(3,4) this, of "foldl (\<lambda>w e. f (callback e) w) w us"] obtain u vs
    where u: "run_ops run (foldl (\<lambda>w e. f (callback e) w) w us, t) xs
        = Some ((foldl (\<lambda>w e. f (callback e) w) (foldl (\<lambda>w e. f (callback e) w) w us) vs, u), None)"
      "d' = d2 @ vs" "m_queue u = sort_key expireTime live'" "next_event u = n'" by blast
  show ?case using t(1,2) u by (intro exI [of _ u] exI [of _ "us @ vs"]) simp
qed

text \<open>
  C17. From its construction on, through any sequence of scheduling, cancelling and firing of the timer, the
  scheduler executes what the specification executes, in that order: each time the timer fires, exactly the
  events that were scheduled, not cancelled and not executed yet and that have expired, in the order of their
  times and, among equal times, in the order in which they were scheduled; the others stay in the queue, in this
  order. This is for callbacks that neither throw nor touch the scheduler.
\<close>

theorem executeEvent_order:
  assumes "\<forall>c w t. run c (w, t) = ((f c w, t), None)" and "foldl spec_step ([], [], 0) ops = (fired, live, n)"
  shows "\<exists>s. run_ops run (w, Scheduler_new) ops = Some ((foldl (\<lambda>w e. f (callback e) w) w fired, s), None)
    \<and> m_queue s = sort_key expireTime live \<and> next_event s = n"
proof -
  have "scheduler_ok (Scheduler_new :: 'a scheduler)" by (simp add: Scheduler_new_def scheduler_ok_def queue_ok_def)
  from timer_ops_spec [OF assms(1) this, of "[]" "[]" ops "fired" live n w] assms(2) show ?thesis by (auto simp: Scheduler_new_def)
qed


section \<open>A scheduler\<close>

definition demo_scheduler :: "string scheduler" where
  "demo_scheduler = snd (scheduleEvent 0 5 ''b'' (snd (scheduleEvent 0 9 ''c'' (snd (scheduleEvent 0 5 ''a'' Scheduler_new)))))"

lemma demo_scheduler_ok: "scheduler_ok demo_scheduler" "timer_ok demo_scheduler"
proof -
  have "scheduler_ok (Scheduler_new :: string scheduler)" "timer_ok (Scheduler_new :: string scheduler)"
    by (simp_all add: Scheduler_new_def scheduler_ok_def queue_ok_def timer_ok_def)
  then show "scheduler_ok demo_scheduler" "timer_ok demo_scheduler"
    by (simp_all add: demo_scheduler_def scheduleEvent_ok scheduleEvent_timer)
qed

lemma demo_queue: "map callback (m_queue demo_scheduler) = [''a'', ''b'', ''c'']"
  "map expireTime (m_queue demo_scheduler) = [5, 5, 9]"
  by (simp_all add: demo_scheduler_def scheduleEvent_run Scheduler_new_def)



text \<open>Events of times 5, 9, 5 and 5, of which the first is cancelled; the timer fires at 7.\<close>

theorem executeEvent_order_witness:
  "\<exists>s. run_ops (\<lambda>c ws. ((fst ws @ [c], snd ws), None)) ([], Scheduler_new)
      [ScheduleOp 0 5 ''a'', ScheduleOp 0 9 ''d'', ScheduleOp 0 5 ''b'', ScheduleOp 1 4 ''c'', CancelOp 2 (Some 0), TimerOp False 7 8]
      = Some (([''b'', ''c''], s), None)
    \<and> map callback (m_queue s) = [''d'']"
proof -
  have "\<exists>s. run_ops (\<lambda>c ws. ((fst ws @ [c], snd ws), None)) ([], Scheduler_new)
      [ScheduleOp 0 5 ''a'', ScheduleOp 0 9 ''d'', ScheduleOp 0 5 ''b'', ScheduleOp 1 4 ''c'', CancelOp 2 (Some 0), TimerOp False 7 8]
      = Some ((foldl (\<lambda>w e. w @ [callback e]) [] [\<lparr>ev_id = 2, expireTime = 5, callback = ''b''\<rparr>, \<lparr>ev_id = 3, expireTime = 5, callback = ''c''\<rparr>], s), None)
    \<and> m_queue s = sort_key expireTime [\<lparr>ev_id = 1, expireTime = 9, callback = ''d''\<rparr>] \<and> next_event s = 4"
    by (rule executeEvent_order [of "\<lambda>c ws. ((fst ws @ [c], snd ws), None)" "\<lambda>c w. w @ [c]"]) (simp_all add: eval_nat_numeral)
  then show ?thesis by auto
qed

end
