(* ===== verification/Storage.thy ===== *)
theory Storage
  imports InterestMatch Scheduler
begin

text \<open>
  The in-memory storage of Data packets (util/in-memory-storage.cpp, in-memory-storage-entry.cpp): an ordered
  index of entries by the full names of their packets, a pool of free entries, and a capacity that doubles up
  to a limit. The replacement policies are in StoragePolicy.

  Entries are objects that the index, the pool and the policies share, so they are known by their addresses.
  A packet is stored by a shared pointer; the model has the packet as it was when it was inserted. The index
  is Boost's ordered container: a list of addresses in the order of the names, an iterator being a position.
  The digest of a packet and what the clock says are arguments. The scheduler is Scheduler with the addresses
  of the entries to mark as its callbacks.
\<close>

section \<open>Entries\<close>

record entry =
  m_dataPacket :: "data option"
  m_isFresh :: bool
  m_markStaleEventId :: "event_id option"

definition Entry_new :: entry where
  "Entry_new = \<lparr>m_dataPacket = None, m_isFresh = True, m_markStaleEventId = None\<rparr>"

definition getData :: "entry \<Rightarrow> data result" where
  "getData e = (case m_dataPacket e of None \<Rightarrow> Inl (UndefinedBehaviour ''null pointer'') | Some d \<Rightarrow> Inr d)"

definition Entry_getName :: "entry \<Rightarrow> block result" where
  "Entry_getName e = bindE (getData e) (\<lambda>d. Inr (d_name d))"

definition Entry_getFullName :: "(bytes \<Rightarrow> bytes) \<Rightarrow> entry \<Rightarrow> block result" where
  "Entry_getFullName sha256 e = bindE (getData e) (getFullName sha256)"

definition Entry_setData :: "data \<Rightarrow> entry \<Rightarrow> entry" where
  "Entry_setData d e = e\<lparr>m_dataPacket := Some d, m_isFresh := True\<rparr>"

definition markStale :: "entry \<Rightarrow> entry" where
  "markStale e = e\<lparr>m_isFresh := False\<rparr>"


section \<open>The storage\<close>

text \<open>A replacement policy: what it does after an insertion, before an erasure and after an access, given the
  number of packets; the entry it would evict, and dropping that entry from its own index.\<close>

record 'c policy =
  afterInsert :: "nat \<Rightarrow> nat \<Rightarrow> 'c \<Rightarrow> 'c result"
  beforeErase :: "nat \<Rightarrow> 'c \<Rightarrow> 'c"
  afterAccess :: "nat \<Rightarrow> nat \<Rightarrow> 'c \<Rightarrow> 'c result"
  victim :: "'c \<Rightarrow> nat option"
  forget :: "nat \<Rightarrow> 'c \<Rightarrow> 'c"

record 'c storage =
  entries :: "nat \<Rightarrow> entry"
  next_entry :: nat
  m_cache :: "nat list"
  m_limit :: nat
  m_capacity :: nat
  m_nPackets :: nat
  m_freeEntries :: "nat list"
  m_scheduler :: "nat scheduler option"
  m_cleanupIndex :: 'c

definition set_entry :: "nat \<Rightarrow> entry \<Rightarrow> 'c storage \<Rightarrow> 'c storage" where
  "set_entry p e s = s\<lparr>entries := (entries s)(p := e)\<rparr>"

definition isFull :: "'c storage \<Rightarrow> bool" where
  "isFull s \<longleftrightarrow> m_nPackets s \<ge> m_capacity s"

text \<open>\<open>new InMemoryStorageEntry()\<close>, pushed onto the pool.\<close>

fun push_entries :: "nat \<Rightarrow> 'c storage \<Rightarrow> 'c storage" where
  "push_entries 0 s = s"
| "push_entries (Suc n) s = push_entries n (set_entry (next_entry s) Entry_new
     (s\<lparr>next_entry := next_entry s + 1, m_freeEntries := next_entry s # m_freeEntries s\<rparr>))"

fun delete_entries :: "nat \<Rightarrow> 'c storage \<Rightarrow> 'c storage result" where
  "delete_entries 0 s = Inr s"
| "delete_entries (Suc n) s = (case m_freeEntries s of
     [] \<Rightarrow> Inl (UndefinedBehaviour ''empty stack'')
   | _ # rest \<Rightarrow> delete_entries n (s\<lparr>m_freeEntries := rest\<rparr>))"

definition Storage_init :: "nat scheduler option \<Rightarrow> nat \<Rightarrow> 'c \<Rightarrow> 'c storage" where
  "Storage_init scheduler limit c =
     (let capacity = (if limit \<noteq> 2 ^ 64 - 1 \<and> 10 > limit then limit else 10) in
      push_entries capacity \<lparr>entries = (\<lambda>_. Entry_new), next_entry = 0, m_cache = [], m_limit = limit, m_capacity = capacity,
        m_nPackets = 0, m_freeEntries = [], m_scheduler = scheduler, m_cleanupIndex = c\<rparr>)"


section \<open>The index\<close>

definition Name_less :: "block \<Rightarrow> block \<Rightarrow> bool result" where
  "Name_less n m = bindE (Name_compare n m) (\<lambda>c. Inr (c < 0))"

definition cache_names :: "(bytes \<Rightarrow> bytes) \<Rightarrow> 'c storage \<Rightarrow> block list result" where
  "cache_names sha256 s = mapE (\<lambda>p. Entry_getFullName sha256 (entries s p)) (m_cache s)"

fun count_less :: "block \<Rightarrow> block list \<Rightarrow> nat result" where
  "count_less n [] = Inr 0"
| "count_less n (m # ms) = bindE (Name_less m n) (\<lambda>lt. if lt then bindE (count_less n ms) (\<lambda>k. Inr (Suc k)) else Inr 0)"

definition index_lower_bound :: "(bytes \<Rightarrow> bytes) \<Rightarrow> 'c storage \<Rightarrow> block \<Rightarrow> nat result" where
  "index_lower_bound sha256 s n = bindE (cache_names sha256 s) (count_less n)"

definition index_find :: "(bytes \<Rightarrow> bytes) \<Rightarrow> 'c storage \<Rightarrow> block \<Rightarrow> nat result" where
  "index_find sha256 s n =
     bindE (cache_names sha256 s) (\<lambda>ns. bindE (count_less n ns) (\<lambda>it.
       if it = length ns then Inr it
       else bindE (Name_less n (ns ! it)) (\<lambda>lt. Inr (if lt then length ns else it))))"

text \<open>The index is unique: an entry is not inserted when there is one of its name.\<close>

definition index_insert :: "(bytes \<Rightarrow> bytes) \<Rightarrow> nat \<Rightarrow> 'c storage \<Rightarrow> 'c storage result" where
  "index_insert sha256 p s =
     bindE (Entry_getFullName sha256 (entries s p)) (\<lambda>n.
     bindE (index_find sha256 s n) (\<lambda>it. bindE (index_lower_bound sha256 s n) (\<lambda>at.
       Inr (if it \<noteq> length (m_cache s) then s
            else s\<lparr>m_cache := take at (m_cache s) @ p # drop at (m_cache s)\<rparr>))))"


section \<open>Erasing and evicting\<close>

text \<open>The destructor of the scoped event, when the entry has one.\<close>

definition drop_event :: "int \<Rightarrow> event_id option \<Rightarrow> nat scheduler option \<Rightarrow> nat scheduler option" where
  "drop_event now e sched = (case e of None \<Rightarrow> sched | Some i \<Rightarrow> map_option (\<lambda>t. snd (ScopedEventId_cancel now (i, t))) sched)"

definition Entry_release :: "int \<Rightarrow> nat \<Rightarrow> 'c storage \<Rightarrow> 'c storage" where
  "Entry_release now p s =
     set_entry p ((entries s p)\<lparr>m_dataPacket := None, m_markStaleEventId := None\<rparr>)
       (s\<lparr>m_scheduler := drop_event now (m_markStaleEventId (entries s p)) (m_scheduler s)\<rparr>)"

definition setMarkStaleEventId :: "int \<Rightarrow> nat \<Rightarrow> event_id \<Rightarrow> 'c storage \<Rightarrow> 'c storage" where
  "setMarkStaleEventId now p i s =
     set_entry p ((entries s p)\<lparr>m_markStaleEventId := Some i\<rparr>)
       (s\<lparr>m_scheduler := drop_event now (m_markStaleEventId (entries s p)) (m_scheduler s)\<rparr>)"

definition freeEntry :: "int \<Rightarrow> nat \<Rightarrow> 'c storage \<Rightarrow> 'c storage result" where
  "freeEntry now it s =
     (if length (m_cache s) \<le> it then Inl (UndefinedBehaviour ''end iterator'')
      else let p = m_cache s ! it; s = Entry_release now p s in
        Inr (s\<lparr>m_freeEntries := p # m_freeEntries s, m_nPackets := m_nPackets s - 1,
          m_cache := take it (m_cache s) @ drop (Suc it) (m_cache s)\<rparr>))"

definition eraseImpl :: "(bytes \<Rightarrow> bytes) \<Rightarrow> int \<Rightarrow> block \<Rightarrow> 'c storage \<Rightarrow> 'c storage result" where
  "eraseImpl sha256 now n s =
     bindE (index_find sha256 s n) (\<lambda>it. if it = length (m_cache s) then Inr s else freeEntry now it s)"

definition evictItem :: "'c policy \<Rightarrow> (bytes \<Rightarrow> bytes) \<Rightarrow> int \<Rightarrow> 'c storage \<Rightarrow> ('c storage \<times> bool) result" where
  "evictItem P sha256 now s = (case victim P (m_cleanupIndex s) of
     None \<Rightarrow> Inr (s, False)
   | Some p \<Rightarrow>
       bindE (Entry_getFullName sha256 (entries s p)) (\<lambda>n. bindE (eraseImpl sha256 now n s) (\<lambda>s.
         Inr (s\<lparr>m_cleanupIndex := forget P p (m_cleanupIndex s)\<rparr>, True))))"


section \<open>Capacity\<close>

text \<open>Evicting down to the capacity: the loop ends with an exception after too many failures.\<close>

partial_function (option) evict_loop ::
  "'c policy \<Rightarrow> (bytes \<Rightarrow> bytes) \<Rightarrow> int \<Rightarrow> int \<Rightarrow> 'c storage \<Rightarrow> 'c storage run" where
  "evict_loop P sha256 now nAllowedFailures s =
     (if m_nPackets s \<le> m_capacity s then Some (Inr s)
      else case evictItem P sha256 now s of
        Inl e \<Rightarrow> Some (Inl e)
      | Inr (s, evicted) \<Rightarrow>
          if evicted then evict_loop P sha256 now nAllowedFailures s
          else if nAllowedFailures - 1 < 0 then Some (Inl (StorageError ''Cannot reduce the capacity of the in-memory storage!''))
          else evict_loop P sha256 now (nAllowedFailures - 1) s)"

text \<open>The pool grows or shrinks by the difference of the capacities.\<close>

definition resize :: "nat \<Rightarrow> nat \<Rightarrow> 'c storage \<Rightarrow> 'c storage run" where
  "resize oldCapacity capacity s =
     bindO (if capacity \<ge> oldCapacity then Some (Inr (push_entries (capacity - oldCapacity) s))
            else Some (delete_entries (oldCapacity - capacity) s)) (\<lambda>s.
     if m_nPackets s + length (m_freeEntries s) = m_capacity s then Some (Inr s) else Some (Inl AssertionFailed))"

definition setCapacity :: "'c policy \<Rightarrow> (bytes \<Rightarrow> bytes) \<Rightarrow> int \<Rightarrow> nat \<Rightarrow> 'c storage \<Rightarrow> 'c storage run" where
  "setCapacity P sha256 now capacity s =
     (let oldCapacity = m_capacity s; s = s\<lparr>m_capacity := capacity\<rparr> in
      bindO (evict_loop P sha256 now (int (m_nPackets s) - int capacity) s) (resize oldCapacity capacity))"


section \<open>Inserting\<close>

text \<open>Making room: the capacity is doubled, or at the limit an item is evicted, whether that succeeds or not.\<close>

definition make_room :: "'c policy \<Rightarrow> (bytes \<Rightarrow> bytes) \<Rightarrow> int \<Rightarrow> 'c storage \<Rightarrow> 'c storage run" where
  "make_room P sha256 now s =
     (let doesReachLimit = (m_limit s = m_capacity s) in
      bindO (if isFull s \<and> \<not> doesReachLimit then setCapacity P sha256 now (min (2 * m_capacity s mod 2 ^ 64) (m_limit s)) s
             else Some (Inr s)) (\<lambda>s.
      if isFull s \<and> doesReachLimit then bindO (Some (evictItem P sha256 now s)) (\<lambda>(s, _). Some (Inr s))
      else Some (Inr s)))"

text \<open>The event that marks the entry as stale; the window is in milliseconds, which are converted to nanoseconds.\<close>

definition schedule_stale :: "int \<Rightarrow> int \<Rightarrow> nat \<Rightarrow> 'c storage \<Rightarrow> 'c storage" where
  "schedule_stale now window p s = (case m_scheduler s of
     Some t \<Rightarrow>
       if window > 0 then
         let (i, t) = scheduleEvent now (int64 (window * 10 ^ 6)) p t; (i, t) = ScopedEventId_assign now i (None, t)
         in setMarkStaleEventId now p i (s\<lparr>m_scheduler := Some t\<rparr>)
       else s
   | None \<Rightarrow> s)"

definition place_entry :: "'c policy \<Rightarrow> (bytes \<Rightarrow> bytes) \<Rightarrow> int \<Rightarrow> data \<Rightarrow> int \<Rightarrow> 'c storage \<Rightarrow> 'c storage result" where
  "place_entry P sha256 now d window s = (case m_freeEntries s of
     [] \<Rightarrow> Inl AssertionFailed
   | p # rest \<Rightarrow>
       let s = s\<lparr>m_freeEntries := rest, m_nPackets := m_nPackets s + 1\<rparr>;
           s = set_entry p (Entry_setData d (entries s p)) s;
           s = schedule_stale now window p s
       in bindE (index_insert sha256 p s) (\<lambda>s.
          bindE (afterInsert P (m_nPackets s) p (m_cleanupIndex s)) (\<lambda>c. Inr (s\<lparr>m_cleanupIndex := c\<rparr>))))"

definition Storage_insert ::
  "'c policy \<Rightarrow> (bytes \<Rightarrow> bytes) \<Rightarrow> int \<Rightarrow> data \<Rightarrow> int \<Rightarrow> 'c storage \<Rightarrow> 'c storage run" where
  "Storage_insert P sha256 now d window s =
     bindO (Some (bindE (getFullName sha256 d) (index_find sha256 s))) (\<lambda>it.
     if it \<noteq> length (m_cache s) then Some (Inr s)
     else bindO (make_room P sha256 now s) (\<lambda>s. Some (place_entry P sha256 now d window s)))"


section \<open>Erasing\<close>

lemma Entry_release_sel [simp]:
  "m_cache (Entry_release now p s) = m_cache s" "m_freeEntries (Entry_release now p s) = m_freeEntries s"
  "m_nPackets (Entry_release now p s) = m_nPackets s" "m_capacity (Entry_release now p s) = m_capacity s"
  "m_limit (Entry_release now p s) = m_limit s" "m_cleanupIndex (Entry_release now p s) = m_cleanupIndex s"
  "next_entry (Entry_release now p s) = next_entry s"
  by (simp_all add: Entry_release_def set_entry_def)

lemma freeEntry_shorter: "freeEntry now it s = Inr t \<Longrightarrow> length (m_cache t) < length (m_cache s)"
  by (auto simp: freeEntry_def Let_def split: if_splits)

function erase_prefix :: "'c policy \<Rightarrow> int \<Rightarrow> block \<Rightarrow> nat \<Rightarrow> 'c storage \<Rightarrow> 'c storage result" where
  "erase_prefix P now n it s =
     (if length (m_cache s) \<le> it then Inr s
      else bindE (Entry_getName (entries s (m_cache s ! it))) (\<lambda>m. bindE (isPrefixOf n m) (\<lambda>pre.
        if \<not> pre then Inr s
        else bindE (freeEntry now it (s\<lparr>m_cleanupIndex := beforeErase P (m_cache s ! it) (m_cleanupIndex s)\<rparr>))
          (erase_prefix P now n it))))"
  by pat_completeness auto
termination
  by (relation "measure (\<lambda>(P, now, n, it, s). length (m_cache s))") (auto dest: freeEntry_shorter)

definition erase_exact :: "'c policy \<Rightarrow> (bytes \<Rightarrow> bytes) \<Rightarrow> int \<Rightarrow> block \<Rightarrow> 'c storage \<Rightarrow> ('c storage \<times> bool) result" where
  "erase_exact P sha256 now n s =
     bindE (index_find sha256 s n) (\<lambda>it.
       if it = length (m_cache s) then Inr (s, False)
       else bindE (freeEntry now it (s\<lparr>m_cleanupIndex := beforeErase P (m_cache s ! it) (m_cleanupIndex s)\<rparr>)) (\<lambda>s. Inr (s, True)))"

definition shrink :: "'c policy \<Rightarrow> (bytes \<Rightarrow> bytes) \<Rightarrow> int \<Rightarrow> 'c storage \<Rightarrow> 'c storage run" where
  "shrink P sha256 now s =
     (if length (m_freeEntries s) > 2 * m_nPackets s then setCapacity P sha256 now (m_capacity s div 2) s else Some (Inr s))"

definition Storage_erase :: "'c policy \<Rightarrow> (bytes \<Rightarrow> bytes) \<Rightarrow> int \<Rightarrow> block \<Rightarrow> bool \<Rightarrow> 'c storage \<Rightarrow> 'c storage run" where
  "Storage_erase P sha256 now n isPrefix s =
     (if isPrefix then
        bindO (Some (bindE (index_lower_bound sha256 s n) (\<lambda>it. erase_prefix P now n it s))) (shrink P sha256 now)
      else bindO (Some (erase_exact P sha256 now n s)) (\<lambda>(s, found). if found then shrink P sha256 now s else Some (Inr s)))"


section \<open>Finding\<close>

definition access :: "'c policy \<Rightarrow> nat \<Rightarrow> 'c storage \<Rightarrow> 'c storage result" where
  "access P p s = bindE (afterAccess P (m_nPackets s) p (m_cleanupIndex s)) (\<lambda>c. Inr (s\<lparr>m_cleanupIndex := c\<rparr>))"

text \<open>The packet found, if there is one, and the storage after the policy was told.\<close>

definition Storage_find_name ::
  "'c policy \<Rightarrow> (bytes \<Rightarrow> bytes) \<Rightarrow> block \<Rightarrow> 'c storage \<Rightarrow> (data option \<times> 'c storage) result" where
  "Storage_find_name P sha256 n s =
     bindE (index_lower_bound sha256 s n) (\<lambda>it.
       if it = length (m_cache s) then Inr (None, s)
       else let p = m_cache s ! it in
         bindE (Entry_getFullName sha256 (entries s p)) (\<lambda>m. bindE (isPrefixOf n m) (\<lambda>pre.
           if \<not> pre then Inr (None, s)
           else bindE (access P p s) (\<lambda>s. bindE (getData (entries s p)) (\<lambda>d. Inr (Some d, s))))))"

definition findNextFresh :: "'c storage \<Rightarrow> nat list \<Rightarrow> nat list" where
  "findNextFresh s its = dropWhile (\<lambda>p. \<not> m_isFresh (entries s p)) its"

lemma next_shorter: "(if fresh then findNextFresh s its else its) = p # rest \<Longrightarrow> length rest < length its"
proof -
  assume h: "(if fresh then findNextFresh s its else its) = p # rest"
  have "length (if fresh then findNextFresh s its else its) \<le> length its" by (simp add: findNextFresh_def length_dropWhile_le)
  then show "length rest < length its" by (simp add: h)
qed

text \<open>
  The entries from an iterator on are a list. The loop of \<open>selectChild\<close> behind the starting point: it returns
  the entry to return at once, for the leftmost child, or the last value of \<open>rightmost\<close>.
\<close>

function select_loop ::
  "(bytes \<Rightarrow> bytes) \<Rightarrow> interest \<Rightarrow> 'c storage \<Rightarrow> nat list \<Rightarrow> block \<Rightarrow> nat \<Rightarrow> (nat \<times> bool) result" where
  "select_loop sha256 i s its currentChildPrefix rightmost =
     (case (if mustBeFresh (i_selectors i) then findNextFresh s its else its) of
        [] \<Rightarrow> Inr (rightmost, False)
      | p # rest \<Rightarrow>
          bindE (Entry_getFullName sha256 (entries s p)) (\<lambda>f. bindE (isPrefixOf (i_name i) f) (\<lambda>isInPrefix.
          if \<not> isInPrefix then Inr (rightmost, False)
          else bindE (getData (entries s p)) (\<lambda>d. bindE (matchesData sha256 i d) (\<lambda>m.
            if \<not> m then select_loop sha256 i s rest currentChildPrefix rightmost
            else if childSelector (i_selectors i) \<le> 0 then Inr (p, True)
            else bindE (getPrefix f (Name_size (i_name i) + 1)) (\<lambda>childPrefix.
              bindE (if Name_empty currentChildPrefix then Inr True
                     else bindE (Name_equals childPrefix currentChildPrefix) (\<lambda>eq. Inr (\<not> eq))) (\<lambda>new.
              if new then select_loop sha256 i s rest childPrefix p
              else select_loop sha256 i s rest currentChildPrefix rightmost)))))))"
  by pat_completeness auto
termination
  by (relation "measure (\<lambda>(sha256, i, s, its, c, r). length its)") (auto dest: next_shorter)

declare select_loop.simps [simp del] erase_prefix.simps [simp del]

text \<open>The whole of \<open>selectChild\<close>; the entry that is returned, if any.\<close>

definition selectChild :: "(bytes \<Rightarrow> bytes) \<Rightarrow> interest \<Rightarrow> nat \<Rightarrow> 'c storage \<Rightarrow> nat option result" where
  "selectChild sha256 i startingPoint s =
     (if length (m_cache s) \<le> startingPoint then Inl AssertionFailed
      else bindE (if startingPoint \<noteq> 0
          then bindE (Entry_getFullName sha256 (entries s (m_cache s ! startingPoint))) (\<lambda>f.
            bindE (Name_less f (i_name i)) (\<lambda>lt. if lt then Inr () else Inl AssertionFailed))
          else Inr ()) (\<lambda>_.
        let its = drop startingPoint (m_cache s); hasRightmostSelector = (childSelector (i_selectors i) > 0) in
        case (if mustBeFresh (i_selectors i) then findNextFresh s its else its) of
          [] \<Rightarrow> Inr None
        | start # rest \<Rightarrow>
            bindE (if \<not> hasRightmostSelector then bindE (getData (entries s start)) (matchesData sha256 i) else Inr False) (\<lambda>m.
            if m then Inr (Some start)
            else bindE (select_loop sha256 i s rest Block_empty start) (\<lambda>(rightmost, returned).
              if returned \<or> rightmost \<noteq> start then Inr (Some rightmost)
              else if hasRightmostSelector then
                bindE (getData (entries s start)) (\<lambda>d. bindE (matchesData sha256 i d) (\<lambda>m. Inr (if m then Some start else None)))
              else Inr None))))"

definition Storage_find :: "'c policy \<Rightarrow> (bytes \<Rightarrow> bytes) \<Rightarrow> interest \<Rightarrow> 'c storage \<Rightarrow> (data option \<times> 'c storage) result" where
  "Storage_find P sha256 i s =
     bindE (index_find sha256 s (i_name i)) (\<lambda>it.
       if it \<noteq> length (m_cache s) then bindE (getData (entries s (m_cache s ! it))) (\<lambda>d. Inr (Some d, s))
       else bindE (index_lower_bound sha256 s (i_name i)) (\<lambda>it.
         if it = length (m_cache s) then Inr (None, s)
         else bindE (selectChild sha256 i (if it \<noteq> 0 then it - 1 else it) s) (\<lambda>ret. case ret of
           Some p \<Rightarrow> bindE (access P p s) (\<lambda>s. bindE (getData (entries s p)) (\<lambda>d. Inr (Some d, s)))
         | None \<Rightarrow> Inr (None, s))))"


section \<open>Iterating, and the end\<close>

definition Storage_begin :: "'c storage \<Rightarrow> (data \<times> nat) result" where
  "Storage_begin s = (case m_cache s of
     [] \<Rightarrow> Inl (UndefinedBehaviour ''end iterator'')
   | p # _ \<Rightarrow> bindE (getData (entries s p)) (\<lambda>d. Inr (d, 0)))"

text \<open>\<open>operator++\<close>: the packet that the iterator then refers to, if there is one, and its position.\<close>

definition Storage_next :: "'c storage \<Rightarrow> nat \<Rightarrow> (data option \<times> nat) result" where
  "Storage_next s it =
     (if length (m_cache s) \<le> it then Inl (UndefinedBehaviour ''end iterator'')
      else if Suc it \<noteq> length (m_cache s)
        then bindE (getData (entries s (m_cache s ! Suc it))) (\<lambda>d. Inr (Some d, Suc it))
      else Inr (None, Suc it))"

fun free_all :: "int \<Rightarrow> nat \<Rightarrow> 'c storage \<Rightarrow> 'c storage result" where
  "free_all now 0 s = Inr s"
| "free_all now (Suc n) s = bindE (freeEntry now 0 s) (free_all now n)"

definition Storage_destroy :: "int \<Rightarrow> 'c storage \<Rightarrow> 'c storage result" where
  "Storage_destroy now s =
     bindE (free_all now (length (m_cache s)) s) (\<lambda>s.
       if length (m_freeEntries s) \<noteq> m_capacity s then Inl AssertionFailed else delete_entries (length (m_freeEntries s)) s)"

text \<open>The timer of the scheduler: the entries whose events have expired are marked.\<close>

definition stale_callback :: "nat \<Rightarrow> (nat \<Rightarrow> entry) \<times> nat scheduler \<Rightarrow> ((nat \<Rightarrow> entry) \<times> nat scheduler) \<times> exn option" where
  "stale_callback p es = (((fst es)(p := markStale (fst es p)), snd es), None)"

definition Storage_tick :: "int \<Rightarrow> int \<Rightarrow> 'c storage \<Rightarrow> 'c storage run" where
  "Storage_tick now now' s = (case m_scheduler s of
     None \<Rightarrow> Some (Inr s)
   | Some t \<Rightarrow>
       (case executeEvent stale_callback False now now' (entries s, t) of
          None \<Rightarrow> None
        | Some (_, Some ex) \<Rightarrow> Some (Inl ex)
        | Some ((es, t), None) \<Rightarrow> Some (Inr (s\<lparr>entries := es, m_scheduler := Some t\<rparr>))))"

end
