(* ===== verification/StorageProps.thy ===== *)
theory StorageProps
  imports Storage
begin

text \<open>
  The contract of a replacement policy, and the invariant of the storage, which every operation keeps under
  any policy that fulfils the contract.
\<close>

section \<open>The contract of a policy\<close>

text \<open>\<open>tracks c A\<close>: the index \<open>c\<close> of the policy is about the entries \<open>A\<close> of the storage.\<close>

locale replacement =
  fixes P :: "'c policy" and tracks :: "'c \<Rightarrow> nat set \<Rightarrow> bool"
  assumes inserted: "tracks c A \<Longrightarrow> finite A \<Longrightarrow> p \<notin> A \<Longrightarrow> card A < n \<Longrightarrow>
      \<exists>c'. afterInsert P n p c = Inr c' \<and> tracks c' (insert p A)"
    and erased: "tracks c A \<Longrightarrow> tracks (beforeErase P p c) (A - {p})"
    and accessed: "tracks c A \<Longrightarrow> finite A \<Longrightarrow> p \<in> A \<Longrightarrow> card A \<le> n \<Longrightarrow> \<exists>c'. afterAccess P n p c = Inr c' \<and> tracks c' A"
    and evicted: "tracks c A \<Longrightarrow> victim P c = Some p \<Longrightarrow> p \<in> A \<and> tracks (forget P p c) (A - {p})"

locale evicting = replacement +
  assumes evicts: "tracks c A \<Longrightarrow> A \<noteq> {} \<Longrightarrow> victim P c \<noteq> None"


section \<open>The invariant\<close>

text \<open>The full name of a packet, as its key in the index.\<close>

definition full_key :: "(bytes \<Rightarrow> bytes) \<Rightarrow> data \<Rightarrow> comp_key list" where
  "full_key sha256 d = name_keys (d_name d) @ (case wire (d_wire d) of Inr w \<Rightarrow> [digest_key (sha256 w)] | Inl _ \<Rightarrow> [])"

definition stored :: "(bytes \<Rightarrow> bytes) \<Rightarrow> data \<Rightarrow> bool" where
  "stored sha256 d \<longleftrightarrow> (\<exists>w. packet_ok sha256 d w)"

definition packet :: "'c storage \<Rightarrow> nat \<Rightarrow> data" where
  "packet s p = the (m_dataPacket (entries s p))"

definition keys :: "(bytes \<Rightarrow> bytes) \<Rightarrow> 'c storage \<Rightarrow> comp_key list list" where
  "keys sha256 s = map (\<lambda>p. full_key sha256 (packet s p)) (m_cache s)"

text \<open>The events that wait: each marks an entry in use, and is the event that this entry will cancel.\<close>

definition events_ok :: "(nat \<Rightarrow> entry) \<Rightarrow> nat set \<Rightarrow> nat scheduler option \<Rightarrow> bool" where
  "events_ok es A sched = (case sched of None \<Rightarrow> True | Some t \<Rightarrow> scheduler_ok t \<and> timer_ok t \<and> \<not> m_isEventExecuting t
     \<and> (\<forall>e \<in> set (m_queue t). callback e \<in> A \<and> m_markStaleEventId (es (callback e)) = Some (Some (ev_id e))))"

definition cache_ok :: "(bytes \<Rightarrow> bytes) \<Rightarrow> 'c storage \<Rightarrow> bool" where
  "cache_ok sha256 s \<longleftrightarrow> (\<forall>p \<in> set (m_cache s). \<exists>d. m_dataPacket (entries s p) = Some d \<and> stored sha256 d)
     \<and> sorted_wrt (<) (keys sha256 s)"

definition storage_ok :: "(bytes \<Rightarrow> bytes) \<Rightarrow> 'c storage \<Rightarrow> bool" where
  "storage_ok sha256 s \<longleftrightarrow> cache_ok sha256 s
     \<and> distinct (m_cache s @ m_freeEntries s) \<and> (\<forall>p \<in> set (m_cache s @ m_freeEntries s). p < next_entry s)
     \<and> (\<forall>p \<in> set (m_freeEntries s). m_markStaleEventId (entries s p) = None)
     \<and> m_nPackets s = length (m_cache s) \<and> m_nPackets s + length (m_freeEntries s) = m_capacity s
     \<and> m_capacity s \<le> m_limit s \<and> m_limit s < 2 ^ 64
     \<and> events_ok (entries s) (set (m_cache s)) (m_scheduler s)"

definition contents :: "(bytes \<Rightarrow> bytes) \<Rightarrow> 'c storage \<Rightarrow> comp_key list set" where
  "contents sha256 s = set (keys sha256 s)"

lemma keys_length [simp]: "length (keys sha256 s) = length (m_cache s)"
  by (simp add: keys_def)

lemma stored_full_name:
  "stored sha256 d \<Longrightarrow> \<exists>f. getFullName sha256 d = Inr f \<and> name_canon f \<and> name_keys f = full_key sha256 d"
  using getFullName_run by (fastforce simp: stored_def full_key_def packet_ok_def)

lemma entry_full_name:
  assumes "cache_ok sha256 s" and "p \<in> set (m_cache s)"
  shows "\<exists>f. Entry_getFullName sha256 (entries s p) = Inr f \<and> name_canon f \<and> name_keys f = full_key sha256 (packet s p)"
  using assms stored_full_name by (fastforce simp: cache_ok_def Entry_getFullName_def getData_def packet_def)

lemma cache_names_run:
  assumes "cache_ok sha256 s"
  shows "\<exists>ns. cache_names sha256 s = Inr ns \<and> map name_keys ns = keys sha256 s \<and> list_all name_canon ns"
proof -
  have "\<exists>ns. mapE (\<lambda>p. Entry_getFullName sha256 (entries s p)) ps = Inr ns
      \<and> map name_keys ns = map (\<lambda>p. full_key sha256 (packet s p)) ps \<and> list_all name_canon ns" if "set ps \<subseteq> set (m_cache s)" for ps
    using that
  proof (induction ps)
    case (Cons p ps)
    obtain f where "Entry_getFullName sha256 (entries s p) = Inr f" "name_canon f" "name_keys f = full_key sha256 (packet s p)"
      using entry_full_name [OF assms, of p] Cons.prems by auto
    then show ?case using Cons by auto
  qed simp
  then show ?thesis by (simp add: cache_names_def keys_def)
qed

lemma Name_less_keys: "name_canon n \<Longrightarrow> name_canon m \<Longrightarrow> Name_less n m = Inr (name_keys n < name_keys m)"
  using name.cmp_less by (simp add: Name_less_def Name_compare_cmp)

lemma count_less_run:
  assumes "list_all name_canon ns" and "name_canon n"
  shows "count_less n ns = Inr (length (takeWhile (\<lambda>k. k < name_keys n) (map name_keys ns)))"
  using assms(1) by (induction ns) (simp_all add: Name_less_keys [OF _ assms(2)])

text \<open>Where a key is, or would be, in a strictly sorted list.\<close>

definition place :: "'a :: linorder \<Rightarrow> 'a list \<Rightarrow> nat" where
  "place k ks = length (takeWhile (\<lambda>x. x < k) ks)"

lemma place_le: "place k ks \<le> length ks"
  by (simp add: place_def length_takeWhile_le)

lemma take_place: "take (place k ks) ks = takeWhile (\<lambda>x. x < k) ks"
  unfolding place_def by (rule takeWhile_eq_take [symmetric])

lemma drop_place: "drop (place k ks) ks = dropWhile (\<lambda>x. x < k) ks"
  unfolding place_def by (rule dropWhile_eq_drop [symmetric])

lemma strict_mono_sorted: "sorted_wrt (<) (ks :: 'a :: linorder list) \<Longrightarrow> sorted ks \<and> distinct ks"
  by (simp add: strict_sorted_iff)

lemma place_before: "x \<in> set (take (place k ks) ks) \<Longrightarrow> x < k"
  unfolding take_place by (rule set_takeWhileD [THEN conjunct2])

lemma place_behind: "sorted_wrt (<) ks \<Longrightarrow> x \<in> set (drop (place k ks) ks) \<Longrightarrow> k \<le> x"
proof (induction ks)
  case (Cons y ks)
  then show ?case by (cases "y < k") (auto simp: place_def)
qed simp

lemma place_nth: "sorted_wrt (<) ks \<Longrightarrow> k \<in> set ks \<longleftrightarrow> place k ks < length ks \<and> ks ! place k ks = k"
proof (induction ks)
  case (Cons y ks)
  then show ?case
  proof (cases "y < k")
    case False
    have "k \<notin> set ks" if "y \<noteq> k"
    proof
      assume "k \<in> set ks"
      then show False using Cons.prems False by auto
    qed
    then show ?thesis using False by (auto simp: place_def)
  qed (use Cons in \<open>auto simp: place_def\<close>)
qed (simp add: place_def)

lemma place_index: "sorted_wrt (<) ks \<Longrightarrow> i < length ks \<Longrightarrow> place (ks ! i) ks = i"
  using place_nth [of ks "ks ! i"] strict_mono_sorted [of ks] by (auto simp: distinct_conv_nth)

lemma sorted_place_insert:
  assumes "sorted_wrt (<) ks" and "k \<notin> set ks"
  shows "sorted_wrt (<) (take (place k ks) ks @ k # drop (place k ks) ks)"
proof -
  have "\<forall>x \<in> set (drop (place k ks) ks). k < x"
    using place_behind [OF assms(1)] assms(2) by (metis in_set_dropD order.not_eq_order_implies_strict)
  moreover have "sorted_wrt (<) (take (place k ks) ks @ drop (place k ks) ks)" using assms(1) by simp
  ultimately show ?thesis
    using place_before [of _ k ks] by (simp only: sorted_wrt_append sorted_wrt.simps) force
qed

lemma index_lower_bound_run:
  assumes "cache_ok sha256 s" and "name_canon n"
  shows "index_lower_bound sha256 s n = Inr (place (name_keys n) (keys sha256 s))"
proof -
  obtain ns where "cache_names sha256 s = Inr ns" "map name_keys ns = keys sha256 s" "list_all name_canon ns"
    using cache_names_run [OF assms(1)] by blast
  then show ?thesis using count_less_run [OF _ assms(2), of ns] by (simp add: index_lower_bound_def place_def)
qed

lemma index_find_run:
  assumes "cache_ok sha256 s" and "name_canon n"
  shows "index_find sha256 s n = Inr (if name_keys n \<in> contents sha256 s then place (name_keys n) (keys sha256 s) else length (m_cache s))"
proof -
  obtain ns where ns: "cache_names sha256 s = Inr ns" "map name_keys ns = keys sha256 s" "list_all name_canon ns"
    using cache_names_run [OF assms(1)] by blast
  let ?k = "name_keys n" and ?ks = "keys sha256 s"
  have sorted: "sorted_wrt (<) ?ks" using assms(1) by (simp add: cache_ok_def)
  have len: "length ns = length (m_cache s)" using arg_cong [OF ns(2), of length] by simp
  have c: "count_less n ns = Inr (place ?k ?ks)" using count_less_run [OF ns(3) assms(2)] ns(2) by (simp add: place_def)
  show ?thesis
  proof (cases "place ?k ?ks = length (m_cache s)")
    case True
    then show ?thesis using ns(1) c len place_nth [OF sorted, of ?k] by (simp add: index_find_def contents_def)
  next
    case False
    then have lt: "place ?k ?ks < length ns" using place_le [of ?k ?ks] len by simp
    then have nth: "name_keys (ns ! place ?k ?ks) = ?ks ! place ?k ?ks" using arg_cong [OF ns(2), of "\<lambda>xs. xs ! place ?k ?ks"] by simp
    have "name_canon (ns ! place ?k ?ks)" using ns(3) lt by (simp add: list_all_length)
    then have "Name_less n (ns ! place ?k ?ks) = Inr (?k < ?ks ! place ?k ?ks)" using Name_less_keys [OF assms(2)] nth by simp
    moreover have "?ks ! place ?k ?ks \<in> set (drop (place ?k ?ks) ?ks)" using lt len by (simp add: Cons_nth_drop_Suc [symmetric])
    then have "?k \<le> ?ks ! place ?k ?ks" using place_behind [OF sorted] by blast
    ultimately show ?thesis using ns(1) c len lt False place_nth [OF sorted, of ?k]
      by (auto simp: index_find_def contents_def)
  qed
qed


section \<open>Freeing an entry\<close>

text \<open>A list without its element at a position.\<close>

definition without :: "nat \<Rightarrow> 'a list \<Rightarrow> 'a list" where
  "without i xs = take i xs @ drop (Suc i) xs"

lemma without_set: "set (without i xs) \<subseteq> set xs"
  by (auto simp: without_def dest: in_set_takeD in_set_dropD)

lemma without_split: "i < length xs \<Longrightarrow> xs = take i xs @ xs ! i # drop (Suc i) xs"
  by (rule id_take_nth_drop)

lemma without_distinct: "distinct xs \<Longrightarrow> i < length xs \<Longrightarrow> distinct (without i xs) \<and> set (without i xs) = set xs - {xs ! i}"
proof -
  assume d: "distinct xs" and i: "i < length xs"
  then have "distinct (take i xs @ xs ! i # drop (Suc i) xs)" "set xs = set (take i xs @ xs ! i # drop (Suc i) xs)"
    using without_split [OF i] by simp_all
  then show ?thesis by (auto simp: without_def)
qed

lemma without_length: "i < length xs \<Longrightarrow> length (without i xs) = length xs - 1"
  by (simp add: without_def)

lemma without_map: "map f (without i xs) = without i (map f xs)"
  by (simp add: without_def take_map drop_map)

lemma without_sorted: "sorted_wrt R xs \<Longrightarrow> i < length xs \<Longrightarrow> sorted_wrt R (without i xs)"
  using without_split [of i xs] by (metis sorted_wrt_append sorted_wrt.simps(2) without_def list.set_intros(2))

lemma keys_cong:
  "(\<And>p. p \<in> set (m_cache s) \<Longrightarrow> m_dataPacket (entries t p) = m_dataPacket (entries s p)) \<Longrightarrow> m_cache t = m_cache s \<Longrightarrow>
    keys sha256 t = keys sha256 s"
  by (simp add: keys_def packet_def)

lemma events_released:
  assumes "events_ok es A sched" and "\<forall>q. q \<noteq> p \<longrightarrow> m_markStaleEventId (es' q) = m_markStaleEventId (es q)"
  shows "events_ok es' (A - {p}) (drop_event now (m_markStaleEventId (es p)) sched)"
proof (cases sched)
  case None
  then show ?thesis by (simp add: events_ok_def drop_event_def split: option.split)
next
  case (Some t)
  let ?i = "m_markStaleEventId (es p)"
  have t: "scheduler_ok t" "timer_ok t" "\<not> m_isEventExecuting t"
    "\<forall>e \<in> set (m_queue t). callback e \<in> A \<and> m_markStaleEventId (es (callback e)) = Some (Some (ev_id e))"
    using assms(1) Some by (simp_all add: events_ok_def)
  show ?thesis
  proof (cases ?i)
    case None
    then have "\<forall>e \<in> set (m_queue t). callback e \<noteq> p" using t(4) by fastforce
    then have "\<forall>e \<in> set (m_queue t). callback e \<in> A - {p} \<and> m_markStaleEventId (es' (callback e)) = Some (Some (ev_id e))"
      using t(4) assms(2) by simp
    then show ?thesis using t(1-3) Some None by (simp add: events_ok_def drop_event_def)
  next
    case i: (Some i)
    have "callback e \<noteq> p" if "e \<in> set (m_queue (cancelEvent now i t))" for e
      using that t(4) i by (auto simp: cancelEvent_run)
    then have "\<forall>e \<in> set (m_queue (cancelEvent now i t)). callback e \<in> A - {p}
        \<and> m_markStaleEventId (es' (callback e)) = Some (Some (ev_id e))"
      using t(4) assms(2) by (auto simp: cancelEvent_run)
    then show ?thesis using Some i t cancelEvent_ok [OF t(1)] cancelEvent_timer [OF t(2)]
      by (simp add: events_ok_def drop_event_def ScopedEventId_cancel_def cancelEvent_run)
  qed
qed

lemma storage_okD:
  assumes "storage_ok sha256 s"
  shows "cache_ok sha256 s" "distinct (m_cache s)" "m_nPackets s = length (m_cache s)"
    "m_nPackets s + length (m_freeEntries s) = m_capacity s" "sorted_wrt (<) (keys sha256 s)"
  using assms by (simp_all add: storage_ok_def cache_ok_def)

text \<open>The storage after the entry at a position was freed.\<close>

definition frees :: "(bytes \<Rightarrow> bytes) \<Rightarrow> 'c storage \<Rightarrow> nat \<Rightarrow> 'c storage \<Rightarrow> bool" where
  "frees sha256 s it t \<longleftrightarrow> storage_ok sha256 t \<and> m_cache t = without it (m_cache s)
    \<and> keys sha256 t = without it (keys sha256 s) \<and> (\<forall>q \<in> set (m_cache t). entries t q = entries s q)
    \<and> m_freeEntries t = m_cache s ! it # m_freeEntries s
    \<and> m_capacity t = m_capacity s \<and> m_limit t = m_limit s \<and> m_nPackets t = m_nPackets s - 1"

lemma cleanup_simps [simp]:
  "cache_ok sha256 (s\<lparr>m_cleanupIndex := c\<rparr>) = cache_ok sha256 s" "storage_ok sha256 (s\<lparr>m_cleanupIndex := c\<rparr>) = storage_ok sha256 s"
  "keys sha256 (s\<lparr>m_cleanupIndex := c\<rparr>) = keys sha256 s" "contents sha256 (s\<lparr>m_cleanupIndex := c\<rparr>) = contents sha256 s"
  "frees sha256 s it (t\<lparr>m_cleanupIndex := c\<rparr>) = frees sha256 s it t" "frees sha256 (s\<lparr>m_cleanupIndex := c\<rparr>) it t = frees sha256 s it t"
  "cache_names sha256 (s\<lparr>m_cleanupIndex := c\<rparr>) = cache_names sha256 s" "packet (s\<lparr>m_cleanupIndex := c\<rparr>) p = packet s p"
  by (simp_all add: cache_ok_def keys_def packet_def storage_ok_def contents_def frees_def cache_names_def)

lemma freeEntry_run:
  assumes "storage_ok sha256 s" and "it < length (m_cache s)"
  shows "\<exists>t. freeEntry now it s = Inr t \<and> frees sha256 s it t \<and> m_cleanupIndex t = m_cleanupIndex s"
proof -
  let ?p = "m_cache s ! it" and ?c = "without it (m_cache s)"
  let ?r = "Entry_release now ?p s"
  let ?t = "?r\<lparr>m_freeEntries := ?p # m_freeEntries ?r, m_nPackets := m_nPackets ?r - 1, m_cache := take it (m_cache ?r) @ drop (Suc it) (m_cache ?r)\<rparr>"
  have d: "distinct (m_cache s @ m_freeEntries s)" using assms(1) by (simp add: storage_ok_def)
  have p: "?p \<in> set (m_cache s)" using assms(2) by simp
  then have p': "?p \<notin> set (m_freeEntries s)" using d by (simp add: disjoint_iff)
  have c: "distinct ?c" "set ?c = set (m_cache s) - {?p}" using without_distinct [OF _ assms(2)] d by simp_all
  have tc: "m_cache ?t = ?c" by (simp add: without_def)
  have es: "\<forall>q \<in> set ?c. entries ?t q = entries s q" using c(2) by (auto simp: Entry_release_def set_entry_def)
  have ks: "keys sha256 ?t = without it (keys sha256 s)"
    unfolding keys_def tc without_map [symmetric] using es by (simp add: packet_def)
  have cok: "cache_ok sha256 ?t"
    using storage_okD(1) [OF assms(1)] es ks c(2) without_sorted assms(2) unfolding cache_ok_def tc
    by (metis DiffE keys_length)
  have ev: "events_ok (entries ?t) (set ?c) (m_scheduler ?t)"
    unfolding c(2) using events_released [of "entries s" "set (m_cache s)" "m_scheduler s" ?p "entries ?t" now] assms(1)
    by (simp add: storage_ok_def Entry_release_def set_entry_def)
  have "storage_ok sha256 ?t"
    unfolding storage_ok_def tc
    using assms cok ev c d p p' without_length [OF assms(2)]
    by (auto simp: storage_ok_def Entry_release_def set_entry_def)
  moreover have "freeEntry now it s = Inr ?t" using assms(2) by (simp add: freeEntry_def Let_def)
  ultimately show ?thesis using es ks tc by (intro exI [of _ ?t]) (simp add: frees_def)
qed


lemma frees_cache:
  assumes "frees sha256 s it t" and "storage_ok sha256 s" and "it < length (m_cache s)"
  shows "set (m_cache t) = set (m_cache s) - {m_cache s ! it}" and "contents sha256 t = contents sha256 s - {keys sha256 s ! it}"
proof -
  have "distinct (keys sha256 s)" using strict_mono_sorted storage_okD(5) [OF assms(2)] by blast
  then show "contents sha256 t = contents sha256 s - {keys sha256 s ! it}"
    using without_distinct [of "keys sha256 s" it] assms(1,3) by (simp add: frees_def contents_def)
  show "set (m_cache t) = set (m_cache s) - {m_cache s ! it}"
    using without_distinct [of "m_cache s" it] assms storage_okD(2) [OF assms(2)] by (simp add: frees_def)
qed

text \<open>An entry is found at the place of its key.\<close>

lemma entry_place:
  assumes "storage_ok sha256 s" and "p \<in> set (m_cache s)"
  shows "place (full_key sha256 (packet s p)) (keys sha256 s) < length (m_cache s)"
    and "m_cache s ! place (full_key sha256 (packet s p)) (keys sha256 s) = p"
    and "full_key sha256 (packet s p) \<in> contents sha256 s"
proof -
  obtain j where j: "j < length (m_cache s)" "m_cache s ! j = p" using assms(2) by (auto simp: in_set_conv_nth)
  then have k: "keys sha256 s ! j = full_key sha256 (packet s p)" by (simp add: keys_def)
  then have "place (full_key sha256 (packet s p)) (keys sha256 s) = j"
    using place_index [OF storage_okD(5) [OF assms(1)], of j] j by simp
  then show "place (full_key sha256 (packet s p)) (keys sha256 s) < length (m_cache s)"
    and "m_cache s ! place (full_key sha256 (packet s p)) (keys sha256 s) = p"
    using j by simp_all
  show "full_key sha256 (packet s p) \<in> contents sha256 s" using assms(2) by (auto simp: contents_def keys_def)
qed

lemma eraseImpl_run:
  assumes "storage_ok sha256 s" and "p \<in> set (m_cache s)"
  shows "\<exists>t. bindE (Entry_getFullName sha256 (entries s p)) (\<lambda>n. eraseImpl sha256 now n s) = Inr t
    \<and> frees sha256 s (place (full_key sha256 (packet s p)) (keys sha256 s)) t \<and> m_cleanupIndex t = m_cleanupIndex s"
proof -
  obtain f where f: "Entry_getFullName sha256 (entries s p) = Inr f" "name_canon f" "name_keys f = full_key sha256 (packet s p)"
    using entry_full_name [OF storage_okD(1) [OF assms(1)] assms(2)] by blast
  note e = entry_place [OF assms]
  have "index_find sha256 s f = Inr (place (full_key sha256 (packet s p)) (keys sha256 s))"
    using index_find_run [OF storage_okD(1) [OF assms(1)] f(2)] f(3) e(3) by simp
  then show ?thesis using f(1) e(1) freeEntry_run [OF assms(1) e(1), of now] by (auto simp: eraseImpl_def)
qed


section \<open>Evicting\<close>

text \<open>A storage whose policy is about the entries of the index.\<close>

definition managed :: "('c \<Rightarrow> nat set \<Rightarrow> bool) \<Rightarrow> (bytes \<Rightarrow> bytes) \<Rightarrow> 'c storage \<Rightarrow> bool" where
  "managed tracks sha256 s \<longleftrightarrow> storage_ok sha256 s \<and> tracks (m_cleanupIndex s) (set (m_cache s))"

text \<open>What does not look at the capacity.\<close>

lemma evictItem_capacity:
  "evictItem P sha256 now (s\<lparr>m_capacity := c\<rparr>)
    = (case evictItem P sha256 now s of Inl e \<Rightarrow> Inl e | Inr (t, b) \<Rightarrow> Inr (t\<lparr>m_capacity := c\<rparr>, b))"
proof -
  have f: "index_find sha256 (s\<lparr>m_capacity := c\<rparr>) n = index_find sha256 s n" for n
    by (simp add: index_find_def cache_names_def)
  have e: "freeEntry now it (s\<lparr>m_capacity := c\<rparr>) = (case freeEntry now it s of Inl e \<Rightarrow> Inl e | Inr t \<Rightarrow> Inr (t\<lparr>m_capacity := c\<rparr>))" for it
    by (simp add: freeEntry_def Let_def Entry_release_def set_entry_def)
  have "eraseImpl sha256 now n (s\<lparr>m_capacity := c\<rparr>) = (case eraseImpl sha256 now n s of Inl e \<Rightarrow> Inl e | Inr t \<Rightarrow> Inr (t\<lparr>m_capacity := c\<rparr>))" for n
    unfolding eraseImpl_def f e by (cases "index_find sha256 s n") simp_all
  then show ?thesis
    by (cases "victim P (m_cleanupIndex s)"; cases "Entry_getFullName sha256 (entries s (the (victim P (m_cleanupIndex s))))";
        cases "eraseImpl sha256 now (projr (Entry_getFullName sha256 (entries s (the (victim P (m_cleanupIndex s)))))) s")
      (simp_all add: evictItem_def)
qed

context replacement
begin

lemma evictItem_none: "victim P (m_cleanupIndex s) = None \<Longrightarrow> evictItem P sha256 now s = Inr (s, False)"
  by (simp add: evictItem_def)

lemma evictItem_some:
  assumes "managed tracks sha256 s" and "victim P (m_cleanupIndex s) = Some p"
  shows "\<exists>t. evictItem P sha256 now s = Inr (t, True) \<and> managed tracks sha256 t \<and> p \<in> set (m_cache s)
    \<and> frees sha256 s (place (full_key sha256 (packet s p)) (keys sha256 s)) t"
proof -
  have s: "storage_ok sha256 s" "tracks (m_cleanupIndex s) (set (m_cache s))" using assms(1) by (simp_all add: managed_def)
  note v = evicted [OF s(2) assms(2)]
  then have p: "p \<in> set (m_cache s)" by simp
  obtain t where t: "bindE (Entry_getFullName sha256 (entries s p)) (\<lambda>n. eraseImpl sha256 now n s) = Inr t"
      "frees sha256 s (place (full_key sha256 (packet s p)) (keys sha256 s)) t" "m_cleanupIndex t = m_cleanupIndex s"
    using eraseImpl_run [OF s(1) p] by blast
  have "set (m_cache t) = set (m_cache s) - {p}" using frees_cache(1) [OF t(2) s(1)] entry_place [OF s(1) p] by simp
  then have "managed tracks sha256 (t\<lparr>m_cleanupIndex := forget P p (m_cleanupIndex t)\<rparr>)" using v t(2,3) by (simp add: managed_def frees_def)
  moreover have "evictItem P sha256 now s = Inr (t\<lparr>m_cleanupIndex := forget P p (m_cleanupIndex t)\<rparr>, True)"
    using t(1) assms(2) by (auto simp: evictItem_def bindE_Inr_conv bindE_assoc)
  ultimately show ?thesis using t(2) p by (intro exI [of _ "t\<lparr>m_cleanupIndex := forget P p (m_cleanupIndex t)\<rparr>"]) simp
qed

end


section \<open>Changing the capacity\<close>

lemma push_entries_sel:
  "m_cache (push_entries n s) = m_cache s" "m_limit (push_entries n s) = m_limit s" "m_capacity (push_entries n s) = m_capacity s"
  "m_nPackets (push_entries n s) = m_nPackets s" "m_scheduler (push_entries n s) = m_scheduler s"
  "m_cleanupIndex (push_entries n s) = m_cleanupIndex s" "next_entry (push_entries n s) = next_entry s + n"
  "m_freeEntries (push_entries n s) = rev [next_entry s..<next_entry s + n] @ m_freeEntries s"
  "entries (push_entries n s) p = (if next_entry s \<le> p \<and> p < next_entry s + n then Entry_new else entries s p)"
proof (induction n s rule: push_entries.induct)
  case (2 n s)
  {
    case 8
    show ?case using 2(8) by (simp add: upt_conv_Cons [of "next_entry s"] set_entry_def del: upt_Suc)
  next
    case 9
    show ?case using 2(9) by (auto simp: set_entry_def)
  }
qed (auto simp: set_entry_def)

lemma delete_entries_run: "n \<le> length (m_freeEntries s) \<Longrightarrow> delete_entries n s = Inr (s\<lparr>m_freeEntries := drop n (m_freeEntries s)\<rparr>)"
proof (induction n s rule: delete_entries.induct)
  case (2 n s)
  then show ?case by (cases "m_freeEntries s") auto
qed simp

text \<open>The same packets in the same entries, the policy unaware of any change.\<close>

definition same_packets :: "'c storage \<Rightarrow> 'c storage \<Rightarrow> bool" where
  "same_packets s t \<longleftrightarrow> m_cache t = m_cache s \<and> (\<forall>p \<in> set (m_cache s). entries t p = entries s p)
     \<and> m_cleanupIndex t = m_cleanupIndex s \<and> m_nPackets t = m_nPackets s \<and> m_limit t = m_limit s \<and> m_scheduler t = m_scheduler s"

lemma same_packets_keys: "same_packets s t \<Longrightarrow> keys sha256 t = keys sha256 s \<and> contents sha256 t = contents sha256 s"
  by (auto simp: same_packets_def keys_def packet_def contents_def)

lemma same_packets_ok:
  assumes "same_packets s t" and "storage_ok sha256 s"
  shows "cache_ok sha256 t" and "events_ok (entries t) (set (m_cache t)) (m_scheduler t)"
proof -
  show "cache_ok sha256 t"
    using assms same_packets_keys [OF assms(1), of sha256] by (auto simp: storage_ok_def cache_ok_def same_packets_def)
  have "events_ok (entries s) (set (m_cache s)) (m_scheduler s)" using assms(2) by (simp add: storage_ok_def)
  then show "events_ok (entries t) (set (m_cache t)) (m_scheduler t)"
    using assms(1) by (auto simp: events_ok_def same_packets_def split: option.split)
qed

lemma resize_run:
  assumes "storage_ok sha256 s" and "m_nPackets s \<le> c" and "c \<le> m_limit s"
  shows "\<exists>t. resize (m_capacity s) c (s\<lparr>m_capacity := c\<rparr>) = Some (Inr t) \<and> storage_ok sha256 t \<and> same_packets s t \<and> m_capacity t = c"
proof -
  let ?s = "s\<lparr>m_capacity := c\<rparr>"
  have s: "m_nPackets s + length (m_freeEntries s) = m_capacity s" "\<forall>p \<in> set (m_cache s @ m_freeEntries s). p < next_entry s"
    using assms(1) by (simp_all add: storage_ok_def)
  show ?thesis
  proof (cases "c \<ge> m_capacity s")
    case True
    let ?t = "push_entries (c - m_capacity s) ?s"
    have "\<forall>p \<in> set (m_cache s). \<not> next_entry s \<le> p" using s(2) by (auto simp: not_le)
    then have same: "same_packets s ?t" by (simp add: same_packets_def push_entries_sel)
    have "m_nPackets ?t + length (m_freeEntries ?t) = c" using s(1) True by (simp add: push_entries_sel)
    let ?new = "rev [next_entry s..<next_entry s + (c - m_capacity s)]"
    have f: "m_freeEntries ?t = ?new @ m_freeEntries s" "m_cache ?t = m_cache s" "next_entry ?t = next_entry s + (c - m_capacity s)"
      by (simp_all add: push_entries_sel)
    have old: "p < next_entry s" if "p \<in> set (m_cache s) \<union> set (m_freeEntries s)" for p using s(2) that by simp
    have "distinct (m_cache s @ m_freeEntries s)" using assms(1) by (simp add: storage_ok_def)
    then have "distinct (m_cache s @ ?new @ m_freeEntries s)" using old by (simp add: disjoint_iff) (meson leD UnCI)
    moreover have "\<forall>p \<in> set (m_cache s @ ?new @ m_freeEntries s). p < next_entry s + (c - m_capacity s)"
      using old by (simp add: trans_less_add1 ball_Un)
    moreover have "m_markStaleEventId (entries ?t p) = None" if "p \<in> set (?new @ m_freeEntries s)" for p
      using that assms(1) by (auto simp: storage_ok_def push_entries_sel Entry_new_def)
    ultimately have "distinct (m_cache ?t @ m_freeEntries ?t)" "\<forall>p \<in> set (m_cache ?t @ m_freeEntries ?t). p < next_entry ?t"
        "\<forall>p \<in> set (m_freeEntries ?t). m_markStaleEventId (entries ?t p) = None"
      unfolding f by blast+
    note * = this \<open>m_nPackets ?t + length (m_freeEntries ?t) = c\<close>
    have "m_capacity ?t = c" "m_limit ?t = m_limit s" "m_nPackets ?t = length (m_cache ?t)" "m_limit s < 2 ^ 64"
      using assms(1) by (simp_all add: push_entries_sel storage_ok_def)
    then have "storage_ok sha256 ?t"
      using assms(3) same_packets_ok [OF same assms(1)] * unfolding storage_ok_def by (intro conjI) (assumption | simp)+
    then show ?thesis using True same \<open>m_nPackets ?t + length (m_freeEntries ?t) = c\<close>
      by (intro exI [of _ ?t]) (simp add: resize_def push_entries_sel)
  next
    case False
    let ?t = "?s\<lparr>m_freeEntries := drop (m_capacity s - c) (m_freeEntries s)\<rparr>"
    have le: "m_capacity s - c \<le> length (m_freeEntries s)" using s(1) assms(2) False by linarith
    have same: "same_packets s ?t" by (simp add: same_packets_def)
    have sub: "set (drop (m_capacity s - c) (m_freeEntries s)) \<subseteq> set (m_freeEntries s)" by (rule set_drop_subset)
    have "distinct (m_cache s @ drop (m_capacity s - c) (m_freeEntries s))"
      using assms(1) sub unfolding storage_ok_def by (simp, blast)
    moreover have "\<forall>p \<in> set (m_cache s @ drop (m_capacity s - c) (m_freeEntries s)). p < next_entry s"
      "\<forall>p \<in> set (drop (m_capacity s - c) (m_freeEntries s)). m_markStaleEventId (entries s p) = None"
      using assms(1) sub s(2) unfolding storage_ok_def by auto
    ultimately have "storage_ok sha256 ?t"
      using assms same_packets_ok [OF same assms(1)] s(1) False le unfolding storage_ok_def by simp
    then show ?thesis using False same le delete_entries_run [of "m_capacity s - c" ?s] s(1) assms(2)
      by (intro exI [of _ ?t]) (simp add: resize_def)
  qed
qed

lemma setCapacity_resize:
  "setCapacity P sha256 now c s
    = bindO (evict_loop P sha256 now (int (m_nPackets s) - int c) (s\<lparr>m_capacity := c\<rparr>)) (resize (m_capacity s) c)"
  by (simp add: setCapacity_def Let_def)

lemma evict_loop_none: "m_nPackets s \<le> m_capacity s \<Longrightarrow> evict_loop P sha256 now n s = Some (Inr s)"
  by (simp add: evict_loop.simps)

context replacement
begin

lemma setCapacity_keep:
  assumes "managed tracks sha256 s" and "m_nPackets s \<le> c" and "c \<le> m_limit s"
  shows "\<exists>t. setCapacity P sha256 now c s = Some (Inr t) \<and> managed tracks sha256 t \<and> same_packets s t \<and> m_capacity t = c"
proof -
  have "storage_ok sha256 s" using assms(1) by (simp add: managed_def)
  then obtain t where "resize (m_capacity s) c (s\<lparr>m_capacity := c\<rparr>) = Some (Inr t)" "storage_ok sha256 t" "same_packets s t" "m_capacity t = c"
    using resize_run assms(2,3) by blast
  then show ?thesis using assms(1,2)
    by (intro exI [of _ t]) (simp add: setCapacity_resize evict_loop_none managed_def same_packets_def)
qed

text \<open>Evicting down to a smaller capacity: the capacity field is ahead of the pool meanwhile. With a policy that does
  not name a victim the loop ends with the exception.\<close>

lemma evict_loop_fail:
  assumes "victim P (m_cleanupIndex s) = None" and "\<not> m_nPackets s \<le> m_capacity s"
  shows "evict_loop P sha256 now n s = Some (Inl (StorageError ''Cannot reduce the capacity of the in-memory storage!''))"
proof (induction "nat n" arbitrary: n)
  case 0
  then show ?case using assms by (subst evict_loop.simps) (simp add: evictItem_none)
next
  case (Suc k)
  show ?case
  proof (cases "n - 1 < 0")
    case True
    then show ?thesis using assms by (subst evict_loop.simps) (simp add: evictItem_none)
  next
    case False
    then show ?thesis using assms Suc.hyps(1) [of "n - 1"] Suc.hyps(2) by (subst evict_loop.simps) (simp add: evictItem_none)
  qed
qed

lemma evict_loop_cases:
  assumes "managed tracks sha256 s"
  shows "evict_loop P sha256 now n (s\<lparr>m_capacity := c\<rparr>) = Some (Inl (StorageError ''Cannot reduce the capacity of the in-memory storage!''))
    \<or> (\<exists>t. evict_loop P sha256 now n (s\<lparr>m_capacity := c\<rparr>) = Some (Inr (t\<lparr>m_capacity := c\<rparr>)) \<and> managed tracks sha256 t
      \<and> m_capacity t = m_capacity s \<and> m_limit t = m_limit s \<and> m_nPackets t \<le> c \<and> contents sha256 t \<subseteq> contents sha256 s)"
  using assms
proof (induction "m_nPackets s" arbitrary: s rule: less_induct)
  case less
  have s: "storage_ok sha256 s" using less.prems by (simp add: managed_def)
  show ?case
  proof (cases "m_nPackets s \<le> c")
    case True
    then show ?thesis using less.prems by (intro disjI2 exI [of _ s]) (simp add: evict_loop_none)
  next
    case big: False
    show ?thesis
    proof (cases "victim P (m_cleanupIndex s)")
      case None
      then show ?thesis using big by (intro disjI1 evict_loop_fail) simp_all
    next
      case (Some p)
      obtain u where u: "evictItem P sha256 now s = Inr (u, True)" "managed tracks sha256 u" "p \<in> set (m_cache s)"
          "frees sha256 s (place (full_key sha256 (packet s p)) (keys sha256 s)) u"
        using evictItem_some [OF less.prems Some] by blast
      have n: "m_nPackets u < m_nPackets s" "m_capacity u = m_capacity s" "m_limit u = m_limit s" using u(4) big by (simp_all add: frees_def)
      have e: "evict_loop P sha256 now n (s\<lparr>m_capacity := c\<rparr>) = evict_loop P sha256 now n (u\<lparr>m_capacity := c\<rparr>)"
        using big u(1) by (subst evict_loop.simps) (simp add: evictItem_capacity)
      have "contents sha256 u \<subseteq> contents sha256 s" using frees_cache(2) [OF u(4) s] entry_place [OF s u(3)] by auto
      then show ?thesis unfolding e using less.hyps [OF n(1) u(2)] n by auto
    qed
  qed
qed

lemma setCapacity_cases:
  assumes "managed tracks sha256 s" and "c \<le> m_limit s"
  shows "setCapacity P sha256 now c s = Some (Inl (StorageError ''Cannot reduce the capacity of the in-memory storage!''))
    \<or> (\<exists>t. setCapacity P sha256 now c s = Some (Inr t) \<and> managed tracks sha256 t \<and> m_capacity t = c \<and> m_limit t = m_limit s
      \<and> contents sha256 t \<subseteq> contents sha256 s)"
  using evict_loop_cases [OF assms(1), of now "int (m_nPackets s) - int c" c]
proof (elim disjE exE conjE)
  fix u assume u: "evict_loop P sha256 now (int (m_nPackets s) - int c) (s\<lparr>m_capacity := c\<rparr>) = Some (Inr (u\<lparr>m_capacity := c\<rparr>))"
    "managed tracks sha256 u" "m_capacity u = m_capacity s" "m_limit u = m_limit s" "m_nPackets u \<le> c" "contents sha256 u \<subseteq> contents sha256 s"
  have "storage_ok sha256 u" "c \<le> m_limit u" using u assms(2) by (simp_all add: managed_def)
  from resize_run [OF this(1) u(5) this(2)] obtain t where t: "resize (m_capacity u) c (u\<lparr>m_capacity := c\<rparr>) = Some (Inr t)" "storage_ok sha256 t"
      "same_packets u t" "m_capacity t = c" by blast
  then have "managed tracks sha256 t" using u(2) by (simp add: managed_def same_packets_def)
  then show ?thesis using t u same_packets_keys [OF t(3), of sha256]
    by (intro disjI2 exI [of _ t]) (simp add: setCapacity_resize same_packets_def)
qed (simp add: setCapacity_resize)

end


context evicting
begin

text \<open>Evicting down to a smaller capacity: the capacity field is ahead of the pool meanwhile.\<close>

lemma evict_loop_run:
  assumes "managed tracks sha256 s"
  shows "\<exists>t. evict_loop P sha256 now n (s\<lparr>m_capacity := c\<rparr>) = Some (Inr (t\<lparr>m_capacity := c\<rparr>)) \<and> managed tracks sha256 t
    \<and> m_capacity t = m_capacity s \<and> m_limit t = m_limit s \<and> m_nPackets t = min (m_nPackets s) c \<and> contents sha256 t \<subseteq> contents sha256 s"
  using assms
proof (induction "m_nPackets s" arbitrary: s)
  case 0
  then show ?case by (intro exI [of _ s]) (simp add: evict_loop_none)
next
  case (Suc k)
  show ?case
  proof (cases "m_nPackets s \<le> c")
    case True
    then show ?thesis using Suc.prems by (intro exI [of _ s]) (simp add: evict_loop_none)
  next
    case False
    have s: "storage_ok sha256 s" "tracks (m_cleanupIndex s) (set (m_cache s))" using Suc.prems by (simp_all add: managed_def)
    then have "set (m_cache s) \<noteq> {}" using storage_okD(3) [OF s(1)] Suc.hyps(2) by auto
    then obtain p where p: "victim P (m_cleanupIndex s) = Some p" using evicts [OF s(2)] by blast
    obtain u where u: "evictItem P sha256 now s = Inr (u, True)" "managed tracks sha256 u" "p \<in> set (m_cache s)"
        "frees sha256 s (place (full_key sha256 (packet s p)) (keys sha256 s)) u"
      using evictItem_some [OF Suc.prems p] by blast
    have n: "m_nPackets u = k" "m_capacity u = m_capacity s" "m_limit u = m_limit s" using u(4) Suc.hyps(2) by (simp_all add: frees_def)
    obtain t where t: "evict_loop P sha256 now n (u\<lparr>m_capacity := c\<rparr>) = Some (Inr (t\<lparr>m_capacity := c\<rparr>))" "managed tracks sha256 t"
        "m_capacity t = m_capacity u" "m_limit t = m_limit u" "m_nPackets t = min k c" "contents sha256 t \<subseteq> contents sha256 u"
      using Suc.hyps(1) [of u] u(2) n(1) by auto
    have "evict_loop P sha256 now n (s\<lparr>m_capacity := c\<rparr>) = evict_loop P sha256 now n (u\<lparr>m_capacity := c\<rparr>)"
      using False u(1) by (subst evict_loop.simps) (simp add: evictItem_capacity)
    moreover have "contents sha256 u \<subseteq> contents sha256 s"
      using frees_cache(2) [OF u(4) s(1)] entry_place [OF s(1) u(3)] by auto
    ultimately show ?thesis using t n False Suc.hyps(2) by (intro exI [of _ t]) auto
  qed
qed

lemma setCapacity_run:
  assumes "managed tracks sha256 s" and "c \<le> m_limit s"
  shows "\<exists>t. setCapacity P sha256 now c s = Some (Inr t) \<and> managed tracks sha256 t \<and> m_capacity t = c \<and> m_limit t = m_limit s
    \<and> m_nPackets t = min (m_nPackets s) c \<and> contents sha256 t \<subseteq> contents sha256 s"
proof -
  obtain u where u: "evict_loop P sha256 now (int (m_nPackets s) - int c) (s\<lparr>m_capacity := c\<rparr>) = Some (Inr (u\<lparr>m_capacity := c\<rparr>))"
      "managed tracks sha256 u" "m_capacity u = m_capacity s" "m_limit u = m_limit s" "m_nPackets u = min (m_nPackets s) c"
      "contents sha256 u \<subseteq> contents sha256 s"
    using evict_loop_run [OF assms(1)] by blast
  have "storage_ok sha256 u" "m_nPackets u \<le> c" "c \<le> m_limit u" using u assms(2) by (simp_all add: managed_def)
  from resize_run [OF this] obtain t where t: "resize (m_capacity u) c (u\<lparr>m_capacity := c\<rparr>) = Some (Inr t)" "storage_ok sha256 t"
      "same_packets u t" "m_capacity t = c" by blast
  then have "managed tracks sha256 t" using u(2) by (simp add: managed_def same_packets_def)
  then show ?thesis using t u same_packets_keys [OF t(3), of sha256]
    by (intro exI [of _ t]) (simp add: setCapacity_resize same_packets_def)
qed

end


section \<open>Inserting\<close>

text \<open>The storage after a packet was put into the free entry on top of the pool.\<close>

definition placed :: "(bytes \<Rightarrow> bytes) \<Rightarrow> 'c storage \<Rightarrow> data \<Rightarrow> 'c storage \<Rightarrow> bool" where
  "placed sha256 s d t \<longleftrightarrow> (let p = hd (m_freeEntries s); k = full_key sha256 d; i = place k (keys sha256 s) in
     storage_ok sha256 t \<and> m_cache t = take i (m_cache s) @ p # drop i (m_cache s)
     \<and> keys sha256 t = take i (keys sha256 s) @ k # drop i (keys sha256 s)
     \<and> m_dataPacket (entries t p) = Some d \<and> m_isFresh (entries t p) \<and> (\<forall>q. q \<noteq> p \<longrightarrow> entries t q = entries s q)
     \<and> m_freeEntries t = tl (m_freeEntries s) \<and> m_capacity t = m_capacity s \<and> m_limit t = m_limit s)"

lemma schedule_stale_sel [simp]:
  "m_cache (schedule_stale now w p s) = m_cache s" "m_freeEntries (schedule_stale now w p s) = m_freeEntries s"
  "m_nPackets (schedule_stale now w p s) = m_nPackets s" "m_capacity (schedule_stale now w p s) = m_capacity s"
  "m_limit (schedule_stale now w p s) = m_limit s" "m_cleanupIndex (schedule_stale now w p s) = m_cleanupIndex s"
  "next_entry (schedule_stale now w p s) = next_entry s"
  "m_dataPacket (entries (schedule_stale now w p s) q) = m_dataPacket (entries s q)"
  "m_isFresh (entries (schedule_stale now w p s) q) = m_isFresh (entries s q)"
  "q \<noteq> p \<Longrightarrow> entries (schedule_stale now w p s) q = entries s q"
  by (simp_all add: schedule_stale_def setMarkStaleEventId_def set_entry_def split: option.split prod.split)

lemma schedule_stale_events:
  assumes "events_ok (entries s) A (m_scheduler s)" and "p \<notin> A" and "m_markStaleEventId (entries s p) = None"
  shows "events_ok (entries (schedule_stale now w p s)) (insert p A) (m_scheduler (schedule_stale now w p s))"
proof (cases "m_scheduler s")
  case None
  then show ?thesis by (simp add: schedule_stale_def events_ok_def)
next
  case (Some t)
  have t: "scheduler_ok t" "timer_ok t" "\<not> m_isEventExecuting t"
    "\<forall>e \<in> set (m_queue t). callback e \<in> A \<and> m_markStaleEventId (entries s (callback e)) = Some (Some (ev_id e))"
    using assms(1) Some by (simp_all add: events_ok_def)
  show ?thesis
  proof (cases "w > 0")
    case False
    then show ?thesis using Some t by (auto simp: schedule_stale_def events_ok_def)
  next
    case True
    obtain u where u: "scheduleEvent now (int64 (w * 10 ^ 6)) p t = (Some (next_event t), u)"
      using scheduleEvent_run(1) [of now "int64 (w * 10 ^ 6)" p t] by (metis prod.collapse)
    then have q: "m_queue u = queue_insert \<lparr>ev_id = next_event t, expireTime = int64 (now + int64 (w * 10 ^ 6)), callback = p\<rparr> (m_queue t)"
        "\<not> m_isEventExecuting u" "scheduler_ok u" "timer_ok u"
      using scheduleEvent_run [of now "int64 (w * 10 ^ 6)" p t] scheduleEvent_ok [OF t(1), of now "int64 (w * 10 ^ 6)" p]
        scheduleEvent_timer [OF t(1,2), of now "int64 (w * 10 ^ 6)" p] t(3) by simp_all
    have "EventId_valid u (Some (next_event t))" by (simp add: EventId_valid_def q(1))
    then have a: "ScopedEventId_assign now (Some (next_event t)) (None, u) = (Some (next_event t), u)"
      by (simp add: ScopedEventId_assign_def EventId_equals_def EventId_valid_def cancelEvent_def)
    have r: "schedule_stale now w p s
        = set_entry p ((entries s p)\<lparr>m_markStaleEventId := Some (Some (next_event t))\<rparr>) (s\<lparr>m_scheduler := Some u\<rparr>)"
      using Some True u a assms(3) by (simp add: schedule_stale_def setMarkStaleEventId_def drop_event_def)
    show ?thesis unfolding r
      using q t(4) assms(2) by (auto simp: events_ok_def set_entry_def)
  qed
qed


lemma index_insert_run:
  assumes "cache_ok sha256 s" and "m_dataPacket (entries s p) = Some d" and "stored sha256 d"
    and "full_key sha256 d \<notin> contents sha256 s"
  shows "index_insert sha256 p s = Inr (s\<lparr>m_cache := take (place (full_key sha256 d) (keys sha256 s)) (m_cache s)
    @ p # drop (place (full_key sha256 d) (keys sha256 s)) (m_cache s)\<rparr>)"
proof -
  obtain f where f: "getFullName sha256 d = Inr f" "name_canon f" "name_keys f = full_key sha256 d"
    using stored_full_name [OF assms(3)] by blast
  then have "Entry_getFullName sha256 (entries s p) = Inr f" using assms(2) by (simp add: Entry_getFullName_def getData_def)
  then show ?thesis
    using index_find_run [OF assms(1) f(2)] index_lower_bound_run [OF assms(1) f(2)] assms(4) f(3) by (simp add: index_insert_def)
qed

lemma place_entry_storage:
  assumes "storage_ok sha256 s" and "m_freeEntries s \<noteq> []" and "stored sha256 d" and "full_key sha256 d \<notin> contents sha256 s"
  shows "\<exists>t. placed sha256 s d t \<and> m_nPackets t = m_nPackets s + 1 \<and> m_cleanupIndex t = m_cleanupIndex s
    \<and> set (m_cache t) = insert (hd (m_freeEntries s)) (set (m_cache s))
    \<and> place_entry P sha256 now d w s = bindE (afterInsert P (m_nPackets t) (hd (m_freeEntries s)) (m_cleanupIndex s))
        (\<lambda>c. Inr (t\<lparr>m_cleanupIndex := c\<rparr>))"
proof -
  obtain p rest where f: "m_freeEntries s = p # rest" using assms(2) by (cases "m_freeEntries s") auto
  let ?k = "full_key sha256 d"
  let ?i = "place ?k (keys sha256 s)"
  let ?u = "schedule_stale now w p (set_entry p (Entry_setData d (entries s p)) (s\<lparr>m_freeEntries := rest, m_nPackets := m_nPackets s + 1\<rparr>))"
  let ?c = "take ?i (m_cache s) @ p # drop ?i (m_cache s)"
  let ?t = "?u\<lparr>m_cache := ?c\<rparr>"
  have ok: "distinct (m_cache s @ p # rest)" "\<forall>q \<in> set (m_cache s @ p # rest). q < next_entry s"
      "\<forall>q \<in> set (p # rest). m_markStaleEventId (entries s q) = None"
    using assms(1) f by (simp_all add: storage_ok_def)
  then have p: "p \<notin> set (m_cache s)" "p \<notin> set rest" "m_markStaleEventId (entries s p) = None" by auto
  have e: "entries ?u q = entries s q" if "q \<noteq> p" for q using that by (simp add: set_entry_def)
  have dp: "m_dataPacket (entries ?u p) = Some d" "m_isFresh (entries ?u p)" by (simp_all add: set_entry_def Entry_setData_def)
  have ku: "keys sha256 ?u = keys sha256 s" using p(1) by (intro keys_cong) (auto simp: set_entry_def)
  have cu: "cache_ok sha256 ?u"
    using storage_okD(1) [OF assms(1)] p(1) ku e unfolding cache_ok_def by (auto simp: set_entry_def)
  have ins: "index_insert sha256 p ?u = Inr ?t"
    using index_insert_run [OF cu dp(1) assms(3)] assms(4) ku by (simp add: contents_def set_entry_def)
  have kt: "keys sha256 ?t = take ?i (keys sha256 s) @ ?k # drop ?i (keys sha256 s)"
  proof -
    have "packet ?t q = packet s q" if "q \<in> set (m_cache s)" for q
      using that p(1) by (auto simp: packet_def set_entry_def)
    then have "map (\<lambda>q. full_key sha256 (packet ?t q)) xs = map (\<lambda>q. full_key sha256 (packet s q)) xs" if "set xs \<subseteq> set (m_cache s)" for xs
      using that by (auto simp: subset_iff)
    from this [OF set_take_subset] this [OF set_drop_subset]
    have m: "map (\<lambda>q. full_key sha256 (packet ?t q)) (take ?i (m_cache s)) = take ?i (keys sha256 s)"
        "map (\<lambda>q. full_key sha256 (packet ?t q)) (drop ?i (m_cache s)) = drop ?i (keys sha256 s)"
      by (simp_all add: keys_def take_map drop_map)
    have "packet ?t p = d" using dp(1) by (simp add: packet_def)
    then have "map (\<lambda>q. full_key sha256 (packet ?t q)) ?c = take ?i (keys sha256 s) @ ?k # drop ?i (keys sha256 s)"
      by (simp only: map_append list.map m)
    then show ?thesis by (simp add: keys_def)
  qed
  have sc: "set ?c = insert p (set (m_cache s))" "distinct ?c" "length ?c = length (m_cache s) + 1"
  proof -
    have *: "set (take ?i (m_cache s)) \<union> set (drop ?i (m_cache s)) = set (m_cache s)"
      using set_append [of "take ?i (m_cache s)" "drop ?i (m_cache s)"] by simp
    then show "set ?c = insert p (set (m_cache s))" by auto
    have "set (take ?i (m_cache s)) \<inter> set (drop ?i (m_cache s)) = {}" using ok(1) by (simp add: set_take_disj_set_drop_if_distinct)
    then show "distinct ?c" using ok(1) p(1) * by auto
    show "length ?c = length (m_cache s) + 1" by (simp add: min_def)
  qed
  have ct: "cache_ok sha256 ?t"
    unfolding cache_ok_def kt using cu sc(1) dp(1) assms(3) sorted_place_insert [OF storage_okD(5) [OF assms(1)]] assms(4) p(1)
    by (auto simp: cache_ok_def contents_def set_entry_def)
  let ?v = "set_entry p (Entry_setData d (entries s p)) (s\<lparr>m_freeEntries := rest, m_nPackets := m_nPackets s + 1\<rparr>)"
  have "events_ok (entries s) (set (m_cache s)) (m_scheduler s)" using assms(1) by (simp add: storage_ok_def)
  then have v: "events_ok (entries ?v) (set (m_cache s)) (m_scheduler ?v)"
    using p(1) by (fastforce simp: events_ok_def set_entry_def Entry_setData_def split: option.split)
  have "m_markStaleEventId (entries ?v p) = None" using p(3) by (simp add: set_entry_def Entry_setData_def)
  note ev = schedule_stale_events [OF v p(1) this, of now w]
  have st: "storage_ok sha256 ?t"
    using assms(1) ct ev ok p sc f e unfolding storage_ok_def
    by (auto simp: set_entry_def)
  have pl: "placed sha256 s d ?t" using st kt dp e f by (simp add: placed_def Let_def set_entry_def)
  have "place_entry P sha256 now d w s = bindE (afterInsert P (m_nPackets s + 1) p (m_cleanupIndex s)) (\<lambda>c. Inr (?t\<lparr>m_cleanupIndex := c\<rparr>))"
    using f ins by (simp add: place_entry_def Let_def set_entry_def)
  then show ?thesis using pl sc(1) f by (intro exI [of _ ?t]) (simp add: set_entry_def)
qed

end
