(* ===== verification/StorageOps.thy ===== *)
theory StorageOps
  imports StorageProps
begin

text \<open>
  What the operations of the storage do to the set of packets in it: inserting, erasing and finding by name,
  the staleness of packets, and the end of a storage.
\<close>

section \<open>Inserting\<close>

lemma evictItem_scheduler: "evictItem P sha256 now s = Inr (t, b) \<Longrightarrow> m_scheduler t = None \<longleftrightarrow> m_scheduler s = None"
  by (auto simp: evictItem_def eraseImpl_def freeEntry_def Entry_release_def set_entry_def drop_event_def Let_def bindE_Inr_conv
    split: option.splits if_splits)

lemma place_entry_full: "m_freeEntries s = [] \<Longrightarrow> place_entry P sha256 now d w s = Inl AssertionFailed"
  by (simp add: place_entry_def)

context replacement
begin

lemma place_entry_run:
  assumes "managed tracks sha256 s" and "m_freeEntries s \<noteq> []" and "stored sha256 d" and "full_key sha256 d \<notin> contents sha256 s"
  shows "\<exists>t. place_entry P sha256 now d w s = Inr t \<and> managed tracks sha256 t \<and> placed sha256 s d t"
proof -
  have s: "storage_ok sha256 s" "tracks (m_cleanupIndex s) (set (m_cache s))" using assms(1) by (simp_all add: managed_def)
  let ?p = "hd (m_freeEntries s)"
  have p: "?p \<notin> set (m_cache s)" using s(1) assms(2) by (auto simp: storage_ok_def disjoint_iff)
  obtain t where t: "placed sha256 s d t" "m_nPackets t = m_nPackets s + 1"
      "set (m_cache t) = insert ?p (set (m_cache s))"
      "place_entry P sha256 now d w s = bindE (afterInsert P (m_nPackets t) ?p (m_cleanupIndex s)) (\<lambda>c. Inr (t\<lparr>m_cleanupIndex := c\<rparr>))"
    using place_entry_storage [OF s(1) assms(2-4), where P = P] by blast
  have "card (set (m_cache s)) < m_nPackets t" using t(2) storage_okD(2,3) [OF s(1)] by (simp add: distinct_card)
  from inserted [OF s(2) _ p this] obtain c where c: "afterInsert P (m_nPackets t) ?p (m_cleanupIndex s) = Inr c" "tracks c (insert ?p (set (m_cache s)))"
    by auto
  have "storage_ok sha256 t" using t(1) by (simp add: placed_def Let_def)
  then have "managed tracks sha256 (t\<lparr>m_cleanupIndex := c\<rparr>)" using c(2) t(3) by (simp add: managed_def)
  moreover have "placed sha256 s d (t\<lparr>m_cleanupIndex := c\<rparr>)" using t(1) by (simp add: placed_def Let_def)
  ultimately show ?thesis using t(4) c(1) by auto
qed

lemma make_room_grow:
  assumes "managed tracks sha256 s" and "\<not> (isFull s \<and> m_limit s = m_capacity s)" and "0 < m_capacity s" and "2 * m_capacity s < 2 ^ 64"
  shows "\<exists>t. make_room P sha256 now s = Some (Inr t) \<and> managed tracks sha256 t \<and> same_packets s t \<and> m_freeEntries t \<noteq> []
    \<and> m_capacity t = (if isFull s then min (2 * m_capacity s) (m_limit s) else m_capacity s)"
proof (cases "isFull s")
  case False
  have "storage_ok sha256 s" using assms(1) by (simp add: managed_def)
  then have "m_freeEntries s \<noteq> []" using False storage_okD(4) [of sha256 s] by (auto simp: isFull_def)
  then show ?thesis using False assms(1) by (intro exI [of _ s]) (simp add: make_room_def Let_def same_packets_def)
next
  case True
  let ?c = "min (2 * m_capacity s) (m_limit s)"
  have s: "storage_ok sha256 s" using assms(1) by (simp add: managed_def)
  then have cap: "m_capacity s < m_limit s" "m_nPackets s = m_capacity s"
    using True assms(2) by (auto simp: storage_ok_def isFull_def)
  then have le: "m_nPackets s \<le> ?c" "?c \<le> m_limit s" "m_nPackets s < ?c" using assms(3) by auto
  obtain t where t: "setCapacity P sha256 now ?c s = Some (Inr t)" "managed tracks sha256 t" "same_packets s t" "m_capacity t = ?c"
    using setCapacity_keep [OF assms(1) le(1,2)] by blast
  have "m_nPackets t < m_capacity t" using t(3,4) le(3) by (simp add: same_packets_def)
  then have "\<not> isFull t" "m_freeEntries t \<noteq> []"
    using t(2) by (auto simp: isFull_def managed_def storage_ok_def)
  then show ?thesis using True t cap assms(4) by (intro exI [of _ t]) (simp add: make_room_def Let_def)
qed

lemma insert_check:
  assumes "managed tracks sha256 s" and "stored sha256 d"
  shows "bindE (getFullName sha256 d) (index_find sha256 s)
    = Inr (if full_key sha256 d \<in> contents sha256 s then place (full_key sha256 d) (keys sha256 s) else length (m_cache s))"
    and "full_key sha256 d \<in> contents sha256 s \<longleftrightarrow> place (full_key sha256 d) (keys sha256 s) < length (m_cache s)
      \<and> keys sha256 s ! place (full_key sha256 d) (keys sha256 s) = full_key sha256 d"
proof -
  have s: "storage_ok sha256 s" using assms(1) by (simp add: managed_def)
  show "bindE (getFullName sha256 d) (index_find sha256 s)
    = Inr (if full_key sha256 d \<in> contents sha256 s then place (full_key sha256 d) (keys sha256 s) else length (m_cache s))"
    using stored_full_name [OF assms(2)] index_find_run [OF storage_okD(1) [OF s]] by fastforce
  show "full_key sha256 d \<in> contents sha256 s \<longleftrightarrow> place (full_key sha256 d) (keys sha256 s) < length (m_cache s)
      \<and> keys sha256 s ! place (full_key sha256 d) (keys sha256 s) = full_key sha256 d"
    using place_nth [OF storage_okD(5) [OF s]] by (simp add: contents_def)
qed

lemma insert_present:
  assumes "managed tracks sha256 s" and "stored sha256 d" and "full_key sha256 d \<in> contents sha256 s"
  shows "Storage_insert P sha256 now d w s = Some (Inr s)"
  using insert_check [OF assms(1,2)] assms(3) by (simp add: Storage_insert_def)

lemma insert_step:
  assumes "managed tracks sha256 s" and "stored sha256 d" and "full_key sha256 d \<notin> contents sha256 s"
    and "make_room P sha256 now s = Some (Inr u)" and "managed tracks sha256 u" and "m_freeEntries u \<noteq> []"
    and "contents sha256 u \<subseteq> contents sha256 s"
  shows "\<exists>t. Storage_insert P sha256 now d w s = Some (Inr t) \<and> managed tracks sha256 t
    \<and> contents sha256 t = insert (full_key sha256 d) (contents sha256 u) \<and> m_capacity t = m_capacity u \<and> m_limit t = m_limit u"
proof -
  have "full_key sha256 d \<notin> contents sha256 u" using assms(3,7) by blast
  from place_entry_run [OF assms(5,6,2) this, of now w] obtain t where t: "place_entry P sha256 now d w u = Inr t" "managed tracks sha256 t"
      "placed sha256 u d t" by blast
  let ?i = "place (full_key sha256 d) (keys sha256 u)"
  have "set (take ?i (keys sha256 u)) \<union> set (drop ?i (keys sha256 u)) = set (keys sha256 u)"
    by (metis append_take_drop_id set_append)
  then have "contents sha256 t = insert (full_key sha256 d) (contents sha256 u)" using t(3) by (auto simp: placed_def contents_def Let_def)
  then show ?thesis using insert_check(1) [OF assms(1,2)] assms(3,4) t by (simp add: Storage_insert_def placed_def Let_def)
qed

lemma insert_room:
  assumes "managed tracks sha256 s" and "stored sha256 d" and "full_key sha256 d \<notin> contents sha256 s"
    and "\<not> (isFull s \<and> m_limit s = m_capacity s)" and "0 < m_capacity s" and "2 * m_capacity s < 2 ^ 64"
  shows "\<exists>t. Storage_insert P sha256 now d w s = Some (Inr t) \<and> managed tracks sha256 t
    \<and> contents sha256 t = insert (full_key sha256 d) (contents sha256 s) \<and> m_limit t = m_limit s
    \<and> m_capacity t = (if isFull s then min (2 * m_capacity s) (m_limit s) else m_capacity s)"
proof -
  obtain u where u: "make_room P sha256 now s = Some (Inr u)" "managed tracks sha256 u" "same_packets s u" "m_freeEntries u \<noteq> []"
    "m_capacity u = (if isFull s then min (2 * m_capacity s) (m_limit s) else m_capacity s)"
    using make_room_grow [OF assms(1,4-6)] by blast
  have "contents sha256 u = contents sha256 s" "m_limit u = m_limit s"
    using same_packets_keys [OF u(3)] u(3) by (simp_all add: same_packets_def)
  then obtain t where "Storage_insert P sha256 now d w s = Some (Inr t)" "managed tracks sha256 t"
      "contents sha256 t = insert (full_key sha256 d) (contents sha256 s)" "m_capacity t = m_capacity u" "m_limit t = m_limit s"
    using insert_step [OF assms(1-3) u(1,2,4), of w] by auto
  then show ?thesis using u(5) by (intro exI [of _ t]) simp
qed

end

context evicting
begin

lemma make_room_run:
  assumes "managed tracks sha256 s" and "0 < m_capacity s" and "2 * m_capacity s < 2 ^ 64"
  shows "\<exists>u. make_room P sha256 now s = Some (Inr u) \<and> managed tracks sha256 u \<and> m_freeEntries u \<noteq> []
    \<and> contents sha256 u \<subseteq> contents sha256 s \<and> (m_scheduler u = None \<longleftrightarrow> m_scheduler s = None)"
proof (cases "isFull s \<and> m_limit s = m_capacity s")
  case False
  obtain u where u: "make_room P sha256 now s = Some (Inr u)" "managed tracks sha256 u" "same_packets s u" "m_freeEntries u \<noteq> []"
    using make_room_grow [OF assms(1) False assms(2,3), of now] by blast
  then show ?thesis using same_packets_keys [OF u(3), of sha256] by (intro exI [of _ u]) (simp add: same_packets_def)
next
  case True
  have s: "storage_ok sha256 s" "tracks (m_cleanupIndex s) (set (m_cache s))" using assms(1) by (simp_all add: managed_def)
  have "m_cache s \<noteq> []" using True assms(2) storage_okD(3) [OF s(1)] by (auto simp: isFull_def)
  then obtain p where p: "victim P (m_cleanupIndex s) = Some p" using evicts [OF s(2)] by auto
  obtain u where u: "evictItem P sha256 now s = Inr (u, True)" "managed tracks sha256 u" "p \<in> set (m_cache s)"
      "frees sha256 s (place (full_key sha256 (packet s p)) (keys sha256 s)) u"
    using evictItem_some [OF assms(1) p] by blast
  have "contents sha256 u \<subseteq> contents sha256 s" using frees_cache(2) [OF u(4) s(1)] entry_place [OF s(1) u(3)] by auto
  moreover have "m_freeEntries u \<noteq> []" using u(4) by (simp add: frees_def)
  moreover have "make_room P sha256 now s = Some (Inr u)" using True u(1) by (simp add: make_room_def Let_def)
  ultimately show ?thesis using u(2) evictItem_scheduler [OF u(1)] by (intro exI [of _ u]) simp
qed

lemma insert_evict:
  assumes "managed tracks sha256 s" and "stored sha256 d" and "full_key sha256 d \<notin> contents sha256 s"
    and "isFull s" and "m_limit s = m_capacity s" and "0 < m_capacity s"
  shows "\<exists>t p. Storage_insert P sha256 now d w s = Some (Inr t) \<and> managed tracks sha256 t
    \<and> victim P (m_cleanupIndex s) = Some p \<and> p \<in> set (m_cache s)
    \<and> contents sha256 t = insert (full_key sha256 d) (contents sha256 s - {full_key sha256 (packet s p)})
    \<and> m_capacity t = m_capacity s \<and> m_limit t = m_limit s"
proof -
  have s: "storage_ok sha256 s" "tracks (m_cleanupIndex s) (set (m_cache s))" using assms(1) by (simp_all add: managed_def)
  have "m_cache s \<noteq> []" using assms(4,6) storage_okD(3) [OF s(1)] by (auto simp: isFull_def)
  then obtain p where p: "victim P (m_cleanupIndex s) = Some p" using evicts [OF s(2)] by auto
  obtain u where u: "evictItem P sha256 now s = Inr (u, True)" "managed tracks sha256 u" "p \<in> set (m_cache s)"
      "frees sha256 s (place (full_key sha256 (packet s p)) (keys sha256 s)) u"
    using evictItem_some [OF assms(1) p] by blast
  have "contents sha256 u = contents sha256 s - {full_key sha256 (packet s p)}"
    using frees_cache(2) [OF u(4) s(1)] entry_place [OF s(1) u(3)] place_nth [OF storage_okD(5) [OF s(1)], of "full_key sha256 (packet s p)"]
    by (simp add: contents_def)
  moreover have "make_room P sha256 now s = Some (Inr u)" using assms(4,5) u(1) by (simp add: make_room_def Let_def)
  moreover have "m_freeEntries u \<noteq> []" "m_capacity u = m_capacity s" "m_limit u = m_limit s" using u(4) by (simp_all add: frees_def)
  ultimately show ?thesis using insert_step [OF assms(1-3) _ u(2)] p u(3) by auto
qed

end

text \<open>
  C11. Inserting a packet, under any replacement policy that fulfils the contract: a packet that is there is
  left; otherwise it is added, and exactly the victim of the policy is lost, when the capacity is used up and
  has reached the limit; short of the limit the capacity is doubled instead. The invariant of the storage is
  kept: no assertion fails, the pool never runs dry and the policy tracks exactly the packets stored.
\<close>

theorem Storage_insert_contents:
  assumes "evicting P tracks" and "managed tracks sha256 s" and "stored sha256 d" and "0 < m_capacity s" and "2 * m_capacity s < 2 ^ 64"
  shows "\<exists>t. Storage_insert P sha256 now d w s = Some (Inr t) \<and> managed tracks sha256 t \<and> m_limit t = m_limit s
    \<and> (if full_key sha256 d \<in> contents sha256 s then t = s
       else if isFull s \<and> m_limit s = m_capacity s then
         m_capacity t = m_capacity s \<and> (\<exists>p \<in> set (m_cache s). victim P (m_cleanupIndex s) = Some p
           \<and> contents sha256 t = insert (full_key sha256 d) (contents sha256 s - {full_key sha256 (packet s p)}))
       else contents sha256 t = insert (full_key sha256 d) (contents sha256 s)
         \<and> m_capacity t = (if isFull s then min (2 * m_capacity s) (m_limit s) else m_capacity s))"
proof -
  have P: "replacement P tracks" using assms(1) by (rule evicting.axioms)
  let ?k = "full_key sha256 d"
  consider "?k \<in> contents sha256 s" | "?k \<notin> contents sha256 s" "isFull s" "m_limit s = m_capacity s"
    | "?k \<notin> contents sha256 s" "\<not> (isFull s \<and> m_limit s = m_capacity s)" by blast
  then show ?thesis
  proof cases
    case 1
    then show ?thesis using replacement.insert_present [OF P assms(2,3) 1] assms(2) by (intro exI [of _ s]) simp
  next
    case 2
    obtain t p where t: "Storage_insert P sha256 now d w s = Some (Inr t)" "managed tracks sha256 t"
        "victim P (m_cleanupIndex s) = Some p" "p \<in> set (m_cache s)"
        "contents sha256 t = insert ?k (contents sha256 s - {full_key sha256 (packet s p)})"
        "m_capacity t = m_capacity s" "m_limit t = m_limit s"
      using evicting.insert_evict [OF assms(1-3) 2 assms(4)] by blast
    show ?thesis by (intro exI [of _ t]) (use 2 t in auto)
  next
    case 3
    obtain t where t: "Storage_insert P sha256 now d w s = Some (Inr t)" "managed tracks sha256 t"
        "contents sha256 t = insert ?k (contents sha256 s)" "m_limit t = m_limit s"
        "m_capacity t = (if isFull s then min (2 * m_capacity s) (m_limit s) else m_capacity s)"
      using replacement.insert_room [OF P assms(2,3) 3 assms(4,5)] by blast
    show ?thesis by (intro exI [of _ t]; cases "isFull s") (use 3 t in simp_all)
  qed
qed



section \<open>Names with a prefix\<close>

text \<open>In a sorted list the lists with a prefix are together, and begin at the place of the prefix.\<close>

lemma prefix_le: "prefix n k \<Longrightarrow> n \<le> (k :: 'a :: linorder list)"
proof (induction n arbitrary: k)
  case (Cons a n)
  then show ?case by (cases k) auto
qed simp

lemma prefix_convex: "n \<le> k \<Longrightarrow> k \<le> l \<Longrightarrow> prefix n l \<Longrightarrow> prefix n (k :: 'a :: linorder list)"
proof (induction n arbitrary: k l)
  case (Cons a n)
  then obtain b k' where k: "k = b # k'" by (cases k) auto
  obtain l' where l: "l = a # l'" "prefix n l'" using Cons.prems(3) by (cases l) auto
  have "b = a" using Cons.prems(1,2) k l(1) by auto
  then show ?case using Cons.IH [of k' l'] Cons.prems(1,2) k l by auto
qed simp

lemma prefix_place:
  assumes "sorted_wrt (<) ks" and "l \<in> set ks" and "prefix n (l :: 'a :: linorder list)"
  shows "place n ks < length ks" and "prefix n (ks ! place n ks)" and "ks ! place n ks \<le> l"
proof -
  have l: "l \<in> set (drop (place n ks) ks)"
    using assms(2) prefix_le [OF assms(3)] place_before [of l n ks]
    by (metis UnE append_take_drop_id not_le set_append)
  then show lt: "place n ks < length ks" by (metis drop_eq_Nil empty_iff linorder_not_le list.set(1))
  then have d: "drop (place n ks) ks = ks ! place n ks # drop (Suc (place n ks)) ks" by (simp add: Cons_nth_drop_Suc)
  have "sorted_wrt (<) (drop (place n ks) ks)" by (rule sorted_wrt_drop [OF assms(1)])
  then show "ks ! place n ks \<le> l" using l unfolding d by auto
  then show "prefix n (ks ! place n ks)" using place_behind [OF assms(1), of "ks ! place n ks" n] d prefix_convex assms(3) by auto
qed

lemma isPrefixOf_name: "name_ok n \<Longrightarrow> name_canon m \<Longrightarrow> isPrefixOf n m = Inr (prefix (name_keys n) (name_keys m))"
  by (simp add: isPrefixOf_prefix name_canon_ok)


section \<open>Finding by name\<close>

lemma nth_packet:
  assumes "storage_ok sha256 s" and "i < length (m_cache s)"
  shows "getData (entries s (m_cache s ! i)) = Inr (packet s (m_cache s ! i))" and "stored sha256 (packet s (m_cache s ! i))"
    and "full_key sha256 (packet s (m_cache s ! i)) = keys sha256 s ! i" and "m_cache s ! i \<in> set (m_cache s)"
proof -
  show p: "m_cache s ! i \<in> set (m_cache s)" using assms(2) by simp
  show "getData (entries s (m_cache s ! i)) = Inr (packet s (m_cache s ! i))" "stored sha256 (packet s (m_cache s ! i))"
    using storage_okD(1) [OF assms(1)] p by (auto simp: cache_ok_def getData_def packet_def)
  show "full_key sha256 (packet s (m_cache s ! i)) = keys sha256 s ! i" using assms(2) by (simp add: keys_def)
qed

context replacement
begin

lemma access_run:
  assumes "managed tracks sha256 s" and "p \<in> set (m_cache s)"
  shows "\<exists>c. afterAccess P (m_nPackets s) p (m_cleanupIndex s) = Inr c \<and> access P p s = Inr (s\<lparr>m_cleanupIndex := c\<rparr>)
    \<and> managed tracks sha256 (s\<lparr>m_cleanupIndex := c\<rparr>)"
proof -
  have s: "storage_ok sha256 s" "tracks (m_cleanupIndex s) (set (m_cache s))" using assms(1) by (simp_all add: managed_def)
  have "card (set (m_cache s)) \<le> m_nPackets s" using storage_okD(2,3) [OF s(1)] by (simp add: distinct_card)
  from accessed [OF s(2) _ assms(2) this] show ?thesis using s(1) by (auto simp: access_def managed_def)
qed

lemma find_name_run:
  assumes "managed tracks sha256 s" and "name_canon n"
  shows "if \<exists>k \<in> contents sha256 s. prefix (name_keys n) k
    then \<exists>p c. p \<in> set (m_cache s) \<and> prefix (name_keys n) (full_key sha256 (packet s p))
      \<and> (\<forall>k \<in> contents sha256 s. prefix (name_keys n) k \<longrightarrow> full_key sha256 (packet s p) \<le> k)
      \<and> afterAccess P (m_nPackets s) p (m_cleanupIndex s) = Inr c
      \<and> Storage_find_name P sha256 n s = Inr (Some (packet s p), s\<lparr>m_cleanupIndex := c\<rparr>)
      \<and> managed tracks sha256 (s\<lparr>m_cleanupIndex := c\<rparr>)
    else Storage_find_name P sha256 n s = Inr (None, s)"
proof -
  have s: "storage_ok sha256 s" using assms(1) by (simp add: managed_def)
  let ?ks = "keys sha256 s" and ?n = "name_keys n"
  let ?i = "place ?n ?ks"
  have sorted: "sorted_wrt (<) ?ks" by (rule storage_okD(5) [OF s])
  have lb: "index_lower_bound sha256 s n = Inr ?i" by (rule index_lower_bound_run [OF storage_okD(1) [OF s] assms(2)])
  show ?thesis
  proof (cases "?i < length (m_cache s)")
    case False
    then have "?i = length (m_cache s)" using place_le [of ?n ?ks] by simp
    moreover have "\<not> prefix ?n k" if "k \<in> contents sha256 s" for k
      using prefix_place(1) [OF sorted, of k ?n] that False by (auto simp: contents_def)
    ultimately show ?thesis using lb by (auto simp: Storage_find_name_def)
  next
    case True
    let ?p = "m_cache s ! ?i"
    note p = nth_packet [OF s True]
    obtain f where f: "Entry_getFullName sha256 (entries s ?p) = Inr f" "name_canon f" "name_keys f = ?ks ! ?i"
      using entry_full_name [OF storage_okD(1) [OF s] p(4)] p(3) by auto
    have pre: "isPrefixOf n f = Inr (prefix ?n (?ks ! ?i))" using isPrefixOf_name [OF name_canon_ok [OF assms(2)] f(2)] f(3) by simp
    show ?thesis
    proof (cases "prefix ?n (?ks ! ?i)")
      case pos: True
      obtain c where c: "afterAccess P (m_nPackets s) ?p (m_cleanupIndex s) = Inr c" "access P ?p s = Inr (s\<lparr>m_cleanupIndex := c\<rparr>)"
          "managed tracks sha256 (s\<lparr>m_cleanupIndex := c\<rparr>)"
        using access_run [OF assms(1) p(4)] by blast
      have "?ks ! ?i \<in> contents sha256 s" using True by (simp add: contents_def)
      moreover have "\<forall>k \<in> contents sha256 s. prefix ?n k \<longrightarrow> ?ks ! ?i \<le> k"
        using prefix_place(3) [OF sorted] by (auto simp: contents_def)
      moreover have "Storage_find_name P sha256 n s = Inr (Some (packet s ?p), s\<lparr>m_cleanupIndex := c\<rparr>)"
        using lb True f(1) pre pos c(2) p(1) by (simp add: Storage_find_name_def)
      ultimately show ?thesis using pos c p(3,4) by auto
    next
      case neg: False
      then have "\<not> prefix ?n k" if "k \<in> contents sha256 s" for k
        using prefix_place(2) [OF sorted, of k ?n] that by (auto simp: contents_def)
      then show ?thesis using lb True f(1) pre neg by (auto simp: Storage_find_name_def)
    qed
  qed
qed

end

text \<open>
  Finding by name: the packet whose full name is the least of those that the name is a prefix of, or
  nothing exactly when there is none. The policy is told of the access; the packets stay as they are.
\<close>

theorem Storage_find_name_least:
  assumes "replacement P tracks" and "managed tracks sha256 s" and "name_canon n"
  shows "if \<exists>k \<in> contents sha256 s. prefix (name_keys n) k
    then \<exists>p c. p \<in> set (m_cache s) \<and> prefix (name_keys n) (full_key sha256 (packet s p))
      \<and> (\<forall>k \<in> contents sha256 s. prefix (name_keys n) k \<longrightarrow> full_key sha256 (packet s p) \<le> k)
      \<and> afterAccess P (m_nPackets s) p (m_cleanupIndex s) = Inr c
      \<and> Storage_find_name P sha256 n s = Inr (Some (packet s p), s\<lparr>m_cleanupIndex := c\<rparr>)
      \<and> managed tracks sha256 (s\<lparr>m_cleanupIndex := c\<rparr>)
    else Storage_find_name P sha256 n s = Inr (None, s)"
  by (rule replacement.find_name_run [OF assms])


section \<open>Erasing\<close>

lemma place_without:
  assumes "sorted_wrt (<) ks" and "place k ks < length ks"
  shows "place k (without (place k ks) ks) = place k ks"
proof -
  have "takeWhile (\<lambda>x. x < k) (take (place k ks) ks @ drop (Suc (place k ks)) ks)
      = take (place k ks) ks @ takeWhile (\<lambda>x. x < k) (drop (Suc (place k ks)) ks)"
    by (rule takeWhile_append2) (rule place_before)
  moreover have "\<not> x < k" if "x \<in> set (drop (Suc (place k ks)) ks)" for x
    using place_behind [OF assms(1), of x k] assms(2) that by (metis Cons_nth_drop_Suc list.set_intros(2) not_le)
  then have "takeWhile (\<lambda>x. x < k) (drop (Suc (place k ks)) ks) = []" by (metis takeWhile_eq_Nil_iff hd_in_set)
  ultimately have "takeWhile (\<lambda>x. x < k) (without (place k ks) ks) = take (place k ks) ks" by (simp add: without_def)
  then show ?thesis using assms(2) by (simp add: place_def [of k "without (place k ks) ks"])
qed

text \<open>The packets whose names have a prefix.\<close>

lemma nth_name_prefix:
  assumes "storage_ok sha256 s" and "i < length (m_cache s)" and "name_canon n" and "keys sha256 s ! i \<noteq> name_keys n"
  shows "\<exists>m. Entry_getName (entries s (m_cache s ! i)) = Inr m \<and> isPrefixOf n m = Inr (prefix (name_keys n) (keys sha256 s ! i))"
proof -
  let ?d = "packet s (m_cache s ! i)"
  note p = nth_packet [OF assms(1,2)]
  obtain w where w: "packet_ok sha256 ?d w" using p(2) by (auto simp: stored_def)
  then have k: "keys sha256 s ! i = name_keys (d_name ?d) @ [digest_key (sha256 w)]" "name_canon (d_name ?d)"
    using p(3) by (simp_all add: full_key_def packet_ok_def)
  then have "prefix (name_keys n) (keys sha256 s ! i) \<longleftrightarrow> prefix (name_keys n) (name_keys (d_name ?d))" using assms(4) by auto
  then show ?thesis using p(1) isPrefixOf_name [OF name_canon_ok [OF assms(3)] k(2)]
    by (intro exI [of _ "d_name ?d"]) (simp add: Entry_getName_def)
qed

lemma managed_card: "managed tracks sha256 s \<Longrightarrow> card (contents sha256 s) = m_nPackets s"
  using strict_mono_sorted [OF storage_okD(5) [of sha256 s]] storage_okD(3) [of sha256 s]
  by (simp add: managed_def contents_def distinct_card)

lemma shrink_idle: "m_capacity s \<le> 3 * m_nPackets s \<Longrightarrow> storage_ok sha256 s \<Longrightarrow> shrink P sha256 now s = Some (Inr s)"
  using storage_okD(4) [of sha256 s] by (simp add: shrink_def)

context replacement
begin

lemma erase_one:
  assumes "managed tracks sha256 s" and "it < length (m_cache s)"
  shows "\<exists>t. freeEntry now it (s\<lparr>m_cleanupIndex := beforeErase P (m_cache s ! it) (m_cleanupIndex s)\<rparr>) = Inr t
    \<and> frees sha256 s it t \<and> managed tracks sha256 t"
proof -
  have s: "storage_ok sha256 s" "tracks (m_cleanupIndex s) (set (m_cache s))" using assms(1) by (simp_all add: managed_def)
  let ?s = "s\<lparr>m_cleanupIndex := beforeErase P (m_cache s ! it) (m_cleanupIndex s)\<rparr>"
  obtain t where t: "freeEntry now it ?s = Inr t" "frees sha256 ?s it t" "m_cleanupIndex t = m_cleanupIndex ?s"
    using freeEntry_run [of sha256 ?s it now] s(1) assms(2) by auto
  have f: "frees sha256 s it t" using t(2) by (simp add: frees_def)
  then have "storage_ok sha256 t" "set (m_cache t) = set (m_cache s) - {m_cache s ! it}"
    using frees_cache(1) [OF f s(1) assms(2)] by (simp_all add: frees_def)
  then have "managed tracks sha256 t" using t(3) erased [OF s(2), of "m_cache s ! it"] by (simp add: managed_def)
  then show ?thesis using t(1) f by blast
qed

lemma erase_prefix_run:
  assumes "managed tracks sha256 s" and "name_canon n" and "name_keys n \<notin> contents sha256 s"
  shows "\<exists>t. erase_prefix P now n (place (name_keys n) (keys sha256 s)) s = Inr t \<and> managed tracks sha256 t
    \<and> contents sha256 t = {k \<in> contents sha256 s. \<not> prefix (name_keys n) k} \<and> m_capacity t = m_capacity s \<and> m_limit t = m_limit s"
  using assms
proof (induction "length (m_cache s)" arbitrary: s rule: less_induct)
  case less
  let ?n = "name_keys n" and ?ks = "keys sha256 s"
  let ?i = "place ?n ?ks"
  have s: "storage_ok sha256 s" using less.prems(1) by (simp add: managed_def)
  note sorted = storage_okD(5) [OF s]
  show ?case
  proof (cases "?i < length (m_cache s) \<and> prefix ?n (?ks ! ?i)")
    case False
    then have none: "\<not> prefix ?n k" if "k \<in> contents sha256 s" for k
      using prefix_place(1,2) [OF sorted, of k ?n] that by (auto simp: contents_def)
    then have "contents sha256 s = {k \<in> contents sha256 s. \<not> prefix ?n k}" by blast
    moreover have "erase_prefix P now n ?i s = Inr s"
    proof (cases "?i < length (m_cache s)")
      case True
      then have "?ks ! ?i \<in> contents sha256 s" by (simp add: contents_def)
      then have "?ks ! ?i \<noteq> ?n" using less.prems(3) by metis
      then show ?thesis using nth_name_prefix [OF s True less.prems(2)] False True by (subst erase_prefix.simps) auto
    qed (subst erase_prefix.simps, simp)
    ultimately show ?thesis using less.prems(1) by (intro exI [of _ s]) simp
  next
    case True
    then have "?ks ! ?i \<in> contents sha256 s" by (simp add: contents_def)
    then have "?ks ! ?i \<noteq> ?n" using less.prems(3) by metis
    then obtain m where m: "Entry_getName (entries s (m_cache s ! ?i)) = Inr m" "isPrefixOf n m = Inr True"
      using nth_name_prefix [OF s _ less.prems(2), of ?i] True by auto
    obtain u where u: "freeEntry now ?i (s\<lparr>m_cleanupIndex := beforeErase P (m_cache s ! ?i) (m_cleanupIndex s)\<rparr>) = Inr u"
        "frees sha256 s ?i u" "managed tracks sha256 u"
      using erase_one [OF less.prems(1), of ?i now] True by blast
    have c: "contents sha256 u = contents sha256 s - {?ks ! ?i}" using frees_cache(2) [OF u(2) s] True by simp
    have p: "place ?n (keys sha256 u) = ?i" using u(2) place_without [OF sorted] True by (simp add: frees_def)
    have "length (m_cache u) = length (m_cache s) - 1" using u(2) True by (simp add: frees_def without_length)
    then have "length (m_cache u) < length (m_cache s)" using True by linarith
    from less.hyps [OF this u(3) less.prems(2)] c less.prems(3)
    obtain t where t: "erase_prefix P now n ?i u = Inr t" "managed tracks sha256 t"
        "contents sha256 t = {k \<in> contents sha256 u. \<not> prefix ?n k}" "m_capacity t = m_capacity u" "m_limit t = m_limit u"
      unfolding p by auto
    have "erase_prefix P now n ?i s = Inr t" using True m u(1) t(1) by (subst erase_prefix.simps) simp
    then show ?thesis using t c True u(2) by (intro exI [of _ t]) (auto simp: frees_def)
  qed
qed

lemma shrink_run:
  assumes "managed tracks sha256 s"
  shows "\<exists>t. shrink P sha256 now s = Some (Inr t) \<and> managed tracks sha256 t \<and> contents sha256 t = contents sha256 s
    \<and> m_limit t = m_limit s \<and> m_nPackets t = m_nPackets s
    \<and> m_capacity t = (if 3 * m_nPackets s < m_capacity s then m_capacity s div 2 else m_capacity s)"
proof -
  have s: "storage_ok sha256 s" "m_capacity s \<le> m_limit s" using assms by (simp_all add: managed_def storage_ok_def)
  note n = storage_okD(4) [OF s(1)]
  show ?thesis
  proof (cases "3 * m_nPackets s < m_capacity s")
    case True
    then have "m_nPackets s \<le> m_capacity s div 2" "m_capacity s div 2 \<le> m_limit s" using s(2) by auto
    from setCapacity_keep [OF assms this, of now] obtain t where t: "setCapacity P sha256 now (m_capacity s div 2) s = Some (Inr t)"
        "managed tracks sha256 t" "same_packets s t" "m_capacity t = m_capacity s div 2" by blast
    have "length (m_freeEntries s) > 2 * m_nPackets s" using n True by linarith
    then show ?thesis using True t same_packets_keys [OF t(3)] by (intro exI [of _ t]) (simp add: shrink_def same_packets_def)
  next
    case False
    then show ?thesis using assms shrink_idle [of s sha256 P now] s(1) by (intro exI [of _ s]) simp
  qed
qed

lemma erase_prefix_full:
  assumes "managed tracks sha256 s" and "name_canon n" and "name_keys n \<in> contents sha256 s"
  shows "erase_prefix P now n (place (name_keys n) (keys sha256 s)) s = Inr s"
proof -
  have s: "storage_ok sha256 s" using assms(1) by (simp add: managed_def)
  let ?i = "place (name_keys n) (keys sha256 s)"
  have i: "?i < length (m_cache s)" "keys sha256 s ! ?i = name_keys n"
    using place_nth [OF storage_okD(5) [OF s], of "name_keys n"] assms(3) by (simp_all add: contents_def)
  let ?d = "packet s (m_cache s ! ?i)"
  note p = nth_packet [OF s i(1)]
  obtain w where w: "packet_ok sha256 ?d w" using p(2) by (auto simp: stored_def)
  then have k: "name_keys n = name_keys (d_name ?d) @ [digest_key (sha256 w)]" "name_canon (d_name ?d)"
    using p(3) i(2) by (simp_all add: full_key_def packet_ok_def)
  then have "isPrefixOf n (d_name ?d) = Inr False" using isPrefixOf_name [OF name_canon_ok [OF assms(2)] k(2)]
    by (metis prefix_length_le length_append_singleton not_less_eq_eq order_refl)
  then show ?thesis using i(1) p(1) by (subst erase_prefix.simps) (simp add: Entry_getName_def)
qed

end

context replacement
begin

lemma erase_run:
  assumes "managed tracks sha256 s" and "name_canon n"
  shows "(\<exists>t. Storage_erase P sha256 now n True s = Some (Inr t) \<and> managed tracks sha256 t \<and> m_limit t = m_limit s
      \<and> contents sha256 t = (if name_keys n \<in> contents sha256 s then contents sha256 s
          else {k \<in> contents sha256 s. \<not> prefix (name_keys n) k})
      \<and> m_capacity t = (if 3 * card (contents sha256 t) < m_capacity s then m_capacity s div 2 else m_capacity s))
    \<and> (\<exists>t. Storage_erase P sha256 now n False s = Some (Inr t) \<and> managed tracks sha256 t \<and> m_limit t = m_limit s
      \<and> contents sha256 t = contents sha256 s - {name_keys n}
      \<and> m_capacity t = (if name_keys n \<in> contents sha256 s \<and> 3 * card (contents sha256 t) < m_capacity s
          then m_capacity s div 2 else m_capacity s))"
proof -
  let ?n = "name_keys n" and ?ks = "keys sha256 s"
  have s: "storage_ok sha256 s" using assms(1) by (simp add: managed_def)
  note shrink = shrink_run [of sha256 _ now]
  have lb: "index_lower_bound sha256 s n = Inr (place ?n ?ks)" by (rule index_lower_bound_run [OF storage_okD(1) [OF s] assms(2)])
  obtain u where u: "erase_prefix P now n (place ?n ?ks) s = Inr u" "managed tracks sha256 u"
      "contents sha256 u = (if ?n \<in> contents sha256 s then contents sha256 s else {k \<in> contents sha256 s. \<not> prefix ?n k})"
      "m_capacity u = m_capacity s" "m_limit u = m_limit s"
    using erase_prefix_run [OF assms, of now] erase_prefix_full [OF assms, of now] assms(1)
    by (cases "?n \<in> contents sha256 s") auto
  obtain t where t: "shrink P sha256 now u = Some (Inr t)" "managed tracks sha256 t" "contents sha256 t = contents sha256 u"
      "m_limit t = m_limit u" "m_nPackets t = m_nPackets u"
      "m_capacity t = (if 3 * m_nPackets u < m_capacity u then m_capacity u div 2 else m_capacity u)"
    using shrink [OF u(2)] by blast
  have "Storage_erase P sha256 now n True s = Some (Inr t)" using lb u(1) t(1) by (simp add: Storage_erase_def)
  moreover have "card (contents sha256 t) = m_nPackets u" using managed_card [OF t(2)] t(5) by simp
  ultimately have 1: "\<exists>t. Storage_erase P sha256 now n True s = Some (Inr t) \<and> managed tracks sha256 t \<and> m_limit t = m_limit s
      \<and> contents sha256 t = (if ?n \<in> contents sha256 s then contents sha256 s else {k \<in> contents sha256 s. \<not> prefix ?n k})
      \<and> m_capacity t = (if 3 * card (contents sha256 t) < m_capacity s then m_capacity s div 2 else m_capacity s)"
    using t(2-6) u(3-5) by (intro exI [of _ t]) simp
  have 2: "\<exists>t. Storage_erase P sha256 now n False s = Some (Inr t) \<and> managed tracks sha256 t \<and> m_limit t = m_limit s
      \<and> contents sha256 t = contents sha256 s - {?n}
      \<and> m_capacity t = (if ?n \<in> contents sha256 s \<and> 3 * card (contents sha256 t) < m_capacity s then m_capacity s div 2 else m_capacity s)"
  proof (cases "?n \<in> contents sha256 s")
    case False
    then have "erase_exact P sha256 now n s = Inr (s, False)"
      using index_find_run [OF storage_okD(1) [OF s] assms(2)] by (simp add: erase_exact_def)
    then show ?thesis using False assms(1) by (intro exI [of _ s]) (simp add: Storage_erase_def)
  next
    case True
    let ?i = "place ?n ?ks"
    have i: "?i < length (m_cache s)" "?ks ! ?i = ?n" using place_nth [OF storage_okD(5) [OF s], of ?n] True by (simp_all add: contents_def)
    obtain v where v: "freeEntry now ?i (s\<lparr>m_cleanupIndex := beforeErase P (m_cache s ! ?i) (m_cleanupIndex s)\<rparr>) = Inr v"
        "frees sha256 s ?i v" "managed tracks sha256 v"
      using erase_one [OF assms(1) i(1), of now] by blast
    have c: "contents sha256 v = contents sha256 s - {?n}" "m_capacity v = m_capacity s" "m_limit v = m_limit s"
      using frees_cache(2) [OF v(2) s i(1)] i(2) v(2) by (simp_all add: frees_def)
    obtain t where t: "shrink P sha256 now v = Some (Inr t)" "managed tracks sha256 t" "contents sha256 t = contents sha256 v"
        "m_limit t = m_limit v" "m_nPackets t = m_nPackets v"
        "m_capacity t = (if 3 * m_nPackets v < m_capacity v then m_capacity v div 2 else m_capacity v)"
      using shrink [OF v(3)] by blast
    have "erase_exact P sha256 now n s = Inr (v, True)"
      using index_find_run [OF storage_okD(1) [OF s] assms(2)] True i(1) v(1) by (simp add: erase_exact_def)
    then have "Storage_erase P sha256 now n False s = Some (Inr t)" using t(1) by (simp add: Storage_erase_def)
    moreover have "card (contents sha256 t) = m_nPackets v" using managed_card [OF t(2)] t(5) by simp
    ultimately show ?thesis using True t c by (intro exI [of _ t]) simp
  qed
  show ?thesis by (rule conjI [OF 1 2])
qed

end

text \<open>
  C13. Erasing, under any replacement policy that fulfils the contract. By prefix, the default: the packets
  that remain are those whose full names the name is not a prefix of, except that a name which is itself the
  full name of a packet erases nothing. By full name: that packet goes. The capacity is then halved when more
  than two thirds of the pool are free, which never evicts a packet.
\<close>

theorem Storage_erase_contents:
  assumes "replacement P tracks" and "managed tracks sha256 s" and "name_canon n"
  shows "(\<exists>t. Storage_erase P sha256 now n True s = Some (Inr t) \<and> managed tracks sha256 t \<and> m_limit t = m_limit s
      \<and> contents sha256 t = (if name_keys n \<in> contents sha256 s then contents sha256 s
          else {k \<in> contents sha256 s. \<not> prefix (name_keys n) k})
      \<and> m_capacity t = (if 3 * card (contents sha256 t) < m_capacity s then m_capacity s div 2 else m_capacity s))
    \<and> (\<exists>t. Storage_erase P sha256 now n False s = Some (Inr t) \<and> managed tracks sha256 t \<and> m_limit t = m_limit s
      \<and> contents sha256 t = contents sha256 s - {name_keys n}
      \<and> m_capacity t = (if name_keys n \<in> contents sha256 s \<and> 3 * card (contents sha256 t) < m_capacity s
          then m_capacity s div 2 else m_capacity s))"
  by (rule replacement.erase_run [OF assms])

end
