(* ===== verification/StoragePolicy.thy ===== *)
theory StoragePolicy
  imports StorageOps
begin

text \<open>
  The replacement policies of the in-memory storage (util/in-memory-storage-fifo.cpp, -lru.cpp, -lfu.cpp,
  -persistent.cpp), that they fulfil the contract, what they evict, and the storage under them.
\<close>

section \<open>First in, first out\<close>

text \<open>A Boost container with a unique index of the entries and a sequence of them: a list without repetition.\<close>

definition unique_insert :: "nat \<Rightarrow> nat list \<Rightarrow> nat list" where
  "unique_insert p c = (if p \<in> set c then c else c @ [p])"

definition unique_erase :: "nat \<Rightarrow> nat list \<Rightarrow> nat list" where
  "unique_erase p c = removeAll p c"

definition sequence_begin :: "nat list \<Rightarrow> nat option" where
  "sequence_begin c = (case c of [] \<Rightarrow> None | p # _ \<Rightarrow> Some p)"

definition Fifo_afterInsert :: "nat \<Rightarrow> nat \<Rightarrow> nat list \<Rightarrow> nat list result" where
  "Fifo_afterInsert n p c = (if length c \<le> n then Inr (unique_insert p c) else Inl AssertionFailed)"

definition Fifo_beforeErase :: "nat \<Rightarrow> nat list \<Rightarrow> nat list" where
  "Fifo_beforeErase p c = unique_erase p c"

definition base_afterAccess :: "nat \<Rightarrow> nat \<Rightarrow> 'c \<Rightarrow> 'c result" where
  "base_afterAccess n p c = Inr c"

definition Fifo_policy :: "nat list policy" where
  "Fifo_policy = \<lparr>afterInsert = Fifo_afterInsert, beforeErase = Fifo_beforeErase, afterAccess = base_afterAccess,
     victim = sequence_begin, forget = (\<lambda>p c. tl c)\<rparr>"


section \<open>Least recently used\<close>

definition Lru_afterInsert :: "nat \<Rightarrow> nat \<Rightarrow> nat list \<Rightarrow> nat list result" where
  "Lru_afterInsert n p c = (if length c \<le> n then Inr (unique_insert p c) else Inl AssertionFailed)"

definition Lru_beforeErase :: "nat \<Rightarrow> nat list \<Rightarrow> nat list" where
  "Lru_beforeErase p c = unique_erase p c"

definition Lru_afterAccess :: "nat \<Rightarrow> nat \<Rightarrow> nat list \<Rightarrow> nat list result" where
  "Lru_afterAccess n p c = Lru_afterInsert n p (Lru_beforeErase p c)"

definition Lru_policy :: "nat list policy" where
  "Lru_policy = \<lparr>afterInsert = Lru_afterInsert, beforeErase = Lru_beforeErase, afterAccess = Lru_afterAccess,
     victim = sequence_begin, forget = (\<lambda>p c. tl c)\<rparr>"


section \<open>Least frequently used\<close>

text \<open>
  Which of the entries of the least frequency comes first in the index by frequency is Boost's affair once an
  entry was modified: \<open>pick\<close>.
\<close>

record cleanup_entry =
  ce_entry :: nat
  frequency :: "64 word"

definition incrementFrequency :: "cleanup_entry \<Rightarrow> cleanup_entry" where
  "incrementFrequency e = e\<lparr>frequency := frequency e + 1\<rparr>"

definition Lfu_afterInsert :: "nat \<Rightarrow> nat \<Rightarrow> cleanup_entry list \<Rightarrow> cleanup_entry list result" where
  "Lfu_afterInsert n p c =
     (if length c \<le> n then Inr (if p \<in> ce_entry ` set c then c else c @ [\<lparr>ce_entry = p, frequency = 0\<rparr>])
      else Inl AssertionFailed)"

definition Lfu_beforeErase :: "nat \<Rightarrow> cleanup_entry list \<Rightarrow> cleanup_entry list" where
  "Lfu_beforeErase p c = filter (\<lambda>e. ce_entry e \<noteq> p) c"

definition Lfu_afterAccess :: "nat \<Rightarrow> nat \<Rightarrow> cleanup_entry list \<Rightarrow> cleanup_entry list result" where
  "Lfu_afterAccess n p c =
     (if p \<in> ce_entry ` set c then Inr (map (\<lambda>e. if ce_entry e = p then incrementFrequency e else e) c)
      else Inl (UndefinedBehaviour ''end iterator''))"

definition Lfu_policy :: "(cleanup_entry list \<Rightarrow> cleanup_entry) \<Rightarrow> cleanup_entry list policy" where
  "Lfu_policy pick = \<lparr>afterInsert = Lfu_afterInsert, beforeErase = Lfu_beforeErase, afterAccess = Lfu_afterAccess,
     victim = (\<lambda>c. if c \<noteq> [] then Some (ce_entry (pick c)) else None), forget = Lfu_beforeErase\<rparr>"


section \<open>Persistent\<close>

definition base_afterInsert :: "nat \<Rightarrow> nat \<Rightarrow> 'c \<Rightarrow> 'c result" where
  "base_afterInsert n p c = Inr c"

definition base_beforeErase :: "nat \<Rightarrow> 'c \<Rightarrow> 'c" where
  "base_beforeErase p c = c"

definition Persistent_policy :: "unit policy" where
  "Persistent_policy = \<lparr>afterInsert = base_afterInsert, beforeErase = base_beforeErase, afterAccess = base_afterAccess,
     victim = (\<lambda>_. None), forget = (\<lambda>p c. c)\<rparr>"


section \<open>The contract\<close>

definition sequence_of :: "nat list \<Rightarrow> nat set \<Rightarrow> bool" where
  "sequence_of c A \<longleftrightarrow> distinct c \<and> set c = A"

lemma sequence_length: "sequence_of c A \<Longrightarrow> length c = card A"
  using distinct_card [of c] by (auto simp: sequence_of_def)

lemma sequence_insert: "sequence_of c A \<Longrightarrow> p \<notin> A \<Longrightarrow> sequence_of (unique_insert p c) (insert p A)"
  by (auto simp: sequence_of_def unique_insert_def)

lemma sequence_erase: "sequence_of c A \<Longrightarrow> sequence_of (unique_erase p c) (A - {p})"
  by (auto simp: sequence_of_def unique_erase_def distinct_removeAll)

lemma sequence_forget: "sequence_of c A \<Longrightarrow> sequence_begin c = Some p \<Longrightarrow> p \<in> A \<and> sequence_of (tl c) (A - {p})"
  by (cases c) (auto simp: sequence_of_def sequence_begin_def)

lemma sequence_victim: "sequence_of c A \<Longrightarrow> A \<noteq> {} \<Longrightarrow> sequence_begin c \<noteq> None"
  by (cases c) (auto simp: sequence_of_def sequence_begin_def)

interpretation fifo: evicting Fifo_policy sequence_of
proof unfold_locales
  fix c :: "nat list" and A p n
  assume "sequence_of c A" "finite A" "p \<notin> A" "card A < n"
  then show "\<exists>c'. afterInsert Fifo_policy n p c = Inr c' \<and> sequence_of c' (insert p A)"
    using sequence_insert [of c A p] sequence_length [of c A] by (simp add: Fifo_policy_def Fifo_afterInsert_def)
qed (simp_all add: Fifo_policy_def Fifo_beforeErase_def base_afterAccess_def sequence_erase sequence_forget sequence_victim
    del: not_None_eq)

interpretation lru: evicting Lru_policy sequence_of
proof unfold_locales
  fix c :: "nat list" and A p n
  assume c: "sequence_of c A"
  {
    assume "finite A" "p \<notin> A" "card A < n"
    then show "\<exists>c'. afterInsert Lru_policy n p c = Inr c' \<and> sequence_of c' (insert p A)"
      using sequence_insert [OF c] sequence_length [OF c] by (simp add: Lru_policy_def Lru_afterInsert_def)
  next
    assume "finite A" "p \<in> A" "card A \<le> n"
    then have "sequence_of (unique_insert p (unique_erase p c)) A" "length (unique_erase p c) \<le> n"
      using sequence_insert [OF sequence_erase [OF c], of p p] sequence_length [OF sequence_erase [OF c], of p]
      by (simp_all add: insert_absorb card_Diff_singleton_if)
    then show "\<exists>c'. afterAccess Lru_policy n p c = Inr c' \<and> sequence_of c' A"
      by (simp add: Lru_policy_def Lru_afterAccess_def Lru_afterInsert_def Lru_beforeErase_def)
  }
qed (simp_all add: Lru_policy_def Lru_beforeErase_def sequence_erase sequence_forget sequence_victim del: not_None_eq)

interpretation persistent: replacement Persistent_policy "\<lambda>_ _. True"
  by unfold_locales (simp_all add: Persistent_policy_def base_afterInsert_def base_afterAccess_def)

text \<open>Boost's index by frequency begins with an entry of the least frequency.\<close>

locale least_frequency =
  fixes pick :: "cleanup_entry list \<Rightarrow> cleanup_entry"
  assumes picks: "c \<noteq> [] \<Longrightarrow> pick c \<in> set c \<and> (\<forall>e \<in> set c. frequency (pick c) \<le> frequency e)"

definition frequencies_of :: "cleanup_entry list \<Rightarrow> nat set \<Rightarrow> bool" where
  "frequencies_of c A \<longleftrightarrow> distinct (map ce_entry c) \<and> ce_entry ` set c = A"

lemma increment_entries: "map ce_entry (map (\<lambda>e. if ce_entry e = p then incrementFrequency e else e) c) = map ce_entry c"
  by (simp add: incrementFrequency_def)

lemma frequencies_increment:
  "frequencies_of (map (\<lambda>e. if ce_entry e = p then incrementFrequency e else e) c) A = frequencies_of c A"
  unfolding frequencies_of_def increment_entries set_map [symmetric] ..

lemma frequencies_length: "frequencies_of c A \<Longrightarrow> length c = card A"
  using distinct_card [of "map ce_entry c"] by (auto simp: frequencies_of_def)

sublocale least_frequency \<subseteq> lfu: evicting "Lfu_policy pick" frequencies_of
proof unfold_locales
  fix c :: "cleanup_entry list" and A p n
  assume c: "frequencies_of c A"
  {
    assume "finite A" "p \<notin> A" "card A < n"
    then show "\<exists>c'. afterInsert (Lfu_policy pick) n p c = Inr c' \<and> frequencies_of c' (insert p A)"
      using c frequencies_length [OF c] by (auto simp: Lfu_policy_def Lfu_afterInsert_def frequencies_of_def)
  next
    show "frequencies_of (beforeErase (Lfu_policy pick) p c) (A - {p})"
      using c by (auto simp: Lfu_policy_def Lfu_beforeErase_def frequencies_of_def distinct_map_filter)
  next
    assume "p \<in> A"
    then have "p \<in> ce_entry ` set c" using c by (simp add: frequencies_of_def)
    then show "\<exists>c'. afterAccess (Lfu_policy pick) n p c = Inr c' \<and> frequencies_of c' A"
      using c by (simp add: Lfu_policy_def Lfu_afterAccess_def frequencies_increment)
  next
    assume "victim (Lfu_policy pick) c = Some p"
    then have "c \<noteq> []" "p = ce_entry (pick c)" by (auto simp: Lfu_policy_def split: if_splits)
    then show "p \<in> A \<and> frequencies_of (forget (Lfu_policy pick) p c) (A - {p})"
      using c picks [of c] by (auto simp: Lfu_policy_def Lfu_beforeErase_def frequencies_of_def distinct_map_filter)
  next
    assume "A \<noteq> {}"
    then show "victim (Lfu_policy pick) c \<noteq> None" using c by (auto simp: Lfu_policy_def frequencies_of_def)
  }
qed

text \<open>An index that keeps equal frequencies in the order of insertion.\<close>

definition first_least :: "cleanup_entry list \<Rightarrow> cleanup_entry" where
  "first_least c = hd (filter (\<lambda>e. \<forall>x \<in> set c. frequency e \<le> frequency x) c)"

interpretation first_least: least_frequency first_least
proof unfold_locales
  fix c :: "cleanup_entry list"
  assume "c \<noteq> []"
  then have "Min (frequency ` set c) \<in> frequency ` set c" by (intro Min_in) auto
  then obtain e where "e \<in> set c" "frequency e = Min (frequency ` set c)" by (metis imageE)
  then have "e \<in> set c" "\<forall>x \<in> set c. frequency e \<le> frequency x" by simp_all
  then have "filter (\<lambda>e. \<forall>x \<in> set c. frequency e \<le> frequency x) c \<noteq> []" by (auto simp: filter_empty_conv)
  from hd_in_set [OF this] show "first_least c \<in> set c \<and> (\<forall>e \<in> set c. frequency (first_least c) \<le> frequency e)"
    by (simp add: first_least_def)
qed


section \<open>What is evicted\<close>

text \<open>What happens to the entries of a storage, and what a policy makes of it.\<close>

datatype policy_event =
    Inserted nat
  | Accessed nat
  | Erased nat

fun policy_step :: "'c policy \<Rightarrow> nat \<Rightarrow> 'c \<Rightarrow> policy_event \<Rightarrow> 'c result" where
  "policy_step P n c (Inserted p) = afterInsert P n p c"
| "policy_step P n c (Accessed p) = afterAccess P n p c"
| "policy_step P n c (Erased p) = Inr (beforeErase P p c)"

definition policy_run :: "'c policy \<Rightarrow> nat \<Rightarrow> policy_event list \<Rightarrow> 'c \<Rightarrow> 'c result" where
  "policy_run P n h c = foldl (\<lambda>r e. bindE r (\<lambda>c. policy_step P n c e)) (Inr c) h"

text \<open>The number of accesses of each entry since it was inserted.\<close>

fun count_event :: "(nat \<rightharpoonup> nat) \<Rightarrow> policy_event \<Rightarrow> (nat \<rightharpoonup> nat)" where
  "count_event m (Inserted p) = m(p \<mapsto> 0)"
| "count_event m (Accessed p) = m(p \<mapsto> Suc (the (m p)))"
| "count_event m (Erased p) = m(p := None)"

definition counts :: "policy_event list \<Rightarrow> nat \<rightharpoonup> nat" where
  "counts h = foldl count_event Map.empty h"

text \<open>The entries that were inserted, or inserted and used, in this order.\<close>

fun arrival :: "nat list \<Rightarrow> policy_event \<Rightarrow> nat list" where
  "arrival us (Inserted p) = us @ [p]"
| "arrival us (Accessed p) = us"
| "arrival us (Erased p) = removeAll p us"

fun usage :: "nat list \<Rightarrow> policy_event \<Rightarrow> nat list" where
  "usage us (Inserted p) = us @ [p]"
| "usage us (Accessed p) = us @ [p]"
| "usage us (Erased p) = removeAll p us"

text \<open>Only entries that are not there are inserted, only those that are there are accessed or erased.\<close>

fun legal_event :: "policy_event list \<Rightarrow> policy_event \<Rightarrow> bool" where
  "legal_event h (Inserted p) \<longleftrightarrow> counts h p = None"
| "legal_event h (Accessed p) \<longleftrightarrow> counts h p \<noteq> None"
| "legal_event h (Erased p) \<longleftrightarrow> counts h p \<noteq> None"

definition legal :: "policy_event list \<Rightarrow> bool" where
  "legal h \<longleftrightarrow> (\<forall>k < length h. legal_event (take k h) (h ! k))"

lemma legal_snoc: "legal (h @ [e]) \<longleftrightarrow> legal h \<and> legal_event h e"
  by (auto simp: legal_def nth_append less_Suc_eq)

lemma policy_run_snoc: "policy_run P n (h @ [e]) c = bindE (policy_run P n h c) (\<lambda>c. policy_step P n c e)"
  by (simp add: policy_run_def)

lemma counts_snoc: "counts (h @ [e]) = count_event (counts h) e"
  by (simp add: counts_def)

lemma dom_count:
  "dom (count_event m (Inserted p)) = insert p (dom m)" "m p \<noteq> None \<Longrightarrow> dom (count_event m (Accessed p)) = dom m"
  "dom (count_event m (Erased p)) = dom m - {p}"
  by auto

lemma length_removeAll: "length us \<le> k \<Longrightarrow> length (removeAll p us) \<le> k"
  by (metis length_filter_le removeAll_filter_not_eq order_trans)

lemma remdups_snoc: "remdups (us @ [p]) = removeAll p (remdups us) @ [p]"
  by (induction us) auto

lemma remdups_removeAll: "remdups (removeAll p us) = removeAll p (remdups us)"
  by (induction us) auto

lemma arrival_run:
  assumes "legal h" and "length h \<le> n"
  shows "policy_run Fifo_policy n h [] = Inr (foldl arrival [] h) \<and> set (foldl arrival [] h) = dom (counts h)
    \<and> distinct (foldl arrival [] h) \<and> length (foldl arrival [] h) \<le> length h"
  using assms
proof (induction h rule: rev_induct)
  case Nil
  show ?case by (simp add: policy_run_def counts_def)
next
  case (snoc e h)
  then have h: "policy_run Fifo_policy n h [] = Inr (foldl arrival [] h)" "set (foldl arrival [] h) = dom (counts h)"
      "distinct (foldl arrival [] h)" "length (foldl arrival [] h) \<le> length h" "length h < n" "legal_event h e"
    by (simp_all add: legal_snoc)
  then show ?case
    by (cases e) (simp_all add: policy_run_snoc counts_snoc dom_count Fifo_policy_def Fifo_afterInsert_def Fifo_beforeErase_def
      base_afterAccess_def unique_insert_def unique_erase_def distinct_removeAll length_removeAll domIff del: count_event.simps)
qed

lemma usage_run:
  assumes "legal h" and "length h \<le> n"
  shows "policy_run Lru_policy n h [] = Inr (remdups (foldl usage [] h)) \<and> set (foldl usage [] h) = dom (counts h)
    \<and> length (foldl usage [] h) \<le> length h"
  using assms
proof (induction h rule: rev_induct)
  case Nil
  show ?case by (simp add: policy_run_def counts_def)
next
  case (snoc e h)
  let ?us = "foldl usage [] h"
  have h: "policy_run Lru_policy n h [] = Inr (remdups ?us)" "set ?us = dom (counts h)" "length ?us \<le> length h" "length h < n"
    using snoc by (simp_all add: legal_snoc)
  have len: "length (removeAll p (remdups ?us)) \<le> n" "length (remdups ?us) \<le> n" "length (removeAll p ?us) \<le> length h" for p
    using h(3,4) length_removeAll_less_eq [of p "remdups ?us"] length_removeAll_less_eq [of p ?us] length_remdups_leq [of ?us] by linarith+
  have "legal_event h e" using snoc.prems(1) by (simp add: legal_snoc)
  then show ?case
    using h len
    by (cases e) (auto simp: policy_run_snoc counts_snoc dom_count Lru_policy_def Lru_afterInsert_def Lru_afterAccess_def
      Lru_beforeErase_def unique_insert_def unique_erase_def remdups_snoc remdups_removeAll insert_absorb domIff
      length_removeAll le_SucI removeAll_id simp del: count_event.simps)
qed

lemma counts_run:
  assumes "legal h" and "length h \<le> n"
  shows "\<exists>c. policy_run (Lfu_policy pick) n h [] = Inr c \<and> distinct (map ce_entry c) \<and> ce_entry ` set c = dom (counts h)
    \<and> (\<forall>e \<in> set c. frequency e = of_nat (the (counts h (ce_entry e)))) \<and> length c \<le> length h
    \<and> (\<forall>p k. counts h p = Some k \<longrightarrow> k \<le> length h)"
  using assms
proof (induction h rule: rev_induct)
  case Nil
  show ?case by (simp add: policy_run_def counts_def)
next
  case (snoc e h)
  then obtain c where c: "policy_run (Lfu_policy pick) n h [] = Inr c" "distinct (map ce_entry c)" "ce_entry ` set c = dom (counts h)"
      "\<forall>e \<in> set c. frequency e = of_nat (the (counts h (ce_entry e)))" "length c \<le> length h" "\<forall>p k. counts h p = Some k \<longrightarrow> k \<le> length h"
    by (auto simp: legal_snoc)
  have run: "policy_run (Lfu_policy pick) n (h @ [e]) [] = policy_step (Lfu_policy pick) n c e" using c(1) by (simp add: policy_run_snoc)
  have b: "k \<le> Suc (length h)" if "count_event (counts h) e p = Some k" "legal_event h e" for p k
  proof -
    have "m \<le> Suc (length h)" "Suc m \<le> Suc (length h)" if "counts h q = Some m" for q m using c(6) that by (simp_all add: le_SucI)
    then show ?thesis using that by (cases e) (auto split: if_splits)
  qed
  have e: "legal_event h e" using snoc.prems(1) by (simp add: legal_snoc)
  have n: "length c \<le> n" using c(5) snoc.prems(2) by simp
  show ?case
  proof (cases e)
    case (Inserted p)
    then have p: "p \<notin> ce_entry ` set c" using e c(3) by auto
    then have "policy_step (Lfu_policy pick) n c e = Inr (c @ [\<lparr>ce_entry = p, frequency = 0\<rparr>])"
      using Inserted n by (simp add: Lfu_policy_def Lfu_afterInsert_def)
    then show ?thesis using run c(2-5) p b [OF _ e] Inserted by (auto simp: counts_snoc)
  next
    case (Accessed p)
    then have p: "p \<in> ce_entry ` set c" using e c(3) by auto
    let ?d = "map (\<lambda>e. if ce_entry e = p then incrementFrequency e else e) c"
    have "policy_step (Lfu_policy pick) n c e = Inr ?d" using Accessed p by (simp add: Lfu_policy_def Lfu_afterAccess_def)
    moreover have "distinct (map ce_entry ?d)" using c(2) by (simp only: increment_entries)
    moreover have "ce_entry ` set ?d = ce_entry ` set c" by (simp only: set_map [symmetric] increment_entries)
    moreover have "dom (count_event (counts h) e) = dom (counts h)" using Accessed e by auto
    ultimately show ?thesis using run c(3-5) p b [OF _ e] Accessed
      by (auto simp: counts_snoc incrementFrequency_def)
  next
    case (Erased p)
    have "policy_step (Lfu_policy pick) n c e = Inr (filter (\<lambda>e. ce_entry e \<noteq> p) c)"
      using Erased by (simp add: Lfu_policy_def Lfu_beforeErase_def)
    moreover have "ce_entry ` set (filter (\<lambda>e. ce_entry e \<noteq> p) c) = dom (count_event (counts h) e)"
      unfolding Erased dom_count c(3) [symmetric] by auto
    moreover have "length (filter (\<lambda>e. ce_entry e \<noteq> p) c) \<le> Suc (length h)"
      using length_filter_le [of "\<lambda>e. ce_entry e \<noteq> p" c] c(5) by linarith
    moreover have "\<forall>e' \<in> set (filter (\<lambda>e. ce_entry e \<noteq> p) c). frequency e' = of_nat (the (count_event (counts h) e (ce_entry e')))"
      using c(4) Erased by simp
    moreover have "distinct (map ce_entry (filter (\<lambda>e. ce_entry e \<noteq> p) c))" using c(2) by (simp add: distinct_map_filter)
    ultimately show ?thesis using run b [OF _ e] by (simp only: counts_snoc length_append_singleton) blast
  qed
qed

text \<open>The first of the last occurrences.\<close>

lemma remdups_hd:
  "us \<noteq> [] \<Longrightarrow> \<exists>a b. us = a @ hd (remdups us) # b \<and> hd (remdups us) \<notin> set b \<and> set us \<subseteq> insert (hd (remdups us)) (set b)"
proof (induction us)
  case (Cons u us)
  show ?case
  proof (cases "u \<in> set us")
    case True
    then have "us \<noteq> []" by auto
    from Cons.IH [OF this] obtain a b where "us = a @ hd (remdups us) # b" "hd (remdups us) \<notin> set b"
      "set us \<subseteq> insert (hd (remdups us)) (set b)" by blast
    then show ?thesis using True by (intro exI [of _ "u # a"] exI [of _ b]) auto
  qed (force intro: exI [of _ "[]"] exI [of _ us])
qed simp

text \<open>
  C14. What the policies evict, after any history of insertions, accesses and erasures of entries: the first in
  evicts the entry that was inserted first; the least recently used, an entry all other entries were used after
  the last use of; the least frequently used, an entry of the fewest accesses, as long as none has 2^64; the
  persistent one, none. There is a victim exactly when there is an entry.
\<close>

theorem policies_victims:
  assumes "legal h" and "length h \<le> n" and "length h < 2 ^ 64" and "least_frequency pick"
  shows "(\<exists>c. policy_run Fifo_policy n h [] = Inr c \<and> (case victim Fifo_policy c of
        None \<Rightarrow> counts h = Map.empty
      | Some p \<Rightarrow> p \<in> dom (counts h) \<and> p = hd (foldl arrival [] h)))
    \<and> (\<exists>c. policy_run Lru_policy n h [] = Inr c \<and> (case victim Lru_policy c of
        None \<Rightarrow> counts h = Map.empty
      | Some p \<Rightarrow> \<exists>a b. foldl usage [] h = a @ p # b \<and> p \<notin> set b \<and> dom (counts h) \<subseteq> insert p (set b)))
    \<and> (\<exists>c. policy_run (Lfu_policy pick) n h [] = Inr c \<and> (case victim (Lfu_policy pick) c of
        None \<Rightarrow> counts h = Map.empty
      | Some p \<Rightarrow> \<exists>k. counts h p = Some k \<and> (\<forall>m \<in> ran (counts h). k \<le> m)))
    \<and> victim Persistent_policy () = None"
proof (intro conjI)
  note f = arrival_run [OF assms(1,2)]
  show "\<exists>c. policy_run Fifo_policy n h [] = Inr c \<and> (case victim Fifo_policy c of None \<Rightarrow> counts h = Map.empty
      | Some p \<Rightarrow> p \<in> dom (counts h) \<and> p = hd (foldl arrival [] h))"
    using f by (intro exI [of _ "foldl arrival [] h"], cases "foldl arrival [] h")
      (auto simp: Fifo_policy_def sequence_begin_def simp flip: dom_eq_empty_conv)
next
  let ?us = "foldl usage [] h"
  note u = usage_run [OF assms(1,2)]
  show "\<exists>c. policy_run Lru_policy n h [] = Inr c \<and> (case victim Lru_policy c of None \<Rightarrow> counts h = Map.empty
      | Some p \<Rightarrow> \<exists>a b. ?us = a @ p # b \<and> p \<notin> set b \<and> dom (counts h) \<subseteq> insert p (set b))"
  proof (cases "?us = []")
    case True
    then have "dom (counts h) = {}" using u by simp
    then show ?thesis using u True by (simp add: Lru_policy_def sequence_begin_def)
  next
    case False
    then obtain p r where r: "remdups ?us = p # r" by (cases "remdups ?us") auto
    from remdups_hd [OF False] show ?thesis using u r by (simp add: Lru_policy_def sequence_begin_def)
  qed
next
  obtain c where c: "policy_run (Lfu_policy pick) n h [] = Inr c" "ce_entry ` set c = dom (counts h)"
      "\<forall>e \<in> set c. frequency e = of_nat (the (counts h (ce_entry e)))" "\<forall>p k. counts h p = Some k \<longrightarrow> k \<le> length h"
    using counts_run [OF assms(1,2), of pick] by blast
  have "\<exists>k. counts h (ce_entry (pick c)) = Some k \<and> (\<forall>m \<in> ran (counts h). k \<le> m)" if "c \<noteq> []"
  proof -
    have p: "pick c \<in> set c" "\<forall>e \<in> set c. frequency (pick c) \<le> frequency e"
      using least_frequency.picks [OF assms(4) that] by simp_all
    have freq: "unat (frequency e) = the (counts h (ce_entry e))" if "e \<in> set c" for e
    proof -
      have "ce_entry e \<in> dom (counts h)" unfolding c(2) [symmetric] using that by (rule imageI)
      then obtain k where k: "counts h (ce_entry e) = Some k" by (metis domD)
      then have "k \<le> length h" using c(4) by blast
      then have "k < 2 ^ 64" using assms(3) by (rule le_less_trans)
      then show ?thesis using bspec [OF c(3) that] k by (simp add: unat_of_nat)
    qed
    have "ce_entry (pick c) \<in> dom (counts h)" unfolding c(2) [symmetric] using p(1) by (rule imageI)
    then obtain k where k: "counts h (ce_entry (pick c)) = Some k" by (metis domD)
    have "k \<le> m" if "counts h q = Some m" for q m
    proof -
      have "q \<in> ce_entry ` set c" unfolding c(2) using that by (rule domI)
      then obtain e where e: "e \<in> set c" "ce_entry e = q" by blast
      then have "unat (frequency (pick c)) \<le> unat (frequency e)" using p(2) by (metis word_le_nat_alt)
      then show ?thesis using freq [OF p(1)] freq [OF e(1)] k that e(2) by simp
    qed
    then show ?thesis using k by (auto simp: ran_def)
  qed
  then show "\<exists>c. policy_run (Lfu_policy pick) n h [] = Inr c \<and> (case victim (Lfu_policy pick) c of None \<Rightarrow> counts h = Map.empty
      | Some p \<Rightarrow> \<exists>k. counts h p = Some k \<and> (\<forall>m \<in> ran (counts h). k \<le> m))"
    using c(1) arg_cong [OF c(2), of "\<lambda>A. A = {}"] by (intro exI [of _ c], cases "c = []") (simp_all add: Lfu_policy_def)
qed (simp add: Persistent_policy_def)

theorem policies_victims_witness:
  "\<exists>c p a b. policy_run Lru_policy 9 [Inserted 1, Inserted 2, Accessed 1] [] = Inr c
    \<and> victim Lru_policy c = Some p \<and> [1, 2, 1] = a @ p # b \<and> p \<notin> set b"
proof -
  let ?h = "[Inserted 1, Inserted 2, Accessed 1]"
  have l: "legal ?h"
    using legal_snoc [of "[]" "Inserted 1"] legal_snoc [of "[Inserted 1]" "Inserted 2"]
      legal_snoc [of "[Inserted 1, Inserted 2]" "Accessed 1"] by (simp add: legal_def counts_def)
  have c: "counts ?h \<noteq> Map.empty" by (simp add: counts_def)
  have "length ?h \<le> 9" "length ?h < 2 ^ 64" by simp_all
  from policies_victims [OF l this first_least.least_frequency_axioms]
  obtain c where "policy_run Lru_policy 9 ?h [] = Inr c" "case victim Lru_policy c of None \<Rightarrow> counts ?h = Map.empty
      | Some p \<Rightarrow> \<exists>a b. foldl usage [] ?h = a @ p # b \<and> p \<notin> set b \<and> dom (counts ?h) \<subseteq> insert p (set b)" by blast
  then show ?thesis using c by (cases "victim Lru_policy c") auto
qed

end
