(* ===== verification/StorageFind.thy ===== *)
theory StorageFind
  imports StorageOps
begin

text \<open>
  Finding a packet for an Interest: which of the packets that match it \<open>find\<close> returns, for the leftmost and
  for the rightmost child.
\<close>

section \<open>The packets that match\<close>

definition entry_key :: "(bytes \<Rightarrow> bytes) \<Rightarrow> 'c storage \<Rightarrow> nat \<Rightarrow> comp_key list" where
  "entry_key sha256 s p = full_key sha256 (packet s p)"

definition fresh_enough :: "interest \<Rightarrow> 'c storage \<Rightarrow> nat \<Rightarrow> bool" where
  "fresh_enough i s p \<longleftrightarrow> (mustBeFresh (i_selectors i) \<longrightarrow> m_isFresh (entries s p))"

definition matched :: "(bytes \<Rightarrow> bytes) \<Rightarrow> interest \<Rightarrow> 'c storage \<Rightarrow> nat \<Rightarrow> bool" where
  "matched sha256 i s p \<longleftrightarrow> matchesData sha256 i (packet s p) = Inr True"

text \<open>The packets that satisfy the Interest, in the order of their full names.\<close>

definition answers :: "(bytes \<Rightarrow> bytes) \<Rightarrow> interest \<Rightarrow> 'c storage \<Rightarrow> nat list" where
  "answers sha256 i s = filter (\<lambda>p. fresh_enough i s p \<and> matched sha256 i s p) (m_cache s)"

definition child :: "(bytes \<Rightarrow> bytes) \<Rightarrow> interest \<Rightarrow> 'c storage \<Rightarrow> nat \<Rightarrow> comp_key list" where
  "child sha256 i s p = take (Suc (length (name_keys (i_name i)))) (entry_key sha256 s p)"

text \<open>An Interest that can be compared with every packet: its locator, if any, can be encoded.\<close>

definition comparable :: "(bytes \<Rightarrow> bytes) \<Rightarrow> interest \<Rightarrow> 'c storage \<Rightarrow> bool" where
  "comparable sha256 i s \<longleftrightarrow> interest_ok i \<and> name_canon (i_name i) \<and> (\<forall>p \<in> set (m_cache s). \<exists>b. matchesData sha256 i (packet s p) = Inr b)"

lemma matched_prefix:
  assumes "storage_ok sha256 s" and "interest_ok i" and "p \<in> set (m_cache s)" and "matched sha256 i s p"
  shows "prefix (name_keys (i_name i)) (entry_key sha256 s p)"
proof -
  obtain w where w: "packet_ok sha256 (packet s p) w"
    using storage_okD(1) [OF assms(1)] assms(3) by (fastforce simp: cache_ok_def stored_def packet_def)
  then have "entry_key sha256 s p = name_keys (d_name (packet s p)) @ [digest_key (sha256 w)]"
    by (simp add: entry_key_def full_key_def packet_ok_def)
  then show ?thesis using matchesData_run [OF assms(2) w] assms(4) by (simp add: matched_def name_matches_def Let_def split: if_splits)
qed

lemma next_fresh: "(if mustBeFresh (i_selectors i) then findNextFresh s its else its) = dropWhile (\<lambda>p. \<not> fresh_enough i s p) its"
  by (cases "mustBeFresh (i_selectors i)") (simp_all add: findNextFresh_def fresh_enough_def dropWhile_eq_self_iff)

lemma dropWhile_filter: "dropWhile (\<lambda>p. \<not> P p) its = p # rest \<Longrightarrow> P p \<and> filter P its = p # filter P rest"
  by (induction its) (auto split: if_splits)

lemma dropWhile_all: "dropWhile (\<lambda>p. \<not> P p) its = [] \<Longrightarrow> filter P its = []"
  by (induction its) (auto split: if_splits)

lemma dropWhile_subset: "dropWhile P its = p # rest \<Longrightarrow> p \<in> set its \<and> set rest \<subseteq> set its"
  by (metis list.set_intros(1) set_dropWhileD set_subset_Cons subset_eq)


section \<open>The rightmost child\<close>

text \<open>The first of each run of equal children replaces the candidate; the last candidate remains.\<close>

fun last_child :: "('p \<Rightarrow> 'k) \<Rightarrow> 'k option \<Rightarrow> 'p \<Rightarrow> 'p list \<Rightarrow> 'p" where
  "last_child f c r [] = r"
| "last_child f c r (p # ps) = (if c = Some (f p) then last_child f c r ps else last_child f (Some (f p)) p ps)"

text \<open>The first element of the last child of a list.\<close>

definition leftmost_of_rightmost :: "('p \<Rightarrow> 'k) \<Rightarrow> 'p list \<Rightarrow> 'p" where
  "leftmost_of_rightmost f ps = hd (filter (\<lambda>p. f p = f (last ps)) ps)"

lemma last_child_some:
  "sorted (map f ps) \<Longrightarrow> \<forall>p \<in> set ps. c \<le> f p \<Longrightarrow>
    last_child f (Some c) r ps = (if ps = [] \<or> f (last ps) = c then r else leftmost_of_rightmost f ps)"
proof (induction ps arbitrary: c r)
  case (Cons p ps)
  have s: "sorted (map f ps)" "\<forall>q \<in> set ps. f p \<le> f q" using Cons.prems(1) by simp_all
  show ?case
  proof (cases "ps = []")
    case True
    then show ?thesis by (simp add: leftmost_of_rightmost_def)
  next
    case False
    then have l: "f p \<le> f (last ps)" "c \<le> f p" using s(2) Cons.prems(2) by simp_all
    have r: "leftmost_of_rightmost f (p # ps) = (if f p = f (last ps) then p else leftmost_of_rightmost f ps)"
      using False by (simp add: leftmost_of_rightmost_def)
    have "\<forall>q \<in> set ps. c \<le> f q" using Cons.prems(2) by simp
    note IH = Cons.IH [OF s(1) this, of r] Cons.IH [OF s, of p]
    show ?thesis
    proof (cases "f p = c")
      case True
      then show ?thesis using IH(1) r False by simp
    next
      case F: False
      then have "f (last ps) \<noteq> c" using l by simp
      then show ?thesis using IH(2) r F False by auto
    qed
  qed
qed simp

lemma last_child_none: "sorted (map f ps) \<Longrightarrow> ps \<noteq> [] \<Longrightarrow> last_child f None r ps = leftmost_of_rightmost f ps"
proof (cases ps)
  case (Cons p qs)
  assume "sorted (map f ps)"
  then have "last_child f (Some (f p)) p qs = (if qs = [] \<or> f (last qs) = f p then p else leftmost_of_rightmost f qs)"
    by (intro last_child_some) (simp_all add: Cons)
  then show ?thesis by (cases "qs = []"; cases "f (last qs) = f p") (simp_all add: Cons leftmost_of_rightmost_def)
qed simp

lemma leftmost_of_rightmost_in: "ps \<noteq> [] \<Longrightarrow> leftmost_of_rightmost f ps \<in> set ps"
proof -
  assume "ps \<noteq> []"
  then have "last ps \<in> set (filter (\<lambda>p. f p = f (last ps)) ps)" by simp
  then have "filter (\<lambda>p. f p = f (last ps)) ps \<noteq> []" by (metis empty_iff list.set(1))
  from hd_in_set [OF this] show ?thesis by (simp add: leftmost_of_rightmost_def)
qed


section \<open>The loop\<close>

lemma child_prefix:
  assumes "name_ok n" and "name_canon f" and "m_subBlocks f \<noteq> []"
  shows "\<exists>r. getPrefix f (Name_size n + 1) = Inr r \<and> name_ok r \<and> \<not> Name_empty r
    \<and> name_keys r = take (Suc (length (name_keys n))) (name_keys f)"
proof -
  have few: "length (m_subBlocks n) < 2 ^ 31" "length (m_subBlocks f) < 2 ^ 31"
    using assms(1,2) by (simp_all add: name_ok_def name_canon_def few_def)
  have "Name_size n + 1 = word_of_nat (Suc (length (m_subBlocks n)))" by (simp add: Name_size_def)
  moreover have "Suc (length (m_subBlocks n)) < 2 ^ 63" using few(1) by simp
  ultimately have k: "sint (Name_size n + 1) = int (Suc (length (m_subBlocks n)))" by (simp only: sint_small)
  obtain r where r: "getPrefix f (Name_size n + 1) = Inr r" "m_subBlocks r = take (Suc (length (m_subBlocks n))) (m_subBlocks f)"
    using getPrefix_components [OF few(2), of "Name_size n + 1"] k by (auto simp del: of_nat_Suc)
  then have "name_ok r" using name_canon_ok [OF assms(2)] few(2) by (auto simp: name_ok_def few_def list_all_iff dest: in_set_takeD)
  moreover have "\<not> Name_empty r" using r(2) assms(3) by (simp add: Name_empty_def)
  moreover have "name_keys r = take (Suc (length (name_keys n))) (name_keys f)" using r(2) by (simp add: name_keys_def take_map)
  ultimately show ?thesis using r(1) by blast
qed

lemma select_loop_run:
  assumes "storage_ok sha256 s" and "comparable sha256 i s" and "set its \<subseteq> set (m_cache s)"
    and "case c of None \<Rightarrow> Name_empty cp | Some k \<Rightarrow> name_ok cp \<and> \<not> Name_empty cp \<and> name_keys cp = k"
  shows "select_loop sha256 i s its cp r
    = (let ps = filter (matched sha256 i s) (takeWhile (\<lambda>p. prefix (name_keys (i_name i)) (entry_key sha256 s p))
          (filter (fresh_enough i s) its)) in
       if childSelector (i_selectors i) \<le> 0 then Inr (if ps = [] then (r, False) else (hd ps, True))
       else Inr (last_child (child sha256 i s) c r ps, False))"
  using assms(3,4)
proof (induction "length its" arbitrary: its c cp r rule: less_induct)
  case less
  let ?n = "name_keys (i_name i)"
  show ?case
  proof (cases "dropWhile (\<lambda>p. \<not> fresh_enough i s p) its")
    case Nil
    then have "select_loop sha256 i s its cp r = Inr (r, False)" by (subst select_loop.simps) (simp only: next_fresh list.case)
    then show ?thesis using dropWhile_all [OF Nil] by simp
  next
    case (Cons p rest)
    note fr = dropWhile_filter [OF Cons]
    have rest: "set rest \<subseteq> set (m_cache s)" "length rest < length its" and p: "p \<in> set (m_cache s)"
      using dropWhile_subset [OF Cons] less.prems(1) next_shorter [of "mustBeFresh (i_selectors i)" s its p rest] Cons next_fresh [of i s its]
      by auto
    obtain f where f: "Entry_getFullName sha256 (entries s p) = Inr f" "name_canon f" "name_keys f = entry_key sha256 s p"
      using entry_full_name [OF storage_okD(1) [OF assms(1)] p] by (auto simp: entry_key_def)
    have i: "name_ok (i_name i)" using assms(2) by (simp add: comparable_def name_canon_ok)
    note pre = isPrefixOf_name [OF i f(2), unfolded f(3)]
    have d: "getData (entries s p) = Inr (packet s p)"
      using storage_okD(1) [OF assms(1)] p by (auto simp: cache_ok_def getData_def packet_def)
    obtain b where b: "matchesData sha256 i (packet s p) = Inr b" "b = matched sha256 i s p"
      using assms(2) p by (fastforce simp: comparable_def matched_def)
    have unfold: "select_loop sha256 i s its cp r = (if \<not> prefix ?n (entry_key sha256 s p) then Inr (r, False)
        else if \<not> matched sha256 i s p then select_loop sha256 i s rest cp r
        else if childSelector (i_selectors i) \<le> 0 then Inr (p, True)
        else bindE (getPrefix f (Name_size (i_name i) + 1)) (\<lambda>childPrefix.
              bindE (if Name_empty cp then Inr True else bindE (Name_equals childPrefix cp) (\<lambda>eq. Inr (\<not> eq))) (\<lambda>new.
              if new then select_loop sha256 i s rest childPrefix p else select_loop sha256 i s rest cp r)))"
      using f(1) pre d b by (subst select_loop.simps) (simp add: next_fresh Cons)
    show ?thesis
    proof (cases "prefix ?n (entry_key sha256 s p) \<and> matched sha256 i s p \<and> childSelector (i_selectors i) > 0")
      case False
      then show ?thesis using unfold fr less.hyps [OF rest(2,1) less.prems(2), of r] by (auto simp: Let_def not_less)
    next
      case True
      have "m_subBlocks f \<noteq> []"
        using f(3) storage_okD(1) [OF assms(1)] p
        by (fastforce simp: cache_ok_def stored_def packet_ok_def entry_key_def full_key_def packet_def name_keys_def)
      from child_prefix [OF i f(2) this] obtain k where k: "getPrefix f (Name_size (i_name i) + 1) = Inr k" "name_ok k" "\<not> Name_empty k"
          "name_keys k = child sha256 i s p" by (auto simp: child_def f(3))
      have new: "(if Name_empty cp then Inr True else bindE (Name_equals k cp) (\<lambda>eq. Inr (\<not> eq))) = Inr (c \<noteq> Some (child sha256 i s p))"
        using less.prems(2) k by (cases c) (auto simp: Name_equals_keys)
      have "select_loop sha256 i s its cp r = (if c \<noteq> Some (child sha256 i s p) then select_loop sha256 i s rest k p
          else select_loop sha256 i s rest cp r)"
        using unfold True k(1) new by simp
      then show ?thesis
        using True fr less.hyps [OF rest(2,1) less.prems(2), of r]
          less.hyps [OF rest(2,1), where c = "Some (child sha256 i s p)" and cp = k and r = p] k(2-4)
        by (simp add: Let_def)
    qed
  qed
qed


section \<open>The choice\<close>

text \<open>The entries from the one before the name of the Interest on, less those that are not fresh enough; the
  first is where the search starts.\<close>

definition candidates :: "(bytes \<Rightarrow> bytes) \<Rightarrow> interest \<Rightarrow> 'c storage \<Rightarrow> nat list" where
  "candidates sha256 i s = filter (fresh_enough i s) (drop (place (name_keys (i_name i)) (keys sha256 s) - 1) (m_cache s))"

lemma keys_entry: "keys sha256 s = map (entry_key sha256 s) (m_cache s)"
  by (simp add: keys_def entry_key_def)

lemma takeWhile_prefix:
  "sorted (map key ps) \<Longrightarrow> \<forall>p \<in> set ps. n \<le> key p \<Longrightarrow>
    takeWhile (\<lambda>p. prefix n (key p)) ps = filter (\<lambda>p. prefix (n :: 'a :: linorder list) (key p)) ps"
proof (induction ps)
  case (Cons p ps)
  have "filter (\<lambda>p. prefix n (key p)) ps = []" if "\<not> prefix n (key p)"
    using that Cons.prems prefix_convex [of n "key p"] by (auto simp: filter_empty_conv)
  then show ?case using Cons by auto
qed simp

lemma take_mono: "xs \<le> ys \<Longrightarrow> take k xs \<le> take k (ys :: 'a :: linorder list)"
proof (induction xs arbitrary: k ys)
  case (Cons x xs)
  then show ?case by (cases ys; cases k) auto
qed simp

lemma early_unmatched:
  assumes "storage_ok sha256 s" and "comparable sha256 i s"
    and "p \<in> set (take (place (name_keys (i_name i)) (keys sha256 s) - 1) (m_cache s))"
  shows "\<not> matched sha256 i s p"
proof
  let ?n = "name_keys (i_name i)" and ?c = "m_cache s"
  let ?i = "place ?n (keys sha256 s)"
  assume "matched sha256 i s p"
  then have "prefix ?n (entry_key sha256 s p)" using matched_prefix [OF assms(1)] assms(2,3) by (meson comparable_def in_set_takeD)
  moreover have "p \<in> set (take ?i ?c)" using assms(3) set_take_subset_set_take [of "?i - 1" ?i ?c] by auto
  then have "entry_key sha256 s p \<in> set (take ?i (keys sha256 s))" by (simp add: keys_entry take_map)
  then have "entry_key sha256 s p < ?n" by (rule place_before)
  ultimately show False using prefix_le [of ?n "entry_key sha256 s p"] by simp
qed

lemma answers_candidates:
  assumes "storage_ok sha256 s" and "comparable sha256 i s"
  shows "answers sha256 i s = filter (matched sha256 i s) (candidates sha256 i s)"
proof -
  let ?i = "place (name_keys (i_name i)) (keys sha256 s) - 1"
  have "answers sha256 i s = filter (\<lambda>p. fresh_enough i s p \<and> matched sha256 i s p) (take ?i (m_cache s) @ drop ?i (m_cache s))"
    by (simp add: answers_def)
  moreover have "filter (\<lambda>p. fresh_enough i s p \<and> matched sha256 i s p) (take ?i (m_cache s)) = []"
    using early_unmatched [OF assms] by (auto simp: filter_empty_conv)
  ultimately show ?thesis by (simp only: filter_append candidates_def filter_filter append_Nil)
qed

lemma select_split:
  assumes "storage_ok sha256 s"
    and "dropWhile (\<lambda>p. \<not> fresh_enough i s p) (drop (place (name_keys (i_name i)) (keys sha256 s) - 1) (m_cache s)) = st # rest"
  shows "\<exists>a. m_cache s = a @ st # rest" and "\<forall>p \<in> set rest. name_keys (i_name i) \<le> entry_key sha256 s p"
    and "candidates sha256 i s = st # filter (fresh_enough i s) rest"
proof -
  let ?n = "name_keys (i_name i)" and ?c = "m_cache s"
  let ?i = "place ?n (keys sha256 s)"
  let ?b = "takeWhile (\<lambda>p. \<not> fresh_enough i s p) (drop (?i - 1) ?c)"
  let ?a = "take (?i - 1) ?c @ ?b"
  have c: "?c = ?a @ st # rest" using assms(2) by (metis append_assoc append_take_drop_id takeWhile_dropWhile_id)
  then show "\<exists>a. ?c = a @ st # rest" by (rule exI)
  have "length ?a \<ge> ?i - 1" using place_le [of ?n "keys sha256 s"] by simp
  then have "?i \<le> Suc (length ?a)" by linarith
  moreover have "rest = drop (Suc (length ?a)) ?c" by (subst c) simp
  ultimately have "set rest \<subseteq> set (drop ?i ?c)" by (metis set_drop_subset_set_drop)
  then have "entry_key sha256 s p \<in> set (drop ?i (keys sha256 s))" if "p \<in> set rest" for p using that by (auto simp: keys_entry drop_map)
  then show "\<forall>p \<in> set rest. ?n \<le> entry_key sha256 s p" using place_behind [OF storage_okD(5) [OF assms(1)]] by blast
  show "candidates sha256 i s = st # filter (fresh_enough i s) rest" using dropWhile_filter [OF assms(2)] by (simp add: candidates_def)
qed

lemma sorted_entries: "storage_ok sha256 s \<Longrightarrow> sorted (map (entry_key sha256 s) (m_cache s))"
  using storage_okD(5) [of sha256 s] strict_mono_sorted [of "keys sha256 s"] by (simp add: keys_entry)

lemma select_rest:
  assumes "storage_ok sha256 s" and "comparable sha256 i s" and "m_cache s = a @ st # rest"
    and "\<forall>p \<in> set rest. name_keys (i_name i) \<le> entry_key sha256 s p"
  defines "ps \<equiv> filter (matched sha256 i s) (filter (fresh_enough i s) rest)"
  shows "filter (matched sha256 i s) (takeWhile (\<lambda>p. prefix (name_keys (i_name i)) (entry_key sha256 s p)) (filter (fresh_enough i s) rest)) = ps"
    and "sorted (map (child sha256 i s) ps)" and "st \<notin> set ps"
proof -
  let ?pre = "\<lambda>p. prefix (name_keys (i_name i)) (entry_key sha256 s p)"
  have sorted: "sorted (map (entry_key sha256 s) rest)" using sorted_entries [OF assms(1)] by (simp add: assms(3) sorted_append)
  then have s: "sorted (map (entry_key sha256 s) (filter P rest))" for P by (rule sorted_filter)
  have w: "takeWhile ?pre (filter (fresh_enough i s) rest) = filter ?pre (filter (fresh_enough i s) rest)"
    by (rule takeWhile_prefix [OF s]) (use assms(4) in auto)
  have pre: "?pre p" if "p \<in> set rest" "matched sha256 i s p" for p
    using matched_prefix [OF assms(1)] assms(2,3) that by (simp add: comparable_def)
  show "filter (matched sha256 i s) (takeWhile ?pre (filter (fresh_enough i s) rest)) = ps"
    unfolding w ps_def filter_filter by (rule filter_cong) (use pre in auto)
  have "sorted (map (entry_key sha256 s) ps)" unfolding ps_def filter_filter by (rule s)
  then have "sorted_wrt (\<lambda>p q. entry_key sha256 s p \<le> entry_key sha256 s q) ps" by (simp add: sorted_map)
  then have "sorted_wrt (\<lambda>p q. child sha256 i s p \<le> child sha256 i s q) ps"
    by (rule sorted_wrt_mono_rel [rotated]) (simp add: child_def take_mono)
  then show "sorted (map (child sha256 i s) ps)" by (simp add: sorted_map)
  show "st \<notin> set ps" using storage_okD(2) [OF assms(1)] assms(3) by (auto simp: ps_def)
qed

text \<open>What the search returns, from the entry it starts with and the answers behind that.\<close>

definition selection :: "interest \<Rightarrow> ('p \<Rightarrow> 'k) \<Rightarrow> bool \<Rightarrow> 'p \<Rightarrow> 'p list \<Rightarrow> 'p option" where
  "selection i f m st ps =
     (if childSelector (i_selectors i) \<le> 0 then (if m then Some st else if ps = [] then None else Some (hd ps))
      else if ps \<noteq> [] then Some (leftmost_of_rightmost f ps) else if m then Some st else None)"

lemma selectChild_start:
  assumes "storage_ok sha256 s" and "comparable sha256 i s" and "it = place (name_keys (i_name i)) (keys sha256 s)"
    and "it < length (m_cache s)"
  shows "(if it - 1 \<noteq> 0 then bindE (Entry_getFullName sha256 (entries s (m_cache s ! (it - 1)))) (\<lambda>f.
      bindE (Name_less f (i_name i)) (\<lambda>lt. if lt then Inr () else Inl AssertionFailed)) else Inr ()) = Inr ()"
proof (cases "it - 1 = 0")
  case False
  let ?p = "m_cache s ! (it - 1)"
  have p: "?p \<in> set (m_cache s)" using assms(4) by simp
  obtain f where f: "Entry_getFullName sha256 (entries s ?p) = Inr f" "name_canon f" "name_keys f = entry_key sha256 s ?p"
    using entry_full_name [OF storage_okD(1) [OF assms(1)] p] by (auto simp: entry_key_def)
  have "name_keys f = keys sha256 s ! (it - 1)" using f(3) assms(4) by (simp add: keys_entry)
  moreover have "keys sha256 s ! (it - 1) = take it (keys sha256 s) ! (it - 1)" "it - 1 < length (take it (keys sha256 s))"
    using assms(4) False by simp_all
  ultimately have "name_keys f \<in> set (take it (keys sha256 s))" by (metis nth_mem)
  then have "name_keys f < name_keys (i_name i)" unfolding assms(3) by (rule place_before)
  then show ?thesis using f assms(2) by (simp add: comparable_def Name_less_keys)
qed simp

lemma selectChild_run:
  assumes "storage_ok sha256 s" and "comparable sha256 i s" and "it = place (name_keys (i_name i)) (keys sha256 s)"
    and "it < length (m_cache s)"
  shows "selectChild sha256 i (it - 1) s = Inr (case candidates sha256 i s of [] \<Rightarrow> None
    | st # ps \<Rightarrow> selection i (child sha256 i s) (matched sha256 i s st) st (filter (matched sha256 i s) ps))"
proof (cases "dropWhile (\<lambda>p. \<not> fresh_enough i s p) (drop (it - 1) (m_cache s))")
  case Nil
  then have "candidates sha256 i s = []" using dropWhile_all [OF Nil] by (simp add: candidates_def assms(3))
  then show ?thesis using assms(4) selectChild_start [OF assms] unfolding selectChild_def next_fresh Let_def Nil by simp
next
  case (Cons st rest)
  note sp = select_split [OF assms(1) Cons [unfolded assms(3)]]
  obtain a where a: "m_cache s = a @ st # rest" using sp(1) by blast
  let ?ps = "filter (matched sha256 i s) (filter (fresh_enough i s) rest)" and ?f = "child sha256 i s"
  note r = select_rest [OF assms(1,2) a sp(2)]
  have st: "st \<in> set (m_cache s)" "set rest \<subseteq> set (m_cache s)" using a by auto
  obtain b where b: "matchesData sha256 i (packet s st) = Inr b" "b = matched sha256 i s st"
    using assms(2) st(1) by (fastforce simp: comparable_def matched_def)
  have d: "getData (entries s st) = Inr (packet s st)"
    using storage_okD(1) [OF assms(1)] st(1) by (auto simp: cache_ok_def getData_def packet_def)
  have loop: "select_loop sha256 i s rest Block_empty st
    = (if childSelector (i_selectors i) \<le> 0 then Inr (if ?ps = [] then (st, False) else (hd ?ps, True))
       else Inr (last_child ?f None st ?ps, False))"
    using select_loop_run [OF assms(1,2) st(2), where c = None and cp = Block_empty and r = st] r(1)
    by (simp add: Name_empty_def Block_empty_def Let_def)
  have run: "selectChild sha256 i (it - 1) s
    = bindE (if childSelector (i_selectors i) \<le> 0 then bindE (getData (entries s st)) (matchesData sha256 i) else Inr False) (\<lambda>m.
            if m then Inr (Some st)
            else bindE (select_loop sha256 i s rest Block_empty st) (\<lambda>(rightmost, returned).
              if returned \<or> rightmost \<noteq> st then Inr (Some rightmost)
              else if childSelector (i_selectors i) > 0 then
                bindE (getData (entries s st)) (\<lambda>d. bindE (matchesData sha256 i d) (\<lambda>m. Inr (if m then Some st else None)))
              else Inr None))"
  proof -
    have "\<not> length (m_cache s) \<le> it - 1" using assms(4) by linarith
    then show ?thesis unfolding selectChild_def next_fresh Let_def Cons selectChild_start [OF assms] by (simp add: not_less)
  qed
  show ?thesis
  proof (cases "childSelector (i_selectors i) \<le> 0")
    case True
    then show ?thesis using run d b loop by (cases b; cases "?ps = []") (simp_all add: sp(3) selection_def)
  next
    case False
    show ?thesis
    proof (cases "?ps = []")
      case True
      then show ?thesis using False run d b loop by (cases b) (simp_all add: sp(3) selection_def)
    next
      case ps: False
      have "last_child ?f None st ?ps = leftmost_of_rightmost ?f ?ps" by (rule last_child_none [OF r(2) ps])
      moreover have "leftmost_of_rightmost ?f ?ps \<noteq> st" using leftmost_of_rightmost_in [OF ps, of ?f] r(3) by metis
      ultimately show ?thesis using False ps run loop by (simp add: sp(3) selection_def)
    qed
  qed
qed


text \<open>The choice over all answers.\<close>

definition chosen :: "(bytes \<Rightarrow> bytes) \<Rightarrow> interest \<Rightarrow> 'c storage \<Rightarrow> nat" where
  "chosen sha256 i s = (let as = answers sha256 i s; f = child sha256 i s in
     if childSelector (i_selectors i) \<le> 0 then hd as
     else if 1 < length as \<and> hd (candidates sha256 i s) = hd as \<and> f (hd as) = f (last as) then as ! 1
     else leftmost_of_rightmost f as)"

lemma leftmost_cons: "ps \<noteq> [] \<Longrightarrow> f p \<noteq> f (last ps) \<Longrightarrow> leftmost_of_rightmost f (p # ps) = leftmost_of_rightmost f ps"
  by (simp add: leftmost_of_rightmost_def)

lemma leftmost_equal:
  "sorted (map f ps) \<Longrightarrow> ps \<noteq> [] \<Longrightarrow> \<forall>q \<in> set ps. (c :: 'a :: linorder) \<le> f q \<Longrightarrow> f (last ps) = c \<Longrightarrow> leftmost_of_rightmost f ps = hd ps"
proof (cases ps)
  case (Cons q qs)
  assume h: "sorted (map f ps)" "\<forall>q \<in> set ps. c \<le> f q" "f (last ps) = c"
  have "f q \<le> f (last ps)" using h(1) by (cases "qs = []") (simp_all add: Cons)
  moreover have "f (last ps) \<le> f q" using h(2,3) Cons by simp
  ultimately have e: "f (last ps) = f q" by simp
  show ?thesis unfolding leftmost_of_rightmost_def e by (simp add: Cons)
qed simp

lemma selection_chosen:
  assumes "storage_ok sha256 s" and "comparable sha256 i s"
  shows "(case candidates sha256 i s of [] \<Rightarrow> None
      | st # ps \<Rightarrow> selection i (child sha256 i s) (matched sha256 i s st) st (filter (matched sha256 i s) ps))
    = (if answers sha256 i s = [] then None else Some (chosen sha256 i s))"
proof (cases "candidates sha256 i s")
  case Nil
  then show ?thesis using answers_candidates [OF assms] by simp
next
  case (Cons st cs)
  let ?ps = "filter (matched sha256 i s) cs" and ?f = "child sha256 i s"
  have as: "answers sha256 i s = (if matched sha256 i s st then st # ?ps else ?ps)" using answers_candidates [OF assms] Cons by simp
  have "sorted (map (entry_key sha256 s) (answers sha256 i s))" "distinct (answers sha256 i s)"
    using sorted_filter sorted_entries [OF assms(1)] storage_okD(2) [OF assms(1)] by (simp_all add: answers_def)
  then have "sorted_wrt (\<lambda>p q. ?f p \<le> ?f q) (answers sha256 i s)"
    unfolding sorted_map by (elim sorted_wrt_mono_rel [rotated]) (simp add: child_def take_mono)
  then have sorted: "sorted (map ?f (answers sha256 i s))" by (simp add: sorted_map)
  have "st \<notin> set ?ps"
  proof -
    have "distinct (candidates sha256 i s)" using storage_okD(2) [OF assms(1)] by (simp add: candidates_def)
    then show ?thesis by (simp add: Cons)
  qed
  then have ne: "hd ?ps \<noteq> st" if "?ps \<noteq> []" using that hd_in_set by metis
  show ?thesis
  proof (cases "matched sha256 i s st \<and> ?ps \<noteq> [] \<and> \<not> childSelector (i_selectors i) \<le> 0")
    case True
    then have f: "sorted (map ?f ?ps)" "\<forall>q \<in> set ?ps. ?f st \<le> ?f q" using sorted as by simp_all
    show ?thesis
    proof (cases "?f st = ?f (last ?ps)")
      case T: True
      then have "leftmost_of_rightmost ?f ?ps = hd ?ps" using leftmost_equal [OF f(1) _ f(2)] True by simp
      then show ?thesis using T True as by (simp add: Cons selection_def chosen_def Let_def hd_conv_nth)
    next
      case False
      then show ?thesis using True as leftmost_cons [of ?ps ?f st] by (simp add: Cons selection_def chosen_def Let_def)
    qed
  next
    case False
    then show ?thesis using as ne by (auto simp: Cons selection_def chosen_def Let_def leftmost_of_rightmost_def)
  qed
qed

lemma chosen_in: "answers sha256 i s \<noteq> [] \<Longrightarrow> chosen sha256 i s \<in> set (answers sha256 i s)"
  using leftmost_of_rightmost_in [of "answers sha256 i s"] by (auto simp: chosen_def Let_def)

context replacement
begin

lemma find_run:
  assumes "managed tracks sha256 s" and "comparable sha256 i s" and "name_keys (i_name i) \<notin> contents sha256 s"
  shows "if answers sha256 i s = [] then Storage_find P sha256 i s = Inr (None, s)
    else \<exists>c. afterAccess P (m_nPackets s) (chosen sha256 i s) (m_cleanupIndex s) = Inr c
      \<and> Storage_find P sha256 i s = Inr (Some (packet s (chosen sha256 i s)), s\<lparr>m_cleanupIndex := c\<rparr>)
      \<and> managed tracks sha256 (s\<lparr>m_cleanupIndex := c\<rparr>)"
proof -
  have s: "storage_ok sha256 s" using assms(1) by (simp add: managed_def)
  have n: "name_canon (i_name i)" using assms(2) by (simp add: comparable_def)
  let ?it = "place (name_keys (i_name i)) (keys sha256 s)"
  have find: "index_find sha256 s (i_name i) = Inr (length (m_cache s))" using index_find_run [OF storage_okD(1) [OF s] n] assms(3) by simp
  have lb: "index_lower_bound sha256 s (i_name i) = Inr ?it" by (rule index_lower_bound_run [OF storage_okD(1) [OF s] n])
  show ?thesis
  proof (cases "?it < length (m_cache s)")
    case False
    then have it: "?it = length (m_cache s)" using place_le [of "name_keys (i_name i)" "keys sha256 s"] by simp
    have "\<not> matched sha256 i s p" if "p \<in> set (m_cache s)" for p
    proof
      assume "matched sha256 i s p"
      then have "prefix (name_keys (i_name i)) (entry_key sha256 s p)" using matched_prefix [OF s] assms(2) that by (simp add: comparable_def)
      moreover have "entry_key sha256 s p \<in> set (keys sha256 s)" using that by (simp add: keys_entry)
      ultimately have "?it < length (keys sha256 s)" by (intro prefix_place(1) [OF storage_okD(5) [OF s]])
      then show False using it by simp
    qed
    then have "answers sha256 i s = []" by (auto simp: answers_def filter_empty_conv)
    then show ?thesis using find lb it by (simp add: Storage_find_def)
  next
    case True
    have e: "(if ?it \<noteq> 0 then ?it - 1 else ?it) = ?it - 1" by simp
    have sel: "selectChild sha256 i (?it - 1) s = Inr (if answers sha256 i s = [] then None else Some (chosen sha256 i s))"
      using selectChild_run [OF s assms(2) refl True] selection_chosen [OF s assms(2)] by simp
    have run: "Storage_find P sha256 i s = bindE (selectChild sha256 i (?it - 1) s) (\<lambda>ret. case ret of
           Some p \<Rightarrow> bindE (access P p s) (\<lambda>s. bindE (getData (entries s p)) (\<lambda>d. Inr (Some d, s)))
         | None \<Rightarrow> Inr (None, s))"
      using find lb True unfolding Storage_find_def by (simp only: bindE.simps e) simp
    show ?thesis
    proof (cases "answers sha256 i s = []")
      case T: True
      then show ?thesis using run sel by simp
    next
      case False
      let ?p = "chosen sha256 i s"
      have p: "?p \<in> set (m_cache s)" using chosen_in [OF False] by (simp add: answers_def)
      obtain c where c: "afterAccess P (m_nPackets s) ?p (m_cleanupIndex s) = Inr c" "access P ?p s = Inr (s\<lparr>m_cleanupIndex := c\<rparr>)"
          "managed tracks sha256 (s\<lparr>m_cleanupIndex := c\<rparr>)"
        using access_run [OF assms(1) p] by blast
      have "getData (entries s ?p) = Inr (packet s ?p)"
        using storage_okD(1) [OF s] p by (auto simp: cache_ok_def getData_def packet_def)
      then show ?thesis using run sel c False by simp
    qed
  qed
qed

lemma find_full_name_run:
  assumes "managed tracks sha256 s" and "name_canon (i_name i)" and "name_keys (i_name i) \<in> contents sha256 s"
  shows "\<exists>p \<in> set (m_cache s). entry_key sha256 s p = name_keys (i_name i) \<and> Storage_find P sha256 i s = Inr (Some (packet s p), s)"
proof -
  have s: "storage_ok sha256 s" using assms(1) by (simp add: managed_def)
  let ?it = "place (name_keys (i_name i)) (keys sha256 s)"
  have it: "?it < length (m_cache s)" "keys sha256 s ! ?it = name_keys (i_name i)"
    using place_nth [OF storage_okD(5) [OF s], of "name_keys (i_name i)"] assms(3) by (simp_all add: contents_def)
  have "Storage_find P sha256 i s = Inr (Some (packet s (m_cache s ! ?it)), s)"
    using index_find_run [OF storage_okD(1) [OF s] assms(2)] assms(3) it(1) nth_packet(1) [OF s it(1)] by (simp add: Storage_find_def)
  then show ?thesis using nth_packet(3,4) [OF s it(1)] it(2) by (auto simp: entry_key_def)
qed

end

text \<open>
  C12. Finding for an Interest that no packet has as its full name: nothing is found exactly when no packet that
  is fresh enough matches; otherwise, for the leftmost child, the first such packet is returned. For the
  rightmost child it is the first of those in the last child, except that the second is returned when all of
  them are in one child and the search starts with the first: whether it does depends on whether any packet is
  before the name of the Interest, be it unrelated.
\<close>

theorem Storage_find_selects:
  assumes "replacement P tracks" and "managed tracks sha256 s" and "comparable sha256 i s" and "name_keys (i_name i) \<notin> contents sha256 s"
  shows "let as = answers sha256 i s; f = child sha256 i s in
    if as = [] then Storage_find P sha256 i s = Inr (None, s)
    else \<exists>p c. p \<in> set as \<and> Storage_find P sha256 i s = Inr (Some (packet s p), s\<lparr>m_cleanupIndex := c\<rparr>)
      \<and> afterAccess P (m_nPackets s) p (m_cleanupIndex s) = Inr c \<and> managed tracks sha256 (s\<lparr>m_cleanupIndex := c\<rparr>)
      \<and> p = (if childSelector (i_selectors i) \<le> 0 then hd as
          else if 1 < length as \<and> hd (candidates sha256 i s) = hd as \<and> f (hd as) = f (last as) then as ! 1
          else hd (filter (\<lambda>q. f q = f (last as)) as))"
proof (cases "answers sha256 i s = []")
  case True
  then show ?thesis using replacement.find_run [OF assms] by simp
next
  case False
  then obtain c where "afterAccess P (m_nPackets s) (chosen sha256 i s) (m_cleanupIndex s) = Inr c"
      "Storage_find P sha256 i s = Inr (Some (packet s (chosen sha256 i s)), s\<lparr>m_cleanupIndex := c\<rparr>)"
      "managed tracks sha256 (s\<lparr>m_cleanupIndex := c\<rparr>)" using replacement.find_run [OF assms] by auto
  then show ?thesis unfolding Let_def using False chosen_in [OF False]
    by (simp only: if_False simp_thms) (intro exI [of _ "chosen sha256 i s"] exI [of _ c], simp add: chosen_def Let_def leftmost_of_rightmost_def)
qed

text \<open>
  Finding for an Interest that is named with the full name of a packet returns that packet, whatever the
  selectors of the Interest say, whether it is fresh or not, and without telling the replacement policy.
\<close>

theorem Storage_find_full_name:
  assumes "replacement P tracks" and "managed tracks sha256 s" and "name_canon (i_name i)" and "name_keys (i_name i) \<in> contents sha256 s"
  shows "\<exists>p \<in> set (m_cache s). entry_key sha256 s p = name_keys (i_name i) \<and> Storage_find P sha256 i s = Inr (Some (packet s p), s)"
  by (rule replacement.find_full_name_run [OF assms])

end
