(* ===== verification/StorageLife.thy ===== *)
theory StorageLife
  imports StoragePolicy StorageFind
begin

text \<open>
  The life of a storage: its construction, any sequence of its operations, the events that mark packets as
  stale, its end, and how it can starve.
\<close>

section \<open>The beginning\<close>

definition idle :: "nat scheduler option \<Rightarrow> bool" where
  "idle sched \<longleftrightarrow> (case sched of None \<Rightarrow> True | Some t \<Rightarrow> scheduler_ok t \<and> m_queue t = [] \<and> \<not> m_isEventExecuting t)"

lemma Storage_init_sel:
  "m_cache (Storage_init sched limit c) = []" "m_limit (Storage_init sched limit c) = limit"
  "m_capacity (Storage_init sched limit c) = (if limit \<noteq> 2 ^ 64 - 1 \<and> limit < 10 then limit else 10)"
  "m_cleanupIndex (Storage_init sched limit c) = c" "m_scheduler (Storage_init sched limit c) = sched"
  "m_nPackets (Storage_init sched limit c) = 0"
  "length (m_freeEntries (Storage_init sched limit c)) = m_capacity (Storage_init sched limit c)"
  "keys sha256 (Storage_init sched limit c) = []" "contents sha256 (Storage_init sched limit c) = {}"
  by (simp_all add: Storage_init_def Let_def push_entries_sel keys_def contents_def)

lemma Storage_init_ok:
  assumes "limit < 2 ^ 64" and "idle sched"
  shows "storage_ok sha256 (Storage_init sched limit c)"
proof -
  let ?s = "Storage_init sched limit c"
  have "m_freeEntries ?s = rev [0..<m_capacity ?s]" "next_entry ?s = m_capacity ?s"
    by (simp_all add: Storage_init_def Let_def push_entries_sel)
  moreover have "m_markStaleEventId (entries ?s p) = None" for p
    by (simp add: Storage_init_def Let_def push_entries_sel Entry_new_def)
  moreover have "m_capacity ?s \<le> limit" using assms(1) by (simp add: Storage_init_sel)
  ultimately show ?thesis using assms
    by (auto simp: storage_ok_def cache_ok_def Storage_init_sel(1,2,4-6,8) events_ok_def idle_def timer_ok_def split: option.splits)
qed


section \<open>Stale packets\<close>

text \<open>When the packet in an entry will become stale, if the scheduler has an event for it.\<close>

definition due :: "'c storage \<Rightarrow> nat \<Rightarrow> int \<Rightarrow> bool" where
  "due s p now \<longleftrightarrow> (\<exists>t e. m_scheduler s = Some t \<and> e \<in> set (m_queue t) \<and> callback e = p \<and> expireTime e \<le> now)"

lemma foldl_markStale:
  "foldl (\<lambda>es e. es(callback e := markStale (es (callback e)))) es q p
    = (es p)\<lparr>m_isFresh := m_isFresh (es p) \<and> p \<notin> callback ` set q\<rparr>"
  by (induction q arbitrary: es) (auto simp: markStale_def)

lemma tick_run:
  assumes "storage_ok sha256 s"
  shows "\<exists>t. Storage_tick now now' s = Some (Inr t) \<and> storage_ok sha256 t \<and> m_cache t = m_cache s \<and> m_cleanupIndex t = m_cleanupIndex s
    \<and> (\<forall>p. entries t p = (entries s p)\<lparr>m_isFresh := m_isFresh (entries s p) \<and> \<not> due s p now\<rparr>) \<and> (\<forall>p. \<not> due t p now)
    \<and> keys sha256 t = keys sha256 s \<and> m_capacity t = m_capacity s \<and> m_limit t = m_limit s"
proof (cases "m_scheduler s")
  case None
  then show ?thesis using assms by (intro exI [of _ s]) (simp add: Storage_tick_def due_def)
next
  case (Some u)
  have u: "scheduler_ok u" "\<forall>e \<in> set (m_queue u). callback e \<in> set (m_cache s) \<and> m_markStaleEventId (entries s (callback e)) = Some (Some (ev_id e))"
    using assms Some by (simp_all add: storage_ok_def events_ok_def)
  let ?q = "filter (\<lambda>e. expireTime e \<le> now) (m_queue u)"
  let ?v = "scheduleNext now' (u\<lparr>m_queue := filter (\<lambda>e. now < expireTime e) (m_queue u), m_isEventExecuting := False\<rparr>)"
  let ?es = "foldl (\<lambda>es e. es(callback e := markStale (es (callback e)))) (entries s) ?q"
  let ?t = "s\<lparr>entries := ?es, m_scheduler := Some ?v\<rparr>"
  have "\<forall>c w t. stale_callback c (w, t) = ((w(c := markStale (w c)), t), None)" by (simp add: stale_callback_def)
  from execute_quiet [OF u(1) this, of now now' "entries s"]
  have run: "Storage_tick now now' s = Some (Inr ?t)" using Some by (simp add: Storage_tick_def fun_upd_def)
  have es: "?es p = (entries s p)\<lparr>m_isFresh := m_isFresh (entries s p) \<and> \<not> due s p now\<rparr>" for p
  proof -
    have "p \<in> callback ` set ?q \<longleftrightarrow> due s p now" using Some by (auto simp: due_def)
    then show ?thesis by (simp only: foldl_markStale)
  qed
  then have id: "m_markStaleEventId (?es p) = m_markStaleEventId (entries s p)" "m_dataPacket (?es p) = m_dataPacket (entries s p)" for p
    by simp_all
  have "scheduler_ok ?v" using u(1) by (auto simp: scheduler_ok_def queue_ok_def sorted_filter distinct_map_filter)
  then have ev: "events_ok ?es (set (m_cache s)) (Some ?v)"
    using u(2) id scheduleNext_armed by (simp add: events_ok_def)
  have ks: "keys sha256 ?t = keys sha256 s" using id(2) by (intro keys_cong) simp_all
  have "cache_ok sha256 ?t" using assms id(2) ks by (simp add: storage_ok_def cache_ok_def)
  then have "storage_ok sha256 ?t" using assms ev id(1) unfolding storage_ok_def by simp
  then show ?thesis using run es ks Some by (intro exI [of _ ?t]) (simp add: due_def)
qed

text \<open>Inserting a packet with a window gives its entry a deadline, and leaves those of the others.\<close>

lemma schedule_stale_due:
  assumes "m_scheduler s = Some u" and "m_markStaleEventId (entries s p) = None" and "\<not> (\<exists>e \<in> set (m_queue u). callback e = p)"
  shows "due (schedule_stale now w p s) q t \<longleftrightarrow> (if q = p then 0 < w \<and> int64 (now + int64 (w * 10 ^ 6)) \<le> t else due s q t)"
proof (cases "0 < w")
  case False
  then show ?thesis using assms by (auto simp: schedule_stale_def due_def)
next
  case True
  obtain i v where v: "scheduleEvent now (int64 (w * 10 ^ 6)) p u = (i, v)" by fastforce
  then have q: "m_queue v = queue_insert \<lparr>ev_id = next_event u, expireTime = int64 (now + int64 (w * 10 ^ 6)), callback = p\<rparr> (m_queue u)"
    and i: "i = Some (next_event u)" using scheduleEvent_run [of now "int64 (w * 10 ^ 6)" p u] by simp_all
  have "EventId_valid v i" using q by (simp add: EventId_valid_def i)
  then have "ScopedEventId_assign now i (None, v) = (i, v)"
    by (simp add: ScopedEventId_assign_def EventId_equals_def EventId_valid_def cancelEvent_def i)
  then have "m_scheduler (schedule_stale now w p s) = Some v"
    using assms(1,2) True v by (simp add: schedule_stale_def setMarkStaleEventId_def set_entry_def drop_event_def)
  moreover have
      "(\<exists>e \<in> set (m_queue v). callback e = q \<and> expireTime e \<le> t)
        \<longleftrightarrow> (q = p \<and> int64 (now + int64 (w * 10 ^ 6)) \<le> t) \<or> (\<exists>e \<in> set (m_queue u). callback e = q \<and> expireTime e \<le> t)"
    unfolding q queue_insert_set by (simp add: eq_commute [of q p])
  ultimately show ?thesis using assms(1,3) True by (auto simp: due_def)
qed

lemma index_insert_scheduler: "index_insert sha256 p s = Inr t \<Longrightarrow> m_scheduler t = m_scheduler s"
  by (auto simp: index_insert_def bindE_Inr_conv split: if_splits)

lemma place_entry_due:
  assumes "place_entry P sha256 now d w s = Inr t" and "storage_ok sha256 s" and "m_freeEntries s = p # r" and "m_scheduler s = Some u"
  shows "due t q x \<longleftrightarrow> (if q = p then 0 < w \<and> int64 (now + int64 (w * 10 ^ 6)) \<le> x else due s q x)"
proof -
  let ?v = "set_entry p (Entry_setData d (entries s p)) (s\<lparr>m_freeEntries := r, m_nPackets := m_nPackets s + 1\<rparr>)"
  have t: "m_scheduler t = m_scheduler (schedule_stale now w p ?v)"
    using assms(1,3) by (auto simp: place_entry_def Let_def bindE_Inr_conv dest: index_insert_scheduler)
  have "p \<notin> set (m_cache s)" "m_markStaleEventId (entries s p) = None" "\<forall>e \<in> set (m_queue u). callback e \<in> set (m_cache s)"
    using assms(2-4) by (auto simp: storage_ok_def events_ok_def)
  moreover have "m_scheduler ?v = Some u" "m_markStaleEventId (entries ?v p) = m_markStaleEventId (entries s p)"
    using assms(4) by (simp_all add: set_entry_def Entry_setData_def)
  ultimately have "due (schedule_stale now w p ?v) q x \<longleftrightarrow> (if q = p then 0 < w \<and> int64 (now + int64 (w * 10 ^ 6)) \<le> x else due ?v q x)"
    by (intro schedule_stale_due) auto
  moreover have "due ?v q x = due s q x" by (simp add: due_def set_entry_def)
  ultimately show ?thesis using t by (simp add: due_def)
qed

text \<open>
  The staleness of packets: when the timer of the scheduler fires, exactly the entries whose deadline has
  passed are marked, whatever was erased, evicted or inserted before, and the packets stay as they are; no
  deadline that has passed is left.
\<close>

theorem Storage_tick_marks:
  assumes "managed tracks sha256 s"
  shows "\<exists>t. Storage_tick now now' s = Some (Inr t) \<and> managed tracks sha256 t \<and> contents sha256 t = contents sha256 s
    \<and> m_cache t = m_cache s \<and> (\<forall>p. packet t p = packet s p)
    \<and> (\<forall>p. m_isFresh (entries t p) \<longleftrightarrow> m_isFresh (entries s p) \<and> \<not> due s p now) \<and> (\<forall>p. \<not> due t p now)"
proof -
  have s: "storage_ok sha256 s" using assms by (simp add: managed_def)
  from tick_run [OF this, of now now'] obtain t where t: "Storage_tick now now' s = Some (Inr t)" "storage_ok sha256 t" "m_cache t = m_cache s"
      "m_cleanupIndex t = m_cleanupIndex s" "\<forall>p. entries t p = (entries s p)\<lparr>m_isFresh := m_isFresh (entries s p) \<and> \<not> due s p now\<rparr>"
      "\<forall>p. \<not> due t p now" "keys sha256 t = keys sha256 s" by blast
  then show ?thesis using assms by (intro exI [of _ t]) (simp add: managed_def contents_def packet_def)
qed


section \<open>The end\<close>

lemma free_all_run:
  assumes "storage_ok sha256 s"
  shows "\<exists>t. free_all now (length (m_cache s)) s = Inr t \<and> storage_ok sha256 t \<and> m_cache t = [] \<and> m_capacity t = m_capacity s"
  using assms
proof (induction "length (m_cache s)" arbitrary: s)
  case 0
  then show ?case by simp
next
  case (Suc n)
  have "0 < length (m_cache s)" using Suc.hyps(2) by linarith
  from freeEntry_run [OF Suc.prems this, of now] obtain u where u: "freeEntry now 0 s = Inr u" "frees sha256 s 0 u" by blast
  then have "storage_ok sha256 u" "length (m_cache u) = n" "m_capacity u = m_capacity s"
    using Suc.hyps(2) by (simp_all add: frees_def without_def)
  then show ?case using Suc.hyps(1) [of u] Suc.hyps(2) [symmetric] u(1) by auto
qed

text \<open>
  The end of a storage: no assertion fails, every entry is deleted exactly once, and the scheduler is left
  with no event of the storage, so that none of its callbacks meets a deleted entry.
\<close>

theorem Storage_destroy_clean:
  assumes "storage_ok sha256 s"
  shows "\<exists>t u. free_all now (length (m_cache s)) s = Inr u \<and> distinct (m_freeEntries u) \<and> length (m_freeEntries u) = m_capacity s
    \<and> Storage_destroy now s = Inr t \<and> m_cache t = [] \<and> m_freeEntries t = []
    \<and> (case m_scheduler t of None \<Rightarrow> True | Some sched \<Rightarrow> m_queue sched = [])"
proof -
  obtain u where u: "free_all now (length (m_cache s)) s = Inr u" "storage_ok sha256 u" "m_cache u = []" "m_capacity u = m_capacity s"
    using free_all_run [OF assms, of now] by blast
  have f: "distinct (m_freeEntries u)" "length (m_freeEntries u) = m_capacity u" "events_ok (entries u) {} (m_scheduler u)"
    using u(2,3) by (simp_all add: storage_ok_def)
  have "delete_entries (length (m_freeEntries u)) u = Inr (u\<lparr>m_freeEntries := []\<rparr>)" using delete_entries_run [of _ u] by simp
  then have "Storage_destroy now s = Inr (u\<lparr>m_freeEntries := []\<rparr>)" using u(1) f(2) by (simp add: Storage_destroy_def)
  moreover have "case m_scheduler u of None \<Rightarrow> True | Some sched \<Rightarrow> m_queue sched = []"
    using f(3) by (auto simp: events_ok_def split: option.splits)
  ultimately show ?thesis using u f by simp
qed


section \<open>Starving\<close>

context replacement
begin

lemma starved_insert:
  assumes "managed tracks sha256 s" and "stored sha256 d" and "m_capacity s = 0"
  shows "Storage_insert P sha256 now d w s = Some (Inl AssertionFailed)"
proof -
  have s: "storage_ok sha256 s" "tracks (m_cleanupIndex s) (set (m_cache s))" using assms(1) by (simp_all add: managed_def)
  have e: "m_cache s = []" "m_freeEntries s = []" "m_nPackets s = 0"
    using storage_okD(3,4) [OF s(1)] assms(3) by simp_all
  have c: "bindE (getFullName sha256 d) (index_find sha256 s) = Inr (length (m_cache s))"
    using insert_check(1) [OF assms(1,2)] e(1) by (simp add: contents_def keys_def)
  have f: "isFull s" by (simp add: isFull_def assms(3))
  show ?thesis
  proof (cases "m_limit s = 0")
    case True
    have "victim P (m_cleanupIndex s) = None"
      using evicted [OF s(2)] e(1) by (cases "victim P (m_cleanupIndex s)") auto
    then have "make_room P sha256 now s = Some (Inr s)" using True f assms(3) by (simp add: make_room_def evictItem_none)
    then show ?thesis using c e(2) by (simp add: Storage_insert_def place_entry_full)
  next
    case False
    have "m_nPackets s \<le> 0" "0 \<le> m_limit s" using e(3) by simp_all
    from setCapacity_keep [OF assms(1) this, of now] obtain t where t: "setCapacity P sha256 now 0 s = Some (Inr t)"
        "managed tracks sha256 t" "m_capacity t = 0" by blast
    then have "m_freeEntries t = []" using storage_okD(4) [of sha256 t] by (simp add: managed_def)
    moreover have "make_room P sha256 now s = Some (Inr t)" using t f False assms(3) by (simp add: make_room_def Let_def)
    ultimately show ?thesis using c by (simp add: Storage_insert_def place_entry_full)
  qed
qed

lemma empty_erase:
  assumes "managed tracks sha256 s" and "name_canon n" and "m_cache s = []"
  shows "\<exists>t. Storage_erase P sha256 now n True s = Some (Inr t) \<and> managed tracks sha256 t \<and> m_cache t = []
    \<and> m_capacity t = m_capacity s div 2"
proof -
  have s: "storage_ok sha256 s" using assms(1) by (simp add: managed_def)
  have e: "name_keys n \<notin> contents sha256 s" "m_nPackets s = 0" using assms(3) storage_okD(3) [OF s] by (simp_all add: contents_def keys_def)
  have "place (name_keys n) (keys sha256 s) = 0" using assms(3) by (simp add: keys_def place_def)
  then have "bindE (index_lower_bound sha256 s n) (\<lambda>it. erase_prefix P now n it s) = Inr s"
    using index_lower_bound_run [OF storage_okD(1) [OF s] assms(2)] assms(3) by (simp add: erase_prefix.simps)
  then have run: "Storage_erase P sha256 now n True s = shrink P sha256 now s" by (simp add: Storage_erase_def)
  obtain t where t: "shrink P sha256 now s = Some (Inr t)" "managed tracks sha256 t" "m_nPackets t = m_nPackets s"
      "m_capacity t = (if 3 * m_nPackets s < m_capacity s then m_capacity s div 2 else m_capacity s)"
    using shrink_run [OF assms(1)] by blast
  then have "m_cache t = []" using storage_okD(3) [of sha256 t] e(2) by (simp add: managed_def)
  then show ?thesis using run t e(2) by (intro exI [of _ t]) auto
qed

end

text \<open>
  A storage starves: every call of \<open>erase\<close> by prefix on an empty storage halves its capacity, so that after
  four calls on a new one the capacity is zero, of which twice is zero too. No packet can be inserted then, nor
  when the limit is zero: the assertion that the pool has an entry fails. A storage at zero never recovers.
\<close>

theorem Storage_starves:
  assumes "replacement P tracks" and "tracks c {}" and "idle sched" and "list_all name_canon [n\<^sub>1, n\<^sub>2, n\<^sub>3, n\<^sub>4]"
    and "stored sha256 d"
  shows "(\<exists>t. foldO (\<lambda>s n. Storage_erase P sha256 now n True s) (Storage_init sched (2 ^ 64 - 1) c) [n\<^sub>1, n\<^sub>2, n\<^sub>3, n\<^sub>4] = Some (Inr t)
      \<and> m_capacity t = 0 \<and> Storage_insert P sha256 now d w t = Some (Inl AssertionFailed))
    \<and> Storage_insert P sha256 now d w (Storage_init sched 0 c) = Some (Inl AssertionFailed)"
proof -
  note P = assms(1)
  have init: "managed tracks sha256 (Storage_init sched limit c)" if "limit < 2 ^ 64" for limit
    using Storage_init_ok [OF that assms(3)] assms(2) by (simp add: managed_def Storage_init_sel)
  have n: "name_canon n\<^sub>1" "name_canon n\<^sub>2" "name_canon n\<^sub>3" "name_canon n\<^sub>4" using assms(4) by simp_all
  let ?s = "Storage_init sched (2 ^ 64 - 1) c"
  have s: "managed tracks sha256 ?s" "m_cache ?s = []" "m_capacity ?s = 10"
    using init [of "2 ^ 64 - 1"] by (simp_all add: Storage_init_sel)
  note erase = replacement.empty_erase [OF P]
  obtain a where a: "Storage_erase P sha256 now n\<^sub>1 True ?s = Some (Inr a)" "managed tracks sha256 a" "m_cache a = []" "m_capacity a = 5"
    using erase [OF s(1) n(1) s(2), of now] s(3) by auto
  obtain b where b: "Storage_erase P sha256 now n\<^sub>2 True a = Some (Inr b)" "managed tracks sha256 b" "m_cache b = []" "m_capacity b = 2"
    using erase [OF a(2) n(2) a(3), of now] a(4) by auto
  obtain e where e: "Storage_erase P sha256 now n\<^sub>3 True b = Some (Inr e)" "managed tracks sha256 e" "m_cache e = []" "m_capacity e = 1"
    using erase [OF b(2) n(3) b(3), of now] b(4) by auto
  obtain t where t: "Storage_erase P sha256 now n\<^sub>4 True e = Some (Inr t)" "managed tracks sha256 t" "m_capacity t = 0"
    using erase [OF e(2) n(4) e(3), of now] e(4) by auto
  show ?thesis
    using a(1) b(1) e(1) t replacement.starved_insert [OF P t(2) assms(5) t(3)]
      replacement.starved_insert [OF P init [of 0] assms(5)]
    by (simp add: Storage_init_sel)
qed


section \<open>Freshness\<close>

text \<open>
  A packet inserted with a window is fresh when it is inserted, and its deadline is the end of the window, in
  nanoseconds of 64 bits, which the clock must reach before the timer marks it; without a window, or without a scheduler, it has no
  deadline and stays fresh.
\<close>

theorem Storage_insert_deadline:
  assumes "evicting P tracks" and "managed tracks sha256 s" and "stored sha256 d" and "full_key sha256 d \<notin> contents sha256 s"
    and "0 < m_capacity s" and "2 * m_capacity s < 2 ^ 64"
  shows "\<exists>t p. Storage_insert P sha256 now d w s = Some (Inr t) \<and> p \<in> set (m_cache t) \<and> packet t p = d \<and> m_isFresh (entries t p)
    \<and> (\<forall>x. due t p x \<longleftrightarrow> m_scheduler s \<noteq> None \<and> 0 < w \<and> int64 (now + int64 (w * 10 ^ 6)) \<le> x)"
proof -
  have P: "replacement P tracks" using assms(1) by (rule evicting.axioms)
  obtain u where u: "make_room P sha256 now s = Some (Inr u)" "managed tracks sha256 u" "m_freeEntries u \<noteq> []" "contents sha256 u \<subseteq> contents sha256 s"
      "m_scheduler u = None \<longleftrightarrow> m_scheduler s = None"
    using evicting.make_room_run [OF assms(1,2,5,6), of now] by metis
  obtain p r where f: "m_freeEntries u = p # r" using u(3) by (cases "m_freeEntries u") auto
  have u': "storage_ok sha256 u" using u(2) by (simp add: managed_def)
  obtain t where t: "place_entry P sha256 now d w u = Inr t" "managed tracks sha256 t" "placed sha256 u d t"
    using replacement.place_entry_run [OF P u(2,3) assms(3), of now w] assms(4) u(4) by blast
  have run: "Storage_insert P sha256 now d w s = Some (Inr t)"
    using replacement.insert_check(1) [OF P assms(2,3)] assms(4) u(1) t(1) by (simp add: Storage_insert_def)
  have e: "p \<in> set (m_cache t)" "packet t p = d" "m_isFresh (entries t p)" using t(3) f by (simp_all add: placed_def Let_def packet_def)
  have d: "due t p x \<longleftrightarrow> m_scheduler s \<noteq> None \<and> 0 < w \<and> int64 (now + int64 (w * 10 ^ 6)) \<le> x" for x
  proof (cases "m_scheduler s")
    case None
    then have "m_scheduler u = None" using u(5) by blast
    then have "m_scheduler t = None" using t(1) f
      by (auto simp: place_entry_def Let_def schedule_stale_def set_entry_def bindE_Inr_conv dest: index_insert_scheduler)
    then show ?thesis using None by (simp add: due_def)
  next
    case (Some v)
    then obtain v' where "m_scheduler u = Some v'" using u(5) by auto
    from place_entry_due [OF t(1) u' f this] Some show ?thesis by simp
  qed
  show ?thesis using run e d by (intro exI [of _ t] exI [of _ p]) simp
qed


section \<open>Any sequence of operations\<close>

inductive storage_step :: "'c policy \<Rightarrow> (bytes \<Rightarrow> bytes) \<Rightarrow> 'c storage \<Rightarrow> 'c storage \<Rightarrow> bool" for P sha256 where
  step_insert: "Storage_insert P sha256 now d w s = Some (Inr t) \<Longrightarrow> stored sha256 d \<Longrightarrow> storage_step P sha256 s t"
| step_erase: "Storage_erase P sha256 now n isPrefix s = Some (Inr t) \<Longrightarrow> name_canon n \<Longrightarrow> storage_step P sha256 s t"
| step_find_name: "Storage_find_name P sha256 n s = Inr (r, t) \<Longrightarrow> name_canon n \<Longrightarrow> storage_step P sha256 s t"
| step_find: "Storage_find P sha256 i s = Inr (r, t) \<Longrightarrow> comparable sha256 i s \<Longrightarrow> storage_step P sha256 s t"
| step_tick: "Storage_tick now now' s = Some (Inr t) \<Longrightarrow> storage_step P sha256 s t"
| step_capacity: "setCapacity P sha256 now c s = Some (Inr t) \<Longrightarrow> c \<le> m_limit s \<Longrightarrow> storage_step P sha256 s t"

lemma bindO_return: "bindO m (\<lambda>s. Some (Inr s)) = m"
  by (cases m; cases "the m") auto

context replacement
begin

text \<open>Inserting: the storage stays in order, or an assertion fails or no room can be made.\<close>

lemma make_room_keeps:
  assumes "make_room P sha256 now s = Some (Inr u)" and "managed tracks sha256 s"
  shows "managed tracks sha256 u \<and> m_limit u = m_limit s \<and> contents sha256 u \<subseteq> contents sha256 s"
proof -
  consider "isFull s" "m_limit s \<noteq> m_capacity s" | "isFull s" "m_limit s = m_capacity s" | "\<not> isFull s" by blast
  then show ?thesis
  proof cases
    case 1
    have "make_room P sha256 now s = setCapacity P sha256 now (min (2 * m_capacity s mod 2 ^ 64) (m_limit s)) s"
      using 1 by (simp add: make_room_def Let_def bindO_return)
    then show ?thesis
      using setCapacity_cases [OF assms(2), of "min (2 * m_capacity s mod 2 ^ 64) (m_limit s)" now] assms(1) by auto
  next
    case 2
    have s: "storage_ok sha256 s" using assms(2) by (simp add: managed_def)
    obtain b where e: "evictItem P sha256 now s = Inr (u, b)"
      using assms(1) 2 by (auto simp: make_room_def Let_def bindO_Inr_conv)
    show ?thesis
    proof (cases "victim P (m_cleanupIndex s)")
      case None
      then show ?thesis using e assms(2) by (simp add: evictItem_none)
    next
      case (Some p)
      obtain v where v: "evictItem P sha256 now s = Inr (v, True)" "managed tracks sha256 v" "p \<in> set (m_cache s)"
          "frees sha256 s (place (full_key sha256 (packet s p)) (keys sha256 s)) v"
        using evictItem_some [OF assms(2) Some] by blast
      have "contents sha256 v \<subseteq> contents sha256 s" using frees_cache(2) [OF v(4) s] entry_place [OF s v(3)] by auto
      then show ?thesis using v e by (simp add: frees_def)
    qed
  next
    case 3
    then show ?thesis using assms by (simp add: make_room_def Let_def)
  qed
qed

lemma insert_keeps:
  assumes "Storage_insert P sha256 now d w s = Some (Inr t)" and "stored sha256 d" and "managed tracks sha256 s"
  shows "managed tracks sha256 t \<and> m_limit t = m_limit s"
proof (cases "full_key sha256 d \<in> contents sha256 s")
  case True
  then show ?thesis using insert_present [OF assms(3,2) True] assms(1,3) by simp
next
  case new: False
  obtain u where u: "make_room P sha256 now s = Some (Inr u)" "place_entry P sha256 now d w u = Inr t"
    using assms(1) insert_check(1) [OF assms(3,2)] new by (auto simp: Storage_insert_def bindO_Inr_conv)
  note keep = make_room_keeps [OF u(1) assms(3)]
  have "m_freeEntries u \<noteq> []" using u(2) place_entry_full [of u P sha256 now d w] by auto
  from insert_step [OF assms(3,2) new u(1) _ this, of w] keep show ?thesis using assms(1) by auto
qed

end

lemma erase_keeps:
  assumes "Storage_erase P sha256 now n isPrefix s = Some (Inr t)" and "replacement P tracks" and "managed tracks sha256 s" and "name_canon n"
  shows "managed tracks sha256 t \<and> m_limit t = m_limit s"
proof -
  have "\<exists>t. Storage_erase P sha256 now n isPrefix s = Some (Inr t) \<and> managed tracks sha256 t \<and> m_limit t = m_limit s"
    using replacement.erase_run [OF assms(2-4), of now] by (cases isPrefix) auto
  then show ?thesis using assms(1) by auto
qed

lemma find_keeps:
  assumes "Storage_find P sha256 i s = Inr (r, t)" and "replacement P tracks" and "managed tracks sha256 s" and "comparable sha256 i s"
  shows "managed tracks sha256 t \<and> m_limit t = m_limit s"
proof (cases "name_keys (i_name i) \<in> contents sha256 s")
  case True
  have "name_canon (i_name i)" using assms(4) by (simp add: comparable_def)
  from replacement.find_full_name_run [OF assms(2,3) this True] show ?thesis using assms(1,3) by auto
next
  case False
  from replacement.find_run [OF assms(2-4) False] show ?thesis using assms(1,3) by (auto split: if_splits)
qed

lemma find_name_keeps:
  assumes "Storage_find_name P sha256 n s = Inr (r, t)" and "replacement P tracks" and "managed tracks sha256 s" and "name_canon n"
  shows "managed tracks sha256 t \<and> m_limit t = m_limit s"
  using replacement.find_name_run [OF assms(2-4)] assms(1,3) by (auto split: if_splits)

lemma tick_keeps:
  assumes "Storage_tick now now' s = Some (Inr t)" and "managed tracks sha256 s"
  shows "managed tracks sha256 t \<and> m_limit t = m_limit s"
  using tick_run [of sha256 s now now'] assms by (auto simp: managed_def)

lemma capacity_keeps:
  assumes "setCapacity P sha256 now c s = Some (Inr t)" and "replacement P tracks" and "managed tracks sha256 s" and "c \<le> m_limit s"
  shows "managed tracks sha256 t \<and> m_limit t = m_limit s"
  using replacement.setCapacity_cases [OF assms(2-4), of now] assms(1) by auto

lemma step_keeps:
  assumes "storage_step P sha256 s t" and "replacement P tracks" and "managed tracks sha256 s"
  shows "managed tracks sha256 t \<and> m_limit t = m_limit s"
  using assms(1)
  by cases (use assms(2,3) replacement.insert_keeps erase_keeps find_keeps find_name_keeps tick_keeps capacity_keeps in \<open>metis\<close>)+

text \<open>
  C10. The invariant over any sequence of operations from the construction on, for every limit, the largest
  number by default included, and under every policy that fulfils the contract of a replacement policy, also
  one that evicts nothing: the index is sorted by distinct full names, every entry is in the index or in the
  pool but not in both, the numbers of packets and of free entries add up to the capacity, which is within the
  limit, and every event of the scheduler is the one its entry, which is in use, would cancel. The operations
  of the sequence are those that return; what a failed assertion or an exception leaves behind is not covered.
\<close>

theorem storage_invariant:
  assumes "replacement P tracks" and "tracks c {}" and "idle sched" and "limit < 2 ^ 64"
    and "(storage_step P sha256)\<^sup>*\<^sup>* (Storage_init sched limit c) s"
  shows "storage_ok sha256 s \<and> tracks (m_cleanupIndex s) (set (m_cache s)) \<and> m_limit s = limit \<and> card (contents sha256 s) \<le> limit"
proof -
  have "managed tracks sha256 s \<and> m_limit s = limit"
    using assms(5)
  proof (induction rule: rtranclp_induct)
    case base
    show ?case using Storage_init_ok [of limit sched sha256 c] assms(2-4) by (simp add: managed_def Storage_init_sel)
  next
    case (step s t)
    then show ?case using step_keeps [OF step.hyps(2) assms(1)] by auto
  qed
  then show ?thesis using managed_card [of tracks sha256 s] by (simp add: managed_def storage_ok_def)
qed

end
