(* ===== verification/StorageDemo.thy ===== *)
theory StorageDemo
  imports StorageLife
begin

text \<open>
  A storage with two packets of the same name, under the policies of the library: the instances at which the
  properties of the storage are applied.
\<close>

section \<open>Two packets\<close>

definition demo_sha :: "bytes \<Rightarrow> bytes" where
  "demo_sha w = (if length w = 2 then replicate 31 0 @ [7] else replicate 31 0 @ [8])"

definition key\<^sub>1 :: "comp_key list" where
  "key\<^sub>1 = name_keys demo_name @ [digest_key (replicate 31 0 @ [7])]"

definition key\<^sub>2 :: "comp_key list" where
  "key\<^sub>2 = name_keys demo_name @ [digest_key (replicate 31 0 @ [8])]"

lemma demo_keys_less: "key\<^sub>1 < key\<^sub>2"
proof -
  have "digest_key (replicate 31 0 @ [7]) < digest_key (replicate 31 0 @ [8])"
    by (simp add: digest_key_def less_comp_key_def key_rank_def)
  moreover have "a < b \<Longrightarrow> ks @ [a] < ks @ [b]" for a b :: comp_key and ks by (induction ks) simp_all
  ultimately show ?thesis by (simp add: key\<^sub>1_def key\<^sub>2_def)
qed

lemma demo_packet_of:
  assumes "length v < 100" and "length (sha256 (tlv tlv_Data v)) = 32"
  shows "\<exists>d. packet_ok sha256 d (tlv tlv_Data v) \<and> name_keys (d_name d) = name_keys demo_name"
proof -
  have "length v < 2 ^ 63" using assms(1) by simp
  then obtain b where b: "holds b (tlv_Data, v)" using Block_buffer_holds [of v tlv_Data] by auto
  have "length (m_subBlocks demo_name) + 1 < 2 ^ 31" by (simp add: demo_name_def)
  moreover have "Name_empty Name_new" by (simp add: Name_empty_def Name_new_def Block_type_def)
  ultimately have "packet_ok sha256 (Data_new\<lparr>d_name := demo_name, d_wire := b\<rparr>) (tlv tlv_Data v)"
    using b holds_sel [OF b] demo_name_canon assms(2) by (auto simp: packet_ok_def Data_new_def holds_def)
  then show ?thesis by (intro exI [of _ "Data_new\<lparr>d_name := demo_name, d_wire := b\<rparr>"]) simp
qed

lemma demo_packets:
  "\<exists>d. stored demo_sha d \<and> full_key demo_sha d = key\<^sub>1" "\<exists>d. stored demo_sha d \<and> full_key demo_sha d = key\<^sub>2"
proof -
  have l: "demo_sha (tlv tlv_Data []) = replicate 31 0 @ [7]" "demo_sha (tlv tlv_Data [1]) = replicate 31 0 @ [8]"
    by (simp_all add: demo_sha_def tlv_def vartype_def sizeOfVarNumber_def tlv_Data_def)
  from demo_packet_of [of "[]" demo_sha] demo_packet_of [of "[1]" demo_sha] l
  obtain d e where "packet_ok demo_sha d (tlv tlv_Data [])" "name_keys (d_name d) = name_keys demo_name"
      "packet_ok demo_sha e (tlv tlv_Data [1])" "name_keys (d_name e) = name_keys demo_name" by auto
  then show "\<exists>d. stored demo_sha d \<and> full_key demo_sha d = key\<^sub>1" "\<exists>d. stored demo_sha d \<and> full_key demo_sha d = key\<^sub>2"
    using l by (auto simp: stored_def full_key_def packet_ok_def key\<^sub>1_def key\<^sub>2_def)
qed


section \<open>The storage\<close>

definition demo_storage :: "nat list storage" where
  "demo_storage = Storage_init None 20 []"

lemma demo_storage_managed: "managed sequence_of sha256 demo_storage" "contents sha256 demo_storage = {}"
  "m_capacity demo_storage = 10" "m_nPackets demo_storage = 0" "m_limit demo_storage = 20"
  using Storage_init_ok [of 20 None sha256 "[]"]
  by (simp_all add: managed_def demo_storage_def Storage_init_sel idle_def sequence_of_def)

lemma demo_two:
  "\<exists>s. (storage_step Fifo_policy demo_sha)\<^sup>*\<^sup>* demo_storage s \<and> managed sequence_of demo_sha s
    \<and> contents demo_sha s = {key\<^sub>1, key\<^sub>2} \<and> m_capacity s = 10 \<and> m_limit s = 20"
proof -
  obtain d e where d: "stored demo_sha d" "full_key demo_sha d = key\<^sub>1" and e: "stored demo_sha e" "full_key demo_sha e = key\<^sub>2"
    using demo_packets by blast
  note i = demo_storage_managed(1,2) [of demo_sha] demo_storage_managed(3-5)
  have "\<not> isFull demo_storage" using i by (simp add: isFull_def)
  then obtain t where t: "Storage_insert Fifo_policy demo_sha 0 d 0 demo_storage = Some (Inr t)" "managed sequence_of demo_sha t"
      "contents demo_sha t = {key\<^sub>1}" "m_limit t = 20" "m_capacity t = 10"
    using fifo.insert_room [OF i(1) d(1), of 0 0] d(2) i(2-5) by auto
  have "m_nPackets t = 1" using managed_card [OF t(2)] t(3) by simp
  then have "\<not> isFull t" using t(5) by (simp add: isFull_def)
  then obtain s where s: "Storage_insert Fifo_policy demo_sha 0 e 0 t = Some (Inr s)" "managed sequence_of demo_sha s"
      "contents demo_sha s = {key\<^sub>2, key\<^sub>1}" "m_limit s = 20" "m_capacity s = 10"
    using fifo.insert_room [OF t(2) e(1), of 0 0] e(2) t(3-5) demo_keys_less by (auto simp: less_imp_neq [symmetric])
  have "storage_step Fifo_policy demo_sha demo_storage t" by (rule step_insert [OF t(1) d(1)])
  moreover have "storage_step Fifo_policy demo_sha t s" by (rule step_insert [OF s(1) e(1)])
  ultimately have "(storage_step Fifo_policy demo_sha)\<^sup>*\<^sup>* demo_storage s" by simp
  then show ?thesis using s by (intro exI [of _ s]) auto
qed


section \<open>The instances\<close>

text \<open>A storage that evicts nothing, with the largest limit.\<close>

theorem storage_invariant_witness:
  "\<exists>s. (storage_step Persistent_policy demo_sha)\<^sup>*\<^sup>* (Storage_init None (2 ^ 64 - 1) ()) s \<and> storage_ok demo_sha s
    \<and> contents demo_sha s = {key\<^sub>1} \<and> m_limit s = 2 ^ 64 - 1"
proof -
  obtain d where d: "stored demo_sha d" "full_key demo_sha d = key\<^sub>1" using demo_packets(1) by blast
  let ?s = "Storage_init None (2 ^ 64 - 1) ()"
  have i: "idle None" by (simp add: idle_def)
  have s: "managed (\<lambda>_ _. True) demo_sha ?s" "contents demo_sha ?s = {}" "m_capacity ?s = 10" "\<not> isFull ?s"
    using Storage_init_ok [OF _ i, of "2 ^ 64 - 1" demo_sha "()"] by (simp_all add: managed_def Storage_init_sel isFull_def)
  obtain t where t: "Storage_insert Persistent_policy demo_sha 0 d 0 ?s = Some (Inr t)" "contents demo_sha t = {key\<^sub>1}"
    using persistent.insert_room [OF s(1) d(1), of 0 0] d(2) s(2-4) by auto
  have r: "(storage_step Persistent_policy demo_sha)\<^sup>*\<^sup>* ?s t" using step_insert [OF t(1) d(1)] by blast
  have "2 ^ 64 - 1 < (2 ^ 64 :: nat)" by simp
  from storage_invariant [OF persistent.replacement_axioms _ i this r] t(2) r show ?thesis by blast
qed

theorem Storage_insert_contents_witness:
  "\<exists>d t. Storage_insert Fifo_policy demo_sha 0 d 0 demo_storage = Some (Inr t) \<and> contents demo_sha t = {key\<^sub>1}"
proof -
  obtain d where d: "stored demo_sha d" "full_key demo_sha d = key\<^sub>1" using demo_packets(1) by blast
  note i = demo_storage_managed(1,2) [of demo_sha] demo_storage_managed(3-5)
  have "\<not> isFull demo_storage" using i by (simp add: isFull_def)
  then show ?thesis
    using Storage_insert_contents [OF fifo.evicting_axioms i(1) d(1), of 0 0] d(2) i(2-5) by auto
qed

theorem Storage_find_name_least_witness:
  "\<exists>s p c. contents demo_sha s = {key\<^sub>1, key\<^sub>2} \<and> full_key demo_sha (packet s p) \<le> key\<^sub>1
    \<and> Storage_find_name Lru_policy demo_sha demo_name s = Inr (Some (packet s p), s\<lparr>m_cleanupIndex := c\<rparr>)"
proof -
  obtain s where s: "managed sequence_of demo_sha s" "contents demo_sha s = {key\<^sub>1, key\<^sub>2}" using demo_two by blast
  have "prefix (name_keys demo_name) key\<^sub>1" by (simp add: key\<^sub>1_def)
  then show ?thesis
    using Storage_find_name_least [OF lru.replacement_axioms s(1) demo_name_canon] s(2) by auto
qed

theorem Storage_erase_contents_witness:
  "\<exists>s t. contents demo_sha s = {key\<^sub>1, key\<^sub>2} \<and> Storage_erase Fifo_policy demo_sha 0 demo_name True s = Some (Inr t)
    \<and> contents demo_sha t = {} \<and> m_capacity t = 5"
proof -
  obtain s where s: "managed sequence_of demo_sha s" "contents demo_sha s = {key\<^sub>1, key\<^sub>2}" "m_capacity s = 10" using demo_two by blast
  have e: "{k \<in> contents demo_sha s. \<not> prefix (name_keys demo_name) k} = {}" "name_keys demo_name \<notin> contents demo_sha s"
    by (auto simp: s(2) key\<^sub>1_def key\<^sub>2_def)
  obtain t where "Storage_erase Fifo_policy demo_sha 0 demo_name True s = Some (Inr t)" "contents demo_sha t = {}" "m_capacity t = 5"
    using Storage_erase_contents [OF fifo.replacement_axioms s(1) demo_name_canon, of 0] unfolding e(1) by (auto simp: e(2) s(3))
  then show ?thesis using s(2) by blast
qed

theorem Storage_tick_marks_witness:
  "\<exists>s t. contents demo_sha s = {key\<^sub>1, key\<^sub>2} \<and> Storage_tick 5 6 s = Some (Inr t) \<and> contents demo_sha t = {key\<^sub>1, key\<^sub>2}
    \<and> managed sequence_of demo_sha t"
proof -
  obtain s where s: "managed sequence_of demo_sha s" "contents demo_sha s = {key\<^sub>1, key\<^sub>2}" using demo_two by blast
  then show ?thesis using Storage_tick_marks [OF s(1), of 5 6] by auto
qed

theorem Storage_destroy_clean_witness:
  "\<exists>s t. contents demo_sha s = {key\<^sub>1, key\<^sub>2} \<and> Storage_destroy 0 s = Inr t \<and> m_freeEntries (t :: nat list storage) = []"
proof -
  obtain s where s: "managed sequence_of demo_sha s" "contents demo_sha s = {key\<^sub>1, key\<^sub>2}" using demo_two by blast
  then have "storage_ok demo_sha s" by (simp add: managed_def)
  from Storage_destroy_clean [OF this, of 0] s(2) show ?thesis by blast
qed

theorem Storage_starves_witness:
  "\<exists>d t. foldO (\<lambda>s n. Storage_erase Fifo_policy demo_sha 0 n True s) (Storage_init None (2 ^ 64 - 1) [])
      [demo_name, demo_name, demo_name, demo_name] = Some (Inr t)
    \<and> Storage_insert Fifo_policy demo_sha 0 d 0 t = Some (Inl AssertionFailed)"
proof -
  obtain d where d: "stored demo_sha d" using demo_packets(1) by blast
  have "sequence_of [] {}" "idle None" "list_all name_canon [demo_name, demo_name, demo_name, demo_name]"
    using demo_name_canon by (simp_all add: sequence_of_def idle_def)
  from Storage_starves [OF fifo.replacement_axioms this d, where now = 0 and w = 0] show ?thesis by blast
qed

theorem Storage_insert_deadline_witness:
  "\<exists>d t p. Storage_insert Fifo_policy demo_sha 7 d 3 (Storage_init (Some Scheduler_new) 20 []) = Some (Inr t)
    \<and> m_isFresh (entries t p) \<and> \<not> due t p (3 * 10 ^ 6) \<and> due t p (7 + 3 * 10 ^ 6)"
proof -
  obtain d where d: "stored demo_sha d" using demo_packets(1) by blast
  have "idle (Some Scheduler_new)" by (simp add: idle_def Scheduler_new_def scheduler_ok_def queue_ok_def)
  then have "managed sequence_of demo_sha (Storage_init (Some Scheduler_new) 20 [])"
    using Storage_init_ok [of 20 "Some Scheduler_new" demo_sha "[]"] by (simp add: managed_def Storage_init_sel sequence_of_def)
  from Storage_insert_deadline [OF fifo.evicting_axioms this d, of 7 3]
  obtain t p where t: "Storage_insert Fifo_policy demo_sha 7 d 3 (Storage_init (Some Scheduler_new) 20 []) = Some (Inr t)"
      "m_isFresh (entries t p)" "\<forall>x. due t p x \<longleftrightarrow> 3000007 \<le> x" by (auto simp: Storage_init_sel)
  show ?thesis by (rule exI [of _ d], rule exI [of _ t], rule exI [of _ p]) (use t in simp)
qed


section \<open>The rightmost child\<close>

text \<open>An Interest for the first component of the name: both packets are in its only child.\<close>

definition demo_rightmost :: interest where
  "demo_rightmost = (Interest_of_name (set_subBlocks Name_new [Block_value tlv_NameComponent [97]]))
     \<lparr>i_selectors := setChildSelector Selectors_new 1\<rparr>"

lemma demo_rightmost_keys: "name_keys demo_name = name_keys (i_name demo_rightmost) @ [comp_key (Block_value tlv_NameComponent [98])]"
  "length (name_keys (i_name demo_rightmost)) = 1" "name_canon (i_name demo_rightmost)"
  using demo_name_canon by (simp_all add: demo_rightmost_def Interest_of_name_def demo_name_def name_keys_def name_canon_def few_def)

lemma demo_rightmost_ok: "interest_ok demo_rightmost"
  using name_canon_ok [OF demo_rightmost_keys(3)]
  by (simp add: interest_ok_def demo_rightmost_def sel_ok_def Selectors_new_def setChildSelector_def int_ok_def kl_ok_def
      exclude_ok_def Exclude_new_def neg_inf_any_def map_ok_def)


lemma demo_two_entries:
  assumes "storage_ok demo_sha s" and "contents demo_sha s = {key\<^sub>1, key\<^sub>2}"
  shows "\<exists>p q. m_cache s = [p, q] \<and> entry_key demo_sha s p = key\<^sub>1 \<and> entry_key demo_sha s q = key\<^sub>2"
proof -
  have "sorted_wrt (<) [key\<^sub>1, key\<^sub>2]" using demo_keys_less by simp
  then have "keys demo_sha s = [key\<^sub>1, key\<^sub>2]"
    using strict_mono_sorted [OF storage_okD(5) [OF assms(1)]] strict_mono_sorted [of "[key\<^sub>1, key\<^sub>2]"] assms(2)
    by (intro sorted_distinct_set_unique) (simp_all add: contents_def)
  then show ?thesis by (auto simp: keys_entry map_eq_Cons_conv)
qed

lemma demo_rightmost_matches:
  assumes "storage_ok demo_sha s" and "p \<in> set (m_cache s)" and "entry_key demo_sha s p \<in> {key\<^sub>1, key\<^sub>2}"
  shows "matchesData demo_sha demo_rightmost (packet s p) = Inr True"
proof -
  obtain w where w: "packet_ok demo_sha (packet s p) w"
    using storage_okD(1) [OF assms(1)] assms(2) by (fastforce simp: cache_ok_def stored_def packet_def)
  then have k: "entry_key demo_sha s p = name_keys (d_name (packet s p)) @ [digest_key (demo_sha w)]"
    by (simp add: entry_key_def full_key_def packet_ok_def)
  have "excluded_set (sel_exclude (i_selectors demo_rightmost)) = {}"
    by (simp add: demo_rightmost_def setChildSelector_def Selectors_new_def excluded_set_def Exclude_new_def)
  moreover have "minSuffixComponents (i_selectors demo_rightmost) < 0" "maxSuffixComponents (i_selectors demo_rightmost) < 0"
    by (simp_all add: demo_rightmost_def setChildSelector_def Selectors_new_def)
  ultimately have "name_matches demo_rightmost (entry_key demo_sha s p)"
    using assms(3) demo_rightmost_keys(1) by (auto simp: name_matches_def Let_def key\<^sub>1_def key\<^sub>2_def)
  moreover have "matches_locator demo_rightmost (packet s p) = Inr True"
    by (simp add: matches_locator_def demo_rightmost_def setChildSelector_def Selectors_new_def KeyLocator_new_def KeyLocator_empty_def)
  ultimately show ?thesis using matchesData_run [OF demo_rightmost_ok w] k by simp
qed

text \<open>Of the two packets in the only child the second is returned, although the first matches.\<close>

theorem Storage_find_selects_witness:
  "\<exists>s p q c. managed sequence_of demo_sha s \<and> m_cache s = [p, q] \<and> entry_key demo_sha s p < entry_key demo_sha s q
    \<and> matched demo_sha demo_rightmost s p \<and> child demo_sha demo_rightmost s p = child demo_sha demo_rightmost s q
    \<and> Storage_find Fifo_policy demo_sha demo_rightmost s = Inr (Some (packet s q), s\<lparr>m_cleanupIndex := c\<rparr>)"
proof -
  obtain s where s: "managed sequence_of demo_sha s" "contents demo_sha s = {key\<^sub>1, key\<^sub>2}" using demo_two by blast
  then have ok: "storage_ok demo_sha s" by (simp add: managed_def)
  obtain p q where c: "m_cache s = [p, q]" "entry_key demo_sha s p = key\<^sub>1" "entry_key demo_sha s q = key\<^sub>2"
    using demo_two_entries [OF ok s(2)] by blast
  have m: "matchesData demo_sha demo_rightmost (packet s x) = Inr True" if "x \<in> {p, q}" for x
    using demo_rightmost_matches [OF ok] that c by auto
  then have cmp: "comparable demo_sha demo_rightmost s"
    using demo_rightmost_ok demo_rightmost_keys(3) c(1) by (auto simp: comparable_def)
  have f: "fresh_enough demo_rightmost s x" for x
    by (simp add: fresh_enough_def demo_rightmost_def setChildSelector_def Selectors_new_def)
  then have as: "answers demo_sha demo_rightmost s = [p, q]" using m c(1) by (simp add: answers_def matched_def)
  have ks: "keys demo_sha s = [key\<^sub>1, key\<^sub>2]" using c by (simp add: keys_entry)
  have n: "name_keys (i_name demo_rightmost) < key\<^sub>1"
    using prefix_le [of "name_keys (i_name demo_rightmost)" key\<^sub>1] demo_rightmost_keys(1) by (simp add: key\<^sub>1_def less_le)
  then have "place (name_keys (i_name demo_rightmost)) (keys demo_sha s) = 0" by (simp add: place_def ks)
  then have cand: "candidates demo_sha demo_rightmost s = [p, q]" using f c(1) by (simp add: candidates_def)
  have ch: "child demo_sha demo_rightmost s p = child demo_sha demo_rightmost s q"
    using c(2,3) demo_rightmost_keys(1,2) by (simp add: child_def key\<^sub>1_def key\<^sub>2_def)
  have "name_keys (i_name demo_rightmost) \<notin> contents demo_sha s" using n demo_keys_less s(2) by auto
  from Storage_find_selects [OF fifo.replacement_axioms s(1) cmp this]
  have "\<exists>c. Storage_find Fifo_policy demo_sha demo_rightmost s = Inr (Some (packet s q), s\<lparr>m_cleanupIndex := c\<rparr>)"
    using as cand ch by (auto simp: Let_def demo_rightmost_def setChildSelector_def)
  moreover have "entry_key demo_sha s p < entry_key demo_sha s q" "matched demo_sha demo_rightmost s p"
    using c(2,3) demo_keys_less m by (simp_all add: matched_def)
  ultimately show ?thesis using s(1) c(1) ch by blast
qed

theorem Storage_find_full_name_witness:
  "\<exists>s p i. managed sequence_of demo_sha s \<and> mustBeFresh (i_selectors i) \<and> p \<in> set (m_cache s)
    \<and> Storage_find Lru_policy demo_sha i s = Inr (Some (packet s p), s)"
proof -
  obtain s where s: "managed sequence_of demo_sha s" "contents demo_sha s = {key\<^sub>1, key\<^sub>2}" using demo_two by blast
  obtain d where d: "stored demo_sha d" "full_key demo_sha d = key\<^sub>1" using demo_packets(1) by blast
  then obtain n where n: "name_canon n" "name_keys n = key\<^sub>1" using stored_full_name by metis
  let ?i = "(Interest_of_name n)\<lparr>i_selectors := Selectors_new\<lparr>mustBeFresh := True\<rparr>\<rparr>"
  have i: "i_name ?i = n" "mustBeFresh (i_selectors ?i)" by (simp_all add: Interest_of_name_def)
  have "name_canon (i_name ?i)" "name_keys (i_name ?i) \<in> contents demo_sha s" using n s(2) i(1) by simp_all
  from Storage_find_full_name [OF lru.replacement_axioms s(1) this] show ?thesis using s(1) i(2) by blast
qed

end
