(* ===== verification/LpPacket.thy ===== *)
theory LpPacket
  imports InterestWire
begin

text \<open>
  The link protocol packets of NDNLPv2 (lp/packet.cpp, lp/packet.hpp, lp/nack-header.cpp, lp/cache-policy.cpp,
  lp/detail/field-info.cpp, lp/detail/field-decl.hpp): a list of fields in the order of the protocol around
  the fragment of a network packet. A packet is its block; the fields are the sub-elements of the block. The
  functions that parse the block first return it too.
\<close>

section \<open>The Nack header\<close>

definition lp_LpPacket :: "32 word" where "lp_LpPacket = 100"
definition lp_Fragment :: "32 word" where "lp_Fragment = 80"
definition lp_Sequence :: "32 word" where "lp_Sequence = 81"
definition lp_FragIndex :: "32 word" where "lp_FragIndex = 82"
definition lp_FragCount :: "32 word" where "lp_FragCount = 83"
definition lp_Nack :: "32 word" where "lp_Nack = 800"
definition lp_NackReason :: "32 word" where "lp_NackReason = 801"
definition lp_NextHopFaceId :: "32 word" where "lp_NextHopFaceId = 816"
definition lp_CachePolicy :: "32 word" where "lp_CachePolicy = 820"
definition lp_CachePolicyType :: "32 word" where "lp_CachePolicyType = 821"
definition lp_IncomingFaceId :: "32 word" where "lp_IncomingFaceId = 817"
definition lp_CongestionMark :: "32 word" where "lp_CongestionMark = 832"
definition lp_Ack :: "32 word" where "lp_Ack = 836"

lemmas lp_types = lp_LpPacket_def lp_Fragment_def lp_Sequence_def lp_FragIndex_def lp_FragCount_def lp_Nack_def lp_NackReason_def
  lp_NextHopFaceId_def lp_CachePolicy_def lp_CachePolicyType_def lp_IncomingFaceId_def lp_CongestionMark_def lp_Ack_def

text \<open>Reasons are numbers: the enumeration has an \<open>int\<close> underneath, to which the number of the wire is cast.\<close>

definition NackReason_NONE :: "32 word" where "NackReason_NONE = 0"
definition NackReason_CONGESTION :: "32 word" where "NackReason_CONGESTION = 50"
definition NackReason_DUPLICATE :: "32 word" where "NackReason_DUPLICATE = 100"
definition NackReason_NO_ROUTE :: "32 word" where "NackReason_NO_ROUTE = 150"

definition print_NackReason :: "32 word \<Rightarrow> string" where
  "print_NackReason reason =
     (if reason = NackReason_CONGESTION then ''Congestion''
      else if reason = NackReason_DUPLICATE then ''Duplicate''
      else if reason = NackReason_NO_ROUTE then ''NoRoute''
      else ''None'')"

record nack_header =
  m_reason :: "32 word"
  nack_wire :: block

definition NackHeader_new :: nack_header where
  "NackHeader_new = \<lparr>m_reason = NackReason_NONE, nack_wire = Block_empty\<rparr>"

definition NackHeader_wireEncode :: "'e encoding_impl \<Rightarrow> nack_header \<Rightarrow> 'e \<Rightarrow> (nat \<times> 'e) result" where
  "NackHeader_wireEncode T h = with_header T lp_Nack (prependNonNegativeIntegerBlock T lp_NackReason (ucast (m_reason h)))"

definition NackHeader_wire :: "nack_header \<Rightarrow> nack_header result" where
  "NackHeader_wire h =
     (if hasWire (nack_wire h) then Inr h
      else bindE (make_block (NackHeader_wireEncode EstimatorTag h) (NackHeader_wireEncode EncoderTag h)) (\<lambda>b.
        Inr (h\<lparr>nack_wire := b\<rparr>)))"

definition NackHeader_wireDecode :: "block \<Rightarrow> nack_header result" where
  "NackHeader_wireDecode w =
     (if m_type w \<noteq> lp_Nack then Inl (TlvError ''expecting Nack block'')
      else bindE (parsed w) (\<lambda>w. case m_subBlocks w of
          [] \<Rightarrow> Inr \<lparr>m_reason = NackReason_NONE, nack_wire = w\<rparr>
        | it # _ \<Rightarrow>
            if m_type it = lp_NackReason
            then bindE (readNonNegativeInteger_block it) (\<lambda>n. Inr \<lparr>m_reason = ucast n, nack_wire = w\<rparr>)
            else Inl (TlvError ''expecting NackReason block'')))"

definition getReason :: "nack_header \<Rightarrow> 32 word" where
  "getReason h =
     (if m_reason h \<in> {NackReason_CONGESTION, NackReason_DUPLICATE, NackReason_NO_ROUTE} then m_reason h else NackReason_NONE)"

definition setReason :: "nack_header \<Rightarrow> 32 word \<Rightarrow> nack_header" where
  "setReason h reason = h\<lparr>m_reason := reason, nack_wire := block_reset (nack_wire h)\<rparr>"


section \<open>The cache policy\<close>

definition CachePolicyType_NONE :: "32 word" where "CachePolicyType_NONE = 0"
definition CachePolicyType_NO_CACHE :: "32 word" where "CachePolicyType_NO_CACHE = 1"

definition print_CachePolicyType :: "32 word \<Rightarrow> string" where
  "print_CachePolicyType policy = (if policy = CachePolicyType_NO_CACHE then ''NoCache'' else ''None'')"

record cache_policy =
  m_policy :: "32 word"
  policy_wire :: block

definition CachePolicy_new :: cache_policy where
  "CachePolicy_new = \<lparr>m_policy = CachePolicyType_NONE, policy_wire = Block_empty\<rparr>"

definition CachePolicy_wireEncode :: "'e encoding_impl \<Rightarrow> cache_policy \<Rightarrow> 'e \<Rightarrow> (nat \<times> 'e) result" where
  "CachePolicy_wireEncode T c =
     (if m_policy c = CachePolicyType_NONE then \<lambda>e. Inl (TlvError ''CachePolicyType must be set'')
      else with_header T lp_CachePolicy (prependNonNegativeIntegerBlock T lp_CachePolicyType (ucast (m_policy c))))"

definition CachePolicy_wire :: "cache_policy \<Rightarrow> cache_policy result" where
  "CachePolicy_wire c =
     (if m_policy c = CachePolicyType_NONE then Inl (TlvError ''CachePolicyType must be set'')
      else if hasWire (policy_wire c) then Inr c
      else bindE (make_block (CachePolicy_wireEncode EstimatorTag c) (CachePolicy_wireEncode EncoderTag c)) (\<lambda>b.
        Inr (c\<lparr>policy_wire := b\<rparr>)))"

definition getPolicy :: "cache_policy \<Rightarrow> 32 word" where
  "getPolicy c = (if m_policy c = CachePolicyType_NO_CACHE then m_policy c else CachePolicyType_NONE)"

definition CachePolicy_wireDecode :: "block \<Rightarrow> cache_policy result" where
  "CachePolicy_wireDecode w =
     (if m_type w \<noteq> lp_CachePolicy then Inl (TlvError ''expecting CachePolicy block'')
      else bindE (parsed w) (\<lambda>w. case m_subBlocks w of
          [] \<Rightarrow> Inl (TlvError ''expecting CachePolicyType block'')
        | it # _ \<Rightarrow>
            if m_type it = lp_CachePolicyType
            then bindE (readNonNegativeInteger_block it) (\<lambda>n.
              let c = \<lparr>m_policy = ucast n, policy_wire = w\<rparr>
              in if getPolicy c = CachePolicyType_NONE then Inl (TlvError ''unknown CachePolicyType'') else Inr c)
            else Inl (TlvError ''expecting CachePolicyType block'')))"

definition setPolicy :: "cache_policy \<Rightarrow> 32 word \<Rightarrow> cache_policy" where
  "setPolicy c policy = c\<lparr>m_policy := policy, policy_wire := block_reset (policy_wire c)\<rparr>"


section \<open>Fields\<close>

datatype field =
    FragmentField | SequenceField | FragIndexField | FragCountField | NackField | NextHopFaceIdField | CachePolicyField
  | IncomingFaceIdField | CongestionMarkField | AckField

definition FieldSet :: "field list" where
  "FieldSet = [FragmentField, SequenceField, FragIndexField, FragCountField, NackField, NextHopFaceIdField, CachePolicyField,
     IncomingFaceIdField, CongestionMarkField, AckField]"

fun TlvType :: "field \<Rightarrow> 32 word" where
  "TlvType FragmentField = lp_Fragment"
| "TlvType SequenceField = lp_Sequence"
| "TlvType FragIndexField = lp_FragIndex"
| "TlvType FragCountField = lp_FragCount"
| "TlvType NackField = lp_Nack"
| "TlvType NextHopFaceIdField = lp_NextHopFaceId"
| "TlvType CachePolicyField = lp_CachePolicy"
| "TlvType IncomingFaceIdField = lp_IncomingFaceId"
| "TlvType CongestionMarkField = lp_CongestionMark"
| "TlvType AckField = lp_Ack"

definition IsRepeatable :: "field \<Rightarrow> bool" where
  "IsRepeatable f \<longleftrightarrow> f = AckField"

definition getLocationSortOrder :: "field \<Rightarrow> int" where
  "getLocationSortOrder f = (if f = FragmentField then 2 else 1)"

record field_info =
  tlvType :: "32 word"
  isRecognized :: bool
  canIgnore :: bool
  isRepeatable :: bool
  locationSortOrder :: int

definition FieldInfo_new :: field_info where
  "FieldInfo_new = \<lparr>tlvType = 0, isRecognized = False, canIgnore = False, isRepeatable = False, locationSortOrder = 1\<rparr>"

definition ExtractFieldInfo :: "field_info \<Rightarrow> field \<Rightarrow> field_info" where
  "ExtractFieldInfo info f =
     (if TlvType f \<noteq> tlvType info then info
      else info\<lparr>isRecognized := True, canIgnore := False, isRepeatable := IsRepeatable f,
        locationSortOrder := getLocationSortOrder f\<rparr>)"

definition FieldInfo_of :: "32 word \<Rightarrow> field_info" where
  "FieldInfo_of t =
     (let info = foldl ExtractFieldInfo (FieldInfo_new\<lparr>tlvType := t\<rparr>) FieldSet in
      if isRecognized info then info
      else info\<lparr>canIgnore := 800 \<le> t \<and> t \<le> 959 \<and> and t 3 = 0\<rparr>)"

definition compareFieldSortOrder :: "field_info \<Rightarrow> field_info \<Rightarrow> bool" where
  "compareFieldSortOrder first second \<longleftrightarrow> locationSortOrder first < locationSortOrder second
     \<or> (locationSortOrder first = locationSortOrder second \<and> tlvType first < tlvType second)"

text \<open>The value of a field. A range is the bytes between its two iterators.\<close>

datatype field_value =
    Number "64 word"
  | Range bytes
  | NackValue nack_header
  | CacheValue cache_policy

definition Field_decode :: "field \<Rightarrow> block \<Rightarrow> field_value result" where
  "Field_decode f w =
     (if m_type w \<noteq> TlvType f then Inl (TlvError (''Unexpected TLV type '' @ dec (unat (m_type w))))
      else case f of
        FragmentField \<Rightarrow>
          if value_size w = 0 then Inl (TlvError (dec (unat (m_type w)) @ '' must not be empty'')) else Inr (Range (block_value w))
      | NackField \<Rightarrow> bindE (NackHeader_wireDecode w) (\<lambda>h. Inr (NackValue h))
      | CachePolicyField \<Rightarrow> bindE (CachePolicy_wireDecode w) (\<lambda>c. Inr (CacheValue c))
      | _ \<Rightarrow> bindE (readNonNegativeInteger_block w) (\<lambda>n. Inr (Number n)))"

definition prependRange :: "'e encoding_impl \<Rightarrow> bytes \<Rightarrow> 'e \<Rightarrow> (nat \<times> 'e) result" where
  "prependRange T bs = prependByteArray T bs"

definition Field_encode :: "'e encoding_impl \<Rightarrow> field \<Rightarrow> field_value \<Rightarrow> 'e \<Rightarrow> (nat \<times> 'e) result" where
  "Field_encode T f v = (case v of
     Number n \<Rightarrow> prependNonNegativeIntegerBlock T (TlvType f) n
   | Range bs \<Rightarrow> with_header T (TlvType f) (prependRange T bs)
   | NackValue h \<Rightarrow> NackHeader_wireEncode T h
   | CacheValue c \<Rightarrow> CachePolicy_wireEncode T c)"


section \<open>Packets\<close>

definition Packet_new :: block where
  "Packet_new = Block_type lp_LpPacket"

definition Packet_count :: "field \<Rightarrow> block \<Rightarrow> (nat \<times> block) result" where
  "Packet_count f p = bindE (parsed p) (\<lambda>p. Inr (length (filter (\<lambda>b. m_type b = TlvType f) (m_subBlocks p)), p))"

definition Packet_has :: "field \<Rightarrow> block \<Rightarrow> (bool \<times> block) result" where
  "Packet_has f p = bindE (Packet_count f p) (\<lambda>(n, p). Inr (n > 0, p))"

definition Packet_get :: "field \<Rightarrow> nat \<Rightarrow> block \<Rightarrow> (field_value \<times> block) result" where
  "Packet_get f index p = bindE (parsed p) (\<lambda>p.
     let found = filter (\<lambda>b. m_type b = TlvType f) (m_subBlocks p) in
     if index < length found then bindE (Field_decode f (found ! index)) (\<lambda>v. Inr (v, p)) else Inl OutOfRange)"

definition Packet_list :: "field \<Rightarrow> block \<Rightarrow> (field_value list \<times> block) result" where
  "Packet_list f p = bindE (parsed p) (\<lambda>p.
     bindE (mapE (Field_decode f) (filter (\<lambda>b. m_type b = TlvType f) (m_subBlocks p))) (\<lambda>vs. Inr (vs, p)))"

definition comparePos :: "block \<Rightarrow> 32 word \<Rightarrow> bool" where
  "comparePos first second = compareFieldSortOrder (FieldInfo_of (m_type first)) (FieldInfo_of second)"

definition Packet_add :: "field \<Rightarrow> field_value \<Rightarrow> block \<Rightarrow> block result" where
  "Packet_add f v p =
     bindE (if \<not> IsRepeatable f then Packet_has f p else Inr (False, p)) (\<lambda>(has, p).
       if has then Inl (LengthError ''Field cannot be repeated'')
       else bindE (make_block (Field_encode EstimatorTag f v) (Field_encode EncoderTag f v)) (\<lambda>block.
         block_insert p (length (takeWhile (\<lambda>b. comparePos b (TlvType f)) (m_subBlocks p))) block))"

definition Packet_clear :: "field \<Rightarrow> block \<Rightarrow> block result" where
  "Packet_clear f p = bindE (parsed p) (\<lambda>p. Inr (block_remove p (TlvType f)))"

definition Packet_set :: "field \<Rightarrow> field_value \<Rightarrow> block \<Rightarrow> block result" where
  "Packet_set f v p = bindE (Packet_clear f p) (Packet_add f v)"

text \<open>The position of the sub-element that is the one asked for among those of a type.\<close>

fun nth_position :: "('b \<Rightarrow> bool) \<Rightarrow> nat \<Rightarrow> 'b list \<Rightarrow> nat option" where
  "nth_position P index [] = None"
| "nth_position P index (b # bs) =
     (if P b then (case index of 0 \<Rightarrow> Some 0 | Suc k \<Rightarrow> map_option Suc (nth_position P k bs))
      else map_option Suc (nth_position P index bs))"

definition Packet_remove :: "field \<Rightarrow> nat \<Rightarrow> block \<Rightarrow> block result" where
  "Packet_remove f index p = bindE (parsed p) (\<lambda>p.
     case nth_position (\<lambda>b. m_type b = TlvType f) index (m_subBlocks p) of
       None \<Rightarrow> Inl OutOfRange
     | Some i \<Rightarrow> block_erase p i (Suc i))"

text \<open>A packet that has a wire writes nothing, and says that it has written it.\<close>

definition Packet_wireEncode :: "'e encoding_impl \<Rightarrow> block \<Rightarrow> 'e \<Rightarrow> (nat \<times> 'e) result" where
  "Packet_wireEncode T p =
     (if hasWire p then \<lambda>e. bindE (block_size p) (\<lambda>n. Inr (n, e))
      else with_header T lp_LpPacket (foldr (\<lambda>b f. addE f (prependBlock T b)) (m_subBlocks p) skipE))"

text \<open>What is sent, and the packet with its wire. Without headers it is the bare network packet.\<close>

definition Packet_wire :: "block \<Rightarrow> (block \<times> block) result" where
  "Packet_wire p =
     (if hasWire p then Inr (p, p)
      else case m_subBlocks p of
        [front] \<Rightarrow>
          if m_type front = TlvType FragmentField then
            bindE (parsed front) (\<lambda>front. case m_subBlocks front of
              [] \<Rightarrow> Inl (UndefinedBehaviour ''front of an empty vector'')
            | packet # _ \<Rightarrow> bindE (parsed packet) (\<lambda>packet. Inr (packet, p)))
          else bindE (make_block (Packet_wireEncode EstimatorTag p) (Packet_wireEncode EncoderTag p)) (\<lambda>b. Inr (b, b))
      | _ \<Rightarrow> bindE (make_block (Packet_wireEncode EstimatorTag p) (Packet_wireEncode EncoderTag p)) (\<lambda>b. Inr (b, b)))"

fun check_fields :: "field_info option \<Rightarrow> block list \<Rightarrow> unit result" where
  "check_fields prev [] = Inr ()"
| "check_fields prev (b # bs) =
     (let info = FieldInfo_of (m_type b) in
      if \<not> isRecognized info \<and> \<not> canIgnore info then
        Inl (LpError (''unrecognized field '' @ dec (unat (m_type b)) @ '' cannot be ignored''))
      else case prev of
        None \<Rightarrow> check_fields (Some info) bs
      | Some p \<Rightarrow>
          if tlvType info = tlvType p \<and> \<not> isRepeatable info then
            Inl (LpError (''non-repeatable field '' @ dec (unat (m_type b)) @ '' cannot be repeated''))
          else if tlvType info \<noteq> tlvType p \<and> \<not> compareFieldSortOrder p info then
            Inl (LpError ''fields are not in correct sort order'')
          else check_fields (Some info) bs)"

definition Packet_wireDecode :: "block \<Rightarrow> block result" where
  "Packet_wireDecode w =
     (if m_type w = tlv_Interest \<or> m_type w = tlv_Data then
        bindE (wire w) (\<lambda>bs. Packet_add FragmentField (Range bs) Packet_new)
      else if m_type w \<noteq> lp_LpPacket then Inl (LpError (''unrecognized TLV-TYPE '' @ dec (unat (m_type w))))
      else bindE (parsed w) (\<lambda>w. bindE (check_fields None (m_subBlocks w)) (\<lambda>_. Inr w)))"


section \<open>The order of fields\<close>

text \<open>The sort order of the protocol: headers by their types, then the fragment.\<close>

definition rank :: "32 word \<Rightarrow> int \<times> nat" where
  "rank t = (if t = lp_Fragment then 2 else 1, unat t)"

definition known :: "32 word \<Rightarrow> bool" where
  "known t \<longleftrightarrow> t \<in> TlvType ` set FieldSet \<or> (800 \<le> t \<and> t \<le> 959 \<and> and t 3 = 0)"

text \<open>A field may come behind another if it is later in this order; only Ack may be repeated.\<close>

definition behind :: "32 word \<Rightarrow> 32 word \<Rightarrow> bool" where
  "behind a b \<longleftrightarrow> rank a < rank b \<or> (a = b \<and> a = lp_Ack)"

definition permissible :: "32 word list \<Rightarrow> bool" where
  "permissible ts \<longleftrightarrow> list_all known ts \<and> sorted_wrt behind ts"

lemma TlvType_inj: "TlvType f = TlvType g \<longleftrightarrow> f = g"
  by (cases f; cases g) (simp_all add: lp_types)

lemma FieldSet_all: "f \<in> set FieldSet"
  by (cases f) (simp_all add: FieldSet_def)

lemma extract_sel: "tlvType (ExtractFieldInfo i f) = tlvType i"
  by (simp add: ExtractFieldInfo_def)

lemma foldl_extract:
  "foldl ExtractFieldInfo i fs = (case List.find (\<lambda>f. TlvType f = tlvType i) fs of
     None \<Rightarrow> i
   | Some f \<Rightarrow> i\<lparr>isRecognized := True, canIgnore := False, isRepeatable := IsRepeatable f, locationSortOrder := getLocationSortOrder f\<rparr>)"
proof (induction fs arbitrary: i)
  case (Cons f fs)
  show ?case
  proof (cases "TlvType f = tlvType i")
    case True
    have "g = f" if "List.find (\<lambda>f. TlvType f = tlvType i) fs = Some g" for g
      using that True TlvType_inj [of g f] by (auto simp: find_Some_iff)
    then show ?thesis using True Cons by (auto simp: ExtractFieldInfo_def split: option.split)
  next
    case False
    then show ?thesis using Cons by (simp add: ExtractFieldInfo_def)
  qed
qed simp

lemma FieldInfo_of_all:
  "tlvType (FieldInfo_of t) = t \<and> (isRepeatable (FieldInfo_of t) \<longleftrightarrow> t = lp_Ack) \<and>
    locationSortOrder (FieldInfo_of t) = fst (rank t) \<and> (isRecognized (FieldInfo_of t) \<or> canIgnore (FieldInfo_of t) \<longleftrightarrow> known t)"
proof (cases "\<exists>f. TlvType f = t")
  case True
  then obtain g where g: "TlvType g = t" by blast
  have "List.find (\<lambda>f. TlvType f = t) FieldSet \<noteq> None" using g FieldSet_all [of g] by (auto simp: find_None_iff)
  then obtain h where h: "List.find (\<lambda>f. TlvType f = t) FieldSet = Some h" by auto
  then have "h = g" using g TlvType_inj [of h g] by (auto simp: find_Some_iff)
  moreover have "t = lp_Ack \<longleftrightarrow> g = AckField" "t = lp_Fragment \<longleftrightarrow> g = FragmentField"
    using g TlvType_inj [of g AckField] TlvType_inj [of g FragmentField] by simp_all
  ultimately show ?thesis using h g FieldSet_all [of g]
    by (auto simp: FieldInfo_of_def foldl_extract FieldInfo_new_def IsRepeatable_def getLocationSortOrder_def rank_def known_def)
next
  case False
  then have "List.find (\<lambda>f. TlvType f = t) FieldSet = None" "t \<noteq> lp_Ack" "t \<noteq> lp_Fragment"
    by (auto simp: find_None_iff dest: spec [of _ AckField] spec [of _ FragmentField])
  then show ?thesis using False by (auto simp: FieldInfo_of_def foldl_extract FieldInfo_new_def rank_def known_def)
qed

lemma FieldInfo_of_sel:
  "tlvType (FieldInfo_of t) = t" "isRepeatable (FieldInfo_of t) \<longleftrightarrow> t = lp_Ack"
  "locationSortOrder (FieldInfo_of t) = fst (rank t)"
  "isRecognized (FieldInfo_of t) \<or> canIgnore (FieldInfo_of t) \<longleftrightarrow> known t"
  using FieldInfo_of_all [of t] by blast+

lemma compare_rank: "compareFieldSortOrder (FieldInfo_of a) (FieldInfo_of b) \<longleftrightarrow> rank a < rank b"
  by (auto simp: compareFieldSortOrder_def FieldInfo_of_sel rank_def word_less_nat_alt less_prod_def')

lemma transp_behind: "transp behind"
  by (auto simp: behind_def transp_def)

lemma rank_inj: "rank a = rank b \<longleftrightarrow> a = b"
  by (auto simp: rank_def word_unat_eq_iff)

lemma check_fields_iff:
  "check_fields (map_option FieldInfo_of prev) bs = Inr () \<longleftrightarrow>
    list_all known (map m_type bs) \<and> sorted_wrt behind ((case prev of None \<Rightarrow> [] | Some t \<Rightarrow> [t]) @ map m_type bs)"
proof (induction bs arbitrary: prev)
  case Nil
  show ?case by (simp split: option.split)
next
  case (Cons b bs)
  let ?t = "m_type b"
  have k: "(\<not> isRecognized (FieldInfo_of ?t) \<and> \<not> canIgnore (FieldInfo_of ?t)) \<longleftrightarrow> \<not> known ?t" using FieldInfo_of_sel(4) [of ?t] by blast
  show ?case
  proof (cases prev)
    case None
    then show ?thesis using Cons [of "Some ?t"] k by (auto simp: Let_def)
  next
    case (Some p)
    have "behind p ?t \<longleftrightarrow> \<not> (?t = p \<and> ?t \<noteq> lp_Ack) \<and> \<not> (?t \<noteq> p \<and> \<not> rank p < rank ?t)"
      by (auto simp: behind_def)
    then show ?thesis using Cons [of "Some ?t"] k Some sorted_wrt2 [OF transp_behind, of p ?t "map m_type bs"]
      by (auto simp: Let_def FieldInfo_of_sel compare_rank simp del: sorted_wrt.simps(2))
  qed
qed


section \<open>Packets as lists of fields\<close>

definition fields :: "block \<Rightarrow> elem list \<Rightarrow> bool" where
  "fields p es \<longleftrightarrow> m_type p = lp_LpPacket \<and> list_all2 holds (m_subBlocks p) es \<and> (es = [] \<longrightarrow> value_size p = 0)"

lemma fields_types: "list_all2 holds bs es \<Longrightarrow> map m_type bs = map fst es"
proof (induction rule: list_all2_induct)
  case (Cons b bs e es)
  then show ?case using holds_sel [of b "fst e" "snd e"] by simp
qed simp

lemma fields_parsed: "fields p es \<Longrightarrow> parsed p = Inr p"
  by (cases es) (auto simp: fields_def parsed_def parse_def)

lemma fields_new: "fields Packet_new []"
  by (simp add: fields_def Packet_new_def Block_type_def value_size_def hasValue_def)

text \<open>The value of a field as an element, and the values that belong to a field.\<close>

definition field_elem :: "field \<Rightarrow> field_value \<Rightarrow> elem" where
  "field_elem f v = (TlvType f, case v of
     Number n \<Rightarrow> nni n
   | Range bs \<Rightarrow> bs
   | NackValue h \<Rightarrow> elems_bytes [(lp_NackReason, nni (ucast (m_reason h)))]
   | CacheValue c \<Rightarrow> elems_bytes [(lp_CachePolicyType, nni (ucast (m_policy c)))])"

fun suits :: "field \<Rightarrow> field_value \<Rightarrow> bool" where
  "suits f (Number n) \<longleftrightarrow> f \<notin> {FragmentField, NackField, CachePolicyField}"
| "suits f (Range bs) \<longleftrightarrow> f = FragmentField \<and> bs \<noteq> [] \<and> length bs < 2 ^ 31"
| "suits f (NackValue h) \<longleftrightarrow> f = NackField"
| "suits f (CacheValue c) \<longleftrightarrow> f = CachePolicyField \<and> m_policy c = CachePolicyType_NO_CACHE"

context prepender
begin

lemma writes_range: "writes R (with_header T t (prependRange T bs)) [(t, bs)]"
  using prepend_header [OF prepend_array] by (simp add: writes_def prependRange_def)

lemma writes_field: "suits f v \<Longrightarrow> writes R (Field_encode T f v) [field_elem f v]"
  using writes_nni writes_range writes_header [OF writes_nni]
  by (cases v) (auto simp: Field_encode_def field_elem_def NackHeader_wireEncode_def CachePolicy_wireEncode_def
    CachePolicyType_NONE_def CachePolicyType_NO_CACHE_def)

end

lemma field_elem_length: "suits f v \<Longrightarrow> length (snd (field_elem f v)) < 2 ^ 32"
proof -
  have a: "length (tlv t (nni n)) < 2 ^ 32" for t n using tlv_length_le [of t "nni n"] nni_length_le [of n] by simp
  have b: "length (nni n) < 2 ^ 32" for n using nni_length_le [of n] by simp
  show "suits f v \<Longrightarrow> length (snd (field_elem f v)) < 2 ^ 32" using a b by (cases v) (simp_all add: field_elem_def)
qed

lemma made_field:
  assumes "suits f v"
  shows "\<exists>b. make_block (Field_encode EstimatorTag f v) (Field_encode EncoderTag f v) = Inr b \<and> holds b (field_elem f v)"
proof -
  note made_writes [of _ "fst (field_elem f v)" "snd (field_elem f v)", unfolded prod.collapse,
    OF est.writes_field [OF assms] enc_exact.writes_field [OF assms]]
  then show ?thesis using field_elem_length [OF assms] by auto
qed

text \<open>Where a field is inserted.\<close>

definition before :: "field \<Rightarrow> elem \<Rightarrow> bool" where
  "before f e \<longleftrightarrow> rank (fst e) < rank (TlvType f)"

lemma fields_insert:
  assumes "fields p es" and "holds b e"
  shows "\<exists>q. block_insert p (length (takeWhile (\<lambda>b. comparePos b (TlvType f)) (m_subBlocks p))) b = Inr q \<and> \<not> hasWire q
    \<and> fields q (takeWhile (before f) es @ e # dropWhile (before f) es)"
proof -
  have a: "list_all2 holds (m_subBlocks p) es" using assms(1) by (simp add: fields_def)
  have k: "comparePos c (TlvType f) \<longleftrightarrow> before f d" if "holds c d" for c d
    using holds_sel [of c "fst d" "snd d"] that by (simp add: comparePos_def compare_rank before_def)
  have "list_all2 holds (takeWhile (\<lambda>b. comparePos b (TlvType f)) (m_subBlocks p)) (takeWhile (before f) es)
      \<and> list_all2 holds (dropWhile (\<lambda>b. comparePos b (TlvType f)) (m_subBlocks p)) (dropWhile (before f) es)"
    using a by (induction rule: list_all2_induct) (simp_all add: k)
  moreover have "length (takeWhile (\<lambda>b. comparePos b (TlvType f)) (m_subBlocks p)) \<le> length (m_subBlocks p)" by (rule length_takeWhile_le)
  ultimately show ?thesis using assms
    by (auto simp: block_insert_def fields_def resetWire_def hasWire_def list_all2_appendI takeWhile_eq_take [symmetric]
      dropWhile_eq_drop [symmetric])
qed

lemma sorted_insert:
  assumes "sorted_wrt behind (map fst es)" and "f = AckField \<or> TlvType f \<notin> fst ` set es"
  shows "sorted_wrt behind (map fst (takeWhile (before f) es) @ TlvType f # map fst (dropWhile (before f) es))"
  using assms
proof (induction es)
  case (Cons e es)
  have b: "behind (fst e) x" if "x \<in> fst ` set es" for x using Cons.prems(1) that by auto
  show ?case
  proof (cases "before f e")
    case True
    have "set (map fst (takeWhile (before f) es) @ TlvType f # map fst (dropWhile (before f) es)) \<subseteq> insert (TlvType f) (fst ` set es)"
      using set_takeWhileD [of _ "before f" es] set_dropWhileD [of _ "before f" es] by auto
    moreover have "behind (fst e) x" if "x \<in> insert (TlvType f) (fst ` set es)" for x
      using b that True by (cases "x = TlvType f") (simp_all add: behind_def before_def)
    ultimately have "\<forall>x \<in> set (map fst (takeWhile (before f) es) @ TlvType f # map fst (dropWhile (before f) es)). behind (fst e) x"
      by blast
    then show ?thesis using Cons True by auto
  next
    case False
    then have "behind (TlvType f) (fst e)"
      using Cons.prems(2) rank_inj [of "fst e" "TlvType f"] by (auto simp: before_def behind_def not_less order.order_iff_strict)
    then have "\<forall>x \<in> fst ` set (e # es). behind (TlvType f) x" using b transp_behind by (auto elim: transpE)
    then show ?thesis using Cons.prems(1) False by auto
  qed
qed simp

lemma filter_types: "list_all2 holds bs es \<Longrightarrow> list_all2 holds (filter (\<lambda>b. m_type b = t) bs) (filter (\<lambda>e. fst e = t) es)"
proof (induction rule: list_all2_induct)
  case (Cons b bs e es)
  then show ?case using holds_sel [of b "fst e" "snd e"] by simp
qed simp

lemma count_fields: "fields p es \<Longrightarrow> Packet_count f p = Inr (length (filter (\<lambda>e. fst e = TlvType f) es), p)"
  using filter_types [of "m_subBlocks p" es "TlvType f"] fields_parsed [of p es] by (simp add: Packet_count_def fields_def list_all2_lengthD)

text \<open>A value read back: of a header only the number counts, not the block it came in.\<close>

fun same_value :: "field_value \<Rightarrow> field_value \<Rightarrow> bool" where
  "same_value (NackValue h) (NackValue k) \<longleftrightarrow> m_reason h = m_reason k"
| "same_value (CacheValue c) (CacheValue d) \<longleftrightarrow> m_policy c = m_policy d"
| "same_value u v \<longleftrightarrow> u = v"

lemma decode_field:
  assumes "suits f v" and "holds b (field_elem f v)"
  shows "\<exists>u. Field_decode f b = Inr u \<and> same_value u v"
proof -
  have t: "m_type b = TlvType f" "block_value b = snd (field_elem f v)" "value_size b = length (snd (field_elem f v))"
    using holds_sel [of b "TlvType f" "snd (field_elem f v)"] assms(2) by (simp_all add: field_elem_def)
  have h: "\<exists>c d. parsed b = Inr c \<and> m_subBlocks c = [d] \<and> holds d e" if "snd (field_elem f v) = elems_bytes [e]" for e
  proof -
    have "holds b (TlvType f, elems_bytes [e])" using assms(2) that by (simp add: field_elem_def)
    then obtain bs where "parsed b = Inr (set_subBlocks b bs)" "list_all2 holds bs [e]" using holds_parsed by blast
    then show ?thesis by (auto simp: list_all2_Cons2 set_subBlocks_def)
  qed
  show ?thesis
  proof (cases v)
    case (Number n)
    then have "readNonNegativeInteger_block b = Inr n" using assms(2) holds_nni by (simp add: field_elem_def)
    then show ?thesis using t Number assms(1) by (cases f) (simp_all add: Field_decode_def)
  next
    case (Range bs)
    then show ?thesis using t assms(1) by (simp add: Field_decode_def field_elem_def)
  next
    case (NackValue k)
    then obtain c d where "parsed b = Inr c" "m_subBlocks c = [d]" "holds d (lp_NackReason, nni (ucast (m_reason k)))"
      using h [of "(lp_NackReason, nni (ucast (m_reason k)))"] by (auto simp: field_elem_def)
    moreover have "ucast (ucast (m_reason k) :: 64 word) = m_reason k" by (rule bit_word_eqI) (auto simp: bit_simps)
    ultimately show ?thesis using t NackValue assms(1) holds_nni [of d] holds_sel [of d]
      by (simp add: Field_decode_def NackHeader_wireDecode_def)
  next
    case (CacheValue k)
    then obtain c d where "parsed b = Inr c" "m_subBlocks c = [d]" "holds d (lp_CachePolicyType, nni (ucast (m_policy k)))"
      using h [of "(lp_CachePolicyType, nni (ucast (m_policy k)))"] by (auto simp: field_elem_def)
    then show ?thesis using t CacheValue assms(1) holds_nni [of d] holds_sel [of d]
      by (simp add: Field_decode_def CachePolicy_wireDecode_def getPolicy_def CachePolicyType_NO_CACHE_def CachePolicyType_NONE_def)
  qed
qed

lemma has_field: "fields p es \<Longrightarrow> Packet_has f p = Inr (TlvType f \<in> fst ` set es, p)"
proof -
  have "0 < length (filter (\<lambda>e. fst e = t) es) \<longleftrightarrow> t \<in> fst ` set es" for t
    by (induction es) auto
  then show "fields p es \<Longrightarrow> ?thesis" by (simp add: Packet_has_def count_fields del: length_greater_0_conv)
qed

lemma get_field:
  assumes "fields p es" and "filter (\<lambda>e. fst e = TlvType f) es ! i = field_elem f v" and "i < length (filter (\<lambda>e. fst e = TlvType f) es)"
    and "suits f v"
  shows "\<exists>u. Packet_get f i p = Inr (u, p) \<and> same_value u v"
proof -
  let ?bs = "filter (\<lambda>b. m_type b = TlvType f) (m_subBlocks p)"
  have a: "list_all2 holds ?bs (filter (\<lambda>e. fst e = TlvType f) es)" using filter_types assms(1) by (simp add: fields_def)
  then have "holds (?bs ! i) (field_elem f v)" "i < length ?bs" using assms(2,3) list_all2_nthD2 [OF a, of i] by (auto dest: list_all2_lengthD)
  moreover obtain u where "Field_decode f (?bs ! i) = Inr u" "same_value u v" using decode_field [OF assms(4) calculation(1)] by blast
  ultimately show ?thesis using fields_parsed [OF assms(1)] by (intro exI [of _ u]) (simp add: Packet_get_def Let_def)
qed

lemma add_field:
  assumes "fields p es" and "permissible (map fst es)" and "suits f v" and "f = AckField \<or> TlvType f \<notin> fst ` set es"
  shows "\<exists>q. Packet_add f v p = Inr q \<and> \<not> hasWire q \<and> fields q (takeWhile (before f) es @ field_elem f v # dropWhile (before f) es)"
proof -
  obtain b where b: "make_block (Field_encode EstimatorTag f v) (Field_encode EncoderTag f v) = Inr b" "holds b (field_elem f v)"
    using made_field [OF assms(3)] by blast
  have "\<not> IsRepeatable f \<Longrightarrow> Packet_has f p = Inr (False, p)"
    using has_field [OF assms(1), of f] assms(4) by (simp add: IsRepeatable_def)
  then show ?thesis using fields_insert [OF assms(1) b(2), of f] b(1) by (auto simp: Packet_add_def)
qed

text \<open>Its types stay in the order of the protocol.\<close>

lemma add_permissible:
  assumes "permissible (map fst es)" and "f = AckField \<or> TlvType f \<notin> fst ` set es"
  shows "permissible (map fst (takeWhile (before f) es @ field_elem f v # dropWhile (before f) es))"
proof -
  have "list_all known (map fst (takeWhile (before f) es @ dropWhile (before f) es))"
    using assms(1) by (simp only: takeWhile_dropWhile_id permissible_def)
  moreover have "known (TlvType f)" using FieldSet_all [of f] by (auto simp: known_def)
  ultimately show ?thesis using sorted_insert [of es f] assms by (simp add: permissible_def field_elem_def del: takeWhile_dropWhile_id)
qed

text \<open>C22. Packet::add on a packet whose fields are in the order of the protocol: a field that may not be repeated and is there is refused
with a length_error; otherwise the field is inserted so that the order still holds, among the fields it had in their order, in front of
the Acks if it is one, and get() returns its value.\<close>

theorem LpPacket_add:
  assumes "fields p es" and "permissible (map fst es)" and "suits f v"
  shows "if f \<noteq> AckField \<and> TlvType f \<in> fst ` set es then Packet_add f v p = Inl (LengthError ''Field cannot be repeated'')
    else \<exists>q as cs u. Packet_add f v p = Inr q \<and> es = as @ cs \<and> fields q (as @ field_elem f v # cs)
      \<and> permissible (map fst (as @ field_elem f v # cs)) \<and> TlvType f \<notin> fst ` set as \<and> Packet_get f 0 q = Inr (u, q) \<and> same_value u v"
proof (cases "f \<noteq> AckField \<and> TlvType f \<in> fst ` set es")
  case True
  then have "Packet_has f p = Inr (True, p)"
    using has_field [OF assms(1), of f] by simp
  then show ?thesis using True by (simp add: Packet_add_def IsRepeatable_def)
next
  case False
  let ?as = "takeWhile (before f) es" and ?cs = "dropWhile (before f) es"
  obtain q where q: "Packet_add f v p = Inr q" "fields q (?as @ field_elem f v # ?cs)" using add_field [OF assms] False by blast
  have n: "TlvType f \<notin> fst ` set ?as" by (auto simp: before_def dest: set_takeWhileD)
  then have "filter (\<lambda>e. fst e = TlvType f) ?as = []" by (force simp: filter_empty_conv)
  then have "filter (\<lambda>e. fst e = TlvType f) (?as @ field_elem f v # ?cs) ! 0 = field_elem f v" by (simp add: field_elem_def)
  then obtain u where u: "Packet_get f 0 q = Inr (u, q)" "same_value u v"
    using get_field [OF q(2) _ _ assms(3), of 0] by (auto simp: field_elem_def)
  have "permissible (map fst (?as @ field_elem f v # ?cs))" using add_permissible [OF assms(2)] False by blast
  then have "Packet_add f v p = Inr q \<and> es = ?as @ ?cs \<and> fields q (?as @ field_elem f v # ?cs)
      \<and> permissible (map fst (?as @ field_elem f v # ?cs)) \<and> TlvType f \<notin> fst ` set ?as \<and> Packet_get f 0 q = Inr (u, q) \<and> same_value u v"
    using q u n by simp
  then show ?thesis using False by (metis (no_types, lifting))
qed

lemma check_fields_error: "check_fields prev bs = Inl x \<Longrightarrow> \<exists>m. x = LpError m"
  by (induction prev bs rule: check_fields.induct) (auto simp: Let_def split: if_splits option.splits)

lemma decoded:
  assumes "holds w (lp_LpPacket, elems_bytes es)"
  shows "if permissible (map fst es) then \<exists>p. Packet_wireDecode w = Inr p \<and> fields p es
    else \<exists>m. Packet_wireDecode w = Inl (LpError m)"
proof -
  obtain bs where bs: "parsed w = Inr (set_subBlocks w bs)" "list_all2 holds bs es" using holds_parsed [OF assms] by blast
  have t: "m_type w = lp_LpPacket" "es = [] \<Longrightarrow> value_size w = 0" using holds_sel [OF assms] by simp_all
  have "lp_LpPacket \<noteq> tlv_Interest" "lp_LpPacket \<noteq> tlv_Data" by (simp_all add: lp_LpPacket_def tlv_Interest_def tlv_Data_def)
  then have d: "Packet_wireDecode w = bindE (check_fields None bs) (\<lambda>_. Inr (set_subBlocks w bs))"
    using t bs(1) by (simp add: Packet_wireDecode_def set_subBlocks_def)
  have c: "check_fields None bs = Inr () \<longleftrightarrow> permissible (map fst es)"
    using check_fields_iff [of None bs] fields_types [OF bs(2)] by (simp add: permissible_def)
  show ?thesis
  proof (cases "permissible (map fst es)")
    case True
    have "value_size (set_subBlocks w bs) = value_size w" by (simp add: set_subBlocks_def value_size_def hasValue_def)
    then have "fields (set_subBlocks w bs) es" using t bs(2) by (simp add: fields_def set_subBlocks_def)
    then show ?thesis using c d True by simp
  next
    case False
    then obtain x where "check_fields None bs = Inl x" using c by (cases "check_fields None bs") auto
    then show ?thesis using d False check_fields_error [of None bs x] by auto
  qed
qed

text \<open>The decoder of link protocol packets takes exactly the packets whose fields are known (or may be ignored), in the order of
the protocol and not repeated unless they may be; the packet then has the fields of the wire. All others are refused with the error of
the class.\<close>

theorem LpPacket_decode:
  assumes "holds w (lp_LpPacket, elems_bytes es)"
  shows "if permissible (map fst es) then \<exists>p. Packet_wireDecode w = Inr p \<and> fields p es
    else \<exists>m. Packet_wireDecode w = Inl (LpError m)"
  by (rule decoded [OF assms])

text \<open>What is written.\<close>

lemma writes_subs:
  assumes "prepender T R"
  shows "\<forall>b \<in> set bs. shortest b \<Longrightarrow> writes R (foldr (\<lambda>b f. addE f (prependBlock T b)) bs skipE) (map elem_of bs)"
proof (induction bs)
  case (Cons b bs)
  then have "writes R (addE (foldr (\<lambda>b f. addE f (prependBlock T b)) bs skipE) (prependBlock T b)) ([elem_of b] @ map elem_of bs)"
    using prepender.writes_block [OF assms] by (intro writes_addE) auto
  then show ?case by simp
qed (simp add: writes_skip)

lemma writes_packet:
  assumes "prepender T R" and "fields p es" and "\<not> hasWire p" and "length (elems_bytes es) < 2 ^ 31"
  shows "writes R (Packet_wireEncode T p) [(lp_LpPacket, elems_bytes es)]"
proof -
  have h: "list_all2 holds (m_subBlocks p) es" using assms(2) by (simp add: fields_def)
  then have "map elem_of (m_subBlocks p) = es" by (induction rule: list_all2_induct) (simp_all add: holds_def)
  moreover have "\<forall>b \<in> set (m_subBlocks p). shortest b"
    using h assms(4)
  proof (induction rule: list_all2_induct)
    case (Cons b bs e es)
    have "length (tlv (fst e) (snd e)) < 2 ^ 32" using Cons.prems by (cases e) simp
    then have "shortest b" using Cons.hyps holds_shortest [of b "fst e" "snd e"] by simp
    then show ?case using Cons by (cases e) simp
  qed simp
  ultimately show ?thesis
    using prepender.writes_header [OF assms(1) writes_subs [OF assms(1)], of "m_subBlocks p"] assms(3) by (simp add: Packet_wireEncode_def)
qed

lemma wire_packet:
  assumes "fields p es" and "\<not> hasWire p" and "length (elems_bytes es) < 2 ^ 31"
    and "\<not> (length es = 1 \<and> fst (hd es) = lp_Fragment)"
  shows "\<exists>b. Packet_wire p = Inr (b, b) \<and> holds b (lp_LpPacket, elems_bytes es)"
proof -
  have "\<exists>b. make_block (Packet_wireEncode EstimatorTag p) (Packet_wireEncode EncoderTag p) = Inr b \<and> holds b (lp_LpPacket, elems_bytes es)"
    using made_writes [OF writes_packet [OF est.prepender_axioms assms(1-3)] writes_packet [OF enc_exact.prepender_axioms assms(1-3)]] assms(3)
    by auto
  moreover have "\<not> (\<exists>c. m_subBlocks p = [c] \<and> m_type c = lp_Fragment)"
    using assms(1,4) holds_sel by (fastforce simp: fields_def list_all2_Cons1)
  ultimately show ?thesis using assms(2) by (auto simp: Packet_wire_def split: list.split)
qed

lemma lone_fragment:
  assumes "fields p [(lp_Fragment, tlv t (elems_bytes es))]" and "\<not> hasWire p"
  shows "\<exists>b. Packet_wire p = Inr (b, p) \<and> wire b = Inr (tlv t (elems_bytes es)) \<and> m_type b = t"
proof -
  obtain c where c: "m_subBlocks p = [c]" "holds c (lp_Fragment, elems_bytes [(t, elems_bytes es)])"
    using assms(1) by (auto simp: fields_def list_all2_Cons2)
  obtain d where d: "parsed c = Inr (set_subBlocks c [d])" "holds d (t, elems_bytes es)"
    using holds_parsed [OF c(2)] by (auto simp: list_all2_Cons2)
  obtain bs where bs: "parsed d = Inr (set_subBlocks d bs)" using holds_parsed [OF d(2)] by blast
  have "Packet_wire p = Inr (set_subBlocks d bs, p)"
    using assms(2) c d(1) bs holds_sel [OF c(2)] by (simp add: Packet_wire_def set_subBlocks_def)
  moreover have "wire (set_subBlocks d bs) = wire d" by (simp add: wire_def hasWire_def set_subBlocks_def)
  moreover have "m_type d = t" using holds_sel [OF d(2)] by simp
  ultimately show ?thesis using d(2) by (simp add: holds_def set_subBlocks_def)
qed

lemma bare_decoded:
  assumes "wire w = Inr (tlv t (elems_bytes es))" and "m_type w = t" and "t = tlv_Interest \<or> t = tlv_Data"
    and "length (elems_bytes es) < 2 ^ 30"
  shows "\<exists>p. Packet_wireDecode w = Inr p \<and> fields p [(lp_Fragment, tlv t (elems_bytes es))] \<and> \<not> hasWire p"
proof -
  let ?v = "Range (tlv t (elems_bytes es))"
  have "suits FragmentField ?v" using assms(4) tlv_length_le [of t "elems_bytes es"] by (simp add: tlv_def vartype_def)
  then obtain p where p: "Packet_add FragmentField ?v Packet_new = Inr p" "\<not> hasWire p" "fields p [field_elem FragmentField ?v]"
    using add_field [OF fields_new, of FragmentField ?v] by (auto simp: permissible_def)
  moreover have "Packet_wireDecode w = Packet_add FragmentField ?v Packet_new" using assms(1-3) by (auto simp: Packet_wireDecode_def)
  ultimately show ?thesis by (auto simp: field_elem_def)
qed

text \<open>C23. A packet that has been composed, of less than 2 GiB, is sent as its type around its fields in their order, and decoding
that gives a packet with the same fields. The exception is a packet with a fragment and no other field, which is sent as the Interest
or Data packet that the fragment is, bare; decoding it gives the fragment back as the only field. In both cases every field is read back
with its value, each of several Acks at its position.\<close>

theorem LpPacket_roundtrip:
  assumes "fields p es" and "permissible (map fst es)" and "\<not> hasWire p" and "length (elems_bytes es) < 2 ^ 31"
    and "map fst es = [lp_Fragment] \<longrightarrow>
      (\<exists>t fs. snd (hd es) = tlv t (elems_bytes fs) \<and> (t = tlv_Interest \<or> t = tlv_Data) \<and> length (elems_bytes fs) < 2 ^ 30)"
  shows "\<exists>b p' q. Packet_wire p = Inr (b, p')
    \<and> wire b = Inr (if map fst es = [lp_Fragment] then snd (hd es) else tlv lp_LpPacket (elems_bytes es))
    \<and> Packet_wireDecode b = Inr q \<and> fields q es
    \<and> (\<forall>f v i. i < length (filter (\<lambda>e. fst e = TlvType f) es) \<and> filter (\<lambda>e. fst e = TlvType f) es ! i = field_elem f v \<and> suits f v
        \<longrightarrow> (\<exists>u. Packet_get f i q = Inr (u, q) \<and> same_value u v))"
proof -
  have "\<exists>b p' q. Packet_wire p = Inr (b, p')
    \<and> wire b = Inr (if map fst es = [lp_Fragment] then snd (hd es) else tlv lp_LpPacket (elems_bytes es))
    \<and> Packet_wireDecode b = Inr q \<and> fields q es"
  proof (cases "map fst es = [lp_Fragment]")
    case True
    then obtain t fs where f: "es = [(lp_Fragment, tlv t (elems_bytes fs))]" "t = tlv_Interest \<or> t = tlv_Data" "length (elems_bytes fs) < 2 ^ 30"
      using assms(5) by (cases es) auto
    obtain b where b: "Packet_wire p = Inr (b, p)" "wire b = Inr (tlv t (elems_bytes fs))" "m_type b = t"
      using lone_fragment assms(1,3) unfolding f(1) by blast
    obtain q where "Packet_wireDecode b = Inr q" "fields q es" using bare_decoded [OF b(2,3) f(2,3)] unfolding f(1) by blast
    then show ?thesis using b True f(1) by auto
  next
    case False
    then have "\<not> (length es = 1 \<and> fst (hd es) = lp_Fragment)" by (cases es) auto
    then obtain b where b: "Packet_wire p = Inr (b, b)" "holds b (lp_LpPacket, elems_bytes es)" using wire_packet assms(1,3,4) by blast
    then obtain q where "Packet_wireDecode b = Inr q" "fields q es" using decoded [OF b(2)] assms(2) by auto
    then show ?thesis using b False by (auto simp: holds_def)
  qed
  then show ?thesis using get_field by blast
qed

text \<open>A bare Interest or Data is decoded as a packet that has it as its only field, its fragment, and such a packet is sent bare.\<close>

theorem LpPacket_bare:
  assumes "holds w (t, elems_bytes es)" and "t = tlv_Interest \<or> t = tlv_Data" and "length (elems_bytes es) < 2 ^ 30"
  shows "\<exists>p b. Packet_wireDecode w = Inr p \<and> fields p [(lp_Fragment, tlv t (elems_bytes es))]
    \<and> Packet_wire p = Inr (b, p) \<and> wire b = wire w"
proof -
  have w: "m_type w = t" "wire w = Inr (tlv t (elems_bytes es))" using assms(1) holds_sel by (auto simp: holds_def)
  obtain p where p: "Packet_wireDecode w = Inr p" "fields p [(lp_Fragment, tlv t (elems_bytes es))]" "\<not> hasWire p"
    using bare_decoded [OF w(2,1) assms(2,3)] by blast
  then show ?thesis using lone_fragment [OF p(2,3)] w(2) by auto
qed

text \<open>An Ack added to a packet that has been sent replaces all the fields it had: add() parses the wire only for the fields that
may not be repeated.\<close>

theorem LpPacket_ack_loses:
  assumes "fields p es" and "\<not> hasWire p" and "length (elems_bytes es) < 2 ^ 31" and "map fst es \<noteq> [lp_Fragment]"
  shows "\<exists>b q. Packet_wire p = Inr (b, b) \<and> Packet_add AckField (Number n) b = Inr q \<and> fields q [(lp_Ack, nni n)]"
proof -
  have "\<not> (length es = 1 \<and> fst (hd es) = lp_Fragment)" using assms(4) by (cases es) auto
  then obtain b where b: "Packet_wire p = Inr (b, b)" "holds b (lp_LpPacket, elems_bytes es)" using wire_packet assms(1-3) by blast
  obtain k where k: "make_block (Field_encode EstimatorTag AckField (Number n)) (Field_encode EncoderTag AckField (Number n)) = Inr k"
      "holds k (lp_Ack, nni n)" using made_field [of AckField "Number n"] by (auto simp: field_elem_def)
  have "m_type b = lp_LpPacket" "m_subBlocks b = []" using b(2) holds_sel by (auto simp: holds_def)
  then have "Packet_add AckField (Number n) b = Inr (set_subBlocks (resetWire b) [k])" "fields (set_subBlocks (resetWire b) [k]) [(lp_Ack, nni n)]"
    using k by (auto simp: Packet_add_def IsRepeatable_def block_insert_def fields_def set_subBlocks_def resetWire_def)
  then show ?thesis using b(1) by blast
qed

section \<open>Witnesses\<close>

text \<open>A packet with a congestion mark is given a fragment, is sent and received.\<close>

definition marked :: block where
  "marked = (case Packet_add CongestionMarkField (Number 1) Packet_new of Inr q \<Rightarrow> q | _ \<Rightarrow> Packet_new)"

lemma marked_fields: "Packet_add CongestionMarkField (Number 1) Packet_new = Inr marked" "\<not> hasWire marked" "fields marked [(lp_CongestionMark, [1])]"
proof -
  obtain q where "Packet_add CongestionMarkField (Number 1) Packet_new = Inr q" "\<not> hasWire q" "fields q [(lp_CongestionMark, [1])]"
    using add_field [OF fields_new, of CongestionMarkField "Number 1"] by (auto simp: permissible_def field_elem_def nni_def)
  then show "Packet_add CongestionMarkField (Number 1) Packet_new = Inr marked" "\<not> hasWire marked" "fields marked [(lp_CongestionMark, [1])]"
    by (simp_all add: marked_def)
qed

lemma marked_permissible: "permissible (map fst [(lp_CongestionMark, [1 :: 8 word])])"
  by (simp add: permissible_def known_def lp_types FieldSet_def)

lemma marked_small: "length (elems_bytes [(lp_CongestionMark, [1])]) < 2 ^ 31" "map fst [(lp_CongestionMark, [1 :: 8 word])] \<noteq> [lp_Fragment]"
  using tlv_length_le [of lp_CongestionMark "[1]"] by (simp_all add: lp_CongestionMark_def lp_Fragment_def)

theorem LpPacket_add_witness:
  "Packet_add CongestionMarkField (Number 2) marked = Inl (LengthError ''Field cannot be repeated'')
    \<and> (\<exists>q. Packet_add FragmentField (Range [5, 0]) marked = Inr q)"
  using LpPacket_add [OF marked_fields(3) marked_permissible, of CongestionMarkField "Number 2"]
    LpPacket_add [OF marked_fields(3) marked_permissible, of FragmentField "Range [5, 0]"]
  by (auto simp: lp_types)

text \<open>With two Acks and the congestion mark; and with nothing but a Data packet.\<close>

theorem LpPacket_roundtrip_witness: "(\<exists>p b p' q u. fields p [(lp_CongestionMark, [1]), (lp_Ack, [7]), (lp_Ack, [9])] \<and> Packet_wire p = Inr (b, p')
      \<and> Packet_wireDecode b = Inr q \<and> Packet_get AckField 1 q = Inr (u, q) \<and> same_value u (Number 9))
    \<and> (\<exists>p b p' q. Packet_add FragmentField (Range (tlv tlv_Data [])) Packet_new = Inr p \<and> Packet_wire p = Inr (b, p')
      \<and> wire b = Inr (tlv tlv_Data []) \<and> Packet_wireDecode b = Inr q)"
proof
  let ?es = "[(lp_CongestionMark, [1]), (lp_Ack, [7]), (lp_Ack, [9])] :: elem list"
  have b: "before AckField (lp_CongestionMark, [1])" "\<not> before AckField (lp_Ack, [9])"
    by (simp_all add: before_def rank_def lp_types)
  obtain q where q: "Packet_add AckField (Number 9) marked = Inr q" "\<not> hasWire q" "fields q [(lp_CongestionMark, [1]), (lp_Ack, [9])]"
    using add_field [OF marked_fields(3) marked_permissible, of AckField "Number 9"] b by (auto simp: field_elem_def nni_def)
  have m: "permissible (map fst [(lp_CongestionMark, [1]), (lp_Ack, [9 :: 8 word])])" "permissible (map fst ?es)"
    by (simp_all add: permissible_def known_def lp_types FieldSet_def behind_def rank_def)
  obtain p where p: "\<not> hasWire p" "fields p ?es"
    using add_field [OF q(3) m(1), of AckField "Number 7"] b by (auto simp: field_elem_def nni_def)
  have "length (elems_bytes ?es) < 2 ^ 31"
    using tlv_length_le [of lp_CongestionMark "[1]"] tlv_length_le [of lp_Ack "[7]"] tlv_length_le [of lp_Ack "[9]"] by simp
  from LpPacket_roundtrip [OF p(2) m(2) p(1) this] obtain b p' r where r: "Packet_wire p = Inr (b, p')" "Packet_wireDecode b = Inr r"
      "\<forall>f v i. i < length (filter (\<lambda>e. fst e = TlvType f) ?es) \<and> filter (\<lambda>e. fst e = TlvType f) ?es ! i = field_elem f v \<and> suits f v
        \<longrightarrow> (\<exists>u. Packet_get f i r = Inr (u, r) \<and> same_value u v)" by auto
  then show "\<exists>p b p' q u. fields p ?es \<and> Packet_wire p = Inr (b, p') \<and> Packet_wireDecode b = Inr q
      \<and> Packet_get AckField 1 q = Inr (u, q) \<and> same_value u (Number 9)"
    using r(3) [rule_format, of 1 AckField "Number 9"] p(2) by (auto simp: field_elem_def nni_def lp_types)
next
  let ?v = "Range (tlv tlv_Data [])" and ?es = "[(lp_Fragment, tlv tlv_Data (elems_bytes []))] :: elem list"
  have "suits FragmentField ?v" using tlv_length_le [of tlv_Data "[]"] by (simp add: tlv_def vartype_def)
  then obtain p where p: "Packet_add FragmentField ?v Packet_new = Inr p" "\<not> hasWire p" "fields p ?es"
    using add_field [OF fields_new, of FragmentField ?v] by (auto simp: permissible_def field_elem_def)
  have "permissible (map fst ?es)" by (simp add: permissible_def known_def lp_types FieldSet_def)
  moreover have "length (elems_bytes ?es) < 2 ^ 31"
    using tlv_length_le [of lp_Fragment "tlv tlv_Data []"] tlv_length_le [of tlv_Data "[]"] by simp
  moreover have "\<exists>t fs. snd (hd ?es) = tlv t (elems_bytes fs) \<and> (t = tlv_Interest \<or> t = tlv_Data) \<and> length (elems_bytes fs) < 2 ^ 30"
    by (intro exI [of _ tlv_Data] exI [of _ "[]"]) simp
  ultimately show "\<exists>p b p' q. Packet_add FragmentField ?v Packet_new = Inr p \<and> Packet_wire p = Inr (b, p')
      \<and> wire b = Inr (tlv tlv_Data []) \<and> Packet_wireDecode b = Inr q"
    using LpPacket_roundtrip [OF p(3) _ p(2)] p(1) by fastforce
qed

theorem LpPacket_decode_witness: "\<exists>w. Block_buffer (tlv lp_LpPacket (elems_bytes [(lp_Fragment, [5, 0]), (lp_CongestionMark, [1])])) = Inr w
    \<and> (\<exists>m. Packet_wireDecode w = Inl (LpError m))"
proof -
  obtain w where w: "Block_buffer (tlv lp_LpPacket (elems_bytes [(lp_Fragment, [5, 0]), (lp_CongestionMark, [1])])) = Inr w"
      "holds w (lp_LpPacket, elems_bytes [(lp_Fragment, [5, 0]), (lp_CongestionMark, [1])])"
    using Block_buffer_holds [of "elems_bytes [(lp_Fragment, [5, 0]), (lp_CongestionMark, [1])]" lp_LpPacket]
      tlv_length_le [of lp_Fragment "[5, 0]"] tlv_length_le [of lp_CongestionMark "[1]"] by auto
  show ?thesis using w(1) LpPacket_decode [OF w(2)] by (auto simp: permissible_def behind_def rank_def lp_types)
qed

theorem LpPacket_bare_witness: "\<exists>w p b. Block_buffer (tlv tlv_Data (elems_bytes [])) = Inr w \<and> Packet_wireDecode w = Inr p
    \<and> Packet_wire p = Inr (b, p) \<and> wire b = wire w"
proof -
  obtain w where w: "Block_buffer (tlv tlv_Data (elems_bytes [])) = Inr w" "holds w (tlv_Data, elems_bytes [])"
    using Block_buffer_holds [of "elems_bytes []" tlv_Data] by auto
  show ?thesis using w(1) LpPacket_bare [OF w(2)] by auto
qed

theorem LpPacket_ack_loses_witness: "\<exists>b q. Packet_wire marked = Inr (b, b) \<and> Packet_add AckField (Number 7) b = Inr q \<and> fields q [(lp_Ack, nni 7)]"
  by (rule LpPacket_ack_loses [OF marked_fields(3,2) marked_small])

text \<open>A reason beyond 32 bits is read as the reason of its last 32.\<close>

lemma nack_truncated: "\<exists>b h. Block_buffer (tlv lp_Nack (elems_bytes [(lp_NackReason, nni (2 ^ 32 + 50))])) = Inr b
    \<and> NackHeader_wireDecode b = Inr h \<and> getReason h = NackReason_CONGESTION"
proof -
  obtain b where b: "Block_buffer (tlv lp_Nack (elems_bytes [(lp_NackReason, nni (2 ^ 32 + 50))])) = Inr b"
      "holds b (lp_Nack, elems_bytes [(lp_NackReason, nni (2 ^ 32 + 50))])"
    using Block_buffer_holds [of "elems_bytes [(lp_NackReason, nni (2 ^ 32 + 50))]" lp_Nack]
      tlv_length_le [of lp_NackReason "nni (2 ^ 32 + 50)"] nni_length_le [of "2 ^ 32 + 50"] by auto
  obtain c where c: "parsed b = Inr (set_subBlocks b [c])" "holds c (lp_NackReason, nni (2 ^ 32 + 50))"
    using holds_parsed [OF b(2)] by (auto simp: list_all2_Cons2)
  have "NackHeader_wireDecode b = Inr \<lparr>m_reason = 50, nack_wire = set_subBlocks b [c]\<rparr>"
    using c holds_nni [OF c(2)] holds_sel [OF b(2)] holds_sel [OF c(2)] by (simp add: NackHeader_wireDecode_def set_subBlocks_def)
  then show ?thesis using b(1)
    by (simp add: getReason_def NackReason_CONGESTION_def NackReason_DUPLICATE_def NackReason_NO_ROUTE_def)
qed

end
