(* ===== verification/Face.thy ===== *)
theory Face
  imports LpPacket Scheduler
begin

text \<open>
  The face of an application (face.cpp, detail/face-impl.hpp, detail/pending-interest.hpp,
  detail/interest-filter-record.hpp, detail/registered-prefix.hpp, detail/container-with-on-empty-signal.hpp,
  interest-filter.cpp, lp/nack.cpp).

  The callbacks of the application are programs over the operations of the face: \<open>run_prog\<close> runs them. The
  transport is an object of a class derived from Transport, whose virtual functions are parameters; the
  controller of the forwarder is the list of the commands started, whose answers are events. Objects are
  known by the number that stands for their address, which is never used again. The clock is read once for
  each event; what the code posts to the io service is a list, run in its order.
\<close>

section \<open>Packets with tags\<close>

record net_tags =
  NextHopFaceIdTag :: "64 word option"
  CongestionMarkTag :: "64 word option"
  CachePolicyTag :: "cache_policy option"
  IncomingFaceIdTag :: "64 word option"

definition no_tags :: net_tags where
  "no_tags = \<lparr>NextHopFaceIdTag = None, CongestionMarkTag = None, CachePolicyTag = None, IncomingFaceIdTag = None\<rparr>"

record lp_nack =
  nack_interest :: interest
  nack_head :: nack_header

definition Nack_of :: "interest \<Rightarrow> lp_nack" where
  "Nack_of i = \<lparr>nack_interest = i, nack_head = NackHeader_new\<rparr>"

definition setHeader :: "lp_nack \<Rightarrow> nack_header \<Rightarrow> lp_nack" where
  "setHeader n h = n\<lparr>nack_head := h\<rparr>"

definition Nack_getReason :: "lp_nack \<Rightarrow> 32 word" where
  "Nack_getReason n = getReason (nack_head n)"

definition Nack_setReason :: "lp_nack \<Rightarrow> 32 word \<Rightarrow> lp_nack" where
  "Nack_setReason n r = n\<lparr>nack_head := setReason (nack_head n) r\<rparr>"


section \<open>Interest filters\<close>

text \<open>A compiled pattern is its function match, of a name, the first component and their number.\<close>

record interest_filter =
  m_prefix :: block
  m_regexFilter :: "(block \<Rightarrow> 64 word \<Rightarrow> 64 word \<Rightarrow> bool result) option"

definition InterestFilter_of_name :: "block \<Rightarrow> interest_filter" where
  "InterestFilter_of_name n = \<lparr>m_prefix = n, m_regexFilter = None\<rparr>"

definition hasRegexFilter :: "interest_filter \<Rightarrow> bool" where
  "hasRegexFilter l \<longleftrightarrow> m_regexFilter l \<noteq> None"

definition InterestFilter_name :: "interest_filter \<Rightarrow> block result" where
  "InterestFilter_name l =
     (if hasRegexFilter l then Inl (FaceError (''Please update InterestCallback to accept const InterestFilter&''
        @ '' (non-trivial InterestFilter is being used)''))
      else Inr (m_prefix l))"

definition doesMatch :: "interest_filter \<Rightarrow> block \<Rightarrow> bool result" where
  "doesMatch l n = bindE (isPrefixOf (m_prefix l) n) (\<lambda>p.
     if \<not> p then Inr False
     else case m_regexFilter l of None \<Rightarrow> Inr True | Some r \<Rightarrow> r n (Name_size (m_prefix l)) (Name_size n - Name_size (m_prefix l)))"


section \<open>The application\<close>

text \<open>What the face passes to a callback.\<close>

datatype call =
    DataCall interest data net_tags
  | NackCall interest lp_nack net_tags
  | TimeoutCall interest
  | InterestCall interest_filter interest net_tags
  | RegisterSuccessCall block
  | RegisterFailureCall block string
  | UnregisterSuccessCall
  | UnregisterFailureCall string

text \<open>The operations of the face. A callback of the application is a name \<open>'k\<close>; \<open>None\<close> is an empty
  \<open>std::function\<close>. The 32-bit numbers are those the random generator gives for a nonce.\<close>

datatype 'k api =
    ExpressInterest interest net_tags "32 word" "'k option" "'k option" "'k option"
  | ExpressInterest_onData interest net_tags "32 word" "'k option" "'k option"
  | ExpressInterest_name block interest net_tags "32 word" "'k option" "'k option"
  | RemovePendingInterest nat
  | RemoveAllPendingInterests
  | GetNPendingInterests
  | PutData data net_tags
  | PutNack lp_nack net_tags "32 word"
  | SetInterestFilter interest_filter "'k option"
  | SetInterestFilter_register interest_filter "'k option" "'k option" "'k option" "64 word"
  | RegisterPrefix block "'k option" "'k option" "64 word"
  | UnsetInterestFilter nat
  | UnsetInterestFilter_registered nat
  | UnregisterPrefix nat "'k option" "'k option"
  | Shutdown

datatype api_value = Id nat | Count nat | Done

text \<open>A program of the application: it ends in a state of the application, with or without an exception, or
  calls an operation and goes on with what the call returned or threw.\<close>

datatype ('w, 'k) prog =
    Return 'w
  | Throw exn 'w
  | Api "'k api" "api_value result \<Rightarrow> ('w, 'k) prog"

text \<open>The functions the face puts around the callbacks of the older interface.\<close>

datatype 'k callback_fun =
    Plain 'k
  | WrapOnData "'k option"
  | WrapOnTimeout "'k option"

record 'k pending_interest =
  pi_id :: nat
  m_interest :: interest
  m_dataCallback :: "'k callback_fun option"
  m_nackCallback :: "'k callback_fun option"
  m_timeoutCallback :: "'k option"
  m_timeoutEvent :: event_id

record 'k filter_record =
  fr_id :: nat
  m_filter :: interest_filter
  m_interestCallback :: "'k option"

record 'k registered_prefix =
  rp_id :: nat
  rp_prefix :: block
  rp_filter :: "'k filter_record option"

datatype timer_task = InvokeTimeout nat | StopProcessing

datatype 'k task =
    EnsureConnected
  | AsyncExpressInterest nat interest net_tags "'k callback_fun option" "'k callback_fun option" "'k option"
  | AsyncSend block
  | AsyncRemovePendingInterest nat
  | AsyncRemoveAllPendingInterests
  | AsyncSetInterestFilter "'k filter_record"
  | AsyncUnsetInterestFilter nat
  | AsyncUnregisterPrefix nat "'k option" "'k option"
  | AsyncShutdown
  | OnEmptyPitOrNoRegisteredPrefixes

datatype 'k command =
    RibRegister "'k registered_prefix" "64 word" "'k option" "'k option"
  | RibUnregister "'k registered_prefix" "'k option" "'k option"

text \<open>The last field is no part of the code: the calls made for each pending Interest so far.\<close>

record ('k, 't) face =
  m_transport :: 't
  m_scheduler :: "timer_task scheduler"
  m_processEventsTimeoutEvent :: event_id
  m_pendingInterestTable :: "'k pending_interest list"
  m_interestFilterTable :: "'k filter_record list"
  m_registeredPrefixTable :: "'k registered_prefix list"
  m_ioServiceWork :: bool
  io_posted :: "'k task list"
  io_stopped :: bool
  io_thread :: bool
  m_nfdController :: "'k command list"
  next_object :: nat
  called :: "(nat \<times> call) list"

record ('w, 'k, 't) env =
  e_sha256 :: "bytes \<Rightarrow> bytes"
  isConnected :: "'t \<Rightarrow> bool"
  isReceiving :: "'t \<Rightarrow> bool"
  t_connect :: "'t \<Rightarrow> 't \<times> exn option"
  t_close :: "'t \<Rightarrow> 't \<times> exn option"
  t_pause :: "'t \<Rightarrow> 't \<times> exn option"
  t_resume :: "'t \<Rightarrow> 't \<times> exn option"
  t_send :: "block \<Rightarrow> 't \<Rightarrow> 't \<times> exn option"
  e_client :: "'k \<Rightarrow> call \<Rightarrow> 'w \<Rightarrow> ('w, 'k) prog"


section \<open>The tables\<close>

fun andthen :: "'s \<times> exn option \<Rightarrow> ('s \<Rightarrow> 's \<times> exn option) \<Rightarrow> 's \<times> exn option" where
  "andthen (s, None) g = g s"
| "andthen (s, Some e) g = (s, Some e)"

definition post :: "'k task \<Rightarrow> ('k, 't) face \<Rightarrow> ('k, 't) face" where
  "post t f = f\<lparr>io_posted := io_posted f @ [t]\<rparr>"

text \<open>In the thread that runs the io service dispatch is a call.\<close>

definition dispatch :: "'k task \<Rightarrow> (('k, 't) face \<Rightarrow> ('k, 't) face \<times> exn option) \<Rightarrow> ('k, 't) face \<Rightarrow> ('k, 't) face \<times> exn option" where
  "dispatch t g f = (if io_thread f then g f else (post t f, None))"

text \<open>The destructor of a pending Interest cancels the event it holds.\<close>

definition destroy :: "int \<Rightarrow> 'k pending_interest \<Rightarrow> ('k, 't) face \<Rightarrow> ('k, 't) face" where
  "destroy now p f = f\<lparr>m_scheduler := snd (ScopedEventId_cancel now (m_timeoutEvent p, m_scheduler f))\<rparr>"

definition pit_erase :: "nat \<Rightarrow> ('k, 't) face \<Rightarrow> ('k, 't) face" where
  "pit_erase i f =
     (let f = f\<lparr>m_pendingInterestTable := filter (\<lambda>p. pi_id p \<noteq> i) (m_pendingInterestTable f)\<rparr>
      in if m_pendingInterestTable f = [] then post OnEmptyPitOrNoRegisteredPrefixes f else f)"

definition pit_clear :: "int \<Rightarrow> ('k, 't) face \<Rightarrow> ('k, 't) face" where
  "pit_clear now f = post OnEmptyPitOrNoRegisteredPrefixes
     (fold (destroy now) (m_pendingInterestTable f) (f\<lparr>m_pendingInterestTable := []\<rparr>))"

definition pit_remove_if :: "int \<Rightarrow> ('k pending_interest \<Rightarrow> bool) \<Rightarrow> ('k, 't) face \<Rightarrow> ('k, 't) face" where
  "pit_remove_if now P f =
     (let f = fold (destroy now) (filter P (m_pendingInterestTable f))
        (f\<lparr>m_pendingInterestTable := filter (\<lambda>p. \<not> P p) (m_pendingInterestTable f)\<rparr>)
      in if m_pendingInterestTable f = [] then post OnEmptyPitOrNoRegisteredPrefixes f else f)"

definition registered_erase :: "nat \<Rightarrow> ('k, 't) face \<Rightarrow> ('k, 't) face" where
  "registered_erase i f =
     (let f = f\<lparr>m_registeredPrefixTable := filter (\<lambda>p. rp_id p \<noteq> i) (m_registeredPrefixTable f)\<rparr>
      in if m_registeredPrefixTable f = [] then post OnEmptyPitOrNoRegisteredPrefixes f else f)"

definition registered_clear :: "('k, 't) face \<Rightarrow> ('k, 't) face" where
  "registered_clear f = post OnEmptyPitOrNoRegisteredPrefixes (f\<lparr>m_registeredPrefixTable := []\<rparr>)"


section \<open>The transport\<close>

definition on_transport :: "('t \<Rightarrow> 't \<times> exn option) \<Rightarrow> ('k, 't) face \<Rightarrow> ('k, 't) face \<times> exn option" where
  "on_transport g f = (case g (m_transport f) of (t, e) \<Rightarrow> (f\<lparr>m_transport := t\<rparr>, e))"

definition ensureConnected :: "('w, 'k, 't) env \<Rightarrow> bool \<Rightarrow> ('k, 't) face \<Rightarrow> ('k, 't) face \<times> exn option" where
  "ensureConnected E wantResume f =
     andthen (if \<not> isConnected E (m_transport f) then on_transport (t_connect E) f else (f, None)) (\<lambda>f.
       if wantResume \<and> \<not> isReceiving E (m_transport f) then on_transport (t_resume E) f else (f, None))"

definition asyncSend :: "('w, 'k, 't) env \<Rightarrow> block \<Rightarrow> ('k, 't) face \<Rightarrow> ('k, 't) face \<times> exn option" where
  "asyncSend E b f = andthen (ensureConnected E True f) (on_transport (t_send E b))"

definition onEmptyPitOrNoRegisteredPrefixes :: "('w, 'k, 't) env \<Rightarrow> int \<Rightarrow> ('k, 't) face \<Rightarrow> ('k, 't) face \<times> exn option" where
  "onEmptyPitOrNoRegisteredPrefixes E now f =
     (if m_pendingInterestTable f = [] \<and> m_registeredPrefixTable f = [] then
        andthen (on_transport (t_pause E) f) (\<lambda>f.
          if \<not> m_ioServiceWork f
          then (f\<lparr>m_scheduler := snd (ScopedEventId_cancel now (m_processEventsTimeoutEvent f, m_scheduler f))\<rparr>, None)
          else (f, None))
      else (f, None))"

definition asyncShutdown :: "('w, 'k, 't) env \<Rightarrow> int \<Rightarrow> ('k, 't) face \<Rightarrow> ('k, 't) face \<times> exn option" where
  "asyncShutdown E now f =
     (let f = registered_clear (pit_clear now f) in
      andthen (if isConnected E (m_transport f) then on_transport (t_close E) f else (f, None)) (\<lambda>f.
        (f\<lparr>m_ioServiceWork := False\<rparr>, None)))"


section \<open>Expressing an Interest\<close>

definition MAX_NDN_PACKET_SIZE :: nat where "MAX_NDN_PACKET_SIZE = 8800"

text \<open>The constructor of a pending Interest; the lifetime is in milliseconds, which are converted to nanoseconds of 64 bits.\<close>

definition timeout_of :: "interest \<Rightarrow> int" where
  "timeout_of i = int64 ((if i_interestLifetime i > 0 then i_interestLifetime i else DEFAULT_INTEREST_LIFETIME) * 10 ^ 6)"

definition pit_insert ::
  "int \<Rightarrow> nat \<Rightarrow> interest \<Rightarrow> 'k callback_fun option \<Rightarrow> 'k callback_fun option \<Rightarrow> 'k option \<Rightarrow> ('k, 't) face \<Rightarrow> ('k, 't) face" where
  "pit_insert now i x d n t f =
     (let (e, s) = scheduleEvent now (timeout_of x) (InvokeTimeout i) (m_scheduler f);
          (e, s) = ScopedEventId_assign now e (None, s)
      in f\<lparr>m_scheduler := s, m_pendingInterestTable := m_pendingInterestTable f
        @ [\<lparr>pi_id = i, m_interest = x, m_dataCallback = d, m_nackCallback = n, m_timeoutCallback = t, m_timeoutEvent = e\<rparr>]\<rparr>)"

definition add_tag :: "field \<Rightarrow> ('v \<Rightarrow> field_value) \<Rightarrow> 'v option \<Rightarrow> block \<Rightarrow> block result" where
  "add_tag l c v p = (case v of None \<Rightarrow> Inr p | Some x \<Rightarrow> Packet_add l (c x) p)"

definition interest_packet :: "interest \<Rightarrow> net_tags \<Rightarrow> block result" where
  "interest_packet x tags =
     bindE (add_tag NextHopFaceIdField Number (NextHopFaceIdTag tags) Packet_new) (\<lambda>p.
     bindE (add_tag CongestionMarkField Number (CongestionMarkTag tags) p) (\<lambda>p.
     bindE (wire (i_wire x)) (\<lambda>bs. bindE (Packet_add FragmentField (Range bs) p) (\<lambda>p.
     bindE (Packet_wire p) (\<lambda>(b, _). Inr b)))))"

definition asyncExpressInterest ::
  "('w, 'k, 't) env \<Rightarrow> int \<Rightarrow> nat \<Rightarrow> interest \<Rightarrow> net_tags \<Rightarrow> 'k callback_fun option \<Rightarrow> 'k callback_fun option \<Rightarrow> 'k option
    \<Rightarrow> ('k, 't) face \<Rightarrow> ('k, 't) face \<times> exn option" where
  "asyncExpressInterest E now i x tags d n t f = andthen (ensureConnected E True f) (\<lambda>f.
     let f = pit_insert now i x d n t f in
     case interest_packet x tags of
       Inl e \<Rightarrow> (f, Some e)
     | Inr b \<Rightarrow> on_transport (t_send E b) f)"

definition expressInterest ::
  "('w, 'k, 't) env \<Rightarrow> int \<Rightarrow> interest \<Rightarrow> net_tags \<Rightarrow> 32 word \<Rightarrow> 'k callback_fun option \<Rightarrow> 'k callback_fun option \<Rightarrow> 'k option
    \<Rightarrow> ('k, 't) face \<Rightarrow> ('k, 't) face \<times> api_value result" where
  "expressInterest E now x tags r d n t f =
     (case bindE (Interest_wire r x) (\<lambda>x. bindE (block_size (i_wire x)) (\<lambda>k. Inr (x, k))) of
        Inl e \<Rightarrow> (f, Inl e)
      | Inr (x, k) \<Rightarrow>
          if k > MAX_NDN_PACKET_SIZE then (f, Inl (FaceError ''Interest size exceeds maximum limit''))
          else
            let i = next_object f; f = f\<lparr>next_object := i + 1\<rparr>
            in (case dispatch (AsyncExpressInterest i x tags d n t) (asyncExpressInterest E now i x tags d n t) f of
                (f, None) \<Rightarrow> (f, Inr (Id i))
              | (f, Some e) \<Rightarrow> (f, Inl e)))"

definition expressInterest_onData ::
  "('w, 'k, 't) env \<Rightarrow> int \<Rightarrow> interest \<Rightarrow> net_tags \<Rightarrow> 32 word \<Rightarrow> 'k option \<Rightarrow> 'k option \<Rightarrow> ('k, 't) face \<Rightarrow> ('k, 't) face \<times> api_value result" where
  "expressInterest_onData E now x tags r onData onTimeout f =
     expressInterest E now x tags r (Some (WrapOnData onData)) (Some (WrapOnTimeout onTimeout)) onTimeout f"

definition expressInterest_name ::
  "('w, 'k, 't) env \<Rightarrow> int \<Rightarrow> block \<Rightarrow> interest \<Rightarrow> net_tags \<Rightarrow> 32 word \<Rightarrow> 'k option \<Rightarrow> 'k option \<Rightarrow> ('k, 't) face \<Rightarrow> ('k, 't) face \<times> api_value result" where
  "expressInterest_name E now n tmpl tags r onData onTimeout f =
     (case setNonce 0 (Interest_setName tmpl n) of
        Inl e \<Rightarrow> (f, Inl e)
      | Inr x \<Rightarrow> expressInterest_onData E now x tags r onData onTimeout f)"


section \<open>Sending\<close>

definition data_packet :: "data \<Rightarrow> net_tags \<Rightarrow> block result" where
  "data_packet d tags =
     bindE (Data_wire d) (\<lambda>d.
     bindE (add_tag CachePolicyField CacheValue (CachePolicyTag tags) Packet_new) (\<lambda>p.
     bindE (add_tag CongestionMarkField Number (CongestionMarkTag tags) p) (\<lambda>p.
     if CachePolicyTag tags \<noteq> None \<or> CongestionMarkTag tags \<noteq> None then
       bindE (wire (d_wire d)) (\<lambda>bs. bindE (Packet_add FragmentField (Range bs) p) (\<lambda>p. bindE (Packet_wire p) (\<lambda>(b, _). Inr b)))
     else Inr (d_wire d))))"

definition nack_packet :: "lp_nack \<Rightarrow> net_tags \<Rightarrow> 32 word \<Rightarrow> block result" where
  "nack_packet n tags r =
     bindE (Packet_add NackField (NackValue (nack_head n)) Packet_new) (\<lambda>p.
     bindE (Interest_wire r (nack_interest n)) (\<lambda>x. bindE (wire (i_wire x)) (\<lambda>bs.
     bindE (Packet_add FragmentField (Range bs) p) (\<lambda>p.
     bindE (add_tag CongestionMarkField Number (CongestionMarkTag tags) p) (\<lambda>p.
     bindE (Packet_wire p) (\<lambda>(b, _). Inr b))))))"

definition put_packet :: "('w, 'k, 't) env \<Rightarrow> string \<Rightarrow> block result \<Rightarrow> ('k, 't) face \<Rightarrow> ('k, 't) face \<times> api_value result" where
  "put_packet E what packet f =
     (case bindE packet (\<lambda>b. bindE (block_size b) (\<lambda>k. Inr (b, k))) of
        Inl e \<Rightarrow> (f, Inl e)
      | Inr (b, k) \<Rightarrow>
          if k > MAX_NDN_PACKET_SIZE then (f, Inl (FaceError (what @ '' size exceeds maximum limit'')))
          else (case dispatch (AsyncSend b) (asyncSend E b) f of
              (f, None) \<Rightarrow> (f, Inr Done)
            | (f, Some e) \<Rightarrow> (f, Inl e)))"

definition put_data :: "('w, 'k, 't) env \<Rightarrow> data \<Rightarrow> net_tags \<Rightarrow> ('k, 't) face \<Rightarrow> ('k, 't) face \<times> api_value result" where
  "put_data E d tags = put_packet E ''Data'' (data_packet d tags)"

definition put_nack :: "('w, 'k, 't) env \<Rightarrow> lp_nack \<Rightarrow> net_tags \<Rightarrow> 32 word \<Rightarrow> ('k, 't) face \<Rightarrow> ('k, 't) face \<times> api_value result" where
  "put_nack E n tags r = put_packet E ''Nack'' (nack_packet n tags r)"


section \<open>Prefixes and filters\<close>

definition registerPrefix ::
  "block \<Rightarrow> 'k filter_record option \<Rightarrow> 'k option \<Rightarrow> 'k option \<Rightarrow> 64 word \<Rightarrow> ('k, 't) face \<Rightarrow> ('k, 't) face \<times> api_value result" where
  "registerPrefix n l onSuccess onFailure flags f =
     (let p = \<lparr>rp_id = next_object f, rp_prefix = n, rp_filter = l\<rparr>
      in (f\<lparr>next_object := next_object f + 1, m_nfdController := m_nfdController f @ [RibRegister p flags onSuccess onFailure]\<rparr>,
          Inr (Id (rp_id p))))"

definition setInterestFilter_register ::
  "interest_filter \<Rightarrow> 'k option \<Rightarrow> 'k option \<Rightarrow> 'k option \<Rightarrow> 64 word \<Rightarrow> ('k, 't) face \<Rightarrow> ('k, 't) face \<times> api_value result" where
  "setInterestFilter_register l onInterest onSuccess onFailure flags f =
     (let r = \<lparr>fr_id = next_object f, m_filter = l, m_interestCallback = onInterest\<rparr>
      in registerPrefix (m_prefix l) (Some r) onSuccess onFailure flags (f\<lparr>next_object := next_object f + 1\<rparr>))"

definition setInterestFilter :: "interest_filter \<Rightarrow> 'k option \<Rightarrow> ('k, 't) face \<Rightarrow> ('k, 't) face \<times> api_value result" where
  "setInterestFilter l onInterest f =
     (let r = \<lparr>fr_id = next_object f, m_filter = l, m_interestCallback = onInterest\<rparr>
      in (post (AsyncSetInterestFilter r) (f\<lparr>next_object := next_object f + 1\<rparr>), Inr (Id (fr_id r))))"

definition asyncUnsetInterestFilter :: "nat \<Rightarrow> ('k, 't) face \<Rightarrow> ('k, 't) face" where
  "asyncUnsetInterestFilter i f =
     (let b = takeWhile (\<lambda>r. fr_id r \<noteq> i) (m_interestFilterTable f) in
      f\<lparr>m_interestFilterTable := b @ drop (length b + 1) (m_interestFilterTable f)\<rparr>)"


section \<open>Programs of the application\<close>

fun Face_api :: "('w, 'k, 't) env \<Rightarrow> int \<Rightarrow> 'k api \<Rightarrow> ('k, 't) face \<Rightarrow> ('k, 't) face \<times> api_value result" where
  "Face_api E now (ExpressInterest x tags r d n t) f = expressInterest E now x tags r (map_option Plain d) (map_option Plain n) t f"
| "Face_api E now (ExpressInterest_onData x tags r d t) f = expressInterest_onData E now x tags r d t f"
| "Face_api E now (ExpressInterest_name n tmpl tags r d t) f = expressInterest_name E now n tmpl tags r d t f"
| "Face_api E now (RemovePendingInterest i) f = (post (AsyncRemovePendingInterest i) f, Inr Done)"
| "Face_api E now RemoveAllPendingInterests f = (post AsyncRemoveAllPendingInterests f, Inr Done)"
| "Face_api E now GetNPendingInterests f = (f, Inr (Count (length (m_pendingInterestTable f))))"
| "Face_api E now (PutData d tags) f = put_data E d tags f"
| "Face_api E now (PutNack n tags r) f = put_nack E n tags r f"
| "Face_api E now (SetInterestFilter l k) f = setInterestFilter l k f"
| "Face_api E now (SetInterestFilter_register l k ok fail flags) f = setInterestFilter_register l k ok fail flags f"
| "Face_api E now (RegisterPrefix n ok fail flags) f = registerPrefix n None ok fail flags f"
| "Face_api E now (UnsetInterestFilter i) f = (post (AsyncUnsetInterestFilter i) f, Inr Done)"
| "Face_api E now (UnsetInterestFilter_registered i) f = (post (AsyncUnregisterPrefix i None None) f, Inr Done)"
| "Face_api E now (UnregisterPrefix i ok fail) f = (post (AsyncUnregisterPrefix i ok fail) f, Inr Done)"
| "Face_api E now Shutdown f = (post AsyncShutdown f, Inr Done)"

primrec run_prog :: "('w, 'k, 't) env \<Rightarrow> int \<Rightarrow> ('w, 'k) prog \<Rightarrow> ('k, 't) face \<Rightarrow> ('w \<times> ('k, 't) face) \<times> exn option" where
  "run_prog E now (Return w) = (\<lambda>f. ((w, f), None))"
| "run_prog E now (Throw e w) = (\<lambda>f. ((w, f), Some e))"
| "run_prog E now (Api a k) = (\<lambda>f. case Face_api E now a f of (f, r) \<Rightarrow> run_prog E now (k r) f)"

definition call_client :: "('w, 'k, 't) env \<Rightarrow> int \<Rightarrow> 'k \<Rightarrow> call \<Rightarrow> 'w \<times> ('k, 't) face \<Rightarrow> ('w \<times> ('k, 't) face) \<times> exn option" where
  "call_client E now k c ws = run_prog E now (e_client E k c (fst ws)) (snd ws)"

text \<open>A callback that is empty is not called; calling an empty \<open>std::function\<close> throws.\<close>

definition call_option :: "('w, 'k, 't) env \<Rightarrow> int \<Rightarrow> 'k option \<Rightarrow> call \<Rightarrow> 'w \<times> ('k, 't) face \<Rightarrow> ('w \<times> ('k, 't) face) \<times> exn option" where
  "call_option E now k c ws = (case k of None \<Rightarrow> (ws, None) | Some k \<Rightarrow> call_client E now k c ws)"

definition call_unchecked :: "('w, 'k, 't) env \<Rightarrow> int \<Rightarrow> 'k option \<Rightarrow> call \<Rightarrow> 'w \<times> ('k, 't) face \<Rightarrow> ('w \<times> ('k, 't) face) \<times> exn option" where
  "call_unchecked E now k c ws = (case k of None \<Rightarrow> (ws, Some BadFunctionCall) | Some k \<Rightarrow> call_client E now k c ws)"

definition call_fun :: "('w, 'k, 't) env \<Rightarrow> int \<Rightarrow> 'k callback_fun \<Rightarrow> call \<Rightarrow> 'w \<times> ('k, 't) face \<Rightarrow> ('w \<times> ('k, 't) face) \<times> exn option" where
  "call_fun E now g c ws = (case g of
     Plain k \<Rightarrow> call_client E now k c ws
   | WrapOnData k \<Rightarrow> call_option E now k c ws
   | WrapOnTimeout k \<Rightarrow> (case c of NackCall x _ _ \<Rightarrow> call_option E now k (TimeoutCall x) ws | _ \<Rightarrow> (ws, None)))"


section \<open>Packets received\<close>

text \<open>
  The loop over the pending Interests: the entries that match are erased and their callback is invoked. An
  iterator is the object of its node, or \<open>None\<close> for \<open>end()\<close>. The one to go on with is what \<open>erase\<close> returns, before
  the callback is invoked: it stays at that node, or at the end, whatever the callback adds to the list. So an
  entry a callback adds is visited if the iterator is at an older node meanwhile, and not if it is at the end.
  The local pointer keeps the entry, and with it the event of its timeout, until the end of the iteration.
\<close>

definition pit_begin :: "'k pending_interest list \<Rightarrow> nat option" where
  "pit_begin ps = (case ps of [] \<Rightarrow> None | p # _ \<Rightarrow> Some (pi_id p))"

partial_function (option) pit_loop ::
  "int \<Rightarrow> (interest \<Rightarrow> bool result) \<Rightarrow> ('k pending_interest \<Rightarrow> 'w \<times> ('k, 't) face \<Rightarrow> ('w \<times> ('k, 't) face) \<times> exn option)
    \<Rightarrow> nat option \<Rightarrow> 'w \<times> ('k, 't) face \<Rightarrow> (('w \<times> ('k, 't) face) \<times> exn option) option" where
  "pit_loop now test invoke it ws =
     (case it of
        None \<Rightarrow> Some (ws, None)
      | Some i \<Rightarrow> (case dropWhile (\<lambda>p. pi_id p \<noteq> i) (m_pendingInterestTable (snd ws)) of
          [] \<Rightarrow> Some (ws, Some (UndefinedBehaviour ''erased iterator''))
        | p # ps \<Rightarrow> (case test (m_interest p) of
            Inl e \<Rightarrow> Some (ws, Some e)
          | Inr m \<Rightarrow>
              if \<not> m then pit_loop now test invoke (pit_begin ps) ws
              else (case invoke p (fst ws, pit_erase i (snd ws)) of
                  ((w, f), None) \<Rightarrow> pit_loop now test invoke (pit_begin ps) (w, destroy now p f)
                | ((w, f), Some e) \<Rightarrow> Some ((w, destroy now p f), Some e)))))"

definition note_call :: "nat \<Rightarrow> call \<Rightarrow> ('k, 't) face \<Rightarrow> ('k, 't) face" where
  "note_call i c f = f\<lparr>called := called f @ [(i, c)]\<rparr>"

definition invokeDataCallback ::
  "('w, 'k, 't) env \<Rightarrow> int \<Rightarrow> data \<Rightarrow> net_tags \<Rightarrow> 'k pending_interest \<Rightarrow> 'w \<times> ('k, 't) face \<Rightarrow> ('w \<times> ('k, 't) face) \<times> exn option" where
  "invokeDataCallback E now d tags p ws =
     (let c = DataCall (m_interest p) d tags; ws = (fst ws, note_call (pi_id p) c (snd ws)) in
      case m_dataCallback p of None \<Rightarrow> (ws, None) | Some g \<Rightarrow> call_fun E now g c ws)"

definition invokeNackCallback ::
  "('w, 'k, 't) env \<Rightarrow> int \<Rightarrow> lp_nack \<Rightarrow> net_tags \<Rightarrow> 'k pending_interest \<Rightarrow> 'w \<times> ('k, 't) face \<Rightarrow> ('w \<times> ('k, 't) face) \<times> exn option" where
  "invokeNackCallback E now n tags p ws =
     (let c = NackCall (m_interest p) n tags; ws = (fst ws, note_call (pi_id p) c (snd ws)) in
      case m_nackCallback p of None \<Rightarrow> (ws, None) | Some g \<Rightarrow> call_fun E now g c ws)"

definition satisfyPendingInterests ::
  "('w, 'k, 't) env \<Rightarrow> int \<Rightarrow> data \<Rightarrow> net_tags \<Rightarrow> 'w \<times> ('k, 't) face \<Rightarrow> (('w \<times> ('k, 't) face) \<times> exn option) option" where
  "satisfyPendingInterests E now d tags ws = pit_loop now (\<lambda>x. matchesData (e_sha256 E) x d) (invokeDataCallback E now d tags)
     (pit_begin (m_pendingInterestTable (snd ws))) ws"

definition nackPendingInterests ::
  "('w, 'k, 't) env \<Rightarrow> int \<Rightarrow> lp_nack \<Rightarrow> net_tags \<Rightarrow> 'w \<times> ('k, 't) face \<Rightarrow> (('w \<times> ('k, 't) face) \<times> exn option) option" where
  "nackPendingInterests E now n tags ws = pit_loop now (matchesInterest (nack_interest n)) (invokeNackCallback E now n tags)
     (pit_begin (m_pendingInterestTable (snd ws))) ws"

partial_function (option) filter_loop ::
  "('w, 'k, 't) env \<Rightarrow> int \<Rightarrow> interest \<Rightarrow> net_tags \<Rightarrow> nat \<Rightarrow> 'w \<times> ('k, 't) face \<Rightarrow> (('w \<times> ('k, 't) face) \<times> exn option) option" where
  "filter_loop E now x tags i ws =
     (if i < length (m_interestFilterTable (snd ws)) then
        let r = m_interestFilterTable (snd ws) ! i in
        (case doesMatch (m_filter r) (i_name x) of
           Inl e \<Rightarrow> Some (ws, Some e)
         | Inr m \<Rightarrow>
             if \<not> m then filter_loop E now x tags (Suc i) ws
             else (case call_option E now (m_interestCallback r) (InterestCall (m_filter r) x tags) ws of
                 (ws, None) \<Rightarrow> filter_loop E now x tags (Suc i) ws
               | (ws, Some e) \<Rightarrow> Some (ws, Some e)))
      else Some (ws, None))"

definition processInterestFilters ::
  "('w, 'k, 't) env \<Rightarrow> int \<Rightarrow> interest \<Rightarrow> net_tags \<Rightarrow> 'w \<times> ('k, 't) face \<Rightarrow> (('w \<times> ('k, 't) face) \<times> exn option) option" where
  "processInterestFilters E now x tags = filter_loop E now x tags 0"

definition number_field :: "field \<Rightarrow> block \<Rightarrow> 64 word option result" where
  "number_field l p = bindE (Packet_has l p) (\<lambda>(h, p).
     if h then bindE (Packet_get l 0 p) (\<lambda>(v, p). Inr (case v of Number n \<Rightarrow> Some n | _ \<Rightarrow> None)) else Inr None)"

definition extractLpLocalFields :: "block \<Rightarrow> net_tags result" where
  "extractLpLocalFields p =
     bindE (number_field IncomingFaceIdField p) (\<lambda>i. bindE (number_field CongestionMarkField p) (\<lambda>c.
     Inr (no_tags\<lparr>IncomingFaceIdTag := i, CongestionMarkTag := c\<rparr>)))"

text \<open>What a received element is: the first part of \<open>onReceiveElement\<close>, up to the calls of the tables.\<close>

datatype received =
    AnInterest interest net_tags
  | ANack lp_nack net_tags
  | AData data net_tags
  | Another

definition read_element :: "block \<Rightarrow> received result" where
  "read_element b =
     bindE (Packet_wireDecode b) (\<lambda>p.
     bindE (Packet_get FragmentField 0 p) (\<lambda>(v, p). case v of
       Range bs \<Rightarrow> bindE (Block_raw bs) (\<lambda>net.
         if m_type net = tlv_Interest then
           bindE (Interest_of_block net) (\<lambda>x.
           bindE (Packet_has NackField p) (\<lambda>(h, p).
           if h then bindE (Packet_get NackField 0 p) (\<lambda>(v, p). case v of
               NackValue k \<Rightarrow> bindE (extractLpLocalFields p) (\<lambda>t. Inr (ANack (setHeader (Nack_of x) k) t))
             | _ \<Rightarrow> Inr Another)
           else bindE (extractLpLocalFields p) (\<lambda>t. Inr (AnInterest x t))))
         else if m_type net = tlv_Data then
           bindE (Data_of_block net) (\<lambda>d. bindE (extractLpLocalFields p) (\<lambda>t. Inr (AData d t)))
         else Inr Another)
     | _ \<Rightarrow> Inr Another))"

definition onReceiveElement ::
  "('w, 'k, 't) env \<Rightarrow> int \<Rightarrow> block \<Rightarrow> 'w \<times> ('k, 't) face \<Rightarrow> (('w \<times> ('k, 't) face) \<times> exn option) option" where
  "onReceiveElement E now b ws = (case read_element b of
     Inl e \<Rightarrow> Some (ws, Some e)
   | Inr (AnInterest x t) \<Rightarrow> processInterestFilters E now x t ws
   | Inr (ANack n t) \<Rightarrow> nackPendingInterests E now n t ws
   | Inr (AData d t) \<Rightarrow> satisfyPendingInterests E now d t ws
   | Inr Another \<Rightarrow> Some (ws, None))"


section \<open>Timeouts\<close>

text \<open>The callback of the event of a pending Interest; the object it belongs to must still be there.\<close>

definition invokeTimeoutCallback ::
  "('w, 'k, 't) env \<Rightarrow> int \<Rightarrow> nat \<Rightarrow> 'w \<times> ('k, 't) face \<Rightarrow> ('w \<times> ('k, 't) face) \<times> exn option" where
  "invokeTimeoutCallback E now i ws =
     (case List.find (\<lambda>p. pi_id p = i) (m_pendingInterestTable (snd ws)) of
        None \<Rightarrow> (ws, Some (UndefinedBehaviour ''this was deleted''))
      | Some p \<Rightarrow>
          let c = TimeoutCall (m_interest p) in
          andthen (call_option E now (m_timeoutCallback p) c (fst ws, note_call i c (snd ws))) (\<lambda>(w, f).
            ((w, destroy now p (pit_erase i f)), None)))"

fun run_timer_task ::
  "('w, 'k, 't) env \<Rightarrow> int \<Rightarrow> timer_task \<Rightarrow> 'w \<times> ('k, 't) face \<Rightarrow> ('w \<times> ('k, 't) face) \<times> exn option" where
  "run_timer_task E now (InvokeTimeout i) ws = invokeTimeoutCallback E now i ws"
| "run_timer_task E now StopProcessing (w, f) = ((w, f\<lparr>io_stopped := True, m_ioServiceWork := False\<rparr>), None)"

text \<open>The scheduler is a part of the face; its handler has it at hand as the state it changes.\<close>

definition timer_callback ::
  "('w, 'k, 't) env \<Rightarrow> int \<Rightarrow> timer_task \<Rightarrow> ('w \<times> ('k, 't) face) \<times> timer_task scheduler
    \<Rightarrow> (('w \<times> ('k, 't) face) \<times> timer_task scheduler) \<times> exn option" where
  "timer_callback E now t = (\<lambda>((w, f), s).
     case run_timer_task E now t (w, f\<lparr>m_scheduler := s\<rparr>) of (ws, e) \<Rightarrow> ((ws, m_scheduler (snd ws)), e))"

definition onTimer ::
  "('w, 'k, 't) env \<Rightarrow> bool \<Rightarrow> int \<Rightarrow> int \<Rightarrow> 'w \<times> ('k, 't) face \<Rightarrow> (('w \<times> ('k, 't) face) \<times> exn option) option" where
  "onTimer E error now now' ws =
     (case executeEvent (timer_callback E now) error now now' (ws, m_scheduler (snd ws)) of
        None \<Rightarrow> None
      | Some (((w, f), s), e) \<Rightarrow> Some ((w, f\<lparr>m_scheduler := s\<rparr>), e))"


section \<open>Answers of the forwarder\<close>

definition afterPrefixRegistered ::
  "('w, 'k, 't) env \<Rightarrow> int \<Rightarrow> 'k registered_prefix \<Rightarrow> 'k option \<Rightarrow> 'w \<times> ('k, 't) face \<Rightarrow> ('w \<times> ('k, 't) face) \<times> exn option" where
  "afterPrefixRegistered E now p onSuccess = (\<lambda>(w, f).
     let f = f\<lparr>m_registeredPrefixTable := m_registeredPrefixTable f @ [p]\<rparr>;
         f = (case rp_filter p of None \<Rightarrow> f | Some r \<Rightarrow> f\<lparr>m_interestFilterTable := m_interestFilterTable f @ [r]\<rparr>)
     in call_option E now onSuccess (RegisterSuccessCall (rp_prefix p)) (w, f))"

text \<open>The iterator of the entry was taken when the command was started; erasing it again is undefined.\<close>

definition finalizeUnregisterPrefix ::
  "('w, 'k, 't) env \<Rightarrow> int \<Rightarrow> nat \<Rightarrow> 'k option \<Rightarrow> 'w \<times> ('k, 't) face \<Rightarrow> ('w \<times> ('k, 't) face) \<times> exn option" where
  "finalizeUnregisterPrefix E now i onSuccess = (\<lambda>(w, f).
     if i \<notin> rp_id ` set (m_registeredPrefixTable f) then ((w, f), Some (UndefinedBehaviour ''erase''))
     else call_option E now onSuccess UnregisterSuccessCall (w, registered_erase i f))"

definition asyncUnregisterPrefix ::
  "('w, 'k, 't) env \<Rightarrow> int \<Rightarrow> nat \<Rightarrow> 'k option \<Rightarrow> 'k option \<Rightarrow> 'w \<times> ('k, 't) face \<Rightarrow> ('w \<times> ('k, 't) face) \<times> exn option" where
  "asyncUnregisterPrefix E now i onSuccess onFailure = (\<lambda>(w, f).
     case List.find (\<lambda>p. rp_id p = i) (m_registeredPrefixTable f) of
       Some p \<Rightarrow>
         let f = (case rp_filter p of None \<Rightarrow> f
               | Some r \<Rightarrow> f\<lparr>m_interestFilterTable := filter (\<lambda>q. fr_id q \<noteq> fr_id r) (m_interestFilterTable f)\<rparr>)
         in ((w, f\<lparr>m_nfdController := m_nfdController f @ [RibUnregister p onSuccess onFailure]\<rparr>), None)
     | None \<Rightarrow> call_option E now onFailure (UnregisterFailureCall ''Unrecognized PrefixId'') (w, f))"

text \<open>The forwarder answers a command with success or with a failure and its text.\<close>

fun answer_command ::
  "('w, 'k, 't) env \<Rightarrow> int \<Rightarrow> 'k command \<Rightarrow> string option \<Rightarrow> 'w \<times> ('k, 't) face \<Rightarrow> ('w \<times> ('k, 't) face) \<times> exn option" where
  "answer_command E now (RibRegister p flags ok fail) None ws = afterPrefixRegistered E now p ok ws"
| "answer_command E now (RibRegister p flags ok fail) (Some text) ws = call_unchecked E now fail (RegisterFailureCall (rp_prefix p) text) ws"
| "answer_command E now (RibUnregister p ok fail) None ws = finalizeUnregisterPrefix E now (rp_id p) ok ws"
| "answer_command E now (RibUnregister p ok fail) (Some text) ws = call_unchecked E now fail (UnregisterFailureCall text) ws"


section \<open>The events of a face\<close>

fun run_task ::
  "('w, 'k, 't) env \<Rightarrow> int \<Rightarrow> 'k task \<Rightarrow> 'w \<times> ('k, 't) face \<Rightarrow> ('w \<times> ('k, 't) face) \<times> exn option" where
  "run_task E now EnsureConnected (w, f) = (case ensureConnected E False f of (f, e) \<Rightarrow> ((w, f), e))"
| "run_task E now (AsyncExpressInterest i x tags d n t) (w, f) = (case asyncExpressInterest E now i x tags d n t f of (f, e) \<Rightarrow> ((w, f), e))"
| "run_task E now (AsyncSend b) (w, f) = (case asyncSend E b f of (f, e) \<Rightarrow> ((w, f), e))"
| "run_task E now (AsyncRemovePendingInterest i) (w, f) = ((w, pit_remove_if now (\<lambda>p. pi_id p = i) f), None)"
| "run_task E now AsyncRemoveAllPendingInterests (w, f) = ((w, pit_clear now f), None)"
| "run_task E now (AsyncSetInterestFilter r) (w, f) = ((w, f\<lparr>m_interestFilterTable := m_interestFilterTable f @ [r]\<rparr>), None)"
| "run_task E now (AsyncUnsetInterestFilter i) (w, f) = ((w, asyncUnsetInterestFilter i f), None)"
| "run_task E now (AsyncUnregisterPrefix i ok fail) (w, f) = asyncUnregisterPrefix E now i ok fail (w, f)"
| "run_task E now AsyncShutdown (w, f) = (case asyncShutdown E now f of (f, e) \<Rightarrow> ((w, f), e))"
| "run_task E now OnEmptyPitOrNoRegisteredPrefixes (w, f) = (case onEmptyPitOrNoRegisteredPrefixes E now f of (f, e) \<Rightarrow> ((w, f), e))"

definition Face_new :: "'t \<Rightarrow> ('k, 't) face" where
  "Face_new t = post EnsureConnected \<lparr>m_transport = t, m_scheduler = Scheduler_new, m_processEventsTimeoutEvent = None,
     m_pendingInterestTable = [], m_interestFilterTable = [], m_registeredPrefixTable = [], m_ioServiceWork = False,
     io_posted = [], io_stopped = False, io_thread = False, m_nfdController = [], next_object = 0, called = []\<rparr>"

text \<open>The beginning of \<open>doProcessEvents\<close>, before the io service runs, and its handler of exceptions.\<close>

definition processEvents :: "int \<Rightarrow> int \<Rightarrow> bool \<Rightarrow> ('k, 't) face \<Rightarrow> ('k, 't) face" where
  "processEvents now timeout keepThread f =
     (let f = f\<lparr>io_stopped := False\<rparr> in
      if timeout < 0 then f
      else
        let f = (if timeout > 0 then
              let (e, s) = scheduleEvent now (int64 (timeout * 10 ^ 6)) StopProcessing (m_scheduler f);
                  (e, s) = ScopedEventId_assign now e (m_processEventsTimeoutEvent f, s)
              in f\<lparr>m_processEventsTimeoutEvent := e, m_scheduler := s\<rparr>
            else f)
        in if keepThread then f\<lparr>m_ioServiceWork := True\<rparr> else f)"

definition processEvents_catch :: "int \<Rightarrow> ('k, 't) face \<Rightarrow> ('k, 't) face" where
  "processEvents_catch now f = registered_clear (pit_clear now (f\<lparr>m_ioServiceWork := False\<rparr>))"

text \<open>
  What happens to a face: its io service runs what was posted or the handler of the timer, the transport
  delivers an element, the forwarder answers a command, the application runs a program, in the thread of the
  io service or outside of it, or enters \<open>processEvents\<close>.
\<close>

datatype ('w, 'k) event =
    RunPosted
  | Receive block
  | Timer bool int
  | Answer nat "string option"
  | Application bool "'w \<Rightarrow> ('w, 'k) prog"
  | ProcessEvents int bool

fun handle_event :: "('w, 'k, 't) env \<Rightarrow> int \<Rightarrow> ('w, 'k) event \<Rightarrow> 'w \<times> ('k, 't) face \<Rightarrow> (('w \<times> ('k, 't) face) \<times> exn option) option" where
  "handle_event E now RunPosted (w, f) = (case io_posted f of
      [] \<Rightarrow> Some ((w, f), None)
    | t # ts \<Rightarrow> Some (run_task E now t (w, f\<lparr>io_posted := ts\<rparr>)))"
| "handle_event E now (Receive b) ws = onReceiveElement E now b ws"
| "handle_event E now (Timer error now') ws = onTimer E error now now' ws"
| "handle_event E now (Answer n a) (w, f) =
    (if n < length (m_nfdController f)
     then Some (answer_command E now (m_nfdController f ! n) a
       (w, f\<lparr>m_nfdController := take n (m_nfdController f) @ drop (Suc n) (m_nfdController f)\<rparr>))
     else Some ((w, f), None))"
| "handle_event E now (Application b p) (w, f) = Some (run_prog E now (p w) f)"
| "handle_event E now (ProcessEvents timeout keepThread) (w, f) = Some ((w, processEvents now timeout keepThread f), None)"

fun in_thread :: "('w, 'k) event \<Rightarrow> bool" where
  "in_thread (Application b p) = b"
| "in_thread (ProcessEvents timeout keepThread) = False"
| "in_thread _ = True"

text \<open>One event at a time that the clock shows; an exception in the thread of the io service leaves
  \<open>processEvents\<close>.\<close>

definition Face_event :: "('w, 'k, 't) env \<Rightarrow> int \<Rightarrow> ('w, 'k) event \<Rightarrow> 'w \<times> ('k, 't) face \<Rightarrow> (('w \<times> ('k, 't) face) \<times> exn option) option" where
  "Face_event E now ev ws =
     (case handle_event E now ev (fst ws, (snd ws)\<lparr>io_thread := in_thread ev\<rparr>) of
        None \<Rightarrow> None
      | Some ((w, f), None) \<Rightarrow> Some ((w, f), None)
      | Some ((w, f), Some e) \<Rightarrow> Some ((w, if in_thread ev then processEvents_catch now f else f), Some e))"

end
