(* ===== verification/FaceProps.thy ===== *)
theory FaceProps
  imports Face
begin

text \<open>
  The invariant of a face: the pending Interests and the events of their timeouts belong together one to one,
  and every Interest is answered by at most one call. Every operation keeps it, and so does every program of
  the application.
\<close>

section \<open>The invariant\<close>

fun express_ids :: "'k task \<Rightarrow> nat list" where
  "express_ids (AsyncExpressInterest i x tags d n t) = [i]"
| "express_ids _ = []"

definition posted_ids :: "('k, 't) face \<Rightarrow> nat list" where
  "posted_ids f = concat (map express_ids (io_posted f))"

text \<open>The events of timeouts belong to the objects of a list.\<close>

definition tied :: "timer_task event_info list \<Rightarrow> 'k pending_interest list \<Rightarrow> bool" where
  "tied q ps \<longleftrightarrow> (\<forall>p \<in> set ps. \<exists>e \<in> set q. m_timeoutEvent p = Some (ev_id e) \<and> callback e = InvokeTimeout (pi_id p))
    \<and> (\<forall>e \<in> set q. \<forall>i. callback e = InvokeTimeout i \<longrightarrow> (\<exists>p \<in> set ps. pi_id p = i \<and> m_timeoutEvent p = Some (ev_id e)))"

definition stop_ok :: "timer_task scheduler \<Rightarrow> event_id \<Rightarrow> bool" where
  "stop_ok s v \<longleftrightarrow> (\<forall>k. v = Some k \<longrightarrow> k < next_event s \<and> (\<forall>e \<in> set (m_queue s). ev_id e = k \<longrightarrow> callback e = StopProcessing))"

text \<open>No two objects hold one event, and no event to come is held already.\<close>

definition own_events :: "timer_task scheduler \<Rightarrow> 'k pending_interest list \<Rightarrow> bool" where
  "own_events s ps \<longleftrightarrow> distinct (map m_timeoutEvent ps) \<and> (\<forall>p \<in> set ps. \<exists>k < next_event s. m_timeoutEvent p = Some k)"

text \<open>While an entry is handled it is out of the table with its event still there (the list \<open>X\<close>), or in the
  table with its event executed (the set \<open>Y\<close>).\<close>

definition face_inv :: "'k pending_interest list \<Rightarrow> nat set \<Rightarrow> ('k, 't) face \<Rightarrow> bool" where
  "face_inv X Y f \<longleftrightarrow> scheduler_ok (m_scheduler f) \<and> stop_ok (m_scheduler f) (m_processEventsTimeoutEvent f)
    \<and> tied (m_queue (m_scheduler f)) (X @ filter (\<lambda>p. pi_id p \<notin> Y) (m_pendingInterestTable f))
    \<and> own_events (m_scheduler f) (m_pendingInterestTable f @ X)
    \<and> distinct (map pi_id (m_pendingInterestTable f) @ map pi_id X @ posted_ids f)
    \<and> (\<forall>i \<in> Y \<union> set (map pi_id (m_pendingInterestTable f) @ map pi_id X @ posted_ids f @ map fst (called f)). i < next_object f)
    \<and> distinct (map fst (called f))
    \<and> (\<forall>i \<in> set (map fst (called f)). i \<notin> set (posted_ids f) \<and> (i \<in> pi_id ` set (m_pendingInterestTable f) \<longrightarrow> i \<in> Y))"

lemma face_invD:
  assumes "face_inv X Y f"
  shows "scheduler_ok (m_scheduler f)" and "stop_ok (m_scheduler f) (m_processEventsTimeoutEvent f)"
    and "tied (m_queue (m_scheduler f)) (X @ filter (\<lambda>p. pi_id p \<notin> Y) (m_pendingInterestTable f))"
    and "own_events (m_scheduler f) (m_pendingInterestTable f @ X)"
    and "distinct (map pi_id (m_pendingInterestTable f) @ map pi_id X @ posted_ids f)"
    and "\<And>i. i \<in> Y \<union> set (map pi_id (m_pendingInterestTable f) @ map pi_id X @ posted_ids f @ map fst (called f)) \<Longrightarrow> i < next_object f"
    and "distinct (map fst (called f))"
    and "\<And>i. i \<in> set (map fst (called f)) \<Longrightarrow> i \<notin> set (posted_ids f) \<and> (i \<in> pi_id ` set (m_pendingInterestTable f) \<longrightarrow> i \<in> Y)"
  by (use assms in \<open>unfold face_inv_def, blast\<close>)+

abbreviation face_ok :: "('k, 't) face \<Rightarrow> bool" where
  "face_ok \<equiv> face_inv [] {}"

text \<open>The parts of the state a program of the application leaves as they are, apart from additions at the end.\<close>

definition grows :: "('k, 't) face \<Rightarrow> ('k, 't) face \<Rightarrow> bool" where
  "grows f g \<longleftrightarrow> m_interestFilterTable g = m_interestFilterTable f \<and> m_registeredPrefixTable g = m_registeredPrefixTable f
    \<and> called g = called f \<and> io_thread g = io_thread f \<and> io_stopped g = io_stopped f
    \<and> m_processEventsTimeoutEvent g = m_processEventsTimeoutEvent f
    \<and> m_isEventExecuting (m_scheduler g) = m_isEventExecuting (m_scheduler f)
    \<and> next_object f \<le> next_object g
    \<and> (\<exists>ps. m_pendingInterestTable g = m_pendingInterestTable f @ ps)
    \<and> (\<exists>ts. io_posted g = io_posted f @ ts)"

lemma grows_refl: "grows f f"
  by (simp add: grows_def)

lemma grows_trans: "grows f g \<Longrightarrow> grows g h \<Longrightarrow> grows f h"
  by (auto simp: grows_def)

text \<open>Only the transport changes.\<close>

lemma andthen_cases:
  assumes "andthen m g = (s, e)"
  obtains a where "m = (s, Some a)" and "e = Some a" | t where "m = (t, None)" and "g t = (s, e)"
  using assms by (cases m; cases "snd m") auto

lemma transport_inv [simp]: "face_inv X Y (f\<lparr>m_transport := t\<rparr>) = face_inv X Y f"
  by (simp add: face_inv_def posted_ids_def)

lemma transport_grows [simp]: "grows f (f\<lparr>m_transport := t\<rparr>)"
  by (simp add: grows_def)

lemma on_transport_eq: "on_transport g f = (f', e) \<Longrightarrow> \<exists>t. f' = f\<lparr>m_transport := t\<rparr>"
  by (auto simp: on_transport_def split: prod.splits)

lemma ensureConnected_eq:
  assumes "ensureConnected E r f = (f', e)"
  shows "\<exists>t. f' = f\<lparr>m_transport := t\<rparr>"
proof -
  have first: "\<exists>t. g = f\<lparr>m_transport := t\<rparr>"
    if "(if \<not> isConnected E (m_transport f) then on_transport (t_connect E) f else (f, None)) = (g, a)" for g a
    using that on_transport_eq [of "t_connect E" f g a] by (auto split: if_splits intro: exI [of _ "m_transport f"])
  have second: "\<exists>t. h = g\<lparr>m_transport := t\<rparr>"
    if "(if r \<and> \<not> isReceiving E (m_transport g) then on_transport (t_resume E) g else (g, None)) = (h, a)" for g h a
    using that on_transport_eq [of "t_resume E" g h a] by (auto split: if_splits intro: exI [of _ "m_transport g"])
  from assms show ?thesis unfolding ensureConnected_def
  proof (cases rule: andthen_cases)
    case (1 a)
    then show ?thesis using first by blast
  next
    case (2 g)
    then obtain t where "g = f\<lparr>m_transport := t\<rparr>" using first by blast
    moreover obtain u where "f' = g\<lparr>m_transport := u\<rparr>" using second 2(2) by blast
    ultimately show ?thesis by auto
  qed
qed

section \<open>Expressing an Interest keeps the invariant\<close>

lemma assign_new: "ScopedEventId_assign now (Some k) (None, s) = (if EventId_valid s (Some k) then (Some k, s) else (None, s))"
  by (simp add: ScopedEventId_assign_def EventId_equals_def cancelEvent_def EventId_valid_def)

definition new_entry :: "nat \<Rightarrow> interest \<Rightarrow> 'k callback_fun option \<Rightarrow> 'k callback_fun option \<Rightarrow> 'k option \<Rightarrow> event_id \<Rightarrow> 'k pending_interest" where
  "new_entry i x d n t e = \<lparr>pi_id = i, m_interest = x, m_dataCallback = d, m_nackCallback = n, m_timeoutCallback = t, m_timeoutEvent = e\<rparr>"

lemma pit_insert_eq:
  "pit_insert now i x d n t f = f\<lparr>m_scheduler := snd (scheduleEvent now (timeout_of x) (InvokeTimeout i) (m_scheduler f)),
    m_pendingInterestTable := m_pendingInterestTable f @ [new_entry i x d n t (Some (next_event (m_scheduler f)))]\<rparr>"
proof -
  let ?s = "snd (scheduleEvent now (timeout_of x) (InvokeTimeout i) (m_scheduler f))"
  have v: "EventId_valid ?s (Some (next_event (m_scheduler f)))" by (simp add: EventId_valid_def scheduleEvent_run)
  obtain s where s: "scheduleEvent now (timeout_of x) (InvokeTimeout i) (m_scheduler f) = (Some (next_event (m_scheduler f)), s)"
    using scheduleEvent_run(1) by (metis prod.collapse)
  then show ?thesis using v by (simp add: pit_insert_def assign_new new_entry_def)
qed

lemma tied_insert:
  assumes "tied q ps" and "m_timeoutEvent p = Some (ev_id e)" and "callback e = InvokeTimeout (pi_id p)"
  shows "tied (queue_insert e q) (ps @ [p])"
  using assms by (auto simp: tied_def)

lemma own_insert:
  assumes "own_events s (ps @ X)" and "next_event t = next_event s + 1" and "m_timeoutEvent p = Some (next_event s)"
  shows "own_events t ((ps @ [p]) @ X)"
proof -
  have "Some (next_event s) \<notin> m_timeoutEvent ` set (ps @ X)" using assms(1) unfolding own_events_def by (metis imageE less_irrefl option.inject)
  moreover have "\<exists>k < next_event t. m_timeoutEvent q = Some k" if "q \<in> set (ps @ X)" for q
    using assms(1,2) that unfolding own_events_def by (metis less_Suc_eq Suc_eq_plus1)
  ultimately show ?thesis using assms by (auto simp: own_events_def)
qed

lemma pit_insert_inv:
  assumes "face_inv X Y f" and "i < next_object f" and "i \<notin> Y"
    and "i \<notin> set (map pi_id (m_pendingInterestTable f) @ map pi_id X @ posted_ids f @ map fst (called f))"
  shows "face_inv X Y (pit_insert now i x d n t f)" and "grows f (pit_insert now i x d n t f)"
proof -
  let ?s = "snd (scheduleEvent now (timeout_of x) (InvokeTimeout i) (m_scheduler f))"
  let ?p = "new_entry i x d n t (Some (next_event (m_scheduler f)))"
  have ok: "scheduler_ok (m_scheduler f)" using assms(1) by (simp add: face_inv_def)
  have "tied (m_queue ?s) ((X @ filter (\<lambda>p. pi_id p \<notin> Y) (m_pendingInterestTable f)) @ [?p])"
    using assms(1) unfolding scheduleEvent_run by (intro tied_insert) (simp_all add: face_inv_def new_entry_def)
  moreover have "stop_ok ?s (m_processEventsTimeoutEvent f)"
    using assms(1) by (auto simp: face_inv_def stop_ok_def scheduleEvent_run)
  moreover have "own_events ?s ((m_pendingInterestTable f @ [?p]) @ X)"
    using face_invD(4) [OF assms(1)] by (rule own_insert) (simp_all add: scheduleEvent_run new_entry_def)
  moreover have "pi_id ?p = i" "\<forall>c \<in> set (called f). fst c \<noteq> i" using assms(4) by (auto simp: new_entry_def)
  ultimately show "face_inv X Y (pit_insert now i x d n t f)"
    using assms scheduleEvent_ok [OF ok] unfolding pit_insert_eq by (simp add: face_inv_def posted_ids_def)
  show "grows f (pit_insert now i x d n t f)"
    unfolding pit_insert_eq by (simp add: grows_def scheduleEvent_run)
qed

lemma asyncExpressInterest_inv:
  assumes "face_inv X Y f" and "i < next_object f" and "i \<notin> Y"
    and "i \<notin> set (map pi_id (m_pendingInterestTable f) @ map pi_id X @ posted_ids f @ map fst (called f))"
    and "asyncExpressInterest E now i x tags d n t f = (g, e)"
  shows "face_inv X Y g \<and> grows f g"
  using assms(5) unfolding asyncExpressInterest_def
proof (cases rule: andthen_cases)
  case (1 a)
  then show ?thesis using ensureConnected_eq [of E True f g] assms(1) by auto
next
  case (2 h)
  obtain u where h: "h = f\<lparr>m_transport := u\<rparr>" using ensureConnected_eq [OF 2(1)] by blast
  let ?h = "pit_insert now i x d n t h"
  have "face_inv X Y h" "i \<notin> set (map pi_id (m_pendingInterestTable h) @ map pi_id X @ posted_ids h @ map fst (called h))"
    "i < next_object h" using assms(1,2,4) h by (simp_all add: posted_ids_def)
  then have k: "face_inv X Y ?h" "grows h ?h" using pit_insert_inv [of X Y h i now x d n t] assms(3) by blast+
  have "\<exists>u. g = ?h\<lparr>m_transport := u\<rparr>"
  proof (cases "interest_packet x tags")
    case (Inl a)
    then show ?thesis using 2(2) by (intro exI [of _ "m_transport ?h"]) (simp add: Let_def)
  next
    case (Inr b)
    then have "on_transport (t_send E b) ?h = (g, e)" using 2(2) by (simp add: Let_def)
    then show ?thesis by (rule on_transport_eq)
  qed
  then obtain u' where "g = ?h\<lparr>m_transport := u'\<rparr>" by blast
  moreover have "grows f h" using h by simp
  ultimately show ?thesis using k grows_trans [of f h ?h] grows_trans [of f ?h "?h\<lparr>m_transport := u'\<rparr>"] by simp
qed

lemma post_grows [simp]: "grows f (post t f)"
  by (simp add: grows_def post_def)

lemma post_inv [simp]: "express_ids t = [] \<Longrightarrow> face_inv X Y (post t f) = face_inv X Y f"
  by (simp add: face_inv_def post_def posted_ids_def)

lemma next_object_inv: "face_inv X Y f \<Longrightarrow> face_inv X Y (f\<lparr>next_object := next_object f + k\<rparr>)"
  unfolding face_inv_def posted_ids_def by (simp add: ball_Un trans_less_add1)

lemma next_object_grows: "grows f (f\<lparr>next_object := next_object f + k\<rparr>)"
  by (simp add: grows_def)

lemma post_express_inv:
  assumes "face_inv X Y f" and "i < next_object f" and "i \<notin> Y"
    and "i \<notin> set (map pi_id (m_pendingInterestTable f) @ map pi_id X @ posted_ids f @ map fst (called f))"
  shows "face_inv X Y (post (AsyncExpressInterest i x tags d n t) f)"
proof -
  have "posted_ids (post (AsyncExpressInterest i x tags d n t) f) = posted_ids f @ [i]" by (simp add: posted_ids_def post_def)
  moreover have "\<forall>c \<in> set (map fst (called f)). c \<noteq> i" using assms(4) by auto
  ultimately show ?thesis using assms by (simp add: face_inv_def post_def del: set_map)
qed

lemma expressInterest_inv:
  assumes "face_inv X Y f" and "expressInterest E now x tags r d n t f = (g, v)"
  shows "face_inv X Y g \<and> grows f g"
proof -
  let ?i = "next_object f" and ?f = "f\<lparr>next_object := next_object f + 1\<rparr>"
  have f: "face_inv X Y ?f" "grows f ?f" using assms(1) next_object_inv next_object_grows by blast+
  have fresh: "?i < next_object ?f" "?i \<notin> Y"
      "?i \<notin> set (map pi_id (m_pendingInterestTable ?f) @ map pi_id X @ posted_ids ?f @ map fst (called ?f))"
    using assms(1) by (auto simp: face_inv_def posted_ids_def)
  have step: "face_inv X Y h \<and> grows f h"
    if "dispatch (AsyncExpressInterest ?i y tags d n t) (asyncExpressInterest E now ?i y tags d n t) ?f = (h, e)" for y h e
  proof (cases "io_thread ?f")
    case True
    then have "asyncExpressInterest E now ?i y tags d n t ?f = (h, e)" using that by (simp add: dispatch_def)
    then show ?thesis using asyncExpressInterest_inv [OF f(1) fresh] grows_trans [OF f(2)] by blast
  next
    case False
    then have "h = post (AsyncExpressInterest ?i y tags d n t) ?f" using that by (simp add: dispatch_def)
    then show ?thesis using post_express_inv [OF f(1) fresh] grows_trans [OF f(2) post_grows] by blast
  qed
  show ?thesis using assms(1,2) step grows_refl [of f]
    by (auto simp: expressInterest_def Let_def split: sum.splits prod.splits option.splits if_splits)
qed

lemma asyncSend_eq: "asyncSend E b f = (g, e) \<Longrightarrow> \<exists>u. g = f\<lparr>m_transport := u\<rparr>"
  unfolding asyncSend_def
proof (elim andthen_cases)
  fix h assume "ensureConnected E True f = (h, None)" "on_transport (t_send E b) h = (g, e)"
  then obtain u v where "h = f\<lparr>m_transport := u\<rparr>" "g = h\<lparr>m_transport := v\<rparr>" using ensureConnected_eq on_transport_eq by blast
  then show "\<exists>u. g = f\<lparr>m_transport := u\<rparr>" by auto
qed (simp add: ensureConnected_eq)

lemma put_packet_inv:
  assumes "face_inv X Y f" and "put_packet E what m f = (g, v)"
  shows "face_inv X Y g \<and> grows f g"
proof -
  have step: "face_inv X Y h \<and> grows f h" if "dispatch (AsyncSend b) (asyncSend E b) f = (h, e)" for b h e
    using that assms(1) asyncSend_eq [of E b f h e] by (auto simp: dispatch_def split: if_splits)
  show ?thesis using assms step grows_refl [of f]
    by (auto simp: put_packet_def split: sum.splits prod.splits option.splits if_splits)
qed

lemma controller_inv [simp]: "face_inv X Y (f\<lparr>m_nfdController := c\<rparr>) = face_inv X Y f" "grows f (f\<lparr>m_nfdController := c\<rparr>)"
  by (simp_all add: face_inv_def posted_ids_def grows_def)

lemma registerPrefix_inv:
  assumes "face_inv X Y f" and "registerPrefix n l ok fail flags f = (g, v)"
  shows "face_inv X Y g \<and> grows f g"
proof -
  let ?f = "f\<lparr>next_object := next_object f + 1\<rparr>"
  have f: "face_inv X Y ?f" "grows f ?f" using assms(1) next_object_inv next_object_grows by blast+
  obtain c where "g = ?f\<lparr>m_nfdController := c\<rparr>" using assms(2) by (auto simp: registerPrefix_def Let_def)
  moreover have "grows f (?f\<lparr>m_nfdController := c\<rparr>)" by (rule grows_trans [OF f(2)]) (simp only: controller_inv)
  ultimately show ?thesis using f(1) by (simp only: controller_inv)
qed

lemma Face_api_inv:
  assumes "face_inv X Y f" and "Face_api E now a f = (g, v)"
  shows "face_inv X Y g \<and> grows f g"
proof -
  let ?f = "f\<lparr>next_object := next_object f + 1\<rparr>"
  have f: "face_inv X Y ?f" "grows f ?f" using assms(1) next_object_inv next_object_grows by blast+
  show ?thesis
  proof (cases a)
    case (ExpressInterest_name n x tags r d t)
    then show ?thesis using assms expressInterest_inv [OF assms(1)] grows_refl [of f]
      by (simp add: expressInterest_name_def expressInterest_onData_def split: sum.splits) blast
  next
    case (ExpressInterest_onData x tags r d t)
    then show ?thesis using assms expressInterest_inv [OF assms(1)] by (simp add: expressInterest_onData_def)
  next
    case (ExpressInterest x tags r d n t)
    then show ?thesis using assms expressInterest_inv [OF assms(1)] by simp
  next
    case (PutData d tags)
    then show ?thesis using assms put_packet_inv [OF assms(1)] by (simp add: put_data_def)
  next
    case (PutNack n tags r)
    then show ?thesis using assms put_packet_inv [OF assms(1)] by (simp add: put_nack_def)
  next
    case (SetInterestFilter l k)
    then have "\<exists>t. g = post t ?f \<and> express_ids t = []" using assms(2) by (auto simp: setInterestFilter_def Let_def)
    then show ?thesis using f grows_trans [OF f(2) post_grows] by auto
  next
    case (SetInterestFilter_register l k ok fail flags)
    then obtain r where "registerPrefix (m_prefix l) (Some r) ok fail flags ?f = (g, v)"
      using assms(2) by (simp add: setInterestFilter_register_def Let_def)
    then show ?thesis using registerPrefix_inv [OF f(1)] grows_trans [OF f(2)] by blast
  next
    case (RegisterPrefix n ok fail flags)
    then show ?thesis using assms registerPrefix_inv [OF assms(1)] by simp
  qed (use assms in \<open>auto simp: grows_refl\<close>)
qed

text \<open>What a callback does, whatever program it is.\<close>

lemma run_prog_inv: "face_inv X Y f \<Longrightarrow> run_prog E now p f = ((w, g), e) \<Longrightarrow> face_inv X Y g \<and> grows f g"
proof (induction p arbitrary: f)
  case (Api a k)
  obtain h v where h: "Face_api E now a f = (h, v)" by fastforce
  have "face_inv X Y g \<and> grows h g" using Api.IH [of "k v" h] Api.prems Face_api_inv [OF Api.prems(1) h] h by (auto simp: rangeI)
  then show ?case using Face_api_inv [OF Api.prems(1) h] grows_trans by blast
qed (auto simp: grows_refl)


section \<open>Erasing entries\<close>

lemma tied_set: "set ps = set qs \<Longrightarrow> tied q ps \<longleftrightarrow> tied q qs"
  by (simp add: tied_def)

lemma destroy_eq:
  "destroy now p f = f\<lparr>m_scheduler := cancelEvent now (m_timeoutEvent p) (m_scheduler f)\<rparr>"
  by (simp add: destroy_def ScopedEventId_cancel_def)

text \<open>Cancelling an event that is held by an object of its own leaves the others.\<close>

lemma tied_cancel:
  assumes "tied q ps" and "m_timeoutEvent p \<notin> m_timeoutEvent ` set ps'" and "set ps' \<subseteq> set ps"
    and "\<And>r. r \<in> set ps \<Longrightarrow> r \<notin> set ps' \<Longrightarrow> m_timeoutEvent r = m_timeoutEvent p"
  shows "tied (filter (\<lambda>e. Some (ev_id e) \<noteq> m_timeoutEvent p) q) ps'"
  unfolding tied_def
proof (intro conjI ballI allI impI)
  fix r assume r: "r \<in> set ps'"
  then obtain e where "e \<in> set q" "m_timeoutEvent r = Some (ev_id e)" "callback e = InvokeTimeout (pi_id r)"
    using assms(1,3) unfolding tied_def by blast
  moreover have "m_timeoutEvent r \<noteq> m_timeoutEvent p" using assms(2) r by force
  ultimately show "\<exists>e \<in> set (filter (\<lambda>e. Some (ev_id e) \<noteq> m_timeoutEvent p) q). m_timeoutEvent r = Some (ev_id e) \<and> callback e = InvokeTimeout (pi_id r)"
    by auto
next
  fix e i assume e: "e \<in> set (filter (\<lambda>e. Some (ev_id e) \<noteq> m_timeoutEvent p) q)" and c: "callback e = InvokeTimeout i"
  then have "e \<in> set q" "Some (ev_id e) \<noteq> m_timeoutEvent p" by simp_all
  then obtain r where r: "r \<in> set ps" "pi_id r = i" "m_timeoutEvent r = Some (ev_id e)"
    using assms(1) c unfolding tied_def by blast
  then show "\<exists>r \<in> set ps'. pi_id r = i \<and> m_timeoutEvent r = Some (ev_id e)" using assms(4) [of r] e by auto
qed

lemma cancel_stop: "stop_ok s v \<Longrightarrow> stop_ok (cancelEvent now k s) v"
  by (auto simp: stop_ok_def cancelEvent_run)

lemma cancel_own: "own_events s ps \<Longrightarrow> own_events (cancelEvent now k s) ps"
  by (simp add: own_events_def cancelEvent_run)

lemma own_drop: "own_events s (ps @ p # qs) \<Longrightarrow> own_events s (ps @ qs) \<and> m_timeoutEvent p \<notin> m_timeoutEvent ` set (ps @ qs)"
  by (auto simp: own_events_def)

lemma destroy_held:
  assumes "face_inv (p # X) Y f"
  shows "face_inv X Y (destroy now p f)"
proof -
  let ?t = "filter (\<lambda>p. pi_id p \<notin> Y) (m_pendingInterestTable f)"
  have o: "own_events (m_scheduler f) (m_pendingInterestTable f @ X)" "m_timeoutEvent p \<notin> m_timeoutEvent ` set (m_pendingInterestTable f @ X)"
    using assms own_drop [of "m_scheduler f" "m_pendingInterestTable f" p X] by (simp_all add: face_inv_def)
  have "tied (filter (\<lambda>e. Some (ev_id e) \<noteq> m_timeoutEvent p) (m_queue (m_scheduler f))) (X @ ?t)"
    using assms o(2) by (intro tied_cancel [of _ "(p # X) @ ?t"]) (auto simp: face_inv_def)
  moreover have "scheduler_ok (m_scheduler f)" "stop_ok (m_scheduler f) (m_processEventsTimeoutEvent f)" using assms by (simp_all add: face_inv_def)
  ultimately show ?thesis
    using assms cancel_own [OF o(1), of now "m_timeoutEvent p"] cancelEvent_ok [of "m_scheduler f" now "m_timeoutEvent p"]
      cancel_stop [of "m_scheduler f" "m_processEventsTimeoutEvent f" now "m_timeoutEvent p"]
    by (simp add: face_inv_def destroy_eq cancelEvent_run posted_ids_def)
qed

lemma destroy_fired:
  assumes "face_inv X Y f" and "p \<in> set (m_pendingInterestTable f)" and "pi_id p \<in> Y"
  shows "face_inv X Y (destroy now p f)"
proof -
  let ?t = "filter (\<lambda>p. pi_id p \<notin> Y) (m_pendingInterestTable f)"
  obtain as bs where pit: "m_pendingInterestTable f = as @ p # bs" using assms(2) by (auto simp: in_set_conv_decomp)
  have "m_timeoutEvent p \<notin> m_timeoutEvent ` set (X @ ?t)"
    using assms(1,3) own_drop [of "m_scheduler f" as p "bs @ X"] by (auto simp: face_inv_def pit)
  then have "tied (filter (\<lambda>e. Some (ev_id e) \<noteq> m_timeoutEvent p) (m_queue (m_scheduler f))) (X @ ?t)"
    using assms by (intro tied_cancel [of _ "X @ ?t"]) (auto simp: face_inv_def)
  moreover have "scheduler_ok (m_scheduler f)" "stop_ok (m_scheduler f) (m_processEventsTimeoutEvent f)"
    "own_events (m_scheduler f) (m_pendingInterestTable f @ X)" using assms(1) by (simp_all add: face_inv_def)
  ultimately show ?thesis
    using assms(1) cancel_own [of "m_scheduler f" "m_pendingInterestTable f @ X" now "m_timeoutEvent p"]
      cancelEvent_ok [of "m_scheduler f" now "m_timeoutEvent p"]
      cancel_stop [of "m_scheduler f" "m_processEventsTimeoutEvent f" now "m_timeoutEvent p"]
    by (simp add: face_inv_def destroy_eq cancelEvent_run posted_ids_def)
qed

lemma pit_erase_sel [simp]:
  "m_pendingInterestTable (pit_erase i f) = filter (\<lambda>p. pi_id p \<noteq> i) (m_pendingInterestTable f)"
  "m_scheduler (pit_erase i f) = m_scheduler f" "called (pit_erase i f) = called f" "posted_ids (pit_erase i f) = posted_ids f"
  "next_object (pit_erase i f) = next_object f" "m_processEventsTimeoutEvent (pit_erase i f) = m_processEventsTimeoutEvent f"
  "m_interestFilterTable (pit_erase i f) = m_interestFilterTable f" "m_registeredPrefixTable (pit_erase i f) = m_registeredPrefixTable f"
  "io_thread (pit_erase i f) = io_thread f" "m_ioServiceWork (pit_erase i f) = m_ioServiceWork f"
  by (simp_all add: pit_erase_def post_def Let_def posted_ids_def)

lemma filter_other:
  assumes "distinct (map pi_id (as @ p # bs))"
  shows "filter (\<lambda>q. pi_id q \<noteq> pi_id p) (as @ p # bs) = as @ bs"
proof -
  have "pi_id p \<notin> pi_id ` set as" "pi_id p \<notin> pi_id ` set bs" using assms by auto
  then have "\<forall>q \<in> set as. pi_id q \<noteq> pi_id p" "\<forall>q \<in> set bs. pi_id q \<noteq> pi_id p" by (metis imageI)+
  then have "filter (\<lambda>q. pi_id q \<noteq> pi_id p) as = as" "filter (\<lambda>q. pi_id q \<noteq> pi_id p) bs = bs" by (simp_all add: filter_id_conv)
  then show ?thesis by simp
qed

lemma pit_erase_held:
  assumes "face_inv X Y f" and "p \<in> set (m_pendingInterestTable f)" and "pi_id p \<notin> Y"
  shows "face_inv (p # X) Y (pit_erase (pi_id p) f)"
proof -
  note inv = face_invD [OF assms(1)]
  obtain as bs where pit: "m_pendingInterestTable f = as @ p # bs" using assms(2) by (auto simp: in_set_conv_decomp)
  have "distinct (map pi_id (as @ p # bs))" using inv(5) unfolding pit distinct_append by blast
  then have e: "m_pendingInterestTable (pit_erase (pi_id p) f) = as @ bs" unfolding pit_erase_sel pit by (rule filter_other)
  have "tied (m_queue (m_scheduler f)) ((p # X) @ filter (\<lambda>p. pi_id p \<notin> Y) (as @ bs))"
  proof (rule iffD1 [OF tied_set])
    show "tied (m_queue (m_scheduler f)) (X @ filter (\<lambda>p. pi_id p \<notin> Y) (as @ p # bs))" using inv(3) unfolding pit .
  qed (use assms(3) in auto)
  moreover have "own_events (m_scheduler f) ((as @ bs) @ p # X)" using inv(4) by (auto simp: own_events_def pit)
  moreover have "distinct (map pi_id (as @ bs) @ map pi_id (p # X) @ posted_ids f)" using inv(5) by (auto simp: pit)
  moreover have "i < next_object f"
    if "i \<in> Y \<union> set (map pi_id (as @ bs) @ map pi_id (p # X) @ posted_ids f @ map fst (called f))" for i
    using inv(6) [of i] that by (auto simp: pit)
  moreover have "i \<notin> set (posted_ids f) \<and> (i \<in> pi_id ` set (as @ bs) \<longrightarrow> i \<in> Y)" if "i \<in> set (map fst (called f))" for i
    using inv(8) [OF that] by (auto simp: pit)
  ultimately show ?thesis using inv(1,2,7) unfolding face_inv_def e unfolding pit_erase_sel by blast
qed

lemma pit_erase_fired:
  assumes "face_inv X {i} f"
  shows "face_inv X {} (pit_erase i f)"
proof -
  let ?t = "filter (\<lambda>p. pi_id p \<noteq> i) (m_pendingInterestTable f)"
  note inv = face_invD [OF assms]
  have "own_events (m_scheduler f) (?t @ X)" using inv(4) by (auto simp: own_events_def distinct_map_filter)
  moreover have "distinct (map pi_id ?t @ map pi_id X @ posted_ids f)" using inv(5) by (auto simp: distinct_map_filter)
  moreover have "tied (m_queue (m_scheduler f)) (X @ filter (\<lambda>p. pi_id p \<notin> {}) ?t)" using inv(3) by simp
  moreover have "k < next_object f" if "k \<in> {} \<union> set (map pi_id ?t @ map pi_id X @ posted_ids f @ map fst (called f))" for k
    using inv(6) [of k] that by auto
  moreover have "k \<notin> set (posted_ids f) \<and> (k \<in> pi_id ` set ?t \<longrightarrow> k \<in> {})" if "k \<in> set (map fst (called f))" for k
    using inv(8) [OF that] by auto
  ultimately show ?thesis using inv(1,2,7) unfolding face_inv_def pit_erase_sel by blast
qed

lemma note_call_inv:
  assumes "face_inv X Y f" and "i < next_object f" and "i \<notin> set (map fst (called f)) \<union> set (posted_ids f)"
    and "i \<in> pi_id ` set (m_pendingInterestTable f) \<longrightarrow> i \<in> Y"
  shows "face_inv X Y (note_call i c f)"
proof -
  have "posted_ids (note_call i c f) = posted_ids f" by (simp add: note_call_def posted_ids_def)
  then show ?thesis using assms by (simp add: face_inv_def note_call_def ball_Un)
qed

lemma fold_destroy:
  "\<exists>s. fold (destroy now) ps f = f\<lparr>m_scheduler := s\<rparr> \<and> next_event s = next_event (m_scheduler f)
    \<and> m_isEventExecuting s = m_isEventExecuting (m_scheduler f)
    \<and> m_queue s = filter (\<lambda>e. Some (ev_id e) \<notin> m_timeoutEvent ` set ps) (m_queue (m_scheduler f))
    \<and> (scheduler_ok (m_scheduler f) \<longrightarrow> scheduler_ok s)"
proof (induction ps arbitrary: f)
  case Nil
  show ?case by (intro exI [of _ "m_scheduler f"]) simp
next
  case (Cons p ps)
  let ?f = "destroy now p f"
  obtain s where s: "fold (destroy now) ps ?f = ?f\<lparr>m_scheduler := s\<rparr>" "next_event s = next_event (m_scheduler ?f)"
      "m_isEventExecuting s = m_isEventExecuting (m_scheduler ?f)"
      "m_queue s = filter (\<lambda>e. Some (ev_id e) \<notin> m_timeoutEvent ` set ps) (m_queue (m_scheduler ?f))"
      "scheduler_ok (m_scheduler ?f) \<longrightarrow> scheduler_ok s" using Cons.IH [of ?f] by blast
  have "fold (destroy now) (p # ps) f = f\<lparr>m_scheduler := s\<rparr>" using s(1) by (simp add: destroy_eq)
  moreover have "m_queue s = filter (\<lambda>e. Some (ev_id e) \<notin> m_timeoutEvent ` set (p # ps)) (m_queue (m_scheduler f))"
    unfolding s(4) by (auto simp: destroy_eq cancelEvent_run intro!: filter_cong)
  moreover have "scheduler_ok (m_scheduler f) \<longrightarrow> scheduler_ok s" using s(5) cancelEvent_ok by (auto simp: destroy_eq)
  moreover have "next_event s = next_event (m_scheduler f)" "m_isEventExecuting s = m_isEventExecuting (m_scheduler f)"
    using s(2,3) by (simp_all add: destroy_eq cancelEvent_run)
  ultimately show ?case by blast
qed

lemma distinct_map_eq: "distinct (map g xs) \<Longrightarrow> x \<in> set xs \<Longrightarrow> y \<in> set xs \<Longrightarrow> g x = g y \<Longrightarrow> x = y"
  by (simp add: distinct_map inj_on_def)

lemma tied_filter:
  assumes "tied q (filter (\<lambda>p. pi_id p \<notin> Y) ps)" and "distinct (map m_timeoutEvent ps)" and "\<forall>p \<in> set ps. pi_id p \<in> Y \<longrightarrow> P p"
  shows "tied (filter (\<lambda>e. Some (ev_id e) \<notin> m_timeoutEvent ` set (filter P ps)) q) (filter (\<lambda>p. \<not> P p) ps)"
  unfolding tied_def
proof (intro conjI ballI allI impI)
  fix r assume r: "r \<in> set (filter (\<lambda>p. \<not> P p) ps)"
  then have "r \<in> set (filter (\<lambda>p. pi_id p \<notin> Y) ps)" using assms(3) by auto
  then obtain e where e: "e \<in> set q" "m_timeoutEvent r = Some (ev_id e)" "callback e = InvokeTimeout (pi_id r)"
    using assms(1) unfolding tied_def by blast
  have "m_timeoutEvent r \<noteq> m_timeoutEvent c" if "c \<in> set (filter P ps)" for c
    using distinct_map_eq [OF assms(2), of r c] that r by auto
  then have "Some (ev_id e) \<notin> m_timeoutEvent ` set (filter P ps)" using e(2) by auto
  then show "\<exists>e \<in> set (filter (\<lambda>e. Some (ev_id e) \<notin> m_timeoutEvent ` set (filter P ps)) q).
      m_timeoutEvent r = Some (ev_id e) \<and> callback e = InvokeTimeout (pi_id r)"
    using e by (intro bexI [of _ e]) simp_all
next
  fix e i assume e: "e \<in> set (filter (\<lambda>e. Some (ev_id e) \<notin> m_timeoutEvent ` set (filter P ps)) q)" and c: "callback e = InvokeTimeout i"
  have q: "e \<in> set q" "Some (ev_id e) \<notin> m_timeoutEvent ` set (filter P ps)" using e by simp_all
  then obtain r where r: "r \<in> set (filter (\<lambda>p. pi_id p \<notin> Y) ps)" "pi_id r = i" "m_timeoutEvent r = Some (ev_id e)"
    using assms(1) c unfolding tied_def by blast
  have "\<not> P r"
  proof
    assume "P r"
    then have "r \<in> set (filter P ps)" using r(1) by simp
    then have "m_timeoutEvent r \<in> m_timeoutEvent ` set (filter P ps)" by (rule imageI)
    then show False using q(2) r(3) by simp
  qed
  then have "r \<in> set (filter (\<lambda>p. \<not> P p) ps)" using r(1) by simp
  then show "\<exists>r \<in> set (filter (\<lambda>p. \<not> P p) ps). pi_id r = i \<and> m_timeoutEvent r = Some (ev_id e)" using r(2,3) by blast
qed

lemma pit_drop:
  assumes "face_inv [] Y f" and "\<forall>p \<in> set (m_pendingInterestTable f). pi_id p \<in> Y \<longrightarrow> P p"
  shows "face_inv [] {} (fold (destroy now) (filter P (m_pendingInterestTable f))
    (f\<lparr>m_pendingInterestTable := filter (\<lambda>p. \<not> P p) (m_pendingInterestTable f)\<rparr>))"
proof -
  note inv = face_invD [OF assms(1)]
  let ?ps = "m_pendingInterestTable f"
  let ?t = "filter (\<lambda>p. \<not> P p) ?ps"
  let ?f = "f\<lparr>m_pendingInterestTable := ?t\<rparr>"
  obtain s where s: "fold (destroy now) (filter P ?ps) ?f = ?f\<lparr>m_scheduler := s\<rparr>" "next_event s = next_event (m_scheduler f)"
      "m_queue s = filter (\<lambda>e. Some (ev_id e) \<notin> m_timeoutEvent ` set (filter P ?ps)) (m_queue (m_scheduler f))"
      "scheduler_ok s" using fold_destroy [of now "filter P ?ps" ?f] inv(1) by auto
  have "tied (m_queue s) ([] @ filter (\<lambda>p. pi_id p \<notin> {}) ?t)"
    using tied_filter [of "m_queue (m_scheduler f)" Y ?ps P] inv(3,4) assms(2) unfolding s(3) by (simp add: own_events_def)
  moreover have "stop_ok s (m_processEventsTimeoutEvent f)" using inv(2) s(2,3) by (auto simp: stop_ok_def)
  moreover have "own_events s (?t @ [])" using inv(4) s(2) by (auto simp: own_events_def distinct_map_filter)
  moreover have "distinct (map pi_id ?t @ map pi_id [] @ posted_ids f)" using inv(5) by (auto simp: distinct_map_filter)
  moreover have "k < next_object f" if "k \<in> {} \<union> set (map pi_id ?t @ map pi_id [] @ posted_ids f @ map fst (called f))" for k
    using inv(6) [of k] that by auto
  moreover have "k \<notin> set (posted_ids f) \<and> (k \<in> pi_id ` set ?t \<longrightarrow> k \<in> {})" if "k \<in> set (map fst (called f))" for k
    using inv(8) [OF that] assms(2) that by auto
  moreover have "posted_ids (?f\<lparr>m_scheduler := s\<rparr>) = posted_ids f" by (simp add: posted_ids_def)
  ultimately show ?thesis using inv(7) s(1,4) unfolding face_inv_def by simp
qed

lemma pit_clear_inv:
  assumes "face_inv [] Y f"
  shows "face_inv [] {} (pit_clear now f)"
  using pit_drop [OF assms, of "\<lambda>_. True" now] by (simp add: pit_clear_def)

lemma pit_remove_if_inv: "face_ok f \<Longrightarrow> face_ok (pit_remove_if now P f)"
  using pit_drop [of "{}" f P now] by (simp add: pit_remove_if_def Let_def)

lemma registered_inv [simp]:
  "face_inv X Y (registered_clear f) = face_inv X Y f" "face_inv X Y (registered_erase i f) = face_inv X Y f"
  by (simp_all add: registered_clear_def registered_erase_def face_inv_def post_def posted_ids_def Let_def)

lemma plain_inv [simp]:
  "face_inv X Y (f\<lparr>m_ioServiceWork := b\<rparr>) = face_inv X Y f" "face_inv X Y (f\<lparr>io_stopped := b\<rparr>) = face_inv X Y f"
  "face_inv X Y (f\<lparr>io_thread := b\<rparr>) = face_inv X Y f" "face_inv X Y (f\<lparr>m_interestFilterTable := ls\<rparr>) = face_inv X Y f"
  "face_inv X Y (f\<lparr>m_registeredPrefixTable := rs\<rparr>) = face_inv X Y f"
  by (simp_all add: face_inv_def posted_ids_def)

lemma processEvents_catch_inv: "face_inv [] Y f \<Longrightarrow> face_ok (processEvents_catch now f)"
  using pit_clear_inv [of Y "f\<lparr>m_ioServiceWork := False\<rparr>" now] by (simp add: processEvents_catch_def)


section \<open>Every event keeps the invariant\<close>

lemma call_client_inv: "face_inv X Y (snd ws) \<Longrightarrow> call_client E now k c ws = (vs, e) \<Longrightarrow> face_inv X Y (snd vs) \<and> grows (snd ws) (snd vs)"
  unfolding call_client_def by (cases vs) (auto dest: run_prog_inv)

lemma call_option_inv: "face_inv X Y (snd ws) \<Longrightarrow> call_option E now k c ws = (vs, e) \<Longrightarrow> face_inv X Y (snd vs) \<and> grows (snd ws) (snd vs)"
  by (cases k) (auto simp: call_option_def grows_refl dest: call_client_inv)

lemma call_unchecked_inv: "face_inv X Y (snd ws) \<Longrightarrow> call_unchecked E now k c ws = (vs, e) \<Longrightarrow> face_inv X Y (snd vs) \<and> grows (snd ws) (snd vs)"
  by (cases k) (auto simp: call_unchecked_def grows_refl dest: call_client_inv)

lemma call_fun_inv: "face_inv X Y (snd ws) \<Longrightarrow> call_fun E now g c ws = (vs, e) \<Longrightarrow> face_inv X Y (snd vs) \<and> grows (snd ws) (snd vs)"
  by (cases g) (auto simp: call_fun_def grows_refl split: call.splits dest: call_client_inv call_option_inv)

lemma invoke_inv:
  assumes "face_inv [p] {} (snd ws)" and "pi_id p \<notin> set (map fst (called (snd ws)))"
    and "(let vs = (fst ws, note_call (pi_id p) c (snd ws)) in case g of None \<Rightarrow> (vs, None) | Some g \<Rightarrow> call_fun E now g c vs) = (vs, e)"
  shows "face_inv [p] {} (snd vs)"
proof -
  have "face_inv [p] {} (note_call (pi_id p) c (snd ws))"
    using assms(1,2) face_invD(5) [OF assms(1)] face_invD(6) [OF assms(1), of "pi_id p"] by (intro note_call_inv) auto
  then show ?thesis using assms(3) call_fun_inv [of "[p]" "{}" "(fst ws, note_call (pi_id p) c (snd ws))"]
    by (cases g) (auto simp: Let_def)
qed

lemma pit_loop_inv:
  fixes ws :: "'w \<times> ('k, 't) face"
  assumes "pit_loop now test invoke it ws = Some y" and "face_ok (snd ws)"
    and step: "\<And>p ws vs e. face_inv [p] {} (snd ws) \<Longrightarrow> pi_id p \<notin> set (map fst (called (snd ws))) \<Longrightarrow> invoke p ws = (vs, e)
      \<Longrightarrow> face_inv [p] {} (snd vs)"
  shows "face_ok (snd (fst y))"
proof -
  have "now = now \<longrightarrow> test = test \<longrightarrow> invoke = invoke \<longrightarrow> face_ok (snd ws) \<longrightarrow> face_ok (snd (fst y))"
  proof (rule pit_loop.raw_induct [of "\<lambda>now' test' invoke' it ws y. now' = now \<longrightarrow> test' = test \<longrightarrow> invoke' = invoke
      \<longrightarrow> face_ok (snd ws) \<longrightarrow> face_ok (snd (fst y))", OF _ assms(1)])
    fix loop :: "int \<Rightarrow> (interest \<Rightarrow> bool result) \<Rightarrow> ('k pending_interest \<Rightarrow> 'w \<times> ('k, 't) face \<Rightarrow> ('w \<times> ('k, 't) face) \<times> exn option)
        \<Rightarrow> nat option \<Rightarrow> 'w \<times> ('k, 't) face \<Rightarrow> (('w \<times> ('k, 't) face) \<times> exn option) option" and now' test' invoke' it ws y
    assume IH: "\<And>now' test' invoke' it ws y. loop now' test' invoke' it ws = Some y \<Longrightarrow> now' = now \<longrightarrow> test' = test
        \<longrightarrow> invoke' = invoke \<longrightarrow> face_ok (snd ws) \<longrightarrow> face_ok (snd (fst y))"
      and body: "(case it of
        None \<Rightarrow> Some (ws, None)
      | Some i \<Rightarrow> (case dropWhile (\<lambda>p. pi_id p \<noteq> i) (m_pendingInterestTable (snd ws)) of
          [] \<Rightarrow> Some (ws, Some (UndefinedBehaviour ''erased iterator''))
        | p # ps \<Rightarrow> (case test' (m_interest p) of
            Inl e \<Rightarrow> Some (ws, Some e)
          | Inr m \<Rightarrow>
              if \<not> m then loop now' test' invoke' (pit_begin ps) ws
              else (case invoke' p (fst ws, pit_erase i (snd ws)) of
                  ((w, f), None) \<Rightarrow> loop now' test' invoke' (pit_begin ps) (w, destroy now' p f)
                | ((w, f), Some e) \<Rightarrow> Some ((w, destroy now' p f), Some e))))) = Some y"
    show "now' = now \<longrightarrow> test' = test \<longrightarrow> invoke' = invoke \<longrightarrow> face_ok (snd ws) \<longrightarrow> face_ok (snd (fst y))"
    proof (intro impI)
      assume e: "now' = now" "test' = test" "invoke' = invoke" and ok: "face_ok (snd ws)"
      let ?rest = "\<lambda>i. dropWhile (\<lambda>p. pi_id p \<noteq> i) (m_pendingInterestTable (snd ws))"
      consider "fst y = ws"
        | i p ps where "it = Some i" "?rest i = p # ps" "test (m_interest p) = Inr False"
        | i p ps where "it = Some i" "?rest i = p # ps" "test (m_interest p) = Inr True"
      proof (cases it)
        case None
        then show ?thesis using body that(1) by auto
      next
        case (Some i)
        show ?thesis
        proof (cases "?rest i")
          case Nil
          then show ?thesis using body Some that(1) by (simp del: dropWhile_eq_Nil_conv) auto
        next
          case (Cons p ps)
          show ?thesis
          proof (cases "test (m_interest p)")
            case (Inl a)
            then show ?thesis using body e(2) Some Cons that(1) by auto
          next
            case (Inr m)
            then show ?thesis using that(2,3) [OF Some Cons] by (cases m) simp_all
          qed
        qed
      qed
      then show "face_ok (snd (fst y))"
      proof cases
        case 1
        then show ?thesis using ok by simp
      next
        case 2
        then have "loop now test invoke (pit_begin ps) ws = Some y" using body e by simp
        then show ?thesis using IH ok by blast
      next
        case 3
        obtain w f x where r: "invoke p (fst ws, pit_erase i (snd ws)) = ((w, f), x)" by (metis surj_pair)
        have p: "p \<in> set (m_pendingInterestTable (snd ws))" using 3(2) by (metis list.set_intros(1) set_dropWhileD)
        have i: "i = pi_id p" using hd_dropWhile [of "\<lambda>p. pi_id p \<noteq> i" "m_pendingInterestTable (snd ws)"] 3(2) by simp
        have "pi_id p \<notin> set (map fst (called (snd ws)))" using face_invD(8) [OF ok, of "pi_id p"] p by auto
        then have "face_inv [p] {} f" using step [OF _ _ r] pit_erase_held [OF ok p] i by simp
        then have "face_ok (destroy now p f)" by (rule destroy_held)
        moreover have "case x of None \<Rightarrow> loop now test invoke (pit_begin ps) (w, destroy now p f) = Some y
            | Some a \<Rightarrow> y = ((w, destroy now p f), Some a)" using body e 3 r by (cases x) simp_all
        ultimately show ?thesis using IH by (cases x) auto
      qed
    qed
  qed
  then show ?thesis using assms(2) by blast
qed

lemma satisfy_inv: "satisfyPendingInterests E now d t ws = Some y \<Longrightarrow> face_ok (snd ws) \<Longrightarrow> face_ok (snd (fst y))"
  unfolding satisfyPendingInterests_def
  by (erule pit_loop_inv, assumption) (rule invoke_inv, assumption+, simp add: invokeDataCallback_def Let_def)

lemma nack_inv: "nackPendingInterests E now n t ws = Some y \<Longrightarrow> face_ok (snd ws) \<Longrightarrow> face_ok (snd (fst y))"
  unfolding nackPendingInterests_def
  by (erule pit_loop_inv, assumption) (rule invoke_inv, assumption+, simp add: invokeNackCallback_def Let_def)

text \<open>The callbacks of the filters that match, in the order of the table, until one throws.\<close>

fun deliver ::
  "('w, 'k, 't) env \<Rightarrow> int \<Rightarrow> interest \<Rightarrow> net_tags \<Rightarrow> 'k filter_record list \<Rightarrow> 'w \<times> ('k, 't) face \<Rightarrow> ('w \<times> ('k, 't) face) \<times> exn option" where
  "deliver E now x tags [] ws = (ws, None)"
| "deliver E now x tags (r # rs) ws = (case doesMatch (m_filter r) (i_name x) of
     Inl e \<Rightarrow> (ws, Some e)
   | Inr m \<Rightarrow>
       if m then andthen (call_option E now (m_interestCallback r) (InterestCall (m_filter r) x tags) ws) (deliver E now x tags rs)
       else deliver E now x tags rs ws)"

lemma deliver_inv:
  "face_inv X Y (snd ws) \<Longrightarrow> deliver E now x tags rs ws = (vs, e) \<Longrightarrow> face_inv X Y (snd vs) \<and> grows (snd ws) (snd vs)"
proof (induction rs arbitrary: ws)
  case Nil
  then show ?case by (auto simp: grows_refl)
next
  case (Cons r rs)
  show ?case
  proof (cases "doesMatch (m_filter r) (i_name x)")
    case (Inl a)
    then show ?thesis using Cons.prems by (auto simp: grows_refl)
  next
    case (Inr m)
    show ?thesis
    proof (cases m)
      case False
      then show ?thesis using Cons Inr by simp
    next
      case True
      obtain us a where u: "call_option E now (m_interestCallback r) (InterestCall (m_filter r) x tags) ws = (us, a)" by fastforce
      note k = call_option_inv [OF Cons.prems(1) u]
      show ?thesis
      proof (cases a)
        case None
        then have "deliver E now x tags rs us = (vs, e)" using Cons.prems(2) Inr True u by simp
        then show ?thesis using Cons.IH [of us] k grows_trans by blast
      next
        case (Some b)
        then have "vs = us" using Cons.prems(2) Inr True u by simp
        then show ?thesis using k by blast
      qed
    qed
  qed
qed

lemma filter_loop_deliver:
  assumes "face_inv X Y (snd ws)" and "m_interestFilterTable (snd ws) = T"
  shows "filter_loop E now x tags i ws = Some (deliver E now x tags (drop i T) ws)"
  using assms
proof (induction "length T - i" arbitrary: i ws)
  case 0
  then show ?case by (simp add: filter_loop.simps [of E now x tags i ws])
next
  case (Suc n)
  then have i: "i < length T" "drop i T = T ! i # drop (Suc i) T" "n = length T - Suc i" using Cons_nth_drop_Suc [of i T] by simp_all
  note IH = Suc.hyps(1) [OF i(3)]
  show ?case
  proof (cases "doesMatch (m_filter (T ! i)) (i_name x)")
    case (Inl a)
    then show ?thesis using i Suc.prems by (simp add: filter_loop.simps [of E now x tags i ws] Let_def)
  next
    case (Inr m)
    show ?thesis
    proof (cases m)
      case False
      then show ?thesis using i Suc.prems Inr IH [OF Suc.prems] by (simp add: filter_loop.simps [of E now x tags i ws] Let_def)
    next
      case True
      obtain us a where u: "call_option E now (m_interestCallback (T ! i)) (InterestCall (m_filter (T ! i)) x tags) ws = (us, a)" by fastforce
      have k: "face_inv X Y (snd us)" "m_interestFilterTable (snd us) = T"
        using call_option_inv [OF Suc.prems(1) u] Suc.prems(2) by (simp_all add: grows_def)
      show ?thesis using i Suc.prems Inr True u IH [OF k]
        by (cases a) (simp_all add: filter_loop.simps [of E now x tags i ws] Let_def)
    qed
  qed
qed

lemma filters_deliver:
  "face_inv X Y (snd ws) \<Longrightarrow> processInterestFilters E now x tags ws = Some (deliver E now x tags (m_interestFilterTable (snd ws)) ws)"
  using filter_loop_deliver [of X Y ws _ E now x tags 0] by (simp add: processInterestFilters_def)

lemma receive_inv:
  assumes "onReceiveElement E now b ws = Some y" and "face_ok (snd ws)"
  shows "face_ok (snd (fst y))"
proof (cases "read_element b")
  case (Inl e)
  then show ?thesis using assms by (auto simp: onReceiveElement_def)
next
  case (Inr r)
  then show ?thesis
    using assms satisfy_inv [of E now _ _ ws y] nack_inv [of E now _ _ ws y] filters_deliver [OF assms(2), of E now]
      deliver_inv [OF assms(2), of E now _ _ _ "fst y" "snd y"]
    by (cases r) (auto simp: onReceiveElement_def)
qed


section \<open>Timeouts\<close>

text \<open>The invariant does not depend on the timer of the scheduler.\<close>

lemma scheduler_inv:
  assumes "face_inv X Y f" and "m_queue s = m_queue (m_scheduler f)" and "next_event s = next_event (m_scheduler f)"
  shows "face_inv X Y (f\<lparr>m_scheduler := s\<rparr>)"
  using assms by (simp add: face_inv_def scheduler_ok_def stop_ok_def own_events_def posted_ids_def)

lemma pop_stop:
  assumes "face_ok f" and "m_queue (m_scheduler f) = e # rest" and "callback e = StopProcessing"
  shows "face_ok (f\<lparr>m_scheduler := (m_scheduler f)\<lparr>m_queue := rest\<rparr>\<rparr>)"
proof -
  note inv = face_invD [OF assms(1)]
  have "tied rest (filter (\<lambda>p. pi_id p \<notin> {}) (m_pendingInterestTable f))"
    using inv(3) assms(2,3) by (auto simp: tied_def)
  moreover have "scheduler_ok ((m_scheduler f)\<lparr>m_queue := rest\<rparr>)" using scheduler_ok_tl inv(1) assms(2) by blast
  ultimately show ?thesis using assms by (simp add: face_inv_def stop_ok_def own_events_def posted_ids_def)
qed

lemma pop_timeout:
  assumes "face_ok f" and "m_queue (m_scheduler f) = e # rest" and "callback e = InvokeTimeout i"
  shows "face_inv [] {i} (f\<lparr>m_scheduler := (m_scheduler f)\<lparr>m_queue := rest\<rparr>\<rparr>) \<and> i \<in> pi_id ` set (m_pendingInterestTable f)"
proof -
  note inv = face_invD [OF assms(1)]
  let ?ps = "m_pendingInterestTable f"
  have t: "tied (e # rest) ?ps" using inv(3) assms(2) by simp
  then obtain p where p: "p \<in> set ?ps" "pi_id p = i" "m_timeoutEvent p = Some (ev_id e)" using assms(3) by (auto simp: tied_def)
  have d: "distinct (map pi_id ?ps)" "distinct (map m_timeoutEvent ?ps)" using inv(4,5) by (auto simp: own_events_def)
  have new: "ev_id c \<noteq> ev_id e" if "c \<in> set rest" for c 
    using inv(1) assms(2) that by (simp add: scheduler_ok_def queue_ok_def) (metis imageI)
  have "tied rest (filter (\<lambda>p. pi_id p \<noteq> i) ?ps)"
    unfolding tied_def
  proof (intro conjI ballI allI impI)
    fix r assume r: "r \<in> set (filter (\<lambda>p. pi_id p \<noteq> i) ?ps)"
    then have "r \<in> set ?ps" by simp
    then obtain c where c: "c \<in> set (e # rest)" "m_timeoutEvent r = Some (ev_id c)" "callback c = InvokeTimeout (pi_id r)"
      using t unfolding tied_def by blast
    then have "c \<noteq> e" using r assms(3) by auto
    then have "c \<in> set rest" using c(1) by simp
    then show "\<exists>c \<in> set rest. m_timeoutEvent r = Some (ev_id c) \<and> callback c = InvokeTimeout (pi_id r)" using c(2,3) by blast
  next
    fix c j assume c: "c \<in> set rest" "callback c = InvokeTimeout j"
    then have "c \<in> set (e # rest)" by simp
    then obtain r where r: "r \<in> set ?ps" "pi_id r = j" "m_timeoutEvent r = Some (ev_id c)" using t c(2) unfolding tied_def by blast
    have "pi_id r \<noteq> i"
    proof
      assume "pi_id r = i"
      then have "r = p" using distinct_map_eq [OF d(1) r(1) p(1)] p(2) by simp
      then show False using r(3) p(3) new [OF c(1)] by simp
    qed
    then have "r \<in> set (filter (\<lambda>p. pi_id p \<noteq> i) ?ps)" using r(1) by simp
    then show "\<exists>r \<in> set (filter (\<lambda>p. pi_id p \<noteq> i) ?ps). pi_id r = j \<and> m_timeoutEvent r = Some (ev_id c)" using r(2,3) by blast
  qed
  moreover have "scheduler_ok ((m_scheduler f)\<lparr>m_queue := rest\<rparr>)" using scheduler_ok_tl inv(1) assms(2) by blast
  moreover have "k < next_object f" if "k \<in> {i} \<union> set (map pi_id ?ps @ map pi_id [] @ posted_ids f @ map fst (called f))" for k
    using inv(6) [of k] that p(1,2) by auto
  moreover have "k \<notin> set (posted_ids f) \<and> (k \<in> pi_id ` set ?ps \<longrightarrow> k \<in> {i})" if "k \<in> set (map fst (called f))" for k
    using inv(8) [OF that] by auto
  moreover have "stop_ok ((m_scheduler f)\<lparr>m_queue := rest\<rparr>) (m_processEventsTimeoutEvent f)"
    "own_events ((m_scheduler f)\<lparr>m_queue := rest\<rparr>) (?ps @ [])"
    using inv(2,4) assms(2) by (simp_all add: stop_ok_def own_events_def)
  moreover have "posted_ids (f\<lparr>m_scheduler := (m_scheduler f)\<lparr>m_queue := rest\<rparr>\<rparr>) = posted_ids f" by (simp add: posted_ids_def)
  ultimately show ?thesis using inv(5,7) p(1,2) unfolding face_inv_def by auto
qed

lemma destroy_erase: "destroy now p (pit_erase i f) = pit_erase i (destroy now p f)"
  by (simp add: destroy_eq pit_erase_def post_def Let_def)

text \<open>A timeout whose event has been taken from the queue finds its Interest, calls its callback and erases it.\<close>

lemma find_SomeD: "List.find P xs = Some x \<Longrightarrow> x \<in> set xs \<and> P x"
  by (auto simp: find_Some_iff)

lemma timeout_inv:
  assumes "face_inv [] {i} f" and "i \<in> pi_id ` set (m_pendingInterestTable f)" and "i \<notin> set (map fst (called f))"
    and "invokeTimeoutCallback E now i (w, f) = (vs, e)"
  shows "if e = None then face_ok (snd vs) else face_inv [] {i} (snd vs)"
proof -
  have "List.find (\<lambda>p. pi_id p = i) (m_pendingInterestTable f) \<noteq> None" using assms(2) by (auto simp: find_None_iff)
  then obtain p where f: "List.find (\<lambda>p. pi_id p = i) (m_pendingInterestTable f) = Some p" by blast
  note p = f find_SomeD [OF f, THEN conjunct1] find_SomeD [OF f, THEN conjunct2]
  let ?f = "note_call i (TimeoutCall (m_interest p)) f"
  obtain us a where u: "call_option E now (m_timeoutCallback p) (TimeoutCall (m_interest p)) (w, ?f) = (us, a)" by fastforce
  have "i \<notin> set (posted_ids f)" using face_invD(5) [OF assms(1)] p(2,3) by auto
  then have n: "face_inv [] {i} ?f" using assms(1,3) face_invD(6) [OF assms(1), of i] by (intro note_call_inv) simp_all
  have k: "face_inv [] {i} (snd us)" "grows ?f (snd us)" using call_option_inv [of "[]" "{i}" "(w, ?f)", OF _ u] n by simp_all
  have v: "andthen (us, a) (\<lambda>(w, f). ((w, destroy now p (pit_erase i f)), None)) = (vs, e)"
    using assms(4) p(1) u by (simp add: invokeTimeoutCallback_def Let_def)
  show ?thesis
  proof (cases a)
    case (Some b)
    then show ?thesis using v k(1) by auto
  next
    case None
    have "m_pendingInterestTable ?f = m_pendingInterestTable f" by (simp add: note_call_def)
    then have "p \<in> set (m_pendingInterestTable (snd us))" using k(2) p(2) by (auto simp: grows_def)
    then have "face_inv [] {i} (destroy now p (snd us))" using destroy_fired [OF k(1)] p(3) by simp
    then have "face_ok (destroy now p (pit_erase i (snd us)))" unfolding destroy_erase by (rule pit_erase_fired)
    then show ?thesis using v None by (cases us) auto
  qed
qed

text \<open>The entry whose timeout it is is told, and no other leaves the table.\<close>

lemma timeout_told:
  assumes "face_inv [] {i} f" and "i \<in> pi_id ` set (m_pendingInterestTable f)" and "i \<notin> set (map fst (called f))"
    and "invokeTimeoutCallback E now i (w, f) = (vs, e)" and "q \<in> set (m_pendingInterestTable f)"
  shows "if pi_id q = i then (i, TimeoutCall (m_interest q)) \<in> set (called (snd vs)) else q \<in> set (m_pendingInterestTable (snd vs))"
    and "set (called f) \<subseteq> set (called (snd vs))"
proof -
  have "List.find (\<lambda>p. pi_id p = i) (m_pendingInterestTable f) \<noteq> None" using assms(2) by (auto simp: find_None_iff)
  then obtain p where f: "List.find (\<lambda>p. pi_id p = i) (m_pendingInterestTable f) = Some p" by blast
  note p = f find_SomeD [OF f, THEN conjunct1] find_SomeD [OF f, THEN conjunct2]
  let ?f = "note_call i (TimeoutCall (m_interest p)) f"
  obtain us a where u: "call_option E now (m_timeoutCallback p) (TimeoutCall (m_interest p)) (w, ?f) = (us, a)" by fastforce
  have "i \<notin> set (posted_ids f)" using face_invD(5) [OF assms(1)] p(2,3) by auto
  then have n: "face_inv [] {i} ?f" using assms(1,3) face_invD(6) [OF assms(1), of i] by (intro note_call_inv) simp_all
  have k: "grows ?f (snd us)" using call_option_inv [of "[]" "{i}" "(w, ?f)", OF _ u] n by simp
  then have c: "called (snd us) = called f @ [(i, TimeoutCall (m_interest p))]" "set (m_pendingInterestTable f) \<subseteq> set (m_pendingInterestTable (snd us))"
    by (auto simp: grows_def note_call_def)
  have "andthen (us, a) (\<lambda>(w, f). ((w, destroy now p (pit_erase i f)), None)) = (vs, e)"
    using assms(4) p(1) u by (simp add: invokeTimeoutCallback_def Let_def)
  then have v: "called (snd vs) = called (snd us)" "\<forall>x \<in> set (m_pendingInterestTable (snd us)). pi_id x \<noteq> i \<longrightarrow> x \<in> set (m_pendingInterestTable (snd vs))"
    by (cases us; cases a; auto simp: destroy_eq)+
  have "q = p" if "pi_id q = i"
    using distinct_map_eq [of pi_id "m_pendingInterestTable f" q p] face_invD(5) [OF assms(1)] that p(2,3) assms(5) by simp
  then show "if pi_id q = i then (i, TimeoutCall (m_interest q)) \<in> set (called (snd vs)) else q \<in> set (m_pendingInterestTable (snd vs))"
    using c v assms(5) by auto
  show "set (called f) \<subseteq> set (called (snd vs))" using c(1) v(1) by auto
qed

lemma timer_step:
  assumes "face_ok (f\<lparr>m_scheduler := s\<rparr>)" and "m_queue s = info # rest"
    and "timer_callback E now (callback info) ((w, f), s\<lparr>m_queue := rest\<rparr>) = (((v, g), t), e)"
  shows "t = m_scheduler g" and "if e = None then face_ok g else \<exists>Y. face_inv [] Y g"
proof -
  let ?f = "f\<lparr>m_scheduler := s\<lparr>m_queue := rest\<rparr>\<rparr>"
  have r: "run_timer_task E now (callback info) (w, ?f) = ((v, g), e)" "t = m_scheduler g"
    using assms(3) by (auto simp: timer_callback_def split: prod.splits)
  show "t = m_scheduler g" by (rule r(2))
  show "if e = None then face_ok g else \<exists>Y. face_inv [] Y g"
  proof (cases "callback info")
    case StopProcessing
    then have "face_ok ?f" using pop_stop [OF assms(1), of info rest] assms(2) by simp
    moreover have "g = ?f\<lparr>io_stopped := True, m_ioServiceWork := False\<rparr>" "e = None" using r(1) StopProcessing by auto
    ultimately show ?thesis by simp
  next
    case (InvokeTimeout i)
    have k: "face_inv [] {i} ?f" "i \<in> pi_id ` set (m_pendingInterestTable ?f)"
      using pop_timeout [OF assms(1), of info rest i] assms(2) InvokeTimeout by simp_all
    then have "i \<notin> set (map fst (called ?f))" using face_invD(8) [OF assms(1), of i] by auto
    then show ?thesis using timeout_inv [OF k, of E now w "(v, g)" e] r(1) InvokeTimeout by (auto split: if_splits)
  qed
qed

lemma timer_inv:
  assumes "onTimer E error now now' ws = Some y" and "face_ok (snd ws)"
  shows "if snd y = None then face_ok (snd (fst y)) else \<exists>Y. face_inv [] Y (snd (fst y))"
proof (cases error)
  case True
  then show ?thesis using assms by (cases ws) (auto simp: onTimer_def executeEvent_def)
next
  case False
  let ?s = "(m_scheduler (snd ws))\<lparr>m_isEventExecuting := True\<rparr>"
  obtain z where z: "execute_loop (timer_callback E now) now (ws, ?s) = Some z"
    using assms(1) False by (auto simp: onTimer_def executeEvent_def split: option.splits)
  define I where "I = (\<lambda>us :: ('a \<times> ('b, 'c) face) \<times> timer_task scheduler. face_ok ((snd (fst us))\<lparr>m_scheduler := snd us\<rparr>))"
  define J where "J = (\<lambda>us :: ('a \<times> ('b, 'c) face) \<times> timer_task scheduler. \<exists>Y. face_inv [] Y ((snd (fst us))\<lparr>m_scheduler := snd us\<rparr>))"
  have start: "I (ws, ?s)" using scheduler_inv [OF assms(2), of ?s] by (simp add: I_def)
  have "if snd z = None then I (fst z) \<and> (case m_queue (snd (fst z)) of [] \<Rightarrow> True | e # _ \<Rightarrow> now < expireTime e) else J (fst z)"
  proof (rule execute_loop_rule' [where I = I and J = J, OF z])
    show "I (ws, ?s)" by (rule start)
  next
    fix us s info rest t e
    assume h: "I (us, s)" "m_queue s = info # rest" "timer_callback E now (callback info) (us, s\<lparr>m_queue := rest\<rparr>) = (t, e)"
    obtain w f v g r where eq: "us = (w, f)" "t = ((v, g), r)" by (metis surj_pair)
    have "face_ok (f\<lparr>m_scheduler := s\<rparr>)" "timer_callback E now (callback info) ((w, f), s\<lparr>m_queue := rest\<rparr>) = (((v, g), r), e)"
      using h(1,3) by (simp_all add: I_def eq)
    note timer_step [OF this(1) h(2) this(2)]
    then show "if e = None then I t else J t" by (simp add: I_def J_def eq)
  qed
  moreover obtain w f s e where eq: "z = (((w, f), s), e)" by (metis surj_pair)
  moreover have "y = ((w, f\<lparr>m_scheduler := scheduleNext now' (s\<lparr>m_isEventExecuting := False\<rparr>)\<rparr>), e)"
    using assms(1) False z eq by (auto simp: onTimer_def executeEvent_def)
  moreover have "face_inv [] Y (f\<lparr>m_scheduler := scheduleNext now' (s\<lparr>m_isEventExecuting := False\<rparr>)\<rparr>)"
    if "face_inv [] Y (f\<lparr>m_scheduler := s\<rparr>)" for Y
    using scheduler_inv [OF that, of "scheduleNext now' (s\<lparr>m_isEventExecuting := False\<rparr>)"] by simp
  ultimately show ?thesis by (auto simp: I_def J_def split: if_splits)
qed


section \<open>The tasks of the io service and the answers of the forwarder\<close>

lemma transport_inv_eq: "f' = f\<lparr>m_transport := t\<rparr> \<Longrightarrow> face_inv X Y f \<Longrightarrow> face_inv X Y f'"
  by simp

lemma cancel_stop_inv:
  assumes "face_ok f"
  shows "face_ok (f\<lparr>m_scheduler := cancelEvent now (m_processEventsTimeoutEvent f) (m_scheduler f)\<rparr>)"
proof -
  note inv = face_invD [OF assms]
  let ?v = "m_processEventsTimeoutEvent f" and ?q = "m_queue (m_scheduler f)"
  have "callback e = StopProcessing" if "e \<in> set ?q" "Some (ev_id e) = ?v" for e
    using inv(2) that unfolding stop_ok_def by (metis)
  then have "tied (filter (\<lambda>e. Some (ev_id e) \<noteq> ?v) ?q) (m_pendingInterestTable f)"
    using inv(3) unfolding tied_def by fastforce
  then show ?thesis
    using assms cancelEvent_ok [OF inv(1)] cancel_stop [OF inv(2)] cancel_own [OF inv(4)]
    by (simp add: face_inv_def cancelEvent_run posted_ids_def)
qed

lemma onEmpty_inv:
  assumes "face_ok f" and "onEmptyPitOrNoRegisteredPrefixes E now f = (g, e)"
  shows "face_ok g"
proof (cases "m_pendingInterestTable f = [] \<and> m_registeredPrefixTable f = []")
  case True
  obtain h a where h: "on_transport (t_pause E) f = (h, a)" by fastforce
  then have "face_ok h" using on_transport_eq [OF h] assms(1) by auto
  then show ?thesis using assms(2) True h cancel_stop_inv
    by (cases a) (auto simp: onEmptyPitOrNoRegisteredPrefixes_def ScopedEventId_cancel_def split: if_splits)
next
  case False
  then have "g = f" using assms(2) unfolding onEmptyPitOrNoRegisteredPrefixes_def by (simp only: if_False prod.inject)
  then show ?thesis using assms(1) by simp
qed

lemma shutdown_inv:
  assumes "face_ok f" and "asyncShutdown E now f = (g, e)"
  shows "face_ok g"
proof -
  let ?f = "registered_clear (pit_clear now f)"
  have f: "face_ok ?f" using pit_clear_inv [OF assms(1)] by simp
  obtain h a where h: "(if isConnected E (m_transport ?f) then on_transport (t_close E) ?f else (?f, None)) = (h, a)" by fastforce
  then have "face_ok h" using on_transport_eq [of "t_close E" ?f h a] f by (auto split: if_splits)
  then show ?thesis using assms(2) h by (cases a) (auto simp: asyncShutdown_def Let_def)
qed

lemma unregister_inv:
  assumes "face_ok f" and "asyncUnregisterPrefix E now i ok fail (w, f) = (vs, e)"
  shows "face_ok (snd vs)"
proof (cases "List.find (\<lambda>p. rp_id p = i) (m_registeredPrefixTable f)")
  case None
  then show ?thesis using assms call_option_inv [of "[]" "{}" "(w, f)"] by (auto simp: asyncUnregisterPrefix_def)
next
  case (Some p)
  then show ?thesis using assms by (cases "rp_filter p") (auto simp: asyncUnregisterPrefix_def Let_def)
qed

lemma answer_inv:
  assumes "face_ok (snd ws)" and "answer_command E now c a ws = (vs, e)"
  shows "face_ok (snd vs)"
proof -
  obtain w f where ws: "ws = (w, f)" by fastforce
  have reg: "face_ok (snd us)" if "afterPrefixRegistered E now p ok ws = (us, e)" for p ok us e
  proof -
    let ?f = "f\<lparr>m_registeredPrefixTable := m_registeredPrefixTable f @ [p]\<rparr>"
    define g where "g = (case rp_filter p of None \<Rightarrow> ?f | Some r \<Rightarrow> ?f\<lparr>m_interestFilterTable := m_interestFilterTable ?f @ [r]\<rparr>)"
    have "face_ok g" using assms(1) by (simp add: ws g_def split: option.split)
    moreover have "call_option E now ok (RegisterSuccessCall (rp_prefix p)) (w, g) = (us, e)"
      using that unfolding ws g_def by (simp add: afterPrefixRegistered_def Let_def)
    ultimately show ?thesis using call_option_inv [of "[]" "{}" "(w, g)"] by simp
  qed
  have fin: "face_ok (snd us)" if "finalizeUnregisterPrefix E now i ok ws = (us, e)" for i ok us e
    using that assms(1) call_option_inv [of "[]" "{}" "(fst ws, registered_erase i (snd ws))" E now ok UnregisterSuccessCall us e]
    by (cases ws) (auto simp: finalizeUnregisterPrefix_def split: if_splits)
  show ?thesis using assms reg fin call_unchecked_inv [OF assms(1)]
    by (cases c; cases a) auto
qed

lemma pop_task:
  assumes "face_ok f" and "io_posted f = t # ts"
  shows "face_ok (f\<lparr>io_posted := ts\<rparr>)" and "i \<in> set (express_ids t) \<Longrightarrow> i < next_object f
    \<and> i \<notin> set (map pi_id (m_pendingInterestTable f) @ concat (map express_ids ts) @ map fst (called f))"
proof -
  note inv = face_invD [OF assms(1)]
  have p: "posted_ids f = express_ids t @ posted_ids (f\<lparr>io_posted := ts\<rparr>)" using assms(2) by (simp add: posted_ids_def)
  have "distinct (map pi_id (m_pendingInterestTable f) @ map pi_id [] @ posted_ids (f\<lparr>io_posted := ts\<rparr>))" using inv(5) p by auto
  moreover have "k < next_object f"
    if "k \<in> {} \<union> set (map pi_id (m_pendingInterestTable f) @ map pi_id [] @ posted_ids (f\<lparr>io_posted := ts\<rparr>) @ map fst (called f))" for k
    using inv(6) [of k] that p by auto
  moreover have "k \<notin> set (posted_ids (f\<lparr>io_posted := ts\<rparr>)) \<and> (k \<in> pi_id ` set (m_pendingInterestTable f) \<longrightarrow> k \<in> {})"
    if "k \<in> set (map fst (called f))" for k
    using inv(8) [OF that] p by auto
  ultimately show "face_ok (f\<lparr>io_posted := ts\<rparr>)" using inv(1-4,7) unfolding face_inv_def by simp
  have q: "posted_ids (f\<lparr>io_posted := ts\<rparr>) = concat (map express_ids ts)" by (simp add: posted_ids_def)
  show "i < next_object f \<and> i \<notin> set (map pi_id (m_pendingInterestTable f) @ concat (map express_ids ts) @ map fst (called f))"
    if "i \<in> set (express_ids t)"
    using inv(5) inv(6) [of i] inv(8) [of i] that p q by auto
qed

lemma task_inv:
  assumes "face_ok f" and "io_posted f = t # ts" and "run_task E now t (w, f\<lparr>io_posted := ts\<rparr>) = (vs, e)"
  shows "face_ok (snd vs)"
proof -
  let ?f = "f\<lparr>io_posted := ts\<rparr>"
  have f: "face_ok ?f" by (rule pop_task(1) [OF assms(1,2)])
  show ?thesis
  proof (cases t)
    case (AsyncExpressInterest i x tags d n c)
    have "i < next_object ?f" "i \<notin> set (map pi_id (m_pendingInterestTable ?f) @ map pi_id [] @ posted_ids ?f @ map fst (called ?f))"
      using pop_task(2) [OF assms(1,2), of i] AsyncExpressInterest by (simp_all add: posted_ids_def)
    moreover obtain g where "asyncExpressInterest E now i x tags d n c ?f = (g, e)" "vs = (w, g)"
      using assms(3) AsyncExpressInterest by (auto split: prod.splits)
    ultimately show ?thesis using asyncExpressInterest_inv [OF f, of i E now x tags d n c g e] by simp
  next
    case EnsureConnected
    then obtain g where g: "ensureConnected E False ?f = (g, e)" "vs = (w, g)" using assms(3) by (auto split: prod.splits)
    then show ?thesis using ensureConnected_eq [OF g(1)] transport_inv_eq [OF _ f] by auto
  next
    case (AsyncSend b)
    then obtain g where g: "asyncSend E b ?f = (g, e)" "vs = (w, g)" using assms(3) by (auto split: prod.splits)
    then show ?thesis using asyncSend_eq [OF g(1)] transport_inv_eq [OF _ f] by auto
  next
    case (AsyncRemovePendingInterest i)
    then show ?thesis using assms(3) pit_remove_if_inv [OF f] by auto
  next
    case AsyncRemoveAllPendingInterests
    then show ?thesis using assms(3) pit_clear_inv [OF f] by auto
  next
    case (AsyncUnregisterPrefix i ok fail)
    then show ?thesis using assms(3) unregister_inv [OF f, of E now i ok fail w vs e] by simp
  next
    case AsyncShutdown
    then show ?thesis using assms(3) shutdown_inv [OF f] by (auto split: prod.splits)
  next
    case OnEmptyPitOrNoRegisteredPrefixes
    then show ?thesis using assms(3) onEmpty_inv [OF f] by (auto split: prod.splits)
  qed (use assms(3) f in \<open>auto simp: asyncUnsetInterestFilter_def Let_def\<close>)
qed

lemma processEvents_inv: "face_ok f \<Longrightarrow> face_ok (processEvents now timeout keepThread f)"
proof -
  assume f: "face_ok f"
  note inv = face_invD [OF f]
  let ?v = "m_processEventsTimeoutEvent f"
  let ?s = "snd (scheduleEvent now (int64 (timeout * 10 ^ 6)) StopProcessing (m_scheduler f))"
  obtain k s where k: "scheduleEvent now (int64 (timeout * 10 ^ 6)) StopProcessing (m_scheduler f) = (Some k, s)" "k = next_event (m_scheduler f)" "s = ?s"
    using scheduleEvent_run(1) by (metis prod.collapse)
  have q: "m_queue s = queue_insert \<lparr>ev_id = k, expireTime = int64 (now + int64 (timeout * 10 ^ 6)), callback = StopProcessing\<rparr> (m_queue (m_scheduler f))"
    "next_event s = k + 1" "scheduler_ok s" using scheduleEvent_ok [OF inv(1)] unfolding k(2,3) by (simp_all add: scheduleEvent_run)
  have s: "face_ok (f\<lparr>m_scheduler := s\<rparr>)"
  proof -
    have "tied (m_queue s) (m_pendingInterestTable f)" using inv(3) unfolding tied_def q(1) by fastforce
    moreover have "stop_ok s ?v" using inv(2) k(2) unfolding stop_ok_def q(1,2) by auto
    moreover have "own_events s (m_pendingInterestTable f)" using inv(4) k(2) q(2) by (fastforce simp: own_events_def)
    ultimately show ?thesis using f q(3) by (simp add: face_inv_def posted_ids_def)
  qed
  have valid: "EventId_valid s (Some k)" by (simp add: EventId_valid_def q(1))
  have new: "face_ok (g\<lparr>m_processEventsTimeoutEvent := Some k\<rparr>)" if "face_ok g" "next_event (m_scheduler g) = k + 1"
    "\<And>e. e \<in> set (m_queue (m_scheduler g)) \<Longrightarrow> ev_id e = k \<Longrightarrow> callback e = StopProcessing" for g :: "('a, 'b) face"
    using that by (simp add: face_inv_def stop_ok_def posted_ids_def)
  have stop: "callback e = StopProcessing" if "e \<in> set (m_queue s)" "ev_id e = k" for e
    using that inv(1) k(2) unfolding q(1) by (auto simp: scheduler_ok_def)
  let ?c = "cancelEvent now ?v s"
  have c: "face_ok (f\<lparr>m_scheduler := ?c\<rparr>)" using cancel_stop_inv [OF s, of now] by simp
  have "face_ok (f\<lparr>m_scheduler := ?c, m_processEventsTimeoutEvent := Some k\<rparr>)"
    using new [OF c] stop q(2) by (simp add: cancelEvent_run)
  moreover have "ScopedEventId_assign now (Some k) (?v, s) = (if ?v = Some k then (?v, s) else (Some k, ?c))"
    using valid by (auto simp: ScopedEventId_assign_def EventId_equals_def)
  moreover have "?v \<noteq> Some k" using inv(2) k(2) by (auto simp: stop_ok_def)
  moreover have "f\<lparr>io_stopped := False, m_processEventsTimeoutEvent := Some k, m_scheduler := ?c\<rparr>
      = (f\<lparr>m_scheduler := ?c, m_processEventsTimeoutEvent := Some k\<rparr>)\<lparr>io_stopped := False\<rparr>" by simp
  ultimately have "face_ok (f\<lparr>io_stopped := False, m_processEventsTimeoutEvent := Some k, m_scheduler := ?c\<rparr>)"
    "ScopedEventId_assign now (Some k) (?v, s) = (Some k, ?c)" by (simp_all only: plain_inv if_False)
  then show ?thesis using f k(1) by (simp add: processEvents_def Let_def)
qed

lemma event_inv:
  assumes "face_ok (snd ws)" and "handle_event E now ev ws = Some ((w', f'), e)"
  shows "if e = None then face_ok f' else \<exists>Y. face_inv [] Y f' \<and> (\<not> in_thread ev \<longrightarrow> Y = {})"
proof -
  obtain w f where ws: "ws = (w, f)" by fastforce
  show ?thesis
  proof (cases ev)
    case RunPosted
    then show ?thesis using assms task_inv [of f _ _ E now w "(w', f')" e] by (cases "io_posted f") (auto simp: ws)
  next
    case (Receive b)
    then show ?thesis using assms receive_inv [of E now b ws "((w', f'), e)"] by auto
  next
    case (Timer error now')
    then show ?thesis using assms timer_inv [of E error now now' ws "((w', f'), e)"] by (auto split: if_splits)
  next
    case (Answer n a)
    then show ?thesis
      using assms answer_inv [of "(w, f\<lparr>m_nfdController := take n (m_nfdController f) @ drop (Suc n) (m_nfdController f)\<rparr>)" E now
        "m_nfdController f ! n" a "(w', f')" e]
      by (auto simp: ws split: if_splits)
  next
    case (Application b p)
    then show ?thesis using assms run_prog_inv [of "[]" "{}" f E now "p w" w' f' e] by (auto simp: ws)
  next
    case (ProcessEvents timeout keepThread)
    then show ?thesis using assms processEvents_inv [of f now timeout keepThread] by (auto simp: ws)
  qed
qed

text \<open>A run of a face: events at the times of the clock, each of which returns.\<close>

inductive reaches :: "('w, 'k, 't) env \<Rightarrow> 'w \<times> ('k, 't) face \<Rightarrow> 'w \<times> ('k, 't) face \<Rightarrow> bool" for E where
  reaches_refl: "reaches E ws ws"
| reaches_step: "reaches E ws us \<Longrightarrow> Face_event E now ev us = Some (vs, e) \<Longrightarrow> reaches E ws vs"

lemma Face_event_inv:
  assumes "face_ok (snd ws)" and "Face_event E now ev ws = Some (vs, e)"
  shows "face_ok (snd vs)"
proof -
  have ok: "face_ok (snd (fst ws, (snd ws)\<lparr>io_thread := in_thread ev\<rparr>))" using assms(1) by simp
  obtain w f x where r: "handle_event E now ev (fst ws, (snd ws)\<lparr>io_thread := in_thread ev\<rparr>) = Some ((w, f), x)"
    using assms(2) by (auto simp: Face_event_def split: option.splits)
  note k = event_inv [OF ok r]
  show ?thesis
  proof (cases x)
    case None
    then show ?thesis using k assms(2) r by (auto simp: Face_event_def)
  next
    case (Some a)
    then obtain Y where Y: "face_inv [] Y f" "\<not> in_thread ev \<longrightarrow> Y = {}" using k by auto
    have "snd vs = (if in_thread ev then processEvents_catch now f else f)" using assms(2) r Some by (auto simp: Face_event_def)
    then show ?thesis using Y processEvents_catch_inv [OF Y(1), of now] by auto
  qed
qed

lemma Face_new_ok: "face_ok (Face_new t)"
  by (simp add: Face_new_def face_inv_def tied_def own_events_def stop_ok_def scheduler_ok_def queue_ok_def Scheduler_new_def post_def posted_ids_def)

lemma reaches_ok: "reaches E ws vs \<Longrightarrow> face_ok (snd ws) \<Longrightarrow> face_ok (snd vs)"
  by (induction rule: reaches.induct) (auto dest: Face_event_inv)

end
