(* ===== verification/FaceRun.thy ===== *)
theory FaceRun
  imports FaceProps
begin

text \<open>
  What a face does: every run keeps the invariant, the timer returns and leaves nothing overdue, Data and Nacks
  go to exactly the pending Interests that they match, and Interests to the filters that match them.
\<close>

section \<open>What a program expresses\<close>

text \<open>Operations and programs, and applications of which every callback is a program, that express no Interest for
  which a test holds.\<close>

fun calm :: "(interest \<Rightarrow> bool result) \<Rightarrow> 'k api \<Rightarrow> bool" where
  "calm T (ExpressInterest x tags r d n t) \<longleftrightarrow> (\<forall>y. Interest_wire r x = Inr y \<longrightarrow> T y = Inr False)"
| "calm T (ExpressInterest_onData x tags r d t) \<longleftrightarrow> (\<forall>y. Interest_wire r x = Inr y \<longrightarrow> T y = Inr False)"
| "calm T (ExpressInterest_name n x tags r d t) \<longleftrightarrow>
    (\<forall>z y. setNonce 0 (Interest_setName x n) = Inr z \<longrightarrow> Interest_wire r z = Inr y \<longrightarrow> T y = Inr False)"
| "calm T _ \<longleftrightarrow> True"

primrec quiet :: "(interest \<Rightarrow> bool result) \<Rightarrow> ('w, 'k) prog \<Rightarrow> bool" where
  "quiet T (Return w) \<longleftrightarrow> True"
| "quiet T (Throw e w) \<longleftrightarrow> True"
| "quiet T (Api a k) \<longleftrightarrow> calm T a \<and> (\<forall>r. quiet T (k r))"

definition quiet_client :: "('w, 'k, 't) env \<Rightarrow> (interest \<Rightarrow> bool result) \<Rightarrow> bool" where
  "quiet_client E T \<longleftrightarrow> (\<forall>k c w. quiet T (e_client E k c w))"


section \<open>Programs and the scheduler\<close>

text \<open>A timeout that lies ahead, in 64 bits; it does whenever the clock and the lifetime leave room.\<close>

definition timely :: "int \<Rightarrow> interest \<Rightarrow> bool" where
  "timely now x \<longleftrightarrow> now < int64 (now + timeout_of x)"

lemma timely_usual:
  assumes "0 \<le> now" and "now + i_interestLifetime x * 10 ^ 6 < 2 ^ 63" and "now + DEFAULT_INTEREST_LIFETIME * 10 ^ 6 < 2 ^ 63"
  shows "timely now x"
  using assms by (cases "0 < i_interestLifetime x") (simp_all add: timely_def timeout_of_def DEFAULT_INTEREST_LIFETIME_def)

text \<open>A program of the application may schedule events; if the Interests it expresses are timely, none of them has expired
already.\<close>

definition later :: "int \<Rightarrow> timer_task scheduler \<Rightarrow> timer_task scheduler \<Rightarrow> bool" where
  "later now s t \<longleftrightarrow> (scheduler_ok s \<longrightarrow> scheduler_ok t) \<and> m_isEventExecuting t = m_isEventExecuting s
    \<and> (\<forall>e \<in> set (m_queue t). expireTime e \<le> now \<longrightarrow> e \<in> set (m_queue s))"

lemma later_refl: "later now s s"
  by (simp add: later_def)

lemma later_trans: "later now s t \<Longrightarrow> later now t u \<Longrightarrow> later now s u"
  by (auto simp: later_def)

lemma later_cancel: "later now s (cancelEvent now' k s)"
  using cancelEvent_ok by (auto simp: later_def cancelEvent_run)

abbreviation untimely :: "int \<Rightarrow> interest \<Rightarrow> bool result" where
  "untimely now \<equiv> \<lambda>x. Inr (\<not> timely now x)"

lemma later_insert: "timely now x \<Longrightarrow> later now (m_scheduler f) (m_scheduler (pit_insert now i x d n t f))"
  using scheduleEvent_ok by (auto simp: later_def timely_def pit_insert_eq scheduleEvent_run)

lemma express_later:
  assumes "asyncExpressInterest E now i x tags d n t f = (g, e)" and "timely now x"
  shows "later now (m_scheduler f) (m_scheduler g)"
  using assms(1) unfolding asyncExpressInterest_def
proof (cases rule: andthen_cases)
  case (1 a)
  then show ?thesis using ensureConnected_eq [OF 1(1)] by (auto simp: later_refl)
next
  case (2 h)
  have h: "m_scheduler h = m_scheduler f" using ensureConnected_eq [OF 2(1)] by auto
  have "m_scheduler g = m_scheduler (pit_insert now i x d n t h)"
    using 2(2) by (auto simp: Let_def on_transport_def split: sum.splits prod.splits)
  then show ?thesis using later_insert [OF assms(2), of h i d n t] h by simp
qed

lemma expressInterest_later:
  assumes "expressInterest E now x tags r d n t f = (g, v)" and "\<forall>y. Interest_wire r x = Inr y \<longrightarrow> timely now y"
  shows "later now (m_scheduler f) (m_scheduler g)"
proof (cases "Interest_wire r x")
  case (Inl a)
  then show ?thesis using assms(1) by (simp add: expressInterest_def later_refl)
next
  case (Inr y)
  let ?f = "f\<lparr>next_object := next_object f + 1\<rparr>"
  have "later now (m_scheduler f) (m_scheduler h)"
    if "dispatch (AsyncExpressInterest i y tags d n t) (asyncExpressInterest E now i y tags d n t) ?f = (h, e)" for i h e
    using that express_later [of E now i y tags d n t ?f h e] assms(2) Inr by (auto simp: dispatch_def post_def later_refl split: if_splits)
  then show ?thesis using assms(1) Inr
    by (cases "block_size (i_wire y)") (auto simp: expressInterest_def Let_def later_refl split: sum.splits prod.splits option.splits if_splits)
qed

lemma put_later: "put_packet E what m f = (g, v) \<Longrightarrow> m_scheduler g = m_scheduler f"
  using asyncSend_eq [of E _ f]
  by (fastforce simp: put_packet_def dispatch_def post_def split: sum.splits prod.splits option.splits if_splits)

lemma Face_api_later:
  assumes "Face_api E now a f = (g, v)" and "calm (untimely now) a"
  shows "later now (m_scheduler f) (m_scheduler g)"
proof (cases a)
  case (ExpressInterest x tags r d n t)
  then show ?thesis using assms expressInterest_later [of E now x tags r _ _ t f g v] by simp
next
  case (ExpressInterest_onData x tags r d t)
  then show ?thesis using assms expressInterest_later [of E now x tags r _ _ t f g v] by (simp add: expressInterest_onData_def)
next
  case (ExpressInterest_name n x tags r d t)
  then show ?thesis using assms expressInterest_later [of E now _ tags r _ _ t f g v]
    by (auto simp: expressInterest_name_def expressInterest_onData_def later_refl split: sum.splits)
next
  case (PutData d tags)
  then show ?thesis using assms(1) put_later [of E _ _ f g v] by (auto simp: put_data_def later_refl)
next
  case (PutNack n tags r)
  then show ?thesis using assms(1) put_later [of E _ _ f g v] by (auto simp: put_nack_def later_refl)
qed (use assms in \<open>auto simp: setInterestFilter_def setInterestFilter_register_def registerPrefix_def Let_def later_refl post_def\<close>)

lemma run_prog_later: "run_prog E now p f = ((w, g), e) \<Longrightarrow> quiet (untimely now) p \<Longrightarrow> later now (m_scheduler f) (m_scheduler g)"
proof (induction p arbitrary: f)
  case (Api a k)
  obtain h v where h: "Face_api E now a f = (h, v)" by fastforce
  then have "later now (m_scheduler h) (m_scheduler g)" using Api.IH [of "k v" h] Api.prems by (auto simp: rangeI)
  moreover have "later now (m_scheduler f) (m_scheduler h)" using Face_api_later [OF h] Api.prems(2) by simp
  ultimately show ?case using later_trans by blast
qed (auto simp: later_refl)

lemma call_option_later:
  "call_option E now k c ws = (vs, e) \<Longrightarrow> quiet_client E (untimely now) \<Longrightarrow> later now (m_scheduler (snd ws)) (m_scheduler (snd vs))"
  using run_prog_later [of E now _ "snd ws" "fst vs" "snd vs" e]
  by (cases k) (auto simp: call_option_def call_client_def later_refl quiet_client_def)

lemma timer_task_later:
  assumes "run_timer_task E now t ws = (vs, e)" and "quiet_client E (untimely now)"
  shows "later now (m_scheduler (snd ws)) (m_scheduler (snd vs))"
proof (cases t)
  case StopProcessing
  then show ?thesis using assms(1) by (cases ws) (auto simp: later_refl)
next
  case (InvokeTimeout i)
  show ?thesis
  proof (cases "List.find (\<lambda>p. pi_id p = i) (m_pendingInterestTable (snd ws))")
    case None
    then show ?thesis using assms(1) InvokeTimeout by (auto simp: invokeTimeoutCallback_def later_refl)
  next
    case (Some p)
    obtain us a where u: "call_option E now (m_timeoutCallback p) (TimeoutCall (m_interest p))
        (fst ws, note_call i (TimeoutCall (m_interest p)) (snd ws)) = (us, a)" by fastforce
    have l: "later now (m_scheduler (snd ws)) (m_scheduler (snd us))" using call_option_later [OF u assms(2)] by (simp add: note_call_def)
    have "andthen (us, a) (\<lambda>(w, f). ((w, destroy now p (pit_erase i f)), None)) = (vs, e)"
      using assms(1) InvokeTimeout Some u by (simp add: invokeTimeoutCallback_def Let_def)
    then show ?thesis using l later_trans [OF l later_cancel] by (cases us; cases a) (auto simp: destroy_eq)
  qed
qed

lemma timer_polite:
  assumes "quiet_client E (untimely now)"
  shows "polite (timer_callback E now) now"
proof -
  have l: "later now t t'" if "timer_callback E now c (w, t) = ((w', t'), ex)" for c t w' t' ex and w :: "'a \<times> ('b, 'c) face"
    using timer_task_later [of E now c "(fst w, (snd w)\<lparr>m_scheduler := t\<rparr>)"] that assms
    by (cases w) (auto simp: timer_callback_def split: prod.splits)
  show ?thesis
    unfolding polite_def
  proof (intro allI impI)
    fix c and t :: "timer_task scheduler" and w :: "'a \<times> ('b, 'c) face"
    assume t: "scheduler_ok t" "m_isEventExecuting t"
    obtain w' t' ex where r: "timer_callback E now c (w, t) = ((w', t'), ex)" by (metis surj_pair)
    show "case timer_callback E now c (w, t) of ((w', t'), ex) \<Rightarrow> scheduler_ok t' \<and> m_isEventExecuting t'
        \<and> (\<forall>e \<in> set (m_queue t'). expireTime e \<le> now \<longrightarrow> e \<in> set (m_queue t))"
      using l [OF r] t r by (simp add: later_def)
  qed
qed


section \<open>Runs\<close>

text \<open>C3. In every state a face can reach, whatever the application, the transport and the forwarder do: the pending Interests and the
events of their timeouts are in one-to-one correspondence, the queue of the scheduler is in order, and each Interest has been answered,
by Data, a Nack or its timeout, at most once in all, and not at all while it is pending.\<close>

theorem Face_run_invariant:
  assumes "reaches E (w, Face_new t) (v, f)"
  shows "sorted (map expireTime (m_queue (m_scheduler f)))
    \<and> (\<forall>p \<in> set (m_pendingInterestTable f). \<exists>!e. e \<in> set (m_queue (m_scheduler f)) \<and> m_timeoutEvent p = Some (ev_id e)
        \<and> callback e = InvokeTimeout (pi_id p))
    \<and> (\<forall>e \<in> set (m_queue (m_scheduler f)). \<forall>i. callback e = InvokeTimeout i \<longrightarrow>
        (\<exists>!p. p \<in> set (m_pendingInterestTable f) \<and> pi_id p = i \<and> m_timeoutEvent p = Some (ev_id e)))
    \<and> distinct (map fst (called f)) \<and> (\<forall>p \<in> set (m_pendingInterestTable f). pi_id p \<notin> fst ` set (called f))"
proof -
  have "face_ok f" using reaches_ok [OF assms] Face_new_ok [of t] by simp
  note inv = face_invD [OF this]
  let ?q = "m_queue (m_scheduler f)" and ?ps = "m_pendingInterestTable f"
  have t: "tied ?q ?ps" using inv(3) by simp
  have d: "distinct (map pi_id ?ps)" "distinct (map ev_id ?q)" using inv(1,5) by (auto simp: scheduler_ok_def queue_ok_def)
  have "\<exists>!e. e \<in> set ?q \<and> m_timeoutEvent p = Some (ev_id e) \<and> callback e = InvokeTimeout (pi_id p)" if m: "p \<in> set ?ps" for p
  proof -
    obtain e where e: "e \<in> set ?q" "m_timeoutEvent p = Some (ev_id e)" "callback e = InvokeTimeout (pi_id p)"
      using t m unfolding tied_def by blast
    have "c = e" if "c \<in> set ?q \<and> m_timeoutEvent p = Some (ev_id c) \<and> callback c = InvokeTimeout (pi_id p)" for c
      using distinct_map_eq [OF d(2), of c e] that e by simp
    then show ?thesis using e by (intro ex1I [of _ e] conjI)
  qed
  moreover have "\<exists>!p. p \<in> set ?ps \<and> pi_id p = i \<and> m_timeoutEvent p = Some (ev_id e)"
    if m: "e \<in> set ?q" "callback e = InvokeTimeout i" for e i
  proof -
    obtain p where p: "p \<in> set ?ps" "pi_id p = i" "m_timeoutEvent p = Some (ev_id e)" using t m unfolding tied_def by blast
    have "r = p" if "r \<in> set ?ps \<and> pi_id r = i \<and> m_timeoutEvent r = Some (ev_id e)" for r
      using distinct_map_eq [OF d(1), of r p] that p by simp
    then show ?thesis using p by (intro ex1I [of _ p] conjI)
  qed
  moreover have "pi_id p \<notin> fst ` set (called f)" if "p \<in> set ?ps" for p using inv(8) [of "pi_id p"] that by auto
  ultimately show ?thesis using inv(1,7) by (simp add: scheduler_ok_def queue_ok_def)
qed

text \<open>Every pending Interest of a table is still pending, or was told its timeout.\<close>

definition told :: "'k pending_interest list \<Rightarrow> ('k, 't) face \<Rightarrow> bool" where
  "told ps f \<longleftrightarrow> (\<forall>p \<in> set ps. p \<in> set (m_pendingInterestTable f) \<or> (pi_id p, TimeoutCall (m_interest p)) \<in> set (called f))"

lemma timer_told:
  assumes "face_ok (f\<lparr>m_scheduler := s\<rparr>)" and "m_queue s = info # rest" and "told ps f"
    and "timer_callback E now (callback info) ((w, f), s\<lparr>m_queue := rest\<rparr>) = (((v, g), t), e)"
  shows "told ps g"
proof -
  let ?f = "f\<lparr>m_scheduler := s\<lparr>m_queue := rest\<rparr>\<rparr>"
  have r: "run_timer_task E now (callback info) (w, ?f) = ((v, g), e)" using assms(4) by (auto simp: timer_callback_def split: prod.splits)
  show ?thesis
  proof (cases "callback info")
    case StopProcessing
    then have "m_pendingInterestTable g = m_pendingInterestTable f" "called g = called f" using r by auto
    then show ?thesis using assms(3) by (simp add: told_def)
  next
    case (InvokeTimeout i)
    have k: "face_inv [] {i} ?f" "i \<in> pi_id ` set (m_pendingInterestTable ?f)"
      using pop_timeout [OF assms(1), of info rest i] assms(2) InvokeTimeout by simp_all
    have i: "i \<notin> set (map fst (called ?f))" using face_invD(8) [OF assms(1), of i] k(2) by auto
    have run: "invokeTimeoutCallback E now i (w, ?f) = ((v, g), e)" using r InvokeTimeout by simp
    note t = timeout_told [OF k i run]
    show ?thesis unfolding told_def
    proof
      fix q assume "q \<in> set ps"
      then consider "q \<in> set (m_pendingInterestTable ?f)" | "(pi_id q, TimeoutCall (m_interest q)) \<in> set (called ?f)"
        using assms(3) by (auto simp: told_def)
      then show "q \<in> set (m_pendingInterestTable g) \<or> (pi_id q, TimeoutCall (m_interest q)) \<in> set (called g)"
      proof cases
        case 1
        then show ?thesis using t(1) [OF 1] by (auto split: if_splits)
      next
        case 2
        obtain p where "p \<in> set (m_pendingInterestTable ?f)" using k(2) by blast
        then show ?thesis using t(2) 2 by fastforce
      qed
    qed
  qed
qed

lemma timer_loop_told:
  assumes "execute_loop (timer_callback E now) now ((w, f), s) = Some y" and "face_ok (f\<lparr>m_scheduler := s\<rparr>)" and "told ps f"
  shows "told ps (snd (fst (fst y)))"
proof -
  let ?I = "\<lambda>us :: ('a \<times> ('b, 'c) face) \<times> timer_task scheduler. face_ok ((snd (fst us))\<lparr>m_scheduler := snd us\<rparr>) \<and> told ps (snd (fst us))"
  let ?J = "\<lambda>us :: ('a \<times> ('b, 'c) face) \<times> timer_task scheduler. told ps (snd (fst us))"
  have "if snd y = None then ?I (fst y) \<and> (case m_queue (snd (fst y)) of [] \<Rightarrow> True | e # _ \<Rightarrow> now < expireTime e) else ?J (fst y)"
  proof (rule execute_loop_rule' [where I = ?I and J = ?J, OF assms(1)])
    show "?I ((w, f), s)" using assms(2,3) by simp
  next
    fix us s info rest t e
    assume h: "?I (us, s)" "m_queue s = info # rest" "timer_callback E now (callback info) (us, s\<lparr>m_queue := rest\<rparr>) = (t, e)"
    obtain w f v g r where eq: "us = (w, f)" "t = ((v, g), r)" by (metis surj_pair)
    have k: "face_ok (f\<lparr>m_scheduler := s\<rparr>)" "told ps f"
        "timer_callback E now (callback info) ((w, f), s\<lparr>m_queue := rest\<rparr>) = (((v, g), r), e)"
      using h(1,3) by (simp_all add: eq)
    show "if e = None then ?I t else ?J t"
      using timer_step [OF k(1) h(2) k(3)] timer_told [OF k(1) h(2) k(2,3)] by (simp add: eq)
  qed
  then show ?thesis by (simp split: if_splits)
qed

text \<open>C5. The handler of the timer returns whenever the Interests that the callbacks of the application express have
their timeouts ahead, in 64 bits: it does not loop over events that are expired when they are scheduled. Every Interest that was pending
is then still pending or its timeout was told. Unless a callback has thrown, no pending Interest is left whose lifetime is over: each
has an event for its timeout, which lies ahead.\<close>

theorem Face_timer_returns:
  assumes "face_ok f" and "quiet_client E (untimely now)"
  shows "\<exists>v g e. onTimer E False now now' (w, f) = Some ((v, g), e) \<and> told (m_pendingInterestTable f) g \<and> (e = None \<longrightarrow> face_ok g
    \<and> (\<forall>p \<in> set (m_pendingInterestTable g). \<exists>x \<in> set (m_queue (m_scheduler g)). m_timeoutEvent p = Some (ev_id x) \<and> now < expireTime x))"
proof -
  let ?s = "(m_scheduler f)\<lparr>m_isEventExecuting := True\<rparr>"
  have s: "scheduler_ok ?s" using face_invD(1) [OF assms(1)] by (simp add: scheduler_ok_def)
  obtain y where y: "execute_loop (timer_callback E now) now ((w, f), ?s) = Some y"
    using execute_loop_returns [OF timer_polite [OF assms(2)] s] by fastforce
  obtain v h t e where eq: "y = (((v, h), t), e)" by (metis surj_pair)
  define g where "g = h\<lparr>m_scheduler := scheduleNext now' (t\<lparr>m_isEventExecuting := False\<rparr>)\<rparr>"
  have r: "onTimer E False now now' (w, f) = Some ((v, g), e)" using y eq by (simp add: onTimer_def executeEvent_def g_def)
  have ok: "face_ok g" if "e = None" using timer_inv [OF r] that assms by simp
  have late: "case m_queue t of [] \<Rightarrow> True | c # _ \<Rightarrow> now < expireTime c" if "e = None"
    using execute_loop_rule' [OF y, of "\<lambda>_. True" "\<lambda>_. True"] that eq by simp
  have "face_ok (f\<lparr>m_scheduler := ?s\<rparr>)" using scheduler_inv [OF assms(1), of ?s] by simp
  then have "told (m_pendingInterestTable f) h" using timer_loop_told [OF y, of "m_pendingInterestTable f"] by (simp add: eq told_def [of _ f])
  then have told: "told (m_pendingInterestTable f) g" by (simp add: told_def g_def)
  have "\<exists>x \<in> set (m_queue (m_scheduler g)). m_timeoutEvent p = Some (ev_id x) \<and> now < expireTime x"
    if e: "e = None" and p: "p \<in> set (m_pendingInterestTable g)" for p
  proof -
    note inv = face_invD [OF ok [OF e]]
    obtain x where x: "x \<in> set (m_queue (m_scheduler g))" "m_timeoutEvent p = Some (ev_id x)" using inv(3) p by (auto simp: tied_def)
    have "m_queue (m_scheduler g) = m_queue t" by (simp add: g_def)
    then have "now < expireTime x" using inv(1) late [OF e] x(1) by (cases "m_queue t") (auto simp: scheduler_ok_def queue_ok_def)
    then show ?thesis using x by blast
  qed
  then show ?thesis using r ok told by (intro exI [of _ v] exI [of _ g] exI [of _ e]) simp
qed

text \<open>C6. An Interest is given to the callbacks of exactly the filters that match its name, in the order in which they were set, until one
throws; whatever the callbacks do, the loop over the filters returns.\<close>

theorem Face_filters:
  assumes "face_ok f"
  shows "processInterestFilters E now x tags (w, f) = Some (deliver E now x tags (m_interestFilterTable f) (w, f))"
  using filters_deliver [of "[]" "{}" "(w, f)"] assms by simp


section \<open>Data and Nacks for the pending Interests\<close>

text \<open>The entries of a list in turn: each is erased, its callback invoked and its timeout cancelled, until one throws.\<close>

fun serve ::
  "int \<Rightarrow> ('k pending_interest \<Rightarrow> 'w \<times> ('k, 't) face \<Rightarrow> ('w \<times> ('k, 't) face) \<times> exn option) \<Rightarrow> 'k pending_interest list
    \<Rightarrow> 'w \<times> ('k, 't) face \<Rightarrow> ('w \<times> ('k, 't) face) \<times> exn option" where
  "serve now invoke [] ws = (ws, None)"
| "serve now invoke (p # ps) ws = (case invoke p (fst ws, pit_erase (pi_id p) (snd ws)) of
     ((w, f), None) \<Rightarrow> serve now invoke ps (w, destroy now p f)
   | ((w, f), Some e) \<Rightarrow> ((w, destroy now p f), Some e))"

definition adds :: "(interest \<Rightarrow> bool result) \<Rightarrow> ('k, 't) face \<Rightarrow> ('k, 't) face \<Rightarrow> bool" where
  "adds T f g \<longleftrightarrow> (\<exists>ps. m_pendingInterestTable g = m_pendingInterestTable f @ ps \<and> (\<forall>p \<in> set ps. T (m_interest p) = Inr False))"

lemma adds_refl: "adds T f f"
  by (simp add: adds_def)

lemma adds_same: "m_pendingInterestTable g = m_pendingInterestTable f \<Longrightarrow> adds T f g"
  by (simp add: adds_def)

lemma adds_trans: "adds T f g \<Longrightarrow> adds T g h \<Longrightarrow> adds T f h"
  by (auto simp: adds_def)

lemma adds_cong: "m_pendingInterestTable f = m_pendingInterestTable f' \<Longrightarrow> adds T f g = adds T f' g"
  by (simp add: adds_def)

lemma express_adds:
  assumes "asyncExpressInterest E now i x tags d n t f = (g, e)" and "T x = Inr False"
  shows "adds T f g"
  using assms(1) unfolding asyncExpressInterest_def
proof (cases rule: andthen_cases)
  case (1 a)
  then show ?thesis using ensureConnected_eq [OF 1(1)] by (auto simp: adds_def)
next
  case (2 h)
  have h: "m_pendingInterestTable h = m_pendingInterestTable f" using ensureConnected_eq [OF 2(1)] by auto
  have "m_pendingInterestTable g = m_pendingInterestTable (pit_insert now i x d n t h)"
    using 2(2) by (auto simp: Let_def on_transport_def split: sum.splits prod.splits)
  then show ?thesis using h assms(2) by (simp add: adds_def pit_insert_eq new_entry_def)
qed

lemma expressInterest_adds:
  assumes "expressInterest E now x tags r d n t f = (g, v)" and "\<forall>y. Interest_wire r x = Inr y \<longrightarrow> T y = Inr False"
  shows "adds T f g"
proof (cases "Interest_wire r x")
  case (Inl a)
  then show ?thesis using assms(1) by (simp add: expressInterest_def adds_refl)
next
  case (Inr y)
  let ?f = "f\<lparr>next_object := next_object f + 1\<rparr>"
  have step: "adds T f h"
    if "dispatch (AsyncExpressInterest i y tags d n t) (asyncExpressInterest E now i y tags d n t) ?f = (h, e)" for i h e
    using that express_adds [of E now i y tags d n t ?f h e T] assms(2) Inr adds_cong [of ?f f T h]
    by (auto simp: dispatch_def post_def adds_def split: if_splits)
  have "bindE (Interest_wire r x) (\<lambda>x. bindE (block_size (i_wire x)) (\<lambda>k. Inr (x, k))) = bindE (block_size (i_wire y)) (\<lambda>k. Inr (y, k))"
    using Inr by simp
  then show ?thesis using assms(1) step
    by (cases "block_size (i_wire y)") (auto simp: expressInterest_def Let_def adds_refl split: sum.splits prod.splits option.splits if_splits)
qed

lemma put_adds: "put_packet E what m f = (g, v) \<Longrightarrow> adds T f g"
  using asyncSend_eq [of E _ f]
  by (intro adds_same) (fastforce simp: put_packet_def dispatch_def post_def split: sum.splits prod.splits option.splits if_splits)

lemma Face_api_adds:
  assumes "Face_api E now a f = (g, v)" and "calm T a"
  shows "adds T f g"
proof (cases a)
  case (ExpressInterest x tags r d n t)
  then show ?thesis using assms expressInterest_adds [of E now x tags r _ _ t f g v T] by simp
next
  case (ExpressInterest_onData x tags r d t)
  then show ?thesis using assms expressInterest_adds [of E now x tags r _ _ t f g v T] by (simp add: expressInterest_onData_def)
next
  case (ExpressInterest_name n x tags r d t)
  then show ?thesis using assms expressInterest_adds [of E now _ tags r _ _ t f g v T]
    by (auto simp: expressInterest_name_def expressInterest_onData_def adds_refl split: sum.splits)
next
  case (PutData d tags)
  then show ?thesis using assms put_adds by (auto simp: put_data_def)
next
  case (PutNack n tags r)
  then show ?thesis using assms put_adds by (auto simp: put_nack_def)
qed (use assms in \<open>auto simp: setInterestFilter_def setInterestFilter_register_def registerPrefix_def Let_def post_def adds_def\<close>)

lemma run_prog_adds: "run_prog E now p f = ((w, g), e) \<Longrightarrow> quiet T p \<Longrightarrow> adds T f g"
proof (induction p arbitrary: f)
  case (Api a k)
  obtain h v where h: "Face_api E now a f = (h, v)" by fastforce
  then have "adds T h g" using Api.IH [of "k v" h] Api.prems by (auto simp: rangeI)
  moreover have "adds T f h" using Face_api_adds [OF h] Api.prems(2) by simp
  ultimately show ?case using adds_trans by blast
qed (auto simp: adds_refl)

lemma call_fun_adds:
  assumes "call_fun E now g c ws = (vs, e)" and "quiet_client E T"
  shows "adds T (snd ws) (snd vs)"
proof -
  have a: "adds T (snd ws) (snd us)" if "call_client E now k c ws = (us, x)" for k c us x
    using that run_prog_adds [of E now "e_client E k c (fst ws)" "snd ws" "fst us" "snd us" x T] assms(2)
    by (simp add: call_client_def quiet_client_def)
  then have "adds T (snd ws) (snd us)" if "call_option E now k c ws = (us, x)" for k c us x
    using that by (cases k) (auto simp: call_option_def adds_refl)
  then show ?thesis using assms(1) a by (auto simp: call_fun_def adds_refl split: callback_fun.splits call.splits)
qed

text \<open>Entries behind that do not match are passed over.\<close>

lemma dropWhile_entry:
  assumes "distinct (map pi_id (as @ p # bs))"
  shows "dropWhile (\<lambda>q. pi_id q \<noteq> pi_id p) (as @ p # bs) = p # bs"
proof -
  have "pi_id p \<notin> pi_id ` set as" using assms by auto
  then have "\<forall>q \<in> set as. pi_id q \<noteq> pi_id p" by (metis imageI)
  then show ?thesis by (simp add: dropWhile_append2)
qed

lemma pit_loop_rest:
  assumes "distinct (map pi_id (m_pendingInterestTable (snd ws)))" and "m_pendingInterestTable (snd ws) = as @ bs"
    and "\<forall>p \<in> set bs. T (m_interest p) = Inr False"
  shows "pit_loop now T invoke (pit_begin bs) ws = Some (ws, None)"
  using assms(2,3)
proof (induction bs arbitrary: as)
  case Nil
  then show ?case by (simp add: pit_begin_def pit_loop.simps [of now T invoke None ws])
next
  case (Cons p bs)
  have "pit_loop now T invoke (pit_begin bs) ws = Some (ws, None)" using Cons.IH [of "as @ [p]"] Cons.prems by simp
  moreover have "dropWhile (\<lambda>q. pi_id q \<noteq> pi_id p) (m_pendingInterestTable (snd ws)) = p # bs"
    using dropWhile_entry [of as p bs] assms(1) Cons.prems(1) by simp
  ultimately show ?case using Cons.prems(2) by (simp add: pit_begin_def pit_loop.simps [of now T invoke "Some (pi_id p)" ws])
qed

text \<open>What the callbacks add to the table is visited only while entries are left behind the one that is erased: what is asked of
the entries in front of the last one is that their callbacks are not called, or add nothing that matches.\<close>

lemma pit_loop_serve:
  assumes step: "\<And>p ws vs e. face_inv [p] {} (snd ws) \<Longrightarrow> pi_id p \<notin> set (map fst (called (snd ws))) \<Longrightarrow> invoke p ws = (vs, e)
      \<Longrightarrow> face_inv [p] {} (snd vs) \<and> adds (\<lambda>_. Inr False) (snd ws) (snd vs) \<and> (still \<longrightarrow> adds T (snd ws) (snd vs))"
    and "face_ok (snd ws)" and "m_pendingInterestTable (snd ws) = as @ ps @ bs"
    and "\<forall>p \<in> set ps. T (m_interest p) = Inr (M p)" and "\<forall>p \<in> set bs. T (m_interest p) = Inr False"
    and "still \<or> bs = [] \<and> (\<forall>p \<in> set (butlast ps). \<not> M p)"
  shows "\<exists>vs e. pit_loop now T invoke (pit_begin (ps @ bs)) ws = Some (vs, e) \<and> serve now invoke (filter M ps) ws = (vs, e) \<and> face_ok (snd vs)
    \<and> (e = None \<longrightarrow> (\<exists>cs. m_pendingInterestTable (snd vs) = as @ filter (\<lambda>p. \<not> M p) ps @ bs @ cs))"
  using assms(2-6)
proof (induction ps arbitrary: as bs ws)
  case Nil
  have "distinct (map pi_id (m_pendingInterestTable (snd ws)))" using face_invD(5) [OF Nil.prems(1)] by simp
  then have "pit_loop now T invoke (pit_begin bs) ws = Some (ws, None)" using Nil.prems by (intro pit_loop_rest) simp_all
  then show ?case using Nil.prems by simp
next
  case (Cons p ps)
  have distinct: "distinct (map pi_id (as @ p # (ps @ bs)))" using face_invD(5) [OF Cons.prems(1)] unfolding Cons.prems(2) by auto
  have it: "pit_begin ((p # ps) @ bs) = Some (pi_id p)" by (simp add: pit_begin_def)
  have drop: "dropWhile (\<lambda>q. pi_id q \<noteq> pi_id p) (m_pendingInterestTable (snd ws)) = p # (ps @ bs)"
    using dropWhile_entry [OF distinct] Cons.prems(2) by simp
  show ?case
  proof (cases "M p")
    case False
    then have "pit_loop now T invoke (pit_begin ((p # ps) @ bs)) ws = pit_loop now T invoke (pit_begin (ps @ bs)) ws"
      using Cons.prems(3) drop unfolding it by (subst pit_loop.simps) simp
    moreover have "still \<or> bs = [] \<and> (\<forall>q \<in> set (butlast ps). \<not> M q)" using Cons.prems(5) by (auto split: if_splits)
    moreover note Cons.IH [of ws "as @ [p]" bs]
    ultimately show ?thesis using Cons.prems False by simp
  next
    case True
    have p: "p \<in> set (m_pendingInterestTable (snd ws))" using Cons.prems(2) by simp
    have e: "m_pendingInterestTable (pit_erase (pi_id p) (snd ws)) = as @ ps @ bs"
      using filter_other [OF distinct] Cons.prems(2) by simp
    obtain w f x where r: "invoke p (fst ws, pit_erase (pi_id p) (snd ws)) = ((w, f), x)" by (metis surj_pair)
    have c: "pi_id p \<notin> set (map fst (called (snd ws)))" using face_invD(8) [OF Cons.prems(1), of "pi_id p"] p by auto
    have k: "face_inv [p] {} f" "adds (\<lambda>_. Inr False) (pit_erase (pi_id p) (snd ws)) f" "still \<longrightarrow> adds T (pit_erase (pi_id p) (snd ws)) f"
      using step [OF _ _ r] pit_erase_held [OF Cons.prems(1) p] c by simp_all
    have d: "face_ok (destroy now p f)" by (rule destroy_held [OF k(1)])
    obtain cs where cs: "m_pendingInterestTable (destroy now p f) = as @ ps @ bs @ cs" "still \<longrightarrow> (\<forall>p \<in> set cs. T (m_interest p) = Inr False)"
      using k(2,3) e by (auto simp: adds_def destroy_eq)
    show ?thesis
    proof (cases x)
      case (Some a)
      then have "pit_loop now T invoke (pit_begin ((p # ps) @ bs)) ws = Some ((w, destroy now p f), Some a)"
        using Cons.prems(3) True r drop unfolding it by (subst pit_loop.simps) simp
      then show ?thesis using Some True r d by simp
    next
      case None
      have l: "serve now invoke (filter M (p # ps)) ws = serve now invoke (filter M ps) (w, destroy now p f)"
        using True r None by simp
      have l2: "pit_loop now T invoke (pit_begin ((p # ps) @ bs)) ws = pit_loop now T invoke (pit_begin (ps @ bs)) (w, destroy now p f)"
        using Cons.prems(3) True r None drop unfolding it by (subst pit_loop.simps) simp
      show ?thesis
      proof (cases "ps @ bs = []")
        case True
        have "pit_loop now T invoke None (w, destroy now p f) = Some ((w, destroy now p f), None)" by (simp add: pit_loop.simps)
        then show ?thesis unfolding l l2 using True \<open>M p\<close> d cs(1) by (simp add: pit_begin_def)
      next
        case False
        then have q: still using Cons.prems(5) True by (auto split: if_splits)
        have b: "pit_begin (ps @ bs) = pit_begin (ps @ (bs @ cs))" using False by (cases ps; cases bs) (simp_all add: pit_begin_def)
        have "\<exists>vs e. pit_loop now T invoke (pit_begin (ps @ (bs @ cs))) (w, destroy now p f) = Some (vs, e)
            \<and> serve now invoke (filter M ps) (w, destroy now p f) = (vs, e) \<and> face_ok (snd vs)
            \<and> (e = None \<longrightarrow> (\<exists>ds. m_pendingInterestTable (snd vs) = as @ filter (\<lambda>p. \<not> M p) ps @ (bs @ cs) @ ds))"
          using cs d Cons.prems q by (intro Cons.IH) auto
        then show ?thesis unfolding l l2 b using \<open>M p\<close> by auto
      qed
    qed
  qed
qed

lemma quiet_any: "quiet_client E (\<lambda>_. Inr False)"
proof -
  have "calm (\<lambda>_. Inr False) a" for a :: "'b api" by (cases a) simp_all
  then have "quiet (\<lambda>_. Inr False) p" for p :: "('a, 'b) prog" by (induction p) simp_all
  then show ?thesis by (simp add: quiet_client_def)
qed

lemma invoke_keeps:
  assumes "quiet_client E T"
    and "(let vs = (fst ws, note_call (pi_id p) c (snd ws)) in case g of None \<Rightarrow> (vs, None) | Some g \<Rightarrow> call_fun E now g c vs) = (vs, e)"
  shows "adds T (snd ws) (snd vs)"
proof -
  have n: "adds T (snd ws) (note_call (pi_id p) c (snd ws))" by (simp add: adds_def note_call_def)
  show ?thesis
  proof (cases g)
    case None
    then show ?thesis using assms(2) n by (auto simp: Let_def)
  next
    case (Some h)
    then have "call_fun E now h c (fst ws, note_call (pi_id p) c (snd ws)) = (vs, e)" using assms(2) by (simp add: Let_def)
    from call_fun_adds [OF this assms(1)] show ?thesis using adds_trans [OF n] by simp
  qed
qed

text \<open>C4. Data is given to exactly the pending Interests that it matches, in the order in which they were expressed, until a callback
throws. This is so when no callback expresses an Interest that the same Data matches, and also, whatever the callbacks express, when no
Interest but the last one of the table is matched: the iterator is then at the end before the callback is invoked. The loop returns;
unless a callback has thrown, the other Interests are still pending, in their order, with the new ones behind them.\<close>

theorem Face_satisfies:
  assumes "face_ok f" and "\<forall>p \<in> set (m_pendingInterestTable f). matchesData (e_sha256 E) (m_interest p) d = Inr (M p)"
    and "quiet_client E (\<lambda>x. matchesData (e_sha256 E) x d) \<or> (\<forall>p \<in> set (butlast (m_pendingInterestTable f)). \<not> M p)"
  shows "\<exists>v g e. satisfyPendingInterests E now d tags (w, f) = Some ((v, g), e)
    \<and> serve now (invokeDataCallback E now d tags) (filter M (m_pendingInterestTable f)) (w, f) = ((v, g), e) \<and> face_ok g
    \<and> (e = None \<longrightarrow> (\<exists>ps. m_pendingInterestTable g = filter (\<lambda>p. \<not> M p) (m_pendingInterestTable f) @ ps))"
proof -
  let ?T = "\<lambda>x. matchesData (e_sha256 E) x d"
  have step: "face_inv [p] {} (snd vs) \<and> adds (\<lambda>_. Inr False) (snd ws) (snd vs) \<and> (quiet_client E ?T \<longrightarrow> adds ?T (snd ws) (snd vs))"
    if "face_inv [p] {} (snd ws)" "pi_id p \<notin> set (map fst (called (snd ws)))" "invokeDataCallback E now d tags p ws = (vs, e)" for p ws vs e
  proof -
    have "(let vs = (fst ws, note_call (pi_id p) (DataCall (m_interest p) d tags) (snd ws)) in
        case m_dataCallback p of None \<Rightarrow> (vs, None) | Some g \<Rightarrow> call_fun E now g (DataCall (m_interest p) d tags) vs) = (vs, e)"
      using that(3) by (simp add: invokeDataCallback_def Let_def)
    from invoke_inv [OF that(1,2) this] invoke_keeps [OF quiet_any this] invoke_keeps [OF _ this] show ?thesis by blast
  qed
  show ?thesis
    using pit_loop_serve [where ws = "(w, f)" and as = "[]" and ps = "m_pendingInterestTable f" and bs = "[]" and M = M and now = now
        and still = "quiet_client E ?T", OF step] assms
    by (auto simp: satisfyPendingInterests_def)
qed

text \<open>The same of a Nack, which is given to the pending Interests that are equal to its own.\<close>

theorem Face_nacks:
  assumes "face_ok f" and "\<forall>p \<in> set (m_pendingInterestTable f). matchesInterest (nack_interest n) (m_interest p) = Inr (M p)"
    and "quiet_client E (matchesInterest (nack_interest n)) \<or> (\<forall>p \<in> set (butlast (m_pendingInterestTable f)). \<not> M p)"
  shows "\<exists>v g e. nackPendingInterests E now n tags (w, f) = Some ((v, g), e)
    \<and> serve now (invokeNackCallback E now n tags) (filter M (m_pendingInterestTable f)) (w, f) = ((v, g), e) \<and> face_ok g
    \<and> (e = None \<longrightarrow> (\<exists>ps. m_pendingInterestTable g = filter (\<lambda>p. \<not> M p) (m_pendingInterestTable f) @ ps))"
proof -
  let ?T = "matchesInterest (nack_interest n)"
  have step: "face_inv [p] {} (snd vs) \<and> adds (\<lambda>_. Inr False) (snd ws) (snd vs) \<and> (quiet_client E ?T \<longrightarrow> adds ?T (snd ws) (snd vs))"
    if "face_inv [p] {} (snd ws)" "pi_id p \<notin> set (map fst (called (snd ws)))" "invokeNackCallback E now n tags p ws = (vs, e)" for p ws vs e
  proof -
    have "(let vs = (fst ws, note_call (pi_id p) (NackCall (m_interest p) n tags) (snd ws)) in
        case m_nackCallback p of None \<Rightarrow> (vs, None) | Some g \<Rightarrow> call_fun E now g (NackCall (m_interest p) n tags) vs) = (vs, e)"
      using that(3) by (simp add: invokeNackCallback_def Let_def)
    from invoke_inv [OF that(1,2) this] invoke_keeps [OF quiet_any this] invoke_keeps [OF _ this] show ?thesis by blast
  qed
  show ?thesis
    using pit_loop_serve [where ws = "(w, f)" and as = "[]" and ps = "m_pendingInterestTable f" and bs = "[]" and M = M and now = now
        and still = "quiet_client E ?T", OF step] assms
    by (auto simp: nackPendingInterests_def)
qed


section \<open>A loop that does not end\<close>

text \<open>A transport that is connected, is receiving and takes whatever is sent.\<close>

definition open_transport :: "('w, 'k, 't) env \<Rightarrow> bool" where
  "open_transport E \<longleftrightarrow> (\<forall>t. isConnected E t \<and> isReceiving E t \<and> (\<forall>b. snd (t_send E b t) = None))"

lemma express_now:
  assumes "open_transport E" and "io_thread f" and "Interest_wire r x = Inr y" and "block_size (i_wire y) = Inr n"
    and "n \<le> MAX_NDN_PACKET_SIZE" and "interest_packet y tags = Inr b"
  shows "\<exists>t. expressInterest E now x tags r d c k f = ((pit_insert now (next_object f) y d c k
    (f\<lparr>next_object := next_object f + 1\<rparr>))\<lparr>m_transport := t\<rparr>, Inr (Id (next_object f)))"
proof -
  let ?f = "f\<lparr>next_object := next_object f + 1\<rparr>"
  let ?g = "pit_insert now (next_object f) y d c k ?f"
  have "ensureConnected E True ?f = (?f, None)" using assms(1) by (simp add: ensureConnected_def open_transport_def)
  moreover obtain t where "t_send E b (m_transport ?g) = (t, None)"
    using assms(1) unfolding open_transport_def by (metis prod.collapse)
  ultimately have "asyncExpressInterest E now (next_object f) y tags d c k ?f = (?g\<lparr>m_transport := t\<rparr>, None)"
    using assms(6) by (simp add: asyncExpressInterest_def on_transport_def Let_def)
  then show ?thesis using assms(2-5) by (intro exI [of _ t]) (simp add: expressInterest_def dispatch_def Let_def)
qed

text \<open>C8. When a Data packet matches two or more pending Interests of the same kind, whose callback for Data expresses the Interest
it was called for again, the face never goes on: while the iterator is at the entry behind the one that is erased, the new entry comes
to stand behind that, matches the same Data, and so on. The face neither returns from the element it received nor handles any other.
With a single entry the iterator is at the end before the callback is invoked, and the loop returns.\<close>

theorem Face_satisfy_diverges:
  assumes "open_transport E" and "io_thread f" and "face_ok f" and "Interest_wire r x = Inr y"
    and "matchesData (e_sha256 E) y d = Inr True" and "block_size (i_wire y) = Inr n" and "n \<le> MAX_NDN_PACKET_SIZE"
    and "interest_packet y no_tags = Inr b"
    and client: "\<And>c w. e_client E k c w = Api (ExpressInterest x no_tags r (Some k) None None) (\<lambda>_. Return w)"
    and "2 \<le> length (m_pendingInterestTable f)"
    and "\<forall>p \<in> set (m_pendingInterestTable f). m_interest p = y \<and> m_dataCallback p = Some (Plain k)"
  shows "satisfyPendingInterests E now d tags (w, f) = None"
proof (rule ccontr)
  let ?T = "\<lambda>x. matchesData (e_sha256 E) x d" and ?I = "invokeDataCallback E now d tags"
  let ?Q = "\<lambda>it ws. io_thread (snd ws) \<and> 2 \<le> length (m_pendingInterestTable (snd ws)) \<and> it = pit_begin (m_pendingInterestTable (snd ws))
    \<and> (\<forall>p \<in> set (m_pendingInterestTable (snd ws)). m_interest p = y \<and> m_dataCallback p = Some (Plain k) \<and> pi_id p < next_object (snd ws))
    \<and> distinct (map pi_id (m_pendingInterestTable (snd ws)))"
  assume "satisfyPendingInterests E now d tags (w, f) \<noteq> None"
  then obtain v where v: "pit_loop now ?T ?I (pit_begin (m_pendingInterestTable f)) (w, f) = Some v" by (auto simp: satisfyPendingInterests_def)
  have "now = now \<longrightarrow> ?T = ?T \<longrightarrow> ?I = ?I \<longrightarrow> ?Q (pit_begin (m_pendingInterestTable f)) (w, f) \<longrightarrow> False"
  proof (rule pit_loop.raw_induct [of "\<lambda>now' T I it ws v. now' = now \<longrightarrow> T = ?T \<longrightarrow> I = ?I \<longrightarrow> ?Q it ws \<longrightarrow> False", OF _ v])
    fix loop now' T I it ws v
    assume IH: "\<And>now' T I it ws v. loop now' T I it ws = Some v \<Longrightarrow> now' = now \<longrightarrow> T = ?T \<longrightarrow> I = ?I \<longrightarrow> ?Q it ws \<longrightarrow> False"
      and body: "(case it of
        None \<Rightarrow> Some (ws, None)
      | Some i \<Rightarrow> (case dropWhile (\<lambda>p. pi_id p \<noteq> i) (m_pendingInterestTable (snd ws)) of
          [] \<Rightarrow> Some (ws, Some (UndefinedBehaviour ''erased iterator''))
        | p # ps \<Rightarrow> (case T (m_interest p) of
            Inl e \<Rightarrow> Some (ws, Some e)
          | Inr m \<Rightarrow>
              if \<not> m then loop now' T I (pit_begin ps) ws
              else (case I p (fst ws, pit_erase i (snd ws)) of
                  ((w, f), None) \<Rightarrow> loop now' T I (pit_begin ps) (w, destroy now' p f)
                | ((w, f), Some e) \<Rightarrow> Some ((w, destroy now' p f), Some e))))) = Some v"
    show "now' = now \<longrightarrow> T = ?T \<longrightarrow> I = ?I \<longrightarrow> ?Q it ws \<longrightarrow> False"
    proof (intro impI)
      assume e: "now' = now" "T = ?T" "I = ?I" and Q: "?Q it ws"
      then obtain q q' ps where t: "m_pendingInterestTable (snd ws) = q # q' # ps"
        by (metis (no_types) One_nat_def Suc_le_length_iff numeral_2_eq_2)
      then have q: "m_interest q = y" "m_dataCallback q = Some (Plain k)" "it = Some (pi_id q)" using Q by (simp_all add: pit_begin_def)
      let ?f = "note_call (pi_id q) (DataCall y d tags) (pit_erase (pi_id q) (snd ws))"
      have "distinct (map pi_id ([] @ q # q' # ps))" using Q t by simp
      then have "m_pendingInterestTable (pit_erase (pi_id q) (snd ws)) = q' # ps" using filter_other [of "[]" q "q' # ps"] t by simp
      then have f: "io_thread ?f" "m_pendingInterestTable ?f = q' # ps" "next_object ?f = next_object (snd ws)" using Q by (simp_all add: note_call_def)
      obtain t where t': "expressInterest E now x no_tags r (Some (Plain k)) None None ?f = ((pit_insert now (next_object ?f) y (Some (Plain k)) None None
          (?f\<lparr>next_object := next_object ?f + 1\<rparr>))\<lparr>m_transport := t\<rparr>, Inr (Id (next_object ?f)))"
        using express_now [OF assms(1) f(1) assms(4,6-8)] by blast
      let ?g = "(pit_insert now (next_object ?f) y (Some (Plain k)) None None (?f\<lparr>next_object := next_object ?f + 1\<rparr>))\<lparr>m_transport := t\<rparr>"
      have r: "?I q (fst ws, pit_erase (pi_id q) (snd ws)) = ((fst ws, ?g), None)"
        using q(1,2) t' by (simp add: invokeDataCallback_def Let_def call_fun_def call_client_def client)
      have g: "m_pendingInterestTable (destroy now q ?g) = q' # ps @ [new_entry (next_object ?f) y (Some (Plain k)) None None (Some (next_event (m_scheduler ?f)))]"
          "io_thread (destroy now q ?g)" "next_object (destroy now q ?g) = next_object (snd ws) + 1"
        using f by (simp_all add: destroy_eq pit_insert_eq)
      have "?Q (pit_begin (q' # ps)) (fst ws, destroy now q ?g)" using Q t f g by (auto simp: pit_begin_def new_entry_def)
      moreover have "loop now ?T ?I (pit_begin (q' # ps)) (fst ws, destroy now q ?g) = Some v"
        using body e q(1,3) t r assms(5) by simp
      ultimately show False using IH by blast
    qed
  qed
  moreover have "distinct (map pi_id (m_pendingInterestTable f))" "\<forall>p \<in> set (m_pendingInterestTable f). pi_id p < next_object f"
    using face_invD(5,6) [OF assms(3)] by auto
  ultimately show False using assms(2,10,11) by auto
qed


section \<open>Answers that the code does not expect\<close>

text \<open>C9. A failure of the forwarder to remove a prefix of an Interest filter ends the processing of events: \<open>unsetInterestFilter\<close> gives
an empty callback for failures, which is called without a check. The exception leaves \<open>processEvents\<close>, all pending Interests and all
registered prefixes are dropped, and no callback is told.\<close>

theorem Face_unset_failure:
  assumes "n < length (m_nfdController f)" and "m_nfdController f ! n = RibUnregister p ok None"
  shows "\<exists>g. Face_event E now (Answer n (Some text)) (w, f) = Some ((w, g), Some BadFunctionCall)
    \<and> m_pendingInterestTable g = [] \<and> m_registeredPrefixTable g = [] \<and> called g = called f"
proof -
  let ?f = "f\<lparr>io_thread := True, m_nfdController := take n (m_nfdController f) @ drop (Suc n) (m_nfdController f)\<rparr>"
  have "Face_event E now (Answer n (Some text)) (w, f) = Some ((w, processEvents_catch now ?f), Some BadFunctionCall)"
    using assms by (simp add: Face_event_def call_unchecked_def)
  moreover obtain s where "fold (destroy now) (m_pendingInterestTable ?f) (?f\<lparr>m_ioServiceWork := False, m_pendingInterestTable := []\<rparr>)
      = (?f\<lparr>m_ioServiceWork := False, m_pendingInterestTable := []\<rparr>)\<lparr>m_scheduler := s\<rparr>"
    using fold_destroy by blast
  ultimately show ?thesis
    by (intro exI [of _ "processEvents_catch now ?f"])
      (simp add: processEvents_catch_def pit_clear_def registered_clear_def post_def)
qed

text \<open>The second of two commands to remove one prefix erases an entry that is gone.\<close>

lemma Face_unregister_twice:
  assumes "m_nfdController f = [RibUnregister p ok fail, RibUnregister p ok' fail']" and "\<And>w. e_client E = (\<lambda>k c w. Return w)"
    and "m_registeredPrefixTable f = [p]"
  shows "\<exists>g h v. Face_event E now (Answer 0 None) (w, f) = Some ((w, g), None)
    \<and> Face_event E now (Answer 0 None) (w, g) = Some (v, Some (UndefinedBehaviour ''erase''))"
  using assms by (cases ok) (auto simp: Face_event_def finalizeUnregisterPrefix_def call_option_def call_client_def
    registered_erase_def post_def)

end
