(* ===== verification/FaceWire.thy ===== *)
theory FaceWire
  imports FaceRun
begin

text \<open>
  From one face to another: the packet that a face sends for an Interest, a Nack or Data is received by a face as
  the same Interest, Nack or Data, with the tags that the link protocol carries.
\<close>

section \<open>Composing a packet\<close>

text \<open>A packet that is being composed.\<close>

definition composed :: "block \<Rightarrow> elem list \<Rightarrow> bool" where
  "composed p es \<longleftrightarrow> LpPacket.fields p es \<and> permissible (map fst es) \<and> \<not> hasWire p"

lemma composed_new: "composed Packet_new []"
  using fields_new by (simp add: composed_def permissible_def Packet_new_def Block_type_def hasWire_def)

lemma composed_add:
  assumes "composed p es" and "suits f v" and "f = AckField \<or> TlvType f \<notin> fst ` set es"
  shows "\<exists>q. Packet_add f v p = Inr q \<and> composed q (takeWhile (before f) es @ field_elem f v # dropWhile (before f) es)"
proof -
  have c: "LpPacket.fields p es" "permissible (map fst es)" using assms(1) by (simp_all add: composed_def)
  obtain q where q: "Packet_add f v p = Inr q" "\<not> hasWire q" "LpPacket.fields q (takeWhile (before f) es @ field_elem f v # dropWhile (before f) es)"
    using add_field [OF c assms(2,3)] by blast
  then show ?thesis using add_permissible [OF c(2) assms(3)] by (simp add: composed_def field_elem_def)
qed

definition tag_elems :: "field \<Rightarrow> ('v \<Rightarrow> field_value) \<Rightarrow> 'v option \<Rightarrow> elem list" where
  "tag_elems l c v = (case v of None \<Rightarrow> [] | Some x \<Rightarrow> [field_elem l (c x)])"

lemma tag_elems_types: "fst ` set (tag_elems l c v) \<subseteq> {TlvType l}"
  by (auto simp: tag_elems_def field_elem_def split: option.split)

text \<open>A tag whose field comes behind those in front and before those behind.\<close>

lemma composed_tag:
  assumes "composed p (as @ cs)" and "\<forall>x. v = Some x \<longrightarrow> suits f (c x)" and "\<forall>e \<in> set as. before f e"
    and "\<forall>e \<in> set cs. rank (TlvType f) < rank (fst e)"
  shows "\<exists>q. add_tag f c v p = Inr q \<and> composed q (as @ tag_elems f c v @ cs)"
proof (cases v)
  case None
  then show ?thesis using assms(1) by (simp add: add_tag_def tag_elems_def)
next
  case (Some x)
  have n: "\<not> before f e" if "e \<in> set cs" for e using assms(4) that by (auto simp: before_def)
  have "takeWhile (before f) (as @ cs) = as \<and> dropWhile (before f) (as @ cs) = cs"
    using assms(3) n by (cases cs) (simp_all add: takeWhile_append dropWhile_append)
  moreover have "TlvType f \<notin> fst ` set (as @ cs)" using assms(3,4) by (force simp: before_def)
  ultimately show ?thesis using composed_add [OF assms(1), of f "c x"] assms(2) Some by (simp add: add_tag_def tag_elems_def)
qed

lemma composed_fragment:
  assumes "composed p es" and "bs \<noteq> []" and "length bs < 2 ^ 31" and "\<forall>e \<in> set es. before FragmentField e"
  shows "\<exists>q. Packet_add FragmentField (Range bs) p = Inr q \<and> composed q (es @ [(lp_Fragment, bs)])"
proof -
  have "lp_Fragment \<notin> fst ` set es" using assms(4) by (force simp: before_def)
  then obtain q where q: "Packet_add FragmentField (Range bs) p = Inr q"
      "composed q (takeWhile (before FragmentField) es @ field_elem FragmentField (Range bs) # dropWhile (before FragmentField) es)"
    using composed_add [OF assms(1), of FragmentField "Range bs"] assms(2,3) by auto
  have t: "takeWhile (before FragmentField) es = es" "dropWhile (before FragmentField) es = []" using assms(4) by simp_all
  show ?thesis using q(1) q(2) [unfolded t] by (simp add: field_elem_def)
qed

text \<open>What is sent, and what the face at the other end makes of it.\<close>

lemma sent:
  assumes "composed p (hs @ [(lp_Fragment, tlv t (elems_bytes es))])" and "t = tlv_Interest \<or> t = tlv_Data"
    and "length (elems_bytes es) < 2 ^ 30" and "length (elems_bytes hs) < 2 ^ 10" and "lp_Fragment \<notin> fst ` set hs"
  shows "\<exists>b c bs w q. Packet_wire p = Inr (b, c) \<and> wire b = Inr bs \<and> Block_buffer bs = Inr w \<and> Packet_wireDecode w = Inr q
    \<and> LpPacket.fields q (hs @ [(lp_Fragment, tlv t (elems_bytes es))])"
proof (cases "hs = []")
  case True
  then have p: "LpPacket.fields p [(lp_Fragment, tlv t (elems_bytes es))]" "\<not> hasWire p" using assms(1) by (simp_all add: composed_def)
  obtain b where b: "Packet_wire p = Inr (b, p)" "wire b = Inr (tlv t (elems_bytes es))" using lone_fragment [OF p] by blast
  obtain w where w: "Block_buffer (tlv t (elems_bytes es)) = Inr w" "holds w (t, elems_bytes es)"
    using Block_buffer_holds [of "elems_bytes es" t] assms(3) by auto
  obtain q where "Packet_wireDecode w = Inr q" "LpPacket.fields q [(lp_Fragment, tlv t (elems_bytes es))]"
    using bare_decoded [OF _ _ assms(2,3), of w] w(2) holds_sel [OF w(2)] by (auto simp: holds_def)
  then show ?thesis using b w True by simp
next
  case False
  let ?es = "hs @ [(lp_Fragment, tlv t (elems_bytes es))]"
  have p: "LpPacket.fields p ?es" "permissible (map fst ?es)" "\<not> hasWire p" using assms(1) unfolding composed_def by blast+
  have n: "length (elems_bytes ?es) < 2 ^ 31"
    using assms(3,4) tlv_length_le [of t "elems_bytes es"] tlv_length_le [of lp_Fragment "tlv t (elems_bytes es)"] by simp
  have "\<not> (length ?es = 1 \<and> fst (hd ?es) = lp_Fragment)" using False by (cases hs) auto
  then obtain b where b: "Packet_wire p = Inr (b, b)" "holds b (lp_LpPacket, elems_bytes ?es)" using wire_packet [OF p(1,3) n] by blast
  obtain w where w: "Block_buffer (tlv lp_LpPacket (elems_bytes ?es)) = Inr w" "holds w (lp_LpPacket, elems_bytes ?es)"
    using Block_buffer_holds [of "elems_bytes ?es" lp_LpPacket] n by auto
  obtain q where "Packet_wireDecode w = Inr q" "LpPacket.fields q ?es" using decoded [OF w(2)] p(2) by auto
  then show ?thesis using b w by (auto simp: holds_def)
qed

lemma get_one:
  assumes "LpPacket.fields q es" and "filter (\<lambda>e. fst e = TlvType f) es = [field_elem f v]" and "suits f v"
  shows "\<exists>u. Packet_get f 0 q = Inr (u, q) \<and> same_value u v"
  using get_field [OF assms(1) _ _ assms(3), of 0] assms(2) by auto

lemma number_read:
  assumes "LpPacket.fields q es" and "filter (\<lambda>e. fst e = TlvType f) es = tag_elems f Number v" and "f \<notin> {FragmentField, NackField, CachePolicyField}"
  shows "number_field f q = Inr v"
proof (cases v)
  case None
  then have "TlvType f \<notin> fst ` set es" using assms(2) by (auto simp: tag_elems_def filter_empty_conv)
  then show ?thesis using has_field [OF assms(1), of f] None by (simp add: number_field_def)
next
  case (Some n)
  then have e: "filter (\<lambda>e. fst e = TlvType f) es = [field_elem f (Number n)]" using assms(2) by (simp add: tag_elems_def)
  then have "field_elem f (Number n) \<in> set (filter (\<lambda>e. fst e = TlvType f) es)" by simp
  then have "TlvType f \<in> fst ` set es" by (auto simp: field_elem_def intro: rev_image_eqI)
  moreover obtain u where "Packet_get f 0 q = Inr (u, q)" "same_value u (Number n)" using get_one [OF assms(1) e] assms(3) by auto
  ultimately show ?thesis using has_field [OF assms(1), of f] Some by (cases u) (simp_all add: number_field_def)
qed

text \<open>A block of one element is the same block, whichever way it is made.\<close>

lemma raw_buffer:
  assumes "length v < 2 ^ 32"
  shows "\<exists>b. Block_buffer (tlv t v) = Inr b \<and> Block_raw (tlv t v) = Inr b \<and> holds b (t, v)"
proof -
  obtain b where b: "Block_buffer (tlv t v) = Inr b" "holds b (t, v)" using Block_buffer_holds [of v t] assms by auto
  have n: "length v \<le> length (tlv t v)" by (simp add: length_tlv)
  have "unat (word_of_nat (length v) :: 64 word) = length v" using assms by (simp add: unat_of_nat take_bit_nat_eq_self)
  then have "Block_raw (tlv t v) = Block_buffer (tlv t v)"
    using n by (simp add: Block_raw_def Block_buffer_def Block_range_def range_of_def Let_def)
  then show ?thesis using b by auto
qed

lemma element_read:
  assumes "LpPacket.fields q (hs @ [(lp_Fragment, tlv t (elems_bytes es))])" and "lp_Fragment \<notin> fst ` set hs"
    and "length (elems_bytes es) < 2 ^ 30"
  shows "\<exists>x. Packet_get FragmentField 0 q = Inr (Range (tlv t (elems_bytes es)), q) \<and> Block_raw (tlv t (elems_bytes es)) = Inr x
    \<and> Block_buffer (tlv t (elems_bytes es)) = Inr x \<and> holds x (t, elems_bytes es) \<and> m_type x = t"
proof -
  let ?r = "Range (tlv t (elems_bytes es))"
  have "filter (\<lambda>e. fst e = lp_Fragment) hs = []" using assms(2) by (force simp: filter_empty_conv)
  then have "filter (\<lambda>e. fst e = TlvType FragmentField) (hs @ [(lp_Fragment, tlv t (elems_bytes es))]) = [field_elem FragmentField ?r]"
    by (simp add: field_elem_def)
  moreover have "suits FragmentField ?r" using assms(3) tlv_length_le [of t "elems_bytes es"] by (simp add: tlv_def vartype_def)
  ultimately obtain u where "Packet_get FragmentField 0 q = Inr (u, q)" "same_value u ?r" using get_one [OF assms(1)] by blast
  then have "Packet_get FragmentField 0 q = Inr (?r, q)" by (cases u) simp_all
  moreover obtain x where x: "Block_buffer (tlv t (elems_bytes es)) = Inr x" "Block_raw (tlv t (elems_bytes es)) = Inr x"
      "holds x (t, elems_bytes es)" using raw_buffer [of "elems_bytes es" t] assms(3) by auto
  ultimately show ?thesis using holds_sel [OF x(3)] by blast
qed

text \<open>The tags that a receiver sees.\<close>

lemma tags_read:
  assumes "LpPacket.fields q es" and "filter (\<lambda>e. fst e = TlvType CongestionMarkField) es = tag_elems CongestionMarkField Number v"
    and "TlvType IncomingFaceIdField \<notin> fst ` set es"
  shows "extractLpLocalFields q = Inr (no_tags\<lparr>CongestionMarkTag := v\<rparr>)"
proof -
  have "number_field IncomingFaceIdField q = Inr None" using has_field [OF assms(1), of IncomingFaceIdField] assms(3) by (simp add: number_field_def)
  then show ?thesis using number_read [OF assms(1,2)] by (simp add: extractLpLocalFields_def no_tags_def)
qed

lemma tag_filter:
  "filter (\<lambda>e. fst e = TlvType l) (tag_elems l c v) = tag_elems l c v"
  "l \<noteq> k \<Longrightarrow> filter (\<lambda>e. fst e = TlvType l) (tag_elems k c v) = []"
  by (auto simp: tag_elems_def field_elem_def TlvType_inj split: option.split)

lemma tag_small:
  "length (elems_bytes (tag_elems l Number v)) \<le> 26"
  "length (elems_bytes (tag_elems l CacheValue w)) \<le> 44"
proof -
  have "length (tlv t (nni n)) \<le> 26" for t n using tlv_length_le [of t "nni n"] nni_length_le [of n] by simp
  then show "length (elems_bytes (tag_elems l Number v)) \<le> 26" by (simp add: tag_elems_def field_elem_def split: option.split)
  have "length (tlv t (tlv u (nni n))) \<le> 44" for t u n
    using tlv_length_le [of t "tlv u (nni n)"] tlv_length_le [of u "nni n"] nni_length_le [of n] by simp
  then show "length (elems_bytes (tag_elems l CacheValue w)) \<le> 44" by (simp add: tag_elems_def field_elem_def split: option.split)
qed


section \<open>Interests\<close>

lemma interest_composed:
  assumes "wire (i_wire y) = Inr bs" and "bs \<noteq> []" and "length bs < 2 ^ 31"
  shows "\<exists>p. interest_packet y tags = bindE (Packet_wire p) (\<lambda>(b, _). Inr b)
    \<and> composed p ((tag_elems NextHopFaceIdField Number (NextHopFaceIdTag tags)
        @ tag_elems CongestionMarkField Number (CongestionMarkTag tags)) @ [(lp_Fragment, bs)])"
proof -
  let ?n = "tag_elems NextHopFaceIdField Number (NextHopFaceIdTag tags)"
  let ?c = "tag_elems CongestionMarkField Number (CongestionMarkTag tags)"
  have r: "before CongestionMarkField e" "before FragmentField e" if "e \<in> set ?n" for e
    using that tag_elems_types [of NextHopFaceIdField Number] by (auto simp: before_def rank_def lp_types tag_elems_def field_elem_def split: option.splits)
  have s: "before FragmentField e" if "e \<in> set ?c" for e
    using that by (auto simp: before_def rank_def lp_types tag_elems_def field_elem_def split: option.splits)
  obtain p where p: "add_tag NextHopFaceIdField Number (NextHopFaceIdTag tags) Packet_new = Inr p" "composed p ?n"
    using composed_tag [of Packet_new "[]" "[]" "NextHopFaceIdTag tags" NextHopFaceIdField Number] composed_new by auto
  then obtain q where q: "add_tag CongestionMarkField Number (CongestionMarkTag tags) p = Inr q" "composed q (?n @ ?c)"
    using composed_tag [of p ?n "[]" "CongestionMarkTag tags" CongestionMarkField Number] r by auto
  have "\<forall>e \<in> set (?n @ ?c). before FragmentField e" using r s by auto
  then obtain x where "Packet_add FragmentField (Range bs) q = Inr x" "composed x ((?n @ ?c) @ [(lp_Fragment, bs)])"
    using composed_fragment [OF q(2) assms(2,3)] by blast
  then show ?thesis using p(1) q(1) assms(1) by (intro exI [of _ x]) (simp add: interest_packet_def)
qed

lemma interest_transfer:
  assumes "interest_ok x" and "link_ok x" and "nonce_ok x" and "i_interestLifetime x < 2 ^ 63" and "\<not> hasWire (i_wire x)"
    and "length (elems_bytes (interest_elems (nonce_value r x) x)) < 2 ^ 30"
  shows "\<exists>y b bs w z. Interest_wire r x = Inr y 
    \<and> (length (tlv tlv_Interest (elems_bytes (interest_elems (nonce_value r x) x))) < 2 ^ 32
      \<longrightarrow> block_size (i_wire y) = Inr (length (tlv tlv_Interest (elems_bytes (interest_elems (nonce_value r x) x)))))
    \<and> interest_packet y tags = Inr b \<and> wire b = Inr bs \<and> Block_buffer bs = Inr w
    \<and> read_element w = Inr (AnInterest z (no_tags\<lparr>CongestionMarkTag := CongestionMarkTag tags\<rparr>))
    \<and> interest_same (nonce_value r x) x y \<and> interest_same (nonce_value r x) x z"
proof -
  let ?es = "interest_elems (nonce_value r x) x"
  let ?n = "tag_elems NextHopFaceIdField Number (NextHopFaceIdTag tags)"
  let ?c = "tag_elems CongestionMarkField Number (CongestionMarkTag tags)"
  obtain y z where y: "Interest_wire r x = Inr y" "wire (i_wire y) = Inr (tlv tlv_Interest (elems_bytes ?es))" "interest_same (nonce_value r x) x y"
      "length (tlv tlv_Interest (elems_bytes ?es)) < 2 ^ 32 \<longrightarrow> block_size (i_wire y) = Inr (length (tlv tlv_Interest (elems_bytes ?es)))"
      and z: "bindE (Block_buffer (tlv tlv_Interest (elems_bytes ?es))) Interest_of_block = Inr z" "interest_same (nonce_value r x) x z"
    using Interest_wire_run [OF assms(1-5), of r] assms(6) by auto
  have "tlv tlv_Interest (elems_bytes ?es) \<noteq> []" "length (tlv tlv_Interest (elems_bytes ?es)) < 2 ^ 31"
    using tlv_length_le [of tlv_Interest "elems_bytes ?es"] assms(6) by (simp_all add: tlv_def vartype_def)
  then obtain p where p: "interest_packet y tags = bindE (Packet_wire p) (\<lambda>(b, _). Inr b)"
      "composed p ((?n @ ?c) @ [(lp_Fragment, tlv tlv_Interest (elems_bytes ?es))])" using interest_composed [OF y(2)] by blast
  have h: "length (elems_bytes (?n @ ?c)) < 2 ^ 10" "lp_Fragment \<notin> fst ` set (?n @ ?c)"
    using tag_small(1) [of NextHopFaceIdField "NextHopFaceIdTag tags"] tag_small(1) [of CongestionMarkField "CongestionMarkTag tags"]
    by (auto simp: tag_elems_def field_elem_def lp_types split: option.splits)
  obtain b d bs w q where q: "Packet_wire p = Inr (b, d)" "wire b = Inr bs" "Block_buffer bs = Inr w" "Packet_wireDecode w = Inr q"
      "LpPacket.fields q ((?n @ ?c) @ [(lp_Fragment, tlv tlv_Interest (elems_bytes ?es))])"
    using sent [OF p(2) _ assms(6) h] by auto
  have "extractLpLocalFields q = Inr (no_tags\<lparr>CongestionMarkTag := CongestionMarkTag tags\<rparr>)"
    by (rule tags_read [OF q(5)]) (simp_all add: tag_filter lp_types, auto simp: tag_elems_def field_elem_def lp_types split: option.splits)
  moreover have "Packet_has NackField q = Inr (False, q)"
    using has_field [OF q(5), of NackField] by (auto simp: tag_elems_def field_elem_def lp_types split: option.splits)
  ultimately have "read_element w = Inr (AnInterest z (no_tags\<lparr>CongestionMarkTag := CongestionMarkTag tags\<rparr>))"
    using q(4) element_read [OF q(5) h(2) assms(6)] z(1) by (auto simp: read_element_def)
  then show ?thesis using y z(2) p(1) q(1-3) by auto
qed

text \<open>C7. An Interest from one face to another: what a face sends for an Interest it expresses is received as an Interest that has the
same fields, the nonce that was chosen among them. Of the tags only the congestion mark crosses: the face that the next hop was to be
is a field of the packet, and no tag at the other end.\<close>

theorem Face_interest_transfer:
  assumes "interest_ok x" and "link_ok x" and "nonce_ok x" and "i_interestLifetime x < 2 ^ 63" and "\<not> hasWire (i_wire x)"
    and "length (elems_bytes (interest_elems (nonce_value r x) x)) < 2 ^ 30"
  shows "\<exists>y b bs w z. Interest_wire r x = Inr y \<and> interest_packet y tags = Inr b \<and> wire b = Inr bs \<and> Block_buffer bs = Inr w
    \<and> read_element w = Inr (AnInterest z (no_tags\<lparr>CongestionMarkTag := CongestionMarkTag tags\<rparr>))
    \<and> interest_same (nonce_value r x) x y \<and> interest_same (nonce_value r x) x z"
  using interest_transfer [OF assms, of tags] by blast

text \<open>The Interest that \<open>expressInterest\<close> of a name makes has had its nonce set.\<close>

lemma set_nonce_ok:
  assumes "interest_ok i" and "link_ok i" and "\<not> hasWire (i_wire i)"
  shows "\<exists>z. setNonce k i = Inr z \<and> interest_ok z \<and> link_ok z \<and> nonce_ok z \<and> \<not> hasWire (i_wire z)
    \<and> i_interestLifetime z = i_interestLifetime i \<and> nonce_value r z = k \<and> interest_elems k z = interest_elems k i"
proof -
  obtain b where b: "makeBinaryBlock tlv_Nonce (nonce_bytes k) = Inr b" "block_ok b" "wire b = Inr (tlv tlv_Nonce (nonce_bytes k))"
      "elem_of b = (tlv_Nonce, nonce_bytes k)" "m_subBlocks b = []"
    using makeBinary_block [of tlv_Nonce "nonce_bytes k"] by (auto simp: fits_small)
  have h: "holds b (tlv_Nonce, nonce_bytes k)" using b by (simp add: holds_def)
  have "length (tlv tlv_Nonce (nonce_bytes k)) < 2 ^ 32" using tlv_length_le [of tlv_Nonce "nonce_bytes k"] by simp
  then have n: "shortest b" "hasWire b" "m_type b = tlv_Nonce" "value_size b = 4" "block_value b = nonce_bytes k"
    using holds_shortest [OF h] holds_sel [OF h] by simp_all
  let ?z = "reset_wire (i\<lparr>i_nonce := b\<rparr>)"
  have l: "link_ok ?z = link_ok i" by (cases "i_selectedDelegation i") (simp_all add: link_ok_def hasLink_def reset_wire_def)
  have e: "lifetime_elems ?z = lifetime_elems i" "link_elems ?z = link_elems i" "hasLink ?z = hasLink i"
    by (simp_all add: lifetime_elems_def link_elems_def hasLink_def reset_wire_def)
  then have "interest_elems k ?z = interest_elems k i" by (simp add: interest_elems_def reset_wire_def)
  moreover have "\<not> hasWire (i_wire ?z)" by (simp add: reset_wire_def block_reset_def resetWire_def hasWire_def)
  moreover have "setNonce k i = Inr ?z" using assms(3) b(1) by (simp add: setNonce_def)
  ultimately show ?thesis using assms(1,2) n l
    by (intro exI [of _ ?z]) (simp add: nonce_ok_def nonce_value_def interest_ok_def reset_wire_def)
qed

text \<open>Interests expressed by a name all have the nonce 0, whatever the random generator gives: \<open>expressInterest\<close> sets it to 0,
which the encoding takes for a nonce that has been chosen.\<close>

theorem Face_name_nonce:
  assumes "open_transport E" and "io_thread f" and "interest_ok (Interest_setName x n)" and "link_ok (Interest_setName x n)"
    and "i_interestLifetime x < 2 ^ 63" and "length (elems_bytes (interest_elems 0 (Interest_setName x n))) \<le> 8700"
  shows "\<exists>g p. expressInterest_name E now n x tags r d t f = (g, Inr (Id (next_object f)))
    \<and> m_pendingInterestTable g = m_pendingInterestTable f @ [p] \<and> pi_id p = next_object f \<and> read_nonce (m_interest p) = Inr 0
    \<and> name_keys (i_name (m_interest p)) = name_keys n"
proof -
  let ?x = "Interest_setName x n"
  have "\<not> hasWire (i_wire ?x)" by (simp add: Interest_setName_def reset_wire_def block_reset_def resetWire_def hasWire_def)
  then obtain z where z: "setNonce 0 ?x = Inr z" "interest_ok z" "link_ok z" "nonce_ok z" "\<not> hasWire (i_wire z)"
      "i_interestLifetime z = i_interestLifetime ?x" "nonce_value r z = 0" "interest_elems 0 z = interest_elems 0 ?x"
    using set_nonce_ok [OF assms(3,4), of 0 r] by blast
  let ?n = "length (tlv tlv_Interest (elems_bytes (interest_elems 0 z)))"
  have n: "?n \<le> 8800" using tlv_length_le [of tlv_Interest "elems_bytes (interest_elems 0 z)"] assms(6) z(8) by simp
  have "i_interestLifetime z < 2 ^ 63" using z(6) assms(5) by (simp add: Interest_setName_def reset_wire_def)
  moreover have "length (elems_bytes (interest_elems (nonce_value r z) z)) < 2 ^ 30" using z(7,8) assms(6) by simp
  ultimately obtain y b where y: "Interest_wire r z = Inr y" "block_size (i_wire y) = Inr ?n" "interest_packet y tags = Inr b"
      "interest_same 0 z y"
    using interest_transfer [OF z(2-4) _ z(5), of r tags] z(7) n by auto
  obtain u where "expressInterest_name E now n x tags r d t f = ((pit_insert now (next_object f) y (Some (WrapOnData d)) (Some (WrapOnTimeout t)) t
      (f\<lparr>next_object := next_object f + 1\<rparr>))\<lparr>m_transport := u\<rparr>, Inr (Id (next_object f)))"
    using express_now [OF assms(1,2) y(1,2) _ y(3), of now "Some (WrapOnData d)" "Some (WrapOnTimeout t)" t] n z(1) by (auto simp: expressInterest_name_def expressInterest_onData_def MAX_NDN_PACKET_SIZE_def)
  moreover have "i_name z = n" using z(1) by (auto simp: setNonce_def Interest_setName_def reset_wire_def bindE_Inr_conv Let_def split: if_splits)
  ultimately show ?thesis using y(4) by (simp add: pit_insert_eq new_entry_def interest_same_def)
qed


section \<open>Nacks\<close>

lemma nack_composed:
  assumes "Interest_wire r (nack_interest n) = Inr y" and "wire (i_wire y) = Inr bs" and "bs \<noteq> []" and "length bs < 2 ^ 31"
  shows "\<exists>p. nack_packet n tags r = bindE (Packet_wire p) (\<lambda>(b, _). Inr b)
    \<and> composed p ((field_elem NackField (NackValue (nack_head n)) # tag_elems CongestionMarkField Number (CongestionMarkTag tags)) @ [(lp_Fragment, bs)])"
proof -
  let ?h = "field_elem NackField (NackValue (nack_head n))"
  obtain p where p: "Packet_add NackField (NackValue (nack_head n)) Packet_new = Inr p" "composed p [?h]"
    using composed_add [OF composed_new, of NackField "NackValue (nack_head n)"] by auto
  then obtain q where q: "Packet_add FragmentField (Range bs) p = Inr q" "composed q ([?h] @ [(lp_Fragment, bs)])"
    using composed_fragment [OF p(2) assms(3,4)] by (auto simp: before_def rank_def lp_types field_elem_def)
  obtain x where "add_tag CongestionMarkField Number (CongestionMarkTag tags) q = Inr x"
      "composed x ([?h] @ tag_elems CongestionMarkField Number (CongestionMarkTag tags) @ [(lp_Fragment, bs)])"
    using composed_tag [OF q(2), of "CongestionMarkTag tags" CongestionMarkField Number]
    by (auto simp: before_def rank_def lp_types field_elem_def)
  then show ?thesis using p(1) q(1) assms(1,2) by (intro exI [of _ x]) (simp add: nack_packet_def)
qed

text \<open>A Nack from one face to another: what a face sends for a Nack is received as a Nack with the same reason for an Interest that has
the same fields.\<close>

theorem Face_nack_transfer:
  assumes "interest_ok x" and "link_ok x" and "nonce_ok x" and "i_interestLifetime x < 2 ^ 63" and "\<not> hasWire (i_wire x)"
    and "length (elems_bytes (interest_elems (nonce_value r x) x)) < 2 ^ 30" and "x = nack_interest n"
  shows "\<exists>b bs w m. nack_packet n tags r = Inr b \<and> wire b = Inr bs \<and> Block_buffer bs = Inr w
    \<and> read_element w = Inr (ANack m (no_tags\<lparr>CongestionMarkTag := CongestionMarkTag tags\<rparr>))
    \<and> interest_same (nonce_value r x) x (nack_interest m) \<and> Nack_getReason m = Nack_getReason n"
proof -
  let ?es = "interest_elems (nonce_value r x) x"
  let ?h = "field_elem NackField (NackValue (nack_head n))"
  let ?c = "tag_elems CongestionMarkField Number (CongestionMarkTag tags)"
  obtain y z where y: "Interest_wire r x = Inr y" "wire (i_wire y) = Inr (tlv tlv_Interest (elems_bytes ?es))"
      and z: "bindE (Block_buffer (tlv tlv_Interest (elems_bytes ?es))) Interest_of_block = Inr z" "interest_same (nonce_value r x) x z"
    using Interest_wire_run [OF assms(1-5), of r] assms(6) by auto
  have "tlv tlv_Interest (elems_bytes ?es) \<noteq> []" "length (tlv tlv_Interest (elems_bytes ?es)) < 2 ^ 31"
    using tlv_length_le [of tlv_Interest "elems_bytes ?es"] assms(6) by (simp_all add: tlv_def vartype_def)
  then obtain p where p: "nack_packet n tags r = bindE (Packet_wire p) (\<lambda>(b, _). Inr b)"
      "composed p ((?h # ?c) @ [(lp_Fragment, tlv tlv_Interest (elems_bytes ?es))])"
    using nack_composed [OF _ y(2)] y(1) assms(7) by blast
  have "length (tlv t (tlv u (nni k))) \<le> 44" for t u k
    using tlv_length_le [of t "tlv u (nni k)"] tlv_length_le [of u "nni k"] nni_length_le [of k] by simp
  then have "length (elems_bytes [?h]) \<le> 44" by (simp add: field_elem_def)
  then have h: "length (elems_bytes (?h # ?c)) < 2 ^ 10" "lp_Fragment \<notin> fst ` set (?h # ?c)"
    using tag_small(1) [of CongestionMarkField "CongestionMarkTag tags"]
    by (auto simp: tag_elems_def field_elem_def lp_types split: option.splits)
  obtain b d bs w q where q: "Packet_wire p = Inr (b, d)" "wire b = Inr bs" "Block_buffer bs = Inr w" "Packet_wireDecode w = Inr q"
      "LpPacket.fields q ((?h # ?c) @ [(lp_Fragment, tlv tlv_Interest (elems_bytes ?es))])"
    using sent [OF p(2) _ assms(6) h] by auto
  have t: "extractLpLocalFields q = Inr (no_tags\<lparr>CongestionMarkTag := CongestionMarkTag tags\<rparr>)"
    by (rule tags_read [OF q(5)]) (simp_all add: tag_filter lp_types field_elem_def, auto simp: tag_elems_def field_elem_def lp_types split: option.splits)
  have g: "Packet_has NackField q = Inr (True, q)" using has_field [OF q(5), of NackField] by (simp add: field_elem_def)
  have f: "filter (\<lambda>e. fst e = TlvType NackField) ((?h # ?c) @ [(lp_Fragment, tlv tlv_Interest (elems_bytes ?es))]) = [?h]"
    using tag_filter(2) [of NackField CongestionMarkField Number "CongestionMarkTag tags"] by (simp add: lp_types field_elem_def)
  obtain u where u: "Packet_get NackField 0 q = Inr (u, q)" "same_value u (NackValue (nack_head n))" using get_one [OF q(5) f] by auto
  then obtain k where k: "u = NackValue k" "m_reason k = m_reason (nack_head n)" by (cases u) simp_all
  then have "read_element w = Inr (ANack (setHeader (Nack_of z) k) (no_tags\<lparr>CongestionMarkTag := CongestionMarkTag tags\<rparr>))"
    and "Nack_getReason (setHeader (Nack_of z) k) = Nack_getReason n" "nack_interest (setHeader (Nack_of z) k) = z"
    using q(4) t g u(1) element_read [OF q(5) h(2) assms(6)] z(1)
    by (auto simp: read_element_def setHeader_def Nack_of_def Nack_getReason_def getReason_def)
  then show ?thesis using z(2) p(1) q(1-3) by auto
qed


section \<open>Data\<close>

lemma data_composed:
  assumes "Data_wire d = Inr e" and "wire (d_wire e) = Inr bs" and "bs \<noteq> []" and "length bs < 2 ^ 31"
    and "\<And>c. CachePolicyTag tags = Some c \<Longrightarrow> m_policy c = CachePolicyType_NO_CACHE"
    and "CachePolicyTag tags \<noteq> None \<or> CongestionMarkTag tags \<noteq> None"
  shows "\<exists>p. data_packet d tags = bindE (Packet_wire p) (\<lambda>(b, _). Inr b)
    \<and> composed p ((tag_elems CachePolicyField CacheValue (CachePolicyTag tags)
        @ tag_elems CongestionMarkField Number (CongestionMarkTag tags)) @ [(lp_Fragment, bs)])"
proof -
  let ?n = "tag_elems CachePolicyField CacheValue (CachePolicyTag tags)"
  let ?c = "tag_elems CongestionMarkField Number (CongestionMarkTag tags)"
  have r: "before CongestionMarkField e" "before FragmentField e" if "e \<in> set ?n" for e
    using that by (auto simp: before_def rank_def lp_types tag_elems_def field_elem_def split: option.splits)
  have s: "before FragmentField e" if "e \<in> set ?c" for e
    using that by (auto simp: before_def rank_def lp_types tag_elems_def field_elem_def split: option.splits)
  obtain p where p: "add_tag CachePolicyField CacheValue (CachePolicyTag tags) Packet_new = Inr p" "composed p ?n"
    using composed_tag [of Packet_new "[]" "[]" "CachePolicyTag tags" CachePolicyField CacheValue] composed_new assms(5) by auto
  then obtain q where q: "add_tag CongestionMarkField Number (CongestionMarkTag tags) p = Inr q" "composed q (?n @ ?c)"
    using composed_tag [of p ?n "[]" "CongestionMarkTag tags" CongestionMarkField Number] r by auto
  have "\<forall>e \<in> set (?n @ ?c). before FragmentField e" using r s by auto
  then obtain x where "Packet_add FragmentField (Range bs) q = Inr x" "composed x ((?n @ ?c) @ [(lp_Fragment, bs)])"
    using composed_fragment [OF q(2) assms(3,4)] by blast
  then show ?thesis using p(1) q(1) assms(1,2,6) by (intro exI [of _ x]) (auto simp: data_packet_def)
qed

text \<open>Data from one face to another: what a face sends for a Data packet, alone or in a packet with its tags, is received as Data that has
the same fields. The congestion mark crosses; the cache policy is not read at the other end.\<close>

theorem Face_data_transfer:
  assumes "data_ok d c v" and "\<not> hasWire (d_wire d)" and "length (elems_bytes (data_elems d c v)) < 2 ^ 30"
    and "\<And>k. CachePolicyTag tags = Some k \<Longrightarrow> m_policy k = CachePolicyType_NO_CACHE"
  shows "\<exists>b bs w z. data_packet d tags = Inr b \<and> wire b = Inr bs \<and> Block_buffer bs = Inr w
    \<and> read_element w = Inr (AData z (no_tags\<lparr>CongestionMarkTag := CongestionMarkTag tags\<rparr>)) \<and> data_same d z"
proof -
  let ?es = "data_elems d c v"
  let ?n = "tag_elems CachePolicyField CacheValue (CachePolicyTag tags)"
  let ?c = "tag_elems CongestionMarkField Number (CongestionMarkTag tags)"
  obtain k where k: "Data_wire d = Data_wireDecode d k" "holds k (data_elem d c v)" "Block_buffer (tlv tlv_Data (elems_bytes ?es)) = Inr k"
    using Data_wire_made [OF assms(1,2)] assms(3) by auto
  obtain e where e: "Data_wire d = Inr e" "wire (d_wire e) = Inr (tlv tlv_Data (elems_bytes ?es))"
    using holds_data [OF k(2) assms(1), of d] k(1,2) by (auto simp: holds_def data_elem_def)
  obtain z where z: "Data_of_block k = Inr z" "data_same d z"
    using holds_data [OF k(2) assms(1), of Data_new] by (auto simp: Data_of_block_def)
  have l: "tlv tlv_Data (elems_bytes ?es) \<noteq> []" "length (tlv tlv_Data (elems_bytes ?es)) < 2 ^ 31"
    using tlv_length_le [of tlv_Data "elems_bytes ?es"] assms(3) by (simp_all add: tlv_def vartype_def)
  have h: "length (elems_bytes (?n @ ?c)) < 2 ^ 10" "lp_Fragment \<notin> fst ` set (?n @ ?c)"
    using tag_small(2) [of CachePolicyField "CachePolicyTag tags"] tag_small(1) [of CongestionMarkField "CongestionMarkTag tags"]
    by (auto simp: tag_elems_def field_elem_def lp_types split: option.splits)
  have "\<exists>b bs w q. data_packet d tags = Inr b \<and> wire b = Inr bs \<and> Block_buffer bs = Inr w \<and> Packet_wireDecode w = Inr q
      \<and> LpPacket.fields q ((?n @ ?c) @ [(lp_Fragment, tlv tlv_Data (elems_bytes ?es))])"
  proof (cases "CachePolicyTag tags \<noteq> None \<or> CongestionMarkTag tags \<noteq> None")
    case True
    obtain p where p: "data_packet d tags = bindE (Packet_wire p) (\<lambda>(b, _). Inr b)"
        "composed p ((?n @ ?c) @ [(lp_Fragment, tlv tlv_Data (elems_bytes ?es))])"
      using data_composed [OF e l assms(4) True] by blast
    then show ?thesis using sent [OF p(2) _ assms(3) h] by auto
  next
    case False
    then have "data_packet d tags = Inr (d_wire e)" "?n = []" "?c = []"
      using e(1) by (simp_all add: data_packet_def add_tag_def tag_elems_def)
    moreover obtain q where "Packet_wireDecode k = Inr q" "LpPacket.fields q [(lp_Fragment, tlv tlv_Data (elems_bytes ?es))]"
      using bare_decoded [of k tlv_Data ?es] k(2) holds_sel [of k tlv_Data "elems_bytes ?es"] assms(3) by (auto simp: holds_def data_elem_def)
    ultimately show ?thesis using e(2) k(3) by auto
  qed
  then obtain b bs w q where q: "data_packet d tags = Inr b" "wire b = Inr bs" "Block_buffer bs = Inr w" "Packet_wireDecode w = Inr q"
      "LpPacket.fields q ((?n @ ?c) @ [(lp_Fragment, tlv tlv_Data (elems_bytes ?es))])" by blast
  have "extractLpLocalFields q = Inr (no_tags\<lparr>CongestionMarkTag := CongestionMarkTag tags\<rparr>)"
    by (rule tags_read [OF q(5)]) (simp_all add: tag_filter lp_types, auto simp: tag_elems_def field_elem_def lp_types split: option.splits)
  then have "read_element w = Inr (AData z (no_tags\<lparr>CongestionMarkTag := CongestionMarkTag tags\<rparr>))"
    using q(4) element_read [OF q(5) h(2) assms(3)] k(3) z(1) by (auto simp: read_element_def tlv_Data_def tlv_Interest_def)
  then show ?thesis using q(1-3) z(2) by auto
qed

end
