(* ===== verification/FaceDemo.thy ===== *)
theory FaceDemo
  imports FaceWire
begin

text \<open>
  Concrete faces: an application that expresses an Interest and the packets that come for it. The theorems about
  faces are applied to them.
\<close>

section \<open>A face with a pending Interest\<close>

text \<open>A transport that takes everything, and an application that does not react.\<close>

definition demo_env :: "(nat \<Rightarrow> call \<Rightarrow> unit \<Rightarrow> (unit, nat) prog) \<Rightarrow> (unit, nat, unit) env" where
  "demo_env c = \<lparr>e_sha256 = \<lambda>_. replicate 32 7, isConnected = \<lambda>_. True, isReceiving = \<lambda>_. True, t_connect = \<lambda>t. (t, None),
     t_close = \<lambda>t. (t, None), t_pause = \<lambda>t. (t, None), t_resume = \<lambda>t. (t, None), t_send = \<lambda>b t. (t, None), e_client = c\<rparr>"

definition idle :: "nat \<Rightarrow> call \<Rightarrow> unit \<Rightarrow> (unit, nat) prog" where
  "idle k c w = Return w"

lemma demo_open: "open_transport (demo_env c)"
  by (simp add: open_transport_def demo_env_def)

lemma demo_quiet: "quiet_client (demo_env idle) T"
  by (simp add: quiet_client_def demo_env_def idle_def)

definition demo_any :: interest where
  "demo_any = Interest_of_name demo_name"

lemma demo_any_parts:
  "interest_ok demo_any" "link_ok demo_any" "nonce_ok demo_any" "i_interestLifetime demo_any < 2 ^ 63" "\<not> hasWire (i_wire demo_any)"
  "nonce_value r demo_any = r"
  using demo_name_ok
  by (simp_all add: demo_any_def Interest_of_name_def Interest_new_def link_ok_def hasLink_def nonce_ok_def milliseconds_min_def
      nonce_value_def hasWire_def Block_empty_def interest_ok_def sel_ok_def Selectors_new_def int_ok_def exclude_ok_def Exclude_new_def neg_inf_any_def)

lemma demo_any_small: "length (elems_bytes (interest_elems r demo_any)) \<le> 100"
proof -
  have v: "block_value (Block_value t v) = v" for t v by (simp add: Block_value_def block_value_def range_of_def Let_def)
  have n: "length (elems_bytes (map elem_of (m_subBlocks demo_name))) \<le> 38"
    using elems_length_le [of "map elem_of (m_subBlocks demo_name)"] by (simp add: demo_name_def elem_of_def v)
  have "interest_elems r demo_any = [name_elem demo_name, (tlv_Nonce, nonce_bytes r)]"
    by (simp add: interest_elems_def demo_any_def Interest_of_name_def Interest_new_def link_elems_def lifetime_elems_def
        milliseconds_min_def hasLink_def Selectors_new_def Selectors_empty_def KeyLocator_empty_def Exclude_empty_def
        KeyLocator_new_def Exclude_new_def)
  then show ?thesis using elems_length_le [of "interest_elems r demo_any"] n by (simp add: name_elem_def comps_elems)
qed

lemma demo_expressed: "\<exists>y n b. Interest_wire 5 demo_any = Inr y \<and> block_size (i_wire y) = Inr n \<and> n \<le> MAX_NDN_PACKET_SIZE
    \<and> interest_packet y no_tags = Inr b \<and> interest_same 5 demo_any y"
proof -
  let ?n = "length (tlv tlv_Interest (elems_bytes (interest_elems 5 demo_any)))"
  have "?n \<le> 8800" using tlv_length_le [of tlv_Interest "elems_bytes (interest_elems 5 demo_any)"] demo_any_small [of 5] by simp
  then show ?thesis using interest_transfer [OF demo_any_parts(1-5), of 5 no_tags] demo_any_parts(6) [of 5] demo_any_small [of 5]
    by (auto simp: MAX_NDN_PACKET_SIZE_def)
qed

text \<open>The application that expresses the Interest, in the thread of the face.\<close>

definition demo_express :: "(unit, nat) event" where
  "demo_express = Application True (\<lambda>_. Api (ExpressInterest demo_any no_tags 5 (Some 0) None None) (\<lambda>_. Return ()))"

lemma demo_express_run:
  assumes "Interest_wire 5 demo_any = Inr y" and "face_ok f"
  shows "\<exists>g. Face_event (demo_env c) 0 demo_express ((), f) = Some (((), g), None) \<and> io_thread g \<and> face_ok g \<and> called g = called f
    \<and> m_pendingInterestTable g = m_pendingInterestTable f
        @ [new_entry (next_object f) y (Some (Plain 0)) None None (Some (next_event (m_scheduler f)))]
    \<and> m_queue (m_scheduler g) = queue_insert \<lparr>ev_id = next_event (m_scheduler f), expireTime = int64 (timeout_of y),
        callback = InvokeTimeout (next_object f)\<rparr> (m_queue (m_scheduler f))"
proof -
  obtain n b where y: "block_size (i_wire y) = Inr n" "n \<le> MAX_NDN_PACKET_SIZE" "interest_packet y no_tags = Inr b"
    using demo_expressed assms(1) by auto
  let ?f = "f\<lparr>io_thread := True\<rparr>"
  obtain t where t: "expressInterest (demo_env c) 0 demo_any no_tags 5 (Some (Plain 0)) None None ?f = ((pit_insert 0 (next_object ?f) y (Some (Plain 0)) None None
      (?f\<lparr>next_object := next_object ?f + 1\<rparr>))\<lparr>m_transport := t\<rparr>, Inr (Id (next_object ?f)))"
    using express_now [OF demo_open _ assms(1) y, of ?f c 0 "Some (Plain 0)" None None] by auto
  let ?g = "(pit_insert 0 (next_object ?f) y (Some (Plain 0)) None None (?f\<lparr>next_object := next_object ?f + 1\<rparr>))\<lparr>m_transport := t\<rparr>"
  have e: "Face_event (demo_env c) 0 demo_express ((), f) = Some (((), ?g), None)"
    using t by (simp add: Face_event_def demo_express_def)
  then have "face_ok ?g" using Face_event_inv [of "((), f)" "demo_env c"] assms(2) by fastforce
  then show ?thesis using e by (intro exI [of _ ?g]) (simp add: pit_insert_eq scheduleEvent_run)
qed

lemma demo_pending:
  "\<exists>f p. Face_event (demo_env c) 0 demo_express ((), Face_new ()) = Some (((), f), None) \<and> m_pendingInterestTable f = [p]
    \<and> Interest_wire 5 demo_any = Inr (m_interest p) \<and> interest_same 5 demo_any (m_interest p) \<and> m_dataCallback p = Some (Plain 0)
    \<and> m_timeoutCallback p = None \<and> called f = [] \<and> io_thread f \<and> face_ok f
    \<and> (\<exists>e. m_queue (m_scheduler f) = [e] \<and> expireTime e = 4 * 10 ^ 9 \<and> callback e = InvokeTimeout (pi_id p))"
proof -
  obtain y where y: "Interest_wire 5 demo_any = Inr y" "interest_same 5 demo_any y" using demo_expressed by blast
  have "i_interestLifetime demo_any < 0" by (simp add: demo_any_def Interest_of_name_def Interest_new_def milliseconds_min_def)
  then have l: "int64 (timeout_of y) = 4 * 10 ^ 9"
    using y(2) by (simp add: interest_same_def timeout_of_def DEFAULT_INTEREST_LIFETIME_def)
  obtain f :: "(nat, unit) face" where f: "Face_event (demo_env c) 0 demo_express ((), Face_new ()) = Some (((), f), None)" "io_thread f" "face_ok f"
      "called f = called (Face_new () :: (nat, unit) face)"
      "m_pendingInterestTable f = [new_entry 0 y (Some (Plain 0)) None None (Some 0)]"
      "m_queue (m_scheduler f) = [\<lparr>ev_id = 0, expireTime = int64 (timeout_of y), callback = InvokeTimeout 0\<rparr>]"
    using demo_express_run [OF y(1) Face_new_ok, of c "()"] by (auto simp: Face_new_def post_def Scheduler_new_def)
  show ?thesis
    by (rule exI [of _ f], rule exI [of _ "new_entry 0 y (Some (Plain 0)) None None (Some 0)"])
      (use f y l in \<open>simp add: new_entry_def Face_new_def post_def\<close>)
qed

text \<open>The same Interest expressed twice.\<close>

lemma demo_two_pending:
  assumes "Interest_wire 5 demo_any = Inr y"
  shows "\<exists>f p q. reaches (demo_env c) ((), Face_new ()) ((), f) \<and> m_pendingInterestTable f = [p, q] \<and> io_thread f \<and> face_ok f
    \<and> (\<forall>p \<in> set (m_pendingInterestTable f). m_interest p = y \<and> m_dataCallback p = Some (Plain 0))"
proof -
  obtain f :: "(nat, unit) face" where f: "Face_event (demo_env c) 0 demo_express ((), Face_new ()) = Some (((), f), None)" "face_ok f"
      "m_pendingInterestTable f = [new_entry 0 y (Some (Plain 0)) None None (Some 0)]"
    using demo_express_run [OF assms Face_new_ok, of c "()"] by (auto simp: Face_new_def post_def Scheduler_new_def)
  obtain g where g: "Face_event (demo_env c) 0 demo_express ((), f) = Some (((), g), None)" "io_thread g" "face_ok g"
      "m_pendingInterestTable g = m_pendingInterestTable f
        @ [new_entry (next_object f) y (Some (Plain 0)) None None (Some (next_event (m_scheduler f)))]"
    using demo_express_run [OF assms f(2), of c] by blast
  have "reaches (demo_env c) ((), Face_new ()) ((), g)" by (rule reaches_step [OF reaches_step [OF reaches_refl f(1)] g(1)])
  then show ?thesis using f(3) g by (intro exI [of _ g]) (auto simp: new_entry_def)
qed

text \<open>Data for the Interest.\<close>

lemma demo_matches:
  assumes "interest_same 5 demo_any y"
  shows "\<exists>d. matchesData (\<lambda>_. replicate 32 7) y d = Inr True"
proof -
  obtain b where b: "packet_ok (\<lambda>_. replicate 32 7) (Data_new\<lparr>d_name := demo_name, d_wire := b\<rparr>) (tlv tlv_Data [])"
    using demo_packet by blast
  have s: "minSuffixComponents (i_selectors y) = -1" "maxSuffixComponents (i_selectors y) = -1" "childSelector (i_selectors y) = -1"
      "kl_type (publisherPublicKeyLocator (i_selectors y)) = KeyLocator_None" "m_entries (sel_exclude (i_selectors y)) = []"
    using assms
    by (auto simp: interest_same_def sel_same_def demo_any_def Interest_of_name_def Interest_new_def Selectors_new_def norm_int_def
        kl_same_def Exclude_equals_def KeyLocator_new_def Exclude_new_def split: if_splits)
  have "interest_ok y"
    using s assms by (simp add: interest_ok_def sel_ok_def int_ok_def kl_ok_def exclude_ok_def interest_same_def neg_inf_any_def)
  moreover have "name_matches y (name_keys demo_name @ [digest_key (replicate 32 7)])"
    using s assms by (simp add: name_matches_def Let_def interest_same_def demo_any_def Interest_of_name_def excluded_set_def)
  moreover have "matches_locator y d = Inr True" for d using s(4) by (simp add: matches_locator_def KeyLocator_empty_def)
  ultimately show ?thesis using matchesData_run [OF _ b, of y] by (intro exI) auto
qed


section \<open>The theorems at these faces\<close>

theorem Face_run_invariant_witness:
  "\<exists>f p. reaches (demo_env idle) ((), Face_new ()) ((), f) \<and> m_pendingInterestTable f = [p]
    \<and> (\<exists>!e. e \<in> set (m_queue (m_scheduler f)) \<and> m_timeoutEvent p = Some (ev_id e) \<and> callback e = InvokeTimeout (pi_id p))"
proof -
  obtain f :: "(nat, unit) face" and p where f: "Face_event (demo_env idle) 0 demo_express ((), Face_new ()) = Some (((), f), None)" "m_pendingInterestTable f = [p]"
    using demo_pending [of idle] by blast
  have r: "reaches (demo_env idle) ((), Face_new ()) ((), f)" using reaches_step [OF reaches_refl f(1)] .
  show ?thesis using Face_run_invariant [OF r] r f(2) by auto
qed

text \<open>Five seconds later the lifetime of four seconds is over: the Interest is told its timeout and leaves the table.\<close>

theorem Face_timer_returns_witness:
  "\<exists>f p g. m_pendingInterestTable f = [p] \<and> called f = [] \<and> onTimer (demo_env idle) False (5 * 10 ^ 9) (5 * 10 ^ 9) ((), f) = Some (((), g), None)
    \<and> m_pendingInterestTable g = [] \<and> called g = [(pi_id p, TimeoutCall (m_interest p))]"
proof -
  obtain f :: "(nat, unit) face" and p e where f: "m_pendingInterestTable f = [p]" "face_ok f" "m_timeoutCallback p = None" "called f = []"
      "m_queue (m_scheduler f) = [e]" "expireTime e = 4 * 10 ^ 9" "callback e = InvokeTimeout (pi_id p)" using demo_pending [of idle] by blast
  obtain v g x where g: "onTimer (demo_env idle) False (5 * 10 ^ 9) (5 * 10 ^ 9) ((), f) = Some ((v, g), x)" "told [p] g"
    using Face_timer_returns [OF f(2) demo_quiet, of "5 * 10 ^ 9" "5 * 10 ^ 9" "()"] unfolding f(1) by blast
  have "x = None \<and> m_pendingInterestTable g = [] \<and> set (called g) \<subseteq> {(pi_id p, TimeoutCall (m_interest p))} \<and> length (called g) \<le> 1"
    using g(1) f
    by (auto simp: onTimer_def executeEvent_def execute_loop.simps timer_callback_def invokeTimeoutCallback_def Let_def call_option_def
        note_call_def destroy_eq cancelEvent_def EventId_valid_def split: option.splits)
  moreover from this have "called g \<noteq> []" using g(2) by (auto simp: told_def)
  ultimately have "x = None" "m_pendingInterestTable g = []" "called g = [(pi_id p, TimeoutCall (m_interest p))]"
    by (cases "called g"; auto)+
  then show ?thesis using f(1,4) g(1) by (intro exI [of _ f] exI [of _ p] exI [of _ g]) simp
qed

theorem Face_filters_witness:
  "processInterestFilters (demo_env idle) 0 demo_any no_tags
      ((), (Face_new ())\<lparr>m_interestFilterTable := [\<lparr>fr_id = 0, m_filter = InterestFilter_of_name demo_name, m_interestCallback = Some 1\<rparr>]\<rparr>)
    = Some (((), (Face_new ())\<lparr>m_interestFilterTable := [\<lparr>fr_id = 0, m_filter = InterestFilter_of_name demo_name, m_interestCallback = Some 1\<rparr>]\<rparr>), None)"
proof -
  let ?f = "(Face_new ()) \<lparr>m_interestFilterTable := [\<lparr>fr_id = 0, m_filter = InterestFilter_of_name demo_name, m_interestCallback = Some 1\<rparr>]\<rparr>"
  have "face_ok ?f" using Face_new_ok by (simp add: face_inv_def posted_ids_def)
  moreover have "doesMatch (InterestFilter_of_name demo_name) demo_name = Inr True"
    using isPrefixOf_prefix [OF demo_name_ok demo_name_ok] by (simp add: doesMatch_def InterestFilter_of_name_def)
  ultimately show ?thesis using Face_filters [of ?f "demo_env idle" 0 demo_any no_tags "()"]
    by (simp add: demo_any_def Interest_of_name_def call_option_def call_client_def demo_env_def idle_def)
qed

text \<open>A single pending Interest whose callback expresses it again: it is served once, and the new one is pending afterwards.\<close>

definition again :: "nat \<Rightarrow> call \<Rightarrow> unit \<Rightarrow> (unit, nat) prog" where
  "again k c w = Api (ExpressInterest demo_any no_tags 5 (Some 0) None None) (\<lambda>_. Return w)"

theorem Face_satisfies_witness:
  "\<exists>f p d v g e. m_pendingInterestTable f = [p] \<and> matchesData (e_sha256 (demo_env again)) (m_interest p) d = Inr True
    \<and> satisfyPendingInterests (demo_env again) 1 d no_tags ((), f) = Some ((v, g), e)
    \<and> serve 1 (invokeDataCallback (demo_env again) 1 d no_tags) [p] ((), f) = ((v, g), e)"
proof -
  obtain f :: "(nat, unit) face" and p where f: "m_pendingInterestTable f = [p]" "interest_same 5 demo_any (m_interest p)" "face_ok f"
    using demo_pending [of again] by blast
  obtain d where d: "matchesData (\<lambda>_. replicate 32 7) (m_interest p) d = Inr True" using demo_matches [OF f(2)] by blast
  have m: "\<forall>p \<in> set (m_pendingInterestTable f). matchesData (e_sha256 (demo_env again)) (m_interest p) d = Inr True"
    using f(1) d by (simp add: demo_env_def)
  show ?thesis using Face_satisfies [OF f(3) m, of 1 no_tags "()"] f(1) m
    by (intro exI [of _ f] exI [of _ p] exI [of _ d]) auto
qed

theorem Face_satisfy_diverges_witness:
  "\<exists>f p q d. reaches (demo_env again) ((), Face_new ()) ((), f) \<and> m_pendingInterestTable f = [p, q]
    \<and> satisfyPendingInterests (demo_env again) 1 d no_tags ((), f) = None"
proof -
  obtain y n b where y: "Interest_wire 5 demo_any = Inr y" "block_size (i_wire y) = Inr n" "n \<le> MAX_NDN_PACKET_SIZE"
      "interest_packet y no_tags = Inr b" "interest_same 5 demo_any y" using demo_expressed by blast
  obtain f :: "(nat, unit) face" and p q where f: "reaches (demo_env again) ((), Face_new ()) ((), f)" "m_pendingInterestTable f = [p, q]"
      "io_thread f" "face_ok f" "\<forall>p \<in> set (m_pendingInterestTable f). m_interest p = y \<and> m_dataCallback p = Some (Plain 0)"
    using demo_two_pending [OF y(1)] by blast
  obtain d where "matchesData (\<lambda>_. replicate 32 7) y d = Inr True" using demo_matches [OF y(5)] by blast
  then have d: "matchesData (e_sha256 (demo_env again)) y d = Inr True" by (simp add: demo_env_def)
  have "satisfyPendingInterests (demo_env again) 1 d no_tags ((), f) = None"
    by (rule Face_satisfy_diverges [OF demo_open f(3,4) y(1) d y(2-4) _ _ f(5)]) (simp_all add: demo_env_def again_def f(2))
  then show ?thesis using f(1,2) by blast
qed

theorem Face_unset_failure_witness:
  "\<exists>g. Face_event (demo_env idle) 0 (Answer 0 (Some ''404''))
      ((), (Face_new ())\<lparr>m_nfdController := [RibUnregister \<lparr>rp_id = 0, rp_prefix = demo_name, rp_filter = None\<rparr> None None]\<rparr>)
    = Some (((), g), Some BadFunctionCall)"
  using Face_unset_failure [of 0 "(Face_new ()) \<lparr>m_nfdController := [RibUnregister \<lparr>rp_id = 0, rp_prefix = demo_name, rp_filter = None\<rparr> None None]\<rparr>"
    "\<lparr>rp_id = 0, rp_prefix = demo_name, rp_filter = None\<rparr>" None "demo_env idle" 0 "''404''" "()"] by auto

theorem Face_interest_transfer_witness:
  "\<exists>y b bs w z. Interest_wire 5 demo_interest = Inr y \<and> interest_packet y (no_tags\<lparr>CongestionMarkTag := Some 1\<rparr>) = Inr b
    \<and> wire b = Inr bs \<and> Block_buffer bs = Inr w \<and> read_element w = Inr (AnInterest z (no_tags\<lparr>CongestionMarkTag := Some 1\<rparr>))
    \<and> interest_same 5 demo_interest z"
proof -
  have "length (elems_bytes (interest_elems (nonce_value 5 demo_interest) demo_interest)) < 2 ^ 30"
    using demo_interest_small [of 5] by (simp add: demo_interest_parts(5))
  from Face_interest_transfer [OF demo_interest_ok demo_interest_parts(1-4) this, of "no_tags\<lparr>CongestionMarkTag := Some 1\<rparr>"]
  show ?thesis by (simp add: demo_interest_parts(5)) blast
qed

theorem Face_nack_transfer_witness:
  "\<exists>b bs w m. nack_packet (Nack_of demo_interest) no_tags 5 = Inr b \<and> wire b = Inr bs \<and> Block_buffer bs = Inr w
    \<and> read_element w = Inr (ANack m no_tags) \<and> interest_same 5 demo_interest (nack_interest m)"
proof -
  have "length (elems_bytes (interest_elems (nonce_value 5 demo_interest) demo_interest)) < 2 ^ 30"
    using demo_interest_small [of 5] by (simp add: demo_interest_parts(5))
  from Face_nack_transfer [OF demo_interest_ok demo_interest_parts(1-4) this, of "Nack_of demo_interest" no_tags]
  show ?thesis by (simp add: demo_interest_parts(5) Nack_of_def no_tags_def) blast
qed

theorem Face_data_transfer_witness:
  "\<exists>a c v b bs w z. data_packet (demo_data (SignatureInfo_of_type 0) a c v) (no_tags\<lparr>CachePolicyTag := Some \<lparr>m_policy = CachePolicyType_NO_CACHE, policy_wire = Block_empty\<rparr>\<rparr>) = Inr b
    \<and> wire b = Inr bs \<and> Block_buffer bs = Inr w \<and> read_element w = Inr (AData z no_tags) \<and> data_same (demo_data (SignatureInfo_of_type 0) a c v) z"
proof -
  obtain a c v where acv: "holds a (128, [1])" "holds c (tlv_Content, [72])" "holds v (tlv_SignatureValue, [7])"
    using demo_blocks by blast
  note ok = demo_data_ok [OF demo_info_ok acv]
  have "length (elems_bytes (si_elems (SignatureInfo_of_type 0))) \<le> 100"
    using elems_length_le [of "si_elems (SignatureInfo_of_type 0)"] nni_length_le [of 0]
    by (simp add: si_elems_def SignatureInfo_of_type_def SignatureInfo_new_def)
  then have "length (elems_bytes (data_elems (demo_data (SignatureInfo_of_type 0) a c v) c v)) < 2 ^ 30" using ok(4) by simp
  from Face_data_transfer [OF ok(1,3) this, of "no_tags\<lparr>CachePolicyTag := Some \<lparr>m_policy = CachePolicyType_NO_CACHE, policy_wire = Block_empty\<rparr>\<rparr>"]
  show ?thesis by (simp add: no_tags_def) blast
qed

theorem Face_name_nonce_witness:
  "\<exists>g p. expressInterest_name (demo_env idle) 0 demo_name Interest_new no_tags 5 (Some 0) None ((Face_new ())\<lparr>io_thread := True\<rparr>) = (g, Inr (Id 0))
    \<and> m_pendingInterestTable g = [p] \<and> read_nonce (m_interest p) = Inr 0"
proof -
  let ?x = "Interest_setName Interest_new demo_name" and ?f = "(Face_new ()) \<lparr>io_thread := True\<rparr>"
  have e: "interest_elems 0 ?x = interest_elems 0 demo_any" "link_ok ?x" "interest_ok ?x" "i_interestLifetime Interest_new < 2 ^ 63"
    using demo_any_parts(1,2,4) by (simp_all add: interest_elems_def lifetime_elems_def link_elems_def hasLink_def Interest_setName_def reset_wire_def
      demo_any_def Interest_of_name_def Interest_new_def link_ok_def interest_ok_def)
  then show ?thesis using Face_name_nonce [OF demo_open _ e(3,2,4), of ?f idle 0 no_tags 5 "Some 0" None] demo_any_small [of 0]
    by (auto simp: Face_new_def post_def)
qed

end
