(* ===== verification/Regex.thy ===== *)
theory Regex
  imports Face
begin

text \<open>
  The regular expressions over names (util/regex): the matchers for lists of patterns, repetitions, groups, sets of
  components and components, how they are made from an expression, how they match a part of a name, and the
  matcher an application uses with its anchors and its expansion of groups. A matcher is a tree; the results of
  groups, which the manager of the back references holds, are a function from their numbers. The
  regular expressions of Boost, which match one component, are a parameter.
\<close>

section \<open>Matchers\<close>

abbreviation lround :: byte where "lround \<equiv> 40"
abbreviation rround :: byte where "rround \<equiv> 41"
abbreviation langle :: byte where "langle \<equiv> 60"
abbreviation rangle :: byte where "rangle \<equiv> 62"
abbreviation lsquare :: byte where "lsquare \<equiv> 91"
abbreviation rsquare :: byte where "rsquare \<equiv> 93"
abbreviation lbrace :: byte where "lbrace \<equiv> 123"
abbreviation rbrace :: byte where "rbrace \<equiv> 125"
abbreviation plus_sign :: byte where "plus_sign \<equiv> 43"
abbreviation question_mark :: byte where "question_mark \<equiv> 63"
abbreviation asterisk :: byte where "asterisk \<equiv> 42"
abbreviation caret :: byte where "caret \<equiv> 94"
abbreviation dollar :: byte where "dollar \<equiv> 36"
abbreviation comma :: byte where "comma \<equiv> 44"
abbreviation backslash :: byte where "backslash \<equiv> 92"

text \<open>A matcher of one component, with the numbers of its marked sub-expressions among the back references.\<close>

record component_matcher =
  cm_expr :: bytes
  m_pseudoMatchers :: "nat list"

text \<open>The other matchers with their expression; a repetition with its bounds, a group with its number, a set with its
  components and whether it is one of inclusion.\<close>

datatype matcher =
    PatternList bytes "matcher list"
  | Repeat bytes matcher nat nat
  | Backref bytes nat matcher
  | ComponentSet bytes "component_matcher list" bool

text \<open>
  What is not in the library: for an expression the number of its marked sub-expressions, if it is well-formed; for an
  expression and a string what the sub-expressions matched, if the whole string matches; and the order of the
  addresses of the components of a set, in which the set is visited.
\<close>

record regex_lib =
  mark_count :: "bytes \<Rightarrow> nat option"
  regex_match :: "bytes \<Rightarrow> bytes \<Rightarrow> bytes list option"
  addresses :: "component_matcher list \<Rightarrow> component_matcher list"

definition MAX_REPETITIONS :: nat where "MAX_REPETITIONS = 2 ^ 64 - 1"

text \<open>\<open>operator[]\<close> of a string gives the terminating zero at its end.\<close>

definition char_at :: "bytes \<Rightarrow> nat \<Rightarrow> byte" where
  "char_at s i = (if i < length s then s ! i else 0)"

definition substr :: "bytes \<Rightarrow> nat \<Rightarrow> nat \<Rightarrow> bytes" where
  "substr s i n = take n (drop i s)"

definition text_of :: "bytes \<Rightarrow> string" where
  "text_of s = map (\<lambda>b. char_of (unat b)) s"


section \<open>Compiling components\<close>

definition RegexComponentMatcher :: "regex_lib \<Rightarrow> bytes \<Rightarrow> nat \<Rightarrow> (component_matcher \<times> nat) result" where
  "RegexComponentMatcher L e k = (case mark_count L e of
     None \<Rightarrow> Inl (BoostError ''regex_error'')
   | Some n \<Rightarrow> Inr (\<lparr>cm_expr = e, m_pseudoMatchers = [k..<k + n]\<rparr>, k + n))"

function component_end :: "bytes \<Rightarrow> nat \<Rightarrow> nat \<Rightarrow> nat \<Rightarrow> nat result" where
  "component_end e index lcount rcount =
     (if lcount > rcount then
        if char_at e index = langle then component_end e (index + 1) (lcount + 1) rcount
        else if char_at e index = rangle then component_end e (index + 1) lcount (rcount + 1)
        else if char_at e index = 0 then Inl (RegexError ''Error: square brackets mismatch'')
        else component_end e (index + 1) lcount rcount
      else Inr index)"
  by auto
termination
  by (relation "measure (\<lambda>(e, index, l, r). length e - index)") (auto simp: char_at_def split: if_splits)

declare component_end.simps [simp del]

definition extractComponent :: "bytes \<Rightarrow> nat \<Rightarrow> nat result" where
  "extractComponent e index = component_end e index 1 0"

lemma component_end_le: "component_end e i l r = Inr j \<Longrightarrow> i \<le> j"
proof (induction e i l r rule: component_end.induct)
  case (1 e i l r)
  show ?case using 1(1-3) 1(4) [unfolded component_end.simps [of e i l r]] by (force split: if_splits)
qed

definition compileSingleComponent :: "regex_lib \<Rightarrow> bytes \<Rightarrow> nat \<Rightarrow> (component_matcher list \<times> nat) result" where
  "compileSingleComponent L e k = bindE (extractComponent e 1) (\<lambda>end.
     if length e \<noteq> end then Inl (RegexError (''Component expr error '' @ text_of e))
     else bindE (RegexComponentMatcher L (substr e 1 (end - 2)) k) (\<lambda>(c, k). Inr ([c], k)))"

function compileMultipleComponents :: "regex_lib \<Rightarrow> bytes \<Rightarrow> nat \<Rightarrow> nat \<Rightarrow> nat \<Rightarrow> (component_matcher list \<times> nat) result" where
  "compileMultipleComponents L e index lastIndex k =
     (if index < lastIndex then
        if char_at e index \<noteq> langle then Inl (RegexError (''Component expr error '' @ text_of e))
        else bindE (extractComponent e (index + 1)) (\<lambda>next.
          bindE (RegexComponentMatcher L (substr e (index + 1) (next - (index + 1) - 1)) k) (\<lambda>(c, k).
          bindE (compileMultipleComponents L e next lastIndex k) (\<lambda>(cs, k). Inr (c # cs, k))))
      else if index \<noteq> lastIndex then Inl (RegexError (''Not sufficient expr to parse '' @ text_of e))
      else Inr ([], k))"
  by auto
termination
  by (relation "measure (\<lambda>(L, e, index, lastIndex, k). lastIndex - index)")
    (auto simp: extractComponent_def dest!: component_end_le)

declare compileMultipleComponents.simps [simp del]

definition RegexComponentSetMatcher :: "regex_lib \<Rightarrow> bytes \<Rightarrow> nat \<Rightarrow> (matcher \<times> nat) result" where
  "RegexComponentSetMatcher L e k =
     (if length e < 2 then Inl (RegexError (''Regexp compile error (cannot parse '' @ text_of e @ '')''))
      else if e ! 0 = langle then bindE (compileSingleComponent L e k) (\<lambda>(cs, k). Inr (ComponentSet e (addresses L cs) True, k))
      else if e ! 0 = lsquare then
        let lastIndex = length e - 1 in
        if e ! lastIndex \<noteq> rsquare then Inl (RegexError (''Regexp compile error (no matching '' @ [char_of (39 :: nat), char_of (93 :: nat), char_of (39 :: nat)] @ '' in '' @ text_of e @ '')''))
        else if e ! 1 = caret then bindE (compileMultipleComponents L e 2 lastIndex k) (\<lambda>(cs, k). Inr (ComponentSet e (addresses L cs) False, k))
        else bindE (compileMultipleComponents L e 1 lastIndex k) (\<lambda>(cs, k). Inr (ComponentSet e (addresses L cs) True, k))
      else Inl (RegexError (''Regexp compile error (cannot parse '' @ text_of e @ '')'')))"


section \<open>Repetitions\<close>

definition isdigit :: "byte \<Rightarrow> bool" where
  "isdigit c \<longleftrightarrow> 48 \<le> c \<and> c \<le> 57"

definition digits :: "bytes \<Rightarrow> bool" where
  "digits s \<longleftrightarrow> s \<noteq> [] \<and> list_all isdigit s"

text \<open>\<open>atoi\<close> of a string that begins with digits; the value must be an \<open>int\<close>.\<close>

definition decimal :: "bytes \<Rightarrow> nat" where
  "decimal s = foldl (\<lambda>v c. 10 * v + (unat c - 48)) 0 s"

definition atoi :: "bytes \<Rightarrow> nat result" where
  "atoi s = (let v = decimal (takeWhile isdigit s) in if v < 2 ^ 31 then Inr v else Inl (UndefinedBehaviour ''atoi''))"

text \<open>The four regular expressions for a repetition in braces, over the string in the braces.\<close>

definition braced :: "bytes \<Rightarrow> bool" where
  "braced s \<longleftrightarrow> length s \<ge> 2 \<and> hd s = lbrace \<and> last s = rbrace"

definition between_format :: "bytes \<Rightarrow> bool" where
  "between_format s \<longleftrightarrow> braced s \<and> (let b = butlast (tl s); r = dropWhile (\<lambda>c. c \<noteq> comma) b in
     r \<noteq> [] \<and> digits (takeWhile (\<lambda>c. c \<noteq> comma) b) \<and> digits (tl r))"

definition at_most_format :: "bytes \<Rightarrow> bool" where
  "at_most_format s \<longleftrightarrow> braced s \<and> (let b = butlast (tl s) in b \<noteq> [] \<and> hd b = comma \<and> digits (tl b))"

definition at_least_format :: "bytes \<Rightarrow> bool" where
  "at_least_format s \<longleftrightarrow> braced s \<and> (let b = butlast (tl s) in b \<noteq> [] \<and> last b = comma \<and> digits (butlast b))"

definition exactly_format :: "bytes \<Rightarrow> bool" where
  "exactly_format s \<longleftrightarrow> braced s \<and> digits (butlast (tl s))"

text \<open>With one character that is none of the three the bounds stay uninitialised.\<close>

definition parseRepetition :: "bytes \<Rightarrow> nat \<Rightarrow> (nat \<times> nat) result" where
  "parseRepetition e m_indicator =
     (let exprSize = length e in
      if exprSize = m_indicator then Inr (1, 1)
      else if exprSize = m_indicator + 1 then
        if e ! m_indicator = question_mark then Inr (0, 1)
        else if e ! m_indicator = plus_sign then Inr (1, MAX_REPETITIONS)
        else if e ! m_indicator = asterisk then Inr (0, MAX_REPETITIONS)
        else Inl (UndefinedBehaviour ''uninitialised bounds'')
      else
        let rs = substr e m_indicator (exprSize - m_indicator); rsSize = length rs;
            separator = length (takeWhile (\<lambda>c. c \<noteq> comma) rs) in
        bindE
          (if between_format rs then
             bindE (atoi (substr rs 1 (separator - 1))) (\<lambda>min.
             bindE (atoi (substr rs (separator + 1) (rsSize - separator - 2))) (\<lambda>max. Inr (min, max)))
           else if at_most_format rs then
             bindE (atoi (substr rs (separator + 1) (rsSize - separator - 2))) (\<lambda>max. Inr (0, max))
           else if at_least_format rs then bindE (atoi (substr rs 1 separator)) (\<lambda>min. Inr (min, MAX_REPETITIONS))
           else if exactly_format rs then bindE (atoi (substr rs 1 (rsSize - 1))) (\<lambda>min. Inr (min, min))
           else Inl (RegexError (''Error: RegexRepeatMatcher.ParseRepetition(): Unrecognized format '' @ text_of e)))
          (\<lambda>(min, max).
             if min > MAX_REPETITIONS \<or> max > MAX_REPETITIONS \<or> min > max
             then Inl (RegexError (''Error: RegexRepeatMatcher.ParseRepetition(): Wrong number '' @ text_of e))
             else Inr (min, max)))"


section \<open>Compiling patterns\<close>

text \<open>The constructors call one another; the one for lists of patterns is the argument of the others. Each gets the number of
  back references so far and returns the number after it.\<close>

definition RegexBackrefMatcher :: "(bytes \<Rightarrow> nat \<Rightarrow> (matcher \<times> nat) result) \<Rightarrow> bytes \<Rightarrow> nat \<Rightarrow> (matcher \<times> nat) result" where
  "RegexBackrefMatcher patterns e k =
     (if length e < 2 then Inl (RegexError (''Unrecognized format: '' @ text_of e))
      else let lastIndex = length e - 1 in
        if e ! 0 = lround \<and> e ! lastIndex = rround then
          bindE (patterns (substr e 1 (lastIndex - 1)) (k + 1)) (\<lambda>(m, n). Inr (Backref e k m, n))
        else Inl (RegexError (''Unrecognized format: '' @ text_of e)))"

definition RegexRepeatMatcher ::
  "(bytes \<Rightarrow> nat \<Rightarrow> (matcher \<times> nat) result) \<Rightarrow> regex_lib \<Rightarrow> bytes \<Rightarrow> nat \<Rightarrow> nat \<Rightarrow> (matcher \<times> nat) result" where
  "RegexRepeatMatcher patterns L e indicator k =
     bindE (if char_at e 0 = lround then RegexBackrefMatcher patterns (substr e 0 indicator) k
            else RegexComponentSetMatcher L (substr e 0 indicator) k) (\<lambda>(m, k).
     bindE (parseRepetition e indicator) (\<lambda>(min, max). Inr (Repeat e m min max, k)))"

function sub_pattern_end :: "bytes \<Rightarrow> byte \<Rightarrow> byte \<Rightarrow> nat \<Rightarrow> nat \<Rightarrow> nat \<Rightarrow> nat result" where
  "sub_pattern_end e left right index lcount rcount =
     (if lcount > rcount then
        if index \<ge> length e then Inl (RegexError ''Parenthesis mismatch'')
        else sub_pattern_end e left right (index + 1) (if left = e ! index then lcount + 1 else lcount)
          (if right = e ! index then rcount + 1 else rcount)
      else Inr index)"
  by auto
termination
  by (relation "measure (\<lambda>(e, left, right, index, l, r). length e - index)") auto

declare sub_pattern_end.simps [simp del]

definition extractSubPattern :: "bytes \<Rightarrow> byte \<Rightarrow> byte \<Rightarrow> nat \<Rightarrow> nat result" where
  "extractSubPattern e left right index = sub_pattern_end e left right index 1 0"

definition extractRepetition :: "bytes \<Rightarrow> nat \<Rightarrow> nat result" where
  "extractRepetition e index =
     (if index = length e then Inr index
      else if e ! index \<in> {plus_sign, question_mark, asterisk} then Inr (index + 1)
      else if e ! index = lbrace then
        let i = index + length (takeWhile (\<lambda>c. c \<noteq> rbrace) (drop index e)) in
        if i = length e then Inl (RegexError ''Missing right brace bracket'') else Inr (i + 1)
      else Inr index)"

text \<open>The pattern that starts at a position: its matcher and the position behind it.\<close>

definition extractPattern ::
  "(bytes \<Rightarrow> nat \<Rightarrow> (matcher \<times> nat) result) \<Rightarrow> regex_lib \<Rightarrow> bytes \<Rightarrow> nat \<Rightarrow> nat \<Rightarrow> (matcher \<times> nat \<times> nat) result" where
  "extractPattern patterns L e start k =
     (if e ! start = lround then
        bindE (extractSubPattern e lround rround (start + 1)) (\<lambda>indicator.
        bindE (extractRepetition e indicator) (\<lambda>end.
        bindE (if indicator = end then RegexBackrefMatcher patterns (substr e start (end - start)) k
               else RegexRepeatMatcher patterns L (substr e start (end - start)) (indicator - start) k) (\<lambda>(m, k).
        Inr (m, end, k))))
      else if e ! start = langle then
        bindE (extractSubPattern e langle rangle (start + 1)) (\<lambda>indicator.
        bindE (extractRepetition e indicator) (\<lambda>end.
        bindE (RegexRepeatMatcher patterns L (substr e start (end - start)) (indicator - start) k) (\<lambda>(m, k). Inr (m, end, k))))
      else if e ! start = lsquare then
        bindE (extractSubPattern e lsquare rsquare (start + 1)) (\<lambda>indicator.
        bindE (extractRepetition e indicator) (\<lambda>end.
        bindE (RegexRepeatMatcher patterns L (substr e start (end - start)) (indicator - start) k) (\<lambda>(m, k). Inr (m, end, k))))
      else Inl (RegexError ''Unexpected syntax''))"

lemma sub_pattern_end_le: "sub_pattern_end e l r i lc rc = Inr j \<Longrightarrow> i \<le> j \<and> (i \<le> length e \<longrightarrow> j \<le> length e)"
proof (induction e l r i lc rc rule: sub_pattern_end.induct)
  case (1 e l r i lc rc)
  show ?case using 1(1) 1(2) [unfolded sub_pattern_end.simps [of e l r i lc rc]] by (force split: if_splits)
qed

lemma extractSubPattern_le: "extractSubPattern e l r i = Inr j \<Longrightarrow> i \<le> length e \<Longrightarrow> i \<le> j \<and> j \<le> length e"
  unfolding extractSubPattern_def using sub_pattern_end_le by blast

lemma extractRepetition_le: "extractRepetition e i = Inr j \<Longrightarrow> i \<le> length e \<Longrightarrow> i \<le> j \<and> j \<le> length e"
proof -
  assume r: "extractRepetition e i = Inr j" and i: "i \<le> length e"
  have "i + length (takeWhile (\<lambda>c. c \<noteq> rbrace) (drop i e)) \<le> length e"
    using length_takeWhile_le [of "\<lambda>c. c \<noteq> rbrace" "drop i e"] i by simp
  then show ?thesis using r i by (auto simp: extractRepetition_def Let_def split: if_splits)
qed

lemma extractPattern_le: "extractPattern patterns L e i k = Inr (m, j, n) \<Longrightarrow> i < length e \<Longrightarrow> i < j \<and> j \<le> length e"
  by (fastforce simp: extractPattern_def bindE_Inr_conv split: if_splits dest: extractSubPattern_le extractRepetition_le)

function pattern_loop ::
  "(bytes \<Rightarrow> nat \<Rightarrow> (matcher \<times> nat) result) \<Rightarrow> regex_lib \<Rightarrow> bytes \<Rightarrow> nat \<Rightarrow> nat \<Rightarrow> (matcher list \<times> nat) result" where
  "pattern_loop patterns L e index k =
     (if index < length e then
        bindE (extractPattern patterns L e index k) (\<lambda>(m, next, k).
        bindE (pattern_loop patterns L e next k) (\<lambda>(ms, k). Inr (m # ms, k)))
      else Inr ([], k))"
  by auto
termination
  by (relation "measure (\<lambda>(p, L, e, index, k). length e - index)") (auto dest: extractPattern_le)

declare pattern_loop.simps [simp del]


text \<open>Only shorter expressions are compiled on the way.\<close>

lemma RegexBackrefMatcher_cong:
  assumes "\<And>f n. length f < length e \<Longrightarrow> p f n = q f n"
  shows "RegexBackrefMatcher p e k = RegexBackrefMatcher q e k"
  using assms by (auto simp: RegexBackrefMatcher_def Let_def substr_def intro!: arg_cong [where f = "\<lambda>m. bindE m _"])

lemma extractPattern_cong:
  assumes "\<And>f n. length f < length e \<Longrightarrow> p f n = q f n"
  shows "extractPattern p L e i k = extractPattern q L e i k"
proof -
  have b: "RegexBackrefMatcher p (substr e a b) n = RegexBackrefMatcher q (substr e a b) n" for a b n
    using assms by (intro RegexBackrefMatcher_cong) (auto simp: substr_def)
  have "RegexRepeatMatcher p L (substr e a b) c n = RegexRepeatMatcher q L (substr e a b) c n" for a b c n
  proof -
    have "substr (substr e a b) 0 c = substr e a (min c b)" by (simp add: substr_def)
    then show ?thesis using b by (simp add: RegexRepeatMatcher_def)
  qed
  then show ?thesis by (simp add: extractPattern_def b cong: if_cong)
qed

lemma pattern_loop_cong [fundef_cong]:
  assumes "L = L'" and "e = e'" and "i = i'" and "k = k'" and "\<And>f n. length f < length e' \<Longrightarrow> p f n = q f n"
  shows "pattern_loop p L e i k = pattern_loop q L' e' i' k'"
proof -
  have "pattern_loop p L e i k = pattern_loop q L e i k"
    using assms(5) [folded assms(2)]
  proof (induction p L e i k rule: pattern_loop.induct)
    case (1 p L e i k)
    have "extractPattern p L e i k = extractPattern q L e i k" by (rule extractPattern_cong) (use 1(2) in blast)
    then show ?case using 1
      by (subst (1 2) pattern_loop.simps) (auto simp: bindE_assoc intro!: bindE_cong)
  qed
  then show ?thesis using assms(1-4) by simp
qed

function RegexPatternListMatcher :: "regex_lib \<Rightarrow> bytes \<Rightarrow> nat \<Rightarrow> (matcher \<times> nat) result" where
  "RegexPatternListMatcher L e k = bindE (pattern_loop (RegexPatternListMatcher L) L e 0 k) (\<lambda>(ms, k). Inr (PatternList e ms, k))"
  by auto
termination
  by (relation "measure (\<lambda>(L, e, k). length e)") auto

declare RegexPatternListMatcher.simps [simp del]


section \<open>Matching\<close>

text \<open>What the groups and the marked sub-expressions have matched, by their numbers. The results of the other matchers
  are not used; to collect them the components of the name are read.\<close>

type_synonym refs = "nat \<Rightarrow> block list"

type_synonym matching = "refs \<Rightarrow> (bool \<times> refs) result"

definition name_range :: "block \<Rightarrow> nat \<Rightarrow> nat \<Rightarrow> block list result" where
  "name_range n offset len = mapE (\<lambda>i. Name_get n (word_of_nat i)) [offset..<offset + len]"

definition and_then :: "matching \<Rightarrow> matching \<Rightarrow> matching" where
  "and_then f g s = bindE (f s) (\<lambda>(r, s). if r then g s else Inr (False, s))"

text \<open>The loop that tries shorter and shorter parts.\<close>

primrec try_lengths :: "(nat \<Rightarrow> matching) \<Rightarrow> (nat \<Rightarrow> matching) \<Rightarrow> nat \<Rightarrow> matching" where
  "try_lengths f g 0 s = and_then (f 0) (g 0) s"
| "try_lengths f g (Suc tried) s = bindE (and_then (f (Suc tried)) (g (Suc tried)) s) (\<lambda>(r, s).
     if r then Inr (True, s) else try_lengths f g tried s)"

primrec list_match :: "(nat \<Rightarrow> nat \<Rightarrow> matching) list \<Rightarrow> nat \<Rightarrow> nat \<Rightarrow> matching" where
  "list_match [] offset len s = Inr (len = 0, s)"
| "list_match (m # ms) offset len s =
     try_lengths (m offset) (\<lambda>tried. list_match ms (offset + tried) (len - tried)) len s"

lemma try_lengths_cong [fundef_cong]:
  assumes "n = n'" and "s = s'" and "\<And>t s. t \<le> n' \<Longrightarrow> f t s = f' t s" and "\<And>t s. t \<le> n' \<Longrightarrow> g t s = g' t s"
  shows "try_lengths f g n s = try_lengths f' g' n' s'"
proof -
  have "try_lengths f g n s = try_lengths f' g' n s" using assms(3,4) [folded assms(1)]
    by (induction n arbitrary: s) (auto simp: and_then_def intro!: bindE_cong)
  then show ?thesis using assms(1,2) by simp
qed

function repeat_match :: "(nat \<Rightarrow> nat \<Rightarrow> matching) \<Rightarrow> nat \<Rightarrow> nat \<Rightarrow> nat \<Rightarrow> nat \<Rightarrow> nat \<Rightarrow> matching" where
  "repeat_match m repeatMin repeatMax rep offset len s =
     (if 0 < len \<and> rep \<ge> repeatMax then Inr (False, s)
      else if 0 = len \<and> rep < repeatMin then Inr (False, s)
      else if 0 = len \<and> rep \<ge> repeatMin then Inr (True, s)
      else try_lengths (m offset) (\<lambda>tried. repeat_match m repeatMin repeatMax (rep + 1) (offset + tried) (len - tried)) len s)"
  by auto
termination
  by (relation "measure (\<lambda>(m, mn, mx, rep, offset, len, s). mx - rep)") auto

declare repeat_match.simps [simp del]

definition component_match :: "regex_lib \<Rightarrow> block \<Rightarrow> component_matcher \<Rightarrow> nat \<Rightarrow> matching" where
  "component_match L n m offset s = bindE (Name_get n (word_of_nat offset)) (\<lambda>c.
     if cm_expr m = [] then Inr (True, s)
     else case regex_match L (cm_expr m) (Component_toUri c) of
       None \<Rightarrow> Inr (False, s)
     | Some subResult \<Rightarrow>
         bindE (foldE (\<lambda>s (p, v). bindE (Component_of_value v) (\<lambda>c. Inr (s(p := [c])))) s (zip (m_pseudoMatchers m) subResult))
           (\<lambda>s. Inr (True, s)))"

fun any_component :: "(component_matcher \<Rightarrow> matching) \<Rightarrow> component_matcher list \<Rightarrow> matching" where
  "any_component f [] s = Inr (False, s)"
| "any_component f (c # cs) s = bindE (f c s) (\<lambda>(r, s). if r then Inr (True, s) else any_component f cs s)"

definition set_match :: "regex_lib \<Rightarrow> block \<Rightarrow> component_matcher list \<Rightarrow> bool \<Rightarrow> nat \<Rightarrow> nat \<Rightarrow> matching" where
  "set_match L n cs isInclusion offset len s =
     (if len \<noteq> 1 then Inr (False, s)
      else bindE (any_component (\<lambda>c. component_match L n c offset) cs s) (\<lambda>(isMatched, s).
        if (if isInclusion then isMatched else \<not> isMatched)
        then bindE (Name_get n (word_of_nat offset)) (\<lambda>_. Inr (True, s))
        else Inr (False, s)))"

primrec matches :: "regex_lib \<Rightarrow> block \<Rightarrow> matcher \<Rightarrow> nat \<Rightarrow> nat \<Rightarrow> matching" where
  "matches L n (PatternList e ms) = (\<lambda>offset len s.
     bindE (list_match (map (matches L n) ms) offset len s) (\<lambda>(r, s).
       if r then bindE (name_range n offset len) (\<lambda>_. Inr (True, s)) else Inr (False, s)))"
| "matches L n (Repeat e m repeatMin repeatMax) = (\<lambda>offset len s.
     if 0 = repeatMin \<and> 0 = len then Inr (True, s)
     else bindE (repeat_match (matches L n m) repeatMin repeatMax 0 offset len s) (\<lambda>(r, s).
       if r then bindE (name_range n offset len) (\<lambda>_. Inr (True, s)) else Inr (False, s)))"
| "matches L n (Backref e k m) = (\<lambda>offset len s.
     bindE (list_match [matches L n m] offset len (s(k := []))) (\<lambda>(r, s).
       if r then bindE (name_range n offset len) (\<lambda>cs. Inr (True, s(k := cs))) else Inr (False, s)))"
| "matches L n (ComponentSet e cs isInclusion) = set_match L n cs isInclusion"


section \<open>The matcher of an application\<close>

text \<open>The expression with its anchors: without one at the end anything may follow; without one at the beginning a second
  matcher lets anything come before. A matcher comes with the number of its back references.\<close>

record top_matcher =
  m_expand :: bytes
  m_primaryMatcher :: "matcher \<times> nat"
  m_secondaryMatcher :: "(matcher \<times> nat) option"

record top_state =
  primary_refs :: refs
  secondary_refs :: refs
  m_matchResult :: "block list"
  m_isSecondaryUsed :: bool

definition top_new :: top_state where
  "top_new = \<lparr>primary_refs = \<lambda>_. [], secondary_refs = \<lambda>_. [], m_matchResult = [], m_isSecondaryUsed = False\<rparr>"

definition anything :: bytes where
  "anything = [langle, 46, asterisk, rangle, asterisk]"

definition RegexTopMatcher :: "regex_lib \<Rightarrow> bytes \<Rightarrow> bytes \<Rightarrow> top_matcher result" where
  "RegexTopMatcher L m_expr expand =
     (if m_expr = [] then Inl (UndefinedBehaviour ''string index'')
      else
        let e = (if last m_expr \<noteq> dollar then m_expr @ anything else butlast m_expr) in
        if char_at e 0 \<noteq> caret then
          bindE (RegexPatternListMatcher L (anything @ e) 0) (\<lambda>second.
          bindE (RegexPatternListMatcher L e 0) (\<lambda>first.
          Inr \<lparr>m_expand = expand, m_primaryMatcher = first, m_secondaryMatcher = Some second\<rparr>))
        else bindE (RegexPatternListMatcher L (substr e 1 (length e - 1)) 0) (\<lambda>first.
          Inr \<lparr>m_expand = expand, m_primaryMatcher = first, m_secondaryMatcher = None\<rparr>))"

definition top_match :: "regex_lib \<Rightarrow> top_matcher \<Rightarrow> block \<Rightarrow> top_state \<Rightarrow> (bool \<times> top_state) result" where
  "top_match L t n s =
     (let s = s\<lparr>m_isSecondaryUsed := False, m_matchResult := []\<rparr>; size = unat (Name_size n) in
      bindE (matches L n (fst (m_primaryMatcher t)) 0 size (primary_refs s)) (\<lambda>(r, refs).
        let s = s\<lparr>primary_refs := refs\<rparr> in
        if r then bindE (name_range n 0 size) (\<lambda>cs. Inr (True, s\<lparr>m_matchResult := cs\<rparr>))
        else case m_secondaryMatcher t of
          None \<Rightarrow> Inr (False, s)
        | Some (m, k) \<Rightarrow>
            bindE (matches L n m 0 size (secondary_refs s)) (\<lambda>(r, refs).
              let s = s\<lparr>secondary_refs := refs\<rparr> in
              if r then bindE (name_range n 0 size) (\<lambda>cs. Inr (True, s\<lparr>m_matchResult := cs, m_isSecondaryUsed := True\<rparr>))
              else Inr (False, s))))"

text \<open>The next item of an expansion and the position behind it.\<close>

function angle_end :: "bytes \<Rightarrow> nat \<Rightarrow> nat \<Rightarrow> nat \<Rightarrow> nat result" where
  "angle_end e offset left right =
     (if right < left then
        if offset + 1 \<ge> length e then Inl (RegexError ''wrong format of expand string!'')
        else angle_end e (offset + 1) (if e ! offset = langle then left + 1 else left) (if e ! offset = rangle then right + 1 else right)
      else Inr offset)"
  by auto
termination
  by (relation "measure (\<lambda>(e, offset, l, r). length e - offset)") auto

declare angle_end.simps [simp del]

definition getItemFromExpand :: "bytes \<Rightarrow> nat \<Rightarrow> (bytes \<times> nat) result" where
  "getItemFromExpand e start =
     (if e ! start = backslash then
        if start + 1 \<ge> length e then Inl (RegexError ''wrong format of expand string!'')
        else let offset = start + 1 + length (takeWhile isdigit (drop (start + 1) e)) in
          if offset > start + 1 then Inr (substr e start (offset - start), offset)
          else Inl (RegexError ''wrong format of expand string!'')
      else if e ! start = langle then
        if start + 1 \<ge> length e then Inl (RegexError ''wrong format of expand string!'')
        else bindE (angle_end e (start + 1) 1 0) (\<lambda>offset. Inr (substr e start (offset - start), offset))
      else Inl (RegexError ''wrong format of expand string!''))"

lemma angle_end_le: "angle_end e i l r = Inr j \<Longrightarrow> i \<le> j"
proof (induction e i l r rule: angle_end.induct)
  case (1 e i l r)
  show ?case using 1(1) 1(2) [unfolded angle_end.simps [of e i l r]] by (force split: if_splits)
qed

lemma getItemFromExpand_le: "getItemFromExpand e i = Inr (v, j) \<Longrightarrow> i < j"
  by (fastforce simp: getItemFromExpand_def Let_def bindE_Inr_conv split: if_splits dest: angle_end_le)

definition append_all :: "block \<Rightarrow> block list \<Rightarrow> block" where
  "append_all n cs = foldl Name_append n cs"

text \<open>The manager holds the groups, whose results are \<open>refs\<close>; \<open>backrefNo\<close> is their number.\<close>

function expand_loop :: "(bytes \<Rightarrow> bytes) \<Rightarrow> nat \<Rightarrow> refs \<Rightarrow> block list \<Rightarrow> bytes \<Rightarrow> nat \<Rightarrow> block \<Rightarrow> block result" where
  "expand_loop hexDecoder backrefNo refs result e offset n =
     (if offset < length e then
        bindE (getItemFromExpand e offset) (\<lambda>(item, next).
        bindE
          (if item ! 0 = langle then
             bindE (Name_of_uri hexDecoder (substr item 1 (length item - 2))) (\<lambda>m. Name_append_name n m)
           else
             let index = decimal (substr item 1 (length item - 1)) in
             if index \<ge> 2 ^ 64 then Inl (BoostError ''bad_lexical_cast'')
             else if index = 0 then Inr (append_all n result)
             else if index \<le> backrefNo then Inr (append_all n (refs (index - 1)))
             else Inl (RegexError ''Exceed the range of back reference''))
          (\<lambda>n. expand_loop hexDecoder backrefNo refs result e next n))
      else Inr n)"
  by auto
termination
  by (relation "measure (\<lambda>(h, k, refs, r, e, offset, n). length e - offset)") (auto dest: getItemFromExpand_le)

declare expand_loop.simps [simp del]

definition expand :: "(bytes \<Rightarrow> bytes) \<Rightarrow> top_matcher \<Rightarrow> top_state \<Rightarrow> bytes \<Rightarrow> block result" where
  "expand hexDecoder t s expandStr =
     (let (refs, backrefNo) = (if m_isSecondaryUsed s then (secondary_refs s, case m_secondaryMatcher t of None \<Rightarrow> 0 | Some (m, k) \<Rightarrow> k)
            else (primary_refs s, snd (m_primaryMatcher t)))
      in expand_loop hexDecoder backrefNo refs (m_matchResult s) (if expandStr \<noteq> [] then expandStr else m_expand t) 0 Name_new)"

definition special_char :: "byte \<Rightarrow> bool" where
  "special_char c \<longleftrightarrow> c \<in> {46, lsquare, lbrace, rbrace, lround, rround, backslash, asterisk, plus_sign, question_mark, 124, caret, dollar}"

definition convertSpecialChar :: "bytes \<Rightarrow> bytes" where
  "convertSpecialChar s = concat (map (\<lambda>c. if special_char c then [backslash, c] else [c]) s)"

definition regex_fromName :: "regex_lib \<Rightarrow> block \<Rightarrow> bool \<Rightarrow> top_matcher result" where
  "regex_fromName L n hasAnchor =
     (let regexStr = [caret] @ concat (map (\<lambda>c. [langle] @ convertSpecialChar (Component_toUri c) @ [rangle]) (m_subBlocks n)) in
      RegexTopMatcher L (if hasAnchor then regexStr @ [dollar] else regexStr) [])"


section \<open>Interest filters\<close>

text \<open>A filter with an expression for what follows its prefix; the results of its groups are not used.\<close>

definition InterestFilter_of_regex :: "regex_lib \<Rightarrow> block \<Rightarrow> bytes \<Rightarrow> interest_filter result" where
  "InterestFilter_of_regex L n regexFilter = bindE (RegexPatternListMatcher L regexFilter 0) (\<lambda>(m, k).
     Inr \<lparr>m_prefix = n, m_regexFilter = Some (\<lambda>name offset len.
       bindE (matches L name m (unat offset) (unat len) (\<lambda>_. [])) (\<lambda>(r, _). Inr r))\<rparr>)"

end
