(* ===== verification/RegexLang.thy ===== *)
theory RegexLang
  imports Regex
begin

text \<open>
  What the matchers of util/regex decide: each has a language, a set of lists of components, and matches a part of a
  name exactly when the part is in the language, whatever its groups held before.
\<close>

section \<open>Languages\<close>

type_synonym lang = "block list set"

definition seq :: "lang \<Rightarrow> lang \<Rightarrow> lang" where
  "seq A B = {u @ v | u v. u \<in> A \<and> v \<in> B}"

primrec copies :: "lang \<Rightarrow> nat \<Rightarrow> lang" where
  "copies A 0 = {[]}"
| "copies A (Suc n) = seq A (copies A n)"

definition seqs :: "lang list \<Rightarrow> lang" where
  "seqs As = foldr seq As {[]}"

lemma seqs_simps [simp]: "seqs [] = {[]}" "seqs (A # As) = seq A (seqs As)"
  by (simp_all add: seqs_def)

lemma in_seq: "w \<in> seq A B \<longleftrightarrow> (\<exists>t \<le> length w. take t w \<in> A \<and> drop t w \<in> B)"
proof
  assume "w \<in> seq A B"
  then obtain u v where "w = u @ v" "u \<in> A" "v \<in> B" by (auto simp: seq_def)
  then show "\<exists>t \<le> length w. take t w \<in> A \<and> drop t w \<in> B" by (intro exI [of _ "length u"]) simp
next
  assume "\<exists>t \<le> length w. take t w \<in> A \<and> drop t w \<in> B"
  then show "w \<in> seq A B" unfolding seq_def by (metis (mono_tags, lifting) append_take_drop_id mem_Collect_eq)
qed

lemma copies_Nil: "[] \<in> copies A n \<longleftrightarrow> n = 0 \<or> [] \<in> A"
  by (induction n) (auto simp: in_seq)

lemma copies_more: "[] \<in> A \<Longrightarrow> w \<in> copies A n \<Longrightarrow> w \<in> copies A (m + n)"
  by (induction m) (auto simp: in_seq intro: exI [of _ 0])

lemma copies_one: "copies A (Suc 0) = A"
  by (auto simp: in_seq set_eq_iff)

text \<open>What a repetition accepts: the empty part only if no repetition is needed.\<close>

definition repeats :: "lang \<Rightarrow> nat \<Rightarrow> nat \<Rightarrow> lang" where
  "repeats A m n = {w. if w = [] then m = 0 else (\<exists>k. m \<le> k \<and> k \<le> n \<and> w \<in> copies A k)}"

definition accepts :: "regex_lib \<Rightarrow> component_matcher \<Rightarrow> block \<Rightarrow> bool" where
  "accepts L m c \<longleftrightarrow> cm_expr m = [] \<or> regex_match L (cm_expr m) (Component_toUri c) \<noteq> None"

primrec lang :: "regex_lib \<Rightarrow> matcher \<Rightarrow> lang" where
  "lang L (PatternList e ms) = seqs (map (lang L) ms)"
| "lang L (Repeat e m repeatMin repeatMax) = repeats (lang L m) repeatMin repeatMax"
| "lang L (Backref e k m) = lang L m"
| "lang L (ComponentSet e cs isInclusion) = {[c] | c. isInclusion \<longleftrightarrow> (\<exists>m \<in> set cs. accepts L m c)}"


section \<open>What the loops decide\<close>

text \<open>The part of a name, and a function that decides whether a part is in a language.\<close>

definition part :: "block \<Rightarrow> nat \<Rightarrow> nat \<Rightarrow> block list" where
  "part n offset len = take len (drop offset (m_subBlocks n))"

definition returns :: "matching \<Rightarrow> bool \<Rightarrow> bool" where
  "returns f b \<longleftrightarrow> (\<forall>s. \<exists>s'. f s = Inr (b, s'))"

definition decides :: "block \<Rightarrow> (nat \<Rightarrow> nat \<Rightarrow> matching) \<Rightarrow> lang \<Rightarrow> bool" where
  "decides n f A \<longleftrightarrow> (\<forall>offset len. offset + len \<le> length (m_subBlocks n) \<longrightarrow> returns (f offset len) (part n offset len \<in> A))"

lemma returnsD: "returns f b \<Longrightarrow> \<exists>s'. f s = Inr (b, s')"
  by (simp add: returns_def)

lemma part_split:
  assumes "offset + len \<le> length (m_subBlocks n)"
  shows "part n offset len \<in> seq A B \<longleftrightarrow> (\<exists>t \<le> len. part n offset t \<in> A \<and> part n (offset + t) (len - t) \<in> B)"
proof -
  have "length (part n offset len) = len" using assms by (simp add: part_def)
  moreover have "take t (part n offset len) = part n offset t" "drop t (part n offset len) = part n (offset + t) (len - t)"
    if "t \<le> len" for t
    using that by (simp_all add: part_def min_def drop_take add.commute)
  ultimately show ?thesis unfolding in_seq by auto
qed

lemma returns_and: "returns f a \<Longrightarrow> returns g b \<Longrightarrow> returns (and_then f g) (a \<and> b)"
  unfolding returns_def and_then_def
  by (metis (mono_tags, lifting) bindE.simps(2) case_prod_conv)

lemma returns_try:
  assumes "\<And>t. t \<le> len \<Longrightarrow> returns (f t) (P t)" and "\<And>t. t \<le> len \<Longrightarrow> returns (g t) (Q t)"
  shows "returns (try_lengths f g len) (\<exists>t \<le> len. P t \<and> Q t)"
  using assms
proof (induction len)
  case 0
  then show ?case using returns_and [of "f 0" "P 0" "g 0" "Q 0"] by (simp add: returns_def)
next
  case (Suc len)
  have a: "returns (and_then (f (Suc len)) (g (Suc len))) (P (Suc len) \<and> Q (Suc len))"
    using returns_and Suc.prems by blast
  have b: "returns (try_lengths f g len) (\<exists>t \<le> len. P t \<and> Q t)" using Suc by simp
  show ?case unfolding returns_def
  proof
    fix s
    obtain u where u: "and_then (f (Suc len)) (g (Suc len)) s = Inr (P (Suc len) \<and> Q (Suc len), u)"
      using a by (auto simp: returns_def)
    obtain v where v: "try_lengths f g len u = Inr (\<exists>t \<le> len. P t \<and> Q t, v)" using b by (auto simp: returns_def)
    have "(\<exists>t \<le> Suc len. P t \<and> Q t) \<longleftrightarrow> P (Suc len) \<and> Q (Suc len) \<or> (\<exists>t \<le> len. P t \<and> Q t)" by (auto simp: le_Suc_eq)
    then show "\<exists>s'. try_lengths f g (Suc len) s = Inr (\<exists>t \<le> Suc len. P t \<and> Q t, s')" using u v by auto
  qed
qed

lemma decides_list:
  assumes "list_all2 (decides n) fs As"
  shows "decides n (list_match fs) (seqs As)"
  using assms
proof (induction rule: list_all2_induct)
  case Nil
  show ?case by (auto simp: decides_def returns_def part_def)
next
  case (Cons f fs A As)
  show ?case unfolding decides_def
  proof (intro allI impI)
    fix offset len assume l: "offset + len \<le> length (m_subBlocks n)"
    have "returns (try_lengths (f offset) (\<lambda>t. list_match fs (offset + t) (len - t)) len)
        (\<exists>t \<le> len. part n offset t \<in> A \<and> part n (offset + t) (len - t) \<in> seqs As)"
      by (rule returns_try) (use Cons l in \<open>auto simp: decides_def\<close>)
    then show "returns (list_match (f # fs) offset len) (part n offset len \<in> seqs (A # As))"
      using part_split [OF l, of A "seqs As"] by (simp add: returns_def)
  qed
qed

text \<open>The loop over repetitions; empty repetitions, if any, come first.\<close>

lemma decides_repeat:
  assumes "decides n f A" and "offset + len \<le> length (m_subBlocks n)"
  shows "returns (repeat_match f m x rep offset len)
    (if len = 0 then m \<le> rep else (\<exists>k. m \<le> rep + k \<and> rep + k \<le> x \<and> part n offset len \<in> copies A k))"
  using assms(2)
proof (induction "x - rep" arbitrary: rep offset len)
  case 0
  have "len = 0" if "rep + k \<le> x" "part n offset len \<in> copies A k" for k
    using 0 that by (cases k) (auto simp: part_def)
  then show ?case using 0(1)
    by (auto simp: returns_def repeat_match.simps [of f m x rep])
next
  case (Suc d)
  define R where "R t \<longleftrightarrow> (if len - t = 0 then m \<le> rep + 1
    else (\<exists>k. m \<le> rep + 1 + k \<and> rep + 1 + k \<le> x \<and> part n (offset + t) (len - t) \<in> copies A k))" for t
  have r: "returns (repeat_match f m x (rep + 1) (offset + t) (len - t)) (R t)" if "t \<le> len" for t
    using Suc.hyps(1) [of "rep + 1" "offset + t" "len - t"] Suc.hyps(2) Suc.prems that by (simp add: R_def)
  have t: "returns (try_lengths (f offset) (\<lambda>t. repeat_match f m x (rep + 1) (offset + t) (len - t)) len)
      (\<exists>t \<le> len. part n offset t \<in> A \<and> R t)"
    by (rule returns_try) (use assms(1) Suc.prems r in \<open>auto simp: decides_def\<close>)
  have e: "(\<exists>t \<le> len. part n offset t \<in> A \<and> R t) \<longleftrightarrow> (\<exists>k. m \<le> rep + k \<and> rep + k \<le> x \<and> part n offset len \<in> copies A k)" if l: "0 < len"
  proof
    assume "\<exists>t \<le> len. part n offset t \<in> A \<and> R t"
    then obtain t where t: "t \<le> len" "part n offset t \<in> A" "R t" by blast
    show "\<exists>k. m \<le> rep + k \<and> rep + k \<le> x \<and> part n offset len \<in> copies A k"
    proof (cases "len - t = 0")
      case True
      then have "part n offset len \<in> copies A (Suc 0)" "m \<le> rep + 1" using t by (simp_all add: R_def copies_one del: copies.simps)
      then show ?thesis using Suc.hyps(2) by (intro exI [of _ "Suc 0"]) simp
    next
      case False
      then obtain k where "m \<le> rep + 1 + k" "rep + 1 + k \<le> x" "part n (offset + t) (len - t) \<in> copies A k"
        using t(3) by (auto simp: R_def)
      then show ?thesis using t(1,2) part_split [OF Suc.prems, of A "copies A k"] by (intro exI [of _ "Suc k"]) auto
    qed
  next
    assume "\<exists>k. m \<le> rep + k \<and> rep + k \<le> x \<and> part n offset len \<in> copies A k"
    then obtain k where k: "m \<le> rep + k" "rep + k \<le> x" "part n offset len \<in> copies A k" by blast
    have "part n offset len \<noteq> []" using Suc.prems l by (simp add: part_def)
    then obtain j where j: "k = Suc j" using k(3) by (cases k) auto
    then obtain t where t: "t \<le> len" "part n offset t \<in> A" "part n (offset + t) (len - t) \<in> copies A j"
      using k(3) part_split [OF Suc.prems, of A "copies A j"] by auto
    show "\<exists>t \<le> len. part n offset t \<in> A \<and> R t"
    proof (cases "t < len \<or> j = 0")
      case True
      then have "R t" using k(1,2) j t by (cases "t = len") (auto simp: R_def part_def)
      then show ?thesis using t by blast
    next
      case False
      then have e: "t = len" "[] \<in> copies A j" "0 < j" using t by (auto simp: part_def)
      then have "[] \<in> A" "part n offset 0 \<in> A" by (auto simp: copies_Nil part_def)
      have "part n offset len \<in> copies A (Suc 0)" using t(2) e(1) by (simp add: copies_one del: copies.simps)
      then have "part n offset len \<in> copies A j" using copies_more [OF \<open>[] \<in> A\<close>, of _ "Suc 0" "j - 1"] e(3) by simp
      then have "R 0" using k(1,2) j l by (auto simp: R_def)
      then show ?thesis using \<open>part n offset 0 \<in> A\<close> by blast
    qed
  qed
  show ?case
  proof (cases "len = 0")
    case True
    then show ?thesis by (auto simp: returns_def repeat_match.simps [of f m x rep])
  next
    case False
    then have "repeat_match f m x rep offset len = try_lengths (f offset) (\<lambda>t. repeat_match f m x (rep + 1) (offset + t) (len - t)) len"
      using Suc.hyps(2) by (intro ext, subst repeat_match.simps) auto
    then show ?thesis using t e False by simp
  qed
qed


section \<open>The matchers\<close>

text \<open>What is asked of the library: a sub-expression matches a part of the string.\<close>

definition lib_ok :: "regex_lib \<Rightarrow> bool" where
  "lib_ok L \<longleftrightarrow> (\<forall>e s vs. regex_match L e s = Some vs \<longrightarrow> (\<forall>v \<in> set vs. length v \<le> length s))"

text \<open>A name whose components have representations of a size that does not wrap.\<close>

definition short_name :: "block \<Rightarrow> bool" where
  "short_name n \<longleftrightarrow> few n \<and> (\<forall>c \<in> set (m_subBlocks n). length (Component_toUri c) < 2 ^ 32)"

lemma name_range_part:
  assumes "few n" and "offset + len \<le> length (m_subBlocks n)"
  shows "name_range n offset len = Inr (part n offset len)"
proof -
  have "mapE (\<lambda>i. Name_get n (word_of_nat i)) [offset..<offset + k] = Inr (part n offset k)" if "k \<le> len" for k
    using that
  proof (induction k)
    case (Suc k)
    have "Name_get n (word_of_nat (offset + k)) = Inr (m_subBlocks n ! (offset + k))"
      using Name_get_at [of "offset + k" n] assms Suc.prems by (simp add: few_def)
    moreover have "part n offset (Suc k) = part n offset k @ [m_subBlocks n ! (offset + k)]"
      using assms(2) Suc.prems by (simp add: part_def take_Suc_conv_app_nth)
    ultimately show ?case using Suc by (simp add: mapE_append)
  qed (simp add: part_def)
  then show ?thesis by (simp add: name_range_def)
qed

lemma returns_component:
  assumes "lib_ok L" and "short_name n" and "offset < length (m_subBlocks n)"
  shows "returns (component_match L n m offset) (accepts L m (m_subBlocks n ! offset))"
proof -
  let ?c = "m_subBlocks n ! offset"
  have g: "Name_get n (word_of_nat offset) = Inr ?c"
    using Name_get_at [of offset n] assms(2,3) by (simp add: short_name_def few_def)
  have c: "\<exists>c. Component_of_value v = Inr c" if "length v \<le> length (Component_toUri ?c)" for v
  proof -
    have "length (Component_toUri ?c) < 2 ^ 32" using assms(2,3) by (simp add: short_name_def)
    then have "fits (tlv tlv_NameComponent v)" using that tlv_length_le [of tlv_NameComponent v] by (simp add: fits_def)
    then show ?thesis using makeBinary_block unfolding Component_of_value_def by blast
  qed
  have f: "\<exists>t. foldE (\<lambda>s (p, v). bindE (Component_of_value v) (\<lambda>c. Inr (s(p := [c])))) s ps = Inr t"
    if "\<forall>v \<in> snd ` set ps. length v \<le> length (Component_toUri ?c)" for s ps
    using that
  proof (induction ps arbitrary: s)
    case (Cons p ps)
    obtain d where "Component_of_value (snd p) = Inr d" using c [of "snd p"] Cons.prems by auto
    then show ?case using Cons by (auto simp: split_beta)
  qed simp
  show ?thesis unfolding returns_def
  proof
    fix s
    show "\<exists>s'. component_match L n m offset s = Inr (accepts L m ?c, s')"
    proof (cases "regex_match L (cm_expr m) (Component_toUri ?c)")
      case None
      then show ?thesis using g by (simp add: component_match_def accepts_def)
    next
      case (Some vs)
      then have "\<forall>v \<in> snd ` set (zip (m_pseudoMatchers m) vs). length v \<le> length (Component_toUri ?c)"
        using assms(1) by (auto simp: lib_ok_def dest: set_zip_rightD)
      then obtain t where "foldE (\<lambda>s (p, v). bindE (Component_of_value v) (\<lambda>c. Inr (s(p := [c])))) s (zip (m_pseudoMatchers m) vs) = Inr t"
        using f by blast
      then show ?thesis using g Some by (simp add: component_match_def accepts_def)
    qed
  qed
qed

lemma returns_any:
  assumes "\<And>c. c \<in> set cs \<Longrightarrow> returns (f c) (P c)"
  shows "returns (any_component f cs) (\<exists>c \<in> set cs. P c)"
  using assms
proof (induction cs)
  case (Cons c cs)
  show ?case unfolding returns_def
  proof
    fix s
    obtain u where u: "f c s = Inr (P c, u)" using returnsD [OF Cons.prems, of c s] by auto
    have "returns (any_component f cs) (\<exists>c \<in> set cs. P c)" using Cons by simp
    then obtain v where v: "any_component f cs u = Inr (\<exists>c \<in> set cs. P c, v)" using returnsD by blast
    show "\<exists>s'. any_component f (c # cs) s = Inr (\<exists>c \<in> set (c # cs). P c, s')" using u v by auto
  qed
qed (simp add: returns_def)

lemma decides_set:
  assumes "lib_ok L" and "short_name n"
  shows "decides n (set_match L n cs incl) {[c] | c. incl \<longleftrightarrow> (\<exists>m \<in> set cs. accepts L m c)}"
  unfolding decides_def
proof (intro allI impI)
  fix offset len assume l: "offset + len \<le> length (m_subBlocks n)"
  show "returns (set_match L n cs incl offset len) (part n offset len \<in> {[c] | c. incl \<longleftrightarrow> (\<exists>m \<in> set cs. accepts L m c)})"
  proof (cases "len = 1")
    case False
    then have "part n offset len \<notin> {[c] | c. incl \<longleftrightarrow> (\<exists>m \<in> set cs. accepts L m c)}"
      using l by (auto simp: part_def dest: arg_cong [where f = length])
    then show ?thesis using False by (simp add: returns_def set_match_def)
  next
    case True
    let ?c = "m_subBlocks n ! offset"
    have p: "part n offset len = [?c]" using l True by (simp add: part_def take_Suc_conv_app_nth)
    have g: "Name_get n (word_of_nat offset) = Inr ?c"
      using Name_get_at [of offset n] assms(2) l True by (simp add: short_name_def few_def)
    have a: "returns (any_component (\<lambda>m. component_match L n m offset) cs) (\<exists>m \<in> set cs. accepts L m ?c)"
      by (rule returns_any) (use returns_component [OF assms] l True in simp)
    show ?thesis unfolding returns_def
    proof
      fix s
      obtain u where "any_component (\<lambda>m. component_match L n m offset) cs s = Inr (\<exists>m \<in> set cs. accepts L m ?c, u)"
        using a by (auto simp: returns_def)
      then show "\<exists>s'. set_match L n cs incl offset len s
          = Inr (part n offset len \<in> {[c] | c. incl \<longleftrightarrow> (\<exists>m \<in> set cs. accepts L m c)}, s')"
        using p g True by (simp add: set_match_def)
    qed
  qed
qed

text \<open>Collecting the components of a match does not change the answer.\<close>

lemma returns_collect:
  assumes "returns f b" and "few n" and "offset + len \<le> length (m_subBlocks n)"
  shows "returns (\<lambda>s. bindE (f (h s)) (\<lambda>(r, s). if r then bindE (name_range n offset len) (\<lambda>cs. Inr (True, g cs s)) else Inr (False, s))) b"
  unfolding returns_def
proof
  fix s
  obtain u where "f (h s) = Inr (b, u)" using returnsD [OF assms(1)] by blast
  then show "\<exists>s'. bindE (f (h s)) (\<lambda>(r, s). if r then bindE (name_range n offset len) (\<lambda>cs. Inr (True, g cs s)) else Inr (False, s)) = Inr (b, s')"
    using name_range_part [OF assms(2,3)] by simp
qed

lemma matches_lang:
  assumes "lib_ok L" and "short_name n"
  shows "decides n (matches L n m) (lang L m)"
proof (induction m)
  case (PatternList e ms)
  then have "list_all2 (decides n) (map (matches L n) ms) (map (lang L) ms)" by (simp add: list_all2_conv_all_nth)
  then have "decides n (list_match (map (matches L n) ms)) (seqs (map (lang L) ms))" by (rule decides_list)
  then show ?case using returns_collect [where h = "\<lambda>s. s" and g = "\<lambda>cs s. s"] assms(2) by (simp add: decides_def short_name_def)
next
  case (Repeat e m repeatMin repeatMax)
  show ?case unfolding decides_def
  proof (intro allI impI)
    fix offset len assume l: "offset + len \<le> length (m_subBlocks n)"
    have p: "part n offset len = [] \<longleftrightarrow> len = 0" using l by (auto simp: part_def)
    have a: "returns (repeat_match (matches L n m) repeatMin repeatMax 0 offset len) (part n offset len \<in> repeats (lang L m) repeatMin repeatMax)"
      using decides_repeat [OF Repeat l, of repeatMin repeatMax 0] p by (cases "len = 0") (simp_all add: repeats_def)
    show "returns (matches L n (Repeat e m repeatMin repeatMax) offset len) (part n offset len \<in> lang L (Repeat e m repeatMin repeatMax))"
    proof (cases "0 = repeatMin \<and> 0 = len")
      case True
      then show ?thesis using p by (simp add: returns_def repeats_def)
    next
      case False
      then have "(0 = repeatMin \<and> 0 = len) = False" by blast
      then show ?thesis using returns_collect [OF a _ l, where h = "\<lambda>s. s" and g = "\<lambda>cs s. s"] assms(2)
        by (simp only: short_name_def matches.simps lang.simps if_False)
    qed
  qed
next
  case (Backref e k m)
  then have "decides n (list_match [matches L n m]) (seqs [lang L m])" by (intro decides_list) simp
  moreover have "seqs [lang L m] = lang L m" using copies_one [of "lang L m"] by simp
  ultimately show ?case using returns_collect [where h = "\<lambda>s. s(k := [])" and g = "\<lambda>cs s. s(k := cs)"] assms(2)
    by (simp add: decides_def short_name_def del: list_match.simps)
next
  case (ComponentSet e cs incl)
  then show ?case using decides_set [OF assms] by simp
qed


lemma matches_answer:
  assumes "lib_ok L" and "short_name n" and "offset + len \<le> length (m_subBlocks n)"
  shows "\<exists>s'. matches L n m offset len s = Inr (part n offset len \<in> lang L m, s')"
  using matches_lang [OF assms(1,2)] assms(3) by (auto simp: decides_def returns_def)

text \<open>A matcher of util/regex matches a part of a name if and only if the part is in its language: components one by one, a list of
patterns in sequence, a repetition as often as its bounds allow. It always returns, whatever the groups held before.\<close>

theorem Regex_matches_lang:
  assumes "lib_ok L" and "short_name n" and "offset + len \<le> length (m_subBlocks n)"
  shows "\<exists>s'. matches L n m offset len s = Inr (part n offset len \<in> lang L m, s')"
  using matches_answer [OF assms] .


section \<open>The languages of the documentation\<close>

text \<open>A repetition as it is usually understood. The matcher differs for the empty part only.\<close>

primrec usual :: "regex_lib \<Rightarrow> matcher \<Rightarrow> lang" where
  "usual L (PatternList e ms) = seqs (map (usual L) ms)"
| "usual L (Repeat e m repeatMin repeatMax) = (\<Union>k \<in> {repeatMin..repeatMax}. copies (usual L m) k)"
| "usual L (Backref e k m) = usual L m"
| "usual L (ComponentSet e cs isInclusion) = {[c] | c. isInclusion \<longleftrightarrow> (\<exists>m \<in> set cs. accepts L m c)}"

text \<open>No pattern that must be repeated matches the empty part, and no bounds are reversed.\<close>

primrec productive :: "regex_lib \<Rightarrow> matcher \<Rightarrow> bool" where
  "productive L (PatternList e ms) = list_all (productive L) ms"
| "productive L (Repeat e m repeatMin repeatMax) \<longleftrightarrow> productive L m \<and> repeatMin \<le> repeatMax \<and> (repeatMin = 0 \<or> [] \<notin> usual L m)"
| "productive L (Backref e k m) = productive L m"
| "productive L (ComponentSet e cs isInclusion) \<longleftrightarrow> True"

lemma lang_usual: "productive L m \<Longrightarrow> lang L m = usual L m"
proof (induction m)
  case (PatternList e ms)
  then have "map (lang L) ms = map (usual L) ms" by (simp add: list_all_iff)
  then show ?case by (simp only: lang.simps usual.simps)
next
  case (Repeat e m i j)
  show ?case
  proof (rule set_eqI)
    fix w
    show "w \<in> lang L (Repeat e m i j) \<longleftrightarrow> w \<in> usual L (Repeat e m i j)"
      using Repeat by (cases "w = []") (auto simp: repeats_def copies_Nil)
  qed
qed simp_all

text \<open>If no pattern that must be repeated matches nothing, the matchers accept what is usually understood by the expression.\<close>

theorem Regex_matches_usual:
  assumes "lib_ok L" and "short_name n" and "offset + len \<le> length (m_subBlocks n)" and "productive L m"
  shows "\<exists>s'. matches L n m offset len s = Inr (part n offset len \<in> usual L m, s')"
  using matches_answer [OF assms(1-3), of m s] unfolding lang_usual [OF assms(4)] .

end
