(* ===== verification/RegexSyntax.thy ===== *)
theory RegexSyntax
  imports RegexLang
begin

text \<open>
  The expressions of the documentation as a datatype, how they are written, and that the constructors of the
  matchers accept what is written and give matchers for what is meant.
\<close>

section \<open>Expressions\<close>

datatype rep = Once | Optional | OneOrMore | ZeroOrMore | Between nat nat | AtMost nat | AtLeast nat | Exactly nat

datatype pat =
    One bytes rep
  | AnyOf bool "bytes list" rep
  | Group "pat list" rep

definition number :: "nat \<Rightarrow> bytes" where
  "number n = str (dec n)"

fun show_rep :: "rep \<Rightarrow> bytes" where
  "show_rep Once = []"
| "show_rep Optional = [question_mark]"
| "show_rep OneOrMore = [plus_sign]"
| "show_rep ZeroOrMore = [asterisk]"
| "show_rep (Between m n) = [lbrace] @ number m @ [comma] @ number n @ [rbrace]"
| "show_rep (AtMost n) = [lbrace, comma] @ number n @ [rbrace]"
| "show_rep (AtLeast m) = [lbrace] @ number m @ [comma, rbrace]"
| "show_rep (Exactly n) = [lbrace] @ number n @ [rbrace]"

fun show_pat :: "pat \<Rightarrow> bytes" where
  "show_pat (One s r) = [langle] @ s @ [rangle] @ show_rep r"
| "show_pat (AnyOf incl ss r) = [lsquare] @ (if incl then [] else [caret]) @ concat (map (\<lambda>s. [langle] @ s @ [rangle]) ss)
     @ [rsquare] @ show_rep r"
| "show_pat (Group ps r) = [lround] @ concat (map show_pat ps) @ [rround] @ show_rep r"

fun bounds :: "rep \<Rightarrow> nat \<times> nat" where
  "bounds Once = (1, 1)"
| "bounds Optional = (0, 1)"
| "bounds OneOrMore = (1, MAX_REPETITIONS)"
| "bounds ZeroOrMore = (0, MAX_REPETITIONS)"
| "bounds (Between m n) = (m, n)"
| "bounds (AtMost n) = (0, n)"
| "bounds (AtLeast m) = (m, MAX_REPETITIONS)"
| "bounds (Exactly n) = (n, n)"

definition repeated :: "rep \<Rightarrow> lang \<Rightarrow> lang" where
  "repeated r A = (if r = Once then A else repeats A (fst (bounds r)) (snd (bounds r)))"

text \<open>Which component an expression for components accepts.\<close>

definition takes :: "regex_lib \<Rightarrow> bytes \<Rightarrow> block \<Rightarrow> bool" where
  "takes L s c \<longleftrightarrow> s = [] \<or> regex_match L s (Component_toUri c) \<noteq> None"

primrec sem :: "regex_lib \<Rightarrow> pat \<Rightarrow> lang" where
  "sem L (One s r) = repeated r {[c] | c. takes L s c}"
| "sem L (AnyOf incl ss r) = repeated r {[c] | c. incl \<longleftrightarrow> (\<exists>s \<in> set ss. takes L s c)}"
| "sem L (Group ps r) = repeated r (seqs (map (sem L) ps))"


section \<open>Brackets\<close>

text \<open>How many brackets are open behind a string, if at least one is open all the way.\<close>

primrec depth :: "byte \<Rightarrow> byte \<Rightarrow> nat \<Rightarrow> bytes \<Rightarrow> nat option" where
  "depth l r d [] = Some d"
| "depth l r d (c # s) = (let d = (if l = c then d + 1 else d) - (if r = c then 1 else 0) in if d = 0 then None else depth l r d s)"

definition balanced :: "byte \<Rightarrow> byte \<Rightarrow> bytes \<Rightarrow> bool" where
  "balanced l r s \<longleftrightarrow> depth l r 1 s = Some 1"

lemma depth_append: "depth l r d (s @ t) = (case depth l r d s of None \<Rightarrow> None | Some d \<Rightarrow> depth l r d t)"
  by (induction s arbitrary: d) (simp_all add: Let_def)

lemma depth_shift: "depth l r d s = Some d' \<Longrightarrow> 0 < d \<Longrightarrow> depth l r (d + k) s = Some (d' + k)"
proof (induction s arbitrary: d)
  case (Cons c s)
  let ?d = "(if l = c then d + 1 else d) - (if r = c then 1 else 0)"
  have d: "0 < ?d" "depth l r ?d s = Some d'" using Cons.prems(1) by (auto simp: Let_def split: if_splits)
  have "(if l = c then d + k + 1 else d + k) - (if r = c then 1 else 0) = ?d + k" using Cons.prems(2) by auto
  then show ?case using Cons.IH [OF d(2,1)] d(1) by (simp add: Let_def)
qed simp

lemma balanced_depth: "balanced l r s \<Longrightarrow> 0 < d \<Longrightarrow> depth l r d s = Some d"
  using depth_shift [of l r 1 s 1 "d - 1"] by (simp add: balanced_def)

lemma balanced_Nil [simp]: "balanced l r []"
  by (simp add: balanced_def)

lemma balanced_append [intro]: "balanced l r s \<Longrightarrow> balanced l r t \<Longrightarrow> balanced l r (s @ t)"
  by (simp add: balanced_def depth_append)

lemma balanced_free: "l \<notin> set s \<Longrightarrow> r \<notin> set s \<Longrightarrow> balanced l r s"
  unfolding balanced_def by (induction s) (auto simp: Let_def)

lemma balanced_around: "balanced l r s \<Longrightarrow> l \<noteq> r \<Longrightarrow> balanced l r (l # s @ [r])"
  using balanced_depth [of l r s 2] by (simp add: balanced_def depth_append Let_def numeral_2_eq_2)

lemma balanced_concat: "\<forall>s \<in> set ss. balanced l r s \<Longrightarrow> balanced l r (concat ss)"
  by (induction ss) auto

text \<open>The scan for a closing bracket.\<close>

lemma sub_pattern_scan:
  assumes "depth l r (lc - rc) s = Some d" and "rc < lc" and "e = pre @ s @ suf"
  shows "\<exists>lc' rc'. lc' - rc' = d \<and> rc' < lc' \<and> sub_pattern_end e l r (length pre) lc rc = sub_pattern_end e l r (length pre + length s) lc' rc'"
  using assms
proof (induction s arbitrary: lc rc pre)
  case Nil
  then show ?case by (intro exI [of _ lc] exI [of _ rc]) simp
next
  case (Cons c s)
  let ?lc = "if l = c then lc + 1 else lc" and ?rc = "if r = c then rc + 1 else rc"
  have "?lc - ?rc = (if l = c then (lc - rc) + 1 else lc - rc) - (if r = c then 1 else 0)" using Cons.prems(2) by auto
  then have d: "depth l r (?lc - ?rc) s = Some d" "?rc < ?lc" using Cons.prems(1) by (auto simp: Let_def split: if_splits)
  have "sub_pattern_end e l r (length pre) lc rc = sub_pattern_end e l r (length (pre @ [c])) ?lc ?rc"
    using Cons.prems(2,3) by (subst sub_pattern_end.simps) (auto simp: nth_append)
  then show ?case using Cons.IH [OF d, of "pre @ [c]"] Cons.prems(3) by auto
qed

lemma extractSubPattern_balanced:
  assumes "balanced l r s" and "l \<noteq> r"
  shows "extractSubPattern (pre @ s @ r # suf) l r (length pre) = Inr (length pre + length s + 1)"
proof -
  let ?e = "pre @ s @ r # suf"
  obtain lc rc where "lc - rc = 1" "rc < lc" "sub_pattern_end ?e l r (length pre) 1 0 = sub_pattern_end ?e l r (length pre + length s) lc rc"
    using sub_pattern_scan [of l r 1 0 s 1 ?e pre "r # suf"] assms(1) by (auto simp: balanced_def)
  moreover have "sub_pattern_end ?e l r (length pre + length s) lc rc = Inr (length pre + length s + 1)"
    using calculation(1,2) assms(2)
    by (subst sub_pattern_end.simps, subst sub_pattern_end.simps) (auto simp: nth_append)
  ultimately show ?thesis by (simp add: extractSubPattern_def)
qed

lemma component_end_scan:
  "sub_pattern_end e langle rangle i lc rc = Inr j \<Longrightarrow> 0 \<notin> set e \<Longrightarrow> component_end e i lc rc = Inr j"
proof (induction e langle rangle i lc rc rule: sub_pattern_end.induct)
  case (1 e i lc rc)
  show ?case
  proof (cases "rc < lc")
    case True
    then have i: "i < length e" "sub_pattern_end e langle rangle (i + 1) (if langle = e ! i then lc + 1 else lc) (if rangle = e ! i then rc + 1 else rc) = Inr j"
      using 1(2) by (simp_all add: sub_pattern_end.simps [of e langle rangle i] split: if_splits)
    have "e ! i \<noteq> 0" using 1(3) i(1) nth_mem by metis
    then show ?thesis using True i 1(1) 1(3)
      by (subst component_end.simps) (auto simp: char_at_def split: if_splits)
  next
    case False
    then show ?thesis using 1(2) by (subst component_end.simps) (simp add: sub_pattern_end.simps [of e langle rangle i])
  qed
qed

lemma extractComponent_balanced:
  assumes "balanced langle rangle s" and "0 \<notin> set (pre @ s @ rangle # suf)"
  shows "extractComponent (pre @ s @ rangle # suf) (length pre) = Inr (length pre + length s + 1)"
  using component_end_scan [of _ "length pre" 1 0] extractSubPattern_balanced [OF assms(1), of pre suf] assms(2)
  by (simp add: extractComponent_def extractSubPattern_def)



section \<open>Numbers and repetitions\<close>

lemma number_step: "number n = (if n < 10 then [48 + word_of_nat n] else number (n div 10) @ [48 + word_of_nat (n mod 10)])"
proof -
  have "word_of_nat (of_char (char_of (48 + k :: nat))) = 48 + (word_of_nat k :: byte)" if "k < 10" for k
    using that by simp
  then show ?thesis by (subst number_def, subst dec.simps) (simp add: number_def str_def)
qed

lemma digit_value: "k < 10 \<Longrightarrow> isdigit (48 + word_of_nat k) \<and> unat (48 + word_of_nat k :: byte) - 48 = k"
proof -
  assume k: "k < 10"
  then have "unat (48 + word_of_nat k :: byte) = 48 + k" by (simp add: unat_word_ariths unat_of_nat)
  then show ?thesis using k by (simp add: isdigit_def word_le_nat_alt)
qed

lemma number_digits: "digits (number n)"
proof (induction n rule: less_induct)
  case (less n)
  then show ?case using digit_value [of "n mod 10"] digit_value [of n] less [of "n div 10"]
    by (subst number_step) (simp add: digits_def)
qed

lemma decimal_snoc: "decimal (s @ [c]) = 10 * decimal s + (unat c - 48)"
  by (simp add: decimal_def)

lemma decimal_number: "decimal (number n) = n"
proof (induction n rule: less_induct)
  case (less n)
  show ?case
  proof (cases "n < 10")
    case True
    then show ?thesis using digit_value [of n] by (subst number_step) (simp add: decimal_def)
  next
    case False
    then have "decimal (number n) = 10 * decimal (number (n div 10)) + (unat (48 + word_of_nat (n mod 10) :: byte) - 48)"
      by (subst number_step) (simp add: decimal_snoc)
    then show ?thesis using False less [of "n div 10"] digit_value [of "n mod 10"] by simp
  qed
qed

lemma number_set: "c \<in> set (number n) \<Longrightarrow> isdigit c"
  using number_digits by (auto simp: digits_def list_all_iff)

lemma not_digits: "\<not> isdigit comma" "\<not> isdigit rbrace" "\<not> isdigit lbrace"
  by (simp_all add: isdigit_def word_le_nat_alt)

lemma number_nonempty: "number n \<noteq> []" "hd (number n) \<noteq> comma" "last (number n) \<noteq> comma"
proof -
  show n: "number n \<noteq> []" using number_digits [of n] by (simp add: digits_def)
  show "hd (number n) \<noteq> comma" "last (number n) \<noteq> comma" using number_set [of "hd (number n)" n] number_set [of "last (number n)" n] not_digits(1) n by auto
qed

lemma atoi_number: "n < 2 ^ 31 \<Longrightarrow> s = [] \<or> \<not> isdigit (hd s) \<Longrightarrow> atoi (number n @ s) = Inr n"
proof -
  assume "n < 2 ^ 31" "s = [] \<or> \<not> isdigit (hd s)"
  moreover have "takeWhile isdigit (number n @ s) = number n" if "s = [] \<or> \<not> isdigit (hd s)"
    using that number_set by (cases s) (auto simp: takeWhile_append takeWhile_eq_all_conv)
  ultimately show ?thesis by (simp add: atoi_def decimal_number)
qed

lemma number_comma: "takeWhile (\<lambda>c. c \<noteq> comma) (number n @ comma # s) = number n" "dropWhile (\<lambda>c. c \<noteq> comma) (number n @ comma # s) = comma # s"
    "takeWhile (\<lambda>c. c \<noteq> comma) (number n) = number n" "dropWhile (\<lambda>c. c \<noteq> comma) (number n) = []"
  using number_set [of _ n] not_digits(1) by (auto simp: takeWhile_append dropWhile_append)

fun rep_ok :: "rep \<Rightarrow> bool" where
  "rep_ok (Between m n) \<longleftrightarrow> m \<le> n \<and> n < 2 ^ 31"
| "rep_ok (AtMost n) \<longleftrightarrow> n < 2 ^ 31"
| "rep_ok (AtLeast m) \<longleftrightarrow> m < 2 ^ 31"
| "rep_ok (Exactly n) \<longleftrightarrow> n < 2 ^ 31"
| "rep_ok _ \<longleftrightarrow> True"

definition braces :: "bytes \<Rightarrow> bytes" where
  "braces b = lbrace # b @ [rbrace]"

lemma braces_sel: "braced (braces b)" "butlast (tl (braces b)) = b" "length (braces b) = length b + 2"
  by (simp_all add: braces_def braced_def)

text \<open>In the braces: two numbers, one on either side of the comma, or one alone.\<close>

lemma formats:
  "between_format (braces (number m @ comma # number n))"
  "\<not> between_format (braces (comma # number n))" "at_most_format (braces (comma # number n))"
  "\<not> between_format (braces (number m @ [comma]))" "\<not> at_most_format (braces (number m @ [comma]))"
  "at_least_format (braces (number m @ [comma]))"
  "\<not> between_format (braces (number m))" "\<not> at_most_format (braces (number m))" "\<not> at_least_format (braces (number m))"
  "exactly_format (braces (number m))"
  by (simp_all add: between_format_def at_most_format_def at_least_format_def exactly_format_def Let_def braces_sel number_comma
      number_nonempty number_digits butlast_append) (simp_all add: digits_def)

lemma braces_comma: "length (takeWhile (\<lambda>c. c \<noteq> comma) (braces (number m @ comma # s))) = length (number m) + 1"
    "length (takeWhile (\<lambda>c. c \<noteq> comma) (braces (comma # s))) = 1"
  by (simp_all add: braces_def number_comma)

lemma braces_parts:
  "substr (braces (number m @ comma # s)) 1 (length (number m)) = number m"
  "substr (braces (number m @ comma # s)) (length (number m) + 2) (length s) = s"
  "substr (braces (comma # s)) 2 (length s) = s"
  "substr (braces (number m @ [comma])) 1 (length (number m) + 1) = number m @ [comma]"
  "substr (braces (number m)) 1 (length (number m) + 1) = number m @ [rbrace]"
  by (simp_all add: braces_def substr_def)

lemma parse_braces:
  fixes b rs
  defines "rs \<equiv> braces b"
  shows "parseRepetition (p @ rs) (length p) =
    bindE
      (if between_format rs then
         bindE (atoi (substr rs 1 (length (takeWhile (\<lambda>c. c \<noteq> comma) rs) - 1))) (\<lambda>min.
         bindE (atoi (substr rs (length (takeWhile (\<lambda>c. c \<noteq> comma) rs) + 1)
           (length rs - length (takeWhile (\<lambda>c. c \<noteq> comma) rs) - 2))) (\<lambda>max. Inr (min, max)))
       else if at_most_format rs then
         bindE (atoi (substr rs (length (takeWhile (\<lambda>c. c \<noteq> comma) rs) + 1)
           (length rs - length (takeWhile (\<lambda>c. c \<noteq> comma) rs) - 2))) (\<lambda>max. Inr (0, max))
       else if at_least_format rs then
         bindE (atoi (substr rs 1 (length (takeWhile (\<lambda>c. c \<noteq> comma) rs)))) (\<lambda>min. Inr (min, MAX_REPETITIONS))
       else if exactly_format rs then bindE (atoi (substr rs 1 (length rs - 1))) (\<lambda>min. Inr (min, min))
       else Inl (RegexError (''Error: RegexRepeatMatcher.ParseRepetition(): Unrecognized format '' @ text_of (p @ rs))))
      (\<lambda>(min, max).
         if min > MAX_REPETITIONS \<or> max > MAX_REPETITIONS \<or> min > max
         then Inl (RegexError (''Error: RegexRepeatMatcher.ParseRepetition(): Wrong number '' @ text_of (p @ rs)))
         else Inr (min, max))"
proof -
  have "length (p @ rs) \<noteq> length p" "length (p @ rs) \<noteq> length p + 1" by (simp_all add: rs_def braces_sel)
  moreover have "substr (p @ rs) (length p) (length (p @ rs) - length p) = rs" by (simp add: substr_def)
  ultimately show ?thesis by (simp only: parseRepetition_def Let_def if_False)
qed

lemma parse_show_rep:
  assumes "rep_ok r"
  shows "parseRepetition (p @ show_rep r) (length p) = Inr (bounds r)"
proof (cases r)
  case (Between m n)
  have "show_rep r = braces (number m @ comma # number n)" using Between by (simp add: braces_def)
  then show ?thesis using Between assms atoi_number [of m "[]"] atoi_number [of n "[]"]
    by (simp add: parse_braces formats braces_comma braces_sel braces_parts [simplified] MAX_REPETITIONS_def)
next
  case (AtMost n)
  have "show_rep r = braces (comma # number n)" using AtMost by (simp add: braces_def)
  then show ?thesis using AtMost assms atoi_number [of n "[]"]
    by (simp add: parse_braces formats braces_comma braces_sel braces_parts [simplified] braces_parts(3) [unfolded numeral_2_eq_2] MAX_REPETITIONS_def)
next
  case (AtLeast m)
  have "show_rep r = braces (number m @ [comma])" using AtLeast by (simp add: braces_def)
  then show ?thesis using AtLeast assms atoi_number [of m "[comma]"] not_digits
    by (simp add: parse_braces formats braces_comma braces_sel braces_parts [simplified] MAX_REPETITIONS_def)
next
  case (Exactly n)
  have "show_rep r = braces (number n)" using Exactly by (simp add: braces_def)
  then show ?thesis using Exactly assms atoi_number [of n "[rbrace]"] not_digits
    by (simp add: parse_braces formats braces_comma braces_sel braces_parts [simplified] MAX_REPETITIONS_def)
qed (simp_all add: parseRepetition_def)



section \<open>Compiling what is written\<close>

text \<open>An expression for components: its brackets are balanced and the library accepts it.\<close>

definition expr_ok :: "regex_lib \<Rightarrow> bytes \<Rightarrow> bool" where
  "expr_ok L s \<longleftrightarrow> balanced lround rround s \<and> balanced langle rangle s \<and> balanced lsquare rsquare s \<and> 0 \<notin> set s \<and> mark_count L s \<noteq> None"

primrec pat_ok :: "regex_lib \<Rightarrow> pat \<Rightarrow> bool" where
  "pat_ok L (One s r) \<longleftrightarrow> expr_ok L s \<and> rep_ok r"
| "pat_ok L (AnyOf incl ss r) \<longleftrightarrow> list_all (expr_ok L) ss \<and> rep_ok r"
| "pat_ok L (Group ps r) \<longleftrightarrow> list_all (pat_ok L) ps \<and> rep_ok r"

definition brackets :: bytes where
  "brackets = [lround, rround, langle, rangle, lsquare, rsquare]"

lemma show_rep_free: "c \<in> set (show_rep r) \<Longrightarrow> c \<notin> set brackets \<and> c \<noteq> 0"
proof -
  have n: "c \<in> set (number n) \<Longrightarrow> c \<notin> set brackets \<and> c \<noteq> 0" for n
    using number_set [of c n] by (auto simp: brackets_def isdigit_def word_le_nat_alt)
  show "c \<in> set (show_rep r) \<Longrightarrow> ?thesis" using n by (cases r) (auto simp: brackets_def)
qed

lemma show_rep_balanced: "l \<in> set brackets \<Longrightarrow> r \<in> set brackets \<Longrightarrow> balanced l r (show_rep q)"
  using show_rep_free by (intro balanced_free) blast+

lemma around_other: "balanced l r s \<Longrightarrow> a \<notin> {l, r} \<Longrightarrow> b \<notin> {l, r} \<Longrightarrow> balanced l r (a # s @ [b])"
  using balanced_append [of l r "[a]" "s @ [b]"] balanced_append [of l r s "[b]"] balanced_free [of l "[a]" r] balanced_free [of l "[b]" r]
  by auto

lemma show_balanced:
  assumes "pat_ok L p" and "(l, r) \<in> {(lround, rround), (langle, rangle), (lsquare, rsquare)}"
  shows "balanced l r (show_pat p)"
proof -
  have b: "l \<in> set brackets" "r \<in> set brackets" using assms(2) by (auto simp: brackets_def)
  have around: "balanced l r (a # s @ [b])"
    if "balanced l r s" "(a, b) \<in> {(lround, rround), (langle, rangle), (lsquare, rsquare)}" for a b s
    using that assms(2) balanced_around [of l r s] around_other [of l r s] by auto
  have e: "balanced l r s" if "expr_ok L s" for s using that assms(2) by (auto simp: expr_ok_def)
  have q: "balanced l r (s @ show_rep x)" if "balanced l r s" for s x
    using that show_rep_balanced [OF b] by blast
  show ?thesis using assms(1)
  proof (induction p)
    case (One s x)
    then show ?case using q [OF around [OF e, of s langle rangle], of x] by simp
  next
    case (AnyOf incl ss x)
    have "balanced l r (concat (map (\<lambda>s. langle # s @ [rangle]) ss))"
      using AnyOf around [OF e] by (intro balanced_concat) (auto simp: list_all_iff)
    moreover have "balanced l r [caret]" using assms(2) by (intro balanced_free) auto
    ultimately have B: "balanced l r ((if incl then [] else [caret]) @ concat (map (\<lambda>s. langle # s @ [rangle]) ss))"
      using balanced_append [of l r "[caret]"] by simp
    show ?case using q [OF around [OF B, of lsquare rsquare], of x] by (cases incl) simp_all
  next
    case (Group ps x)
    then have "balanced l r (concat (map show_pat ps))" by (intro balanced_concat) (auto simp: list_all_iff)
    then show ?case using q [OF around, of _ lround rround x] by simp
  qed
qed

lemma show_no_zero: "pat_ok L p \<Longrightarrow> 0 \<notin> set (show_pat p)"
  using show_rep_free by (induction p) (auto simp: expr_ok_def list_all_iff)

lemma rep_shape: "r \<in> {Once, Optional, OneOrMore, ZeroOrMore} \<or> (\<exists>b. show_rep r = lbrace # b @ [rbrace] \<and> rbrace \<notin> set b)"
proof -
  have n: "rbrace \<notin> set (number n)" for n using number_set not_digits by blast
  show ?thesis
  proof (cases r)
    case (Between m k)
    then show ?thesis using n by (intro disjI2 exI [of _ "number m @ comma # number k"]) simp
  next
    case (AtMost k)
    then show ?thesis using n by (intro disjI2 exI [of _ "comma # number k"]) simp
  next
    case (AtLeast m)
    then show ?thesis using n by (intro disjI2 exI [of _ "number m @ [comma]"]) simp
  next
    case (Exactly k)
    then show ?thesis using n by (intro disjI2 exI [of _ "number k"]) simp
  qed simp_all
qed

lemma extractRepetition_show:
  assumes "t = [] \<or> hd t \<in> {lround, langle, lsquare}"
  shows "extractRepetition (p @ show_rep r @ t) (length p) = Inr (length p + length (show_rep r))"
proof -
  have w: "takeWhile (\<lambda>c. c \<noteq> rbrace) (b @ rbrace # t) = b" if "rbrace \<notin> set b" for b t
    using that by (auto simp: takeWhile_append)
  show ?thesis
  proof (cases "\<exists>b. show_rep r = lbrace # b @ [rbrace] \<and> rbrace \<notin> set b")
    case True
    then obtain b where b: "show_rep r = lbrace # b @ [rbrace]" "rbrace \<notin> set b" by blast
    have "takeWhile (\<lambda>c. c \<noteq> rbrace) (lbrace # b @ rbrace # t) = lbrace # b" using w [of "lbrace # b"] b(2) by simp
    then show ?thesis using b(1) by (simp add: extractRepetition_def Let_def)
  next
    case False
    then have "r \<in> {Once, Optional, OneOrMore, ZeroOrMore}" using rep_shape [of r] by blast
    then consider "r = Once" | "show_rep r \<in> {[question_mark], [plus_sign], [asterisk]}" by auto
    then show ?thesis
    proof cases
      case 1
      then show ?thesis using assms by (cases t) (auto simp: extractRepetition_def)
    next
      case 2
      then obtain c where "show_rep r = [c]" "c \<in> {plus_sign, question_mark, asterisk}" by auto
      then show ?thesis by (simp add: extractRepetition_def)
    qed
  qed
qed


text \<open>Every address of a component is visited.\<close>

definition addresses_ok :: "regex_lib \<Rightarrow> bool" where
  "addresses_ok L \<longleftrightarrow> (\<forall>cs. set (addresses L cs) = set cs)"

lemma accepts_takes: "accepts L m c = takes L (cm_expr m) c"
  by (simp add: accepts_def takes_def)

lemma component_compiled:
  "expr_ok L s \<Longrightarrow> \<exists>m k'. RegexComponentMatcher L s k = Inr (m, k') \<and> cm_expr m = s"
  by (auto simp: RegexComponentMatcher_def expr_ok_def)

lemma single_compiled:
  assumes "expr_ok L s" and "addresses_ok L"
  shows "\<exists>m k'. RegexComponentSetMatcher L (langle # s @ [rangle]) k = Inr (m, k') \<and> lang L m = {[c] | c. takes L s c}"
proof -
  let ?e = "langle # s @ [rangle]"
  obtain m k' where m: "RegexComponentMatcher L s k = Inr (m, k')" "cm_expr m = s" using component_compiled [OF assms(1)] by blast
  have "extractComponent ?e 1 = Inr (length s + 2)"
    using extractComponent_balanced [of s "[langle]" "[]"] assms(1) by (simp add: expr_ok_def)
  then have "compileSingleComponent L ?e k = Inr ([m], k')" using m(1) by (simp add: compileSingleComponent_def substr_def)
  then have "RegexComponentSetMatcher L ?e k = Inr (ComponentSet ?e (addresses L [m]) True, k')"
    by (simp add: RegexComponentSetMatcher_def)
  moreover have "set (addresses L [m]) = {m}" using assms(2) by (simp add: addresses_ok_def)
  ultimately show ?thesis using m(2) by (auto simp: accepts_takes)
qed

lemma multiple_compiled:
  assumes "list_all (expr_ok L) ss" and "0 \<notin> set p" and "0 \<notin> set q"
    and "e = p @ concat (map (\<lambda>s. langle # s @ [rangle]) ss) @ q"
  shows "\<exists>cs k'. compileMultipleComponents L e (length p) (length e - length q) k = Inr (cs, k') \<and> map cm_expr cs = ss"
  using assms
proof (induction ss arbitrary: p k)
  case Nil
  then show ?case by (simp add: compileMultipleComponents.simps)
next
  case (Cons s ss)
  let ?t = "concat (map (\<lambda>s. langle # s @ [rangle]) ss) @ q"
  have e: "e = (p @ [langle]) @ s @ rangle # ?t" "e = (p @ langle # s @ [rangle]) @ ?t" using Cons.prems(4) by simp_all
  have z: "0 \<notin> set e" using Cons.prems by (auto simp: expr_ok_def list_all_iff)
  have "extractComponent e (length (p @ [langle])) = Inr (length (p @ [langle]) + length s + 1)"
    unfolding e(1) by (rule extractComponent_balanced) (use Cons.prems(1) z e(1) in \<open>auto simp: expr_ok_def\<close>)
  then have x: "extractComponent e (length p + 1) = Inr (length (p @ langle # s @ [rangle]))" by simp
  obtain m k' where m: "RegexComponentMatcher L s k = Inr (m, k')" "cm_expr m = s"
    using component_compiled [of L s k] Cons.prems(1) by auto
  obtain cs k'' where cs: "compileMultipleComponents L e (length (p @ langle # s @ [rangle])) (length e - length q) k' = Inr (cs, k'')"
      "map cm_expr cs = ss"
    using Cons.IH [of "p @ langle # s @ [rangle]" k'] Cons.prems e(2) by (auto simp: expr_ok_def)
  have "length p < length e - length q" "char_at e (length p) = langle" "substr e (length p + 1) (length s) = s"
    using e(1) by (simp_all add: char_at_def nth_append substr_def)
  then have "compileMultipleComponents L e (length p) (length e - length q) k = Inr (m # cs, k'')"
    using x m(1) cs(1) by (subst compileMultipleComponents.simps) simp
  then show ?case using m(2) cs(2) by simp
qed

lemma any_compiled:
  assumes "list_all (expr_ok L) ss" and "addresses_ok L"
    and "e = lsquare # (if incl then [] else [caret]) @ concat (map (\<lambda>s. langle # s @ [rangle]) ss) @ [rsquare]"
  shows "\<exists>m k'. RegexComponentSetMatcher L e k = Inr (m, k') \<and> lang L m = {[c] | c. incl \<longleftrightarrow> (\<exists>s \<in> set ss. takes L s c)}"
proof -
  let ?p = "lsquare # (if incl then [] else [caret])"
  obtain cs k' where cs: "compileMultipleComponents L e (length ?p) (length e - 1) k = Inr (cs, k')" "map cm_expr cs = ss"
    using multiple_compiled [OF assms(1), of ?p "[rsquare]" e k] assms(3) by (cases incl) auto
  have "length e \<ge> 2" "e ! 0 = lsquare" "e ! (length e - 1) = rsquare" using assms(3) by (auto simp: nth_append)
  moreover have "e ! 1 = caret \<longleftrightarrow> \<not> incl" using assms(3) by (cases ss) (auto simp: nth_append)
  ultimately have "RegexComponentSetMatcher L e k = Inr (ComponentSet e (addresses L cs) incl, k')"
    using cs(1) by (cases incl) (simp_all add: RegexComponentSetMatcher_def Let_def flip: numeral_2_eq_2)
  moreover have "(\<exists>m \<in> set (addresses L cs). accepts L m c) \<longleftrightarrow> (\<exists>s \<in> set ss. takes L s c)" for c
    using assms(2) cs(2) by (auto simp: addresses_ok_def accepts_takes)
  ultimately show ?thesis by auto
qed

text \<open>A pattern with its repetition.\<close>

lemma repeat_compiled:
  assumes "(if hd b = lround then RegexBackrefMatcher patterns b k else RegexComponentSetMatcher L b k) = Inr (m, k')" and "b \<noteq> []" and "rep_ok r"
  shows "RegexRepeatMatcher patterns L (b @ show_rep r) (length b) k = Inr (Repeat (b @ show_rep r) m (fst (bounds r)) (snd (bounds r)), k')"
proof -
  have c: "char_at (b @ show_rep r) 0 = hd b" "substr (b @ show_rep r) 0 (length b) = b"
    using assms(2) by (simp_all add: char_at_def substr_def nth_append hd_conv_nth)
  show ?thesis
    by (simp only: RegexRepeatMatcher_def c assms(1) parse_show_rep [OF assms(3)]) (simp add: split_beta)
qed

lemma repeats_once: "[] \<notin> A \<Longrightarrow> repeats A (Suc 0) (Suc 0) = A"
proof -
  have "(\<exists>k. Suc 0 \<le> k \<and> k \<le> Suc 0 \<and> w \<in> copies A k) \<longleftrightarrow> w \<in> A" for w
    using copies_one [of A] le_antisym by blast
  then show "[] \<notin> A \<Longrightarrow> ?thesis" by (simp add: repeats_def set_eq_iff)
qed

lemma set_balanced:
  assumes "list_all (expr_ok L) ss"
  shows "balanced lsquare rsquare ((if incl then [] else [caret]) @ concat (map (\<lambda>s. langle # s @ [rangle]) ss))"
proof -
  have "balanced lsquare rsquare (langle # s @ [rangle])" if "s \<in> set ss" for s
    using that assms by (intro around_other) (auto simp: expr_ok_def list_all_iff)
  then have "balanced lsquare rsquare (concat (map (\<lambda>s. langle # s @ [rangle]) ss))" by (intro balanced_concat) auto
  then show ?thesis using balanced_append [OF balanced_free, of lsquare "[caret]" rsquare] by auto
qed

text \<open>What the constructors make of a pattern that starts at a position of an expression.\<close>

definition compiles :: "regex_lib \<Rightarrow> pat \<Rightarrow> bool" where
  "compiles L p \<longleftrightarrow> (\<forall>pre t k. (t = [] \<or> hd t \<in> {lround, langle, lsquare}) \<longrightarrow>
     (\<exists>m k'. extractPattern (RegexPatternListMatcher L) L (pre @ show_pat p @ t) (length pre) k
       = Inr (m, length pre + length (show_pat p), k') \<and> lang L m = sem L p))"

lemma show_pat_hd: "show_pat p \<noteq> [] \<and> hd (show_pat p) \<in> {lround, langle, lsquare}"
  by (cases p) auto

lemma show_pats_hd: "concat (map show_pat ps) = [] \<or> hd (concat (map show_pat ps)) \<in> {lround, langle, lsquare}"
  using show_pat_hd by (cases ps) (auto simp: hd_append)

lemma compilesD:
  "compiles L p \<Longrightarrow> t = [] \<or> hd t \<in> {lround, langle, lsquare} \<Longrightarrow>
     \<exists>m k'. extractPattern (RegexPatternListMatcher L) L (pre @ show_pat p @ t) (length pre) k
       = Inr (m, length pre + length (show_pat p), k') \<and> lang L m = sem L p"
  unfolding compiles_def by blast

lemma patterns_compiled:
  assumes "\<forall>p \<in> set ps. compiles L p" and "e = pre @ concat (map show_pat ps)"
  shows "\<exists>ms k'. pattern_loop (RegexPatternListMatcher L) L e (length pre) k = Inr (ms, k') \<and> map (lang L) ms = map (sem L) ps"
  using assms
proof (induction ps arbitrary: pre k)
  case Nil
  then show ?case by (simp add: pattern_loop.simps)
next
  case (Cons p ps)
  let ?t = "concat (map show_pat ps)"
  have e: "e = pre @ show_pat p @ ?t" using Cons.prems(2) by simp
  obtain m k' where m: "extractPattern (RegexPatternListMatcher L) L e (length pre) k = Inr (m, length pre + length (show_pat p), k')"
      "lang L m = sem L p"
    using compilesD [OF _ show_pats_hd, of L p pre ps k] Cons.prems(1) e by auto
  obtain ms k'' where ms: "pattern_loop (RegexPatternListMatcher L) L e (length (pre @ show_pat p)) k' = Inr (ms, k'')"
      "map (lang L) ms = map (sem L) ps"
    using Cons.IH [of "pre @ show_pat p" k'] Cons.prems by auto
  have "length pre < length e" using e show_pat_hd [of p] by simp
  then have "pattern_loop (RegexPatternListMatcher L) L e (length pre) k = Inr (m # ms, k'')"
    using m(1) ms(1) by (subst pattern_loop.simps) simp
  then show ?case using m(2) ms(2) by simp
qed

lemma list_compiled:
  assumes "\<forall>p \<in> set ps. compiles L p"
  shows "\<exists>m k'. RegexPatternListMatcher L (concat (map show_pat ps)) k = Inr (m, k') \<and> lang L m = seqs (map (sem L) ps)"
proof -
  obtain ms k' where m: "pattern_loop (RegexPatternListMatcher L) L (concat (map show_pat ps)) 0 k = Inr (ms, k')" "map (lang L) ms = map (sem L) ps"
    using patterns_compiled [OF assms, of "concat (map show_pat ps)" "[]" k] by auto
  show ?thesis by (subst RegexPatternListMatcher.simps) (simp add: m)
qed

lemma group_compiled:
  assumes "\<forall>p \<in> set ps. compiles L p"
  shows "\<exists>m k'. RegexBackrefMatcher (RegexPatternListMatcher L) (lround # concat (map show_pat ps) @ [rround]) k = Inr (m, k')
    \<and> lang L m = seqs (map (sem L) ps)"
proof -
  obtain m k' where "RegexPatternListMatcher L (concat (map show_pat ps)) (k + 1) = Inr (m, k')" "lang L m = seqs (map (sem L) ps)"
    using list_compiled [OF assms] by blast
  then show ?thesis by (simp add: RegexBackrefMatcher_def Let_def substr_def nth_append)
qed

text \<open>A bracketed body with a repetition behind it.\<close>

lemma extract_bracketed:
  assumes "balanced (hd b) r s" and "b = l # s @ [r]" and "(l, r) \<in> {(lround, rround), (langle, rangle), (lsquare, rsquare)}"
    and "t = [] \<or> hd t \<in> {lround, langle, lsquare}"
    and "(if l = lround then RegexBackrefMatcher patterns b k else RegexComponentSetMatcher L b k) = Inr (m, k')" and "rep_ok q"
  shows "extractPattern patterns L (pre @ b @ show_rep q @ t) (length pre) k =
    Inr (if l = lround \<and> q = Once then m else Repeat (b @ show_rep q) m (fst (bounds q)) (snd (bounds q)),
      length pre + length (b @ show_rep q), k')"
proof -
  let ?e = "pre @ b @ show_rep q @ t"
  have s: "extractSubPattern ?e l r (length pre + 1) = Inr (length pre + length b)"
    using extractSubPattern_balanced [of l r s "pre @ [l]" "show_rep q @ t"] assms(1-3) by auto
  have x: "extractRepetition ?e (length pre + length b) = Inr (length pre + length b + length (show_rep q))"
    using extractRepetition_show [OF assms(4), of "pre @ b" q] by simp
  have n: "show_rep q = [] \<longleftrightarrow> q = Once" by (cases q) auto
  have p: "substr ?e (length pre) (length b + length (show_rep q)) = b @ show_rep q" by (simp add: substr_def)
  have R: "RegexRepeatMatcher patterns L (b @ show_rep q) (length b) k = Inr (Repeat (b @ show_rep q) m (fst (bounds q)) (snd (bounds q)), k')"
    by (rule repeat_compiled) (use assms(2,5,6) in simp_all)
  have h: "?e ! length pre = l" using assms(2) by (simp add: nth_append)
  have B: "RegexBackrefMatcher patterns b k = Inr (m, k')" if "l = lround" using assms(5) that by simp
  show ?thesis
  proof (cases "l = lround \<and> q = Once")
    case True
    then show ?thesis using s x p h B assms(3) by (simp add: extractPattern_def)
  next
    case False
    then show ?thesis using s x p h R n assms(3) by (auto simp: extractPattern_def)
  qed
qed

lemma sem_repeated:
  assumes "lang L m = A" and "q = Once \<Longrightarrow> \<not> bare \<Longrightarrow> [] \<notin> A"
  shows "lang L (if bare \<and> q = Once then m else Repeat e m (fst (bounds q)) (snd (bounds q))) = repeated q A"
  using assms repeats_once [of A] by (auto simp: repeated_def)

lemma pat_compiled: "pat_ok L p \<Longrightarrow> addresses_ok L \<Longrightarrow> compiles L p"
proof (induction p)
  case (One s q)
  show ?case unfolding compiles_def
  proof (intro allI impI)
    fix pre t :: bytes and k assume t: "t = [] \<or> hd t \<in> {lround, langle, lsquare}"
    let ?b = "langle # s @ [rangle]"
    obtain m k' where m: "RegexComponentSetMatcher L ?b k = Inr (m, k')" "lang L m = {[c] | c. takes L s c}"
      using single_compiled [of L s k] One by auto
    have "balanced (hd ?b) rangle s" using One.prems(1) by (simp add: expr_ok_def)
    from extract_bracketed [OF this refl _ t, of "RegexPatternListMatcher L" k L m k' q pre]
    show "\<exists>m k'. extractPattern (RegexPatternListMatcher L) L (pre @ show_pat (One s q) @ t) (length pre) k
       = Inr (m, length pre + length (show_pat (One s q)), k') \<and> lang L m = sem L (One s q)"
      using m One.prems(1) sem_repeated [OF m(2), of q False] by simp
  qed
next
  case (AnyOf incl ss q)
  show ?case unfolding compiles_def
  proof (intro allI impI)
    fix pre t :: bytes and k assume t: "t = [] \<or> hd t \<in> {lround, langle, lsquare}"
    let ?s = "(if incl then [] else [caret]) @ concat (map (\<lambda>s. langle # s @ [rangle]) ss)"
    let ?b = "lsquare # ?s @ [rsquare]"
    obtain m k' where m: "RegexComponentSetMatcher L ?b k = Inr (m, k')" "lang L m = {[c] | c. incl \<longleftrightarrow> (\<exists>s \<in> set ss. takes L s c)}"
      using any_compiled [of L ss ?b incl k] AnyOf by auto
    have "balanced (hd ?b) rsquare ?s" using set_balanced [of L ss incl] AnyOf.prems(1) by simp
    from extract_bracketed [OF this refl _ t, of "RegexPatternListMatcher L" k L m k' q pre]
    show "\<exists>m k'. extractPattern (RegexPatternListMatcher L) L (pre @ show_pat (AnyOf incl ss q) @ t) (length pre) k
       = Inr (m, length pre + length (show_pat (AnyOf incl ss q)), k') \<and> lang L m = sem L (AnyOf incl ss q)"
      using m AnyOf.prems(1) sem_repeated [OF m(2), of q False] by simp
  qed
next
  case (Group ps q)
  show ?case unfolding compiles_def
  proof (intro allI impI)
    fix pre t :: bytes and k assume t: "t = [] \<or> hd t \<in> {lround, langle, lsquare}"
    let ?s = "concat (map show_pat ps)"
    let ?b = "lround # ?s @ [rround]"
    have "\<forall>p \<in> set ps. compiles L p" using Group by (simp add: list_all_iff)
    then obtain m k' where m: "RegexBackrefMatcher (RegexPatternListMatcher L) ?b k = Inr (m, k')" "lang L m = seqs (map (sem L) ps)"
      using group_compiled by blast
    have "balanced (hd ?b) rround ?s"
      using show_balanced [of L _ lround rround] Group.prems(1) by (auto simp: list_all_iff intro!: balanced_concat)
    from extract_bracketed [OF this refl _ t, of "RegexPatternListMatcher L" k L m k' q pre]
    show "\<exists>m k'. extractPattern (RegexPatternListMatcher L) L (pre @ show_pat (Group ps q) @ t) (length pre) k
       = Inr (m, length pre + length (show_pat (Group ps q)), k') \<and> lang L m = sem L (Group ps q)"
      using m Group.prems(1) sem_repeated [OF m(2), of q True] by simp
  qed
qed

text \<open>Every expression of the documented syntax compiles, and its matcher matches a part of a name if and only if the part is in
the language of the expression.\<close>

theorem Regex_compiles:
  assumes "lib_ok L" and "addresses_ok L" and "list_all (pat_ok L) ps"
    and "short_name n" and "offset + len \<le> length (m_subBlocks n)"
  shows "\<exists>m k s'. RegexPatternListMatcher L (concat (map show_pat ps)) 0 = Inr (m, k) \<and>
    matches L n m offset len s = Inr (part n offset len \<in> seqs (map (sem L) ps), s')"
proof -
  have "\<forall>p \<in> set ps. compiles L p" using pat_compiled [OF _ assms(2)] assms(3) by (simp add: list_all_iff)
  then show ?thesis using list_compiled [of ps L 0] matches_answer [OF assms(1,4,5)] by metis
qed

end
