(* ===== verification/RegexTop.thy ===== *)
theory RegexTop
  imports RegexSyntax
begin

text \<open>
  The matcher an application uses (util/regex/regex-top-matcher.cpp) and the filters with an expression
  (interest-filter.cpp): what the anchors mean, the matcher made from a name, and the expansion of groups.
\<close>

section \<open>Anchors\<close>

definition any_pat :: pat where
  "any_pat = One [46, asterisk] ZeroOrMore"

text \<open>An expression with its anchors.\<close>

definition top_expr :: "bool \<Rightarrow> pat list \<Rightarrow> bool \<Rightarrow> bytes" where
  "top_expr a ps z = (if a then [caret] else []) @ concat (map show_pat ps) @ (if z then [dollar] else [])"

text \<open>The library accepts the expression that stands for any component, and it matches every component.\<close>

definition dots_ok :: "regex_lib \<Rightarrow> bool" where
  "dots_ok L \<longleftrightarrow> mark_count L [46, asterisk] \<noteq> None \<and> (\<forall>c. takes L [46, asterisk] c)"

lemma anything_show: "anything = show_pat any_pat"
  by (simp add: anything_def any_pat_def)

lemma any_pat_ok: "dots_ok L \<Longrightarrow> pat_ok L any_pat"
  by (auto simp: dots_ok_def any_pat_def expr_ok_def intro!: balanced_free)

lemma copies_any: "copies {w. length w = Suc 0} k = {w. length w = k}"
proof (induction k)
  case (Suc k)
  have "(\<exists>t \<le> n. min n t = Suc 0 \<and> n - t = k) \<longleftrightarrow> n = Suc k" for n by (auto intro: exI [of _ "Suc 0"])
  then show ?case using Suc by (simp add: set_eq_iff in_seq)
qed simp

lemma sem_any: "dots_ok L \<Longrightarrow> length w < 2 ^ 64 \<Longrightarrow> w \<in> sem L any_pat"
proof -
  assume d: "dots_ok L" and w: "length w < 2 ^ 64"
  have "{[c] | c. takes L [46, asterisk] c} = {w. length w = Suc 0}" using d by (auto simp: dots_ok_def length_Suc_conv)
  then have "w \<in> sem L any_pat \<longleftrightarrow> w = [] \<or> length w \<le> MAX_REPETITIONS"
    by (auto simp: any_pat_def repeated_def repeats_def copies_any)
  then show ?thesis using w by (simp add: MAX_REPETITIONS_def)
qed

lemma seqs_append: "seqs (As @ [A]) = seq (seqs As) A"
proof (induction As)
  case Nil
  have "seq A {[]} = A" "seq {[]} A = A" using copies_one [of A] by (auto simp: seq_def)
  then show ?case by simp
next
  case (Cons B As)
  have "seq B (seq (seqs As) A) = seq (seq B (seqs As)) A"
    unfolding seq_def by (auto intro: exI) (metis append_assoc)+
  then show ?case using Cons by simp
qed

lemma show_pat_last: "last (show_pat p) \<noteq> dollar"
proof -
  have n: "last (number n @ [x]) = x" for n x by simp
  have "show_rep r \<noteq> [] \<Longrightarrow> last (show_rep r) \<noteq> dollar" for r by (cases r) auto
  then have r: "last (x # s @ y # show_rep r) \<noteq> dollar" if "y \<noteq> dollar" for x y s r
    using that by (cases "show_rep r = []") auto
  show ?thesis
  proof (cases p)
    case (AnyOf incl ss q)
    then show ?thesis using r [of rsquare lsquare "(if incl then [] else [caret]) @ concat (map (\<lambda>s. langle # s @ [rangle]) ss)" q] by simp
  next
    case (Group ps q)
    then show ?thesis using r [of rround lround "concat (map show_pat ps)" q] by simp
  next
    case (One s q)
    then show ?thesis using r [of rangle langle s q] by simp
  qed
qed

lemma show_pats_Nil: "\<forall>p \<in> set ps. show_pat p = [] \<Longrightarrow> ps = []"
  using show_pat_hd by (cases ps) auto

lemma show_pats_last: "ps \<noteq> [] \<Longrightarrow> last (concat (map show_pat ps)) \<noteq> dollar"
  using show_pat_last [of "last ps"] show_pat_hd [of "last ps"] by (cases ps rule: rev_cases) auto

definition closing :: "bool \<Rightarrow> pat list" where
  "closing z = (if z then [] else [any_pat])"

lemma RegexTopMatcher_expr:
  assumes "a \<or> z \<or> ps \<noteq> []"
  shows "RegexTopMatcher L (top_expr a ps z) x =
    (if a then bindE (RegexPatternListMatcher L (concat (map show_pat (ps @ closing z))) 0) (\<lambda>first.
         Inr \<lparr>m_expand = x, m_primaryMatcher = first, m_secondaryMatcher = None\<rparr>)
     else bindE (RegexPatternListMatcher L (concat (map show_pat (any_pat # ps @ closing z))) 0) (\<lambda>second.
          bindE (RegexPatternListMatcher L (concat (map show_pat (ps @ closing z))) 0) (\<lambda>first.
          Inr \<lparr>m_expand = x, m_primaryMatcher = first, m_secondaryMatcher = Some second\<rparr>)))"
proof -
  let ?c = "if a then [caret] else []" and ?b = "concat (map show_pat ps)"
  let ?m = "top_expr a ps z" and ?f = "concat (map show_pat (ps @ closing z))"
  have m: "?m \<noteq> []" using assms show_pat_hd by (cases ps) (auto simp: top_expr_def)
  have "last ?m = dollar \<longleftrightarrow> z" using show_pats_last [of ps] assms show_pat_hd
    by (cases "ps = []") (auto simp: top_expr_def last_append dest!: show_pats_Nil)
  then have e: "(if last ?m \<noteq> dollar then ?m @ anything else butlast ?m) = ?c @ ?f"
    by (auto simp: top_expr_def closing_def anything_show butlast_append)
  have h: "char_at (?c @ ?f) 0 = caret \<longleftrightarrow> a"
    using show_pats_hd [of "ps @ closing z"] by (cases "?f = []") (auto simp: char_at_def hd_conv_nth)
  have s: "substr (caret # ?f) 1 (length (caret # ?f) - 1) = ?f" by (simp add: substr_def)
  show ?thesis
  proof (cases a)
    case True
    then show ?thesis unfolding RegexTopMatcher_def Let_def e using m h s by simp
  next
    case False
    then show ?thesis unfolding RegexTopMatcher_def Let_def e using m h by (simp add: anything_show)
  qed
qed

lemma in_closing:
  assumes "dots_ok L" and "length w < 2 ^ 64"
  shows "w \<in> seqs (map (sem L) (ps @ closing z)) \<longleftrightarrow> (\<exists>k \<le> length w. (z \<longrightarrow> k = length w) \<and> take k w \<in> seqs (map (sem L) ps))"
proof (cases z)
  case False
  have "drop k w \<in> sem L any_pat" for k using sem_any [OF assms(1)] assms(2) by simp
  then show ?thesis using False by (auto simp: closing_def seqs_append in_seq)
qed (auto simp: closing_def)

lemma in_opening:
  assumes "dots_ok L" and "length w < 2 ^ 64"
  shows "w \<in> seqs (map (sem L) (any_pat # ps @ closing z)) \<longleftrightarrow>
    (\<exists>i k. i + k \<le> length w \<and> (z \<longrightarrow> i + k = length w) \<and> take k (drop i w) \<in> seqs (map (sem L) ps))"
proof -
  have t: "take i w \<in> sem L any_pat" for i using sem_any [OF assms(1), of "take i w"] assms(2) by simp
  have "drop i w \<in> seqs (map (sem L) (ps @ closing z)) \<longleftrightarrow>
      (\<exists>k. i + k \<le> length w \<and> (z \<longrightarrow> i + k = length w) \<and> take k (drop i w) \<in> seqs (map (sem L) ps))" if "i \<le> length w" for i
    using in_closing [OF assms(1), of "drop i w"] assms(2) that
    by (auto simp: le_diff_conv2 add.commute)
  then have "w \<in> seq (sem L any_pat) (seqs (map (sem L) (ps @ closing z))) \<longleftrightarrow>
      (\<exists>i \<le> length w. \<exists>k. i + k \<le> length w \<and> (z \<longrightarrow> i + k = length w) \<and> take k (drop i w) \<in> seqs (map (sem L) ps))"
    using t by (auto simp: in_seq)
  moreover have "i \<le> length w" if "i + k \<le> length w" for i k using that by simp
  ultimately show ?thesis unfolding list.map seqs_simps by blast
qed

lemma matches_all:
  assumes "lib_ok L" and "short_name n"
  shows "\<exists>s'. matches L n m 0 (length (m_subBlocks n)) s = Inr (m_subBlocks n \<in> lang L m, s')"
  using matches_answer [OF assms, of 0 "length (m_subBlocks n)" m s] by (simp add: part_def)

lemma top_match_lang:
  assumes "lib_ok L" and "short_name n"
  shows "\<exists>s'. top_match L t n s = Inr (m_subBlocks n \<in> lang L (fst (m_primaryMatcher t)) \<or>
    (case m_secondaryMatcher t of None \<Rightarrow> False | Some (m, k) \<Rightarrow> m_subBlocks n \<in> lang L m), s')"
proof -
  let ?s = "s\<lparr>m_isSecondaryUsed := False, m_matchResult := []\<rparr>"
  have few: "few n" using assms(2) by (simp add: short_name_def)
  obtain r where r: "matches L n (fst (m_primaryMatcher t)) 0 (length (m_subBlocks n)) (primary_refs ?s) = Inr (m_subBlocks n \<in> lang L (fst (m_primaryMatcher t)), r)"
    using matches_all [OF assms] by blast
  have c: "name_range n 0 (length (m_subBlocks n)) = Inr (m_subBlocks n)"
    using name_range_part [OF few, of 0 "length (m_subBlocks n)"] by (simp add: part_def)
  show ?thesis
  proof (cases "m_secondaryMatcher t")
    case None
    then show ?thesis using few r c by (simp add: top_match_def Let_def)
  next
    case (Some mk)
    obtain m k where mk: "mk = (m, k)" by fastforce
    obtain r' where "matches L n m 0 (length (m_subBlocks n)) (secondary_refs ?s) = Inr (m_subBlocks n \<in> lang L m, r')"
      using matches_all [OF assms] by blast
    then show ?thesis using few r c Some mk by (simp add: top_match_def Let_def)
  qed
qed

lemma top_compiled:
  assumes "lib_ok L" and "addresses_ok L" and "dots_ok L" and "list_all (pat_ok L) ps" and "a \<or> z \<or> ps \<noteq> []" and "short_name n"
  shows "\<exists>t. RegexTopMatcher L (top_expr a ps z) x = Inr t \<and> (\<exists>s'. top_match L t n s =
    Inr (\<exists>i k. i + k \<le> length (m_subBlocks n) \<and> (a \<longrightarrow> i = 0) \<and> (z \<longrightarrow> i + k = length (m_subBlocks n))
      \<and> part n i k \<in> seqs (map (sem L) ps), s'))"
proof -
  let ?w = "m_subBlocks n"
  have len: "length ?w < 2 ^ 64" using assms(6) by (simp add: short_name_def few_def)
  have c: "\<forall>p \<in> set (any_pat # ps @ closing z). compiles L p"
    using pat_compiled [OF _ assms(2)] assms(4) any_pat_ok [OF assms(3)] by (auto simp: list_all_iff closing_def)
  then obtain m k where m: "RegexPatternListMatcher L (concat (map show_pat (ps @ closing z))) 0 = Inr (m, k)" "lang L m = seqs (map (sem L) (ps @ closing z))"
    using list_compiled [of "ps @ closing z" L 0] by auto
  obtain m' k' where m': "RegexPatternListMatcher L (concat (map show_pat (any_pat # ps @ closing z))) 0 = Inr (m', k')"
      "lang L m' = seqs (map (sem L) (any_pat # ps @ closing z))"
    using list_compiled [OF c] by blast
  show ?thesis
  proof (cases a)
    case True
    let ?t = "\<lparr>m_expand = x, m_primaryMatcher = (m, k), m_secondaryMatcher = None\<rparr>"
    have "RegexTopMatcher L (top_expr a ps z) x = Inr ?t" using RegexTopMatcher_expr [OF assms(5)] m(1) True by simp
    moreover have "?w \<in> lang L m \<longleftrightarrow> (\<exists>i k. i + k \<le> length ?w \<and> (a \<longrightarrow> i = 0) \<and> (z \<longrightarrow> i + k = length ?w) \<and> part n i k \<in> seqs (map (sem L) ps))"
      using in_closing [OF assms(3) len, of ps z] m(2) True by (auto simp: part_def)
    ultimately show ?thesis using top_match_lang [OF assms(1,6), of ?t s] by simp
  next
    case False
    let ?t = "\<lparr>m_expand = x, m_primaryMatcher = (m, k), m_secondaryMatcher = Some (m', k')\<rparr>"
    have "RegexTopMatcher L (top_expr a ps z) x = Inr ?t" using RegexTopMatcher_expr [OF assms(5)] m(1) m'(1) False by simp
    moreover have "?w \<in> lang L m' \<longleftrightarrow>
        (\<exists>i k. i + k \<le> length ?w \<and> (a \<longrightarrow> i = 0) \<and> (z \<longrightarrow> i + k = length ?w) \<and> part n i k \<in> seqs (map (sem L) ps))"
      unfolding m'(2) in_opening [OF assms(3) len] using False by (simp add: part_def)
    moreover have "?w \<in> lang L m \<Longrightarrow> ?w \<in> lang L m'"
      unfolding m(2) m'(2) in_opening [OF assms(3) len] in_closing [OF assms(3) len] by (metis add_0 drop0)
    ultimately have "RegexTopMatcher L (top_expr a ps z) x = Inr ?t" and "(?w \<in> lang L m \<or> ?w \<in> lang L m') =
        (\<exists>i k. i + k \<le> length ?w \<and> (a \<longrightarrow> i = 0) \<and> (z \<longrightarrow> i + k = length ?w) \<and> part n i k \<in> seqs (map (sem L) ps))"
      by blast+
    then show ?thesis using top_match_lang [OF assms(1,6), of ?t s] by simp
  qed
qed

text \<open>C18. The matcher of an application: with a caret in front the expression must match from the first component, with a dollar behind up to
the last one, without them any part of the name will do. Every expression but the empty one compiles to such a matcher.\<close>

theorem Regex_top:
  assumes "lib_ok L" and "addresses_ok L" and "dots_ok L" and "list_all (pat_ok L) ps" and "a \<or> z \<or> ps \<noteq> []" and "short_name n"
  shows "\<exists>t. RegexTopMatcher L (top_expr a ps z) x = Inr t \<and> (\<exists>s'. top_match L t n s =
    Inr (\<exists>i k. i + k \<le> length (m_subBlocks n) \<and> (a \<longrightarrow> i = 0) \<and> (z \<longrightarrow> i + k = length (m_subBlocks n))
      \<and> part n i k \<in> seqs (map (sem L) ps), s'))"
  using top_compiled [OF assms] .


section \<open>Interest filters\<close>

text \<open>C19. A filter with an expression matches the names that have its prefix and whose remaining components are in the language
of the expression.\<close>

theorem InterestFilter_regex:
  assumes "lib_ok L" and "addresses_ok L" and "list_all (pat_ok L) ps" and "name_ok p" and "name_ok n" and "short_name n"
  shows "\<exists>l. InterestFilter_of_regex L p (concat (map show_pat ps)) = Inr l \<and>
    doesMatch l n = Inr (prefix (name_keys p) (name_keys n) \<and> drop (length (m_subBlocks p)) (m_subBlocks n) \<in> seqs (map (sem L) ps))"
proof -
  have "\<forall>p \<in> set ps. compiles L p" using pat_compiled [OF _ assms(2)] assms(3) by (simp add: list_all_iff)
  then obtain m k where m: "RegexPatternListMatcher L (concat (map show_pat ps)) 0 = Inr (m, k)" "lang L m = seqs (map (sem L) ps)"
    using list_compiled [of ps L 0] by auto
  let ?l = "length (m_subBlocks p)"
  have few: "few p" "few n" using assms(4,5) by (simp_all add: name_ok_def)
  have i: "isPrefixOf p n = Inr (prefix (name_keys p) (name_keys n))" by (rule isPrefixOf_prefix [OF assms(4,5)])
  have s: "unat (Name_size n - Name_size p) = length (m_subBlocks n) - ?l" if "?l \<le> length (m_subBlocks n)"
    using few that by (simp add: unat_sub word_le_nat_alt)
  have d: "part n ?l (length (m_subBlocks n) - ?l) = drop ?l (m_subBlocks n)" by (simp add: part_def)
  have "\<exists>s'. matches L n m ?l (length (m_subBlocks n) - ?l) (\<lambda>_. []) = Inr (drop ?l (m_subBlocks n) \<in> lang L m, s')" if "?l \<le> length (m_subBlocks n)"
    using matches_answer [OF assms(1,6), of ?l "length (m_subBlocks n) - ?l" m] that d by simp
  moreover have "?l \<le> length (m_subBlocks n)" if "prefix (name_keys p) (name_keys n)"
    using prefix_length_le [OF that] by (simp add: name_keys_def)
  ultimately show ?thesis using m few i s
    by (auto simp: InterestFilter_of_regex_def doesMatch_def)
qed


section \<open>The matcher made from a name\<close>

definition uri_byte :: "byte \<Rightarrow> bool" where
  "uri_byte x \<longleftrightarrow> uri_char x \<or> x = 61"

text \<open>A string of these bytes with its special characters escaped matches itself only.\<close>

definition literals_ok :: "regex_lib \<Rightarrow> bool" where
  "literals_ok L \<longleftrightarrow> (\<forall>s. list_all uri_byte s \<longrightarrow> mark_count L (convertSpecialChar s) \<noteq> None
     \<and> (\<forall>t. regex_match L (convertSpecialChar s) t \<noteq> None \<longleftrightarrow> t = s))"

lemma component_uri_bytes: "comp_ok c \<Longrightarrow> list_all uri_byte (Component_toUri c)"
proof (cases "isGeneric c")
  case True
  then have "m_type c = tlv_NameComponent" by (simp add: isGeneric_def)
  then show "comp_ok c \<Longrightarrow> ?thesis" using generic_uri(2) [of c] comp_ok_value [of c] by (auto simp: list_all_iff uri_byte_def)
next
  case False
  assume c: "comp_ok c"
  then have t: "m_type c = tlv_ImplicitSha256DigestComponent" using False by (simp add: comp_ok_def isImplicitSha256Digest_def)
  have "plain (hex_digit False k)" if "k < 16" for k
  proof -
    have "unat (hex_digit False k) = (if k < 10 then 48 + k else 87 + k)" using that by (simp add: hex_digit_def unat_of_nat)
    then show ?thesis using that by (cases "k < 10") (simp_all add: plain_def word_le_nat_alt)
  qed
  then have "list_all uri_byte (printHex [] (block_value c) False)"
    using byte_split(2) by (auto simp: printHex_def list_all_iff uri_byte_def uri_char_def)
  moreover have "list_all uri_byte sha256Prefix" by (simp add: sha256Prefix_def str_def uri_byte_def uri_char_def plain_def)
  ultimately show ?thesis using t by (simp add: Component_toUri_def)
qed

lemma component_uri_key:
  assumes "comp_ok c" and "comp_ok d"
  shows "Component_toUri c = Component_toUri d \<longleftrightarrow> comp_key c = comp_key d"
proof
  assume "Component_toUri c = Component_toUri d"
  then have "elem_of c = elem_of d"
    using component_uri_back [OF assms(1)] component_uri_back [OF assms(2)] demo_hexDecoder_print by (metis Inr_inject)
  then show "comp_key c = comp_key d" by (simp add: comp_key_def elem_of_def)
next
  assume "comp_key c = comp_key d"
  then show "Component_toUri c = Component_toUri d"
    using comp_ok_value [OF assms(1)] comp_ok_value [OF assms(2)] by (simp add: Component_toUri_def comp_key_def)
qed

lemma convertSpecialChar_set: "set (convertSpecialChar s) \<subseteq> insert backslash (set s)"
  by (auto simp: convertSpecialChar_def split: if_splits)

lemma literal_ok:
  assumes "literals_ok L" and "list_all uri_byte s" and "s \<noteq> []"
  shows "expr_ok L (convertSpecialChar s)" and "takes L (convertSpecialChar s) c \<longleftrightarrow> Component_toUri c = s"
proof -
  have b: "x \<notin> set brackets \<and> x \<noteq> 0" if "x \<in> set (convertSpecialChar s)" for x
  proof -
    have "x = backslash \<or> uri_byte x" using that convertSpecialChar_set [of s] assms(2) by (auto simp: list_all_iff)
    then show ?thesis by (auto simp: brackets_def uri_byte_def uri_char_def plain_def)
  qed
  then have "balanced l r (convertSpecialChar s)" if "l \<in> set brackets" "r \<in> set brackets" for l r
    using that by (blast intro: balanced_free)
  moreover have "0 \<notin> set (convertSpecialChar s)" using b by blast
  ultimately show "expr_ok L (convertSpecialChar s)" using assms(1,2) by (simp add: expr_ok_def literals_ok_def brackets_def)
  have "convertSpecialChar s \<noteq> []" using assms(3) by (cases s) (simp_all add: convertSpecialChar_def)
  then show "takes L (convertSpecialChar s) c \<longleftrightarrow> Component_toUri c = s" using assms(1,2) by (simp add: takes_def literals_ok_def)
qed

lemma seqs_components: "w \<in> seqs (map (\<lambda>c. {[d] | d. P c d}) cs) \<longleftrightarrow> list_all2 P cs w"
proof (induction cs arbitrary: w)
  case (Cons c cs)
  show ?case
  proof (cases w)
    case (Cons d v)
    have "w \<in> seq {[d] | d. P c d} A \<longleftrightarrow> P c d \<and> v \<in> A" for A
      using Cons by (auto simp: seq_def Cons_eq_append_conv intro: exI [of _ "[d]"])
    then show ?thesis using Cons.IH Cons by simp
  qed (auto simp: seq_def)
qed simp

text \<open>C20. The expression made from a name matches, with an anchor, the names with the same components and, without one, the names
it is a prefix of: whatever bytes the components have, their representations are escaped.\<close>

theorem Regex_fromName:
  assumes "lib_ok L" and "addresses_ok L" and "dots_ok L" and "literals_ok L" and "name_ok n" and "name_ok m" and "short_name m"
  shows "\<exists>t. regex_fromName L n hasAnchor = Inr t \<and> (\<exists>s'. top_match L t m s =
    Inr (if hasAnchor then name_keys m = name_keys n else prefix (name_keys n) (name_keys m), s'))"
proof -
  let ?p = "\<lambda>c. One (convertSpecialChar (Component_toUri c)) Once" and ?cs = "m_subBlocks n" and ?ds = "m_subBlocks m"
  have cs: "comp_ok c \<and> list_all uri_byte (Component_toUri c) \<and> Component_toUri c \<noteq> []" if "c \<in> set ?cs" for c
    using assms(5) that component_uri_bytes component_uri_not_Nil by (auto simp: name_ok_def list_all_iff)
  have "regex_fromName L n hasAnchor = RegexTopMatcher L (top_expr True (map ?p ?cs) hasAnchor) []"
    by (simp add: regex_fromName_def top_expr_def Let_def comp_def)
  moreover have "list_all (pat_ok L) (map ?p ?cs)" using cs literal_ok(1) [OF assms(4)] by (auto simp: list_all_iff)
  moreover have "(\<exists>i k. i + k \<le> length ?ds \<and> (True \<longrightarrow> i = 0) \<and> (hasAnchor \<longrightarrow> i + k = length ?ds) \<and> part m i k \<in> seqs (map (sem L) (map ?p ?cs)))
      \<longleftrightarrow> (if hasAnchor then name_keys m = name_keys n else prefix (name_keys n) (name_keys m))"
  proof -
    have p: "map (sem L) (map ?p ?cs) = map (\<lambda>c. {[d] | d. Component_toUri d = Component_toUri c}) ?cs"
      using cs literal_ok(2) [OF assms(4)] by (auto simp: repeated_def)
    have ds: "\<forall>d \<in> set ?ds. comp_ok d" using assms(6) by (simp add: name_ok_def list_all_iff)
    have "list_all2 (\<lambda>c d. Component_toUri d = Component_toUri c) ?cs (take k ?ds) \<longleftrightarrow> name_keys n = take k (name_keys m)" for k
    proof -
      have "list_all2 (\<lambda>c d. Component_toUri d = Component_toUri c) ?cs (take k ?ds)
          \<longleftrightarrow> list_all2 (\<lambda>c d. comp_key c = comp_key d) ?cs (take k ?ds)"
        by (rule list.rel_cong [OF refl refl]) (use cs ds component_uri_key in_set_takeD in metis)
      also have "\<dots> \<longleftrightarrow> name_keys n = take k (name_keys m)"
        by (auto simp: name_keys_def take_map list_all2_conv_all_nth list_eq_iff_nth_eq simp del: nth_take)
      finally show ?thesis .
    qed
    then have "part m 0 k \<in> seqs (map (sem L) (map ?p ?cs)) \<longleftrightarrow> name_keys n = take k (name_keys m)" for k
      unfolding p seqs_components by (simp add: part_def)
    moreover have "length (name_keys m) = length ?ds" by (simp add: name_keys_def)
    moreover have "(\<exists>k \<le> length ?ds. name_keys n = take k (name_keys m)) \<longleftrightarrow> prefix (name_keys n) (name_keys m)"
    proof
      assume p: "prefix (name_keys n) (name_keys m)"
      then have "name_keys n = take (length (name_keys n)) (name_keys m)" by (auto simp: prefix_def)
      moreover have "length (name_keys n) \<le> length ?ds" using prefix_length_le [OF p] by (simp add: name_keys_def)
      ultimately show "\<exists>k \<le> length ?ds. name_keys n = take k (name_keys m)" by blast
    qed (auto simp: take_is_prefix)
    moreover have "take (length ?ds) (name_keys m) = name_keys m" by (simp add: name_keys_def)
    ultimately have e: "part m 0 k \<in> seqs (map (sem L) (map ?p ?cs)) \<longleftrightarrow> name_keys n = take k (name_keys m)"
        "(\<exists>k \<le> length ?ds. name_keys n = take k (name_keys m)) \<longleftrightarrow> prefix (name_keys n) (name_keys m)"
        "take (length ?ds) (name_keys m) = name_keys m" for k
      by blast+
    have "(\<exists>i k. i + k \<le> length ?ds \<and> (True \<longrightarrow> i = 0) \<and> (hasAnchor \<longrightarrow> i + k = length ?ds) \<and> part m i k \<in> X)
        \<longleftrightarrow> (\<exists>k \<le> length ?ds. (hasAnchor \<longrightarrow> k = length ?ds) \<and> part m 0 k \<in> X)" for X by simp
    from this [of "seqs (map (sem L) (map ?p ?cs))"] have "(\<exists>i k. i + k \<le> length ?ds \<and> (True \<longrightarrow> i = 0) \<and> (hasAnchor \<longrightarrow> i + k = length ?ds) \<and> part m i k \<in> seqs (map (sem L) (map ?p ?cs)))
        \<longleftrightarrow> (\<exists>k \<le> length ?ds. (hasAnchor \<longrightarrow> k = length ?ds) \<and> name_keys n = take k (name_keys m))"
      unfolding e(1) .
    also have "\<dots> \<longleftrightarrow> (if hasAnchor then name_keys m = name_keys n else prefix (name_keys n) (name_keys m))"
    proof (cases hasAnchor)
      case True
      then have "(\<exists>k \<le> length ?ds. (hasAnchor \<longrightarrow> k = length ?ds) \<and> name_keys n = take k (name_keys m)) \<longleftrightarrow> name_keys n = take (length ?ds) (name_keys m)" by blast
      then show ?thesis using e(3) True by metis
    next
      case False
      then show ?thesis using e(2) by simp
    qed
    finally show ?thesis .
  qed
  ultimately show ?thesis
    using top_compiled [OF assms(1-3), of "map ?p ?cs" True hasAnchor m "[]" s] assms(7) by simp
qed

end
