(* ===== verification/RegexExpand.thy ===== *)
theory RegexExpand
  imports RegexTop
begin

text \<open>
  The expansion of groups (\<open>RegexTopMatcher::expand\<close>): the items of an expand string one by one, and why a string that
  ends with a literal part is refused.
\<close>

section \<open>Items\<close>

datatype item = Group_ref nat | Literal bytes

fun show_item :: "item \<Rightarrow> bytes" where
  "show_item (Group_ref i) = backslash # number i"
| "show_item (Literal s) = langle # s @ [rangle]"

fun item_ok :: "item \<Rightarrow> bool" where
  "item_ok (Group_ref i) \<longleftrightarrow> i < 2 ^ 64"
| "item_ok (Literal s) \<longleftrightarrow> balanced langle rangle s"

text \<open>What an item appends: the whole match, a group, or the components of a URI.\<close>

fun item_step :: "(bytes \<Rightarrow> bytes) \<Rightarrow> nat \<Rightarrow> refs \<Rightarrow> block list \<Rightarrow> block \<Rightarrow> item \<Rightarrow> block result" where
  "item_step h k refs result n (Group_ref i) =
     (if i = 0 then Inr (append_all n result)
      else if i \<le> k then Inr (append_all n (refs (i - 1)))
      else Inl (RegexError ''Exceed the range of back reference''))"
| "item_step h k refs result n (Literal s) = bindE (Name_of_uri h s) (\<lambda>m. Name_append_name n m)"

lemma show_item_hd: "show_item i \<noteq> [] \<and> \<not> isdigit (hd (show_item i))"
  by (cases i) (simp_all add: isdigit_def word_le_nat_alt)

lemma show_items_hd: "concat (map show_item items) = [] \<or> \<not> isdigit (hd (concat (map show_item items)))"
  using show_item_hd by (cases items) (auto simp: hd_append)

text \<open>The scan for the end of a literal part reads its bracket only if something follows.\<close>

lemma angle_scan:
  assumes "depth langle rangle (lc - rc) s = Some d" and "rc < lc" and "e = pre @ s @ suf" and "suf \<noteq> []"
  shows "\<exists>lc' rc'. lc' - rc' = d \<and> rc' < lc' \<and> angle_end e (length pre) lc rc = angle_end e (length pre + length s) lc' rc'"
  using assms(1-3)
proof (induction s arbitrary: lc rc pre)
  case Nil
  then show ?case by (intro exI [of _ lc] exI [of _ rc]) simp
next
  case (Cons c s)
  let ?lc = "if c = langle then lc + 1 else lc" and ?rc = "if c = rangle then rc + 1 else rc"
  have "?lc - ?rc = (if langle = c then (lc - rc) + 1 else lc - rc) - (if rangle = c then 1 else 0)" using Cons.prems(2) by auto
  then have d: "depth langle rangle (?lc - ?rc) s = Some d" "?rc < ?lc" using Cons.prems(1) by (auto simp: Let_def split: if_splits)
  have "angle_end e (length pre) lc rc = angle_end e (length (pre @ [c])) ?lc ?rc"
    using Cons.prems(2,3) assms(4) by (subst angle_end.simps) (auto simp: nth_append)
  then show ?case using Cons.IH [OF d, of "pre @ [c]"] Cons.prems(3) by auto
qed

lemma angle_end_balanced:
  assumes "balanced langle rangle s"
  shows "angle_end (pre @ s @ rangle # suf) (length pre) 1 0 =
    (if suf = [] then Inl (RegexError ''wrong format of expand string!'') else Inr (length pre + length s + 1))"
proof -
  let ?e = "pre @ s @ rangle # suf"
  obtain lc rc where s: "lc - rc = 1" "rc < lc" "angle_end ?e (length pre) 1 0 = angle_end ?e (length pre + length s) lc rc"
    using angle_scan [of 1 0 s 1 ?e pre "rangle # suf"] assms by (auto simp: balanced_def)
  have "\<not> rc + 1 < lc" using s(1,2) by simp
  then have "angle_end ?e (length pre + length s) lc rc =
      (if suf = [] then Inl (RegexError ''wrong format of expand string!'') else Inr (length pre + length s + 1))"
    using s(2) by (subst angle_end.simps, subst angle_end.simps) (simp add: nth_append)
  then show ?thesis using s(3) by simp
qed

lemma item_group:
  assumes "suf = [] \<or> \<not> isdigit (hd suf)"
  shows "getItemFromExpand (pre @ show_item (Group_ref i) @ suf) (length pre) =
    Inr (show_item (Group_ref i), length pre + length (show_item (Group_ref i)))"
proof -
  have "takeWhile isdigit (number i @ suf) = number i"
    using assms number_set by (cases suf) (auto simp: takeWhile_append takeWhile_eq_all_conv)
  moreover have "number i \<noteq> []" by (rule number_nonempty)
  ultimately show ?thesis by (simp add: getItemFromExpand_def Let_def nth_append substr_def)
qed

lemma item_literal:
  assumes "balanced langle rangle s"
  shows "getItemFromExpand (pre @ show_item (Literal s) @ suf) (length pre) =
    (if suf = [] then Inl (RegexError ''wrong format of expand string!'')
     else Inr (show_item (Literal s), length pre + length (show_item (Literal s))))"
proof -
  have a: "angle_end (pre @ langle # s @ rangle # suf) (length pre + 1) 1 0 =
      (if suf = [] then Inl (RegexError ''wrong format of expand string!'') else Inr (length pre + 1 + length s + 1))"
    using angle_end_balanced [OF assms, of "pre @ [langle]" suf] by simp
  show ?thesis by (cases "suf = []") (use a in \<open>simp_all add: getItemFromExpand_def nth_append substr_def\<close>)
qed

text \<open>One round of the loop.\<close>

lemma expand_item:
  assumes "item_ok it" and "suf = [] \<or> \<not> isdigit (hd suf)" and "suf \<noteq> [] \<or> (\<exists>i. it = Group_ref i)"
  shows "expand_loop h k refs result (pre @ show_item it @ suf) (length pre) n =
    bindE (item_step h k refs result n it) (expand_loop h k refs result (pre @ show_item it @ suf) (length (pre @ show_item it)))"
proof (cases it)
  case (Group_ref i)
  have "decimal (substr (backslash # number i) 1 (length (number i))) = i" by (simp add: substr_def decimal_number)
  then show ?thesis using item_group [OF assms(2), of pre i] assms(1) Group_ref
    by (subst expand_loop.simps) (simp add: Let_def)
next
  case (Literal s)
  have "substr (langle # s @ [rangle]) 1 (length s) = s" by (simp add: substr_def)
  then show ?thesis using item_literal [of s pre suf] assms Literal
    by (subst expand_loop.simps) (simp add: bindE_assoc)
qed

lemma expand_items:
  assumes "list_all item_ok items" and "suf \<noteq> []" and "\<not> isdigit (hd suf)" and "e = pre @ concat (map show_item items) @ suf"
  shows "expand_loop h k refs result e (length pre) n =
    bindE (foldE (item_step h k refs result) n items) (expand_loop h k refs result e (length (pre @ concat (map show_item items))))"
  using assms(1,4)
proof (induction items arbitrary: pre n)
  case (Cons it items)
  let ?s = "concat (map show_item items) @ suf"
  have "?s \<noteq> [] \<and> \<not> isdigit (hd ?s)" using show_items_hd [of items] assms(2,3) by (auto simp: hd_append)
  then have "expand_loop h k refs result e (length pre) n =
      bindE (item_step h k refs result n it) (expand_loop h k refs result e (length (pre @ show_item it)))"
    using expand_item [of it ?s h k refs result pre n] Cons.prems by simp
  also have "\<dots> = bindE (item_step h k refs result n it) (\<lambda>n. bindE (foldE (item_step h k refs result) n items)
      (expand_loop h k refs result e (length (pre @ concat (map show_item (it # items))))))"
    using Cons.IH [of "pre @ show_item it"] Cons.prems by (intro bindE_cong) auto
  finally show ?case by (simp add: bindE_assoc)
qed simp

text \<open>The back references of the matcher that matched last.\<close>

definition used_groups :: "top_matcher \<Rightarrow> top_state \<Rightarrow> refs \<times> nat" where
  "used_groups t s = (if m_isSecondaryUsed s then (secondary_refs s, case m_secondaryMatcher t of None \<Rightarrow> 0 | Some (m, k) \<Rightarrow> k)
     else (primary_refs s, snd (m_primaryMatcher t)))"

text \<open>C21. An expand string is a sequence of items, and its expansion appends what they stand for, in their order: zero the whole match,
a number a group, which must exist, a literal part the components of its URI. But a literal part at the end is refused: the loop that looks
for its bracket stops before the last character.\<close>

theorem Regex_expand:
  assumes "list_all item_ok items" and "item_ok it"
    and "e = concat (map show_item (items @ [it]))" and "if x = [] then m_expand t = e else x = e"
  shows "expand h t s x = bindE (foldE (item_step h (snd (used_groups t s)) (fst (used_groups t s)) (m_matchResult s)) Name_new items) (\<lambda>n.
    case it of Literal _ \<Rightarrow> Inl (RegexError ''wrong format of expand string!'')
    | _ \<Rightarrow> item_step h (snd (used_groups t s)) (fst (used_groups t s)) (m_matchResult s) n it)"
proof -
  obtain refs k where g: "used_groups t s = (refs, k)" by fastforce
  let ?p = "concat (map show_item items)" and ?r = "m_matchResult s"
  have e: "e = [] @ ?p @ show_item it" "e = ?p @ show_item it @ []" using assms(3) by simp_all
  have "expand h t s x = expand_loop h k refs ?r e 0 Name_new"
    using g assms(4) by (auto simp: expand_def used_groups_def split: if_splits)
  also have "\<dots> = bindE (foldE (item_step h k refs ?r) Name_new items) (expand_loop h k refs ?r e (length ?p))"
    using expand_items [OF assms(1) _ _ e(1), of h k refs ?r Name_new] show_item_hd [of it] by simp
  also have "expand_loop h k refs ?r e (length ?p) = (\<lambda>n. case it of Literal _ \<Rightarrow> Inl (RegexError ''wrong format of expand string!'')
      | _ \<Rightarrow> item_step h k refs ?r n it)"
  proof
    fix n
    show "expand_loop h k refs ?r e (length ?p) n = (case it of Literal _ \<Rightarrow> Inl (RegexError ''wrong format of expand string!'')
      | _ \<Rightarrow> item_step h k refs ?r n it)"
    proof (cases it)
      case (Group_ref i)
      have "expand_loop h k refs ?r e (length ?p) n = bindE (item_step h k refs ?r n it) (expand_loop h k refs ?r e (length e))"
        unfolding e(2) using expand_item [OF assms(2), of "[]" h k refs ?r ?p n] Group_ref by simp
      then show ?thesis using Group_ref by (simp add: expand_loop.simps [of h k refs ?r e "length e"])
    next
      case (Literal s)
      then show ?thesis using item_literal [of s ?p "[]"] assms(2) unfolding e(2) by (subst expand_loop.simps) simp
    qed
  qed
  finally show ?thesis unfolding g fst_conv snd_conv .
qed

end
