(* ===== verification/RegexDemo.thy ===== *)
theory RegexDemo
  imports RegexExpand
begin

text \<open>
  The theorems on regular expressions at concrete expressions and names, and the stale result of a group. The library here
  knows the expression for any component and escaped strings only.
\<close>

definition demo_lib :: regex_lib where
  "demo_lib = \<lparr>mark_count = \<lambda>e. Some 0,
     regex_match = \<lambda>e s. if e = [46, asterisk] \<or> e = convertSpecialChar s then Some [] else None, addresses = \<lambda>cs. cs\<rparr>"

lemma convertSpecialChar_inj: "convertSpecialChar s = convertSpecialChar t \<longleftrightarrow> s = t"
proof (induction s arbitrary: t)
  case Nil
  then show ?case by (cases t) (auto simp: convertSpecialChar_def)
next
  case (Cons c s)
  have [simp]: "special_char backslash" by (simp add: special_char_def)
  show ?case
  proof (cases t)
    case (Cons d u)
    have "convertSpecialChar (c # s) = (if special_char c then [backslash, c] else [c]) @ convertSpecialChar s"
      "convertSpecialChar (d # u) = (if special_char d then [backslash, d] else [d]) @ convertSpecialChar u"
      by (simp_all add: convertSpecialChar_def)
    then show ?thesis using Cons.IH [of u] Cons by auto
  qed (auto simp: convertSpecialChar_def)
qed

lemma convertSpecialChar_dots: "convertSpecialChar s \<noteq> [46, asterisk]"
  by (cases s) (auto simp: convertSpecialChar_def special_char_def)

lemma demo_lib_ok: "lib_ok demo_lib" "addresses_ok demo_lib" "dots_ok demo_lib" "literals_ok demo_lib"
  by (auto simp: demo_lib_def lib_ok_def addresses_ok_def dots_ok_def literals_ok_def takes_def convertSpecialChar_inj convertSpecialChar_dots
      split: if_splits)

lemma demo_uri: "Component_toUri (Block_value tlv_NameComponent [97]) = [97]" "Component_toUri (Block_value tlv_NameComponent [98]) = [98]"
  by (simp_all add: Component_toUri_def tlv_NameComponent_def tlv_ImplicitSha256DigestComponent_def escape_byte_def plain_def
      Block_value_def block_value_def value_size_def hasValue_def range_of_def Let_def)

lemma demo_name_blocks: "m_subBlocks demo_name = [Block_value tlv_NameComponent [97], Block_value tlv_NameComponent [98]]"
  by (simp add: demo_name_def)

lemma demo_name_short: "short_name demo_name"
  by (simp add: short_name_def few_def demo_name_blocks demo_uri)

definition demo_a :: block where
  "demo_a = set_subBlocks Name_new [Block_value tlv_NameComponent [97]]"

lemma demo_a_ok: "name_ok demo_a"
  using demo_name_ok by (simp add: demo_a_def demo_name_def name_ok_def few_def)


text \<open>The matcher of \<open>(<>)*<>\<close>: any component any number of times, as a group, and a component.\<close>

definition demo_component :: matcher where
  "demo_component = Repeat (str ''<>'') (ComponentSet (str ''<>'') [\<lparr>cm_expr = [], m_pseudoMatchers = []\<rparr>] True) 1 1"

definition demo_stale :: matcher where
  "demo_stale = PatternList (str ''(<>)*<>'')
     [Repeat (str ''(<>)*'') (Backref (str ''(<>)'') 0 (PatternList (str ''<>'') [demo_component])) 0 MAX_REPETITIONS, demo_component]"

lemma demo_component_compiled: "RegexPatternListMatcher demo_lib (str ''<>'') k = Inr (PatternList (str ''<>'') [demo_component], k)"
proof -
  have "extractPattern p demo_lib (str ''<>'') 0 k = Inr (demo_component, 2, k)" for p
    by (simp add: extractPattern_def extractSubPattern_def sub_pattern_end.simps extractRepetition_def RegexRepeatMatcher_def char_at_def
        RegexComponentSetMatcher_def compileSingleComponent_def extractComponent_def component_end.simps RegexComponentMatcher_def
        demo_lib_def parseRepetition_def substr_def str_def demo_component_def)
  then show ?thesis by (subst RegexPatternListMatcher.simps, subst pattern_loop.simps, subst pattern_loop.simps) (simp add: str_def)
qed

lemma demo_stale_compiled: "RegexPatternListMatcher demo_lib (str ''(<>)*<>'') 0 = Inr (demo_stale, 1)"
proof -
  let ?e = "str ''(<>)*<>''"
  have a: "RegexBackrefMatcher (RegexPatternListMatcher demo_lib) (str ''(<>)'') 0 = Inr (Backref (str ''(<>)'') 0 (PatternList (str ''<>'') [demo_component]), 1)"
    using demo_component_compiled [of 1] by (simp add: RegexBackrefMatcher_def substr_def str_def)
  have "extractPattern (RegexPatternListMatcher demo_lib) demo_lib ?e 0 0 =
      Inr (Repeat (str ''(<>)*'') (Backref (str ''(<>)'') 0 (PatternList (str ''<>'') [demo_component])) 0 MAX_REPETITIONS, 5, 1)"
    using a by (simp add: extractPattern_def extractSubPattern_def sub_pattern_end.simps extractRepetition_def RegexRepeatMatcher_def char_at_def
        parseRepetition_def substr_def str_def)
  moreover have "extractPattern (RegexPatternListMatcher demo_lib) demo_lib ?e 5 1 = Inr (demo_component, 7, 1)"
    by (simp add: extractPattern_def extractSubPattern_def sub_pattern_end.simps extractRepetition_def RegexRepeatMatcher_def char_at_def
        RegexComponentSetMatcher_def compileSingleComponent_def extractComponent_def component_end.simps RegexComponentMatcher_def
        demo_lib_def parseRepetition_def substr_def str_def demo_component_def)
  ultimately show ?thesis
    by (subst RegexPatternListMatcher.simps, subst pattern_loop.simps, subst pattern_loop.simps, subst pattern_loop.simps) (simp add: str_def demo_stale_def)
qed

text \<open>On a name with one component the group first takes it, then the rest does not match and the group is repeated zero times:
its result stays what the attempt that failed has left.\<close>

lemma Regex_stale_group:
  assumes "m_subBlocks n = [c]"
  shows "\<exists>s'. matches demo_lib n demo_stale 0 1 (\<lambda>_. []) = Inr (True, s') \<and> s' 0 = [c]"
proof -
  have g: "Name_get n 0 = Inr c" using Name_get_at [of 0 n] assms by simp
  have r: "name_range n 0 1 = Inr [c]" "name_range n 0 0 = Inr []" using g by (simp_all add: name_range_def)
  have m1: "matches demo_lib n demo_component 0 (Suc 0) s = Inr (True, s)" for s
    using g r by (simp add: demo_component_def repeat_match.simps and_then_def set_match_def component_match_def)
  have m0: "matches demo_lib n demo_component i 0 s = Inr (False, s)" for i s
    by (simp add: demo_component_def repeat_match.simps)
  have p: "matches demo_lib n (PatternList (str ''<>'') [demo_component]) 0 (Suc 0) s = Inr (True, s)" for s
    using m1 r by (simp add: and_then_def)
  have b: "matches demo_lib n (Backref (str ''(<>)'') 0 (PatternList (str ''<>'') [demo_component])) 0 (Suc 0) s = Inr (True, s(0 := [c]))" for s
    using p r by (simp add: and_then_def del: matches.simps(1))
  have q: "matches demo_lib n (Repeat (str ''(<>)*'') (Backref (str ''(<>)'') 0 (PatternList (str ''<>'') [demo_component])) 0 MAX_REPETITIONS) 0 (Suc 0) s
      = Inr (True, s(0 := [c]))" for s
    using b r by (simp add: and_then_def repeat_match.simps MAX_REPETITIONS_def del: matches.simps(1,3))
  show ?thesis using q m0 m1 r by (simp add: demo_stale_def and_then_def)
qed


section \<open>Witnesses\<close>

theorem Regex_top_witness:
  "\<exists>t. RegexTopMatcher demo_lib (top_expr False [One (convertSpecialChar [98]) Once] True) [] = Inr t \<and> (\<exists>s'. top_match demo_lib t demo_name top_new =
    Inr (\<exists>i k. i + k \<le> length (m_subBlocks demo_name) \<and> (False \<longrightarrow> i = 0) \<and> (True \<longrightarrow> i + k = length (m_subBlocks demo_name))
      \<and> part demo_name i k \<in> seqs (map (sem demo_lib) [One (convertSpecialChar [98]) Once]), s'))"
  by (rule Regex_top) (use demo_lib_ok demo_name_short literal_ok(1) [of demo_lib "[98]"] in
    \<open>simp_all add: uri_byte_def uri_char_def plain_def\<close>)

theorem InterestFilter_regex_witness:
  "\<exists>l. InterestFilter_of_regex demo_lib demo_a (concat (map show_pat [AnyOf False [convertSpecialChar [97]] OneOrMore])) = Inr l \<and>
    doesMatch l demo_name = Inr (prefix (name_keys demo_a) (name_keys demo_name)
      \<and> drop (length (m_subBlocks demo_a)) (m_subBlocks demo_name) \<in> seqs (map (sem demo_lib) [AnyOf False [convertSpecialChar [97]] OneOrMore]))"
  by (rule InterestFilter_regex) (use demo_lib_ok demo_name_short demo_name_ok demo_a_ok literal_ok(1) [of demo_lib "[97]"] in
    \<open>simp_all add: uri_byte_def uri_char_def plain_def\<close>)

theorem Regex_fromName_witness:
  "\<exists>t. regex_fromName demo_lib demo_a False = Inr t \<and> (\<exists>s'. top_match demo_lib t demo_name top_new =
    Inr (if False then name_keys demo_name = name_keys demo_a else prefix (name_keys demo_a) (name_keys demo_name), s'))"
  by (rule Regex_fromName [OF demo_lib_ok demo_a_ok demo_name_ok demo_name_short])

definition demo_top :: top_matcher where
  "demo_top = \<lparr>m_expand = concat (map show_item [Literal (str ''/x''), Group_ref 1]), m_primaryMatcher = (demo_stale, 1), m_secondaryMatcher = None\<rparr>"

theorem Regex_expand_witness:
  "expand demo_hexDecoder demo_top top_new [] =
    bindE (foldE (item_step demo_hexDecoder (snd (used_groups demo_top top_new)) (fst (used_groups demo_top top_new)) (m_matchResult top_new)) Name_new [Literal (str ''/x'')])
      (\<lambda>n. case Group_ref 1 of Literal _ \<Rightarrow> Inl (RegexError ''wrong format of expand string!'')
      | _ \<Rightarrow> item_step demo_hexDecoder (snd (used_groups demo_top top_new)) (fst (used_groups demo_top top_new)) (m_matchResult top_new) n (Group_ref 1))"
  by (rule Regex_expand [OF _ _ refl]) (simp_all add: demo_top_def str_def balanced_def Let_def)

end
