(* ===== verification/Spec2Isabelle.thy ===== *)
theory Spec2Isabelle
  imports Ocr RoundRobin Producer InterestWire StorageDemo FaceDemo RegexDemo
begin

text \<open>
  The repository is a demonstration of information-centric networking on small devices: cameras, printers of
  text and forwarders that are joined by the Named Data Networking protocol. It holds three programs of its own
  and the library ndn-cxx 0.5.1 that they are built on (ndn-cxx-ndn-cxx-0.5.1/src, called src/ in what follows):

    \<^item> the text recognition of lib/ and ocr.cpp: an image is turned into a matrix of grey values, cut into letters,
      and each letter is compared with 26 templates;
    \<^item> the forwarding strategy round-robin-strategy.cpp, a plug-in of the forwarder NFD;
    \<^item> the producers of producer.cpp, producer_sergi.cpp and tess.cpp, which answer an Interest for the text of an
      image, fetching the image first;
    \<^item> of ndn-cxx the packet formats (TLV blocks, names, selectors, Interest, Data, Link, NDNLPv2), the face an
      application talks to the forwarder with, the scheduler of its timers and the storage of Data in memory.

  A producer registers a prefix on its face; the face turns the packets it receives into calls of the producer's
  callbacks, in which the producer expresses Interests and puts Data; what it is given and what it sends are
  Interest and Data packets, whose formats are blocks of names, numbers and byte strings.

  The theories, each with the source it models:

    \<^item> \<open>Prelude\<close>: exceptions and results of functions that may throw or not return; shared lemmas.
    \<^item> \<open>Dbl\<close>, \<open>Letter\<close>, \<open>Scaling\<close>, \<open>Matching\<close>, \<open>FindLetters\<close>, \<open>Recognition\<close>, \<open>ImageUtil\<close>, \<open>Ocr\<close>: doubles as
      they are rounded, lib/Letter.cpp, lib/processing.cpp, lib/image_util.cpp and ocr.cpp.
    \<^item> \<open>RoundRobin\<close>: round-robin-strategy.cpp. \<open>Producer\<close>: producer.cpp, producer_sergi.cpp and tess.cpp.
    \<^item> \<open>Tlv\<close>, \<open>Block\<close>, \<open>Encoding\<close>, \<open>BlockHelpers\<close>, \<open>StringHelper\<close>: src/encoding (tlv.hpp, block.cpp, encoder.cpp,
      estimator.cpp, block-helpers.cpp) and src/util/string-helper.cpp. A block is a range of a buffer with the
      sub-blocks it was parsed into; the buffers are shared in the code and copied here. \<open>Encoding\<close> has the interface
      that the encoder and the estimator implement, as the locale \<open>prepender\<close>; what a packet writes is proved once for both.
    \<^item> \<open>Component\<close>, \<open>Canonical\<close>, \<open>Name\<close>, \<open>NameProps\<close>, \<open>NameOrder\<close>: src/name-component.cpp and src/name.cpp.
    \<^item> \<open>Exclude\<close>, \<open>ExcludeProps\<close>, \<open>ExcludeWire\<close>: src/exclude.cpp, with the set of excluded components as the
      specification.
    \<^item> \<open>Elements\<close>: what the packet classes share, an element being a type and the bytes of its value. \<open>KeyLocator\<close>,
      \<open>Selectors\<close>, \<open>MetaInfo\<close>, \<open>Signature\<close>, \<open>Data\<close>, \<open>Link\<close>, \<open>Interest\<close>, \<open>InterestMatch\<close>, \<open>InterestWire\<close>: the classes
      of src/ of these names.
    \<^item> \<open>LpPacket\<close>: src/lp, the packets of the link protocol. \<open>Face\<close>: src/face.cpp with src/detail (face-impl.hpp,
      pending-interest.hpp, container-with-on-empty-signal.hpp, registered-prefix.hpp), src/interest-filter.cpp and
      src/lp/nack.hpp. A face is a record of its tables, its scheduler and what was posted to its io service; an event
      takes it from one state to the next; the callbacks of an application are programs of operations of the face.
      \<open>FaceProps\<close> has its invariant, \<open>FaceRun\<close> what happens to the Interests, \<open>FaceWire\<close> what
      crosses from one face to another, and \<open>FaceDemo\<close> concrete faces.
    \<^item> \<open>Scheduler\<close>: src/util/scheduler.cpp and scheduler-scoped-event-id.cpp.
    \<^item> \<open>Storage\<close>, \<open>StorageProps\<close>, \<open>StorageOps\<close>, \<open>StoragePolicy\<close>, \<open>StorageFind\<close>, \<open>StorageLife\<close>, \<open>StorageDemo\<close>:
      src/util/in-memory-storage.cpp with its entries and its four policies.
    \<^item> \<open>Regex\<close>: src/util/regex, the regular expressions over names: how an expression is compiled to a tree of matchers
      and how they match, with the matcher of an application. \<open>RegexLang\<close> gives each matcher its language,
      \<open>RegexSyntax\<close> the documented syntax, \<open>RegexTop\<close> anchors, filters of Interests and the matcher made from a name,
      \<open>RegexExpand\<close> the expansion of groups, \<open>RegexDemo\<close> concrete expressions. The regular expressions of Boost, which
      match one component, are a parameter; what is asked of them is \<open>lib_ok\<close>, \<open>dots_ok\<close> and \<open>literals_ok\<close>.

  Conventions. A function that may throw gives a \<open>result\<close>; what C++ leaves undefined is an exception of its own, so
  that no theorem can say of such a run that it returned. A loop that may run forever is a \<open>partial_function\<close>
  with the value \<open>None\<close>, and that it returns is proved where it is claimed; none of these loops is cut off by fuel. Machine integers are
  words, an \<open>int\<close> of C++ is an integer with its overflow written out where a value can reach it, a length of a
  list in memory is a natural number. Times and durations are nanoseconds of 64 bits that wrap (\<open>scheduleEvent\<close>,
  \<open>timeout_of\<close>); only the delay that the deadline timer is set to is computed without a bound. An object that a
  method changes is returned changed. An iterator is the number of the object it is at, taken when the code takes it. The clock, the random
  generator, SHA-256, the policy of a storage, the transport and the callbacks of an application are parameters.

  What is shown. Each packet format has a round trip: the encoding of a packet is the element its
  documentation says, and decoding it gives a packet with the same fields. The components of names are in a
  linear order that compare decides; isExcluded, excludeOne and excludeAfter implement the set of excluded
  components, and what ranges do to it is stated exactly; the matching of Interests is what the
  fields mean. The scheduler keeps its events sorted and its timer set, and executes what an abstract scheduler
  executes, in that order.
  The storage keeps its index, pool and policy consistent under every operation that returns, never exceeds its capacity, and
  find returns the packet that the selectors choose. In every run of a face a
  pending Interest has exactly one event for its timeout and gets at most one call; Data and Nacks go to exactly the
  Interests they match as long as no callback expresses another one they match, or no entry but the last is
  matched; what one face sends, another receives with the same fields. An expression over names compiles, and
  its matcher accepts the names of its language. The segmentation finds exactly the blobs of
  an image, the matching the nearest template; the strategy uses every next hop equally often; each answer of a
  producer has the text that \<open>run_tess\<close> (the library Tesseract, a parameter) finds in the image that came in for
  the Interest; the text recognition of ocr.cpp, \<open>run_ocr\<close>, is not called by the producers. Where the
  code does something else, the theorems say what it does: these are the findings of the manifest.

  Bounds. The round trips assume that a packet is smaller than 2^30 or 2^31 bytes, below which no size
  wraps in the 32-bit and 64-bit numbers of a block; a packet of the network has at most 8800 bytes. The scaling
  of templates assumes sides of at most 2^26, below which a double counts the steps exactly.

  Not modelled. The classes of src/security (keys, certificates, validators: they call Crypto++, OpenSSL, SQLite
  and the key chain of the system), the sockets of src/transport, the logging, the configuration files, DNS and
  the network monitor of src/util, and the management protocols of src/mgmt are input and output or calls of other libraries; consumer.cpp and
  consumer-with-timer.cpp print what comes back; round-robin-strategy_old.cpp is built by nothing.
\<close>

end
